(* ===== verification/Prelude.thy ===== *)
theory Prelude
  imports Main "HOL-Library.Word"
begin

text \<open>
  Shared vocabulary of the development: the machine types of the C code, the result
  type of code that can fail, the table scan every fixed-size kernel table is searched
  with, and the generic facts on lists and words that the component theories use.

  The code runs on 32-bit x86: \<open>char\<close> is 8 bits wide and signed, \<open>int\<close> and
  \<open>uint\<close> are 32 bits wide, pointers are 32 bits wide and integers are stored with the
  least significant byte first.
\<close>

unbundle bit_operations_syntax

section \<open>Machine types\<close>

type_synonym byte = "8 word"
type_synonym uint = "32 word"
type_synonym uint64 = "64 word"

named_theorems len_simps
  \<open>lengths of the fixed-size tables and buffers after an operation\<close>
named_theorems inv_intros
  \<open>preservation of the component invariants by the operations\<close>
named_theorems frame_simps
  \<open>parts of the state that an operation leaves alone\<close>

text \<open>The bytes of a string literal.\<close>

definition msg :: "string \<Rightarrow> byte list" where
  "msg s = map (\<lambda>c. of_nat (of_char c)) s"

section \<open>Results of code that can fail\<close>

text \<open>
  \<open>panic(msg)\<close> stops the kernel: it is the value \<open>Inl (Panic msg)\<close>. An access outside
  the object a pointer points to has no defined result in C: it is \<open>Inl BadAccess\<close>. A
  process that cannot go on unless another process acts, or that waits for a lock it holds
  itself, is \<open>Inl Stuck\<close>.
  Code that returns gives \<open>Inr\<close> of its result. Error returns such as \<open>-1\<close> are ordinary
  results.
\<close>

datatype fault = Panic string | BadAccess | Stuck

type_synonym 'a res = "fault + 'a"

definition bindE :: "'e + 'a \<Rightarrow> ('a \<Rightarrow> 'e + 'b) \<Rightarrow> 'e + 'b" where
  "bindE m f = (case m of Inl e \<Rightarrow> Inl e | Inr x \<Rightarrow> f x)"

definition mapE :: "('a \<Rightarrow> 'b) \<Rightarrow> 'e + 'a \<Rightarrow> 'e + 'b" where
  "mapE f m = (case m of Inl e \<Rightarrow> Inl e | Inr x \<Rightarrow> Inr (f x))"

lemma bindE_simps [simp]:
  "bindE (Inl e) f = Inl e"
  "bindE (Inr x) f = f x"
  by (simp_all add: bindE_def)

lemma mapE_simps [simp]:
  "mapE f (Inl e) = Inl e"
  "mapE f (Inr x) = Inr (f x)"
  by (simp_all add: mapE_def)

lemma bindE_eq_Inr [simp]: "bindE m f = Inr y \<longleftrightarrow> (\<exists>x. m = Inr x \<and> f x = Inr y)"
  by (cases m) auto

lemma mapE_eq_Inr [simp]: "mapE f m = Inr y \<longleftrightarrow> (\<exists>x. m = Inr x \<and> y = f x)"
  by (cases m) auto

lemma mapE_eq_Inl [simp]: "mapE f m = Inl e \<longleftrightarrow> m = Inl e"
  by (cases m) auto

lemma bindE_eq_Inl: "bindE m f = Inl e \<longleftrightarrow> m = Inl e \<or> (\<exists>x. m = Inr x \<and> f x = Inl e)"
  by (cases m) auto

lemma bindE_assoc: "bindE (bindE m f) g = bindE m (\<lambda>x. bindE (f x) g)"
  by (cases m) auto

lemma bindE_cong [fundef_cong]:
  "m = m' \<Longrightarrow> (\<And>x. m' = Inr x \<Longrightarrow> f x = f' x) \<Longrightarrow> bindE m f = bindE m' f'"
  by (cases m') auto

section \<open>Scanning a table\<close>

text \<open>
  \<open>for(p = table; p < &table[N]; p++) if(cond(p)) goto found;\<close> finds the first entry
  that satisfies the condition, or none.
\<close>

fun scan_from :: "('a \<Rightarrow> bool) \<Rightarrow> nat \<Rightarrow> 'a list \<Rightarrow> nat option" where
  "scan_from P i [] = None"
| "scan_from P i (x # xs) = (if P x then Some i else scan_from P (Suc i) xs)"

abbreviation scan :: "('a \<Rightarrow> bool) \<Rightarrow> 'a list \<Rightarrow> nat option" where
  "scan P xs \<equiv> scan_from P 0 xs"

lemma scan_from_Some:
  "scan_from P k xs = Some i \<Longrightarrow>
     k \<le> i \<and> i < k + length xs \<and> P (xs ! (i - k)) \<and> (\<forall>j < i - k. \<not> P (xs ! j))"
proof (induction xs arbitrary: k)
  case Nil
  then show ?case by simp
next
  case (Cons x xs)
  show ?case
  proof (cases "P x")
    case True
    with Cons.prems show ?thesis by simp
  next
    case False
    with Cons.prems have eq: "scan_from P (Suc k) xs = Some i" by simp
    from Cons.IH [OF this] have b: "Suc k \<le> i" "i < Suc k + length xs" "P (xs ! (i - Suc k))"
      and least: "\<forall>j < i - Suc k. \<not> P (xs ! j)" by auto
    from b(1) have i: "i - k = Suc (i - Suc k)" by simp
    have "\<not> P ((x # xs) ! j)" if "j < i - k" for j
      using that False least i by (cases j) auto
    with b i show ?thesis by auto
  qed
qed

lemma scan_from_None: "scan_from P k xs = None \<longleftrightarrow> (\<forall>x \<in> set xs. \<not> P x)"
  by (induction xs arbitrary: k) auto

lemma scan_Some:
  assumes "scan P xs = Some i"
  shows scan_Some_less: "i < length xs"
    and scan_Some_holds: "P (xs ! i)"
    and scan_Some_least: "\<And>j. j < i \<Longrightarrow> \<not> P (xs ! j)"
  using scan_from_Some [OF assms] by auto

lemma scan_None_nth: "scan P xs = None \<Longrightarrow> i < length xs \<Longrightarrow> \<not> P (xs ! i)"
  by (auto simp: scan_from_None)

lemma scan_from_cong:
  "length xs = length ys \<Longrightarrow> (\<And>i. i < length xs \<Longrightarrow> P (xs ! i) = Q (ys ! i)) \<Longrightarrow> scan_from P k xs = scan_from Q k ys"
proof (induction xs ys arbitrary: k rule: list_induct2)
  case (Cons x xs y ys)
  then have "P x = Q y" "\<And>i. i < length xs \<Longrightarrow> P (xs ! i) = Q (ys ! i)" by (force, force)
  with Cons.IH show ?case by simp
qed simp

lemma scan_exists: "i < length xs \<Longrightarrow> P (xs ! i) \<Longrightarrow> \<exists>j. scan P xs = Some j \<and> j \<le> i"
proof -
  assume i: "i < length xs" and P: "P (xs ! i)"
  then obtain j where j: "scan P xs = Some j"
    by (metis not_None_eq scan_None_nth)
  have "j \<le> i" using scan_Some_least [OF j] P by (meson not_le)
  with j show ?thesis by blast
qed

section \<open>Lists\<close>

lemma nth_update: "xs[i := x] ! j = (if i = j \<and> i < length xs then x else xs ! j)"
  by (cases "i < length xs") (simp_all add: nth_list_update list_update_beyond)

lemma list_update_map: "i < length xs \<Longrightarrow> map f (xs[i := x]) = (map f xs)[i := f x]"
  by (simp add: map_update)

text \<open>How many entries of a table satisfy a condition, after one entry changed.\<close>

abbreviation count_if :: "('a \<Rightarrow> bool) \<Rightarrow> 'a list \<Rightarrow> nat" where
  "count_if P xs \<equiv> length (filter P xs)"

lemma count_if_update:
  "i < length xs \<Longrightarrow>
     count_if P (xs[i := x]) + (if P (xs ! i) then 1 else 0)
       = count_if P xs + (if P x then 1 else 0)"
proof (induction xs arbitrary: i)
  case Nil
  then show ?case by simp
next
  case (Cons y ys)
  then show ?case by (cases i) auto
qed

lemma sum_list_update:
  fixes f :: "'a \<Rightarrow> nat"
  shows "i < length xs \<Longrightarrow>
     sum_list (map f (xs[i := x])) + f (xs ! i) = sum_list (map f xs) + f x"
proof (induction xs arbitrary: i)
  case Nil
  then show ?case by simp
next
  case (Cons y ys)
  show ?case
  proof (cases i)
    case 0
    then show ?thesis by simp
  next
    case (Suc k)
    with Cons.prems have "k < length ys" by simp
    from Cons.IH [OF this] Suc show ?thesis by simp
  qed
qed

section \<open>Descriptor tables\<close>

text \<open>How many entries of the descriptor tables of all processes refer to object \<open>i\<close>.\<close>

definition desc :: "nat option list list \<Rightarrow> nat \<Rightarrow> nat" where
  "desc os i = sum_list (map (count_if (\<lambda>d. d = Some i)) os)"

lemma desc_update:
  assumes "p < length os" and "k < length (os ! p)"
  shows "desc (os[p := (os ! p)[k := d]]) i + (if os ! p ! k = Some i then 1 else 0)
    = desc os i + (if d = Some i then 1 else 0)"
  using sum_list_update [OF assms(1), of "count_if (\<lambda>d. d = Some i)" "(os ! p)[k := d]"]
    count_if_update [OF assms(2), of "\<lambda>d. d = Some i" d]
  by (simp add: desc_def split: if_splits)

lemma desc_pos: "p < length os \<Longrightarrow> Some i \<in> set (os ! p) \<Longrightarrow> 0 < desc os i"
proof -
  assume p: "p < length os" and i: "Some i \<in> set (os ! p)"
  have "0 < count_if (\<lambda>d. d = Some i) (os ! p)"
    using i by (simp add: length_greater_0_conv filter_empty_conv)
  moreover have "count_if (\<lambda>d. d = Some i) (os ! p) \<le> desc os i"
    unfolding desc_def using p by (intro member_le_sum_list) simp_all
  ultimately show ?thesis by linarith
qed

lemma desc_le:
  assumes "\<forall>ds \<in> set os. length ds = n"
  shows "desc os i \<le> length os * n"
  using assms
proof (induction os)
  case Nil
  then show ?case by (simp add: desc_def)
next
  case (Cons ds os)
  have "count_if (\<lambda>d. d = Some i) ds \<le> n"
    using Cons.prems length_filter_le [of "\<lambda>d. d = Some i" ds] by simp
  with Cons show ?case by (simp add: desc_def)
qed

section \<open>Words\<close>

text \<open>The bytes of an \<open>int\<close> in memory, least significant first.\<close>

definition le32 :: "uint \<Rightarrow> byte list" where
  "le32 w = [ucast w, ucast (drop_bit 8 w), ucast (drop_bit 16 w), ucast (drop_bit 24 w)]"

definition of_le32 :: "byte list \<Rightarrow> uint" where
  "of_le32 bs = ucast (bs ! 0) OR push_bit 8 (ucast (bs ! 1))
     OR push_bit 16 (ucast (bs ! 2)) OR push_bit 24 (ucast (bs ! 3))"

lemma length_le32 [simp]: "length (le32 w) = 4"
  by (simp add: le32_def)

lemma of_le32_le32: "of_le32 (le32 w) = w"
proof (rule bit_word_eqI)
  fix n
  assume "n < LENGTH(32)"
  then show "bit (of_le32 (le32 w)) n = bit w n"
    by (cases "n < 24"; cases "n < 16"; cases "n < 8")
      (auto simp: of_le32_def le32_def bit_or_iff bit_push_bit_iff bit_ucast_iff bit_drop_bit_eq)
qed

lemma le32_inject: "le32 v = le32 w \<longleftrightarrow> v = w"
  by (metis of_le32_le32)

section \<open>Signed values\<close>

lemma uint_eq_sint: "0 \<le> sint (w :: uint) \<Longrightarrow> uint w = sint w"
proof -
  assume "0 \<le> sint w"
  moreover have "sint w < 2 ^ 31" using sint_lt [of w] by simp
  ultimately have "take_bit 32 (sint w) = sint w" by (intro take_bit_int_eq_self) auto
  then show ?thesis by (simp add: uint_sint)
qed

lemma unat_eq_sint: "0 \<le> sint (w :: uint) \<Longrightarrow> int (unat w) = sint w"
  using uint_eq_sint [of w] by (simp add: of_nat_unat)

lemma sint_eq_unat: "unat (w :: uint) < 2 ^ 31 \<Longrightarrow> sint w = int (unat w)"
proof -
  assume "unat w < 2 ^ 31"
  then have "uint w < 2 ^ 31" unfolding uint_nat by (simp del: of_nat_unat)
  moreover have "0 \<le> uint w" by simp
  ultimately have "signed_take_bit 31 (uint w) = uint w"
    by (intro signed_take_bit_int_eq_self) linarith+
  then show ?thesis by (simp add: sint_uint uint_nat del: of_nat_unat)
qed

lemma sint_pos_iff: "unat (w :: uint) < 2 ^ 31 \<Longrightarrow> 0 < sint w \<longleftrightarrow> w \<noteq> 0"
  by (simp add: sint_eq_unat unat_gt_0 del: of_nat_unat)

lemma sint_bounds: "- (2 ^ 31) \<le> sint (w :: uint)" "sint (w :: uint) < 2 ^ 31"
  using sint_ge [of w] sint_lt [of w] by simp_all

text \<open>\<open>++\<close> and \<open>--\<close> on an \<open>int\<close> that does not overflow.\<close>

lemma sint_inc: "sint (w :: uint) < 2 ^ 31 - 1 \<Longrightarrow> sint (w + 1) = sint w + 1"
proof -
  assume "sint w < 2 ^ 31 - 1"
  then have "signed_take_bit 31 (sint w + 1) = sint w + 1"
    using sint_bounds [of w] by (intro signed_take_bit_int_eq_self) auto
  then show ?thesis by (simp add: sint_word_ariths)
qed

lemma sint_dec: "- (2 ^ 31) < sint (w :: uint) \<Longrightarrow> sint (w - 1) = sint w - 1"
proof -
  assume "- (2 ^ 31) < sint w"
  then have "signed_take_bit 31 (sint w - 1) = sint w - 1"
    using sint_bounds [of w] by (intro signed_take_bit_int_eq_self) auto
  then show ?thesis by (simp add: sint_word_ariths)
qed

section \<open>Numbers in byte buffers\<close>

text \<open>A 32-bit and a 16-bit number at offset \<open>k\<close> of a buffer.\<close>

definition get32 :: "nat \<Rightarrow> byte list \<Rightarrow> uint" where
  "get32 k bs = of_le32 (take 4 (drop k bs))"

definition put32 :: "nat \<Rightarrow> uint \<Rightarrow> byte list \<Rightarrow> byte list" where
  "put32 k w bs = take k bs @ le32 w @ drop (k + 4) bs"

definition le16 :: "16 word \<Rightarrow> byte list" where
  "le16 w = [ucast w, ucast (drop_bit 8 w)]"

definition of_le16 :: "byte list \<Rightarrow> 16 word" where
  "of_le16 bs = ucast (bs ! 0) OR push_bit 8 (ucast (bs ! 1))"

definition get16 :: "nat \<Rightarrow> byte list \<Rightarrow> 16 word" where
  "get16 k bs = of_le16 (take 2 (drop k bs))"

definition put16 :: "nat \<Rightarrow> 16 word \<Rightarrow> byte list \<Rightarrow> byte list" where
  "put16 k w bs = take k bs @ le16 w @ drop (k + 2) bs"

lemma of_le16_le16: "of_le16 (le16 w) = w"
proof (rule bit_word_eqI)
  fix n
  assume "n < LENGTH(16)"
  then show "bit (of_le16 (le16 w)) n = bit w n"
    by (cases "n < 8") (auto simp: of_le16_def le16_def bit_or_iff bit_push_bit_iff bit_ucast_iff bit_drop_bit_eq)
qed

lemma length_le16 [simp]: "length (le16 w) = 2"
  by (simp add: le16_def)

lemma length_put32 [simp]: "k + 4 \<le> length bs \<Longrightarrow> length (put32 k w bs) = length bs"
  by (simp add: put32_def)

lemma length_put16 [simp]: "k + 2 \<le> length bs \<Longrightarrow> length (put16 k w bs) = length bs"
  by (simp add: put16_def)

lemma get32_put32_same [simp]: "k + 4 \<le> length bs \<Longrightarrow> get32 k (put32 k w bs) = w"
  by (simp add: get32_def put32_def of_le32_le32)

lemma get16_put16_same [simp]: "k + 2 \<le> length bs \<Longrightarrow> get16 k (put16 k w bs) = w"
  by (simp add: get16_def put16_def of_le16_le16)

lemma splice_disjoint:
  assumes "j + n \<le> k \<or> k + length ys \<le> j" and "k + length ys \<le> length bs"
  shows "take n (drop j (take k bs @ ys @ drop (k + length ys) bs)) = take n (drop j bs)"
  using assms(1)
proof
  assume "j + n \<le> k"
  moreover have "length (take k bs) = k" using assms(2) by simp
  ultimately have "take (n + j) (take k bs @ ys @ drop (k + length ys) bs) = take (n + j) bs"
    by (simp add: add.commute)
  then show ?thesis by (simp only: take_drop)
next
  assume j: "k + length ys \<le> j"
  have "drop j (take k bs @ ys @ drop (k + length ys) bs) = drop (j - k - length ys) (drop (k + length ys) bs)"
    using j assms(2) by simp
  also have "\<dots> = drop j bs" using j by (simp add: add.commute)
  finally show ?thesis by simp
qed

lemma get32_put32_other [simp]:
  "j + 4 \<le> k \<or> k + 4 \<le> j \<Longrightarrow> k + 4 \<le> length bs \<Longrightarrow> get32 j (put32 k w bs) = get32 j bs"
  using splice_disjoint [of j 4 k "le32 w" bs] by (simp add: get32_def put32_def)

lemma get16_put16_other [simp]:
  "j + 2 \<le> k \<or> k + 2 \<le> j \<Longrightarrow> k + 2 \<le> length bs \<Longrightarrow> get16 j (put16 k w bs) = get16 j bs"
  using splice_disjoint [of j 2 k "le16 w" bs] by (simp add: get16_def put16_def)

lemma get32_put16_other [simp]:
  "j + 4 \<le> k \<or> k + 2 \<le> j \<Longrightarrow> k + 2 \<le> length bs \<Longrightarrow> get32 j (put16 k w bs) = get32 j bs"
  using splice_disjoint [of j 4 k "le16 w" bs] by (simp add: get32_def put16_def)

lemma get16_put32_other [simp]:
  "j + 2 \<le> k \<or> k + 4 \<le> j \<Longrightarrow> k + 4 \<le> length bs \<Longrightarrow> get16 j (put32 k w bs) = get16 j bs"
  using splice_disjoint [of j 2 k "le32 w" bs] by (simp add: get16_def put32_def)

end
