(* ===== verification/Cstring.thy ===== *)
theory Cstring
  imports Prelude
begin

text \<open>
  The memory and string routines of the kernel (\<open>string.c\<close>) and of the user library
  (\<open>ulib.c\<close>). A routine that may be given overlapping buffers works on a memory
  \<open>nat \<Rightarrow> byte\<close> and addresses; a routine on separate buffers works on byte lists, the
  bytes of the object from the pointer on, and an access past the end of the list is
  \<open>BadAccess\<close>. \<open>cstr\<close> reads the string a buffer holds, up to its NUL.
\<close>

type_synonym memory = "nat \<Rightarrow> byte"

definition cstr :: "byte list \<Rightarrow> byte list" where
  "cstr bs = takeWhile (\<lambda>c. c \<noteq> 0) bs"

section \<open>string.c: memory\<close>

fun stosb :: "memory \<Rightarrow> nat \<Rightarrow> byte \<Rightarrow> nat \<Rightarrow> memory" where
  "stosb m a c 0 = m"
| "stosb m a c (Suc n) = stosb (m(a := c)) (Suc a) c n"

fun stosl :: "memory \<Rightarrow> nat \<Rightarrow> uint \<Rightarrow> nat \<Rightarrow> memory" where
  "stosl m a w 0 = m"
| "stosl m a w (Suc n) =
     stosl (m(a := le32 w ! 0, a + 1 := le32 w ! 1, a + 2 := le32 w ! 2, a + 3 := le32 w ! 3))
       (a + 4) w n"

definition memset :: "memory \<Rightarrow> nat \<Rightarrow> uint \<Rightarrow> nat \<Rightarrow> memory" where
  "memset m dst c n =
     (if dst mod 4 = 0 \<and> n mod 4 = 0 then
        let c = c AND 0xFF
        in stosl m dst (push_bit 24 c OR push_bit 16 c OR push_bit 8 c OR c) (n div 4)
      else stosb m dst (ucast c) n)"

fun memcmp :: "byte list \<Rightarrow> byte list \<Rightarrow> nat \<Rightarrow> int res" where
  "memcmp s1 s2 0 = Inr 0"
| "memcmp (a # s1) (b # s2) (Suc n) =
     (if a \<noteq> b then Inr (uint a - uint b) else memcmp s1 s2 n)"
| "memcmp _ _ (Suc n) = Inl BadAccess"

fun copy_fwd :: "memory \<Rightarrow> nat \<Rightarrow> nat \<Rightarrow> nat \<Rightarrow> memory" where
  "copy_fwd m d s 0 = m"
| "copy_fwd m d s (Suc n) = copy_fwd (m(d := m s)) (Suc d) (Suc s) n"

fun copy_back :: "memory \<Rightarrow> nat \<Rightarrow> nat \<Rightarrow> nat \<Rightarrow> memory" where
  "copy_back m d s 0 = m"
| "copy_back m d s (Suc n) = copy_back (m(d - 1 := m (s - 1))) (d - 1) (s - 1) n"

definition memmove :: "memory \<Rightarrow> nat \<Rightarrow> nat \<Rightarrow> nat \<Rightarrow> memory" where
  "memmove m dst src n =
     (if src < dst \<and> src + n > dst then copy_back m (dst + n) (src + n) n
      else copy_fwd m dst src n)"

definition memcpy :: "memory \<Rightarrow> nat \<Rightarrow> nat \<Rightarrow> nat \<Rightarrow> memory" where
  "memcpy m dst src n = memmove m dst src n"

section \<open>string.c: strings\<close>

fun strncmp :: "byte list \<Rightarrow> byte list \<Rightarrow> nat \<Rightarrow> int res" where
  "strncmp p q 0 = Inr 0"
| "strncmp (a # p) (b # q) (Suc n) =
     (if a \<noteq> 0 \<and> a = b then strncmp p q n else Inr (uint a - uint b))"
| "strncmp _ _ (Suc n) = Inl BadAccess"

fun zero_fill :: "byte list \<Rightarrow> nat \<Rightarrow> byte list res" where
  "zero_fill s 0 = Inr s"
| "zero_fill (d # s) (Suc n) = mapE (Cons 0) (zero_fill s n)"
| "zero_fill [] (Suc n) = Inl BadAccess"

fun strncpy_loop :: "byte list \<Rightarrow> byte list \<Rightarrow> nat \<Rightarrow> byte list res" where
  "strncpy_loop s t 0 = Inr s"
| "strncpy_loop (d # s) (c # t) (Suc n) =
     mapE (Cons c) (if c \<noteq> 0 then strncpy_loop s t n else zero_fill s n)"
| "strncpy_loop _ _ (Suc n) = Inl BadAccess"

definition strncpy :: "byte list \<Rightarrow> byte list \<Rightarrow> int \<Rightarrow> byte list res" where
  "strncpy s t n = strncpy_loop s t (nat n)"

text \<open>
  The loop of \<open>safestrcpy\<close>, with \<open>k\<close> the value of \<open>n\<close> after the decrement. When the
  loop ends because a NUL was copied, \<open>s\<close> already points past it and the final
  assignment writes a second one.
\<close>

fun safestrcpy_loop :: "byte list \<Rightarrow> byte list \<Rightarrow> nat \<Rightarrow> byte list res" where
  "safestrcpy_loop (d # s) t 0 = Inr (0 # s)"
| "safestrcpy_loop [] t 0 = Inl BadAccess"
| "safestrcpy_loop (d # s) (c # t) (Suc k) =
     mapE (Cons c) (if c \<noteq> 0 then safestrcpy_loop s t k else safestrcpy_loop s t 0)"
| "safestrcpy_loop _ _ (Suc k) = Inl BadAccess"

definition safestrcpy :: "byte list \<Rightarrow> byte list \<Rightarrow> int \<Rightarrow> byte list res" where
  "safestrcpy s t n = (if n \<le> 0 then Inr s else safestrcpy_loop s t (nat (n - 1)))"

fun strlen :: "byte list \<Rightarrow> nat res" where
  "strlen [] = Inl BadAccess"
| "strlen (c # s) = (if c = 0 then Inr 0 else mapE Suc (strlen s))"

section \<open>ulib.c\<close>

fun strcpy :: "byte list \<Rightarrow> byte list \<Rightarrow> byte list res" where
  "strcpy (d # s) (c # t) = mapE (Cons c) (if c \<noteq> 0 then strcpy s t else Inr s)"
| "strcpy _ _ = Inl BadAccess"

fun strcmp :: "byte list \<Rightarrow> byte list \<Rightarrow> int res" where
  "strcmp (a # p) (b # q) =
     (if a \<noteq> 0 \<and> a = b then strcmp p q else Inr (uint a - uint b))"
| "strcmp _ _ = Inl BadAccess"

definition ulib_memset :: "memory \<Rightarrow> nat \<Rightarrow> uint \<Rightarrow> nat \<Rightarrow> memory" where
  "ulib_memset m dst c n = stosb m dst (ucast c) n"

text \<open>\<open>strchr\<close> returns the offset of the first \<open>c\<close>, or no pointer.\<close>

fun strchr_from :: "nat \<Rightarrow> byte list \<Rightarrow> byte \<Rightarrow> nat option res" where
  "strchr_from i [] c = Inl BadAccess"
| "strchr_from i (x # s) c =
     (if x = 0 then Inr None else if x = c then Inr (Some i) else strchr_from (Suc i) s c)"

definition strchr :: "byte list \<Rightarrow> byte \<Rightarrow> nat option res" where
  "strchr s c = strchr_from 0 s c"

text \<open>
  \<open>gets(buf, max)\<close> reads one byte at a time from file 0: \<open>inp\<close> is what the file still
  holds, at the end of which \<open>read\<close> returns 0. The result is what is stored from
  \<open>buf\<close> on (its NUL included) and what is left to read.
\<close>

fun gets_loop :: "nat \<Rightarrow> int \<Rightarrow> byte list \<Rightarrow> byte list \<times> byte list" where
  "gets_loop i maxn inp =
     (if int i + 1 < maxn then
        (case inp of [] \<Rightarrow> ([0], [])
         | c # rest \<Rightarrow>
             if c = 10 \<or> c = 13 then ([c, 0], rest)
             else let (bs, rest') = gets_loop (Suc i) maxn rest in (c # bs, rest'))
      else ([0], inp))"

declare gets_loop.simps [simp del]

definition gets :: "int \<Rightarrow> byte list \<Rightarrow> byte list \<times> byte list" where
  "gets maxn inp = gets_loop 0 maxn inp"

definition is_digit :: "byte \<Rightarrow> bool" where
  "is_digit c \<longleftrightarrow> 48 \<le> c \<and> c \<le> 57"

fun atoi_loop :: "uint \<Rightarrow> byte list \<Rightarrow> uint res" where
  "atoi_loop n [] = Inl BadAccess"
| "atoi_loop n (c # s) = (if is_digit c then atoi_loop (n * 10 + ucast c - 48) s else Inr n)"

definition atoi :: "byte list \<Rightarrow> uint res" where
  "atoi s = atoi_loop 0 s"

definition ulib_memmove :: "memory \<Rightarrow> nat \<Rightarrow> nat \<Rightarrow> int \<Rightarrow> memory" where
  "ulib_memmove m dst src n = copy_fwd m dst src (nat n)"

section \<open>Memory routines: what they compute\<close>

lemma stosb_apply: "stosb m a c n x = (if a \<le> x \<and> x < a + n then c else m x)"
  by (induction n arbitrary: m a) auto

lemma stosl_apply:
  "stosl m a w n x = (if a \<le> x \<and> x < a + 4 * n then le32 w ! ((x - a) mod 4) else m x)"
proof (induction n arbitrary: m a)
  case 0
  then show ?case by auto
next
  case (Suc n)
  have step: "(x - (a + 4)) mod 4 = (x - a) mod 4" if "a + 4 \<le> x"
    using that by (simp add: le_mod_geq)
  show ?case
  proof (cases "a \<le> x \<and> x < a + 4")
    case True
    then have "x = a \<or> x = a + 1 \<or> x = a + 2 \<or> x = a + 3" by arith
    with Suc show ?thesis by auto
  next
    case False
    with Suc show ?thesis by (auto simp: step)
  qed
qed

lemma bit_0xFF: "bit (0xFF :: uint) n \<longleftrightarrow> n < 8"
proof -
  have "(0xFF :: uint) = mask 8" by (simp add: mask_eq_exp_minus_1)
  moreover have "bit (mask 8 :: uint) n \<longleftrightarrow> n < 8"
    by (simp only: bit_mask_iff possible_bit_word) auto
  ultimately show ?thesis by (simp only:)
qed

lemma le32_bytes:
  fixes c c' :: uint
  assumes c: "c = c' AND 0xFF" and i: "i < 4"
  shows "le32 (push_bit 24 c OR push_bit 16 c OR push_bit 8 c OR c) ! i = ucast c"
proof -
  have "bit c n \<longleftrightarrow> bit c' n \<and> n < 8" for n
    by (simp only: c bit_and_iff bit_0xFF)
  then have bits: "\<not> bit c n" if "8 \<le> n" for n
    using that by simp
  let ?w = "push_bit 24 c OR push_bit 16 c OR push_bit 8 c OR c"
  have byte: "ucast (drop_bit k ?w) = (ucast c :: byte)" if "k = 0 \<or> k = 8 \<or> k = 16 \<or> k = 24" for k
  proof (rule bit_word_eqI)
    fix n assume n: "n < LENGTH(8)"
    have "bit (ucast (drop_bit k ?w) :: byte) n \<longleftrightarrow> bit ?w (k + n) \<and> n < 8"
      by (simp only: bit_ucast_iff bit_drop_bit_eq o_def) auto
    also have "\<dots> \<longleftrightarrow> bit c n \<and> n < 8"
      using that n by (auto simp only: bit_or_iff bit_push_bit_iff possible_bit_word) (auto simp: bits)
    finally show "bit (ucast (drop_bit k ?w) :: byte) n \<longleftrightarrow> bit (ucast c :: byte) n"
      by (simp only: bit_ucast_iff) auto
  qed
  from i have "i = 0 \<or> i = 1 \<or> i = 2 \<or> i = 3" by arith
  then show ?thesis
    using byte [of 0] byte [of 8] byte [of 16] byte [of 24]
    by (elim disjE) (simp_all only: le32_def nth_Cons_0 nth_Cons_numeral drop_bit_0 id_apply, simp_all)
qed

lemma memset_apply: "memset m dst c n x = (if dst \<le> x \<and> x < dst + n then ucast c else m x)"
proof (cases "dst mod 4 = 0 \<and> n mod 4 = 0")
  case True
  then have n: "4 * (n div 4) = n" by auto
  have low: "ucast (c AND 0xFF) = (ucast c :: byte)"
    by (rule bit_word_eqI) (simp only: bit_ucast_iff bit_and_iff bit_0xFF len_num1 len_num0 len_bit0 len_bit1, simp)
  have "le32 (push_bit 24 (c AND 0xFF) OR push_bit 16 (c AND 0xFF) OR push_bit 8 (c AND 0xFF)
      OR (c AND 0xFF)) ! ((x - dst) mod 4) = ucast (c AND 0xFF)"
    by (rule le32_bytes [OF refl]) simp
  note byte = this [unfolded low]
  show ?thesis unfolding memset_def if_P [OF True] Let_def stosl_apply n byte by (rule refl)
next
  case False
  show ?thesis unfolding memset_def if_not_P [OF False] by (rule stosb_apply)
qed

lemma copy_fwd_apply:
  "d \<le> s \<or> s + n \<le> d \<Longrightarrow>
     copy_fwd m d s n x = (if d \<le> x \<and> x < d + n then m (s + (x - d)) else m x)"
proof (induction n arbitrary: m d s)
  case 0
  then show ?case by auto
next
  case (Suc n)
  have IH: "copy_fwd (m(d := m s)) (Suc d) (Suc s) n x
      = (if Suc d \<le> x \<and> x < Suc d + n then (m(d := m s)) (Suc s + (x - Suc d))
         else (m(d := m s)) x)"
    by (rule Suc.IH) (use Suc.prems in linarith)
  show ?case
  proof (cases "Suc d \<le> x \<and> x < Suc d + n")
    case True
    then have "Suc s + (x - Suc d) = s + (x - d)" "s + (x - d) \<noteq> d"
      using Suc.prems by linarith+
    with IH True show ?thesis by simp
  next
    case False
    then have "x = d \<or> \<not> (d \<le> x \<and> x < d + Suc n) \<and> x \<noteq> d" by linarith
    then show ?thesis
    proof
      assume "x = d"
      with IH show ?thesis by simp
    next
      assume "\<not> (d \<le> x \<and> x < d + Suc n) \<and> x \<noteq> d"
      then show ?thesis unfolding copy_fwd.simps IH if_not_P [OF False] by auto
    qed
  qed
qed

lemma copy_back_apply:
  "s \<le> d \<Longrightarrow>
     copy_back m (d + n) (s + n) n x = (if d \<le> x \<and> x < d + n then m (s + (x - d)) else m x)"
proof (induction n arbitrary: m)
  case 0
  then show ?case by auto
next
  case (Suc n)
  have IH: "copy_back (m(d + n := m (s + n))) (d + n) (s + n) n x
      = (if d \<le> x \<and> x < d + n then (m(d + n := m (s + n))) (s + (x - d))
         else (m(d + n := m (s + n))) x)"
    by (rule Suc.IH [OF Suc.prems])
  have start: "copy_back m (d + Suc n) (s + Suc n) (Suc n) x
      = copy_back (m(d + n := m (s + n))) (d + n) (s + n) n x"
    by simp
  show ?case
  proof (cases "d \<le> x \<and> x < d + n")
    case True
    then have "s + (x - d) \<noteq> d + n" using Suc.prems by linarith
    with True show ?thesis unfolding start IH by simp
  next
    case False
    then show ?thesis unfolding start IH by auto
  qed
qed

lemma memmove_apply:
  "memmove m dst src n x = (if dst \<le> x \<and> x < dst + n then m (src + (x - dst)) else m x)"
proof (cases "src < dst \<and> src + n > dst")
  case True
  then show ?thesis by (simp add: memmove_def copy_back_apply)
next
  case False
  then have "dst \<le> src \<or> src + n \<le> dst" by linarith
  then show ?thesis unfolding memmove_def if_not_P [OF False] by (rule copy_fwd_apply)
qed

section \<open>Strings: what the routines compute\<close>

lemma cstr_Nil [simp]: "cstr [] = []"
  by (simp add: cstr_def)

lemma cstr_Cons [simp]: "cstr (c # s) = (if c = 0 then [] else c # cstr s)"
  by (simp add: cstr_def)

lemma cstr_append_nul [simp]: "cstr (xs @ 0 # ys) = cstr xs"
  by (induction xs) auto

lemma cstr_no_nul: "0 \<notin> set xs \<Longrightarrow> cstr xs = xs"
  by (induction xs) auto

lemma nul_notin_cstr: "0 \<notin> set (cstr xs)"
  by (induction xs) auto

lemma length_cstr_less: "0 \<in> set xs \<Longrightarrow> length (cstr xs) < length xs"
  by (induction xs) auto

lemma length_cstr_le: "length (cstr xs) \<le> length xs"
  by (induction xs) auto

text \<open>\<open>n\<close> bytes, or the bytes up to a NUL, can be read from \<open>s\<close> on.\<close>

definition readable :: "byte list \<Rightarrow> nat \<Rightarrow> bool" where
  "readable s n \<longleftrightarrow> n \<le> length s \<or> 0 \<in> set s"

lemma readable_simps [simp]:
  "readable s 0"
  "readable [] (Suc n) \<longleftrightarrow> False"
  "readable (c # s) (Suc n) \<longleftrightarrow> c = 0 \<or> readable s n"
  by (auto simp: readable_def)

lemma strncmp_total:
  "readable p n \<Longrightarrow> readable q n \<Longrightarrow>
     \<exists>r. strncmp p q n = Inr r \<and> (r = 0 \<longleftrightarrow> take n (cstr p) = take n (cstr q))"
  by (induction p q n rule: strncmp.induct) (auto simp: word_uint_eq_iff)

lemma strncmp_eq_0:
  assumes "readable p n" and "readable q n"
  shows "strncmp p q n = Inr 0 \<longleftrightarrow> take n (cstr p) = take n (cstr q)"
  using strncmp_total [OF assms] by auto

lemma strcmp_total:
  "0 \<in> set p \<Longrightarrow> 0 \<in> set q \<Longrightarrow> \<exists>r. strcmp p q = Inr r \<and> (r = 0 \<longleftrightarrow> cstr p = cstr q)"
  by (induction p q rule: strcmp.induct) (auto simp: word_uint_eq_iff)

lemma memcmp_total:
  "n \<le> length s1 \<Longrightarrow> n \<le> length s2 \<Longrightarrow>
     \<exists>r. memcmp s1 s2 n = Inr r \<and> (r = 0 \<longleftrightarrow> take n s1 = take n s2)"
  by (induction s1 s2 n rule: memcmp.induct) (auto simp: word_uint_eq_iff)

lemma zero_fill_spec: "n \<le> length s \<Longrightarrow> zero_fill s n = Inr (replicate n 0 @ drop n s)"
  by (induction s n rule: zero_fill.induct) auto

lemma strncpy_loop_spec:
  "n \<le> length s \<Longrightarrow> readable t n \<Longrightarrow>
     strncpy_loop s t n
       = Inr (take n (cstr t) @ replicate (n - length (cstr t)) 0 @ drop n s)"
  by (induction s t n rule: strncpy_loop.induct) (auto simp: zero_fill_spec)

lemma safestrcpy_loop_spec:
  "k < length s \<Longrightarrow> readable t k \<Longrightarrow>
     \<exists>r. safestrcpy_loop s t k = Inr r \<and> length r = length s \<and>
         cstr r = take k (cstr t) \<and> 0 \<in> set (take (Suc k) r) \<and> drop (Suc k) r = drop (Suc k) s \<and>
         take (length (take k (cstr t)) + 1) r = take k (cstr t) @ [0]"
proof (induction s t k rule: safestrcpy_loop.induct)
  case (3 d s c t k)
  show ?case
  proof (cases "c = 0")
    case True
    with 3 obtain d' s' where "s = d' # s'" by (cases s) auto
    with True show ?thesis by simp
  next
    case False
    with 3 obtain r where "safestrcpy_loop s t k = Inr r" "length r = length s"
      "cstr r = take k (cstr t)" "0 \<in> set (take (Suc k) r)" "drop (Suc k) r = drop (Suc k) s"
      "take (length (take k (cstr t)) + 1) r = take k (cstr t) @ [0]"
      by auto
    with False show ?thesis by (intro exI [of _ "c # r"]) simp
  qed
qed simp_all

lemma safestrcpy_spec:
  assumes "0 < n" and "nat n \<le> length s" and "readable t (nat n - 1)"
  shows "\<exists>r. safestrcpy s t n = Inr r \<and> length r = length s \<and>
    cstr r = take (nat n - 1) (cstr t) \<and> 0 \<in> set (take (nat n) r) \<and>
    drop (nat n) r = drop (nat n) s"
proof -
  have "nat n - 1 < length s" and Suc: "Suc (nat n - 1) = nat n"
    using assms(1,2) by auto
  from safestrcpy_loop_spec [OF this(1) assms(3)] obtain r where
    "safestrcpy_loop s t (nat n - 1) = Inr r" "length r = length s"
    "cstr r = take (nat n - 1) (cstr t)" "0 \<in> set (take (nat n) r)"
    "drop (nat n) r = drop (nat n) s"
    unfolding Suc by blast
  moreover have "nat (n - 1) = nat n - 1" using assms(1) by simp
  ultimately show ?thesis using assms(1) by (simp add: safestrcpy_def)
qed

lemma strlen_spec: "strlen s = (if 0 \<in> set s then Inr (length (cstr s)) else Inl BadAccess)"
  by (induction s) auto

lemma strcpy_spec:
  "0 \<in> set t \<Longrightarrow> length (cstr t) < length s \<Longrightarrow>
     strcpy s t = Inr (cstr t @ 0 # drop (Suc (length (cstr t))) s)"
  by (induction s t rule: strcpy.induct) auto

lemma strchr_from_spec:
  "0 \<in> set s \<Longrightarrow>
     strchr_from k s c = Inr (if c \<noteq> 0 then scan_from (\<lambda>x. x = c) k (cstr s) else None)"
  by (induction k s c rule: strchr_from.induct) auto

lemma strchr_spec:
  "0 \<in> set s \<Longrightarrow> strchr s c = Inr (if c \<noteq> 0 then scan (\<lambda>x. x = c) (cstr s) else None)"
  by (simp add: strchr_def strchr_from_spec)

text \<open>\<open>gets\<close> stores one line, its end included, and no more than \<open>max - 1\<close> bytes of it.\<close>

fun first_line :: "byte list \<Rightarrow> byte list" where
  "first_line [] = []"
| "first_line (c # s) = (if c = 10 \<or> c = 13 then [c] else c # first_line s)"

lemma gets_loop_spec:
  "gets_loop i maxn inp
     = (take (nat (maxn - 1 - int i)) (first_line inp) @ [0],
        drop (length (take (nat (maxn - 1 - int i)) (first_line inp))) inp)"
proof (induction i maxn inp rule: gets_loop.induct)
  case (1 i maxn inp)
  show ?case
  proof (cases "int i + 1 < maxn")
    case True
    define k where "k = nat (maxn - 2 - int i)"
    have k: "nat (maxn - 1 - int i) = Suc k" "nat (maxn - 1 - int (Suc i)) = k"
      using True by (simp_all add: k_def)
    show ?thesis
    proof (cases inp)
      case Nil
      with True show ?thesis by (simp add: gets_loop.simps)
    next
      case (Cons c rest)
      with True "1.IH" [OF True Cons] k show ?thesis
        by (subst gets_loop.simps) auto
    qed
  next
    case False
    then show ?thesis by (simp add: gets_loop.simps)
  qed
qed

text \<open>The number a string of decimal digits stands for.\<close>

fun dec_value :: "nat \<Rightarrow> byte list \<Rightarrow> nat" where
  "dec_value n [] = n"
| "dec_value n (c # s) = dec_value (10 * n + (unat c - 48)) s"

lemma atoi_loop_spec:
  "\<forall>c \<in> set ds. is_digit c \<Longrightarrow> \<not> is_digit e \<Longrightarrow>
     atoi_loop (word_of_nat n) (ds @ e # s) = Inr (word_of_nat (dec_value n ds))"
proof (induction ds arbitrary: n)
  case Nil
  then show ?case by simp
next
  case (Cons c ds)
  then have c: "48 \<le> unat c" by (simp add: is_digit_def word_le_nat_alt)
  have step: "word_of_nat n * 10 + ucast c - 48 = (word_of_nat (10 * n + (unat c - 48)) :: uint)"
    using c by (simp add: of_nat_diff algebra_simps)
  have "atoi_loop (word_of_nat n) ((c # ds) @ e # s)
      = atoi_loop (word_of_nat (10 * n + (unat c - 48))) (ds @ e # s)"
    using Cons.prems(1) by (simp add: step del: of_nat_add of_nat_mult)
  also have "\<dots> = Inr (word_of_nat (dec_value n (c # ds)))"
    using Cons.prems by (simp add: Cons.IH del: of_nat_add of_nat_mult)
  finally show ?case .
qed

lemma atoi_spec:
  "\<forall>c \<in> set ds. is_digit c \<Longrightarrow> \<not> is_digit e \<Longrightarrow>
     atoi (ds @ e # s) = Inr (word_of_nat (dec_value 0 ds))"
  using atoi_loop_spec [of ds e 0 s] by (simp add: atoi_def)

section \<open>Properties\<close>

text \<open>
  C30. \<open>memmove\<close> copies as if through a temporary buffer, whether or not the two ranges
  overlap, and changes nothing outside the destination.
\<close>

theorem memmove_overlap_safe:
  "memmove m dst src n x = (if dst \<le> x \<and> x < dst + n then m (src + (x - dst)) else m x)"
  by (rule memmove_apply)

text \<open>
  \<open>safestrcpy\<close> into a buffer of at least \<open>n\<close> bytes, from a string that is readable,
  stays inside the buffer's first \<open>n\<close> bytes, always terminates what it wrote, and the
  result is the source string cut to \<open>n - 1\<close> characters.
\<close>

lemma safestrcpy_truncates:
  assumes "0 < n" and "nat n \<le> length s" and "readable t (nat n - 1)"
  shows "\<exists>r. safestrcpy s t n = Inr r \<and> length r = length s \<and>
    cstr r = take (nat n - 1) (cstr t) \<and> 0 \<in> set (take (nat n) r) \<and> drop (nat n) r = drop (nat n) s"
  by (rule safestrcpy_spec [OF assms])

lemma safestrcpy_truncates_witness:
  "\<exists>r. safestrcpy [9, 9, 9, 9, 9] [1, 2, 3, 4, 0] 4 = Inr r \<and> cstr r = [1, 2, 3] \<and> r ! 4 = 9"
proof -
  have "readable [1, 2, 3, 4, 0 :: byte] (nat 4 - 1)" by (simp add: readable_def)
  from safestrcpy_truncates [of 4 "[9, 9, 9, 9, 9]", OF _ _ this]
  obtain r where r: "safestrcpy [9, 9, 9, 9, 9] [1, 2, 3, 4, 0] 4 = Inr r" "length r = 5"
      "cstr r = [1, 2, 3]" "drop 4 r = [9 :: byte]" by auto
  then have "r ! 4 = 9" by (metis hd_drop_conv_nth lessI list.sel(1) numeral_eq_Suc pred_numeral_simps(2) pred_numeral_simps(3))
  with r show ?thesis by blast
qed

end
