(* ===== verification/Kalloc.thy ===== *)
theory Kalloc
  imports Cstring
begin

text \<open>
  The physical page allocator (\<open>kalloc.c\<close>). A free page holds, in its first four
  bytes, the pointer to the next free page; \<open>kmem.freelist\<close> points to the first one.
  The model keeps the pages' contents in a memory, so that the list is the chain of
  pointers stored there. \<open>kend\<close> is the linker's symbol \<open>end\<close>, the first address after
  the kernel. Addresses are the kernel's virtual addresses.
\<close>

section \<open>Memory layout (memlayout.h, mmu.h)\<close>

definition KERNBASE :: uint where "KERNBASE = 0x80000000"
definition PHYSTOP :: uint where "PHYSTOP = 0xE000000"
definition EXTMEM :: uint where "EXTMEM = 0x100000"
definition PGSIZE :: uint where "PGSIZE = 4096"

definition V2P :: "uint \<Rightarrow> uint" where "V2P a = a - KERNBASE"
definition P2V :: "uint \<Rightarrow> uint" where "P2V a = a + KERNBASE"

definition PGROUNDUP :: "uint \<Rightarrow> uint" where
  "PGROUNDUP sz = (sz + PGSIZE - 1) AND NOT (PGSIZE - 1)"

definition PGROUNDDOWN :: "uint \<Rightarrow> uint" where
  "PGROUNDDOWN a = a AND NOT (PGSIZE - 1)"

section \<open>Words in memory\<close>

definition read32 :: "memory \<Rightarrow> uint \<Rightarrow> uint" where
  "read32 m a = of_le32 (map (\<lambda>i. m (unat a + i)) [0..<4])"

definition write32 :: "memory \<Rightarrow> uint \<Rightarrow> uint \<Rightarrow> memory" where
  "write32 m a w =
     m(unat a := le32 w ! 0, unat a + 1 := le32 w ! 1, unat a + 2 := le32 w ! 2,
       unat a + 3 := le32 w ! 3)"

lemma read32_write32 [simp]: "read32 (write32 m a w) a = w"
proof -
  have "map (\<lambda>i. write32 m a w (unat a + i)) [0..<4] = le32 w"
    by (simp add: write32_def le32_def upt_rec)
  then show ?thesis by (simp only: read32_def of_le32_le32)
qed

lemma read32_cong: "(\<And>i. i < 4 \<Longrightarrow> m (unat a + i) = m' (unat a + i)) \<Longrightarrow> read32 m a = read32 m' a"
  unfolding read32_def by (intro arg_cong [where f = of_le32] map_cong) auto

lemma write32_outside: "x < unat a \<or> unat a + 4 \<le> x \<Longrightarrow> write32 m a w x = m x"
  by (auto simp: write32_def)

section \<open>The allocator\<close>

record kmem =
  use_lock :: bool
  freelist :: uint
  pages :: memory

definition page_ok :: "uint \<Rightarrow> uint \<Rightarrow> bool" where
  "page_ok kend v \<longleftrightarrow> v mod PGSIZE = 0 \<and> kend \<le> v \<and> V2P v < PHYSTOP"

definition kfree :: "uint \<Rightarrow> uint \<Rightarrow> kmem \<Rightarrow> kmem res" where
  "kfree kend v k =
     (if v mod PGSIZE \<noteq> 0 \<or> v < kend \<or> PHYSTOP \<le> V2P v then Inl (Panic ''kfree'')
      else let k = k\<lparr>pages := memset (pages k) (unat v) 1 4096\<rparr>;
               k = k\<lparr>pages := write32 (pages k) v (freelist k)\<rparr>
           in Inr (k\<lparr>freelist := v\<rparr>))"

definition kalloc :: "kmem \<Rightarrow> uint \<times> kmem" where
  "kalloc k =
     (let r = freelist k
      in (r, if r \<noteq> 0 then k\<lparr>freelist := read32 (pages k) r\<rparr> else k))"

text \<open>
  The loop of \<open>freerange\<close>: the pointers it compares are kernel addresses below
  \<open>P2V(PHYSTOP)\<close>, so \<open>p + PGSIZE\<close> does not wrap and the addresses are numbers here.
\<close>

function freerange_loop :: "uint \<Rightarrow> nat \<Rightarrow> nat \<Rightarrow> kmem \<Rightarrow> kmem res" where
  "freerange_loop kend p vend k =
     (if p + 4096 \<le> vend then
        bindE (kfree kend (word_of_nat p) k) (\<lambda>k. freerange_loop kend (p + 4096) vend k)
      else Inr k)"
  by pat_completeness auto
termination
  by (relation "measure (\<lambda>(kend, p, vend, k). vend - p)") auto

declare freerange_loop.simps [simp del]

definition freerange :: "uint \<Rightarrow> uint \<Rightarrow> uint \<Rightarrow> kmem \<Rightarrow> kmem res" where
  "freerange kend vstart vend k = freerange_loop kend (unat (PGROUNDUP vstart)) (unat vend) k"

definition kinit1 :: "uint \<Rightarrow> uint \<Rightarrow> uint \<Rightarrow> kmem \<Rightarrow> kmem res" where
  "kinit1 kend vstart vend k = freerange kend vstart vend (k\<lparr>use_lock := False\<rparr>)"

definition kinit2 :: "uint \<Rightarrow> uint \<Rightarrow> uint \<Rightarrow> kmem \<Rightarrow> kmem res" where
  "kinit2 kend vstart vend k =
     bindE (freerange kend vstart vend k) (\<lambda>k. Inr (k\<lparr>use_lock := True\<rparr>))"

section \<open>The free list as a list of pages\<close>

fun chain :: "memory \<Rightarrow> uint \<Rightarrow> uint list \<Rightarrow> bool" where
  "chain m p [] \<longleftrightarrow> p = 0"
| "chain m p (q # qs) \<longleftrightarrow> p = q \<and> q \<noteq> 0 \<and> chain m (read32 m q) qs"

definition kmem_inv :: "uint \<Rightarrow> kmem \<Rightarrow> uint list \<Rightarrow> bool" where
  "kmem_inv kend k ps \<longleftrightarrow>
     chain (pages k) (freelist k) ps \<and> distinct ps \<and> (\<forall>p \<in> set ps. page_ok kend p)"

lemma page_ok_nonzero: "page_ok kend v \<Longrightarrow> v \<noteq> 0"
  by (auto simp: page_ok_def V2P_def KERNBASE_def PHYSTOP_def)

lemma page_ok_aligned:
  assumes "page_ok kend v"
  obtains k where "unat v = 4096 * k"
proof -
  from assms have "unat (v mod PGSIZE) = 0" by (simp add: page_ok_def)
  then have "unat v mod 4096 = 0" by (simp add: unat_mod PGSIZE_def)
  then show thesis using that by (metis mod_0_imp_dvd dvdE)
qed

lemma pages_apart:
  assumes "page_ok kend v" and "page_ok kend w" and "v \<noteq> w"
  shows "unat v + 4096 \<le> unat w \<or> unat w + 4096 \<le> unat v"
proof -
  obtain i where i: "unat v = 4096 * i" using assms(1) by (rule page_ok_aligned)
  obtain j where j: "unat w = 4096 * j" using assms(2) by (rule page_ok_aligned)
  have "i \<noteq> j" using i j assms(3) by (metis word_unat_eq_iff)
  then show ?thesis unfolding i j by arith
qed

lemma chain_cong:
  "(\<And>q. q \<in> set qs \<Longrightarrow> read32 m q = read32 m' q) \<Longrightarrow> chain m p qs = chain m' p qs"
  by (induction qs arbitrary: p) auto

lemma kfree_ok:
  assumes inv: "kmem_inv kend k ps" and v: "page_ok kend v" and new: "v \<notin> set ps"
  shows "\<exists>k'. kfree kend v k = Inr k' \<and> kmem_inv kend k' (v # ps) \<and>
    (\<forall>x. x < unat v \<or> unat v + 4096 \<le> x \<longrightarrow> pages k' x = pages k x)"
proof -
  let ?m = "write32 (memset (pages k) (unat v) 1 4096) v (freelist k)"
  let ?k' = "k\<lparr>pages := ?m, freelist := v\<rparr>"
  have k': "kfree kend v k = Inr ?k'"
    using v by (simp add: kfree_def page_ok_def Let_def not_less not_le)
  have frame: "?m x = pages k x" if "x < unat v \<or> unat v + 4096 \<le> x" for x
  proof -
    have "?m x = memset (pages k) (unat v) 1 4096 x"
      by (rule write32_outside) (use that in linarith)
    then show ?thesis using that by (auto simp: memset_apply)
  qed
  have "read32 ?m q = read32 (pages k) q" if "q \<in> set ps" for q
  proof (rule read32_cong)
    fix i :: nat assume "i < 4"
    moreover have "page_ok kend q" "q \<noteq> v" using inv that new by (auto simp: kmem_inv_def)
    then have "unat v + 4096 \<le> unat q \<or> unat q + 4096 \<le> unat v"
      using v pages_apart by blast
    ultimately show "?m (unat q + i) = pages k (unat q + i)" by (intro frame) linarith
  qed
  then have "chain ?m (freelist k) ps"
    using inv chain_cong [of ps ?m "pages k"] by (auto simp: kmem_inv_def)
  then have "kmem_inv kend ?k' (v # ps)"
    using inv v new page_ok_nonzero [OF v] by (simp add: kmem_inv_def)
  with k' frame show ?thesis by auto
qed

lemma kalloc_ok:
  assumes "kmem_inv kend k ps"
  shows "case ps of [] \<Rightarrow> kalloc k = (0, k)
    | p # qs \<Rightarrow> fst (kalloc k) = p \<and> page_ok kend p \<and> kmem_inv kend (snd (kalloc k)) qs \<and>
        p \<notin> set qs \<and> pages (snd (kalloc k)) = pages k"
  using assms by (auto simp: kalloc_def kmem_inv_def Let_def split: list.splits)

section \<open>Initialisation frees every whole page of the range\<close>

text \<open>The pages \<open>freerange\<close> frees from \<open>p\<close> on, the last one first.\<close>

definition range_pages :: "nat \<Rightarrow> nat \<Rightarrow> uint list" where
  "range_pages p vend = rev (map (\<lambda>i. word_of_nat (p + 4096 * i)) [0..<(vend - p) div 4096])"

lemma range_pages_step:
  assumes "p + 4096 \<le> vend"
  shows "range_pages p vend = range_pages (p + 4096) vend @ [word_of_nat p]"
proof -
  define n where "n = (vend - (p + 4096)) div 4096"
  have "vend - p = (vend - (p + 4096)) + 4096" using assms by linarith
  then have "(vend - p) div 4096 = ((vend - (p + 4096)) + 4096) div 4096" by (rule arg_cong)
  also have "\<dots> = Suc n" unfolding n_def by (subst div_add_self2) simp_all
  finally have n: "(vend - p) div 4096 = Suc n" .
  have "map (\<lambda>i. word_of_nat (p + 4096 * i)) [0..<Suc n]
      = word_of_nat p # map (\<lambda>i. word_of_nat (p + 4096 + 4096 * i) :: uint) [0..<n]"
    by (simp only: map_upt_Suc mult_Suc_right add.assoc mult_0_right add_0_right)
  then show ?thesis
    unfolding range_pages_def n n_def [symmetric] by simp
qed

lemma range_pages_end: "\<not> p + 4096 \<le> vend \<Longrightarrow> range_pages p vend = []"
  by (simp add: range_pages_def)

lemma page_ok_of_nat:
  assumes "p mod 4096 = 0" and "unat kend \<le> p" and "unat KERNBASE \<le> p"
    and "p + 4096 \<le> unat (P2V PHYSTOP)"
  shows "page_ok kend (word_of_nat p)" and "unat (word_of_nat p :: uint) = p"
proof -
  have top: "unat (P2V PHYSTOP) = 0x8E000000" and base: "unat KERNBASE = 0x80000000"
    by (simp_all add: P2V_def PHYSTOP_def KERNBASE_def)
  show u: "unat (word_of_nat p :: uint) = p"
    using assms(4) top by (simp add: unat_of_nat)
  have "unat ((word_of_nat p :: uint) mod PGSIZE) = 0"
    using assms(1) by (simp only: unat_mod u) (simp add: PGSIZE_def)
  then have "(word_of_nat p :: uint) mod PGSIZE = 0" by (simp add: unat_eq_0)
  moreover have "kend \<le> word_of_nat p" using assms(2) by (simp add: word_le_nat_alt u)
  moreover have "V2P (word_of_nat p) < PHYSTOP"
  proof -
    have "KERNBASE \<le> word_of_nat p" using assms(3) by (simp add: word_le_nat_alt u)
    then have "unat (V2P (word_of_nat p)) = p - 0x80000000"
      by (simp only: V2P_def unat_sub u base)
    then show ?thesis using assms(3,4) top base by (simp add: word_less_nat_alt PHYSTOP_def)
  qed
  ultimately show "page_ok kend (word_of_nat p)" by (simp add: page_ok_def)
qed

lemma freerange_loop_ok:
  assumes "kmem_inv kend k ps" and "p mod 4096 = 0" and "unat kend \<le> p" and "unat KERNBASE \<le> p"
    and "vend \<le> unat (P2V PHYSTOP)" and "\<And>q. q \<in> set ps \<Longrightarrow> unat q < p"
  shows "\<exists>k'. freerange_loop kend p vend k = Inr k' \<and> kmem_inv kend k' (range_pages p vend @ ps)"
  using assms
proof (induction kend p vend k arbitrary: ps rule: freerange_loop.induct)
  case (1 kend p vend k)
  show ?case
  proof (cases "p + 4096 \<le> vend")
    case True
    then have "p + 4096 \<le> unat (P2V PHYSTOP)" using "1.prems"(5) by linarith
    from page_ok_of_nat [OF "1.prems"(2,3,4) this]
    have ok: "page_ok kend (word_of_nat p)" and u: "unat (word_of_nat p :: uint) = p" .
    have new: "word_of_nat p \<notin> set ps" using "1.prems"(6) u by fastforce
    from kfree_ok [OF "1.prems"(1) ok new] obtain k1 where
      k1: "kfree kend (word_of_nat p) k = Inr k1" "kmem_inv kend k1 (word_of_nat p # ps)"
      by blast
    have below: "unat q < p + 4096" if "q \<in> set (word_of_nat p # ps)" for q
      using that "1.prems"(6) u by fastforce
    have "(p + 4096) mod 4096 = 0" "unat kend \<le> p + 4096" "unat KERNBASE \<le> p + 4096"
      using "1.prems"(2-4) by simp_all
    from "1.IH" [OF True k1(1) k1(2) this "1.prems"(5) below]
    show ?thesis using True k1(1)
      by (subst freerange_loop.simps) (simp add: range_pages_step)
  next
    case False
    with "1.prems"(1) show ?thesis
      by (subst freerange_loop.simps) (simp add: range_pages_end)
  qed
qed

section \<open>The interface of the page allocator\<close>

text \<open>
  What the rest of the kernel relies on: \<open>free_pages k ps\<close> says that \<open>ps\<close> are the pages
  the allocator can still hand out, in order.
\<close>

locale page_allocator =
  fixes free_pages :: "'k \<Rightarrow> uint list \<Rightarrow> bool"
    and usable :: "uint \<Rightarrow> bool"
    and alloc :: "'k \<Rightarrow> uint \<times> 'k"
    and free :: "uint \<Rightarrow> 'k \<Rightarrow> 'k res"
  assumes pages_distinct: "free_pages k ps \<Longrightarrow> distinct ps \<and> (\<forall>p \<in> set ps. usable p)"
    and usable_nonzero: "usable p \<Longrightarrow> p \<noteq> 0"
    and alloc_empty: "free_pages k [] \<Longrightarrow> alloc k = (0, k)"
    and alloc_page: "free_pages k (p # ps) \<Longrightarrow> \<exists>k'. alloc k = (p, k') \<and> free_pages k' ps"
    and free_page: "free_pages k ps \<Longrightarrow> usable p \<Longrightarrow> p \<notin> set ps \<Longrightarrow>
      \<exists>k'. free p k = Inr k' \<and> free_pages k' (p # ps)"

fun allocs :: "('k \<Rightarrow> uint \<times> 'k) \<Rightarrow> nat \<Rightarrow> 'k \<Rightarrow> uint list \<times> 'k" where
  "allocs al 0 k = ([], k)"
| "allocs al (Suc n) k = (let (p, k) = al k; (ps, k) = allocs al n k in (p # ps, k))"

fun frees :: "(uint \<Rightarrow> 'k \<Rightarrow> 'k res) \<Rightarrow> uint list \<Rightarrow> 'k \<Rightarrow> 'k res" where
  "frees fr [] k = Inr k"
| "frees fr (p # ps) k = bindE (fr p k) (frees fr ps)"

context page_allocator
begin

lemma alloc_zero_iff: "free_pages k ps \<Longrightarrow> fst (alloc k) = 0 \<longleftrightarrow> ps = []"
proof (cases ps)
  case Nil
  assume "free_pages k ps"
  then show ?thesis using Nil alloc_empty by simp
next
  case (Cons p qs)
  assume k: "free_pages k ps"
  then have "p \<noteq> 0" using pages_distinct usable_nonzero Cons by fastforce
  then show ?thesis using alloc_page k Cons by fastforce
qed

lemma allocs_pages:
  "free_pages k (ps @ qs) \<Longrightarrow> \<exists>k'. allocs alloc (length ps) k = (ps, k') \<and> free_pages k' qs"
proof (induction ps arbitrary: k)
  case Nil
  then show ?case by simp
next
  case (Cons p ps)
  then obtain k1 where k1: "alloc k = (p, k1)" "free_pages k1 (ps @ qs)"
    using alloc_page by fastforce
  with Cons.IH [OF k1(2)] show ?case by auto
qed

lemma frees_pages:
  "free_pages k qs \<Longrightarrow> distinct (ps @ qs) \<Longrightarrow> \<forall>p \<in> set ps. usable p \<Longrightarrow>
     \<exists>k'. frees free ps k = Inr k' \<and> free_pages k' (rev ps @ qs)"
proof (induction ps arbitrary: k qs)
  case Nil
  then show ?case by simp
next
  case (Cons p ps)
  then have "usable p" "p \<notin> set qs" by auto
  with free_page [OF Cons.prems(1)] obtain k1 where k1: "free p k = Inr k1" "free_pages k1 (p # qs)"
    by blast
  have "distinct (ps @ p # qs)" "\<forall>p \<in> set ps. usable p" using Cons.prems by auto
  from Cons.IH [OF k1(2) this] k1(1) show ?case by auto
qed

lemma allocs_frees:
  assumes "free_pages k (ps @ qs)"
  shows "\<exists>k1 k2. allocs alloc (length ps) k = (ps, k1) \<and> distinct ps \<and> 0 \<notin> set ps \<and> free_pages k1 qs \<and>
    frees free ps k1 = Inr k2 \<and> free_pages k2 (rev ps @ qs)"
proof -
  have d: "distinct (ps @ qs)" "\<forall>p \<in> set ps. usable p" using pages_distinct [OF assms] by auto
  obtain k1 where k1: "allocs alloc (length ps) k = (ps, k1)" "free_pages k1 qs"
    using allocs_pages [OF assms] by blast
  obtain k2 where "frees free ps k1 = Inr k2" "free_pages k2 (rev ps @ qs)"
    using frees_pages [OF k1(2) d] by blast
  with k1 d show ?thesis using usable_nonzero by fastforce
qed

end

interpretation pga: page_allocator "kmem_inv kend" "page_ok kend" kalloc "kfree kend" for kend
proof
  show "kmem_inv kend k ps \<Longrightarrow> distinct ps \<and> (\<forall>p \<in> set ps. page_ok kend p)" for k ps
    by (simp add: kmem_inv_def)
  show "kmem_inv kend k [] \<Longrightarrow> kalloc k = (0, k)" for k using kalloc_ok [of kend k "[]"] by simp
  show "kmem_inv kend k (p # ps) \<Longrightarrow> \<exists>k'. kalloc k = (p, k') \<and> kmem_inv kend k' ps" for k p ps
    using kalloc_ok [of kend k "p # ps"] by (cases "kalloc k") simp
  show "kmem_inv kend k ps \<Longrightarrow> page_ok kend p \<Longrightarrow> p \<notin> set ps \<Longrightarrow>
      \<exists>k'. kfree kend p k = Inr k' \<and> kmem_inv kend k' (p # ps)" for k ps p
    using kfree_ok [of kend k ps p] by blast
qed (rule page_ok_nonzero)

section \<open>Properties\<close>

text \<open>
  C16. The allocator set up by \<open>kinit1\<close> holds every whole page of the range, and it is a
  stack of distinct pages: any \<open>n\<close> allocations in a row return the \<open>n\<close> first of them, none
  of them null, and freeing those pages succeeds and makes all of them available again.
\<close>

theorem kalloc_hands_out_distinct_pages:
  assumes "freelist k = 0" and "unat kend \<le> unat (PGROUNDUP vstart)"
    and "unat KERNBASE \<le> unat (PGROUNDUP vstart)" and "unat vend \<le> unat (P2V PHYSTOP)"
    and "range_pages (unat (PGROUNDUP vstart)) (unat vend) = ps @ qs"
  shows "\<exists>k0 k1 k2. kinit1 kend vstart vend k = Inr k0 \<and> allocs kalloc (length ps) k0 = (ps, k1) \<and>
     distinct ps \<and> 0 \<notin> set ps \<and> kmem_inv kend k1 qs \<and>
     frees (kfree kend) ps k1 = Inr k2 \<and> kmem_inv kend k2 (rev ps @ qs)"
proof -
  have start: "kmem_inv kend (k\<lparr>use_lock := False\<rparr>) []" using assms(1) by (simp add: kmem_inv_def)
  have "unat (PGROUNDUP vstart) mod 4096 = 0"
  proof -
    have m: "(PGSIZE - 1 :: uint) = mask 12" by (simp add: PGSIZE_def mask_eq_exp_minus_1)
    have "take_bit 12 (PGROUNDUP vstart) = 0"
      unfolding PGROUNDUP_def m by (rule bit_word_eqI) (auto simp: bit_simps)
    then have "unat (take_bit 12 (PGROUNDUP vstart)) = 0" by simp
    then have "take_bit 12 (unat (PGROUNDUP vstart)) = 0"
      by (simp only: unsigned_take_bit_eq)
    then show ?thesis by (simp add: take_bit_eq_mod)
  qed
  from freerange_loop_ok [OF start this assms(2,3,4)] obtain k0 where
    "kinit1 kend vstart vend k = Inr k0" "kmem_inv kend k0 (ps @ qs)"
    using assms(5) by (auto simp: kinit1_def freerange_def)
  with pga.allocs_frees [of kend k0 ps qs] show ?thesis by blast
qed

theorem kalloc_hands_out_distinct_pages_witness:
  "\<exists>k0 k1 k2. kinit1 0x80100000 0x80100001 0x80103000
       \<lparr>use_lock = True, freelist = 0, pages = \<lambda>_. 0\<rparr> = Inr k0 \<and>
     allocs kalloc 2 k0 = ([0x80102000, 0x80101000], k1) \<and> kmem_inv 0x80100000 k1 [] \<and>
     frees (kfree 0x80100000) [0x80102000, 0x80101000] k1 = Inr k2 \<and>
     kmem_inv 0x80100000 k2 [0x80101000, 0x80102000]"
proof -
  have up: "PGROUNDUP 0x80100001 = 0x80101000" by (simp add: PGROUNDUP_def PGSIZE_def)
  have pages: "range_pages 0x80101000 0x80103000 = [0x80102000, 0x80101000] @ []"
    by (simp add: range_pages_def upt_rec)
  let ?k = "\<lparr>use_lock = True, freelist = 0, pages = \<lambda>_. 0\<rparr>"
  have "\<exists>k0 k1 k2. kinit1 0x80100000 0x80100001 0x80103000 ?k = Inr k0 \<and>
      allocs kalloc (length [0x80102000, 0x80101000 :: uint]) k0 = ([0x80102000, 0x80101000], k1) \<and>
      distinct [0x80102000, 0x80101000 :: uint] \<and> 0 \<notin> set [0x80102000, 0x80101000 :: uint] \<and>
      kmem_inv 0x80100000 k1 [] \<and> frees (kfree 0x80100000) [0x80102000, 0x80101000] k1 = Inr k2 \<and>
      kmem_inv 0x80100000 k2 (rev [0x80102000, 0x80101000] @ [])"
    by (rule kalloc_hands_out_distinct_pages)
      (use pages in \<open>simp_all add: up KERNBASE_def P2V_def PHYSTOP_def\<close>)
  moreover have "length [0x80102000, 0x80101000 :: uint] = 2" by simp
  ultimately show ?thesis
    by (simp only: rev.simps append.simps append_Nil2) blast
qed

end
