(* ===== verification/Proc_Table.thy ===== *)
theory Proc_Table
  imports Kalloc
begin

text \<open>
  The process table (\<open>proc.h\<close>, \<open>proc.c\<close>): \<open>struct proc\<close>, allocation of an entry,
  sleep and wakeup, kill, and the scheduler's choice. Pointers to table entries are
  indices; no pointer is \<open>None\<close>. The operations that need the file system or the page
  tables (fork, exit, wait) are in the theories above this one.

  A piece of code that runs with \<open>ptable.lock\<close> held is one function here: between its
  acquire and its release nobody else sees or changes the table (theory \<open>Spinlock\<close>).
  \<open>sleep\<close> gives the processor away in its middle, so it is two functions, one up to
  \<open>sched()\<close> and one from there on.
\<close>

section \<open>Sizes (param.h)\<close>

definition NPROC :: nat where "NPROC = 64"
definition NOFILE :: nat where "NOFILE = 16"
definition NOSEM :: nat where "NOSEM = 5"
definition NSEM :: nat where "NSEM = 7"
definition SEMNAME :: nat where "SEMNAME = 10"
definition KSTACKSIZE :: uint where "KSTACKSIZE = 4096"

section \<open>Data (proc.h, x86.h)\<close>

datatype procstate = UNUSED | EMBRYO | SLEEPING | RUNNABLE | RUNNING | ZOMBIE

text \<open>
  Sleep channels are addresses of kernel objects, so one constructor per kind of object.
  \<open>stable.gslock\<close> is the first member of \<open>stable\<close>: \<open>&stable\<close> and \<open>&stable.gslock\<close> are
  the same address, hence the same channel.
\<close>

datatype chan =
    NullChan
  | ProcChan nat          \<comment> \<open>\<open>&ptable.proc[i]\<close>\<close>
  | SemChan nat           \<comment> \<open>\<open>&stable.sem[i]\<close>\<close>
  | StableChan            \<comment> \<open>\<open>&stable\<close> and \<open>&stable.gslock\<close>\<close>
  | PipeReadChan uint     \<comment> \<open>\<open>&p->nread\<close>\<close>
  | PipeWriteChan uint    \<comment> \<open>\<open>&p->nwrite\<close>\<close>
  | LogChan               \<comment> \<open>\<open>&log\<close>\<close>
  | TicksChan             \<comment> \<open>\<open>&ticks\<close>\<close>
  | BufChan nat           \<comment> \<open>\<open>&bcache.buf[i]\<close>\<close>
  | BufLockChan nat       \<comment> \<open>\<open>&bcache.buf[i].lock\<close>\<close>
  | InodeLockChan nat     \<comment> \<open>\<open>&icache.inode[i].lock\<close>\<close>
  | ConsoleChan           \<comment> \<open>\<open>&input.r\<close>\<close>

record context_regs =
  cx_edi :: uint
  cx_esi :: uint
  cx_ebx :: uint
  cx_ebp :: uint
  cx_eip :: uint

record trapframe =
  tf_edi :: uint
  tf_esi :: uint
  tf_ebp :: uint
  tf_oesp :: uint
  tf_ebx :: uint
  tf_edx :: uint
  tf_ecx :: uint
  tf_eax :: uint
  tf_gs :: "16 word"
  tf_fs :: "16 word"
  tf_es :: "16 word"
  tf_ds :: "16 word"
  tf_trapno :: uint
  tf_err :: uint
  tf_eip :: uint
  tf_cs :: "16 word"
  tf_eflags :: uint
  tf_esp :: uint
  tf_ss :: "16 word"

record proc =
  p_sz :: uint
  p_pgdir :: uint
  p_kstack :: uint
  p_state :: procstate
  p_pid :: uint
  p_parent :: "nat option"
  p_tf :: trapframe
  p_context :: context_regs
  p_chan :: chan
  p_killed :: bool
  p_ofile :: "nat option list"
  p_osem :: "nat option list"
  p_cwd :: "nat option"
  p_name :: "byte list"

record ptable =
  procs :: "proc list"
  initproc :: "nat option"
  nextpid :: uint

abbreviation proc_at :: "ptable \<Rightarrow> nat \<Rightarrow> proc" where
  "proc_at pt i \<equiv> procs pt ! i"

definition set_proc :: "nat \<Rightarrow> (proc \<Rightarrow> proc) \<Rightarrow> ptable \<Rightarrow> ptable" where
  "set_proc i f pt = pt\<lparr>procs := (procs pt)[i := f (procs pt ! i)]\<rparr>"

section \<open>Allocating an entry\<close>

definition zero_context :: context_regs where
  "zero_context = \<lparr>cx_edi = 0, cx_esi = 0, cx_ebx = 0, cx_ebp = 0, cx_eip = 0\<rparr>"

text \<open>
  \<open>alloc_slot\<close> is the part of \<open>allocproc\<close> that holds \<open>ptable.lock\<close>. \<open>forkret\<close> is the
  address of that function. The trap frame and the context are at the top of the kernel
  stack page; the frame's contents are what the page held, which the model leaves as the
  old contents of \<open>p_tf\<close>.
\<close>

definition alloc_slot :: "ptable \<Rightarrow> nat option \<times> ptable" where
  "alloc_slot pt =
     (case scan (\<lambda>p. p_state p = UNUSED) (procs pt) of
        None \<Rightarrow> (None, pt)
      | Some i \<Rightarrow>
          let pt = set_proc i (\<lambda>p. p\<lparr>p_state := EMBRYO, p_pid := nextpid pt\<rparr>) pt
          in (Some i, pt\<lparr>nextpid := nextpid pt + 1\<rparr>))"

definition allocproc :: "uint \<Rightarrow> ptable \<times> kmem \<Rightarrow> nat option \<times> ptable \<times> kmem" where
  "allocproc forkret = (\<lambda>(pt, km).
     (case alloc_slot pt of
        (None, pt) \<Rightarrow> (None, pt, km)
      | (Some i, pt) \<Rightarrow>
          let (stk, km) = kalloc km;
              pt = set_proc i (\<lambda>p. p\<lparr>p_kstack := stk\<rparr>) pt
          in if stk = 0 then (None, set_proc i (\<lambda>p. p\<lparr>p_state := UNUSED\<rparr>) pt, km)
             else (Some i,
                   set_proc i (\<lambda>p. p\<lparr>p_context := zero_context\<lparr>cx_eip := forkret\<rparr>\<rparr>) pt, km)))"

text \<open>A table entry of zero bytes, as the static table starts with.\<close>

definition zero_trapframe :: trapframe where
  "zero_trapframe = \<lparr>tf_edi = 0, tf_esi = 0, tf_ebp = 0, tf_oesp = 0, tf_ebx = 0, tf_edx = 0, tf_ecx = 0,
     tf_eax = 0, tf_gs = 0, tf_fs = 0, tf_es = 0, tf_ds = 0, tf_trapno = 0, tf_err = 0, tf_eip = 0,
     tf_cs = 0, tf_eflags = 0, tf_esp = 0, tf_ss = 0\<rparr>"

definition zero_proc :: proc where
  "zero_proc = \<lparr>p_sz = 0, p_pgdir = 0, p_kstack = 0, p_state = UNUSED, p_pid = 0, p_parent = None,
     p_tf = zero_trapframe, p_context = zero_context, p_chan = NullChan, p_killed = False,
     p_ofile = replicate NOFILE None, p_osem = replicate NOSEM None, p_cwd = None,
     p_name = replicate 16 0\<rparr>"

section \<open>Sleep, wakeup, kill\<close>

definition wakeup1 :: "chan \<Rightarrow> ptable \<Rightarrow> ptable" where
  "wakeup1 ch pt = pt\<lparr>procs := map (\<lambda>p.
     if p_state p = SLEEPING \<and> p_chan p = ch then p\<lparr>p_state := RUNNABLE\<rparr> else p) (procs pt)\<rparr>"

definition wakeup :: "chan \<Rightarrow> ptable \<Rightarrow> ptable" where
  "wakeup ch pt = wakeup1 ch pt"

definition sleep_begin :: "nat \<Rightarrow> chan \<Rightarrow> ptable \<Rightarrow> ptable" where
  "sleep_begin i ch pt = set_proc i (\<lambda>p. p\<lparr>p_chan := ch, p_state := SLEEPING\<rparr>) pt"

definition sleep_end :: "nat \<Rightarrow> ptable \<Rightarrow> ptable" where
  "sleep_end i pt = set_proc i (\<lambda>p. p\<lparr>p_chan := NullChan\<rparr>) pt"

definition kill :: "uint \<Rightarrow> ptable \<Rightarrow> int \<times> ptable" where
  "kill pid pt =
     (case scan (\<lambda>p. p_pid p = pid) (procs pt) of
        None \<Rightarrow> (-1, pt)
      | Some i \<Rightarrow>
          (0, set_proc i (\<lambda>p. (p\<lparr>p_killed := True\<rparr>)
                \<lparr>p_state := if p_state p = SLEEPING then RUNNABLE else p_state p\<rparr>) pt))"

definition yield_begin :: "nat \<Rightarrow> ptable \<Rightarrow> ptable" where
  "yield_begin i pt = set_proc i (\<lambda>p. p\<lparr>p_state := RUNNABLE\<rparr>) pt"

section \<open>The end of exit, and the scan of wait\<close>

definition proc_chan :: "nat option \<Rightarrow> chan" where
  "proc_chan q = (case q of None \<Rightarrow> NullChan | Some i \<Rightarrow> ProcChan i)"

text \<open>\<open>exit\<close> gives the children of \<open>me\<close> to init: one entry of its loop over the table.\<close>

definition adopt :: "nat \<Rightarrow> nat \<Rightarrow> ptable \<Rightarrow> ptable" where
  "adopt me i pt =
     (if p_parent (proc_at pt i) = Some me then
        let pt = set_proc i (\<lambda>p. p\<lparr>p_parent := initproc pt\<rparr>) pt
        in if p_state (proc_at pt i) = ZOMBIE then wakeup1 (proc_chan (initproc pt)) pt else pt
      else pt)"

definition exit_tail :: "nat \<Rightarrow> ptable \<Rightarrow> ptable" where
  "exit_tail me pt =
     (let pt = wakeup1 (proc_chan (p_parent (proc_at pt me))) pt;
          pt = fold (adopt me) [0..<length (procs pt)] pt
      in set_proc me (\<lambda>p. p\<lparr>p_state := ZOMBIE\<rparr>) pt)"

datatype wait_scan = Reap nat | NoKids | KidsRunning

definition wait_find :: "nat \<Rightarrow> ptable \<Rightarrow> wait_scan" where
  "wait_find me pt =
     (case scan (\<lambda>p. p_parent p = Some me \<and> p_state p = ZOMBIE) (procs pt) of
        Some i \<Rightarrow> Reap i
      | None \<Rightarrow> if \<exists>p \<in> set (procs pt). p_parent p = Some me then KidsRunning else NoKids)"

definition reap :: "nat \<Rightarrow> ptable \<Rightarrow> ptable" where
  "reap i pt = set_proc i (\<lambda>p. p\<lparr>p_kstack := 0, p_pid := 0, p_parent := None,
     p_name := (p_name p)[0 := 0], p_killed := False, p_state := UNUSED\<rparr>) pt"

section \<open>Scheduling\<close>

text \<open>
  The per-CPU facts that \<open>sched\<close> checks: the lock it must hold, how deep \<open>pushcli\<close> is
  nested and whether interrupts are enabled.
\<close>

record cpu_view =
  holds_ptable :: bool
  cv_ncli :: int
  cv_if :: bool

definition sched_check :: "cpu_view \<Rightarrow> proc \<Rightarrow> unit res" where
  "sched_check c p =
     (if \<not> holds_ptable c then Inl (Panic ''sched ptable.lock'')
      else if cv_ncli c \<noteq> 1 then Inl (Panic ''sched locks'')
      else if p_state p = RUNNING then Inl (Panic ''sched running'')
      else if cv_if c then Inl (Panic ''sched interruptible'')
      else Inr ())"

text \<open>
  One pass of the scheduler's inner loop from index \<open>i\<close> on: the next entry it gives the
  processor to. The pass goes on behind that entry when the process comes back.
\<close>

fun scheduler_pick :: "nat \<Rightarrow> proc list \<Rightarrow> nat option" where
  "scheduler_pick i [] = None"
| "scheduler_pick i (p # ps) =
     (if p_state p \<noteq> RUNNABLE then scheduler_pick (Suc i) ps else Some i)"

definition scheduler_run :: "nat \<Rightarrow> ptable \<Rightarrow> ptable" where
  "scheduler_run i pt = set_proc i (\<lambda>p. p\<lparr>p_state := RUNNING\<rparr>) pt"

section \<open>Facts the other theories use\<close>

lemma procs_set_proc [simp]: "procs (set_proc i f pt) = (procs pt)[i := f (procs pt ! i)]"
  by (simp add: set_proc_def)

lemma set_proc_frame [simp]:
  "initproc (set_proc i f pt) = initproc pt"
  "nextpid (set_proc i f pt) = nextpid pt"
  by (simp_all add: set_proc_def)

lemma wakeup_frame [simp]:
  "initproc (wakeup ch pt) = initproc pt"
  "nextpid (wakeup ch pt) = nextpid pt"
  "length (procs (wakeup ch pt)) = length (procs pt)"
  by (simp_all add: wakeup_def wakeup1_def)

lemma wakeup_nth:
  "i < length (procs pt) \<Longrightarrow>
     proc_at (wakeup ch pt) i =
       (if p_state (proc_at pt i) = SLEEPING \<and> p_chan (proc_at pt i) = ch
        then (proc_at pt i)\<lparr>p_state := RUNNABLE\<rparr> else proc_at pt i)"
  by (simp add: wakeup_def wakeup1_def)

lemma wakeup_osem [simp]:
  "i < length (procs pt) \<Longrightarrow> p_osem (proc_at (wakeup ch pt) i) = p_osem (proc_at pt i)"
  "i < length (procs pt) \<Longrightarrow> p_pid (proc_at (wakeup ch pt) i) = p_pid (proc_at pt i)"
  "i < length (procs pt) \<Longrightarrow> p_killed (proc_at (wakeup ch pt) i) = p_killed (proc_at pt i)"
  by (simp_all add: wakeup_nth)

text \<open>\<open>asleep pt i ch\<close>: process \<open>i\<close> is sleeping on channel \<open>ch\<close>.\<close>

definition asleep :: "ptable \<Rightarrow> nat \<Rightarrow> chan \<Rightarrow> bool" where
  "asleep pt i ch \<longleftrightarrow>
     i < length (procs pt) \<and> p_state (proc_at pt i) = SLEEPING \<and> p_chan (proc_at pt i) = ch"

lemma asleep_wakeup: "asleep (wakeup ch pt) i ch' \<longleftrightarrow> asleep pt i ch' \<and> ch' \<noteq> ch"
  by (auto simp: asleep_def wakeup_nth split: if_splits)

lemma asleep_sleep_begin:
  "i < length (procs pt) \<Longrightarrow>
     asleep (sleep_begin i ch pt) j ch' \<longleftrightarrow> (if j = i then ch' = ch else asleep pt j ch')"
  by (auto simp: asleep_def sleep_begin_def nth_update)

lemma scheduler_pick_eq: "scheduler_pick i ps = scan_from (\<lambda>p. p_state p = RUNNABLE) i ps"
  by (induction ps arbitrary: i) auto

section \<open>Process identifiers\<close>

text \<open>
  The pids of the entries in use are distinct and were handed out before: they are below
  \<open>nextpid\<close>. It holds as long as \<open>nextpid\<close> has not wrapped around.
\<close>

definition in_use :: "proc \<Rightarrow> bool" where
  "in_use p \<longleftrightarrow> p_state p \<noteq> UNUSED"

definition pids_inv :: "ptable \<Rightarrow> bool" where
  "pids_inv pt \<longleftrightarrow>
     (\<forall>i < length (procs pt). in_use (proc_at pt i) \<longrightarrow> 0 < p_pid (proc_at pt i) \<and>
        p_pid (proc_at pt i) < nextpid pt) \<and>
     (\<forall>i < length (procs pt). \<forall>j < length (procs pt).
        in_use (proc_at pt i) \<longrightarrow> in_use (proc_at pt j) \<longrightarrow>
        p_pid (proc_at pt i) = p_pid (proc_at pt j) \<longrightarrow> i = j) \<and>
     0 < nextpid pt"

lemma allocproc_Some:
  assumes "allocproc forkret (pt, km) = (Some i, pt', km')"
  shows "i < length (procs pt) \<and> p_state (proc_at pt i) = UNUSED \<and>
     p_state (proc_at pt' i) = EMBRYO \<and> p_pid (proc_at pt' i) = nextpid pt \<and>
     p_kstack (proc_at pt' i) = fst (kalloc km) \<and> p_kstack (proc_at pt' i) \<noteq> 0 \<and>
     cx_eip (p_context (proc_at pt' i)) = forkret \<and>
     nextpid pt' = nextpid pt + 1 \<and> length (procs pt') = length (procs pt) \<and>
     (\<forall>j. j \<noteq> i \<longrightarrow> proc_at pt' j = proc_at pt j) \<and> km' = snd (kalloc km)"
  using assms
  by (auto simp: allocproc_def alloc_slot_def Let_def nth_update split: option.splits prod.splits if_splits
      dest: scan_Some)

lemma allocproc_None:
  assumes "allocproc forkret (pt, km) = (None, pt', km')"
  shows "length (procs pt') = length (procs pt) \<and>
     (\<forall>j < length (procs pt). p_state (proc_at pt' j) = p_state (proc_at pt j) \<and>
        (p_state (proc_at pt j) \<noteq> UNUSED \<longrightarrow> proc_at pt' j = proc_at pt j)) \<and>
     ((\<forall>j < length (procs pt). p_state (proc_at pt j) \<noteq> UNUSED) \<or> fst (kalloc km) = 0)"
  using assms
  by (auto simp: allocproc_def alloc_slot_def Let_def nth_update split: option.splits prod.splits if_splits
      dest!: scan_Some_holds dest: scan_None_nth)

section \<open>Killing a process that is not there\<close>

lemma scan_is: "i < length xs \<Longrightarrow> P (xs ! i) \<Longrightarrow> (\<And>j. j < i \<Longrightarrow> \<not> P (xs ! j)) \<Longrightarrow> scan P xs = Some i"
  using scan_exists [of i xs P] by (metis le_neq_implies_less scan_Some_holds)

text \<open>
  \<open>kill\<close> does not look at the state of the entry it finds, and an entry that is not in
  use has the pid 0. So \<open>kill(0)\<close> succeeds on it, and the process that gets this entry
  next is marked as killed from its beginning: \<open>allocproc\<close> does not clear the mark.
\<close>

lemma kill_zero_kills_the_next:
  assumes "i < length (procs pt)" and "p_state (proc_at pt i) = UNUSED" and "p_pid (proc_at pt i) = 0"
    and "\<forall>j < i. p_state (proc_at pt j) \<noteq> UNUSED \<and> p_pid (proc_at pt j) \<noteq> 0"
    and "fst (kalloc km) \<noteq> 0"
  shows "fst (kill 0 pt) = 0 \<and>
    (\<exists>pt' km'. allocproc forkret (snd (kill 0 pt), km) = (Some i, pt', km') \<and> p_killed (proc_at pt' i))"
proof -
  have k: "scan (\<lambda>p. p_pid p = 0) (procs pt) = Some i" by (rule scan_is) (use assms in auto)
  define pt1 where "pt1 = set_proc i (\<lambda>p. p\<lparr>p_killed := True, p_state := UNUSED\<rparr>) pt"
  have kill: "kill 0 pt = (0, pt1)" using k assms(1,2) by (simp add: kill_def pt1_def set_proc_def)
  have "scan (\<lambda>p. p_state p = UNUSED) (procs pt1) = Some i"
    by (rule scan_is) (use assms(1,4) in \<open>auto simp: pt1_def\<close>)
  then have "alloc_slot pt1 = (Some i, set_proc i (\<lambda>p. p\<lparr>p_state := EMBRYO, p_pid := nextpid pt1\<rparr>) pt1\<lparr>nextpid := nextpid pt1 + 1\<rparr>)"
    by (simp add: alloc_slot_def Let_def)
  then show ?thesis using kill assms(1,5) by (auto simp: allocproc_def Let_def pt1_def split: prod.splits)
qed

lemma kill_zero_kills_the_next_witness:
  "\<exists>pt' km'. allocproc 5 (snd (kill 0 \<lparr>procs = [zero_proc], initproc = None, nextpid = 1\<rparr>),
      \<lparr>use_lock = False, freelist = 4096, pages = (\<lambda>_. 0)\<rparr>) = (Some 0, pt', km') \<and> p_killed (proc_at pt' 0)"
proof -
  have "fst (kill 0 \<lparr>procs = [zero_proc], initproc = None, nextpid = 1\<rparr>) = 0 \<and>
    (\<exists>pt' km'. allocproc 5 (snd (kill 0 \<lparr>procs = [zero_proc], initproc = None, nextpid = 1\<rparr>),
      \<lparr>use_lock = False, freelist = 4096, pages = (\<lambda>_. 0)\<rparr>) = (Some 0, pt', km') \<and> p_killed (proc_at pt' 0))"
    by (rule kill_zero_kills_the_next) (simp_all add: zero_proc_def kalloc_def)
  then show ?thesis ..
qed

end
