(* ===== verification/Spinlock.thy ===== *)
theory Spinlock
  imports Kalloc
begin

text \<open>
  Spin locks (\<open>spinlock.c\<close>): the interrupt bookkeeping of \<open>pushcli\<close>/\<open>popcli\<close>, and
  \<open>acquire\<close>/\<open>release\<close> run by several CPUs, one atomic instruction at a time, as a step
  relation. Mutual exclusion of the code between acquire and release is what lets the
  other theories model such a section as one step.
\<close>

section \<open>Data\<close>

record spinlock =
  locked :: uint
  lk_name :: "byte list"
  lk_cpu :: "nat option"
  lk_pcs :: "uint list"

record cpu =
  ncli :: int
  intena :: bool
  eflags_if :: bool

definition initlock :: "byte list \<Rightarrow> spinlock \<Rightarrow> spinlock" where
  "initlock name lk = lk\<lparr>lk_name := name, locked := 0, lk_cpu := None\<rparr>"

section \<open>Interrupts\<close>

definition pushcli :: "cpu \<Rightarrow> cpu" where
  "pushcli c =
     (let eflags = eflags_if c;
          c = c\<lparr>eflags_if := False\<rparr>;
          c = (if ncli c = 0 then c\<lparr>intena := eflags\<rparr> else c)
      in c\<lparr>ncli := ncli c + 1\<rparr>)"

definition popcli :: "cpu \<Rightarrow> cpu res" where
  "popcli c =
     (if eflags_if c then Inl (Panic ''popcli - interruptible'')
      else let c = c\<lparr>ncli := ncli c - 1\<rparr>
           in if ncli c < 0 then Inl (Panic ''popcli'')
              else Inr (if ncli c = 0 \<and> intena c then c\<lparr>eflags_if := True\<rparr> else c))"

section \<open>The call stack recorded in a lock\<close>

fun callerpcs_loop :: "memory \<Rightarrow> uint \<Rightarrow> nat \<Rightarrow> uint list" where
  "callerpcs_loop m ebp 0 = []"
| "callerpcs_loop m ebp (Suc n) =
     (if ebp = 0 \<or> ebp < KERNBASE \<or> ebp = 0xffffffff then replicate (Suc n) 0
      else read32 m (ebp + 4) # callerpcs_loop m (read32 m ebp) n)"

definition getcallerpcs :: "memory \<Rightarrow> uint \<Rightarrow> uint list" where
  "getcallerpcs m v = callerpcs_loop m (v - 8) 10"

lemma length_getcallerpcs [len_simps]: "length (getcallerpcs m v) = 10"
proof -
  have "length (callerpcs_loop m ebp n) = n" for ebp n
    by (induction n arbitrary: ebp) auto
  then show ?thesis by (simp add: getcallerpcs_def)
qed

section \<open>Acquire and release, instruction by instruction\<close>

definition holding :: "nat \<Rightarrow> spinlock \<Rightarrow> bool" where
  "holding me lk \<longleftrightarrow> locked lk \<noteq> 0 \<and> lk_cpu lk = Some me"

definition xchg :: "uint \<Rightarrow> spinlock \<Rightarrow> uint \<times> spinlock" where
  "xchg newval lk = (locked lk, lk\<lparr>locked := newval\<rparr>)"

text \<open>Up to the spin loop: interrupts off, and no second acquire by the holder.\<close>

definition acquire_begin :: "nat \<Rightarrow> spinlock \<Rightarrow> cpu \<Rightarrow> cpu res" where
  "acquire_begin me lk c =
     (let c = pushcli c in if holding me lk then Inl (Panic ''acquire'') else Inr c)"

definition acquire_end :: "nat \<Rightarrow> memory \<Rightarrow> uint \<Rightarrow> spinlock \<Rightarrow> spinlock" where
  "acquire_end me m lkaddr lk =
     (let lk = lk\<lparr>lk_cpu := Some me\<rparr> in lk\<lparr>lk_pcs := getcallerpcs m lkaddr\<rparr>)"

definition release_begin :: "nat \<Rightarrow> spinlock \<Rightarrow> spinlock res" where
  "release_begin me lk =
     (if \<not> holding me lk then Inl (Panic ''release'')
      else Inr (lk\<lparr>lk_pcs := (lk_pcs lk)[0 := 0], lk_cpu := None\<rparr>))"

definition release_store :: "spinlock \<Rightarrow> spinlock" where
  "release_store lk = lk\<lparr>locked := 0\<rparr>"

text \<open>Where a CPU is in the life of one lock.\<close>

datatype lockpc =
    Outside
  | Spinning     \<comment> \<open>in the \<open>while(xchg(...))\<close> loop\<close>
  | Taken        \<comment> \<open>the exchange returned 0, the holder is not recorded yet\<close>
  | Inside       \<comment> \<open>\<open>acquire\<close> has returned\<close>
  | Leaving      \<comment> \<open>\<open>release\<close> has cleared \<open>cpu\<close>, the store to \<open>locked\<close> is to come\<close>
  | Popping      \<comment> \<open>the lock is free, \<open>popcli\<close> is to come\<close>
  | Crashed      \<comment> \<open>called \<open>panic\<close>\<close>

record lock_system =
  lock :: spinlock
  cpus :: "nat \<Rightarrow> cpu"
  at :: "nat \<Rightarrow> lockpc"

inductive lock_step :: "lock_system \<Rightarrow> lock_system \<Rightarrow> bool" where
  acq_begin: "at s i = Outside \<Longrightarrow> acquire_begin i (lock s) (cpus s i) = Inr c \<Longrightarrow>
     lock_step s (s\<lparr>cpus := (cpus s)(i := c), at := (at s)(i := Spinning)\<rparr>)"
| acq_panic: "at s i = Outside \<Longrightarrow> acquire_begin i (lock s) (cpus s i) = Inl e \<Longrightarrow>
     lock_step s (s\<lparr>at := (at s)(i := Crashed)\<rparr>)"
| acq_again: "at s i = Inside \<Longrightarrow> acquire_begin i (lock s) (cpus s i) = Inl e \<Longrightarrow>
     lock_step s (s\<lparr>at := (at s)(i := Crashed)\<rparr>)"
| spin: "at s i = Spinning \<Longrightarrow> xchg 1 (lock s) = (old, lk) \<Longrightarrow> old \<noteq> 0 \<Longrightarrow>
     lock_step s (s\<lparr>lock := lk\<rparr>)"
| take: "at s i = Spinning \<Longrightarrow> xchg 1 (lock s) = (old, lk) \<Longrightarrow> old = 0 \<Longrightarrow>
     lock_step s (s\<lparr>lock := lk, at := (at s)(i := Taken)\<rparr>)"
| acq_end: "at s i = Taken \<Longrightarrow>
     lock_step s (s\<lparr>lock := acquire_end i m a (lock s), at := (at s)(i := Inside)\<rparr>)"
| rel_begin: "at s i = Inside \<Longrightarrow> release_begin i (lock s) = Inr lk \<Longrightarrow>
     lock_step s (s\<lparr>lock := lk, at := (at s)(i := Leaving)\<rparr>)"
| rel_panic: "at s i \<in> {Outside, Inside} \<Longrightarrow> release_begin i (lock s) = Inl e \<Longrightarrow>
     lock_step s (s\<lparr>at := (at s)(i := Crashed)\<rparr>)"
| rel_store: "at s i = Leaving \<Longrightarrow>
     lock_step s (s\<lparr>lock := release_store (lock s), at := (at s)(i := Popping)\<rparr>)"
| rel_pop: "at s i = Popping \<Longrightarrow> popcli (cpus s i) = Inr c \<Longrightarrow>
     lock_step s (s\<lparr>cpus := (cpus s)(i := c), at := (at s)(i := Outside)\<rparr>)"
| rel_pop_panic: "at s i = Popping \<Longrightarrow> popcli (cpus s i) = Inl e \<Longrightarrow>
     lock_step s (s\<lparr>at := (at s)(i := Crashed)\<rparr>)"

inductive_cases lock_stepE: "lock_step s t"

inductive lock_reachable :: "lock_system \<Rightarrow> bool" where
  start: "locked (lock s) = 0 \<Longrightarrow> lk_cpu (lock s) = None \<Longrightarrow> (\<And>i. at s i = Outside) \<Longrightarrow>
     lock_reachable s"
| step: "lock_reachable s \<Longrightarrow> lock_step s t \<Longrightarrow> lock_reachable t"

section \<open>Mutual exclusion\<close>

text \<open>
  A CPU owns the lock from the exchange that returned 0 up to the store of 0. Someone
  owns it exactly while \<open>locked\<close> is set, and \<open>cpu\<close> names the owner whenever that owner
  is inside the critical section. A CPU that crashed inside keeps the lock for ever.
\<close>

definition owns :: "lock_system \<Rightarrow> nat \<Rightarrow> bool" where
  "owns s i \<longleftrightarrow> at s i = Taken \<or> at s i = Inside \<or> at s i = Leaving"

definition owned_by :: "lock_system \<Rightarrow> nat option \<Rightarrow> bool" where
  "owned_by s w \<longleftrightarrow>
     (\<forall>i. owns s i \<longleftrightarrow> w = Some i) \<and> (w \<noteq> None \<longrightarrow> locked (lock s) \<noteq> 0) \<and>
     (\<forall>i. at s i = Inside \<longrightarrow> lk_cpu (lock s) = Some i) \<and>
     (\<forall>i. at s i = Taken \<or> at s i = Leaving \<longrightarrow> lk_cpu (lock s) = None) \<and>
     (\<forall>i. lk_cpu (lock s) = Some i \<longrightarrow> at s i = Inside \<or> at s i = Crashed) \<and>
     (locked (lock s) = 0 \<longrightarrow> lk_cpu (lock s) = None)"

lemmas lock_ops = acquire_begin_def xchg_def acquire_end_def release_begin_def release_store_def
  holding_def Let_def

lemma owned_by_owner: "owned_by s w \<Longrightarrow> owns s i \<Longrightarrow> w = Some i"
  by (simp add: owned_by_def)

text \<open>A CPU that does not own the lock moves on, or the owner crashes.\<close>

lemma owned_by_move:
  assumes "owned_by s w" and "\<not> owns s i" and "pc \<in> {Outside, Spinning, Popping, Crashed}"
    and "lk_cpu (lock s) \<noteq> Some i \<or> pc = Crashed"
  shows "owned_by (s\<lparr>at := (at s)(i := pc)\<rparr>) w"
  using assms by (auto simp: owned_by_def owns_def)

lemma owned_by_cpus [simp]: "owned_by (s\<lparr>cpus := cs, at := f\<rparr>) w = owned_by (s\<lparr>at := f\<rparr>) w"
  by (simp add: owned_by_def owns_def)

lemma owned_by_crash:
  assumes "owned_by s w"
  shows "\<exists>w. owned_by (s\<lparr>at := (at s)(i := Crashed)\<rparr>) w"
proof -
  have "owned_by (s\<lparr>at := (at s)(i := Crashed)\<rparr>) (if w = Some i then None else w)"
    using assms by (auto simp: owned_by_def owns_def)
  then show ?thesis by blast
qed

lemma not_inside_cpu: "owned_by s w \<Longrightarrow> at s i \<noteq> Inside \<Longrightarrow> at s i \<noteq> Crashed \<Longrightarrow>
    lk_cpu (lock s) \<noteq> Some i"
  by (auto simp: owned_by_def)

lemma lock_step_owned: "lock_step s t \<Longrightarrow> owned_by s w \<Longrightarrow> \<exists>w. owned_by t w"
proof (induction rule: lock_step.induct)
  case (acq_begin s i c)
  then have "owned_by (s\<lparr>at := (at s)(i := Spinning)\<rparr>) w"
    by (intro owned_by_move) (auto simp: owns_def not_inside_cpu)
  then show ?case by auto
next
  case (spin s i old lk)
  then have lk: "locked (lock s) \<noteq> 0" "locked lk = 1" "lk_cpu lk = lk_cpu (lock s)"
    by (auto simp: xchg_def)
  from spin.prems lk have "owned_by (s\<lparr>lock := lk\<rparr>) w"
    unfolding owned_by_def owns_def by simp
  then show ?case ..
next
  case (take s i old lk)
  then have lk: "locked (lock s) = 0" "locked lk = 1" "lk_cpu lk = lk_cpu (lock s)"
    by (auto simp: xchg_def)
  with take.prems have "w = None" "lk_cpu (lock s) = None" by (auto simp: owned_by_def)
  with take.prems lk have "owned_by (s\<lparr>lock := lk, at := (at s)(i := Taken)\<rparr>) (Some i)"
    by (auto simp: owned_by_def owns_def)
  then show ?case by blast
next
  case (acq_end s i m a)
  then have "w = Some i" by (intro owned_by_owner) (auto simp: owns_def)
  with acq_end have "owned_by (s\<lparr>lock := acquire_end i m a (lock s), at := (at s)(i := Inside)\<rparr>) w"
    by (auto simp: owned_by_def owns_def acquire_end_def)
  then show ?case by blast
next
  case (rel_begin s i lk)
  have lk: "locked lk = locked (lock s)" "lk_cpu lk = None"
    using rel_begin.hyps by (auto simp: release_begin_def split: if_splits)
  from rel_begin have "w = Some i" by (intro owned_by_owner) (auto simp: owns_def)
  with rel_begin lk have "owned_by (s\<lparr>lock := lk, at := (at s)(i := Leaving)\<rparr>) w"
    by (auto simp: owned_by_def owns_def)
  then show ?case by blast
next
  case (rel_store s i)
  then have w: "w = Some i" by (intro owned_by_owner) (auto simp: owns_def)
  with rel_store have "owned_by (s\<lparr>lock := release_store (lock s), at := (at s)(i := Popping)\<rparr>) None"
    by (auto simp: owned_by_def owns_def release_store_def)
  then show ?case by blast
next
  case (rel_pop s i c)
  then have "owned_by (s\<lparr>at := (at s)(i := Outside)\<rparr>) w"
    by (intro owned_by_move) (auto simp: owns_def not_inside_cpu)
  then show ?case by auto
qed (auto intro: owned_by_crash)

lemma lock_reachable_owned: "lock_reachable s \<Longrightarrow> \<exists>w. owned_by s w"
proof (induction rule: lock_reachable.induct)
  case (start s)
  then have "owned_by s None" by (simp add: owned_by_def owns_def)
  then show ?case by blast
next
  case (step s t)
  then show ?case by (blast intro: lock_step_owned)
qed

lemma release_inside_ok:
  assumes "lock_reachable s" and "at s i = Inside"
  shows "\<exists>lk. release_begin i (lock s) = Inr lk"
proof -
  obtain w where "owned_by s w" using lock_reachable_owned [OF assms(1)] by blast
  with assms(2) have "holding i (lock s)"
    by (auto simp: owned_by_def holding_def owns_def)
  then show ?thesis by (simp add: release_begin_def)
qed

section \<open>pushcli and popcli are matched\<close>

fun popclis :: "nat \<Rightarrow> cpu \<Rightarrow> cpu res" where
  "popclis 0 c = Inr c"
| "popclis (Suc n) c = bindE (popcli c) (popclis n)"

lemma pushcli_ncli [simp]: "ncli (pushcli c) = ncli c + 1" "eflags_if (pushcli c) = False"
  "ncli c \<noteq> 0 \<Longrightarrow> intena (pushcli c) = intena c"
  "ncli c = 0 \<Longrightarrow> intena (pushcli c) = eflags_if c"
  by (simp_all add: pushcli_def Let_def)

lemma pushclis_fields:
  assumes "0 \<le> ncli c"
  shows "ncli ((pushcli ^^ n) c) = ncli c + int n"
    and "0 < n \<Longrightarrow> eflags_if ((pushcli ^^ n) c) = False"
    and "intena ((pushcli ^^ n) c) = (if 0 < n \<and> ncli c = 0 then eflags_if c else intena c)"
proof -
  show n: "ncli ((pushcli ^^ n) c) = ncli c + int n" for n
    by (induction n) auto
  show "0 < n \<Longrightarrow> eflags_if ((pushcli ^^ n) c) = False"
    by (cases n) auto
  show "intena ((pushcli ^^ n) c) = (if 0 < n \<and> ncli c = 0 then eflags_if c else intena c)"
  proof (induction n)
    case 0
    then show ?case by simp
  next
    case (Suc n)
    then show ?case using n [of n] assms by (cases "n = 0"; cases "ncli c = 0") simp_all
  qed
qed

lemma popclis_fields:
  assumes "\<not> eflags_if c" and "int n \<le> ncli c" and "0 < n"
  shows "popclis n c = Inr (c\<lparr>ncli := ncli c - int n, eflags_if := (ncli c = int n \<and> intena c)\<rparr>)"
  using assms
proof (induction n arbitrary: c)
  case 0
  then show ?case by simp
next
  case (Suc n)
  show ?case
  proof (cases n)
    case 0
    with Suc.prems show ?thesis by (auto simp: popcli_def Let_def)
  next
    case (Suc k)
    with Suc.prems have pop: "popcli c = Inr (c\<lparr>ncli := ncli c - 1\<rparr>)"
      by (auto simp: popcli_def Let_def)
    have "popclis n (c\<lparr>ncli := ncli c - 1\<rparr>) = Inr ((c\<lparr>ncli := ncli c - 1\<rparr>)
        \<lparr>ncli := ncli c - 1 - int n, eflags_if := (ncli c - 1 = int n \<and> intena c)\<rparr>)"
      using Suc.prems Suc by (subst Suc.IH) simp_all
    then show ?thesis using pop by (simp add: algebra_simps)
  qed
qed

lemma popclis_pushclis:
  assumes "ncli c = 0" and "0 < n"
  shows "popclis n ((pushcli ^^ n) c) = Inr (c\<lparr>intena := eflags_if c\<rparr>)"
proof -
  let ?d = "(pushcli ^^ n) c"
  have f: "ncli ?d = int n" "eflags_if ?d = False" "intena ?d = eflags_if c"
    using pushclis_fields [of c n] assms by simp_all
  have "popclis n ?d = Inr (?d\<lparr>ncli := ncli ?d - int n, eflags_if := (ncli ?d = int n \<and> intena ?d)\<rparr>)"
    by (rule popclis_fields) (use f assms in simp_all)
  then show ?thesis using f assms(1) by (cases ?d; cases c) simp
qed

section \<open>Properties\<close>

text \<open>
  C17. A spin lock excludes: in every reachable state, for any number of CPUs and any
  interleaving of their instructions, at most one CPU is between the return of \<open>acquire\<close>
  and its \<open>release\<close>. That CPU's \<open>release\<close> succeeds, and the lock is marked with it.
\<close>

theorem lock_mutual_exclusion:
  assumes "lock_reachable s" and "at s i = Inside"
  shows "(at s j = Inside \<longrightarrow> j = i) \<and> lk_cpu (lock s) = Some i \<and>
     (\<exists>lk. release_begin i (lock s) = Inr lk) \<and> acquire_begin i (lock s) c = Inl (Panic ''acquire'')"
proof -
  obtain w where w: "owned_by s w" using lock_reachable_owned [OF assms(1)] by blast
  have i: "w = Some i" using owned_by_owner [OF w, of i] assms(2) by (simp add: owns_def)
  have cpu: "lk_cpu (lock s) = Some i" "locked (lock s) \<noteq> 0"
    using w assms(2) i by (auto simp: owned_by_def)
  have "at s j = Inside \<longrightarrow> j = i" using owned_by_owner [OF w, of j] i by (simp add: owns_def)
  then show ?thesis
    using release_inside_ok [OF assms] cpu by (simp add: acquire_begin_def holding_def Let_def)
qed

definition idle_cpu :: cpu where
  "idle_cpu = \<lparr>ncli = 0, intena = False, eflags_if = True\<rparr>"

definition free_lock :: lock_system where
  "free_lock = \<lparr>lock = \<lparr>locked = 0, lk_name = [], lk_cpu = None, lk_pcs = replicate 10 0\<rparr>,
     cpus = (\<lambda>_. idle_cpu), at = (\<lambda>_. Outside)\<rparr>"

theorem lock_mutual_exclusion_witness:
  "\<exists>s. lock_reachable s \<and> at s 1 = Inside \<and> at s 2 = Spinning \<and> lk_cpu (lock s) = Some 1 \<and>
     (\<exists>lk. release_begin 1 (lock s) = Inr lk)"
proof -
  let ?s0 = "free_lock"
  let ?s1 = "?s0\<lparr>cpus := (cpus ?s0)(1 := pushcli idle_cpu), at := (at ?s0)(1 := Spinning)\<rparr>"
  let ?s2 = "?s1\<lparr>cpus := (cpus ?s1)(2 := pushcli idle_cpu), at := (at ?s1)(2 := Spinning)\<rparr>"
  let ?s3 = "?s2\<lparr>lock := (lock ?s2)\<lparr>locked := 1\<rparr>, at := (at ?s2)(1 := Taken)\<rparr>"
  let ?s4 = "?s3\<lparr>lock := acquire_end 1 (\<lambda>_. 0) 0 (lock ?s3), at := (at ?s3)(1 := Inside)\<rparr>"
  have "lock_reachable ?s0" by (intro lock_reachable.start) (simp_all add: free_lock_def)
  moreover have "lock_step ?s0 ?s1"
    by (rule acq_begin) (simp_all add: acquire_begin_def holding_def free_lock_def Let_def)
  moreover have "lock_step ?s1 ?s2"
    by (rule acq_begin) (simp_all add: acquire_begin_def holding_def free_lock_def Let_def)
  moreover have "lock_step ?s2 ?s3"
    by (rule take [where i = 1]) (simp_all add: xchg_def free_lock_def)
  moreover have "lock_step ?s3 ?s4" by (rule acq_end) simp
  ultimately have "lock_reachable ?s4" by (blast intro: lock_reachable.step)
  moreover have "at ?s4 1 = Inside" "at ?s4 2 = Spinning" by simp_all
  ultimately show ?thesis
    using lock_mutual_exclusion [where i = 1] by blast
qed

text \<open>
  \<open>pushcli\<close> and \<open>popcli\<close> are matched: after \<open>n\<close> of one and \<open>n\<close> of the other on a CPU
  that held no lock, none of them panics, and interrupts are enabled exactly when they
  were enabled before.
\<close>

lemma pushcli_popcli_matched:
  assumes "ncli c = 0" and "0 < n"
  shows "\<exists>c'. popclis n ((pushcli ^^ n) c) = Inr c' \<and> eflags_if c' = eflags_if c \<and> ncli c' = 0 \<and>
     eflags_if ((pushcli ^^ n) c) = False"
  using popclis_pushclis [OF assms] pushclis_fields(2) [of c n] assms by simp

lemma pushcli_popcli_matched_witness:
  "\<exists>c'. popclis 3 ((pushcli ^^ 3) idle_cpu) = Inr c' \<and> eflags_if c' = True \<and> ncli c' = 0 \<and>
     eflags_if ((pushcli ^^ 3) idle_cpu) = False"
  using pushcli_popcli_matched [of idle_cpu 3] by (simp add: idle_cpu_def)

end
