(* ===== verification/Sem.thy ===== *)
theory Sem
  imports Proc_Table Spinlock
begin

text \<open>
  The semaphores of exercise 3 (\<open>sem.h\<close>, \<open>sem.c\<close>): the semaphore table and the
  operations on it. A function is one section of code that runs under the table's lock
  \<open>gslock\<close> or under a semaphore's own lock \<open>sslock\<close>; an operation made of several
  sections is several functions, which theory \<open>Sem_System\<close> interleaves.
\<close>

section \<open>Data\<close>

text \<open>
  \<open>struct sem\<close> starts with \<open>char name[6]\<close>, two bytes of padding and \<open>int owner_pid\<close>,
  at offsets 0, 6 and 8. The code reads and writes \<open>SEMNAME = 10\<close> bytes through
  \<open>name\<close>, that is, across the padding into the two low bytes of \<open>owner_pid\<close>.
\<close>

record sem =
  s_name :: "byte list"
  s_pad :: "byte list"
  owner_pid :: uint
  sslock :: spinlock
  s_count :: uint
  s_ref :: uint
  s_maxVal :: uint
  linked :: bool
  waitingForDeath :: bool

definition wf_sem :: "sem \<Rightarrow> bool" where
  "wf_sem s \<longleftrightarrow> length (s_name s) = 6 \<and> length (s_pad s) = 2"

text \<open>The bytes from \<open>s->name\<close> on, up to the end of \<open>owner_pid\<close>.\<close>

definition name_bytes :: "sem \<Rightarrow> byte list" where
  "name_bytes s = s_name s @ s_pad s @ le32 (owner_pid s)"

definition set_name_bytes :: "byte list \<Rightarrow> sem \<Rightarrow> sem" where
  "set_name_bytes bs s =
     s\<lparr>s_name := take 6 bs, s_pad := take 2 (drop 6 bs), owner_pid := of_le32 (drop 8 bs)\<rparr>"

definition zero_sem :: sem where
  "zero_sem = \<lparr>s_name = replicate 6 0, s_pad = replicate 2 0, owner_pid = 0,
     sslock = \<lparr>locked = 0, lk_name = [], lk_cpu = None, lk_pcs = replicate 10 0\<rparr>,
     s_count = 0, s_ref = 0, s_maxVal = 0, linked = False, waitingForDeath = False\<rparr>"

text \<open>\<open>stable\<close> is static, so it starts as zero bytes.\<close>

definition stable0 :: "sem list" where
  "stable0 = replicate NSEM zero_sem"

definition set_sem :: "nat \<Rightarrow> (sem \<Rightarrow> sem) \<Rightarrow> sem list \<Rightarrow> sem list" where
  "set_sem i f tab = tab[i := f (tab ! i)]"

section \<open>Opening and closing\<close>

definition semdup :: "nat \<Rightarrow> sem list \<Rightarrow> sem list" where
  "semdup i tab = set_sem i (\<lambda>s. s\<lparr>s_ref := s_ref s + 1\<rparr>) tab"

text \<open>
  The scan of \<open>sem_open\<close>: the index of an open semaphore of that name (\<open>Inl\<close>), or the
  first slot that is not linked, if there is one (\<open>Inr\<close>).
\<close>

fun open_scan :: "byte list \<Rightarrow> nat \<Rightarrow> nat option \<Rightarrow> sem list \<Rightarrow> (nat + nat option) res" where
  "open_scan name i spot [] = Inr (Inr spot)"
| "open_scan name i spot (s # ss) =
     (let next = open_scan name (Suc i) (if \<not> linked s \<and> spot = None then Some i else spot) ss
      in if 0 < sint (s_ref s) then
           bindE (strncmp (name_bytes s) name SEMNAME) (\<lambda>r. if r = 0 then Inr (Inl i) else next)
         else next)"

definition sem_open_find :: "byte list \<Rightarrow> sem list \<Rightarrow> ((nat + nat option) \<times> sem list) res" where
  "sem_open_find name tab =
     bindE (open_scan name 0 None tab) (\<lambda>r. case r of
         Inl i \<Rightarrow> Inr (Inl i, semdup i tab)
       | Inr spot \<Rightarrow> Inr (Inr spot, tab))"

definition sem_open_claim ::
  "byte list \<Rightarrow> uint \<Rightarrow> uint \<Rightarrow> uint \<Rightarrow> nat \<Rightarrow> sem list \<Rightarrow> sem list res" where
  "sem_open_claim name init maxVal pid spot tab =
     (let s = tab ! spot;
          s = s\<lparr>sslock := initlock (cstr name) (sslock s)\<rparr>
      in bindE (safestrcpy (name_bytes s) name (int SEMNAME)) (\<lambda>bs.
           let s = set_name_bytes bs s;
               s = s\<lparr>linked := True\<rparr>;
               s = s\<lparr>s_ref := 1\<rparr>;
               s = s\<lparr>s_count := init\<rparr>;
               s = s\<lparr>s_maxVal := maxVal\<rparr>;
               s = s\<lparr>owner_pid := pid\<rparr>;
               s = s\<lparr>waitingForDeath := False\<rparr>
           in Inr (tab[spot := s])))"

text \<open>\<open>sem_open\<close> when nothing comes between its two sections.\<close>

definition sem_open ::
  "byte list \<Rightarrow> uint \<Rightarrow> uint \<Rightarrow> uint \<Rightarrow> sem list \<Rightarrow> (nat option \<times> sem list) res" where
  "sem_open name init maxVal pid tab =
     bindE (sem_open_find name tab) (\<lambda>(r, tab). case r of
         Inl i \<Rightarrow> Inr (Some i, tab)
       | Inr None \<Rightarrow> Inr (None, tab)
       | Inr (Some spot) \<Rightarrow>
           mapE (\<lambda>tab. (Some spot, tab)) (sem_open_claim name init maxVal pid spot tab))"

definition sem_close :: "nat \<Rightarrow> sem list \<times> ptable \<Rightarrow> int \<times> sem list \<times> ptable" where
  "sem_close i = (\<lambda>(tab, pt).
     let tab = set_sem i (\<lambda>s. s\<lparr>s_ref := s_ref s - 1\<rparr>) tab;
         pt = (if s_ref (tab ! i) = 0 \<and> waitingForDeath (tab ! i)
               then wakeup StableChan pt else pt)
     in (0, tab, pt))"

section \<open>Waiting and posting\<close>

text \<open>What one round of a waiting loop does: it returns, or it goes to sleep.\<close>

datatype outcome = Return int | Asleep

definition sem_wait_round :: "nat \<Rightarrow> nat \<Rightarrow> sem list \<times> ptable \<Rightarrow> outcome \<times> sem list \<times> ptable" where
  "sem_wait_round me i = (\<lambda>(tab, pt).
     if 0 < sint (s_count (tab ! i)) then
       (Return 0, set_sem i (\<lambda>s. s\<lparr>s_count := s_count s - 1\<rparr>) tab, pt)
     else if p_killed (proc_at pt me) then (Return (-1), tab, pt)
     else (Asleep, tab, sleep_begin me (SemChan i) pt))"

definition sem_try_wait :: "nat \<Rightarrow> sem list \<Rightarrow> int \<times> sem list" where
  "sem_try_wait i tab =
     (if 0 < sint (s_count (tab ! i))
      then (0, set_sem i (\<lambda>s. s\<lparr>s_count := s_count s - 1\<rparr>) tab)
      else (-1, tab))"

definition sem_post :: "nat \<Rightarrow> sem list \<times> ptable \<Rightarrow> int \<times> sem list \<times> ptable" where
  "sem_post i = (\<lambda>(tab, pt).
     if s_count (tab ! i) = s_maxVal (tab ! i) then (-2, tab, pt)
     else let tab = set_sem i (\<lambda>s. s\<lparr>s_count := s_count s + 1\<rparr>) tab
          in (0, tab, if s_count (tab ! i) = 1 then wakeup (SemChan i) pt else pt))"

section \<open>Reset\<close>

text \<open>The checks are made without a lock, and the two updates in a section each.\<close>

definition sem_reset_check :: "uint \<Rightarrow> nat \<Rightarrow> uint \<Rightarrow> uint \<Rightarrow> sem list \<Rightarrow> bool" where
  "sem_reset_check pid i newVal newMaxVal tab \<longleftrightarrow>
     \<not> (pid \<noteq> owner_pid (tab ! i) \<or>
        (0 \<le> sint newMaxVal \<and> sint newMaxVal < sint (s_maxVal (tab ! i))) \<or>
        (sint newMaxVal < 0 \<and> sint newVal < 0))"

definition sem_reset_val :: "nat \<Rightarrow> uint \<Rightarrow> sem list \<times> ptable \<Rightarrow> sem list \<times> ptable" where
  "sem_reset_val i newVal = (\<lambda>(tab, pt).
     if 0 \<le> sint newVal then
       let oldVal = s_count (tab ! i);
           tab = set_sem i (\<lambda>s. s\<lparr>s_count := newVal\<rparr>) tab
       in (tab, if 0 < sint newVal \<and> oldVal = 0 then wakeup (SemChan i) pt else pt)
     else (tab, pt))"

definition sem_reset_max :: "nat \<Rightarrow> uint \<Rightarrow> sem list \<Rightarrow> sem list" where
  "sem_reset_max i newMaxVal tab =
     (if sint (s_maxVal (tab ! i)) < sint newMaxVal
      then set_sem i (\<lambda>s. s\<lparr>s_maxVal := newMaxVal\<rparr>) tab else tab)"

definition sem_reset ::
  "uint \<Rightarrow> nat \<Rightarrow> uint \<Rightarrow> uint \<Rightarrow> sem list \<times> ptable \<Rightarrow> int \<times> sem list \<times> ptable" where
  "sem_reset pid i newVal newMaxVal = (\<lambda>(tab, pt).
     if \<not> sem_reset_check pid i newVal newMaxVal tab then (-1, tab, pt)
     else let (tab, pt) = sem_reset_val i newVal (tab, pt)
          in (0, sem_reset_max i newMaxVal tab, pt))"

section \<open>Unlinking\<close>

fun unlink_scan :: "byte list \<Rightarrow> nat \<Rightarrow> sem list \<Rightarrow> nat option res" where
  "unlink_scan name i [] = Inr None"
| "unlink_scan name i (s # ss) =
     bindE (strncmp (name_bytes s) name SEMNAME) (\<lambda>r.
       if r = 0 then Inr (Some i) else unlink_scan name (Suc i) ss)"

definition sem_unlink_mark :: "nat \<Rightarrow> sem list \<Rightarrow> sem list" where
  "sem_unlink_mark i tab = set_sem i (\<lambda>s. s\<lparr>waitingForDeath := True\<rparr>) tab"

definition sem_unlink_round ::
  "nat \<Rightarrow> nat \<Rightarrow> sem list \<times> ptable \<Rightarrow> outcome \<times> sem list \<times> ptable" where
  "sem_unlink_round me i = (\<lambda>(tab, pt).
     if s_ref (tab ! i) = 0 then (Return 0, set_sem i (\<lambda>s. s\<lparr>linked := False\<rparr>) tab, pt)
     else if p_killed (proc_at pt me) then (Return (-1), tab, pt)
     else (Asleep, tab, sleep_begin me StableChan pt))"

section \<open>Names\<close>

lemma length_name_bytes [simp]: "wf_sem s \<Longrightarrow> length (name_bytes s) = 12"
  by (simp add: wf_sem_def name_bytes_def)

lemma name_bytes_readable [simp]: "wf_sem s \<Longrightarrow> readable (name_bytes s) SEMNAME"
  by (simp add: readable_def SEMNAME_def)

text \<open>The name a semaphore is compared by.\<close>

definition sem_key :: "sem \<Rightarrow> byte list" where
  "sem_key s = take SEMNAME (cstr (name_bytes s))"

definition key_of :: "byte list \<Rightarrow> byte list" where
  "key_of name = take SEMNAME (cstr name)"

lemma strncmp_name:
  "wf_sem s \<Longrightarrow> readable name SEMNAME \<Longrightarrow>
     \<exists>r. strncmp (name_bytes s) name SEMNAME = Inr r \<and> (r = 0 \<longleftrightarrow> sem_key s = key_of name)"
  using strncmp_total [of "name_bytes s" SEMNAME name] by (simp add: sem_key_def key_of_def)

text \<open>A slot that \<open>sem_open\<close> takes for the name.\<close>

definition is_open :: "byte list \<Rightarrow> sem \<Rightarrow> bool" where
  "is_open name s \<longleftrightarrow> 0 < sint (s_ref s) \<and> sem_key s = key_of name"

lemma open_scan_spec:
  "\<forall>s \<in> set tab. wf_sem s \<Longrightarrow> readable name SEMNAME \<Longrightarrow>
     open_scan name k spot tab = Inr (case scan_from (is_open name) k tab of
         Some i \<Rightarrow> Inl i
       | None \<Rightarrow> Inr (case spot of Some j \<Rightarrow> Some j | None \<Rightarrow> scan_from (\<lambda>s. \<not> linked s) k tab))"
proof (induction tab arbitrary: k spot)
  case Nil
  then show ?case by (simp split: option.splits)
next
  case (Cons s tab)
  then obtain r where "strncmp (name_bytes s) name SEMNAME = Inr r"
    "r = 0 \<longleftrightarrow> sem_key s = key_of name"
    using strncmp_name [of s name] by auto
  with Cons show ?case by (auto simp: Let_def is_open_def split: option.splits)
qed

lemma unlink_scan_spec:
  "\<forall>s \<in> set tab. wf_sem s \<Longrightarrow> readable name SEMNAME \<Longrightarrow>
     unlink_scan name k tab = Inr (scan_from (\<lambda>s. sem_key s = key_of name) k tab)"
proof (induction tab arbitrary: k)
  case Nil
  then show ?case by simp
next
  case (Cons s tab)
  then obtain r where "strncmp (name_bytes s) name SEMNAME = Inr r"
    "r = 0 \<longleftrightarrow> sem_key s = key_of name"
    using strncmp_name [of s name] by auto
  with Cons show ?case by auto
qed

lemma sem_open_find_spec:
  assumes "\<forall>s \<in> set tab. wf_sem s" and "readable name SEMNAME"
  shows "sem_open_find name tab = Inr (case scan (is_open name) tab of
      Some i \<Rightarrow> (Inl i, semdup i tab)
    | None \<Rightarrow> (Inr (scan (\<lambda>s. \<not> linked s) tab), tab))"
  using open_scan_spec [OF assms, of 0 None] by (simp add: sem_open_find_def split: option.splits)

section \<open>The name a claimed slot answers to\<close>

lemma cstr_take_append:
  "length (cstr r) < k \<Longrightarrow> 0 \<in> set r \<Longrightarrow> cstr (take k r @ x) = cstr r"
proof (induction r arbitrary: k)
  case Nil
  then show ?case by simp
next
  case (Cons c r)
  then obtain k' where "k = Suc k'" by (cases k) auto
  with Cons show ?case by (cases "c = 0") auto
qed

lemma cstr_take_append_long:
  "k \<le> length (cstr r) \<Longrightarrow> cstr (take k r @ x) = take k (cstr r) @ cstr x"
proof (induction r arbitrary: k)
  case Nil
  then show ?case by simp
next
  case (Cons c r)
  then show ?case by (cases k; cases "c = 0") auto
qed

lemma name_bytes_set_owner:
  "length bs = 12 \<Longrightarrow>
     name_bytes ((set_name_bytes bs s)\<lparr>linked := l, s_ref := r, s_count := c, s_maxVal := m,
        owner_pid := pid, waitingForDeath := w\<rparr>) = take 8 bs @ le32 pid"
proof -
  assume bs: "length bs = 12"
  have "take 6 bs @ take 2 (drop 6 bs) = take (6 + 2) bs" by (simp only: take_add)
  then have "take 6 bs @ take 2 (drop 6 bs) @ le32 pid = take 8 bs @ le32 pid"
    by (simp only: append_assoc [symmetric]) simp
  then show ?thesis by (simp add: name_bytes_def set_name_bytes_def)
qed

definition claimed_key :: "byte list \<Rightarrow> uint \<Rightarrow> byte list" where
  "claimed_key name pid =
     (let n = cstr name
      in if length n < 8 then n else take 8 n @ take 2 (cstr (le32 pid)))"

lemma sem_open_claim_spec:
  assumes wf: "wf_sem (tab ! spot)" and rd: "readable name SEMNAME"
  shows "\<exists>s'. sem_open_claim name init maxVal pid spot tab = Inr (tab[spot := s']) \<and>
     wf_sem s' \<and> sem_key s' = claimed_key name pid \<and> linked s' \<and> s_ref s' = 1 \<and>
     s_count s' = init \<and> s_maxVal s' = maxVal \<and> owner_pid s' = pid \<and> \<not> waitingForDeath s' \<and>
     locked (sslock s') = 0"
proof -
  let ?s = "tab ! spot"
  let ?old = "name_bytes (?s\<lparr>sslock := initlock (cstr name) (sslock ?s)\<rparr>)"
  have len: "length ?old = 12" using wf by (simp add: name_bytes_def wf_sem_def)
  have rd9: "readable name (nat (int SEMNAME) - 1)"
    using rd by (auto simp: readable_def SEMNAME_def)
  obtain r where r: "safestrcpy ?old name (int SEMNAME) = Inr r" "length r = 12"
      "cstr r = take 9 (cstr name)" "0 \<in> set (take 10 r)"
    using safestrcpy_spec [OF _ _ rd9, of ?old] len by (auto simp: SEMNAME_def)
  have nul: "0 \<in> set r" using r(4) by (meson in_set_takeD)
  let ?n = "cstr name"
  have key: "take SEMNAME (cstr (take 8 r @ le32 pid)) = claimed_key name pid"
  proof (cases "length ?n < 8")
    case True
    then have "length (cstr r) < 8" and all: "cstr r = ?n" using r(3) by simp_all
    with True nul show ?thesis
      by (simp add: cstr_take_append claimed_key_def Let_def SEMNAME_def)
  next
    case False
    then have l: "8 \<le> length (cstr r)" and t: "take 8 (cstr r) = take 8 ?n"
      using r(3) by simp_all
    have "cstr (take 8 r @ le32 pid) = take 8 ?n @ cstr (le32 pid)"
      using cstr_take_append_long [OF l] t by simp
    with False show ?thesis by (simp add: claimed_key_def Let_def SEMNAME_def)
  qed
  define s' where "s' = (set_name_bytes r (?s\<lparr>sslock := initlock (cstr name) (sslock ?s)\<rparr>))
    \<lparr>linked := True, s_ref := 1, s_count := init, s_maxVal := maxVal, owner_pid := pid,
     waitingForDeath := False\<rparr>"
  have "sem_open_claim name init maxVal pid spot tab = Inr (tab[spot := s'])"
    using r(1) by (simp add: sem_open_claim_def Let_def s'_def)
  moreover have "wf_sem s'" using r(2) by (simp add: wf_sem_def s'_def set_name_bytes_def)
  moreover have "sem_key s' = claimed_key name pid"
    unfolding sem_key_def s'_def name_bytes_set_owner [OF r(2)] by (rule key)
  ultimately show ?thesis by (intro exI [of _ s']) (simp add: s'_def initlock_def set_name_bytes_def)
qed

lemma claimed_key_eq:
  "claimed_key name pid = key_of name \<longleftrightarrow>
     length (cstr name) < 8 \<or> take 2 (cstr (le32 pid)) = take 2 (drop 8 (cstr name))"
proof (cases "length (cstr name) < 8")
  case True
  then show ?thesis by (simp add: claimed_key_def key_of_def Let_def SEMNAME_def)
next
  case False
  have "take 10 (cstr name) = take 8 (cstr name) @ take 2 (drop 8 (cstr name))"
    using take_add [of 8 2 "cstr name"] by simp
  with False show ?thesis by (simp add: claimed_key_def key_of_def Let_def SEMNAME_def)
qed

section \<open>Well-formed tables\<close>

definition wf_tab :: "sem list \<Rightarrow> bool" where
  "wf_tab tab \<longleftrightarrow> length tab = NSEM \<and> (\<forall>s \<in> set tab. wf_sem s)"

lemma wf_stable0 [simp]: "wf_tab stable0"
  by (simp add: wf_tab_def stable0_def wf_sem_def zero_sem_def)

lemma wf_tab_nth: "wf_tab tab \<Longrightarrow> i < NSEM \<Longrightarrow> wf_sem (tab ! i)"
  by (simp add: wf_tab_def)

lemma wf_tab_update: "wf_tab tab \<Longrightarrow> wf_sem s \<Longrightarrow> wf_tab (tab[i := s])"
  using set_update_subset_insert by (fastforce simp: wf_tab_def)

text \<open>The fields the operations change leave the name bytes' shape alone.\<close>

lemma wf_sem_simps [simp]:
  "wf_sem (s\<lparr>s_count := c\<rparr>) = wf_sem s" "wf_sem (s\<lparr>s_ref := r\<rparr>) = wf_sem s"
  "wf_sem (s\<lparr>s_maxVal := m\<rparr>) = wf_sem s" "wf_sem (s\<lparr>linked := l\<rparr>) = wf_sem s"
  "wf_sem (s\<lparr>waitingForDeath := w\<rparr>) = wf_sem s"
  by (simp_all add: wf_sem_def)

lemma sem_key_simps [simp]:
  "sem_key (s\<lparr>s_count := c\<rparr>) = sem_key s" "sem_key (s\<lparr>s_ref := r\<rparr>) = sem_key s"
  "sem_key (s\<lparr>s_maxVal := m\<rparr>) = sem_key s" "sem_key (s\<lparr>linked := l\<rparr>) = sem_key s"
  "sem_key (s\<lparr>waitingForDeath := w\<rparr>) = sem_key s"
  by (simp_all add: sem_key_def name_bytes_def)

lemma wf_set_sem:
  "wf_tab tab \<Longrightarrow> i < NSEM \<Longrightarrow> (\<And>s. wf_sem s \<Longrightarrow> wf_sem (f s)) \<Longrightarrow> wf_tab (set_sem i f tab)"
  unfolding set_sem_def by (intro wf_tab_update) (auto dest: wf_tab_nth)

lemma set_sem_nth: "i < length tab \<Longrightarrow> set_sem i f tab ! j = (if j = i then f (tab ! i) else tab ! j)"
  by (simp add: set_sem_def nth_update)

lemma length_set_sem [simp]: "length (set_sem i f tab) = length tab"
  by (simp add: set_sem_def)

end
