(* ===== verification/Syscall.thy ===== *)
theory Syscall
  imports Proc_Table
begin

text \<open>
  How system calls fetch their arguments (\<open>syscall.c\<close>). The calling process is a
  \<^typ>\<open>proc\<close>, its memory a \<open>memory\<close> of which it owns the addresses below \<open>sz\<close>. A
  result of \<open>-1\<close> is \<open>None\<close>; what the code stores through its pointer argument is in
  \<open>Some\<close>.
\<close>

definition load32 :: "memory \<Rightarrow> uint \<Rightarrow> uint" where
  "load32 um a = read32 um a"

definition fetchint :: "proc \<Rightarrow> memory \<Rightarrow> uint \<Rightarrow> uint option" where
  "fetchint p um addr =
     (if p_sz p \<le> addr \<or> p_sz p < addr + 4 then None else Some (load32 um addr))"

text \<open>The loop of \<open>fetchstr\<close>: \<open>s\<close> runs up to \<open>ep\<close>; the result is the offset of the NUL.\<close>

function fetchstr_loop :: "memory \<Rightarrow> nat \<Rightarrow> nat \<Rightarrow> nat \<Rightarrow> nat option" where
  "fetchstr_loop um s ep start =
     (if s < ep then if um s = 0 then Some (s - start) else fetchstr_loop um (Suc s) ep start
      else None)"
  by pat_completeness auto
termination by (relation "measure (\<lambda>(um, s, ep, start). ep - s)") auto

declare fetchstr_loop.simps [simp del]

definition fetchstr :: "proc \<Rightarrow> memory \<Rightarrow> uint \<Rightarrow> (uint \<times> nat) option" where
  "fetchstr p um addr =
     (if p_sz p \<le> addr then None
      else map_option (\<lambda>len. (addr, len))
             (fetchstr_loop um (unat addr) (unat (p_sz p)) (unat addr)))"

definition argint :: "proc \<Rightarrow> memory \<Rightarrow> nat \<Rightarrow> uint option" where
  "argint p um n = fetchint p um (tf_esp (p_tf p) + 4 + 4 * word_of_nat n)"

definition argptr :: "proc \<Rightarrow> memory \<Rightarrow> nat \<Rightarrow> uint \<Rightarrow> uint option" where
  "argptr p um n sz =
     (case argint p um n of
        None \<Rightarrow> None
      | Some i \<Rightarrow>
          if sint sz < 0 \<or> p_sz p \<le> i \<or> p_sz p < i + sz then None else Some i)"

definition argstr :: "proc \<Rightarrow> memory \<Rightarrow> nat \<Rightarrow> (uint \<times> nat) option" where
  "argstr p um n =
     (case argint p um n of None \<Rightarrow> None | Some addr \<Rightarrow> fetchstr p um addr)"

text \<open>The bytes a pointer argument points to: from the address to the end of the process.\<close>

definition user_bytes :: "proc \<Rightarrow> memory \<Rightarrow> uint \<Rightarrow> byte list" where
  "user_bytes p um a = map um [unat a..<unat (p_sz p)]"

section \<open>Arguments lie in the process\<close>

lemma fetchint_bounds:
  assumes "fetchint p um addr = Some v" and sz: "p_sz p \<le> KERNBASE"
  shows "unat addr + 4 \<le> unat (p_sz p) \<and> v = read32 um addr"
proof -
  from assms(1) have a: "addr < p_sz p" "addr + 4 \<le> p_sz p" and v: "v = read32 um addr"
    by (auto simp: fetchint_def load32_def not_le not_less split: if_splits)
  have "unat (p_sz p) \<le> 0x80000000"
    using sz by (simp add: word_le_nat_alt KERNBASE_def)
  then have "unat addr < 0x80000000" using a(1) by (simp add: word_less_nat_alt)
  then have "unat (addr + 4) = unat addr + 4" by (simp add: unat_word_ariths)
  with a(2) v show ?thesis by (simp add: word_le_nat_alt)
qed

lemma fetchstr_loop_Some:
  "fetchstr_loop um s ep start = Some n \<Longrightarrow> start \<le> s \<Longrightarrow>
     s \<le> start + n \<and> start + n < ep \<and> um (start + n) = 0 \<and> (\<forall>a. s \<le> a \<longrightarrow> a < start + n \<longrightarrow> um a \<noteq> 0)"
proof (induction um s ep start rule: fetchstr_loop.induct)
  case (1 um s ep start)
  show ?case
  proof (cases "s < ep \<and> um s \<noteq> 0")
    case True
    with "1.prems" have "fetchstr_loop um (Suc s) ep start = Some n"
      by (subst (asm) fetchstr_loop.simps) simp
    with "1.IH" True "1.prems"(2) have
      "Suc s \<le> start + n" "start + n < ep" "um (start + n) = 0"
      "\<forall>a. Suc s \<le> a \<longrightarrow> a < start + n \<longrightarrow> um a \<noteq> 0"
      by auto
    with True show ?thesis by (metis Suc_leI Suc_le_lessD le_neq_implies_less less_imp_le_nat)
  next
    case False
    with "1.prems" show ?thesis
      by (subst (asm) fetchstr_loop.simps) (auto split: if_splits)
  qed
qed

lemma fetchstr_loop_None:
  "fetchstr_loop um s ep start = None \<Longrightarrow> s \<le> a \<Longrightarrow> a < ep \<Longrightarrow> um a \<noteq> 0"
proof (induction um s ep start rule: fetchstr_loop.induct)
  case (1 um s ep start)
  from "1.prems" have s: "s < ep" "um s \<noteq> 0" and next_None: "fetchstr_loop um (Suc s) ep start = None"
    by (subst (asm) fetchstr_loop.simps; simp split: if_splits)+
  show ?case
  proof (cases "a = s")
    case True
    with s show ?thesis by simp
  next
    case False
    with "1.IH" s next_None "1.prems" show ?thesis by simp
  qed
qed

lemma fetchstr_readable:
  assumes "fetchstr p um addr = Some (a, len)"
  shows "a = addr \<and> unat addr + len < unat (p_sz p) \<and>
     cstr (user_bytes p um addr) = map um [unat addr..<unat addr + len] \<and>
     0 \<in> set (user_bytes p um addr)"
proof -
  from assms have a: "a = addr" and
    loop: "fetchstr_loop um (unat addr) (unat (p_sz p)) (unat addr) = Some len"
    by (auto simp: fetchstr_def split: if_splits)
  from fetchstr_loop_Some [OF loop] have b: "unat addr + len < unat (p_sz p)"
    and nul: "um (unat addr + len) = 0"
    and chars: "\<forall>x. unat addr \<le> x \<longrightarrow> x < unat addr + len \<longrightarrow> um x \<noteq> 0" by auto
  have "[unat addr..<unat (p_sz p)]
      = [unat addr..<unat addr + len] @ (unat addr + len) # [Suc (unat addr + len)..<unat (p_sz p)]"
    using b upt_add_eq_append [of "unat addr" "unat addr + len" "unat (p_sz p) - (unat addr + len)"]
    by (simp add: upt_conv_Cons)
  then have split: "user_bytes p um addr = map um [unat addr..<unat addr + len]
      @ 0 # map um [Suc (unat addr + len)..<unat (p_sz p)]"
    by (simp add: user_bytes_def nul)
  have "0 \<notin> set (map um [unat addr..<unat addr + len])" using chars by fastforce
  then have "cstr (user_bytes p um addr) = map um [unat addr..<unat addr + len]"
    unfolding split by (simp add: cstr_no_nul)
  with a b show ?thesis by (simp add: split)
qed

lemma argptr_bounds:
  assumes "argptr p um n len = Some a" and sz: "p_sz p \<le> KERNBASE"
  shows "unat a + unat len \<le> unat (p_sz p)"
proof -
  from assms(1) have a: "a < p_sz p" "a + len \<le> p_sz p" and len: "0 \<le> sint len"
    by (auto simp: argptr_def not_le not_less split: option.splits if_splits)
  have "unat (p_sz p) \<le> 0x80000000"
    using sz by (simp add: word_le_nat_alt KERNBASE_def)
  then have 1: "unat a < 0x80000000" using a(1) by (simp add: word_less_nat_alt)
  have "sint len < 0x80000000" using sint_bounds(2) [of len] by simp
  then have 2: "unat len < 0x80000000" using unat_eq_sint [OF len] by linarith
  from 1 2 have "unat (a + len) = unat a + unat len" by (simp add: unat_word_ariths)
  with a(2) show ?thesis by (simp add: word_le_nat_alt)
qed

section \<open>Properties\<close>

text \<open>
  C29. A system call argument that is fetched as a pointer to \<open>len\<close> bytes lies wholly
  inside the calling process, whatever the two numbers the user passed: no wrap-around
  of \<open>i + size\<close> gets an outside buffer through. A string argument ends, with its NUL,
  inside the process.
\<close>

theorem arguments_inside_process:
  assumes "p_sz p \<le> KERNBASE"
  shows "(\<forall>n len a. argptr p um n len = Some a \<longrightarrow> unat a + unat len \<le> unat (p_sz p)) \<and>
     (\<forall>n a len. argstr p um n = Some (a, len) \<longrightarrow>
        unat a + len < unat (p_sz p) \<and> um (unat a + len) = 0 \<and> length (cstr (user_bytes p um a)) = len)"
proof (intro conjI allI impI)
  fix n len a assume "argptr p um n len = Some a"
  then show "unat a + unat len \<le> unat (p_sz p)" using assms by (rule argptr_bounds)
next
  fix n a len assume "argstr p um n = Some (a, len)"
  then obtain addr where f: "fetchstr p um addr = Some (a, len)"
    by (auto simp: argstr_def split: option.splits)
  from fetchstr_readable [OF f] have a: "a = addr" "unat addr + len < unat (p_sz p)"
    "cstr (user_bytes p um addr) = map um [unat addr..<unat addr + len]" by simp_all
  have "fetchstr_loop um (unat addr) (unat (p_sz p)) (unat addr) = Some len"
    using f by (auto simp: fetchstr_def split: if_splits)
  with a fetchstr_loop_Some show "unat a + len < unat (p_sz p)" "um (unat a + len) = 0"
    "length (cstr (user_bytes p um a)) = len" by auto
qed

theorem arguments_inside_process_witness:
  "argptr (zero_proc\<lparr>p_sz := 0x2000\<rparr>) (\<lambda>_. 0) 0 0x2000 = Some 0 \<and>
   unat (0 :: uint) + unat (0x2000 :: uint) \<le> unat (p_sz (zero_proc\<lparr>p_sz := 0x2000\<rparr>))"
proof -
  let ?p = "zero_proc\<lparr>p_sz := 0x2000\<rparr>"
  have a: "argptr ?p (\<lambda>_. 0) 0 0x2000 = Some 0" by code_simp
  have "p_sz ?p \<le> KERNBASE" by (simp add: KERNBASE_def)
  from arguments_inside_process [OF this, of "\<lambda>_. 0"] a show ?thesis by blast
qed

end
