(* ===== verification/Sem_System.thy ===== *)
theory Sem_System
  imports Sem Syscall
begin

text \<open>
  The semaphore system calls (\<open>syssem.c\<close>) and the parts of fork, exit and wait that
  deal with semaphores (\<open>proc.c\<close>), run by all processes at once. A process is at a
  control point, and one step runs one section of code, up to where the code gives up
  the lock it holds or sleeps. A processor can run another process between any two
  sections, so the steps of different processes interleave freely.
\<close>

section \<open>The system calls of syssem.c\<close>

definition argsd :: "proc \<Rightarrow> memory \<Rightarrow> nat \<Rightarrow> (nat \<times> nat) option" where
  "argsd p um n =
     (case argint p um n of
        None \<Rightarrow> None
      | Some sd \<Rightarrow>
          if sint sd < 0 \<or> int NOSEM \<le> sint sd then None
          else (case p_osem p ! unat sd of None \<Rightarrow> None | Some i \<Rightarrow> Some (unat sd, i)))"

text \<open>What a system call goes on to do once its arguments are fetched.\<close>

datatype semcall =
    COpen "byte list" uint uint
  | CClose nat nat            \<comment> \<open>descriptor and semaphore\<close>
  | CWait nat
  | CTryWait nat
  | CPost nat
  | CReset nat uint uint
  | CUnlink "byte list"

definition sys_sem_open :: "proc \<Rightarrow> memory \<Rightarrow> semcall option" where
  "sys_sem_open p um =
     (case argstr p um 0 of None \<Rightarrow> None | Some (name, _) \<Rightarrow>
      case argint p um 1 of None \<Rightarrow> None | Some init \<Rightarrow>
      case argint p um 2 of None \<Rightarrow> None | Some maxVal \<Rightarrow>
        Some (COpen (user_bytes p um name) init maxVal))"

definition sys_sem_close :: "proc \<Rightarrow> memory \<Rightarrow> semcall option" where
  "sys_sem_close p um = map_option (\<lambda>(sd, i). CClose sd i) (argsd p um 0)"

definition sys_sem_wait :: "proc \<Rightarrow> memory \<Rightarrow> semcall option" where
  "sys_sem_wait p um = map_option (\<lambda>(sd, i). CWait i) (argsd p um 0)"

definition sys_sem_try_wait :: "proc \<Rightarrow> memory \<Rightarrow> semcall option" where
  "sys_sem_try_wait p um = map_option (\<lambda>(sd, i). CTryWait i) (argsd p um 0)"

definition sys_sem_post :: "proc \<Rightarrow> memory \<Rightarrow> semcall option" where
  "sys_sem_post p um = map_option (\<lambda>(sd, i). CPost i) (argsd p um 0)"

definition sys_sem_reset :: "proc \<Rightarrow> memory \<Rightarrow> semcall option" where
  "sys_sem_reset p um =
     (case argsd p um 0 of None \<Rightarrow> None | Some (_, i) \<Rightarrow>
      case argint p um 1 of None \<Rightarrow> None | Some newVal \<Rightarrow>
      case argint p um 2 of None \<Rightarrow> None | Some newMaxVal \<Rightarrow>
        Some (CReset i newVal newMaxVal))"

definition sys_sem_unlink :: "proc \<Rightarrow> memory \<Rightarrow> semcall option" where
  "sys_sem_unlink p um =
     map_option (\<lambda>(name, _). CUnlink (user_bytes p um name)) (argstr p um 0)"

text \<open>
  The end of \<open>sys_sem_open\<close>: the semaphore goes into the first free descriptor. When
  there is none the call returns -1, and the reference it took stays.
\<close>

definition store_sem :: "nat \<Rightarrow> nat \<Rightarrow> ptable \<Rightarrow> int \<times> ptable" where
  "store_sem me i pt =
     (case scan (\<lambda>d. d = None) (p_osem (proc_at pt me)) of
        None \<Rightarrow> (-1, pt)
      | Some sd \<Rightarrow> (int sd, set_proc me (\<lambda>p. p\<lparr>p_osem := (p_osem p)[sd := Some i]\<rparr>) pt))"

definition clear_sem :: "nat \<Rightarrow> nat \<Rightarrow> ptable \<Rightarrow> ptable" where
  "clear_sem me sd pt = set_proc me (\<lambda>p. p\<lparr>p_osem := (p_osem p)[sd := None]\<rparr>) pt"

section \<open>Control points and the state\<close>

datatype control =
    User                                   \<comment> \<open>not in one of these calls\<close>
  | Claiming "byte list" uint uint nat     \<comment> \<open>in \<open>sem_open\<close>, a free slot was found\<close>
  | Waiting nat                            \<comment> \<open>in the loop of \<open>sem_wait\<close>\<close>
  | ResetVal nat uint uint
  | ResetMax nat uint
  | Unlinking nat                          \<comment> \<open>in \<open>sem_unlink\<close>, the semaphore was found\<close>
  | UnlinkWait nat                         \<comment> \<open>in the loop of \<open>sem_unlink\<close>\<close>
  | Forking nat nat                        \<comment> \<open>child, and the descriptor to copy next\<close>
  | Exiting nat                            \<comment> \<open>the descriptor to close next\<close>
  | InWait                                 \<comment> \<open>in the loop of \<open>wait\<close>\<close>
  | Dead

record semsys =
  tab :: "sem list"
  pt :: ptable
  ctl :: "nat \<Rightarrow> control"
  ret :: "nat \<Rightarrow> int"

datatype action =
    Call semcall
  | Go            \<comment> \<open>run the next section of the call in progress\<close>
  | Fork
  | Exit
  | Wait
  | Kill uint
  | Run           \<comment> \<open>the scheduler picks the process\<close>
  | Preempt       \<comment> \<open>a clock tick makes it yield\<close>

definition finish :: "nat \<Rightarrow> int \<Rightarrow> semsys \<Rightarrow> semsys" where
  "finish me r s = s\<lparr>ctl := (ctl s)(me := User), ret := (ret s)(me := r)\<rparr>"

definition goto :: "nat \<Rightarrow> control \<Rightarrow> semsys \<Rightarrow> semsys" where
  "goto me c s = s\<lparr>ctl := (ctl s)(me := c)\<rparr>"

definition finish_round :: "nat \<Rightarrow> outcome \<times> sem list \<times> ptable \<Rightarrow> semsys \<Rightarrow> semsys" where
  "finish_round me = (\<lambda>(out, t, p) s. let s = s\<lparr>tab := t, pt := p\<rparr>
     in case out of Return r \<Rightarrow> finish me r s | Asleep \<Rightarrow> s)"

definition open_done :: "nat \<Rightarrow> nat \<Rightarrow> semsys \<Rightarrow> semsys" where
  "open_done me i s = (let (r, p) = store_sem me i (pt s) in finish me r (s\<lparr>pt := p\<rparr>))"

section \<open>Steps\<close>

definition call_step :: "nat \<Rightarrow> semcall \<Rightarrow> semsys \<Rightarrow> semsys res" where
  "call_step me c s = (case c of
       COpen name init maxVal \<Rightarrow>
         bindE (sem_open_find name (tab s)) (\<lambda>(r, t).
           let s = s\<lparr>tab := t\<rparr>
           in case r of
                Inl i \<Rightarrow> Inr (open_done me i s)
              | Inr None \<Rightarrow> Inr (finish me (-1) s)
              | Inr (Some spot) \<Rightarrow> Inr (goto me (Claiming name init maxVal spot) s))
     | CClose sd i \<Rightarrow>
         let (r, t, p) = sem_close i (tab s, clear_sem me sd (pt s))
         in Inr (finish me r (s\<lparr>tab := t, pt := p\<rparr>))
     | CWait i \<Rightarrow> Inr (goto me (Waiting i) s)
     | CTryWait i \<Rightarrow> let (r, t) = sem_try_wait i (tab s) in Inr (finish me r (s\<lparr>tab := t\<rparr>))
     | CPost i \<Rightarrow>
         let (r, t, p) = sem_post i (tab s, pt s) in Inr (finish me r (s\<lparr>tab := t, pt := p\<rparr>))
     | CReset i v m \<Rightarrow>
         if sem_reset_check (p_pid (proc_at (pt s) me)) i v m (tab s)
         then Inr (goto me (ResetVal i v m) s) else Inr (finish me (-1) s)
     | CUnlink name \<Rightarrow>
         bindE (unlink_scan name 0 (tab s)) (\<lambda>r. case r of
             None \<Rightarrow> Inr (finish me (-1) s)
           | Some i \<Rightarrow> Inr (goto me (Unlinking i) s)))"

text \<open>A woken process first clears its channel (the end of \<open>sleep\<close>).\<close>

definition tidy :: "nat \<Rightarrow> semsys \<Rightarrow> semsys" where
  "tidy me s = s\<lparr>pt := sleep_end me (pt s)\<rparr>"

definition fork_step :: "nat \<Rightarrow> nat \<Rightarrow> nat \<Rightarrow> semsys \<Rightarrow> semsys" where
  "fork_step me child k s =
     (if k < NOSEM then
        (case p_osem (proc_at (pt s) me) ! k of
           None \<Rightarrow> goto me (Forking child (Suc k)) s
         | Some i \<Rightarrow> goto me (Forking child (Suc k))
             (s\<lparr>tab := semdup i (tab s),
                pt := set_proc child (\<lambda>p. p\<lparr>p_osem := (p_osem p)[k := Some i]\<rparr>) (pt s)\<rparr>))
      else
        let pid = p_pid (proc_at (pt s) child);
            s = s\<lparr>pt := set_proc child (\<lambda>p. p\<lparr>p_state := RUNNABLE\<rparr>) (pt s)\<rparr>
        in finish me (sint pid) (finish child 0 s))"

definition exit_step :: "nat \<Rightarrow> nat \<Rightarrow> semsys \<Rightarrow> semsys" where
  "exit_step me k s =
     (if k < NOSEM then
        (case p_osem (proc_at (pt s) me) ! k of
           None \<Rightarrow> goto me (Exiting (Suc k)) s
         | Some i \<Rightarrow>
             let (r, t, p) = sem_close i (tab s, pt s)
             in goto me (Exiting (Suc k)) (s\<lparr>tab := t, pt := clear_sem me k p\<rparr>))
      else goto me Dead (s\<lparr>pt := exit_tail me (pt s)\<rparr>))"

definition wait_round :: "nat \<Rightarrow> semsys \<Rightarrow> semsys" where
  "wait_round me s = (case wait_find me (pt s) of
       Reap j \<Rightarrow> finish me (sint (p_pid (proc_at (pt s) j))) (s\<lparr>pt := reap j (pt s)\<rparr>)
     | NoKids \<Rightarrow> finish me (-1) s
     | KidsRunning \<Rightarrow>
         if p_killed (proc_at (pt s) me) then finish me (-1) s
         else s\<lparr>pt := sleep_begin me (ProcChan me) (pt s)\<rparr>)"

definition go_step :: "nat \<Rightarrow> semsys \<Rightarrow> semsys res" where
  "go_step me s = (case ctl s me of
       Claiming name init maxVal spot \<Rightarrow>
         bindE (sem_open_claim name init maxVal (p_pid (proc_at (pt s) me)) spot (tab s))
           (\<lambda>t. Inr (open_done me spot (s\<lparr>tab := t\<rparr>)))
     | Waiting i \<Rightarrow> let s = tidy me s in Inr (finish_round me (sem_wait_round me i (tab s, pt s)) s)
     | ResetVal i v m \<Rightarrow>
         let (t, p) = sem_reset_val i v (tab s, pt s)
         in Inr (goto me (ResetMax i m) (s\<lparr>tab := t, pt := p\<rparr>))
     | ResetMax i m \<Rightarrow> Inr (finish me 0 (s\<lparr>tab := sem_reset_max i m (tab s)\<rparr>))
     | Unlinking i \<Rightarrow>
         let s = s\<lparr>tab := sem_unlink_mark i (tab s)\<rparr>
         in Inr (finish_round me (sem_unlink_round me i (tab s, pt s)) (goto me (UnlinkWait i) s))
     | UnlinkWait i \<Rightarrow>
         let s = tidy me s in Inr (finish_round me (sem_unlink_round me i (tab s, pt s)) s)
     | Forking child k \<Rightarrow> Inr (fork_step me child k s)
     | Exiting k \<Rightarrow> Inr (exit_step me k s)
     | InWait \<Rightarrow> Inr (wait_round me (tidy me s))
     | User \<Rightarrow> Inr s
     | Dead \<Rightarrow> Inr s)"

text \<open>
  The result of \<open>fork\<close> is known before the descriptors are copied only when there is no
  process left. Everything else \<open>fork\<close> sets up is in theory \<open>Process\<close>.
\<close>

definition fork_begin :: "nat \<Rightarrow> semsys \<Rightarrow> semsys" where
  "fork_begin me s = (case alloc_slot (pt s) of
       (None, _) \<Rightarrow> finish me (-1) s
     | (Some child, p) \<Rightarrow>
         goto me (Forking child 0)
           (s\<lparr>pt := set_proc child (\<lambda>q. q\<lparr>p_parent := Some me\<rparr>) p\<rparr>))"

definition act :: "nat \<Rightarrow> action \<Rightarrow> semsys \<Rightarrow> semsys res" where
  "act me a s = (case a of
       Call c \<Rightarrow> call_step me c s
     | Go \<Rightarrow> go_step me s
     | Fork \<Rightarrow> Inr (fork_begin me s)
     | Exit \<Rightarrow> if initproc (pt s) = Some me then Inl (Panic ''init exiting'')
              else Inr (goto me (Exiting 0) s)
     | Wait \<Rightarrow> Inr (goto me InWait s)
     | Kill pid \<Rightarrow> let (r, p) = kill pid (pt s) in Inr (finish me r (s\<lparr>pt := p\<rparr>))
     | Run \<Rightarrow> Inr (s\<lparr>pt := scheduler_run me (pt s)\<rparr>)
     | Preempt \<Rightarrow> Inr (s\<lparr>pt := yield_begin me (pt s)\<rparr>))"

text \<open>
  Which actions process \<open>me\<close> can take. A call's semaphore arguments come from the
  caller's descriptors and its names from \<open>argstr\<close>.
\<close>

fun call_ok :: "proc \<Rightarrow> semcall \<Rightarrow> bool" where
  "call_ok p (COpen name init maxVal) = readable name SEMNAME"
| "call_ok p (CClose sd i) = (sd < NOSEM \<and> p_osem p ! sd = Some i)"
| "call_ok p (CUnlink name) = readable name SEMNAME"
| "call_ok p (CWait i) = (Some i \<in> set (p_osem p))"
| "call_ok p (CTryWait i) = (Some i \<in> set (p_osem p))"
| "call_ok p (CPost i) = (Some i \<in> set (p_osem p))"
| "call_ok p (CReset i v m) = (Some i \<in> set (p_osem p))"

definition enabled :: "nat \<Rightarrow> action \<Rightarrow> semsys \<Rightarrow> bool" where
  "enabled me a s \<longleftrightarrow>
     me < length (procs (pt s)) \<and>
     (let p = proc_at (pt s) me in
      case a of
        Run \<Rightarrow> p_state p = RUNNABLE
      | Preempt \<Rightarrow> p_state p = RUNNING
      | Go \<Rightarrow> p_state p = RUNNING \<and> ctl s me \<noteq> User \<and> ctl s me \<noteq> Dead
      | Call c \<Rightarrow> p_state p = RUNNING \<and> ctl s me = User \<and> call_ok p c
      | _ \<Rightarrow> p_state p = RUNNING \<and> ctl s me = User)"

inductive sem_step :: "semsys \<Rightarrow> nat \<Rightarrow> action \<Rightarrow> semsys \<Rightarrow> bool" where
  "enabled me a s \<Longrightarrow> act me a s = Inr t \<Longrightarrow> sem_step s me a t"

inductive_simps sem_step_iff: "sem_step s me a t"

section \<open>The parts of the state\<close>

text \<open>
  The invariant is a conjunction of statements, each about a few columns of the two
  tables. An operation keeps every statement about columns it does not write.
\<close>

definition osems :: "ptable \<Rightarrow> nat option list list" where
  "osems p = map p_osem (procs p)"

definition pstates :: "ptable \<Rightarrow> procstate list" where
  "pstates p = map p_state (procs p)"

definition refs :: "sem list \<Rightarrow> uint list" where
  "refs t = map s_ref t"

definition counts :: "sem list \<Rightarrow> (uint \<times> uint) list" where
  "counts t = map (\<lambda>s. (s_count s, s_maxVal s)) t"

definition flags :: "sem list \<Rightarrow> (bool \<times> bool) list" where
  "flags t = map (\<lambda>s. (linked s, waitingForDeath s)) t"

lemmas columns = osems_def pstates_def refs_def counts_def flags_def

lemma map_update_same: "f y = f (xs ! i) \<Longrightarrow> map f (xs[i := y]) = map f xs"
  by (cases "i < length xs") (simp_all add: map_update list_update_same_conv list_update_beyond)

lemma osems_frame [simp, frame_simps]:
  "osems (wakeup ch p) = osems p"
  "osems (wakeup1 ch p) = osems p"
  "osems (sleep_begin me ch p) = osems p"
  "osems (sleep_end me p) = osems p"
  "osems (scheduler_run me p) = osems p"
  "osems (yield_begin me p) = osems p"
  "osems (snd (kill pid p)) = osems p"
  "osems (snd (alloc_slot p)) = osems p"
  "osems (reap j p) = osems p"
  by (auto simp: columns wakeup_def wakeup1_def sleep_begin_def sleep_end_def scheduler_run_def
      yield_begin_def kill_def alloc_slot_def reap_def Let_def map_update_same split: option.splits)

lemma osems_set_proc: "(\<And>q. p_osem (f q) = p_osem q) \<Longrightarrow> osems (set_proc i f p) = osems p"
  by (simp add: columns map_update_same)

lemma osems_adopt: "osems (fold (adopt me) is p) = osems p"
  by (induction "is" arbitrary: p) (simp_all add: adopt_def Let_def osems_set_proc)

lemma osems_exit_tail [simp, frame_simps]: "osems (exit_tail me p) = osems p"
  by (simp add: exit_tail_def Let_def osems_set_proc osems_adopt)

lemma length_osems [simp]: "length (osems p) = length (procs p)"
  by (simp add: columns)

lemma osems_nth: "i < length (procs p) \<Longrightarrow> osems p ! i = p_osem (proc_at p i)"
  by (simp add: columns)

lemma osems_set_osem [simp]:
  "osems (set_proc i (\<lambda>q. q\<lparr>p_osem := (p_osem q)[k := d]\<rparr>) p) = (osems p)[i := (osems p ! i)[k := d]]"
  by (cases "i < length (procs p)") (simp_all add: columns map_update list_update_beyond)

lemma semtab_frame [simp, frame_simps]:
  "refs (set_sem i (\<lambda>s. s\<lparr>s_count := c s\<rparr>) t) = refs t"
  "refs (set_sem i (\<lambda>s. s\<lparr>s_maxVal := m s\<rparr>) t) = refs t"
  "refs (set_sem i (\<lambda>s. s\<lparr>linked := l s\<rparr>) t) = refs t"
  "refs (set_sem i (\<lambda>s. s\<lparr>waitingForDeath := l s\<rparr>) t) = refs t"
  "counts (set_sem i (\<lambda>s. s\<lparr>s_ref := c s\<rparr>) t) = counts t"
  "counts (set_sem i (\<lambda>s. s\<lparr>linked := l s\<rparr>) t) = counts t"
  "counts (set_sem i (\<lambda>s. s\<lparr>waitingForDeath := l s\<rparr>) t) = counts t"
  "flags (set_sem i (\<lambda>s. s\<lparr>s_count := c s\<rparr>) t) = flags t"
  "flags (set_sem i (\<lambda>s. s\<lparr>s_maxVal := m s\<rparr>) t) = flags t"
  "flags (set_sem i (\<lambda>s. s\<lparr>s_ref := c s\<rparr>) t) = flags t"
  by (simp_all add: columns set_sem_def map_update_same)

end
