(* ===== verification/Sem_Invariant.thy ===== *)
theory Sem_Invariant
  imports Sem_System
begin

text \<open>
  The invariant of the semaphore system: reference counts are exact, counters stay
  within their bounds, and nobody sleeps on a semaphore that could be taken or on one
  that could be unlinked. It holds in every run whose steps are \<open>clean\<close>: the predicate
  \<open>clean\<close> names what the code does not check for itself.
\<close>

section \<open>The invariant\<close>

definition shape :: "semsys \<Rightarrow> bool" where
  "shape s \<longleftrightarrow> wf_tab (tab s) \<and> length (procs (pt s)) \<le> NPROC \<and>
     (\<forall>ds \<in> set (osems (pt s)). length ds = NOSEM \<and> (\<forall>i. Some i \<in> set ds \<longrightarrow> i < NSEM))"

definition refs_exact :: "semsys \<Rightarrow> bool" where
  "refs_exact s \<longleftrightarrow> (\<forall>i < NSEM. unat (refs (tab s) ! i) = desc (osems (pt s)) i)"

definition slots_ok :: "semsys \<Rightarrow> bool" where
  "slots_ok s \<longleftrightarrow> (\<forall>i < NSEM. \<not> fst (flags (tab s) ! i) \<longrightarrow> refs (tab s) ! i = 0)"

definition counts_ok :: "semsys \<Rightarrow> bool" where
  "counts_ok s \<longleftrightarrow> (\<forall>i < NSEM. 0 \<le> sint (fst (counts (tab s) ! i)) \<and>
     sint (fst (counts (tab s) ! i)) \<le> sint (snd (counts (tab s) ! i)))"

fun uses :: "control \<Rightarrow> nat option" where
  "uses (Waiting i) = Some i"
| "uses (ResetVal i v m) = Some i"
| "uses (ResetMax i m) = Some i"
| "uses _ = None"

definition holders_ok :: "semsys \<Rightarrow> bool" where
  "holders_ok s \<longleftrightarrow> (\<forall>p i. uses (ctl s p) = Some i \<longrightarrow>
     p < length (procs (pt s)) \<and> Some i \<in> set (osems (pt s) ! p))"

definition waiters_ok :: "semsys \<Rightarrow> bool" where
  "waiters_ok s \<longleftrightarrow> (\<forall>p i. asleep (pt s) p (SemChan i) \<longrightarrow>
     ctl s p = Waiting i \<and> fst (counts (tab s) ! i) = 0)"

definition unlinkers_ok :: "semsys \<Rightarrow> bool" where
  "unlinkers_ok s \<longleftrightarrow>
     (\<forall>p i. ctl s p = Unlinking i \<longrightarrow> i < NSEM) \<and>
     (\<forall>p i. ctl s p = UnlinkWait i \<longrightarrow> i < NSEM \<and> snd (flags (tab s) ! i)) \<and>
     (\<forall>p. asleep (pt s) p StableChan \<longrightarrow> (\<exists>i. ctl s p = UnlinkWait i \<and> refs (tab s) ! i \<noteq> 0))"

definition claims_ok :: "semsys \<Rightarrow> bool" where
  "claims_ok s \<longleftrightarrow> (\<forall>p n v m i. ctl s p = Claiming n v m i \<longrightarrow> i < NSEM \<and> readable n SEMNAME)"

definition live :: "procstate \<Rightarrow> bool" where
  "live st \<longleftrightarrow> st = SLEEPING \<or> st = RUNNABLE \<or> st = RUNNING"

definition no_sems :: "nat option list \<Rightarrow> bool" where
  "no_sems ds \<longleftrightarrow> (\<forall>d \<in> set ds. d = None)"

text \<open>
  Where descriptors are while processes come and go: an entry that is not in use and a
  zombie have none, a child under construction has those copied so far, a process that
  exits those not closed yet.
\<close>

definition lifecycle :: "semsys \<Rightarrow> bool" where
  "lifecycle s \<longleftrightarrow>
     (\<forall>p < length (procs (pt s)). pstates (pt s) ! p \<in> {UNUSED, ZOMBIE} \<longrightarrow>
        no_sems (osems (pt s) ! p)) \<and>
     (\<forall>p. ctl s p \<noteq> User \<longrightarrow> ctl s p \<noteq> Dead \<longrightarrow>
        p < length (procs (pt s)) \<and> live (pstates (pt s) ! p)) \<and>
     (\<forall>p c k. ctl s p = Forking c k \<longrightarrow> c < length (procs (pt s)) \<and> pstates (pt s) ! c = EMBRYO \<and>
        no_sems (drop k (osems (pt s) ! c))) \<and>
     (\<forall>p q c k k'. ctl s p = Forking c k \<longrightarrow> ctl s q = Forking c k' \<longrightarrow> p = q) \<and>
     (\<forall>p k. ctl s p = Exiting k \<longrightarrow> no_sems (take k (osems (pt s) ! p)))"

definition sem_inv :: "semsys \<Rightarrow> bool" where
  "sem_inv s \<longleftrightarrow> shape s \<and> refs_exact s \<and> slots_ok s \<and> counts_ok s \<and> holders_ok s \<and>
     waiters_ok s \<and> unlinkers_ok s \<and> claims_ok s \<and> lifecycle s"

lemmas inv_parts = shape_def refs_exact_def slots_ok_def counts_ok_def holders_ok_def
  waiters_ok_def unlinkers_ok_def claims_ok_def lifecycle_def

section \<open>Clean steps\<close>

text \<open>
  What a step has to respect for the invariant to survive it. None of this is checked by
  the code:
  \<^item> \<open>sem_open\<close> finds a free descriptor for the semaphore it returns (the system call
    fails otherwise, but keeps the reference);
  \<^item> between the two sections of \<open>sem_open\<close> nobody else claims the slot, and nobody is in
    the middle of unlinking its previous semaphore;
  \<^item> a semaphore is created with \<open>0 \<le> init \<le> maxVal\<close> and reset to at most its \<open>maxVal\<close>.
\<close>

definition has_free_desc :: "nat \<Rightarrow> semsys \<Rightarrow> bool" where
  "has_free_desc me s \<longleftrightarrow> None \<in> set (p_osem (proc_at (pt s) me))"

fun unlinks :: "nat \<Rightarrow> control \<Rightarrow> bool" where
  "unlinks i (Unlinking j) \<longleftrightarrow> i = j"
| "unlinks i (UnlinkWait j) \<longleftrightarrow> i = j"
| "unlinks i _ \<longleftrightarrow> False"

definition clean :: "nat \<Rightarrow> action \<Rightarrow> semsys \<Rightarrow> bool" where
  "clean me a s \<longleftrightarrow> (case a of
       Call (COpen n v m) \<Rightarrow> has_free_desc me s
     | Go \<Rightarrow> (case ctl s me of
           Claiming n v m i \<Rightarrow>
             has_free_desc me s \<and> \<not> linked (tab s ! i) \<and> 0 \<le> sint v \<and> sint v \<le> sint m \<and>
             (\<forall>p \<in> set [0..<length (procs (pt s))]. \<not> unlinks i (ctl s p))
         | ResetVal i v m \<Rightarrow> sint v \<le> sint (s_maxVal (tab s ! i))
         | _ \<Rightarrow> True)
     | _ \<Rightarrow> True)"

section \<open>Small steps of the state and the invariant\<close>

lemma finish_fields [simp]:
  "tab (finish me r s) = tab s" "pt (finish me r s) = pt s"
  "ctl (finish me r s) = (ctl s)(me := User)"
  by (simp_all add: finish_def)

lemma goto_fields [simp]:
  "tab (goto me c s) = tab s" "pt (goto me c s) = pt s" "ctl (goto me c s) = (ctl s)(me := c)"
  by (simp_all add: goto_def)

lemma sem_inv_ret [simp]: "sem_inv (s\<lparr>ret := r\<rparr>) = sem_inv s"
  by (simp add: sem_inv_def inv_parts)

lemma finish_goto: "finish me r s = (goto me User s)\<lparr>ret := (ret s)(me := r)\<rparr>"
  by (simp add: finish_def goto_def)

lemma sem_inv_finish [simp]: "sem_inv (finish me r s) = sem_inv (goto me User s)"
  by (simp add: finish_goto)

text \<open>A control point that process \<open>me\<close> may be at.\<close>

definition may_be_at :: "nat \<Rightarrow> control \<Rightarrow> semsys \<Rightarrow> bool" where
  "may_be_at me c s \<longleftrightarrow> (case c of
       User \<Rightarrow> True
     | InWait \<Rightarrow> True
     | Claiming n v m i \<Rightarrow> i < NSEM \<and> readable n SEMNAME
     | Unlinking i \<Rightarrow> i < NSEM
     | UnlinkWait i \<Rightarrow> i < NSEM \<and> snd (flags (tab s) ! i)
     | Exiting k \<Rightarrow> no_sems (take k (osems (pt s) ! me))
     | Forking child k \<Rightarrow> False
     | Dead \<Rightarrow> False
     | _ \<Rightarrow> (\<exists>i. uses c = Some i \<and> Some i \<in> set (osems (pt s) ! me)))"

lemma running_awake: "pstates (pt s) ! me \<noteq> SLEEPING \<Longrightarrow> \<not> asleep (pt s) me ch"
  by (auto simp: asleep_def columns)

lemma inv_goto:
  assumes "sem_inv s" and me: "me < length (procs (pt s))"
    and run: "live (pstates (pt s) ! me)" "pstates (pt s) ! me \<noteq> SLEEPING" and c: "may_be_at me c s"
  shows "sem_inv (goto me c s)"
proof -
  have awake: "\<not> asleep (pt s) me ch" for ch using run(2) by (rule running_awake)
  from assms(1) have "shape (goto me c s)" "refs_exact (goto me c s)" "slots_ok (goto me c s)"
    "counts_ok (goto me c s)"
    by (simp_all add: sem_inv_def shape_def refs_exact_def slots_ok_def counts_ok_def)
  moreover from assms(1) c me have "holders_ok (goto me c s)"
    by (auto simp: sem_inv_def holders_ok_def may_be_at_def split: control.splits)
  moreover from assms(1) awake have "waiters_ok (goto me c s)"
    by (auto simp: sem_inv_def waiters_ok_def)
  moreover from assms(1) awake c have "unlinkers_ok (goto me c s)"
    by (auto simp: sem_inv_def unlinkers_ok_def may_be_at_def)
  moreover from assms(1) c have "claims_ok (goto me c s)"
    by (auto simp: sem_inv_def claims_ok_def may_be_at_def)
  moreover from assms(1) c me run have "lifecycle (goto me c s)"
    by (auto simp: sem_inv_def lifecycle_def may_be_at_def)
  ultimately show ?thesis by (simp add: sem_inv_def)
qed

text \<open>
  A change of process states only: live processes stay live, the others keep their
  state, and nobody falls asleep.
\<close>

definition only_wakes :: "ptable \<Rightarrow> ptable \<Rightarrow> bool" where
  "only_wakes p p' \<longleftrightarrow> osems p' = osems p \<and> length (procs p') = length (procs p) \<and>
     (\<forall>i < length (procs p). (if live (pstates p ! i) then live (pstates p' ! i)
        else pstates p' ! i = pstates p ! i)) \<and>
     (\<forall>i ch. ch \<noteq> NullChan \<longrightarrow> asleep p' i ch \<longrightarrow> asleep p i ch)"

lemma inv_only_wakes:
  assumes "sem_inv s" and w: "only_wakes (pt s) p"
  shows "sem_inv (s\<lparr>pt := p\<rparr>)"
proof -
  from w have os: "osems p = osems (pt s)" and len: "length (procs p) = length (procs (pt s))"
    and dead: "\<And>i. i < length (procs (pt s)) \<Longrightarrow> \<not> live (pstates (pt s) ! i) \<Longrightarrow>
      pstates p ! i = pstates (pt s) ! i"
    and alive: "\<And>i. i < length (procs (pt s)) \<Longrightarrow> live (pstates (pt s) ! i) \<Longrightarrow> live (pstates p ! i)"
    and sl: "\<And>i ch. ch \<noteq> NullChan \<Longrightarrow> asleep p i ch \<Longrightarrow> asleep (pt s) i ch"
    by (auto simp: only_wakes_def split: if_splits)
  have st: "pstates p ! i = st \<longleftrightarrow> pstates (pt s) ! i = st"
    if "i < length (procs (pt s))" "st \<in> {UNUSED, ZOMBIE, EMBRYO}" for i st
    using dead [OF that(1)] alive [OF that(1)] that(2)
    by (cases "live (pstates (pt s) ! i)") (auto simp: live_def)
  from assms(1) have "shape (s\<lparr>pt := p\<rparr>)" "refs_exact (s\<lparr>pt := p\<rparr>)" "slots_ok (s\<lparr>pt := p\<rparr>)"
    "counts_ok (s\<lparr>pt := p\<rparr>)" "holders_ok (s\<lparr>pt := p\<rparr>)" "claims_ok (s\<lparr>pt := p\<rparr>)"
    by (simp_all add: sem_inv_def inv_parts os len)
  moreover from assms(1) have "waiters_ok (s\<lparr>pt := p\<rparr>)" "unlinkers_ok (s\<lparr>pt := p\<rparr>)"
    by (auto simp: sem_inv_def waiters_ok_def unlinkers_ok_def dest: sl [rotated])
  moreover from assms(1) have "lifecycle (s\<lparr>pt := p\<rparr>)"
    using st alive by (simp add: sem_inv_def lifecycle_def os len)
  ultimately show ?thesis by (simp add: sem_inv_def)
qed

lemma pstates_nth: "i < length (procs p) \<Longrightarrow> pstates p ! i = p_state (proc_at p i)"
  by (simp add: columns)

lemma wakes_wakeup [simp]: "only_wakes p (wakeup ch p)"
  by (auto simp: only_wakes_def pstates_nth wakeup_nth live_def asleep_wakeup)

lemma wakes_refl [simp]: "only_wakes p p"
  by (simp add: only_wakes_def)

lemma wakes_sleep_end: "only_wakes p (sleep_end i p)"
  by (auto simp: only_wakes_def pstates_nth sleep_end_def osems_set_proc nth_update live_def asleep_def split: if_splits)

lemma wakes_run: "p_state (proc_at p i) = RUNNABLE \<Longrightarrow> only_wakes p (scheduler_run i p)"
  by (auto simp: only_wakes_def pstates_nth scheduler_run_def osems_set_proc nth_update live_def asleep_def
      split: if_splits)

lemma wakes_yield: "p_state (proc_at p i) = RUNNING \<Longrightarrow> only_wakes p (yield_begin i p)"
  by (auto simp: only_wakes_def pstates_nth yield_begin_def osems_set_proc nth_update live_def asleep_def
      split: if_splits)

lemma wakes_kill: "only_wakes p (snd (kill pid p))"
proof -
  have "osems (snd (kill pid p)) = osems p" by simp
  moreover have "length (procs (snd (kill pid p))) = length (procs p)"
    by (auto simp: kill_def split: option.splits)
  moreover have "\<forall>i < length (procs p). if live (pstates p ! i) then live (pstates (snd (kill pid p)) ! i)
      else pstates (snd (kill pid p)) ! i = pstates p ! i"
    by (auto simp: pstates_nth kill_def nth_update live_def split: option.splits)
  moreover have "asleep (snd (kill pid p)) i ch \<longrightarrow> asleep p i ch" for i ch
    by (auto simp: kill_def asleep_def nth_update split: option.splits if_splits)
  ultimately show ?thesis by (simp add: only_wakes_def)
qed

section \<open>Sleeping\<close>

definition may_sleep_on :: "nat \<Rightarrow> chan \<Rightarrow> semsys \<Rightarrow> bool" where
  "may_sleep_on me ch s \<longleftrightarrow> (case ch of
       SemChan i \<Rightarrow> ctl s me = Waiting i \<and> fst (counts (tab s) ! i) = 0
     | StableChan \<Rightarrow> (\<exists>i. ctl s me = UnlinkWait i \<and> refs (tab s) ! i \<noteq> 0)
     | _ \<Rightarrow> True)"

lemma pstates_sleep_begin:
  "i < length (procs p) \<Longrightarrow> me < length (procs p) \<Longrightarrow>
     pstates (sleep_begin me ch p) ! i = (if i = me then SLEEPING else pstates p ! i)"
  by (auto simp: pstates_nth sleep_begin_def nth_update)

lemma length_sleep_begin [simp]: "length (procs (sleep_begin me ch p)) = length (procs p)"
  by (simp add: sleep_begin_def)

lemma inv_sleep:
  assumes inv: "sem_inv s" and me: "me < length (procs (pt s))"
    and run: "live (pstates (pt s) ! me)" and ch: "may_sleep_on me ch s"
  shows "sem_inv (s\<lparr>pt := sleep_begin me ch (pt s)\<rparr>)"
proof -
  let ?s = "s\<lparr>pt := sleep_begin me ch (pt s)\<rparr>"
  have st: "pstates (sleep_begin me ch (pt s)) ! i = st \<longleftrightarrow> pstates (pt s) ! i = st"
    if "i < length (procs (pt s))" "st \<in> {UNUSED, ZOMBIE, EMBRYO}" for i st
    using that run me by (auto simp: pstates_sleep_begin live_def)
  have alive: "live (pstates (sleep_begin me ch (pt s)) ! i) \<longleftrightarrow> live (pstates (pt s) ! i)"
    if "i < length (procs (pt s))" for i
    using that run me by (auto simp: pstates_sleep_begin live_def)
  from inv have "shape ?s" "refs_exact ?s" "slots_ok ?s" "counts_ok ?s" "holders_ok ?s" "claims_ok ?s"
    by (simp_all add: sem_inv_def inv_parts)
  moreover from inv ch me have "waiters_ok ?s" "unlinkers_ok ?s"
    by (auto simp: sem_inv_def waiters_ok_def unlinkers_ok_def asleep_sleep_begin may_sleep_on_def)
  moreover from inv have "lifecycle ?s"
    by (simp add: sem_inv_def lifecycle_def st alive cong: conj_cong)
  ultimately show ?thesis by (simp add: sem_inv_def)
qed

section \<open>Changes of the table\<close>

lemma inv_counts:
  assumes inv: "sem_inv s" and t: "wf_tab t" "refs t = refs (tab s)" "flags t = flags (tab s)"
    and c: "\<And>j. j < NSEM \<Longrightarrow> 0 \<le> sint (fst (counts t ! j)) \<and>
      sint (fst (counts t ! j)) \<le> sint (snd (counts t ! j))"
    and sl: "\<And>p j. asleep (pt s) p (SemChan j) \<Longrightarrow> fst (counts t ! j) = 0"
  shows "sem_inv (s\<lparr>tab := t\<rparr>)"
  using inv t c sl by (simp add: sem_inv_def inv_parts)

lemma flags_mark [simp]:
  "i < length t \<Longrightarrow> flags (sem_unlink_mark i t) = (flags t)[i := (fst (flags t ! i), True)]"
  by (simp add: sem_unlink_mark_def set_sem_def columns map_update)

lemma mark_frame [simp]:
  "refs (sem_unlink_mark i t) = refs t" "counts (sem_unlink_mark i t) = counts t"
  by (simp_all add: sem_unlink_mark_def)

lemma flags_unlinked [simp]:
  "i < length t \<Longrightarrow> flags (set_sem i (\<lambda>s. s\<lparr>linked := False\<rparr>) t) = (flags t)[i := (False, snd (flags t ! i))]"
  by (simp add: set_sem_def columns map_update)

lemma length_columns [simp]:
  "length (flags t) = length t" "length (refs t) = length t" "length (counts t) = length t"
  "length (pstates p) = length (procs p)"
  by (simp_all add: columns)

lemma tab_len: "sem_inv s \<Longrightarrow> length (tab s) = NSEM"
  by (simp add: sem_inv_def shape_def wf_tab_def)

lemma inv_mark:
  assumes inv: "sem_inv s" and i: "i < NSEM"
  shows "sem_inv (s\<lparr>tab := sem_unlink_mark i (tab s)\<rparr>)"
    and "snd (flags (sem_unlink_mark i (tab s)) ! i)"
proof -
  note len = tab_len [OF inv]
  let ?s = "s\<lparr>tab := sem_unlink_mark i (tab s)\<rparr>"
  have "wf_tab (sem_unlink_mark i (tab s))"
    using inv i by (simp add: sem_unlink_mark_def sem_inv_def shape_def wf_set_sem)
  with inv have "shape ?s" "refs_exact ?s" "counts_ok ?s" "holders_ok ?s" "claims_ok ?s"
    "waiters_ok ?s" "lifecycle ?s"
    by (simp_all add: sem_inv_def inv_parts)
  moreover from inv have "slots_ok ?s" "unlinkers_ok ?s"
    by (auto simp: sem_inv_def slots_ok_def unlinkers_ok_def len i nth_update)
  ultimately show "sem_inv ?s" by (simp add: sem_inv_def)
  show "snd (flags (sem_unlink_mark i (tab s)) ! i)" using i len by simp
qed

lemma inv_unlinked:
  assumes inv: "sem_inv s" and i: "i < NSEM" and ref: "refs (tab s) ! i = 0"
  shows "sem_inv (s\<lparr>tab := set_sem i (\<lambda>s. s\<lparr>linked := False\<rparr>) (tab s)\<rparr>)"
proof -
  note len = tab_len [OF inv]
  let ?s = "s\<lparr>tab := set_sem i (\<lambda>s. s\<lparr>linked := False\<rparr>) (tab s)\<rparr>"
  have "wf_tab (set_sem i (\<lambda>s. s\<lparr>linked := False\<rparr>) (tab s))"
    using inv i by (simp add: sem_inv_def shape_def wf_set_sem)
  with inv have "shape ?s" "refs_exact ?s" "counts_ok ?s" "holders_ok ?s" "claims_ok ?s"
    "waiters_ok ?s" "lifecycle ?s"
    by (simp_all add: sem_inv_def inv_parts)
  moreover from inv ref have "slots_ok ?s" "unlinkers_ok ?s"
    by (auto simp: sem_inv_def slots_ok_def unlinkers_ok_def len i nth_update)
  ultimately show ?thesis by (simp add: sem_inv_def)
qed

section \<open>Taking and dropping references\<close>

lemma refs_dup [simp]: "i < length t \<Longrightarrow> refs (semdup i t) = (refs t)[i := refs t ! i + 1]"
  by (simp add: semdup_def set_sem_def columns map_update)

lemma dup_frame [simp]: "counts (semdup i t) = counts t" "flags (semdup i t) = flags t"
  by (simp_all add: semdup_def)

lemma refs_bound:
  assumes "sem_inv s" and "i < NSEM"
  shows "unat (refs (tab s) ! i) \<le> 320"
proof -
  have "desc (osems (pt s)) i \<le> length (procs (pt s)) * NOSEM"
    using assms(1) desc_le [of "osems (pt s)" NOSEM i] by (simp add: sem_inv_def shape_def)
  moreover have "length (procs (pt s)) * NOSEM \<le> 64 * 5"
    using assms(1) by (intro mult_le_mono) (simp_all add: sem_inv_def shape_def NPROC_def NOSEM_def)
  ultimately show ?thesis using assms by (simp add: sem_inv_def refs_exact_def)
qed

lemma unat_inc: "unat w \<le> 320 \<Longrightarrow> unat (w + 1) = Suc (unat w)" for w :: uint
  by (simp add: unat_word_ariths)

lemma unat_dec: "0 < unat w \<Longrightarrow> unat (w - 1) = unat w - 1" for w :: uint
  by (simp add: unat_sub word_le_nat_alt Suc_leI)

lemma osem_nth:
  assumes "sem_inv s" and "p < length (procs (pt s))"
  shows "length (osems (pt s) ! p) = NOSEM" and "Some i \<in> set (osems (pt s) ! p) \<Longrightarrow> i < NSEM"
  using assms by (auto simp: sem_inv_def shape_def dest: nth_mem)

lemma shape_update:
  assumes "sem_inv s" and "p < length (procs (pt s))" and "\<And>i. d = Some i \<Longrightarrow> i < NSEM"
  shows "\<forall>ds \<in> set ((osems (pt s))[p := (osems (pt s) ! p)[k := d]]).
    length ds = NOSEM \<and> (\<forall>i. Some i \<in> set ds \<longrightarrow> i < NSEM)"
proof
  fix ds
  assume "ds \<in> set ((osems (pt s))[p := (osems (pt s) ! p)[k := d]])"
  then have "ds = (osems (pt s) ! p)[k := d] \<or> ds \<in> set (osems (pt s))"
    using set_update_subset_insert by fastforce
  then show "length ds = NOSEM \<and> (\<forall>i. Some i \<in> set ds \<longrightarrow> i < NSEM)"
  proof
    assume ds: "ds = (osems (pt s) ! p)[k := d]"
    have "i < NSEM" if "Some i \<in> set ds" for i
    proof -
      have "Some i = d \<or> Some i \<in> set (osems (pt s) ! p)"
        using that set_update_subset_insert ds by fastforce
      then show ?thesis using assms(3) osem_nth [OF assms(1,2)] by auto
    qed
    then show ?thesis using osem_nth [OF assms(1,2)] ds by simp
  next
    assume "ds \<in> set (osems (pt s))"
    then show ?thesis using assms(1) by (simp add: sem_inv_def shape_def)
  qed
qed

text \<open>
  A change of one descriptor of process \<open>p\<close> together with the count of the semaphore
  concerned. \<open>p\<close> is in none of the calls that rely on its descriptors.
\<close>

lemma inv_descriptor:
  assumes inv: "sem_inv s" and p: "p < length (procs (pt s))" and k: "k < NOSEM"
    and t: "wf_tab t" "counts t = counts (tab s)" "flags t = flags (tab s)"
    and os: "osems q = (osems (pt s))[p := (osems (pt s) ! p)[k := d]]"
    and pr: "length (procs q) = length (procs (pt s))" "pstates q = pstates (pt s)"
      "\<And>j ch. asleep q j ch = asleep (pt s) j ch"
    and d: "\<And>i. d = Some i \<Longrightarrow> i < NSEM"
    and refs: "\<And>i. i < NSEM \<Longrightarrow> unat (refs t ! i) = desc (osems q) i"
    and free: "\<And>i. i < NSEM \<Longrightarrow> \<not> fst (flags (tab s) ! i) \<Longrightarrow> refs t ! i = 0"
    and sl: "\<And>j i. asleep (pt s) j StableChan \<Longrightarrow> ctl s j = UnlinkWait i \<Longrightarrow> refs (tab s) ! i \<noteq> 0 \<Longrightarrow>
      refs t ! i \<noteq> 0"
    and use: "uses (ctl s p) = None"
    and life: "lifecycle (s\<lparr>tab := t, pt := q\<rparr>)"
  shows "sem_inv (s\<lparr>tab := t, pt := q\<rparr>)"
proof -
  let ?s = "s\<lparr>tab := t, pt := q\<rparr>"
  have "shape ?s"
    using inv t(1) pr(1) shape_update [OF inv p d] by (simp add: sem_inv_def shape_def os)
  moreover have "refs_exact ?s" using refs by (simp add: refs_exact_def)
  moreover have "slots_ok ?s" using free by (simp add: slots_ok_def t(3))
  moreover have "counts_ok ?s" "waiters_ok ?s" "claims_ok ?s"
    using inv by (simp_all add: sem_inv_def inv_parts t pr)
  moreover have "holders_ok ?s"
    using inv use p by (auto simp: sem_inv_def holders_ok_def os pr(1) nth_update)
  moreover have "unlinkers_ok ?s"
    using inv sl by (simp add: sem_inv_def unlinkers_ok_def t(3) pr(3)) blast
  ultimately show ?thesis using life by (simp add: sem_inv_def)
qed

lemma refs_exactD: "sem_inv s \<Longrightarrow> i < NSEM \<Longrightarrow> unat (refs (tab s) ! i) = desc (osems (pt s)) i"
  by (simp add: sem_inv_def refs_exact_def)

lemma inv_grant:
  assumes inv: "sem_inv s" and p: "p < length (procs (pt s))" and k: "k < NOSEM" and i: "i < NSEM"
    and none: "osems (pt s) ! p ! k = None" and lnk: "fst (flags (tab s) ! i)"
    and use: "uses (ctl s p) = None"
    and life: "lifecycle (s\<lparr>tab := semdup i (tab s),
      pt := set_proc p (\<lambda>q. q\<lparr>p_osem := (p_osem q)[k := Some i]\<rparr>) (pt s)\<rparr>)"
  shows "sem_inv (s\<lparr>tab := semdup i (tab s),
    pt := set_proc p (\<lambda>q. q\<lparr>p_osem := (p_osem q)[k := Some i]\<rparr>) (pt s)\<rparr>)"
proof (rule inv_descriptor [OF inv p k])
  note len = tab_len [OF inv]
  show "wf_tab (semdup i (tab s))"
    using inv i by (simp add: semdup_def sem_inv_def shape_def wf_set_sem)
  let ?q = "set_proc p (\<lambda>q. q\<lparr>p_osem := (p_osem q)[k := Some i]\<rparr>) (pt s)"
  show "osems ?q = (osems (pt s))[p := (osems (pt s) ! p)[k := Some i]]" by simp
  show "pstates ?q = pstates (pt s)" by (simp add: pstates_def map_update_same)
  show "asleep ?q j ch = asleep (pt s) j ch" for j ch by (auto simp: asleep_def nth_update)
  show "unat (refs (semdup i (tab s)) ! j) = desc (osems ?q) j" if "j < NSEM" for j
    using desc_update [of p "osems (pt s)" k "Some i" j] osem_nth [OF inv p] p k none
      refs_exactD [OF inv that] unat_inc [OF refs_bound [OF inv i]] that
    by (simp add: len i nth_update split: if_splits)
  show "refs (semdup i (tab s)) ! j = 0" if "j < NSEM" "\<not> fst (flags (tab s) ! j)" for j
    using inv that lnk by (auto simp: sem_inv_def slots_ok_def len i nth_update)
  have "refs (tab s) ! i + 1 \<noteq> 0"
    using unat_inc [OF refs_bound [OF inv i]] by (metis nat.simps(3) unat_0)
  then show "refs (tab s) ! j \<noteq> 0 \<Longrightarrow> refs (semdup i (tab s)) ! j \<noteq> 0" for j
    using i by (cases "i = j") (simp_all add: len nth_update)
qed (use i use life in auto)

definition drop_ref :: "nat \<Rightarrow> sem list \<Rightarrow> sem list" where
  "drop_ref i t = set_sem i (\<lambda>s. s\<lparr>s_ref := s_ref s - 1\<rparr>) t"

lemma refs_drop [simp]: "i < length t \<Longrightarrow> refs (drop_ref i t) = (refs t)[i := refs t ! i - 1]"
  by (simp add: drop_ref_def set_sem_def columns map_update)

lemma drop_frame [simp]: "counts (drop_ref i t) = counts t" "flags (drop_ref i t) = flags t"
  by (simp_all add: drop_ref_def)

lemma inv_drop:
  assumes inv: "sem_inv s" and p: "p < length (procs (pt s))" and k: "k < NOSEM"
    and some: "osems (pt s) ! p ! k = Some i" and use: "uses (ctl s p) = None"
    and sl: "\<And>j. refs (tab s) ! i = 1 \<Longrightarrow> asleep (pt s) j StableChan \<Longrightarrow> ctl s j \<noteq> UnlinkWait i"
    and life: "lifecycle (s\<lparr>tab := drop_ref i (tab s), pt := clear_sem p k (pt s)\<rparr>)"
  shows "sem_inv (s\<lparr>tab := drop_ref i (tab s), pt := clear_sem p k (pt s)\<rparr>)"
proof (rule inv_descriptor [OF inv p k])
  note len = tab_len [OF inv]
  have mem: "Some i \<in> set (osems (pt s) ! p)"
    using some k osem_nth(1) [OF inv p] by (metis nth_mem)
  have i: "i < NSEM" by (rule osem_nth(2) [OF inv p mem])
  have pos: "0 < unat (refs (tab s) ! i)"
    using desc_pos [OF _ mem] p refs_exactD [OF inv i] by simp
  show "wf_tab (drop_ref i (tab s))"
    using inv i by (simp add: drop_ref_def sem_inv_def shape_def wf_set_sem)
  let ?q = "clear_sem p k (pt s)"
  show "osems ?q = (osems (pt s))[p := (osems (pt s) ! p)[k := None]]" by (simp add: clear_sem_def)
  show "pstates ?q = pstates (pt s)" by (simp add: clear_sem_def pstates_def map_update_same)
  show "asleep ?q j ch = asleep (pt s) j ch" for j ch
    by (auto simp: clear_sem_def asleep_def nth_update)
  show "unat (refs (drop_ref i (tab s)) ! j) = desc (osems ?q) j" if "j < NSEM" for j
    using desc_update [of p "osems (pt s)" k None j] osem_nth [OF inv p] p k some
      refs_exactD [OF inv that] unat_dec [OF pos] that
    by (simp add: clear_sem_def len i nth_update split: if_splits)
  show "refs (drop_ref i (tab s)) ! j = 0" if "j < NSEM" "\<not> fst (flags (tab s) ! j)" for j
    using inv that pos by (auto simp: sem_inv_def slots_ok_def len i nth_update)
  show "refs (drop_ref i (tab s)) ! i' \<noteq> 0"
    if "asleep (pt s) j StableChan" "ctl s j = UnlinkWait i'" "refs (tab s) ! i' \<noteq> 0" for j i'
  proof (cases "i' = i")
    case True
    then have "refs (tab s) ! i \<noteq> 1" using sl that by blast
    then show ?thesis using True by (simp add: len i nth_update)
  next
    case False
    then show ?thesis using that by (simp add: len i nth_update)
  qed
qed (use use life in \<open>auto simp: clear_sem_def\<close>)

text \<open>\<open>sem_close\<close> and the clearing of the descriptor, in either order.\<close>

lemma clear_wakeup: "clear_sem p k (wakeup ch q) = wakeup ch (clear_sem p k q)"
proof -
  have "procs (clear_sem p k (wakeup ch q)) = procs (wakeup ch (clear_sem p k q))"
    by (rule nth_equalityI)
      (auto simp: clear_sem_def wakeup_def wakeup1_def nth_update)
  then show ?thesis by (simp add: clear_sem_def wakeup_def wakeup1_def set_proc_def)
qed

definition close_wakes :: "nat \<Rightarrow> sem list \<Rightarrow> ptable \<Rightarrow> ptable" where
  "close_wakes i t p =
     (if refs t ! i = 1 \<and> snd (flags t ! i) then wakeup StableChan p else p)"

lemma sem_close_eq:
  assumes "i < length t"
  shows "sem_close i (t, p) = (0, drop_ref i t, close_wakes i t p)"
proof -
  have "refs t ! i = s_ref (t ! i)" "flags t ! i = (linked (t ! i), waitingForDeath (t ! i))"
    using assms by (simp_all add: columns)
  then show ?thesis
    using assms by (simp add: sem_close_def drop_ref_def close_wakes_def set_sem_nth Let_def)
qed

lemma close_wakes_clear: "close_wakes i t (clear_sem p k q) = clear_sem p k (close_wakes i t q)"
  by (simp add: close_wakes_def clear_wakeup)

lemma only_wakes_close [simp]: "only_wakes p (close_wakes i t p)"
  by (simp add: close_wakes_def)

lemma inv_close:
  assumes inv: "sem_inv s" and p: "p < length (procs (pt s))" and k: "k < NOSEM"
    and some: "osems (pt s) ! p ! k = Some i" and use: "uses (ctl s p) = None"
    and life: "lifecycle (s\<lparr>tab := drop_ref i (tab s),
      pt := clear_sem p k (close_wakes i (tab s) (pt s))\<rparr>)"
  shows "sem_inv (s\<lparr>tab := drop_ref i (tab s), pt := clear_sem p k (close_wakes i (tab s) (pt s))\<rparr>)"
proof -
  let ?w = "s\<lparr>pt := close_wakes i (tab s) (pt s)\<rparr>"
  have w: "sem_inv ?w" using inv by (rule inv_only_wakes) simp
  have os: "osems (close_wakes i (tab s) (pt s)) = osems (pt s)"
    and len: "length (procs (close_wakes i (tab s) (pt s))) = length (procs (pt s))"
    by (simp_all add: close_wakes_def)
  have "ctl s j \<noteq> UnlinkWait i"
    if "refs (tab s) ! i = 1" "asleep (close_wakes i (tab s) (pt s)) j StableChan" for j
  proof
    assume "ctl s j = UnlinkWait i"
    then have "snd (flags (tab s) ! i)" using inv by (simp add: sem_inv_def unlinkers_ok_def)
    with that show False by (simp add: close_wakes_def asleep_wakeup)
  qed
  with inv_drop [OF w, of p k i] p k some use life show ?thesis by (simp add: os len)
qed

end
