(* ===== verification/Sem_Correct.thy ===== *)
theory Sem_Correct
  imports Sem_Invariant
begin

text \<open>
  Every clean step of the semaphore system keeps its invariant, and what follows for
  the runs of the system.
\<close>

section \<open>Steps that move processes only\<close>

fun plain :: "control \<Rightarrow> bool" where
  "plain User = True"
| "plain Dead = True"
| "plain InWait = True"
| "plain (Forking c k) = True"
| "plain (Exiting k) = True"
| "plain _ = False"

lemma inv_move:
  assumes inv: "sem_inv s" and t: "tab t = tab s" "osems (pt t) = osems (pt s)"
      "length (procs (pt t)) = length (procs (pt s))"
    and sl: "\<And>p ch. ch \<noteq> NullChan \<Longrightarrow> asleep (pt t) p ch \<Longrightarrow> asleep (pt s) p ch \<and> ctl t p = ctl s p"
    and c: "\<And>p. ctl t p = ctl s p \<or> plain (ctl t p)"
    and life: "lifecycle t"
  shows "sem_inv t"
proof -
  have same: "ctl t p = c' \<Longrightarrow> \<not> plain c' \<Longrightarrow> ctl s p = c'" for p c'
    using c [of p] by auto
  have "uses (ctl t p) = Some i \<Longrightarrow> uses (ctl s p) = Some i" for p i
    using c [of p] same [of p "ctl t p"] by (cases "ctl t p") auto
  with inv have holders: "holders_ok t" by (simp add: sem_inv_def holders_ok_def t)
  have "ctl t p = Waiting i \<and> fst (counts (tab t) ! i) = 0"
    if "asleep (pt t) p (SemChan i)" for p i
    using sl [OF _ that] inv by (auto simp: sem_inv_def waiters_ok_def t)
  then have waiters: "waiters_ok t" by (simp add: waiters_ok_def)
  have "\<exists>i. ctl t p = UnlinkWait i \<and> refs (tab t) ! i \<noteq> 0"
    if "asleep (pt t) p StableChan" for p
    using sl [OF _ that] inv by (auto simp: sem_inv_def unlinkers_ok_def t)
  moreover have "ctl t p = Unlinking i \<Longrightarrow> ctl s p = Unlinking i"
    "ctl t p = UnlinkWait i \<Longrightarrow> ctl s p = UnlinkWait i" for p i
    by (simp_all add: same)
  ultimately have "unlinkers_ok t"
    using inv unfolding sem_inv_def unlinkers_ok_def t(1) by blast
  moreover have "ctl t p = Claiming n v m i \<Longrightarrow> ctl s p = Claiming n v m i" for p n v m i
    by (simp add: same)
  then have "claims_ok t" using inv unfolding sem_inv_def claims_ok_def by blast
  moreover from inv have "shape t" "refs_exact t" "slots_ok t" "counts_ok t"
    by (simp_all add: sem_inv_def inv_parts t)
  ultimately show ?thesis using life holders waiters by (simp add: sem_inv_def)
qed

lemma lifeD:
  assumes "sem_inv s"
  shows life_dead: "p < length (procs (pt s)) \<Longrightarrow> pstates (pt s) ! p = UNUSED \<or> pstates (pt s) ! p = ZOMBIE
      \<Longrightarrow> no_sems (osems (pt s) ! p)"
    and life_live: "ctl s p \<noteq> User \<Longrightarrow> ctl s p \<noteq> Dead \<Longrightarrow>
      p < length (procs (pt s)) \<and> live (pstates (pt s) ! p)"
    and life_fork: "ctl s p = Forking c k \<Longrightarrow> c < length (procs (pt s)) \<and>
      pstates (pt s) ! c = EMBRYO \<and> no_sems (drop k (osems (pt s) ! c))"
    and life_fork_uniq: "ctl s p = Forking c k \<Longrightarrow> ctl s q = Forking c k' \<Longrightarrow> p = q"
    and life_exit: "ctl s p = Exiting k \<Longrightarrow> no_sems (take k (osems (pt s) ! p))"
  using assms unfolding sem_inv_def lifecycle_def by blast+

lemma not_live [simp]: "\<not> live UNUSED" "\<not> live EMBRYO" "\<not> live ZOMBIE" "live RUNNING" "live RUNNABLE"
  by (simp_all add: live_def)

lemma running_not_asleep:
  "p_state (proc_at q p) = RUNNING \<Longrightarrow> \<not> asleep q p ch"
  by (simp add: asleep_def)

text \<open>\<open>lifecycle\<close> depends on four columns of the state.\<close>

definition life :: "nat \<Rightarrow> procstate list \<Rightarrow> nat option list list \<Rightarrow> (nat \<Rightarrow> control) \<Rightarrow> bool" where
  "life n ps os c \<longleftrightarrow>
     (\<forall>p < n. ps ! p \<in> {UNUSED, ZOMBIE} \<longrightarrow> no_sems (os ! p)) \<and>
     (\<forall>p. c p \<noteq> User \<longrightarrow> c p \<noteq> Dead \<longrightarrow> p < n \<and> live (ps ! p)) \<and>
     (\<forall>p ch k. c p = Forking ch k \<longrightarrow> ch < n \<and> ps ! ch = EMBRYO \<and> no_sems (drop k (os ! ch))) \<and>
     (\<forall>p q ch k k'. c p = Forking ch k \<longrightarrow> c q = Forking ch k' \<longrightarrow> p = q) \<and>
     (\<forall>p k. c p = Exiting k \<longrightarrow> no_sems (take k (os ! p)))"

lemma lifecycle_life:
  "lifecycle t \<longleftrightarrow> life (length (procs (pt t))) (pstates (pt t)) (osems (pt t)) (ctl t)"
  by (simp add: lifecycle_def life_def)

section \<open>fork\<close>

lemma alloc_slot_None: "alloc_slot p = (None, q) \<Longrightarrow> q = p"
  by (auto simp: alloc_slot_def Let_def split: option.splits)

lemma alloc_slot_Some:
  assumes "alloc_slot p = (Some c, q)"
  shows "c < length (procs p)" and "pstates p ! c = UNUSED"
    and "pstates q = (pstates p)[c := EMBRYO]" and "length (procs q) = length (procs p)"
    and "osems q = osems p" and "asleep q j ch = asleep p j ch"
proof -
  from assms have c: "scan (\<lambda>p. p_state p = UNUSED) (procs p) = Some c"
    and q: "procs q = (procs p)[c := (proc_at p c)\<lparr>p_state := EMBRYO, p_pid := nextpid p\<rparr>]"
    by (auto simp: alloc_slot_def Let_def split: option.splits)
  show less: "c < length (procs p)" using c by (rule scan_Some_less)
  then show un: "pstates p ! c = UNUSED" using scan_Some_holds [OF c] by (simp add: pstates_nth)
  show "pstates q = (pstates p)[c := EMBRYO]"
    by (simp add: pstates_def q map_update)
  show "length (procs q) = length (procs p)" by (simp add: q)
  show "osems q = osems p" by (simp add: osems_def q map_update_same)
  show "asleep q j ch = asleep p j ch"
    using un less by (auto simp: asleep_def q nth_update pstates_nth)
qed

lemma no_sems_drop: "no_sems ds \<Longrightarrow> no_sems (drop k ds)"
  by (meson in_set_dropD no_sems_def)

lemma no_sems_drop_Suc: "no_sems (drop k ds) \<Longrightarrow> no_sems (drop (Suc k) ds)"
  by (metis Suc_n_not_le_n drop_drop no_sems_drop add_Suc plus_1_eq_Suc)

lemma no_sems_take_Suc:
  "no_sems (take k ds) \<Longrightarrow> (k < length ds \<Longrightarrow> ds ! k = None) \<Longrightarrow> no_sems (take (Suc k) ds)"
  by (cases "k < length ds") (auto simp: no_sems_def take_Suc_conv_app_nth)

lemma inv_fork_begin:
  assumes inv: "sem_inv s" and me: "me < length (procs (pt s))"
    and run: "p_state (proc_at (pt s) me) = RUNNING" and ctl: "ctl s me = User"
    and al: "alloc_slot (pt s) = (Some c, p)"
  shows "sem_inv (goto me (Forking c 0) (s\<lparr>pt := set_proc c (\<lambda>q. q\<lparr>p_parent := Some me\<rparr>) p\<rparr>))"
proof (rule inv_move [OF inv])
  note al' = alloc_slot_Some [OF al]
  let ?p = "set_proc c (\<lambda>q. q\<lparr>p_parent := Some me\<rparr>) p"
  let ?t = "goto me (Forking c 0) (s\<lparr>pt := ?p\<rparr>)"
  have os: "osems ?p = osems (pt s)" by (simp add: osems_set_proc al'(5))
  have ps: "pstates ?p = (pstates (pt s))[c := EMBRYO]"
    using al'(3) by (simp add: pstates_def map_update_same)
  have sl: "asleep ?p j ch = asleep (pt s) j ch" for j ch
    using al'(6) [of j ch] by (auto simp: asleep_def nth_update)
  have neq: "me \<noteq> c" using run al'(2) me by (auto simp: pstates_nth)
  show "osems (pt ?t) = osems (pt s)" using os by simp
  show "length (procs (pt ?t)) = length (procs (pt s))" using al'(4) by simp
  show "asleep (pt s) q ch \<and> ctl ?t q = ctl s q" if "asleep (pt ?t) q ch" for q ch
    using that sl running_not_asleep [OF run] by auto
  show "ctl ?t q = ctl s q \<or> plain (ctl ?t q)" for q by simp
  have fresh: "ctl s q \<noteq> Forking c k" for q k
    using life_fork [OF inv, of q c k] al'(2) by auto
  have none: "no_sems (osems (pt s) ! c)" using life_dead [OF inv al'(1)] al'(2) by simp
  have dead: "ctl s c = User \<or> ctl s c = Dead"
    using life_live [OF inv, of c] al'(2) by auto
  have "life (length (procs (pt s))) ((pstates (pt s))[c := EMBRYO]) (osems (pt s))
    ((ctl s)(me := Forking c 0))"
    unfolding life_def
  proof (intro conjI allI impI)
    fix q assume "q < length (procs (pt s))" "(pstates (pt s))[c := EMBRYO] ! q \<in> {UNUSED, ZOMBIE}"
    then show "no_sems (osems (pt s) ! q)"
      using life_dead [OF inv, of q] al'(1) by (auto simp: nth_update split: if_splits)
  next
    fix q assume q: "((ctl s)(me := Forking c 0)) q \<noteq> User" "((ctl s)(me := Forking c 0)) q \<noteq> Dead"
    show "q < length (procs (pt s))"
      using q life_live [OF inv, of q] me by (auto split: if_splits)
    show "live ((pstates (pt s))[c := EMBRYO] ! q)"
      using q life_live [OF inv, of q] me run neq dead by (auto simp: nth_update pstates_nth split: if_splits)
  next
    fix q c' k assume q: "((ctl s)(me := Forking c 0)) q = Forking c' k"
    show "c' < length (procs (pt s))" "(pstates (pt s))[c := EMBRYO] ! c' = EMBRYO"
      "no_sems (drop k (osems (pt s) ! c'))"
      using q life_fork [OF inv, of q c' k] al'(1) none
      by (auto simp: nth_update split: if_splits)
  next
    fix q r c' k k'
    assume "((ctl s)(me := Forking c 0)) q = Forking c' k" "((ctl s)(me := Forking c 0)) r = Forking c' k'"
    then show "q = r" using life_fork_uniq [OF inv, of q c' k r k'] fresh
      by (auto split: if_splits)
  next
    fix q k assume "((ctl s)(me := Forking c 0)) q = Exiting k"
    then show "no_sems (take k (osems (pt s) ! q))" using life_exit [OF inv, of q k]
      by (auto split: if_splits)
  qed
  then show "lifecycle ?t" by (simp add: lifecycle_life os ps al'(4))
qed (simp_all)

lemma inv_fork_goto:
  assumes inv: "sem_inv s" and ctl: "ctl s me = Forking c k"
    and run: "p_state (proc_at (pt s) me) = RUNNING"
  shows "sem_inv (goto me (Forking c (Suc k)) s)"
proof (rule inv_move [OF inv])
  let ?t = "goto me (Forking c (Suc k)) s"
  note lf = life_fork [OF inv ctl] and lv = life_live [OF inv, of me]
  show "lifecycle ?t"
    unfolding lifecycle_life life_def goto_fields
  proof (intro conjI allI impI)
    fix q c' k' assume "((ctl s)(me := Forking c (Suc k))) q = Forking c' k'"
    then show "c' < length (procs (pt s))" "pstates (pt s) ! c' = EMBRYO"
      "no_sems (drop k' (osems (pt s) ! c'))"
      using life_fork [OF inv, of q c' k'] lf no_sems_drop_Suc by (auto split: if_splits)
  next
    fix q r c' k1 k2
    assume "((ctl s)(me := Forking c (Suc k))) q = Forking c' k1"
      "((ctl s)(me := Forking c (Suc k))) r = Forking c' k2"
    then show "q = r"
      using life_fork_uniq [OF inv, of q c' k1 r k2] life_fork_uniq [OF inv ctl, of r]
        life_fork_uniq [OF inv ctl, of q] by (auto split: if_splits)
  qed (use life_dead [OF inv] life_live [OF inv] life_exit [OF inv] lv ctl
      in \<open>auto split: if_splits\<close>)
  show "asleep (pt s) q ch \<and> ctl ?t q = ctl s q" if "asleep (pt ?t) q ch" for q ch
    using that running_not_asleep [OF run] by auto
qed simp_all

lemma goto_tab_pt: "goto me c (s\<lparr>tab := t, pt := p\<rparr>) = (goto me c s)\<lparr>tab := t, pt := p\<rparr>"
  by (simp add: goto_def)

lemma inv_fork_copy:
  assumes inv: "sem_inv s" and me: "me < length (procs (pt s))" and ctl: "ctl s me = Forking c k"
    and run: "p_state (proc_at (pt s) me) = RUNNING" and k: "k < NOSEM"
    and d: "osems (pt s) ! me ! k = Some i"
  shows "sem_inv (goto me (Forking c (Suc k)) (s\<lparr>tab := semdup i (tab s),
    pt := set_proc c (\<lambda>p. p\<lparr>p_osem := (p_osem p)[k := Some i]\<rparr>) (pt s)\<rparr>))"
proof -
  let ?s1 = "goto me (Forking c (Suc k)) s"
  let ?p = "set_proc c (\<lambda>p. p\<lparr>p_osem := (p_osem p)[k := Some i]\<rparr>) (pt s)"
  have inv1: "sem_inv ?s1" using inv ctl run by (rule inv_fork_goto)
  note lf = life_fork [OF inv ctl]
  have c: "c < length (procs (pt s))" "pstates (pt s) ! c = EMBRYO" using lf by simp_all
  have mem: "Some i \<in> set (osems (pt s) ! me)"
    using d k osem_nth(1) [OF inv me] by (metis nth_mem)
  have i: "i < NSEM" by (rule osem_nth(2) [OF inv me mem])
  have lenc: "length (osems (pt s) ! c) = NOSEM" using osem_nth(1) [OF inv c(1)] .
  have none: "osems (pt s) ! c ! k = None"
  proof -
    have "osems (pt s) ! c ! k \<in> set (drop k (osems (pt s) ! c))"
      using k lenc by (metis Cons_nth_drop_Suc list.set_intros(1))
    then show ?thesis using lf by (auto simp: no_sems_def)
  qed
  have lnk: "fst (flags (tab s) ! i)"
  proof (rule ccontr)
    assume "\<not> fst (flags (tab s) ! i)"
    then have "refs (tab s) ! i = 0" using inv i by (simp add: sem_inv_def slots_ok_def)
    then show False using desc_pos [OF _ mem] me refs_exactD [OF inv i] by simp
  qed
  have dead: "ctl s c = User \<or> ctl s c = Dead"
    using life_live [OF inv, of c] c by auto
  then have use: "uses (ctl ?s1 c) = None" by auto
  have ps: "pstates ?p = pstates (pt s)" by (simp add: pstates_def map_update_same)
  have "life (length (procs (pt s))) (pstates (pt s))
      ((osems (pt s))[c := (osems (pt s) ! c)[k := Some i]]) ((ctl s)(me := Forking c (Suc k)))"
    unfolding life_def
  proof (intro conjI allI impI)
    fix q assume "q < length (procs (pt s))" "pstates (pt s) ! q \<in> {UNUSED, ZOMBIE}"
    then show "no_sems ((osems (pt s))[c := (osems (pt s) ! c)[k := Some i]] ! q)"
      using life_dead [OF inv, of q] c by (auto simp: nth_update)
  next
    fix q c' k' assume q: "((ctl s)(me := Forking c (Suc k))) q = Forking c' k'"
    show "no_sems (drop k' ((osems (pt s))[c := (osems (pt s) ! c)[k := Some i]] ! c'))"
    proof (cases "q = me")
      case True
      then have "c' = c" "k' = Suc k" using q by auto
      then show ?thesis using lf c no_sems_drop_Suc by (auto simp: nth_update)
    next
      case False
      then have "c' \<noteq> c" "no_sems (drop k' (osems (pt s) ! c'))"
        using q life_fork_uniq [OF inv ctl, of q k'] life_fork [OF inv, of q c' k'] by auto
      then show ?thesis by simp
    qed
  next
    fix q k' assume "((ctl s)(me := Forking c (Suc k))) q = Exiting k'"
    then show "no_sems (take k' ((osems (pt s))[c := (osems (pt s) ! c)[k := Some i]] ! q))"
      using life_exit [OF inv, of q k'] dead by (auto simp: nth_update split: if_splits)
  qed (use inv1 in \<open>unfold sem_inv_def lifecycle_life life_def goto_fields, blast+\<close>)
  then have "lifecycle (?s1\<lparr>tab := semdup i (tab s), pt := ?p\<rparr>)"
    by (simp add: lifecycle_life ps)
  with inv_grant [OF inv1, of c k i] c k i none lnk use
  show ?thesis unfolding goto_tab_pt by simp
qed

lemma inv_fork_finish:
  assumes inv: "sem_inv s" and me: "me < length (procs (pt s))" and ctl: "ctl s me = Forking c k"
    and run: "p_state (proc_at (pt s) me) = RUNNING"
  shows "sem_inv (goto me User (goto c User
    (s\<lparr>pt := set_proc c (\<lambda>p. p\<lparr>p_state := RUNNABLE\<rparr>) (pt s)\<rparr>)))"
proof (rule inv_move [OF inv])
  let ?p = "set_proc c (\<lambda>p. p\<lparr>p_state := RUNNABLE\<rparr>) (pt s)"
  let ?t = "goto me User (goto c User (s\<lparr>pt := ?p\<rparr>))"
  note lf = life_fork [OF inv ctl]
  have c: "c < length (procs (pt s))" "pstates (pt s) ! c = EMBRYO" using lf by simp_all
  have os: "osems ?p = osems (pt s)" by (simp add: osems_set_proc)
  have ps: "pstates ?p = (pstates (pt s))[c := RUNNABLE]"
    by (simp add: pstates_def map_update)
  have sl: "asleep ?p j ch \<Longrightarrow> asleep (pt s) j ch \<and> j \<noteq> c" for j ch
    using c by (auto simp: asleep_def nth_update pstates_nth split: if_splits)
  show "asleep (pt s) q ch \<and> ctl ?t q = ctl s q" if "asleep (pt ?t) q ch" for q ch
    using that sl [of q ch] running_not_asleep [OF run] by auto
  show "osems (pt ?t) = osems (pt s)" using os by simp
  have "life (length (procs (pt s))) ((pstates (pt s))[c := RUNNABLE]) (osems (pt s))
      ((ctl s)(c := User, me := User))"
    unfolding life_def
  proof (intro conjI allI impI)
    fix q assume "q < length (procs (pt s))" "(pstates (pt s))[c := RUNNABLE] ! q \<in> {UNUSED, ZOMBIE}"
    then show "no_sems (osems (pt s) ! q)"
      using life_dead [OF inv, of q] c by (auto simp: nth_update split: if_splits)
  next
    fix q assume q: "((ctl s)(c := User, me := User)) q \<noteq> User" "((ctl s)(c := User, me := User)) q \<noteq> Dead"
    show "q < length (procs (pt s))" "live ((pstates (pt s))[c := RUNNABLE] ! q)"
      using q life_live [OF inv, of q] by (auto simp: nth_update split: if_splits)
  next
    fix q c' k' assume q: "((ctl s)(c := User, me := User)) q = Forking c' k'"
    then have "q \<noteq> me" "ctl s q = Forking c' k'" by (auto split: if_splits)
    then show "c' < length (procs (pt s))" "(pstates (pt s))[c := RUNNABLE] ! c' = EMBRYO"
      "no_sems (drop k' (osems (pt s) ! c'))"
      using life_fork [OF inv, of q c' k'] life_fork_uniq [OF inv ctl, of q k']
      by (auto simp: nth_update)
  qed (use life_fork_uniq [OF inv] life_exit [OF inv] in \<open>auto split: if_splits\<close>)
  then show "lifecycle ?t" by (simp add: lifecycle_life os ps)
qed simp_all

section \<open>exit and wait\<close>

lemma inv_exit_goto:
  assumes inv: "sem_inv s" and me: "me < length (procs (pt s))" and ctl: "ctl s me = Exiting k"
    and run: "p_state (proc_at (pt s) me) = RUNNING"
    and none: "k < NOSEM \<Longrightarrow> osems (pt s) ! me ! k = None"
  shows "sem_inv (goto me (Exiting (Suc k)) s)"
  using inv me
proof (rule inv_goto)
  have "no_sems (take (Suc k) (osems (pt s) ! me))"
    using life_exit [OF inv ctl] osem_nth(1) [OF inv me] none by (intro no_sems_take_Suc) auto
  then show "may_be_at me (Exiting (Suc k)) s" by (simp add: may_be_at_def)
qed (use run me in \<open>simp_all add: pstates_nth\<close>)

lemma inv_exit_close:
  assumes inv: "sem_inv s" and me: "me < length (procs (pt s))" and ctl: "ctl s me = Exiting k"
    and run: "p_state (proc_at (pt s) me) = RUNNING" and k: "k < NOSEM"
    and d: "osems (pt s) ! me ! k = Some i"
  shows "sem_inv (goto me (Exiting (Suc k)) (s\<lparr>tab := drop_ref i (tab s),
    pt := clear_sem me k (close_wakes i (tab s) (pt s))\<rparr>))"
proof -
  let ?p = "clear_sem me k (close_wakes i (tab s) (pt s))"
  let ?t = "s\<lparr>tab := drop_ref i (tab s), pt := ?p\<rparr>"
  have os: "osems ?p = (osems (pt s))[me := (osems (pt s) ! me)[k := None]]"
    and len: "length (procs ?p) = length (procs (pt s))"
    by (simp_all add: clear_sem_def close_wakes_def)
  have wk: "sem_inv (s\<lparr>pt := close_wakes i (tab s) (pt s)\<rparr>)"
    using inv by (rule inv_only_wakes) simp
  have ps: "pstates ?p = pstates (close_wakes i (tab s) (pt s))"
    by (simp add: clear_sem_def pstates_def map_update_same)
  have os2: "osems (close_wakes i (tab s) (pt s)) = osems (pt s)"
    and len2: "length (procs (close_wakes i (tab s) (pt s))) = length (procs (pt s))"
    by (simp_all add: close_wakes_def)
  have upd: "no_sems ds \<Longrightarrow> no_sems (ds[k := None])" for ds
    using set_update_subset_insert by (fastforce simp: no_sems_def)
  have l1: "life (length (procs (pt s))) (pstates ?p) (osems (pt s)) (ctl s)"
    using wk by (simp add: sem_inv_def lifecycle_life ps os2 len2)
  have "life (length (procs (pt s))) (pstates ?p)
      ((osems (pt s))[me := (osems (pt s) ! me)[k := None]]) (ctl s)"
    unfolding life_def
  proof (intro conjI allI impI)
    fix q assume "q < length (procs (pt s))" "pstates ?p ! q \<in> {UNUSED, ZOMBIE}"
    then have "no_sems (osems (pt s) ! q)" using l1 unfolding life_def by blast
    then show "no_sems ((osems (pt s))[me := (osems (pt s) ! me)[k := None]] ! q)"
      using upd by (auto simp: nth_update)
  next
    fix q c' k' assume "ctl s q = Forking c' k'"
    then have "no_sems (drop k' (osems (pt s) ! c'))" "c' \<noteq> me"
      using life_fork [OF inv, of q c' k'] run me by (auto simp: pstates_nth)
    then show "no_sems (drop k' ((osems (pt s))[me := (osems (pt s) ! me)[k := None]] ! c'))"
      by simp
  next
    fix q k' assume "ctl s q = Exiting k'"
    then have "no_sems (take k' (osems (pt s) ! q))" by (rule life_exit [OF inv])
    then show "no_sems (take k' ((osems (pt s))[me := (osems (pt s) ! me)[k := None]] ! q))"
      using upd by (cases "q = me")
        (auto simp: nth_update no_sems_def take_update_swap dest: in_set_takeD
          split: if_splits)
  qed (use l1 in \<open>unfold life_def, blast+\<close>)
  then have "lifecycle ?t" by (simp add: lifecycle_life os len)
  with inv_close [OF inv me k d] ctl have inv1: "sem_inv ?t" by simp
  have "p_state (proc_at ?p me) = RUNNING"
    using run me by (simp add: clear_sem_def close_wakes_def wakeup_nth)
  then show ?thesis
    using inv_exit_goto [OF inv1, of me k] me ctl os len k osem_nth(1) [OF inv me] by simp
qed

end
