(* ===== verification/Sem_Runs.thy ===== *)
theory Sem_Runs
  imports Sem_Correct
begin

text \<open>
  The remaining steps of the semaphore system, and the theorem that every clean step
  keeps the invariant.
\<close>

section \<open>The end of exit, and wait\<close>

lemma only_wakes_trans: "only_wakes p q \<Longrightarrow> only_wakes q r \<Longrightarrow> only_wakes p r"
  unfolding only_wakes_def by (intro conjI) (simp, simp, metis, metis)

lemma wakes_set_proc:
  "(\<And>q. p_osem (f q) = p_osem q) \<Longrightarrow> (\<And>q. p_state (f q) = p_state q) \<Longrightarrow>
     (\<And>q. p_chan (f q) = p_chan q) \<Longrightarrow> only_wakes p (set_proc i f p)"
  by (auto simp: only_wakes_def osems_set_proc pstates_def map_update_same asleep_def nth_update)

lemma wakes_wakeup1 [simp]: "only_wakes p (wakeup1 ch p)"
  using wakes_wakeup [of p ch] by (simp add: wakeup_def)

lemma wakes_adopt: "only_wakes p (adopt me i p)"
proof -
  have "only_wakes p (set_proc i (\<lambda>q. q\<lparr>p_parent := x\<rparr>) p)" for x
    by (rule wakes_set_proc) simp_all
  then show ?thesis
    unfolding adopt_def Let_def using only_wakes_trans [OF _ wakes_wakeup1] by simp
qed

lemma wakes_adopts: "only_wakes p (fold (adopt me) is p)"
proof (induction "is" arbitrary: p)
  case Nil
  then show ?case by simp
next
  case (Cons i "is")
  show ?case using only_wakes_trans [OF wakes_adopt Cons.IH] by simp
qed

definition adopted :: "nat \<Rightarrow> ptable \<Rightarrow> ptable" where
  "adopted me p =
     (let p = wakeup1 (proc_chan (p_parent (proc_at p me))) p
      in fold (adopt me) [0..<length (procs p)] p)"

lemma exit_tail_adopted: "exit_tail me p = set_proc me (\<lambda>p. p\<lparr>p_state := ZOMBIE\<rparr>) (adopted me p)"
  by (simp add: exit_tail_def adopted_def Let_def)

lemma wakes_adopted: "only_wakes p (adopted me p)"
  unfolding adopted_def Let_def by (rule only_wakes_trans [OF wakes_wakeup1 wakes_adopts])

lemma adopt_running:
  "me < length (procs p) \<Longrightarrow> p_state (proc_at p me) = RUNNING \<Longrightarrow>
     me < length (procs (adopt you i p)) \<and> p_state (proc_at (adopt you i p) me) = RUNNING"
  by (auto simp: adopt_def Let_def wakeup1_def nth_update)

lemma adopts_running:
  "me < length (procs p) \<Longrightarrow> p_state (proc_at p me) = RUNNING \<Longrightarrow>
     p_state (proc_at (fold (adopt you) is p) me) = RUNNING"
  by (induction "is" arbitrary: p) (simp_all add: adopt_running)

lemma adopted_running:
  "me < length (procs p) \<Longrightarrow> p_state (proc_at p me) = RUNNING \<Longrightarrow>
     p_state (proc_at (adopted you p) me) = RUNNING"
  unfolding adopted_def Let_def by (rule adopts_running) (simp_all add: wakeup1_def)

lemma inv_exit_finish:
  assumes inv: "sem_inv s" and me: "me < length (procs (pt s))" and ctl: "ctl s me = Exiting k"
    and run: "p_state (proc_at (pt s) me) = RUNNING" and k: "NOSEM \<le> k"
  shows "sem_inv (goto me Dead (s\<lparr>pt := exit_tail me (pt s)\<rparr>))"
proof -
  let ?a = "adopted me (pt s)"
  let ?s = "s\<lparr>pt := ?a\<rparr>"
  let ?z = "set_proc me (\<lambda>p. p\<lparr>p_state := ZOMBIE\<rparr>) ?a"
  have inv1: "sem_inv ?s" using inv wakes_adopted by (rule inv_only_wakes)
  have len: "length (procs ?a) = length (procs (pt s))" and osa: "osems ?a = osems (pt s)"
    using wakes_adopted [of "pt s" me] by (simp_all add: only_wakes_def)
  have run1: "p_state (proc_at ?a me) = RUNNING" using me run by (rule adopted_running)
  have os: "osems ?z = osems ?a" by (simp add: osems_set_proc)
  have ps: "pstates ?z = (pstates ?a)[me := ZOMBIE]" by (simp add: pstates_def map_update)
  have none: "no_sems (osems ?a ! me)"
    using life_exit [OF inv ctl] osem_nth(1) [OF inv me] k by (simp add: osa)
  have noc: "ctl s q \<noteq> Forking me k'" for q k'
    using life_fork [OF inv, of q me k'] run me by (auto simp: pstates_nth)
  have "sem_inv (goto me Dead (?s\<lparr>pt := ?z\<rparr>))"
  proof (rule inv_move [OF inv1])
    let ?t = "goto me Dead (?s\<lparr>pt := ?z\<rparr>)"
    show "asleep (pt ?s) q ch \<and> ctl ?t q = ctl ?s q" if "asleep (pt ?t) q ch" for q ch
      using that run1 by (auto simp: asleep_def nth_update split: if_splits)
    have "life (length (procs (pt s))) ((pstates ?a)[me := ZOMBIE]) (osems ?a) ((ctl s)(me := Dead))"
      unfolding life_def
    proof (intro conjI allI impI)
      fix q assume "q < length (procs (pt s))" "(pstates ?a)[me := ZOMBIE] ! q \<in> {UNUSED, ZOMBIE}"
      then show "no_sems (osems ?a ! q)"
        using life_dead [OF inv1, of q] none len by (auto simp: nth_update split: if_splits)
    next
      fix q assume q: "((ctl s)(me := Dead)) q \<noteq> User" "((ctl s)(me := Dead)) q \<noteq> Dead"
      show "q < length (procs (pt s))" "live ((pstates ?a)[me := ZOMBIE] ! q)"
        using q life_live [OF inv1, of q] len by (auto simp: nth_update split: if_splits)
    next
      fix q c' k' assume q: "((ctl s)(me := Dead)) q = Forking c' k'"
      then have "ctl s q = Forking c' k'" by (auto split: if_splits)
      then show "c' < length (procs (pt s))" "(pstates ?a)[me := ZOMBIE] ! c' = EMBRYO"
        "no_sems (drop k' (osems ?a ! c'))"
        using life_fork [OF inv1, of q c' k'] noc len by (auto simp: nth_update)
    qed (use life_fork_uniq [OF inv] life_exit [OF inv1] in \<open>auto split: if_splits\<close>)
    then show "lifecycle ?t" by (simp add: lifecycle_life os ps len)
  qed (simp_all add: os)
  then show ?thesis by (simp add: exit_tail_adopted)
qed

lemma inv_reap:
  assumes inv: "sem_inv s" and me: "me < length (procs (pt s))"
    and run: "p_state (proc_at (pt s) me) = RUNNING"
    and j: "j < length (procs (pt s))" "p_state (proc_at (pt s) j) = ZOMBIE"
  shows "sem_inv (goto me User (s\<lparr>pt := reap j (pt s)\<rparr>))"
proof (rule inv_move [OF inv])
  let ?t = "goto me User (s\<lparr>pt := reap j (pt s)\<rparr>)"
  have ps: "pstates (reap j (pt s)) = (pstates (pt s))[j := UNUSED]"
    by (simp add: reap_def pstates_def map_update)
  have len: "length (procs (reap j (pt s))) = length (procs (pt s))" by (simp add: reap_def)
  show "asleep (pt s) q ch \<and> ctl ?t q = ctl s q" if "asleep (pt ?t) q ch" for q ch
    using that run by (auto simp: reap_def asleep_def nth_update split: if_splits)
  have "life (length (procs (pt s))) ((pstates (pt s))[j := UNUSED]) (osems (pt s)) ((ctl s)(me := User))"
    unfolding life_def
  proof (intro conjI allI impI)
    fix q assume "q < length (procs (pt s))" "(pstates (pt s))[j := UNUSED] ! q \<in> {UNUSED, ZOMBIE}"
    then show "no_sems (osems (pt s) ! q)"
      using life_dead [OF inv, of q] j by (auto simp: nth_update pstates_nth split: if_splits)
  next
    fix q assume q: "((ctl s)(me := User)) q \<noteq> User" "((ctl s)(me := User)) q \<noteq> Dead"
    show "q < length (procs (pt s))" "live ((pstates (pt s))[j := UNUSED] ! q)"
      using q life_live [OF inv, of q] j by (auto simp: nth_update pstates_nth split: if_splits)
  next
    fix q c' k' assume "((ctl s)(me := User)) q = Forking c' k'"
    then have "ctl s q = Forking c' k'" by (auto split: if_splits)
    then show "c' < length (procs (pt s))" "(pstates (pt s))[j := UNUSED] ! c' = EMBRYO"
      "no_sems (drop k' (osems (pt s) ! c'))"
      using life_fork [OF inv, of q c' k'] j by (auto simp: nth_update pstates_nth)
  qed (use life_fork_uniq [OF inv] life_exit [OF inv] in \<open>auto split: if_splits\<close>)
  then show "lifecycle ?t" by (simp add: lifecycle_life ps len)
  show "length (procs (pt ?t)) = length (procs (pt s))" using len by simp
qed simp_all

section \<open>sem_open\<close>

lemma life_descriptor:
  assumes inv: "sem_inv s" and p: "p < length (procs (pt s))" and ctl: "ctl s p = User"
    and run: "p_state (proc_at (pt s) p) = RUNNING"
  shows "life (length (procs (pt s))) (pstates (pt s)) ((osems (pt s))[p := ds]) (ctl s)"
  unfolding life_def
proof (intro conjI allI impI)
  fix q assume "q < length (procs (pt s))" "pstates (pt s) ! q \<in> {UNUSED, ZOMBIE}"
  then show "no_sems ((osems (pt s))[p := ds] ! q)"
    using life_dead [OF inv, of q] run p by (auto simp: nth_update pstates_nth)
next
  fix q c k assume c: "ctl s q = Forking c k"
  then show "no_sems (drop k ((osems (pt s))[p := ds] ! c))"
    using life_fork [OF inv c] run p by (auto simp: nth_update pstates_nth)
next
  fix q k assume "ctl s q = Exiting k"
  then show "no_sems (take k ((osems (pt s))[p := ds] ! q))"
    using life_exit [OF inv, of q k] ctl by (auto simp: nth_update)
qed (use life_live [OF inv] life_fork [OF inv] life_fork_uniq [OF inv] in \<open>blast+\<close>)

lemma store_sem_free:
  assumes "None \<in> set (p_osem (proc_at p me))"
  obtains sd where "scan (\<lambda>d. d = None) (p_osem (proc_at p me)) = Some sd"
    and "sd < length (p_osem (proc_at p me))" and "p_osem (proc_at p me) ! sd = None"
    and "store_sem me i p = (int sd, set_proc me (\<lambda>p. p\<lparr>p_osem := (p_osem p)[sd := Some i]\<rparr>) p)"
proof -
  obtain sd where "scan (\<lambda>d. d = None) (p_osem (proc_at p me)) = Some sd"
    using assms scan_from_None [of "\<lambda>d. d = None" 0 "p_osem (proc_at p me)"] by auto
  then show ?thesis
    using that [of sd] scan_Some [of "\<lambda>d. d = None" "p_osem (proc_at p me)" sd] by (simp add: store_sem_def)
qed

lemma ref_linked:
  assumes "sem_inv s" and "i < NSEM" and "refs (tab s) ! i \<noteq> 0"
  shows "fst (flags (tab s) ! i)"
  using assms by (auto simp: sem_inv_def slots_ok_def)

lemma tab_columns:
  assumes "i < length t"
  shows "refs t ! i = s_ref (t ! i)" "counts t ! i = (s_count (t ! i), s_maxVal (t ! i))"
    "flags t ! i = (linked (t ! i), waitingForDeath (t ! i))"
  using assms by (simp_all add: columns)

lemma open_done_eq:
  "store_sem me i (pt s) = (r, p) \<Longrightarrow> open_done me i s = finish me r (s\<lparr>pt := p\<rparr>)"
  by (simp add: open_done_def)

lemma goto_User_same: "ctl s me = User \<Longrightarrow> goto me User s = s"
  by (simp add: goto_def fun_upd_idem)

lemma inv_open_match:
  assumes inv: "sem_inv s" and me: "me < length (procs (pt s))" and ctl: "ctl s me = User"
    and run: "p_state (proc_at (pt s) me) = RUNNING" and free: "has_free_desc me s"
    and i: "i < NSEM" and ref: "0 < sint (s_ref (tab s ! i))"
  shows "sem_inv (open_done me i (s\<lparr>tab := semdup i (tab s)\<rparr>))"
proof -
  note len = tab_len [OF inv]
  let ?s = "s\<lparr>tab := semdup i (tab s)\<rparr>"
  obtain sd where sd: "sd < length (p_osem (proc_at (pt s) me))" "p_osem (proc_at (pt s) me) ! sd = None"
    and st: "store_sem me i (pt s) =
      (int sd, set_proc me (\<lambda>p. p\<lparr>p_osem := (p_osem p)[sd := Some i]\<rparr>) (pt s))"
    by (rule store_sem_free [OF free [unfolded has_free_desc_def], where i = i])
  let ?q = "set_proc me (\<lambda>p. p\<lparr>p_osem := (p_osem p)[sd := Some i]\<rparr>) (pt s)"
  have os: "osems (pt s) ! me = p_osem (proc_at (pt s) me)" using me by (simp add: osems_nth)
  have k: "sd < NOSEM" using sd(1) osem_nth(1) [OF inv me] os by simp
  have "refs (tab s) ! i \<noteq> 0" using ref i len by (auto simp: tab_columns)
  then have lnk: "fst (flags (tab s) ! i)" by (rule ref_linked [OF inv i])
  have "life (length (procs (pt s))) (pstates (pt s))
      ((osems (pt s))[me := (osems (pt s) ! me)[sd := Some i]]) (ctl s)"
    by (rule life_descriptor [OF inv me ctl run])
  then have life: "lifecycle (s\<lparr>tab := semdup i (tab s), pt := ?q\<rparr>)"
    by (simp add: lifecycle_life pstates_def map_update_same)
  have none: "osems (pt s) ! me ! sd = None" using sd(2) os by simp
  have use: "uses (ctl s me) = None" by (simp add: ctl)
  have "sem_inv (s\<lparr>tab := semdup i (tab s), pt := ?q\<rparr>)"
    by (rule inv_grant [OF inv me k i none lnk use life])
  then show ?thesis
    by (simp add: open_done_def st goto_User_same ctl)
qed

lemma inv_claim:
  assumes inv: "sem_inv s" and me: "me < length (procs (pt s))" and ctl: "ctl s me = User"
    and run: "p_state (proc_at (pt s) me) = RUNNING" and k: "k < NOSEM"
    and none: "osems (pt s) ! me ! k = None" and i: "i < NSEM"
    and free: "\<not> linked (tab s ! i)" and v: "0 \<le> sint v" "sint v \<le> sint m"
    and nou: "\<And>p. \<not> unlinks i (ctl s p)"
    and s': "wf_sem s'" "linked s'" "s_ref s' = 1" "s_count s' = v" "s_maxVal s' = m" "\<not> waitingForDeath s'"
  shows "sem_inv (s\<lparr>tab := (tab s)[i := s'],
    pt := set_proc me (\<lambda>p. p\<lparr>p_osem := (p_osem p)[k := Some i]\<rparr>) (pt s)\<rparr>)"
proof -
  note len = tab_len [OF inv]
  let ?q = "set_proc me (\<lambda>p. p\<lparr>p_osem := (p_osem p)[k := Some i]\<rparr>) (pt s)"
  let ?t = "s\<lparr>tab := (tab s)[i := s'], pt := ?q\<rparr>"
  have cols: "refs ((tab s)[i := s']) = (refs (tab s))[i := 1]"
    "counts ((tab s)[i := s']) = (counts (tab s))[i := (v, m)]"
    "flags ((tab s)[i := s']) = (flags (tab s))[i := (True, False)]"
    using s' by (simp_all add: columns map_update)
  have ref0: "refs (tab s) ! i = 0"
    using inv i free len by (simp add: sem_inv_def slots_ok_def tab_columns)
  then have d0: "desc (osems (pt s)) i = 0" using refs_exactD [OF inv i] by simp
  have os: "osems ?q = (osems (pt s))[me := (osems (pt s) ! me)[k := Some i]]" by simp
  have sl: "asleep ?q j ch = asleep (pt s) j ch" for j ch by (auto simp: asleep_def nth_update)
  have nos: "\<not> asleep (pt s) p (SemChan i)" for p
  proof
    assume "asleep (pt s) p (SemChan i)"
    then have "ctl s p = Waiting i" using inv by (simp add: sem_inv_def waiters_ok_def)
    then have "p < length (procs (pt s)) \<and> Some i \<in> set (osems (pt s) ! p)"
      using inv by (simp add: sem_inv_def holders_ok_def)
    then show False using desc_pos [of p "osems (pt s)" i] d0 by simp
  qed
  have nou': "ctl s p = Unlinking j \<or> ctl s p = UnlinkWait j \<Longrightarrow> j \<noteq> i" for p j
    using nou [of p] by auto
  have "shape ?t"
    using inv i s'(1) shape_update [OF inv me, of "Some i" k]
    by (simp add: sem_inv_def shape_def wf_tab_update)
  moreover have "refs_exact ?t"
    unfolding refs_exact_def
  proof (intro allI impI)
    fix j assume j: "j < NSEM"
    have "desc ((osems (pt s))[me := (osems (pt s) ! me)[k := Some i]]) j
      = desc (osems (pt s)) j + (if Some i = Some j then 1 else 0)"
      using desc_update [of me "osems (pt s)" k "Some i" j] osem_nth(1) [OF inv me] me k none by simp
    then show "unat (refs (tab ?t) ! j) = desc (osems (pt ?t)) j"
      using j i refs_exactD [OF inv j] d0 by (simp add: cols nth_update len split: if_splits)
  qed
  moreover have "slots_ok ?t"
    using inv i by (auto simp: sem_inv_def slots_ok_def cols nth_update len)
  moreover have "counts_ok ?t"
    using inv i v by (auto simp: sem_inv_def counts_ok_def cols nth_update len)
  moreover have "holders_ok ?t"
    using inv ctl by (auto simp: sem_inv_def holders_ok_def nth_update)
  moreover have "waiters_ok ?t"
    using inv nos by (auto simp: sem_inv_def waiters_ok_def sl cols nth_update)
  moreover have "unlinkers_ok ?t"
  proof -
    have a: "unlinkers_ok s" using inv by (simp add: sem_inv_def)
    show ?thesis
      unfolding unlinkers_ok_def
    proof (intro conjI allI impI)
      fix p j assume c: "ctl ?t p = UnlinkWait j"
      then show "j < NSEM" using a by (simp add: unlinkers_ok_def)
      show "snd (flags (tab ?t) ! j)"
        using c a nou' [of p j] by (simp add: unlinkers_ok_def cols nth_update)
    next
      fix p assume "asleep (pt ?t) p StableChan"
      then obtain j where "ctl s p = UnlinkWait j" "refs (tab s) ! j \<noteq> 0"
        using a by (auto simp: unlinkers_ok_def sl)
      then show "\<exists>j. ctl ?t p = UnlinkWait j \<and> refs (tab ?t) ! j \<noteq> 0"
        using nou' [of p j] by (simp add: cols nth_update)
    qed (use a in \<open>simp add: unlinkers_ok_def\<close>)
  qed
  moreover have "claims_ok ?t" using inv by (simp add: sem_inv_def claims_ok_def)
  moreover have "lifecycle ?t"
    using life_descriptor [OF inv me ctl run, of "(osems (pt s) ! me)[k := Some i]"]
    by (simp add: lifecycle_life pstates_def map_update_same)
  ultimately show ?thesis by (simp add: sem_inv_def)
qed

section \<open>Changes of a counter\<close>

lemma pt_tab: "s\<lparr>pt := p, tab := t\<rparr> = s\<lparr>tab := t, pt := p\<rparr>"
  by simp

lemma counts_set_count [simp]:
  "i < length t \<Longrightarrow> counts (set_sem i (\<lambda>s. s\<lparr>s_count := f s\<rparr>) t)
     = (counts t)[i := (f (t ! i), s_maxVal (t ! i))]"
  by (simp add: set_sem_def columns map_update)

lemma counts_set_max [simp]:
  "i < length t \<Longrightarrow> counts (set_sem i (\<lambda>s. s\<lparr>s_maxVal := f s\<rparr>) t)
     = (counts t)[i := (s_count (t ! i), f (t ! i))]"
  by (simp add: set_sem_def columns map_update)

lemma count_bounds:
  assumes "sem_inv s" and "i < NSEM"
  shows "0 \<le> sint (s_count (tab s ! i))" "sint (s_count (tab s ! i)) \<le> sint (s_maxVal (tab s ! i))"
  using assms tab_len [OF assms(1)] by (simp_all add: sem_inv_def counts_ok_def tab_columns)

lemma sleeper_count:
  assumes "sem_inv s" and "i < NSEM" and "asleep (pt s) p (SemChan i)"
  shows "s_count (tab s ! i) = 0"
proof -
  have "fst (counts (tab s) ! i) = 0" using assms(1,3) by (simp add: sem_inv_def waiters_ok_def)
  then show ?thesis using assms(2) tab_len [OF assms(1)] by (simp add: tab_columns)
qed

lemma inv_set_count:
  assumes inv: "sem_inv s" and i: "i < NSEM"
    and c: "0 \<le> sint (f (tab s ! i))" "sint (f (tab s ! i)) \<le> sint (s_maxVal (tab s ! i))"
    and sl: "\<And>p. asleep (pt s) p (SemChan i) \<Longrightarrow> f (tab s ! i) = 0"
  shows "sem_inv (s\<lparr>tab := set_sem i (\<lambda>s. s\<lparr>s_count := f s\<rparr>) (tab s)\<rparr>)"
proof (rule inv_counts [OF inv])
  note len = tab_len [OF inv]
  show "wf_tab (set_sem i (\<lambda>s. s\<lparr>s_count := f s\<rparr>) (tab s))"
    using inv i by (simp add: sem_inv_def shape_def wf_set_sem)
  let ?c = "counts (set_sem i (\<lambda>s. s\<lparr>s_count := f s\<rparr>) (tab s))"
  show "0 \<le> sint (fst (?c ! j)) \<and> sint (fst (?c ! j)) \<le> sint (snd (?c ! j))" if "j < NSEM" for j
    using count_bounds [OF inv that] c that i by (cases "i = j") (simp_all add: len nth_update tab_columns)
  show "fst (?c ! j) = 0" if "asleep (pt s) p (SemChan j)" for p j
    using that sl inv i by (auto simp: len nth_update sem_inv_def waiters_ok_def)
qed simp_all

lemma inv_raise_max:
  assumes inv: "sem_inv s" and i: "i < NSEM"
  shows "sem_inv (s\<lparr>tab := sem_reset_max i m (tab s)\<rparr>)"
proof (cases "sint (s_maxVal (tab s ! i)) < sint m")
  case True
  note len = tab_len [OF inv]
  let ?t = "set_sem i (\<lambda>s. s\<lparr>s_maxVal := m\<rparr>) (tab s)"
  have "sem_inv (s\<lparr>tab := ?t\<rparr>)"
  proof (rule inv_counts [OF inv])
    show "wf_tab ?t" using inv i by (simp add: sem_inv_def shape_def wf_set_sem)
    show "0 \<le> sint (fst (counts ?t ! j)) \<and> sint (fst (counts ?t ! j)) \<le> sint (snd (counts ?t ! j))"
      if "j < NSEM" for j
      using count_bounds [OF inv that] True that i
      by (cases "i = j") (simp_all add: len nth_update tab_columns)
    show "fst (counts ?t ! j) = 0" if "asleep (pt s) p (SemChan j)" for p j
    proof -
      have "fst (counts (tab s) ! j) = 0" using that inv by (simp add: sem_inv_def waiters_ok_def)
      then show ?thesis using i by (auto simp: len nth_update tab_columns)
    qed
  qed simp_all
  with True show ?thesis by (simp add: sem_reset_max_def)
next
  case False
  with inv show ?thesis by (simp add: sem_reset_max_def)
qed

lemma inv_dec:
  assumes inv: "sem_inv s" and i: "i < NSEM" and pos: "0 < sint (s_count (tab s ! i))"
  shows "sem_inv (s\<lparr>tab := set_sem i (\<lambda>s. s\<lparr>s_count := s_count s - 1\<rparr>) (tab s)\<rparr>)"
proof (rule inv_set_count [OF inv i])
  have d: "sint (s_count (tab s ! i) - 1) = sint (s_count (tab s ! i)) - 1"
    using pos by (intro sint_dec) simp
  show "0 \<le> sint (s_count (tab s ! i) - 1)"
    "sint (s_count (tab s ! i) - 1) \<le> sint (s_maxVal (tab s ! i))"
    using d pos count_bounds [OF inv i] by linarith+
  show "s_count (tab s ! i) - 1 = 0" if "asleep (pt s) p (SemChan i)" for p
    using sleeper_count [OF inv i that] pos by simp
qed

lemma inv_post:
  assumes inv: "sem_inv s" and i: "i < NSEM" and p: "sem_post i (tab s, pt s) = (r, t, p)"
  shows "sem_inv (s\<lparr>tab := t, pt := p\<rparr>)"
proof (cases "s_count (tab s ! i) = s_maxVal (tab s ! i)")
  case True
  then have "t = tab s" "p = pt s" using p by (simp_all add: sem_post_def)
  with inv show ?thesis by simp
next
  case False
  note len = tab_len [OF inv]
  let ?c = "s_count (tab s ! i)" and ?m = "s_maxVal (tab s ! i)"
  have less: "sint ?c < sint ?m"
    using count_bounds(2) [OF inv i] False using word_eq_iff_signed [where 'a = int, of ?c ?m] by simp
  have up: "sint (?c + 1) = sint ?c + 1" using less sint_bounds [of ?m] by (intro sint_inc) simp
  let ?p = "if ?c + 1 = 1 then wakeup (SemChan i) (pt s) else pt s"
  have tp: "t = set_sem i (\<lambda>s. s\<lparr>s_count := s_count s + 1\<rparr>) (tab s)" "p = ?p"
    using p False i by (simp_all add: sem_post_def Let_def set_sem_nth len split: if_splits)
  have "sem_inv (s\<lparr>pt := p\<rparr>)" using inv by (rule inv_only_wakes) (simp add: tp(2))
  then have "sem_inv ((s\<lparr>pt := p\<rparr>)\<lparr>tab := set_sem i (\<lambda>s. s\<lparr>s_count := s_count s + 1\<rparr>) (tab (s\<lparr>pt := p\<rparr>))\<rparr>)"
  proof (rule inv_set_count [OF _ i])
    show "0 \<le> sint (s_count (tab (s\<lparr>pt := p\<rparr>) ! i) + 1)"
      "sint (s_count (tab (s\<lparr>pt := p\<rparr>) ! i) + 1) \<le> sint (s_maxVal (tab (s\<lparr>pt := p\<rparr>) ! i))"
      using up less count_bounds(1) [OF inv i] by simp_all
    fix q assume q: "asleep (pt (s\<lparr>pt := p\<rparr>)) q (SemChan i)"
    then have "?c + 1 \<noteq> 1" "asleep (pt s) q (SemChan i)"
      by (auto simp: tp(2) asleep_wakeup split: if_splits)
    then show "s_count (tab (s\<lparr>pt := p\<rparr>) ! i) + 1 = 0" using sleeper_count [OF inv i] by simp
  qed
  then show ?thesis by (simp add: tp(1) pt_tab)
qed

lemma inv_reset_val:
  assumes inv: "sem_inv s" and i: "i < NSEM" and v: "sint v \<le> sint (s_maxVal (tab s ! i))"
    and p: "sem_reset_val i v (tab s, pt s) = (t, p)"
  shows "sem_inv (s\<lparr>tab := t, pt := p\<rparr>)"
proof (cases "0 \<le> sint v")
  case False
  then have "t = tab s" "p = pt s" using p by (simp_all add: sem_reset_val_def)
  with inv show ?thesis by simp
next
  case True
  note len = tab_len [OF inv]
  let ?p = "if 0 < sint v \<and> s_count (tab s ! i) = 0 then wakeup (SemChan i) (pt s) else pt s"
  have tp: "t = set_sem i (\<lambda>s. s\<lparr>s_count := v\<rparr>) (tab s)" "p = ?p"
    using p True by (simp_all add: sem_reset_val_def Let_def split: if_splits)
  have "sem_inv (s\<lparr>pt := p\<rparr>)" using inv by (rule inv_only_wakes) (simp add: tp(2))
  then have "sem_inv ((s\<lparr>pt := p\<rparr>)\<lparr>tab := set_sem i (\<lambda>s. s\<lparr>s_count := v\<rparr>) (tab (s\<lparr>pt := p\<rparr>))\<rparr>)"
  proof (rule inv_set_count [OF _ i])
    fix q assume q: "asleep (pt (s\<lparr>pt := p\<rparr>)) q (SemChan i)"
    then have a: "\<not> (0 < sint v \<and> s_count (tab s ! i) = 0)" "asleep (pt s) q (SemChan i)"
      by (auto simp: tp(2) asleep_wakeup split: if_splits)
    then have "sint v = 0" using sleeper_count [OF inv i] True by force
    then show "v = 0" using signed_eq_0_iff [where 'a = int, of v] by blast
  qed (use True v in simp_all)
  then show ?thesis by (simp add: tp(1) pt_tab)
qed

section \<open>Every step\<close>

lemma osem_of:
  assumes inv: "sem_inv s" and me: "me < length (procs (pt s))"
  shows "osems (pt s) ! me = p_osem (proc_at (pt s) me)"
    and "Some i \<in> set (p_osem (proc_at (pt s) me)) \<Longrightarrow> i < NSEM"
  using assms osem_nth(2) [OF inv me] by (simp_all add: osems_nth)

lemma holder_bound: "sem_inv s \<Longrightarrow> uses (ctl s p) = Some i \<Longrightarrow> i < NSEM"
  using osem_nth(2) by (fastforce simp: sem_inv_def holders_ok_def)

lemma is_open_bound:
  assumes "sem_inv s" and "scan (is_open n) (tab s) = Some i"
  shows "i < NSEM" "0 < sint (s_ref (tab s ! i))"
  using scan_Some [OF assms(2)] tab_len [OF assms(1)] by (simp_all add: is_open_def)

lemma tab_same [simp]: "s\<lparr>tab := tab s\<rparr> = s"
  by simp

lemma inv_call_open:
  assumes inv: "sem_inv s" and me: "me < length (procs (pt s))" and ctl: "ctl s me = User"
    and run: "p_state (proc_at (pt s) me) = RUNNING" and free: "has_free_desc me s"
    and rd: "readable n SEMNAME" and st: "call_step me (COpen n v m) s = Inr t"
  shows "sem_inv t"
proof -
  have wf: "\<forall>x \<in> set (tab s). wf_sem x" using inv by (simp add: sem_inv_def shape_def wf_tab_def)
  note find = sem_open_find_spec [OF wf rd]
  show ?thesis
  proof (cases "scan (is_open n) (tab s)")
    case (Some i)
    then have "t = open_done me i (s\<lparr>tab := semdup i (tab s)\<rparr>)"
      using st by (simp add: call_step_def find Let_def)
    then show ?thesis
      using inv_open_match [OF inv me ctl run free is_open_bound [OF inv Some]] by simp
  next
    case None
    show ?thesis
    proof (cases "scan (\<lambda>s. \<not> linked s) (tab s)")
      case None': None
      then have "t = finish me (-1) s" using st None by (simp add: call_step_def find Let_def)
      then show ?thesis using inv by (simp add: goto_User_same ctl)
    next
      case (Some i)
      then have t: "t = goto me (Claiming n v m i) s"
        using st None by (simp add: call_step_def find Let_def)
      have "i < NSEM" using scan_Some_less [OF Some] tab_len [OF inv] by simp
      then show ?thesis
        unfolding t using inv me run rd by (intro inv_goto) (simp_all add: pstates_nth may_be_at_def)
    qed
  qed
qed

lemma inv_call_close:
  assumes inv: "sem_inv s" and me: "me < length (procs (pt s))" and ctl: "ctl s me = User"
    and run: "p_state (proc_at (pt s) me) = RUNNING"
    and sd: "sd < NOSEM" "p_osem (proc_at (pt s) me) ! sd = Some i"
    and st: "call_step me (CClose sd i) s = Inr t"
  shows "sem_inv t"
proof -
  have d: "osems (pt s) ! me ! sd = Some i" using sd me by (simp add: osems_nth)
  have l: "length (osems (pt s) ! me) = NOSEM" by (rule osem_nth(1) [OF inv me])
  have "Some i \<in> set (osems (pt s) ! me)" using d sd(1) l by (metis nth_mem)
  then have i: "i < length (tab s)" using osem_nth(2) [OF inv me] tab_len [OF inv] by simp
  have t: "t = finish me 0 (s\<lparr>tab := drop_ref i (tab s),
      pt := clear_sem me sd (close_wakes i (tab s) (pt s))\<rparr>)"
    using st by (simp add: call_step_def sem_close_eq [OF i] close_wakes_clear)
  let ?w = "close_wakes i (tab s) (pt s)"
  have "sem_inv (s\<lparr>pt := ?w\<rparr>)" using inv by (rule inv_only_wakes) simp
  moreover have "p_state (proc_at ?w me) = RUNNING" "me < length (procs ?w)"
    using run me by (simp_all add: close_wakes_def wakeup_nth)
  ultimately have "life (length (procs ?w)) (pstates ?w) ((osems ?w)[me := (osems ?w ! me)[sd := None]]) (ctl s)"
    using life_descriptor [of "s\<lparr>pt := ?w\<rparr>" me] ctl by simp
  then have "lifecycle (s\<lparr>tab := drop_ref i (tab s), pt := clear_sem me sd ?w\<rparr>)"
    by (simp add: lifecycle_life clear_sem_def pstates_def map_update_same)
  then show ?thesis
    unfolding t using inv_close [OF inv me sd(1) d] ctl by (simp add: goto_User_same)
qed

lemma inv_call:
  assumes inv: "sem_inv s" and en: "enabled me (Call c) s" and cl: "clean me (Call c) s"
    and st: "call_step me c s = Inr t"
  shows "sem_inv t"
proof -
  have me: "me < length (procs (pt s))" and run: "p_state (proc_at (pt s) me) = RUNNING"
    and ctl: "ctl s me = User" and ok: "call_ok (proc_at (pt s) me) c"
    using en by (simp_all add: enabled_def Let_def)
  have go: "may_be_at me c' s \<Longrightarrow> sem_inv (goto me c' s)" for c'
    using inv me run by (intro inv_goto) (simp_all add: pstates_nth)
  have fin: "sem_inv (finish me r s)" for r using inv by (simp add: goto_User_same ctl)
  show ?thesis
  proof (cases c)
    case (COpen n v m)
    then show ?thesis
      using inv_call_open [OF inv me ctl run] cl ok st by (simp add: clean_def)
  next
    case (CClose sd i)
    then show ?thesis using inv_call_close [OF inv me ctl run, of sd i t] ok st by simp
  next
    case (CWait i)
    then show ?thesis
      using st ok go osem_of(1) [OF inv me] by (auto simp: call_step_def may_be_at_def)
  next
    case (CTryWait i)
    then have i: "i < NSEM" using ok osem_of(2) [OF inv me] by simp
    show ?thesis
      using st CTryWait inv inv_dec [OF inv i] ctl
      by (auto simp: call_step_def sem_try_wait_def goto_User_same split: if_splits)
  next
    case (CPost i)
    then have i: "i < NSEM" using ok osem_of(2) [OF inv me] by simp
    obtain r t' p' where p: "sem_post i (tab s, pt s) = (r, t', p')" by (rule prod_cases3)
    show ?thesis
      using st CPost inv_post [OF inv i p] ctl by (auto simp: call_step_def p goto_User_same)
  next
    case (CReset i v m)
    then show ?thesis
      using st ok go fin osem_of(1) [OF inv me]
      by (auto simp: call_step_def may_be_at_def split: if_splits)
  next
    case (CUnlink n)
    have wf: "\<forall>x \<in> set (tab s). wf_sem x" using inv by (simp add: sem_inv_def shape_def wf_tab_def)
    have "scan (\<lambda>x. sem_key x = key_of n) (tab s) = Some i \<Longrightarrow> i < NSEM" for i
      using scan_Some_less tab_len [OF inv] by metis
    then show ?thesis
      using st CUnlink ok go fin unlink_scan_spec [OF wf, of n 0]
      by (auto simp: call_step_def may_be_at_def split: option.splits)
  qed
qed

lemma inv_tidy: "sem_inv s \<Longrightarrow> sem_inv (tidy me s)"
  unfolding tidy_def by (rule inv_only_wakes [OF _ wakes_sleep_end])

lemma tidy_fields [simp]:
  "tab (tidy me s) = tab s" "ctl (tidy me s) = ctl s" "length (procs (pt (tidy me s))) = length (procs (pt s))"
  "p_state (proc_at (pt (tidy me s)) j) = p_state (proc_at (pt s) j)"
  "p_killed (proc_at (pt (tidy me s)) j) = p_killed (proc_at (pt s) j)"
  "p_parent (proc_at (pt (tidy me s)) j) = p_parent (proc_at (pt s) j)"
  by (auto simp: tidy_def sleep_end_def nth_update)

lemma inv_go_wait:
  assumes inv: "sem_inv s" and me: "me < length (procs (pt s))"
    and run: "p_state (proc_at (pt s) me) = RUNNING" and ctl: "ctl s me = Waiting i"
  shows "sem_inv (finish_round me (sem_wait_round me i (tab s, pt s)) s)"
proof -
  have i: "i < NSEM" using holder_bound [OF inv, of me i] ctl by simp
  have fin: "sem_inv s' \<Longrightarrow> pt s' = pt s \<Longrightarrow> sem_inv (goto me User s')" for s'
    using me run by (intro inv_goto) (simp_all add: pstates_nth may_be_at_def)
  show ?thesis
  proof (cases "0 < sint (s_count (tab s ! i))")
    case True
    then show ?thesis using fin [OF inv_dec [OF inv i True]] by (simp add: sem_wait_round_def finish_round_def)
  next
    case False
    then have "sint (s_count (tab s ! i)) = 0" using count_bounds(1) [OF inv i] by simp
    then have "s_count (tab s ! i) = 0" using signed_eq_0_iff [where 'a = int, of "s_count (tab s ! i)"] by blast
    then have "may_sleep_on me (SemChan i) s"
      using ctl i tab_len [OF inv] by (simp add: may_sleep_on_def tab_columns)
    then have "sem_inv (s\<lparr>pt := sleep_begin me (SemChan i) (pt s)\<rparr>)"
      using inv me run by (intro inv_sleep) (simp_all add: pstates_nth)
    then show ?thesis
      using False fin [OF inv] by (simp add: sem_wait_round_def finish_round_def)
  qed
qed

lemma inv_go_unlink:
  assumes inv: "sem_inv s" and me: "me < length (procs (pt s))"
    and run: "p_state (proc_at (pt s) me) = RUNNING" and ctl: "ctl s me = UnlinkWait i"
  shows "sem_inv (finish_round me (sem_unlink_round me i (tab s, pt s)) s)"
proof -
  have i: "i < NSEM" using inv ctl by (simp add: sem_inv_def unlinkers_ok_def)
  have ref: "refs (tab s) ! i = s_ref (tab s ! i)" using i tab_len [OF inv] by (simp add: tab_columns)
  have fin: "sem_inv s' \<Longrightarrow> pt s' = pt s \<Longrightarrow> sem_inv (goto me User s')" for s'
    using me run by (intro inv_goto) (simp_all add: pstates_nth may_be_at_def)
  show ?thesis
  proof (cases "s_ref (tab s ! i) = 0")
    case True
    then show ?thesis
      using fin [OF inv_unlinked [OF inv i]] ref by (simp add: sem_unlink_round_def finish_round_def)
  next
    case False
    then have "may_sleep_on me StableChan s" using ctl ref by (simp add: may_sleep_on_def)
    then have "sem_inv (s\<lparr>pt := sleep_begin me StableChan (pt s)\<rparr>)"
      using inv me run by (intro inv_sleep) (simp_all add: pstates_nth)
    then show ?thesis
      using False fin [OF inv] by (simp add: sem_unlink_round_def finish_round_def)
  qed
qed

lemma inv_go_claim:
  assumes inv: "sem_inv s" and me: "me < length (procs (pt s))"
    and run: "p_state (proc_at (pt s) me) = RUNNING" and ctl: "ctl s me = Claiming n v m i"
    and cl: "clean me Go s" and st: "go_step me s = Inr t"
  shows "sem_inv t"
proof -
  from cl ctl have free: "has_free_desc me s" and lnk: "\<not> linked (tab s ! i)"
    and v: "0 \<le> sint v" "sint v \<le> sint m"
    and nou: "\<And>p. p < length (procs (pt s)) \<Longrightarrow> \<not> unlinks i (ctl s p)"
    by (simp_all add: clean_def)
  have rd: "readable n SEMNAME" and i: "i < NSEM" using inv ctl by (simp_all add: sem_inv_def claims_ok_def)
  have wf: "wf_sem (tab s ! i)" using inv i by (simp add: sem_inv_def shape_def wf_tab_nth)
  obtain s' where s': "sem_open_claim n v m (p_pid (proc_at (pt s) me)) i (tab s) = Inr ((tab s)[i := s'])"
    "wf_sem s'" "linked s'" "s_ref s' = 1" "s_count s' = v" "s_maxVal s' = m" "\<not> waitingForDeath s'"
    using sem_open_claim_spec [OF wf rd, of v m "p_pid (proc_at (pt s) me)"] by blast
  obtain sd where sd: "sd < length (p_osem (proc_at (pt s) me))" "p_osem (proc_at (pt s) me) ! sd = None"
    and so: "store_sem me i (pt s) =
      (int sd, set_proc me (\<lambda>p. p\<lparr>p_osem := (p_osem p)[sd := Some i]\<rparr>) (pt s))"
    by (rule store_sem_free [OF free [unfolded has_free_desc_def], where i = i])
  let ?s = "goto me User s"
  have inv1: "sem_inv ?s"
    using inv me run by (intro inv_goto) (simp_all add: pstates_nth may_be_at_def)
  have nou': "\<not> unlinks i (ctl ?s p)" for p
    using nou [of p] life_live [OF inv, of p] by (cases "ctl s p") auto
  have k: "sd < NOSEM" "osems (pt s) ! me ! sd = None"
    using sd osem_nth(1) [OF inv me] me by (simp_all add: osems_nth)
  have "sem_inv (?s\<lparr>tab := (tab ?s)[i := s'],
      pt := set_proc me (\<lambda>p. p\<lparr>p_osem := (p_osem p)[sd := Some i]\<rparr>) (pt ?s)\<rparr>)"
    by (rule inv_claim [OF inv1]) (use me run k i lnk v nou' s' in simp_all)
  moreover have "t = finish me (int sd) (s\<lparr>tab := (tab s)[i := s'],
      pt := set_proc me (\<lambda>p. p\<lparr>p_osem := (p_osem p)[sd := Some i]\<rparr>) (pt s)\<rparr>)"
    using st ctl s'(1) so by (simp add: go_step_def open_done_def)
  ultimately show ?thesis by (simp add: goto_tab_pt)
qed

lemma inv_go_reset:
  assumes inv: "sem_inv s" and me: "me < length (procs (pt s))"
    and run: "p_state (proc_at (pt s) me) = RUNNING" and ctl: "ctl s me = ResetVal i v m"
    and cl: "clean me Go s" and st: "go_step me s = Inr t"
  shows "sem_inv t"
proof -
  have i: "i < NSEM" using holder_bound [OF inv, of me i] ctl by simp
  obtain t' p' where p: "sem_reset_val i v (tab s, pt s) = (t', p')" by (rule prod.exhaust)
  have v: "sint v \<le> sint (s_maxVal (tab s ! i))" using cl ctl by (simp add: clean_def)
  have inv1: "sem_inv (s\<lparr>tab := t', pt := p'\<rparr>)" by (rule inv_reset_val [OF inv i v p])
  have p': "p' = pt s \<or> p' = wakeup (SemChan i) (pt s)"
    using p by (auto simp: sem_reset_val_def Let_def split: if_splits)
  then have r: "me < length (procs p')" "p_state (proc_at p' me) = RUNNING" "osems p' = osems (pt s)"
    using me run by (auto simp: wakeup_nth)
  have h: "Some i \<in> set (osems (pt s) ! me)" using inv ctl by (simp add: sem_inv_def holders_ok_def)
  have "sem_inv (goto me (ResetMax i m) (s\<lparr>tab := t', pt := p'\<rparr>))"
    using inv1 r h by (intro inv_goto) (simp_all add: pstates_nth may_be_at_def)
  then show ?thesis using st ctl by (simp add: go_step_def p)
qed

lemma inv_go:
  assumes inv: "sem_inv s" and en: "enabled me Go s" and cl: "clean me Go s"
    and st: "go_step me s = Inr t"
  shows "sem_inv t"
proof -
  have me: "me < length (procs (pt s))" and run: "p_state (proc_at (pt s) me) = RUNNING"
    and act: "ctl s me \<noteq> User" "ctl s me \<noteq> Dead"
    using en by (simp_all add: enabled_def Let_def)
  have fin: "sem_inv s' \<Longrightarrow> length (procs (pt s')) = length (procs (pt s)) \<Longrightarrow>
      p_state (proc_at (pt s') me) = RUNNING \<Longrightarrow> may_be_at me c s' \<Longrightarrow> sem_inv (goto me c s')" for s' c
    using me by (intro inv_goto) (simp_all add: pstates_nth)
  have os: "osems (pt s) ! me = p_osem (proc_at (pt s) me)" by (rule osem_of [OF inv me])
  show ?thesis
  proof (cases "ctl s me")
    case (Claiming n v m i)
    then show ?thesis using inv_go_claim [OF inv me run _ cl st] by simp
  next
    case (Waiting i)
    then show ?thesis
      using inv_go_wait [OF inv_tidy [OF inv, of me], of me i] me run st by (simp add: go_step_def Let_def)
  next
    case (ResetVal i v m)
    then show ?thesis using inv_go_reset [OF inv me run _ cl st] by simp
  next
    case (ResetMax i m)
    then have "i < NSEM" using holder_bound [OF inv, of me i] by simp
    then show ?thesis
      using ResetMax st fin [OF inv_raise_max [OF inv, of i m], of User] run
      by (auto simp: go_step_def may_be_at_def)
  next
    case (Unlinking i)
    then have i: "i < NSEM" using inv by (simp add: sem_inv_def unlinkers_ok_def)
    let ?s = "goto me (UnlinkWait i) (s\<lparr>tab := sem_unlink_mark i (tab s)\<rparr>)"
    have "sem_inv ?s" using fin [OF inv_mark(1) [OF inv i]] inv_mark(2) [OF inv i] run i
      by (simp add: may_be_at_def)
    then show ?thesis
      using Unlinking st inv_go_unlink [of ?s me i] me run by (simp add: go_step_def Let_def)
  next
    case (UnlinkWait i)
    then show ?thesis
      using inv_go_unlink [OF inv_tidy [OF inv, of me], of me i] me run st by (simp add: go_step_def Let_def)
  next
    case (Forking c k)
    have t: "t = fork_step me c k s" using Forking st by (simp add: go_step_def)
    show ?thesis
    proof (cases "k < NOSEM")
      case True
      then show ?thesis
        using inv_fork_goto [OF inv Forking run] inv_fork_copy [OF inv me Forking run True]
        by (auto simp: t fork_step_def os split: option.split)
    next
      case False
      have "goto me User (finish c 0 s') = (goto me User (goto c User s'))\<lparr>ret := (ret s')(c := 0)\<rparr>" for s'
        by (simp add: goto_def finish_def)
      then show ?thesis
        using False inv_fork_finish [OF inv me Forking run] by (simp add: t fork_step_def Let_def)
    qed
  next
    case (Exiting k)
    have t: "t = exit_step me k s" using Exiting st by (simp add: go_step_def)
    show ?thesis
    proof (cases "k < NOSEM")
      case True
      show ?thesis
      proof (cases "p_osem (proc_at (pt s) me) ! k")
        case None
        then show ?thesis using inv_exit_goto [OF inv me Exiting run] True by (simp add: t exit_step_def os)
      next
        case (Some i)
        have "p_osem (proc_at (pt s) me) ! k \<in> set (p_osem (proc_at (pt s) me))"
          using True osem_nth(1) [OF inv me] os by simp
        then have i: "i < length (tab s)" using Some osem_of(2) [OF inv me] tab_len [OF inv] by simp
        then show ?thesis
          using inv_exit_close [OF inv me Exiting run True] True Some
          by (simp add: t exit_step_def os sem_close_eq)
      qed
    next
      case False
      then show ?thesis using inv_exit_finish [OF inv me Exiting run] by (simp add: t exit_step_def)
    qed
  next
    case InWait
    let ?s = "tidy me s"
    have inv1: "sem_inv ?s" by (rule inv_tidy [OF inv])
    have fin1: "sem_inv (finish me r ?s)" for r using fin [OF inv1] run by (simp add: may_be_at_def)
    have t: "t = wait_round me ?s" using InWait st by (simp add: go_step_def)
    show ?thesis
    proof (cases "wait_find me (pt ?s)")
      case (Reap j)
      then have j: "scan (\<lambda>p. p_parent p = Some me \<and> p_state p = ZOMBIE) (procs (pt ?s)) = Some j"
        by (auto simp: wait_find_def split: option.splits if_splits)
      then show ?thesis
        using inv_reap [OF inv1, of me j] me run scan_Some [OF j] Reap by (simp add: t wait_round_def)
    next
      case NoKids
      then show ?thesis using fin1 by (simp add: t wait_round_def)
    next
      case KidsRunning
      have "sem_inv (?s\<lparr>pt := sleep_begin me (ProcChan me) (pt ?s)\<rparr>)"
        using inv1 me run by (intro inv_sleep) (simp_all add: pstates_nth may_sleep_on_def)
      then show ?thesis using KidsRunning fin1 by (simp add: t wait_round_def)
    qed
  qed (use act in simp_all)
qed

theorem step_inv:
  assumes inv: "sem_inv s" and cl: "clean me a s" and st: "sem_step s me a t"
  shows "sem_inv t"
proof -
  from st have en: "enabled me a s" and ac: "act me a s = Inr t" by (simp_all add: sem_step_iff)
  have me: "me < length (procs (pt s))" using en by (simp add: enabled_def)
  show ?thesis
  proof (cases a)
    case (Call c)
    then show ?thesis using inv_call [OF inv, of me c t] en cl ac by (simp add: act_def)
  next
    case Go
    then show ?thesis using inv_go [OF inv, of me t] en cl ac by (simp add: act_def)
  next
    case Fork
    have run: "p_state (proc_at (pt s) me) = RUNNING" "ctl s me = User"
      using en Fork by (simp_all add: enabled_def Let_def)
    obtain r p where al: "alloc_slot (pt s) = (r, p)" by (rule prod.exhaust)
    show ?thesis
    proof (cases r)
      case None
      then show ?thesis using ac Fork al inv run by (auto simp: act_def fork_begin_def goto_User_same)
    next
      case (Some c)
      then show ?thesis
        using ac Fork al inv_fork_begin [OF inv me run, of c p] by (simp add: act_def fork_begin_def)
    qed
  next
    case Exit
    have run: "p_state (proc_at (pt s) me) = RUNNING" using en Exit by (simp add: enabled_def Let_def)
    have "sem_inv (goto me (Exiting 0) s)"
      using inv me run by (intro inv_goto) (simp_all add: pstates_nth may_be_at_def no_sems_def)
    then show ?thesis using ac Exit by (auto simp: act_def split: if_splits)
  next
    case Wait
    have run: "p_state (proc_at (pt s) me) = RUNNING" using en Wait by (simp add: enabled_def Let_def)
    have "sem_inv (goto me InWait s)"
      using inv me run by (intro inv_goto) (simp_all add: pstates_nth may_be_at_def)
    then show ?thesis using ac Wait by (simp add: act_def)
  next
    case (Kill pid)
    have run: "ctl s me = User" using en Kill by (simp add: enabled_def Let_def)
    obtain r p where k: "kill pid (pt s) = (r, p)" by (rule prod.exhaust)
    have "sem_inv (s\<lparr>pt := p\<rparr>)"
      using inv_only_wakes [OF inv wakes_kill [of "pt s" pid]] by (simp add: k)
    then show ?thesis using ac Kill k run by (auto simp: act_def goto_User_same)
  next
    case Run
    then show ?thesis
      using ac en inv_only_wakes [OF inv wakes_run] by (auto simp: act_def enabled_def Let_def)
  next
    case Preempt
    then show ?thesis
      using ac en inv_only_wakes [OF inv wakes_yield] by (auto simp: act_def enabled_def Let_def)
  qed
qed

end
