(* ===== verification/Sem_Properties.thy ===== *)
theory Sem_Properties
  imports Sem_Runs
begin

text \<open>
  Runs of the semaphore system from boot, and what its invariant says about them.
\<close>

section \<open>Boot\<close>

text \<open>The state after \<open>userinit\<close>: the first process is ready. The table has \<open>n\<close> entries.\<close>

definition boot :: "nat \<Rightarrow> semsys" where
  "boot n = \<lparr>tab = stable0,
     pt = \<lparr>procs = (replicate n zero_proc)[0 := zero_proc\<lparr>p_state := RUNNABLE, p_pid := 1\<rparr>],
       initproc = Some 0, nextpid = 2\<rparr>,
     ctl = (\<lambda>_. User), ret = (\<lambda>_. 0)\<rparr>"

lemma desc_none: "(\<And>ds. ds \<in> set os \<Longrightarrow> no_sems ds) \<Longrightarrow> desc os i = 0"
  by (induction os) (auto simp: desc_def no_sems_def filter_empty_conv)

lemma boot_inv: "n \<le> NPROC \<Longrightarrow> sem_inv (boot n)"
proof -
  assume n: "n \<le> NPROC"
  have os: "osems (pt (boot n)) = replicate n (replicate NOSEM None)"
    by (cases n) (simp_all add: boot_def osems_def zero_proc_def map_update)
  have none: "no_sems ds" if "ds \<in> set (osems (pt (boot n)))" for ds
    using that by (simp add: os no_sems_def)
  have len: "length (procs (pt (boot n))) = n" by (simp add: boot_def)
  have cols: "refs stable0 = replicate NSEM 0" "counts stable0 = replicate NSEM (0, 0)"
    "flags stable0 = replicate NSEM (False, False)"
    by (simp_all add: columns stable0_def zero_sem_def)
  have tab: "tab (boot n) = stable0" and ctl: "ctl (boot n) = (\<lambda>_. User)" by (simp_all add: boot_def)
  have aw: "\<not> asleep (pt (boot n)) p ch" for p ch
    by (auto simp: asleep_def boot_def zero_proc_def nth_update)
  have sh: "shape (boot n)" by (auto simp: shape_def tab len os n)
  have re: "refs_exact (boot n)" by (simp add: refs_exact_def tab cols desc_none [OF none])
  have rest: "slots_ok (boot n)" "counts_ok (boot n)" "holders_ok (boot n)"
    "waiters_ok (boot n)" "unlinkers_ok (boot n)" "claims_ok (boot n)"
    by (simp_all add: inv_parts tab cols ctl aw)
  have li: "lifecycle (boot n)"
    by (simp add: lifecycle_def ctl len os no_sems_def)
  show ?thesis using sh re rest li by (simp add: sem_inv_def)
qed

section \<open>Clean runs\<close>

text \<open>A run from \<open>s\<close> to \<open>t\<close>: the list has each step's process and action and the state it starts in.\<close>

inductive clean_run :: "semsys \<Rightarrow> (semsys \<times> nat \<times> action) list \<Rightarrow> semsys \<Rightarrow> bool" where
  start: "clean_run s [] s"
| more: "clean_run s es u \<Longrightarrow> sem_step u me a t \<Longrightarrow> clean me a u \<Longrightarrow> clean_run s (es @ [(u, me, a)]) t"

definition clean_reachable :: "nat \<Rightarrow> semsys \<Rightarrow> bool" where
  "clean_reachable n s \<longleftrightarrow> n \<le> NPROC \<and> (\<exists>es. clean_run (boot n) es s)"

lemma run_inv: "clean_run s es t \<Longrightarrow> sem_inv s \<Longrightarrow> sem_inv t"
  by (induction rule: clean_run.induct) (auto intro: step_inv)

lemma reachable_inv: "clean_reachable n s \<Longrightarrow> sem_inv s"
  unfolding clean_reachable_def using run_inv boot_inv by blast

text \<open>Executing a schedule.\<close>

fun play :: "(nat \<times> action) list \<Rightarrow> semsys \<Rightarrow> semsys res" where
  "play [] s = Inr s"
| "play ((me, a) # sched) s =
     (if enabled me a s then bindE (act me a s) (\<lambda>t. play sched t) else Inl BadAccess)"

fun play_clean :: "(nat \<times> action) list \<Rightarrow> semsys \<Rightarrow> bool" where
  "play_clean [] s = True"
| "play_clean ((me, a) # sched) s =
     (clean me a s \<and> (case act me a s of Inl e \<Rightarrow> False | Inr t \<Rightarrow> play_clean sched t))"

lemma clean_run_Cons: "clean_run u es t \<Longrightarrow> sem_step s me a u \<Longrightarrow> clean me a s \<Longrightarrow>
   clean_run s ((s, me, a) # es) t"
proof (induction rule: clean_run.induct)
  case (start s')
  then show ?case using clean_run.more [OF clean_run.start] by fastforce
next
  case (more s' es u me' a' t)
  then show ?case using clean_run.more by fastforce
qed

lemma play_run: "play sched s = Inr t \<Longrightarrow> play_clean sched s \<Longrightarrow> \<exists>es. clean_run s es t"
proof (induction sched arbitrary: s)
  case Nil
  then show ?case using clean_run.start by auto
next
  case (Cons x sched)
  obtain me a where x: "x = (me, a)" by (rule prod.exhaust)
  from Cons.prems x obtain u where en: "enabled me a s" and u: "act me a s = Inr u" "play sched u = Inr t"
    by (auto split: if_splits)
  with Cons.prems x have c: "clean me a s" "play_clean sched u" by auto
  obtain es where "clean_run u es t" using Cons.IH [OF u(2) c(2)] by blast
  with clean_run_Cons [OF this _ c(1)] en u(1) show ?case by (auto simp: sem_step_iff)
qed

lemma play_reachable: "n \<le> NPROC \<Longrightarrow> play sched (boot n) = Inr t \<Longrightarrow> play_clean sched (boot n) \<Longrightarrow>
   clean_reachable n t"
  unfolding clean_reachable_def using play_run by blast

section \<open>Tokens\<close>

text \<open>
  Which steps take a token from semaphore \<open>i\<close>, which put one in, and which set its
  counter outright.
\<close>

definition takes :: "nat \<Rightarrow> semsys \<times> nat \<times> action \<Rightarrow> bool" where
  "takes i = (\<lambda>(s, me, a). 0 < sint (s_count (tab s ! i)) \<and>
     (a = Go \<and> ctl s me = Waiting i \<or> a = Call (CTryWait i)))"

definition gives :: "nat \<Rightarrow> semsys \<times> nat \<times> action \<Rightarrow> bool" where
  "gives i = (\<lambda>(s, me, a). a = Call (CPost i) \<and> s_count (tab s ! i) \<noteq> s_maxVal (tab s ! i))"

definition sets :: "nat \<Rightarrow> semsys \<times> nat \<times> action \<Rightarrow> bool" where
  "sets i = (\<lambda>(s, me, a). a = Go \<and>
     (case ctl s me of Claiming n v m j \<Rightarrow> j = i | ResetVal j v m \<Rightarrow> j = i | _ \<Rightarrow> False))"

definition cnt :: "nat \<Rightarrow> semsys \<Rightarrow> int" where
  "cnt i s = sint (s_count (tab s ! i))"

lemma s_count_set_sem:
  "s_count (set_sem j f t ! i) = (if i = j \<and> j < length t then s_count (f (t ! j)) else s_count (t ! i))"
  by (auto simp: set_sem_def nth_update)

lemma finish_round_tab [simp]: "tab (finish_round me r s) = fst (snd r)"
  by (simp add: finish_round_def Let_def split: prod.split outcome.split)

lemma open_done_tab [simp]: "tab (open_done me i s) = tab s"
  by (simp add: open_done_def split: prod.split)

lemma call_count:
  assumes inv: "sem_inv s" and en: "enabled me (Call c) s" and st: "call_step me c s = Inr t"
    and i: "i < NSEM"
  shows "cnt i t = cnt i s - (if takes i (s, me, Call c) then 1 else 0)
    + (if gives i (s, me, Call c) then 1 else 0)"
proof -
  note len = tab_len [OF inv]
  have wf: "\<forall>x \<in> set (tab s). wf_sem x" using inv by (simp add: sem_inv_def shape_def wf_tab_def)
  have ok: "call_ok (proc_at (pt s) me) c" using en by (simp add: enabled_def Let_def)
  have nt: "\<not> takes i (s, me, Call c) \<and> \<not> gives i (s, me, Call c) \<Longrightarrow>
      s_count (tab t ! i) = s_count (tab s ! i) \<Longrightarrow> ?thesis"
    by (simp add: cnt_def)
  show ?thesis
  proof (cases c)
    case (COpen n v m)
    have "s_count (tab t ! i) = s_count (tab s ! i)"
      using st COpen ok sem_open_find_spec [OF wf, of n]
      by (auto simp: call_step_def Let_def semdup_def s_count_set_sem split: option.splits)
    then show ?thesis by (intro nt) (auto simp: COpen takes_def gives_def)
  next
    case (CClose sd j)
    have "s_count (tab t ! i) = s_count (tab s ! i)"
      using st CClose by (auto simp: call_step_def sem_close_def Let_def s_count_set_sem)
    then show ?thesis by (intro nt) (auto simp: CClose takes_def gives_def)
  next
    case (CTryWait j)
    show ?thesis
    proof (cases "j = i \<and> 0 < sint (s_count (tab s ! i))")
      case True
      then have "sint (s_count (tab s ! i) - 1) = sint (s_count (tab s ! i)) - 1"
        by (intro sint_dec) simp
      then show ?thesis
        using st CTryWait True i len
        by (auto simp: call_step_def sem_try_wait_def cnt_def takes_def gives_def s_count_set_sem)
    next
      case False
      then show ?thesis
        using st CTryWait
        by (intro nt) (auto simp: call_step_def sem_try_wait_def takes_def gives_def s_count_set_sem
            split: if_splits)
    qed
  next
    case (CPost j)
    show ?thesis
    proof (cases "j = i \<and> s_count (tab s ! i) \<noteq> s_maxVal (tab s ! i)")
      case True
      have "sint (s_count (tab s ! i)) < sint (s_maxVal (tab s ! i))"
        using count_bounds(2) [OF inv i] True
          word_eq_iff_signed [where 'a = int, of "s_count (tab s ! i)" "s_maxVal (tab s ! i)"] by simp
      then have "sint (s_count (tab s ! i) + 1) = sint (s_count (tab s ! i)) + 1"
        using sint_bounds [of "s_maxVal (tab s ! i)"] by (intro sint_inc) simp
      then show ?thesis
        using st CPost True i len
        by (auto simp: call_step_def sem_post_def Let_def cnt_def takes_def gives_def s_count_set_sem)
    next
      case False
      then show ?thesis
        using st CPost
        by (intro nt) (auto simp: call_step_def sem_post_def Let_def takes_def gives_def s_count_set_sem
            split: if_splits)
    qed
  next
    case (CWait j)
    then show ?thesis using st by (intro nt) (auto simp: call_step_def takes_def gives_def)
  next
    case (CReset j v m)
    then show ?thesis using st by (intro nt) (auto simp: call_step_def takes_def gives_def split: if_splits)
  next
    case (CUnlink n)
    then show ?thesis
      using st by (intro nt) (auto simp: call_step_def takes_def gives_def split: option.splits)
  qed
qed

lemma claim_count:
  assumes "sem_open_claim n v m pid j t = Inr t'" and "i \<noteq> j"
  shows "t' ! i = t ! i"
  using assms by (auto simp: sem_open_claim_def Let_def)

lemma go_count:
  assumes inv: "sem_inv s" and st: "go_step me s = Inr t"
    and ns: "\<not> sets i (s, me, Go)" and i: "i < NSEM"
  shows "cnt i t = cnt i s - (if takes i (s, me, Go) then 1 else 0)"
proof -
  note len = tab_len [OF inv]
  have nt: "\<not> takes i (s, me, Go) \<Longrightarrow> s_count (tab t ! i) = s_count (tab s ! i) \<Longrightarrow> ?thesis"
    by (simp add: cnt_def)
  show ?thesis
  proof (cases "ctl s me")
    case (Claiming n v m j)
    then have "i \<noteq> j" using ns by (auto simp: sets_def)
    then have "s_count (tab t ! i) = s_count (tab s ! i)"
      using st Claiming claim_count by (fastforce simp: go_step_def)
    then show ?thesis by (intro nt) (auto simp: Claiming takes_def)
  next
    case (Waiting j)
    show ?thesis
    proof (cases "j = i \<and> 0 < sint (s_count (tab s ! i))")
      case True
      then have "sint (s_count (tab s ! i) - 1) = sint (s_count (tab s ! i)) - 1"
        by (intro sint_dec) simp
      then show ?thesis
        using st Waiting True i len
        by (auto simp: go_step_def Let_def sem_wait_round_def cnt_def takes_def s_count_set_sem)
    next
      case False
      then show ?thesis
        using st Waiting
        by (intro nt) (auto simp: go_step_def Let_def sem_wait_round_def takes_def s_count_set_sem
            split: if_splits)
    qed
  next
    case (ResetVal j v m)
    then have "i \<noteq> j" using ns by (auto simp: sets_def)
    then have "s_count (tab t ! i) = s_count (tab s ! i)"
      using st ResetVal by (auto simp: go_step_def sem_reset_val_def Let_def s_count_set_sem split: if_splits)
    then show ?thesis by (intro nt) (auto simp: ResetVal takes_def)
  next
    case (ResetMax j m)
    then show ?thesis using st
      by (intro nt) (auto simp: go_step_def sem_reset_max_def takes_def s_count_set_sem)
  next
    case (Unlinking j)
    then show ?thesis using st
      by (intro nt) (auto simp: go_step_def Let_def sem_unlink_round_def sem_unlink_mark_def takes_def
          s_count_set_sem)
  next
    case (UnlinkWait j)
    then show ?thesis using st
      by (intro nt) (auto simp: go_step_def Let_def sem_unlink_round_def takes_def s_count_set_sem)
  next
    case (Forking c k)
    then show ?thesis using st
      by (intro nt) (auto simp: go_step_def Let_def fork_step_def semdup_def takes_def s_count_set_sem
          split: option.splits)
  next
    case (Exiting k)
    then show ?thesis using st
      by (intro nt) (auto simp: go_step_def Let_def exit_step_def sem_close_def takes_def s_count_set_sem
          split: option.splits)
  next
    case InWait
    then show ?thesis using st
      by (intro nt) (auto simp: go_step_def wait_round_def takes_def split: wait_scan.splits)
  qed (use st in \<open>auto simp: go_step_def takes_def intro!: nt\<close>)
qed

lemma step_count:
  assumes inv: "sem_inv s" and st: "sem_step s me a t" and ns: "\<not> sets i (s, me, a)" and i: "i < NSEM"
  shows "cnt i t = cnt i s - (if takes i (s, me, a) then 1 else 0) + (if gives i (s, me, a) then 1 else 0)"
proof -
  from st have en: "enabled me a s" and ac: "act me a s = Inr t" by (simp_all add: sem_step_iff)
  show ?thesis
  proof (cases a)
    case (Call c)
    then show ?thesis using call_count [OF inv _ _ i] en ac by (simp add: act_def)
  next
    case Go
    then show ?thesis using go_count [OF inv _ _ i] ns ac by (simp add: act_def gives_def)
  next
    case Fork
    then show ?thesis using ac
      by (auto simp: act_def fork_begin_def takes_def gives_def cnt_def split: prod.splits option.splits)
  next
    case Exit
    then show ?thesis using ac by (auto simp: act_def takes_def gives_def cnt_def split: if_splits)
  qed (use ac in \<open>auto simp: act_def takes_def gives_def cnt_def Let_def split: prod.splits\<close>)
qed

lemma run_count:
  assumes "clean_run s es t" and "sem_inv s" and i: "i < NSEM" and "\<forall>e \<in> set es. \<not> sets i e"
  shows "cnt i t + int (count_if (takes i) es) = cnt i s + int (count_if (gives i) es)"
  using assms(1,2,4)
proof (induction rule: clean_run.induct)
  case (start s)
  then show ?case by simp
next
  case (more s es u me a t)
  have "sem_inv u" using run_inv [OF more.hyps(1) more.prems(1)] .
  from step_count [OF this more.hyps(2) _ i] more show ?case by auto
qed

section \<open>Schedules with their traces\<close>

fun trace :: "(nat \<times> action) list \<Rightarrow> semsys \<Rightarrow> (semsys \<times> nat \<times> action) list" where
  "trace [] s = []"
| "trace ((me, a) # sched) s =
     (s, me, a) # (case act me a s of Inl e \<Rightarrow> [] | Inr t \<Rightarrow> trace sched t)"

lemma play_trace: "play sched s = Inr t \<Longrightarrow> play_clean sched s \<Longrightarrow> clean_run s (trace sched s) t"
proof (induction sched arbitrary: s)
  case Nil
  then show ?case using clean_run.start by auto
next
  case (Cons x sched)
  obtain me a where x: "x = (me, a)" by (rule prod.exhaust)
  from Cons.prems x obtain u where en: "enabled me a s" and u: "act me a s = Inr u" "play sched u = Inr t"
    by (auto split: if_splits)
  with Cons.prems x have c: "clean me a s" "play_clean sched u" by auto
  show ?case
    using clean_run_Cons [OF Cons.IH [OF u(2) c(2)] _ c(1)] en u(1) x by (simp add: sem_step_iff)
qed

definition final :: "(nat \<times> action) list \<Rightarrow> semsys \<Rightarrow> semsys" where
  "final sched s = (case play sched s of Inr t \<Rightarrow> t | Inl _ \<Rightarrow> s)"

definition plays :: "(nat \<times> action) list \<Rightarrow> semsys \<Rightarrow> bool" where
  "plays sched s \<longleftrightarrow> \<not> isl (play sched s) \<and> play_clean sched s"

lemma plays_trace: "plays sched s \<Longrightarrow> clean_run s (trace sched s) (final sched s)"
  by (cases "play sched s") (simp_all add: plays_def final_def play_trace)

lemma plays_reachable: "n \<le> NPROC \<Longrightarrow> plays sched (boot n) \<Longrightarrow> clean_reachable n (final sched (boot n))"
  unfolding clean_reachable_def using plays_trace by blast

section \<open>Opening a semaphore again\<close>

lemma sem_open_none:
  assumes wf: "\<forall>s \<in> set tb. wf_sem s" and rd: "readable name SEMNAME"
    and none: "scan (is_open name) tb = None"
  shows "sem_open name init m pid tb = (case scan (\<lambda>s. \<not> linked s) tb of
      None \<Rightarrow> Inr (None, tb)
    | Some spot \<Rightarrow> mapE (\<lambda>t. (Some spot, t)) (sem_open_claim name init m pid spot tb))"
  by (simp add: sem_open_def sem_open_find_spec [OF wf rd] none split: option.split)

lemma sem_open_some:
  assumes wf: "\<forall>s \<in> set tb. wf_sem s" and rd: "readable name SEMNAME"
    and some: "scan (is_open name) tb = Some i"
  shows "sem_open name init m pid tb = Inr (Some i, semdup i tb)"
  by (simp add: sem_open_def sem_open_find_spec [OF wf rd] some)

lemma scan_unique:
  "i < length xs \<Longrightarrow> (\<And>j. j < length xs \<Longrightarrow> P (xs ! j) \<longleftrightarrow> j = i \<and> b) \<Longrightarrow>
     scan P xs = (if b then Some i else None)"
proof (cases b)
  case True
  assume i: "i < length xs" and P: "\<And>j. j < length xs \<Longrightarrow> P (xs ! j) \<longleftrightarrow> j = i \<and> b"
  obtain j where j: "scan P xs = Some j" using scan_exists [OF i, of P] P [OF i] True by blast
  then have "j = i" using P [OF scan_Some_less [OF j]] scan_Some_holds [OF j] by simp
  with j True show ?thesis by simp
next
  case False
  assume "i < length xs" and P: "\<And>j. j < length xs \<Longrightarrow> P (xs ! j) \<longleftrightarrow> j = i \<and> b"
  then show ?thesis using False by (auto simp: scan_from_None in_set_conv_nth)
qed

lemma sem_open_again:
  assumes wf: "wf_tab tb" and rd: "readable name SEMNAME"
    and none: "scan (is_open name) tb = None"
    and op: "sem_open name init m pid tb = Inr (Some i, tb')"
  shows "(\<exists>tb''. sem_open name init' m' pid' tb' = Inr (Some i, tb'')) \<longleftrightarrow>
    length (cstr name) < 8 \<or> take 2 (cstr (le32 pid)) = take 2 (drop 8 (cstr name))"
    (is "_ \<longleftrightarrow> ?k")
proof -
  have wfs: "\<forall>s \<in> set tb. wf_sem s" using wf by (simp add: wf_tab_def)
  from op have spot: "scan (\<lambda>s. \<not> linked s) tb = Some i"
    and cl: "sem_open_claim name init m pid i tb = Inr tb'"
    unfolding sem_open_none [OF wfs rd none] by (auto split: option.splits)
  have i: "i < length tb" by (rule scan_Some_less [OF spot])
  have wfi: "wf_sem (tb ! i)" using wfs i by simp
  obtain s' where s': "tb' = tb[i := s']" "wf_sem s'" "sem_key s' = claimed_key name pid" "linked s'"
    "s_ref s' = 1"
    using sem_open_claim_spec [OF wfi rd, of init m pid] cl by auto
  have wf': "\<forall>s \<in> set tb'. wf_sem s" using wf_tab_update [OF wf s'(2)] s'(1) by (simp add: wf_tab_def)
  have nth: "is_open name (tb' ! j) \<longleftrightarrow> j = i \<and> ?k" if "j < length tb'" for j
    using that s' i scan_None_nth [OF none, of j] claimed_key_eq [of name pid]
    by (auto simp: nth_update is_open_def)
  have sc: "scan (is_open name) tb' = (if ?k then Some i else None)"
    by (rule scan_unique) (use nth i s'(1) in simp_all)
  show ?thesis
  proof (cases ?k)
    case True
    then show ?thesis using sem_open_some [OF wf' rd, of i] sc by simp
  next
    case False
    have "spot \<noteq> i" if "scan (\<lambda>s. \<not> linked s) tb' = Some spot" for spot
      using scan_Some_holds [OF that] s' i by (auto simp: nth_update)
    then show ?thesis
      using False sem_open_none [OF wf' rd, of init' m' pid'] sc by (auto split: option.splits)
  qed
qed

section \<open>Properties\<close>

text \<open>A process that opens a semaphore named \<open>a\<close>, initially 0 and at most 1, and waits for it.\<close>

definition name_a :: "byte list" where
  "name_a = 97 # replicate 9 0"

definition waiting_run :: "(nat \<times> action) list" where
  "waiting_run = [(0, Run), (0, Call (COpen name_a 0 1)), (0, Go), (0, Call (CWait 0)), (0, Go)]"

lemma waiting_run_plays: "plays waiting_run (boot 2)"
  by code_simp

lemmas waiting_reachable = plays_reachable [OF _ waiting_run_plays]


definition open_run :: "(nat \<times> action) list" where
  "open_run = [(0, Run), (0, Call (COpen name_a 1 1)), (0, Go)]"

definition take_run :: "(nat \<times> action) list" where
  "take_run = [(0, Call (CTryWait 0)), (0, Call (CTryWait 0)), (0, Call (CPost 0))]"





text \<open>Two processes that share a semaphore after a fork.\<close>

definition fork_run :: "(nat \<times> action) list" where
  "fork_run = open_run @ [(0, Fork), (0, Go), (0, Go), (0, Go), (0, Go), (0, Go), (0, Go), (1, Run)]"

lemma fork_run_plays: "plays fork_run (boot 2)"
  by code_simp





definition unlink_run :: "(nat \<times> action) list" where
  "unlink_run = open_run @ [(0, Call (CUnlink name_a)), (0, Go)]"


text \<open>
  A process leaves no semaphore open: in every reachable state of clean runs a
  zombie, and a table entry that is not in use, has only empty descriptors.
\<close>

lemma sem_exit_closes:
  assumes "clean_reachable n s" and "p < length (procs (pt s))"
    and "p_state (proc_at (pt s) p) = ZOMBIE \<or> p_state (proc_at (pt s) p) = UNUSED"
  shows "p_osem (proc_at (pt s) p) = replicate NOSEM None"
proof -
  have inv: "sem_inv s" using assms(1) by (rule reachable_inv)
  have "no_sems (osems (pt s) ! p)" using life_dead [OF inv assms(2)] assms(2,3) by (auto simp: pstates_nth)
  moreover have "length (osems (pt s) ! p) = NOSEM" by (rule osem_nth(1) [OF inv assms(2)])
  ultimately show ?thesis
    using assms(2) by (auto simp: no_sems_def osems_nth intro!: replicate_eqI)
qed

definition exit_run :: "(nat \<times> action) list" where
  "exit_run = fork_run @ [(1, Exit), (1, Go), (1, Go), (1, Go), (1, Go), (1, Go), (1, Go)]"

lemma sem_exit_closes_witness:
  "p_osem (proc_at (pt (final exit_run (boot 2))) 1) = replicate NOSEM None"
proof (rule sem_exit_closes)
  have "plays exit_run (boot 2)" by code_simp
  then show "clean_reachable 2 (final exit_run (boot 2))" by (intro plays_reachable) (simp add: NPROC_def)
  show "p_state (proc_at (pt (final exit_run (boot 2))) 1) = ZOMBIE \<or>
    p_state (proc_at (pt (final exit_run (boot 2))) 1) = UNUSED" by code_simp
  show "1 < length (procs (pt (final exit_run (boot 2))))" by code_simp
qed

text \<open>
  C27. A semaphore that \<open>sem_open\<close> has just created is found by the next \<open>sem_open\<close> of the
  same name exactly when the name has fewer than 8 characters, or the two bytes of the
  creator's pid that overwrite characters 8 and 9 happen to equal them: \<open>name\<close> has room
  for 6 characters, but \<open>SEMNAME\<close> is 10.
\<close>

theorem sem_open_reopens:
  assumes "wf_tab tb" and "readable name SEMNAME" and "scan (is_open name) tb = None"
    and "sem_open name init m pid tb = Inr (Some i, tb')"
  shows "(\<exists>tb''. sem_open name init' m' pid' tb' = Inr (Some i, tb'')) \<longleftrightarrow>
    length (cstr name) < 8 \<or> take 2 (cstr (le32 pid)) = take 2 (drop 8 (cstr name))"
  by (rule sem_open_again [OF assms])

definition name_long :: "byte list" where
  "name_long = [115, 101, 109, 97, 112, 104, 111, 114, 101, 0]"

theorem sem_open_reopens_witness:
  "\<exists>tb'. sem_open name_long 1 1 3 stable0 = Inr (Some 0, tb') \<and>
     \<not> (\<exists>tb''. sem_open name_long 1 1 3 tb' = Inr (Some 0, tb''))"
proof -
  have r: "readable name_long SEMNAME" by (simp add: readable_def name_long_def SEMNAME_def)
  have n: "scan (is_open name_long) stable0 = None"
    by (simp add: scan_from_None stable0_def is_open_def zero_sem_def)
  obtain tb' where t: "sem_open name_long 1 1 3 stable0 = Inr (Some 0, tb')"
  proof -
    have "\<forall>s \<in> set stable0. wf_sem s" using wf_stable0 unfolding wf_tab_def by blast
    moreover have "scan (\<lambda>s. \<not> linked s) stable0 = Some 0"
      by (simp add: stable0_def NSEM_def zero_sem_def numeral_eq_Suc)
    moreover have "wf_sem (stable0 ! 0)" by (simp add: stable0_def wf_sem_def NSEM_def zero_sem_def)
    ultimately show ?thesis
      using that r n sem_open_claim_spec [of stable0 0 name_long 1 1 3] by (fastforce simp: sem_open_none)
  qed
  have "\<not> (length (cstr name_long) < 8 \<or> take 2 (cstr (le32 3)) = take 2 (drop 8 (cstr name_long)))"
    by code_simp
  then show ?thesis using t sem_open_reopens [OF wf_stable0 r n t] by blast
qed

definition name_b :: "byte list" where
  "name_b = 98 # replicate 9 0"

definition race_run :: "(nat \<times> action) list" where
  "race_run = [(0, Run), (0, Fork), (0, Go), (0, Go), (0, Go), (0, Go), (0, Go), (0, Go), (1, Run),
     (0, Call (COpen name_a 1 1)), (1, Call (COpen name_b 5 5)), (0, Go), (1, Go)]"

text \<open>
  C28. The two sections of \<open>sem_open\<close> can interleave. Two processes that create semaphores
  of different names at the same time can both be given the same slot: the second
  creation overwrites the first, and both descriptors then refer to it while its
  reference count is 1, so that the first close drops the last reference although the
  other process has the semaphore open.
\<close>

theorem sem_open_race:
  "\<exists>t. play race_run (boot 2) = Inr t \<and>
     p_osem (proc_at (pt t) 0) ! 0 = Some 0 \<and> p_osem (proc_at (pt t) 1) ! 0 = Some 0 \<and>
     s_ref (tab t ! 0) = 1 \<and> s_maxVal (tab t ! 0) = 5 \<and>
     (\<exists>u. play [(1, Call (CClose 0 0))] t = Inr u \<and>
        s_ref (tab u ! 0) = 0 \<and> p_osem (proc_at (pt u) 0) ! 0 = Some 0)"
proof -
  let ?t = "final race_run (boot 2)"
  let ?u = "final [(1, Call (CClose 0 0))] ?t"
  have "\<not> isl (play race_run (boot 2))" by code_simp
  then have t: "play race_run (boot 2) = Inr ?t" by (cases "play race_run (boot 2)") (simp_all add: final_def)
  have "\<not> isl (play [(1, Call (CClose 0 0))] ?t)" by code_simp
  then have u: "play [(1, Call (CClose 0 0))] ?t = Inr ?u"
    by (cases "play [(1, Call (CClose 0 0))] ?t") (simp_all add: final_def)
  have "p_osem (proc_at (pt ?t) 0) ! 0 = Some 0 \<and> p_osem (proc_at (pt ?t) 1) ! 0 = Some 0 \<and>
     s_ref (tab ?t ! 0) = 1 \<and> s_maxVal (tab ?t ! 0) = 5" by code_simp
  moreover have "s_ref (tab ?u ! 0) = 0 \<and> p_osem (proc_at (pt ?u) 0) ! 0 = Some 0" by code_simp
  ultimately show ?thesis using t u by blast
qed

end
