(* ===== verification/Pipe.thy ===== *)
theory Pipe
  imports Proc_Table
begin

text \<open>
  Pipes (\<open>pipe.c\<close>): the ring buffer and the two loops of \<open>pipewrite\<close> and \<open>piperead\<close>,
  run by any number of readers and writers. A round is the code from the point where the
  pipe's lock is held up to the next \<open>sleep\<close> or the return. The two interfaces stated
  here are a bounded queue, which the ring buffer implements, and the discipline of
  sleeping on a condition, which every user of \<open>sleep\<close> and \<open>wakeup\<close> follows.
\<close>

section \<open>The interface of a bounded queue\<close>

locale bounded_queue =
  fixes good :: "'q \<Rightarrow> bool"
    and contents :: "'q \<Rightarrow> 'a list"
    and capacity :: nat
    and enq :: "'a \<Rightarrow> 'q \<Rightarrow> 'q"
    and deq :: "'q \<Rightarrow> 'a \<times> 'q"
  assumes bounded: "good q \<Longrightarrow> length (contents q) \<le> capacity"
    and enq_good: "good q \<Longrightarrow> length (contents q) < capacity \<Longrightarrow> good (enq x q)"
    and enq_contents: "good q \<Longrightarrow> length (contents q) < capacity \<Longrightarrow>
      contents (enq x q) = contents q @ [x]"
    and deq_good: "good q \<Longrightarrow> contents q \<noteq> [] \<Longrightarrow> good (snd (deq q))"
    and deq_contents: "good q \<Longrightarrow> contents q \<noteq> [] \<Longrightarrow>
      contents q = fst (deq q) # contents (snd (deq q))"
begin

lemma enq_all:
  "good q \<Longrightarrow> length (contents q) + length xs \<le> capacity \<Longrightarrow>
     good (fold enq xs q) \<and> contents (fold enq xs q) = contents q @ xs"
proof (induction xs arbitrary: q)
  case Nil
  then show ?case by simp
next
  case (Cons x xs)
  then show ?case by (simp add: enq_good enq_contents)
qed

end

section \<open>The discipline of a condition variable\<close>

text \<open>
  Processes sleep on a channel while \<open>blocked\<close> holds. Each step either wakes the
  sleepers or leaves them blocked, and nobody falls asleep unless blocked. Then a sleeper
  is always blocked: no wakeup is lost.
\<close>

locale condition_variable =
  fixes init :: "'s \<Rightarrow> bool"
    and step :: "'s \<Rightarrow> 's \<Rightarrow> bool"
    and sleeps :: "'s \<Rightarrow> nat \<Rightarrow> bool"
    and blocked :: "'s \<Rightarrow> bool"
  assumes awake_first: "init s \<Longrightarrow> \<not> sleeps s p"
    and wake_or_block: "step s t \<Longrightarrow> sleeps t p \<Longrightarrow> (sleeps s p \<longrightarrow> blocked s) \<Longrightarrow> blocked t"
begin

lemma sleepers_blocked:
  assumes "step\<^sup>*\<^sup>* s t" and "init s"
  shows "sleeps t p \<Longrightarrow> blocked t"
  using assms
proof (induction arbitrary: p rule: rtranclp_induct)
  case base
  then show ?case using awake_first by blast
next
  case (step t u)
  then show ?case using wake_or_block by blast
qed

end

section \<open>The ring buffer\<close>

definition PIPESIZE :: nat where "PIPESIZE = 512"

record pipe =
  pi_data :: "byte list"
  nread :: uint
  nwrite :: uint
  readopen :: bool
  writeopen :: bool

definition pipe_init :: "pipe \<Rightarrow> pipe" where
  "pipe_init p = p\<lparr>readopen := True, writeopen := True, nwrite := 0, nread := 0\<rparr>"

definition pipe_full :: "pipe \<Rightarrow> bool" where
  "pipe_full p \<longleftrightarrow> nwrite p = nread p + of_nat PIPESIZE"

definition pipe_empty :: "pipe \<Rightarrow> bool" where
  "pipe_empty p \<longleftrightarrow> nread p = nwrite p"

definition pipe_put :: "byte \<Rightarrow> pipe \<Rightarrow> pipe" where
  "pipe_put c p = p\<lparr>pi_data := (pi_data p)[unat (nwrite p) mod PIPESIZE := c],
     nwrite := nwrite p + 1\<rparr>"

definition pipe_get :: "pipe \<Rightarrow> byte \<times> pipe" where
  "pipe_get p = (pi_data p ! (unat (nread p) mod PIPESIZE), p\<lparr>nread := nread p + 1\<rparr>)"

text \<open>
  The counters only grow and wrap around at \<open>2 ^ 32\<close>, of which the buffer's size is a
  divisor, so their difference and their remainders stay right.
\<close>

definition ring_ok :: "pipe \<Rightarrow> bool" where
  "ring_ok p \<longleftrightarrow> length (pi_data p) = PIPESIZE \<and> unat (nwrite p - nread p) \<le> PIPESIZE"

definition ring_contents :: "pipe \<Rightarrow> byte list" where
  "ring_contents p = map (\<lambda>i. pi_data p ! ((unat (nread p) + i) mod PIPESIZE))
     [0..<unat (nwrite p - nread p)]"

lemma length_ring [simp]: "length (ring_contents p) = unat (nwrite p - nread p)"
  by (simp add: ring_contents_def)

lemma unat_succ_mod: "unat (w + 1 :: uint) mod PIPESIZE = Suc (unat w) mod PIPESIZE"
proof -
  have "unat (w + 1) = Suc (unat w) mod 2 ^ 32" by (simp add: unat_word_ariths)
  moreover have "(2::nat) ^ 32 = 512 * 8388608" by simp
  ultimately show ?thesis unfolding PIPESIZE_def by (simp only: mod_mult_right_eq mod_mult2_eq) simp
qed

lemma pipe_full_ring: "ring_ok p \<Longrightarrow> pipe_full p \<longleftrightarrow> length (ring_contents p) = PIPESIZE"
proof -
  assume "ring_ok p"
  have "nwrite p = nread p + of_nat PIPESIZE \<longleftrightarrow> nwrite p - nread p = of_nat PIPESIZE"
    by (auto simp: algebra_simps)
  also have "\<dots> \<longleftrightarrow> unat (nwrite p - nread p) = PIPESIZE"
    by (simp add: PIPESIZE_def word_unat_eq_iff)
  finally show ?thesis by (simp add: pipe_full_def)
qed

lemma pipe_empty_ring: "pipe_empty p \<longleftrightarrow> ring_contents p = []"
proof -
  have "ring_contents p = [] \<longleftrightarrow> unat (nwrite p - nread p) = 0"
    by (metis length_0_conv length_ring)
  then show ?thesis by (auto simp: pipe_empty_def unat_eq_0)
qed

lemma ring_put:
  assumes ok: "ring_ok p" and room: "length (ring_contents p) < PIPESIZE"
  shows "ring_ok (pipe_put c p) \<and> ring_contents (pipe_put c p) = ring_contents p @ [c]"
proof -
  let ?n = "unat (nwrite p - nread p)"
  have n: "?n < 512" using room by (simp add: PIPESIZE_def)
  have "unat (nwrite p + 1 - nread p) = unat ((nwrite p - nread p) + 1)" by (simp add: algebra_simps)
  also have "\<dots> = Suc ?n" using n by (simp add: unat_word_ariths)
  finally have n': "unat (nwrite p + 1 - nread p) = Suc ?n" .
  have w: "unat (nwrite p) mod PIPESIZE = (unat (nread p) + ?n) mod PIPESIZE"
  proof -
    have "unat (nwrite p) = unat (nread p + (nwrite p - nread p))" by simp
    also have "\<dots> = (unat (nread p) + ?n) mod 2 ^ 32" by (simp only: unat_word_ariths) simp
    finally have "unat (nwrite p) = (unat (nread p) + ?n) mod (512 * 8388608)" by simp
    then show ?thesis unfolding PIPESIZE_def by (simp only: mod_mult2_eq) simp
  qed
  have len: "length (pi_data p) = 512" using ok by (simp add: ring_ok_def PIPESIZE_def)
  have other: "(unat (nread p) + i) mod 512 \<noteq> (unat (nread p) + ?n) mod 512" if "i < ?n" for i
  proof
    assume e: "(unat (nread p) + i) mod 512 = (unat (nread p) + ?n) mod 512"
    then have "512 dvd (unat (nread p) + ?n) - (unat (nread p) + i)"
      using that by (metis mod_eq_dvd_iff_nat nat_add_left_cancel_le less_imp_le)
    then have "512 dvd ?n - i" by simp
    then show False using that n by (meson dvd_imp_le le_less_trans less_imp_diff_less not_le zero_less_diff)
  qed
  have "ring_ok (pipe_put c p)"
    using ok n by (simp add: ring_ok_def pipe_put_def n' PIPESIZE_def)
  moreover have "ring_contents (pipe_put c p) = ring_contents p @ [c]"
    unfolding ring_contents_def pipe_put_def
    using other [THEN not_sym] len w [unfolded PIPESIZE_def]
    by (simp add: n' nth_list_update PIPESIZE_def)
  ultimately show ?thesis ..
qed

lemma ring_get:
  assumes ok: "ring_ok p" and some: "ring_contents p \<noteq> []"
  shows "ring_ok (snd (pipe_get p)) \<and>
    ring_contents p = fst (pipe_get p) # ring_contents (snd (pipe_get p))"
proof -
  let ?n = "unat (nwrite p - nread p)"
  obtain k where k: "?n = Suc k" using some by (metis length_0_conv length_ring not0_implies_Suc)
  have "unat (nwrite p - (nread p + 1)) = unat ((nwrite p - nread p) - 1)" by (simp add: algebra_simps)
  also have "\<dots> = k" using k by (metis diff_Suc_1 unat_gt_0 unat_minus_one zero_less_Suc word_gt_0 unat_0 neq0_conv)
  finally have n': "unat (nwrite p - (nread p + 1)) = k" .
  have m: "(unat (nread p + 1) + i) mod PIPESIZE = (unat (nread p) + Suc i) mod PIPESIZE" for i
    using unat_succ_mod [of "nread p"] by (metis add_Suc add_Suc_right mod_add_left_eq)
  have "ring_ok (snd (pipe_get p))"
    using ok k by (simp add: ring_ok_def pipe_get_def n')
  moreover have "map (\<lambda>i. pi_data p ! ((unat (nread p) + i) mod PIPESIZE)) [0..<Suc k]
      = pi_data p ! (unat (nread p) mod PIPESIZE)
        # map (\<lambda>i. pi_data p ! ((unat (nread p) + Suc i) mod PIPESIZE)) [0..<k]"
    by (simp only: map_upt_Suc add_0_right)
  then have "ring_contents p = fst (pipe_get p) # ring_contents (snd (pipe_get p))"
    by (simp add: ring_contents_def pipe_get_def n' k m)
  ultimately show ?thesis ..
qed

interpretation ring: bounded_queue ring_ok ring_contents PIPESIZE pipe_put pipe_get
proof
  show "ring_ok q \<Longrightarrow> length (ring_contents q) \<le> PIPESIZE" for q by (simp add: ring_ok_def)
  show "ring_ok (pipe_put x q)" "ring_contents (pipe_put x q) = ring_contents q @ [x]"
    if "ring_ok q" "length (ring_contents q) < PIPESIZE" for q x
    using ring_put [OF that] by blast+
  show "ring_ok (snd (pipe_get q))" "ring_contents q = fst (pipe_get q) # ring_contents (snd (pipe_get q))"
    if "ring_ok q" "ring_contents q \<noteq> []" for q
    using ring_get [OF that] by blast+
qed

section \<open>Reading and writing\<close>

text \<open>
  How a round ends: the call returns, or the process sleeps with what is left to do. A
  failing \<open>pipewrite\<close> may have put some bytes into the pipe before; the rest is what it
  did not put.
\<close>

datatype write_end = Written | WriteFail "byte list" | WriteSleep "byte list"
datatype read_end = GotBytes "byte list" | ReadFail | ReadSleep

fun pipewrite_round ::
  "nat \<Rightarrow> uint \<Rightarrow> byte list \<Rightarrow> pipe \<times> ptable \<Rightarrow> write_end \<times> pipe \<times> ptable" where
  "pipewrite_round me a [] (p, pt) = (Written, p, wakeup (PipeReadChan a) pt)"
| "pipewrite_round me a (c # cs) (p, pt) =
     (if pipe_full p then
        if \<not> readopen p \<or> p_killed (proc_at pt me) then (WriteFail (c # cs), p, pt)
        else (WriteSleep (c # cs), p, sleep_begin me (PipeWriteChan a) (wakeup (PipeReadChan a) pt))
      else pipewrite_round me a cs (pipe_put c p, pt))"

fun piperead_copy :: "nat \<Rightarrow> pipe \<Rightarrow> byte list \<times> pipe" where
  "piperead_copy 0 p = ([], p)"
| "piperead_copy (Suc n) p =
     (if pipe_empty p then ([], p)
      else let (c, p) = pipe_get p; (cs, p) = piperead_copy n p in (c # cs, p))"

definition piperead_round ::
  "nat \<Rightarrow> uint \<Rightarrow> nat \<Rightarrow> pipe \<times> ptable \<Rightarrow> read_end \<times> pipe \<times> ptable" where
  "piperead_round me a n = (\<lambda>(p, pt).
     if pipe_empty p \<and> writeopen p then
       if p_killed (proc_at pt me) then (ReadFail, p, pt)
       else (ReadSleep, p, sleep_begin me (PipeReadChan a) pt)
     else let (cs, p) = piperead_copy n p in (GotBytes cs, p, wakeup (PipeWriteChan a) pt))"

text \<open>\<open>pipeclose\<close> also tells whether the pipe is freed.\<close>

definition pipeclose :: "uint \<Rightarrow> bool \<Rightarrow> pipe \<times> ptable \<Rightarrow> bool \<times> pipe \<times> ptable" where
  "pipeclose a writable = (\<lambda>(p, pt).
     let (p, pt) = (if writable then (p\<lparr>writeopen := False\<rparr>, wakeup (PipeReadChan a) pt)
                    else (p\<lparr>readopen := False\<rparr>, wakeup (PipeWriteChan a) pt))
     in (\<not> readopen p \<and> \<not> writeopen p, p, pt))"

section \<open>What a round does\<close>

fun unwritten :: "write_end \<Rightarrow> byte list" where
  "unwritten Written = []"
| "unwritten (WriteFail cs) = cs"
| "unwritten (WriteSleep cs) = cs"

lemma pipewrite_round_spec:
  assumes "pipewrite_round me a cs (p, pt) = (r, p', pt')" and "ring_ok p"
  shows "ring_ok p' \<and> readopen p' = readopen p \<and> writeopen p' = writeopen p \<and>
    (\<exists>done. cs = done @ unwritten r \<and> ring_contents p' = ring_contents p @ done) \<and>
    (case r of
       Written \<Rightarrow> pt' = wakeup (PipeReadChan a) pt
     | WriteFail _ \<Rightarrow> pt' = pt \<and> pipe_full p' \<and> (\<not> readopen p \<or> p_killed (proc_at pt me))
     | WriteSleep _ \<Rightarrow> pt' = sleep_begin me (PipeWriteChan a) (wakeup (PipeReadChan a) pt) \<and>
         pipe_full p' \<and> readopen p \<and> \<not> p_killed (proc_at pt me))"
  using assms
proof (induction cs arbitrary: p)
  case Nil
  then show ?case by auto
next
  case (Cons c cs)
  show ?case
  proof (cases "pipe_full p")
    case True
    with Cons show ?thesis by (auto split: if_splits)
  next
    case False
    then have room: "length (ring_contents p) < PIPESIZE"
      using Cons.prems(2) pipe_full_ring [of p] ring.bounded [of p] by simp
    have put: "ring_ok (pipe_put c p)" "ring_contents (pipe_put c p) = ring_contents p @ [c]"
      using ring_put [OF Cons.prems(2) room] by blast+
    have keep: "readopen (pipe_put c p) = readopen p" "writeopen (pipe_put c p) = writeopen p"
      by (simp_all add: pipe_put_def)
    have "pipewrite_round me a cs (pipe_put c p, pt) = (r, p', pt')" using Cons.prems(1) False by simp
    from Cons.IH [OF this put(1)] put(2) keep show ?thesis by (auto split: write_end.splits)
  qed
qed

lemma piperead_copy_spec:
  assumes "piperead_copy n p = (cs, p')" and "ring_ok p"
  shows "ring_ok p' \<and> ring_contents p = cs @ ring_contents p' \<and> length cs \<le> n \<and>
    (pipe_empty p' \<or> length cs = n) \<and> readopen p' = readopen p \<and> writeopen p' = writeopen p"
  using assms
proof (induction n p arbitrary: cs p' rule: piperead_copy.induct)
  case (1 p)
  then show ?case by simp
next
  case (2 n p)
  show ?case
  proof (cases "pipe_empty p")
    case True
    with 2 show ?thesis by auto
  next
    case False
    obtain c q where q: "pipe_get p = (c, q)" by (rule prod.exhaust)
    obtain ds q' where r: "piperead_copy n q = (ds, q')" by (rule prod.exhaust)
    have "ring_contents p \<noteq> []" using False by (simp add: pipe_empty_ring)
    from ring_get [OF "2.prems"(2) this] q have g: "ring_ok q" "ring_contents p = c # ring_contents q"
      by simp_all
    have keep: "readopen q = readopen p" "writeopen q = writeopen p" using q by (auto simp: pipe_get_def)
    from "2.prems"(1) False q r have "cs = c # ds" "p' = q'" by simp_all
    moreover from "2.IH" [OF False q [symmetric] refl r g(1)] g(2) keep
    have "ring_ok q' \<and> ring_contents q = ds @ ring_contents q' \<and> length ds \<le> n \<and>
      (pipe_empty q' \<or> length ds = n) \<and> readopen q' = readopen p \<and> writeopen q' = writeopen p"
      by simp
    ultimately show ?thesis using g(2) by auto
  qed
qed

section \<open>Readers and writers of one pipe\<close>

datatype pipe_ctl =
    PipeIdle
  | Writing "byte list"    \<comment> \<open>in \<open>pipewrite\<close>, with these bytes to go\<close>
  | Reading nat            \<comment> \<open>in \<open>piperead\<close>, waiting for up to that many bytes\<close>

text \<open>
  \<open>pp_sent\<close> and \<open>pp_got\<close> record all bytes that went into the pipe and all that were
  given to readers. The code does not have them.
\<close>

record pipesys =
  pp_addr :: uint
  pp_pipe :: pipe
  pp_pt :: ptable
  pp_ctl :: "nat \<Rightarrow> pipe_ctl"
  pp_sent :: "byte list"
  pp_got :: "byte list"

datatype pipe_action = PWrite "byte list" | PRead nat | PGo | PClose bool | PKill uint | PRun | PPreempt

definition write_step :: "nat \<Rightarrow> byte list \<Rightarrow> pipesys \<Rightarrow> pipesys" where
  "write_step me cs s =
     (let (r, p, pt) = pipewrite_round me (pp_addr s) cs (pp_pipe s, sleep_end me (pp_pt s));
          put = take (length cs - length (unwritten r)) cs
      in s\<lparr>pp_pipe := p, pp_pt := pt, pp_sent := pp_sent s @ put,
           pp_ctl := (pp_ctl s)(me := (case r of WriteSleep cs \<Rightarrow> Writing cs | _ \<Rightarrow> PipeIdle))\<rparr>)"

definition read_step :: "nat \<Rightarrow> nat \<Rightarrow> pipesys \<Rightarrow> pipesys" where
  "read_step me n s =
     (let (r, p, pt) = piperead_round me (pp_addr s) n (pp_pipe s, sleep_end me (pp_pt s))
      in s\<lparr>pp_pipe := p, pp_pt := pt,
           pp_got := pp_got s @ (case r of GotBytes cs \<Rightarrow> cs | _ \<Rightarrow> []),
           pp_ctl := (pp_ctl s)(me := (case r of ReadSleep \<Rightarrow> Reading n | _ \<Rightarrow> PipeIdle))\<rparr>)"

definition pipe_act :: "nat \<Rightarrow> pipe_action \<Rightarrow> pipesys \<Rightarrow> pipesys" where
  "pipe_act me a s = (case a of
       PWrite cs \<Rightarrow> s\<lparr>pp_ctl := (pp_ctl s)(me := Writing cs)\<rparr>
     | PRead n \<Rightarrow> s\<lparr>pp_ctl := (pp_ctl s)(me := Reading n)\<rparr>
     | PGo \<Rightarrow> (case pp_ctl s me of
           Writing cs \<Rightarrow> write_step me cs s
         | Reading n \<Rightarrow> read_step me n s
         | PipeIdle \<Rightarrow> s)
     | PClose w \<Rightarrow>
         let (_, p, pt) = pipeclose (pp_addr s) w (pp_pipe s, pp_pt s) in s\<lparr>pp_pipe := p, pp_pt := pt\<rparr>
     | PKill pid \<Rightarrow> s\<lparr>pp_pt := snd (kill pid (pp_pt s))\<rparr>
     | PRun \<Rightarrow> s\<lparr>pp_pt := scheduler_run me (pp_pt s)\<rparr>
     | PPreempt \<Rightarrow> s\<lparr>pp_pt := yield_begin me (pp_pt s)\<rparr>)"

text \<open>
  A process in \<open>pipewrite\<close> or \<open>piperead\<close> has that end open, so the last close of an end
  comes when nobody is in a call on it.
\<close>

definition pipe_enabled :: "nat \<Rightarrow> pipe_action \<Rightarrow> pipesys \<Rightarrow> bool" where
  "pipe_enabled me a s \<longleftrightarrow> me < length (procs (pp_pt s)) \<and>
     (let st = p_state (proc_at (pp_pt s) me) in case a of
        PRun \<Rightarrow> st = RUNNABLE
      | PPreempt \<Rightarrow> st = RUNNING
      | PGo \<Rightarrow> st = RUNNING \<and> pp_ctl s me \<noteq> PipeIdle
      | PWrite cs \<Rightarrow> st = RUNNING \<and> pp_ctl s me = PipeIdle \<and> writeopen (pp_pipe s)
      | PRead n \<Rightarrow> st = RUNNING \<and> pp_ctl s me = PipeIdle \<and> readopen (pp_pipe s)
      | PClose w \<Rightarrow> st = RUNNING \<and> pp_ctl s me = PipeIdle \<and>
          (\<forall>p \<in> set [0..<length (procs (pp_pt s))]. case pp_ctl s p of
             Writing _ \<Rightarrow> \<not> w | Reading _ \<Rightarrow> w | PipeIdle \<Rightarrow> True)
      | PKill pid \<Rightarrow> st = RUNNING \<and> pp_ctl s me = PipeIdle)"

inductive pipe_step :: "pipesys \<Rightarrow> nat \<Rightarrow> pipe_action \<Rightarrow> pipesys \<Rightarrow> bool" where
  "pipe_enabled me a s \<Longrightarrow> pipe_step s me a (pipe_act me a s)"

inductive_simps pipe_step_iff: "pipe_step s me a t"

definition pipe_start :: "pipesys \<Rightarrow> bool" where
  "pipe_start s \<longleftrightarrow> length (pi_data (pp_pipe s)) = PIPESIZE \<and> pipe_init (pp_pipe s) = pp_pipe s \<and>
     pp_sent s = [] \<and> pp_got s = [] \<and> (\<forall>p. pp_ctl s p = PipeIdle) \<and>
     (\<forall>p. \<not> asleep (pp_pt s) p (PipeReadChan (pp_addr s))) \<and>
     (\<forall>p. \<not> asleep (pp_pt s) p (PipeWriteChan (pp_addr s)))"

section \<open>Nothing is lost, added or reordered\<close>

definition fifo_inv :: "pipesys \<Rightarrow> bool" where
  "fifo_inv s \<longleftrightarrow> ring_ok (pp_pipe s) \<and> pp_sent s = pp_got s @ ring_contents (pp_pipe s)"

lemma pipe_start_fifo: "pipe_start s \<Longrightarrow> fifo_inv s"
proof -
  assume s: "pipe_start s"
  then have eq: "pipe_init (pp_pipe s) = pp_pipe s" by (simp add: pipe_start_def)
  have "nread (pipe_init (pp_pipe s)) = 0 \<and> nwrite (pipe_init (pp_pipe s)) = 0"
    by (simp add: pipe_init_def)
  then have "nread (pp_pipe s) = 0 \<and> nwrite (pp_pipe s) = 0" unfolding eq .
  with s show ?thesis
    by (simp add: pipe_start_def fifo_inv_def ring_ok_def ring_contents_def)
qed

lemma ring_flags [simp]:
  "ring_ok (p\<lparr>writeopen := w\<rparr>) = ring_ok p" "ring_ok (p\<lparr>readopen := w\<rparr>) = ring_ok p"
  "ring_contents (p\<lparr>writeopen := w\<rparr>) = ring_contents p"
  "ring_contents (p\<lparr>readopen := w\<rparr>) = ring_contents p"
  by (simp_all add: ring_ok_def ring_contents_def)

lemma write_step_fifo: "fifo_inv s \<Longrightarrow> fifo_inv (write_step me cs s)"
proof -
  assume inv: "fifo_inv s"
  obtain r p pt where r: "pipewrite_round me (pp_addr s) cs (pp_pipe s, sleep_end me (pp_pt s)) = (r, p, pt)"
    by (rule prod_cases3)
  from pipewrite_round_spec [OF r] inv obtain ds where
    ds: "ring_ok p" "cs = ds @ unwritten r" "ring_contents p = ring_contents (pp_pipe s) @ ds"
    by (auto simp: fifo_inv_def)
  have "take (length cs - length (unwritten r)) cs = ds" by (simp add: ds(2))
  then have "pp_sent (write_step me cs s) = pp_sent s @ ds" "pp_pipe (write_step me cs s) = p"
    "pp_got (write_step me cs s) = pp_got s"
    by (simp_all add: write_step_def r)
  then show ?thesis using inv ds by (simp add: fifo_inv_def)
qed

lemma read_step_fifo: "fifo_inv s \<Longrightarrow> fifo_inv (read_step me n s)"
proof -
  assume inv: "fifo_inv s"
  obtain cs p where c: "piperead_copy n (pp_pipe s) = (cs, p)" by (rule prod.exhaust)
  from piperead_copy_spec [OF c] inv
  have "ring_ok p" "ring_contents (pp_pipe s) = cs @ ring_contents p" by (simp_all add: fifo_inv_def)
  then show ?thesis using inv by (simp add: read_step_def piperead_round_def c fifo_inv_def)
qed

lemma pipe_step_fifo: "pipe_step s me a t \<Longrightarrow> fifo_inv s \<Longrightarrow> fifo_inv t"
proof -
  assume st: "pipe_step s me a t" and inv: "fifo_inv s"
  from st have t: "t = pipe_act me a s" by (simp add: pipe_step_iff)
  show ?thesis
  proof (cases a)
    case PGo
    then show ?thesis
      using inv write_step_fifo read_step_fifo by (simp add: t pipe_act_def split: pipe_ctl.split)
  qed (use inv in \<open>simp_all add: t pipe_act_def fifo_inv_def pipeclose_def Let_def\<close>)
qed

inductive pipe_run :: "pipesys \<Rightarrow> bool" where
  start: "pipe_start s \<Longrightarrow> pipe_run s"
| more: "pipe_run s \<Longrightarrow> pipe_step s me a t \<Longrightarrow> pipe_run t"

lemma pipe_run_fifo: "pipe_run s \<Longrightarrow> fifo_inv s"
  by (induction rule: pipe_run.induct) (auto intro: pipe_start_fifo pipe_step_fifo)

section \<open>Sleeping readers and writers\<close>

definition reader_asleep :: "pipesys \<Rightarrow> nat \<Rightarrow> bool" where
  "reader_asleep s p \<longleftrightarrow> asleep (pp_pt s) p (PipeReadChan (pp_addr s))"

definition writer_asleep :: "pipesys \<Rightarrow> nat \<Rightarrow> bool" where
  "writer_asleep s p \<longleftrightarrow> asleep (pp_pt s) p (PipeWriteChan (pp_addr s))"

definition reader_blocked :: "pipesys \<Rightarrow> bool" where
  "reader_blocked s \<longleftrightarrow> pipe_empty (pp_pipe s) \<and> writeopen (pp_pipe s)"

definition writer_blocked :: "pipesys \<Rightarrow> bool" where
  "writer_blocked s \<longleftrightarrow> pipe_full (pp_pipe s) \<and> readopen (pp_pipe s)"

definition ends_ok :: "pipesys \<Rightarrow> bool" where
  "ends_ok s \<longleftrightarrow>
     (\<forall>p. reader_asleep s p \<longrightarrow> (\<exists>n. pp_ctl s p = Reading n)) \<and>
     (\<forall>p n. pp_ctl s p = Reading n \<longrightarrow> p < length (procs (pp_pt s)) \<and> readopen (pp_pipe s))"

text \<open>What the wakeups rely on: a process that was killed does not write any more.\<close>

definition quiet :: "nat \<Rightarrow> pipe_action \<Rightarrow> pipesys \<Rightarrow> bool" where
  "quiet me a s \<longleftrightarrow> (case a of
       PGo \<Rightarrow> (case pp_ctl s me of Writing cs \<Rightarrow> \<not> p_killed (proc_at (pp_pt s) me) | _ \<Rightarrow> True)
     | _ \<Rightarrow> True)"

definition quiet_step :: "pipesys \<Rightarrow> pipesys \<Rightarrow> bool" where
  "quiet_step s t \<longleftrightarrow> fifo_inv s \<and> ends_ok s \<and> (\<exists>me a. quiet me a s \<and> pipe_step s me a t)"

lemma asleep_sleep_end:
  "p_state (proc_at pt me) = RUNNING \<Longrightarrow> asleep (sleep_end me pt) p ch = asleep pt p ch"
  by (auto simp: asleep_def sleep_end_def nth_update)

lemma asleep_kill: "asleep (snd (kill pid pt)) p ch \<Longrightarrow> asleep pt p ch"
  by (auto simp: kill_def asleep_def nth_update split: option.splits if_splits)

lemma asleep_switch:
  "asleep (scheduler_run me pt) p ch \<Longrightarrow> asleep pt p ch"
  "asleep (yield_begin me pt) p ch \<Longrightarrow> asleep pt p ch"
  by (auto simp: scheduler_run_def yield_begin_def asleep_def nth_update split: if_splits)

lemma length_switch [simp]:
  "length (procs (scheduler_run me pt)) = length (procs pt)"
  "length (procs (yield_begin me pt)) = length (procs pt)"
  "length (procs (sleep_end me pt)) = length (procs pt)"
  "length (procs (sleep_begin me ch pt)) = length (procs pt)"
  "length (procs (snd (kill pid pt))) = length (procs pt)"
  by (simp_all add: scheduler_run_def yield_begin_def sleep_end_def sleep_begin_def kill_def split: option.split)

lemma killed_sleep_end [simp]: "p_killed (proc_at (sleep_end me pt) p) = p_killed (proc_at pt p)"
  by (simp add: sleep_end_def nth_update)

lemma write_step_sleep:
  fixes cs :: "byte list"
  assumes inv: "fifo_inv s" and run: "p_state (proc_at (pp_pt s) me) = RUNNING"
    and me: "me < length (procs (pp_pt s))" and q: "\<not> p_killed (proc_at (pp_pt s) me)"
  defines "t \<equiv> write_step me cs s"
  shows "readopen (pp_pipe s) \<Longrightarrow> \<not> reader_asleep t p"
    and "reader_asleep t p \<Longrightarrow> reader_asleep s p"
    and "writer_asleep t p \<Longrightarrow> (writer_asleep s p \<longrightarrow> writer_blocked s) \<Longrightarrow> writer_blocked t"
    and "readopen (pp_pipe t) = readopen (pp_pipe s)" "writeopen (pp_pipe t) = writeopen (pp_pipe s)"
      "length (procs (pp_pt t)) = length (procs (pp_pt s))" "pp_addr t = pp_addr s"
      "\<exists>c. pp_ctl t = (pp_ctl s)(me := c) \<and> (\<forall>n. c \<noteq> Reading n)"
proof -
  obtain r p' pt where r: "pipewrite_round me (pp_addr s) cs (pp_pipe s, sleep_end me (pp_pt s)) = (r, p', pt)"
    by (rule prod_cases3)
  have ok: "ring_ok (pp_pipe s)" using inv by (simp add: fifo_inv_def)
  note sp = pipewrite_round_spec [OF r ok]
  have t: "t = s\<lparr>pp_pipe := p', pp_pt := pt,
      pp_sent := pp_sent s @ take (length cs - length (unwritten r)) cs,
      pp_ctl := (pp_ctl s)(me := (case r of WriteSleep cs \<Rightarrow> Writing cs | _ \<Rightarrow> PipeIdle))\<rparr>"
    unfolding t_def write_step_def by (simp add: r)
  show "readopen (pp_pipe t) = readopen (pp_pipe s)" "writeopen (pp_pipe t) = writeopen (pp_pipe s)"
    "pp_addr t = pp_addr s" using sp by (simp_all add: t)
  show "length (procs (pp_pt t)) = length (procs (pp_pt s))"
    using sp by (cases r) (simp_all add: t)
  show "\<exists>c. pp_ctl t = (pp_ctl s)(me := c) \<and> (\<forall>n. c \<noteq> Reading n)"
    by (cases r) (auto simp: t)
  show "readopen (pp_pipe s) \<Longrightarrow> \<not> reader_asleep t p"
    using sp me q by (cases r) (auto simp: t reader_asleep_def asleep_wakeup asleep_sleep_begin)
  show "reader_asleep t p \<Longrightarrow> reader_asleep s p"
    using sp me run by (cases r)
      (auto simp: t reader_asleep_def asleep_wakeup asleep_sleep_begin asleep_sleep_end split: if_splits)
  have ok': "ring_ok p'" using sp by blast
  have full: "pipe_full p'" if "pipe_full (pp_pipe s)"
  proof -
    obtain ds where "ring_contents p' = ring_contents (pp_pipe s) @ ds" using sp by blast
    then have "length (ring_contents p') = length (ring_contents (pp_pipe s)) + length ds"
      by (simp only: length_append)
    then have "length (ring_contents p') = PIPESIZE"
      using that pipe_full_ring [OF ok] ring.bounded [OF ok'] by linarith
    then show ?thesis using pipe_full_ring [OF ok'] by blast
  qed
  show "writer_blocked t" if "writer_asleep t p" "writer_asleep s p \<longrightarrow> writer_blocked s"
    using sp me run that full
    by (cases r) (auto simp: t writer_asleep_def writer_blocked_def asleep_wakeup asleep_sleep_begin
        asleep_sleep_end)
qed

lemma read_step_sleep:
  fixes n :: nat
  assumes run: "p_state (proc_at (pp_pt s) me) = RUNNING"
    and me: "me < length (procs (pp_pt s))" and inv: "fifo_inv s"
  defines "t \<equiv> read_step me n s"
  shows "reader_asleep t p \<Longrightarrow> (reader_asleep s p \<longrightarrow> reader_blocked s) \<Longrightarrow> reader_blocked t"
    and "reader_asleep t p \<Longrightarrow> reader_asleep s p \<or> p = me \<and> pp_ctl t me = Reading n"
    and "writer_asleep t p \<Longrightarrow> writer_asleep s p \<and> (writer_blocked s \<longrightarrow> writer_blocked t)"
    and "readopen (pp_pipe t) = readopen (pp_pipe s)" "writeopen (pp_pipe t) = writeopen (pp_pipe s)"
      "length (procs (pp_pt t)) = length (procs (pp_pt s))" "pp_addr t = pp_addr s"
      "pp_ctl t = (pp_ctl s)(me := PipeIdle) \<or> pp_ctl t = (pp_ctl s)(me := Reading n)"
proof -
  obtain cs p' where c: "piperead_copy n (pp_pipe s) = (cs, p')" by (rule prod.exhaust)
  have fl: "readopen p' = readopen (pp_pipe s)" "writeopen p' = writeopen (pp_pipe s)"
    using piperead_copy_spec [OF c] inv by (simp_all add: fifo_inv_def)
  let ?b = "pipe_empty (pp_pipe s) \<and> writeopen (pp_pipe s)" and ?k = "p_killed (proc_at (pp_pt s) me)"
  have t: "pp_addr t = pp_addr s"
    "?b \<Longrightarrow> pp_pipe t = pp_pipe s" "\<not> ?b \<Longrightarrow> pp_pipe t = p'"
    "?b \<Longrightarrow> ?k \<Longrightarrow> pp_pt t = sleep_end me (pp_pt s)"
    "?b \<Longrightarrow> \<not> ?k \<Longrightarrow> pp_pt t = sleep_begin me (PipeReadChan (pp_addr s)) (sleep_end me (pp_pt s))"
    "\<not> ?b \<Longrightarrow> pp_pt t = wakeup (PipeWriteChan (pp_addr s)) (sleep_end me (pp_pt s))"
    "pp_ctl t = (pp_ctl s)(me := (if ?b \<and> \<not> ?k then Reading n else PipeIdle))"
    unfolding t_def read_step_def piperead_round_def by (auto simp: c)
  show "readopen (pp_pipe t) = readopen (pp_pipe s)" "writeopen (pp_pipe t) = writeopen (pp_pipe s)"
    using t(2,3) fl by (cases ?b; simp)+
  show "length (procs (pp_pt t)) = length (procs (pp_pt s))"
    using t(4,5,6) by (cases ?b; cases ?k) simp_all
  show "pp_addr t = pp_addr s" by (rule t(1))
  show "pp_ctl t = (pp_ctl s)(me := PipeIdle) \<or> pp_ctl t = (pp_ctl s)(me := Reading n)"
    using t(7) by (cases "?b \<and> \<not> ?k") (simp_all only: if_True if_False simp_thms)
  show "reader_asleep t p \<Longrightarrow> (reader_asleep s p \<longrightarrow> reader_blocked s) \<Longrightarrow> reader_blocked t"
    using t(1-6) me run by (cases ?b; cases ?k)
      (simp_all add: reader_asleep_def reader_blocked_def asleep_wakeup asleep_sleep_begin asleep_sleep_end)
  show "reader_asleep t p \<Longrightarrow> reader_asleep s p \<or> p = me \<and> pp_ctl t me = Reading n"
    using t me run by (cases ?b; cases ?k)
      (simp_all add: reader_asleep_def asleep_wakeup asleep_sleep_begin asleep_sleep_end split: if_splits)
  show "writer_asleep t p \<Longrightarrow> writer_asleep s p \<and> (writer_blocked s \<longrightarrow> writer_blocked t)"
    using t(1-6) me run by (cases ?b; cases ?k)
      (simp_all add: writer_asleep_def writer_blocked_def asleep_wakeup asleep_sleep_begin asleep_sleep_end
        split: if_splits)
qed

lemma pipe_enabledD:
  assumes "pipe_enabled me a s"
  shows "me < length (procs (pp_pt s))" "a \<noteq> PRun \<Longrightarrow> p_state (proc_at (pp_pt s) me) = RUNNING"
  using assms by (auto simp: pipe_enabled_def Let_def split: pipe_action.splits)

lemmas pipe_asleep = reader_asleep_def writer_asleep_def
lemmas pipe_blocked = reader_blocked_def writer_blocked_def

text \<open>The steps other than rounds of the two loops.\<close>

lemma pipe_other_step:
  assumes "a \<noteq> PGo"
  shows "reader_asleep (pipe_act me a s) p \<Longrightarrow> reader_asleep s p"
    and "writer_asleep (pipe_act me a s) p \<Longrightarrow> writer_asleep s p"
    and "reader_asleep (pipe_act me a s) p \<Longrightarrow> reader_blocked s \<Longrightarrow> reader_blocked (pipe_act me a s)"
    and "writer_asleep (pipe_act me a s) p \<Longrightarrow> writer_blocked s \<Longrightarrow> writer_blocked (pipe_act me a s)"
  using assms
  by (cases a; auto simp: pipe_act_def pipe_asleep pipe_blocked pipeclose_def Let_def pipe_full_def
      pipe_empty_def asleep_wakeup split: if_splits dest: asleep_kill asleep_switch)+

lemma quiet_step_reader:
  assumes st: "quiet_step s t" and sl: "reader_asleep t p" and before: "reader_asleep s p \<longrightarrow> reader_blocked s"
  shows "reader_blocked t"
proof -
  obtain me a where inv: "fifo_inv s" "ends_ok s" and q: "quiet me a s" and ps: "pipe_step s me a t"
    using st by (auto simp: quiet_step_def)
  then have en: "pipe_enabled me a s" and t: "t = pipe_act me a s" by (simp_all add: pipe_step_iff)
  show ?thesis
  proof (cases "a = PGo")
    case False
    then show ?thesis using pipe_other_step(1,3) [OF False] sl before unfolding t by blast
  next
    case True
    have me: "me < length (procs (pp_pt s))" and run: "p_state (proc_at (pp_pt s) me) = RUNNING"
      using pipe_enabledD [OF en] True by simp_all
    show ?thesis
    proof (cases "pp_ctl s me")
      case (Writing cs)
      then have t': "t = write_step me cs s" and nk: "\<not> p_killed (proc_at (pp_pt s) me)"
        using t True q by (simp_all add: pipe_act_def quiet_def)
      note w = write_step_sleep [OF inv(1) run me nk, where cs = cs, folded t']
      have "reader_asleep s p" using w(2) [OF sl] .
      then have "readopen (pp_pipe s)" using inv(2) by (auto simp: ends_ok_def)
      then show ?thesis using w(1) sl by blast
    next
      case (Reading n)
      then have t': "t = read_step me n s" using t True by (simp add: pipe_act_def)
      show ?thesis using read_step_sleep(1) [OF run me inv(1), where n = n, folded t', OF sl before] .
    next
      case PipeIdle
      then show ?thesis using en True by (simp add: pipe_enabled_def Let_def)
    qed
  qed
qed

lemma quiet_step_writer:
  assumes st: "quiet_step s t" and sl: "writer_asleep t p" and before: "writer_asleep s p \<longrightarrow> writer_blocked s"
  shows "writer_blocked t"
proof -
  obtain me a where inv: "fifo_inv s" and q: "quiet me a s" and ps: "pipe_step s me a t"
    using st by (auto simp: quiet_step_def)
  then have en: "pipe_enabled me a s" and t: "t = pipe_act me a s" by (simp_all add: pipe_step_iff)
  show ?thesis
  proof (cases "a = PGo")
    case False
    then show ?thesis using pipe_other_step(2,4) [OF False] sl before unfolding t by blast
  next
    case True
    have me: "me < length (procs (pp_pt s))" and run: "p_state (proc_at (pp_pt s) me) = RUNNING"
      using pipe_enabledD [OF en] True by simp_all
    show ?thesis
    proof (cases "pp_ctl s me")
      case (Writing cs)
      then have t': "t = write_step me cs s" and nk: "\<not> p_killed (proc_at (pp_pt s) me)"
        using t True q by (simp_all add: pipe_act_def quiet_def)
      show ?thesis using write_step_sleep(3) [OF inv run me nk, where cs = cs, folded t', OF sl before] .
    next
      case (Reading n)
      then have t': "t = read_step me n s" using t True by (simp add: pipe_act_def)
      show ?thesis using read_step_sleep(3) [OF run me inv, where n = n, folded t', OF sl] before by blast
    next
      case PipeIdle
      then show ?thesis using en True by (simp add: pipe_enabled_def Let_def)
    qed
  qed
qed

interpretation readers: condition_variable pipe_start quiet_step reader_asleep reader_blocked
  by unfold_locales (simp add: pipe_start_def reader_asleep_def, rule quiet_step_reader)

interpretation writers: condition_variable pipe_start quiet_step writer_asleep writer_blocked
  by unfold_locales (simp add: pipe_start_def writer_asleep_def, rule quiet_step_writer)

lemma pipe_step_ends:
  assumes inv: "fifo_inv s" "ends_ok s" and q: "quiet me a s" and ps: "pipe_step s me a t"
  shows "ends_ok t"
proof -
  have en: "pipe_enabled me a s" and t: "t = pipe_act me a s" using ps by (simp_all add: pipe_step_iff)
  have me: "me < length (procs (pp_pt s))" by (rule pipe_enabledD [OF en])
  have e1: "reader_asleep s p \<Longrightarrow> \<exists>n. pp_ctl s p = Reading n" for p using inv(2) by (simp add: ends_ok_def)
  have e2: "pp_ctl s p = Reading n \<Longrightarrow> p < length (procs (pp_pt s)) \<and> readopen (pp_pipe s)" for p n
    using inv(2) unfolding ends_ok_def by blast
  have awake: "\<not> reader_asleep s me" if "p_state (proc_at (pp_pt s) me) = RUNNING"
    using that by (simp add: reader_asleep_def asleep_def)
  show ?thesis
  proof (cases "a = PGo")
    case True
    have run: "p_state (proc_at (pp_pt s) me) = RUNNING" using pipe_enabledD [OF en] True by simp
    show ?thesis
    proof (cases "pp_ctl s me")
      case (Writing cs)
      then have t': "t = write_step me cs s" and nk: "\<not> p_killed (proc_at (pp_pt s) me)"
        using t True q by (simp_all add: pipe_act_def quiet_def)
      note w = write_step_sleep [OF inv(1) run me nk, where cs = cs, folded t']
      obtain c where c: "pp_ctl t = (pp_ctl s)(me := c)" "\<forall>n. c \<noteq> Reading n" using w(8) by blast
      show ?thesis
        unfolding ends_ok_def w(4,6) c(1)
      proof (intro conjI allI impI)
        fix p assume "reader_asleep t p"
        then have sp: "reader_asleep s p" by (rule w(2))
        then have "p \<noteq> me" using awake [OF run] by blast
        then show "\<exists>n. ((pp_ctl s)(me := c)) p = Reading n" using e1 [OF sp] by simp
      next
        fix p n assume "((pp_ctl s)(me := c)) p = Reading n"
        then have "pp_ctl s p = Reading n" using c(2) by (auto split: if_splits)
        then show "p < length (procs (pp_pt s))" "readopen (pp_pipe s)" using e2 by blast+
      qed
    next
      case (Reading n)
      then have t': "t = read_step me n s" using t True by (simp add: pipe_act_def)
      note r = read_step_sleep [OF run me inv(1), where n = n, folded t']
      show ?thesis
        unfolding ends_ok_def r(4,6)
      proof (intro conjI allI impI)
        fix p assume "reader_asleep t p"
        then have "reader_asleep s p \<or> p = me \<and> pp_ctl t me = Reading n" by (rule r(2))
        then show "\<exists>n. pp_ctl t p = Reading n" using e1 [of p] awake [OF run] r(8) by (cases "p = me") auto
      next
        fix p n' assume "pp_ctl t p = Reading n'"
        then have "\<exists>n. pp_ctl s p = Reading n" using r(8) Reading by (cases "p = me") auto
        then show "p < length (procs (pp_pt s))" "readopen (pp_pipe s)" using e2 by blast+
      qed
    next
      case PipeIdle
      then show ?thesis using en True by (simp add: pipe_enabled_def Let_def)
    qed
  next
    case False
    have sl: "reader_asleep t p \<Longrightarrow> reader_asleep s p" for p
      using pipe_other_step(1) [OF False] unfolding t .
    show ?thesis
    proof (cases a)
      case (PClose w)
      have "pp_ctl s p = Reading n \<Longrightarrow> w" for p n
        using en PClose e2 [of p n] by (force simp: pipe_enabled_def Let_def)
      then show ?thesis
        using e1 e2 sl unfolding ends_ok_def
        by (auto simp: t PClose pipe_act_def pipeclose_def Let_def)
    next
      case (PWrite cs)
      then have "p_state (proc_at (pp_pt s) me) = RUNNING" "pp_ctl s me = PipeIdle"
        using en by (simp_all add: pipe_enabled_def Let_def)
      then show ?thesis
        using e1 e2 sl awake unfolding ends_ok_def
        by (auto simp: t PWrite pipe_act_def reader_asleep_def split: if_splits)
    next
      case (PRead n)
      then have "p_state (proc_at (pp_pt s) me) = RUNNING" "readopen (pp_pipe s)"
        using en by (simp_all add: pipe_enabled_def Let_def)
      then show ?thesis
        using e1 e2 sl awake me unfolding ends_ok_def
        by (auto simp: t PRead pipe_act_def reader_asleep_def split: if_splits)
    qed (use e1 e2 sl False in \<open>auto simp: ends_ok_def t pipe_act_def\<close>)
  qed
qed

text \<open>Runs in which no killed process writes.\<close>

inductive quiet_run :: "pipesys \<Rightarrow> pipesys \<Rightarrow> bool" where
  start: "pipe_start s \<Longrightarrow> quiet_run s s"
| more: "quiet_run s0 s \<Longrightarrow> quiet me a s \<Longrightarrow> pipe_step s me a t \<Longrightarrow> quiet_run s0 t"

lemma quiet_run_steps: "quiet_run s0 t \<Longrightarrow> pipe_start s0 \<and> quiet_step\<^sup>*\<^sup>* s0 t \<and> fifo_inv t \<and> ends_ok t"
proof (induction rule: quiet_run.induct)
  case (start s)
  then have "ends_ok s" by (simp add: pipe_start_def ends_ok_def reader_asleep_def)
  with start show ?case using pipe_start_fifo by blast
next
  case (more s0 s me a t)
  then have "quiet_step s t" by (auto simp: quiet_step_def)
  with more show ?case using pipe_step_fifo pipe_step_ends by (meson rtranclp.rtrancl_into_rtrancl)
qed

section \<open>Properties\<close>

definition running_proc :: "uint \<Rightarrow> proc" where
  "running_proc pid = zero_proc\<lparr>p_state := RUNNING, p_pid := pid\<rparr>"

text \<open>A new pipe between three running processes with pids 1, 2 and 3.\<close>

definition three_procs :: pipesys where
  "three_procs = \<lparr>pp_addr = 0x80400000,
     pp_pipe = \<lparr>pi_data = replicate PIPESIZE 0, nread = 0, nwrite = 0, readopen = True, writeopen = True\<rparr>,
     pp_pt = \<lparr>procs = map running_proc [1, 2, 3], initproc = Some 0, nextpid = 4\<rparr>,
     pp_ctl = (\<lambda>_. PipeIdle), pp_sent = [], pp_got = []\<rparr>"

lemma three_procs_start: "pipe_start three_procs"
proof -
  have "\<not> asleep (pp_pt three_procs) p ch" for p ch
  proof
    assume "asleep (pp_pt three_procs) p ch"
    then have "p < 3" "p_state (map running_proc [1, 2, 3] ! p) = SLEEPING"
      by (simp_all add: asleep_def three_procs_def)
    then show False by (auto simp: less_Suc_eq numeral_3_eq_3 running_proc_def)
  qed
  then show ?thesis by (simp add: pipe_start_def three_procs_def pipe_init_def)
qed

definition pipe_play :: "(nat \<times> pipe_action) list \<Rightarrow> pipesys \<Rightarrow> pipesys" where
  "pipe_play = fold (\<lambda>(me, a) s. pipe_act me a s)"

fun pipe_plays :: "(nat \<times> pipe_action) list \<Rightarrow> pipesys \<Rightarrow> bool" where
  "pipe_plays [] s = True"
| "pipe_plays ((me, a) # sched) s = (pipe_enabled me a s \<and> pipe_plays sched (pipe_act me a s))"

lemma pipe_plays_run: "pipe_run s \<Longrightarrow> pipe_plays sched s \<Longrightarrow> pipe_run (pipe_play sched s)"
proof (induction sched arbitrary: s)
  case Nil
  then show ?case by (simp add: pipe_play_def)
next
  case (Cons x sched)
  obtain me a where x: "x = (me, a)" by (rule prod.exhaust)
  have "pipe_run (pipe_act me a s)"
    using Cons.prems x by (intro pipe_run.more [OF Cons.prems(1), where me = me and a = a]) (simp add: pipe_step_iff)
  then show ?case using Cons.IH Cons.prems(2) x by (simp add: pipe_play_def)
qed

text \<open>
  C13. A pipe is a first-in first-out queue of at most 512 bytes: in every reachable
  state, with any number of readers and writers, any interleaving and any kills, what
  writers put in is what readers got followed by what the buffer holds. The counters
  may wrap around.
\<close>

theorem pipe_is_fifo:
  assumes "pipe_run s"
  shows "pp_sent s = pp_got s @ ring_contents (pp_pipe s) \<and> length (ring_contents (pp_pipe s)) \<le> 512"
proof -
  have inv: "fifo_inv s" using assms by (rule pipe_run_fifo)
  then have "length (ring_contents (pp_pipe s)) \<le> PIPESIZE"
    unfolding fifo_inv_def by (intro ring.bounded) simp
  with inv show ?thesis by (simp add: fifo_inv_def PIPESIZE_def)
qed

definition two_writes :: "(nat \<times> pipe_action) list" where
  "two_writes = [(0, PWrite [1, 2]), (0, PGo), (1, PWrite [3]), (1, PGo), (2, PRead 2), (2, PGo)]"

theorem pipe_is_fifo_witness:
  "pp_sent (pipe_play two_writes three_procs) = [1, 2] @ ring_contents (pp_pipe (pipe_play two_writes three_procs)) \<and>
   pp_sent (pipe_play two_writes three_procs) = [1, 2, 3]"
proof -
  have r: "pipe_run three_procs" using three_procs_start by (rule pipe_run.start)
  have "pipe_plays two_writes three_procs" by code_simp
  from pipe_is_fifo [OF pipe_plays_run [OF r this]]
  have "pp_sent (pipe_play two_writes three_procs) =
    pp_got (pipe_play two_writes three_procs) @ ring_contents (pp_pipe (pipe_play two_writes three_procs))" ..
  moreover have "pp_got (pipe_play two_writes three_procs) = [1, 2]" by code_simp
  moreover have "pp_sent (pipe_play two_writes three_procs) = [1, 2, 3]" by code_simp
  ultimately show ?thesis by simp
qed



definition killed_run :: "(nat \<times> pipe_action) list" where
  "killed_run = [(0, PRead 1), (0, PGo), (2, PWrite (replicate 513 7)), (1, PKill 3)]"


end
