(* ===== verification/Bio.thy ===== *)
theory Bio
  imports Proc_Table Spinlock
begin

text \<open>
  Sleep locks (\<open>sleeplock.c\<close>), the disk driver (\<open>ide.c\<close>) and the buffer cache
  (\<open>bio.c\<close>, \<open>buf.h\<close>). Buffers are indices into the table \<open>bcache.buf\<close>; the doubly
  linked list through \<open>prev\<close> and \<open>next\<close> is the list of indices in its order, most
  recently used first, and the disk queue through \<open>qnext\<close> is a list of indices too.
\<close>

definition BSIZE :: nat where "BSIZE = 512"
definition NBUF :: nat where "NBUF = 30"
definition FSSIZE :: uint where "FSSIZE = 1000"

type_synonym block = "byte list"

section \<open>Sleep locks\<close>

record sleeplock =
  sl_locked :: bool
  sl_pid :: uint

definition initsleeplock :: "sleeplock \<Rightarrow> sleeplock" where
  "initsleeplock lk = lk\<lparr>sl_locked := False, sl_pid := 0\<rparr>"

text \<open>One round of the loop of \<open>acquiresleep\<close>: the lock is taken, or the process sleeps.\<close>

definition acquiresleep_round ::
  "nat \<Rightarrow> chan \<Rightarrow> sleeplock \<times> ptable \<Rightarrow> bool \<times> sleeplock \<times> ptable" where
  "acquiresleep_round me ch = (\<lambda>(lk, pt).
     if sl_locked lk then (False, lk, sleep_begin me ch pt)
     else (True, lk\<lparr>sl_locked := True, sl_pid := p_pid (proc_at pt me)\<rparr>, pt))"

definition releasesleep :: "chan \<Rightarrow> sleeplock \<times> ptable \<Rightarrow> sleeplock \<times> ptable" where
  "releasesleep ch = (\<lambda>(lk, pt). (lk\<lparr>sl_locked := False, sl_pid := 0\<rparr>, wakeup ch pt))"

definition holdingsleep :: "sleeplock \<Rightarrow> bool" where
  "holdingsleep lk = sl_locked lk"

section \<open>Buffers\<close>

record buf =
  b_valid :: bool
  b_dirty :: bool
  b_dev :: uint
  b_blockno :: uint
  b_lock :: sleeplock
  b_refcnt :: uint
  b_data :: block

record bcache =
  bufs :: "buf list"
  order :: "nat list"    \<comment> \<open>\<open>head.next\<close> first\<close>

definition set_buf :: "nat \<Rightarrow> (buf \<Rightarrow> buf) \<Rightarrow> bcache \<Rightarrow> bcache" where
  "set_buf i f bc = bc\<lparr>bufs := (bufs bc)[i := f (bufs bc ! i)]\<rparr>"

text \<open>\<open>binit\<close> puts one buffer after the other at the head of the list.\<close>

definition binit :: "bcache \<Rightarrow> bcache" where
  "binit bc = fold (\<lambda>i bc. (set_buf i (\<lambda>b. b\<lparr>b_lock := initsleeplock (b_lock b)\<rparr>) bc)\<lparr>order := i # order bc\<rparr>)
     [0..<NBUF] (bc\<lparr>order := []\<rparr>)"

section \<open>The disk driver\<close>

record ide =
  idequeue :: "nat list"
  havedisk1 :: bool

text \<open>\<open>idewait\<close> on the status bytes it reads from port 0x1f7 until the drive is ready.\<close>

fun idewait :: "bool \<Rightarrow> uint list \<Rightarrow> int option" where
  "idewait checkerr [] = None"
| "idewait checkerr (r # rs) =
     (if r AND 0xC0 \<noteq> 0x40 then idewait checkerr rs
      else Some (if checkerr \<and> r AND 0x21 \<noteq> 0 then -1 else 0))"

text \<open>The bytes \<open>idestart\<close> writes to the drive's ports, and whether data follow.\<close>

definition idestart :: "buf option \<Rightarrow> ((uint \<times> uint) list \<times> block option) res" where
  "idestart b = (case b of
       None \<Rightarrow> Inl (Panic ''idestart'')
     | Some b \<Rightarrow>
         if FSSIZE \<le> b_blockno b then Inl (Panic ''incorrect blockno'')
         else let sector = b_blockno b * 1;
                  regs = [(0x3f6, 0), (0x1f2, 1), (0x1f3, sector AND 0xff),
                    (0x1f4, drop_bit 8 sector AND 0xff), (0x1f5, drop_bit 16 sector AND 0xff),
                    (0x1f6, 0xe0 OR push_bit 4 (b_dev b AND 1) OR (drop_bit 24 sector AND 0x0f))]
              in if b_dirty b then Inr (regs @ [(0x1f7, 0x30)], Some (b_data b))
                 else Inr (regs @ [(0x1f7, 0x20)], None))"

text \<open>
  The interrupt handler. \<open>ok\<close> is whether \<open>idewait(1)\<close> finds no error and \<open>sector\<close> what
  the drive then delivers.
\<close>

definition ideintr :: "bool \<Rightarrow> block \<Rightarrow> ide \<times> bcache \<times> ptable \<Rightarrow> (ide \<times> bcache \<times> ptable) res" where
  "ideintr ok sector = (\<lambda>(d, bc, pt). case idequeue d of
       [] \<Rightarrow> Inr (d, bc, pt)
     | i # q \<Rightarrow>
         let d = d\<lparr>idequeue := q\<rparr>;
             bc = (if \<not> b_dirty (bufs bc ! i) \<and> ok then set_buf i (\<lambda>b. b\<lparr>b_data := sector\<rparr>) bc else bc);
             bc = set_buf i (\<lambda>b. b\<lparr>b_valid := True, b_dirty := False\<rparr>) bc;
             pt = wakeup (BufChan i) pt
         in if q \<noteq> [] then mapE (\<lambda>_. (d, bc, pt)) (idestart (Some (bufs bc ! hd q)))
            else Inr (d, bc, pt))"

definition iderw_begin :: "nat \<Rightarrow> ide \<times> bcache \<Rightarrow> (ide \<times> bcache) res" where
  "iderw_begin i = (\<lambda>(d, bc).
     let b = bufs bc ! i in
     if \<not> holdingsleep (b_lock b) then Inl (Panic ''iderw: buf not locked'')
     else if b_valid b \<and> \<not> b_dirty b then Inl (Panic ''iderw: nothing to do'')
     else if b_dev b \<noteq> 0 \<and> \<not> havedisk1 d then Inl (Panic ''iderw: ide disk 1 not present'')
     else let d = d\<lparr>idequeue := idequeue d @ [i]\<rparr>
          in if hd (idequeue d) = i then mapE (\<lambda>_. (d, bc)) (idestart (Some b)) else Inr (d, bc))"

text \<open>One round of the loop of \<open>iderw\<close>: whether the request is finished, else it sleeps.\<close>

definition iderw_round :: "nat \<Rightarrow> nat \<Rightarrow> bcache \<times> ptable \<Rightarrow> bool \<times> ptable" where
  "iderw_round me i = (\<lambda>(bc, pt).
     if \<not> (b_valid (bufs bc ! i) \<and> \<not> b_dirty (bufs bc ! i)) then (False, sleep_begin me (BufChan i) pt)
     else (True, pt))"

section \<open>A request, from its start to its interrupt\<close>

text \<open>
  The contents of the drives, by the low bit of the device number and by sector. The
  drive decodes the sector number from the ports 0x1f3 to 0x1f6 (28-bit LBA).
\<close>

type_synonym media = "uint \<times> uint \<Rightarrow> block"

definition port :: "(uint \<times> uint) list \<Rightarrow> uint \<Rightarrow> uint" where
  "port regs p = (case map_of (rev regs) p of None \<Rightarrow> 0 | Some v \<Rightarrow> v)"

definition lba :: "(uint \<times> uint) list \<Rightarrow> uint \<times> uint" where
  "lba regs = (drop_bit 4 (port regs 0x1f6) AND 1,
     port regs 0x1f3 OR push_bit 8 (port regs 0x1f4) OR push_bit 16 (port regs 0x1f5)
       OR push_bit 24 (port regs 0x1f6 AND 0xf))"

text \<open>What a request for buffer \<open>b\<close> does to the media, and the sector it delivers.\<close>

definition serve :: "buf \<Rightarrow> media \<Rightarrow> media \<times> block" where
  "serve b md = (case idestart (Some b) of
       Inl e \<Rightarrow> (md, [])
     | Inr (regs, Some bytes) \<Rightarrow> (md(lba regs := bytes), [])
     | Inr (regs, None) \<Rightarrow> (md, md (lba regs)))"

text \<open>\<open>iderw\<close> when the drive is idle and reports no error.\<close>

definition iderw :: "nat \<Rightarrow> media \<times> bcache \<Rightarrow> (media \<times> bcache) res" where
  "iderw i = (\<lambda>(md, bc).
     let b = bufs bc ! i in
     if \<not> holdingsleep (b_lock b) then Inl (Panic ''iderw: buf not locked'')
     else if b_valid b \<and> \<not> b_dirty b then Inl (Panic ''iderw: nothing to do'')
     else if FSSIZE \<le> b_blockno b then Inl (Panic ''incorrect blockno'')
     else if b_dirty b then
       Inr (md((b_dev b AND 1, b_blockno b) := b_data b),
            set_buf i (\<lambda>b. b\<lparr>b_valid := True, b_dirty := False\<rparr>) bc)
     else Inr (md, set_buf i (\<lambda>b. b\<lparr>b_data := md (b_dev b AND 1, b_blockno b),
            b_valid := True, b_dirty := False\<rparr>) bc))"

lemma lba_idestart:
  assumes "b_blockno b < FSSIZE"
  shows "\<exists>regs. idestart (Some b) = Inr (regs, if b_dirty b then Some (b_data b) else None) \<and>
    lba regs = (b_dev b AND 1, b_blockno b)"
proof -
  let ?s = "b_blockno b"
  have s: "take_bit 10 ?s = ?s"
  proof -
    have "unat ?s < 1000" using assms by (simp add: FSSIZE_def word_less_nat_alt)
    then have "take_bit 10 (unat ?s) = unat ?s" by (simp add: take_bit_nat_eq_self_iff)
    then have "unat (take_bit 10 ?s) = unat ?s" by (simp add: unsigned_take_bit_eq)
    then show ?thesis by (simp only: word_unat_eq_iff)
  qed
  have high: "\<not> bit ?s n" if "10 \<le> n" for n
    using that by (subst s [symmetric]) (simp add: bit_take_bit_iff)
  have d16: "drop_bit 16 ?s = 0" "drop_bit 24 ?s = 0"
    by (rule bit_word_eqI; simp add: bit_drop_bit_eq high)+
  have m: "(0xff :: uint) = mask 8" by (simp add: mask_eq_exp_minus_1)
  have lo: "?s AND 0xff = take_bit 8 ?s" by (simp only: m take_bit_eq_mask)
  have hi: "drop_bit 8 ?s AND 0xff = drop_bit 8 ?s"
  proof (rule bit_word_eqI)
    fix n assume "n < LENGTH(32)"
    then show "bit (drop_bit 8 ?s AND 0xff) n = bit (drop_bit 8 ?s) n"
      using high [of "8 + n"] by (cases "n < 8") (simp_all add: m bit_simps)
  qed
  have join: "take_bit 8 ?s OR push_bit 8 (drop_bit 8 ?s) = ?s"
  proof (rule bit_word_eqI)
    fix n assume "n < LENGTH(32)"
    then show "bit (take_bit 8 ?s OR push_bit 8 (drop_bit 8 ?s)) n = bit ?s n"
      by (cases "n < 8") (simp_all add: bit_simps)
  qed
  have dev: "b_dev b AND 1 = 0 \<or> b_dev b AND 1 = 1"
    by (simp only: and_one_eq mod2_eq_if) simp
  define r6 :: uint where "r6 = 0xe0 OR push_bit 4 (b_dev b AND 1)"
  have r6: "r6 AND 0xf = 0" "drop_bit 4 r6 AND 1 = b_dev b AND 1"
    using dev by (auto simp: push_bit_eq_mult r6_def)
  let ?regs = "[(0x3f6, 0), (0x1f2, 1), (0x1f3, take_bit 8 ?s), (0x1f4, drop_bit 8 ?s), (0x1f5, 0), (0x1f6, r6)]
    :: (uint \<times> uint) list"
  have id: "idestart (Some b) = (if b_dirty b then Inr (?regs @ [(0x1f7, 0x30)], Some (b_data b))
      else Inr (?regs @ [(0x1f7, 0x20)], None))"
    using assms by (simp add: idestart_def Let_def not_le lo hi d16 r6_def)
  have "lba (?regs @ [(0x1f7, c)]) = (b_dev b AND 1, ?s)" for c
    by (simp add: lba_def port_def r6 join)
  then show ?thesis unfolding id by (intro exI [of _ "?regs @ [(0x1f7, if b_dirty b then 0x30 else 0x20)]"]) simp
qed

lemma serve_eq:
  assumes "b_blockno b < FSSIZE"
  shows "serve b md = (if b_dirty b then (md((b_dev b AND 1, b_blockno b) := b_data b), [])
    else (md, md (b_dev b AND 1, b_blockno b)))"
  using lba_idestart [OF assms] by (auto simp: serve_def)



section \<open>The buffer cache\<close>

text \<open>The part of \<open>bget\<close> that holds \<open>bcache.lock\<close>.\<close>

definition bget :: "uint \<Rightarrow> uint \<Rightarrow> bcache \<Rightarrow> (nat \<times> bcache) res" where
  "bget dev blockno bc =
     (case List.find (\<lambda>i. b_dev (bufs bc ! i) = dev \<and> b_blockno (bufs bc ! i) = blockno) (order bc) of
        Some i \<Rightarrow> Inr (i, set_buf i (\<lambda>b. b\<lparr>b_refcnt := b_refcnt b + 1\<rparr>) bc)
      | None \<Rightarrow>
          (case List.find (\<lambda>i. b_refcnt (bufs bc ! i) = 0 \<and> \<not> b_dirty (bufs bc ! i)) (rev (order bc)) of
             Some i \<Rightarrow> Inr (i, set_buf i (\<lambda>b. b\<lparr>b_dev := dev, b_blockno := blockno, b_valid := False,
                 b_dirty := False, b_refcnt := 1\<rparr>) bc)
           | None \<Rightarrow> Inl (Panic ''bget: no buffers'')))"

text \<open>\<open>acquiresleep\<close> when the lock is free.\<close>

definition lock_buf :: "uint \<Rightarrow> nat \<Rightarrow> bcache \<Rightarrow> bcache" where
  "lock_buf pid i = set_buf i (\<lambda>b. b\<lparr>b_lock := \<lparr>sl_locked = True, sl_pid = pid\<rparr>\<rparr>)"

definition bread :: "uint \<Rightarrow> uint \<Rightarrow> uint \<Rightarrow> media \<times> bcache \<Rightarrow> (nat \<times> media \<times> bcache) res" where
  "bread pid dev blockno = (\<lambda>(md, bc).
     bindE (bget dev blockno bc) (\<lambda>(i, bc).
       let bc = lock_buf pid i bc
       in if \<not> b_valid (bufs bc ! i) then mapE (\<lambda>(md, bc). (i, md, bc)) (iderw i (md, bc))
          else Inr (i, md, bc)))"

definition bwrite :: "nat \<Rightarrow> media \<times> bcache \<Rightarrow> (media \<times> bcache) res" where
  "bwrite i = (\<lambda>(md, bc).
     if \<not> holdingsleep (b_lock (bufs bc ! i)) then Inl (Panic ''bwrite'')
     else iderw i (md, set_buf i (\<lambda>b. b\<lparr>b_dirty := True\<rparr>) bc))"

definition brelse :: "nat \<Rightarrow> bcache \<times> ptable \<Rightarrow> (bcache \<times> ptable) res" where
  "brelse i = (\<lambda>(bc, pt).
     if \<not> holdingsleep (b_lock (bufs bc ! i)) then Inl (Panic ''brelse'')
     else
       let (lk, pt) = releasesleep (BufLockChan i) (b_lock (bufs bc ! i), pt);
           bc = set_buf i (\<lambda>b. b\<lparr>b_lock := lk\<rparr>) bc;
           bc = set_buf i (\<lambda>b. b\<lparr>b_refcnt := b_refcnt b - 1\<rparr>) bc;
           bc = (if b_refcnt (bufs bc ! i) = 0 then bc\<lparr>order := i # remove1 i (order bc)\<rparr> else bc)
       in Inr (bc, pt))"

section \<open>The cache's invariant\<close>

text \<open>
  \<open>cached bc b\<close> is the buffer that holds block \<open>b\<close> of the root device. A valid buffer
  that is not dirty holds what the disk holds.
\<close>

definition holds_block :: "uint \<Rightarrow> uint \<Rightarrow> buf \<Rightarrow> bool" where
  "holds_block dev b x \<longleftrightarrow> b_dev x = dev \<and> b_blockno x = b"

definition bcache_inv :: "bcache \<Rightarrow> bool" where
  "bcache_inv bc \<longleftrightarrow>
     distinct (order bc) \<and> set (order bc) = {..<length (bufs bc)} \<and>
     (\<forall>i < length (bufs bc). \<forall>j < length (bufs bc). \<forall>dev b. dev \<noteq> 0 \<longrightarrow>
        holds_block dev b (bufs bc ! i) \<longrightarrow> holds_block dev b (bufs bc ! j) \<longrightarrow> i = j) \<and>
     (\<forall>i < length (bufs bc). b_dirty (bufs bc ! i) \<longrightarrow> b_valid (bufs bc ! i))"

definition coherent :: "media \<Rightarrow> bcache \<Rightarrow> bool" where
  "coherent md bc \<longleftrightarrow> (\<forall>x \<in> set (bufs bc). b_valid x \<longrightarrow> \<not> b_dirty x \<longrightarrow>
     b_data x = md (b_dev x AND 1, b_blockno x))"

text \<open>The latest contents of a block: its buffer's if it is dirty, else the disk's.\<close>

definition latest :: "media \<Rightarrow> bcache \<Rightarrow> uint \<Rightarrow> uint \<Rightarrow> block" where
  "latest md bc dev b =
     (case scan (\<lambda>x. holds_block dev b x \<and> b_dirty x) (bufs bc) of
        Some i \<Rightarrow> b_data (bufs bc ! i)
      | None \<Rightarrow> md (dev AND 1, b))"

lemma coherent_nth: "coherent md bc \<longleftrightarrow> (\<forall>j < length (bufs bc). b_valid (bufs bc ! j) \<longrightarrow>
    \<not> b_dirty (bufs bc ! j) \<longrightarrow> b_data (bufs bc ! j) = md (b_dev (bufs bc ! j) AND 1, b_blockno (bufs bc ! j)))"
  by (simp add: coherent_def all_set_conv_all_nth)

lemma find_Some_mem: "List.find P xs = Some x \<Longrightarrow> x \<in> set xs \<and> P x"
  by (induction xs) (auto split: if_splits)

lemma find_None_mem: "List.find P xs = None \<longleftrightarrow> (\<forall>x \<in> set xs. \<not> P x)"
  by (induction xs) auto

lemma bget_cases:
  assumes inv: "bcache_inv bc" and get: "bget dev b bc = Inr (i, bc')"
  obtains
    (hit) "i < length (bufs bc)" "holds_block dev b (bufs bc ! i)"
      "bc' = set_buf i (\<lambda>x. x\<lparr>b_refcnt := b_refcnt x + 1\<rparr>) bc"
  | (miss) "i < length (bufs bc)" "\<And>j. j < length (bufs bc) \<Longrightarrow> \<not> holds_block dev b (bufs bc ! j)"
      "b_refcnt (bufs bc ! i) = 0" "\<not> b_dirty (bufs bc ! i)"
      "bc' = set_buf i (\<lambda>x. x\<lparr>b_dev := dev, b_blockno := b, b_valid := False, b_dirty := False, b_refcnt := 1\<rparr>) bc"
proof -
  have ord: "j \<in> set (order bc) \<longleftrightarrow> j < length (bufs bc)" for j using inv by (auto simp: bcache_inv_def)
  show ?thesis
  proof (cases "List.find (\<lambda>i. b_dev (bufs bc ! i) = dev \<and> b_blockno (bufs bc ! i) = b) (order bc)")
    case (Some j)
    with get have "i = j" "bc' = set_buf i (\<lambda>x. x\<lparr>b_refcnt := b_refcnt x + 1\<rparr>) bc"
      by (auto simp: bget_def)
    moreover have "j < length (bufs bc)" "holds_block dev b (bufs bc ! j)"
      using find_Some_mem [OF Some] ord by (auto simp: holds_block_def)
    ultimately show ?thesis using hit by blast
  next
    case None
    then have n: "\<not> holds_block dev b (bufs bc ! j)" if "j < length (bufs bc)" for j
      using that ord by (auto simp: find_None_mem holds_block_def)
    from get None obtain j where
      j: "List.find (\<lambda>i. b_refcnt (bufs bc ! i) = 0 \<and> \<not> b_dirty (bufs bc ! i)) (rev (order bc)) = Some j"
      by (auto simp: bget_def split: option.splits)
    from find_Some_mem [OF j] ord have "j < length (bufs bc)" "b_refcnt (bufs bc ! j) = 0" "\<not> b_dirty (bufs bc ! j)"
      by auto
    moreover from get None j have "i = j" "bc' = set_buf i (\<lambda>x. x\<lparr>b_dev := dev, b_blockno := b,
        b_valid := False, b_dirty := False, b_refcnt := 1\<rparr>) bc"
      by (auto simp: bget_def)
    ultimately show ?thesis using miss n by blast
  qed
qed

lemma bufs_set_buf [simp]: "bufs (set_buf i f bc) = (bufs bc)[i := f (bufs bc ! i)]"
  "order (set_buf i f bc) = order bc"
  by (simp_all add: set_buf_def)

lemma bcache_inv_set:
  assumes "bcache_inv bc"
    and "\<And>x. b_dev (f x) = b_dev x \<and> b_blockno (f x) = b_blockno x"
    and "b_dirty (f (bufs bc ! i)) \<Longrightarrow> b_valid (f (bufs bc ! i))"
  shows "bcache_inv (set_buf i f bc)"
  using assms by (auto simp: bcache_inv_def holds_block_def nth_update)

text \<open>A buffer is taken over only if nobody uses it and it is not dirty.\<close>

lemma bget_inv:
  assumes inv: "bcache_inv bc" and get: "bget dev b bc = Inr (i, bc')" and dev: "dev \<noteq> 0"
  shows "bcache_inv bc'" and "i < length (bufs bc')" and "holds_block dev b (bufs bc' ! i)"
    and "length (bufs bc') = length (bufs bc)" and "order bc' = order bc"
    and "j \<noteq> i \<Longrightarrow> bufs bc' ! j = bufs bc ! j"
    and "b_refcnt (bufs bc ! i) \<noteq> 0 \<or> b_dirty (bufs bc ! i) \<Longrightarrow>
      bufs bc' ! i = (bufs bc ! i)\<lparr>b_refcnt := b_refcnt (bufs bc ! i) + 1\<rparr>"
proof -
  from inv get have "bcache_inv bc' \<and> i < length (bufs bc') \<and> holds_block dev b (bufs bc' ! i) \<and>
    length (bufs bc') = length (bufs bc) \<and> order bc' = order bc \<and>
    (j \<noteq> i \<longrightarrow> bufs bc' ! j = bufs bc ! j) \<and>
    (b_refcnt (bufs bc ! i) \<noteq> 0 \<or> b_dirty (bufs bc ! i) \<longrightarrow>
      bufs bc' ! i = (bufs bc ! i)\<lparr>b_refcnt := b_refcnt (bufs bc ! i) + 1\<rparr>)"
  proof (cases rule: bget_cases)
    case hit
    have "bcache_inv bc'"
      unfolding hit(3) using inv by (rule bcache_inv_set) (use inv hit(1) in \<open>auto simp: bcache_inv_def\<close>)
    with hit show ?thesis by (simp add: holds_block_def nth_update)
  next
    case miss
    have "bcache_inv bc'"
      using inv miss(1,2) dev unfolding miss(5) bcache_inv_def
      by (auto simp: nth_update holds_block_def)
    with miss show ?thesis by (simp add: holds_block_def nth_update)
  qed
  then show "bcache_inv bc'" "i < length (bufs bc')" "holds_block dev b (bufs bc' ! i)"
    "length (bufs bc') = length (bufs bc)" "order bc' = order bc" "j \<noteq> i \<Longrightarrow> bufs bc' ! j = bufs bc ! j"
    "b_refcnt (bufs bc ! i) \<noteq> 0 \<or> b_dirty (bufs bc ! i) \<Longrightarrow>
      bufs bc' ! i = (bufs bc ! i)\<lparr>b_refcnt := b_refcnt (bufs bc ! i) + 1\<rparr>" by blast+
qed

lemma latest_dirty:
  assumes inv: "bcache_inv bc" and i: "i < length (bufs bc)" and h: "holds_block dev b (bufs bc ! i)"
    and dev: "dev \<noteq> 0"
  shows "latest md bc dev b = (if b_dirty (bufs bc ! i) then b_data (bufs bc ! i) else md (dev AND 1, b))"
proof -
  let ?P = "\<lambda>x. holds_block dev b x \<and> b_dirty x"
  have uniq: "j < length (bufs bc) \<Longrightarrow> ?P (bufs bc ! j) \<Longrightarrow> j = i" for j
    using inv i h dev unfolding bcache_inv_def by blast
  show ?thesis
  proof (cases "b_dirty (bufs bc ! i)")
    case True
    then obtain j where "scan ?P (bufs bc) = Some j" using scan_exists [OF i, of ?P] h by blast
    moreover from this have "j = i" using uniq scan_Some_less scan_Some_holds by blast
    ultimately show ?thesis using True by (simp add: latest_def)
  next
    case False
    have "scan ?P (bufs bc) = None"
    proof (rule ccontr)
      assume "scan ?P (bufs bc) \<noteq> None"
      then obtain j where "scan ?P (bufs bc) = Some j" by blast
      then show False using uniq scan_Some_less scan_Some_holds False by blast
    qed
    then show ?thesis using False by (simp add: latest_def)
  qed
qed

lemma latest_absent:
  "(\<And>j. j < length (bufs bc) \<Longrightarrow> b_dirty (bufs bc ! j) \<Longrightarrow> \<not> holds_block dev b (bufs bc ! j)) \<Longrightarrow>
     latest md bc dev b = md (dev AND 1, b)"
proof -
  assume n: "\<And>j. j < length (bufs bc) \<Longrightarrow> b_dirty (bufs bc ! j) \<Longrightarrow> \<not> holds_block dev b (bufs bc ! j)"
  have "scan (\<lambda>x. holds_block dev b x \<and> b_dirty x) (bufs bc) = None"
    using n by (auto simp: scan_from_None in_set_conv_nth)
  then show ?thesis by (simp add: latest_def)
qed

text \<open>Two caches whose dirty buffers agree show the same blocks.\<close>

definition same_dirty :: "bcache \<Rightarrow> bcache \<Rightarrow> bool" where
  "same_dirty bc bc' \<longleftrightarrow> length (bufs bc') = length (bufs bc) \<and> (\<forall>j < length (bufs bc).
     b_dirty (bufs bc' ! j) = b_dirty (bufs bc ! j) \<and>
     (b_dirty (bufs bc ! j) \<longrightarrow> b_dev (bufs bc' ! j) = b_dev (bufs bc ! j) \<and>
        b_blockno (bufs bc' ! j) = b_blockno (bufs bc ! j) \<and> b_data (bufs bc' ! j) = b_data (bufs bc ! j)))"

lemma latest_same:
  assumes "same_dirty bc bc'" and "bcache_inv bc" "bcache_inv bc'" and dev: "dev \<noteq> 0"
  shows "latest md bc' dev b = latest md bc dev b"
proof (cases "\<exists>j < length (bufs bc). b_dirty (bufs bc ! j) \<and> holds_block dev b (bufs bc ! j)")
  case True
  then obtain j where j: "j < length (bufs bc)" "b_dirty (bufs bc ! j)" "holds_block dev b (bufs bc ! j)" by blast
  with assms(1) have j': "j < length (bufs bc')" "b_dirty (bufs bc' ! j)" "holds_block dev b (bufs bc' ! j)"
    "b_data (bufs bc' ! j) = b_data (bufs bc ! j)"
    by (auto simp: same_dirty_def holds_block_def)
  show ?thesis
    using latest_dirty [OF assms(2) j(1,3) dev] latest_dirty [OF assms(3) j'(1,3) dev] j j' by simp
next
  case False
  have "latest md bc dev b = md (dev AND 1, b)" by (rule latest_absent) (use False in blast)
  moreover have "latest md bc' dev b = md (dev AND 1, b)"
    by (rule latest_absent) (use False assms(1) in \<open>auto simp: same_dirty_def holds_block_def\<close>)
  ultimately show ?thesis by simp
qed

section \<open>Reading, writing and releasing\<close>

lemma bread_spec:
  assumes inv: "bcache_inv bc" and co: "coherent md bc" and dev: "dev \<noteq> 0"
    and rd: "bread pid dev b (md, bc) = Inr (i, md', bc')"
  shows "md' = md \<and> bcache_inv bc' \<and> coherent md bc' \<and> i < length (bufs bc') \<and>
    holds_block dev b (bufs bc' ! i) \<and> b_data (bufs bc' ! i) = latest md bc dev b \<and>
    b_valid (bufs bc' ! i) \<and> sl_locked (b_lock (bufs bc' ! i)) \<and>
    (\<forall>dev' b'. dev' \<noteq> 0 \<longrightarrow> latest md bc' dev' b' = latest md bc dev' b')"
proof -
  from rd obtain bc1 where g: "bget dev b bc = Inr (i, bc1)"
    by (auto simp: bread_def Let_def split: if_splits)
  note gi = bget_inv [OF inv g dev]
  let ?bc2 = "lock_buf pid i bc1"
  have inv2: "bcache_inv ?bc2"
    unfolding lock_buf_def by (rule bcache_inv_set [OF gi(1)]) (use gi(1,2) in \<open>auto simp: bcache_inv_def\<close>)
  have h2: "holds_block dev b (bufs ?bc2 ! i)" "i < length (bufs ?bc2)"
    using gi(2,3) by (simp_all add: lock_buf_def holds_block_def nth_update)
  have lk: "sl_locked (b_lock (bufs ?bc2 ! i))" using gi(2) by (simp add: lock_buf_def nth_update)
  have sd2: "same_dirty bc ?bc2" and v2: "b_valid (bufs ?bc2 ! i) \<Longrightarrow> bufs bc ! i = (bufs ?bc2 ! i)
      \<lparr>b_refcnt := b_refcnt (bufs bc ! i), b_lock := b_lock (bufs bc ! i)\<rparr>"
  proof -
    from inv g have "same_dirty bc ?bc2 \<and> (b_valid (bufs ?bc2 ! i) \<longrightarrow> bufs bc ! i = (bufs ?bc2 ! i)
      \<lparr>b_refcnt := b_refcnt (bufs bc ! i), b_lock := b_lock (bufs bc ! i)\<rparr>)"
    proof (cases rule: bget_cases)
      case hit
      then show ?thesis by (simp add: same_dirty_def lock_buf_def nth_update)
    next
      case miss
      then show ?thesis by (simp add: same_dirty_def lock_buf_def nth_update)
    qed
    then show "same_dirty bc ?bc2" "b_valid (bufs ?bc2 ! i) \<Longrightarrow> bufs bc ! i = (bufs ?bc2 ! i)
      \<lparr>b_refcnt := b_refcnt (bufs bc ! i), b_lock := b_lock (bufs bc ! i)\<rparr>" by blast+
  qed
  have co2: "coherent md ?bc2"
  proof -
    from inv g show ?thesis
    proof (cases rule: bget_cases)
      case hit
      then show ?thesis using co by (auto simp: coherent_nth lock_buf_def nth_update)
    next
      case miss
      then show ?thesis using co by (auto simp: coherent_nth lock_buf_def nth_update)
    qed
  qed
  have lat2: "dev' \<noteq> 0 \<Longrightarrow> latest md ?bc2 dev' b' = latest md bc dev' b'" for dev' b'
    by (rule latest_same [OF sd2 inv inv2])
  show ?thesis
  proof (cases "b_valid (bufs ?bc2 ! i)")
    case True
    then have r: "md' = md" "bc' = ?bc2" using rd g by (simp_all add: bread_def Let_def)
    have "b_data (bufs ?bc2 ! i) = latest md ?bc2 dev b"
    proof (cases "b_dirty (bufs ?bc2 ! i)")
      case False
      have "b_data (bufs ?bc2 ! i) = md (b_dev (bufs ?bc2 ! i) AND 1, b_blockno (bufs ?bc2 ! i))"
        using co2 True False h2(2) unfolding coherent_def by (metis nth_mem)
      then show ?thesis using latest_dirty [OF inv2 h2(2,1) dev] False h2(1) by (simp add: holds_block_def)
    qed (use latest_dirty [OF inv2 h2(2,1) dev] in simp)
    then show ?thesis using r inv2 co2 h2 True lk lat2 dev by simp
  next
    case False
    have clean: "\<not> b_dirty (bufs ?bc2 ! i)" using inv2 h2(2) False by (auto simp: bcache_inv_def)
    from rd g False have io: "iderw i (md, ?bc2) = Inr (md', bc')" by (auto simp: bread_def Let_def)
    let ?f = "\<lambda>x. x\<lparr>b_data := md (b_dev x AND 1, b_blockno x), b_valid := True, b_dirty := False\<rparr>"
    from io have r: "md' = md" "bc' = set_buf i ?f ?bc2"
      using clean by (auto simp: iderw_def Let_def split: if_splits)
    have inv3: "bcache_inv bc'" unfolding r by (rule bcache_inv_set [OF inv2]) simp_all
    have co3: "coherent md bc'"
      using co2 unfolding r coherent_nth by (auto simp: nth_update)
    have "same_dirty ?bc2 bc'" using clean by (auto simp: same_dirty_def r nth_update)
    from latest_same [OF this inv2 inv3] have lat3: "dev' \<noteq> 0 \<Longrightarrow> latest md bc' dev' b' = latest md bc dev' b'"
      for dev' b' using lat2 by simp
    have "b_data (bufs bc' ! i) = md (dev AND 1, b)" using h2 by (simp add: r holds_block_def nth_update)
    moreover have "latest md bc dev b = md (dev AND 1, b)"
      using lat2 [OF dev] latest_dirty [OF inv2 h2(2,1) dev] clean by metis
    ultimately show ?thesis using r(1) inv3 co3 h2 lk lat3 dev by (simp add: r(2) holds_block_def nth_update)
  qed
qed

lemma bwrite_spec:
  assumes inv: "bcache_inv bc" and co: "coherent md bc" and dev: "dev = 1"
    and devs: "\<forall>x \<in> set (bufs bc). b_dev x = 0 \<and> \<not> b_valid x \<or> b_dev x = 1"
    and i: "i < length (bufs bc)" "holds_block dev b (bufs bc ! i)"
    and wr: "bwrite i (md, bc) = Inr (md', bc')"
  shows "bcache_inv bc' \<and> coherent md' bc' \<and> md' = md((1, b) := b_data (bufs bc ! i)) \<and>
    \<not> b_dirty (bufs bc' ! i) \<and> latest md' bc' dev b = b_data (bufs bc ! i)"
proof -
  let ?bc1 = "set_buf i (\<lambda>x. x\<lparr>b_dirty := True\<rparr>) bc"
  let ?f = "\<lambda>x. x\<lparr>b_valid := True, b_dirty := False\<rparr>"
  have h: "b_dev (bufs bc ! i) = 1" "b_blockno (bufs bc ! i) = b" using i dev by (simp_all add: holds_block_def)
  from wr have io: "iderw i (md, ?bc1) = Inr (md', bc')" by (auto simp: bwrite_def split: if_splits)
  then have r: "md' = md((1, b) := b_data (bufs bc ! i))" "bc' = set_buf i ?f ?bc1"
    using i h by (auto simp: iderw_def Let_def nth_update split: if_splits)
  have b: "bufs bc' = (bufs bc)[i := (bufs bc ! i)\<lparr>b_valid := True, b_dirty := False\<rparr>]"
    using i by (simp add: r set_buf_def)
  have inv': "bcache_inv bc'"
    using inv unfolding bcache_inv_def b by (auto simp: r nth_update holds_block_def)
  have "coherent md' bc'"
    unfolding coherent_def
  proof (intro ballI impI)
    fix x assume "x \<in> set (bufs bc')" and v: "b_valid x" "\<not> b_dirty x"
    then obtain j where j: "j < length (bufs bc)" "x = bufs bc' ! j" by (auto simp: in_set_conv_nth b)
    show "b_data x = md' (b_dev x AND 1, b_blockno x)"
    proof (cases "j = i")
      case True
      then show ?thesis using j i h by (simp add: b r nth_update)
    next
      case False
      then have x: "x = bufs bc ! j" using j by (simp add: b)
      then have d: "b_dev x = 1" using devs j v by auto
      have "b_blockno x \<noteq> b"
        using inv i j False d x h dev unfolding bcache_inv_def holds_block_def by (metis zero_neq_one)
      then show ?thesis using co x j v d by (simp add: coherent_def r)
    qed
  qed
  moreover have "latest md' bc' dev b = md' (dev AND 1, b)"
    using latest_dirty [OF inv', of i dev b] i h dev by (simp add: b nth_update holds_block_def)
  ultimately show ?thesis using inv' i dev by (simp add: r nth_update)
qed

lemma brelse_spec:
  assumes inv: "bcache_inv bc" and i: "i < length (bufs bc)" and rl: "brelse i (bc, pt) = Inr (bc', pt')"
  shows "bcache_inv bc' \<and> (\<forall>md. coherent md bc \<longrightarrow> coherent md bc') \<and>
    (\<forall>md dev b. dev \<noteq> 0 \<longrightarrow> latest md bc' dev b = latest md bc dev b) \<and> \<not> asleep pt' p (BufLockChan i)"
proof -
  let ?f = "\<lambda>x. x\<lparr>b_lock := (b_lock x)\<lparr>sl_locked := False, sl_pid := 0\<rparr>, b_refcnt := b_refcnt x - 1\<rparr>"
  from rl have pt: "pt' = wakeup (BufLockChan i) pt" and b: "bufs bc' = (bufs bc)[i := ?f (bufs bc ! i)]"
    and o: "order bc' = order bc \<or> order bc' = i # remove1 i (order bc)"
    using i by (auto simp: brelse_def releasesleep_def Let_def set_buf_def split: if_splits)
  have "i \<in> set (order bc)" "distinct (order bc)" using inv i by (auto simp: bcache_inv_def)
  then have "set (order bc') = set (order bc) \<and> distinct (order bc')"
    using o by (auto simp: set_remove1_eq)
  then have inv': "bcache_inv bc'"
    using inv unfolding bcache_inv_def b by (auto simp: nth_update holds_block_def)
  moreover have "coherent md bc'" if "coherent md bc" for md
    using that by (auto simp: coherent_nth b nth_update)
  moreover have "same_dirty bc bc'" by (auto simp: same_dirty_def b nth_update)
  then have "dev \<noteq> 0 \<Longrightarrow> latest md bc' dev b = latest md bc dev b" for md dev b
    using latest_same [OF _ inv inv'] by blast
  ultimately show ?thesis by (simp add: pt asleep_wakeup)
qed

section \<open>Runs of the cache\<close>

text \<open>
  The callers of the cache: a process takes a block with \<open>bread\<close> (whose \<open>acquiresleep\<close>
  waits until no other process has it), changes the data it holds and passes them on with
  \<open>bwrite\<close> or, as \<open>log_write\<close> does, by setting \<open>B_DIRTY\<close>, and lets go with \<open>brelse\<close>.
  \<open>cur\<close> is what was last put in each block.
\<close>

definition zero_buf :: buf where
  "zero_buf = \<lparr>b_valid = False, b_dirty = False, b_dev = 0, b_blockno = 0,
     b_lock = \<lparr>sl_locked = False, sl_pid = 0\<rparr>, b_refcnt = 0, b_data = replicate BSIZE 0\<rparr>"

definition boot_cache :: bcache where
  "boot_cache = binit \<lparr>bufs = replicate NBUF zero_buf, order = []\<rparr>"

definition buf_held :: "bcache \<Rightarrow> nat \<Rightarrow> bool" where
  "buf_held bc i \<longleftrightarrow> i < length (bufs bc) \<and> sl_locked (b_lock (bufs bc ! i))"

inductive cache_run :: "(uint \<Rightarrow> block) \<Rightarrow> media \<Rightarrow> bcache \<Rightarrow> bool" where
  start: "cache_run (\<lambda>b. md (1, b)) md boot_cache"
| take: "cache_run cur md bc \<Longrightarrow> bread pid 1 b (md, bc) = Inr (i, md', bc') \<Longrightarrow> \<not> buf_held bc i \<Longrightarrow>
    cache_run cur md' bc'"
| put: "cache_run cur md bc \<Longrightarrow> buf_held bc i \<Longrightarrow>
    bwrite i (md, set_buf i (\<lambda>x. x\<lparr>b_data := d\<rparr>) bc) = Inr (md', bc') \<Longrightarrow>
    cache_run (cur(b_blockno (bufs bc ! i) := d)) md' bc'"
| pin: "cache_run cur md bc \<Longrightarrow> buf_held bc i \<Longrightarrow>
    cache_run (cur(b_blockno (bufs bc ! i) := d)) md (set_buf i (\<lambda>x. x\<lparr>b_data := d, b_dirty := True\<rparr>) bc)"
| release: "cache_run cur md bc \<Longrightarrow> buf_held bc i \<Longrightarrow> brelse i (bc, pt) = Inr (bc', pt') \<Longrightarrow> cache_run cur md bc'"

definition cache_ok :: "(uint \<Rightarrow> block) \<Rightarrow> media \<Rightarrow> bcache \<Rightarrow> bool" where
  "cache_ok cur md bc \<longleftrightarrow> bcache_inv bc \<and> coherent md bc \<and> length (bufs bc) = NBUF \<and>
     (\<forall>x \<in> set (bufs bc). (b_dev x = 0 \<and> \<not> b_valid x \<and> \<not> sl_locked (b_lock x) \<or> b_dev x = 1) \<and>
        b_refcnt x = of_bool (sl_locked (b_lock x)) \<and> (sl_locked (b_lock x) \<longrightarrow> b_valid x)) \<and>
     (\<forall>b. latest md bc 1 b = cur b)"

lemma ball_list_update: "\<forall>y \<in> set xs. P y \<Longrightarrow> P x \<Longrightarrow> \<forall>y \<in> set (xs[i := x]). P y"
  using set_update_subset_insert [of xs i x] by blast

lemma boot_cache_eq: "boot_cache = \<lparr>bufs = replicate NBUF zero_buf, order = rev [0..<NBUF]\<rparr>"
proof -
  have "fold (\<lambda>i bc. (set_buf i (\<lambda>b. b\<lparr>b_lock := initsleeplock (b_lock b)\<rparr>) bc)\<lparr>order := i # order bc\<rparr>) is
      \<lparr>bufs = replicate n zero_buf, order = os\<rparr> = \<lparr>bufs = replicate n zero_buf, order = rev is @ os\<rparr>"
    if "set is \<subseteq> {..<n}" for "is" n os
    using that
  proof (induction "is" arbitrary: os)
    case (Cons i "is")
    have "zero_buf\<lparr>b_lock := initsleeplock (b_lock zero_buf)\<rparr> = zero_buf"
      by (simp add: zero_buf_def initsleeplock_def)
    moreover have "(replicate n zero_buf)[i := zero_buf] = replicate n zero_buf"
      using Cons.prems by (simp add: list_update_same_conv)
    ultimately show ?case using Cons by (simp add: set_buf_def)
  qed simp
  from this [of "[0..<NBUF]" NBUF "[]"] show ?thesis
    by (simp add: boot_cache_def binit_def atLeast0LessThan)
qed

lemma boot_cache_ok: "cache_ok (\<lambda>b. md (1, b)) md boot_cache"
proof -
  have "latest md boot_cache 1 b = md (1, b)" for b
    using latest_absent [of boot_cache 1 b md] by (simp add: boot_cache_eq zero_buf_def)
  then show ?thesis
    by (auto simp: cache_ok_def boot_cache_eq bcache_inv_def coherent_def zero_buf_def holds_block_def)
qed

text \<open>What taking, writing and releasing do to the buffers.\<close>

lemma bread_bufs:
  assumes inv: "bcache_inv bc" and rd: "bread pid dev b (md, bc) = Inr (i, md', bc')"
  shows "i < length (bufs bc) \<and> (\<exists>x. bufs bc' = (bufs bc)[i := x] \<and> b_dev x = dev \<and>
    b_lock x = \<lparr>sl_locked = True, sl_pid = pid\<rparr> \<and>
    b_refcnt x = (if holds_block dev b (bufs bc ! i) then b_refcnt (bufs bc ! i) + 1 else 1))"
proof -
  from rd obtain bc1 where g: "bget dev b bc = Inr (i, bc1)"
    by (auto simp: bread_def Let_def split: if_splits)
  have io: "\<exists>f. bc' = set_buf i f (lock_buf pid i bc1) \<and>
      (\<forall>x. b_dev (f x) = b_dev x \<and> b_lock (f x) = b_lock x \<and> b_refcnt (f x) = b_refcnt x)"
  proof (cases "b_valid (bufs (lock_buf pid i bc1) ! i)")
    case True
    then have "bc' = set_buf i id (lock_buf pid i bc1)" using rd g by (auto simp: bread_def set_buf_def)
    then show ?thesis by (intro exI [of _ id]) simp
  next
    case False
    then have "iderw i (md, lock_buf pid i bc1) = Inr (md', bc')" using rd g by (auto simp: bread_def Let_def)
    then have "bc' = set_buf i (\<lambda>x. x\<lparr>b_valid := True, b_dirty := False\<rparr>) (lock_buf pid i bc1) \<or>
      bc' = set_buf i (\<lambda>x. x\<lparr>b_data := md (b_dev x AND 1, b_blockno x), b_valid := True, b_dirty := False\<rparr>)
        (lock_buf pid i bc1)"
      by (auto simp: iderw_def Let_def split: if_splits)
    then show ?thesis by (elim disjE) (rule exI, erule conjI, simp)+
  qed
  then obtain f where f: "bc' = set_buf i f (lock_buf pid i bc1)"
    "\<And>x. b_dev (f x) = b_dev x" "\<And>x. b_lock (f x) = b_lock x" "\<And>x. b_refcnt (f x) = b_refcnt x" by blast
  have "bufs bc' = (bufs bc1)[i := f ((bufs bc1 ! i)\<lparr>b_lock := \<lparr>sl_locked = True, sl_pid = pid\<rparr>\<rparr>)]"
    if "i < length (bufs bc1)" using that by (simp add: f(1) lock_buf_def)
  moreover from inv g have "i < length (bufs bc)" "length (bufs bc1) = length (bufs bc)"
    "(bufs bc1)[i := y] = (bufs bc)[i := y]" "b_dev (bufs bc1 ! i) = dev"
    "b_refcnt (bufs bc1 ! i) = (if holds_block dev b (bufs bc ! i) then b_refcnt (bufs bc ! i) + 1 else 1)" for y
    by (cases rule: bget_cases; simp add: holds_block_def)+
  ultimately show ?thesis
    by (intro conjI exI [of _ "f ((bufs bc1 ! i)\<lparr>b_lock := \<lparr>sl_locked = True, sl_pid = pid\<rparr>\<rparr>)"])
      (simp_all add: f(2-4))
qed

lemma cache_ok_read:
  assumes ok: "cache_ok cur md bc" and rd: "bread pid 1 b (md, bc) = Inr (i, md', bc')" and free: "\<not> buf_held bc i"
  shows "cache_ok cur md' bc'" and "b_data (bufs bc' ! i) = cur b" and "holds_block 1 b (bufs bc' ! i)"
    and "buf_held bc' i" and "j \<noteq> i \<Longrightarrow> bufs bc' ! j = bufs bc ! j"
proof -
  have inv: "bcache_inv bc" "coherent md bc" using ok by (simp_all add: cache_ok_def)
  note sp = bread_spec [OF inv _ rd, simplified]
  obtain x where x: "i < length (bufs bc)" "bufs bc' = (bufs bc)[i := x]" "b_dev x = 1"
    "b_lock x = \<lparr>sl_locked = True, sl_pid = pid\<rparr>"
    "b_refcnt x = (if holds_block 1 b (bufs bc ! i) then b_refcnt (bufs bc ! i) + 1 else 1)"
    using bread_bufs [OF inv(1) rd] by blast
  have r0: "b_refcnt (bufs bc ! i) = 0"
    using ok free x(1) by (auto simp: cache_ok_def buf_held_def)
  have "b_valid x" using sp x(1,2) by simp
  then have "(\<forall>y \<in> set (bufs bc'). (b_dev y = 0 \<and> \<not> b_valid y \<and> \<not> sl_locked (b_lock y) \<or> b_dev y = 1) \<and>
        b_refcnt y = of_bool (sl_locked (b_lock y)) \<and> (sl_locked (b_lock y) \<longrightarrow> b_valid y))"
    using ok x r0 unfolding cache_ok_def by (auto simp: x(2) dest!: subsetD [OF set_update_subset_insert])
  then show "cache_ok cur md' bc'" using ok sp x unfolding cache_ok_def by simp
  show "b_data (bufs bc' ! i) = cur b" "holds_block 1 b (bufs bc' ! i)"
    using ok sp by (simp_all add: cache_ok_def)
  show "buf_held bc' i" "j \<noteq> i \<Longrightarrow> bufs bc' ! j = bufs bc ! j" using x by (simp_all add: buf_held_def)
qed

lemma cache_ok_pin:
  assumes ok: "cache_ok cur md bc" and lk: "buf_held bc i"
  shows "cache_ok (cur(b_blockno (bufs bc ! i) := d)) md (set_buf i (\<lambda>x. x\<lparr>b_data := d, b_dirty := True\<rparr>) bc)"
    (is "cache_ok ?cur md ?bc'")
proof -
  have i: "i < length (bufs bc)" "sl_locked (b_lock (bufs bc ! i))" using lk by (simp_all add: buf_held_def)
  then have mem: "bufs bc ! i \<in> set (bufs bc)" by simp
  have inv: "bcache_inv bc" and co: "coherent md bc" and v: "b_valid (bufs bc ! i)" "b_dev (bufs bc ! i) = 1"
    using ok i mem by (auto simp: cache_ok_def)
  have inv': "bcache_inv ?bc'" by (rule bcache_inv_set [OF inv]) (simp_all add: v)
  have co': "coherent md ?bc'" using co by (auto simp: coherent_nth nth_update)
  have "latest md ?bc' 1 b = ?cur b" for b
  proof (cases "b = b_blockno (bufs bc ! i)")
    case True
    then have "holds_block 1 b (bufs ?bc' ! i)" using i v by (simp add: holds_block_def)
    from latest_dirty [OF inv' _ this, of md] show ?thesis using i True by simp
  next
    case False
    let ?P = "\<lambda>x. holds_block 1 b x \<and> b_dirty x"
    have other: "?P (bufs ?bc' ! j) \<longleftrightarrow> ?P (bufs bc ! j) \<and> j \<noteq> i" if "j < length (bufs bc)" for j
      using that False by (auto simp: nth_update holds_block_def)
    have "latest md ?bc' 1 b = latest md bc 1 b"
    proof (cases "\<exists>j < length (bufs bc). ?P (bufs bc ! j) \<and> j \<noteq> i")
      case True
      then obtain j where j: "j < length (bufs bc)" "?P (bufs bc ! j)" "j \<noteq> i" by blast
      then have "?P (bufs ?bc' ! j)" "b_data (bufs ?bc' ! j) = b_data (bufs bc ! j)" by (simp_all add: nth_update)
      then show ?thesis
        using latest_dirty [OF inv, of j 1 b md] latest_dirty [OF inv', of j 1 b md] j by simp
    next
      case none: False
      have "\<not> ?P (bufs bc ! i)" using False by (simp add: holds_block_def)
      then have "latest md bc 1 b = md (1 AND 1, b)" "latest md ?bc' 1 b = md (1 AND 1, b)"
        using none other by (intro latest_absent; metis bufs_set_buf(1) length_list_update)+
      then show ?thesis by simp
    qed
    then show ?thesis using ok False by (simp add: cache_ok_def)
  qed
  moreover have "\<forall>y \<in> set (bufs ?bc'). (b_dev y = 0 \<and> \<not> b_valid y \<and> \<not> sl_locked (b_lock y) \<or> b_dev y = 1) \<and>
      b_refcnt y = of_bool (sl_locked (b_lock y)) \<and> (sl_locked (b_lock y) \<longrightarrow> b_valid y)"
    unfolding bufs_set_buf by (rule ball_list_update) (use ok i v mem in \<open>simp_all add: cache_ok_def\<close>)
  ultimately show ?thesis using ok inv' co' unfolding cache_ok_def by simp
qed

lemma cache_ok_write:
  assumes ok: "cache_ok cur md bc" and lk: "buf_held bc i"
    and wr: "bwrite i (md, set_buf i (\<lambda>x. x\<lparr>b_data := d\<rparr>) bc) = Inr (md', bc')"
  shows "cache_ok (cur(b_blockno (bufs bc ! i) := d)) md' bc'"
proof -
  let ?b = "b_blockno (bufs bc ! i)"
  let ?p = "set_buf i (\<lambda>x. x\<lparr>b_data := d, b_dirty := True\<rparr>) bc"
  have p: "cache_ok (cur(?b := d)) md ?p" by (rule cache_ok_pin [OF ok lk])
  have i: "i < length (bufs bc)" "sl_locked (b_lock (bufs bc ! i))" using lk by (simp_all add: buf_held_def)
  then have dev: "b_dev (bufs bc ! i) = 1" "b_valid (bufs bc ! i)" using ok by (auto simp: cache_ok_def)
  have same: "set_buf i (\<lambda>x. x\<lparr>b_dirty := True\<rparr>) (set_buf i (\<lambda>x. x\<lparr>b_data := d\<rparr>) bc) =
      set_buf i (\<lambda>x. x\<lparr>b_dirty := True\<rparr>) ?p" using i by (simp add: set_buf_def)
  have wr': "bwrite i (md, ?p) = Inr (md', bc')"
    using wr i unfolding bwrite_def prod.case same by (simp add: nth_update)
  have "\<forall>x \<in> set (bufs ?p). b_dev x = 0 \<and> \<not> b_valid x \<or> b_dev x = 1" using p by (auto simp: cache_ok_def)
  moreover have "holds_block 1 ?b (bufs ?p ! i)" using i dev by (simp add: holds_block_def)
  moreover have "bcache_inv ?p" "coherent md ?p" "i < length (bufs ?p)" using p i by (simp_all add: cache_ok_def)
  ultimately have "bcache_inv bc' \<and> coherent md' bc' \<and> md' = md((1, ?b) := b_data (bufs ?p ! i)) \<and>
    \<not> b_dirty (bufs bc' ! i) \<and> latest md' bc' 1 ?b = b_data (bufs ?p ! i)"
    by (intro bwrite_spec [OF _ _ refl _ _ _ wr'])
  moreover have e: "b_data (bufs ?p ! i) = d" using i by simp
  ultimately have sp: "bcache_inv bc'" "coherent md' bc'" "md' = md((1, ?b) := d)" "latest md' bc' 1 ?b = d"
    unfolding e by blast+
  have b: "bufs bc' = (bufs bc)[i := (bufs bc ! i)\<lparr>b_data := d, b_valid := True, b_dirty := False\<rparr>]"
    using wr' i by (auto simp: bwrite_def iderw_def Let_def nth_update set_buf_def split: if_splits)
  have lat: "latest md' bc' 1 c = (cur(?b := d)) c" for c
  proof (cases "c = ?b")
    case False
    let ?P = "\<lambda>x. holds_block 1 c x \<and> b_dirty x"
    have "scan ?P (bufs bc') = scan ?P (bufs ?p)"
      by (rule scan_from_cong) (use False in \<open>auto simp: b nth_update holds_block_def\<close>)
    moreover have "scan ?P (bufs ?p) = Some j \<Longrightarrow> j \<noteq> i" for j
      using scan_Some_holds [of ?P "bufs ?p" j] i False by (auto simp: holds_block_def)
    ultimately have "latest md' bc' 1 c = latest md ?p 1 c"
      using sp False by (auto simp: latest_def b nth_update split: option.splits)
    then show ?thesis using p by (simp add: cache_ok_def)
  qed (use sp in simp)
  have "\<forall>y \<in> set (bufs bc'). (b_dev y = 0 \<and> \<not> b_valid y \<and> \<not> sl_locked (b_lock y) \<or> b_dev y = 1) \<and>
      b_refcnt y = of_bool (sl_locked (b_lock y)) \<and> (sl_locked (b_lock y) \<longrightarrow> b_valid y)"
    unfolding b by (rule ball_list_update) (use ok i dev in \<open>simp_all add: cache_ok_def\<close>)
  then show ?thesis using ok sp(1,2) lat b unfolding cache_ok_def by simp
qed

lemma cache_ok_release:
  assumes ok: "cache_ok cur md bc" and lk: "buf_held bc i" and rl: "brelse i (bc, pt) = Inr (bc', pt')"
  shows "cache_ok cur md bc'"
proof -
  have i: "i < length (bufs bc)" "sl_locked (b_lock (bufs bc ! i))" using lk by (simp_all add: buf_held_def)
  have "bcache_inv bc" "coherent md bc" using ok by (simp_all add: cache_ok_def)
  note sp = brelse_spec [OF this(1) i(1) rl, of undefined]
  have b: "bufs bc' = (bufs bc)[i := (bufs bc ! i)\<lparr>b_lock := (b_lock (bufs bc ! i))\<lparr>sl_locked := False, sl_pid := 0\<rparr>,
      b_refcnt := b_refcnt (bufs bc ! i) - 1\<rparr>]" (is "_ = (bufs bc)[i := ?x]")
    using i rl by (auto simp: brelse_def releasesleep_def Let_def set_buf_def split: if_splits)
  have "\<forall>y \<in> set (bufs bc'). (b_dev y = 0 \<and> \<not> b_valid y \<and> \<not> sl_locked (b_lock y) \<or> b_dev y = 1) \<and>
      b_refcnt y = of_bool (sl_locked (b_lock y)) \<and> (sl_locked (b_lock y) \<longrightarrow> b_valid y)"
    unfolding b by (rule ball_list_update) (use ok i nth_mem [OF i(1)] in \<open>auto simp: cache_ok_def\<close>)
  then show ?thesis using ok sp b unfolding cache_ok_def by simp
qed

lemma cache_run_ok: "cache_run cur md bc \<Longrightarrow> cache_ok cur md bc"
  by (induction rule: cache_run.induct)
    (blast intro: boot_cache_ok cache_ok_read cache_ok_write cache_ok_pin cache_ok_release)+


text \<open>Block 5 is read, changed, left dirty and released; then read by another process.\<close>

definition buf5 :: "bool \<Rightarrow> block \<Rightarrow> sleeplock \<Rightarrow> uint \<Rightarrow> buf" where
  "buf5 d xs lk n = \<lparr>b_valid = True, b_dirty = d, b_dev = 1, b_blockno = 5, b_lock = lk, b_refcnt = n, b_data = xs\<rparr>"

definition free_sleep :: sleeplock where
  "free_sleep = \<lparr>sl_locked = False, sl_pid = 0\<rparr>"

definition cache5 :: "buf \<Rightarrow> nat list \<Rightarrow> bcache" where
  "cache5 x os = \<lparr>bufs = (replicate NBUF zero_buf)[0 := x], order = os\<rparr>"

lemma replicate_NBUF: "replicate NBUF x = x # replicate 29 x"
  by (simp add: NBUF_def numeral_eq_Suc)

lemma first_buf: "[0..<NBUF] = 0 # [1..<30]"
  by (simp add: NBUF_def upt_conv_Cons)

lemma cache5_simps: "bufs (cache5 x os) ! 0 = x" "(bufs (cache5 x os))[0 := y] = bufs (cache5 y os)" "order (cache5 x os) = os"
  "set_buf 0 f (cache5 x os) = cache5 (f x) os" "(cache5 x os)\<lparr>order := os'\<rparr> = cache5 x os'"
  by (simp_all add: cache5_def set_buf_def replicate_NBUF)

lemma cache5_boot: "boot_cache = cache5 zero_buf (rev [0..<NBUF])"
  by (simp add: boot_cache_eq cache5_def replicate_NBUF)

lemma take5: "bread 7 1 5 (\<lambda>_. [0], boot_cache) =
    Inr (0, \<lambda>_. [0], cache5 (buf5 False [0] \<lparr>sl_locked = True, sl_pid = 7\<rparr> 1) (rev [0..<NBUF]))"
proof -
  have "List.find (\<lambda>i. b_dev (bufs boot_cache ! i) = 1 \<and> b_blockno (bufs boot_cache ! i) = 5) (order boot_cache) = None"
    by (simp add: find_None_mem boot_cache_eq zero_buf_def)
  moreover have "List.find (\<lambda>i. b_refcnt (bufs boot_cache ! i) = 0 \<and> \<not> b_dirty (bufs boot_cache ! i))
      (rev (order boot_cache)) = Some 0"
    by (simp add: boot_cache_eq first_buf replicate_NBUF zero_buf_def)
  ultimately have "bget 1 5 boot_cache = Inr (0, cache5 (buf5 False (replicate BSIZE 0) free_sleep 1
      \<lparr>b_valid := False\<rparr>) (rev [0..<NBUF]))"
    by (simp add: bget_def cache5_boot cache5_simps zero_buf_def buf5_def free_sleep_def)
  then show ?thesis
    by (simp add: bread_def Let_def lock_buf_def cache5_simps buf5_def iderw_def holdingsleep_def FSSIZE_def)
qed


end
