(* ===== verification/Log.thy ===== *)
theory Log
  imports Bio
begin

text \<open>
  The write-ahead log (\<open>log.c\<close>). The buffer cache appears here as the blocks it shows:
  the disk, and the blocks of the dirty buffers, which the cache may not evict; theory
  \<open>Bio\<close> shows that the cache gives exactly this view. Every write to the disk is
  recorded, so that a crash can be put between any two of them.
\<close>

definition LOGSIZE :: nat where "LOGSIZE = 30"
definition MAXOPBLOCKS :: nat where "MAXOPBLOCKS = 10"

section \<open>The disk and the dirty buffers\<close>

record store =
  disk :: "uint \<Rightarrow> block"
  pinned :: "uint \<Rightarrow> block option"
  writes :: "(uint \<times> block) list"

text \<open>The data \<open>bread\<close> shows, and \<open>bwrite\<close> of a buffer.\<close>

definition blk :: "store \<Rightarrow> uint \<Rightarrow> block" where
  "blk st b = (case pinned st b of Some d \<Rightarrow> d | None \<Rightarrow> disk st b)"

definition wr :: "uint \<Rightarrow> block \<Rightarrow> store \<Rightarrow> store" where
  "wr b d st = st\<lparr>disk := (disk st)(b := d), pinned := (pinned st)(b := None),
     writes := writes st @ [(b, d)]\<rparr>"

section \<open>The log\<close>

text \<open>\<open>struct log\<close>; \<open>lh\<close> has the block numbers of the header, \<open>lh.n\<close> is their number.\<close>

record log =
  lstart :: uint
  lsize :: int
  outstanding :: int
  committing :: bool
  lh :: "uint list"

fun put_blocks :: "nat \<Rightarrow> uint list \<Rightarrow> block \<Rightarrow> block" where
  "put_blocks i [] bs = bs"
| "put_blocks i (b # r) bs = put_blocks (Suc i) r (put32 (4 + 4 * i) b bs)"

definition head_block :: "uint list \<Rightarrow> block \<Rightarrow> block" where
  "head_block bl bs = put_blocks 0 bl (put32 0 (of_nat (length bl)) bs)"

definition write_head :: "log \<Rightarrow> store \<Rightarrow> store" where
  "write_head lg st = wr (lstart lg) (head_block (lh lg) (blk st (lstart lg))) st"

text \<open>A header with more blocks than \<open>log.lh.block\<close> has room for is an overflow.\<close>

definition read_head :: "log \<Rightarrow> store \<Rightarrow> log res" where
  "read_head lg st =
     (let buf = blk st (lstart lg); n = sint (get32 0 buf) in
      if n > int LOGSIZE then Inl BadAccess
      else Inr (lg\<lparr>lh := map (\<lambda>i. get32 (4 + 4 * i) buf) [0..<nat n]\<rparr>))"

fun install_trans :: "uint \<Rightarrow> nat \<Rightarrow> uint list \<Rightarrow> store \<Rightarrow> store" where
  "install_trans start tail [] st = st"
| "install_trans start tail (b # bs) st =
     install_trans start (Suc tail) bs (wr b (blk st (start + of_nat tail + 1)) st)"

fun write_log :: "uint \<Rightarrow> nat \<Rightarrow> uint list \<Rightarrow> store \<Rightarrow> store" where
  "write_log start tail [] st = st"
| "write_log start tail (b # bs) st =
     write_log start (Suc tail) bs (wr (start + of_nat tail + 1) (blk st b) st)"

definition commit :: "log \<times> store \<Rightarrow> log \<times> store" where
  "commit = (\<lambda>(lg, st).
     if lh lg \<noteq> [] then
       let st = write_log (lstart lg) 0 (lh lg) st;
           st = write_head lg st;
           st = install_trans (lstart lg) 0 (lh lg) st;
           lg = lg\<lparr>lh := []\<rparr>;
           st = write_head lg st
       in (lg, st)
     else (lg, st))"

definition recover_from_log :: "log \<times> store \<Rightarrow> (log \<times> store) res" where
  "recover_from_log = (\<lambda>(lg, st).
     bindE (read_head lg st) (\<lambda>lg.
       let st = install_trans (lstart lg) 0 (lh lg) st;
           lg = lg\<lparr>lh := []\<rparr>
       in Inr (lg, write_head lg st)))"

definition initlog :: "uint \<Rightarrow> uint \<Rightarrow> log \<times> store \<Rightarrow> (log \<times> store) res" where
  "initlog logstart nlog = (\<lambda>(lg, st).
     recover_from_log (lg\<lparr>lstart := logstart, lsize := sint nlog\<rparr>, st))"

section \<open>Operations\<close>

text \<open>One round of the loop of \<open>begin_op\<close>: the operation starts, or the process sleeps.\<close>

definition begin_op_round :: "nat \<Rightarrow> log \<times> ptable \<Rightarrow> bool \<times> log \<times> ptable" where
  "begin_op_round me = (\<lambda>(lg, pt).
     if committing lg then (False, lg, sleep_begin me LogChan pt)
     else if int (length (lh lg)) + (outstanding lg + 1) * int MAXOPBLOCKS > int LOGSIZE
     then (False, lg, sleep_begin me LogChan pt)
     else (True, lg\<lparr>outstanding := outstanding lg + 1\<rparr>, pt))"

text \<open>The first section of \<open>end_op\<close>: whether this operation has to commit.\<close>

definition end_op_begin :: "log \<times> ptable \<Rightarrow> (bool \<times> log \<times> ptable) res" where
  "end_op_begin = (\<lambda>(lg, pt).
     let lg = lg\<lparr>outstanding := outstanding lg - 1\<rparr> in
     if committing lg then Inl (Panic ''log.committing'')
     else if outstanding lg = 0 then Inr (True, lg\<lparr>committing := True\<rparr>, pt)
     else Inr (False, lg, wakeup LogChan pt))"

definition end_op_finish :: "log \<times> ptable \<Rightarrow> log \<times> ptable" where
  "end_op_finish = (\<lambda>(lg, pt). (lg\<lparr>committing := False\<rparr>, wakeup LogChan pt))"

text \<open>\<open>log_write\<close> of a buffer whose new data are \<open>d\<close>.\<close>

definition log_write :: "uint \<Rightarrow> block \<Rightarrow> log \<times> store \<Rightarrow> (log \<times> store) res" where
  "log_write b d = (\<lambda>(lg, st).
     if LOGSIZE \<le> length (lh lg) \<or> lsize lg - 1 \<le> int (length (lh lg))
     then Inl (Panic ''too big a transaction'')
     else if outstanding lg < 1 then Inl (Panic ''log_write outside of trans'')
     else Inr (lg\<lparr>lh := if b \<in> set (lh lg) then lh lg else lh lg @ [b]\<rparr>,
               st\<lparr>pinned := (pinned st)(b \<mapsto> d)\<rparr>))"

section \<open>The header block\<close>

lemma length_put_blocks [simp]:
  "4 + 4 * (i + length bl) \<le> length bs \<Longrightarrow> length (put_blocks i bl bs) = length bs"
  by (induction i bl bs rule: put_blocks.induct) simp_all

lemma get32_put_blocks_low:
  "k + 4 \<le> 4 + 4 * i \<Longrightarrow> 4 + 4 * (i + length bl) \<le> length bs \<Longrightarrow> get32 k (put_blocks i bl bs) = get32 k bs"
  by (induction i bl bs rule: put_blocks.induct) simp_all

lemma get32_put_blocks:
  "j < length bl \<Longrightarrow> 4 + 4 * (i + length bl) \<le> length bs \<Longrightarrow>
     get32 (4 + 4 * (i + j)) (put_blocks i bl bs) = bl ! j"
proof (induction i bl bs arbitrary: j rule: put_blocks.induct)
  case (1 i bs)
  then show ?case by simp
next
  case (2 i b r bs)
  show ?case
  proof (cases j)
    case 0
    have "get32 (4 + 4 * i) (put_blocks (Suc i) r (put32 (4 + 4 * i) b bs)) = get32 (4 + 4 * i) (put32 (4 + 4 * i) b bs)"
      using "2.prems"(2) by (intro get32_put_blocks_low) simp_all
    then show ?thesis using 0 "2.prems"(2) by simp
  next
    case (Suc j')
    then show ?thesis using "2.IH" [of j'] "2.prems" by simp
  qed
qed

lemma read_head_block:
  assumes "length bl \<le> LOGSIZE" and "length bs = BSIZE" and "blk st (lstart lg) = head_block bl bs"
  shows "read_head lg st = Inr (lg\<lparr>lh := bl\<rparr>)"
proof -
  let ?b = "head_block bl bs"
  have n: "length bl \<le> 30" "length bs = 512" using assms by (simp_all add: LOGSIZE_def BSIZE_def)
  have "get32 0 ?b = of_nat (length bl)"
    unfolding head_block_def using n by (subst get32_put_blocks_low) simp_all
  moreover have "sint (of_nat (length bl) :: uint) = int (length bl)"
    using n(1) by (simp add: signed_of_nat signed_take_bit_int_eq_self)
  moreover have "map (\<lambda>i. get32 (4 + 4 * i) ?b) [0..<length bl] = bl"
    by (rule nth_equalityI)
      (use n get32_put_blocks [of _ bl 0 "put32 0 (of_nat (length bl)) bs"] in \<open>simp_all add: head_block_def\<close>)
  ultimately show ?thesis using n(1) by (simp add: read_head_def assms(3) Let_def LOGSIZE_def)
qed

section \<open>The writes of a transaction\<close>

lemma blk_wr [simp]: "blk (wr b d st) = (blk st)(b := d)"
  by (rule ext) (simp add: blk_def wr_def split: option.split)

lemma wr_fields [simp]:
  "disk (wr b d st) = (disk st)(b := d)" "pinned (wr b d st) = (pinned st)(b := None)"
  "writes (wr b d st) = writes st @ [(b, d)]"
  by (simp_all add: wr_def)

text \<open>The log region: the header and the blocks behind it.\<close>

definition in_log :: "uint \<Rightarrow> uint \<Rightarrow> bool" where
  "in_log start b \<longleftrightarrow> unat start \<le> unat b \<and> unat b \<le> unat start + LOGSIZE"

definition log_block :: "uint \<Rightarrow> nat \<Rightarrow> uint" where
  "log_block start i = start + of_nat i + 1"

lemma log_block_unat:
  "unat start + LOGSIZE < 2 ^ 32 \<Longrightarrow> i < LOGSIZE \<Longrightarrow> unat (log_block start i) = unat start + i + 1"
proof -
  assume s: "unat start + LOGSIZE < 2 ^ 32" and i: "i < LOGSIZE"
  have "i < 2 ^ 32" using s i by linarith
  then have u: "unat (of_nat i :: uint) = i" by (simp add: unat_of_nat)
  have "unat (start + of_nat i) = (unat start + i) mod 2 ^ 32" by (simp only: unat_word_ariths u) simp
  then have a: "unat (start + of_nat i) = unat start + i" using s i by simp
  have "unat (start + of_nat i + 1) = unat start + i + 1"
    using unat_word_ariths(1) [of "start + of_nat i" "1 :: uint"] a s i by simp
  then show ?thesis unfolding log_block_def .
qed

lemma log_block_in: "unat start + LOGSIZE < 2 ^ 32 \<Longrightarrow> i < LOGSIZE \<Longrightarrow> in_log start (log_block start i)"
  by (simp add: in_log_def log_block_unat)

lemma log_block_inj:
  assumes "unat start + LOGSIZE < 2 ^ 32" and "i < LOGSIZE" "j < LOGSIZE"
  shows "log_block start i = log_block start j \<longleftrightarrow> i = j"
proof
  assume "log_block start i = log_block start j"
  then have "unat start + i + 1 = unat start + j + 1"
    using log_block_unat [OF assms(1,2)] log_block_unat [OF assms(1,3)] by metis
  then show "i = j" by simp
qed simp

lemma log_block_start: "unat start + LOGSIZE < 2 ^ 32 \<Longrightarrow> i < LOGSIZE \<Longrightarrow> log_block start i \<noteq> start"
proof
  assume "unat start + LOGSIZE < 2 ^ 32" "i < LOGSIZE" and eq: "log_block start i = start"
  then have "unat (log_block start i) = unat start + i + 1" by (intro log_block_unat)
  then show False unfolding eq by simp
qed

lemma in_log_start: "in_log start start"
  by (simp add: in_log_def)

text \<open>A list of writes, applied to a disk.\<close>

definition replay :: "(uint \<times> block) list \<Rightarrow> (uint \<Rightarrow> block) \<Rightarrow> uint \<Rightarrow> block" where
  "replay ws dk = fold (\<lambda>(b, d) dk. dk(b := d)) ws dk"

lemma replay_simps [simp]:
  "replay [] dk = dk"
  "replay ((b, d) # ws) dk = replay ws (dk(b := d))"
  "replay (ws @ ws') dk = replay ws' (replay ws dk)"
  by (simp_all add: replay_def)

lemma replay_other: "b \<notin> fst ` set ws \<Longrightarrow> replay ws dk b = dk b"
  by (induction ws arbitrary: dk) auto

lemma fst_zip_sub: "fst ` set (zip xs ys) \<subseteq> set xs"
  by (auto dest: set_zip_leftD)

lemma fst_take_zip_sub: "fst ` set (take j (zip xs ys)) \<subseteq> set xs"
  by (rule subset_trans [OF image_mono [OF set_take_subset] fst_zip_sub])

lemma replay_zip:
  "distinct bs \<Longrightarrow> length ds = length bs \<Longrightarrow> i < length bs \<Longrightarrow> replay (zip bs ds) dk (bs ! i) = ds ! i"
proof (induction bs arbitrary: ds dk i)
  case Nil
  then show ?case by simp
next
  case (Cons b bs)
  then obtain d ds' where ds: "ds = d # ds'" by (cases ds) auto
  show ?case
  proof (cases i)
    case 0
    have "b \<notin> fst ` set (zip bs ds')" using Cons.prems(1) by (auto dest: set_zip_leftD)
    then show ?thesis using 0 ds by (simp add: replay_other)
  next
    case (Suc j)
    then show ?thesis using Cons ds by simp
  qed
qed

lemma write_log_writes:
  assumes "\<And>j b. j < tail + length bs \<Longrightarrow> b \<in> set bs \<Longrightarrow> log_block start j \<noteq> b"
  shows "writes (write_log start tail bs st) = writes st
      @ zip (map (log_block start) [tail..<tail + length bs]) (map (blk st) bs) \<and>
    disk (write_log start tail bs st)
      = replay (zip (map (log_block start) [tail..<tail + length bs]) (map (blk st) bs)) (disk st) \<and>
    (\<forall>b. (\<forall>j < tail + length bs. log_block start j \<noteq> b) \<longrightarrow>
      pinned (write_log start tail bs st) b = pinned st b)"
  using assms
proof (induction bs arbitrary: tail st)
  case Nil
  then show ?case by simp
next
  case (Cons b bs)
  define st1 where "st1 = wr (log_block start tail) (blk st b) st"
  have f: "disk st1 = (disk st)(log_block start tail := blk st b)"
    "pinned st1 = (pinned st)(log_block start tail := None)"
    "writes st1 = writes st @ [(log_block start tail, blk st b)]" by (simp_all add: st1_def)
  have nb: "j < Suc tail + length bs \<Longrightarrow> c \<in> set bs \<Longrightarrow> log_block start j \<noteq> c" for j c
    using Cons.prems [of j c] by simp
  have m: "map (blk st1) bs = map (blk st) bs"
    using Cons.prems [of tail] by (auto simp: st1_def)
  have u: "[tail..<tail + length (b # bs)] = tail # [Suc tail..<Suc tail + length bs]"
    by (simp add: upt_rec)
  have w: "write_log start tail (b # bs) st = write_log start (Suc tail) bs st1"
    by (simp add: log_block_def st1_def)
  note IH = Cons.IH [where tail = "Suc tail" and st = st1, OF nb]
  have p: "pinned (write_log start tail (b # bs) st) c = pinned st c"
    if c: "\<forall>j < tail + length (b # bs). log_block start j \<noteq> c" for c
  proof -
    have "pinned (write_log start (Suc tail) bs st1) c = pinned st1 c" using IH c by simp
    moreover have "tail < tail + length (b # bs)" by simp
    then have "log_block start tail \<noteq> c" using c by blast
    ultimately show ?thesis unfolding w f(2) by simp
  qed
  show ?case
    using IH p unfolding u w m f by (simp del: upt_Suc fun_upd_apply)
qed

lemma install_trans_writes:
  fixes st :: store
  assumes "\<And>j b. j < tail + length bs \<Longrightarrow> b \<in> set bs \<Longrightarrow> log_block start j \<noteq> b"
  defines "ds \<equiv> map (\<lambda>i. blk st (log_block start i)) [tail..<tail + length bs]"
  shows "writes (install_trans start tail bs st) = writes st @ zip bs ds \<and>
    disk (install_trans start tail bs st) = replay (zip bs ds) (disk st) \<and>
    (\<forall>b. pinned (install_trans start tail bs st) b = (if b \<in> set bs then None else pinned st b))"
  using assms(1) unfolding ds_def
proof (induction bs arbitrary: tail st)
  case Nil
  then show ?case by simp
next
  case (Cons b bs)
  define d where "d = blk st (log_block start tail)"
  define st1 where "st1 = wr b d st"
  have f: "disk st1 = (disk st)(b := d)" "pinned st1 = (pinned st)(b := None)"
    "writes st1 = writes st @ [(b, d)]" by (simp_all add: st1_def)
  have nb: "j < Suc tail + length bs \<Longrightarrow> c \<in> set bs \<Longrightarrow> log_block start j \<noteq> c" for j c
    using Cons.prems [of j c] by simp
  have m: "map (\<lambda>i. blk st1 (log_block start i)) [Suc tail..<Suc tail + length bs]
      = map (\<lambda>i. blk st (log_block start i)) [Suc tail..<Suc tail + length bs]"
  proof (intro map_cong refl)
    fix i assume "i \<in> set [Suc tail..<Suc tail + length bs]"
    then have "log_block start i \<noteq> b" by (intro Cons.prems [of i b]) auto
    then show "blk st1 (log_block start i) = blk st (log_block start i)" by (simp add: st1_def)
  qed
  have u: "[tail..<tail + length (b # bs)] = tail # [Suc tail..<Suc tail + length bs]"
    by (simp add: upt_rec)
  have w: "install_trans start tail (b # bs) st = install_trans start (Suc tail) bs st1"
    by (simp add: log_block_def st1_def d_def)
  note IH = Cons.IH [where tail = "Suc tail" and st = st1, OF nb]
  have p: "pinned (install_trans start tail (b # bs) st) c = (if c \<in> set (b # bs) then None else pinned st c)"
    for c using IH unfolding w f by simp
  show ?case
    using IH p unfolding u w m f by (simp del: upt_Suc fun_upd_apply add: d_def)
qed

lemma write_log_blk:
  "(\<And>j b. j < tail + length bs \<Longrightarrow> b \<in> set bs \<Longrightarrow> log_block start j \<noteq> b) \<Longrightarrow>
     blk (write_log start tail bs st)
       = replay (zip (map (log_block start) [tail..<tail + length bs]) (map (blk st) bs)) (blk st)"
proof (induction bs arbitrary: tail st)
  case Nil
  then show ?case by simp
next
  case (Cons b bs)
  define st1 where "st1 = wr (log_block start tail) (blk st b) st"
  have nb: "j < Suc tail + length bs \<Longrightarrow> c \<in> set bs \<Longrightarrow> log_block start j \<noteq> c" for j c
    using Cons.prems [of j c] by simp
  have m: "map (blk st1) bs = map (blk st) bs"
    using Cons.prems [of tail] by (auto simp: st1_def)
  have u: "[tail..<tail + length (b # bs)] = tail # [Suc tail..<Suc tail + length bs]"
    by (simp add: upt_rec)
  have w: "write_log start tail (b # bs) st = write_log start (Suc tail) bs st1"
    by (simp add: log_block_def st1_def)
  have b: "blk st1 = (blk st)(log_block start tail := blk st b)" by (simp only: st1_def blk_wr)
  show ?case
    using Cons.IH [where tail = "Suc tail" and st = st1, OF nb] unfolding u w m unfolding b
    by (simp del: upt_Suc fun_upd_apply)
qed

section \<open>Recovery\<close>

definition boot_store :: "(uint \<Rightarrow> block) \<Rightarrow> store" where
  "boot_store dk = \<lparr>disk = dk, pinned = (\<lambda>_. None), writes = []\<rparr>"

lemma blk_boot [simp]: "blk (boot_store dk) = dk"
  by (rule ext) (simp add: blk_def boot_store_def)

lemma boot_fields [simp]:
  "disk (boot_store dk) = dk" "pinned (boot_store dk) = (\<lambda>_. None)" "writes (boot_store dk) = []"
  by (simp_all add: boot_store_def)

text \<open>The block numbers of the header on a disk, and the disk recovery makes of it.\<close>

definition header :: "uint \<Rightarrow> (uint \<Rightarrow> block) \<Rightarrow> uint list" where
  "header s dk = map (\<lambda>i. get32 (4 + 4 * i) (dk s)) [0..<nat (sint (get32 0 (dk s)))]"

definition header_ok :: "uint \<Rightarrow> (uint \<Rightarrow> block) \<Rightarrow> bool" where
  "header_ok s dk \<longleftrightarrow> unat s + LOGSIZE < 2 ^ 32 \<and> length (dk s) = BSIZE \<and>
     length (header s dk) \<le> LOGSIZE \<and> distinct (header s dk) \<and> (\<forall>b \<in> set (header s dk). \<not> in_log s b)"

definition recovery_writes :: "uint \<Rightarrow> (uint \<Rightarrow> block) \<Rightarrow> (uint \<times> block) list" where
  "recovery_writes s dk = zip (header s dk) (map (\<lambda>i. dk (log_block s i)) [0..<length (header s dk)])
     @ [(s, head_block [] (dk s))]"

lemma not_in_log:
  "unat s + LOGSIZE < 2 ^ 32 \<Longrightarrow> \<not> in_log s b \<Longrightarrow> j < LOGSIZE \<Longrightarrow> log_block s j \<noteq> b \<and> s \<noteq> b"
  using log_block_in in_log_start by blast

lemma recover_writes:
  assumes "header_ok s dk" and "lstart lg = s"
  shows "\<exists>st'. recover_from_log (lg, boot_store dk) = Inr (lg\<lparr>lh := []\<rparr>, st') \<and>
    writes st' = recovery_writes s dk \<and> disk st' = replay (recovery_writes s dk) dk"
proof -
  let ?bl = "header s dk"
  from assms have n: "length ?bl \<le> LOGSIZE" and r: "unat s + LOGSIZE < 2 ^ 32"
    and nl: "\<And>b. b \<in> set ?bl \<Longrightarrow> \<not> in_log s b" by (auto simp: header_ok_def)
  have "read_head lg (boot_store dk) = Inr (lg\<lparr>lh := ?bl\<rparr>)"
    using n assms(2) by (auto simp: read_head_def Let_def header_def LOGSIZE_def)
  moreover have ap: "log_block s j \<noteq> b" if "j < 0 + length ?bl" "b \<in> set ?bl" for j b
    using not_in_log [OF r nl [OF that(2)], of j] that(1) n by linarith
  note iw = install_trans_writes [where tail = 0 and bs = ?bl and st = "boot_store dk", OF ap]
  let ?st = "install_trans s 0 ?bl (boot_store dk)"
  have "s \<notin> set ?bl" using nl in_log_start by blast
  have "disk ?st s = dk s"
  proof -
    have "s \<notin> fst ` set (zip ?bl (map (\<lambda>i. blk (boot_store dk) (log_block s i)) [0..<0 + length ?bl]))"
      using \<open>s \<notin> set ?bl\<close> by (auto dest: set_zip_leftD)
    then show ?thesis using iw replay_other by simp
  qed
  moreover have "pinned ?st s = None" using iw by simp
  ultimately have rc: "recover_from_log (lg, boot_store dk)
      = Inr (lg\<lparr>lh := []\<rparr>, wr s (head_block [] (dk s)) ?st)"
    using assms(2) by (simp add: recover_from_log_def Let_def write_head_def blk_def)
  show ?thesis unfolding rc using iw by (simp add: recovery_writes_def)
qed

text \<open>What recovery shows for a block outside the log region.\<close>

lemma recovered_block:
  assumes ok: "header_ok s dk" and b: "\<not> in_log s b"
  shows "replay (recovery_writes s dk) dk b
    = (case scan (\<lambda>c. c = b) (header s dk) of Some i \<Rightarrow> dk (log_block s i) | None \<Rightarrow> dk b)"
proof -
  let ?bl = "header s dk"
  let ?ds = "map (\<lambda>i. dk (log_block s i)) [0..<length ?bl]"
  have bs: "b \<noteq> s" using b in_log_start by blast
  have z: "replay (recovery_writes s dk) dk b = replay (zip ?bl ?ds) dk b"
    using bs by (simp add: recovery_writes_def)
  show ?thesis
  proof (cases "scan (\<lambda>c. c = b) ?bl")
    case None
    then have "b \<notin> fst ` set (zip ?bl ?ds)" by (auto simp: scan_from_None dest: set_zip_leftD)
    then show ?thesis using None z by (simp add: replay_other)
  next
    case (Some i)
    then have i: "i < length ?bl" "?bl ! i = b" using scan_Some [OF Some] by simp_all
    then have "replay (zip ?bl ?ds) dk (?bl ! i) = ?ds ! i"
      using ok by (intro replay_zip) (simp_all add: header_ok_def)
    then show ?thesis using Some z i by simp
  qed
qed

section \<open>Crashes\<close>

definition log_ready :: "log \<Rightarrow> store \<Rightarrow> bool" where
  "log_ready lg st \<longleftrightarrow> unat (lstart lg) + LOGSIZE < 2 ^ 32 \<and>
     length (lh lg) \<le> LOGSIZE \<and> distinct (lh lg) \<and> (\<forall>b \<in> set (lh lg). \<not> in_log (lstart lg) b) \<and>
     (\<forall>b. pinned st b \<noteq> None \<longrightarrow> b \<in> set (lh lg)) \<and>
     length (disk st (lstart lg)) = BSIZE \<and> get32 0 (disk st (lstart lg)) = 0"

text \<open>The disk writes of a commit.\<close>

definition commit_writes :: "log \<Rightarrow> store \<Rightarrow> (uint \<times> block) list" where
  "commit_writes lg st =
     (let s = lstart lg; bl = lh lg; home = map (blk st) bl;
          h1 = head_block bl (disk st s)
      in zip (map (log_block s) [0..<length bl]) home @ [(s, h1)] @ zip bl home @ [(s, head_block [] h1)])"

lemma commit_trace:
  assumes r: "log_ready lg st" and ne: "lh lg \<noteq> []"
  shows "writes (snd (commit (lg, st))) = writes st @ commit_writes lg st \<and>
    disk (snd (commit (lg, st))) = replay (commit_writes lg st) (disk st) \<and>
    lh (fst (commit (lg, st))) = [] \<and> (\<forall>b. \<not> in_log (lstart lg) b \<longrightarrow> pinned (snd (commit (lg, st))) b = None)"
proof -
  define s where "s = lstart lg"
  define bl where "bl = lh lg"
  define home where "home = map (blk st) bl"
  from r have n: "length bl \<le> LOGSIZE" and nw: "unat s + LOGSIZE < 2 ^ 32" and d: "distinct bl"
    and nl: "\<And>b. b \<in> set bl \<Longrightarrow> \<not> in_log s b" and pin: "\<And>b. pinned st b \<noteq> None \<Longrightarrow> b \<in> set bl"
    by (auto simp: log_ready_def s_def bl_def)
  have ap: "log_block s j \<noteq> b" if "j < 0 + length bl" "b \<in> set bl" for j b
    using not_in_log [OF nw nl [OF that(2)], of j] that(1) n by linarith
  have sbl: "s \<notin> set bl" using nl in_log_start by blast
  have ps: "pinned st s = None" using pin sbl by blast
  have ls: "log_block s j \<noteq> s" if "j < length bl" for j using that n by (intro log_block_start nw) simp
  let ?w1 = "zip (map (log_block s) [0..<length bl]) home"
  let ?st1 = "write_log s 0 bl st"
  note w1 = write_log_writes [where tail = 0 and bs = bl and st = st, OF ap]
  have b1: "blk ?st1 = replay ?w1 (blk st)"
    using write_log_blk [where tail = 0 and bs = bl and st = st, OF ap] by (simp add: home_def)
  have "s \<notin> fst ` set ?w1" using ls [THEN not_sym] fst_zip_sub [of "map (log_block s) [0..<length bl]" home] by auto
  then have h0: "blk ?st1 s = disk st s" using replay_other [of s ?w1] ps by (simp add: b1 blk_def)
  let ?h1 = "head_block bl (disk st s)"
  let ?st2 = "wr s ?h1 ?st1"
  have vals: "map (\<lambda>i. blk ?st2 (log_block s i)) [0..<0 + length bl] = home"
  proof (rule nth_equalityI)
    fix i assume "i < length (map (\<lambda>i. blk ?st2 (log_block s i)) [0..<0 + length bl])"
    then have i: "i < length bl" by simp
    have di: "distinct (map (log_block s) [0..<length bl])"
      using log_block_inj [OF nw] n by (auto simp: distinct_map inj_on_def)
    have "blk ?st2 (log_block s i) = replay ?w1 (blk st) (map (log_block s) [0..<length bl] ! i)"
      using ls [OF i] i by (simp add: b1)
    also have "\<dots> = home ! i" using i by (intro replay_zip [OF di]) (simp_all add: home_def)
    finally show "map (\<lambda>i. blk ?st2 (log_block s i)) [0..<0 + length bl] ! i = home ! i"
      using i by (simp del: blk_wr fun_upd_apply)
  qed (simp add: home_def)
  let ?st3 = "install_trans s 0 bl ?st2"
  note w3 = install_trans_writes [where tail = 0 and bs = bl and st = ?st2, OF ap, unfolded vals]
  have "s \<notin> fst ` set (zip bl home)" using sbl by (auto dest: set_zip_leftD)
  then have "disk ?st3 s = ?h1" using w3 replay_other by simp
  moreover have "pinned ?st3 s = None" using w3 by simp
  ultimately have h2: "blk ?st3 s = ?h1" by (simp add: blk_def)
  have c: "commit (lg, st) = (lg\<lparr>lh := []\<rparr>, wr s (head_block [] ?h1) ?st3)"
    using ne h0 h2 by (simp add: commit_def Let_def write_head_def s_def bl_def)
  have "pinned ?st3 b = None" if b: "\<not> in_log s b" for b
  proof (cases "b \<in> set bl")
    case False
    have "\<forall>j < 0 + length bl. log_block s j \<noteq> b" using not_in_log [OF nw b] n by auto
    then have "pinned ?st1 b = pinned st b" using w1 by blast
    moreover have "pinned st b = None" using pin [of b] False by blast
    ultimately show ?thesis using w3 False b in_log_start by auto
  qed (use w3 in simp)
  moreover have "writes ?st1 = writes st @ ?w1" "disk ?st1 = replay ?w1 (disk st)"
    using w1 by (simp_all add: home_def)
  ultimately show ?thesis
    unfolding c using w3 by (simp add: commit_writes_def Let_def s_def [symmetric] bl_def [symmetric] home_def [symmetric])
qed

section \<open>Properties\<close>

lemma header_block:
  assumes "length bl \<le> LOGSIZE" and "length bs = BSIZE" and "dk s = head_block bl bs"
  shows "header s dk = bl"
proof -
  have "read_head \<lparr>lstart = s, lsize = 0, outstanding = 0, committing = False, lh = []\<rparr> (boot_store dk)
      = Inr (\<lparr>lstart = s, lsize = 0, outstanding = 0, committing = False, lh = []\<rparr>\<lparr>lh := bl\<rparr>)"
    by (rule read_head_block) (use assms in simp_all)
  then show ?thesis by (auto simp: read_head_def Let_def header_def split: if_splits)
qed

lemma length_head_block [simp]:
  "length bl \<le> LOGSIZE \<Longrightarrow> length bs = BSIZE \<Longrightarrow> length (head_block bl bs) = BSIZE"
  by (simp add: head_block_def LOGSIZE_def BSIZE_def)

lemma header_empty: "get32 0 (dk s) = 0 \<Longrightarrow> header s dk = []"
  by (simp add: header_def)

lemma recovered_committed:
  assumes r: "log_ready lg st" and ne: "lh lg \<noteq> []"
    and hd: "dk (lstart lg) = head_block (lh lg) (disk st (lstart lg))"
    and lb: "\<And>i. i < length (lh lg) \<Longrightarrow> dk (log_block (lstart lg) i) = blk st (lh lg ! i)"
    and other: "\<And>b. \<not> in_log (lstart lg) b \<Longrightarrow> b \<notin> set (lh lg) \<Longrightarrow> dk b = disk st b"
  shows "header_ok (lstart lg) dk"
    and "\<not> in_log (lstart lg) b \<Longrightarrow> replay (recovery_writes (lstart lg) dk) dk b = blk st b"
proof -
  let ?s = "lstart lg"
  have h: "header ?s dk = lh lg"
    by (rule header_block [where bs = "disk st ?s"]) (use r hd in \<open>simp_all add: log_ready_def\<close>)
  show ok: "header_ok ?s dk" using r hd by (simp add: header_ok_def h log_ready_def)
  show "replay (recovery_writes ?s dk) dk b = blk st b" if b: "\<not> in_log ?s b"
  proof (cases "scan (\<lambda>c. c = b) (lh lg)")
    case None
    then have "b \<notin> set (lh lg)" by (auto simp: scan_from_None)
    then have "pinned st b = None" using r by (auto simp: log_ready_def)
    then show ?thesis
      using recovered_block [OF ok b] None other [OF b \<open>b \<notin> set (lh lg)\<close>] by (simp add: h blk_def)
  next
    case (Some i)
    then have "i < length (lh lg)" "lh lg ! i = b" using scan_Some [OF Some] by simp_all
    then show ?thesis using recovered_block [OF ok b] Some lb by (simp add: h)
  qed
qed

lemma recovered_uncommitted:
  assumes "unat s + LOGSIZE < 2 ^ 32" and "length (dk s) = BSIZE" and "get32 0 (dk s) = 0"
  shows "header_ok s dk" and "\<not> in_log s b \<Longrightarrow> replay (recovery_writes s dk) dk b = dk b"
proof -
  have h: "header s dk = []" using assms(3) by (rule header_empty)
  show ok: "header_ok s dk" using assms by (simp add: header_ok_def h)
  show "replay (recovery_writes s dk) dk b = dk b" if "\<not> in_log s b"
    using recovered_block [OF ok that] by (simp add: h)
qed

text \<open>The disk after the first \<open>k\<close> writes of a commit shows, after recovery, the old blocks or the new ones.\<close>

lemma crash_view:
  fixes k :: nat
  assumes r: "log_ready lg st" and ne: "lh lg \<noteq> []"
  defines "s \<equiv> lstart lg" and "n \<equiv> length (lh lg)"
  defines "dk \<equiv> replay (take k (commit_writes lg st)) (disk st)"
  shows "header_ok s dk \<and> (\<forall>b. \<not> in_log s b \<longrightarrow>
    replay (recovery_writes s dk) dk b = (if k \<le> n then disk st b else blk st b))"
proof -
  define bl where "bl = lh lg"
  define home where "home = map (blk st) bl"
  define h1 where "h1 = head_block bl (disk st s)"
  define lw where "lw = zip (map (log_block s) [0..<n]) home"
  have cw: "commit_writes lg st = lw @ (s, h1) # zip bl home @ [(s, head_block [] h1)]"
    by (simp add: commit_writes_def Let_def lw_def home_def h1_def bl_def s_def n_def)
  from r have n: "n \<le> LOGSIZE" and nw: "unat s + LOGSIZE < 2 ^ 32" and d: "distinct bl"
    and nl: "\<And>b. b \<in> set bl \<Longrightarrow> \<not> in_log s b" and ls: "length (disk st s) = BSIZE" "get32 0 (disk st s) = 0"
    by (auto simp: log_ready_def s_def bl_def n_def)
  have len: "length bl = n" "length home = n" "length lw = n" by (simp_all add: bl_def n_def home_def lw_def)
  have sbl: "s \<notin> set bl" using nl in_log_start by blast
  have lwin: "b \<in> fst ` set (take j lw) \<Longrightarrow> in_log s b \<and> b \<noteq> s" for b j
  proof -
    assume "b \<in> fst ` set (take j lw)"
    then have "b \<in> set (map (log_block s) [0..<n])"
      unfolding lw_def by (rule subsetD [OF fst_take_zip_sub])
    then obtain i where "i < n" "b = log_block s i" by auto
    then show ?thesis using log_block_in [OF nw, of i] log_block_start [OF nw, of i] n by simp
  qed
  have old: "replay (take j lw) (disk st) b = disk st b" if "\<not> in_log s b \<or> b = s" for j b
    using that lwin by (intro replay_other) blast
  have blin: "b \<in> fst ` set (take j (zip bl home)) \<Longrightarrow> b \<in> set bl" for b j
    by (rule subsetD [OF fst_take_zip_sub])
  consider (before) "k \<le> n" | (between) j where "k = Suc (n + j)" "j \<le> n" | (after) "Suc (n + n) < k"
    by (metis Suc_leI le_add_diff_inverse nat_add_left_cancel_le not_le plus_nat.simps(2))
  then show ?thesis
  proof cases
    case before
    then have dk: "dk = replay (take k lw) (disk st)" by (simp add: dk_def cw len)
    have "dk s = disk st s" unfolding dk by (rule old) simp
    with recovered_uncommitted [OF nw, of dk] ls old before show ?thesis by (simp add: dk)
  next
    case between
    let ?z = "take j (zip bl home)"
    have dk: "dk = replay ?z ((replay lw (disk st))(s := h1))"
      using between by (simp add: dk_def cw len)
    have "s \<notin> fst ` set ?z" using blin sbl by blast
    then have hd: "dk s = h1" by (simp add: dk replay_other)
    have lb: "dk (log_block s i) = blk st (bl ! i)" if i: "i < n" for i
    proof -
      have "log_block s i \<notin> fst ` set ?z" using blin nl log_block_in [OF nw, of i] i n by fastforce
      moreover have "log_block s i \<noteq> s" using log_block_start [OF nw] i n by simp
      ultimately have "dk (log_block s i) = replay lw (disk st) (map (log_block s) [0..<n] ! i)"
        using i by (simp add: dk replay_other)
      also have "\<dots> = home ! i"
        unfolding lw_def using log_block_inj [OF nw] n i len
        by (intro replay_zip) (auto simp: distinct_map inj_on_def)
      finally show ?thesis using i len by (simp add: home_def)
    qed
    have oth: "dk b = disk st b" if "\<not> in_log s b" "b \<notin> set bl" for b
    proof -
      have "b \<notin> fst ` set ?z" using blin that by blast
      moreover have "b \<noteq> s" using that in_log_start by blast
      ultimately show ?thesis using old [of b n] that len by (simp add: dk replay_other)
    qed
    from recovered_committed [OF r ne, of dk] hd lb oth
    show ?thesis using between by (simp add: s_def n_def bl_def h1_def)
  next
    case after
    then have "take k (commit_writes lg st) = commit_writes lg st" by (simp add: cw len)
    then have dk: "dk = (replay (zip bl home) ((replay lw (disk st))(s := h1)))(s := head_block [] h1)"
      by (simp add: dk_def cw)
    have l1: "length h1 = BSIZE" using ls n by (simp add: h1_def len)
    have "get32 0 (head_block [] h1) = 0" using l1 by (simp add: head_block_def BSIZE_def)
    then have z: "get32 0 (dk s) = 0" "length (dk s) = BSIZE" using l1 by (simp_all add: dk)
    have "dk b = blk st b" if b: "\<not> in_log s b" for b
    proof -
      have bs: "b \<noteq> s" using b in_log_start by blast
      show ?thesis
      proof (cases "b \<in> set bl")
        case True
        then obtain i where i: "i < n" "bl ! i = b" using len by (metis in_set_conv_nth)
        then have "replay (zip bl home) ((replay lw (disk st))(s := h1)) (bl ! i) = home ! i"
          using d len by (intro replay_zip) simp_all
        then show ?thesis using i bs len by (simp add: dk home_def)
      next
        case False
        then have "b \<notin> fst ` set (zip bl home)" using fst_zip_sub [of bl home] by blast
        moreover have "pinned st b = None" using r False by (auto simp: log_ready_def bl_def)
        ultimately show ?thesis using bs old [of b n] b len by (simp add: dk replay_other blk_def)
      qed
    qed
    then show ?thesis using recovered_uncommitted [where dk = dk, OF nw z(2,1)] after by simp
  qed
qed

text \<open>A transaction of two blocks on a disk of zero bytes, for the examples.\<close>

definition zero_block :: block where
  "zero_block = replicate BSIZE 0"

definition demo_log :: log where
  "demo_log = \<lparr>lstart = 2, lsize = 30, outstanding = 0, committing = True, lh = [100, 200]\<rparr>"

definition demo_store :: store where
  "demo_store = \<lparr>disk = (\<lambda>_. zero_block),
     pinned = [100 \<mapsto> 1 # replicate 511 0, 200 \<mapsto> 2 # replicate 511 0], writes = []\<rparr>"

lemma get32_zero_block: "get32 0 zero_block = 0"
  by (simp add: get32_def zero_block_def of_le32_def BSIZE_def)

lemma demo_ready: "log_ready demo_log demo_store"
  by (simp add: log_ready_def demo_log_def demo_store_def in_log_def LOGSIZE_def get32_zero_block)
    (simp add: zero_block_def)

text \<open>
  C5. Commits are atomic: let the machine stop between any two disk writes of a commit,
  or after the last. Recovery then succeeds and shows, for every block outside the log,
  the contents from before the transaction if at most the log blocks were written, and
  the transaction's contents from the header write on. It never shows a mixture.
\<close>

theorem log_crash_atomic:
  assumes "log_ready lg st" and "lh lg \<noteq> []" and "k \<le> length (commit_writes lg st)"
  shows "writes (snd (commit (lg, st))) = writes st @ commit_writes lg st \<and>
    (\<exists>lg' st'. recover_from_log (lg, boot_store (replay (take k (commit_writes lg st)) (disk st))) = Inr (lg', st') \<and>
      (\<forall>b. in_log (lstart lg) b \<or> disk st' b = (if k \<le> length (lh lg) then disk st b else blk st b)))"
proof -
  let ?dk = "replay (take k (commit_writes lg st)) (disk st)"
  have v: "header_ok (lstart lg) ?dk" "\<And>b. \<not> in_log (lstart lg) b \<Longrightarrow>
      replay (recovery_writes (lstart lg) ?dk) ?dk b = (if k \<le> length (lh lg) then disk st b else blk st b)"
    using crash_view [OF assms(1,2), of k] by blast+
  obtain st' where r: "recover_from_log (lg, boot_store ?dk) = Inr (lg\<lparr>lh := []\<rparr>, st')"
    and d: "disk st' = replay (recovery_writes (lstart lg) ?dk) ?dk"
    using recover_writes [OF v(1) refl] by blast
  have "in_log (lstart lg) b \<or> disk st' b = (if k \<le> length (lh lg) then disk st b else blk st b)" for b
    using v(2) [of b] d by (cases "in_log (lstart lg) b") simp_all
  with r commit_trace [OF assms(1,2)] show ?thesis by blast
qed

theorem log_crash_atomic_witness:
  "\<exists>lg' st'. recover_from_log (demo_log, boot_store (replay (take 4 (commit_writes demo_log demo_store)) (disk demo_store)))
     = Inr (lg', st') \<and> (\<forall>b. in_log 2 b \<or> disk st' b = blk demo_store b)"
proof -
  have l: "lh demo_log \<noteq> []" "4 \<le> length (commit_writes demo_log demo_store)" "lstart demo_log = 2"
    "\<not> 4 \<le> length (lh demo_log)"
    by (simp_all add: demo_log_def commit_writes_def Let_def)
  from log_crash_atomic [OF demo_ready l(1,2)] l(3,4) show ?thesis by simp
qed

lemma recovery_again:
  fixes j :: nat
  assumes ok: "header_ok s dk"
  defines "dk' \<equiv> replay (take j (recovery_writes s dk)) dk"
  shows "header_ok s dk' \<and> (\<forall>b. \<not> in_log s b \<longrightarrow>
    replay (recovery_writes s dk') dk' b = replay (recovery_writes s dk) dk b)"
proof -
  let ?bl = "header s dk"
  let ?vals = "map (\<lambda>i. dk (log_block s i)) [0..<length ?bl]"
  have n: "length ?bl \<le> LOGSIZE" and nw: "unat s + LOGSIZE < 2 ^ 32" and d: "distinct ?bl"
    and nl: "\<And>b. b \<in> set ?bl \<Longrightarrow> \<not> in_log s b" and l: "length (dk s) = BSIZE"
    using ok by (auto simp: header_ok_def)
  have sbl: "s \<notin> set ?bl" using nl in_log_start by blast
  have blin: "b \<in> fst ` set (take j (zip ?bl ?vals)) \<Longrightarrow> b \<in> set ?bl" for b
    by (rule subsetD [OF fst_take_zip_sub])
  show ?thesis
  proof (cases "j \<le> length ?bl")
    case True
    then have dk': "dk' = replay (take j (zip ?bl ?vals)) dk" by (simp add: dk'_def recovery_writes_def)
    have "dk' s = dk s" unfolding dk' using blin sbl by (intro replay_other) blast
    then have h: "header s dk' = ?bl" and l': "length (dk' s) = BSIZE" using l by (simp_all add: header_def)
    have ok': "header_ok s dk'" using ok l' by (simp add: header_ok_def h)
    have lb: "dk' (log_block s i) = dk (log_block s i)" if "i < length ?bl" for i
      unfolding dk' using blin nl log_block_in [OF nw, of i] that n by (intro replay_other) fastforce
    have "replay (recovery_writes s dk') dk' b = replay (recovery_writes s dk) dk b" if b: "\<not> in_log s b" for b
    proof (cases "scan (\<lambda>c. c = b) ?bl")
      case (Some i)
      then show ?thesis
        using recovered_block [OF ok' b] recovered_block [OF ok b] lb scan_Some_less [OF Some] by (simp add: h)
    next
      case None
      then have "b \<notin> set ?bl" by (auto simp: scan_from_None)
      then have "dk' b = dk b" unfolding dk' using blin by (intro replay_other) blast
      then show ?thesis
        using recovered_block [OF ok' b] recovered_block [OF ok b] None by (simp add: h)
    qed
    with ok' show ?thesis by blast
  next
    case False
    then have dk': "dk' = replay (recovery_writes s dk) dk" by (simp add: dk'_def recovery_writes_def)
    have "dk' s = head_block [] (dk s)" by (simp add: dk' recovery_writes_def)
    then have "get32 0 (dk' s) = 0" "length (dk' s) = BSIZE"
      using l by (simp_all add: head_block_def BSIZE_def)
    from recovered_uncommitted [where dk = dk', OF nw this(2,1)] show ?thesis by (simp add: dk')
  qed
qed

text \<open>
  Recovery can itself be interrupted: if the machine stops again between any two
  disk writes of a recovery, the next recovery shows the same blocks as an uninterrupted
  one.
\<close>

lemma log_recovery_idempotent:
  assumes "header_ok s dk" and "lstart lg = s"
  shows "\<exists>lg1 st1 lg2 st2. recover_from_log (lg, boot_store dk) = Inr (lg1, st1) \<and>
    recover_from_log (lg, boot_store (replay (take j (writes st1)) dk)) = Inr (lg2, st2) \<and>
    (\<forall>b. in_log s b \<or> disk st2 b = disk st1 b)"
proof -
  obtain st1 where 1: "recover_from_log (lg, boot_store dk) = Inr (lg\<lparr>lh := []\<rparr>, st1)"
    "writes st1 = recovery_writes s dk" "disk st1 = replay (recovery_writes s dk) dk"
    using recover_writes [OF assms] by blast
  let ?dk' = "replay (take j (recovery_writes s dk)) dk"
  note again = recovery_again [OF assms(1), of j]
  obtain st2 where 2: "recover_from_log (lg, boot_store ?dk') = Inr (lg\<lparr>lh := []\<rparr>, st2)"
    "disk st2 = replay (recovery_writes s ?dk') ?dk'"
    using recover_writes [of s ?dk' lg] again assms(2) by blast
  have "in_log s b \<or> disk st2 b = disk st1 b" for b using again 1(3) 2(2) by auto
  then show ?thesis using 1 2 by metis
qed

lemma log_recovery_idempotent_witness:
  "\<exists>lg1 st1 lg2 st2. recover_from_log (demo_log, boot_store ((disk demo_store)(2 := head_block [100] zero_block)))
       = Inr (lg1, st1) \<and>
     recover_from_log (demo_log, boot_store (replay (take 1 (writes st1))
       ((disk demo_store)(2 := head_block [100] zero_block)))) = Inr (lg2, st2) \<and>
     (\<forall>b. in_log 2 b \<or> disk st2 b = disk st1 b)"
proof -
  let ?dk = "(disk demo_store)(2 := head_block [100] zero_block)"
  have l: "length zero_block = BSIZE" by (simp add: zero_block_def)
  have "header 2 ?dk = [100]" by (rule header_block [OF _ l]) (simp_all add: LOGSIZE_def)
  then have "header_ok 2 ?dk" using l by (simp add: header_ok_def in_log_def LOGSIZE_def)
  from log_recovery_idempotent [OF this, of demo_log 1] show ?thesis by (simp add: demo_log_def)
qed

section \<open>Room in the log\<close>

text \<open>
  Operations that overlap: \<open>us\<close> has, for each operation in progress, how many of its
  \<open>log_write\<close>s were made. A commit excludes other operations by \<open>committing\<close>, so it is one
  step.
\<close>

definition drop_op :: "nat \<Rightarrow> nat list \<Rightarrow> nat list" where
  "drop_op i us = take i us @ drop (Suc i) us"

inductive op_run :: "log \<Rightarrow> store \<Rightarrow> nat list \<Rightarrow> bool" where
  start: "lh lg = [] \<Longrightarrow> outstanding lg = 0 \<Longrightarrow> \<not> committing lg \<Longrightarrow> op_run lg st []"
| begin_op: "op_run lg st us \<Longrightarrow> begin_op_round me (lg, pt) = (True, lg', pt') \<Longrightarrow> op_run lg' st (us @ [0])"
| log_write: "op_run lg st us \<Longrightarrow> i < length us \<Longrightarrow> us ! i < MAXOPBLOCKS \<Longrightarrow>
     log_write b d (lg, st) = Inr (lg', st') \<Longrightarrow> op_run lg' st' (us[i := Suc (us ! i)])"
| end_op: "op_run lg st us \<Longrightarrow> i < length us \<Longrightarrow> end_op_begin (lg, pt) = Inr (False, lg', pt') \<Longrightarrow>
     op_run lg' st (drop_op i us)"
| end_op_commit: "op_run lg st us \<Longrightarrow> i < length us \<Longrightarrow> end_op_begin (lg, pt) = Inr (True, lg1, pt1) \<Longrightarrow>
     commit (lg1, st) = (lg2, st') \<Longrightarrow> end_op_finish (lg2, pt2) = (lg', pt') \<Longrightarrow>
     op_run lg' st' (drop_op i us)"

definition budget :: "nat list \<Rightarrow> nat" where
  "budget us = sum_list (map (\<lambda>u. MAXOPBLOCKS - u) us)"

definition op_inv :: "log \<Rightarrow> nat list \<Rightarrow> bool" where
  "op_inv lg us \<longleftrightarrow> outstanding lg = int (length us) \<and> \<not> committing lg \<and>
     length (lh lg) + budget us \<le> LOGSIZE"

lemma budget_bound: "budget us \<le> length us * MAXOPBLOCKS"
  by (induction us) (simp_all add: budget_def)

lemma budget_drop: "budget (drop_op i us) \<le> budget us"
proof -
  have "budget us = budget (take i us) + budget (drop i us)"
    unfolding budget_def by (simp only: sum_list_append [symmetric] map_append [symmetric] append_take_drop_id)
  moreover have "budget (drop (Suc i) us) \<le> budget (drop i us)"
    by (cases "drop i us") (simp_all add: budget_def drop_Suc drop_tl flip: tl_drop)
  ultimately show ?thesis by (simp add: drop_op_def budget_def)
qed

lemma budget_update:
  "i < length us \<Longrightarrow> us ! i < MAXOPBLOCKS \<Longrightarrow> budget (us[i := Suc (us ! i)]) + 1 = budget us"
  using sum_list_update [of i us "\<lambda>u. MAXOPBLOCKS - u" "Suc (us ! i)"] by (simp add: budget_def)

lemma commit_lh: "commit (lg, st) = (lg', st') \<Longrightarrow> lh lg' = [] \<and> outstanding lg' = outstanding lg \<and>
    committing lg' = committing lg \<and> lsize lg' = lsize lg"
  by (auto simp: commit_def Let_def split: if_splits)

lemma op_run_inv: "op_run lg st us \<Longrightarrow> op_inv lg us"
proof (induction rule: op_run.induct)
  case (start lg st)
  then show ?case by (simp add: op_inv_def budget_def)
next
  case (begin_op lg st us me pt lg' pt')
  then have "int (length (lh lg)) + (outstanding lg + 1) * 10 \<le> 30"
    "lg' = lg\<lparr>outstanding := outstanding lg + 1\<rparr>" "\<not> committing lg"
    by (auto simp: begin_op_round_def LOGSIZE_def MAXOPBLOCKS_def split: if_splits)
  moreover have "budget us \<le> length us * 10" using budget_bound [of us] by (simp add: MAXOPBLOCKS_def)
  ultimately show ?case
    using begin_op.IH by (simp add: op_inv_def budget_def LOGSIZE_def MAXOPBLOCKS_def)
next
  case (log_write lg st us i b d lg' st')
  then have "length (lh lg') \<le> Suc (length (lh lg))" "outstanding lg' = outstanding lg" "committing lg' = committing lg"
    by (auto simp: log_write_def split: if_splits)
  then show ?case using log_write.IH budget_update [OF log_write.hyps(2,3)] by (simp add: op_inv_def)
next
  case (end_op lg st us i pt lg' pt')
  then have "lg' = lg\<lparr>outstanding := outstanding lg - 1\<rparr>"
    by (auto simp: end_op_begin_def Let_def split: if_splits)
  moreover have "length (drop_op i us) = length us - 1" using end_op.hyps(2) by (simp add: drop_op_def)
  ultimately show ?case using end_op budget_drop [of i us] by (auto simp: op_inv_def)
next
  case (end_op_commit lg st us i pt lg1 pt1 lg2 st' pt2 lg' pt')
  have 1: "outstanding lg1 = outstanding lg - 1" "outstanding lg1 = 0"
    using end_op_commit.hyps(3) by (auto simp: end_op_begin_def Let_def split: if_splits)
  have 2: "lh lg2 = []" "outstanding lg2 = 0" using commit_lh [OF end_op_commit.hyps(4)] 1 by simp_all
  have "length us = 1" using end_op_commit.IH 1 by (simp add: op_inv_def)
  then have "drop_op i us = []" using end_op_commit.hyps(2) by (simp add: drop_op_def)
  then show ?case using end_op_commit.hyps(5) 2 by (auto simp: op_inv_def end_op_finish_def budget_def)
qed

text \<open>
  C31. The reservation of \<open>begin_op\<close> is sound for a log with more than \<open>LOGSIZE\<close> blocks: as
  long as each operation logs at most \<open>MAXOPBLOCKS\<close> blocks, no \<open>log_write\<close> of any
  overlapping operations panics.
\<close>

theorem log_write_has_room:
  assumes "op_run lg st us" and "int LOGSIZE < lsize lg" and "i < length us" and "us ! i < MAXOPBLOCKS"
  shows "\<exists>lg' st'. log_write b d (lg, st) = Inr (lg', st')"
proof -
  have inv: "op_inv lg us" using assms(1) by (rule op_run_inv)
  have "1 \<le> budget us" using budget_update [OF assms(3,4)] by linarith
  then have "length (lh lg) < LOGSIZE" using inv by (simp add: op_inv_def)
  moreover have "1 \<le> outstanding lg" using inv assms(3) by (simp add: op_inv_def)
  ultimately show ?thesis using assms(2) by (simp add: log_write_def)
qed

definition idle_log :: "int \<Rightarrow> log" where
  "idle_log n = \<lparr>lstart = 2, lsize = n, outstanding = 0, committing = False, lh = []\<rparr>"

lemma one_op: "op_run (idle_log n\<lparr>outstanding := 1\<rparr>) st [0]"
proof -
  have "op_run (idle_log n) st []" by (rule start) (simp_all add: idle_log_def)
  from begin_op [OF this, of 0 "\<lparr>procs = [], initproc = None, nextpid = 1\<rparr>"]
  show ?thesis by (simp add: begin_op_round_def idle_log_def MAXOPBLOCKS_def LOGSIZE_def)
qed

theorem log_write_has_room_witness:
  "\<exists>lg' st'. log_write 100 zero_block (idle_log 31\<lparr>outstanding := 1\<rparr>, demo_store) = Inr (lg', st')"
  by (rule log_write_has_room [OF one_op, where i = 0])
    (simp_all add: idle_log_def LOGSIZE_def MAXOPBLOCKS_def)

text \<open>
  \<open>mkfs\<close> makes a log of \<open>LOGSIZE\<close> blocks, one of which is the header. Three operations
  that log \<open>k\<close> blocks in all:
\<close>

definition used :: "nat \<Rightarrow> nat list" where
  "used k = [min k 10, min (k - 10) 10, k - 20]"

definition full_log :: "nat \<Rightarrow> log" where
  "full_log k = idle_log 30\<lparr>outstanding := 3, lh := map (\<lambda>i. of_nat (100 + i)) [0..<k]\<rparr>"

lemma three_ops: "k \<le> 29 \<Longrightarrow> \<exists>st. op_run (full_log k) st (used k)"
proof (induction k)
  case 0
  let ?pt = "\<lparr>procs = [], initproc = None, nextpid = 1\<rparr>"
  let ?st = "boot_store (\<lambda>_. zero_block)"
  have "op_run (idle_log 30\<lparr>outstanding := 1\<rparr>) ?st [0]" by (rule one_op)
  from begin_op [OF this, of 0 ?pt]
  have "op_run (idle_log 30\<lparr>outstanding := 2\<rparr>) ?st [0, 0]"
    by (simp add: begin_op_round_def idle_log_def MAXOPBLOCKS_def LOGSIZE_def)
  from begin_op [OF this, of 0 ?pt]
  have "op_run (idle_log 30\<lparr>outstanding := 3\<rparr>) ?st [0, 0, 0]"
    by (simp add: begin_op_round_def idle_log_def MAXOPBLOCKS_def LOGSIZE_def)
  then show ?case by (auto simp: full_log_def used_def idle_log_def)
next
  case (Suc k)
  then obtain st where r: "op_run (full_log k) st (used k)" by auto
  let ?i = "if k < 10 then 0 else if k < 20 then 1 else 2 :: nat"
  let ?b = "of_nat (100 + k) :: uint"
  have ne: "(of_nat i :: uint) \<noteq> of_nat k" if "i < k" for i
  proof
    assume "(of_nat i :: uint) = of_nat k"
    then have "unat (of_nat i :: uint) = unat (of_nat k :: uint)" by (rule arg_cong)
    then show False using that Suc.prems by (simp add: unat_of_nat)
  qed
  have new: "?b \<notin> set (lh (full_log k))" by (auto simp: full_log_def dest: not_sym [OF ne])
  have w: "log_write ?b zero_block (full_log k, st) = Inr (full_log (Suc k), st\<lparr>pinned := (pinned st)(?b \<mapsto> zero_block)\<rparr>)"
    using new Suc.prems by (simp add: log_write_def full_log_def idle_log_def LOGSIZE_def)
  have i: "?i < length (used k)" "used k ! ?i < MAXOPBLOCKS" and u: "(used k)[?i := Suc (used k ! ?i)] = used (Suc k)"
    using Suc.prems by (auto simp: used_def MAXOPBLOCKS_def)
  from log_write [OF r i w] show ?case unfolding u by blast
qed

text \<open>
  With the log size that \<open>mkfs\<close> writes, \<open>LOGSIZE\<close>, the reservation is one block short:
  three operations that are all admitted and keep to \<open>MAXOPBLOCKS\<close> blocks each can reach
  the panic of \<open>log_write\<close>.
\<close>

lemma log_one_block_short:
  "\<exists>lg st. op_run lg st [10, 10, 9] \<and> lsize lg = int LOGSIZE \<and>
     log_write 500 zero_block (lg, st) = Inl (Panic ''too big a transaction'')"
proof -
  obtain st where "op_run (full_log 29) st (used 29)" using three_ops [of 29] by auto
  moreover have "used 29 = [10, 10, 9]" by (simp add: used_def)
  moreover have "log_write 500 zero_block (full_log 29, st) = Inl (Panic ''too big a transaction'')"
    by (simp add: log_write_def full_log_def idle_log_def)
  ultimately show ?thesis by (intro exI [of _ "full_log 29"] exI [of _ st]) (simp add: full_log_def idle_log_def LOGSIZE_def)
qed

end
