(* ===== verification/Vm.thy ===== *)
theory Vm
  imports Kalloc
begin

text \<open>
  Page tables (\<open>vm.c\<close>, \<open>mmu.h\<close>). Page directories, page tables and the pages of the
  processes all live in the memory the page allocator manages; a page directory is
  named by its kernel address, as in the code. \<open>kend\<close> and \<open>kdata\<close> are the linker's
  symbols \<open>end\<close> and \<open>data\<close>. Loops over addresses count with natural numbers where
  the bound of the loop keeps the address from wrapping.
\<close>

section \<open>Virtual addresses and entries (mmu.h, memlayout.h)\<close>

definition PDX :: "uint \<Rightarrow> uint" where "PDX va = drop_bit 22 va AND 0x3FF"
definition PTX :: "uint \<Rightarrow> uint" where "PTX va = drop_bit 12 va AND 0x3FF"
definition PTE_P :: uint where "PTE_P = 1"
definition PTE_W :: uint where "PTE_W = 2"
definition PTE_U :: uint where "PTE_U = 4"
definition PTE_ADDR :: "uint \<Rightarrow> uint" where "PTE_ADDR pte = pte AND NOT 0xFFF"
definition PTE_FLAGS :: "uint \<Rightarrow> uint" where "PTE_FLAGS pte = pte AND 0xFFF"
definition KERNLINK :: uint where "KERNLINK = KERNBASE + EXTMEM"
definition DEVSPACE :: uint where "DEVSPACE = 0xFE000000"

lemma unat_PGROUNDDOWN: "unat (PGROUNDDOWN a) = unat a div 4096 * 4096"
proof -
  have m: "(PGSIZE - 1 :: uint) = mask 12" by (simp add: PGSIZE_def mask_eq_exp_minus_1)
  have "PGROUNDDOWN a = push_bit 12 (drop_bit 12 a)"
    unfolding PGROUNDDOWN_def m by (rule bit_word_eqI) (auto simp: bit_simps)
  moreover have "unat (drop_bit 12 a) = unat a div 4096" by (simp add: drop_bit_eq_div unat_div)
  moreover have "unat a div 4096 * 4096 < 2 ^ 32"
    by (rule le_less_trans [OF div_times_less_eq_dividend]) (use unsigned_less [of a, where 'a = nat] in simp)
  ultimately show ?thesis by (simp add: push_bit_eq_mult unat_word_ariths(2) mult.commute)
qed

lemma unat_page_offset: "unat (a - PGROUNDDOWN a) = unat a mod 4096"
proof -
  have "PGROUNDDOWN a \<le> a" by (simp add: word_le_nat_alt unat_PGROUNDDOWN div_times_less_eq_dividend)
  then show ?thesis by (simp add: unat_sub unat_PGROUNDDOWN minus_div_mult_eq_mod)
qed

section \<open>Walking and filling a page table\<close>

definition walkpgdir :: "uint \<Rightarrow> uint \<Rightarrow> bool \<Rightarrow> kmem \<Rightarrow> uint \<times> kmem" where
  "walkpgdir pgdir va alloc k =
     (let pde = pgdir + 4 * PDX va; e = read32 (pages k) pde in
      if e AND PTE_P \<noteq> 0 then (P2V (PTE_ADDR e) + 4 * PTX va, k)
      else if \<not> alloc then (0, k)
      else let (pgtab, k) = kalloc k in
        if pgtab = 0 then (0, k)
        else let k = k\<lparr>pages := memset (pages k) (unat pgtab) 0 4096\<rparr>;
                 k = k\<lparr>pages := write32 (pages k) pde (V2P pgtab OR PTE_P OR PTE_W OR PTE_U)\<rparr>
             in (pgtab + 4 * PTX va, k))"

text \<open>
  The loop of \<open>mappages\<close>; \<open>n\<close> is the number of pages from \<open>a\<close> to \<open>last\<close>. Both are
  multiples of the page size, so \<open>a == last\<close> exactly when it is 0.
\<close>

fun mappages_loop :: "nat \<Rightarrow> uint \<Rightarrow> uint \<Rightarrow> uint \<Rightarrow> uint \<Rightarrow> kmem \<Rightarrow> (int \<times> kmem) res" where
  "mappages_loop n pgdir a pa perm k =
     (let (pte, k) = walkpgdir pgdir a True k in
      if pte = 0 then Inr (-1, k)
      else if read32 (pages k) pte AND PTE_P \<noteq> 0 then Inl (Panic ''remap'')
      else let k = k\<lparr>pages := write32 (pages k) pte (pa OR perm OR PTE_P)\<rparr> in
        case n of 0 \<Rightarrow> Inr (0, k)
        | Suc n \<Rightarrow> mappages_loop n pgdir (a + PGSIZE) (pa + PGSIZE) perm k)"

declare mappages_loop.simps [simp del]

definition mappages :: "uint \<Rightarrow> uint \<Rightarrow> uint \<Rightarrow> uint \<Rightarrow> uint \<Rightarrow> kmem \<Rightarrow> (int \<times> kmem) res" where
  "mappages pgdir va sz pa perm k =
     (let a = PGROUNDDOWN va; last = PGROUNDDOWN (va + sz - 1)
      in mappages_loop (unat ((last - a) div PGSIZE)) pgdir a pa perm k)"

section \<open>Releasing user memory\<close>

text \<open>
  Every caller passes \<open>oldsz \<le> KERNBASE\<close>, so the addresses of this loop do not wrap.
  A missing page table is skipped: \<open>a = PGADDR(PDX(a) + 1, 0, 0) - PGSIZE\<close>.
\<close>

function deallocuvm_loop :: "uint \<Rightarrow> uint \<Rightarrow> nat \<Rightarrow> nat \<Rightarrow> kmem \<Rightarrow> kmem res" where
  "deallocuvm_loop kend pgdir a oldsz k =
     (if a < oldsz then
        let (pte, k) = walkpgdir pgdir (of_nat a) False k in
        if pte = 0 then deallocuvm_loop kend pgdir ((a div 0x400000 + 1) * 0x400000) oldsz k
        else let e = read32 (pages k) pte in
          if e AND PTE_P \<noteq> 0 then
            if PTE_ADDR e = 0 then Inl (Panic ''kfree'')
            else bindE (kfree kend (P2V (PTE_ADDR e)) k) (\<lambda>k.
              deallocuvm_loop kend pgdir (a + 4096) oldsz (k\<lparr>pages := write32 (pages k) pte 0\<rparr>))
          else deallocuvm_loop kend pgdir (a + 4096) oldsz k
      else Inr k)"
  by pat_completeness auto
termination
proof (relation "measure (\<lambda>(kend, pgdir, a, oldsz, k). oldsz - a)")
  have "a < (a div 0x400000 + 1) * 0x400000" for a :: nat
    using dividend_less_div_times [of "0x400000" a] by simp
  then show "a < oldsz \<Longrightarrow> x = walkpgdir pgdir (of_nat a) False k \<Longrightarrow> (pte, k') = x \<Longrightarrow> pte = 0 \<Longrightarrow>
     ((kend, pgdir, (a div 0x400000 + 1) * 0x400000, oldsz, k'), kend, pgdir, a, oldsz, k)
       \<in> measure (\<lambda>(kend, pgdir, a, oldsz, k). oldsz - a)" for kend pgdir a oldsz k x pte k'
    by (simp add: diff_less_mono2)
qed auto

declare deallocuvm_loop.simps [simp del]

definition deallocuvm :: "uint \<Rightarrow> uint \<Rightarrow> uint \<Rightarrow> uint \<Rightarrow> kmem \<Rightarrow> (uint \<times> kmem) res" where
  "deallocuvm kend pgdir oldsz newsz k =
     (if newsz \<ge> oldsz then Inr (oldsz, k)
      else mapE (\<lambda>k. (newsz, k)) (deallocuvm_loop kend pgdir (unat (PGROUNDUP newsz)) (unat oldsz) k))"

fun free_tables :: "uint \<Rightarrow> uint \<Rightarrow> nat list \<Rightarrow> kmem \<Rightarrow> kmem res" where
  "free_tables kend pgdir [] k = Inr k"
| "free_tables kend pgdir (i # is) k =
     (let e = read32 (pages k) (pgdir + 4 * of_nat i) in
      bindE (if e AND PTE_P \<noteq> 0 then kfree kend (P2V (PTE_ADDR e)) k else Inr k)
        (free_tables kend pgdir is))"

definition freevm :: "uint \<Rightarrow> uint \<Rightarrow> kmem \<Rightarrow> kmem res" where
  "freevm kend pgdir k =
     (if pgdir = 0 then Inl (Panic ''freevm: no pgdir'')
      else bindE (deallocuvm kend pgdir KERNBASE 0 k) (\<lambda>(_, k).
           bindE (free_tables kend pgdir [0..<1024] k) (kfree kend pgdir)))"

section \<open>The kernel's part of an address space\<close>

definition kmap :: "uint \<Rightarrow> (uint \<times> uint \<times> uint \<times> uint) list" where
  "kmap kdata =
     [(KERNBASE, 0, EXTMEM, PTE_W), (KERNLINK, V2P KERNLINK, V2P kdata, 0),
      (kdata, V2P kdata, PHYSTOP, PTE_W), (DEVSPACE, DEVSPACE, 0, PTE_W)]"

fun map_all :: "uint \<Rightarrow> uint \<Rightarrow> (uint \<times> uint \<times> uint \<times> uint) list \<Rightarrow> kmem \<Rightarrow> (uint \<times> kmem) res" where
  "map_all kend pgdir [] k = Inr (pgdir, k)"
| "map_all kend pgdir ((virt, phys_start, phys_end, perm) # ks) k =
     bindE (mappages pgdir virt (phys_end - phys_start) phys_start perm k) (\<lambda>(r, k).
       if r < 0 then mapE (\<lambda>k. (0, k)) (freevm kend pgdir k) else map_all kend pgdir ks k)"

definition setupkvm :: "uint \<Rightarrow> uint \<Rightarrow> kmem \<Rightarrow> (uint \<times> kmem) res" where
  "setupkvm kend kdata k =
     (let (pgdir, k) = kalloc k in
      if pgdir = 0 then Inr (0, k)
      else let k = k\<lparr>pages := memset (pages k) (unat pgdir) 0 4096\<rparr> in
        if P2V PHYSTOP > DEVSPACE then Inl (Panic ''PHYSTOP too high'')
        else map_all kend pgdir (kmap kdata) k)"

section \<open>User memory\<close>

text \<open>
  \<open>inituvm\<close> does not test the result of \<open>kalloc\<close>: a null page is written through. The
  bytes to load are at the kernel address \<open>ini\<close>.
\<close>

definition inituvm :: "uint \<Rightarrow> uint \<Rightarrow> uint \<Rightarrow> kmem \<Rightarrow> kmem res" where
  "inituvm pgdir ini sz k =
     (if sz \<ge> PGSIZE then Inl (Panic ''inituvm: more than a page'')
      else let (mem, k) = kalloc k in
        if mem = 0 then Inl BadAccess
        else let k = k\<lparr>pages := memset (pages k) (unat mem) 0 4096\<rparr> in
          bindE (mappages pgdir 0 PGSIZE (V2P mem) (PTE_W OR PTE_U) k) (\<lambda>(_, k).
            Inr (k\<lparr>pages := memmove (pages k) (unat mem) (unat ini) (unat sz)\<rparr>)))"

text \<open>The loop of \<open>allocuvm\<close>; \<open>a\<close> stays below \<open>newsz + PGSIZE\<close>, which does not wrap.\<close>

function allocuvm_loop :: "uint \<Rightarrow> uint \<Rightarrow> nat \<Rightarrow> uint \<Rightarrow> uint \<Rightarrow> kmem \<Rightarrow> (uint \<times> kmem) res" where
  "allocuvm_loop kend pgdir a oldsz newsz k =
     (if a < unat newsz then
        let (mem, k) = kalloc k in
        if mem = 0 then mapE (\<lambda>(_, k). (0, k)) (deallocuvm kend pgdir newsz oldsz k)
        else let k = k\<lparr>pages := memset (pages k) (unat mem) 0 4096\<rparr> in
          bindE (mappages pgdir (of_nat a) PGSIZE (V2P mem) (PTE_W OR PTE_U) k) (\<lambda>(r, k).
            if r < 0 then bindE (deallocuvm kend pgdir newsz oldsz k) (\<lambda>(_, k).
              mapE (\<lambda>k. (0, k)) (kfree kend mem k))
            else allocuvm_loop kend pgdir (a + 4096) oldsz newsz k)
      else Inr (newsz, k))"
  by pat_completeness auto
termination by (relation "measure (\<lambda>(kend, pgdir, a, oldsz, newsz, k). unat newsz - a)") auto

declare allocuvm_loop.simps [simp del]

definition allocuvm :: "uint \<Rightarrow> uint \<Rightarrow> uint \<Rightarrow> uint \<Rightarrow> kmem \<Rightarrow> (uint \<times> kmem) res" where
  "allocuvm kend pgdir oldsz newsz k =
     (if newsz \<ge> KERNBASE then Inr (0, k)
      else if newsz < oldsz then Inr (oldsz, k)
      else allocuvm_loop kend pgdir (unat (PGROUNDUP oldsz)) oldsz newsz k)"

definition clearpteu :: "uint \<Rightarrow> uint \<Rightarrow> kmem \<Rightarrow> kmem res" where
  "clearpteu pgdir uva k =
     (let (pte, k) = walkpgdir pgdir uva False k in
      if pte = 0 then Inl (Panic ''clearpteu'')
      else Inr (k\<lparr>pages := write32 (pages k) pte (read32 (pages k) pte AND NOT PTE_U)\<rparr>))"

text \<open>
  The loop of \<open>copyuvm\<close>. The result is whether it came to the end; otherwise the code
  goes to \<open>bad\<close>. A page that \<open>mappages\<close> could not map is not freed.
\<close>

function copyuvm_loop :: "uint \<Rightarrow> uint \<Rightarrow> nat \<Rightarrow> nat \<Rightarrow> kmem \<Rightarrow> (bool \<times> kmem) res" where
  "copyuvm_loop pgdir d i sz k =
     (if i < sz then
        let (pte, k) = walkpgdir pgdir (of_nat i) False k in
        if pte = 0 then Inl (Panic ''copyuvm: pte should exist'')
        else let e = read32 (pages k) pte in
          if e AND PTE_P = 0 then Inl (Panic ''copyuvm: page not present'')
          else let (mem, k) = kalloc k in
            if mem = 0 then Inr (False, k)
            else let k = k\<lparr>pages := memmove (pages k) (unat mem) (unat (P2V (PTE_ADDR e))) 4096\<rparr> in
              bindE (mappages d (of_nat i) PGSIZE (V2P mem) (PTE_FLAGS e) k) (\<lambda>(r, k).
                if r < 0 then Inr (False, k) else copyuvm_loop pgdir d (i + 4096) sz k)
      else Inr (True, k))"
  by pat_completeness auto
termination by (relation "measure (\<lambda>(pgdir, d, i, sz, k). sz - i)") auto

declare copyuvm_loop.simps [simp del]

definition copyuvm :: "uint \<Rightarrow> uint \<Rightarrow> uint \<Rightarrow> uint \<Rightarrow> kmem \<Rightarrow> (uint \<times> kmem) res" where
  "copyuvm kend kdata pgdir sz k =
     bindE (setupkvm kend kdata k) (\<lambda>(d, k).
       if d = 0 then Inr (0, k)
       else bindE (copyuvm_loop pgdir d 0 (unat sz) k) (\<lambda>(ok, k).
         if ok then Inr (d, k) else mapE (\<lambda>k. (0, k)) (freevm kend d k)))"

text \<open>\<open>uva2ka\<close> dereferences the entry's pointer without testing it for null.\<close>

definition uva2ka :: "uint \<Rightarrow> uint \<Rightarrow> kmem \<Rightarrow> uint res" where
  "uva2ka pgdir uva k =
     (let (pte, k) = walkpgdir pgdir uva False k in
      if pte = 0 then Inl BadAccess
      else let e = read32 (pages k) pte in
        if e AND PTE_P = 0 then Inr 0
        else if e AND PTE_U = 0 then Inr 0
        else Inr (P2V (PTE_ADDR e)))"

text \<open>The bytes to copy out are given as a list; \<open>len\<close> is its length.\<close>

fun put_bytes :: "memory \<Rightarrow> nat \<Rightarrow> byte list \<Rightarrow> memory" where
  "put_bytes m a [] = m"
| "put_bytes m a (b # bs) = put_bytes (m(a := b)) (Suc a) bs"

function copyout :: "uint \<Rightarrow> uint \<Rightarrow> byte list \<Rightarrow> kmem \<Rightarrow> (int \<times> kmem) res" where
  "copyout pgdir va buf k =
     (if buf \<noteq> [] then
        let va0 = PGROUNDDOWN va in
        bindE (uva2ka pgdir va0 k) (\<lambda>pa0.
          if pa0 = 0 then Inr (-1, k)
          else let n = min (4096 - unat (va - va0)) (length buf);
                   k = k\<lparr>pages := put_bytes (pages k) (unat (pa0 + (va - va0))) (take n buf)\<rparr>
               in copyout pgdir (va0 + PGSIZE) (drop n buf) k)
      else Inr (0, k))"
  by pat_completeness auto
termination
proof (relation "measure (\<lambda>(pgdir, va, buf, k). length buf)")
  fix pgdir va buf k va0 pa0 n k'
  assume "buf \<noteq> []" and "va0 = PGROUNDDOWN va" and "n = min (4096 - unat (va - va0)) (length buf)"
  moreover have "unat (va - PGROUNDDOWN va) < 4096" by (simp add: unat_page_offset)
  ultimately show "((pgdir, va0 + PGSIZE, drop n buf, k'), pgdir, va, buf, k) \<in> measure (\<lambda>(pgdir, va, buf, k). length buf)"
    by simp
qed simp

declare copyout.simps [simp del]

end
