(* ===== verification/Vm_Correct.thy ===== *)
theory Vm_Correct
  imports Vm
begin

text \<open>
  The page tables of several address spaces in one memory: who owns which page, what
  an address is mapped to, and that the operations of \<open>vm.c\<close> on one address space
  leave the user memory of every other as it is.
\<close>

section \<open>Arithmetic of addresses\<close>

lemma unat_drop_bit: "unat (drop_bit n (w :: uint)) = unat w div 2 ^ n"
  by (metis drop_bit_eq_div unsigned_drop_bit_eq take_bit_drop_bit take_bit_length_eq
      unsigned_take_bit_eq)

lemma and_0x3FF: "(w :: uint) AND 0x3FF = take_bit 10 w"
proof -
  have "(0x3FF :: uint) = mask 10" by (simp add: mask_eq_exp_minus_1)
  then show ?thesis by (simp only: take_bit_eq_mask)
qed

lemma unat_take_bit: "unat (take_bit n (w :: uint)) = unat w mod 2 ^ n"
  unfolding unsigned_take_bit_eq by (rule take_bit_eq_mod)

lemma of_natI: "unat (w :: uint) = n \<Longrightarrow> w = of_nat n"
  by auto

text \<open>The number of the page an address lies in.\<close>

definition pgno :: "uint \<Rightarrow> nat" where
  "pgno va = unat va div 4096"

lemma PDX_pgno: "PDX va = of_nat (pgno va div 1024)"
proof -
  have "unat (PDX va) = pgno va div 1024"
    using unsigned_less [of va, where 'a = nat]
    by (simp add: PDX_def and_0x3FF unat_take_bit unat_drop_bit pgno_def div_mult2_eq [symmetric])
  then show ?thesis by (rule of_natI)
qed

lemma PTX_pgno: "PTX va = of_nat (pgno va mod 1024)"
proof -
  have "unat (PTX va) = pgno va mod 1024"
    by (simp add: PTX_def and_0x3FF unat_take_bit unat_drop_bit pgno_def)
  then show ?thesis by (rule of_natI)
qed

lemma pgno_less: "pgno va < 0x100000" "pgno va div 1024 < 1024"
  using unsigned_less [of va, where 'a = nat] by (simp_all add: pgno_def)

lemma page_ok_top:
  assumes "page_ok kend v"
  shows "unat v + 4096 \<le> 2 ^ 32" and "unat v mod 4096 = 0" and "unat (V2P v) + 4096 \<le> 2 ^ 32"
proof -
  obtain q where q: "unat v = 4096 * q" using assms by (rule page_ok_aligned)
  show "unat v mod 4096 = 0" using q by simp
  have "4096 * q < 2 ^ 32" using unsigned_less [of v, where 'a = nat] q by simp
  then have "q < 2 ^ 20" by simp
  then show "unat v + 4096 \<le> 2 ^ 32" using q by simp
  show "unat (V2P v) + 4096 \<le> 2 ^ 32"
    using assms by (simp add: page_ok_def PHYSTOP_def word_less_nat_alt)
qed

lemma page_bound: "unat (v :: uint) mod 4096 = 0 \<Longrightarrow> unat v + 4096 \<le> 2 ^ 32"
proof -
  assume "unat v mod 4096 = 0"
  then obtain q where q: "unat v = 4096 * q" by (metis mod_0_imp_dvd dvdE)
  have "4096 * q < 2 ^ 32" using unsigned_less [of v, where 'a = nat] q by simp
  then have "q < 2 ^ 20" by simp
  then show "unat v + 4096 \<le> 2 ^ 32" using q by simp
qed

lemma slot_addr:
  assumes "page_ok kend v" and "j < 1024"
  shows "unat (v + 4 * of_nat j) = unat v + 4 * j"
proof -
  have "unat (4 * of_nat j :: uint) = 4 * j"
    using assms(2) by (simp add: unat_word_ariths(2) unat_of_nat)
  then show ?thesis using page_ok_top(1) [OF assms(1)] assms(2) by (simp add: unat_word_ariths(1))
qed

lemma low_bits: "unat (w :: uint) mod 4096 = 0 \<Longrightarrow> n < 12 \<Longrightarrow> \<not> bit w n"
proof -
  assume "unat w mod 4096 = 0" and n: "n < 12"
  then have "unat (take_bit 12 w) = 0" by (simp add: unat_take_bit)
  then have "take_bit 12 w = 0" by (simp add: unat_eq_0)
  then show ?thesis using n by (metis bit_take_bit_iff bit_0_eq bot_apply bot_bool_def)
qed

lemma unat_V2P:
  assumes "page_ok kend v" shows "unat v = unat (V2P v) + 0x80000000"
proof -
  have "unat (V2P v) < 0xE000000" using assms by (simp add: page_ok_def PHYSTOP_def word_less_nat_alt)
  moreover have "unat (V2P v + KERNBASE) = (unat (V2P v) + 0x80000000) mod 2 ^ 32"
    by (simp only: unat_word_ariths(1)) (simp add: KERNBASE_def)
  moreover have "V2P v + KERNBASE = v" by (simp add: V2P_def)
  ultimately show ?thesis by simp
qed

lemma V2P_aligned:
  assumes "page_ok kend v" shows "unat (V2P v) mod 4096 = 0"
proof -
  have "unat v = unat (V2P v) + 0x80000 * 4096" using unat_V2P [OF assms] by simp
  then have "(unat (V2P v) + 0x80000 * 4096) mod 4096 = 0" using page_ok_top(2) [OF assms] by simp
  then show ?thesis by (simp only: mod_mult_self1)
qed

lemma P2V_V2P [simp]: "P2V (V2P v) = v"
  by (simp add: P2V_def V2P_def)

lemma PTE_ADDR_mask: "PTE_ADDR e = e AND NOT (mask 12)"
  by (simp add: PTE_ADDR_def mask_eq_exp_minus_1)

lemma PTE_ADDR_or:
  assumes "unat pa mod 4096 = 0" and "unat f < 4096"
  shows "PTE_ADDR (pa OR f) = pa"
proof (rule bit_word_eqI)
  fix n assume "n < LENGTH(32)"
  have "unat (take_bit 12 f) = unat f" using assms(2) by (simp add: unat_take_bit)
  then have "take_bit 12 f = f" by (simp only: word_unat_eq_iff)
  then have "bit f n \<Longrightarrow> n < 12" by (metis bit_take_bit_iff)
  then show "bit (PTE_ADDR (pa OR f)) n = bit pa n"
    using low_bits [OF assms(1), of n] \<open>n < LENGTH(32)\<close> by (auto simp: PTE_ADDR_mask bit_simps)
qed


lemma or_present [simp]: "(w OR f OR PTE_P) AND PTE_P \<noteq> 0" "(w OR PTE_P OR f) AND PTE_P \<noteq> 0"
proof -
  have "bit ((w OR f OR PTE_P) AND PTE_P) 0" "bit ((w OR PTE_P OR f) AND PTE_P) 0"
    by (simp_all add: PTE_P_def bit_simps)
  then show "(w OR f OR PTE_P) AND PTE_P \<noteq> 0" "(w OR PTE_P OR f) AND PTE_P \<noteq> 0" by auto
qed

lemma unat_or_flags: "unat (f :: uint) < 4096 \<Longrightarrow> unat (f OR PTE_P) < 4096"
proof -
  assume "unat f < 4096"
  then have "unat (take_bit 12 f) = unat f" by (simp add: unat_take_bit)
  then have "take_bit 12 f = f" by (simp only: word_unat_eq_iff)
  then have "take_bit 12 (f OR PTE_P) = f OR PTE_P" by (simp add: PTE_P_def)
  then have "unat (f OR PTE_P) = unat (f OR PTE_P) mod 2 ^ 12" by (metis unat_take_bit)
  also have "\<dots> < 2 ^ 12" by (rule mod_less_divisor) simp
  finally show ?thesis by simp
qed

section \<open>Words in disjoint places\<close>

lemma read32_write32_other:
  "unat a + 4 \<le> unat b \<or> unat b + 4 \<le> unat a \<Longrightarrow> read32 (write32 m a w) b = read32 m b"
  by (rule read32_cong) (auto intro: write32_outside)

definition same_page :: "memory \<Rightarrow> memory \<Rightarrow> uint \<Rightarrow> bool" where
  "same_page m m' v \<longleftrightarrow> (\<forall>x. unat v \<le> x \<and> x < unat v + 4096 \<longrightarrow> m' x = m x)"

lemma same_page_trans: "same_page m m' v \<Longrightarrow> same_page m' m'' v \<Longrightarrow> same_page m m'' v"
  by (simp add: same_page_def)

lemma same_page_refl [simp]: "same_page m m v"
  by (simp add: same_page_def)

lemma same_page_slot:
  assumes "page_ok kend v" and "j < 1024" and "same_page m m' v"
  shows "read32 m' (v + 4 * of_nat j) = read32 m (v + 4 * of_nat j)"
  by (rule read32_cong) (use assms slot_addr [OF assms(1,2)] in \<open>auto simp: same_page_def\<close>)

lemma same_page_write:
  assumes "page_ok kend v" "page_ok kend t" "v \<noteq> t" "j < 1024"
  shows "same_page m (write32 m (t + 4 * of_nat j) w) v"
  using pages_apart [OF assms(1-3)] slot_addr [OF assms(2,4)] assms(4)
  unfolding same_page_def by (intro allI impI write32_outside) auto

lemma same_page_memset:
  assumes "page_ok kend v" "page_ok kend t" "v \<noteq> t"
  shows "same_page m (memset m (unat t) c 4096) v"
  using pages_apart [OF assms] by (auto simp: same_page_def memset_apply)

lemma slots_apart:
  assumes "page_ok kend t" "i < 1024" "j < 1024" "i \<noteq> j"
  shows "read32 (write32 m (t + 4 * of_nat i) w) (t + 4 * of_nat j) = read32 m (t + 4 * of_nat j)"
  by (rule read32_write32_other) (use assms slot_addr [OF assms(1)] in auto)

section \<open>Address spaces\<close>

text \<open>
  The directory and table entries of the address space \<open>d\<close>, by number; an absent table
  has no entries present.
\<close>

definition pde_of :: "memory \<Rightarrow> uint \<Rightarrow> nat \<Rightarrow> uint" where
  "pde_of m d i = read32 m (d + 4 * of_nat i)"

definition entry :: "memory \<Rightarrow> uint \<Rightarrow> nat \<Rightarrow> uint" where
  "entry m d p =
     (let e = pde_of m d (p div 1024) in
      if e AND PTE_P \<noteq> 0 then read32 m (P2V (PTE_ADDR e) + 4 * of_nat (p mod 1024)) else 0)"

text \<open>The pages an address space consists of.\<close>

datatype use = Dir | Table nat | Frame nat

fun own :: "memory \<Rightarrow> uint \<Rightarrow> use \<Rightarrow> uint option" where
  "own m d Dir = Some d"
| "own m d (Table i) =
     (if i < 1024 \<and> pde_of m d i AND PTE_P \<noteq> 0 then Some (P2V (PTE_ADDR (pde_of m d i))) else None)"
| "own m d (Frame p) =
     (if p < 0x80000 \<and> entry m d p AND PTE_P \<noteq> 0 then Some (P2V (PTE_ADDR (entry m d p))) else None)"

text \<open>
  \<open>D\<close> is the set of page directories in use, \<open>H\<close> the set of pages that the kernel has
  allocated for other purposes, \<open>ps\<close> the free list: no page has two uses.
\<close>

definition vm_inv :: "uint \<Rightarrow> kmem \<Rightarrow> uint set \<Rightarrow> uint set \<Rightarrow> uint list \<Rightarrow> bool" where
  "vm_inv kend k D H ps \<longleftrightarrow> kmem_inv kend k ps \<and>
     (\<forall>v \<in> H. page_ok kend v \<and> v \<notin> set ps) \<and>
     (\<forall>d \<in> D. \<forall>x v. own (pages k) d x = Some v \<longrightarrow> page_ok kend v \<and> v \<notin> set ps \<and> v \<notin> H) \<and>
     (\<forall>d \<in> D. \<forall>e \<in> D. \<forall>x y v. own (pages k) d x = Some v \<longrightarrow> own (pages k) e y = Some v \<longrightarrow> d = e \<and> x = y)"

lemma vm_invD:
  assumes "vm_inv kend k D H ps"
  shows "kmem_inv kend k ps"
    and "v \<in> H \<Longrightarrow> page_ok kend v" and "v \<in> H \<Longrightarrow> v \<notin> set ps"
    and "d \<in> D \<Longrightarrow> own (pages k) d x = Some v \<Longrightarrow> page_ok kend v"
    and "d \<in> D \<Longrightarrow> own (pages k) d x = Some v \<Longrightarrow> v \<notin> set ps"
    and "d \<in> D \<Longrightarrow> own (pages k) d x = Some v \<Longrightarrow> v \<notin> H"
    and "d \<in> D \<Longrightarrow> e \<in> D \<Longrightarrow> own (pages k) d x = Some v \<Longrightarrow> own (pages k) e y = Some v \<Longrightarrow> d = e \<and> x = y"
  using assms unfolding vm_inv_def by blast+

text \<open>An address space depends on its directory and its tables only.\<close>

lemma entry_cong:
  assumes "page_ok kend d" and "\<And>i t. own m d (Table i) = Some t \<Longrightarrow> page_ok kend t"
    and "same_page m m' d" and "\<And>i t. own m d (Table i) = Some t \<Longrightarrow> same_page m m' t"
  shows "i < 1024 \<Longrightarrow> pde_of m' d i = pde_of m d i"
    and "p < 0x100000 \<Longrightarrow> entry m' d p = entry m d p"
    and "own m' d = own m d"
proof -
  show pde: "pde_of m' d i = pde_of m d i" if "i < 1024" for i
    unfolding pde_of_def by (rule same_page_slot [OF assms(1) that assms(3)])
  show ent: "entry m' d p = entry m d p" if "p < 0x100000" for p
  proof (cases "pde_of m d (p div 1024) AND PTE_P = 0")
    case False
    have i: "p div 1024 < 1024" using that by simp
    with False have t: "own m d (Table (p div 1024)) = Some (P2V (PTE_ADDR (pde_of m d (p div 1024))))" by simp
    have "p mod 1024 < 1024" by simp
    from same_page_slot [OF assms(2) [OF t] this assms(4) [OF t]] show ?thesis
      using False pde [OF i] by (simp add: entry_def Let_def)
  qed (use that pde in \<open>simp add: entry_def\<close>)
  show "own m' d = own m d"
  proof
    fix x show "own m' d x = own m d x" using pde ent by (cases x) auto
  qed
qed


section \<open>Walking\<close>

abbreviation dirno :: "uint \<Rightarrow> nat" where "dirno va \<equiv> pgno va div 1024"
abbreviation tabno :: "uint \<Rightarrow> nat" where "tabno va \<equiv> pgno va mod 1024"

lemma walk_present:
  "own (pages k) d (Table (dirno va)) = Some t \<Longrightarrow> walkpgdir d va alloc k = (t + 4 * of_nat (tabno va), k)"
  by (auto simp: walkpgdir_def Let_def PDX_pgno PTX_pgno pde_of_def split: if_splits)

lemma walk_absent:
  "own (pages k) d (Table (dirno va)) = None \<Longrightarrow> walkpgdir d va False k = (0, k)"
  by (auto simp: walkpgdir_def Let_def PDX_pgno pde_of_def pgno_less split: if_splits)

lemma entry_table:
  "p < 0x100000 \<Longrightarrow> own m d (Table (p div 1024)) = Some t \<Longrightarrow> entry m d p = read32 m (t + 4 * of_nat (p mod 1024))"
  by (auto simp: entry_def Let_def split: if_splits)

lemma entry_no_table:
  "p < 0x100000 \<Longrightarrow> own m d (Table (p div 1024)) = None \<Longrightarrow> entry m d p = 0"
  by (auto simp: entry_def Let_def split: if_splits)

lemma kmem_inv_pages:
  assumes "kmem_inv kend k ps" and "\<And>q. q \<in> set ps \<Longrightarrow> same_page (pages k) m' q"
  shows "kmem_inv kend (k\<lparr>pages := m'\<rparr>) ps"
proof -
  have "read32 m' q = read32 (pages k) q" if "q \<in> set ps" for q
    using assms that same_page_slot [of kend q 0 "pages k" m'] by (auto simp: kmem_inv_def)
  then have "chain m' (freelist k) ps = chain (pages k) (freelist k) ps" by (intro chain_cong) simp
  then show ?thesis using assms(1) by (simp add: kmem_inv_def)
qed

text \<open>One page changes from free or held to a use in the address space \<open>d\<close>.\<close>

lemma vm_inv_grow:
  assumes inv: "vm_inv kend k D H ps" and km: "kmem_inv kend k' ps'"
    and sub: "set ps' \<subseteq> set ps" "H' \<subseteq> H"
    and own: "\<And>e x v. e \<in> D \<Longrightarrow> own (pages k') e x = Some v \<Longrightarrow>
      own (pages k) e x = Some v \<or> e = d \<and> x = x0 \<and> v = v0"
    and v0: "page_ok kend v0" "v0 \<in> set ps \<union> H" "v0 \<notin> set ps'" "v0 \<notin> H'"
  shows "vm_inv kend k' D H' ps'"
proof -
  note I = vm_invD [OF inv]
  have old: "own (pages k) e x \<noteq> Some v0" if "e \<in> D" for e x using I(5,6) that v0(2) by blast
  show ?thesis unfolding vm_inv_def
  proof (intro conjI ballI allI impI)
    fix e x v assume e: "e \<in> D" and x: "own (pages k') e x = Some v"
    from own [OF e x] show "page_ok kend v" "v \<notin> set ps'" "v \<notin> H'"
      using I(4-6) [OF e] sub v0 by blast+
    fix e' y assume e': "e' \<in> D" and y: "own (pages k') e' y = Some v"
    show "e = e'" "x = y" using own [OF e x] own [OF e' y] I(7) [OF e e'] old e e' by blast+
  qed (use km I(2,3) sub in blast)+
qed

text \<open>What the operations keep: the pages held and the frames of every address space.\<close>

definition keeps :: "uint set \<Rightarrow> uint set \<Rightarrow> memory \<Rightarrow> memory \<Rightarrow> bool" where
  "keeps D H m m' \<longleftrightarrow> (\<forall>v \<in> H. same_page m m' v) \<and>
     (\<forall>e \<in> D. \<forall>p v. own m e (Frame p) = Some v \<longrightarrow> same_page m m' v)"

definition same_maps :: "uint set \<Rightarrow> memory \<Rightarrow> memory \<Rightarrow> bool" where
  "same_maps D m m' \<longleftrightarrow> (\<forall>e \<in> D. \<forall>p < 0x100000. entry m' e p = entry m e p)"

lemma keepsI:
  assumes inv: "vm_inv kend k D H ps"
    and "\<And>v. page_ok kend v \<Longrightarrow> v \<notin> set ps \<Longrightarrow> v \<notin> T \<Longrightarrow> same_page (pages k) m' v"
    and "\<And>v. v \<in> T \<Longrightarrow> v \<in> set ps \<or> v \<notin> H \<and> (\<forall>e \<in> D. \<forall>p. own (pages k) e (Frame p) \<noteq> Some v)"
  shows "keeps D H (pages k) m'"
  using assms(2,3) vm_invD(2-5) [OF inv] unfolding keeps_def by blast


text \<open>A new page table, all zero, is entered in the directory of \<open>d\<close>.\<close>

lemma new_table:
  assumes inv: "vm_inv kend k D H (t # ps)" and km: "kmem_inv kend k1 ps" and pg: "pages k1 = pages k"
    and d: "d \<in> D" and i: "i < 1024" and none: "own (pages k) d (Table i) = None"
    and k2: "k2 = k1\<lparr>pages := write32 (memset (pages k) (unat t) 0 4096) (d + 4 * of_nat i) (V2P t OR PTE_P OR PTE_W OR PTE_U)\<rparr>"
  shows "vm_inv kend k2 D H ps" and "own (pages k2) d (Table i) = Some t"
    and "same_maps D (pages k) (pages k2)" and "keeps D H (pages k) (pages k2)"
proof -
  let ?m = "pages k" and ?m1 = "memset (pages k) (unat t) 0 4096" and ?m2 = "pages k2"
  note I = vm_invD [OF inv]
  have t: "page_ok kend t" "t \<notin> set ps" using I(1) by (auto simp: kmem_inv_def)
  have dd: "own ?m d Dir = Some d" by simp
  have pd: "page_ok kend d" "d \<noteq> t" "d \<notin> set ps" "d \<notin> H"
    using I(4-6) [OF d dd] by auto
  have nd: "v \<noteq> d" if "e \<in> D" "own ?m e x = Some v" "e \<noteq> d \<or> x \<noteq> Dir" for e x v
    using I(7) [OF that(1) d _ dd, of x] that(2,3) by blast
  have nf: "\<forall>e \<in> D. \<forall>p. own ?m e (Frame p) \<noteq> Some d" using nd by blast
  have m2: "?m2 = write32 ?m1 (d + 4 * of_nat i) (V2P t OR PTE_P OR PTE_W OR PTE_U)" by (simp add: k2)
  have same: "same_page ?m ?m2 v" if "page_ok kend v" "v \<noteq> t" "v \<noteq> d" for v
    unfolding m2 by (rule same_page_trans [OF same_page_memset same_page_write]) (use that t pd i in auto)
  have same_t: "same_page ?m1 ?m2 t" unfolding m2 by (rule same_page_write) (use t pd i in auto)
  have zero: "read32 ?m2 (t + 4 * of_nat j) = 0" if j: "j < 1024" for j
  proof -
    have "read32 ?m2 (t + 4 * of_nat j) = read32 ?m1 (t + 4 * of_nat j)"
      by (rule same_page_slot [OF t(1) j same_t])
    also have "\<dots> = read32 (\<lambda>_. 0) (t + 4 * of_nat j)"
      using slot_addr [OF t(1) j] j by (intro read32_cong) (simp add: memset_apply)
    finally show ?thesis by (simp add: read32_def of_le32_def upt_rec)
  qed
  have pde_d: "pde_of ?m2 d j = (if j = i then V2P t OR PTE_P OR PTE_W OR PTE_U else pde_of ?m d j)"
    if j: "j < 1024" for j
  proof (cases "j = i")
    case False
    have "pde_of ?m2 d j = pde_of ?m1 d j"
      unfolding m2 pde_of_def by (rule slots_apart) (use False pd i j in auto)
    also have "\<dots> = pde_of ?m d j"
      unfolding pde_of_def by (rule same_page_slot [OF pd(1) j same_page_memset]) (use t pd in auto)
    finally show ?thesis using False by simp
  qed (simp add: m2 pde_of_def)
  have addr: "PTE_ADDR (V2P t OR PTE_P OR PTE_W OR PTE_U) = V2P t"
    by (rule PTE_ADDR_or) (use V2P_aligned [OF t(1)] in \<open>simp_all add: PTE_P_def PTE_W_def PTE_U_def\<close>)
  have tab: "own ?m2 d (Table j) = (if j = i then Some t else own ?m d (Table j))" for j
    using pde_d [of i] pde_d [of j] i addr by (cases "j = i"; cases "j < 1024") simp_all
  then show "own ?m2 d (Table i) = Some t" by simp
  have ent_d: "entry ?m2 d p = entry ?m d p" if p: "p < 0x100000" for p
  proof (cases "p div 1024 = i")
    case True
    then have "entry ?m2 d p = 0" using entry_table [OF p, of ?m2 d t] tab zero by simp
    then show ?thesis using entry_no_table [OF p] none True by simp
  next
    case False
    show ?thesis
    proof (cases "own ?m d (Table (p div 1024))")
      case None
      then show ?thesis using entry_no_table [OF p] tab False by simp
    next
      case (Some v)
      have "v \<noteq> t" "v \<noteq> d" "page_ok kend v" using I(4,5) [OF d Some] nd [OF d Some] by auto
      then have "read32 ?m2 (v + 4 * of_nat (p mod 1024)) = read32 ?m (v + 4 * of_nat (p mod 1024))"
        by (intro same_page_slot same) auto
      then show ?thesis using entry_table [OF p, of _ d v] tab Some False by simp
    qed
  qed
  have other: "own ?m2 e = own ?m e" "\<And>p. p < 0x100000 \<Longrightarrow> entry ?m2 e p = entry ?m e p"
    if e: "e \<in> D" "e \<noteq> d" for e
  proof -
    have sp: "same_page ?m ?m2 v" if "own ?m e x = Some v" for x v
      using I(4,5) [OF e(1) that] nd [OF e(1) that] e(2) by (intro same) auto
    have "own ?m e Dir = Some e" by simp
    then show "own ?m2 e = own ?m e" "\<And>p. p < 0x100000 \<Longrightarrow> entry ?m2 e p = entry ?m e p"
      using entry_cong [of kend e ?m ?m2] I(4) [OF e(1)] sp by blast+
  qed
  show maps: "same_maps D ?m ?m2" using ent_d other(2) unfolding same_maps_def by metis
  have "own ?m2 e x = Some v \<Longrightarrow> own ?m e x = Some v \<or> e = d \<and> x = Table i \<and> v = t"
    if e: "e \<in> D" for e x v
    using tab ent_d other(1) [OF e] by (cases "e = d"; cases x) (auto split: if_splits)
  moreover have "kmem_inv kend k2 ps"
  proof -
    have "kmem_inv kend (k1\<lparr>pages := ?m2\<rparr>) ps"
      by (rule kmem_inv_pages [OF km]) (use t pd km pg in \<open>auto simp: kmem_inv_def intro!: same\<close>)
    then show ?thesis by (simp add: k2)
  qed
  ultimately show "vm_inv kend k2 D H ps"
    by (intro vm_inv_grow [OF inv, where ?v0.0 = t and d = d and ?x0.0 = "Table i"]) (use t I(3) in auto)
  show "keeps D H ?m ?m2"
    by (rule keepsI [OF inv, where T = "{t, d}"]) (use same in blast, use pd(4) nf in \<open>auto simp del: own.simps\<close>)
qed

lemma walk_alloc:
  assumes inv: "vm_inv kend k D H ps" and d: "d \<in> D" and w: "walkpgdir d va True k = (pte, k')"
  shows "pte = 0 \<and> ps = [] \<and> k' = k \<or>
    (\<exists>t ps'. pte = t + 4 * of_nat (tabno va) \<and> own (pages k') d (Table (dirno va)) = Some t \<and>
       (ps = ps' \<or> (\<exists>q. ps = q # ps')) \<and> vm_inv kend k' D H ps' \<and>
       same_maps D (pages k) (pages k') \<and> keeps D H (pages k) (pages k'))"
proof (cases "own (pages k) d (Table (dirno va))")
  case (Some t)
  then show ?thesis using w inv walk_present [OF Some, of True]
    by (auto simp: same_maps_def keeps_def)
next
  case None
  then have e: "pde_of (pages k) d (dirno va) AND PTE_P = 0" using pgno_less by (auto split: if_splits)
  note I = vm_invD [OF inv]
  show ?thesis
  proof (cases ps)
    case Nil
    then show ?thesis using w e kalloc_ok [OF I(1)]
      by (auto simp: walkpgdir_def Let_def PDX_pgno pde_of_def)
  next
    case (Cons t qs)
    obtain k1 where k1: "kalloc k = (t, k1)" "kmem_inv kend k1 qs" "pages k1 = pages k"
      using kalloc_ok [OF I(1)] Cons by (cases "kalloc k") auto
    have "t \<noteq> 0" using I(1) Cons page_ok_nonzero by (auto simp: kmem_inv_def)
    then have k': "pte = t + 4 * of_nat (tabno va)"
      "k' = k1\<lparr>pages := write32 (memset (pages k) (unat t) 0 4096) (d + 4 * of_nat (dirno va)) (V2P t OR PTE_P OR PTE_W OR PTE_U)\<rparr>"
      using w e k1 by (simp_all add: walkpgdir_def Let_def PDX_pgno PTX_pgno pde_of_def)
    show ?thesis
      using new_table [OF inv [unfolded Cons] k1(2,3) d pgno_less(2) None k'(2)] k'(1) Cons by blast
  qed
qed


section \<open>Writing an entry\<close>

lemma set_entry:
  assumes inv: "vm_inv kend k D H ps" and d: "d \<in> D" and p: "p < 0x100000"
    and t: "own (pages k) d (Table (p div 1024)) = Some t"
    and m': "m' = write32 (pages k) (t + 4 * of_nat (p mod 1024)) w"
  shows "\<And>e q. e \<in> D \<Longrightarrow> q < 0x100000 \<Longrightarrow> entry m' e q = (if e = d \<and> q = p then w else entry (pages k) e q)"
    and "\<And>e i. e \<in> D \<Longrightarrow> own m' e (Table i) = own (pages k) e (Table i)"
    and "\<And>v. page_ok kend v \<Longrightarrow> v \<noteq> t \<Longrightarrow> same_page (pages k) m' v"
    and "keeps D H (pages k) m'"
    and "kmem_inv kend (k\<lparr>pages := m'\<rparr>) ps"
proof -
  let ?m = "pages k"
  note I = vm_invD [OF inv]
  have ok: "page_ok kend t" "t \<notin> set ps" "t \<notin> H" using I(4-6) [OF d t] by auto
  have j: "p mod 1024 < 1024" by simp
  show same: "\<And>v. page_ok kend v \<Longrightarrow> v \<noteq> t \<Longrightarrow> same_page ?m m' v"
    unfolding m' by (rule same_page_write) (use ok j in auto)
  have nt: "v \<noteq> t" if "e \<in> D" "own ?m e x = Some v" "e \<noteq> d \<or> x \<noteq> Table (p div 1024)" for e x v
    using I(7) [OF that(1) d _ t, of x] that(2,3) by blast
  show "keeps D H ?m m'"
    by (rule keepsI [OF inv, where T = "{t}"]) (use same ok(3) nt in blast)+
  show "kmem_inv kend (k\<lparr>pages := m'\<rparr>) ps"
    by (rule kmem_inv_pages [OF I(1)]) (use same ok(2) I(1) in \<open>auto simp: kmem_inv_def\<close>)
  have dir: "pde_of m' e i = pde_of ?m e i" if e: "e \<in> D" and i: "i < 1024" for e i
  proof -
    have o: "own ?m e Dir = Some e" by simp
    have "page_ok kend e" "e \<noteq> t" using I(4) [OF e o] nt [OF e o] by auto
    then show ?thesis unfolding pde_of_def by (intro same_page_slot [OF _ i] same)
  qed
  show tab: "own m' e (Table i) = own ?m e (Table i)" if "e \<in> D" for e i
    using dir [OF that, of i] by (cases "i < 1024") simp_all
  show "entry m' e q = (if e = d \<and> q = p then w else entry ?m e q)" if e: "e \<in> D" and q: "q < 0x100000" for e q
  proof (cases "own ?m e (Table (q div 1024))")
    case None
    then have "\<not> (e = d \<and> q = p)" using t by auto
    moreover have "own m' e (Table (q div 1024)) = None" using tab [OF e] None by metis
    ultimately show ?thesis using entry_no_table [OF q None] entry_no_table [OF q, of m' e] by auto
  next
    case (Some v)
    have ent: "entry m' e q = read32 m' (v + 4 * of_nat (q mod 1024))"
      "entry ?m e q = read32 ?m (v + 4 * of_nat (q mod 1024))"
      using entry_table [OF q] Some tab [OF e] by simp_all
    have pv: "page_ok kend v" by (rule I(4) [OF e Some])
    show ?thesis
    proof (cases "v = t")
      case True
      then have ed: "e = d" "q div 1024 = p div 1024" using nt [OF e Some] by auto
      show ?thesis
      proof (cases "q mod 1024 = p mod 1024")
        case True
        then have "q = p" using ed(2) by (metis div_mult_mod_eq)
        then show ?thesis using ent ed(1) \<open>v = t\<close> by (simp add: m')
      next
        case False
        then have "read32 m' (t + 4 * of_nat (q mod 1024)) = read32 ?m (t + 4 * of_nat (q mod 1024))"
          unfolding m' using False by (intro slots_apart [OF ok(1)]) auto
        then show ?thesis using ent False \<open>v = t\<close> by auto
      qed
    next
      case False
      have "read32 m' (v + 4 * of_nat (q mod 1024)) = read32 ?m (v + 4 * of_nat (q mod 1024))"
        by (rule same_page_slot [OF pv _ same [OF pv False]]) simp
      then show ?thesis using ent False Some t by auto
    qed
  qed
qed

lemma own_set_entry:
  assumes "\<And>e q. e \<in> D \<Longrightarrow> q < 0x100000 \<Longrightarrow> entry m' e q = (if e = d \<and> q = p then w else entry m e q)"
    and "\<And>e i. e \<in> D \<Longrightarrow> own m' e (Table i) = own m e (Table i)"
    and "e \<in> D" and "e \<noteq> d \<or> x \<noteq> Frame p"
  shows "own m' e x = own m e x"
  using assms by (cases x) auto

section \<open>Mapping one user page\<close>

definition map_entry :: "uint \<Rightarrow> uint \<Rightarrow> uint" where
  "map_entry pa perm = pa OR perm OR PTE_P"

lemma same_maps_trans: "same_maps D m m' \<Longrightarrow> same_maps D m' m'' \<Longrightarrow> same_maps D m m''"
  by (simp add: same_maps_def)

lemma keeps_trans:
  assumes "keeps D H m m'" "keeps D H m' m''" "same_maps D m m'"
  shows "keeps D H m m''"
proof -
  have "own m' e (Frame p) = own m e (Frame p)" if "e \<in> D" for e p
    using assms(3) that by (auto simp: same_maps_def)
  then show ?thesis using assms(1,2) unfolding keeps_def by (metis same_page_trans)
qed

lemma mappages_one:
  "unat va mod 4096 = 0 \<Longrightarrow> mappages d va PGSIZE pa perm k = mappages_loop 0 d va pa perm k"
proof -
  assume va: "unat va mod 4096 = 0"
  have "unat (PGROUNDDOWN va) = unat va" using va by (simp only: unat_PGROUNDDOWN) auto
  then have a: "PGROUNDDOWN va = va" by (simp only: word_unat_eq_iff)
  have le: "unat va + 4096 \<le> 2 ^ 32"
    using page_bound [OF va] .
  then have u: "unat (va + PGSIZE - 1) = unat va + 4095"
    by (simp add: PGSIZE_def unat_word_ariths(1) add_diff_eq [symmetric])
  have "unat (PGROUNDDOWN (va + PGSIZE - 1)) = unat va"
  proof -
    obtain q where q: "unat va = 4096 * q" using va by (metis mod_0_imp_dvd dvdE)
    show ?thesis unfolding unat_PGROUNDDOWN u q by simp
  qed
  then have "PGROUNDDOWN (va + PGSIZE - 1) = va" by (simp only: word_unat_eq_iff)
  then show ?thesis by (simp add: mappages_def Let_def a)
qed


text \<open>The outcome of mapping the held page \<open>h\<close> at page \<open>p\<close> of \<open>d\<close>.\<close>

definition page_mapped :: "uint \<Rightarrow> kmem \<Rightarrow> uint set \<Rightarrow> uint set \<Rightarrow> uint list \<Rightarrow> uint \<Rightarrow> nat \<Rightarrow> uint \<Rightarrow> uint \<Rightarrow> kmem \<Rightarrow> uint list \<Rightarrow> bool" where
  "page_mapped kend k D H ps d p h perm k' ps' \<longleftrightarrow>
     (ps = ps' \<or> (\<exists>q. ps = q # ps')) \<and> vm_inv kend k' D (H - {h}) ps' \<and> keeps D H (pages k) (pages k') \<and>
     (\<forall>e \<in> D. \<forall>q < 0x100000. entry (pages k') e q = (if e = d \<and> q = p then map_entry (V2P h) perm else entry (pages k) e q))"

lemma mappages_user_page:
  assumes inv: "vm_inv kend k D H ps" and d: "d \<in> D" and h: "h \<in> H"
    and va: "unat va mod 4096 = 0" "va < KERNBASE" and free: "entry (pages k) d (pgno va) AND PTE_P = 0"
    and perm: "unat perm < 4096"
  shows "(\<exists>k' ps'. mappages d va PGSIZE (V2P h) perm k = Inr (0, k') \<and> page_mapped kend k D H ps d (pgno va) h perm k' ps') \<or>
    ps = [] \<and> mappages d va PGSIZE (V2P h) perm k = Inr (-1, k)"
proof -
  obtain pte k1 where w: "walkpgdir d va True k = (pte, k1)" by fastforce
  have pg: "pgno va < 0x80000" "pgno va < 0x100000"
    using va(2) by (simp_all add: pgno_def KERNBASE_def word_less_nat_alt)
  from walk_alloc [OF inv d w] consider
    (none) "pte = 0" "ps = []" "k1 = k"
  | (some) t ps' where "pte = t + 4 * of_nat (tabno va)" "own (pages k1) d (Table (dirno va)) = Some t"
      "vm_inv kend k1 D H ps'" "same_maps D (pages k) (pages k1)" "keeps D H (pages k) (pages k1)"
      "ps = ps' \<or> (\<exists>q. ps = q # ps')" by blast
  then show ?thesis
  proof cases
    case none
    then show ?thesis using w by (simp add: mappages_one [OF va(1)] mappages_loop.simps Let_def)
  next
    case some
    note pte = some(1) and t = some(2) and inv1 = some(3) and maps = some(4) and kp = some(5) and tail = some(6)
    note I = vm_invD [OF inv1]
    have "page_ok kend t" by (rule I(4) [OF d t])
    have "unat pte = unat t + 4 * tabno va" unfolding pte by (rule slot_addr [OF \<open>page_ok kend t\<close>]) simp
    moreover have "unat t \<noteq> 0" using page_ok_nonzero [OF \<open>page_ok kend t\<close>] by (simp add: unat_eq_0)
    ultimately have nz: "pte \<noteq> 0" by auto
    have old: "read32 (pages k1) pte AND PTE_P = 0"
      using free maps d pg entry_table [OF pg(2) t] by (simp add: same_maps_def pte)
    define m' where "m' = write32 (pages k1) (t + 4 * of_nat (tabno va)) (map_entry (V2P h) perm)"
    let ?k' = "k1\<lparr>pages := m'\<rparr>"
    have run: "mappages d va PGSIZE (V2P h) perm k = Inr (0, ?k')"
      using w nz old by (simp add: mappages_one [OF va(1)] mappages_loop.simps Let_def m'_def map_entry_def pte)
    note S = set_entry [OF inv1 d pg(2) t m'_def]
    have hp: "page_ok kend h" "h \<notin> set ps'" using I(2,3) h by auto
    have addr: "PTE_ADDR (map_entry (V2P h) perm) = V2P h"
      unfolding map_entry_def by (rule PTE_ADDR_or [OF V2P_aligned [OF hp(1)] unat_or_flags [OF perm]])
    have frame: "own m' d (Frame (pgno va)) = Some h"
      using S(1) [OF d pg(2)] pg addr by (simp add: map_entry_def)
    have "own m' e x = Some v \<Longrightarrow> own (pages k1) e x = Some v \<or> e = d \<and> x = Frame (pgno va) \<and> v = h"
      if e: "e \<in> D" for e x v
      using own_set_entry [of D m' d "pgno va" "map_entry (V2P h) perm" "pages k1", OF S(1,2) e, of x] frame
      by (cases "e = d \<and> x = Frame (pgno va)") auto
    then have "vm_inv kend ?k' D (H - {h}) ps'"
      by (intro vm_inv_grow [OF inv1, where ?v0.0 = h and d = d and ?x0.0 = "Frame (pgno va)"])
        (use S(5) hp h in auto)
    moreover have "keeps D H (pages k) m'" by (rule keeps_trans [OF kp S(4) maps])
    moreover have "\<forall>e \<in> D. \<forall>q < 0x100000. entry m' e q =
        (if e = d \<and> q = pgno va then map_entry (V2P h) perm else entry (pages k) e q)"
      using S(1) maps by (simp add: same_maps_def)
    ultimately have "page_mapped kend k D H ps d (pgno va) h perm ?k' ps'"
      using tail by (simp add: page_mapped_def)
    with run show ?thesis by blast
  qed
qed

end
