(* ===== verification/Vm_Space.thy ===== *)
theory Vm_Space
  imports Vm_Correct
begin

text \<open>
  Growing, shrinking and copying user memory (\<open>allocuvm\<close>, \<open>deallocuvm\<close>, \<open>copyuvm\<close>,
  \<open>copyout\<close>), in terms of what an address of an address space reads as.
\<close>

section \<open>Held pages\<close>

lemma held_write:
  assumes inv: "vm_inv kend k D H ps" and h: "h \<in> H"
    and same: "\<And>v. page_ok kend v \<Longrightarrow> v \<noteq> h \<Longrightarrow> same_page (pages k) m' v"
  shows "vm_inv kend (k\<lparr>pages := m'\<rparr>) D H ps" and "same_maps D (pages k) m'"
    and "keeps D (H - {h}) (pages k) m'" and "\<And>e. e \<in> D \<Longrightarrow> own m' e = own (pages k) e"
proof -
  note I = vm_invD [OF inv]
  have "own m' e = own (pages k) e \<and> (\<forall>p < 0x100000. entry m' e p = entry (pages k) e p)" if e: "e \<in> D" for e
  proof -
    have sp: "same_page (pages k) m' v" if "own (pages k) e x = Some v" for x v
      using I(4,6) [OF e that] h by (intro same) auto
    have "own (pages k) e Dir = Some e" by simp
    then show ?thesis using entry_cong [of kend e "pages k" m'] I(4) [OF e] sp by blast
  qed
  then have o: "\<And>e. e \<in> D \<Longrightarrow> own m' e = own (pages k) e" and s: "same_maps D (pages k) m'"
    by (auto simp: same_maps_def)
  have "kmem_inv kend (k\<lparr>pages := m'\<rparr>) ps"
    by (rule kmem_inv_pages [OF I(1)]) (use I(1,3) h in \<open>auto simp: kmem_inv_def intro!: same\<close>)
  then show "vm_inv kend (k\<lparr>pages := m'\<rparr>) D H ps"
    using inv o unfolding vm_inv_def by simp
  show "same_maps D (pages k) m'" by (rule s)
  show "keeps D (H - {h}) (pages k) m'"
    unfolding keeps_def using I(2,4,6) same h by blast
  show "\<And>e. e \<in> D \<Longrightarrow> own m' e = own (pages k) e" by (rule o)
qed

lemma alloc_held:
  assumes inv: "vm_inv kend k D H ps"
  obtains (none) "ps = []" "kalloc k = (0, k)"
  | (page) t qs k1 where "ps = t # qs" "kalloc k = (t, k1)" "t \<noteq> 0" "pages k1 = pages k" "t \<notin> H" "page_ok kend t"
      "vm_inv kend k1 D (insert t H) qs"
proof (cases ps)
  case Nil
  then show ?thesis using none kalloc_ok [OF vm_invD(1) [OF inv]] by simp
next
  case (Cons t qs)
  obtain k1 where k1: "kalloc k = (t, k1)" "kmem_inv kend k1 qs" "pages k1 = pages k" "page_ok kend t" "t \<notin> set qs"
    using kalloc_ok [OF vm_invD(1) [OF inv]] Cons by (cases "kalloc k") auto
  have "vm_inv kend k1 D (insert t H) qs"
    using inv k1 Cons unfolding vm_inv_def by (auto simp del: own.simps)
  then show ?thesis using page Cons k1 vm_invD(3) [OF inv] page_ok_nonzero by (metis list.set_intros(1))
qed

lemma held_free:
  assumes inv: "vm_inv kend k D (insert f H) ps" and f: "f \<notin> H"
  shows "\<exists>k'. kfree kend f k = Inr k' \<and> vm_inv kend k' D H (f # ps) \<and>
    same_maps D (pages k) (pages k') \<and> keeps D H (pages k) (pages k') \<and>
    (\<forall>v. page_ok kend v \<longrightarrow> v \<noteq> f \<longrightarrow> same_page (pages k) (pages k') v) \<and>
    (\<forall>e \<in> D. own (pages k') e = own (pages k) e)"
proof -
  note I = vm_invD [OF inv]
  have pf: "page_ok kend f" "f \<notin> set ps" using I(2,3) by auto
  obtain k' where k': "kfree kend f k = Inr k'" "kmem_inv kend k' (f # ps)"
    and out: "\<And>x. x < unat f \<or> unat f + 4096 \<le> x \<Longrightarrow> pages k' x = pages k x"
    using kfree_ok [OF I(1) pf] by blast
  have same: "same_page (pages k) (pages k') v" if "page_ok kend v" "v \<noteq> f" for v
    using pages_apart [OF that(1) pf(1) that(2)] by (auto simp: same_page_def intro!: out)
  note W = held_write [OF inv, of f "pages k'", OF _ same, simplified]
  have "vm_inv kend k' D H (f # ps)" unfolding vm_inv_def
  proof (intro conjI ballI allI impI)
    fix e x v assume e: "e \<in> D" and "own (pages k') e x = Some v"
    then have x: "own (pages k) e x = Some v" using W(4) by simp
    show "page_ok kend v" "v \<notin> set (f # ps)" "v \<notin> H" using I(4-6) [OF e x] by auto
    fix e' y assume e': "e' \<in> D" and "own (pages k') e' y = Some v"
    then have y: "own (pages k) e' y = Some v" using W(4) by simp
    show "e = e'" "x = y" using I(7) [OF e e' x y] by auto
  qed (use k'(2) I(2,3) f in auto)
  moreover have "keeps D H (pages k) (pages k')" using W(3) f by simp
  moreover have "\<forall>e \<in> D. own (pages k') e = own (pages k) e" using W(4) by blast
  ultimately show ?thesis using k'(1) W(2) same by blast
qed

section \<open>What an address reads as\<close>

text \<open>
  The byte at the address \<open>a\<close> of the address space \<open>d\<close>, if a page is present there. Which
  pages a process may touch is in the flags of the page's entry.
\<close>

definition vbyte :: "memory \<Rightarrow> uint \<Rightarrow> nat \<Rightarrow> byte option" where
  "vbyte m d a =
     (let e = entry m d (a div 4096) in
      if e AND PTE_P \<noteq> 0 then Some (m (unat (P2V (PTE_ADDR e)) + a mod 4096)) else None)"

definition vflags :: "memory \<Rightarrow> uint \<Rightarrow> nat \<Rightarrow> uint" where
  "vflags m d a = PTE_FLAGS (entry m d (a div 4096))"

lemma vbyte_frame:
  "a < 0x80000000 \<Longrightarrow> own m d (Frame (a div 4096)) = Some f \<Longrightarrow> vbyte m d a = Some (m (unat f + a mod 4096))"
  by (auto simp: vbyte_def Let_def split: if_splits)

lemma vbyte_none:
  "a < 0x80000000 \<Longrightarrow> own m d (Frame (a div 4096)) = None \<Longrightarrow> vbyte m d a = None"
  by (auto simp: vbyte_def Let_def split: if_splits)

lemma vbyte_same:
  assumes "a < 0x80000000" and "entry m' d (a div 4096) = entry m d (a div 4096)"
    and "\<And>f. own m d (Frame (a div 4096)) = Some f \<Longrightarrow> same_page m m' f"
  shows "vbyte m' d a = vbyte m d a" and "vflags m' d a = vflags m d a"
proof -
  show "vflags m' d a = vflags m d a" using assms(2) by (simp add: vflags_def)
  have o: "own m' d (Frame (a div 4096)) = own m d (Frame (a div 4096))" using assms(2) by simp
  show "vbyte m' d a = vbyte m d a"
  proof (cases "own m d (Frame (a div 4096))")
    case None
    then show ?thesis using vbyte_none [OF assms(1)] o by metis
  next
    case (Some f)
    from assms(3) [OF Some] have "m' (unat f + a mod 4096) = m (unat f + a mod 4096)"
      by (simp add: same_page_def)
    then show ?thesis using vbyte_frame [OF assms(1)] Some o by metis
  qed
qed

text \<open>The part of a space that an operation leaves alone.\<close>

definition untouched :: "uint set \<Rightarrow> uint \<Rightarrow> (nat \<Rightarrow> bool) \<Rightarrow> memory \<Rightarrow> memory \<Rightarrow> bool" where
  "untouched D d R m m' \<longleftrightarrow> (\<forall>e \<in> D. \<forall>a < 0x80000000. \<not> (e = d \<and> R (a div 4096)) \<longrightarrow>
     vbyte m' e a = vbyte m e a \<and> vflags m' e a = vflags m e a)"

lemma untouchedI:
  assumes "\<And>e p. e \<in> D \<Longrightarrow> p < 0x80000 \<Longrightarrow> \<not> (e = d \<and> R p) \<Longrightarrow> entry m' e p = entry m e p"
    and "\<And>e p f. e \<in> D \<Longrightarrow> own m e (Frame p) = Some f \<Longrightarrow> \<not> (e = d \<and> R p) \<Longrightarrow> same_page m m' f"
  shows "untouched D d R m m'"
  unfolding untouched_def
proof (intro ballI allI impI)
  fix e a assume *: "e \<in> D" "a < (0x80000000 :: nat)" "\<not> (e = d \<and> R (a div 4096))"
  then have "a div 4096 < 0x80000" by simp
  with * have "entry m' e (a div 4096) = entry m e (a div 4096)" by (intro assms(1))
  with * show "vbyte m' e a = vbyte m e a \<and> vflags m' e a = vflags m e a"
    by (intro conjI vbyte_same) (blast intro: assms(2))+
qed

lemma untouched_trans:
  "untouched D d R m m' \<Longrightarrow> untouched D d R m' m'' \<Longrightarrow> untouched D d R m m''"
  by (simp add: untouched_def)

lemma untouched_mono:
  "untouched D d R m m' \<Longrightarrow> (\<And>p. R p \<Longrightarrow> S p) \<Longrightarrow> untouched D d S m m'"
  by (fastforce simp: untouched_def)

lemma untouched_keeps:
  "keeps D H m m' \<Longrightarrow> same_maps D m m' \<Longrightarrow> untouched D d R m m'"
  by (rule untouchedI) (auto simp: same_maps_def keeps_def simp del: own.simps)

section \<open>Unmapping a page\<close>

lemma write32_at:
  "write32 m a w x = (if unat a \<le> x \<and> x < unat a + 4 then le32 w ! (x - unat a) else m x)"
proof (cases "unat a \<le> x \<and> x < unat a + 4")
  case True
  then have "x = unat a \<or> x = unat a + 1 \<or> x = unat a + 2 \<or> x = unat a + 3" by arith
  then show ?thesis by (auto simp: write32_def)
qed (auto intro: write32_outside)

lemma kfree_write32_commute:
  assumes "kfree kend f k = Inr k1" and "page_ok kend f"
    and "unat a + 4 \<le> unat f \<or> unat f + 4096 \<le> unat a"
  shows "kfree kend f (k\<lparr>pages := write32 (pages k) a w\<rparr>) = Inr (k1\<lparr>pages := write32 (pages k1) a w\<rparr>)"
proof -
  have "write32 (memset (write32 (pages k) a w) (unat f) 1 4096) f (freelist k) =
      write32 (write32 (memset (pages k) (unat f) 1 4096) f (freelist k)) a w"
  proof
    fix x
    show "write32 (memset (write32 (pages k) a w) (unat f) 1 4096) f (freelist k) x =
      write32 (write32 (memset (pages k) (unat f) 1 4096) f (freelist k)) a w x"
      using assms(3) by (auto simp: write32_at memset_apply)
  qed
  moreover have ok: "(f mod PGSIZE \<noteq> 0 \<or> f < kend \<or> PHYSTOP \<le> V2P f) = False"
    using assms(2) by (auto simp: page_ok_def)
  moreover have "k1 = k\<lparr>pages := write32 (memset (pages k) (unat f) 1 4096) f (freelist k), freelist := f\<rparr>"
    using assms(1) unfolding kfree_def ok Let_def by simp
  ultimately show ?thesis unfolding kfree_def ok Let_def by simp
qed

lemma free_user_page:
  assumes inv: "vm_inv kend k D H ps" and d: "d \<in> D" and p: "p < 0x80000"
    and f: "own (pages k) d (Frame p) = Some f" and t: "own (pages k) d (Table (p div 1024)) = Some t"
  shows "\<exists>k1. kfree kend f k = Inr k1 \<and>
    (let k2 = k1\<lparr>pages := write32 (pages k1) (t + 4 * of_nat (p mod 1024)) 0\<rparr> in
       vm_inv kend k2 D H (f # ps) \<and>
       (\<forall>v \<in> H. same_page (pages k) (pages k2) v) \<and>
       (\<forall>e \<in> D. \<forall>q < 0x100000. entry (pages k2) e q = (if e = d \<and> q = p then 0 else entry (pages k) e q)) \<and>
       untouched D d ((=) p) (pages k) (pages k2) \<and>
       (\<forall>x. own (pages k2) d x = (if x = Frame p then None else own (pages k) d x)))"
proof -
  let ?a = "t + 4 * of_nat (p mod 1024)"
  define m0 where "m0 = write32 (pages k) ?a 0"
  let ?k0 = "k\<lparr>pages := m0\<rparr>"
  note I = vm_invD [OF inv]
  have p': "p < 0x100000" using p by simp
  note S = set_entry [OF inv d p' t m0_def]
  have ok: "page_ok kend t" "page_ok kend f" "f \<notin> set ps" "f \<notin> H" using I(4-6) [OF d] t f by blast+
  have tf: "t \<noteq> f" using I(7) [OF d d t] f by blast
  have ft: "unat ?a + 4 \<le> unat f \<or> unat f + 4096 \<le> unat ?a"
    using pages_apart [OF ok(1,2) tf] slot_addr [OF ok(1), of "p mod 1024"] by auto
  have own0: "own m0 e x = (if e = d \<and> x = Frame p then None else own (pages k) e x)" if e: "e \<in> D" for e x
    using own_set_entry [of D m0 d p 0 "pages k", OF S(1,2) e, of x] S(1) [OF d p']
    by (cases "e = d \<and> x = Frame p") auto
  have inv0: "vm_inv kend ?k0 D (insert f H) ps" unfolding vm_inv_def
  proof (intro conjI ballI allI impI)
    fix e x v assume e: "e \<in> D" and "own (pages ?k0) e x = Some v"
    then have x: "own (pages k) e x = Some v" and nx: "\<not> (e = d \<and> x = Frame p)"
      using own0 [OF e] by (auto split: if_splits simp del: own.simps)
    show "page_ok kend v" "v \<notin> set ps" using I(4,5) [OF e x] .
    show "v \<notin> insert f H" using I(6) [OF e x] I(7) [OF e d x] f nx by blast
    fix e' y assume e': "e' \<in> D" and "own (pages ?k0) e' y = Some v"
    then have y: "own (pages k) e' y = Some v" using own0 [OF e'] by (auto split: if_splits simp del: own.simps)
    show "e = e'" "x = y" using I(7) [OF e e' x y] by auto
  qed (use S(5) ok I(2,3) in auto)
  obtain k1 where k1: "kfree kend f k = Inr k1" using kfree_ok [OF I(1) ok(2,3)] by blast
  let ?k2 = "k1\<lparr>pages := write32 (pages k1) ?a 0\<rparr>"
  have "kfree kend f ?k0 = Inr ?k2"
    unfolding m0_def by (rule kfree_write32_commute [OF k1 ok(2) ft])
  with held_free [OF inv0 ok(4)] have inv2: "vm_inv kend ?k2 D H (f # ps)"
    and maps: "same_maps D m0 (pages ?k2)" and kp: "keeps D H m0 (pages ?k2)"
    and sp: "\<And>v. page_ok kend v \<Longrightarrow> v \<noteq> f \<Longrightarrow> same_page m0 (pages ?k2) v"
    and ow: "\<And>e. e \<in> D \<Longrightarrow> own (pages ?k2) e = own m0 e" by auto
  have ent: "entry (pages ?k2) e q = (if e = d \<and> q = p then 0 else entry (pages k) e q)"
    if "e \<in> D" "q < 0x100000" for e q
    using maps S(1) [OF that] that by (simp add: same_maps_def)
  have "untouched D d ((=) p) (pages k) (pages ?k2)"
  proof (rule untouchedI)
    show "entry (pages ?k2) e q = entry (pages k) e q" if "e \<in> D" "q < 0x80000" "\<not> (e = d \<and> p = q)" for e q
      using ent [OF that(1), of q] that(2,3) by auto
    show "same_page (pages k) (pages ?k2) v" if "e \<in> D" "own (pages k) e (Frame q) = Some v" "\<not> (e = d \<and> p = q)"
      for e q v
    proof (rule same_page_trans)
      show "same_page (pages k) m0 v" using S(4) that(1,2) unfolding keeps_def by blast
      have "own m0 e (Frame q) = Some v" using own0 [OF that(1)] that(2,3) by (auto simp del: own.simps)
      then show "same_page m0 (pages ?k2) v" using kp that(1) unfolding keeps_def by blast
    qed
  qed
  moreover have "\<forall>v \<in> H. same_page (pages k) (pages ?k2) v"
    using S(4) kp unfolding keeps_def by (blast intro: same_page_trans)
  moreover have "\<forall>x. own (pages ?k2) d x = (if x = Frame p then None else own (pages k) d x)"
    unfolding ow [OF d] using own0 [OF d] by simp
  ultimately show ?thesis using k1 inv2 ent by (simp add: Let_def)
qed

section \<open>Shrinking\<close>

definition page_range :: "nat \<Rightarrow> nat \<Rightarrow> nat \<Rightarrow> bool" where
  "page_range a z p \<longleftrightarrow> a \<le> p * 4096 \<and> p * 4096 < z"

lemma pgno_of_nat: "a < 0x80000000 \<Longrightarrow> pgno (of_nat a) = a div 4096" "a < 0x80000000 \<Longrightarrow> unat (of_nat a :: uint) = a"
  by (simp_all add: pgno_def unat_of_nat)

text \<open>
  What an operation on the pages \<open>R\<close> of \<open>d\<close> may change: neither the pages held in \<open>H\<close> nor
  any other page of any address space.
\<close>

definition change :: "uint set \<Rightarrow> uint set \<Rightarrow> uint \<Rightarrow> (nat \<Rightarrow> bool) \<Rightarrow> memory \<Rightarrow> memory \<Rightarrow> bool" where
  "change D H d R m m' \<longleftrightarrow> (\<forall>v \<in> H. same_page m m' v) \<and> untouched D d R m m' \<and>
     (\<forall>e \<in> D. \<forall>q < 0x100000. \<not> (e = d \<and> R q) \<longrightarrow> entry m' e q = entry m e q)"

definition cleared :: "uint \<Rightarrow> (nat \<Rightarrow> bool) \<Rightarrow> memory \<Rightarrow> bool" where
  "cleared d R m \<longleftrightarrow> (\<forall>q < 0x100000. R q \<longrightarrow> entry m d q AND PTE_P = 0)"

lemma change_trans:
  assumes "change D H d R m m1" and "change D H d S m1 m2"
    and "\<And>p. R p \<Longrightarrow> T p" and "\<And>p. S p \<Longrightarrow> T p"
  shows "change D H d T m m2"
proof -
  have "untouched D d T m m2"
    by (rule untouched_trans [OF untouched_mono [of D d R _ m1] untouched_mono [of D d S]])
      (use assms in \<open>auto simp: change_def\<close>)
  moreover have "entry m2 e q = entry m e q" if "e \<in> D" "q < 0x100000" "\<not> (e = d \<and> T q)" for e q
    using assms that unfolding change_def by (metis (no_types, lifting))
  ultimately show ?thesis using assms(1,2) unfolding change_def by (blast intro: same_page_trans)
qed

lemma change_refl: "change D H d R m m"
  by (simp add: change_def untouched_def)

lemma change_range: "change D H d R m m' \<Longrightarrow> (\<And>q. q < 0x100000 \<Longrightarrow> R q = S q) \<Longrightarrow> change D H d S m m'"
  by (auto simp: change_def untouched_def)

lemma change_keeps: "keeps D H m m' \<Longrightarrow> same_maps D m m' \<Longrightarrow> change D H d R m m'"
  by (simp add: change_def untouched_keeps) (simp add: keeps_def same_maps_def)

lemma change_held: "change D H d R m m' \<Longrightarrow> H' \<subseteq> H \<Longrightarrow> change D H' d R m m'"
  by (auto simp: change_def)

definition dealloc_post :: "uint \<Rightarrow> kmem \<Rightarrow> uint set \<Rightarrow> uint set \<Rightarrow> uint \<Rightarrow> (nat \<Rightarrow> bool) \<Rightarrow> kmem \<Rightarrow> uint list \<Rightarrow> bool" where
  "dealloc_post kend k D H d R k' ps' \<longleftrightarrow>
     vm_inv kend k' D H ps' \<and> change D H d R (pages k) (pages k') \<and> cleared d R (pages k')"

lemma dealloc_post_trans:
  assumes d: "d \<in> D" and "dealloc_post kend k D H d R k1 ps1" and "dealloc_post kend k1 D H d S k2 ps2"
  shows "dealloc_post kend k D H d (\<lambda>p. R p \<or> S p) k2 ps2"
proof -
  have "entry (pages k2) d q AND PTE_P = 0" if "q < 0x100000" "R q \<or> S q" for q
    using assms that unfolding dealloc_post_def change_def cleared_def by (metis (no_types, lifting))
  then show ?thesis using assms change_trans [of D H d R "pages k" "pages k1" S "pages k2" "\<lambda>p. R p \<or> S p"]
    by (simp add: dealloc_post_def cleared_def)
qed

lemma dealloc_post_same:
  assumes "vm_inv kend k D H ps" and "\<And>q. R q \<Longrightarrow> q < 0x100000 \<Longrightarrow> entry (pages k) d q AND PTE_P = 0"
  shows "dealloc_post kend k D H d R k ps"
  using assms by (simp add: dealloc_post_def cleared_def change_refl)

lemma dealloc_post_range:
  "dealloc_post kend k D H d R k' ps' \<Longrightarrow> (\<And>q. q < 0x100000 \<Longrightarrow> R q = S q) \<Longrightarrow> dealloc_post kend k D H d S k' ps'"
  using change_range [of D H d R "pages k" "pages k'" S] by (simp add: dealloc_post_def cleared_def)

text \<open>Where the pages go: to the free list, and no page table with them.\<close>

definition returned :: "kmem \<Rightarrow> uint \<Rightarrow> (nat \<Rightarrow> bool) \<Rightarrow> uint list \<Rightarrow> kmem \<Rightarrow> uint list \<Rightarrow> bool" where
  "returned k d R ps k' ps' \<longleftrightarrow>
     set ps' = set ps \<union> {f. \<exists>p. R p \<and> own (pages k) d (Frame p) = Some f} \<and>
     (\<forall>i. own (pages k') d (Table i) = own (pages k) d (Table i))"

lemma returned_none: "(\<And>p. p < 0x80000 \<Longrightarrow> R p \<Longrightarrow> entry (pages k) d p AND PTE_P = 0) \<Longrightarrow> returned k d R ps k ps"
  by (auto simp: returned_def split: if_splits)

lemma returned_trans:
  assumes "returned k d R ps k1 ps1" "returned k1 d S ps1 k2 ps2" "\<And>p. S p \<Longrightarrow> own (pages k1) d (Frame p) = own (pages k) d (Frame p)"
    and "\<And>p. p < 0x80000 \<Longrightarrow> T p \<longleftrightarrow> R p \<or> S p"
  shows "returned k d T ps k2 ps2"
proof -
  have "T p \<and> own (pages k) d (Frame p) = Some f \<longleftrightarrow>
      R p \<and> own (pages k) d (Frame p) = Some f \<or> S p \<and> own (pages k1) d (Frame p) = Some f" for p f
    using assms(3) [of p] assms(4) [of p] by (auto split: if_splits)
  then show ?thesis using assms(1,2) unfolding returned_def by (simp del: own.simps) blast
qed

lemma deallocuvm_loop_ok:
  assumes "vm_inv kend k D H ps" and d: "d \<in> D" and "a mod 4096 = 0" and old: "old \<le> 0x80000000"
    and kend: "KERNBASE < kend"
  shows "\<exists>k' ps'. deallocuvm_loop kend d a old k = Inr k' \<and> dealloc_post kend k D H d (page_range a old) k' ps' \<and>
    returned k d (page_range a old) ps k' ps'"
  using assms(1,3)
proof (induction "old - a" arbitrary: a k ps rule: less_induct)
  case less
  note inv = less.prems(1)
  note I = vm_invD [OF inv]
  show ?case
  proof (cases "a < old")
    case False
    then have "dealloc_post kend k D H d (page_range a old) k ps"
      by (intro dealloc_post_same inv) (auto simp: page_range_def)
    moreover have "returned k d (page_range a old) ps k ps" using False by (intro returned_none) (auto simp: page_range_def)
    moreover have "deallocuvm_loop kend d a old k = Inr k" using False by (subst deallocuvm_loop.simps) simp
    ultimately show ?thesis by blast
  next
    case True
    define p where "p = a div 4096"
    have a: "a = p * 4096" using less.prems(2) by (auto simp: p_def)
    have p: "p < 0x80000" "p < 0x100000" using True old a by simp_all
    have va: "pgno (of_nat a) = p" using pgno_of_nat [of a] True old by (simp add: p_def)
    have step: "page_range a old q \<longleftrightarrow> p = q \<or> page_range (a + 4096) old q" for q
      using True by (auto simp: page_range_def a)
    have next_mod: "(a + 4096) mod 4096 = 0" using less.prems(2) by simp
    have smaller: "old - (a + 4096) < old - a" using True by simp
    show ?thesis
    proof (cases "own (pages k) d (Table (p div 1024))")
      case None
      define b where "b = (a div 0x400000 + 1) * 0x400000"
      have pb: "a div 0x400000 = p div 1024" unfolding a by simp
      have b: "b = (p div 1024 + 1) * 1024 * 4096" by (simp add: b_def pb)
      have "p < (p div 1024 + 1) * 1024" using dividend_less_div_times [of 1024 p] by simp
      then have ab: "a < b" unfolding a b by simp
      have run: "deallocuvm_loop kend d a old k = deallocuvm_loop kend d b old k"
        using True walk_absent [of k d "of_nat a"] None va
        by (subst deallocuvm_loop.simps) (simp add: b_def del: own.simps)
      have mb: "b mod 4096 = 0" unfolding b by (rule mod_mult_self2_is_0)
      have lb: "old - b < old - a" using ab True by simp
      obtain k' ps' where k': "deallocuvm_loop kend d b old k = Inr k'"
        "dealloc_post kend k D H d (page_range b old) k' ps'"
        "returned k d (page_range b old) ps k' ps'"
        using less.hyps [OF lb inv mb] by blast
      have gone: "entry (pages k) d q AND PTE_P = 0" if "page_range a (min b old) q" "q < 0x100000" for q
      proof -
        have "p \<le> q" "q < (p div 1024 + 1) * 1024" using that(1) by (simp_all add: page_range_def a b)
        then have "q div 1024 = p div 1024"
          using div_le_mono [of p q 1024] less_mult_imp_div_less [of q "p div 1024 + 1" 1024] by simp
        then show ?thesis using entry_no_table [OF that(2)] None by simp
      qed
      from dealloc_post_trans [OF d dealloc_post_same [OF inv gone] k'(2)]
      have "dealloc_post kend k D H d (page_range a old) k' ps'"
        by (rule dealloc_post_range) (use ab in \<open>auto simp: page_range_def\<close>)
      moreover have "returned k d (page_range a old) ps k' ps'"
        by (rule returned_trans [OF returned_none [OF gone] k'(3)]) (use ab in \<open>auto simp: page_range_def\<close>)
      ultimately show ?thesis using run k'(1) by auto
    next
      case (Some t)
      note walk = walk_present [of k d "of_nat a" t False, unfolded va, OF Some]
      have pt: "page_ok kend t" by (rule I(4) [OF d Some])
      define pte where "pte = t + 4 * of_nat (p mod 1024)"
      have "unat pte = unat t + 4 * (p mod 1024)" unfolding pte_def by (rule slot_addr [OF pt]) simp
      then have nz: "pte \<noteq> 0" using page_ok_nonzero [OF pt] by (auto simp: unat_eq_0)
      have e: "read32 (pages k) pte = entry (pages k) d p" using entry_table [OF p(2) Some] by (simp add: pte_def)
      show ?thesis
      proof (cases "entry (pages k) d p AND PTE_P = 0")
        case True
        obtain k' ps' where k': "deallocuvm_loop kend d (a + 4096) old k = Inr k'"
          "dealloc_post kend k D H d (page_range (a + 4096) old) k' ps'"
          "returned k d (page_range (a + 4096) old) ps k' ps'"
          using less.hyps [OF smaller inv next_mod] by blast
        have "returned k d (page_range a old) ps k' ps'"
          by (rule returned_trans [OF returned_none [of "(=) p"] k'(3)]) (use True step in auto)
        moreover have "deallocuvm_loop kend d a old k = Inr k'"
          using \<open>a < old\<close> walk nz e True k'(1) by (subst deallocuvm_loop.simps) (simp add: pte_def)
        moreover have "dealloc_post kend k D H d (\<lambda>q. p = q \<or> page_range (a + 4096) old q) k' ps'"
          by (rule dealloc_post_trans [OF d dealloc_post_same [OF inv] k'(2)]) (use True in simp)
        then have "dealloc_post kend k D H d (page_range a old) k' ps'"
          by (rule dealloc_post_range) (simp add: step)
        ultimately show ?thesis by blast
      next
        case False
        define f where "f = P2V (PTE_ADDR (entry (pages k) d p))"
        have f: "own (pages k) d (Frame p) = Some f" using False p by (simp add: f_def)
        have "kend \<le> f" using I(4) [OF d f] by (simp add: page_ok_def)
        then have addr: "PTE_ADDR (entry (pages k) d p) \<noteq> 0"
          using kend by (auto simp: f_def P2V_def)
        obtain k1 where k1: "kfree kend f k = Inr k1" and
          inv2: "vm_inv kend (k1\<lparr>pages := write32 (pages k1) pte 0\<rparr>) D H (f # ps)" and
          same: "\<forall>v \<in> H. same_page (pages k) (pages (k1\<lparr>pages := write32 (pages k1) pte 0\<rparr>)) v" and
          ent: "\<forall>e \<in> D. \<forall>q < 0x100000. entry (pages (k1\<lparr>pages := write32 (pages k1) pte 0\<rparr>)) e q =
            (if e = d \<and> q = p then 0 else entry (pages k) e q)" and
          un: "untouched D d ((=) p) (pages k) (pages (k1\<lparr>pages := write32 (pages k1) pte 0\<rparr>))" and
          ow: "\<forall>x. own (pages (k1\<lparr>pages := write32 (pages k1) pte 0\<rparr>)) d x = (if x = Frame p then None else own (pages k) d x)"
          using free_user_page [OF inv d p(1) f Some] unfolding pte_def Let_def by blast
        let ?k2 = "k1\<lparr>pages := write32 (pages k1) pte 0\<rparr>"
        have one: "dealloc_post kend k D H d ((=) p) ?k2 (f # ps)"
          using inv2 same ent un d by (auto simp: dealloc_post_def change_def cleared_def)
        obtain k' ps' where k': "deallocuvm_loop kend d (a + 4096) old ?k2 = Inr k'"
          "dealloc_post kend ?k2 D H d (page_range (a + 4096) old) k' ps'"
          "returned ?k2 d (page_range (a + 4096) old) (f # ps) k' ps'"
          using less.hyps [OF smaller inv2 next_mod] by blast
        have ret: "returned k d ((=) p) ps ?k2 (f # ps)" using ow f by (auto simp: returned_def simp del: own.simps)
        have "returned k d (page_range a old) ps k' ps'"
          by (rule returned_trans [OF ret k'(3)]) (use ow step in \<open>auto simp: page_range_def a simp del: own.simps\<close>)
        moreover have "dealloc_post kend k D H d (\<lambda>q. p = q \<or> page_range (a + 4096) old q) k' ps'"
          by (rule dealloc_post_trans [OF d one k'(2)])
        then have "dealloc_post kend k D H d (page_range a old) k' ps'"
          by (rule dealloc_post_range) (simp add: step)
        moreover have "deallocuvm_loop kend d a old k = Inr k'"
          using \<open>a < old\<close> walk nz e False addr k1 k'(1)
          by (subst deallocuvm_loop.simps) (simp add: pte_def f_def)
        ultimately show ?thesis by blast
      qed
    qed
  qed
qed


lemma PGROUNDUP_unat:
  assumes "unat a + 4095 < 2 ^ 32"
  shows "unat (PGROUNDUP a) = (unat a + 4095) div 4096 * 4096"
proof -
  have "PGROUNDUP a = PGROUNDDOWN (a + 4095)" by (simp add: PGROUNDUP_def PGROUNDDOWN_def PGSIZE_def algebra_simps)
  moreover have "unat (a + 4095) = unat a + 4095" using assms by (simp add: unat_word_ariths(1))
  ultimately show ?thesis by (simp add: unat_PGROUNDDOWN)
qed

text \<open>The first address of the first page above the size \<open>n\<close>.\<close>

definition page_up :: "uint \<Rightarrow> nat" where
  "page_up n = unat (PGROUNDUP n)"

lemma page_up:
  assumes "n < KERNBASE"
  shows "page_up n = (unat n + 4095) div 4096 * 4096" and "page_up n mod 4096 = 0"
    and "unat n \<le> page_up n" and "page_up n \<le> 0x80000000"
proof -
  have n: "unat n < 0x80000000" using assms by (simp add: word_less_nat_alt KERNBASE_def)
  then show p: "page_up n = (unat n + 4095) div 4096 * 4096"
    using PGROUNDUP_unat [of n] by (simp add: page_up_def)
  show "page_up n mod 4096 = 0" unfolding p by (rule mod_mult_self2_is_0)
  show "unat n \<le> page_up n" using dividend_less_div_times [of 4096 "unat n + 4095"] unfolding p by simp
  have "(unat n + 4095) div 4096 < 0x80001" using n by (intro less_mult_imp_div_less) simp
  then show "page_up n \<le> 0x80000000" unfolding p by simp
qed

lemma deallocuvm_ok:
  assumes inv: "vm_inv kend k D H ps" and d: "d \<in> D" and kend: "KERNBASE < kend"
    and sz: "newsz < oldsz" "oldsz \<le> KERNBASE"
  shows "\<exists>k' ps'. deallocuvm kend d oldsz newsz k = Inr (newsz, k') \<and>
    dealloc_post kend k D H d (page_range (page_up newsz) (unat oldsz)) k' ps' \<and>
    returned k d (page_range (page_up newsz) (unat oldsz)) ps k' ps'"
proof -
  have "newsz < KERNBASE" using sz by (rule less_le_trans)
  then have a: "page_up newsz mod 4096 = 0" by (rule page_up)
  have old: "unat oldsz \<le> 0x80000000" using sz(2) by (simp add: word_le_nat_alt KERNBASE_def)
  from deallocuvm_loop_ok [OF inv d a old kend] show ?thesis
    using sz(1) by (auto simp: deallocuvm_def page_up_def)
qed

section \<open>Growing\<close>

definition zeroed :: "uint \<Rightarrow> (nat \<Rightarrow> bool) \<Rightarrow> memory \<Rightarrow> bool" where
  "zeroed d R m \<longleftrightarrow> (\<forall>a < 0x80000000. R (a div 4096) \<longrightarrow>
     vbyte m d a = Some 0 \<and> vflags m d a = PTE_P OR PTE_W OR PTE_U)"

definition alloc_post :: "uint \<Rightarrow> kmem \<Rightarrow> uint set \<Rightarrow> uint set \<Rightarrow> uint \<Rightarrow> (nat \<Rightarrow> bool) \<Rightarrow> kmem \<Rightarrow> uint list \<Rightarrow> bool" where
  "alloc_post kend k D H d R k' ps' \<longleftrightarrow>
     vm_inv kend k' D H ps' \<and> change D H d R (pages k) (pages k') \<and> zeroed d R (pages k')"

lemma PTE_FLAGS_or:
  assumes "unat pa mod 4096 = 0" and "unat f < 4096"
  shows "PTE_FLAGS (pa OR f) = f"
proof (rule bit_word_eqI)
  fix n assume "n < LENGTH(32)"
  have m: "(0xFFF :: uint) = mask 12" by (simp add: mask_eq_exp_minus_1)
  have "unat (take_bit 12 f) = unat f" using assms(2) by (simp add: unat_take_bit)
  then have "take_bit 12 f = f" by (simp only: word_unat_eq_iff)
  then have "bit f n \<Longrightarrow> n < 12" by (metis bit_take_bit_iff)
  then show "bit (PTE_FLAGS (pa OR f)) n = bit f n"
    using low_bits [OF assms(1), of n] by (auto simp: PTE_FLAGS_def m bit_simps)
qed

text \<open>A held page is mapped: the address space now reads its contents there.\<close>

definition shows_page :: "uint \<Rightarrow> nat \<Rightarrow> memory \<Rightarrow> (nat \<Rightarrow> byte) \<Rightarrow> uint \<Rightarrow> bool" where
  "shows_page d p m c fl \<longleftrightarrow> (\<forall>b < 0x80000000. b div 4096 = p \<longrightarrow> vbyte m d b = Some (c (b mod 4096)) \<and> vflags m d b = fl)"

lemma map_held_page:
  assumes inv: "vm_inv kend k D (insert t H) qs" and t: "t \<notin> H" and d: "d \<in> D"
    and a: "a mod 4096 = 0" "a < 0x80000000" and free: "entry (pages k) d (a div 4096) AND PTE_P = 0"
    and perm: "unat perm < 4096"
  shows "(\<exists>k3 ps'. mappages d (of_nat a) PGSIZE (V2P t) perm k = Inr (0, k3) \<and> vm_inv kend k3 D H ps' \<and>
      change D H d ((=) (a div 4096)) (pages k) (pages k3) \<and>
      shows_page d (a div 4096) (pages k3) (\<lambda>i. pages k (unat t + i)) (perm OR PTE_P)) \<or>
    qs = [] \<and> mappages d (of_nat a) PGSIZE (V2P t) perm k = Inr (-1, k)"
proof -
  let ?p = "a div 4096"
  have va: "pgno (of_nat a) = ?p" "unat (of_nat a :: uint) = a" using pgno_of_nat a(2) by simp_all
  have p: "?p < 0x80000" using a(2) by simp
  have pt: "page_ok kend t" using vm_invD(2) [OF inv] by simp
  have below: "(of_nat a :: uint) < KERNBASE" using a(2) va(2) by (simp add: word_less_nat_alt KERNBASE_def)
  have al: "unat (of_nat a :: uint) mod 4096 = 0" using va a by simp
  have free': "entry (pages k) d (pgno (of_nat a)) AND PTE_P = 0" using free va(1) by simp
  from mappages_user_page [OF inv d insertI1 al below free' perm, unfolded va] show ?thesis
  proof (elim disjE)
    assume "\<exists>k' ps'. mappages d (of_nat a) PGSIZE (V2P t) perm k = Inr (0, k') \<and>
      page_mapped kend k D (insert t H) qs d ?p t perm k' ps'"
    then obtain k3 ps' where run: "mappages d (of_nat a) PGSIZE (V2P t) perm k = Inr (0, k3)"
      and pm: "page_mapped kend k D (insert t H) qs d ?p t perm k3 ps'" by blast
    have inv3: "vm_inv kend k3 D H ps'" using pm t by (simp add: page_mapped_def)
    have kp: "keeps D (insert t H) (pages k) (pages k3)" using pm by (simp add: page_mapped_def)
    have ent: "entry (pages k3) e q = (if e = d \<and> q = ?p then map_entry (V2P t) perm else entry (pages k) e q)"
      if "e \<in> D" "q < 0x100000" for e q
      using pm that by (simp add: page_mapped_def)
    have "untouched D d ((=) ?p) (pages k) (pages k3)"
    proof (rule untouchedI)
      show "entry (pages k3) e q = entry (pages k) e q" if "e \<in> D" "q < 0x80000" "\<not> (e = d \<and> ?p = q)" for e q
        using ent [OF that(1), of q] that(2,3) by auto
      show "same_page (pages k) (pages k3) v" if "e \<in> D" "own (pages k) e (Frame q) = Some v" for e q v
        using kp that unfolding keeps_def by blast
    qed
    then have "change D H d ((=) ?p) (pages k) (pages k3)"
      using kp ent by (auto simp: change_def keeps_def)
    moreover have "vbyte (pages k3) d b = Some (pages k (unat t + b mod 4096)) \<and> vflags (pages k3) d b = perm OR PTE_P"
      if b: "b < 0x80000000" "b div 4096 = ?p" for b
    proof -
      have e: "entry (pages k3) d ?p = map_entry (V2P t) perm" using ent [OF d] p by simp
      have addr: "PTE_ADDR (map_entry (V2P t) perm) = V2P t"
        unfolding map_entry_def by (rule PTE_ADDR_or [OF V2P_aligned [OF pt] unat_or_flags [OF perm]])
      have "PTE_FLAGS (map_entry (V2P t) perm) = perm OR PTE_P"
        unfolding map_entry_def by (rule PTE_FLAGS_or [OF V2P_aligned [OF pt] unat_or_flags [OF perm]])
      moreover have "own (pages k3) d (Frame (b div 4096)) = Some t"
        using e p addr b(2) by (simp add: map_entry_def)
      moreover have "pages k3 (unat t + b mod 4096) = pages k (unat t + b mod 4096)"
        using kp by (simp add: keeps_def same_page_def)
      ultimately show ?thesis using vbyte_frame [OF b(1)] e b(2) by (simp add: vflags_def del: own.simps)
    qed
    ultimately show ?thesis using run inv3 by (auto simp: shows_page_def)
  qed (use va in auto)
qed

text \<open>One round of \<open>allocuvm\<close>: the new page \<open>t\<close> is cleared and mapped at \<open>a\<close>.\<close>

lemma alloc_one_page:
  assumes inv: "vm_inv kend k1 D (insert t H) qs" and t: "t \<notin> H" and d: "d \<in> D"
    and a: "a mod 4096 = 0" "a < 0x80000000" and free: "entry (pages k1) d (a div 4096) AND PTE_P = 0"
    and k2: "k2 = k1\<lparr>pages := memset (pages k1) (unat t) 0 4096\<rparr>"
  shows "(\<exists>k3 ps'. mappages d (of_nat a) PGSIZE (V2P t) (PTE_W OR PTE_U) k2 = Inr (0, k3) \<and>
      alloc_post kend k1 D H d ((=) (a div 4096)) k3 ps') \<or>
    mappages d (of_nat a) PGSIZE (V2P t) (PTE_W OR PTE_U) k2 = Inr (-1, k2) \<and>
      vm_inv kend k2 D (insert t H) qs \<and> same_maps D (pages k1) (pages k2) \<and> keeps D H (pages k1) (pages k2)"
proof -
  have pt: "page_ok kend t" using vm_invD(2) [OF inv] by simp
  have same: "same_page (pages k1) (memset (pages k1) (unat t) 0 4096) v" if "page_ok kend v" "v \<noteq> t" for v
    by (rule same_page_memset) (use that pt in auto)
  note W = held_write [OF inv insertI1 same]
  have inv2: "vm_inv kend k2 D (insert t H) qs" and maps: "same_maps D (pages k1) (pages k2)"
    and kp: "keeps D H (pages k1) (pages k2)"
    using W t by (simp_all add: k2)
  have free2: "entry (pages k2) d (a div 4096) AND PTE_P = 0"
    using maps free d a(2) by (simp add: same_maps_def)
  have fl: "unat (PTE_W OR PTE_U) < 4096" by (simp add: PTE_W_def PTE_U_def)
  have zero: "pages k2 (unat t + b mod 4096) = 0" for b by (simp add: k2 memset_apply)
  have fl': "(PTE_W OR PTE_U) OR PTE_P = PTE_P OR PTE_W OR PTE_U" by (simp add: ac_simps)
  from map_held_page [OF inv2 t d a free2 fl] show ?thesis
  proof (elim disjE exE conjE)
    fix k3 ps' assume run: "mappages d (of_nat a) PGSIZE (V2P t) (PTE_W OR PTE_U) k2 = Inr (0, k3)"
      and inv3: "vm_inv kend k3 D H ps'" and ch: "change D H d ((=) (a div 4096)) (pages k2) (pages k3)"
      and sh: "shows_page d (a div 4096) (pages k3) (\<lambda>i. pages k2 (unat t + i)) ((PTE_W OR PTE_U) OR PTE_P)"
    have "change D H d ((=) (a div 4096)) (pages k1) (pages k3)"
      by (rule change_trans [OF change_keeps [OF kp maps] ch])
    then have "alloc_post kend k1 D H d ((=) (a div 4096)) k3 ps'"
      using inv3 sh zero by (simp add: alloc_post_def zeroed_def shows_page_def fl')
    with run show ?thesis by blast
  qed (use inv2 maps kp in blast)
qed

lemma alloc_post_trans:
  assumes d: "d \<in> D" and "alloc_post kend k D H d R k1 ps1" and "alloc_post kend k1 D H d S k2 ps2"
    and "\<And>p. \<not> (R p \<and> S p)" and T: "\<And>p. p < 0x100000 \<Longrightarrow> T p = (R p \<or> S p)"
  shows "alloc_post kend k D H d T k2 ps2"
proof -
  have "zeroed d T (pages k2)"
    unfolding zeroed_def
  proof (intro allI impI)
    fix a assume a: "a < (0x80000000 :: nat)" "T (a div 4096)"
    then have "R (a div 4096) \<or> S (a div 4096)" using T by simp
    then show "vbyte (pages k2) d a = Some 0 \<and> vflags (pages k2) d a = PTE_P OR PTE_W OR PTE_U"
      using assms(1-4) a(1) unfolding alloc_post_def zeroed_def change_def untouched_def by metis
  qed
  moreover have "change D H d (\<lambda>p. R p \<or> S p) (pages k) (pages k2)"
    by (rule change_trans [of D H d R _ "pages k1" S]) (use assms(2,3) in \<open>auto simp: alloc_post_def\<close>)
  then have "change D H d T (pages k) (pages k2)" by (rule change_range) (simp add: T)
  ultimately show ?thesis using assms(3) by (simp add: alloc_post_def)
qed

text \<open>
  \<open>allocuvm\<close> returns the new size with new pages full of zeros, or gives up, takes back
  what it has mapped above the old size, and returns 0.
\<close>

definition alloc_result :: "uint \<Rightarrow> kmem \<Rightarrow> uint set \<Rightarrow> uint set \<Rightarrow> uint \<Rightarrow> uint \<Rightarrow> uint \<Rightarrow> nat \<Rightarrow> (uint \<times> kmem) res \<Rightarrow> bool" where
  "alloc_result kend k D H d oldsz newsz a r \<longleftrightarrow>
     (\<exists>k' ps'. r = Inr (newsz, k') \<and> alloc_post kend k D H d (page_range a (unat newsz)) k' ps') \<or>
     (\<exists>k' ps'. r = Inr (0, k') \<and> dealloc_post kend k D H d (page_range (page_up oldsz) (unat newsz)) k' ps')"

lemma alloc_gives_up:
  assumes inv: "vm_inv kend k1 D H ps1" and ch: "change D H d R (pages k) (pages k1)"
    and sub: "\<And>p. R p \<Longrightarrow> page_range (page_up oldsz) (unat newsz) p"
    and d: "d \<in> D" and kend: "KERNBASE < kend" and sz: "oldsz < newsz" "newsz < KERNBASE"
  shows "\<exists>k' ps'. deallocuvm kend d newsz oldsz k1 = Inr (oldsz, k') \<and>
    dealloc_post kend k D H d (page_range (page_up oldsz) (unat newsz)) k' ps'"
proof -
  from deallocuvm_ok [OF inv d kend sz(1)] sz(2) obtain k' ps' where
    k': "deallocuvm kend d newsz oldsz k1 = Inr (oldsz, k')"
      "dealloc_post kend k1 D H d (page_range (page_up oldsz) (unat newsz)) k' ps'" by fastforce
  have "change D H d (page_range (page_up oldsz) (unat newsz)) (pages k) (pages k')"
    by (rule change_trans [OF ch]) (use k'(2) sub in \<open>auto simp: dealloc_post_def\<close>)
  with k' show ?thesis by (auto simp: dealloc_post_def)
qed

lemma allocuvm_loop_ok:
  assumes "vm_inv kend k D H ps" and d: "d \<in> D" and kend: "KERNBASE < kend" and new: "newsz < KERNBASE"
    and old: "unat oldsz \<le> page_up oldsz" "page_up oldsz \<le> a" and "a mod 4096 = 0"
    and "cleared d (page_range a (unat newsz)) (pages k)"
  shows "alloc_result kend k D H d oldsz newsz a (allocuvm_loop kend d a oldsz newsz k)"
  using assms(1,6-)
proof (induction "unat newsz - a" arbitrary: a k ps rule: less_induct)
  case less
  note inv = less.prems(1)
  have new_nat: "unat newsz < 0x80000000" using new by (simp add: word_less_nat_alt KERNBASE_def)
  show ?case
  proof (cases "a < unat newsz")
    case False
    have "alloc_post kend k D H d (page_range a (unat newsz)) k ps"
      using inv False by (auto simp: alloc_post_def change_refl zeroed_def page_range_def)
    then show ?thesis using False by (subst allocuvm_loop.simps) (auto simp: alloc_result_def)
  next
    case True
    then have lt: "oldsz < newsz" using old(1) less.prems(2) by (simp add: word_less_nat_alt)
    have a: "a < 0x80000000" using True new_nat by simp
    define p where "p = a div 4096"
    have ap: "a = p * 4096" using less.prems(3) by (auto simp: p_def)
    have inr: "page_range (page_up oldsz) (unat newsz) q" if "p = q" for q
      using that less.prems(2) True ap by (simp add: page_range_def)
    from inv show ?thesis
    proof (cases rule: alloc_held)
      case none
      from alloc_gives_up [OF inv change_refl _ d kend lt new, where R = "\<lambda>_. False"]
      obtain k' ps' where "deallocuvm kend d newsz oldsz k = Inr (oldsz, k')"
        "dealloc_post kend k D H d (page_range (page_up oldsz) (unat newsz)) k' ps'" by blast
      then show ?thesis using True none
        by (subst allocuvm_loop.simps) (auto simp: alloc_result_def)
    next
      case (page t qs k1)
      define k2 where "k2 = k1\<lparr>pages := memset (pages k1) (unat t) 0 4096\<rparr>"
      have "entry (pages k1) d (a div 4096) AND PTE_P = 0"
        using less.prems(4) True a page(4) ap by (auto simp: cleared_def page_range_def)
      from alloc_one_page [OF page(7,5) d less.prems(3) a this k2_def]
      show ?thesis
      proof (elim disjE exE conjE)
        fix k3 ps3 assume run: "mappages d (of_nat a) PGSIZE (V2P t) (PTE_W OR PTE_U) k2 = Inr (0, k3)"
          and "alloc_post kend k1 D H d ((=) (a div 4096)) k3 ps3"
        then have post: "alloc_post kend k D H d ((=) p) k3 ps3" using page(4) by (simp add: alloc_post_def p_def)
        then have inv3: "vm_inv kend k3 D H ps3" and ch3: "change D H d ((=) p) (pages k) (pages k3)"
          by (simp_all add: alloc_post_def)
        have "cleared d (page_range (a + 4096) (unat newsz)) (pages k3)"
          using less.prems(4) ch3 d ap by (auto simp: cleared_def change_def page_range_def)
        then have rest: "alloc_result kend k3 D H d oldsz newsz (a + 4096) (allocuvm_loop kend d (a + 4096) oldsz newsz k3)"
          using less.hyps [of "a + 4096", OF _ inv3] True less.prems(2,3) by simp
        have "alloc_result kend k D H d oldsz newsz a (allocuvm_loop kend d (a + 4096) oldsz newsz k3)"
          using rest unfolding alloc_result_def
        proof (elim disjE exE conjE)
          fix k' ps' assume r: "allocuvm_loop kend d (a + 4096) oldsz newsz k3 = Inr (newsz, k')"
            and p2: "alloc_post kend k3 D H d (page_range (a + 4096) (unat newsz)) k' ps'"
          have "alloc_post kend k D H d (page_range a (unat newsz)) k' ps'"
            by (rule alloc_post_trans [OF d post p2]) (use True in \<open>auto simp: page_range_def ap\<close>)
          then show "(\<exists>k' ps'. allocuvm_loop kend d (a + 4096) oldsz newsz k3 = Inr (newsz, k') \<and>
              alloc_post kend k D H d (page_range a (unat newsz)) k' ps') \<or>
            (\<exists>k' ps'. allocuvm_loop kend d (a + 4096) oldsz newsz k3 = Inr (0, k') \<and>
              dealloc_post kend k D H d (page_range (page_up oldsz) (unat newsz)) k' ps')" using r by blast
        next
          fix k' ps' assume r: "allocuvm_loop kend d (a + 4096) oldsz newsz k3 = Inr (0, k')"
            and p2: "dealloc_post kend k3 D H d (page_range (page_up oldsz) (unat newsz)) k' ps'"
          have "change D H d (page_range (page_up oldsz) (unat newsz)) (pages k) (pages k')"
            by (rule change_trans [OF ch3]) (use p2 inr in \<open>auto simp: dealloc_post_def\<close>)
          then have "dealloc_post kend k D H d (page_range (page_up oldsz) (unat newsz)) k' ps'"
            using p2 by (simp add: dealloc_post_def)
          then show "(\<exists>k' ps'. allocuvm_loop kend d (a + 4096) oldsz newsz k3 = Inr (newsz, k') \<and>
              alloc_post kend k D H d (page_range a (unat newsz)) k' ps') \<or>
            (\<exists>k' ps'. allocuvm_loop kend d (a + 4096) oldsz newsz k3 = Inr (0, k') \<and>
              dealloc_post kend k D H d (page_range (page_up oldsz) (unat newsz)) k' ps')" using r by blast
        qed
        moreover have "allocuvm_loop kend d a oldsz newsz k = allocuvm_loop kend d (a + 4096) oldsz newsz k3"
          using True page(2,3) run by (subst allocuvm_loop.simps) (simp add: k2_def)
        ultimately show ?thesis by simp
      next
        assume run: "mappages d (of_nat a) PGSIZE (V2P t) (PTE_W OR PTE_U) k2 = Inr (-1, k2)"
          and inv2: "vm_inv kend k2 D (insert t H) qs" and maps: "same_maps D (pages k1) (pages k2)"
          and kp: "keeps D H (pages k1) (pages k2)"
        from alloc_gives_up [OF inv2 change_refl _ d kend lt new, where R = "\<lambda>_. False"]
        obtain k3 ps3 where k3: "deallocuvm kend d newsz oldsz k2 = Inr (oldsz, k3)"
          "dealloc_post kend k2 D (insert t H) d (page_range (page_up oldsz) (unat newsz)) k3 ps3" by blast
        then have inv3: "vm_inv kend k3 D (insert t H) ps3" by (simp add: dealloc_post_def)
        obtain k4 where k4: "kfree kend t k3 = Inr k4" "vm_inv kend k4 D H (t # ps3)"
          "same_maps D (pages k3) (pages k4)" "keeps D H (pages k3) (pages k4)"
          using held_free [OF inv3 page(5)] by blast
        let ?R = "page_range (page_up oldsz) (unat newsz)"
        have "change D H d ?R (pages k) (pages k2)" using change_keeps [OF kp maps] page(4) by simp
        moreover have "change D H d ?R (pages k2) (pages k3)"
          using k3(2) change_held [of D "insert t H" d ?R _ _ H] by (auto simp: dealloc_post_def)
        moreover have "change D H d ?R (pages k3) (pages k4)" by (rule change_keeps [OF k4(4,3)])
        ultimately have "change D H d ?R (pages k) (pages k4)" by (blast intro: change_trans)
        moreover have "cleared d ?R (pages k4)"
          using k3(2) k4(3) d by (simp add: dealloc_post_def cleared_def same_maps_def)
        ultimately have "dealloc_post kend k D H d ?R k4 (t # ps3)" using k4(2) by (simp add: dealloc_post_def)
        moreover have "allocuvm_loop kend d a oldsz newsz k = Inr (0, k4)"
          using True page(2,3) run k3(1) k4(1) by (subst allocuvm_loop.simps) (simp add: k2_def)
        ultimately show ?thesis unfolding alloc_result_def by blast
      qed
    qed
  qed
qed


section \<open>Copying an address space\<close>

lemma present_flags: "e AND PTE_P \<noteq> 0 \<Longrightarrow> PTE_FLAGS e OR PTE_P = PTE_FLAGS e"
proof (rule bit_word_eqI)
  fix n assume e: "e AND PTE_P \<noteq> 0" and "n < LENGTH(32)"
  have m: "(0xFFF :: uint) = mask 12" by (simp add: mask_eq_exp_minus_1)
  have "bit e 0"
  proof (rule ccontr)
    assume "\<not> bit e 0"
    then have "e AND PTE_P = 0" unfolding PTE_P_def by (intro bit_word_eqI) (auto simp: bit_simps bit_1_iff intro: gr0I)
    then show False using e by simp
  qed
  then show "bit (PTE_FLAGS e OR PTE_P) n = bit (PTE_FLAGS e) n"
    unfolding PTE_FLAGS_def PTE_P_def m by (auto simp add: bit_or_iff bit_and_iff bit_mask_iff bit_1_iff)
qed

lemma PTE_FLAGS_less: "unat (PTE_FLAGS e) < 4096"
proof -
  have m: "(0xFFF :: uint) = mask 12" by (simp add: mask_eq_exp_minus_1)
  have "unat (PTE_FLAGS e) = unat e mod 2 ^ 12"
    unfolding PTE_FLAGS_def m by (simp only: take_bit_eq_mask [symmetric] unat_take_bit)
  then show ?thesis by simp
qed

definition copied :: "uint \<Rightarrow> uint \<Rightarrow> (nat \<Rightarrow> bool) \<Rightarrow> memory \<Rightarrow> bool" where
  "copied d c R m \<longleftrightarrow> (\<forall>a < 0x80000000. R (a div 4096) \<longrightarrow> vbyte m c a = vbyte m d a \<and> vflags m c a = vflags m d a)"

definition copy_result :: "uint \<Rightarrow> kmem \<Rightarrow> uint set \<Rightarrow> uint set \<Rightarrow> uint \<Rightarrow> uint \<Rightarrow> (nat \<Rightarrow> bool) \<Rightarrow> (bool \<times> kmem) res \<Rightarrow> bool" where
  "copy_result kend k D H d c R r \<longleftrightarrow>
     (\<exists>ok k'. r = Inr (ok, k') \<and> change D H c R (pages k) (pages k') \<and> (\<exists>H' ps'. vm_inv kend k' D H' ps' \<and> H \<subseteq> H' \<and>
        (ok \<longrightarrow> H' = H \<and> copied d c R (pages k'))))"

lemma copyuvm_loop_ok:
  assumes "vm_inv kend k D H ps" and d: "d \<in> D" "c \<in> D" "d \<noteq> c" and sz: "sz \<le> 0x80000000"
    and "i mod 4096 = 0" and "cleared c (page_range i sz) (pages k)"
    and "\<And>p. page_range i sz p \<Longrightarrow> entry (pages k) d p AND PTE_P \<noteq> 0"
  shows "copy_result kend k D H d c (page_range i sz) (copyuvm_loop d c i sz k)"
  using assms(1,6-)
proof (induction "sz - i" arbitrary: i k ps rule: less_induct)
  case less
  note inv = less.prems(1)
  note I = vm_invD [OF inv]
  show ?case
  proof (cases "i < sz")
    case False
    then have "copyuvm_loop d c i sz k = Inr (True, k)" by (subst copyuvm_loop.simps) simp
    moreover have "copied d c (page_range i sz) (pages k)" using False by (auto simp: copied_def page_range_def)
    ultimately show ?thesis using inv unfolding copy_result_def by (blast intro: change_refl)
  next
    case True
    define p where "p = i div 4096"
    have ip: "i = p * 4096" using less.prems(2) by (auto simp: p_def)
    have p: "p < 0x80000" "p < 0x100000" and i: "i < 0x80000000" using True sz ip by simp_all
    have va: "pgno (of_nat i) = p" using pgno_of_nat [OF i] by (simp add: p_def)
    have inr: "page_range i sz p" using True ip by (simp add: page_range_def)
    define e where "e = entry (pages k) d p"
    have e: "e AND PTE_P \<noteq> 0" using less.prems(4) [OF inr] by (simp add: e_def)
    define f where "f = P2V (PTE_ADDR e)"
    have f: "own (pages k) d (Frame p) = Some f" using e p by (simp add: e_def f_def)
    obtain t where t: "own (pages k) d (Table (p div 1024)) = Some t"
      using entry_no_table [OF p(2), of "pages k" d] e by (cases "own (pages k) d (Table (p div 1024))") (auto simp: e_def)
    have ptab: "page_ok kend t" by (rule I(4) [OF d(1) t])
    define pte where "pte = t + 4 * of_nat (p mod 1024)"
    have walk: "walkpgdir d (of_nat i) False k = (pte, k)"
      using walk_present [of k d "of_nat i" t False, unfolded va, OF t] by (simp add: pte_def)
    have "unat pte = unat t + 4 * (p mod 1024)" unfolding pte_def by (rule slot_addr [OF ptab]) simp
    then have nz: "pte \<noteq> 0" using page_ok_nonzero [OF ptab] by (auto simp: unat_eq_0)
    have rd: "read32 (pages k) pte = e" using entry_table [OF p(2) t] by (simp add: pte_def e_def)
    from inv show ?thesis
    proof (cases rule: alloc_held)
      case none
      then have "copyuvm_loop d c i sz k = Inr (False, k)"
        using True walk nz rd e by (subst copyuvm_loop.simps) simp
      then show ?thesis using inv by (auto simp: copy_result_def change_refl)
    next
      case (page g qs k1)
      define k2 where "k2 = k1\<lparr>pages := memmove (pages k1) (unat g) (unat f) 4096\<rparr>"
      have out: "same_page (pages k1) (pages k2) v" if "page_ok kend v" "v \<noteq> g" for v
        using pages_apart [OF that(1) page(6) that(2)] by (auto simp: same_page_def k2_def memmove_apply)
      note W = held_write [OF page(7) insertI1 out]
      have inv2: "vm_inv kend k2 D (insert g H) qs" and maps: "same_maps D (pages k) (pages k2)"
        and kp: "keeps D H (pages k) (pages k2)"
        using W page(4,5) by (simp_all add: k2_def)
      have free: "entry (pages k2) c (i div 4096) AND PTE_P = 0"
        using maps less.prems(3) d(2) p inr by (simp add: same_maps_def cleared_def p_def)
      have lp: "copyuvm_loop d c i sz k = bindE (mappages c (of_nat i) PGSIZE (V2P g) (PTE_FLAGS e) k2) (\<lambda>(r, k).
          if r < 0 then Inr (False, k) else copyuvm_loop d c (i + 4096) sz k)"
        using True walk nz rd e page(2,3) by (subst copyuvm_loop.simps) (simp add: k2_def f_def)
      have same_d: "vbyte (pages k2) d b = vbyte (pages k) d b \<and> vflags (pages k2) d b = vflags (pages k) d b"
        if "b < 0x80000000" for b
        using untouched_keeps [OF kp maps, of d "\<lambda>_. False"] d(1) that by (simp add: untouched_def)
      from map_held_page [OF inv2 page(5) d(2) less.prems(2) i free PTE_FLAGS_less [of e]] show ?thesis
      proof (elim disjE exE conjE)
        fix k3 ps3 assume run: "mappages c (of_nat i) PGSIZE (V2P g) (PTE_FLAGS e) k2 = Inr (0, k3)"
          and inv3: "vm_inv kend k3 D H ps3" and ch: "change D H c ((=) (i div 4096)) (pages k2) (pages k3)"
          and sh: "shows_page c (i div 4096) (pages k3) (\<lambda>j. pages k2 (unat g + j)) (PTE_FLAGS e OR PTE_P)"
        have ch3: "change D H c ((=) p) (pages k) (pages k3)"
          by (rule change_trans [OF change_keeps [OF kp maps] ch]) (auto simp: p_def)
        have one: "copied d c ((=) p) (pages k3)"
          unfolding copied_def
        proof (intro allI impI)
          fix b assume b: "b < (0x80000000 :: nat)" "p = b div 4096"
          have "vbyte (pages k3) d b = vbyte (pages k) d b \<and> vflags (pages k3) d b = vflags (pages k) d b"
            using ch3 d b by (auto simp: change_def untouched_def)
          moreover have "vbyte (pages k) d b = Some (pages k (unat f + b mod 4096))"
            using vbyte_frame [OF b(1)] f b(2) by simp
          moreover have "vflags (pages k) d b = PTE_FLAGS e" using b(2) by (simp add: vflags_def e_def)
          moreover have "pages k2 (unat g + b mod 4096) = pages k (unat f + b mod 4096)"
            using page(4) by (simp add: k2_def memmove_apply)
          ultimately show "vbyte (pages k3) c b = vbyte (pages k3) d b \<and> vflags (pages k3) c b = vflags (pages k3) d b"
            using sh b present_flags [OF e] by (simp add: shows_page_def p_def)
        qed
        have d3: "entry (pages k3) d q = entry (pages k) d q" if "q < 0x100000" for q
          using ch3 d that by (auto simp: change_def)
        have cl: "cleared c (page_range (i + 4096) sz) (pages k3)"
          using less.prems(3) ch3 d(2) ip by (auto simp: cleared_def change_def page_range_def)
        have pr: "entry (pages k3) d q AND PTE_P \<noteq> 0" if "page_range (i + 4096) sz q" for q
          using less.prems(4) [of q] d3 [of q] that sz by (simp add: page_range_def)
        have "copy_result kend k3 D H d c (page_range (i + 4096) sz) (copyuvm_loop d c (i + 4096) sz k3)"
          using less.hyps [of "i + 4096", OF _ inv3 _ cl pr] True less.prems(2) by simp
        then obtain ok k' H' ps' where r: "copyuvm_loop d c (i + 4096) sz k3 = Inr (ok, k')"
          and ch4: "change D H c (page_range (i + 4096) sz) (pages k3) (pages k')"
          and inv4: "vm_inv kend k' D H' ps'" "H \<subseteq> H'"
          and okc: "ok \<longrightarrow> H' = H \<and> copied d c (page_range (i + 4096) sz) (pages k')"
          unfolding copy_result_def by blast
        have ch5: "change D H c (page_range i sz) (pages k) (pages k')"
          by (rule change_trans [OF ch3 ch4]) (use True in \<open>auto simp: page_range_def ip\<close>)
        have "copied d c (page_range i sz) (pages k')" if ok
          unfolding copied_def
        proof (intro allI impI)
          fix b assume b: "b < (0x80000000 :: nat)" "page_range i sz (b div 4096)"
          show "vbyte (pages k') c b = vbyte (pages k') d b \<and> vflags (pages k') c b = vflags (pages k') d b"
          proof (cases "b div 4096 = p")
            case True
            then have "\<not> page_range (i + 4096) sz (b div 4096)" by (simp add: page_range_def ip)
            then show ?thesis using ch4 d b(1) one True by (auto simp: change_def untouched_def copied_def)
          next
            case False
            then have "page_range (i + 4096) sz (b div 4096)" using b(2) by (auto simp: page_range_def ip)
            then show ?thesis using okc that b(1) by (auto simp: copied_def)
          qed
        qed
        then have "copy_result kend k D H d c (page_range i sz) (Inr (ok, k'))"
          using ch5 inv4 okc by (auto simp: copy_result_def)
        then show ?thesis using lp run r by simp
      next
        assume "mappages c (of_nat i) PGSIZE (V2P g) (PTE_FLAGS e) k2 = Inr (-1, k2)"
        then have "copyuvm_loop d c i sz k = Inr (False, k2)" using lp by simp
        moreover have "change D H c (page_range i sz) (pages k) (pages k2)" by (rule change_keeps [OF kp maps])
        ultimately show ?thesis using inv2 by (auto simp: copy_result_def)
      qed
    qed
  qed
qed


section \<open>Copying to user memory\<close>

lemma put_bytes_apply:
  "put_bytes m a bs x = (if a \<le> x \<and> x < a + length bs then bs ! (x - a) else m x)"
proof (induction bs arbitrary: m a)
  case (Cons b bs)
  then show ?case by (cases "x = a") (auto simp: nth_Cons')
qed auto

lemma frame_write:
  assumes inv: "vm_inv kend k D H ps" and d: "d \<in> D" and f: "own (pages k) d (Frame p) = Some f"
    and same: "\<And>v. page_ok kend v \<Longrightarrow> v \<noteq> f \<Longrightarrow> same_page (pages k) m' v"
  shows "vm_inv kend (k\<lparr>pages := m'\<rparr>) D H ps" and "same_maps D (pages k) m'"
    and "change D H d ((=) p) (pages k) m'"
proof -
  note I = vm_invD [OF inv]
  have nf: "v \<noteq> f" if "e \<in> D" "own (pages k) e x = Some v" "e \<noteq> d \<or> x \<noteq> Frame p" for e x v
    using I(7) [OF that(1) d _ f, of x] that(2,3) by blast
  have own: "own m' e = own (pages k) e" and ent: "\<And>q. q < 0x100000 \<Longrightarrow> entry m' e q = entry (pages k) e q"
    if e: "e \<in> D" for e
  proof -
    have sp: "same_page (pages k) m' v" if "own (pages k) e x = Some v" "x \<noteq> Frame p" for x v
      using I(4) [OF e that(1)] nf [OF e that(1)] that(2) by (intro same) auto
    have "own (pages k) e Dir = Some e" by simp
    then show "own m' e = own (pages k) e" "\<And>q. q < 0x100000 \<Longrightarrow> entry m' e q = entry (pages k) e q"
      using entry_cong [of kend e "pages k" m'] I(4) [OF e] sp use.distinct by blast+
  qed
  show maps: "same_maps D (pages k) m'" using ent by (simp add: same_maps_def)
  have "kmem_inv kend (k\<lparr>pages := m'\<rparr>) ps"
    by (rule kmem_inv_pages [OF I(1)]) (use I(1) I(5) [OF d f] in \<open>auto simp: kmem_inv_def intro!: same\<close>)
  then show "vm_inv kend (k\<lparr>pages := m'\<rparr>) D H ps"
    using inv own unfolding vm_inv_def by simp
  have "untouched D d ((=) p) (pages k) m'"
  proof (rule untouchedI)
    show "entry m' e q = entry (pages k) e q" if "e \<in> D" "q < 0x80000" for e q using ent [OF that(1), of q] that(2) by simp
    show "same_page (pages k) m' v" if "e \<in> D" "own (pages k) e (Frame q) = Some v" "\<not> (e = d \<and> p = q)" for e q v
      using I(4) [OF that(1,2)] nf [OF that(1,2)] that(3) by (intro same) auto
  qed
  then show "change D H d ((=) p) (pages k) m'"
    using ent I(2,6) f d same unfolding change_def by blast
qed

lemma uva2ka_present:
  assumes inv: "vm_inv kend k D H ps" and d: "d \<in> D" and va: "pgno uva = p" "p < 0x80000"
    and pres: "entry (pages k) d p AND PTE_P \<noteq> 0" "entry (pages k) d p AND PTE_U \<noteq> 0"
  obtains f where "own (pages k) d (Frame p) = Some f" "uva2ka d uva k = Inr f" "f \<noteq> 0" "page_ok kend f"
proof -
  note I = vm_invD [OF inv]
  have p: "p < 0x100000" using va(2) by simp
  define f where "f = P2V (PTE_ADDR (entry (pages k) d p))"
  have f: "own (pages k) d (Frame p) = Some f" using pres va by (simp add: f_def)
  obtain t where t: "own (pages k) d (Table (p div 1024)) = Some t"
    using entry_no_table [OF p, of "pages k" d] pres by (cases "own (pages k) d (Table (p div 1024))") auto
  have ptab: "page_ok kend t" by (rule I(4) [OF d t])
  have "unat (t + 4 * of_nat (p mod 1024)) = unat t + 4 * (p mod 1024)" by (rule slot_addr [OF ptab]) simp
  then have nz: "t + 4 * of_nat (p mod 1024) \<noteq> 0" using page_ok_nonzero [OF ptab] by (auto simp: unat_eq_0)
  have "uva2ka d uva k = Inr f"
    using walk_present [of k d uva t False, unfolded va, OF t] nz entry_table [OF p t] pres
    by (simp add: uva2ka_def f_def)
  then show ?thesis using that f I(4) [OF d f] page_ok_nonzero by blast
qed

lemma within_page: "(a :: nat) = p * 4096 + r \<Longrightarrow> r + n \<le> 4096 \<Longrightarrow> b < a + n \<Longrightarrow> b < (p + 1) * 4096"
  by simp

definition written :: "uint set \<Rightarrow> uint \<Rightarrow> nat \<Rightarrow> byte list \<Rightarrow> memory \<Rightarrow> memory \<Rightarrow> bool" where
  "written D d a bs m m' \<longleftrightarrow> (\<forall>e \<in> D. \<forall>b < 0x80000000.
     vbyte m' e b = (if e = d \<and> a \<le> b \<and> b < a + length bs then Some (bs ! (b - a)) else vbyte m e b) \<and>
     vflags m' e b = vflags m e b)"

definition user_range :: "memory \<Rightarrow> uint \<Rightarrow> nat \<Rightarrow> nat \<Rightarrow> bool" where
  "user_range m d a z \<longleftrightarrow> (\<forall>b. a \<le> b \<and> b < z \<longrightarrow>
     entry m d (b div 4096) AND PTE_P \<noteq> 0 \<and> entry m d (b div 4096) AND PTE_U \<noteq> 0)"

lemma copyout_ok:
  assumes "vm_inv kend k D H ps" and d: "d \<in> D" and "unat va + length buf \<le> 0x80000000"
    and "user_range (pages k) d (unat va) (unat va + length buf)"
  shows "\<exists>k'. copyout d va buf k = Inr (0, k') \<and> vm_inv kend k' D H ps \<and> written D d (unat va) buf (pages k) (pages k')"
  using assms(1,3,4)
proof (induction "length buf" arbitrary: va buf k rule: less_induct)
  case less
  note inv = less.prems(1)
  show ?case
  proof (cases "buf = []")
    case True
    then show ?thesis using inv by (auto simp: copyout.simps written_def)
  next
    case False
    then have len: "0 < length buf" by simp
    define a where "a = unat va"
    define p where "p = a div 4096"
    have "a < 0x80000000" using less.prems(2) len unfolding a_def by linarith
    then have a: "a < 0x80000000" "p < 0x80000" by (simp_all add: p_def)
    have "pgno (PGROUNDDOWN va) = p" by (simp add: pgno_def unat_PGROUNDDOWN p_def a_def)
    moreover have "entry (pages k) d p AND PTE_P \<noteq> 0" "entry (pages k) d p AND PTE_U \<noteq> 0"
      using less.prems(3) len by (auto simp: user_range_def p_def a_def)
    ultimately obtain f where f: "own (pages k) d (Frame p) = Some f" "uva2ka d (PGROUNDDOWN va) k = Inr f" "f \<noteq> 0" "page_ok kend f"
      using uva2ka_present [OF inv d _ a(2)] by blast
    define n where "n = min (4096 - a mod 4096) (length buf)"
    have off: "unat (va - PGROUNDDOWN va) = a mod 4096" by (simp add: unat_page_offset a_def)
    have dst: "unat (f + (va - PGROUNDDOWN va)) = unat f + a mod 4096"
      using page_ok_top(1) [OF f(4)] mod_less_divisor [of 4096 a] off by (simp add: unat_word_ariths(1))
    define m' where "m' = put_bytes (pages k) (unat f + a mod 4096) (take n buf)"
    have n: "0 < n" "n \<le> length buf" "a mod 4096 + n \<le> 4096" using len mod_less_divisor [of 4096 a] by (auto simp: n_def)
    have same: "same_page (pages k) m' v" if "page_ok kend v" "v \<noteq> f" for v
      using pages_apart [OF that(1) f(4) that(2)] n by (auto simp: same_page_def m'_def put_bytes_apply)
    let ?k1 = "k\<lparr>pages := m'\<rparr>"
    note W = frame_write [OF inv d f(1) same]
    define va1 where "va1 = PGROUNDDOWN va + PGSIZE"
    have va1: "unat va1 = (p + 1) * 4096"
      using a(2) by (simp add: va1_def PGSIZE_def unat_word_ariths(1) unat_PGROUNDDOWN p_def a_def)
    have ap: "a = p * 4096 + a mod 4096" by (simp add: p_def)
    have one: "written D d a (take n buf) (pages k) m'"
      unfolding written_def
    proof (intro ballI allI impI)
      fix e b assume e: "e \<in> D" and b: "b < (0x80000000 :: nat)"
      have bp: "b div 4096 < 0x100000" using b by simp
      have fl: "vflags m' e b = vflags (pages k) e b" using W(2) e bp by (simp add: vflags_def same_maps_def)
      show "vbyte m' e b = (if e = d \<and> a \<le> b \<and> b < a + length (take n buf) then Some (take n buf ! (b - a)) else vbyte (pages k) e b) \<and>
        vflags m' e b = vflags (pages k) e b"
      proof (cases "e = d \<and> b div 4096 = p")
        case True
        then have bm: "b = p * 4096 + b mod 4096" by (metis div_mult_mod_eq)
        have "own m' d (Frame (b div 4096)) = Some f" using W(2) d f(1) True a(2) by (auto simp: same_maps_def split: if_splits)
        then have "vbyte m' e b = Some (m' (unat f + b mod 4096))" "vbyte (pages k) e b = Some (pages k (unat f + b mod 4096))"
          using vbyte_frame [OF b] True f(1) by simp_all
        moreover have "a \<le> b \<longleftrightarrow> a mod 4096 \<le> b mod 4096" "b < a + n \<longleftrightarrow> b mod 4096 < a mod 4096 + n" "b - a = b mod 4096 - a mod 4096"
          using bm ap by linarith+
        ultimately show ?thesis using fl True n(2) by (auto simp: m'_def put_bytes_apply add.commute min_absorb2)
      next
        case False
        have "vbyte m' e b = vbyte (pages k) e b" using W(3) e b False by (auto simp: change_def untouched_def)
        moreover have "\<not> (e = d \<and> a \<le> b \<and> b < a + n)"
        proof
          assume *: "e = d \<and> a \<le> b \<and> b < a + n"
          have "p \<le> b div 4096" using * by (simp add: p_def div_le_mono)
          moreover have "b < a + n" using * by simp
          from within_page [OF ap n(3) this] have "b < (p + 1) * 4096" .
          ultimately have "b div 4096 = p" using less_mult_imp_div_less [of b "p + 1" 4096] by simp
          then show False using False * by simp
        qed
        ultimately show ?thesis using fl n(2) by (auto simp: min_def)
      qed
    qed
    have rest: "\<exists>k'. copyout d va1 (drop n buf) ?k1 = Inr (0, k') \<and> vm_inv kend k' D H ps \<and>
        written D d (unat va1) (drop n buf) m' (pages k')"
    proof (cases "n = length buf")
      case True
      then show ?thesis using W(1) by (auto simp: copyout.simps written_def)
    next
      case False
      then have full: "a + n = unat va1" using ap n by (simp add: va1 n_def)
      have "user_range m' d (unat va1) (unat va1 + length (drop n buf))"
        unfolding user_range_def
      proof (intro allI impI)
        fix b assume b: "unat va1 \<le> b \<and> b < unat va1 + length (drop n buf)"
        then have "b < 0x80000000" using less.prems(2) full n by (auto simp: a_def)
        then have "entry m' d (b div 4096) = entry (pages k) d (b div 4096)" using W(2) d by (simp add: same_maps_def)
        then show "entry m' d (b div 4096) AND PTE_P \<noteq> 0 \<and> entry m' d (b div 4096) AND PTE_U \<noteq> 0"
          using less.prems(3) b full n by (auto simp: user_range_def a_def)
      qed
      then show ?thesis
        using less.hyps [of "drop n buf" ?k1 va1] W(1) n len less.prems(2) full by (simp add: a_def)
    qed
    then obtain k' where k': "copyout d va1 (drop n buf) ?k1 = Inr (0, k')" "vm_inv kend k' D H ps"
      "written D d (unat va1) (drop n buf) m' (pages k')" by blast
    have "copyout d va buf k = Inr (0, k')"
      using False f(2,3) k'(1) off dst by (subst copyout.simps) (simp add: Let_def n_def m'_def va1_def)
    moreover have "written D d a buf (pages k) (pages k')"
    proof (cases "n = length buf")
      case True
      then show ?thesis using one k'(3) by (auto simp: written_def)
    next
      case False
      then have full: "a + n = unat va1" using ap n by (simp add: va1 n_def)
      have va1_end: "unat va1 + length (drop n buf) = a + length buf" using full n(2) by simp
      show ?thesis unfolding written_def
      proof (intro ballI allI impI)
        fix e b assume e: "e \<in> D" "b < (0x80000000 :: nat)"
        have "vbyte (pages k') e b = (if e = d \<and> a + n \<le> b \<and> b < a + length buf then Some (drop n buf ! (b - (a + n))) else vbyte m' e b)"
          using k'(3) e unfolding written_def va1_end full by auto
        moreover have "vbyte m' e b = (if e = d \<and> a \<le> b \<and> b < a + n then Some (take n buf ! (b - a)) else vbyte (pages k) e b)"
          using one e n(2) unfolding written_def by (auto simp: min_absorb2)
        moreover have "vflags (pages k') e b = vflags (pages k) e b" using k'(3) one e by (simp add: written_def)
        ultimately show "vbyte (pages k') e b = (if e = d \<and> a \<le> b \<and> b < a + length buf then Some (buf ! (b - a)) else vbyte (pages k) e b) \<and>
          vflags (pages k') e b = vflags (pages k) e b"
          using n(2) by auto
      qed
    qed
    ultimately show ?thesis using k'(2) by (auto simp: a_def)
  qed
qed

end
