(* ===== verification/Vm_Properties.thy ===== *)
theory Vm_Properties
  imports Vm_Space
begin

text \<open>
  The properties of the page tables, for any number of address spaces in one memory:
  what growing, shrinking, copying and writing user memory do to the bytes a process
  reads, and that they do nothing to any other process.
\<close>

section \<open>A new address space\<close>

lemma new_directory:
  assumes inv: "vm_inv kend k D (insert t H) ps" and t: "t \<notin> H"
    and k2: "k2 = k\<lparr>pages := memset (pages k) (unat t) 0 4096\<rparr>"
  shows "vm_inv kend k2 (insert t D) H ps" and "\<And>q. q < 0x100000 \<Longrightarrow> entry (pages k2) t q = 0"
    and "same_maps D (pages k) (pages k2)" and "keeps D H (pages k) (pages k2)"
proof -
  note I = vm_invD [OF inv]
  have pt: "page_ok kend t" "t \<notin> set ps" using I(2,3) by auto
  have same: "same_page (pages k) (memset (pages k) (unat t) 0 4096) v" if "page_ok kend v" "v \<noteq> t" for v
    by (rule same_page_memset) (use that pt in auto)
  note W = held_write [OF inv insertI1 same]
  have inv2: "vm_inv kend k2 D (insert t H) ps" using W(1) by (simp add: k2)
  note J = vm_invD [OF inv2]
  show "same_maps D (pages k) (pages k2)" using W(2) by (simp add: k2)
  show "keeps D H (pages k) (pages k2)" using W(3) t by (simp add: k2)
  have pde: "pde_of (pages k2) t i = 0" if i: "i < 1024" for i
  proof -
    have "read32 (pages k2) (t + 4 * of_nat i) = read32 (\<lambda>_. 0) (t + 4 * of_nat i)"
      using slot_addr [OF pt(1) i] i by (intro read32_cong) (simp add: memset_apply k2)
    then show ?thesis by (simp add: pde_of_def read32_def of_le32_def upt_rec)
  qed
  show ent: "entry (pages k2) t q = 0" if "q < 0x100000" for q
    using pde [of "q div 1024"] that by (simp add: entry_def)
  have own: "own (pages k2) t x = Some v \<longleftrightarrow> x = Dir \<and> v = t" for x v
    using pde ent by (cases x) auto
  have new: "e \<in> D \<Longrightarrow> own (pages k2) e x \<noteq> Some t" for e x using J(6) by blast
  show "vm_inv kend k2 (insert t D) H ps" unfolding vm_inv_def
  proof (intro conjI ballI allI impI)
    fix e x v assume e: "e \<in> insert t D" and x: "own (pages k2) e x = Some v"
    then have c: "e = t \<and> x = Dir \<and> v = t \<or> e \<in> D" using own by blast
    then show "page_ok kend v" "v \<notin> set ps" "v \<notin> H" using pt t J(4-6) [OF _ x] by blast+
    fix e' y assume e': "e' \<in> insert t D" and y: "own (pages k2) e' y = Some v"
    then have c': "e' = t \<and> y = Dir \<and> v = t \<or> e' \<in> D" using own by blast
    show "e = e'" "x = y" using c c' J(7) [OF _ _ x y] new x y by blast+
  qed (use J(1-3) in auto)
qed

lemma alloc_directory:
  assumes "vm_inv kend k D H (t # ps)"
  shows "\<exists>k2. vm_inv kend k2 (insert t D) H ps \<and> t \<noteq> 0 \<and> t \<notin> D \<and> (\<forall>q < 0x100000. entry (pages k2) t q = 0) \<and>
    same_maps D (pages k) (pages k2) \<and> keeps D H (pages k) (pages k2)"
  using assms
proof (cases rule: alloc_held)
  case (page t' qs k1)
  have "t \<notin> D" using vm_invD(5) [OF assms, where d = t and x = Dir and v = t] by auto
  with page new_directory [OF page(7,5) refl] show ?thesis by auto
qed simp

lemma free_pages_exist:
  "\<exists>k. vm_inv 0x80100000 k {} {} (map (\<lambda>i. 0x80100000 + 4096 * of_nat i) (rev [0..<8]))"
proof -
  let ?k = "\<lparr>use_lock = True, freelist = 0, pages = \<lambda>_. 0\<rparr>"
  have "kmem_inv 0x80100000 ?k []" by (simp add: kmem_inv_def)
  moreover have "range_pages 0x80100000 0x80108000 = map (\<lambda>i. 0x80100000 + 4096 * of_nat i) (rev [0..<8])"
    by (simp add: range_pages_def upt_rec)
  ultimately show ?thesis
    using freerange_loop_ok [of "0x80100000" ?k "[]" "0x80100000" "0x80108000"]
    by (auto simp: KERNBASE_def P2V_def PHYSTOP_def vm_inv_def)
qed

text \<open>Two address spaces, the first with one user page of zeros at 0.\<close>

lemma two_spaces_exist:
  "\<exists>k d c ps. vm_inv 0x80100000 k {d, c} {} ps \<and> d \<noteq> c \<and> (\<forall>q < 0x100000. entry (pages k) c q = 0) \<and>
     (\<forall>a < 4096. vbyte (pages k) d a = Some 0 \<and> vflags (pages k) d a = PTE_P OR PTE_W OR PTE_U) \<and>
     (\<forall>q < 0x100000. q \<noteq> 0 \<longrightarrow> entry (pages k) d q = 0)"
proof -
  obtain k0 p1 p2 p3 p4 ps where k0: "vm_inv 0x80100000 k0 {} {} (p1 # p2 # p3 # p4 # ps)"
    using free_pages_exist by (auto simp: upt_rec)
  from alloc_directory [OF k0] obtain k1 where
    k1: "vm_inv 0x80100000 k1 {p1} {} (p2 # p3 # p4 # ps)" "\<forall>q < 0x100000. entry (pages k1) p1 q = 0" by auto
  from alloc_directory [OF k1(1)] obtain k2 where
    k2: "vm_inv 0x80100000 k2 {p2, p1} {} (p3 # p4 # ps)" "p2 \<noteq> p1" "\<forall>q < 0x100000. entry (pages k2) p2 q = 0"
      "same_maps {p1} (pages k1) (pages k2)" by auto
  have e1: "\<forall>q < 0x100000. entry (pages k2) p1 q = 0" using k1(2) k2(4) by (simp add: same_maps_def)
  from k2(1) show ?thesis
  proof (cases rule: alloc_held)
    case (page t qs k3)
    define k4 where "k4 = k3\<lparr>pages := memset (pages k3) (unat t) 0 4096\<rparr>"
    have "entry (pages k3) p1 (0 div 4096) AND PTE_P = 0" using e1 page(4) by simp
    from alloc_one_page [OF page(7,5) _ _ _ this k4_def]
    have "(\<exists>k5 ps'. alloc_post 0x80100000 k3 {p2, p1} {} p1 ((=) 0) k5 ps') \<or>
      mappages p1 0 PGSIZE (V2P t) (PTE_W OR PTE_U) k4 = Inr (-1, k4)" by auto
    moreover have "mappages p1 0 PGSIZE (V2P t) (PTE_W OR PTE_U) k4 \<noteq> Inr (-1, k4)"
    proof -
      have pt: "page_ok 0x80100000 t" by (rule page(6))
      have same: "same_page (pages k3) (memset (pages k3) (unat t) 0 4096) v" if "page_ok 0x80100000 v" "v \<noteq> t" for v
        by (rule same_page_memset) (use that pt in auto)
      note W = held_write [OF page(7) insertI1 same]
      have inv4: "vm_inv 0x80100000 k4 {p2, p1} (insert t {}) qs" using W(1) by (simp add: k4_def)
      have "entry (pages k4) p1 (0 div 4096) AND PTE_P = 0"
        using W(2) e1 page(4) by (simp add: k4_def same_maps_def)
      moreover have "unat (PTE_W OR PTE_U) < 4096" by (simp add: PTE_W_def PTE_U_def)
      ultimately show ?thesis using map_held_page [OF inv4, of p1 0 "PTE_W OR PTE_U"] page(1) by auto
    qed
    ultimately obtain k5 ps' where k5: "alloc_post 0x80100000 k3 {p2, p1} {} p1 ((=) 0) k5 ps'" by blast
    then have "\<forall>e \<in> {p2, p1}. \<forall>q < 0x100000. \<not> (e = p1 \<and> 0 = q) \<longrightarrow> entry (pages k5) e q = entry (pages k2) e q"
      using page(4) by (simp add: alloc_post_def change_def)
    then have "\<forall>q < 0x100000. entry (pages k5) p2 q = 0" "\<forall>q < 0x100000. q \<noteq> 0 \<longrightarrow> entry (pages k5) p1 q = 0"
      using e1 k2(2,3) by auto
    moreover have "\<forall>a < 4096. vbyte (pages k5) p1 a = Some 0 \<and> vflags (pages k5) p1 a = PTE_P OR PTE_W OR PTE_U"
      using k5 by (auto simp: alloc_post_def zeroed_def)
    moreover have "vm_inv 0x80100000 k5 {p1, p2} {} ps'" using k5 by (simp add: alloc_post_def insert_commute)
    ultimately show ?thesis using k2(2) by metis
  qed simp
qed

lemma page_range_iff:
  assumes "a mod 4096 = 0" and "z < KERNBASE"
  shows "page_range a (unat z) (b div 4096) \<longleftrightarrow> a \<le> b \<and> b < page_up z"
proof -
  obtain q where q: "a = q * 4096" using assms(1) by (metis mod_0_imp_dvd dvd_def mult.commute)
  have up: "page_up z = (unat z + 4095) div 4096 * 4096" by (rule page_up(1) [OF assms(2)])
  define u where "u = (unat z + 4095) div 4096"
  have "b < u * 4096 \<longleftrightarrow> b div 4096 < u" by (simp add: div_less_iff_less_mult)
  moreover have "b div 4096 < u \<longleftrightarrow> b div 4096 * 4096 < unat z"
  proof -
    have "x < (n + 4095) div 4096 \<longleftrightarrow> x * 4096 < n" for x n :: nat
      using less_eq_div_iff_mult_less_eq [of 4096 "Suc x" "n + 4095"] by auto
    then show ?thesis by (simp add: u_def)
  qed
  moreover have "a \<le> b div 4096 * 4096 \<longleftrightarrow> a \<le> b"
    using less_eq_div_iff_mult_less_eq [of 4096 q b] by (simp add: q)
  ultimately show ?thesis by (simp add: page_range_def up u_def)
qed


lemma vbyte_cleared:
  "cleared d R m \<Longrightarrow> R (a div 4096) \<Longrightarrow> a < 0x80000000 \<Longrightarrow> vbyte m d a = None"
  by (simp add: cleared_def vbyte_def)

section \<open>Properties\<close>

text \<open>
  C34. \<open>allocuvm\<close> either returns the new size, and then the process reads zeros in every
  new page, or it returns 0, and then all of its new pages are gone again. In both cases
  every other byte of the process and all memory of every other process are as before,
  and no page has two uses.
\<close>

theorem allocuvm_grows:
  assumes "vm_inv kend k D {} ps" and "d \<in> D" and "KERNBASE < kend" and "oldsz \<le> newsz" and "newsz < KERNBASE"
    and "cleared d (page_range (page_up oldsz) (unat newsz)) (pages k)"
  shows "\<exists>r k' ps'. allocuvm kend d oldsz newsz k = Inr (r, k') \<and> (r = newsz \<or> r = 0) \<and> vm_inv kend k' D {} ps' \<and>
    (\<forall>e \<in> D. \<forall>a < 0x80000000. vbyte (pages k') e a =
       (if e = d \<and> page_up oldsz \<le> a \<and> a < page_up newsz then if r = newsz then Some 0 else None
        else vbyte (pages k) e a))"
proof -
  have old: "oldsz < KERNBASE" using assms(4,5) by (rule le_less_trans)
  have up: "unat oldsz \<le> page_up oldsz" "page_up oldsz mod 4096 = 0" using page_up [OF old] by simp_all
  have run: "allocuvm kend d oldsz newsz k = allocuvm_loop kend d (page_up oldsz) oldsz newsz k"
    using leD [OF assms(4)] not_le_imp_less assms(5) by (simp add: allocuvm_def page_up_def not_le [symmetric])
  note range = page_range_iff [OF up(2) assms(5)]
  from allocuvm_loop_ok [OF assms(1,2,3,5) up(1) order_refl up(2) assms(6)] show ?thesis
    unfolding alloc_result_def
  proof (elim disjE exE conjE)
    fix k' ps' assume "allocuvm_loop kend d (page_up oldsz) oldsz newsz k = Inr (newsz, k')"
      and "alloc_post kend k D {} d (page_range (page_up oldsz) (unat newsz)) k' ps'"
    then show ?thesis unfolding run
      by (intro exI [of _ newsz] exI [of _ k'] exI [of _ ps'])
        (auto simp: alloc_post_def change_def untouched_def zeroed_def range)
  next
    fix k' ps' assume r: "allocuvm_loop kend d (page_up oldsz) oldsz newsz k = Inr (0, k')"
      and post: "dealloc_post kend k D {} d (page_range (page_up oldsz) (unat newsz)) k' ps'"
    have none: "vbyte (pages k') d a = None" if "page_up oldsz \<le> a" "a < page_up newsz" "a < 0x80000000" for a
      by (rule vbyte_cleared [of d "page_range (page_up oldsz) (unat newsz)"]) (use post that range in \<open>simp_all add: dealloc_post_def\<close>)
    have "newsz = 0 \<Longrightarrow> page_up newsz = 0" by (simp add: page_up_def PGROUNDUP_def PGSIZE_def)
    then show ?thesis using r post none unfolding run
      by (intro exI [of _ 0] exI [of _ k'] exI [of _ ps'])
        (auto simp: dealloc_post_def change_def untouched_def range)
  qed
qed

theorem allocuvm_grows_witness:
  "\<exists>k d c r k' ps. vm_inv 0x80100000 k {d, c} {} ps \<and> allocuvm 0x80100000 d 4096 8000 k = Inr (r, k') \<and> d \<noteq> c \<and>
     vbyte (pages k') d 7 = Some 0 \<and> vbyte (pages k') d 5000 = (if r = 8000 then Some 0 else None)"
proof -
  obtain k d c ps where k: "vm_inv 0x80100000 k {d, c} {} ps" "d \<noteq> c" "\<forall>a < 4096. vbyte (pages k) d a = Some 0"
    "\<forall>q < 0x100000. q \<noteq> 0 \<longrightarrow> entry (pages k) d q = 0"
    using two_spaces_exist by blast
  have up: "page_up 4096 = 4096" "page_up 8000 = 8192" by (simp_all add: page_up_def PGROUNDUP_def PGSIZE_def)
  have "cleared d (page_range (page_up 4096) (unat (8000 :: uint))) (pages k)"
    using k(4) up by (auto simp: cleared_def page_range_def)
  then obtain r k' ps' where "allocuvm 0x80100000 d 4096 8000 k = Inr (r, k')" "\<forall>e \<in> {d, c}. \<forall>a < 0x80000000. vbyte (pages k') e a =
       (if e = d \<and> page_up 4096 \<le> a \<and> a < page_up 8000 then if r = 8000 then Some 0 else None else vbyte (pages k) e a)"
    using allocuvm_grows [OF k(1), of d 4096 8000] by (auto simp: KERNBASE_def)
  note r = this
  have "vbyte (pages k') d 7 = Some 0" using bspec [OF r(2), of d, THEN spec, of 7] up k(3) by simp
  moreover have "vbyte (pages k') d 5000 = (if r = 8000 then Some 0 else None)"
    using bspec [OF r(2), of d, THEN spec, of 5000] up by simp
  ultimately show ?thesis using k(1,2) r(1) by blast
qed



text \<open>
  C9. The copy of a process's memory that \<open>fork\<close> makes: when the loop of \<open>copyuvm\<close> comes
  to its end, the child reads in every page below \<open>sz\<close> the bytes of the parent, with the
  same permissions, in pages of its own; parent and all other processes are unchanged.
\<close>

theorem copyuvm_copies:
  assumes "vm_inv kend k D {} ps" and "d \<in> D" and "c \<in> D" and "d \<noteq> c" and "sz < KERNBASE"
    and "cleared c (page_range 0 (unat sz)) (pages k)"
    and "\<And>p. page_range 0 (unat sz) p \<Longrightarrow> entry (pages k) d p AND PTE_P \<noteq> 0"
  shows "\<exists>ok k'. copyuvm_loop d c 0 (unat sz) k = Inr (ok, k') \<and> (\<exists>H ps'. vm_inv kend k' D H ps' \<and> (ok \<longrightarrow> H = {})) \<and>
    (\<forall>e \<in> D - {c}. \<forall>a < 0x80000000. vbyte (pages k') e a = vbyte (pages k) e a) \<and>
    (ok \<longrightarrow> (\<forall>a < page_up sz. a < 0x80000000 \<longrightarrow> vbyte (pages k') c a = vbyte (pages k) d a \<and>
       vflags (pages k') c a = vflags (pages k) d a))"
proof -
  have sz: "unat sz \<le> 0x80000000" using assms(5) by (simp add: word_less_nat_alt KERNBASE_def)
  note range = page_range_iff [OF _ assms(5), of 0, simplified]
  from copyuvm_loop_ok [OF assms(1-4) sz _ assms(6,7)] obtain ok k' H ps' where
    r: "copyuvm_loop d c 0 (unat sz) k = Inr (ok, k')"
    and ch: "change D {} c (page_range 0 (unat sz)) (pages k) (pages k')"
    and inv: "vm_inv kend k' D H ps'" and ok: "ok \<longrightarrow> H = {} \<and> copied d c (page_range 0 (unat sz)) (pages k')"
    unfolding copy_result_def by auto
  have other: "vbyte (pages k') e a = vbyte (pages k) e a \<and> vflags (pages k') e a = vflags (pages k) e a"
    if "e \<in> D" "e \<noteq> c" "a < 0x80000000" for e a using ch that by (simp add: change_def untouched_def)
  have "vbyte (pages k') c a = vbyte (pages k) d a \<and> vflags (pages k') c a = vflags (pages k) d a"
    if ok "a < page_up sz" "a < 0x80000000" for a
    using ok that other [OF assms(2,4) that(3)] range [of a] by (simp add: copied_def)
  then show ?thesis using r inv ok other by blast
qed

theorem copyuvm_copies_witness:
  "\<exists>k d c ok k' ps. vm_inv 0x80100000 k {d, c} {} ps \<and> copyuvm_loop d c 0 4096 k = Inr (ok, k') \<and>
     vbyte (pages k') d 9 = Some 0 \<and> (if ok then vbyte (pages k') c 9 = Some 0 else True)"
proof -
  obtain k d c ps where k: "vm_inv 0x80100000 k {d, c} {} ps" "d \<noteq> c" "\<forall>q < 0x100000. entry (pages k) c q = 0"
    "\<forall>a < 4096. vbyte (pages k) d a = Some 0 \<and> vflags (pages k) d a = PTE_P OR PTE_W OR PTE_U"
    using two_spaces_exist by blast
  have cl: "cleared c (page_range 0 (unat (4096 :: uint))) (pages k)" using k(3) by (simp add: cleared_def)
  have "vbyte (pages k) d 0 = Some 0" using k(4) by simp
  then have p0: "entry (pages k) d 0 AND PTE_P \<noteq> 0" by (auto simp: vbyte_def Let_def split: if_splits)
  have pr: "entry (pages k) d p AND PTE_P \<noteq> 0" if "page_range 0 (unat (4096 :: uint)) p" for p
    using p0 that by (auto simp: page_range_def)
  have up: "page_up 4096 = 4096" by (simp add: page_up_def PGROUNDUP_def PGSIZE_def)
  have "\<exists>ok k'. copyuvm_loop d c 0 (unat (4096 :: uint)) k = Inr (ok, k') \<and>
    (\<exists>H ps'. vm_inv 0x80100000 k' {d, c} H ps' \<and> (ok \<longrightarrow> H = {})) \<and>
    (\<forall>e \<in> {d, c} - {c}. \<forall>a < 0x80000000. vbyte (pages k') e a = vbyte (pages k) e a) \<and>
    (ok \<longrightarrow> (\<forall>a < page_up 4096. a < 0x80000000 \<longrightarrow> vbyte (pages k') c a = vbyte (pages k) d a \<and>
       vflags (pages k') c a = vflags (pages k) d a))"
    by (rule copyuvm_copies [OF k(1) _ _ k(2) _ cl pr]) (simp_all add: KERNBASE_def)
  then obtain ok k' where r: "copyuvm_loop d c 0 (unat (4096 :: uint)) k = Inr (ok, k')"
    and v: "\<forall>e \<in> {d, c} - {c}. \<forall>a < 0x80000000. vbyte (pages k') e a = vbyte (pages k) e a"
    and w: "ok \<longrightarrow> (\<forall>a < page_up 4096. a < 0x80000000 \<longrightarrow> vbyte (pages k') c a = vbyte (pages k) d a)" by blast
  have "vbyte (pages k') d 9 = Some 0" using v k(2,4) by simp
  moreover have "ok \<longrightarrow> vbyte (pages k') c 9 = Some 0" using w k(4) up by simp
  ultimately show ?thesis using r k(1) by (intro exI [of _ k] exI [of _ d] exI [of _ c] exI [of _ ok] exI [of _ k'] exI [of _ ps]) auto
qed

text \<open>
  C10. \<open>copyout\<close> to pages the process may use stores the bytes at the given user address,
  across page borders, and changes nothing else of this or of another process.
\<close>

theorem copyout_writes:
  assumes "vm_inv kend k D {} ps" and "d \<in> D" and "unat va + length buf \<le> 0x80000000"
    and "user_range (pages k) d (unat va) (unat va + length buf)"
  shows "\<exists>k'. copyout d va buf k = Inr (0, k') \<and> vm_inv kend k' D {} ps \<and>
    (\<forall>e \<in> D. \<forall>b < 0x80000000. vbyte (pages k') e b =
       (if e = d \<and> unat va \<le> b \<and> b < unat va + length buf then Some (buf ! (b - unat va)) else vbyte (pages k) e b))"
  using copyout_ok [OF assms] unfolding written_def by blast

theorem copyout_writes_witness:
  "\<exists>k d c k'. copyout d 100 [3, 1, 4] k = Inr (0, k') \<and> vbyte (pages k') d 102 = Some 4 \<and> vbyte (pages k') d 103 = Some 0 \<and>
     vbyte (pages k') c 102 = vbyte (pages k) c 102 \<and> d \<noteq> c"
proof -
  obtain k d c ps where k: "vm_inv 0x80100000 k {d, c} {} ps" "d \<noteq> c"
    "\<forall>a < 4096. vbyte (pages k) d a = Some 0 \<and> vflags (pages k) d a = PTE_P OR PTE_W OR PTE_U"
    using two_spaces_exist by blast
  have fl: "PTE_FLAGS (entry (pages k) d 0) = PTE_P OR PTE_W OR PTE_U" and "vbyte (pages k) d 0 = Some 0"
    using k(3) by (force simp: vflags_def)+
  then have P: "entry (pages k) d 0 AND PTE_P \<noteq> 0" by (auto simp: vbyte_def Let_def split: if_splits)
  have "PTE_FLAGS (entry (pages k) d 0) AND PTE_U = PTE_U" unfolding fl by (simp add: PTE_P_def PTE_W_def PTE_U_def)
  then have U: "entry (pages k) d 0 AND PTE_U \<noteq> 0"
    by (auto simp: PTE_FLAGS_def and.assoc PTE_U_def)
  have pages0: "b div 4096 = 0" if "100 \<le> b \<and> b < 103" for b :: nat using that by simp
  have "user_range (pages k) d (unat (100 :: uint)) (unat (100 :: uint) + length [3, 1, 4 :: byte])"
    unfolding user_range_def using P U pages0 by simp
  then obtain k' where "copyout d 100 [3, 1, 4] k = Inr (0, k')"
    "\<forall>e \<in> {d, c}. \<forall>b < 0x80000000. vbyte (pages k') e b = (if e = d \<and> unat (100 :: uint) \<le> b \<and> b < unat (100 :: uint) + length [3, 1, 4 :: byte]
       then Some ([3, 1, 4] ! (b - unat (100 :: uint))) else vbyte (pages k) e b)"
    using copyout_writes [OF k(1), of d 100 "[3, 1, 4]"] by auto
  note r = this
  have "vbyte (pages k') d 102 = Some 4" "vbyte (pages k') d 103 = Some 0"
    using bspec [OF r(2), of d, THEN spec, of 102] bspec [OF r(2), of d, THEN spec, of 103] k(3) by simp_all
  moreover have "vbyte (pages k') c 102 = vbyte (pages k) c 102"
    using bspec [OF r(2), of c, THEN spec, of 102] k(2) by simp
  ultimately show ?thesis using r(1) k(2) by blast
qed

end
