(* ===== verification/Fs.thy ===== *)
theory Fs
  imports Log
begin

text \<open>
  The file system (\<open>fs.c\<close>, \<open>fs.h\<close>, \<open>file.h\<close>): the free map, inodes and the inode cache,
  the contents of files, directories and paths. The state is what one process sees
  between its calls of \<open>begin_op\<close> and \<open>end_op\<close>: the block contents through the buffer
  cache and the log (theory Log), the super block and the inode cache. Pointers to
  cached inodes are indices. Only the device \<open>ROOTDEV\<close> has a file system. A sleep lock
  that is taken is held by the process itself, so waiting for it is \<open>Stuck\<close>.
\<close>

section \<open>Types (fs.h, file.h, stat.h, param.h)\<close>

definition NDIRECT :: nat where "NDIRECT = 12"
definition NINDIRECT :: nat where "NINDIRECT = 128"
definition MAXFILE :: nat where "MAXFILE = NDIRECT + NINDIRECT"
definition DIRSIZ :: nat where "DIRSIZ = 14"
definition IPB :: uint where "IPB = 8"
definition BPB :: uint where "BPB = 4096"
definition NINODE :: nat where "NINODE = 50"
definition NDEV :: nat where "NDEV = 10"
definition ROOTDEV :: uint where "ROOTDEV = 1"
definition ROOTINO :: uint where "ROOTINO = 1"
definition T_DIR :: "16 word" where "T_DIR = 1"
definition T_FILE :: "16 word" where "T_FILE = 2"
definition T_DEV :: "16 word" where "T_DEV = 3"

record superblock =
  sb_size :: uint
  sb_nblocks :: uint
  sb_ninodes :: uint
  sb_nlog :: uint
  sb_logstart :: uint
  sb_inodestart :: uint
  sb_bmapstart :: uint

record inode =
  i_dev :: uint
  i_inum :: uint
  i_ref :: int
  i_lock :: sleeplock
  i_valid :: bool
  i_type :: "16 word"
  i_major :: "16 word"
  i_minor :: "16 word"
  i_nlink :: "16 word"
  i_size :: uint
  i_addrs :: "uint list"

record stat =
  st_type :: "16 word"
  st_dev :: uint
  st_ino :: uint
  st_nlink :: "16 word"
  st_size :: uint

record fs =
  fs_log :: log
  fs_store :: store
  fs_sb :: superblock
  icache :: "inode list"

text \<open>The device switch: the read and write functions of each major number.\<close>

type_synonym devsw = "(nat \<Rightarrow> (uint \<Rightarrow> int \<times> byte list) option) \<times> (nat \<Rightarrow> (byte list \<Rightarrow> int) option)"

definition IBLOCK :: "uint \<Rightarrow> superblock \<Rightarrow> uint" where
  "IBLOCK i sb = i div IPB + sb_inodestart sb"

definition BBLOCK :: "uint \<Rightarrow> superblock \<Rightarrow> uint" where
  "BBLOCK b sb = b div BPB + sb_bmapstart sb"

text \<open>A block's contents, and \<open>log_write\<close> of a block with new contents.\<close>

definition data_of :: "uint \<Rightarrow> fs \<Rightarrow> block" where
  "data_of b s = blk (fs_store s) b"

definition put_data :: "uint \<Rightarrow> block \<Rightarrow> fs \<Rightarrow> fs res" where
  "put_data b d s = mapE (\<lambda>(lg, st). s\<lparr>fs_log := lg, fs_store := st\<rparr>) (log_write b d (fs_log s, fs_store s))"

definition inode_at :: "nat \<Rightarrow> fs \<Rightarrow> inode" where
  "inode_at i s = icache s ! i"

definition set_inode :: "nat \<Rightarrow> (inode \<Rightarrow> inode) \<Rightarrow> fs \<Rightarrow> fs" where
  "set_inode i f s = s\<lparr>icache := (icache s)[i := f (icache s ! i)]\<rparr>"

section \<open>Blocks\<close>

definition readsb :: "fs \<Rightarrow> superblock" where
  "readsb s = (let d = data_of 1 s in
     \<lparr>sb_size = get32 0 d, sb_nblocks = get32 4 d, sb_ninodes = get32 8 d, sb_nlog = get32 12 d,
      sb_logstart = get32 16 d, sb_inodestart = get32 20 d, sb_bmapstart = get32 24 d\<rparr>)"

definition bzero :: "uint \<Rightarrow> fs \<Rightarrow> fs res" where
  "bzero bno s = put_data bno (replicate BSIZE 0) s"

definition bit_set :: "block \<Rightarrow> nat \<Rightarrow> bool" where
  "bit_set d bi \<longleftrightarrow> d ! (bi div 8) AND push_bit (bi mod 8) 1 \<noteq> 0"

definition mark_bit :: "block \<Rightarrow> nat \<Rightarrow> block" where
  "mark_bit d bi = d[bi div 8 := d ! (bi div 8) OR push_bit (bi mod 8) 1]"

definition clear_bit :: "block \<Rightarrow> nat \<Rightarrow> block" where
  "clear_bit d bi = d[bi div 8 := d ! (bi div 8) AND NOT (push_bit (bi mod 8) 1)]"

text \<open>The inner loop of \<open>balloc\<close>: the first free bit of the map's block for \<open>b\<close>.\<close>

definition free_bit :: "nat \<Rightarrow> fs \<Rightarrow> nat option" where
  "free_bit b s = List.find (\<lambda>bi. \<not> bit_set (data_of (BBLOCK (of_nat b) (fs_sb s)) s) bi)
     [0..<min (unat BPB) (unat (sb_size (fs_sb s)) - b)]"

text \<open>Block numbers are below the size of the disk; \<open>b + BPB\<close> does not wrap.\<close>

function balloc_loop :: "nat \<Rightarrow> fs \<Rightarrow> (uint \<times> fs) res" where
  "balloc_loop b s =
     (if b < unat (sb_size (fs_sb s)) then
        (case free_bit b s of
           Some bi \<Rightarrow>
             let bb = BBLOCK (of_nat b) (fs_sb s) in
             bindE (put_data bb (mark_bit (data_of bb s) bi) s) (\<lambda>s.
               mapE (\<lambda>s. (of_nat (b + bi), s)) (bzero (of_nat (b + bi)) s))
         | None \<Rightarrow> balloc_loop (b + 4096) s)
      else Inl (Panic ''balloc: out of blocks''))"
  by pat_completeness auto
termination by (relation "measure (\<lambda>(b, s). unat (sb_size (fs_sb s)) - b)") auto

declare balloc_loop.simps [simp del]

definition balloc :: "fs \<Rightarrow> (uint \<times> fs) res" where
  "balloc s = balloc_loop 0 s"

definition bfree :: "uint \<Rightarrow> fs \<Rightarrow> fs res" where
  "bfree b s =
     (let s = s\<lparr>fs_sb := readsb s\<rparr>;
          bb = BBLOCK b (fs_sb s);
          bi = unat (b mod BPB)
      in if \<not> bit_set (data_of bb s) bi then Inl (Panic ''freeing free block'')
         else put_data bb (clear_bit (data_of bb s) bi) s)"

section \<open>Inodes\<close>

definition iinit :: "fs \<Rightarrow> fs" where
  "iinit s = s\<lparr>icache := map (\<lambda>ip. ip\<lparr>i_lock := initsleeplock (i_lock ip)\<rparr>) (icache s), fs_sb := readsb s\<rparr>"

definition iget :: "uint \<Rightarrow> uint \<Rightarrow> fs \<Rightarrow> (nat \<times> fs) res" where
  "iget dev inum s =
     (case scan (\<lambda>ip. i_ref ip > 0 \<and> i_dev ip = dev \<and> i_inum ip = inum) (icache s) of
        Some i \<Rightarrow> Inr (i, set_inode i (\<lambda>ip. ip\<lparr>i_ref := i_ref ip + 1\<rparr>) s)
      | None \<Rightarrow>
          (case scan (\<lambda>ip. i_ref ip = 0) (icache s) of
             None \<Rightarrow> Inl (Panic ''iget: no inodes'')
           | Some i \<Rightarrow> Inr (i, set_inode i (\<lambda>ip. ip\<lparr>i_dev := dev, i_inum := inum, i_ref := 1, i_valid := False\<rparr>) s)))"

definition idup :: "nat \<Rightarrow> fs \<Rightarrow> nat \<times> fs" where
  "idup i s = (i, set_inode i (\<lambda>ip. ip\<lparr>i_ref := i_ref ip + 1\<rparr>) s)"

text \<open>The place of an inode in its block, and the fields of a \<open>struct dinode\<close> there.\<close>

definition dip :: "uint \<Rightarrow> nat" where
  "dip inum = 64 * unat (inum mod IPB)"

fun put_words :: "nat \<Rightarrow> uint list \<Rightarrow> block \<Rightarrow> block" where
  "put_words k [] d = d"
| "put_words k (w # ws) d = put_words (k + 4) ws (put32 k w d)"

definition put_dinode :: "nat \<Rightarrow> inode \<Rightarrow> block \<Rightarrow> block" where
  "put_dinode k ip d =
     put_words (k + 12) (i_addrs ip) (put32 (k + 8) (i_size ip) (put16 (k + 6) (i_nlink ip)
       (put16 (k + 4) (i_minor ip) (put16 (k + 2) (i_major ip) (put16 k (i_type ip) d)))))"

definition get_dinode :: "nat \<Rightarrow> block \<Rightarrow> inode \<Rightarrow> inode" where
  "get_dinode k d ip = ip\<lparr>i_type := get16 k d, i_major := get16 (k + 2) d, i_minor := get16 (k + 4) d,
     i_nlink := get16 (k + 6) d, i_size := get32 (k + 8) d,
     i_addrs := map (\<lambda>j. get32 (k + 12 + 4 * j) d) [0..<Suc NDIRECT]\<rparr>"

fun ialloc_loop :: "uint \<Rightarrow> 16 word \<Rightarrow> nat list \<Rightarrow> fs \<Rightarrow> (nat \<times> fs) res" where
  "ialloc_loop dev ty [] s = Inl (Panic ''ialloc: no inodes'')"
| "ialloc_loop dev ty (n # ns) s =
     (let inum = of_nat n; b = IBLOCK inum (fs_sb s); d = data_of b s; k = dip inum in
      if get16 k d = 0 then
        let d = take k d @ replicate 64 0 @ drop (k + 64) d in
        bindE (put_data b (put16 k ty d) s) (iget dev inum)
      else ialloc_loop dev ty ns s)"

definition ialloc :: "uint \<Rightarrow> 16 word \<Rightarrow> fs \<Rightarrow> (nat \<times> fs) res" where
  "ialloc dev ty s = ialloc_loop dev ty [1..<unat (sb_ninodes (fs_sb s))] s"

definition iupdate :: "nat \<Rightarrow> fs \<Rightarrow> fs res" where
  "iupdate i s =
     (let ip = inode_at i s; b = IBLOCK (i_inum ip) (fs_sb s)
      in put_data b (put_dinode (dip (i_inum ip)) ip (data_of b s)) s)"

definition ilock :: "uint \<Rightarrow> nat \<Rightarrow> fs \<Rightarrow> fs res" where
  "ilock pid i s =
     (let ip = inode_at i s in
      if i_ref ip < 1 then Inl (Panic ''ilock'')
      else if sl_locked (i_lock ip) then Inl Stuck
      else
        let s = set_inode i (\<lambda>ip. ip\<lparr>i_lock := \<lparr>sl_locked = True, sl_pid = pid\<rparr>\<rparr>) s in
        if \<not> i_valid ip then
          let d = data_of (IBLOCK (i_inum ip) (fs_sb s)) s;
              s = set_inode i (\<lambda>ip. (get_dinode (dip (i_inum ip)) d ip)\<lparr>i_valid := True\<rparr>) s
          in if i_type (inode_at i s) = 0 then Inl (Panic ''ilock: no type'') else Inr s
        else Inr s)"

definition unlock_inode :: "inode \<Rightarrow> inode" where
  "unlock_inode ip = ip\<lparr>i_lock := \<lparr>sl_locked = False, sl_pid = 0\<rparr>\<rparr>"

definition iunlock :: "nat \<Rightarrow> fs \<Rightarrow> fs res" where
  "iunlock i s =
     (if \<not> holdingsleep (i_lock (inode_at i s)) \<or> i_ref (inode_at i s) < 1 then Inl (Panic ''iunlock'')
      else Inr (set_inode i unlock_inode s))"

fun free_blocks :: "uint list \<Rightarrow> fs \<Rightarrow> fs res" where
  "free_blocks [] s = Inr s"
| "free_blocks (b # bs) s = bindE (if b \<noteq> 0 then bfree b s else Inr s) (free_blocks bs)"

fun trunc_direct :: "nat \<Rightarrow> nat list \<Rightarrow> fs \<Rightarrow> fs res" where
  "trunc_direct i [] s = Inr s"
| "trunc_direct i (j # js) s =
     (let a = i_addrs (inode_at i s) ! j in
      if a \<noteq> 0 then
        bindE (bfree a s) (\<lambda>s. trunc_direct i js (set_inode i (\<lambda>ip. ip\<lparr>i_addrs := (i_addrs ip)[j := 0]\<rparr>) s))
      else trunc_direct i js s)"

definition itrunc :: "nat \<Rightarrow> fs \<Rightarrow> fs res" where
  "itrunc i s =
     bindE (trunc_direct i [0..<NDIRECT] s) (\<lambda>s.
       let a = i_addrs (inode_at i s) ! NDIRECT in
       bindE (if a \<noteq> 0 then
           bindE (free_blocks (map (\<lambda>j. get32 (4 * j) (data_of a s)) [0..<NINDIRECT]) s) (\<lambda>s.
             mapE (set_inode i (\<lambda>ip. ip\<lparr>i_addrs := (i_addrs ip)[NDIRECT := 0]\<rparr>)) (bfree a s))
         else Inr s) (\<lambda>s.
       iupdate i (set_inode i (\<lambda>ip. ip\<lparr>i_size := 0\<rparr>) s)))"

definition iput :: "nat \<Rightarrow> fs \<Rightarrow> fs res" where
  "iput i s =
     (let ip = inode_at i s in
      if sl_locked (i_lock ip) then Inl Stuck
      else bindE (if i_valid ip \<and> i_nlink ip = 0 \<and> i_ref ip = 1 then
             bindE (itrunc i s) (\<lambda>s.
             bindE (iupdate i (set_inode i (\<lambda>ip. ip\<lparr>i_type := 0\<rparr>) s)) (\<lambda>s.
             Inr (set_inode i (\<lambda>ip. ip\<lparr>i_valid := False\<rparr>) s)))
           else Inr s) (\<lambda>s.
         Inr (set_inode i (\<lambda>ip. (unlock_inode ip)\<lparr>i_ref := i_ref ip - 1\<rparr>) s)))"

definition iunlockput :: "nat \<Rightarrow> fs \<Rightarrow> fs res" where
  "iunlockput i s = bindE (iunlock i s) (iput i)"

end
