(* ===== verification/Files.thy ===== *)
theory Files
  imports Fs Cstring
begin

text \<open>
  The contents of inodes, directories and path names (\<open>fs.c\<close>, second half). Data are read
  into and written from byte lists; strings are byte lists that include the final 0, and
  the buffer \<open>name\<close> of a path element is a list of \<open>DIRSIZ\<close> bytes.
\<close>

section \<open>Inode content\<close>

text \<open>Setting entry \<open>j\<close> of \<open>ip->addrs\<close>.\<close>

definition set_addr :: "nat \<Rightarrow> nat \<Rightarrow> uint \<Rightarrow> fs \<Rightarrow> fs" where
  "set_addr i j a = set_inode i (\<lambda>ip. ip\<lparr>i_addrs := (i_addrs ip)[j := a]\<rparr>)"

text \<open>The block in entry \<open>j\<close>, allocated if there is none.\<close>

definition addr_alloc :: "nat \<Rightarrow> nat \<Rightarrow> fs \<Rightarrow> (uint \<times> fs) res" where
  "addr_alloc i j s =
     (let a = i_addrs (inode_at i s) ! j in
      if a = 0 then mapE (\<lambda>(a, s). (a, set_addr i j a s)) (balloc s) else Inr (a, s))"

definition bmap :: "nat \<Rightarrow> uint \<Rightarrow> fs \<Rightarrow> (uint \<times> fs) res" where
  "bmap i bn s =
     (if unat bn < NDIRECT then addr_alloc i (unat bn) s
      else
        let bn = unat bn - NDIRECT in
        if bn < NINDIRECT then
          bindE (addr_alloc i NDIRECT s) (\<lambda>(ind, s).
            let a = get32 (4 * bn) (data_of ind s) in
            if a = 0 then
              bindE (balloc s) (\<lambda>(a, s).
                mapE (\<lambda>s. (a, s)) (put_data ind (put32 (4 * bn) a (data_of ind s)) s))
            else Inr (a, s))
        else Inl (Panic ''bmap: out of range''))"

definition stati :: "nat \<Rightarrow> fs \<Rightarrow> stat" where
  "stati i s = (let ip = inode_at i s in
     \<lparr>st_type = i_type ip, st_dev = i_dev ip, st_ino = i_inum ip, st_nlink = i_nlink ip, st_size = i_size ip\<rparr>)"

text \<open>Every round copies at least one byte.\<close>

lemma off_in_block: "unat ((off :: uint) mod 512) < 512"
  by (simp add: unat_mod)

function readi_loop :: "nat \<Rightarrow> uint \<Rightarrow> nat \<Rightarrow> fs \<Rightarrow> (byte list \<times> fs) res" where
  "readi_loop i off n s =
     (if n = 0 then Inr ([], s)
      else bindE (bmap i (off div 512) s) (\<lambda>(b, s).
        let k = unat (off mod 512); m = min n (BSIZE - k); bs = take m (drop k (data_of b s))
        in mapE (\<lambda>(rest, s). (bs @ rest, s)) (readi_loop i (off + of_nat m) (n - m) s)))"
  by pat_completeness auto

termination
  by (relation "measure (\<lambda>(i, off, n, s). n)") (use off_in_block in \<open>auto simp: BSIZE_def\<close>)

declare readi_loop.simps [simp del]

definition readi :: "devsw \<Rightarrow> nat \<Rightarrow> uint \<Rightarrow> uint \<Rightarrow> fs \<Rightarrow> (int \<times> byte list \<times> fs) res" where
  "readi dv i off n s =
     (let ip = inode_at i s in
      if i_type ip = T_DEV then
        if sint (i_major ip) < 0 \<or> sint (i_major ip) \<ge> int NDEV then Inr (-1, [], s)
        else (case fst dv (nat (sint (i_major ip))) of
            None \<Rightarrow> Inr (-1, [], s)
          | Some rd \<Rightarrow> let (r, bs) = rd n in Inr (r, bs, s))
      else if off > i_size ip \<or> off + n < off then Inr (-1, [], s)
      else let n = (if off + n > i_size ip then i_size ip - off else n)
           in mapE (\<lambda>(bs, s). (sint n, bs, s)) (readi_loop i off (unat n) s))"

function writei_loop :: "nat \<Rightarrow> byte list \<Rightarrow> uint \<Rightarrow> fs \<Rightarrow> (uint \<times> fs) res" where
  "writei_loop i src off s =
     (if src = [] then Inr (off, s)
      else bindE (bmap i (off div 512) s) (\<lambda>(b, s).
        let k = unat (off mod 512); m = min (length src) (BSIZE - k); d = data_of b s
        in bindE (put_data b (take k d @ take m src @ drop (k + m) d) s)
             (writei_loop i (drop m src) (off + of_nat m))))"
  by pat_completeness auto
termination
  by (relation "measure (\<lambda>(i, src, off, s). length src)") (use off_in_block in \<open>auto simp: BSIZE_def\<close>)

declare writei_loop.simps [simp del]

text \<open>\<open>n\<close> bytes are written from \<open>src\<close>, which has at least that many.\<close>

definition writei :: "devsw \<Rightarrow> nat \<Rightarrow> byte list \<Rightarrow> uint \<Rightarrow> uint \<Rightarrow> fs \<Rightarrow> (int \<times> fs) res" where
  "writei dv i src off n s =
     (let ip = inode_at i s in
      if i_type ip = T_DEV then
        if sint (i_major ip) < 0 \<or> sint (i_major ip) \<ge> int NDEV then Inr (-1, s)
        else (case snd dv (nat (sint (i_major ip))) of
            None \<Rightarrow> Inr (-1, s)
          | Some w \<Rightarrow> Inr (w (take (unat n) src), s))
      else if off > i_size ip \<or> off + n < off then Inr (-1, s)
      else if unat (off + n) > MAXFILE * BSIZE then Inr (-1, s)
      else bindE (writei_loop i (take (unat n) src) off s) (\<lambda>(off, s).
        if n > 0 \<and> off > i_size (inode_at i s) then
          mapE (\<lambda>s. (sint n, s)) (iupdate i (set_inode i (\<lambda>ip. ip\<lparr>i_size := off\<rparr>) s))
        else Inr (sint n, s)))"

section \<open>Directories\<close>

definition namecmp :: "byte list \<Rightarrow> byte list \<Rightarrow> int res" where
  "namecmp s t = strncmp s t DIRSIZ"

text \<open>
  The loop of \<open>dirlookup\<close>. The directory is locked, so \<open>dp->size\<close> is the number \<open>sz\<close> all
  the time; files are smaller than \<open>2 ^ 32 - 16\<close> bytes and the offset does not wrap.
\<close>

function dirlookup_loop :: "devsw \<Rightarrow> nat \<Rightarrow> byte list \<Rightarrow> nat \<Rightarrow> nat \<Rightarrow> fs \<Rightarrow> ((nat \<times> uint) option \<times> fs) res" where
  "dirlookup_loop dv i name off sz s =
     (if off < sz then
        bindE (readi dv i (of_nat off) 16 s) (\<lambda>(r, de, s).
          if r \<noteq> 16 then Inl (Panic ''dirlookup read'')
          else if get16 0 de = 0 then dirlookup_loop dv i name (off + 16) sz s
          else bindE (namecmp name (drop 2 de)) (\<lambda>c.
            if c = 0 then mapE (\<lambda>(j, s). (Some (j, of_nat off), s)) (iget (i_dev (inode_at i s)) (ucast (get16 0 de)) s)
            else dirlookup_loop dv i name (off + 16) sz s))
      else Inr (None, s))"
  by pat_completeness auto
termination by (relation "measure (\<lambda>(dv, i, name, off, sz, s). sz - off)") auto

declare dirlookup_loop.simps [simp del]

text \<open>The result is the inode and the offset of its entry.\<close>

definition dirlookup :: "devsw \<Rightarrow> nat \<Rightarrow> byte list \<Rightarrow> fs \<Rightarrow> ((nat \<times> uint) option \<times> fs) res" where
  "dirlookup dv i name s =
     (if i_type (inode_at i s) \<noteq> T_DIR then Inl (Panic ''dirlookup not DIR'')
      else dirlookup_loop dv i name 0 (unat (i_size (inode_at i s))) s)"

text \<open>The offset of the first empty entry, else the end of the directory.\<close>

function empty_entry :: "devsw \<Rightarrow> nat \<Rightarrow> nat \<Rightarrow> nat \<Rightarrow> fs \<Rightarrow> (nat \<times> fs) res" where
  "empty_entry dv i off sz s =
     (if off < sz then
        bindE (readi dv i (of_nat off) 16 s) (\<lambda>(r, de, s).
          if r \<noteq> 16 then Inl (Panic ''dirlink read'')
          else if get16 0 de = 0 then Inr (off, s)
          else empty_entry dv i (off + 16) sz s)
      else Inr (off, s))"
  by pat_completeness auto
termination by (relation "measure (\<lambda>(dv, i, off, sz, s). sz - off)") auto

declare empty_entry.simps [simp del]

definition dirlink :: "devsw \<Rightarrow> nat \<Rightarrow> byte list \<Rightarrow> uint \<Rightarrow> fs \<Rightarrow> (int \<times> fs) res" where
  "dirlink dv i name inum s =
     bindE (dirlookup dv i name s) (\<lambda>(found, s).
       case found of
         Some (j, _) \<Rightarrow> mapE (\<lambda>s. (-1, s)) (iput j s)
       | None \<Rightarrow>
           bindE (empty_entry dv i 0 (unat (i_size (inode_at i s))) s) (\<lambda>(off, s).
           bindE (strncpy (replicate DIRSIZ 0) name (int DIRSIZ)) (\<lambda>nm.
           bindE (writei dv i (le16 (ucast inum) @ nm) (of_nat off) 16 s) (\<lambda>(r, s).
             if r \<noteq> 16 then Inl (Panic ''dirlink'') else Inr (0, s)))))"

section \<open>Paths\<close>

abbreviation slash :: byte where "slash \<equiv> 47"

text \<open>The two scans of \<open>skipelem\<close>: over slashes, and over a path element.\<close>

definition skip_slashes :: "byte list \<Rightarrow> byte list" where
  "skip_slashes path = dropWhile (\<lambda>c. c = slash) path"

definition skip_name :: "byte list \<Rightarrow> byte list" where
  "skip_name path = dropWhile (\<lambda>c. c \<noteq> slash \<and> c \<noteq> 0) path"

text \<open>
  \<open>skipelem\<close> returns the rest of the path, if there is an element, and the new contents of
  the buffer \<open>name\<close>.
\<close>

definition skipelem :: "byte list \<Rightarrow> byte list \<Rightarrow> (byte list option \<times> byte list) res" where
  "skipelem path name =
     (case skip_slashes path of
        [] \<Rightarrow> Inl BadAccess
      | c # q \<Rightarrow>
          if c = 0 then Inr (None, name)
          else
            let rest = skip_name (c # q); len = length (c # q) - length rest;
                name = (if len \<ge> DIRSIZ then take DIRSIZ (c # q)
                        else take len (c # q) @ 0 # drop (len + 1) name)
            in if rest = [] then Inl BadAccess else Inr (Some (skip_slashes rest), name))"

lemma skip_shorter: "length (skip_slashes p) \<le> length p" "length (skip_name p) \<le> length p"
  by (simp_all add: skip_slashes_def skip_name_def length_dropWhile_le)

lemma skipelem_SomeD:
  assumes "skipelem path name = Inr (Some path', name')"
  shows "\<exists>c q. skip_slashes path = c # q \<and> c \<noteq> 0 \<and> c \<noteq> slash \<and> path' = skip_slashes (skip_name (c # q))"
proof (cases "skip_slashes path")
  case Nil
  then show ?thesis using assms by (simp add: skipelem_def)
next
  case (Cons c q)
  then have "c \<noteq> slash" using hd_dropWhile [of "\<lambda>c. c = slash" path] by (auto simp: skip_slashes_def)
  then show ?thesis using assms Cons by (auto simp: skipelem_def Let_def split: if_split_asm)
qed

lemma skipelem_shorter: "skipelem path name = Inr (Some path', name') \<Longrightarrow> length path' < length path"
proof -
  assume "skipelem path name = Inr (Some path', name')"
  then obtain c q where p: "skip_slashes path = c # q" "c \<noteq> 0" "c \<noteq> slash"
    and path': "path' = skip_slashes (skip_name (c # q))"
    by (blast dest: skipelem_SomeD)
  have "path' = skip_slashes (skip_name q)" using p by (simp add: path' skip_name_def)
  then have "length path' \<le> length q" using skip_shorter le_trans by metis
  also have "length q < length path" using skip_shorter(1) [of path] p(1) by simp
  finally show ?thesis .
qed

text \<open>The loop of \<open>namex\<close>; \<open>nip\<close> is the argument \<open>nameiparent\<close>.\<close>

function namex_loop :: "devsw \<Rightarrow> uint \<Rightarrow> nat \<Rightarrow> byte list \<Rightarrow> bool \<Rightarrow> byte list \<Rightarrow> fs \<Rightarrow> (nat option \<times> byte list \<times> fs) res" where
  "namex_loop dv pid i path nip name s =
     bindE (skipelem path name) (\<lambda>(r, name).
       case r of
         None \<Rightarrow> if nip then mapE (\<lambda>s. (None, name, s)) (iput i s) else Inr (Some i, name, s)
       | Some path \<Rightarrow>
           bindE (ilock pid i s) (\<lambda>s.
             if i_type (inode_at i s) \<noteq> T_DIR then mapE (\<lambda>s. (None, name, s)) (iunlockput i s)
             else if nip \<and> hd path = 0 then mapE (\<lambda>s. (Some i, name, s)) (iunlock i s)
             else bindE (dirlookup dv i name s) (\<lambda>(found, s).
               case found of
                 None \<Rightarrow> mapE (\<lambda>s. (None, name, s)) (iunlockput i s)
               | Some (j, _) \<Rightarrow> bindE (iunlockput i s) (namex_loop dv pid j path nip name))))"
  by pat_completeness auto
termination
  by (relation "measure (\<lambda>(dv, pid, i, path, nip, name, s). length path)") (auto dest: skipelem_shorter)

declare namex_loop.simps [simp del]

definition namex :: "devsw \<Rightarrow> uint \<Rightarrow> nat \<Rightarrow> byte list \<Rightarrow> bool \<Rightarrow> byte list \<Rightarrow> fs \<Rightarrow> (nat option \<times> byte list \<times> fs) res" where
  "namex dv pid cwd path nip name s =
     (case path of
        [] \<Rightarrow> Inl BadAccess
      | c # _ \<Rightarrow> bindE (if c = slash then iget ROOTDEV ROOTINO s else Inr (idup cwd s)) (\<lambda>(i, s).
          namex_loop dv pid i path nip name s))"

definition namei :: "devsw \<Rightarrow> uint \<Rightarrow> nat \<Rightarrow> byte list \<Rightarrow> fs \<Rightarrow> (nat option \<times> fs) res" where
  "namei dv pid cwd path s =
     mapE (\<lambda>(r, _, s). (r, s)) (namex dv pid cwd path False (replicate DIRSIZ 0) s)"

definition nameiparent :: "devsw \<Rightarrow> uint \<Rightarrow> nat \<Rightarrow> byte list \<Rightarrow> byte list \<Rightarrow> fs \<Rightarrow> (nat option \<times> byte list \<times> fs) res" where
  "nameiparent dv pid cwd path name s = namex dv pid cwd path True name s"

end
