(* ===== verification/Fs_Content.thy ===== *)
theory Fs_Content
  imports Files
begin

text \<open>
  What the file system keeps in its blocks: the free map, and the contents of one file as
  a function from positions to bytes. Allocation of a block takes a free block, marks it
  and zeroes it; \<open>bmap\<close> leaves every byte of the file as it was; \<open>writei\<close> changes exactly
  the bytes it is given, and \<open>readi\<close> delivers the bytes of the file.
\<close>

section \<open>Writing a block\<close>

lemma data_of_set_inode [simp]: "data_of b (set_inode i f s) = data_of b s"
  by (simp add: data_of_def set_inode_def)

lemma set_inode_fields [simp]:
  "fs_sb (set_inode i f s) = fs_sb s" "fs_log (set_inode i f s) = fs_log s" "fs_store (set_inode i f s) = fs_store s"
  "length (icache (set_inode i f s)) = length (icache s)"
  by (simp_all add: set_inode_def)

lemma inode_at_set [simp]:
  "i < length (icache s) \<Longrightarrow> inode_at i (set_inode i f s) = f (inode_at i s)"
  "j \<noteq> i \<Longrightarrow> inode_at j (set_inode i f s) = inode_at j s"
  by (simp_all add: inode_at_def set_inode_def)

lemma put_data_Inr:
  assumes "put_data b d s = Inr t"
  shows "fs_sb t = fs_sb s" "icache t = icache s" "data_of c t = (if c = b then d else data_of c s)"
    "outstanding (fs_log t) = outstanding (fs_log s)" "inode_at i t = inode_at i s"
  using assms by (auto simp: put_data_def log_write_def data_of_def blk_def inode_at_def split: if_splits option.split)

lemma put_data_Inl:
  "put_data b d s = Inl e \<Longrightarrow> 1 \<le> outstanding (fs_log s) \<Longrightarrow> e = Panic ''too big a transaction''"
  by (auto simp: put_data_def log_write_def split: if_splits)

section \<open>The free map\<close>

lemma bit_set_iff: "bit_set d n \<longleftrightarrow> bit (d ! (n div 8)) (n mod 8)"
proof -
  have "push_bit (n mod 8) 1 = (2 ^ (n mod 8) :: byte)" by (simp add: push_bit_eq_mult)
  then show ?thesis by (simp add: bit_set_def and_exp_eq_0_iff_not_bit)
qed

lemma bit_set_mark:
  assumes "m < 4096" "n < 4096" and "length d = BSIZE"
  shows "bit_set (mark_bit d m) n \<longleftrightarrow> n = m \<or> bit_set d n"
proof -
  have l: "m div 8 < length d" using assms by (simp add: BSIZE_def less_mult_imp_div_less)
  have eq: "n = m \<longleftrightarrow> n div 8 = m div 8 \<and> n mod 8 = m mod 8" by (metis div_mod_decomp)
  have "m mod 8 < LENGTH(8)" by simp
  then have "bit (d ! (m div 8) OR push_bit (m mod 8) 1) (n mod 8)
      \<longleftrightarrow> bit (d ! (m div 8)) (n mod 8) \<or> n mod 8 = m mod 8"
    by (auto simp: bit_or_iff push_bit_eq_mult bit_exp_iff)
  then show ?thesis using l eq by (auto simp: bit_set_iff mark_bit_def nth_list_update)
qed

lemma length_mark_bit [simp]: "length (mark_bit d n) = length d"
  by (simp add: mark_bit_def)

text \<open>Whether block \<open>b\<close> is marked as used.\<close>

definition used :: "nat \<Rightarrow> fs \<Rightarrow> bool" where
  "used b s = bit_set (data_of (BBLOCK (of_nat b) (fs_sb s)) s) (b mod 4096)"

text \<open>
  \<open>D\<close> is the first data block. Before it are the inode blocks and, after them, the free
  map; all of these are marked as used.
\<close>

definition layout_ok :: "nat \<Rightarrow> superblock \<Rightarrow> bool" where
  "layout_ok D sb \<longleftrightarrow> unat (sb_inodestart sb) + unat (sb_ninodes sb) div 8 < unat (sb_bmapstart sb) \<and>
     unat (sb_bmapstart sb) + unat (sb_size sb) div 4096 < D \<and> D \<le> unat (sb_size sb) \<and> unat (sb_size sb) < 2 ^ 31"

definition fs_ok :: "nat \<Rightarrow> fs \<Rightarrow> bool" where
  "fs_ok D s \<longleftrightarrow> layout_ok D (fs_sb s) \<and> (\<forall>b. length (data_of b s) = BSIZE) \<and> (\<forall>b < D. used b s) \<and>
     1 \<le> outstanding (fs_log s)"

lemma unat_of_nat_small: "n < 2 ^ 31 \<Longrightarrow> unat (of_nat n :: uint) = n"
  by (simp add: unat_of_nat)

lemma unat_BBLOCK:
  assumes "layout_ok D sb" and "b < unat (sb_size sb)"
  shows "unat (BBLOCK (of_nat b) sb) = unat (sb_bmapstart sb) + b div 4096" and "unat (BBLOCK (of_nat b) sb) < D"
proof -
  have b: "unat (of_nat b :: uint) = b" using assms by (intro unat_of_nat_small) (simp add: layout_ok_def)
  have le: "b div 4096 \<le> unat (sb_size sb) div 4096" using assms(2) by (simp add: div_le_mono)
  have "unat (of_nat b div BPB) = b div 4096" by (simp add: unat_div b BPB_def)
  then show "unat (BBLOCK (of_nat b) sb) = unat (sb_bmapstart sb) + b div 4096"
    using assms le by (simp add: BBLOCK_def unat_word_ariths(1) layout_ok_def)
  then show "unat (BBLOCK (of_nat b) sb) < D" using assms(1) le by (simp add: layout_ok_def)
qed

lemma BBLOCK_eq:
  assumes "layout_ok D sb" and "b < unat (sb_size sb)" "c < unat (sb_size sb)"
  shows "BBLOCK (of_nat b) sb = BBLOCK (of_nat c) sb \<longleftrightarrow> b div 4096 = c div 4096"
  using unat_BBLOCK(1) [OF assms(1,2)] unat_BBLOCK(1) [OF assms(1,3)] by (simp add: word_unat_eq_iff)

lemma unat_IBLOCK:
  assumes "layout_ok D sb" and "unat inum < unat (sb_ninodes sb)"
  shows "unat (IBLOCK inum sb) = unat (sb_inodestart sb) + unat inum div 8" "unat (IBLOCK inum sb) < unat (sb_bmapstart sb)"
proof -
  have le: "unat inum div 8 \<le> unat (sb_ninodes sb) div 8" using assms(2) by (simp add: div_le_mono)
  have "unat (inum div IPB) = unat inum div 8" by (simp add: unat_div IPB_def)
  then show "unat (IBLOCK inum sb) = unat (sb_inodestart sb) + unat inum div 8"
    using assms le by (simp add: IBLOCK_def unat_word_ariths(1) layout_ok_def)
  then show "unat (IBLOCK inum sb) < unat (sb_bmapstart sb)" using assms(1) le by (simp add: layout_ok_def)
qed

text \<open>A block below \<open>D\<close> that is not in the free map may be written, and so may a data block.\<close>

lemma put_data_fs_ok:
  assumes ok: "fs_ok D s" and p: "put_data b d s = Inr t" and len: "length d = BSIZE"
    and b: "unat b < unat (sb_bmapstart (fs_sb s)) \<or> D \<le> unat b"
  shows "fs_ok D t" "c < unat (sb_size (fs_sb s)) \<Longrightarrow> used c t = used c s"
proof -
  have l: "layout_ok D (fs_sb s)" using ok by (simp add: fs_ok_def)
  have u: "used c t = used c s" if "c < unat (sb_size (fs_sb s))" for c
  proof -
    have "BBLOCK (of_nat c) (fs_sb s) \<noteq> b"
    proof
      assume "BBLOCK (of_nat c) (fs_sb s) = b"
      with unat_BBLOCK [OF l that] b show False by simp
    qed
    then show ?thesis using put_data_Inr [OF p] by (simp add: used_def)
  qed
  have "D \<le> unat (sb_size (fs_sb s))" using l by (simp add: layout_ok_def)
  then show "fs_ok D t" using ok u len put_data_Inr [OF p] by (simp add: fs_ok_def)
  show "c < unat (sb_size (fs_sb s)) \<Longrightarrow> used c t = used c s" by (rule u)
qed

text \<open>What an allocation has done.\<close>

definition new_block :: "nat \<Rightarrow> fs \<Rightarrow> uint \<Rightarrow> fs \<Rightarrow> bool" where
  "new_block D s a t \<longleftrightarrow> fs_ok D t \<and> fs_sb t = fs_sb s \<and> icache t = icache s \<and>
     D \<le> unat a \<and> unat a < unat (sb_size (fs_sb s)) \<and> \<not> used (unat a) s \<and>
     (\<forall>c < unat (sb_size (fs_sb s)). used c t \<longleftrightarrow> c = unat a \<or> used c s) \<and>
     (\<forall>c. D \<le> unat c \<longrightarrow> data_of c t = (if c = a then zero_block else data_of c s))"

definition no_space :: "fault \<Rightarrow> bool" where
  "no_space e \<longleftrightarrow> e = Panic ''too big a transaction'' \<or> e = Panic ''balloc: out of blocks''"

lemma find_upt:
  "List.find P [0..<n] = Some i \<Longrightarrow> i < n \<and> P i"
  by (auto simp: find_Some_iff)

lemma mark_block:
  assumes ok: "fs_ok D s" and b: "b < unat (sb_size (fs_sb s))" and free: "\<not> used b s"
    and m: "put_data (BBLOCK (of_nat b) (fs_sb s)) (mark_bit (data_of (BBLOCK (of_nat b) (fs_sb s)) s) (b mod 4096)) s = Inr s1"
  shows "fs_ok D s1" "c < unat (sb_size (fs_sb s)) \<Longrightarrow> used c s1 \<longleftrightarrow> c = b \<or> used c s"
proof -
  let ?bb = "BBLOCK (of_nat b) (fs_sb s)"
  note p = put_data_Inr [OF m]
  have l: "layout_ok D (fs_sb s)" and len: "length (data_of ?bb s) = BSIZE" using ok by (simp_all add: fs_ok_def)
  have u: "used c s1 \<longleftrightarrow> c = b \<or> used c s" if c: "c < unat (sb_size (fs_sb s))" for c
  proof (cases "c div 4096 = b div 4096")
    case True
    then have bb: "BBLOCK (of_nat c) (fs_sb s) = ?bb" using BBLOCK_eq [OF l c b] by simp
    have "bit_set (mark_bit (data_of ?bb s) (b mod 4096)) (c mod 4096)
        \<longleftrightarrow> c mod 4096 = b mod 4096 \<or> bit_set (data_of ?bb s) (c mod 4096)"
      by (rule bit_set_mark) (simp_all add: len)
    moreover have "c mod 4096 = b mod 4096 \<longleftrightarrow> c = b" using True by (metis div_mod_decomp)
    ultimately show ?thesis by (simp add: used_def p bb)
  next
    case False
    then have "BBLOCK (of_nat c) (fs_sb s) \<noteq> ?bb" using BBLOCK_eq [OF l c b] by simp
    then show ?thesis using False by (auto simp: used_def p)
  qed
  have "D \<le> unat (sb_size (fs_sb s))" using l by (simp add: layout_ok_def)
  then show "fs_ok D s1" using ok u by (simp add: fs_ok_def p)
  show "c < unat (sb_size (fs_sb s)) \<Longrightarrow> used c s1 \<longleftrightarrow> c = b \<or> used c s" by (rule u)
qed

lemma length_zero_block [simp]: "length zero_block = BSIZE"
  by (simp add: zero_block_def)

lemma take_block:
  assumes ok: "fs_ok D s" and b: "b < unat (sb_size (fs_sb s))" and free: "\<not> used b s"
    and m: "put_data (BBLOCK (of_nat b) (fs_sb s)) (mark_bit (data_of (BBLOCK (of_nat b) (fs_sb s)) s) (b mod 4096)) s = Inr s1"
    and z: "bzero (of_nat b) s1 = Inr t"
  shows "new_block D s (of_nat b) t"
proof -
  have l: "layout_ok D (fs_sb s)" using ok by (simp add: fs_ok_def)
  have ub: "unat (of_nat b :: uint) = b" using l b by (intro unat_of_nat_small) (simp add: layout_ok_def)
  have D: "D \<le> b" using ok free by (auto simp: fs_ok_def not_le [symmetric])
  note p = put_data_Inr [OF m]
  note q = put_data_Inr [OF z [unfolded bzero_def]]
  have s1: "fs_ok D s1" using mark_block [OF ok b free m] by blast
  have "fs_ok D t" "\<And>c. c < unat (sb_size (fs_sb s)) \<Longrightarrow> used c t = used c s1"
    using put_data_fs_ok [OF s1 z [unfolded bzero_def]] D ub p(1) by simp_all
  moreover have "data_of c t = (if c = of_nat b then zero_block else data_of c s)" if "D \<le> unat c" for c
  proof -
    have "c \<noteq> BBLOCK (of_nat b) (fs_sb s)" using unat_BBLOCK(2) [OF l b] that by auto
    then show ?thesis by (simp add: q(3) p(3) zero_block_def)
  qed
  ultimately show ?thesis
    using mark_block(2) [OF ok b free m] D b ub free by (auto simp: new_block_def q p)
qed

lemma balloc_loop_ok:
  assumes "fs_ok D s" and "b mod 4096 = 0"
  shows "case balloc_loop b s of Inl e \<Rightarrow> no_space e | Inr (a, t) \<Rightarrow> new_block D s a t"
  using assms
proof (induction b s rule: balloc_loop.induct)
  case (1 b s)
  show ?case
  proof (cases "b < unat (sb_size (fs_sb s))")
    case False
    then show ?thesis by (subst balloc_loop.simps) (simp add: no_space_def)
  next
    case True
    show ?thesis
    proof (cases "free_bit b s")
      case None
      have "(b + 4096) mod 4096 = 0" using "1.prems"(2) by simp
      then show ?thesis using "1.IH" [OF True None "1.prems"(1)] True None by (subst balloc_loop.simps) simp
    next
      case (Some bi)
      then have bi: "bi < 4096" "b + bi < unat (sb_size (fs_sb s))" and
        free: "\<not> bit_set (data_of (BBLOCK (of_nat b) (fs_sb s)) s) bi"
        using find_upt [of "\<lambda>bi. \<not> bit_set (data_of (BBLOCK (of_nat b) (fs_sb s)) s) bi"]
        unfolding free_bit_def BPB_def by force+
      have l: "layout_ok D (fs_sb s)" using "1.prems"(1) by (simp add: fs_ok_def)
      have "(b + bi) div 4096 = b div 4096" "(b + bi) mod 4096 = bi"
        using "1.prems"(2) bi(1) by (simp_all add: div_add1_eq mod_add_eq [symmetric, of b])
      then have bb: "BBLOCK (of_nat (b + bi)) (fs_sb s) = BBLOCK (of_nat b) (fs_sb s)" and m: "(b + bi) mod 4096 = bi"
        using BBLOCK_eq [OF l bi(2) True] by simp_all
      have nu: "\<not> used (b + bi) s" unfolding used_def bb m by (rule free)
      let ?p = "put_data (BBLOCK (of_nat b) (fs_sb s)) (mark_bit (data_of (BBLOCK (of_nat b) (fs_sb s)) s) bi) s"
      have eq: "balloc_loop b s = bindE ?p (\<lambda>s. mapE (\<lambda>s. (of_nat (b + bi), s)) (bzero (of_nat (b + bi)) s))"
        using True Some by (subst balloc_loop.simps) (simp add: Let_def)
      have out: "1 \<le> outstanding (fs_log s)" using "1.prems"(1) by (simp add: fs_ok_def)
      show ?thesis
      proof (cases ?p)
        case (Inl e)
        then show ?thesis using put_data_Inl [OF Inl out] by (simp add: eq no_space_def)
      next
        case p: (Inr s1)
        show ?thesis
        proof (cases "bzero (of_nat (b + bi)) s1")
          case (Inl e)
          then show ?thesis using put_data_Inl [of _ _ s1 e] put_data_Inr(4) [OF p] out
            by (simp add: eq p bzero_def no_space_def)
        next
          case (Inr t)
          then show ?thesis using take_block [OF "1.prems"(1) bi(2) nu _ Inr] p bb m by (simp add: eq)
        qed
      qed
    qed
  qed
qed

lemma balloc_ok: "fs_ok D s \<Longrightarrow> case balloc s of Inl e \<Rightarrow> no_space e | Inr (a, t) \<Rightarrow> new_block D s a t"
  unfolding balloc_def by (rule balloc_loop_ok) simp_all

section \<open>The blocks of a file\<close>

text \<open>
  Entry \<open>m\<close> of the file \<open>i\<close>: the blocks 0 to 139 of its contents, and as entry 140 the
  block that holds the addresses of the blocks from 12 on. 0 means that there is none.
\<close>

definition addr_at :: "nat \<Rightarrow> nat \<Rightarrow> fs \<Rightarrow> uint" where
  "addr_at i m s =
     (let as = i_addrs (inode_at i s) in
      if m < NDIRECT then as ! m
      else if m = MAXFILE then as ! NDIRECT
      else if as ! NDIRECT = 0 then 0 else get32 (4 * (m - NDIRECT)) (data_of (as ! NDIRECT) s))"

definition fblock :: "nat \<Rightarrow> nat \<Rightarrow> fs \<Rightarrow> block" where
  "fblock i m s = (if addr_at i m s = 0 then zero_block else data_of (addr_at i m s) s)"

definition fbyte :: "nat \<Rightarrow> nat \<Rightarrow> fs \<Rightarrow> byte" where
  "fbyte i p s = fblock i (p div 512) s ! (p mod 512)"

text \<open>The blocks of a file are data blocks in use, and none occurs twice.\<close>

definition inode_ok :: "nat \<Rightarrow> nat \<Rightarrow> fs \<Rightarrow> bool" where
  "inode_ok D i s \<longleftrightarrow> i < length (icache s) \<and> length (i_addrs (inode_at i s)) = Suc NDIRECT \<and>
     (\<forall>m \<in> {..MAXFILE}. addr_at i m s \<noteq> 0 \<longrightarrow> D \<le> unat (addr_at i m s) \<and>
        unat (addr_at i m s) < unat (sb_size (fs_sb s)) \<and> used (unat (addr_at i m s)) s) \<and>
     (\<forall>m \<in> {..MAXFILE}. \<forall>n \<in> {..MAXFILE}. addr_at i m s \<noteq> 0 \<longrightarrow> addr_at i m s = addr_at i n s \<longrightarrow> m = n)"

lemma inode_okD:
  assumes "inode_ok D i s" and "m \<le> MAXFILE" and "addr_at i m s \<noteq> 0"
  shows "D \<le> unat (addr_at i m s)" "unat (addr_at i m s) < unat (sb_size (fs_sb s))" "used (unat (addr_at i m s)) s"
    "n \<le> MAXFILE \<Longrightarrow> addr_at i m s = addr_at i n s \<Longrightarrow> m = n"
  using assms by (auto simp: inode_ok_def)

text \<open>What an operation that may allocate blocks for file \<open>i\<close> leaves alone.\<close>

definition same_file :: "nat \<Rightarrow> nat \<Rightarrow> fs \<Rightarrow> fs \<Rightarrow> bool" where
  "same_file D i s t \<longleftrightarrow> fs_ok D t \<and> inode_ok D i t \<and> fs_sb t = fs_sb s \<and>
     (\<forall>m < MAXFILE. fblock i m t = fblock i m s) \<and>
     (inode_at i t)\<lparr>i_addrs := []\<rparr> = (inode_at i s)\<lparr>i_addrs := []\<rparr> \<and>
     (\<forall>j. j \<noteq> i \<longrightarrow> inode_at j t = inode_at j s) \<and> length (icache t) = length (icache s)"

lemma same_file_refl: "fs_ok D s \<Longrightarrow> inode_ok D i s \<Longrightarrow> same_file D i s s"
  by (simp add: same_file_def)

lemma same_file_trans: "same_file D i s t \<Longrightarrow> same_file D i t u \<Longrightarrow> same_file D i s u"
  by (simp add: same_file_def)

lemma max_values: "NDIRECT = 12" "NINDIRECT = 128" "MAXFILE = 140"
  by (simp_all add: NDIRECT_def NINDIRECT_def MAXFILE_def)

text \<open>One more block for the file: entry \<open>k\<close>, which was 0, is the new block \<open>a\<close>.\<close>

lemma add_block:
  assumes ok: "inode_ok D i s" and new: "new_block D s a s1" and t: "fs_ok D t" "fs_sb t = fs_sb s"
    and k: "k \<le> MAXFILE" "addr_at i k s = 0"
    and addr: "\<And>m. m \<le> MAXFILE \<Longrightarrow> addr_at i m t = (if m = k then a else addr_at i m s)"
    and used: "\<And>c. c < unat (sb_size (fs_sb s)) \<Longrightarrow> used c t = used c s1"
    and data: "\<And>c. D \<le> unat c \<Longrightarrow> c \<noteq> addr_at i MAXFILE s \<Longrightarrow> data_of c t = data_of c s1"
    and len: "length (i_addrs (inode_at i t)) = Suc NDIRECT" "length (icache t) = length (icache s)"
    and inode: "(inode_at i t)\<lparr>i_addrs := []\<rparr> = (inode_at i s)\<lparr>i_addrs := []\<rparr>" "\<And>j. j \<noteq> i \<Longrightarrow> inode_at j t = inode_at j s"
  shows "same_file D i s t"
proof -
  have a: "D \<le> unat a" "unat a < unat (sb_size (fs_sb s))" "\<not> used (unat a) s" "used (unat a) s1"
    and grow: "\<And>c. c < unat (sb_size (fs_sb s)) \<Longrightarrow> used c s \<Longrightarrow> used c s1"
    and data1: "\<And>c. D \<le> unat c \<Longrightarrow> data_of c s1 = (if c = a then zero_block else data_of c s)"
    using new by (auto simp: new_block_def)
  note D = inode_okD [OF ok]
  have other: "addr_at i m s \<noteq> a" if "m \<le> MAXFILE" "addr_at i m s \<noteq> 0" for m
    using D(3) [OF that] a(3) by auto
  have "D \<le> unat (addr_at i m t) \<and> unat (addr_at i m t) < unat (sb_size (fs_sb t)) \<and> Fs_Content.used (unat (addr_at i m t)) t"
    if m: "m \<le> MAXFILE" "addr_at i m t \<noteq> 0" for m
  proof (cases "m = k")
    case True
    then show ?thesis using addr [OF k(1)] a used t(2) by simp
  next
    case False
    then have eq: "addr_at i m t = addr_at i m s" using addr m(1) by simp
    then show ?thesis using D [OF m(1)] m(2) grow used t(2) by simp
  qed
  moreover have "m = n" if "m \<le> MAXFILE" "n \<le> MAXFILE" "addr_at i m t \<noteq> 0" "addr_at i m t = addr_at i n t" for m n
  proof (rule ccontr)
    assume ne: "m \<noteq> n"
    consider "m = k" | "n = k" | "m \<noteq> k" "n \<noteq> k" by blast
    then show False
    proof cases
      case 1
      then show False using other [of n] that addr ne a(1) by auto
    next
      case 2
      then show False using other [of m] that addr ne k by auto
    next
      case 3
      then show False using D(4) [of m n] that addr ne by auto
    qed
  qed
  ultimately have "inode_ok D i t" using ok len by (simp add: inode_ok_def)
  moreover have "fblock i m t = fblock i m s" if m: "m < MAXFILE" for m
  proof (cases "m = k")
    case True
    have "0 < D" using t(1) by (auto simp: fs_ok_def layout_ok_def)
    then have "a \<noteq> addr_at i MAXFILE s" using other [of MAXFILE] a(1) by (cases "addr_at i MAXFILE s = 0") auto
    then have "data_of a t = zero_block" using data [OF a(1)] data1 [OF a(1)] by simp
    then show ?thesis using True addr [OF k(1)] k(2) by (simp add: fblock_def)
  next
    case False
    then have eq: "addr_at i m t = addr_at i m s" using addr m by simp
    show ?thesis
    proof (cases "addr_at i m s = 0")
      case True
      then show ?thesis using eq by (simp add: fblock_def)
    next
      case nz: False
      have "addr_at i m s \<noteq> addr_at i MAXFILE s" using D(4) [OF _ nz, of MAXFILE] m by auto
      then have "data_of (addr_at i m s) t = data_of (addr_at i m s) s"
        using data [of "addr_at i m s"] data1 [of "addr_at i m s"] D(1) [OF _ nz] other [OF _ nz] m by simp
      then show ?thesis using nz eq by (simp add: fblock_def)
    qed
  qed
  ultimately show ?thesis using t len(2) inode by (simp add: same_file_def)
qed

text \<open>The three places where \<open>bmap\<close> allocates: a direct block, the block of addresses, and one it names.\<close>

lemma addr_at_set_addr:
  assumes "i < length (icache s)" and "length (i_addrs (inode_at i s)) = Suc NDIRECT"
    and "i_addrs (inode_at i s) = i_addrs (inode_at i s0)" and "\<And>c. D \<le> unat c \<Longrightarrow> c \<noteq> a \<Longrightarrow> data_of c s = data_of c s0"
    and "inode_ok D i s0" and "k < NDIRECT" and "\<And>m. m \<le> MAXFILE \<Longrightarrow> addr_at i m s0 \<noteq> 0 \<Longrightarrow> addr_at i m s0 \<noteq> a"
    and "m \<le> MAXFILE"
  shows "addr_at i m (set_addr i k a s) = (if m = k then a else addr_at i m s0)"
proof -
  let ?ind = "i_addrs (inode_at i s0) ! NDIRECT"
  have ind: "?ind = addr_at i MAXFILE s0" by (simp add: addr_at_def max_values)
  then have "data_of ?ind s = data_of ?ind s0" if "?ind \<noteq> 0"
    using assms(4) [of ?ind] assms(7) [of MAXFILE] that inode_okD(1) [OF assms(5), of MAXFILE] by simp
  then show ?thesis using assms(1,2,3,6,8)
    by (auto simp: addr_at_def set_addr_def Let_def nth_list_update max_values)
qed

lemma alloc_direct:
  assumes ok: "inode_ok D i s" and new: "new_block D s a s1" and k: "k < NDIRECT" "addr_at i k s = 0"
  shows "same_file D i s (set_addr i k a s1) \<and> addr_at i k (set_addr i k a s1) = a"
proof -
  let ?t = "set_addr i k a s1"
  have n: "fs_ok D s1" "fs_sb s1 = fs_sb s" "icache s1 = icache s" "\<not> used (unat a) s"
    and data: "\<And>c. D \<le> unat c \<Longrightarrow> data_of c s1 = (if c = a then zero_block else data_of c s)"
    using new by (auto simp: new_block_def)
  have i: "i < length (icache s)" "length (i_addrs (inode_at i s)) = Suc NDIRECT" using ok by (simp_all add: inode_ok_def)
  have at: "inode_at j s1 = inode_at j s" for j using n(3) by (simp add: inode_at_def)
  have addr: "addr_at i m ?t = (if m = k then a else addr_at i m s)" if "m \<le> MAXFILE" for m
    by (rule addr_at_set_addr [where D = D]) (use i n at data ok k inode_okD(3) [OF ok] that in auto)
  have u: "used c ?t = used c s1" "data_of c' ?t = data_of c' s1" "fs_sb ?t = fs_sb s1" for c c'
    by (simp_all add: used_def set_addr_def)
  have "same_file D i s ?t"
  proof (rule add_block [OF ok new _ _ _ k(2) addr])
    show "fs_ok D ?t" using n(1) by (simp add: fs_ok_def used_def set_addr_def)
    show "length (i_addrs (inode_at i ?t)) = Suc NDIRECT" "length (icache ?t) = length (icache s)"
      "(inode_at i ?t)\<lparr>i_addrs := []\<rparr> = (inode_at i s)\<lparr>i_addrs := []\<rparr>"
      using i n(3) at by (simp_all add: set_addr_def)
    show "inode_at j ?t = inode_at j s" if "j \<noteq> i" for j using that at by (simp add: set_addr_def)
  qed (use k u n in \<open>auto simp: max_values\<close>)
  then show ?thesis using addr [of k] k by (simp add: max_values)
qed

lemma get32_zero: "k + 4 \<le> BSIZE \<Longrightarrow> get32 k zero_block = 0"
  by (simp add: get32_def zero_block_def of_le32_def min_def BSIZE_def)

lemma alloc_table:
  assumes ok: "inode_ok D i s" and new: "new_block D s a s1" and k: "addr_at i MAXFILE s = 0"
  shows "same_file D i s (set_addr i NDIRECT a s1) \<and> addr_at i MAXFILE (set_addr i NDIRECT a s1) = a"
proof -
  let ?t = "set_addr i NDIRECT a s1"
  have n: "fs_ok D s1" "fs_sb s1 = fs_sb s" "icache s1 = icache s"
    and data: "\<And>c. D \<le> unat c \<Longrightarrow> data_of c s1 = (if c = a then zero_block else data_of c s)"
    and aD: "D \<le> unat a"
    using new by (auto simp: new_block_def)
  have i: "i < length (icache s)" "length (i_addrs (inode_at i s)) = Suc NDIRECT" using ok by (simp_all add: inode_ok_def)
  have at: "inode_at j s1 = inode_at j s" for j using n(3) by (simp add: inode_at_def)
  have ind: "i_addrs (inode_at i s) ! NDIRECT = 0" using k by (simp add: addr_at_def max_values)
  have za: "data_of a ?t = zero_block" using data aD by (simp add: set_addr_def)
  have addr: "addr_at i m ?t = (if m = MAXFILE then a else addr_at i m s)" if "m \<le> MAXFILE" for m
  proof -
    have "get32 (4 * (m - NDIRECT)) zero_block = 0" if "m < MAXFILE"
      using that by (intro get32_zero) (simp add: max_values BSIZE_def)
    moreover have "i_addrs (inode_at i ?t) = (i_addrs (inode_at i s))[NDIRECT := a]"
      using i n(3) at by (simp add: set_addr_def)
    ultimately show ?thesis using that ind za i(2)
      by (auto simp: addr_at_def Let_def max_values)
  qed
  have u: "used c ?t = used c s1" "data_of c' ?t = data_of c' s1" "fs_sb ?t = fs_sb s1" for c c'
    by (simp_all add: used_def set_addr_def)
  have "same_file D i s ?t"
  proof (rule add_block [OF ok new _ _ _ k addr])
    show "fs_ok D ?t" using n(1) by (simp add: fs_ok_def used_def set_addr_def)
    show "length (i_addrs (inode_at i ?t)) = Suc NDIRECT" "length (icache ?t) = length (icache s)"
      "(inode_at i ?t)\<lparr>i_addrs := []\<rparr> = (inode_at i s)\<lparr>i_addrs := []\<rparr>"
      using i n(3) at by (simp_all add: set_addr_def)
    show "inode_at j ?t = inode_at j s" if "j \<noteq> i" for j using that at by (simp add: set_addr_def)
  qed (use u n in auto)
  then show ?thesis using addr [of MAXFILE] by simp
qed

lemma alloc_entry:
  assumes sok: "fs_ok D s" and ok: "inode_ok D i s" and new: "new_block D s a s1"
    and j: "j < NINDIRECT" and ind: "addr_at i MAXFILE s = ind" "ind \<noteq> 0" and k: "addr_at i (NDIRECT + j) s = 0"
    and p: "put_data ind (put32 (4 * j) a (data_of ind s1)) s1 = Inr t"
  shows "same_file D i s t \<and> addr_at i (NDIRECT + j) t = a"
proof -
  have n: "fs_ok D s1" "fs_sb s1 = fs_sb s" "icache s1 = icache s"
    and data: "\<And>c. D \<le> unat c \<Longrightarrow> data_of c s1 = (if c = a then zero_block else data_of c s)"
    and aD: "D \<le> unat a" "\<not> used (unat a) s"
    using new by (auto simp: new_block_def)
  note q = put_data_Inr [OF p]
  have i: "i < length (icache s)" "length (i_addrs (inode_at i s)) = Suc NDIRECT" using ok by (simp_all add: inode_ok_def)
  have at: "inode_at j s1 = inode_at j s" for j using n(3) by (simp add: inode_at_def)
  have indD: "D \<le> unat ind" "used (unat ind) s" using inode_okD [OF ok, of MAXFILE] ind by simp_all
  then have "ind \<noteq> a" using aD(2) by auto
  then have ind1: "data_of ind s1 = data_of ind s" using data [OF indD(1)] by simp
  have len: "length (data_of ind s) = BSIZE" "length (data_of ind s1) = BSIZE" using sok n(1) by (simp_all add: fs_ok_def)
  have indt: "data_of ind t = put32 (4 * j) a (data_of ind s)" using q(3) ind1 by simp
  have as: "i_addrs (inode_at i t) = i_addrs (inode_at i s)" "i_addrs (inode_at i s) ! NDIRECT = ind"
    using q(5) at ind by (simp_all add: addr_at_def max_values)
  have addr: "addr_at i m t = (if m = NDIRECT + j then a else addr_at i m s)" if "m \<le> MAXFILE" for m
  proof (cases "m < NDIRECT \<or> m = MAXFILE")
    case True
    then show ?thesis using as j by (auto simp: addr_at_def max_values)
  next
    case False
    then have m: "NDIRECT \<le> m" "m < MAXFILE" using that by auto
    have "get32 (4 * (m - NDIRECT)) (put32 (4 * j) a (data_of ind s))
        = (if m - NDIRECT = j then a else get32 (4 * (m - NDIRECT)) (data_of ind s))"
    proof (cases "m - NDIRECT = j")
      case True
      then show ?thesis using len j by (simp add: max_values BSIZE_def)
    next
      case ne: False
      then have "4 * (m - NDIRECT) + 4 \<le> 4 * j \<or> 4 * j + 4 \<le> 4 * (m - NDIRECT)" by auto
      then show ?thesis using len j ne by (simp add: max_values BSIZE_def)
    qed
    moreover have "m = NDIRECT + j \<longleftrightarrow> m - NDIRECT = j" using m by auto
    ultimately show ?thesis using False m ind as indt by (simp add: addr_at_def)
  qed
  have lenp: "length (put32 (4 * j) a (data_of ind s1)) = BSIZE" using len j by (simp add: max_values BSIZE_def)
  have "same_file D i s t"
  proof (rule add_block [OF ok new _ _ _ k addr])
    show "fs_ok D t" using put_data_fs_ok(1) [OF n(1) p lenp] indD(1) by simp
    show "used c t = used c s1" if "c < unat (sb_size (fs_sb s))" for c
      using put_data_fs_ok(2) [OF n(1) p lenp] indD(1) that n(2) by simp
    show "data_of c t = data_of c s1" if "c \<noteq> addr_at i MAXFILE s" for c using q(3) that ind by simp
    show "inode_at j t = inode_at j s" for j using q(2) at by (simp add: inode_at_def)
  qed (use q n i at as j in \<open>auto simp: max_values\<close>)
  then show ?thesis using addr [of "NDIRECT + j"] j by (simp add: max_values)
qed

text \<open>\<open>bmap\<close> gives the block of the file and changes no byte of it.\<close>

definition mapped :: "nat \<Rightarrow> nat \<Rightarrow> nat \<Rightarrow> fs \<Rightarrow> uint \<Rightarrow> fs \<Rightarrow> bool" where
  "mapped D i bn s a t \<longleftrightarrow> same_file D i s t \<and> addr_at i bn t = a \<and> a \<noteq> 0"

lemma addr_alloc_ok:
  assumes sok: "fs_ok D s" and ok: "inode_ok D i s" and k: "k < NDIRECT \<and> m = k \<or> k = NDIRECT \<and> m = MAXFILE"
  shows "case addr_alloc i k s of Inl e \<Rightarrow> no_space e | Inr (a, t) \<Rightarrow> mapped D i m s a t"
proof -
  have at: "i_addrs (inode_at i s) ! k = addr_at i m s" using k by (auto simp: addr_at_def max_values)
  show ?thesis
  proof (cases "addr_at i m s = 0")
    case False
    then show ?thesis using at same_file_refl [OF sok ok] by (simp add: addr_alloc_def mapped_def)
  next
    case True
    show ?thesis
    proof (cases "balloc s")
      case (Inl e)
      then show ?thesis using balloc_ok [OF sok] at True by (simp add: addr_alloc_def)
    next
      case (Inr x)
      then obtain a s1 where x: "x = (a, s1)" and new: "new_block D s a s1"
        using balloc_ok [OF sok] by (cases x) auto
      have "a \<noteq> 0" using new sok by (auto simp: new_block_def fs_ok_def layout_ok_def)
      moreover have "same_file D i s (set_addr i k a s1) \<and> addr_at i m (set_addr i k a s1) = a"
        using k alloc_direct [OF ok new] alloc_table [OF ok new] True by auto
      ultimately show ?thesis using at True Inr x by (simp add: addr_alloc_def mapped_def)
    qed
  qed
qed

lemma bmap_ok:
  assumes sok: "fs_ok D s" and ok: "inode_ok D i s" and bn: "bn < MAXFILE"
  shows "case bmap i (of_nat bn) s of Inl e \<Rightarrow> no_space e | Inr (a, t) \<Rightarrow> mapped D i bn s a t"
proof -
  have ub: "unat (of_nat bn :: uint) = bn" using bn by (intro unat_of_nat_small) (simp add: max_values)
  show ?thesis
  proof (cases "bn < NDIRECT")
    case True
    then show ?thesis using addr_alloc_ok [OF sok ok, of bn bn] by (simp add: bmap_def ub)
  next
    case False
    define j where "j = bn - NDIRECT"
    have j: "j < NINDIRECT" "NDIRECT + j = bn" using False bn by (simp_all add: j_def max_values)
    have b: "bmap i (of_nat bn) s = bindE (addr_alloc i NDIRECT s) (\<lambda>(ind, s).
        let a = get32 (4 * j) (data_of ind s) in
        if a = 0 then bindE (balloc s) (\<lambda>(a, s). mapE (\<lambda>s. (a, s)) (put_data ind (put32 (4 * j) a (data_of ind s)) s))
        else Inr (a, s))"
      using False j(1) unfolding bmap_def ub j_def by (simp add: Let_def)
    have al: "case addr_alloc i NDIRECT s of Inl e \<Rightarrow> no_space e | Inr (a, t) \<Rightarrow> mapped D i MAXFILE s a t"
      by (rule addr_alloc_ok [OF sok ok]) simp
    show ?thesis
    proof (cases "addr_alloc i NDIRECT s")
      case (Inl e)
      then show ?thesis using al b by simp
    next
      case (Inr x)
      then obtain ind s1 where x: "x = (ind, s1)" and m: "mapped D i MAXFILE s ind s1" using al by (cases x) auto
      have s1: "fs_ok D s1" "inode_ok D i s1" and sf: "same_file D i s s1" and ind: "addr_at i MAXFILE s1 = ind" "ind \<noteq> 0"
        using m by (auto simp: mapped_def same_file_def)
      have at: "get32 (4 * j) (data_of ind s1) = addr_at i bn s1"
        using ind False bn by (auto simp: addr_at_def j_def max_values)
      show ?thesis
      proof (cases "addr_at i bn s1 = 0")
        case False
        then show ?thesis using sf b Inr x at by (simp add: mapped_def)
      next
        case True
        show ?thesis
        proof (cases "balloc s1")
          case (Inl e)
          then show ?thesis using balloc_ok [OF s1(1)] b Inr x at True by simp
        next
          case bx: (Inr y)
          then obtain a s2 where y: "y = (a, s2)" and new: "new_block D s1 a s2"
            using balloc_ok [OF s1(1)] by (cases y) auto
          have a0: "a \<noteq> 0" and out: "1 \<le> outstanding (fs_log s2)"
            using new s1(1) by (auto simp: new_block_def fs_ok_def layout_ok_def)
          let ?p = "put_data ind (put32 (4 * j) a (data_of ind s2)) s2"
          have eq: "bmap i (of_nat bn) s = mapE (\<lambda>s. (a, s)) ?p" using b Inr x at True bx y by simp
          show ?thesis
          proof (cases ?p)
            case (Inl e)
            then show ?thesis using put_data_Inl [OF Inl out] eq by (simp add: no_space_def)
          next
            case p: (Inr t)
            have "same_file D i s1 t \<and> addr_at i bn t = a"
              using alloc_entry [OF s1 new j(1) ind _ p] True j(2) by simp
            then show ?thesis using eq p a0 same_file_trans [OF sf] by (auto simp: mapped_def)
          qed
        qed
      qed
    qed
  qed
qed

section \<open>Reading and writing\<close>

lemma word_off:
  assumes "off < 2 ^ 31"
  shows "(of_nat off :: uint) div 512 = of_nat (off div 512)" and "unat ((of_nat off :: uint) mod 512) = off mod 512"
proof -
  have u: "unat (of_nat off :: uint) = off" using assms by (rule unat_of_nat_small)
  have "off div 512 < 2 ^ 31" using assms by (rule le_less_trans [OF div_le_dividend])
  then have "unat (of_nat (off div 512) :: uint) = off div 512" by (rule unat_of_nat_small)
  then show "(of_nat off :: uint) div 512 = of_nat (off div 512)" by (simp add: word_unat_eq_iff unat_div u)
  show "unat ((of_nat off :: uint) mod 512) = off mod 512" by (simp add: unat_mod u)
qed

lemma chunk_pos:
  fixes off q :: nat
  assumes "off mod 512 + q < 512"
  shows "(off + q) div 512 = off div 512" "(off + q) mod 512 = off mod 512 + q"
proof -
  have "off + q = off div 512 * 512 + (off mod 512 + q)" by simp
  then show "(off + q) div 512 = off div 512" "(off + q) mod 512 = off mod 512 + q"
    using assms by (metis div_mult_self3 div_less add_0_right zero_neq_numeral) (metis assms \<open>off + q = _\<close> mod_mult_self3 mod_less)
qed

lemma read_chunk:
  assumes "length d = BSIZE" and "m \<le> 512 - off mod 512" and "d = fblock i (off div 512) s"
  shows "take m (drop (off mod 512) d) = map (\<lambda>p. fbyte i p s) [off..<off + m]"
proof (rule nth_equalityI)
  show "length (take m (drop (off mod 512) d)) = length (map (\<lambda>p. fbyte i p s) [off..<off + m])"
    using assms by (simp add: BSIZE_def)
  fix q assume "q < length (take m (drop (off mod 512) d))"
  then have q: "q < m" by simp
  then have "off mod 512 + q < 512" using assms(2) by simp
  from chunk_pos [OF this] show "take m (drop (off mod 512) d) ! q = map (\<lambda>p. fbyte i p s) [off..<off + m] ! q"
    using q assms \<open>off mod 512 + q < 512\<close> by (simp add: fbyte_def BSIZE_def)
qed

lemma same_file_bytes:
  "same_file D i s t \<Longrightarrow> p < MAXFILE * 512 \<Longrightarrow> fbyte i p t = fbyte i p s"
  by (simp add: same_file_def fbyte_def less_mult_imp_div_less)

lemma readi_loop_ok:
  assumes "fs_ok D s" and "inode_ok D i s" and "off + n \<le> MAXFILE * 512"
  shows "case readi_loop i (of_nat off) n s of Inl e \<Rightarrow> no_space e
    | Inr (bs, t) \<Rightarrow> same_file D i s t \<and> bs = map (\<lambda>p. fbyte i p s) [off..<off + n]"
  using assms
proof (induction n arbitrary: off s rule: less_induct)
  case (less n off s)
  show ?case
  proof (cases "n = 0")
    case True
    then show ?thesis using same_file_refl less.prems by (subst readi_loop.simps) simp
  next
    case n0: False
    have off: "off < MAXFILE * 512" using less.prems(3) n0 by simp
    then have small: "off < 2 ^ 31" by (simp add: max_values)
    note w = word_off [OF small]
    have bn: "off div 512 < MAXFILE" using off by (simp add: less_mult_imp_div_less)
    define k m where "k = off mod 512" and "m = min n (BSIZE - k)"
    have m: "0 < m" "m \<le> 512 - k" "m \<le> n" using n0 by (simp_all add: m_def k_def BSIZE_def)
    have eq: "readi_loop i (of_nat off) n s = bindE (bmap i (of_nat (off div 512)) s) (\<lambda>(b, s1).
        mapE (\<lambda>(rest, s). (take m (drop k (data_of b s1)) @ rest, s)) (readi_loop i (of_nat (off + m)) (n - m) s1))"
      using n0 w by (subst readi_loop.simps) (simp add: Let_def k_def m_def)
    have b: "case bmap i (of_nat (off div 512)) s of Inl e \<Rightarrow> no_space e | Inr (a, t) \<Rightarrow> mapped D i (off div 512) s a t"
      by (rule bmap_ok [OF less.prems(1,2) bn])
    show ?thesis
    proof (cases "bmap i (of_nat (off div 512)) s")
      case (Inl e)
      then show ?thesis using b eq by simp
    next
      case (Inr x)
      then obtain a t where x: "x = (a, t)" and mp: "mapped D i (off div 512) s a t" using b by (cases x) auto
      have t: "fs_ok D t" "inode_ok D i t" and sf: "same_file D i s t" and at: "addr_at i (off div 512) t = a" "a \<noteq> 0"
        using mp by (auto simp: mapped_def same_file_def)
      have d: "data_of a t = fblock i (off div 512) s" using sf at bn by (auto simp: same_file_def fblock_def)
      have len: "length (data_of a t) = BSIZE" using t by (simp add: fs_ok_def)
      have head: "take m (drop k (data_of a t)) = map (\<lambda>p. fbyte i p s) [off..<off + m]"
        unfolding k_def by (rule read_chunk [OF len _ d]) (use m(2) in \<open>simp add: k_def\<close>)
      have ih: "case readi_loop i (of_nat (off + m)) (n - m) t of Inl e \<Rightarrow> no_space e
          | Inr (bs, u) \<Rightarrow> same_file D i t u \<and> bs = map (\<lambda>p. fbyte i p t) [off + m..<off + m + (n - m)]"
        by (rule less.IH [OF _ t]) (use m less.prems(3) in auto)
      have bytes: "map (\<lambda>p. fbyte i p t) [off + m..<off + n] = map (\<lambda>p. fbyte i p s) [off + m..<off + n]"
        by (rule map_cong [OF refl]) (use same_file_bytes [OF sf] less.prems(3) in auto)
      have join: "[off..<off + m] @ [off + m..<off + n] = [off..<off + n]"
        using m(3) upt_add_eq_append [of off "off + m" "n - m"] by simp
      have all: "map (\<lambda>p. fbyte i p s) [off..<off + m] @ map (\<lambda>p. fbyte i p t) [off + m..<off + n]
          = map (\<lambda>p. fbyte i p s) [off..<off + n]"
        by (simp only: bytes map_append [symmetric] join)
      show ?thesis
        using ih m(3) eq Inr x head all same_file_trans [OF sf] by (auto split: sum.splits)
    qed
  qed
qed

text \<open>Writing one block of the file.\<close>

lemma put_block:
  assumes ok: "fs_ok D s" "inode_ok D i s" and bn: "bn < MAXFILE" and at: "addr_at i bn s = a" "a \<noteq> 0"
    and d: "length d = BSIZE" and p: "put_data a d s = Inr t"
  shows "fs_ok D t" "inode_ok D i t" "m < MAXFILE \<Longrightarrow> fblock i m t = (if m = bn then d else fblock i m s)"
proof -
  note q = put_data_Inr [OF p]
  note Di = inode_okD [OF ok(2)]
  have aD: "D \<le> unat a" using Di(1) [of bn] at bn by simp
  show fsok: "fs_ok D t" by (rule put_data_fs_ok(1) [OF ok(1) p d]) (use aD in simp)
  have u: "c < unat (sb_size (fs_sb s)) \<Longrightarrow> used c t = used c s" for c
    by (rule put_data_fs_ok(2) [OF ok(1) p d]) (use aD in simp_all)
  have addr: "addr_at i m t = addr_at i m s" if "m \<le> MAXFILE" for m
  proof -
    have "i_addrs (inode_at i s) ! NDIRECT = addr_at i MAXFILE s" by (simp add: addr_at_def max_values)
    moreover have "a \<noteq> addr_at i MAXFILE s" using Di(4) [of bn MAXFILE] at bn by auto
    ultimately show ?thesis by (simp add: addr_at_def q Let_def)
  qed
  show "inode_ok D i t"
    using ok(2) addr u q(1,2,5) unfolding inode_ok_def by auto
  show "fblock i m t = (if m = bn then d else fblock i m s)" if m: "m < MAXFILE"
  proof (cases "addr_at i m s = 0")
    case True
    then show ?thesis using at addr [of m] m by (auto simp: fblock_def)
  next
    case False
    then have "addr_at i m s = a \<longleftrightarrow> m = bn" using Di(4) [of m bn] at m bn by auto
    then show ?thesis using False addr [of m] m by (simp add: fblock_def q)
  qed
qed

text \<open>What writing the bytes \<open>src\<close> at \<open>off\<close> does to a file, apart from its size.\<close>

definition written :: "nat \<Rightarrow> nat \<Rightarrow> nat \<Rightarrow> byte list \<Rightarrow> fs \<Rightarrow> fs \<Rightarrow> bool" where
  "written D i off src s t \<longleftrightarrow> fs_ok D t \<and> inode_ok D i t \<and> fs_sb t = fs_sb s \<and>
     (inode_at i t)\<lparr>i_addrs := []\<rparr> = (inode_at i s)\<lparr>i_addrs := []\<rparr> \<and>
     (\<forall>j. j \<noteq> i \<longrightarrow> inode_at j t = inode_at j s) \<and> length (icache t) = length (icache s) \<and>
     (\<forall>p < MAXFILE * 512. fbyte i p t = (if off \<le> p \<and> p < off + length src then src ! (p - off) else fbyte i p s))"

lemma write_chunk:
  assumes "length d = BSIZE" and k: "k + m \<le> 512" and "m \<le> length src"
  shows "length (take k d @ take m src @ drop (k + m) d) = BSIZE"
    and "q < 512 \<Longrightarrow> (take k d @ take m src @ drop (k + m) d) ! q = (if k \<le> q \<and> q < k + m then src ! (q - k) else d ! q)"
  using assms by (auto simp: nth_append BSIZE_def min_def)

lemma write_one:
  assumes ok: "fs_ok D s" and mp: "mapped D i (off div 512) s a t" and off: "off < MAXFILE * 512"
    and m: "off mod 512 + m \<le> 512" "m \<le> length src"
    and p: "put_data a (take (off mod 512) (data_of a t) @ take m src @ drop (off mod 512 + m) (data_of a t)) t = Inr u"
  shows "written D i off (take m src) s u"
proof -
  let ?bn = "off div 512" and ?k = "off mod 512"
  have bn: "?bn < MAXFILE" using off by (simp add: less_mult_imp_div_less)
  have t: "fs_ok D t" "inode_ok D i t" and sf: "same_file D i s t" and at: "addr_at i ?bn t = a" "a \<noteq> 0"
    using mp by (auto simp: mapped_def same_file_def)
  have d: "data_of a t = fblock i ?bn s" using sf at bn by (auto simp: same_file_def fblock_def)
  have len: "length (data_of a t) = BSIZE" using t by (simp add: fs_ok_def)
  note q = put_data_Inr [OF p]
  note pb = put_block [OF t bn at write_chunk(1) [OF len m] p]
  have bytes: "fbyte i x u = (if off \<le> x \<and> x < off + m then src ! (x - off) else fbyte i x s)"
    if x: "x < MAXFILE * 512" for x
  proof -
    have xb: "x div 512 < MAXFILE" using x by (simp add: less_mult_imp_div_less)
    show ?thesis
    proof (cases "x div 512 = ?bn")
      case True
      have x1: "x = ?bn * 512 + x mod 512" "off = ?bn * 512 + ?k" using True by (metis div_mult_mod_eq)+
      then have iff: "off \<le> x \<and> x < off + m \<longleftrightarrow> ?k \<le> x mod 512 \<and> x mod 512 < ?k + m" and
        diff: "x - off = x mod 512 - ?k" by linarith+
      have "fbyte i x u = (take ?k (data_of a t) @ take m src @ drop (?k + m) (data_of a t)) ! (x mod 512)"
        using pb(3) [OF xb] True by (simp add: fbyte_def)
      also have "\<dots> = (if ?k \<le> x mod 512 \<and> x mod 512 < ?k + m then src ! (x mod 512 - ?k) else data_of a t ! (x mod 512))"
        by (rule write_chunk(2) [OF len m]) simp
      finally show ?thesis using iff diff d True by (simp add: fbyte_def)
    next
      case False
      have "\<not> (off \<le> x \<and> x < off + m)"
      proof
        assume "off \<le> x \<and> x < off + m"
        then have "?k + (x - off) < 512" "x = off + (x - off)" using m(1) by auto
        then show False using chunk_pos(1) [of off "x - off"] False by simp
      qed
      moreover have "fblock i (x div 512) u = fblock i (x div 512) s"
        using pb(3) [OF xb] False sf xb by (simp add: same_file_def)
      ultimately show ?thesis by (auto simp: fbyte_def)
    qed
  qed
  show ?thesis
    using pb(1,2) bytes sf q(1,2,5) m(2) by (auto simp: written_def same_file_def inode_at_def)
qed

lemma written_trans:
  assumes "written D i off (take m src) s t" and "written D i (off + m) (drop m src) t u" and "m \<le> length src"
  shows "written D i off src s u"
proof -
  have "fbyte i p u = (if off \<le> p \<and> p < off + length src then src ! (p - off) else fbyte i p s)"
    if "p < MAXFILE * 512" for p
  proof (cases "off + m \<le> p")
    case True
    have "drop m src ! (p - (off + m)) = src ! (p - off)" if "p < off + length src" using that True assms(3) by simp
    then show ?thesis using assms that True by (auto simp: written_def)
  next
    case False
    then show ?thesis using assms that by (auto simp: written_def)
  qed
  then show ?thesis using assms by (simp add: written_def)
qed

lemma writei_loop_ok:
  assumes "fs_ok D s" and "inode_ok D i s" and "off + length src \<le> MAXFILE * 512"
  shows "case writei_loop i src (of_nat off) s of Inl e \<Rightarrow> no_space e
    | Inr (off', t) \<Rightarrow> off' = of_nat (off + length src) \<and> written D i off src s t"
  using assms
proof (induction "length src" arbitrary: src off s rule: less_induct)
  case (less src off s)
  show ?case
  proof (cases "src = []")
    case True
    then show ?thesis using less.prems by (subst writei_loop.simps) (auto simp: written_def)
  next
    case ne: False
    then have off: "off < MAXFILE * 512" using less.prems(3) by (cases src) auto
    then have small: "off < 2 ^ 31" by (simp add: max_values)
    note w = word_off [OF small]
    have bn: "off div 512 < MAXFILE" using off by (simp add: less_mult_imp_div_less)
    define k m where "k = off mod 512" and "m = min (length src) (BSIZE - k)"
    have m: "0 < m" "k + m \<le> 512" "m \<le> length src" using ne by (auto simp: m_def k_def BSIZE_def)
    have eq: "writei_loop i src (of_nat off) s = bindE (bmap i (of_nat (off div 512)) s) (\<lambda>(b, s1).
        bindE (put_data b (take k (data_of b s1) @ take m src @ drop (k + m) (data_of b s1)) s1)
          (writei_loop i (drop m src) (of_nat (off + m))))"
      using ne w by (subst writei_loop.simps) (simp add: Let_def k_def m_def)
    have b: "case bmap i (of_nat (off div 512)) s of Inl e \<Rightarrow> no_space e | Inr (a, t) \<Rightarrow> mapped D i (off div 512) s a t"
      by (rule bmap_ok [OF less.prems(1,2) bn])
    show ?thesis
    proof (cases "bmap i (of_nat (off div 512)) s")
      case (Inl e)
      then show ?thesis using b eq by simp
    next
      case (Inr x)
      then obtain a t where x: "x = (a, t)" and mp: "mapped D i (off div 512) s a t" using b by (cases x) auto
      let ?p = "put_data a (take k (data_of a t) @ take m src @ drop (k + m) (data_of a t)) t"
      have eq': "writei_loop i src (of_nat off) s = bindE ?p (writei_loop i (drop m src) (of_nat (off + m)))"
        using eq Inr x by simp
      show ?thesis
      proof (cases ?p)
        case (Inl e)
        have "1 \<le> outstanding (fs_log t)" using mp by (simp add: mapped_def same_file_def fs_ok_def)
        then show ?thesis using put_data_Inl [OF Inl] eq' Inl by (simp add: no_space_def)
      next
        case p: (Inr u)
        have wr: "written D i off (take m src) s u"
          by (rule write_one [OF less.prems(1) mp off _ m(3)]) (use m p in \<open>simp_all add: k_def\<close>)
        have "case writei_loop i (drop m src) (of_nat (off + m)) u of Inl e \<Rightarrow> no_space e
          | Inr (off', v) \<Rightarrow> off' = of_nat (off + m + length (drop m src)) \<and> written D i (off + m) (drop m src) u v"
          by (rule less.hyps) (use m less.prems(3) wr in \<open>auto simp: written_def\<close>)
        then show ?thesis using eq' p written_trans [OF wr _ m(3)] m(3) by (auto split: sum.splits)
      qed
    qed
  qed
qed

end
