(* ===== verification/Fs_Properties.thy ===== *)
theory Fs_Properties
  imports Fs_Content
begin

text \<open>
  The properties of the file system: what \<open>writei\<close> and \<open>readi\<close> do to the bytes of a file,
  that an inode comes back from the disk as it was written, and how paths are cut up.
\<close>

section \<open>Inodes on disk\<close>

lemma length_put_words:
  "k + 4 * length ws \<le> length d \<Longrightarrow> length (put_words k ws d) = length d"
  by (induction k ws d rule: put_words.induct) simp_all

lemma get32_put_words_low:
  "j + 4 \<le> k \<Longrightarrow> k + 4 * length ws \<le> length d \<Longrightarrow> get32 j (put_words k ws d) = get32 j d"
  by (induction k ws d rule: put_words.induct) simp_all

lemma get16_put_words_low:
  "j + 2 \<le> k \<Longrightarrow> k + 4 * length ws \<le> length d \<Longrightarrow> get16 j (put_words k ws d) = get16 j d"
  by (induction k ws d rule: put_words.induct) simp_all

lemma get32_put_words:
  "j < length ws \<Longrightarrow> k + 4 * length ws \<le> length d \<Longrightarrow> get32 (k + 4 * j) (put_words k ws d) = ws ! j"
proof (induction k ws d arbitrary: j rule: put_words.induct)
  case (1 k d)
  then show ?case by simp
next
  case (2 k w ws d)
  show ?case
  proof (cases j)
    case 0
    then show ?thesis using 2 by (simp add: get32_put_words_low)
  next
    case (Suc j')
    then have "get32 (k + 4 + 4 * j') (put_words (k + 4) ws (put32 k w d)) = ws ! j'"
      using 2 by (intro "2.IH") auto
    then show ?thesis using Suc by (simp add: algebra_simps)
  qed
qed

lemma length_put_dinode:
  "k + 64 \<le> length d \<Longrightarrow> length (i_addrs ip) = 13 \<Longrightarrow> length (put_dinode k ip d) = length d"
  by (simp add: put_dinode_def length_put_words)

lemma get_put_dinode:
  assumes "k + 64 \<le> length d" and "length (i_addrs ip) = 13"
  shows "get_dinode k (put_dinode k ip d) ip' = ip'\<lparr>i_type := i_type ip, i_major := i_major ip,
    i_minor := i_minor ip, i_nlink := i_nlink ip, i_size := i_size ip, i_addrs := i_addrs ip\<rparr>"
proof -
  let ?d = "put32 (k + 8) (i_size ip) (put16 (k + 6) (i_nlink ip)
       (put16 (k + 4) (i_minor ip) (put16 (k + 2) (i_major ip) (put16 k (i_type ip) d))))"
  have len: "length ?d = length d" using assms by simp
  have eq: "put_dinode k ip d = put_words (k + 12) (i_addrs ip) ?d" by (simp add: put_dinode_def)
  have "map (\<lambda>j. get32 (k + 12 + 4 * j) (put_words (k + 12) (i_addrs ip) ?d)) [0..<13] = i_addrs ip"
    by (rule nth_equalityI) (use assms len in \<open>simp_all add: get32_put_words\<close>)
  moreover have "get32 (k + 8) (put_words (k + 12) (i_addrs ip) ?d) = i_size ip"
    using assms len by (simp add: get32_put_words_low)
  moreover have "get16 (k + j) (put_words (k + 12) (i_addrs ip) ?d) = get16 (k + j) ?d" if "j + 2 \<le> 12" for j
    using assms len that by (simp add: get16_put_words_low)
  from this [of 0] this [of 2] this [of 4] this [of 6]
  have "get16 k (put_words (k + 12) (i_addrs ip) ?d) = i_type ip" "get16 (k + 2) (put_words (k + 12) (i_addrs ip) ?d) = i_major ip"
    "get16 (k + 4) (put_words (k + 12) (i_addrs ip) ?d) = i_minor ip" "get16 (k + 6) (put_words (k + 12) (i_addrs ip) ?d) = i_nlink ip"
    using assms by simp_all
  ultimately show ?thesis unfolding get_dinode_def eq by (simp add: NDIRECT_def numeral_nat)
qed

lemma dip_bound: "dip inum + 64 \<le> BSIZE"
proof -
  have "unat (inum mod IPB) < 8" by (simp add: unat_mod IPB_def)
  then show ?thesis by (simp add: dip_def BSIZE_def)
qed

text \<open>
  A file that \<open>writei\<close> and \<open>readi\<close> work on: its blocks are in order, its size is one a file
  can have, and its number is that of an inode of the disk.
\<close>

definition file_ok :: "nat \<Rightarrow> nat \<Rightarrow> fs \<Rightarrow> bool" where
  "file_ok D i s \<longleftrightarrow> inode_ok D i s \<and> unat (i_size (inode_at i s)) \<le> MAXFILE * 512 \<and>
     i_type (inode_at i s) \<noteq> T_DEV \<and> unat (i_inum (inode_at i s)) < unat (sb_ninodes (fs_sb s))"

lemma inode_ok_cong:
  assumes "inode_ok D i s" and "\<And>m. m \<le> MAXFILE \<Longrightarrow> addr_at i m t = addr_at i m s"
    and "\<And>c. c < unat (sb_size (fs_sb s)) \<Longrightarrow> used c t = used c s" and "fs_sb t = fs_sb s"
    and "length (icache t) = length (icache s)" "length (i_addrs (inode_at i t)) = length (i_addrs (inode_at i s))"
  shows "inode_ok D i t"
  using assms unfolding inode_ok_def by auto

text \<open>Writing the inode of a file changes neither the free map nor a byte of the file.\<close>

lemma iupdate_ok:
  assumes ok: "fs_ok D s" "inode_ok D i s" and inum: "unat (i_inum (inode_at i s)) < unat (sb_ninodes (fs_sb s))"
  shows "case iupdate i s of Inl e \<Rightarrow> no_space e | Inr t \<Rightarrow> fs_ok D t \<and> inode_ok D i t \<and> fs_sb t = fs_sb s \<and>
    icache t = icache s \<and> (\<forall>m < MAXFILE. fblock i m t = fblock i m s)"
proof -
  define ip b where "ip = inode_at i s" and "b = IBLOCK (i_inum ip) (fs_sb s)"
  have eq: "iupdate i s = put_data b (put_dinode (dip (i_inum ip)) ip (data_of b s)) s"
    by (simp add: iupdate_def ip_def b_def Let_def)
  have l: "layout_ok D (fs_sb s)" and len: "length (data_of b s) = BSIZE" and out: "1 \<le> outstanding (fs_log s)"
    using ok(1) by (simp_all add: fs_ok_def)
  have addrs: "length (i_addrs ip) = 13" using ok(2) by (simp add: inode_ok_def ip_def max_values)
  have lend: "length (put_dinode (dip (i_inum ip)) ip (data_of b s)) = BSIZE"
    using length_put_dinode [OF _ addrs] dip_bound len by simp
  have b: "unat b < unat (sb_bmapstart (fs_sb s))" using unat_IBLOCK(2) [OF l] inum by (simp add: b_def ip_def)
  show ?thesis
  proof (cases "iupdate i s")
    case (Inl e)
    then show ?thesis using put_data_Inl [OF _ out] eq by (simp add: no_space_def)
  next
    case (Inr t)
    then have p: "put_data b (put_dinode (dip (i_inum ip)) ip (data_of b s)) s = Inr t" using eq by simp
    note q = put_data_Inr [OF p]
    note pok = put_data_fs_ok [OF ok(1) p lend]
    have data: "data_of c t = data_of c s" if "D \<le> unat c" for c
    proof -
      have "c \<noteq> b" using that b l by (auto simp: layout_ok_def)
      then show ?thesis by (simp add: q)
    qed
    have addr: "addr_at i m t = addr_at i m s" for m
    proof -
      have "i_addrs (inode_at i s) ! NDIRECT = addr_at i MAXFILE s" by (simp add: addr_at_def max_values)
      moreover have "addr_at i MAXFILE s \<noteq> 0 \<Longrightarrow> data_of (addr_at i MAXFILE s) t = data_of (addr_at i MAXFILE s) s"
        using data inode_okD(1) [OF ok(2), of MAXFILE] by simp
      ultimately show ?thesis by (auto simp: addr_at_def q(5) Let_def)
    qed
    have "inode_ok D i t" by (rule inode_ok_cong [OF ok(2) addr]) (use pok(2) b q in simp_all)
    moreover have "fblock i m t = fblock i m s" if "m < MAXFILE" for m
      using addr data inode_okD(1) [OF ok(2), of m] that by (auto simp: fblock_def)
    ultimately show ?thesis using Inr pok(1) b q by simp
  qed
qed

lemma bind_case:
  assumes "case m of Inl e \<Rightarrow> E e | Inr x \<Rightarrow> P x" and "\<And>x. m = Inr x \<Longrightarrow> P x \<Longrightarrow> case f x of Inl e \<Rightarrow> E e | Inr y \<Rightarrow> Q y"
  shows "case bindE m f of Inl e \<Rightarrow> E e | Inr y \<Rightarrow> Q y"
  using assms by (cases m) auto

text \<open>A new size in the cached inode does not touch the blocks.\<close>

lemma set_size_ok:
  assumes "fs_ok D s" "inode_ok D i s"
  shows "fs_ok D (set_inode i (i_size_update f) s)" "inode_ok D i (set_inode i (i_size_update f) s)"
    "fblock i m (set_inode i (i_size_update f) s) = fblock i m s"
proof -
  have i: "i < length (icache s)" using assms(2) by (simp add: inode_ok_def)
  have addr: "addr_at i m (set_inode i (i_size_update f) s) = addr_at i m s" for m using i by (simp add: addr_at_def Let_def)
  have u: "used c (set_inode i (i_size_update f) s) = used c s" for c by (simp add: used_def)
  show "fs_ok D (set_inode i (i_size_update f) s)" using assms(1) u by (simp add: fs_ok_def)
  show "inode_ok D i (set_inode i (i_size_update f) s)"
    by (rule inode_ok_cong [OF assms(2) addr u]) (use i in simp_all)
  show "fblock i m (set_inode i (i_size_update f) s) = fblock i m s" by (simp add: fblock_def addr)
qed

lemma inode_rest:
  "(inode_at i t)\<lparr>i_addrs := []\<rparr> = (inode_at i s)\<lparr>i_addrs := []\<rparr> \<Longrightarrow>
     i_size (inode_at i t) = i_size (inode_at i s) \<and> i_type (inode_at i t) = i_type (inode_at i s) \<and>
     i_inum (inode_at i t) = i_inum (inode_at i s) \<and> i_dev (inode_at i t) = i_dev (inode_at i s) \<and>
     i_lock (inode_at i t) = i_lock (inode_at i s) \<and> i_ref (inode_at i t) = i_ref (inode_at i s)"
  by (cases "inode_at i t"; cases "inode_at i s") simp

text \<open>What a \<open>writei\<close> that succeeds has done.\<close>

definition file_written :: "nat \<Rightarrow> nat \<Rightarrow> nat \<Rightarrow> byte list \<Rightarrow> fs \<Rightarrow> fs \<Rightarrow> bool" where
  "file_written D i off src s t \<longleftrightarrow> fs_ok D t \<and> file_ok D i t \<and>
     unat (i_size (inode_at i t)) = (if src = [] then unat (i_size (inode_at i s))
       else max (unat (i_size (inode_at i s))) (off + length src)) \<and>
     (\<forall>p < MAXFILE * 512. fbyte i p t = (if off \<le> p \<and> p < off + length src then src ! (p - off) else fbyte i p s))"

lemma written_file:
  assumes w: "written D i off src s t" and f: "file_ok D i s" and le: "off + length src \<le> MAXFILE * 512"
  shows "case (if src \<noteq> [] \<and> of_nat (off + length src) > i_size (inode_at i t)
      then iupdate i (set_inode i (\<lambda>ip. ip\<lparr>i_size := of_nat (off + length src)\<rparr>) t) else Inr t) of
      Inl e \<Rightarrow> no_space e | Inr u \<Rightarrow> file_written D i off src s u"
proof -
  have t: "fs_ok D t" "inode_ok D i t" "fs_sb t = fs_sb s" and rest: "(inode_at i t)\<lparr>i_addrs := []\<rparr> = (inode_at i s)\<lparr>i_addrs := []\<rparr>"
    and bytes: "\<And>p. p < MAXFILE * 512 \<Longrightarrow>
      fbyte i p t = (if off \<le> p \<and> p < off + length src then src ! (p - off) else fbyte i p s)"
    using w by (auto simp: written_def)
  note r = inode_rest [OF rest]
  let ?n = "off + length src"
  have n: "unat (of_nat ?n :: uint) = ?n" using le by (intro unat_of_nat_small) (simp add: max_values)
  show ?thesis
  proof (cases "src \<noteq> [] \<and> of_nat ?n > i_size (inode_at i t)")
    case False
    then have "src = [] \<or> ?n \<le> unat (i_size (inode_at i s))" using r n by (auto simp: word_less_nat_alt not_less)
    then have "file_written D i off src s t"
      using t bytes r f by (auto simp: file_written_def file_ok_def max_def)
    then show ?thesis using False by (simp only: if_False sum.case)
  next
    case True
    let ?t = "set_inode i (\<lambda>ip. ip\<lparr>i_size := of_nat ?n\<rparr>) t"
    have i: "i < length (icache t)" using t(2) by (simp add: inode_ok_def)
    note s = set_size_ok [OF t(1,2), where f = "\<lambda>_. of_nat ?n"]
    have inum: "unat (i_inum (inode_at i ?t)) < unat (sb_ninodes (fs_sb ?t))"
      using f r t(3) i by (simp add: file_ok_def)
    note u = iupdate_ok [OF s(1,2) inum]
    have "file_written D i off src s v" if "iupdate i ?t = Inr v" for v
    proof -
      have v: "fs_ok D v" "inode_ok D i v" "fs_sb v = fs_sb s" "icache v = icache ?t"
        and vb: "\<And>m. m < MAXFILE \<Longrightarrow> fblock i m v = fblock i m t"
        using u that t(3) s(3) by auto
      have at: "inode_at i v = (inode_at i t)\<lparr>i_size := of_nat ?n\<rparr>" using v(4) i by (simp add: inode_at_def set_inode_def)
      have size: "unat (i_size (inode_at i v)) = ?n" using at n by simp
      have "unat (i_size (inode_at i s)) < ?n" using True r n by (simp add: word_less_nat_alt)
      moreover have "file_ok D i v" using v f r at size le by (simp add: file_ok_def)
      moreover have "fbyte i p v = fbyte i p t" if "p < MAXFILE * 512" for p
        using vb [of "p div 512"] that by (simp add: fbyte_def less_mult_imp_div_less)
      ultimately show ?thesis using v size True bytes by (simp add: file_written_def)
    qed
    then show ?thesis using u True by (auto split: sum.splits)
  qed
qed

lemma writei_ok:
  assumes "fs_ok D s" and "file_ok D i s" and "length src = n" and "off \<le> unat (i_size (inode_at i s))"
    and "off + n \<le> MAXFILE * 512"
  shows "case writei dv i src (of_nat off) (of_nat n) s of
      Inl e \<Rightarrow> no_space e
    | Inr (r, t) \<Rightarrow> r = int n \<and> file_written D i off src s t"
proof -
  have small: "off + n < 2 ^ 31" using assms(5) by (simp add: max_values)
  have u: "unat (of_nat n :: uint) = n" "unat (of_nat off :: uint) = off" "unat (of_nat (off + n) :: uint) = off + n"
    using small by (intro unat_of_nat_small; simp)+
  have sn: "sint (of_nat n :: uint) = int n" using sint_eq_unat [of "of_nat n"] u small by simp
  have g: "i_type (inode_at i s) \<noteq> T_DEV" "\<not> of_nat off > i_size (inode_at i s)"
    "\<not> of_nat off + of_nat n < (of_nat off :: uint)" "\<not> unat ((of_nat off :: uint) + of_nat n) > MAXFILE * BSIZE"
    using assms u by (simp_all add: file_ok_def word_less_nat_alt BSIZE_def not_less flip: of_nat_add)
  have n0: "(of_nat n :: uint) > 0 \<longleftrightarrow> src \<noteq> []" using u assms(3) by (auto simp: word_less_nat_alt)
  have eq: "writei dv i src (of_nat off) (of_nat n) s = bindE (writei_loop i src (of_nat off) s) (\<lambda>(off, t).
      mapE (\<lambda>t. (int n, t)) (if src \<noteq> [] \<and> off > i_size (inode_at i t)
        then iupdate i (set_inode i (\<lambda>ip. ip\<lparr>i_size := off\<rparr>) t) else Inr t))"
    using g n0 u sn assms(3) by (auto simp: writei_def Let_def intro!: arg_cong [where f = "bindE _"] ext)
  have loop: "case writei_loop i src (of_nat off) s of Inl e \<Rightarrow> no_space e
    | Inr (off', t) \<Rightarrow> off' = of_nat (off + length src) \<and> written D i off src s t"
    by (rule writei_loop_ok) (use assms in \<open>simp_all add: file_ok_def\<close>)
  show ?thesis unfolding eq
  proof (rule bind_case [OF loop])
    fix x :: "uint \<times> fs" assume "case x of (off', t) \<Rightarrow> off' = of_nat (off + length src) \<and> written D i off src s t"
    then obtain t where x: "x = (of_nat (off + length src), t)" and w: "written D i off src s t" by (cases x) auto
    show "case (case x of (off, t) \<Rightarrow> mapE (\<lambda>t. (int n, t)) (if src \<noteq> [] \<and> off > i_size (inode_at i t)
        then iupdate i (set_inode i (\<lambda>ip. ip\<lparr>i_size := off\<rparr>) t) else Inr t)) of
        Inl e \<Rightarrow> no_space e | Inr (r, t) \<Rightarrow> r = int n \<and> file_written D i off src s t"
      using written_file [OF w assms(2)] assms(3,5) unfolding x by (auto split: sum.splits)
  qed
qed

lemma readi_ok:
  assumes "fs_ok D s" and "file_ok D i s" and "off \<le> unat (i_size (inode_at i s))" and "off + n < 2 ^ 31"
  defines "z \<equiv> min (off + n) (unat (i_size (inode_at i s)))"
  shows "case readi dv i (of_nat off) (of_nat n) s of
      Inl e \<Rightarrow> no_space e
    | Inr (r, bs, t) \<Rightarrow> r = int (z - off) \<and> bs = map (\<lambda>p. fbyte i p s) [off..<z] \<and> same_file D i s t"
proof -
  have u: "unat (of_nat n :: uint) = n" "unat (of_nat off :: uint) = off" "unat (of_nat (off + n) :: uint) = off + n"
    using assms(4) by (intro unat_of_nat_small; simp)+
  let ?size = "i_size (inode_at i s)"
  define m where "m = z - off"
  have z: "off + m = z" "m \<le> n" using assms(3) by (auto simp: z_def m_def)
  have g: "i_type (inode_at i s) \<noteq> T_DEV" "\<not> of_nat off > ?size" "\<not> of_nat off + of_nat n < (of_nat off :: uint)"
    using assms u by (simp_all add: file_ok_def word_less_nat_alt not_less flip: of_nat_add)
  have size: "unat ?size \<le> MAXFILE * 512" using assms(2) by (simp add: file_ok_def)
  have m: "(if of_nat off + of_nat n > ?size then ?size - of_nat off else of_nat n :: uint) = of_nat m"
  proof (cases "off + n > unat ?size")
    case True
    then have "m = unat ?size - off" using z assms(3) by (simp add: m_def z_def)
    moreover have "?size - of_nat off = of_nat (unat ?size - off)" using assms(3) by (simp add: of_nat_diff)
    ultimately show ?thesis using True u by (simp add: word_less_nat_alt flip: of_nat_add)
  next
    case False
    then have "m = n" using assms(3) by (simp add: m_def z_def)
    then show ?thesis using False u by (simp add: word_less_nat_alt flip: of_nat_add)
  qed
  have um: "unat (of_nat m :: uint) = m" using z assms(4) by (intro unat_of_nat_small) simp
  have sm: "sint (of_nat m :: uint) = int m" using sint_eq_unat [of "of_nat m"] um z assms(4) by simp
  have eq: "readi dv i (of_nat off) (of_nat n) s = mapE (\<lambda>(bs, s). (int m, bs, s)) (readi_loop i (of_nat off) m s)"
    using g m um sm by (simp add: readi_def Let_def)
  have "case readi_loop i (of_nat off) m s of Inl e \<Rightarrow> no_space e
    | Inr (bs, t) \<Rightarrow> same_file D i s t \<and> bs = map (\<lambda>p. fbyte i p s) [off..<off + m]"
    by (rule readi_loop_ok) (use assms size z in \<open>auto simp: file_ok_def z_def\<close>)
  then show ?thesis unfolding eq using z by (auto simp: m_def split: sum.splits)
qed

section \<open>A small disk\<close>

text \<open>
  100 blocks: inodes in block 32 and 33, the free map in block 34, data from block 35 on,
  all of them free. The cache has the empty file 2 and, locked, the root directory 1.
\<close>

definition demo_sb :: superblock where
  "demo_sb = \<lparr>sb_size = 100, sb_nblocks = 65, sb_ninodes = 8, sb_nlog = 31, sb_logstart = 2,
     sb_inodestart = 32, sb_bmapstart = 34\<rparr>"

definition demo_map :: block where
  "demo_map = [255, 255, 255, 255, 7] @ replicate 507 0"

definition demo_inode :: "uint \<Rightarrow> 16 word \<Rightarrow> inode" where
  "demo_inode inum ty = \<lparr>i_dev = 1, i_inum = inum, i_ref = 1, i_lock = \<lparr>sl_locked = True, sl_pid = 1\<rparr>, i_valid = True,
     i_type = ty, i_major = 0, i_minor = 0, i_nlink = 1, i_size = 0, i_addrs = replicate 13 0\<rparr>"

definition demo_fs :: fs where
  "demo_fs = \<lparr>fs_log = \<lparr>lstart = 2, lsize = 31, outstanding = 1, committing = False, lh = []\<rparr>,
     fs_store = \<lparr>disk = (\<lambda>b. if b = 34 then demo_map else zero_block), pinned = (\<lambda>_. None), writes = []\<rparr>,
     fs_sb = demo_sb, icache = [demo_inode 2 T_FILE, demo_inode 1 T_DIR]\<rparr>"

lemma demo_data: "data_of b demo_fs = (if b = 34 then demo_map else zero_block)"
  by (simp add: data_of_def blk_def demo_fs_def)

lemma demo_bits: "b < 35 \<Longrightarrow> bit_set demo_map b" "\<not> bit_set demo_map 35"
proof -
  have "\<forall>b \<in> set [0..<35]. bit ([255, 255, 255, 255, 7 :: byte] ! (b div 8)) (b mod 8)" by code_simp
  then have bits: "bit ([255, 255, 255, 255, 7 :: byte] ! (b div 8)) (b mod 8)" if "b < 35" for b
    using that by simp
  have "demo_map ! n = [255, 255, 255, 255, 7] ! n" if "n < 5" for n using that unfolding demo_map_def nth_append by simp
  moreover have "b div 8 < 5" if "b < 35" for b :: nat using that by (simp add: less_mult_imp_div_less)
  ultimately show "b < 35 \<Longrightarrow> bit_set demo_map b" using bits by (simp add: bit_set_iff)
  show "\<not> bit_set demo_map 35" by (simp add: bit_set_iff demo_map_def)
qed

lemma demo_layout: "layout_ok 35 (fs_sb demo_fs)" "fs_sb demo_fs = demo_sb" "unat (sb_size demo_sb) = 100"
  by (simp_all add: layout_ok_def demo_fs_def demo_sb_def)

lemma demo_BBLOCK: "b < 100 \<Longrightarrow> BBLOCK (of_nat b) demo_sb = 34"
  using unat_BBLOCK(1) [of 35 demo_sb b] demo_layout by (simp add: word_unat_eq_iff) (simp add: demo_sb_def)

lemma demo_used: "b < 100 \<Longrightarrow> used b demo_fs \<longleftrightarrow> bit_set demo_map b"
  using demo_BBLOCK demo_layout by (simp add: used_def demo_data)

lemma demo_fs_ok: "fs_ok 35 demo_fs"
proof -
  have "length (data_of b demo_fs) = BSIZE" for b by (simp add: demo_data demo_map_def BSIZE_def zero_block_def)
  moreover have "outstanding (fs_log demo_fs) = 1" by (simp add: demo_fs_def)
  ultimately show ?thesis using demo_used demo_bits(1) demo_layout by (simp add: fs_ok_def)
qed

lemma demo_file_ok: "file_ok 35 0 demo_fs"
proof -
  have ip: "inode_at 0 demo_fs = demo_inode 2 T_FILE" by (simp add: inode_at_def demo_fs_def)
  have "addr_at 0 m demo_fs = 0" if "m \<le> MAXFILE" for m
    using that by (auto simp: addr_at_def ip demo_inode_def max_values Let_def)
  then have "inode_ok 35 0 demo_fs"
    by (simp add: inode_ok_def ip) (simp add: demo_fs_def demo_inode_def max_values)
  then show ?thesis by (simp add: file_ok_def ip demo_inode_def) (simp add: demo_fs_def demo_sb_def T_DEV_def T_FILE_def)
qed

abbreviation no_dev :: devsw where "no_dev \<equiv> (\<lambda>_. None, \<lambda>_. None)"

text \<open>Writing three bytes to the empty file takes block 35.\<close>

lemma put_data_room:
  assumes "length (lh (fs_log s)) < LOGSIZE" "int (length (lh (fs_log s))) < lsize (fs_log s) - 1" "outstanding (fs_log s) = 1"
  shows "\<exists>t. put_data b d s = Inr t \<and> length (lh (fs_log t)) \<le> Suc (length (lh (fs_log s))) \<and>
    lsize (fs_log t) = lsize (fs_log s) \<and> outstanding (fs_log t) = 1 \<and> icache t = icache s \<and> fs_sb t = fs_sb s"
  using assms by (auto simp: put_data_def log_write_def)

lemma demo_balloc: "\<exists>t. balloc demo_fs = Inr (35, t) \<and> icache t = icache demo_fs \<and> length (lh (fs_log t)) \<le> 2 \<and>
    lsize (fs_log t) = 31 \<and> outstanding (fs_log t) = 1 \<and> fs_sb t = demo_sb"
proof -
  have "free_bit 0 demo_fs = List.find (\<lambda>b. \<not> bit_set demo_map b) [0..<100]"
    using demo_BBLOCK [of 0] by (simp add: free_bit_def demo_layout BPB_def demo_data)
  also have "\<dots> = Some 35" unfolding find_Some_iff using demo_bits by (intro exI [of _ 35]) simp
  finally have f: "free_bit 0 demo_fs = Some 35" .
  have l: "lh (fs_log demo_fs) = []" "lsize (fs_log demo_fs) = 31" "outstanding (fs_log demo_fs) = 1"
    by (simp_all add: demo_fs_def)
  obtain s1 where s1: "put_data 34 (mark_bit demo_map 35) demo_fs = Inr s1" "length (lh (fs_log s1)) \<le> 1"
    "lsize (fs_log s1) = 31" "outstanding (fs_log s1) = 1" "icache s1 = icache demo_fs" "fs_sb s1 = demo_sb"
    using put_data_room [of demo_fs 34 "mark_bit demo_map 35"] l demo_layout by (auto simp: LOGSIZE_def)
  obtain t where t: "bzero 35 s1 = Inr t" "length (lh (fs_log t)) \<le> 2"
    "lsize (fs_log t) = 31" "outstanding (fs_log t) = 1" "icache t = icache demo_fs" "fs_sb t = demo_sb"
    using put_data_room [of s1 35 "replicate BSIZE 0"] s1 by (auto simp: LOGSIZE_def bzero_def)
  have "balloc demo_fs = Inr (35, t)"
    using f s1(1) t(1) demo_BBLOCK [of 0] demo_layout
    by (subst balloc_def, subst balloc_loop.simps) (simp add: Let_def demo_data)
  with t show ?thesis by blast
qed

lemma demo_write: "\<exists>t. writei dv 0 [5, 6, 7] 0 3 demo_fs = Inr (3, t)"
proof -
  obtain t where t: "balloc demo_fs = Inr (35, t)" "icache t = icache demo_fs" "length (lh (fs_log t)) \<le> 2"
    "lsize (fs_log t) = 31" "outstanding (fs_log t) = 1" "fs_sb t = demo_sb" using demo_balloc by blast
  have ip: "inode_at 0 demo_fs = demo_inode 2 T_FILE" "inode_at 0 t = demo_inode 2 T_FILE"
    using t(2) by (simp_all add: inode_at_def demo_fs_def)
  have len: "0 < length (icache t)" using t(2) by (simp add: demo_fs_def)
  define u where "u = set_addr 0 0 35 t"
  have bm: "bmap 0 0 demo_fs = Inr (35, u)"
    by (simp add: bmap_def max_values addr_alloc_def ip t(1) u_def demo_inode_def)
  have u: "inode_at 0 u = (demo_inode 2 T_FILE)\<lparr>i_addrs := (replicate 13 0)[0 := 35]\<rparr>" "length (lh (fs_log u)) \<le> 2"
    "lsize (fs_log u) = 31" "outstanding (fs_log u) = 1" "0 < length (icache u)"
    using t ip len by (simp_all add: u_def set_addr_def demo_inode_def)
  obtain v where v: "put_data 35 ([5, 6, 7] @ drop 3 (data_of 35 u)) u = Inr v" "length (lh (fs_log v)) \<le> 3"
    "lsize (fs_log v) = 31" "outstanding (fs_log v) = 1" "icache v = icache u"
    using put_data_room [of u 35 "[5, 6, 7] @ drop 3 (data_of 35 u)"] u by (auto simp: LOGSIZE_def)
  have "writei_loop 0 [5, 6, 7] 0 demo_fs = bindE (put_data 35 ([5, 6, 7] @ drop 3 (data_of 35 u)) u) (writei_loop 0 [] 3)"
    by (subst writei_loop.simps) (simp add: bm BSIZE_def numeral_3_eq_3)
  then have loop: "writei_loop 0 [5, 6, 7] 0 demo_fs = Inr (3, v)"
    unfolding v(1) by (simp add: writei_loop.simps [of _ "[]"])
  have at: "inode_at 0 v = inode_at 0 u" using v(5) by (simp add: inode_at_def)
  let ?w = "set_inode 0 (\<lambda>ip. ip\<lparr>i_size := 3\<rparr>) v"
  obtain w where w: "iupdate 0 ?w = Inr w"
    using put_data_room [of ?w] v by (auto simp: iupdate_def Let_def LOGSIZE_def)
  show ?thesis using ip u(1) loop at w
    by (simp add: writei_def Let_def demo_inode_def T_DEV_def T_FILE_def max_values BSIZE_def)
qed

section \<open>The properties of files\<close>

text \<open>
  C7. \<open>writei\<close> either runs out of space (in the log or on the disk), or writes all bytes:
  afterwards the file has the bytes of \<open>src\<close> from \<open>off\<close> on and its old bytes elsewhere,
  its size has grown to hold them, and its blocks are still blocks of its own.
\<close>

theorem writei_writes:
  assumes "fs_ok D s" and "file_ok D i s" and "length src = n" and "off \<le> unat (i_size (inode_at i s))"
    and "off + n \<le> MAXFILE * 512"
  shows "case writei dv i src (of_nat off) (of_nat n) s of
      Inl e \<Rightarrow> no_space e
    | Inr (r, t) \<Rightarrow> r = int n \<and> file_written D i off src s t"
  using assms by (rule writei_ok)

text \<open>The theorem at this file: the three bytes are in the file, whose size is now 3.\<close>

theorem writei_writes_witness:
  "\<exists>t. writei no_dev 0 [5, 6, 7] 0 3 demo_fs = Inr (3, t) \<and> file_written 35 0 0 [5, 6, 7] demo_fs t"
proof -
  have "case writei no_dev 0 [5, 6, 7] (of_nat 0) (of_nat 3) demo_fs of Inl e \<Rightarrow> no_space e
    | Inr (r, t) \<Rightarrow> r = int 3 \<and> file_written 35 0 0 [5, 6, 7] demo_fs t"
    by (rule writei_writes [OF demo_fs_ok demo_file_ok]) (simp_all add: max_values)
  moreover obtain t where "writei no_dev 0 [5, 6, 7] 0 3 demo_fs = Inr (3, t)" using demo_write by blast
  ultimately show ?thesis by simp
qed

text \<open>
  C8. \<open>readi\<close> delivers the bytes of the file from \<open>off\<close> on, as many as are asked for and as
  the file has, and leaves the file as it was; it can only fail for want of space, since
  reading a hole allocates a block.
\<close>

theorem readi_reads:
  assumes "fs_ok D s" and "file_ok D i s" and "off \<le> unat (i_size (inode_at i s))" and "off + n < 2 ^ 31"
  shows "case readi dv i (of_nat off) (of_nat n) s of
      Inl e \<Rightarrow> no_space e
    | Inr (r, bs, t) \<Rightarrow> r = int (min (off + n) (unat (i_size (inode_at i s))) - off) \<and>
        bs = map (\<lambda>p. fbyte i p s) [off..<min (off + n) (unat (i_size (inode_at i s)))] \<and> same_file D i s t"
  using assms by (rule readi_ok)

theorem readi_reads_witness:
  "\<exists>t. readi no_dev 0 0 9 demo_fs = Inr (0, [], t) \<and> same_file 35 0 demo_fs t"
proof -
  have size: "i_size (inode_at 0 demo_fs) = 0" by (simp add: inode_at_def demo_fs_def demo_inode_def)
  have "case readi no_dev 0 (of_nat 0) (of_nat 9) demo_fs of Inl e \<Rightarrow> no_space e
    | Inr (r, bs, t) \<Rightarrow> r = int (min (0 + 9) (unat (i_size (inode_at 0 demo_fs))) - 0) \<and>
        bs = map (\<lambda>p. fbyte 0 p demo_fs) [0..<min (0 + 9) (unat (i_size (inode_at 0 demo_fs)))] \<and> same_file 35 0 demo_fs t"
    by (rule readi_reads [OF demo_fs_ok demo_file_ok]) simp_all
  moreover have "\<exists>t. readi no_dev 0 0 9 demo_fs = Inr (0, [], t)"
    using size by (simp add: readi_def Let_def readi_loop.simps [of _ _ 0])
      (simp add: inode_at_def demo_fs_def demo_inode_def T_DEV_def T_FILE_def)
  ultimately show ?thesis by auto
qed

text \<open>
  What \<open>writei\<close> has written is what \<open>readi\<close> reads at the same place, whatever blocks
  the bytes are in, and whether \<open>writei\<close> had to allocate them or not.
\<close>

lemma write_then_read:
  assumes "fs_ok D s" and "file_ok D i s" and "length src = n" and "off \<le> unat (i_size (inode_at i s))"
    and "off + n \<le> MAXFILE * 512" and "writei dv i src (of_nat off) (of_nat n) s = Inr (r, t)"
  shows "case readi dv i (of_nat off) (of_nat n) t of Inl e \<Rightarrow> no_space e | Inr (r, bs, u) \<Rightarrow> r = int n \<and> bs = src"
proof -
  have w: "file_written D i off src s t" using writei_ok [OF assms(1-5), of dv] assms(6) by simp
  then have t: "fs_ok D t" "file_ok D i t" and size: "off + n \<le> unat (i_size (inode_at i t)) \<or> n = 0"
    and off: "off \<le> unat (i_size (inode_at i t))"
    using assms(3,4) by (auto simp: file_written_def)
  have "off + n < 2 ^ 31" using assms(5) by (simp add: max_values)
  from readi_ok [OF t off this, of dv] have "case readi dv i (of_nat off) (of_nat n) t of Inl e \<Rightarrow> no_space e
    | Inr (r, bs, u) \<Rightarrow> r = int n \<and> bs = map (\<lambda>p. fbyte i p t) [off..<off + n]"
    using size off by (auto simp: min_def split: sum.splits)
  moreover have "map (\<lambda>p. fbyte i p t) [off..<off + n] = src"
    by (rule nth_equalityI) (use w assms(3,5) in \<open>auto simp: file_written_def\<close>)
  ultimately show ?thesis by (auto split: sum.splits)
qed

lemma write_then_read_witness:
  "\<exists>t. writei no_dev 0 [5, 6, 7] 0 3 demo_fs = Inr (3, t) \<and>
     (case readi no_dev 0 0 3 t of Inl e \<Rightarrow> no_space e | Inr (r, bs, u) \<Rightarrow> r = 3 \<and> bs = [5, 6, 7])"
proof -
  obtain t where t: "writei no_dev 0 [5, 6, 7] 0 3 demo_fs = Inr (3, t)" using demo_write by blast
  have "case readi no_dev 0 (of_nat 0) (of_nat 3) t of Inl e \<Rightarrow> no_space e | Inr (r, bs, u) \<Rightarrow> r = int 3 \<and> bs = [5, 6, 7]"
    by (rule write_then_read [OF demo_fs_ok demo_file_ok, where dv = no_dev and r = 3]) (simp_all add: t max_values)
  then have "case readi no_dev 0 0 3 t of Inl e \<Rightarrow> no_space e | Inr (r, bs, u) \<Rightarrow> r = 3 \<and> bs = [5, 6, 7]"
    by (auto split: sum.splits)
  with t show ?thesis by blast
qed

text \<open>
  An inode written by \<open>iupdate\<close> comes back when it is read again into another entry
  of the cache: type, device numbers, links, size and block addresses.
\<close>

lemma inode_survives:
  assumes "fs_ok D s" and "length (i_addrs (inode_at i s)) = 13" and "i_type (inode_at i s) \<noteq> 0"
    and "iupdate i s = Inr t" and "j < length (icache s)" and "i_inum (inode_at j s) = i_inum (inode_at i s)"
    and "1 \<le> i_ref (inode_at j s)" and "\<not> i_valid (inode_at j s)" and "\<not> sl_locked (i_lock (inode_at j s))"
  shows "\<exists>u. ilock pid j t = Inr u \<and> i_valid (inode_at j u) \<and>
    i_type (inode_at j u) = i_type (inode_at i s) \<and> i_major (inode_at j u) = i_major (inode_at i s) \<and>
    i_minor (inode_at j u) = i_minor (inode_at i s) \<and> i_nlink (inode_at j u) = i_nlink (inode_at i s) \<and>
    i_size (inode_at j u) = i_size (inode_at i s) \<and> i_addrs (inode_at j u) = i_addrs (inode_at i s)"
proof -
  define ip b where "ip = inode_at i s" and "b = IBLOCK (i_inum ip) (fs_sb s)"
  have p: "put_data b (put_dinode (dip (i_inum ip)) ip (data_of b s)) s = Inr t"
    using assms(4) by (simp add: iupdate_def ip_def b_def Let_def)
  note q = put_data_Inr [OF p]
  have len: "dip (i_inum ip) + 64 \<le> length (data_of b s)" using assms(1) dip_bound by (simp add: fs_ok_def)
  have at: "inode_at j t = inode_at j s" using q(2) by (simp add: inode_at_def)
  have jl: "j < length (icache t)" using q(2) assms(5) by simp
  note g = get_put_dinode [OF len, of ip]
  show ?thesis using assms(2,3,6-9) at jl g q(1,3)
    by (simp add: ilock_def Let_def ip_def b_def)
qed

lemma inode_survives_witness:
  "\<exists>s t u. iupdate 0 s = Inr t \<and> ilock 9 1 t = Inr u \<and> i_size (inode_at 1 u) = 7 \<and> i_addrs (inode_at 1 u) = [36] @ replicate 12 0"
proof -
  let ?s = "demo_fs\<lparr>icache := [(demo_inode 2 T_FILE)\<lparr>i_size := 7, i_addrs := [36] @ replicate 12 0\<rparr>,
    (demo_inode 2 0)\<lparr>i_valid := False, i_lock := \<lparr>sl_locked = False, sl_pid = 0\<rparr>\<rparr>]\<rparr>"
  have ok: "fs_ok 35 ?s"
    using demo_fs_ok by (simp add: fs_ok_def used_def data_of_def)
  have at: "inode_at 0 ?s = (demo_inode 2 T_FILE)\<lparr>i_size := 7, i_addrs := [36] @ replicate 12 0\<rparr>"
    "inode_at 1 ?s = (demo_inode 2 0)\<lparr>i_valid := False, i_lock := \<lparr>sl_locked = False, sl_pid = 0\<rparr>\<rparr>"
    by (simp_all add: inode_at_def)
  obtain t where t: "iupdate 0 ?s = Inr t"
    using put_data_room [of ?s] by (auto simp: iupdate_def Let_def demo_fs_def LOGSIZE_def)
  have "\<exists>u. ilock 9 1 t = Inr u \<and> i_valid (inode_at 1 u) \<and>
    i_type (inode_at 1 u) = i_type (inode_at 0 ?s) \<and> i_major (inode_at 1 u) = i_major (inode_at 0 ?s) \<and>
    i_minor (inode_at 1 u) = i_minor (inode_at 0 ?s) \<and> i_nlink (inode_at 1 u) = i_nlink (inode_at 0 ?s) \<and>
    i_size (inode_at 1 u) = i_size (inode_at 0 ?s) \<and> i_addrs (inode_at 1 u) = i_addrs (inode_at 0 ?s)"
    by (rule inode_survives [OF ok _ _ t]) (simp_all only: at, simp_all add: demo_inode_def T_FILE_def)
  then obtain u where u: "ilock 9 1 t = Inr u" "i_size (inode_at 1 u) = i_size (inode_at 0 ?s)"
    "i_addrs (inode_at 1 u) = i_addrs (inode_at 0 ?s)" by blast
  show ?thesis by (rule exI [of _ ?s], rule exI [of _ t], rule exI [of _ u]) (use t u at in simp)
qed

section \<open>Paths\<close>

text \<open>The reference: a path is cut at its slashes, and empty parts do not count.\<close>

fun split_at :: "byte \<Rightarrow> byte list \<Rightarrow> byte list list" where
  "split_at d [] = [[]]"
| "split_at d (c # s) = (if c = d then [] # split_at d s
     else (case split_at d s of [] \<Rightarrow> [[c]] | w # ws \<Rightarrow> (c # w) # ws))"

definition elements :: "byte list \<Rightarrow> byte list list" where
  "elements path = filter (\<lambda>w. w \<noteq> []) (split_at slash path)"

text \<open>The names \<open>skipelem\<close> delivers one after the other, as \<open>namex\<close> calls it.\<close>

function walk :: "byte list \<Rightarrow> byte list \<Rightarrow> byte list list" where
  "walk path name =
     (case skipelem path name of
        Inr (Some path', name') \<Rightarrow> name' # walk path' name'
      | _ \<Rightarrow> [])"
  by pat_completeness auto
termination
  by (relation "measure (\<lambda>(path, name). length path)") (auto dest: skipelem_shorter)

declare walk.simps [simp del]

lemma split_at_nonempty: "split_at d s \<noteq> []"
  by (induction d s rule: split_at.induct) (auto split: list.splits)

lemma split_at_word: "d \<notin> set w \<Longrightarrow> split_at d w = [w]"
  by (induction d w rule: split_at.induct) auto

lemma split_at_append: "d \<notin> set w \<Longrightarrow> split_at d (w @ d # s) = w # split_at d s"
  by (induction d w rule: split_at.induct) auto

lemma elements_slash: "elements (slash # s) = elements s"
  by (simp add: elements_def)

lemma elements_skip: "elements (skip_slashes s) = elements s"
proof (induction s)
  case (Cons c s)
  then show ?case using elements_slash by (simp add: skip_slashes_def)
qed (simp add: skip_slashes_def)

lemma cstr_skip_slashes: "cstr (skip_slashes p) = skip_slashes (cstr p)"
  by (induction p) (auto simp: skip_slashes_def)

lemma zero_skip: "0 \<in> set p \<Longrightarrow> 0 \<in> set (skip_slashes p)"
  by (induction p) (auto simp: skip_slashes_def)

text \<open>The element at the beginning of a path, and what follows it.\<close>

lemma skip_name_split:
  assumes "0 \<in> set p"
  shows "\<exists>w c r. p = w @ c # r \<and> skip_name p = c # r \<and> (c = slash \<or> c = 0) \<and> slash \<notin> set w \<and> 0 \<notin> set w"
  using assms
proof (induction p)
  case (Cons x p)
  show ?case
  proof (cases "x = slash \<or> x = 0")
    case True
    then show ?thesis by (intro exI [of _ "[]"] exI [of _ x] exI [of _ p]) (auto simp: skip_name_def)
  next
    case False
    then have "0 \<in> set p" using Cons.prems by auto
    then obtain w c r where "p = w @ c # r" "skip_name p = c # r" "c = slash \<or> c = 0" "slash \<notin> set w" "0 \<notin> set w"
      using Cons.IH by blast
    then show ?thesis using False
      by (intro exI [of _ "x # w"] exI [of _ c] exI [of _ r]) (auto simp: skip_name_def)
  qed
qed simp

lemma skipelem_step:
  assumes z: "0 \<in> set path" and name: "length name = DIRSIZ"
  shows "if elements (cstr path) = [] then skipelem path name = Inr (None, name)
    else \<exists>path' name'. skipelem path name = Inr (Some path', name') \<and> 0 \<in> set path' \<and> length name' = DIRSIZ \<and>
      cstr name' = take DIRSIZ (hd (elements (cstr path))) \<and> elements (cstr path') = tl (elements (cstr path))"
proof -
  define p where "p = skip_slashes path"
  have e: "elements (cstr p) = elements (cstr path)" by (simp add: p_def cstr_skip_slashes elements_skip)
  have pz: "0 \<in> set p" unfolding p_def using z by (rule zero_skip)
  then obtain c q where p: "p = c # q" by (cases p) auto
  have cs: "c \<noteq> slash" using p hd_dropWhile [of "\<lambda>c. c = slash" path] by (auto simp: p_def skip_slashes_def)
  show ?thesis
  proof (cases "c = 0")
    case True
    then have "elements (cstr path) = []" using e p by (simp add: elements_def)
    moreover have "skipelem path name = Inr (None, name)"
      using p True by (simp add: skipelem_def p_def [symmetric])
    ultimately show ?thesis by simp
  next
    case False
    obtain w d r where w: "p = w @ d # r" "skip_name p = d # r" "d = slash \<or> d = 0" "slash \<notin> set w" "0 \<notin> set w"
      using skip_name_split [OF pz] by blast
    have wne: "w \<noteq> []" using w(1,3) p False cs by (cases w) auto
    have dz: "0 \<in> set (d # r)" using pz w(1,5) by auto
    have es: "elements (cstr p) = w # elements (cstr (d # r))"
    proof -
      have "cstr p = w @ cstr (d # r)" unfolding w(1) using w(5) by (induction w) auto
      moreover have "elements (w @ cstr (d # r)) = w # elements (cstr (d # r))"
        using w(3,4) wne split_at_append [of slash w "cstr r"] split_at_word [of slash w]
        by (auto simp: elements_def)
      ultimately show ?thesis by simp
    qed
    define name' where "name' = (if length w \<ge> DIRSIZ then take DIRSIZ w else w @ 0 # drop (length w + 1) name)"
    have sk: "skipelem path name = Inr (Some (skip_slashes (d # r)), name')"
    proof -
      have cq: "c # q = w @ d # r" using p w(1) by simp
      have n: "length (c # q) - length (d # r) = length w" unfolding cq by simp
      have tk: "take k (c # q) = take k w" if "k \<le> length w" for k unfolding cq using that by simp
      have "skip_name (c # q) = d # r" using w(2) p by simp
      then show ?thesis
        using False n tk unfolding skipelem_def p_def [symmetric] p list.case Let_def name'_def by simp
    qed
    have "length name' = DIRSIZ" using name by (auto simp: name'_def)
    moreover have "cstr name' = take DIRSIZ w"
    proof (cases "length w \<ge> DIRSIZ")
      case True
      have "0 \<notin> set (take DIRSIZ w)" using w(5) by (meson in_set_takeD)
      then show ?thesis using True by (simp add: name'_def cstr_no_nul)
    next
      case False
      then show ?thesis using cstr_no_nul [OF w(5)] by (simp add: name'_def)
    qed
    moreover have "elements (cstr (skip_slashes (d # r))) = elements (cstr (d # r))"
      by (simp only: cstr_skip_slashes elements_skip)
    moreover have "0 \<in> set (skip_slashes (d # r))"
      using dz by (rule zero_skip)
    ultimately show ?thesis using sk es e by simp
  qed
qed

text \<open>
  The names that \<open>skipelem\<close> cuts off a path one after the other are the parts of the
  path between its slashes, each shortened to the 14 bytes a directory entry has room for.
\<close>

lemma path_elements:
  assumes "0 \<in> set path" and "length name = DIRSIZ"
  shows "map cstr (walk path name) = map (take DIRSIZ) (elements (cstr path))"
  using assms
proof (induction "length path" arbitrary: path name rule: less_induct)
  case less
  show ?case
  proof (cases "elements (cstr path) = []")
    case True
    then show ?thesis using skipelem_step [OF less.prems] by (subst walk.simps) simp
  next
    case False
    then obtain path' name' where s: "skipelem path name = Inr (Some path', name')" "0 \<in> set path'"
      "length name' = DIRSIZ" "cstr name' = take DIRSIZ (hd (elements (cstr path)))"
      "elements (cstr path') = tl (elements (cstr path))"
      using skipelem_step [OF less.prems] by auto
    have "map cstr (walk path' name') = map (take DIRSIZ) (elements (cstr path'))"
      by (rule less.hyps [OF skipelem_shorter [OF s(1)] s(2,3)])
    then show ?thesis using s False by (subst walk.simps) (cases "elements (cstr path)"; simp)
  qed
qed

lemma path_elements_witness:
  "map cstr (walk [47, 97, 47, 47, 98, 0] (replicate 14 0)) = [[97], [98]]"
proof -
  have "map cstr (walk [47, 97, 47, 47, 98, 0] (replicate 14 0)) = map (take DIRSIZ) (elements (cstr [47, 97, 47, 47, 98, 0]))"
    by (rule path_elements) (simp_all add: DIRSIZ_def)
  also have "\<dots> = [[97], [98]]" by (simp add: elements_def DIRSIZ_def)
  finally show ?thesis .
qed

section \<open>A link with the name of the directory itself\<close>

text \<open>
  When the name given to \<open>dirlink\<close> is found and denotes the directory itself, which
  the caller has locked, \<open>dirlink\<close> waits for that lock for ever: so does \<open>sys_link\<close> when
  the new path ends in \<open>.\<close> (\<open>iput\<close> takes the lock before it looks at the counters).
\<close>

lemma link_to_dot_is_stuck:
  assumes "dirlookup dv d name s = Inr (Some (d, off), t)" and "sl_locked (i_lock (inode_at d t))"
  shows "dirlink dv d name inum s = Inl Stuck"
  using assms by (simp add: dirlink_def iput_def Let_def)

end
