(* ===== verification/Open_Files.thy ===== *)
theory Open_Files
  imports Files Pipe
begin

text \<open>
  The table of open files (\<open>file.c\<close>, \<open>file.h\<close>) and the allocation of pipes (\<open>pipe.c\<close>).
  The state is the part of the kernel that one process \<open>me\<close> works on in a system call; a
  call that would sleep is \<open>Stuck\<close>: it goes on only when another process acts. Pointers to
  open files are indices, pointers to pipes are the addresses of their pages. \<open>kend\<close> is
  the linker's symbol \<open>end\<close>.
\<close>

section \<open>State\<close>

definition NFILE :: nat where "NFILE = 100"

datatype ftype = FD_NONE | FD_PIPE | FD_INODE

record ofile =
  f_type :: ftype
  f_ref :: int
  f_readable :: bool
  f_writable :: bool
  f_pipe :: uint
  f_ip :: nat
  f_off :: uint

record kern =
  k_pt :: ptable
  k_km :: kmem
  k_ft :: "ofile list"
  k_pipes :: "uint \<Rightarrow> pipe"
  k_fs :: fs
  k_um :: memory    \<comment> \<open>the memory of the calling process\<close>

abbreviation file_at :: "kern \<Rightarrow> nat \<Rightarrow> ofile" where
  "file_at s i \<equiv> k_ft s ! i"

definition set_file :: "nat \<Rightarrow> (ofile \<Rightarrow> ofile) \<Rightarrow> kern \<Rightarrow> kern" where
  "set_file i f s = s\<lparr>k_ft := (k_ft s)[i := f (k_ft s ! i)]\<rparr>"

text \<open>An operation of the file system, and the pid with which sleep locks are taken.\<close>

definition on_fs :: "(fs \<Rightarrow> fs res) \<Rightarrow> kern \<Rightarrow> kern res" where
  "on_fs f s = mapE (\<lambda>t. s\<lparr>k_fs := t\<rparr>) (f (k_fs s))"

definition on_fs2 :: "(fs \<Rightarrow> ('a \<times> fs) res) \<Rightarrow> kern \<Rightarrow> ('a \<times> kern) res" where
  "on_fs2 f s = mapE (\<lambda>(x, t). (x, s\<lparr>k_fs := t\<rparr>)) (f (k_fs s))"

definition my_pid :: "nat \<Rightarrow> kern \<Rightarrow> uint" where
  "my_pid me s = p_pid (proc_at (k_pt s) me)"

lemma on_fs_Inr [simp]: "on_fs f s = Inr t \<longleftrightarrow> (\<exists>r. f (k_fs s) = Inr r \<and> t = s\<lparr>k_fs := r\<rparr>)"
  by (auto simp: on_fs_def)

lemma on_fs2_Inr [simp]: "on_fs2 f s = Inr (x, t) \<longleftrightarrow> (\<exists>r. f (k_fs s) = Inr (x, r) \<and> t = s\<lparr>k_fs := r\<rparr>)"
  by (auto simp: on_fs2_def)

section \<open>Transactions\<close>

definition begin_op :: "nat \<Rightarrow> kern \<Rightarrow> kern res" where
  "begin_op me s =
     (let (ok, lg, pt) = begin_op_round me (fs_log (k_fs s), k_pt s)
      in if ok then Inr (s\<lparr>k_fs := (k_fs s)\<lparr>fs_log := lg\<rparr>, k_pt := pt\<rparr>) else Inl Stuck)"

definition end_op :: "kern \<Rightarrow> kern res" where
  "end_op s =
     bindE (end_op_begin (fs_log (k_fs s), k_pt s)) (\<lambda>(do_commit, lg, pt).
       if do_commit then
         let (lg, st) = commit (lg, fs_store (k_fs s)); (lg, pt) = end_op_finish (lg, pt)
         in Inr (s\<lparr>k_fs := (k_fs s)\<lparr>fs_log := lg, fs_store := st\<rparr>, k_pt := pt\<rparr>)
       else Inr (s\<lparr>k_fs := (k_fs s)\<lparr>fs_log := lg\<rparr>, k_pt := pt\<rparr>))"

section \<open>Open files\<close>

definition filealloc :: "kern \<Rightarrow> nat option \<times> kern" where
  "filealloc s =
     (case scan (\<lambda>f. f_ref f = 0) (k_ft s) of
        Some i \<Rightarrow> (Some i, set_file i (\<lambda>f. f\<lparr>f_ref := 1\<rparr>) s)
      | None \<Rightarrow> (None, s))"

definition filedup :: "nat \<Rightarrow> kern \<Rightarrow> (nat \<times> kern) res" where
  "filedup i s =
     (if f_ref (file_at s i) < 1 then Inl (Panic ''filedup'')
      else Inr (i, set_file i (\<lambda>f. f\<lparr>f_ref := f_ref f + 1\<rparr>) s))"

text \<open>\<open>pipeclose\<close> on the kernel's state: the page of the pipe is freed with its last end.\<close>

definition close_pipe :: "uint \<Rightarrow> uint \<Rightarrow> bool \<Rightarrow> kern \<Rightarrow> kern res" where
  "close_pipe kend a writable s =
     (let (free, p, pt) = pipeclose a writable (k_pipes s a, k_pt s);
          s = s\<lparr>k_pipes := (k_pipes s)(a := p), k_pt := pt\<rparr>
      in if free then mapE (\<lambda>km. s\<lparr>k_km := km\<rparr>) (kfree kend a (k_km s)) else Inr s)"

definition fileclose :: "uint \<Rightarrow> nat \<Rightarrow> nat \<Rightarrow> kern \<Rightarrow> kern res" where
  "fileclose kend me i s =
     (let ff = file_at s i in
      if f_ref ff < 1 then Inl (Panic ''fileclose'')
      else if f_ref ff - 1 > 0 then Inr (set_file i (\<lambda>f. f\<lparr>f_ref := f_ref f - 1\<rparr>) s)
      else
        let s = set_file i (\<lambda>f. f\<lparr>f_ref := 0, f_type := FD_NONE\<rparr>) s in
        case f_type ff of
          FD_PIPE \<Rightarrow> close_pipe kend (f_pipe ff) (f_writable ff) s
        | FD_INODE \<Rightarrow> bindE (begin_op me s) (\<lambda>s. bindE (on_fs (iput (f_ip ff)) s) end_op)
        | FD_NONE \<Rightarrow> Inr s)"

definition filestat :: "nat \<Rightarrow> nat \<Rightarrow> kern \<Rightarrow> (stat option \<times> kern) res" where
  "filestat me i s =
     (let f = file_at s i in
      if f_type f = FD_INODE then
        bindE (on_fs (ilock (my_pid me s) (f_ip f)) s) (\<lambda>s.
          let st = stati (f_ip f) (k_fs s)
          in mapE (\<lambda>s. (Some st, s)) (on_fs (iunlock (f_ip f)) s))
      else Inr (None, s))"

text \<open>\<open>piperead\<close> and \<open>pipewrite\<close> as far as they go without sleeping.\<close>

definition piperead :: "nat \<Rightarrow> uint \<Rightarrow> nat \<Rightarrow> kern \<Rightarrow> (int \<times> byte list \<times> kern) res" where
  "piperead me a n s =
     (let (r, p, pt) = piperead_round me a n (k_pipes s a, k_pt s);
          s = s\<lparr>k_pipes := (k_pipes s)(a := p), k_pt := pt\<rparr>
      in case r of
           GotBytes cs \<Rightarrow> Inr (int (length cs), cs, s)
         | ReadFail \<Rightarrow> Inr (-1, [], s)
         | ReadSleep \<Rightarrow> Inl Stuck)"

definition pipewrite :: "nat \<Rightarrow> uint \<Rightarrow> byte list \<Rightarrow> kern \<Rightarrow> (int \<times> kern) res" where
  "pipewrite me a cs s =
     (let (r, p, pt) = pipewrite_round me a cs (k_pipes s a, k_pt s);
          s = s\<lparr>k_pipes := (k_pipes s)(a := p), k_pt := pt\<rparr>
      in case r of
           Written \<Rightarrow> Inr (int (length cs), s)
         | WriteFail _ \<Rightarrow> Inr (-1, s)
         | WriteSleep _ \<Rightarrow> Inl Stuck)"

text \<open>\<open>n\<close> is not negative: \<open>argptr\<close> refuses a negative length. The bytes read are a result.\<close>

definition fileread :: "devsw \<Rightarrow> nat \<Rightarrow> nat \<Rightarrow> nat \<Rightarrow> kern \<Rightarrow> (int \<times> byte list \<times> kern) res" where
  "fileread dv me i n s =
     (let f = file_at s i in
      if \<not> f_readable f then Inr (-1, [], s)
      else case f_type f of
        FD_PIPE \<Rightarrow> piperead me (f_pipe f) n s
      | FD_INODE \<Rightarrow>
          bindE (on_fs (ilock (my_pid me s) (f_ip f)) s) (\<lambda>s.
          bindE (readi dv (f_ip f) (f_off f) (of_nat n) (k_fs s)) (\<lambda>(r, bs, t).
            let s = s\<lparr>k_fs := t\<rparr>;
                s = (if r > 0 then set_file i (\<lambda>f. f\<lparr>f_off := f_off f + of_int r\<rparr>) s else s)
            in mapE (\<lambda>s. (r, bs, s)) (on_fs (iunlock (f_ip f)) s)))
      | FD_NONE \<Rightarrow> Inl (Panic ''fileread''))"

text \<open>The loop of \<open>filewrite\<close>: \<open>src\<close> is what is left to write. Whether all was written.\<close>

definition write_max :: nat where
  "write_max = ((LOGSIZE - 1 - 1 - 2) div 2) * 512"

function filewrite_loop :: "devsw \<Rightarrow> nat \<Rightarrow> nat \<Rightarrow> byte list \<Rightarrow> kern \<Rightarrow> (bool \<times> kern) res" where
  "filewrite_loop dv me i src s =
     (if src = [] then Inr (True, s)
      else
        let n1 = min (length src) write_max; ip = f_ip (file_at s i) in
        bindE (begin_op me s) (\<lambda>s.
        bindE (on_fs (ilock (my_pid me s) ip) s) (\<lambda>s.
        bindE (on_fs2 (writei dv ip (take n1 src) (f_off (file_at s i)) (of_nat n1)) s) (\<lambda>(r, s).
        let s = (if r > 0 then set_file i (\<lambda>f. f\<lparr>f_off := f_off f + of_int r\<rparr>) s else s) in
        bindE (on_fs (iunlock ip) s) (\<lambda>s.
        bindE (end_op s) (\<lambda>s.
          if r < 0 then Inr (False, s)
          else if r \<noteq> int n1 then Inl (Panic ''short filewrite'')
          else filewrite_loop dv me i (drop n1 src) s))))))"
  by pat_completeness auto
termination
  by (relation "measure (\<lambda>(dv, me, i, src, s). length src)") (auto simp: write_max_def LOGSIZE_def)

declare filewrite_loop.simps [simp del]

definition filewrite :: "devsw \<Rightarrow> nat \<Rightarrow> nat \<Rightarrow> byte list \<Rightarrow> kern \<Rightarrow> (int \<times> kern) res" where
  "filewrite dv me i src s =
     (let f = file_at s i in
      if \<not> f_writable f then Inr (-1, s)
      else case f_type f of
        FD_PIPE \<Rightarrow> pipewrite me (f_pipe f) src s
      | FD_INODE \<Rightarrow> mapE (\<lambda>(ok, s). (if ok then int (length src) else -1, s)) (filewrite_loop dv me i src s)
      | FD_NONE \<Rightarrow> Inl (Panic ''filewrite''))"

section \<open>Allocating a pipe\<close>

text \<open>The exit \<open>bad\<close> of \<open>pipealloc\<close>, reached before the page is allocated.\<close>

fun close_some :: "uint \<Rightarrow> nat \<Rightarrow> nat option list \<Rightarrow> kern \<Rightarrow> kern res" where
  "close_some kend me [] s = Inr s"
| "close_some kend me (None # fs) s = close_some kend me fs s"
| "close_some kend me (Some f # fs) s = bindE (fileclose kend me f s) (close_some kend me fs)"

definition pipealloc :: "uint \<Rightarrow> nat \<Rightarrow> kern \<Rightarrow> ((nat \<times> nat) option \<times> kern) res" where
  "pipealloc kend me s =
     (let (f0, s) = filealloc s in
      case f0 of None \<Rightarrow> Inr (None, s)
      | Some rfile \<Rightarrow>
        let (f1, s) = filealloc s in
        case f1 of None \<Rightarrow> mapE (\<lambda>s. (None, s)) (close_some kend me [Some rfile, None] s)
        | Some wfile \<Rightarrow>
          let (a, km) = kalloc (k_km s); s = s\<lparr>k_km := km\<rparr> in
          if a = 0 then mapE (\<lambda>s. (None, s)) (close_some kend me [Some rfile, Some wfile] s)
          else
            let s = s\<lparr>k_pipes := (k_pipes s)(a := pipe_init (k_pipes s a))\<rparr>;
                s = set_file rfile (\<lambda>f. f\<lparr>f_type := FD_PIPE, f_readable := True, f_writable := False, f_pipe := a\<rparr>) s;
                s = set_file wfile (\<lambda>f. f\<lparr>f_type := FD_PIPE, f_readable := False, f_writable := True, f_pipe := a\<rparr>) s
            in Inr (Some (rfile, wfile), s))"

end
