(* ===== verification/Sysfile.thy ===== *)
theory Sysfile
  imports Open_Files Syscall Vm
begin

text \<open>
  The file system calls (\<open>sysfile.c\<close>). A call is a function of the calling process
  \<open>me\<close> and the kernel's state; \<open>-1\<close> is a result like any other, a panic is \<open>Inl\<close>. The
  arguments are fetched from the process's memory \<open>k_um\<close>, where results are stored too.
\<close>

section \<open>Arguments\<close>

definition MAXARG :: nat where "MAXARG = 32"
definition O_RDONLY :: uint where "O_RDONLY = 0"
definition O_WRONLY :: uint where "O_WRONLY = 1"
definition O_RDWR :: uint where "O_RDWR = 2"
definition O_CREATE :: uint where "O_CREATE = 0x200"

abbreviation my_proc :: "nat \<Rightarrow> kern \<Rightarrow> proc" where
  "my_proc me s \<equiv> proc_at (k_pt s) me"

definition set_my :: "nat \<Rightarrow> (proc \<Rightarrow> proc) \<Rightarrow> kern \<Rightarrow> kern" where
  "set_my me f s = s\<lparr>k_pt := set_proc me f (k_pt s)\<rparr>"

definition int_arg :: "nat \<Rightarrow> kern \<Rightarrow> nat \<Rightarrow> uint option" where
  "int_arg me s n = argint (my_proc me s) (k_um s) n"

definition ptr_arg :: "nat \<Rightarrow> kern \<Rightarrow> nat \<Rightarrow> uint \<Rightarrow> uint option" where
  "ptr_arg me s n sz = argptr (my_proc me s) (k_um s) n sz"

text \<open>A string argument, with its final 0.\<close>

definition str_at :: "kern \<Rightarrow> uint \<times> nat \<Rightarrow> byte list" where
  "str_at s = (\<lambda>(a, len). map (k_um s) [unat a..<unat a + len + 1])"

definition str_arg :: "nat \<Rightarrow> kern \<Rightarrow> nat \<Rightarrow> byte list option" where
  "str_arg me s n = map_option (str_at s) (argstr (my_proc me s) (k_um s) n)"

text \<open>A descriptor argument: the descriptor and the open file.\<close>

definition argfd :: "nat \<Rightarrow> kern \<Rightarrow> nat \<Rightarrow> (nat \<times> nat) option" where
  "argfd me s n =
     (case int_arg me s n of
        None \<Rightarrow> None
      | Some fd \<Rightarrow>
          if sint fd < 0 \<or> int NOFILE \<le> sint fd then None
          else (case p_ofile (my_proc me s) ! unat fd of None \<Rightarrow> None | Some f \<Rightarrow> Some (unat fd, f)))"

definition fdalloc :: "nat \<Rightarrow> nat \<Rightarrow> kern \<Rightarrow> nat option \<times> kern" where
  "fdalloc me f s =
     (case scan (\<lambda>d. d = None) (p_ofile (my_proc me s)) of
        None \<Rightarrow> (None, s)
      | Some fd \<Rightarrow> (Some fd, set_my me (\<lambda>p. p\<lparr>p_ofile := (p_ofile p)[fd := Some f]\<rparr>) s))"

definition clear_fd :: "nat \<Rightarrow> nat \<Rightarrow> kern \<Rightarrow> kern" where
  "clear_fd me fd = set_my me (\<lambda>p. p\<lparr>p_ofile := (p_ofile p)[fd := None]\<rparr>)"

definition store_bytes :: "uint \<Rightarrow> byte list \<Rightarrow> kern \<Rightarrow> kern" where
  "store_bytes a bs s = s\<lparr>k_um := put_bytes (k_um s) (unat a) bs\<rparr>"

section \<open>Calls on open files\<close>

definition sys_dup :: "nat \<Rightarrow> kern \<Rightarrow> (int \<times> kern) res" where
  "sys_dup me s =
     (case argfd me s 0 of None \<Rightarrow> Inr (-1, s) | Some (_, f) \<Rightarrow>
      case fdalloc me f s of (None, s) \<Rightarrow> Inr (-1, s)
      | (Some fd, s) \<Rightarrow> mapE (\<lambda>(_, s). (int fd, s)) (filedup f s))"

definition sys_read :: "devsw \<Rightarrow> nat \<Rightarrow> kern \<Rightarrow> (int \<times> kern) res" where
  "sys_read dv me s =
     (case argfd me s 0 of None \<Rightarrow> Inr (-1, s) | Some (_, f) \<Rightarrow>
      case int_arg me s 2 of None \<Rightarrow> Inr (-1, s) | Some n \<Rightarrow>
      case ptr_arg me s 1 n of None \<Rightarrow> Inr (-1, s) | Some p \<Rightarrow>
        mapE (\<lambda>(r, bs, s). (r, store_bytes p bs s)) (fileread dv me f (unat n) s))"

definition sys_write :: "devsw \<Rightarrow> nat \<Rightarrow> kern \<Rightarrow> (int \<times> kern) res" where
  "sys_write dv me s =
     (case argfd me s 0 of None \<Rightarrow> Inr (-1, s) | Some (_, f) \<Rightarrow>
      case int_arg me s 2 of None \<Rightarrow> Inr (-1, s) | Some n \<Rightarrow>
      case ptr_arg me s 1 n of None \<Rightarrow> Inr (-1, s) | Some p \<Rightarrow>
        filewrite dv me f (map (k_um s) [unat p..<unat p + unat n]) s)"

definition sys_close :: "uint \<Rightarrow> nat \<Rightarrow> kern \<Rightarrow> (int \<times> kern) res" where
  "sys_close kend me s =
     (case argfd me s 0 of None \<Rightarrow> Inr (-1, s) | Some (fd, f) \<Rightarrow>
        mapE (\<lambda>s. (0, s)) (fileclose kend me f (clear_fd me fd s)))"

text \<open>\<open>struct stat\<close> in memory: 20 bytes, with two bytes of padding after \<open>type\<close> and \<open>nlink\<close>.\<close>

definition put_stat :: "uint \<Rightarrow> stat \<Rightarrow> kern \<Rightarrow> kern" where
  "put_stat a st s =
     store_bytes (a + 16) (le32 (st_size st)) (store_bytes (a + 12) (le16 (st_nlink st))
       (store_bytes (a + 8) (le32 (st_ino st)) (store_bytes (a + 4) (le32 (st_dev st))
         (store_bytes a (le16 (st_type st)) s))))"

definition sys_fstat :: "nat \<Rightarrow> kern \<Rightarrow> (int \<times> kern) res" where
  "sys_fstat me s =
     (case argfd me s 0 of None \<Rightarrow> Inr (-1, s) | Some (_, f) \<Rightarrow>
      case ptr_arg me s 1 20 of None \<Rightarrow> Inr (-1, s) | Some a \<Rightarrow>
        mapE (\<lambda>(r, s). case r of None \<Rightarrow> (-1, s) | Some st \<Rightarrow> (0, put_stat a st s)) (filestat me f s))"

section \<open>Calls on paths\<close>

text \<open>\<open>end_op(); return r;\<close> and the update of an inode that is locked.\<close>

definition finish_op :: "'a \<Rightarrow> kern \<Rightarrow> ('a \<times> kern) res" where
  "finish_op r s = mapE (\<lambda>s. (r, s)) (end_op s)"

definition change_inode :: "nat \<Rightarrow> (inode \<Rightarrow> inode) \<Rightarrow> kern \<Rightarrow> kern res" where
  "change_inode i f = on_fs (\<lambda>t. iupdate i (set_inode i f t))"

abbreviation inode_of :: "kern \<Rightarrow> nat \<Rightarrow> inode" where
  "inode_of s i \<equiv> inode_at i (k_fs s)"

definition lookup_path :: "devsw \<Rightarrow> nat \<Rightarrow> byte list \<Rightarrow> kern \<Rightarrow> (nat option \<times> kern) res" where
  "lookup_path dv me path s =
     (case p_cwd (my_proc me s) of
        None \<Rightarrow> Inl BadAccess
      | Some cwd \<Rightarrow> on_fs2 (namei dv (my_pid me s) cwd path) s)"

definition lookup_parent :: "devsw \<Rightarrow> nat \<Rightarrow> byte list \<Rightarrow> kern \<Rightarrow> ((nat option \<times> byte list) \<times> kern) res" where
  "lookup_parent dv me path s =
     (case p_cwd (my_proc me s) of
        None \<Rightarrow> Inl BadAccess
      | Some cwd \<Rightarrow> on_fs2 (\<lambda>t. mapE (\<lambda>(d, name, t). ((d, name), t))
          (nameiparent dv (my_pid me s) cwd path (replicate DIRSIZ 0) t)) s)"

definition lock_inode :: "nat \<Rightarrow> nat \<Rightarrow> kern \<Rightarrow> kern res" where
  "lock_inode me i s = on_fs (ilock (my_pid me s) i) s"

text \<open>\<open>ip->nlink += d\<close>.\<close>

definition add_link :: "16 word \<Rightarrow> inode \<Rightarrow> inode" where
  "add_link d ip = ip\<lparr>i_nlink := i_nlink ip + d\<rparr>"

text \<open>The exit \<open>bad\<close> of \<open>sys_link\<close>.\<close>

definition link_bad :: "nat \<Rightarrow> nat \<Rightarrow> kern \<Rightarrow> (int \<times> kern) res" where
  "link_bad me ip s =
     bindE (lock_inode me ip s) (\<lambda>s. bindE (change_inode ip (add_link (-1)) s) (\<lambda>s.
     bindE (on_fs (iunlockput ip) s) (finish_op (-1))))"

definition sys_link :: "devsw \<Rightarrow> nat \<Rightarrow> kern \<Rightarrow> (int \<times> kern) res" where
  "sys_link dv me s =
     (case str_arg me s 0 of None \<Rightarrow> Inr (-1, s) | Some old \<Rightarrow>
      case str_arg me s 1 of None \<Rightarrow> Inr (-1, s) | Some new \<Rightarrow>
      bindE (begin_op me s) (\<lambda>s. bindE (lookup_path dv me old s) (\<lambda>(r, s).
      case r of None \<Rightarrow> finish_op (-1) s
      | Some ip \<Rightarrow> bindE (lock_inode me ip s) (\<lambda>s.
          if i_type (inode_of s ip) = T_DIR then bindE (on_fs (iunlockput ip) s) (finish_op (-1))
          else bindE (change_inode ip (add_link 1) s) (\<lambda>s. bindE (on_fs (iunlock ip) s) (\<lambda>s.
            bindE (lookup_parent dv me new s) (\<lambda>((d, name), s).
            case d of None \<Rightarrow> link_bad me ip s
            | Some dp \<Rightarrow> bindE (lock_inode me dp s) (\<lambda>s.
                if i_dev (inode_of s dp) \<noteq> i_dev (inode_of s ip) then
                  bindE (on_fs (iunlockput dp) s) (link_bad me ip)
                else bindE (on_fs2 (dirlink dv dp name (i_inum (inode_of s ip))) s) (\<lambda>(r, s).
                  if r < 0 then bindE (on_fs (iunlockput dp) s) (link_bad me ip)
                  else bindE (on_fs (iunlockput dp) s) (\<lambda>s. bindE (on_fs (iput ip) s) (finish_op 0)))))))))))"

text \<open>The loop of \<open>isdirempty\<close> over the entries from \<open>off\<close> on.\<close>

function isdirempty_loop :: "devsw \<Rightarrow> nat \<Rightarrow> nat \<Rightarrow> nat \<Rightarrow> fs \<Rightarrow> (bool \<times> fs) res" where
  "isdirempty_loop dv i off sz s =
     (if off < sz then
        bindE (readi dv i (of_nat off) 16 s) (\<lambda>(r, de, s).
          if r \<noteq> 16 then Inl (Panic ''isdirempty: readi'')
          else if get16 0 de \<noteq> 0 then Inr (False, s)
          else isdirempty_loop dv i (off + 16) sz s)
      else Inr (True, s))"
  by pat_completeness auto
termination by (relation "measure (\<lambda>(dv, i, off, sz, s). sz - off)") auto

declare isdirempty_loop.simps [simp del]

definition isdirempty :: "devsw \<Rightarrow> nat \<Rightarrow> fs \<Rightarrow> (bool \<times> fs) res" where
  "isdirempty dv i s = isdirempty_loop dv i 32 (unat (i_size (inode_at i s))) s"

text \<open>The exit \<open>bad\<close> of \<open>sys_unlink\<close>, and its part after the last check.\<close>

definition unlink_bad :: "nat \<Rightarrow> kern \<Rightarrow> (int \<times> kern) res" where
  "unlink_bad dp s = bindE (on_fs (iunlockput dp) s) (finish_op (-1))"

definition unlink_entry :: "devsw \<Rightarrow> nat \<Rightarrow> nat \<Rightarrow> uint \<Rightarrow> kern \<Rightarrow> (int \<times> kern) res" where
  "unlink_entry dv dp ip off s =
     bindE (on_fs2 (writei dv dp (replicate 16 0) off 16) s) (\<lambda>(r, s).
     if r \<noteq> 16 then Inl (Panic ''unlink: writei'')
     else bindE (if i_type (inode_of s ip) = T_DIR then change_inode dp (add_link (-1)) s else Inr s) (\<lambda>s.
       bindE (on_fs (iunlockput dp) s) (\<lambda>s. bindE (change_inode ip (add_link (-1)) s) (\<lambda>s.
       bindE (on_fs (iunlockput ip) s) (finish_op 0)))))"

definition sys_unlink :: "devsw \<Rightarrow> nat \<Rightarrow> kern \<Rightarrow> (int \<times> kern) res" where
  "sys_unlink dv me s =
     (case str_arg me s 0 of None \<Rightarrow> Inr (-1, s) | Some path \<Rightarrow>
      bindE (begin_op me s) (\<lambda>s. bindE (lookup_parent dv me path s) (\<lambda>((d, name), s).
      case d of None \<Rightarrow> finish_op (-1) s
      | Some dp \<Rightarrow> bindE (lock_inode me dp s) (\<lambda>s.
          bindE (namecmp name [46, 0]) (\<lambda>c1. bindE (namecmp name [46, 46, 0]) (\<lambda>c2.
          if c1 = 0 \<or> c2 = 0 then unlink_bad dp s
          else bindE (on_fs2 (dirlookup dv dp name) s) (\<lambda>(found, s).
            case found of None \<Rightarrow> unlink_bad dp s
            | Some (ip, off) \<Rightarrow> bindE (lock_inode me ip s) (\<lambda>s.
                if sint (i_nlink (inode_of s ip)) < 1 then Inl (Panic ''unlink: nlink < 1'')
                else bindE (if i_type (inode_of s ip) = T_DIR then on_fs2 (isdirempty dv ip) s else Inr (True, s)) (\<lambda>(empty, s).
                  if \<not> empty then bindE (on_fs (iunlockput ip) s) (unlink_bad dp)
                  else unlink_entry dv dp ip off s)))))))))"

text \<open>The second half of \<open>create\<close>: a new inode, linked into the directory \<open>dp\<close>.\<close>

definition create_new :: "devsw \<Rightarrow> nat \<Rightarrow> nat \<Rightarrow> byte list \<Rightarrow> 16 word \<Rightarrow> 16 word \<Rightarrow> 16 word \<Rightarrow> kern \<Rightarrow> (nat option \<times> kern) res" where
  "create_new dv me dp name ty major minor s =
     bindE (on_fs2 (\<lambda>t. ialloc (i_dev (inode_at dp t)) ty t) s) (\<lambda>(ip, s).
     bindE (lock_inode me ip s) (\<lambda>s.
     bindE (change_inode ip (\<lambda>n. n\<lparr>i_major := major, i_minor := minor, i_nlink := 1\<rparr>) s) (\<lambda>s.
     bindE (if ty = T_DIR then
         bindE (change_inode dp (add_link 1) s) (\<lambda>s.
         bindE (on_fs2 (dirlink dv ip [46, 0] (i_inum (inode_of s ip))) s) (\<lambda>(r, s).
           if r < 0 then Inl (Panic ''create dots'')
           else bindE (on_fs2 (dirlink dv ip [46, 46, 0] (i_inum (inode_of s dp))) s) (\<lambda>(r, s).
             if r < 0 then Inl (Panic ''create dots'') else Inr s)))
       else Inr s) (\<lambda>s.
     bindE (on_fs2 (dirlink dv dp name (i_inum (inode_of s ip))) s) (\<lambda>(r, s).
       if r < 0 then Inl (Panic ''create: dirlink'')
       else mapE (\<lambda>s. (Some ip, s)) (on_fs (iunlockput dp) s))))))"

definition create :: "devsw \<Rightarrow> nat \<Rightarrow> byte list \<Rightarrow> 16 word \<Rightarrow> 16 word \<Rightarrow> 16 word \<Rightarrow> kern \<Rightarrow> (nat option \<times> kern) res" where
  "create dv me path ty major minor s =
     bindE (lookup_parent dv me path s) (\<lambda>((d, name), s).
     case d of None \<Rightarrow> Inr (None, s)
     | Some dp \<Rightarrow> bindE (lock_inode me dp s) (\<lambda>s. bindE (on_fs2 (dirlookup dv dp name) s) (\<lambda>(found, s).
         case found of
           Some (ip, _) \<Rightarrow> bindE (on_fs (iunlockput dp) s) (\<lambda>s. bindE (lock_inode me ip s) (\<lambda>s.
             if ty = T_FILE \<and> i_type (inode_of s ip) = T_FILE then Inr (Some ip, s)
             else mapE (\<lambda>s. (None, s)) (on_fs (iunlockput ip) s)))
         | None \<Rightarrow> create_new dv me dp name ty major minor s)))"

text \<open>The second half of \<open>sys_open\<close>, once the inode \<open>ip\<close> is there and locked.\<close>

definition open_inode :: "uint \<Rightarrow> nat \<Rightarrow> nat \<Rightarrow> uint \<Rightarrow> kern \<Rightarrow> (int \<times> kern) res" where
  "open_inode kend me ip omode s =
     (case filealloc s of
        (None, s) \<Rightarrow> bindE (on_fs (iunlockput ip) s) (finish_op (-1))
      | (Some f, s) \<Rightarrow>
        (case fdalloc me f s of
           (None, s) \<Rightarrow> bindE (fileclose kend me f s) (\<lambda>s. bindE (on_fs (iunlockput ip) s) (finish_op (-1)))
         | (Some fd, s) \<Rightarrow>
             bindE (on_fs (iunlock ip) s) (\<lambda>s. mapE (\<lambda>s. (int fd,
               set_file f (\<lambda>fl. fl\<lparr>f_type := FD_INODE, f_ip := ip, f_off := 0,
                 f_readable := (omode AND O_WRONLY = 0),
                 f_writable := (omode AND O_WRONLY \<noteq> 0 \<or> omode AND O_RDWR \<noteq> 0)\<rparr>) s)) (end_op s))))"

definition sys_open :: "uint \<Rightarrow> devsw \<Rightarrow> nat \<Rightarrow> kern \<Rightarrow> (int \<times> kern) res" where
  "sys_open kend dv me s =
     (case str_arg me s 0 of None \<Rightarrow> Inr (-1, s) | Some path \<Rightarrow>
      case int_arg me s 1 of None \<Rightarrow> Inr (-1, s) | Some omode \<Rightarrow>
      bindE (begin_op me s) (\<lambda>s.
        if omode AND O_CREATE \<noteq> 0 then
          bindE (create dv me path T_FILE 0 0 s) (\<lambda>(r, s).
            case r of None \<Rightarrow> finish_op (-1) s | Some ip \<Rightarrow> open_inode kend me ip omode s)
        else bindE (lookup_path dv me path s) (\<lambda>(r, s).
          case r of None \<Rightarrow> finish_op (-1) s
          | Some ip \<Rightarrow> bindE (lock_inode me ip s) (\<lambda>s.
              if i_type (inode_of s ip) = T_DIR \<and> omode \<noteq> O_RDONLY then
                bindE (on_fs (iunlockput ip) s) (finish_op (-1))
              else open_inode kend me ip omode s))))"

definition sys_mkdir :: "devsw \<Rightarrow> nat \<Rightarrow> kern \<Rightarrow> (int \<times> kern) res" where
  "sys_mkdir dv me s =
     bindE (begin_op me s) (\<lambda>s.
     case str_arg me s 0 of None \<Rightarrow> finish_op (-1) s
     | Some path \<Rightarrow> bindE (create dv me path T_DIR 0 0 s) (\<lambda>(r, s).
         case r of None \<Rightarrow> finish_op (-1) s
         | Some ip \<Rightarrow> bindE (on_fs (iunlockput ip) s) (finish_op 0)))"

definition sys_mknod :: "devsw \<Rightarrow> nat \<Rightarrow> kern \<Rightarrow> (int \<times> kern) res" where
  "sys_mknod dv me s =
     bindE (begin_op me s) (\<lambda>s.
     case str_arg me s 0 of None \<Rightarrow> finish_op (-1) s | Some path \<Rightarrow>
     case int_arg me s 1 of None \<Rightarrow> finish_op (-1) s | Some major \<Rightarrow>
     case int_arg me s 2 of None \<Rightarrow> finish_op (-1) s | Some minor \<Rightarrow>
       bindE (create dv me path T_DEV (ucast major) (ucast minor) s) (\<lambda>(r, s).
         case r of None \<Rightarrow> finish_op (-1) s
         | Some ip \<Rightarrow> bindE (on_fs (iunlockput ip) s) (finish_op 0)))"

definition sys_chdir :: "devsw \<Rightarrow> nat \<Rightarrow> kern \<Rightarrow> (int \<times> kern) res" where
  "sys_chdir dv me s =
     bindE (begin_op me s) (\<lambda>s.
     case str_arg me s 0 of None \<Rightarrow> finish_op (-1) s | Some path \<Rightarrow>
     bindE (lookup_path dv me path s) (\<lambda>(r, s).
     case r of None \<Rightarrow> finish_op (-1) s
     | Some ip \<Rightarrow> bindE (lock_inode me ip s) (\<lambda>s.
         if i_type (inode_of s ip) \<noteq> T_DIR then bindE (on_fs (iunlockput ip) s) (finish_op (-1))
         else bindE (on_fs (iunlock ip) s) (\<lambda>s.
           case p_cwd (my_proc me s) of None \<Rightarrow> Inl BadAccess
           | Some cwd \<Rightarrow> bindE (on_fs (iput cwd) s) (\<lambda>s.
               mapE (\<lambda>s. (0, set_my me (\<lambda>p. p\<lparr>p_cwd := Some ip\<rparr>) s)) (end_op s))))))"

text \<open>The loop of \<open>sys_exec\<close> over the argument vector at \<open>uargv\<close>.\<close>

function exec_args :: "proc \<Rightarrow> memory \<Rightarrow> uint \<Rightarrow> nat \<Rightarrow> (uint \<times> nat) list option" where
  "exec_args p um uargv i =
     (if i \<ge> MAXARG then None
      else case fetchint p um (uargv + 4 * of_nat i) of
        None \<Rightarrow> None
      | Some uarg \<Rightarrow>
          if uarg = 0 then Some []
          else (case fetchstr p um uarg of
              None \<Rightarrow> None
            | Some a \<Rightarrow> map_option (\<lambda>as. a # as) (exec_args p um uargv (Suc i))))"
  by pat_completeness auto
termination by (relation "measure (\<lambda>(p, um, uargv, i). MAXARG - i)") auto

declare exec_args.simps [simp del]

text \<open>\<open>sys_exec\<close> up to the call of \<open>exec\<close>: the path and the arguments.\<close>

definition sys_exec_args :: "nat \<Rightarrow> kern \<Rightarrow> (byte list \<times> byte list list) option" where
  "sys_exec_args me s =
     (case str_arg me s 0 of None \<Rightarrow> None | Some path \<Rightarrow>
      case int_arg me s 1 of None \<Rightarrow> None | Some uargv \<Rightarrow>
        map_option (\<lambda>as. (path, map (str_at s) as)) (exec_args (my_proc me s) (k_um s) uargv 0))"

definition sys_pipe :: "uint \<Rightarrow> nat \<Rightarrow> kern \<Rightarrow> (int \<times> kern) res" where
  "sys_pipe kend me s =
     (case ptr_arg me s 0 8 of None \<Rightarrow> Inr (-1, s) | Some a \<Rightarrow>
      bindE (pipealloc kend me s) (\<lambda>(r, s).
      case r of None \<Rightarrow> Inr (-1, s)
      | Some (rfile, wfile) \<Rightarrow>
        (case fdalloc me rfile s of
           (None, s) \<Rightarrow> bindE (fileclose kend me rfile s) (\<lambda>s. mapE (\<lambda>s. (-1, s)) (fileclose kend me wfile s))
         | (Some fd0, s) \<Rightarrow>
           (case fdalloc me wfile s of
              (None, s) \<Rightarrow> bindE (fileclose kend me rfile (clear_fd me fd0 s)) (\<lambda>s.
                mapE (\<lambda>s. (-1, s)) (fileclose kend me wfile s))
            | (Some fd1, s) \<Rightarrow>
                Inr (0, store_bytes (a + 4) (le32 (of_nat fd1)) (store_bytes a (le32 (of_nat fd0)) s))))))"

end
