(* ===== verification/Exec.thy ===== *)
theory Exec
  imports Sysfile
begin

text \<open>
  Loading a program (\<open>exec.c\<close>, \<open>elf.h\<close>, and \<open>loaduvm\<close> of \<open>vm.c\<close>). Files are read through
  theory \<open>Files\<close>, address spaces are built with theory \<open>Vm\<close>. The arguments are byte lists
  with their final 0. The record \<open>kern\<close> has the memory of the process as the process sees
  it; after a successful \<open>exec\<close> that is the new address space.
\<close>

section \<open>Program files\<close>

definition ELF_MAGIC :: uint where "ELF_MAGIC = 0x464C457F"
definition ELF_PROG_LOAD :: uint where "ELF_PROG_LOAD = 1"

record elfhdr =
  e_magic :: uint
  e_entry :: uint
  e_phoff :: uint
  e_phnum :: nat

record proghdr =
  ph_type :: uint
  ph_off :: uint
  ph_vaddr :: uint
  ph_filesz :: uint
  ph_memsz :: uint

text \<open>The fields the code uses, at their places in the 52 bytes and the 32 bytes of the headers.\<close>

definition get_elfhdr :: "byte list \<Rightarrow> elfhdr" where
  "get_elfhdr b = \<lparr>e_magic = get32 0 b, e_entry = get32 24 b, e_phoff = get32 28 b, e_phnum = unat (get16 44 b)\<rparr>"

definition get_proghdr :: "byte list \<Rightarrow> proghdr" where
  "get_proghdr b = \<lparr>ph_type = get32 0 b, ph_off = get32 4 b, ph_vaddr = get32 8 b,
     ph_filesz = get32 16 b, ph_memsz = get32 20 b\<rparr>"

definition on_km :: "(kmem \<Rightarrow> kmem res) \<Rightarrow> kern \<Rightarrow> kern res" where
  "on_km f s = mapE (\<lambda>k. s\<lparr>k_km := k\<rparr>) (f (k_km s))"

definition on_km2 :: "(kmem \<Rightarrow> ('a \<times> kmem) res) \<Rightarrow> kern \<Rightarrow> ('a \<times> kern) res" where
  "on_km2 f s = mapE (\<lambda>(x, k). (x, s\<lparr>k_km := k\<rparr>)) (f (k_km s))"

definition read_inode :: "devsw \<Rightarrow> nat \<Rightarrow> uint \<Rightarrow> uint \<Rightarrow> kern \<Rightarrow> ((int \<times> byte list) \<times> kern) res" where
  "read_inode dv ip off n = on_fs2 (\<lambda>t. mapE (\<lambda>(r, bs, t). ((r, bs), t)) (readi dv ip off n t))"

text \<open>
  The loop of \<open>loaduvm\<close>; \<open>i\<close> does not wrap, since the segment lies below \<open>KERNBASE\<close>.
\<close>

function loaduvm_loop :: "devsw \<Rightarrow> uint \<Rightarrow> uint \<Rightarrow> nat \<Rightarrow> uint \<Rightarrow> nat \<Rightarrow> nat \<Rightarrow> kern \<Rightarrow> (int \<times> kern) res" where
  "loaduvm_loop dv pgdir addr ip offset i sz s =
     (if i < sz then
        let (pte, k) = walkpgdir pgdir (addr + of_nat i) False (k_km s) in
        if pte = 0 then Inl (Panic ''loaduvm: address should exist'')
        else
          let pa = PTE_ADDR (read32 (pages k) pte); n = min (sz - i) 4096 in
          bindE (read_inode dv ip (offset + of_nat i) (of_nat n) (s\<lparr>k_km := k\<rparr>)) (\<lambda>((r, bs), s).
            let s = s\<lparr>k_km := (k_km s)\<lparr>pages := put_bytes (pages (k_km s)) (unat (P2V pa)) bs\<rparr>\<rparr> in
            if r \<noteq> int n then Inr (-1, s)
            else loaduvm_loop dv pgdir addr ip offset (i + 4096) sz s)
      else Inr (0, s))"
  by pat_completeness auto
termination by (relation "measure (\<lambda>(dv, pgdir, addr, ip, offset, i, sz, s). sz - i)") auto

declare loaduvm_loop.simps [simp del]

definition loaduvm :: "devsw \<Rightarrow> uint \<Rightarrow> uint \<Rightarrow> nat \<Rightarrow> uint \<Rightarrow> uint \<Rightarrow> kern \<Rightarrow> (int \<times> kern) res" where
  "loaduvm dv pgdir addr ip offset sz s =
     (if addr mod PGSIZE \<noteq> 0 then Inl (Panic ''loaduvm: addr must be page aligned'')
      else loaduvm_loop dv pgdir addr ip offset 0 (unat sz) s)"

section \<open>exec\<close>

text \<open>The loop over the program headers: the size reached, or \<open>None\<close> for \<open>goto bad\<close>.\<close>

fun load_segments :: "uint \<Rightarrow> devsw \<Rightarrow> uint \<Rightarrow> nat \<Rightarrow> nat \<Rightarrow> uint \<Rightarrow> uint \<Rightarrow> kern \<Rightarrow> (uint option \<times> kern) res" where
  "load_segments kend dv pgdir ip 0 off sz s = Inr (Some sz, s)"
| "load_segments kend dv pgdir ip (Suc i) off sz s =
     bindE (read_inode dv ip off 32 s) (\<lambda>((r, bs), s).
       if r \<noteq> 32 then Inr (None, s)
       else let ph = get_proghdr bs in
         if ph_type ph \<noteq> ELF_PROG_LOAD then load_segments kend dv pgdir ip i (off + 32) sz s
         else if ph_memsz ph < ph_filesz ph then Inr (None, s)
         else if ph_vaddr ph + ph_memsz ph < ph_vaddr ph then Inr (None, s)
         else bindE (on_km2 (allocuvm kend pgdir sz (ph_vaddr ph + ph_memsz ph)) s) (\<lambda>(sz, s).
           if sz = 0 then Inr (None, s)
           else if ph_vaddr ph mod PGSIZE \<noteq> 0 then Inr (None, s)
           else bindE (loaduvm dv pgdir (ph_vaddr ph) ip (ph_off ph) (ph_filesz ph) s) (\<lambda>(r, s).
             if r < 0 then Inr (None, s)
             else load_segments kend dv pgdir ip i (off + 32) sz s)))"

text \<open>The loop that pushes the argument strings: the stack pointer and the pointers pushed.\<close>

fun push_args :: "uint \<Rightarrow> nat \<Rightarrow> byte list list \<Rightarrow> uint \<Rightarrow> kern \<Rightarrow> ((uint \<times> uint list) option \<times> kern) res" where
  "push_args pgdir argc [] sp s = Inr (Some (sp, []), s)"
| "push_args pgdir argc (a # as) sp s =
     (if argc \<ge> MAXARG then Inr (None, s)
      else
        let sp = (sp - of_nat (length a)) AND NOT 3 in
        bindE (on_km2 (copyout pgdir sp a) s) (\<lambda>(r, s).
          if r < 0 then Inr (None, s)
          else mapE (\<lambda>(x, s). (map_option (\<lambda>(sp', ps). (sp', sp # ps)) x, s))
            (push_args pgdir (Suc argc) as sp s)))"

text \<open>
  The stack a program starts with: the strings, and below them \<open>ustack\<close>, the arguments of
  \<open>main\<close> with a return address in front and the pointers to the strings behind.
\<close>

definition push_stack :: "uint \<Rightarrow> byte list list \<Rightarrow> uint \<Rightarrow> kern \<Rightarrow> (uint option \<times> kern) res" where
  "push_stack pgdir argv sz s =
     bindE (push_args pgdir 0 argv sz s) (\<lambda>(r, s).
       case r of None \<Rightarrow> Inr (None, s)
       | Some (sp, args) \<Rightarrow>
           let argc = of_nat (length args);
               ustack = [0xffffffff, argc, sp - (argc + 1) * 4] @ args @ [0];
               sp = sp - (3 + argc + 1) * 4
           in bindE (on_km2 (copyout pgdir sp (concat (map le32 ustack))) s) (\<lambda>(r, s).
                Inr (if r < 0 then None else Some sp, s)))"

text \<open>What follows the last slash of the path.\<close>

fun last_elem :: "byte list \<Rightarrow> byte list \<Rightarrow> byte list" where
  "last_elem l [] = l"
| "last_elem l (c # s) = (if c = 0 then l else last_elem (if c = 47 then s else l) s)"

text \<open>
  The exit \<open>bad\<close>: a page directory of 0 is none, and \<open>ip\<close> is \<open>None\<close> once it was put.
\<close>

definition exec_bad :: "uint \<Rightarrow> uint \<Rightarrow> nat option \<Rightarrow> kern \<Rightarrow> (int \<times> kern) res" where
  "exec_bad kend pgdir ip s =
     bindE (if pgdir \<noteq> 0 then on_km (freevm kend pgdir) s else Inr s) (\<lambda>s.
       case ip of None \<Rightarrow> Inr (-1, s) | Some ip \<Rightarrow> bindE (on_fs (iunlockput ip) s) (finish_op (-1)))"

text \<open>The memory of a process with page directory \<open>pgdir\<close>.\<close>

definition user_memory :: "uint \<Rightarrow> kmem \<Rightarrow> memory" where
  "user_memory pgdir k a =
     (let pte = fst (walkpgdir pgdir (of_nat a) False k);
          e = read32 (pages k) pte
      in if pte \<noteq> 0 \<and> e AND PTE_P \<noteq> 0 then pages k (unat (P2V (PTE_ADDR e)) + a mod 4096) else 0)"

text \<open>\<open>switchuvm\<close> checks its argument and loads hardware registers.\<close>

definition switchuvm :: "proc \<Rightarrow> unit res" where
  "switchuvm p =
     (if p_kstack p = 0 then Inl (Panic ''switchuvm: no kstack'')
      else if p_pgdir p = 0 then Inl (Panic ''switchuvm: no pgdir'')
      else Inr ())"

text \<open>The last part of \<open>exec\<close>: the process changes to the new image.\<close>

definition exec_commit :: "uint \<Rightarrow> nat \<Rightarrow> byte list \<Rightarrow> uint \<Rightarrow> uint \<Rightarrow> uint \<Rightarrow> uint \<Rightarrow> kern \<Rightarrow> (int \<times> kern) res" where
  "exec_commit kend me path pgdir sz entry sp s =
     bindE (safestrcpy (p_name (my_proc me s)) (last_elem path path) 16) (\<lambda>name.
       let oldpgdir = p_pgdir (my_proc me s);
           s = set_my me (\<lambda>p. p\<lparr>p_name := name, p_pgdir := pgdir, p_sz := sz,
             p_tf := (p_tf p)\<lparr>tf_eip := entry, tf_esp := sp\<rparr>\<rparr>) s
       in bindE (switchuvm (my_proc me s)) (\<lambda>_.
         bindE (on_km (freevm kend oldpgdir) s) (\<lambda>s.
           Inr (0, s\<lparr>k_um := user_memory pgdir (k_km s)\<rparr>))))"

text \<open>The part of \<open>exec\<close> behind the loading of the segments.\<close>

definition exec_stack :: "uint \<Rightarrow> nat \<Rightarrow> byte list \<Rightarrow> byte list list \<Rightarrow> uint \<Rightarrow> uint \<Rightarrow> uint \<Rightarrow> kern \<Rightarrow> (int \<times> kern) res" where
  "exec_stack kend me path argv pgdir entry sz s =
     (let sz = PGROUNDUP sz in
      bindE (on_km2 (allocuvm kend pgdir sz (sz + 2 * PGSIZE)) s) (\<lambda>(sz, s).
      if sz = 0 then exec_bad kend pgdir None s
      else bindE (on_km (clearpteu pgdir (sz - 2 * PGSIZE)) s) (\<lambda>s.
      bindE (push_stack pgdir argv sz s) (\<lambda>(r, s).
      case r of None \<Rightarrow> exec_bad kend pgdir None s
      | Some sp \<Rightarrow> exec_commit kend me path pgdir sz entry sp s))))"

definition exec :: "uint \<Rightarrow> uint \<Rightarrow> devsw \<Rightarrow> nat \<Rightarrow> byte list \<Rightarrow> byte list list \<Rightarrow> kern \<Rightarrow> (int \<times> kern) res" where
  "exec kend kdata dv me path argv s =
     bindE (begin_op me s) (\<lambda>s. bindE (lookup_path dv me path s) (\<lambda>(r, s).
     case r of None \<Rightarrow> finish_op (-1) s
     | Some ip \<Rightarrow>
       bindE (lock_inode me ip s) (\<lambda>s. bindE (read_inode dv ip 0 52 s) (\<lambda>((r, bs), s).
       let elf = get_elfhdr bs in
       if r \<noteq> 52 then exec_bad kend 0 (Some ip) s
       else if e_magic elf \<noteq> ELF_MAGIC then exec_bad kend 0 (Some ip) s
       else bindE (on_km2 (setupkvm kend kdata) s) (\<lambda>(pgdir, s).
         if pgdir = 0 then exec_bad kend 0 (Some ip) s
         else bindE (load_segments kend dv pgdir ip (e_phnum elf) (e_phoff elf) 0 s) (\<lambda>(r, s).
           case r of None \<Rightarrow> exec_bad kend pgdir (Some ip) s
           | Some sz \<Rightarrow> bindE (on_fs (iunlockput ip) s) (\<lambda>s. bindE (end_op s) (\<lambda>s.
               exec_stack kend me path argv pgdir (e_entry elf) sz s))))))))"

definition sys_exec :: "uint \<Rightarrow> uint \<Rightarrow> devsw \<Rightarrow> nat \<Rightarrow> kern \<Rightarrow> (int \<times> kern) res" where
  "sys_exec kend kdata dv me s =
     (case sys_exec_args me s of None \<Rightarrow> Inr (-1, s)
      | Some (path, argv) \<Rightarrow> exec kend kdata dv me path argv s)"

end
