(* ===== verification/Process.thy ===== *)
theory Process
  imports Exec Sem
begin

text \<open>
  Processes as a whole (\<open>proc.c\<close>, \<open>sysproc.c\<close>): the first process, growing, \<open>fork\<close>,
  \<open>exit\<close> and \<open>wait\<close> with all they do to memory, open files, semaphores and the current
  directory. The state is the kernel's state and the table of semaphores. \<open>forkret\<close> is
  the address of that function, \<open>ini\<close> and \<open>isz\<close> are the linker's symbols of the code of the
  first process. Also the system calls of \<open>sysproc.c\<close> and of the process data call
  (\<open>proc.c\<close> and \<open>sysfile.c\<close> of exercise 2).
\<close>

section \<open>The first process\<close>

definition SEG_UCODE :: "16 word" where "SEG_UCODE = 3"
definition SEG_UDATA :: "16 word" where "SEG_UDATA = 4"
definition DPL_USER :: "16 word" where "DPL_USER = 3"
definition FL_IF :: uint where "FL_IF = 0x200"

definition user_trapframe :: trapframe where
  "user_trapframe = (let ds = push_bit 3 SEG_UDATA OR DPL_USER in
     zero_trapframe\<lparr>tf_cs := push_bit 3 SEG_UCODE OR DPL_USER, tf_ds := ds, tf_es := ds, tf_ss := ds,
       tf_eflags := FL_IF, tf_esp := PGSIZE, tf_eip := 0\<rparr>)"

definition alloc_proc :: "uint \<Rightarrow> kern \<Rightarrow> nat option \<times> kern" where
  "alloc_proc forkret s =
     (let (r, pt, km) = allocproc forkret (k_pt s, k_km s) in (r, s\<lparr>k_pt := pt, k_km := km\<rparr>))"

text \<open>
  \<open>userinit\<close> does not test the result of \<open>allocproc\<close>. The path of its \<open>namei\<close> starts with a
  slash, so that the current directory, here 0, is not looked at.
\<close>

definition initcode_name :: "byte list" where
  "initcode_name = map (\<lambda>c. of_nat (of_char c)) ''initcode'' @ [0]"

definition userinit :: "uint \<Rightarrow> uint \<Rightarrow> uint \<Rightarrow> uint \<Rightarrow> uint \<Rightarrow> devsw \<Rightarrow> kern \<Rightarrow> kern res" where
  "userinit kend kdata forkret ini isz dv s =
     (case alloc_proc forkret s of
        (None, s) \<Rightarrow> Inl BadAccess
      | (Some p, s) \<Rightarrow>
        let s = s\<lparr>k_pt := (k_pt s)\<lparr>initproc := Some p\<rparr>\<rparr> in
        bindE (on_km2 (setupkvm kend kdata) s) (\<lambda>(pgdir, s).
        let s = set_my p (\<lambda>q. q\<lparr>p_pgdir := pgdir\<rparr>) s in
        if pgdir = 0 then Inl (Panic ''userinit: out of memory?'')
        else bindE (on_km (inituvm pgdir ini isz) s) (\<lambda>s.
          bindE (safestrcpy (p_name (my_proc p s)) initcode_name 16) (\<lambda>name.
          let s = set_my p (\<lambda>q. q\<lparr>p_sz := PGSIZE, p_tf := user_trapframe, p_name := name\<rparr>) s in
          bindE (on_fs2 (namei dv (my_pid p s) 0 [47, 0]) s) (\<lambda>(cwd, s).
            Inr (set_my p (\<lambda>q. q\<lparr>p_cwd := cwd, p_state := RUNNABLE\<rparr>) s))))))"

section \<open>Growing and forking\<close>

text \<open>\<open>growproc\<close>: \<open>n\<close> is an \<open>int\<close>, added to the size modulo \<open>2 ^ 32\<close>.\<close>

definition growproc :: "uint \<Rightarrow> nat \<Rightarrow> uint \<Rightarrow> kern \<Rightarrow> (int \<times> kern) res" where
  "growproc kend me n s =
     (let sz = p_sz (my_proc me s); pgdir = p_pgdir (my_proc me s) in
      bindE (if sint n > 0 then on_km2 (allocuvm kend pgdir sz (sz + n)) s
             else if sint n < 0 then on_km2 (deallocuvm kend pgdir sz (sz + n)) s
             else Inr (sz, s)) (\<lambda>(sz', s).
        if n \<noteq> 0 \<and> sz' = 0 then Inr (-1, s)
        else let s = set_my me (\<lambda>p. p\<lparr>p_sz := sz'\<rparr>) s in
          bindE (switchuvm (my_proc me s)) (\<lambda>_.
            Inr (0, s\<lparr>k_um := user_memory pgdir (k_km s)\<rparr>))))"

text \<open>The loops of \<open>fork\<close> over the open files and over the semaphores of the parent.\<close>

fun dup_files :: "nat \<Rightarrow> nat \<Rightarrow> nat list \<Rightarrow> kern \<Rightarrow> kern res" where
  "dup_files me np [] s = Inr s"
| "dup_files me np (i # is) s =
     (case p_ofile (my_proc me s) ! i of
        None \<Rightarrow> dup_files me np is s
      | Some f \<Rightarrow> bindE (filedup f s) (\<lambda>(f, s).
          dup_files me np is (set_my np (\<lambda>p. p\<lparr>p_ofile := (p_ofile p)[i := Some f]\<rparr>) s)))"

fun dup_sems :: "nat \<Rightarrow> nat \<Rightarrow> nat list \<Rightarrow> kern \<times> sem list \<Rightarrow> kern \<times> sem list" where
  "dup_sems me np [] x = x"
| "dup_sems me np (i # is) x =
     (let (s, t) = x in case p_osem (my_proc me s) ! i of
        None \<Rightarrow> dup_sems me np is x
      | Some sd \<Rightarrow> dup_sems me np is
          (set_my np (\<lambda>p. p\<lparr>p_osem := (p_osem p)[i := Some sd]\<rparr>) s, semdup sd t))"

definition fork :: "uint \<Rightarrow> uint \<Rightarrow> uint \<Rightarrow> nat \<Rightarrow> kern \<times> sem list \<Rightarrow> (int \<times> kern \<times> sem list) res" where
  "fork kend kdata forkret me = (\<lambda>(s, t).
     (case alloc_proc forkret s of
        (None, s) \<Rightarrow> Inr (-1, s, t)
      | (Some np, s) \<Rightarrow>
        let cur = my_proc me s in
        bindE (on_km2 (copyuvm kend kdata (p_pgdir cur) (p_sz cur)) s) (\<lambda>(pgdir, s).
        let s = set_my np (\<lambda>p. p\<lparr>p_pgdir := pgdir\<rparr>) s in
        if pgdir = 0 then
          bindE (on_km (kfree kend (p_kstack (my_proc np s))) s) (\<lambda>s.
            Inr (-1, set_my np (\<lambda>p. p\<lparr>p_kstack := 0, p_state := UNUSED\<rparr>) s, t))
        else
          let s = set_my np (\<lambda>p. p\<lparr>p_sz := p_sz cur, p_parent := Some me, p_tf := (p_tf cur)\<lparr>tf_eax := 0\<rparr>\<rparr>) s in
          bindE (dup_files me np [0..<NOFILE] s) (\<lambda>s.
          case p_cwd cur of None \<Rightarrow> Inl BadAccess
          | Some cwd \<Rightarrow>
            let (cwd, f) = idup cwd (k_fs s);
                s = set_my np (\<lambda>p. p\<lparr>p_cwd := Some cwd\<rparr>) (s\<lparr>k_fs := f\<rparr>);
                (s, t) = dup_sems me np [0..<NOSEM] (s, t)
            in bindE (safestrcpy (p_name (my_proc np s)) (p_name cur) 16) (\<lambda>name.
              let s = set_my np (\<lambda>p. p\<lparr>p_name := name\<rparr>) s; pid = p_pid (my_proc np s)
              in Inr (sint pid, set_my np (\<lambda>p. p\<lparr>p_state := RUNNABLE\<rparr>) s, t))))))"

section \<open>Exit and wait\<close>

fun close_files :: "uint \<Rightarrow> nat \<Rightarrow> nat list \<Rightarrow> kern \<Rightarrow> kern res" where
  "close_files kend me [] s = Inr s"
| "close_files kend me (fd # fds) s =
     (case p_ofile (my_proc me s) ! fd of
        None \<Rightarrow> close_files kend me fds s
      | Some f \<Rightarrow> bindE (fileclose kend me f s) (\<lambda>s. close_files kend me fds (clear_fd me fd s)))"

fun close_sems :: "nat \<Rightarrow> nat list \<Rightarrow> kern \<times> sem list \<Rightarrow> kern \<times> sem list" where
  "close_sems me [] x = x"
| "close_sems me (sd # sds) x =
     (let (s, t) = x in case p_osem (my_proc me s) ! sd of
        None \<Rightarrow> close_sems me sds x
      | Some i \<Rightarrow>
          let (_, t, pt) = sem_close i (t, k_pt s)
          in close_sems me sds (set_my me (\<lambda>p. p\<lparr>p_osem := (p_osem p)[sd := None]\<rparr>) (s\<lparr>k_pt := pt\<rparr>), t))"

text \<open>\<open>exit\<close> up to the point where the process gives the processor away for good.\<close>

definition exit :: "uint \<Rightarrow> nat \<Rightarrow> kern \<times> sem list \<Rightarrow> (kern \<times> sem list) res" where
  "exit kend me = (\<lambda>(s, t).
     if initproc (k_pt s) = Some me then Inl (Panic ''init exiting'')
     else bindE (close_files kend me [0..<NOFILE] s) (\<lambda>s.
       let (s, t) = close_sems me [0..<NOSEM] (s, t) in
       bindE (begin_op me s) (\<lambda>s.
       case p_cwd (my_proc me s) of None \<Rightarrow> Inl BadAccess
       | Some cwd \<Rightarrow> bindE (on_fs (iput cwd) s) (\<lambda>s. bindE (end_op s) (\<lambda>s.
           let s = set_my me (\<lambda>p. p\<lparr>p_cwd := None\<rparr>) s
           in Inr (s\<lparr>k_pt := exit_tail me (k_pt s)\<rparr>, t))))))"

text \<open>One round of the loop of \<open>wait\<close>; a round that ends in \<open>sleep\<close> gives \<open>None\<close>.\<close>

definition wait :: "uint \<Rightarrow> nat \<Rightarrow> kern \<Rightarrow> (int option \<times> kern) res" where
  "wait kend me s =
     (case wait_find me (k_pt s) of
        Reap i \<Rightarrow>
          let p = my_proc i s in
          bindE (on_km (kfree kend (p_kstack p)) s) (\<lambda>s.
          bindE (on_km (freevm kend (p_pgdir p)) s) (\<lambda>s.
            Inr (Some (sint (p_pid p)), s\<lparr>k_pt := reap i (k_pt s)\<rparr>)))
      | NoKids \<Rightarrow> Inr (Some (-1), s)
      | KidsRunning \<Rightarrow>
          if p_killed (my_proc me s) then Inr (Some (-1), s)
          else Inr (None, s\<lparr>k_pt := sleep_begin me (ProcChan me) (k_pt s)\<rparr>))"

section \<open>sysproc.c\<close>

definition sys_kill :: "nat \<Rightarrow> kern \<Rightarrow> int \<times> kern" where
  "sys_kill me s =
     (case int_arg me s 0 of None \<Rightarrow> (-1, s)
      | Some pid \<Rightarrow> let (r, pt) = kill pid (k_pt s) in (r, s\<lparr>k_pt := pt\<rparr>))"

definition sys_getpid :: "nat \<Rightarrow> kern \<Rightarrow> int" where
  "sys_getpid me s = sint (p_pid (my_proc me s))"

definition sys_sbrk :: "uint \<Rightarrow> nat \<Rightarrow> kern \<Rightarrow> (int \<times> kern) res" where
  "sys_sbrk kend me s =
     (case int_arg me s 0 of None \<Rightarrow> Inr (-1, s)
      | Some n \<Rightarrow>
          let addr = sint (p_sz (my_proc me s)) in
          mapE (\<lambda>(r, s). (if r < 0 then -1 else addr, s)) (growproc kend me n s))"

text \<open>
  One round of the loop of \<open>sys_sleep\<close> at clock \<open>ticks\<close>; \<open>ticks0\<close> was the clock at its start.
  The comparison is of unsigned numbers. \<open>None\<close> is a round that ends in \<open>sleep\<close>.
\<close>

definition sys_sleep_round :: "uint \<Rightarrow> uint \<Rightarrow> uint \<Rightarrow> nat \<Rightarrow> ptable \<Rightarrow> int option \<times> ptable" where
  "sys_sleep_round n ticks0 ticks me pt =
     (if ticks - ticks0 < n then
        if p_killed (proc_at pt me) then (Some (-1), pt) else (None, sleep_begin me TicksChan pt)
      else (Some 0, pt))"

text \<open>The calls exercise 2 adds to \<open>sysproc.c\<close>: the parent of the first process is null.\<close>

definition sys_getppid :: "nat \<Rightarrow> kern \<Rightarrow> int res" where
  "sys_getppid me s =
     (case p_parent (my_proc me s) of None \<Rightarrow> Inl BadAccess | Some q \<Rightarrow> Inr (sint (p_pid (my_proc q s))))"

definition sys_getpppid :: "nat \<Rightarrow> kern \<Rightarrow> int res" where
  "sys_getpppid me s =
     (case p_parent (my_proc me s) of
        None \<Rightarrow> Inl BadAccess
      | Some q \<Rightarrow> (case p_parent (my_proc q s) of None \<Rightarrow> Inr (-1) | Some g \<Rightarrow> Inr (sint (p_pid (my_proc g s)))))"

section \<open>Process data (exercise 2)\<close>

definition MAX_CHILDREN :: nat where "MAX_CHILDREN = 10"

record proc_data =
  pd_pid :: uint
  pd_name :: "byte list"
  pd_chld_num :: uint
  pd_pids :: "uint list"

definition getprocbypid :: "uint \<Rightarrow> ptable \<Rightarrow> nat option" where
  "getprocbypid pid pt = scan (\<lambda>p. p_pid p = pid) (procs pt)"

text \<open>
  The pids are stored at \<open>children[0]\<close>, \<open>children[1]\<close> and so on without a look at the
  size of the array: the result is the list of all of them.
\<close>

definition getchildrenpid :: "uint \<Rightarrow> ptable \<Rightarrow> uint list" where
  "getchildrenpid pid pt = map p_pid (filter (\<lambda>p. p_parent p = getprocbypid pid pt) (procs pt))"

text \<open>
  \<open>sys_get_proc_data\<close> with its arguments fetched: \<open>d\<close> is what the caller's structure held.
  More children than the array has room for are written behind the structure.
\<close>

definition sys_get_proc_data :: "uint \<Rightarrow> proc_data \<Rightarrow> ptable \<Rightarrow> (int \<times> proc_data) res" where
  "sys_get_proc_data pid d pt =
     (case getprocbypid pid pt of
        None \<Rightarrow> Inr (-1, d)
      | Some i \<Rightarrow>
          let p = proc_at pt i in
          if p_state p = UNUSED then Inr (-1, d)
          else bindE (strncpy (pd_name d) (p_name p) 16) (\<lambda>name.
            let ch = getchildrenpid pid pt in
            if length ch > MAX_CHILDREN then Inl BadAccess
            else Inr (sint (p_pid p),
              \<lparr>pd_pid = p_pid p, pd_name = name, pd_chld_num = of_nat (length ch),
               pd_pids = ch @ drop (length ch) (pd_pids d)\<rparr>)))"

end
