(* ===== verification/Sh.thy ===== *)
theory Sh
  imports Cstring
begin

text \<open>
  The shell (\<open>sh.c\<close>): its parser and what it does with a parsed command. A line is a byte
  list without its final 0 and a pointer into it is an index. The three parsing functions
  that call each other have a bound on the depth of the calls; \<open>None\<close> means that the bound
  was too small, and \<open>parse_returns\<close> shows that \<open>parsecmd\<close> never says so. \<open>malloc\<close> is
  taken to succeed, as the code takes it.
\<close>

section \<open>Tokens\<close>

definition whitespace :: "byte list" where "whitespace = [32, 9, 13, 10, 11]"
definition symbols :: "byte list" where "symbols = [60, 124, 62, 38, 59, 40, 41]"

abbreviation is_ws :: "byte \<Rightarrow> bool" where "is_ws c \<equiv> c \<in> set whitespace"
abbreviation is_word :: "byte \<Rightarrow> bool" where "is_word c \<equiv> c \<notin> set whitespace \<and> c \<notin> set symbols"

text \<open>The byte at a position; behind the end is the final 0.\<close>

definition char_at :: "byte list \<Rightarrow> nat \<Rightarrow> byte" where
  "char_at b i = (if i < length b then b ! i else 0)"

function scan_while :: "(byte \<Rightarrow> bool) \<Rightarrow> byte list \<Rightarrow> nat \<Rightarrow> nat" where
  "scan_while P b s = (if s < length b \<and> P (char_at b s) then scan_while P b (Suc s) else s)"
  by pat_completeness auto
termination by (relation "measure (\<lambda>(P, b, s). length b - s)") auto

declare scan_while.simps [simp del]

definition skip_ws :: "byte list \<Rightarrow> nat \<Rightarrow> nat" where
  "skip_ws b s = scan_while is_ws b s"

text \<open>What \<open>gettoken\<close> returns, and the token's end.\<close>

definition token_at :: "byte list \<Rightarrow> nat \<Rightarrow> byte \<times> nat" where
  "token_at b s =
     (let c = char_at b s in
      if c = 0 then (0, s)
      else if c \<in> {124, 40, 41, 59, 38, 60} then (c, s + 1)
      else if c = 62 then (if char_at b (s + 1) = 62 then (43, s + 2) else (62, s + 1))
      else (97, scan_while is_word b s))"

text \<open>\<open>gettoken\<close>: the token, where it starts and ends, and the new position.\<close>

definition gettoken :: "byte list \<Rightarrow> nat \<Rightarrow> byte \<times> nat \<times> nat \<times> nat" where
  "gettoken b ps =
     (let q = skip_ws b ps; (ret, eq) = token_at b q in (ret, q, eq, skip_ws b eq))"

definition peek :: "byte list \<Rightarrow> nat \<Rightarrow> byte list \<Rightarrow> bool \<times> nat" where
  "peek b ps toks =
     (let s = skip_ws b ps in (char_at b s \<noteq> 0 \<and> char_at b s \<in> set toks, s))"

section \<open>Commands\<close>

definition MAXARGS :: nat where "MAXARGS = 10"

text \<open>Strings are pairs of their first position and the position behind their end.\<close>

datatype cmd =
    ExecCmd "(nat \<times> nat) list"
  | RedirCmd cmd "nat \<times> nat" uint nat    \<comment> \<open>file, mode, descriptor\<close>
  | PipeCmd cmd cmd
  | ListCmd cmd cmd
  | BackCmd cmd

text \<open>Results of the parser: \<open>None\<close> when the bound is too small, \<open>Inl\<close> for a panic.\<close>

definition bindP :: "'a res option \<Rightarrow> ('a \<Rightarrow> 'b res option) \<Rightarrow> 'b res option" where
  "bindP m f = (case m of None \<Rightarrow> None | Some (Inl e) \<Rightarrow> Some (Inl e) | Some (Inr x) \<Rightarrow> f x)"

lemma bindP_simps [simp]:
  "bindP None f = None"
  "bindP (Some (Inl e)) f = Some (Inl e)"
  "bindP (Some (Inr x)) f = f x"
  by (simp_all add: bindP_def)

lemma scan_while_eq: "scan_while P b s = s + length (takeWhile P (drop s b))"
proof (induction P b s rule: scan_while.induct)
  case (1 P b s)
  show ?case
  proof (cases "s < length b")
    case True
    then have "drop s b = char_at b s # drop (Suc s) b" by (simp add: char_at_def Cons_nth_drop_Suc)
    with 1 True show ?thesis by (subst scan_while.simps) simp
  next
    case False
    then show ?thesis by (subst scan_while.simps) simp
  qed
qed

lemma scan_while_ge: "s \<le> scan_while P b s"
  by (simp add: scan_while_eq)

lemma scan_while_le: "s \<le> length b \<Longrightarrow> scan_while P b s \<le> length b"
  using length_takeWhile_le [of P "drop s b"] by (simp add: scan_while_eq)

lemma scan_while_stop: "scan_while P b s < length b \<Longrightarrow> \<not> P (char_at b (scan_while P b s))"
proof -
  let ?n = "length (takeWhile P (drop s b))"
  assume l: "scan_while P b s < length b"
  then have "?n < length (drop s b)" by (simp add: scan_while_eq)
  then have "\<not> P (drop s b ! ?n)" by (rule nth_length_takeWhile)
  with l show ?thesis by (simp add: scan_while_eq char_at_def)
qed

lemma scan_while_more:
  assumes "s < length b" and "P (char_at b s)"
  shows "s < scan_while P b s"
proof -
  have "drop s b = char_at b s # drop (Suc s) b" using assms by (simp add: char_at_def Cons_nth_drop_Suc)
  with assms show ?thesis by (simp add: scan_while_eq)
qed

lemma skip_ws_le: "s \<le> skip_ws b s" "s \<le> length b \<Longrightarrow> skip_ws b s \<le> length b"
  by (simp_all add: skip_ws_def scan_while_ge scan_while_le)

lemma skip_ws_stop: "skip_ws b s < length b \<Longrightarrow> \<not> is_ws (char_at b (skip_ws b s))"
  unfolding skip_ws_def by (rule scan_while_stop)

text \<open>A token that is not the end of the line is at least one byte long.\<close>

lemma token_at_end:
  assumes t: "token_at b s = (tok, e)" and "tok \<noteq> 0" and "s < length b \<Longrightarrow> \<not> is_ws (char_at b s)"
  shows "s < e \<and> e \<le> length b"
proof -
  define c where "c = char_at b s"
  have c: "c \<noteq> 0" using assms(1,2) by (auto simp: token_at_def c_def)
  then have s: "s < length b" by (simp add: c_def char_at_def split: if_splits)
  show ?thesis
  proof (cases "c \<in> {124, 40, 41, 59, 38, 60}")
    case True
    then have "e = s + 1" using t c by (simp add: token_at_def c_def Let_def)
    with s show ?thesis by simp
  next
    case not_symbol: False
    show ?thesis
    proof (cases "c = 62")
      case True
      have "s + 1 < length b" if "char_at b (s + 1) = 62" using that by (simp add: char_at_def split: if_splits)
      moreover have "e = (if char_at b (s + 1) = 62 then s + 2 else s + 1)"
        using t True by (auto simp: token_at_def c_def [symmetric] split: if_splits)
      ultimately show ?thesis using s by auto
    next
      case False
      have e: "e = scan_while is_word b s"
        using t c not_symbol False unfolding token_at_def c_def [symmetric] Let_def by simp
      have "is_word c" using assms(3) s not_symbol False by (simp add: symbols_def c_def)
      then have "s < e" unfolding e c_def by (intro scan_while_more s)
      moreover have "e \<le> length b" using s by (simp add: e scan_while_le)
      ultimately show ?thesis by simp
    qed
  qed
qed

lemma gettoken_advances:
  assumes "gettoken b ps = (tok, q, eq, ps')" and "tok \<noteq> 0" and "ps \<le> length b"
  shows "ps \<le> q \<and> q < eq \<and> eq \<le> ps' \<and> ps' \<le> length b"
proof -
  have q: "q = skip_ws b ps" "token_at b q = (tok, eq)" "ps' = skip_ws b eq"
    using assms(1) by (auto simp: gettoken_def Let_def split: prod.splits)
  have "q \<le> length b" "ps \<le> q" using skip_ws_le assms(3) q(1) by auto
  moreover have "q < eq \<and> eq \<le> length b"
    using token_at_end [OF q(2) assms(2)] skip_ws_stop q(1) by blast
  ultimately show ?thesis using skip_ws_le q(3) by auto
qed

lemma gettoken_le:
  assumes "gettoken b ps = (tok, q, eq, ps')" and "ps \<le> length b"
  shows "ps \<le> ps' \<and> ps' \<le> length b"
proof (cases "tok = 0")
  case True
  then have "eq = skip_ws b ps" "ps' = skip_ws b eq"
    using assms(1) by (auto simp: gettoken_def token_at_def Let_def split: prod.splits if_splits)
  then show ?thesis using skip_ws_le(1) skip_ws_le(2) assms(2) by (metis le_trans)
next
  case False
  then show ?thesis using gettoken_advances [OF assms(1) _ assms(2)] by auto
qed

lemma peek_le: "peek b ps toks = (r, ps') \<Longrightarrow> ps \<le> length b \<Longrightarrow> ps \<le> ps' \<and> ps' \<le> length b"
  using skip_ws_le by (auto simp: peek_def Let_def)

section \<open>The parser\<close>

text \<open>The loop of \<open>parseline\<close> over \<open>&\<close>.\<close>

function back_loop :: "byte list \<Rightarrow> cmd \<Rightarrow> nat \<Rightarrow> cmd \<times> nat" where
  "back_loop b c ps =
     (let (amp, ps) = peek b ps [38] in
      if amp then let (_, _, _, ps) = gettoken b ps in back_loop b (BackCmd c) ps
      else (c, ps))"
  by pat_completeness auto

text \<open>One redirection changes the command; the descriptor and the mode come from the symbol.\<close>

definition redir :: "byte \<Rightarrow> nat \<times> nat \<Rightarrow> cmd \<Rightarrow> cmd" where
  "redir tok f c =
     (if tok = 60 then RedirCmd c f 0 0
      else if tok = 62 then RedirCmd c f 0x201 1
      else if tok = 43 then RedirCmd c f 0x201 1
      else c)"

lemma peek_gettoken:
  assumes "peek b ps toks = (True, s)" and "gettoken b s = (tok, q, eq, s')"
  shows "tok \<noteq> 0 \<and> ps \<le> s \<and> s < s' \<and> s' \<le> length b"
proof -
  have s: "char_at b s \<noteq> 0" "s = skip_ws b ps" using assms(1) by (auto simp: peek_def Let_def)
  then have len: "s < length b" by (simp add: char_at_def split: if_splits)
  have "\<not> is_ws (char_at b s)" using s(2) len skip_ws_stop by blast
  then have "skip_ws b s = s"
    using scan_while_eq [of is_ws b s] len by (simp add: skip_ws_def char_at_def Cons_nth_drop_Suc [symmetric])
  then have "token_at b s = (tok, eq)" using assms(2) by (auto simp: gettoken_def Let_def split: prod.splits)
  then have "tok \<noteq> 0" using s(1) by (auto simp: token_at_def Let_def split: if_splits)
  moreover have "s < s' \<and> s' \<le> length b"
    using gettoken_advances [OF assms(2) \<open>tok \<noteq> 0\<close>] len by auto
  ultimately show ?thesis using s(2) skip_ws_le(1) by auto
qed

lemma peek_start: "peek b ps toks = (r, s) \<Longrightarrow> ps \<le> s"
  using skip_ws_le(1) by (auto simp: peek_def Let_def)

termination back_loop
proof (relation "measure (\<lambda>(b, c, ps). length b - ps)")
  fix b c ps x amp s y tok y1 q y2 eq s'
  assume "x = peek b ps [38]" and "(amp, s) = x" and "amp"
    and "y = gettoken b s" and "(tok, y1) = y" and "(q, y2) = y1" and "(eq, s') = y2"
  then have "ps \<le> s" "s < s'" "s' \<le> length b"
    using peek_gettoken [of b ps "[38]" s tok q eq s'] peek_start by auto
  then show "((b, BackCmd c, s'), b, c, ps) \<in> measure (\<lambda>(b, c, ps). length b - ps)" by simp
qed simp

declare back_loop.simps [simp del]

function parseredirs :: "byte list \<Rightarrow> cmd \<Rightarrow> nat \<Rightarrow> (cmd \<times> nat) res" where
  "parseredirs b c ps =
     (let (r, ps) = peek b ps [60, 62] in
      if r then
        let (tok, _, _, ps1) = gettoken b ps; (t, q, eq, ps2) = gettoken b ps1 in
        if t \<noteq> 97 then Inl (Panic ''missing file for redirection'')
        else parseredirs b (redir tok (q, eq) c) ps2
      else Inr (c, ps))"
  by pat_completeness auto
termination
proof (relation "measure (\<lambda>(b, c, ps). length b - ps)")
  fix b c ps x r s y tok y1 q1 y2 eq1 s1 z t z1 q z2 eq s2
  assume "x = peek b ps [60, 62]" and "(r, s) = x" and "r"
    and "y = gettoken b s" and "(tok, y1) = y" and "(q1, y2) = y1" and "(eq1, s1) = y2"
    and g: "z = gettoken b s1" "(t, z1) = z" "(q, z2) = z1" "(eq, s2) = z2"
  then have "ps \<le> s" "s < s1" "s1 \<le> length b"
    using peek_gettoken [of b ps "[60, 62]" s tok q1 eq1 s1] peek_start by auto
  moreover have "s1 \<le> s2 \<and> s2 \<le> length b"
    using gettoken_le [of b s1 t q eq s2] g \<open>s1 \<le> length b\<close> by auto
  ultimately show "((b, redir tok (q, eq) c, s2), b, c, ps) \<in> measure (\<lambda>(b, c, ps). length b - ps)"
    by auto
qed simp

declare parseredirs.simps [simp del]

text \<open>
  \<open>parseexec\<close> keeps a pointer to the innermost command and adds the arguments there, while
  redirections are put around it.
\<close>

fun add_arg :: "nat \<times> nat \<Rightarrow> cmd \<Rightarrow> cmd" where
  "add_arg a (ExecCmd as) = ExecCmd (as @ [a])"
| "add_arg a (RedirCmd c f m d) = RedirCmd (add_arg a c) f m d"
| "add_arg a c = c"

function parse_args :: "byte list \<Rightarrow> nat \<Rightarrow> cmd \<Rightarrow> nat \<Rightarrow> (cmd \<times> nat) res" where
  "parse_args b argc ret ps =
     (let (stop, ps) = peek b ps [124, 41, 38, 59] in
      if stop then Inr (ret, ps)
      else let (tok, q, eq, ps) = gettoken b ps in
        if tok = 0 then Inr (ret, ps)
        else if tok \<noteq> 97 then Inl (Panic ''syntax'')
        else if argc + 1 \<ge> MAXARGS then Inl (Panic ''too many args'')
        else bindE (parseredirs b (add_arg (q, eq) ret) ps) (\<lambda>(ret, ps). parse_args b (argc + 1) ret ps))"
  by pat_completeness auto
termination by (relation "measure (\<lambda>(b, argc, ret, ps). MAXARGS - argc)") auto

declare parse_args.simps [simp del]

fun parseline :: "nat \<Rightarrow> byte list \<Rightarrow> nat \<Rightarrow> (cmd \<times> nat) res option"
  and parsepipe :: "nat \<Rightarrow> byte list \<Rightarrow> nat \<Rightarrow> (cmd \<times> nat) res option"
  and parseexec :: "nat \<Rightarrow> byte list \<Rightarrow> nat \<Rightarrow> (cmd \<times> nat) res option"
  and parseblock :: "nat \<Rightarrow> byte list \<Rightarrow> nat \<Rightarrow> (cmd \<times> nat) res option" where
  "parseline 0 b ps = None"
| "parseline (Suc n) b ps =
     bindP (parsepipe n b ps) (\<lambda>(c, ps).
       let (c, ps) = back_loop b c ps; (semi, ps) = peek b ps [59] in
       if semi then
         let (_, _, _, ps) = gettoken b ps
         in bindP (parseline n b ps) (\<lambda>(d, ps). Some (Inr (ListCmd c d, ps)))
       else Some (Inr (c, ps)))"
| "parsepipe 0 b ps = None"
| "parsepipe (Suc n) b ps =
     bindP (parseexec n b ps) (\<lambda>(c, ps).
       let (bar, ps) = peek b ps [124] in
       if bar then
         let (_, _, _, ps) = gettoken b ps
         in bindP (parsepipe n b ps) (\<lambda>(d, ps). Some (Inr (PipeCmd c d, ps)))
       else Some (Inr (c, ps)))"
| "parseexec 0 b ps = None"
| "parseexec (Suc n) b ps =
     (let (paren, ps) = peek b ps [40] in
      if paren then parseblock n b ps
      else Some (bindE (parseredirs b (ExecCmd []) ps) (\<lambda>(c, ps). parse_args b 0 c ps)))"
| "parseblock 0 b ps = None"
| "parseblock (Suc n) b ps =
     (let (paren, ps) = peek b ps [40] in
      if \<not> paren then Some (Inl (Panic ''parseblock''))
      else let (_, _, _, ps) = gettoken b ps in
        bindP (parseline n b ps) (\<lambda>(c, ps).
          let (paren, ps) = peek b ps [41] in
          if \<not> paren then Some (Inl (Panic ''syntax - missing )''))
          else let (_, _, _, ps) = gettoken b ps in Some (parseredirs b c ps)))"

declare parseline.simps [simp del] parsepipe.simps [simp del] parseexec.simps [simp del] parseblock.simps [simp del]

fun nulterminate :: "cmd \<Rightarrow> byte list \<Rightarrow> byte list" where
  "nulterminate (ExecCmd as) b = fold (\<lambda>(q, eq) b. b[eq := 0]) as b"
| "nulterminate (RedirCmd c f m d) b = (nulterminate c b)[snd f := 0]"
| "nulterminate (PipeCmd c d) b = nulterminate d (nulterminate c b)"
| "nulterminate (ListCmd c d) b = nulterminate d (nulterminate c b)"
| "nulterminate (BackCmd c) b = nulterminate c b"

text \<open>The result is the command and the line with the strings terminated.\<close>

definition parsecmd :: "byte list \<Rightarrow> (cmd \<times> byte list) res option" where
  "parsecmd b =
     (let es = length b in
      bindP (parseline (4 * es + 4) b 0) (\<lambda>(c, s).
        let (_, s) = peek b s [] in
        if s \<noteq> es then Some (Inl (Panic ''syntax''))
        else Some (Inr (c, nulterminate c (b @ [0])))))"

section \<open>The parser returns\<close>

text \<open>
  The strings of a command lie in the line, which has \<open>n\<close> bytes before its final 0, and no
  command has more arguments than \<open>argv\<close> has room for.
\<close>

abbreviation str_ok :: "nat \<Rightarrow> nat \<times> nat \<Rightarrow> bool" where
  "str_ok n a \<equiv> fst a < snd a \<and> snd a \<le> n"

fun cmd_ok :: "nat \<Rightarrow> cmd \<Rightarrow> bool" where
  "cmd_ok n (ExecCmd as) = (length as < MAXARGS \<and> (\<forall>a \<in> set as. str_ok n a))"
| "cmd_ok n (RedirCmd c f m d) = (cmd_ok n c \<and> str_ok n f)"
| "cmd_ok n (PipeCmd c d) = (cmd_ok n c \<and> cmd_ok n d)"
| "cmd_ok n (ListCmd c d) = (cmd_ok n c \<and> cmd_ok n d)"
| "cmd_ok n (BackCmd c) = cmd_ok n c"

fun nargs :: "cmd \<Rightarrow> nat" where
  "nargs (ExecCmd as) = length as"
| "nargs (RedirCmd c f m d) = nargs c"
| "nargs c = 0"

lemma add_arg_ok: "cmd_ok n c \<Longrightarrow> nargs c + 1 < MAXARGS \<Longrightarrow> str_ok n a \<Longrightarrow> cmd_ok n (add_arg a c) \<and> nargs (add_arg a c) \<le> nargs c + 1"
  by (induction a c rule: add_arg.induct) auto

lemma redir_ok: "cmd_ok n c \<Longrightarrow> str_ok n f \<Longrightarrow> cmd_ok n (redir t f c) \<and> nargs (redir t f c) = nargs c"
  by (simp add: redir_def)

lemma back_loop_le:
  "back_loop b c ps = (c', ps') \<Longrightarrow> ps \<le> length b \<Longrightarrow> cmd_ok (length b) c \<Longrightarrow>
     ps \<le> ps' \<and> ps' \<le> length b \<and> cmd_ok (length b) c'"
proof (induction b c ps arbitrary: c' ps' rule: back_loop.induct)
  case (1 b c ps)
  obtain amp s where p: "peek b ps [38] = (amp, s)" by (rule prod.exhaust)
  obtain tok q eq s' where g: "gettoken b s = (tok, q, eq, s')" by (metis prod.exhaust)
  have s: "ps \<le> s" "s \<le> length b" using peek_le [OF p] "1.prems"(2) by auto
  show ?case
  proof (cases amp)
    case True
    have "s < s' \<and> s' \<le> length b" using peek_gettoken [OF _ g] p True by simp
    moreover have "back_loop b (BackCmd c) s' = (c', ps')"
      using "1.prems"(1) p g True by (subst (asm) back_loop.simps) simp
    ultimately show ?thesis
      using "1.IH" [OF p [symmetric] refl True g [symmetric] refl refl refl, of c' ps'] s "1.prems"(3) by auto
  next
    case False
    then have "ps' = s" "c' = c" using "1.prems"(1) p by (subst (asm) back_loop.simps; simp)+
    then show ?thesis using s "1.prems"(3) by simp
  qed
qed

lemma parseredirs_le:
  "parseredirs b c ps = Inr (c', ps') \<Longrightarrow> ps \<le> length b \<Longrightarrow> cmd_ok (length b) c \<Longrightarrow>
     ps \<le> ps' \<and> ps' \<le> length b \<and> cmd_ok (length b) c' \<and> nargs c' = nargs c"
proof (induction b c ps arbitrary: c' ps' rule: parseredirs.induct)
  case (1 b c ps)
  obtain r s where p: "peek b ps [60, 62] = (r, s)" by (rule prod.exhaust)
  obtain tok q1 eq1 s1 where g: "gettoken b s = (tok, q1, eq1, s1)" by (metis prod.exhaust)
  obtain t q eq s2 where h: "gettoken b s1 = (t, q, eq, s2)" by (metis prod.exhaust)
  have s: "ps \<le> s" "s \<le> length b" using peek_le [OF p] "1.prems"(2) by auto
  show ?case
  proof (cases r)
    case True
    have s1: "s < s1" "s1 \<le> length b" using peek_gettoken [OF _ g] p True by simp_all
    have t: "t = 97" and e: "parseredirs b (redir tok (q, eq) c) s2 = Inr (c', ps')"
      using "1.prems"(1) p g h True by (subst (asm) parseredirs.simps; simp split: if_splits)+
    then have t': "\<not> t \<noteq> 97" by simp
    have s2: "s1 \<le> s2" "s2 \<le> length b" using gettoken_le [OF h s1(2)] by auto
    have "str_ok (length b) (q, eq)" using gettoken_advances [OF h _ s1(2)] t by simp
    then have "cmd_ok (length b) (redir tok (q, eq) c)" "nargs (redir tok (q, eq) c) = nargs c"
      using redir_ok "1.prems"(3) by blast+
    with "1.IH" [OF p [symmetric] refl True g [symmetric] refl refl refl h [symmetric] refl refl refl t' e] s1 s2 s
    show ?thesis by auto
  next
    case False
    then have "ps' = s" "c' = c" using "1.prems"(1) p by (subst (asm) parseredirs.simps; simp)+
    then show ?thesis using s "1.prems"(3) by simp
  qed
qed

lemma parse_args_le:
  "parse_args b argc c ps = Inr (c', ps') \<Longrightarrow> ps \<le> length b \<Longrightarrow> cmd_ok (length b) c \<Longrightarrow> nargs c \<le> argc \<Longrightarrow>
     ps \<le> ps' \<and> ps' \<le> length b \<and> cmd_ok (length b) c'"
proof (induction b argc c ps arbitrary: c' ps' rule: parse_args.induct)
  case (1 b argc c ps)
  obtain r s where p: "peek b ps [124, 41, 38, 59] = (r, s)" by (rule prod.exhaust)
  obtain t q eq s1 where g: "gettoken b s = (t, q, eq, s1)" by (metis prod.exhaust)
  have s: "ps \<le> s" "s \<le> length b" using peek_le [OF p] "1.prems"(2) by auto
  have s1: "s \<le> s1" "s1 \<le> length b" using gettoken_le [OF g s(2)] by auto
  show ?case
  proof (cases "r \<or> t = 0")
    case True
    then have "(ps' = s \<or> ps' = s1) \<and> c' = c"
      using "1.prems"(1) p g by (subst (asm) parse_args.simps) (auto split: if_splits)
    then show ?thesis using s s1 "1.prems"(3) by auto
  next
    case False
    then have t: "t = 97" and few: "\<not> argc + 1 \<ge> MAXARGS" and
      ex: "\<exists>d s2. parseredirs b (add_arg (q, eq) c) s1 = Inr (d, s2) \<and> parse_args b (argc + 1) d s2 = Inr (c', ps')"
      using "1.prems"(1) p g by (subst (asm) parse_args.simps; auto split: if_splits)+
    then obtain d s2 where r1: "parseredirs b (add_arg (q, eq) c) s1 = Inr (d, s2)"
      and r2: "parse_args b (argc + 1) d s2 = Inr (c', ps')" by blast
    have "str_ok (length b) (q, eq)" using gettoken_advances [OF g _ s(2)] t by simp
    then have a: "cmd_ok (length b) (add_arg (q, eq) c)" "nargs (add_arg (q, eq) c) \<le> nargs c + 1"
      using add_arg_ok [OF "1.prems"(3)] few "1.prems"(4) by auto
    have d: "s1 \<le> s2" "s2 \<le> length b" "cmd_ok (length b) d" "nargs d \<le> argc + 1"
      using parseredirs_le [OF r1 s1(2) a(1)] a(2) "1.prems"(4) by auto
    have nr: "\<not> r" "t \<noteq> 0" "\<not> t \<noteq> 97" using False t by auto
    have "s2 \<le> ps' \<and> ps' \<le> length b \<and> cmd_ok (length b) c'"
      by (rule "1.IH" [OF p [symmetric] refl nr(1) g [symmetric] refl refl refl nr(2,3) few r1 refl r2 d(2-4)])
    then show ?thesis using s s1 d by auto
  qed
qed

text \<open>
  A parser's result: it does not run out of its bound, it ends at a position that is not
  before the one it started from, and the strings of the command are in order.
\<close>

definition parsed :: "byte list \<Rightarrow> nat \<Rightarrow> (cmd \<times> nat) res option \<Rightarrow> bool" where
  "parsed b ps r \<longleftrightarrow> r \<noteq> None \<and> (\<forall>c ps'. r = Some (Inr (c, ps')) \<longrightarrow>
     ps \<le> ps' \<and> ps' \<le> length b \<and> cmd_ok (length b) c)"

lemma parsed_simps [simp]:
  "parsed b ps (Some (Inl e))"
  "parsed b ps (Some (Inr (c, ps'))) \<longleftrightarrow> ps \<le> ps' \<and> ps' \<le> length b \<and> cmd_ok (length b) c"
  "\<not> parsed b ps None"
  by (auto simp: parsed_def)

lemma parsed_bind:
  assumes "parsed b ps r" and "\<And>c s. ps \<le> s \<Longrightarrow> s \<le> length b \<Longrightarrow> cmd_ok (length b) c \<Longrightarrow> parsed b ps (f (c, s))"
  shows "parsed b ps (bindP r f)"
proof (cases r)
  case None
  then show ?thesis using assms(1) by simp
next
  case (Some x)
  then show ?thesis using assms by (cases x) auto
qed

lemma parsed_mono: "parsed b s r \<Longrightarrow> ps \<le> s \<Longrightarrow> parsed b ps r"
  by (auto simp: parsed_def)

lemma parsed_redirs: "ps \<le> length b \<Longrightarrow> cmd_ok (length b) c \<Longrightarrow> parsed b ps (Some (parseredirs b c ps))"
  using parseredirs_le by (cases "parseredirs b c ps") (auto simp: parsed_def)

lemma parsed_exec:
  assumes "ps \<le> length b"
  shows "parsed b ps (Some (bindE (parseredirs b (ExecCmd []) ps) (\<lambda>(c, ps). parse_args b 0 c ps)))"
proof -
  have "ps \<le> ps' \<and> ps' \<le> length b \<and> cmd_ok (length b) c'"
    if r: "parseredirs b (ExecCmd []) ps = Inr (c, s)" "parse_args b 0 c s = Inr (c', ps')" for c s c' ps'
  proof -
    have "ps \<le> s" "s \<le> length b" "cmd_ok (length b) c" "nargs c \<le> 0"
      using parseredirs_le [OF r(1) assms] by (simp_all add: MAXARGS_def)
    with parse_args_le [OF r(2)] show ?thesis by auto
  qed
  then show ?thesis by (auto simp: parsed_def)
qed

text \<open>Taking one symbol from the line.\<close>

lemma after_symbol:
  assumes "peek b ps toks = (True, s)" and "gettoken b s = (tok, q, eq, s')"
  shows "ps < s'" "s' \<le> length b"
  using peek_gettoken [OF assms] by auto

lemma parse_returns:
  assumes "ps \<le> length b"
  shows "4 * (length b - ps) + 4 \<le> n \<Longrightarrow> parsed b ps (parseline n b ps)"
    and "4 * (length b - ps) + 3 \<le> n \<Longrightarrow> parsed b ps (parsepipe n b ps)"
    and "4 * (length b - ps) + 2 \<le> n \<Longrightarrow> parsed b ps (parseexec n b ps)"
    and "4 * (length b - ps) + 1 \<le> n \<Longrightarrow> parsed b ps (parseblock n b ps)"
  using assms
proof (induction n arbitrary: ps)
  case 0
  {
    case 1 then show ?case by simp
  next
    case 2 then show ?case by simp
  next
    case 3 then show ?case by simp
  next
    case 4 then show ?case by simp
  }
next
  case (Suc n)
  {
    case 1
    have pipe: "parsed b ps (parsepipe n b ps)" using 1 by (intro Suc.IH) auto
    show ?case unfolding parseline.simps
    proof (rule parsed_bind [OF pipe])
      fix c s assume s: "ps \<le> s" "s \<le> length b" "cmd_ok (length b) c"
      obtain c1 s1 where l: "back_loop b c s = (c1, s1)" by (rule prod.exhaust)
      obtain semi s2 where p: "peek b s1 [59] = (semi, s2)" by (rule prod.exhaust)
      obtain t q eq s3 where g: "gettoken b s2 = (t, q, eq, s3)" by (metis prod.exhaust)
      have s2: "ps \<le> s1" "s1 \<le> s2" "s2 \<le> length b" "cmd_ok (length b) c1" using back_loop_le [OF l] peek_le [OF p] s by auto
      have "parsed b ps (bindP (parseline n b s3) (\<lambda>(d, ps). Some (Inr (ListCmd c1 d, ps))))" if semi
      proof -
        have s3: "s1 < s3" "s3 \<le> length b" using after_symbol [OF _ g] p that by auto
        then have "parsed b s3 (parseline n b s3)" using 1 s2 by (intro Suc.IH) auto
        then have "parsed b ps (parseline n b s3)" by (rule parsed_mono) (use s2 s3 in auto)
        then show ?thesis by (rule parsed_bind) (use s2 s in simp)
      qed
      then show "parsed b ps (case (c, s) of (c, ps) \<Rightarrow> let (c, ps) = back_loop b c ps; (semi, ps) = peek b ps [59] in
          if semi then let (_, _, _, ps) = gettoken b ps in bindP (parseline n b ps) (\<lambda>(d, ps). Some (Inr (ListCmd c d, ps)))
          else Some (Inr (c, ps)))"
        using l p g s2 by simp
    qed
  next
    case 2
    have ex: "parsed b ps (parseexec n b ps)" using 2 by (intro Suc.IH) auto
    show ?case unfolding parsepipe.simps
    proof (rule parsed_bind [OF ex])
      fix c s assume s: "ps \<le> s" "s \<le> length b" "cmd_ok (length b) c"
      obtain bar s2 where p: "peek b s [124] = (bar, s2)" by (rule prod.exhaust)
      obtain t q eq s3 where g: "gettoken b s2 = (t, q, eq, s3)" by (metis prod.exhaust)
      have s2: "s \<le> s2" "s2 \<le> length b" using peek_le [OF p] s by auto
      have "parsed b ps (bindP (parsepipe n b s3) (\<lambda>(d, ps). Some (Inr (PipeCmd c d, ps))))" if bar
      proof -
        have s3: "s < s3" "s3 \<le> length b" using after_symbol [OF _ g] p that by auto
        then have "parsed b s3 (parsepipe n b s3)" using 2 s by (intro Suc.IH) auto
        then have "parsed b ps (parsepipe n b s3)" by (rule parsed_mono) (use s s3 in auto)
        then show ?thesis by (rule parsed_bind) (use s2 s in simp)
      qed
      then show "parsed b ps (case (c, s) of (c, ps) \<Rightarrow> let (bar, ps) = peek b ps [124] in
          if bar then let (_, _, _, ps) = gettoken b ps in bindP (parsepipe n b ps) (\<lambda>(d, ps). Some (Inr (PipeCmd c d, ps)))
          else Some (Inr (c, ps)))"
        using p g s s2 by simp
    qed
  next
    case 3
    obtain paren s where p: "peek b ps [40] = (paren, s)" by (rule prod.exhaust)
    have s: "ps \<le> s" "s \<le> length b" using peek_le [OF p] 3 by auto
    have "parsed b s (parseblock n b s)" using 3 s by (intro Suc.IH) auto
    moreover have "parsed b s (Some (bindE (parseredirs b (ExecCmd []) s) (\<lambda>(c, ps). parse_args b 0 c ps)))"
      using s(2) by (rule parsed_exec)
    ultimately show ?case using p s(1) parsed_mono by (auto simp: parseexec.simps)
  next
    case 4
    obtain paren s where p: "peek b ps [40] = (paren, s)" by (rule prod.exhaust)
    obtain t q eq s1 where g: "gettoken b s = (t, q, eq, s1)" by (metis prod.exhaust)
    show ?case
    proof (cases paren)
      case False
      then show ?thesis using p by (simp add: parseblock.simps)
    next
      case True
      then have s1: "ps < s1" "s1 \<le> length b" using after_symbol [OF _ g] p by auto
      then have "parsed b s1 (parseline n b s1)" using 4 by (intro Suc.IH) auto
      then have line: "parsed b ps (parseline n b s1)" by (rule parsed_mono) (use s1 in auto)
      have "parsed b ps (bindP (parseline n b s1) (\<lambda>(c, ps).
          let (paren, ps) = peek b ps [41] in
          if \<not> paren then Some (Inl (Panic ''syntax - missing )''))
          else let (_, _, _, ps) = gettoken b ps in Some (parseredirs b c ps)))"
      proof (rule parsed_bind [OF line])
        fix c s2 assume s2: "ps \<le> s2" "s2 \<le> length b" "cmd_ok (length b) c"
        obtain close s3 where p': "peek b s2 [41] = (close, s3)" by (rule prod.exhaust)
        obtain t q eq s4 where g': "gettoken b s3 = (t, q, eq, s4)" by (metis prod.exhaust)
        have "parsed b ps (Some (parseredirs b c s4))" if close
        proof -
          have "s2 < s4" "s4 \<le> length b" using after_symbol [OF _ g'] p' that by auto
          then show ?thesis using parsed_redirs parsed_mono s2 by (meson less_imp_le le_trans)
        qed
        then show "parsed b ps (case (c, s2) of (c, ps) \<Rightarrow> let (paren, ps) = peek b ps [41] in
            if \<not> paren then Some (Inl (Panic ''syntax - missing )''))
            else let (_, _, _, ps) = gettoken b ps in Some (parseredirs b c ps))"
          using p' g' by simp
      qed
      then show ?thesis using p g True by (simp add: parseblock.simps)
    qed
  }
qed

text \<open>
  C19. The parser of the shell returns for every line, with a command or with one of its
  messages; the bound on the depth of its calls is never reached. All strings of the
  command lie in the line, so that \<open>nulterminate\<close> writes only in the line's buffer, and no
  argument list is longer than \<open>argv\<close> with its final null pointer allows.
\<close>

theorem parsecmd_returns:
  "case parsecmd b of None \<Rightarrow> False | Some (Inl e) \<Rightarrow> True
   | Some (Inr (c, b')) \<Rightarrow> cmd_ok (length b) c \<and> length b' = length b + 1"
proof -
  have len: "length (nulterminate c b) = length b" for c b
  proof (induction c arbitrary: b)
    case (ExecCmd as)
    show ?case by (induction as arbitrary: b) auto
  qed auto
  have p: "parsed b 0 (parseline (4 * length b + 4) b 0)" by (rule parse_returns) auto
  show ?thesis
  proof (cases "parseline (4 * length b + 4) b 0")
    case None
    then show ?thesis using p by simp
  next
    case (Some r)
    then show ?thesis using p len by (cases r) (auto simp: parsecmd_def Let_def split: prod.splits)
  qed
qed

end
