(* ===== verification/Sh_Run.thy ===== *)
theory Sh_Run
  imports Sh Proc_Table
begin

text \<open>
  What the shell does with a parsed command (\<open>runcmd\<close> of \<open>sh.c\<close>). A program is the tree of
  the system calls it makes, each followed by what it does with the result; the tree is
  run on tables of descriptors to see with which open files the programs are started.
\<close>

section \<open>Programs\<close>

datatype sysreq =
    SysExec "byte list" "byte list list"
  | SysOpen "byte list" uint
  | SysClose nat
  | SysDup nat
  | SysPipe
  | SysFork
  | SysWait
  | SysPrint "byte list"    \<comment> \<open>a message to descriptor 2\<close>

text \<open>A result is a list of numbers: one for most calls, two for \<open>pipe\<close>, none after \<open>exec\<close>.\<close>

datatype prog = Quit | Sys sysreq "int list \<Rightarrow> prog"

definition panic_sh :: "string \<Rightarrow> prog" where
  "panic_sh s = Sys (SysPrint (msg s)) (\<lambda>_. Quit)"

definition fork1 :: "prog \<Rightarrow> prog \<Rightarrow> prog" where
  "fork1 child parent = Sys SysFork (\<lambda>r.
     if hd r = -1 then panic_sh ''fork'' else if hd r = 0 then child else parent)"

text \<open>The string at a position of the line, whose strings are terminated by now.\<close>

definition string_at :: "byte list \<Rightarrow> nat \<times> nat \<Rightarrow> byte list" where
  "string_at b a = cstr (drop (fst a) b)"

primrec runcmd :: "byte list \<Rightarrow> cmd \<Rightarrow> prog" where
  "runcmd b (ExecCmd as) =
     (case as of [] \<Rightarrow> Quit
      | a # _ \<Rightarrow> Sys (SysExec (string_at b a) (map (string_at b) as)) (\<lambda>_.
          Sys (SysPrint (msg ''exec '' @ string_at b a @ msg '' failed'')) (\<lambda>_. Quit)))"
| "runcmd b (RedirCmd c f m d) =
     Sys (SysClose d) (\<lambda>_. Sys (SysOpen (string_at b f) m) (\<lambda>r.
       if hd r < 0 then Sys (SysPrint (msg ''open '' @ string_at b f @ msg '' failed'')) (\<lambda>_. Quit)
       else runcmd b c))"
| "runcmd b (ListCmd l r) =
     fork1 (runcmd b l) (Sys SysWait (\<lambda>_. runcmd b r))"
| "runcmd b (PipeCmd l r) =
     Sys SysPipe (\<lambda>p.
       if hd p < 0 then panic_sh ''pipe''
       else
         let p0 = nat (p ! 0); p1 = nat (p ! 1) in
         fork1
           (Sys (SysClose 1) (\<lambda>_. Sys (SysDup p1) (\<lambda>_. Sys (SysClose p0) (\<lambda>_. Sys (SysClose p1) (\<lambda>_. runcmd b l)))))
           (fork1
             (Sys (SysClose 0) (\<lambda>_. Sys (SysDup p0) (\<lambda>_. Sys (SysClose p0) (\<lambda>_. Sys (SysClose p1) (\<lambda>_. runcmd b r)))))
             (Sys (SysClose p0) (\<lambda>_. Sys (SysClose p1) (\<lambda>_. Sys SysWait (\<lambda>_. Sys SysWait (\<lambda>_. Quit)))))))"
| "runcmd b (BackCmd c) = fork1 (runcmd b c) Quit"

section \<open>Running a program on descriptors\<close>

text \<open>What a descriptor stands for: an end of pipe number \<open>n\<close>, or a file opened by the shell or before it.\<close>

datatype stream = ReadEnd nat | WriteEnd nat | OpenFile "byte list" uint | Given nat

type_synonym fdtable = "stream option list"

definition lowest_free :: "fdtable \<Rightarrow> nat option" where
  "lowest_free t = scan (\<lambda>d. d = None) t"

definition put_fd :: "stream \<Rightarrow> fdtable \<Rightarrow> int \<times> fdtable" where
  "put_fd x t = (case lowest_free t of None \<Rightarrow> (-1, t) | Some d \<Rightarrow> (int d, t[d := Some x]))"

text \<open>
  The programs that are started, with their arguments and descriptors, when all calls but
  those for a full table succeed, and the number of the next pipe. A program that is
  started does not come back.
\<close>

primrec run :: "prog \<Rightarrow> fdtable \<Rightarrow> nat \<Rightarrow> (byte list list \<times> fdtable) list \<times> nat" where
  "run Quit t n = ([], n)"
| "run (Sys s k) t n = (case s of
       SysExec path argv \<Rightarrow> ([(argv, t)], n)
     | SysOpen f m \<Rightarrow> let (d, t) = put_fd (OpenFile f m) t in run (k [d]) t n
     | SysClose d \<Rightarrow> run (k [0]) (t[d := None]) n
     | SysDup d \<Rightarrow> (case t ! d of None \<Rightarrow> run (k [-1]) t n | Some x \<Rightarrow> let (e, t) = put_fd x t in run (k [e]) t n)
     | SysPipe \<Rightarrow> let (p0, t1) = put_fd (ReadEnd n) t; (p1, t2) = put_fd (WriteEnd n) t1
         in if p0 < 0 \<or> p1 < 0 then run (k [-1]) t n else run (k [p0, p1]) t2 (Suc n)
     | SysFork \<Rightarrow> let (e1, n) = run (k [0]) t n; (e2, n) = run (k [1]) t n in (e1 @ e2, n)
     | SysWait \<Rightarrow> run (k [1]) t n
     | SysPrint m \<Rightarrow> run (k [0]) t n)"

lemma run_fork1: "run (fork1 c p) t n = (let (e1, n) = run c t n; (e2, n) = run p t n in (e1 @ e2, n))"
  by (simp add: fork1_def)

lemma lowest_free_Some: "lowest_free t = Some d \<Longrightarrow> d < length t \<and> t ! d = None \<and> (\<forall>e < d. t ! e \<noteq> None)"
  using scan_Some [of "\<lambda>d. d = None" t d] by (auto simp: lowest_free_def)

lemma lowest_free_is: "d < length t \<Longrightarrow> t ! d = None \<Longrightarrow> \<forall>e < d. t ! e \<noteq> None \<Longrightarrow> lowest_free t = Some d"
proof -
  assume d: "d < length t" "t ! d = None" "\<forall>e < d. t ! e \<noteq> None"
  obtain e where e: "lowest_free t = Some e" "e \<le> d"
    using scan_exists [of d t "\<lambda>d. d = None"] d by (auto simp: lowest_free_def)
  have "e = d" using lowest_free_Some [OF e(1)] d e(2) by (metis le_neq_implies_less)
  with e show ?thesis by simp
qed

text \<open>Putting a stream in the place of descriptor \<open>d\<close>, when the descriptors below are in use.\<close>

lemma replace_fd:
  assumes "d < length t" and "\<forall>e < d. t ! e \<noteq> None"
  shows "put_fd x (t[d := None]) = (int d, t[d := Some x])"
proof -
  have "lowest_free (t[d := None]) = Some d" by (rule lowest_free_is) (use assms in auto)
  then show ?thesis by (simp add: put_fd_def)
qed

text \<open>The descriptors of a command of a pipeline: as before, but for one end of the pipe.\<close>

lemma pipe_side:
  assumes p: "p0 < length t" "p1 < length t" "t ! p0 = None" "t ! p1 = None" "p0 \<noteq> p1"
    and d: "d < length t" "\<forall>e \<le> d. t ! e \<noteq> None"
    and src: "(if e = p0 then x0 else x1) = x" "e = p0 \<or> e = p1"
  shows "run (Sys (SysClose d) (\<lambda>_. Sys (SysDup e) (\<lambda>_. Sys (SysClose p0) (\<lambda>_. Sys (SysClose p1) (\<lambda>_. k)))))
    (t[p0 := Some x0, p1 := Some x1]) n = run k (t[d := Some x]) n"
proof -
  let ?t = "t[p0 := Some x0, p1 := Some x1]"
  have ne: "d \<noteq> p0" "d \<noteq> p1" using d p by auto
  have "?t[d := None] ! e = Some x" using src p ne by (auto simp: nth_list_update)
  moreover have "put_fd x (?t[d := None]) = (int d, ?t[d := Some x])"
    by (rule replace_fd) (use d p in \<open>auto simp: nth_list_update\<close>)
  moreover have "?t[d := Some x, p0 := None, p1 := None] = t[d := Some x]"
    by (rule nth_equalityI) (use p ne d(1) in \<open>auto simp: nth_list_update\<close>)
  ultimately show ?thesis by simp
qed

lemma put_fd_at: "lowest_free t = Some d \<Longrightarrow> put_fd x t = (int d, t[d := Some x])"
  by (simp add: put_fd_def)

lemma run_pipe:
  assumes open012: "2 < length t" "t ! 0 \<noteq> None" "t ! 1 \<noteq> None"
    and free: "lowest_free t = Some p0" "lowest_free (t[p0 := Some (ReadEnd n)]) = Some p1"
  shows "run (runcmd b (PipeCmd l r)) t n =
    (let (e1, n1) = run (runcmd b l) (t[1 := Some (WriteEnd n)]) (Suc n);
         (e2, n2) = run (runcmd b r) (t[0 := Some (ReadEnd n)]) n1 in (e1 @ e2, n2))"
proof -
  have p0: "p0 < length t" "t ! p0 = None" using lowest_free_Some [OF free(1)] by auto
  have p1: "p1 < length t" "t ! p1 = None" "p0 \<noteq> p1"
    using lowest_free_Some [OF free(2)] p0 by (auto simp: nth_list_update split: if_splits)
  have low: "\<forall>e \<le> (1::nat). t ! e \<noteq> None" using open012 by (auto simp: le_Suc_eq)
  then have low0: "\<forall>e \<le> (0::nat). t ! e \<noteq> None" by simp
  let ?t = "t[p0 := Some (ReadEnd n), p1 := Some (WriteEnd n)]"
  have pipe: "put_fd (ReadEnd n) t = (int p0, t[p0 := Some (ReadEnd n)])"
    "put_fd (WriteEnd n) (t[p0 := Some (ReadEnd n)]) = (int p1, ?t)"
    using free by (simp_all add: put_fd_at)
  have left: "run (Sys (SysClose 1) (\<lambda>_. Sys (SysDup p1) (\<lambda>_. Sys (SysClose p0) (\<lambda>_. Sys (SysClose p1) (\<lambda>_. runcmd b l))))) ?t m
      = run (runcmd b l) (t[1 := Some (WriteEnd n)]) m" for m
    by (rule pipe_side) (use p0 p1 open012 low in auto)
  have right: "run (Sys (SysClose 0) (\<lambda>_. Sys (SysDup p0) (\<lambda>_. Sys (SysClose p0) (\<lambda>_. Sys (SysClose p1) (\<lambda>_. runcmd b r))))) ?t m
      = run (runcmd b r) (t[0 := Some (ReadEnd n)]) m" for m
    by (rule pipe_side) (use p0 p1 open012 low0 in auto)
  have "run (runcmd b (PipeCmd l r)) t n = run (fork1
           (Sys (SysClose 1) (\<lambda>_. Sys (SysDup p1) (\<lambda>_. Sys (SysClose p0) (\<lambda>_. Sys (SysClose p1) (\<lambda>_. runcmd b l)))))
           (fork1
             (Sys (SysClose 0) (\<lambda>_. Sys (SysDup p0) (\<lambda>_. Sys (SysClose p0) (\<lambda>_. Sys (SysClose p1) (\<lambda>_. runcmd b r)))))
             (Sys (SysClose p0) (\<lambda>_. Sys (SysClose p1) (\<lambda>_. Sys SysWait (\<lambda>_. Sys SysWait (\<lambda>_. Quit))))))) ?t (Suc n)"
    by (simp only: runcmd.simps run.simps sysreq.case pipe Let_def prod.case list.sel nth_Cons_0) simp
  also have "\<dots> = (let (e1, n1) = run (runcmd b l) (t[1 := Some (WriteEnd n)]) (Suc n);
         (e2, n2) = run (runcmd b r) (t[0 := Some (ReadEnd n)]) n1 in (e1 @ e2, n2))"
    by (simp only: run_fork1 left right) (simp add: Let_def split: prod.splits)
  finally show ?thesis .
qed

lemma run_redir:
  assumes "d < length t" and "\<forall>e < d. t ! e \<noteq> None"
  shows "run (runcmd b (RedirCmd c f m d)) t n = run (runcmd b c) (t[d := Some (OpenFile (string_at b f) m)]) n"
  by (simp add: replace_fd [OF assms])

text \<open>
  C20. In a pipeline the left command is run with its output, and the right command with
  its input, connected to the two ends of one new pipe; all their other descriptors are
  those of the shell, so that no end of the pipe stays open by mistake. In a redirection
  the command is run with the file in the place of the descriptor, and its other
  descriptors unchanged.
\<close>

theorem runcmd_plumbing:
  assumes "2 < length t" "t ! 0 \<noteq> None" "t ! 1 \<noteq> None"
    and "lowest_free t = Some p0" "lowest_free (t[p0 := Some (ReadEnd n)]) = Some p1"
  shows "run (runcmd b (PipeCmd l r)) t n =
      (let (e1, n1) = run (runcmd b l) (t[1 := Some (WriteEnd n)]) (Suc n);
           (e2, n2) = run (runcmd b r) (t[0 := Some (ReadEnd n)]) n1 in (e1 @ e2, n2)) \<and>
    run (runcmd b (RedirCmd l f m 1)) t n = run (runcmd b l) (t[1 := Some (OpenFile (string_at b f) m)]) n \<and>
    run (runcmd b (RedirCmd l f m 0)) t n = run (runcmd b l) (t[0 := Some (OpenFile (string_at b f) m)]) n"
proof -
  have one: "1 < length t" "\<forall>e < (1::nat). t ! e \<noteq> None" and zero: "0 < length t" "\<forall>e < (0::nat). t ! e \<noteq> None"
    using assms(1,2) by auto
  show ?thesis by (intro conjI run_pipe [OF assms] run_redir one zero)
qed

theorem runcmd_plumbing_witness:
  "run (runcmd [97, 0, 98, 0] (PipeCmd (ExecCmd [(0, 1)]) (ExecCmd [(2, 3)]))) (map (Some \<circ> Given) [0..<3] @ replicate 13 None) 7
     = ([([[97]], [Some (Given 0), Some (WriteEnd 7), Some (Given 2)] @ replicate 13 None),
         ([[98]], [Some (ReadEnd 7), Some (Given 1), Some (Given 2)] @ replicate 13 None)], 8)"
proof -
  let ?t = "map (Some \<circ> Given) [0..<3] @ replicate 13 None"
  have t: "?t = [Some (Given 0), Some (Given 1), Some (Given 2)] @ replicate 13 None" by (simp add: numeral_3_eq_3)
  have f: "lowest_free ?t = Some 3" "lowest_free (?t[3 := Some (ReadEnd 7)]) = Some 4"
    by (simp_all add: t lowest_free_def numeral_nat)
  have "run (runcmd [97, 0, 98, 0] (PipeCmd (ExecCmd [(0, 1)]) (ExecCmd [(2, 3)]))) ?t 7 =
      (let (e1, n1) = run (runcmd [97, 0, 98, 0] (ExecCmd [(0, 1)])) (?t[1 := Some (WriteEnd 7)]) (Suc 7);
           (e2, n2) = run (runcmd [97, 0, 98, 0] (ExecCmd [(2, 3)])) (?t[0 := Some (ReadEnd 7)]) n1 in (e1 @ e2, n2))"
    by (rule runcmd_plumbing [OF _ _ _ f, THEN conjunct1]) (simp_all add: t)
  then show ?thesis by (simp add: t string_at_def)
qed

end
