(* ===== verification/Sh_Main.thy ===== *)
theory Sh_Main
  imports Sh_Run
begin

text \<open>
  The shell's main loop (\<open>getcmd\<close> and \<open>main\<close> of \<open>sh.c\<close>): what it does with each line of its
  input. Opening the first descriptors is left out; \<open>fork\<close> succeeds.
\<close>

text \<open>The system calls of the loop: the child of \<open>Forked buf\<close> goes on with \<open>runcmd(parsecmd(buf))\<close>.\<close>

datatype sh_event = Prompt | Changed "byte list" | CannotCd "byte list" | Forked "byte list" | Waited

text \<open>\<open>getcmd\<close>: the buffer of 100 bytes, which is zero behind what was read, and the input that is left.\<close>

definition getcmd :: "byte list \<Rightarrow> byte list \<times> byte list" where
  "getcmd inp = (let (bs, rest) = gets 100 inp in (bs @ replicate (100 - length bs) 0, rest))"

text \<open>The path of a \<open>cd\<close>: the last byte of the line is cut off, and the first three are skipped.\<close>

definition cd_path :: "byte list \<Rightarrow> byte list" where
  "cd_path buf = cstr (drop 3 (buf[length (cstr buf) - 1 := 0]))"

lemma gets_shorter: "gets n inp = (bs, rest) \<Longrightarrow> bs ! 0 \<noteq> 0 \<Longrightarrow> length rest < length inp"
proof -
  assume g: "gets n inp = (bs, rest)" and b: "bs ! 0 \<noteq> 0"
  let ?l = "take (nat (n - 1)) (first_line inp)"
  have r: "bs = ?l @ [0]" "rest = drop (length ?l) inp" using g gets_loop_spec [of 0 n inp] by (simp_all add: gets_def)
  then have l: "?l \<noteq> []" using b by auto
  then have "0 < length ?l" "0 < length inp" by (simp, cases inp) auto
  moreover have "length rest = length inp - length ?l" by (simp only: r(2) length_drop)
  ultimately show ?thesis by linarith
qed

lemma getcmd_shorter: "getcmd inp = (buf, rest) \<Longrightarrow> buf ! 0 \<noteq> 0 \<Longrightarrow> length rest < length inp"
  using gets_shorter [of 100 inp] by (auto simp: getcmd_def nth_append split: prod.splits if_splits)

text \<open>\<open>cd\<close> tells whether \<open>chdir\<close> to a path succeeds.\<close>

function sh_loop :: "(byte list \<Rightarrow> bool) \<Rightarrow> byte list \<Rightarrow> sh_event list" where
  "sh_loop cd inp =
     (case getcmd inp of (buf, rest) \<Rightarrow>
        Prompt #
        (if buf ! 0 = 0 then []
         else if take 3 buf = [99, 100, 32] then
           (if cd (cd_path buf) then [Changed (cd_path buf)] else [CannotCd (cd_path buf)]) @ sh_loop cd rest
         else [Forked (cstr buf), Waited] @ sh_loop cd rest))"
  by pat_completeness auto
termination by (relation "measure (\<lambda>(cd, inp). length inp)") (auto dest: getcmd_shorter [OF sym])

declare sh_loop.simps [simp del]

text \<open>What the shell should do with a line, given without its newline.\<close>

definition line_events :: "(byte list \<Rightarrow> bool) \<Rightarrow> byte list \<Rightarrow> sh_event list" where
  "line_events cd l =
     Prompt #
     (if take 3 l = [99, 100, 32] then (if cd (drop 3 l) then [Changed (drop 3 l)] else [CannotCd (drop 3 l)])
      else [Forked (l @ [10]), Waited])"

definition plain_line :: "byte list \<Rightarrow> bool" where
  "plain_line l \<longleftrightarrow> length l < 99 \<and> 0 \<notin> set l \<and> 10 \<notin> set l \<and> 13 \<notin> set l"

lemma first_line_plain: "10 \<notin> set l \<Longrightarrow> 13 \<notin> set l \<Longrightarrow> first_line (l @ 10 # s) = l @ [10]" "10 \<notin> set l \<Longrightarrow> 13 \<notin> set l \<Longrightarrow> first_line l = l"
  by (induction l) auto

lemma gets_100: "first_line inp = l \<Longrightarrow> length l \<le> 99 \<Longrightarrow> gets 100 inp = (l @ [0], drop (length l) inp)"
proof -
  assume f: "first_line inp = l" and "length l \<le> 99"
  then have t: "take 99 l = l" by simp
  have n: "nat (100 - 1 - int 0) = 99" by simp
  show ?thesis unfolding gets_def gets_loop_spec n f t ..
qed

lemma getcmd_line:
  assumes "plain_line l"
  shows "getcmd (l @ 10 # s) = (l @ 10 # replicate (99 - length l) 0, s)"
proof -
  have "gets 100 (l @ 10 # s) = (l @ [10, 0], s)"
    using assms gets_100 [of "l @ 10 # s" "l @ [10]"] by (simp add: first_line_plain plain_line_def)
  moreover have "replicate (99 - length l) (0 :: byte) = 0 # replicate (98 - length l) 0"
    using assms by (cases "99 - length l") (auto simp: plain_line_def replicate_Suc [symmetric] simp del: replicate_Suc)
  ultimately show ?thesis by (simp add: getcmd_def)
qed

lemma cstr_pad: "0 \<notin> set l \<Longrightarrow> cstr (l @ replicate n 0) = l"
  by (cases n) (auto simp: cstr_def takeWhile_append)

text \<open>
  The shell takes its input line by line, in order, each line as a whole: \<open>cd\<close> is done by the
  shell itself, with all that follows the blank; every other line by a child it waits for.
\<close>

theorem shell_reads_lines:
  assumes "\<forall>l \<in> set ls. plain_line l"
  shows "sh_loop cd (concat (map (\<lambda>l. l @ [10]) ls)) = concat (map (line_events cd) ls) @ [Prompt]"
  using assms
proof (induction ls)
  case Nil
  show ?case by (subst sh_loop.simps) (simp add: getcmd_def gets_def gets_loop.simps)
next
  case (Cons l ls)
  let ?s = "concat (map (\<lambda>l. l @ [10]) ls)" and ?b = "l @ 10 # replicate (99 - length l) (0 :: byte)"
  have p: "plain_line l" using Cons.prems by simp
  have z: "0 \<notin> set (l @ [10])" using p by (auto simp: plain_line_def)
  have c: "cstr ?b = l @ [10]" using cstr_pad [OF z, of "99 - length l"] by simp
  have h: "?b ! 0 \<noteq> 0" using p by (cases l) (auto simp: plain_line_def)
  have t: "take 3 ?b = [99, 100, 32] \<longleftrightarrow> take 3 l = [99, 100, 32]"
  proof (cases "3 \<le> length l")
    case False
    then have "take 3 ?b \<noteq> [99, 100, 32]"
      by (cases l; cases "tl l"; cases "tl (tl l)") auto
    moreover have "length (take 3 l) < 3" using False by simp
    ultimately show ?thesis by (metis length_Cons list.size(3) less_irrefl numeral_3_eq_3)
  qed simp
  have path: "cd_path ?b = drop 3 l" if "take 3 l = [99, 100, 32]"
  proof -
    have "3 \<le> length l" using that by (cases "3 \<le> length l") (auto dest: arg_cong [where f = length])
    moreover have "?b[length l := 0] = l @ replicate (Suc (99 - length l)) 0" by (simp add: list_update_append)
    ultimately have "cd_path ?b = cstr (drop 3 l @ replicate (Suc (99 - length l)) 0)" by (simp add: cd_path_def c)
    also have "\<dots> = drop 3 l" using p by (intro cstr_pad) (auto simp: plain_line_def dest: in_set_dropD)
    finally show ?thesis .
  qed
  have "sh_loop cd (l @ 10 # ?s) = line_events cd l @ sh_loop cd ?s"
    using h t path c by (subst sh_loop.simps) (simp add: getcmd_line [OF p] line_events_def)
  then show ?case using Cons by simp
qed

lemma chop_last: "l \<noteq> [] \<Longrightarrow> (l @ z)[length l - 1 := x] = butlast l @ x # z"
  by (cases l rule: rev_cases) (auto simp: list_update_append)

text \<open>A last line without a newline: \<open>cd\<close> loses the last byte of the path.\<close>

lemma cd_without_newline:
  assumes "plain_line (msg ''cd '' @ p)" "p \<noteq> []"
  shows "\<exists>es. sh_loop (\<lambda>_. True) (msg ''cd '' @ p) = [Prompt, Changed (butlast p)] @ es"
proof -
  let ?l = "msg ''cd '' @ p"
  have m: "msg ''cd '' = [99, 100, 32]" by (simp add: msg_def)
  have g: "gets 100 ?l = (?l @ [0], [])"
  proof -
    have "first_line ?l = ?l" "length ?l \<le> 99" using assms(1) first_line_plain(2) [of ?l] by (auto simp only: plain_line_def)
    from gets_100 [OF this] show ?thesis by simp
  qed
  let ?b = "?l @ replicate (100 - length ?l) 0"
  have b: "getcmd ?l = (?b, [])"
  proof -
    have "replicate (100 - length ?l) (0 :: byte) = 0 # replicate (99 - length ?l) 0"
      using assms(1) by (cases "100 - length ?l") (auto simp: plain_line_def replicate_Suc [symmetric] simp del: replicate_Suc)
    then show ?thesis using g by (simp add: getcmd_def)
  qed
  have z: "0 \<notin> set ?l" using assms(1) by (simp add: plain_line_def)
  have c: "cstr ?b = ?l" by (rule cstr_pad [OF z])
  have "?b[length ?l - 1 := 0] = butlast ?l @ replicate (Suc (100 - length ?l)) 0"
    using assms(2) by (subst chop_last) simp_all
  then have "cd_path ?b = cstr (drop 3 (butlast ?l @ replicate (Suc (100 - length ?l)) 0))" by (simp only: cd_path_def c)
  also have "drop 3 (butlast ?l @ replicate (Suc (100 - length ?l)) 0) = butlast p @ replicate (Suc (100 - length ?l)) 0"
    using assms(2) by (simp add: m butlast_append)
  also have "cstr \<dots> = butlast p" using z by (intro cstr_pad) (auto dest: in_set_butlastD)
  finally have path: "cd_path ?b = butlast p" .
  have "take 3 ?b = [99, 100, 32]" "?b ! 0 \<noteq> 0" by (simp_all add: m)
  then show ?thesis using path b by (subst sh_loop.simps) simp
qed

end
