(* ===== verification/Grep.thy ===== *)
theory Grep
  imports Prelude
begin

text \<open>
  The program \<open>grep\<close> (\<open>grep.c\<close>): its pattern matcher and the loop that cuts the input into
  lines. Strings are byte lists without their final 0, so the end of the list is the end of
  the string. The matcher is equivalent to a relation that says what a pattern means, and
  the loop prints the matching lines of its input.
\<close>

section \<open>The matcher\<close>

abbreviation star :: byte where "star \<equiv> 42"
abbreviation dot :: byte where "dot \<equiv> 46"
abbreviation caret :: byte where "caret \<equiv> 94"
abbreviation dollar :: byte where "dollar \<equiv> 36"
abbreviation newline :: byte where "newline \<equiv> 10"

function matchhere :: "byte list \<Rightarrow> byte list \<Rightarrow> bool"
  and matchstar :: "byte \<Rightarrow> byte list \<Rightarrow> byte list \<Rightarrow> bool" where
  "matchhere re text =
     (case re of
        [] \<Rightarrow> True
      | c # re' \<Rightarrow>
          if re' \<noteq> [] \<and> hd re' = star then matchstar c (tl re') text
          else if c = dollar \<and> re' = [] then text = []
          else (case text of [] \<Rightarrow> False | t # ts \<Rightarrow> (c = dot \<or> c = t) \<and> matchhere re' ts))"
| "matchstar c re text =
     (if matchhere re text then True
      else (case text of [] \<Rightarrow> False | t # ts \<Rightarrow> (t = c \<or> c = dot) \<and> matchstar c re ts))"
  by pat_completeness auto
termination
  by (relation "measures [\<lambda>x. case x of Inl (re, text) \<Rightarrow> length re | Inr (c, re, text) \<Rightarrow> Suc (length re),
      \<lambda>x. case x of Inl (re, text) \<Rightarrow> length text | Inr (c, re, text) \<Rightarrow> length text]") auto

declare matchhere.simps [simp del] matchstar.simps [simp del]

text \<open>The loop of \<open>match\<close> runs over all suffixes of the text, the empty one included.\<close>

fun match_loop :: "byte list \<Rightarrow> byte list \<Rightarrow> bool" where
  "match_loop re [] = matchhere re []"
| "match_loop re (t # ts) = (matchhere re (t # ts) \<or> match_loop re ts)"

definition match :: "byte list \<Rightarrow> byte list \<Rightarrow> bool" where
  "match re text = (if re \<noteq> [] \<and> hd re = caret then matchhere (tl re) text else match_loop re text)"

section \<open>What a pattern means\<close>

text \<open>
  \<open>matches re u v\<close>: the pattern describes \<open>u\<close>, when \<open>v\<close> is what follows \<open>u\<close> in the text.
\<close>

inductive matches :: "byte list \<Rightarrow> byte list \<Rightarrow> byte list \<Rightarrow> bool" where
  empty: "matches [] [] v"
| many: "matches re w v \<Longrightarrow> \<forall>x \<in> set u. x = c \<or> c = dot \<Longrightarrow> matches (c # star # re) (u @ w) v"
| at_end: "matches [dollar] [] []"
| char: "matches re w v \<Longrightarrow> c = dot \<or> c = t \<Longrightarrow> \<not> (re \<noteq> [] \<and> hd re = star) \<Longrightarrow> \<not> (c = dollar \<and> re = []) \<Longrightarrow>
    matches (c # re) (t # w) v"

inductive_cases matches_starE: "matches (c # star # re) x v"
inductive_cases matches_consE: "matches (c # re) x v"
inductive_cases matches_nilE: "matches [] x v"

lemma matchstar_iff:
  assumes "\<And>text. matchhere re text \<longleftrightarrow> (\<exists>u v. text = u @ v \<and> matches re u v)"
  shows "matchstar c re text \<longleftrightarrow> (\<exists>u v. text = u @ v \<and> matches (c # star # re) u v)"
proof (induction "text")
  case Nil
  have "matches re [] [] \<longleftrightarrow> matches (c # star # re) [] []"
    using many [of re "[]" "[]" "[]" c] by (auto elim: matches_starE)
  then show ?case by (subst matchstar.simps) (simp add: assms)
next
  case (Cons t ts)
  note IH = Cons.IH
  show ?case
  proof
    assume "matchstar c re (t # ts)"
    then consider "matchhere re (t # ts)" | "t = c \<or> c = dot" "matchstar c re ts"
      by (subst (asm) matchstar.simps) (auto split: if_splits)
    then show "\<exists>u v. t # ts = u @ v \<and> matches (c # star # re) u v"
    proof cases
      case 1
      then obtain u v where "t # ts = u @ v" "matches re u v" using assms by blast
      then show ?thesis using many [of re u v "[]" c] by auto
    next
      case 2
      then obtain u v where uv: "ts = u @ v" "matches (c # star # re) u v" using Cons.IH by blast
      then obtain x w where "u = x @ w" "matches re w v" "\<forall>y \<in> set x. y = c \<or> c = dot"
        by (auto elim: matches_starE)
      then have "matches (c # star # re) ((t # x) @ w) v" using 2(1) by (intro many) auto
      then show ?thesis using uv \<open>u = x @ w\<close> by (intro exI [of _ "t # u"] exI [of _ v]) simp
    qed
  next
    assume "\<exists>u v. t # ts = u @ v \<and> matches (c # star # re) u v"
    then obtain x w v where x: "t # ts = (x @ w) @ v" "matches re w v" "\<forall>y \<in> set x. y = c \<or> c = dot"
      by (auto elim: matches_starE)
    show "matchstar c re (t # ts)"
    proof (cases x)
      case Nil
      then have "matchhere re (t # ts)" using x assms by auto
      then show ?thesis by (subst matchstar.simps) simp
    next
      case (Cons y ys)
      then have "matches (c # star # re) (ys @ w) v" using x by (intro many) auto
      then have "matchstar c re ts" using x Cons IH by auto
      then show ?thesis using x Cons by (subst matchstar.simps) auto
    qed
  qed
qed

lemma matchhere_iff: "matchhere re text \<longleftrightarrow> (\<exists>u v. text = u @ v \<and> matches re u v)"
proof (induction re arbitrary: "text" rule: length_induct)
  case (1 re)
  show ?case
  proof (cases re)
    case Nil
    then show ?thesis using empty by (subst matchhere.simps) auto
  next
    case (Cons c re')
    show ?thesis
    proof (cases "re' \<noteq> [] \<and> hd re' = star")
      case True
      then obtain re2 where re': "re' = star # re2" by (cases re') auto
      have "matchhere re2 y \<longleftrightarrow> (\<exists>u v. y = u @ v \<and> matches re2 u v)" for y
        using 1 Cons re' by simp
      then have "matchstar c re2 text \<longleftrightarrow> (\<exists>u v. text = u @ v \<and> matches re u v)"
        using matchstar_iff Cons re' by simp
      then show ?thesis using Cons re' by (subst matchhere.simps) simp
    next
      case False
      show ?thesis
      proof (cases "c = dollar \<and> re' = []")
        case True
        have "matches re u v \<longleftrightarrow> u = [] \<and> v = []" for u v
          using Cons True at_end by (auto elim!: matches_consE matches_nilE)
        then show ?thesis using Cons True by (subst matchhere.simps) simp
      next
        case no_end: False
        have here: "matches re u v \<longleftrightarrow> (\<exists>t w. u = t # w \<and> (c = dot \<or> c = t) \<and> matches re' w v)" for u v
          unfolding Cons using False no_end char by (auto elim!: matches_consE)
        have "matchhere re' ts \<longleftrightarrow> (\<exists>u v. ts = u @ v \<and> matches re' u v)" for ts
          using 1 Cons by simp
        moreover have "(\<exists>u v. text = u @ v \<and> matches re u v) \<longleftrightarrow>
            (\<exists>t ts. text = t # ts \<and> (c = dot \<or> c = t) \<and> (\<exists>u v. ts = u @ v \<and> matches re' u v))"
          unfolding here by (metis append_Cons)
        moreover have "matchhere re text \<longleftrightarrow> (\<exists>t ts. text = t # ts \<and> (c = dot \<or> c = t) \<and> matchhere re' ts)"
          using Cons False no_end by (subst matchhere.simps) (cases "text"; auto)
        ultimately show ?thesis by simp
      qed
    qed
  qed
qed

lemma match_loop_iff: "match_loop re text \<longleftrightarrow> (\<exists>x y. text = x @ y \<and> matchhere re y)"
proof (induction "text")
  case Nil
  then show ?case by simp
next
  case (Cons t ts)
  have "(\<exists>x y. t # ts = x @ y \<and> matchhere re y) \<longleftrightarrow> matchhere re (t # ts) \<or> (\<exists>x y. ts = x @ y \<and> matchhere re y)"
    by (auto simp: Cons_eq_append_conv)
  then show ?case using Cons by simp
qed

text \<open>
  C36. \<open>match\<close> finds a pattern in a text exactly when some part of the text is what the
  pattern describes, at the beginning of the text when the pattern begins with a caret:
  the search by recursion and backtracking agrees with the meaning of patterns.
\<close>

theorem match_finds:
  "match re text \<longleftrightarrow>
     (if re \<noteq> [] \<and> hd re = caret then \<exists>u v. text = u @ v \<and> matches (tl re) u v
      else \<exists>x u v. text = x @ u @ v \<and> matches re u v)"
proof -
  have "match_loop re text \<longleftrightarrow> (\<exists>x u v. text = x @ u @ v \<and> matches re u v)"
    unfolding match_loop_iff matchhere_iff by blast
  then show ?thesis unfolding match_def matchhere_iff by (simp only: if_bool_eq_conj)
qed

section \<open>The lines of the input\<close>

text \<open>
  The inner loop of \<open>grep\<close>: what it prints of the buffer, and the position \<open>p\<close> it ends at.
  \<open>strchr\<close> finds the next newline before the first 0, of which the buffer has one behind
  its contents.
\<close>

fun next_line :: "byte list \<Rightarrow> byte list option" where
  "next_line [] = None"
| "next_line (c # s) = (if c = 0 then None else if c = newline then Some [] else map_option (Cons c) (next_line s))"

lemma next_line_shorter: "next_line s = Some l \<Longrightarrow> length l < length s"
  by (induction s arbitrary: l rule: next_line.induct) (auto split: if_splits)

function grep_lines :: "byte list \<Rightarrow> byte list \<Rightarrow> byte list \<times> byte list" where
  "grep_lines pattern p =
     (case next_line p of
        None \<Rightarrow> ([], p)
      | Some l \<Rightarrow>
          let (out, rest) = grep_lines pattern (drop (length l + 1) p)
          in ((if match pattern l then l @ [newline] else []) @ out, rest))"
  by pat_completeness auto
termination
  by (relation "measure (\<lambda>(pattern, p). length p)") (auto dest: next_line_shorter)

declare grep_lines.simps [simp del]

text \<open>
  The outer loop, on the results of \<open>read\<close> it gets one after the other; an empty one is
  the end of the file. \<open>b\<close> is the first \<open>m\<close> bytes of the buffer. A buffer without a
  newline is thrown away.
\<close>

fun grep :: "byte list \<Rightarrow> byte list \<Rightarrow> byte list list \<Rightarrow> byte list" where
  "grep pattern b [] = []"
| "grep pattern b (chunk # chunks) =
     (if chunk = [] then []
      else
        let (out, rest) = grep_lines pattern (b @ chunk)
        in out @ grep pattern (if length rest = length (b @ chunk) then [] else rest) chunks)"

text \<open>The complete lines of a text, each without its newline.\<close>

fun lines_of :: "byte list \<Rightarrow> byte list \<Rightarrow> byte list list" where
  "lines_of l [] = []"
| "lines_of l (c # s) = (if c = newline then l # lines_of [] s else lines_of (l @ [c]) s)"

fun last_line :: "byte list \<Rightarrow> byte list \<Rightarrow> byte list" where
  "last_line l [] = l"
| "last_line l (c # s) = (if c = newline then last_line [] s else last_line (l @ [c]) s)"

definition print_matching :: "byte list \<Rightarrow> byte list list \<Rightarrow> byte list" where
  "print_matching pattern ls = concat (map (\<lambda>l. l @ [newline]) (filter (match pattern) ls))"

lemma lines_of_append: "lines_of l (s @ t) = lines_of l s @ lines_of (last_line l s) t"
  by (induction s arbitrary: l) auto

lemma last_line_append: "last_line l (s @ t) = last_line (last_line l s) t"
  by (induction s arbitrary: l) auto

lemma next_line_Some:
  "next_line s = Some l \<Longrightarrow> s = l @ newline # drop (length l + 1) s \<and> newline \<notin> set l"
  by (induction s arbitrary: l rule: next_line.induct) (auto split: if_splits)

lemma next_line_None: "next_line s = None \<Longrightarrow> 0 \<notin> set s \<Longrightarrow> newline \<notin> set s"
  by (induction s rule: next_line.induct) (auto split: if_splits)

lemma no_newline: "newline \<notin> set s \<Longrightarrow> lines_of l s = [] \<and> last_line l s = l @ s"
  by (induction s arbitrary: l) auto

lemma grep_lines_spec:
  "0 \<notin> set p \<Longrightarrow> grep_lines pattern p = (print_matching pattern (lines_of [] p), last_line [] p)"
proof (induction pattern p rule: grep_lines.induct)
  case (1 pattern p)
  show ?case
  proof (cases "next_line p")
    case None
    then have "newline \<notin> set p" using "1.prems" next_line_None by blast
    then show ?thesis using None no_newline [of p "[]"]
      by (subst grep_lines.simps) (simp add: print_matching_def)
  next
    case (Some l)
    define r where "r = drop (length l + 1) p"
    have p: "p = l @ newline # r" and l: "newline \<notin> set l" using next_line_Some [OF Some] by (auto simp: r_def)
    have "0 \<notin> set r" using "1.prems" p by auto
    then have "grep_lines pattern r = (print_matching pattern (lines_of [] r), last_line [] r)"
      using "1.IH" [OF Some] by (simp add: r_def)
    moreover have "lines_of [] p = l # lines_of [] r" "last_line [] p = last_line [] r"
      using no_newline [OF l, of "[]"] by (simp_all add: p lines_of_append last_line_append)
    ultimately show ?thesis
      using Some by (subst grep_lines.simps) (simp add: r_def print_matching_def)
  qed
qed

lemma length_last_line: "length (last_line l s) \<le> length l + length s"
proof (induction s arbitrary: l)
  case Nil
  then show ?case by simp
next
  case (Cons c s)
  from Cons [of "[]"] Cons [of "l @ [c]"] show ?case by auto
qed

lemma last_line_shorter: "newline \<in> set s \<Longrightarrow> length (last_line l s) < length s"
proof -
  assume "newline \<in> set s"
  then obtain a b where s: "s = a @ newline # b" by (meson split_list)
  show ?thesis using length_last_line [of "[]" b] by (simp add: s last_line_append)
qed

lemma last_line_no_newline: "newline \<notin> set l \<Longrightarrow> newline \<notin> set (last_line l s)"
  by (induction s arbitrary: l) auto

lemma last_line_subset: "set (last_line l s) \<subseteq> set l \<union> set s"
proof (induction s arbitrary: l)
  case Nil
  then show ?case by simp
next
  case (Cons c s)
  from Cons [of "[]"] Cons [of "l @ [c]"] show ?case by auto
qed

text \<open>
  C37. When every result of \<open>read\<close> has a newline in it, \<open>grep\<close> prints exactly the lines of
  the whole input that match the pattern, in order, wherever the reads cut the input.
\<close>

theorem grep_prints_matching_lines:
  assumes "\<forall>chunk \<in> set chunks. newline \<in> set chunk \<and> 0 \<notin> set chunk"
  shows "grep pattern [] chunks = print_matching pattern (lines_of [] (concat chunks))"
proof -
  have "grep pattern b chunks = print_matching pattern (lines_of b (concat chunks))"
    if "newline \<notin> set b" "0 \<notin> set b" for b
    using assms that
  proof (induction chunks arbitrary: b)
    case Nil
    then show ?case by (simp add: print_matching_def)
  next
    case (Cons ch chs)
    then have ch: "newline \<in> set ch" "0 \<notin> set (b @ ch)" "ch \<noteq> []" by auto
    define r where "r = last_line b ch"
    have b: "lines_of [] (b @ ch) = lines_of b ch" "last_line [] (b @ ch) = r"
      using no_newline [OF Cons.prems(2), of "[]"] by (simp_all add: r_def last_line_append lines_of_append)
    have g: "grep_lines pattern (b @ ch) = (print_matching pattern (lines_of b ch), r)"
      using grep_lines_spec [OF ch(2), of pattern] b by simp
    have "length r < length (b @ ch)" using last_line_shorter [OF ch(1), of b] by (simp add: r_def)
    moreover have "newline \<notin> set r" using last_line_no_newline [OF Cons.prems(2)] by (simp add: r_def)
    moreover have "0 \<notin> set r" using last_line_subset [of b ch] ch(2) by (auto simp: r_def)
    ultimately show ?case
      using Cons.IH [of r] Cons.prems(1) ch(3) g by (simp add: lines_of_append print_matching_def r_def)
  qed
  from this [of "[]"] show ?thesis by simp
qed

theorem grep_prints_matching_lines_witness:
  "newline \<in> set [97, newline, 98] \<and> newline \<in> set [99, newline] \<and>
   grep [99] [] [[97, newline, 98], [99, newline]] = print_matching [99] (lines_of [] [97, newline, 98, 99, newline])"
  using grep_prints_matching_lines [of "[[97, newline, 98], [99, newline]]" "[99]"] by simp

text \<open>
  A read without a newline is lost: the line \<open>ab\<close>, which matches \<open>a\<close>, is not printed when
  it comes in two parts, although \<open>grep\<close> prints it when it comes in one.
\<close>

lemma grep_loses_line:
  "grep [97] [] [[97, 98, newline]] = [97, 98, newline] \<and> grep [97] [] [[97], [98, newline]] = []"
proof -
  have 1: "matchhere [97] [97, 98]" "match [97] [97, 98]"
    by (simp_all add: match_def matchhere.simps)
  have 2: "\<not> match [97] [98]"
    by (simp add: match_def matchhere.simps)
  show ?thesis using 1 2 by (simp add: grep_lines.simps)
qed

end
