(* ===== verification/Umalloc.thy ===== *)
theory Umalloc
  imports Prelude
begin

text \<open>
  The storage allocator of the user library (\<open>umalloc.c\<close>): free blocks form a ring of
  headers ordered by address that starts at the static header \<open>base\<close>. A block is counted
  in units of one header, 8 bytes. Pointers are 32-bit words; the memory is seen as headers
  by address. The kernel's answer to \<open>sbrk\<close> is a parameter: whether it grants the
  growth; the code of the kernel for it is modelled in the theory of processes.
  The lemmas show that the ring describes exactly the memory that is not handed out: the
  loops end, blocks handed out never overlap, and nothing is lost.
\<close>

section \<open>Data and operations\<close>

record header =
  h_ptr :: uint
  h_size :: uint

record arena =
  hdrs :: "uint \<Rightarrow> header"
  freep :: uint
  brk :: uint

definition HDR :: uint where "HDR = 8"

definition advance :: "uint \<Rightarrow> uint \<Rightarrow> uint" where
  "advance p n = p + HDR * n"

definition set_hdr :: "uint \<Rightarrow> (header \<Rightarrow> header) \<Rightarrow> arena \<Rightarrow> arena" where
  "set_hdr p f h = h\<lparr>hdrs := (hdrs h)(p := f (hdrs h p))\<rparr>"

abbreviation next_of :: "arena \<Rightarrow> uint \<Rightarrow> uint" where "next_of h p \<equiv> h_ptr (hdrs h p)"
abbreviation size_of :: "arena \<Rightarrow> uint \<Rightarrow> uint" where "size_of h p \<equiv> h_size (hdrs h p)"

partial_function (option) find_place :: "arena \<Rightarrow> uint \<Rightarrow> uint \<Rightarrow> uint option" where
  "find_place h bp p =
     (if p < bp \<and> bp < next_of h p then Some p
      else if next_of h p \<le> p \<and> (p < bp \<or> bp < next_of h p) then Some p
      else find_place h bp (next_of h p))"

definition join_right :: "uint \<Rightarrow> uint \<Rightarrow> arena \<Rightarrow> arena" where
  "join_right bp p h =
     (if advance bp (size_of h bp) = next_of h p then
        let h = set_hdr bp (\<lambda>x. x\<lparr>h_size := h_size x + size_of h (next_of h p)\<rparr>) h
        in set_hdr bp (\<lambda>x. x\<lparr>h_ptr := next_of h (next_of h p)\<rparr>) h
      else set_hdr bp (\<lambda>x. x\<lparr>h_ptr := next_of h p\<rparr>) h)"

definition join_left :: "uint \<Rightarrow> uint \<Rightarrow> arena \<Rightarrow> arena" where
  "join_left bp p h =
     (if advance p (size_of h p) = bp then
        let h = set_hdr p (\<lambda>x. x\<lparr>h_size := h_size x + size_of h bp\<rparr>) h
        in set_hdr p (\<lambda>x. x\<lparr>h_ptr := next_of h bp\<rparr>) h
      else set_hdr p (\<lambda>x. x\<lparr>h_ptr := bp\<rparr>) h)"

definition free :: "uint \<Rightarrow> arena \<Rightarrow> arena option" where
  "free ap h =
     (let bp = ap - HDR in
      case find_place h bp (freep h) of
        None \<Rightarrow> None
      | Some p \<Rightarrow> Some ((join_left bp p (join_right bp p h))\<lparr>freep := p\<rparr>))"

definition sbrk :: "(uint \<Rightarrow> uint \<Rightarrow> bool) \<Rightarrow> uint \<Rightarrow> arena \<Rightarrow> (uint \<times> arena) option" where
  "sbrk grows n h = (if grows (brk h) n then Some (brk h, h\<lparr>brk := brk h + n\<rparr>) else None)"

definition grow_units :: "uint \<Rightarrow> uint" where
  "grow_units nu = (if nu < 4096 then 4096 else nu)"

text \<open>The inner option is the null pointer of the C code, the outer one a loop that never ends.\<close>

definition morecore :: "(uint \<Rightarrow> uint \<Rightarrow> bool) \<Rightarrow> uint \<Rightarrow> arena \<Rightarrow> (uint \<times> arena) option option" where
  "morecore grows nu h =
     (let nu = grow_units nu in
      case sbrk grows (nu * HDR) h of
        None \<Rightarrow> Some None
      | Some (hp, h) \<Rightarrow>
          (case free (advance hp 1) (set_hdr hp (\<lambda>x. x\<lparr>h_size := nu\<rparr>) h) of
             None \<Rightarrow> None
           | Some h \<Rightarrow> Some (Some (freep h, h))))"

definition take_block :: "uint \<Rightarrow> uint \<Rightarrow> uint \<Rightarrow> arena \<Rightarrow> uint \<times> arena" where
  "take_block nunits prevp p h =
     (if size_of h p = nunits then
        (advance p 1, (set_hdr prevp (\<lambda>x. x\<lparr>h_ptr := next_of h p\<rparr>) h)\<lparr>freep := prevp\<rparr>)
      else
        let h = set_hdr p (\<lambda>x. x\<lparr>h_size := h_size x - nunits\<rparr>) h;
            p = advance p (size_of h p)
        in (advance p 1, (set_hdr p (\<lambda>x. x\<lparr>h_size := nunits\<rparr>) h)\<lparr>freep := prevp\<rparr>))"

partial_function (option) malloc_loop ::
  "(uint \<Rightarrow> uint \<Rightarrow> bool) \<Rightarrow> uint \<Rightarrow> uint \<Rightarrow> uint \<Rightarrow> arena \<Rightarrow> (uint \<times> arena) option" where
  "malloc_loop grows nunits prevp p h =
     (if nunits \<le> size_of h p then Some (take_block nunits prevp p h)
      else if p = freep h then
        (case morecore grows nunits h of
           None \<Rightarrow> None
         | Some None \<Rightarrow> Some (0, h)
         | Some (Some (p, h)) \<Rightarrow> malloc_loop grows nunits p (next_of h p) h)
      else malloc_loop grows nunits p (next_of h p) h)"

definition units_for :: "uint \<Rightarrow> uint" where
  "units_for nbytes = (nbytes + HDR - 1) div HDR + 1"

definition first_use :: "uint \<Rightarrow> arena \<Rightarrow> arena" where
  "first_use base h =
     (if freep h = 0 then
        (set_hdr base (\<lambda>x. x\<lparr>h_ptr := base, h_size := 0\<rparr>) h)\<lparr>freep := base\<rparr>
      else h)"

definition malloc :: "(uint \<Rightarrow> uint \<Rightarrow> bool) \<Rightarrow> uint \<Rightarrow> uint \<Rightarrow> arena \<Rightarrow> (uint \<times> arena) option" where
  "malloc grows base nbytes h =
     (let nunits = units_for nbytes; h = first_use base h; prevp = freep h
      in malloc_loop grows nunits prevp (next_of h prevp) h)"

lemma set_hdr_simps [simp]:
  "hdrs (set_hdr p f h) = (hdrs h)(p := f (hdrs h p))"
  "freep (set_hdr p f h) = freep h"
  "brk (set_hdr p f h) = brk h"
  by (simp_all add: set_hdr_def)

section \<open>The ring of free blocks\<close>

text \<open>
  The addresses of the ring, in the order of the pointers, are a list, as in the proofs of
  pointer programs of the library: \<open>chain\<close> follows the pointers along the list.
\<close>

fun chain :: "arena \<Rightarrow> uint \<Rightarrow> uint list \<Rightarrow> uint \<Rightarrow> bool" where
  "chain h x [] y = (x = y)"
| "chain h x (a # as) y = (x = a \<and> chain h (next_of h a) as y)"

definition past :: "arena \<Rightarrow> uint \<Rightarrow> nat" where
  "past h a = unat a + 8 * unat (size_of h a)"

abbreviation cell :: "arena \<Rightarrow> uint \<Rightarrow> nat set" where
  "cell h a \<equiv> {unat a ..< past h a}"

definition cells :: "arena \<Rightarrow> uint list \<Rightarrow> nat set" where
  "cells h as = (\<Union>a \<in> set as. cell h a)"

lemma chain_append [simp]:
  "chain h x (as @ bs) y \<longleftrightarrow> (\<exists>z. chain h x as z \<and> chain h z bs y)"
  by (induction as arbitrary: x) auto

lemma chain_frame:
  "(\<And>a. a \<in> set as \<Longrightarrow> next_of h' a = next_of h a) \<Longrightarrow> chain h' x as y = chain h x as y"
  by (induction as arbitrary: x) auto

lemma chain_next:
  assumes "chain h b (as @ a # bs) b"
  shows "next_of h a = (case bs of [] \<Rightarrow> b | c # _ \<Rightarrow> c)"
  using assms by (cases bs) auto

lemma chain_next_split:
  assumes "chain h b fs b" "a \<in> set fs" "next_of h a = x" "x \<noteq> b"
  shows "\<exists>as bs. fs = as @ a # x # bs"
proof -
  from \<open>a \<in> set fs\<close> obtain as bs where fs: "fs = as @ a # bs" by (meson split_list)
  from chain_next [of h b as a bs] assms fs have "bs = x # tl bs" by (cases bs) auto
  with fs show ?thesis by metis
qed

lemma cells_simps [simp]:
  "cells h [] = {}"
  "cells h (a # as) = cell h a \<union> cells h as"
  "cells h (as @ bs) = cells h as \<union> cells h bs"
  by (auto simp: cells_def)

lemma cells_frame:
  "(\<And>a. a \<in> set as \<Longrightarrow> size_of h' a = size_of h a) \<Longrightarrow> cells h' as = cells h as"
  by (auto simp: cells_def past_def)

lemma unat_advance:
  "unat p + 8 * unat n < 2 ^ 32 \<Longrightarrow> unat (advance p n) = unat p + 8 * unat n"
  by (simp add: advance_def HDR_def unat_word_ariths)

text \<open>The ring in order: no two blocks touch, and nothing but \<open>base\<close> is empty.\<close>

abbreviation apart :: "arena \<Rightarrow> uint \<Rightarrow> uint \<Rightarrow> bool" where
  "apart h a b \<equiv> past h a < unat b"

definition ring :: "uint \<Rightarrow> nat \<Rightarrow> arena \<Rightarrow> uint list \<Rightarrow> bool" where
  "ring base lo h fs \<longleftrightarrow>
     fs \<noteq> [] \<and> hd fs = base \<and> chain h base fs base \<and> sorted_wrt (apart h) fs \<and>
     size_of h base = 0 \<and> unat base < lo \<and>
     (\<forall>a \<in> set (tl fs). 0 < size_of h a \<and> lo \<le> unat a) \<and> freep h \<in> set fs \<and>
     (\<forall>a \<in> set fs. past h a \<le> unat (brk h)) \<and> unat (brk h) < 2 ^ 31"


lemma find_place_forward:
  assumes "chain h x (vs @ p # qs) b" "sorted_wrt (apart h) (vs @ [p])"
    "\<forall>a \<in> set vs. a < bp" "p < bp" "\<forall>q \<in> set qs. bp < q" "b \<le> p"
  shows "find_place h bp x = Some p"
  using assms
proof (induction vs arbitrary: x)
  case Nil
  then have "x = p" "next_of h p = (case qs of [] \<Rightarrow> b | q # _ \<Rightarrow> q)" by (cases qs; auto)+
  with Nil.prems show ?case
    by (subst find_place.simps) (cases qs; auto)
next
  case (Cons v vs)
  define w where "w = next_of h v"
  from Cons.prems have x: "x = v" and w: "chain h w (vs @ p # qs) b" by (simp_all add: w_def)
  then have "w \<in> set (vs @ [p])" by (cases vs) auto
  with Cons.prems have "past h v < unat w" and wb: "w < bp" by auto
  then have vw: "v < w" by (simp add: past_def word_less_nat_alt)
  from Cons.IH [OF w] Cons.prems have "find_place h bp w = Some p" by simp
  moreover from vw wb have "\<not> w \<le> v" "\<not> bp < w" by auto
  ultimately show ?case
    by (subst find_place.simps) (simp add: x w_def [symmetric])
qed

lemma find_place_around:
  assumes "chain h x (q # rs) b" "sorted_wrt (apart h) (q # rs)" "\<forall>r \<in> set (q # rs). bp < r" "b < bp"
  shows "find_place h bp x = find_place h bp b"
  using assms
proof (induction rs arbitrary: x q)
  case Nil
  then show ?case by (subst find_place.simps) auto
next
  case (Cons r rs)
  from Cons.prems have x: "x = q" and r: "chain h r (r # rs) b" "next_of h q = r" by simp_all
  from Cons.prems have "q < r" by (simp add: past_def word_less_nat_alt)
  from Cons.IH [OF r(1)] Cons.prems have "find_place h bp r = find_place h bp b" by simp
  moreover from \<open>q < r\<close> Cons.prems have "\<not> r \<le> q" "\<not> q < bp" by auto
  ultimately show ?case
    by (subst find_place.simps) (simp add: x r)
qed

lemma ring_place:
  assumes "ring base lo h fs" "lo \<le> unat bp"
    and fs: "fs = ps @ p # qs" "\<forall>a \<in> set (ps @ [p]). a < bp" "\<forall>q \<in> set qs. bp < q"
  shows "find_place h bp (freep h) = Some p"
proof -
  from assms(1) have c: "chain h base (ps @ p # qs) base" and s: "sorted_wrt (apart h) (ps @ p # qs)"
    and f: "freep h \<in> set (ps @ p # qs)" and b: "base < bp" and hd: "hd (ps @ p # qs) = base"
    using assms(2) fs(1) by (auto simp: ring_def word_less_nat_alt)
  from hd s have bp: "base \<le> p"
    by (cases ps) (auto simp: past_def word_le_nat_alt)
  have fwd: "find_place h bp x = Some p" if "chain h x (vs @ p # qs) base" "ps = us @ vs" for x us vs
    using find_place_forward [OF that(1)] s fs bp that(2) by (auto simp: sorted_wrt_append)
  consider us vs where "ps = us @ freep h # vs" | "freep h = p" | us vs where "qs = us @ freep h # vs"
    using f by (auto dest: split_list)
  then show ?thesis
  proof cases
    case 1
    with c have "chain h (freep h) ((freep h # vs) @ p # qs) base" by auto
    with fwd 1 show ?thesis by blast
  next
    case 2
    with c have "chain h p ([] @ p # qs) base" by auto
    with fwd 2 show ?thesis by (metis append_Nil2)
  next
    case 3
    with c have "chain h (freep h) (freep h # vs) base" by auto
    from find_place_around [OF this] s fs(3) 3 b
    have "find_place h bp (freep h) = find_place h bp base" by (auto simp: sorted_wrt_append)
    with fwd [of base ps "[]"] c show ?thesis by simp
  qed
qed


section \<open>Giving a block back\<close>

lemma ring_bounds:
  assumes "ring base lo h fs" "a \<in> set fs"
  shows "unat (advance a (size_of h a)) = past h a" "past h a \<le> unat (brk h)"
  using assms unat_advance [of a "size_of h a"] by (auto simp: ring_def past_def)

lemma join_right_spec:
  assumes r: "ring base lo h (ps @ p # qs)" and bp: "past h bp \<le> unat (brk h)" "lo \<le> unat bp" "0 < size_of h bp"
    and gap: "\<forall>q \<in> set qs. past h bp \<le> unat q" and nq: "bp \<notin> set qs"
  shows "\<exists>n qs'. hdrs (join_right bp p h) = (hdrs h)(bp := \<lparr>h_ptr = (case qs' of [] \<Rightarrow> base | c # _ \<Rightarrow> c), h_size = n\<rparr>)
     \<and> 0 < n \<and> {unat bp ..< unat bp + 8 * unat n} \<union> cells h qs' = cell h bp \<union> cells h qs
     \<and> (qs' = qs \<or> qs \<noteq> [] \<and> qs' = tl qs) \<and> (\<forall>c \<in> set qs'. unat bp + 8 * unat n < unat c)
     \<and> unat bp + 8 * unat n \<le> unat (brk h) \<and> size_of h bp \<le> n"
proof -
  have adv: "unat (advance bp (size_of h bp)) = past h bp"
    using bp r unat_advance [of bp "size_of h bp"] by (simp add: past_def ring_def)
  have nx: "next_of h p = (case qs of [] \<Rightarrow> base | c # _ \<Rightarrow> c)"
    using chain_next r unfolding ring_def by blast
  have srt: "sorted_wrt (apart h) qs" using r by (simp add: ring_def sorted_wrt_append)
  show ?thesis
  proof (cases "advance bp (size_of h bp) = next_of h p")
    case False
    then have "past h bp < unat q" if "q \<in> set qs" for q
    proof -
      from that obtain c cs where qs: "qs = c # cs" by (cases qs) auto
      with False nx adv have "past h bp \<noteq> unat c" by (metis list.simps(5) word_unat_eq_iff)
      with gap qs have "past h bp < unat c" by auto
      with srt qs that show ?thesis by (auto simp: past_def)
    qed
    with False nx bp show ?thesis
      by (intro exI [of _ "size_of h bp"] exI [of _ qs]) (auto simp: join_right_def past_def fun_eq_iff)
  next
    case True
    have "qs \<noteq> []"
    proof
      assume "qs = []"
      with True nx adv have "past h bp = unat base" by simp
      moreover have "unat base < lo" using r by (simp add: ring_def)
      ultimately show False using bp(2) by (simp add: past_def)
    qed
    then obtain c cs where qs: "qs = c # cs" by (cases qs) auto
    with True nx adv have c: "past h bp = unat c" by simp
    have cb: "c \<noteq> bp" using nq qs by auto
    have pc: "past h c \<le> unat (brk h)" "unat (brk h) < 2 ^ 31" using r qs by (auto simp: ring_def)
    then have n: "unat (size_of h bp + size_of h c) = unat (size_of h bp) + unat (size_of h c)"
      using c by (intro unat_add_lem [THEN iffD1]) (simp add: past_def)
    then have p: "unat bp + 8 * unat (size_of h bp + size_of h c) = past h c"
      using c by (simp add: past_def)
    have nc: "next_of h c = (case cs of [] \<Rightarrow> base | d # _ \<Rightarrow> d)"
      using chain_next [of h base "ps @ [p]" c cs] r qs by (simp add: ring_def)
    have "cell h bp \<union> cell h c = {unat bp ..< past h c}"
      using c by (auto simp: past_def)
    moreover have "hdrs (join_right bp p h) = (hdrs h)(bp := \<lparr>h_ptr = (case cs of [] \<Rightarrow> base | c # _ \<Rightarrow> c), h_size = size_of h bp + size_of h c\<rparr>)"
      using True nx qs nc cb by (auto simp: join_right_def Let_def fun_eq_iff)
    moreover have "0 < size_of h bp + size_of h c"
      using n bp(3) by (simp add: word_less_nat_alt)
    moreover have "\<forall>d \<in> set cs. past h c < unat d" using srt qs by simp
    moreover have "size_of h bp \<le> size_of h bp + size_of h c"
      using n by (simp add: word_le_nat_alt)
    ultimately show ?thesis using p pc(1) qs
      by (intro exI [of _ "size_of h bp + size_of h c"] exI [of _ cs]) (auto simp: Un_assoc)
  qed
qed


lemma apart_distinct: "sorted_wrt (apart h) fs \<Longrightarrow> distinct fs"
  by (induction fs) (auto simp: past_def)

lemma apart_less: "apart h a b \<Longrightarrow> unat a < unat b"
  by (simp add: past_def)

lemma apart_frame:
  "(\<And>a. a \<in> set as \<Longrightarrow> past h' a = past h a) \<Longrightarrow> sorted_wrt (apart h') as = sorted_wrt (apart h) as"
  by (induction as) auto

lemma ring_around:
  assumes "ring base lo h (ps @ p # qs)"
  shows ring_order: "sorted_wrt (apart h) ps" "\<forall>a \<in> set ps. apart h a p" "\<forall>q \<in> set qs. apart h p q"
      "\<forall>a \<in> set ps. \<forall>q \<in> set qs. apart h a q" "sorted_wrt (apart h) qs"
    and ring_chain: "chain h base ps p" "chain h (next_of h p) qs base"
    and ring_base: "ps = [] \<longrightarrow> p = base" "ps \<noteq> [] \<longrightarrow> hd ps = base" "size_of h base = 0" "unat base < lo"
    and ring_brk: "\<forall>a \<in> set (ps @ p # qs). past h a \<le> unat (brk h)" "unat (brk h) < 2 ^ 31"
    and ring_inner: "\<forall>a \<in> set (tl ps) \<union> set qs. 0 < size_of h a \<and> lo \<le> unat a" "ps \<noteq> [] \<longrightarrow> 0 < size_of h p \<and> lo \<le> unat p"
proof -
  have s: "sorted_wrt (apart h) (ps @ p # qs)" using assms by (simp add: ring_def)
  then show "sorted_wrt (apart h) ps" "\<forall>a \<in> set ps. apart h a p" "\<forall>q \<in> set qs. apart h p q"
      "\<forall>a \<in> set ps. \<forall>q \<in> set qs. apart h a q" "sorted_wrt (apart h) qs"
    by (simp_all add: sorted_wrt_append)
  have "chain h base (ps @ p # qs) base" using assms by (simp add: ring_def)
  then show "chain h base ps p" "chain h (next_of h p) qs base" by auto
  have hd: "hd (ps @ p # qs) = base" using assms by (simp add: ring_def)
  then show "ps = [] \<longrightarrow> p = base" "ps \<noteq> [] \<longrightarrow> hd ps = base" by auto
  show "size_of h base = 0" "unat base < lo" "unat (brk h) < 2 ^ 31" using assms by (simp_all add: ring_def)
  show "\<forall>a \<in> set (ps @ p # qs). past h a \<le> unat (brk h)" using assms unfolding ring_def by blast
  have "\<forall>a \<in> set (tl (ps @ p # qs)). 0 < size_of h a \<and> lo \<le> unat a" using assms unfolding ring_def by blast
  then show "\<forall>a \<in> set (tl ps) \<union> set qs. 0 < size_of h a \<and> lo \<le> unat a" "ps \<noteq> [] \<longrightarrow> 0 < size_of h p \<and> lo \<le> unat p"
    by (cases ps; simp)+
qed

lemma ringI:
  assumes "sorted_wrt (apart h) ps" "\<forall>a \<in> set ps. apart h a p" "\<forall>q \<in> set qs. apart h p q"
      "\<forall>a \<in> set ps. \<forall>q \<in> set qs. apart h a q" "sorted_wrt (apart h) qs"
    and "chain h base ps p" "chain h (next_of h p) qs base"
    and "ps = [] \<longrightarrow> p = base" "ps \<noteq> [] \<longrightarrow> hd ps = base" "size_of h base = 0" "unat base < lo"
    and "\<forall>a \<in> set ps \<union> {p} \<union> set qs. past h a \<le> unat (brk h)" "unat (brk h) < 2 ^ 31"
    and "\<forall>a \<in> set (tl ps) \<union> set qs. 0 < size_of h a \<and> lo \<le> unat a" "ps \<noteq> [] \<longrightarrow> 0 < size_of h p \<and> lo \<le> unat p"
    and "freep h \<in> set ps \<union> {p} \<union> set qs"
  shows "ring base lo h (ps @ p # qs)"
proof -
  have "sorted_wrt (apart h) (ps @ p # qs)" using assms(1-5) by (auto simp: sorted_wrt_append)
  moreover have "chain h base (ps @ p # qs) base" using assms(6,7) by auto
  moreover have "hd (ps @ p # qs) = base" using assms(8,9) by (cases ps) auto
  moreover have "\<forall>a \<in> set (tl (ps @ p # qs)). 0 < size_of h a \<and> lo \<le> unat a" using assms(14,15) by (cases ps) auto
  ultimately show ?thesis using assms(10-13,16) unfolding ring_def by auto
qed

lemma ring_split:
  assumes "ring base lo h fs" "lo \<le> unat bp" "bp \<notin> set fs"
  obtains ps p qs where "fs = ps @ p # qs" "\<forall>a \<in> set (ps @ [p]). a < bp" "\<forall>q \<in> set qs. bp < q"
proof -
  define us where "us = takeWhile (\<lambda>a. a < bp) fs"
  define qs where "qs = dropWhile (\<lambda>a. a < bp) fs"
  have fs: "fs = us @ qs" by (simp add: us_def qs_def)
  have "base < bp" "fs \<noteq> []" "hd fs = base" using assms(1,2) by (auto simp: ring_def word_less_nat_alt)
  then have "us \<noteq> []" by (cases fs) (auto simp: us_def)
  then obtain ps p where us: "us = ps @ [p]" by (metis append_butlast_last_id)
  have less: "a < bp" if "a \<in> set us" for a using set_takeWhileD that unfolding us_def by metis
  have "bp < q" if q: "q \<in> set qs" for q
  proof -
    from q have ne: "qs \<noteq> []" by auto
    then have "\<not> hd qs < bp" using hd_dropWhile unfolding qs_def by blast
    moreover have "hd qs \<noteq> bp" using ne assms(3) fs by (metis UnI2 hd_in_set set_append)
    moreover have "hd qs \<le> q"
      using assms(1) fs ne q by (cases qs) (auto simp: ring_def sorted_wrt_append past_def word_le_nat_alt)
    ultimately show ?thesis by simp
  qed
  with that [of ps p qs] fs us less show ?thesis by auto
qed

lemma joined_ring:
  assumes r: "ring base lo h (ps @ p # qs)" and bp: "bp \<notin> set (ps @ p # qs)" "lo \<le> unat bp"
    and H: "hdrs h1 = (hdrs h)(bp := \<lparr>h_ptr = (case qs' of [] \<Rightarrow> base | c # _ \<Rightarrow> c), h_size = n\<rparr>)"
      "brk h1 = brk h"
    and n: "0 < n" "qs' = qs \<or> qs \<noteq> [] \<and> qs' = tl qs" "\<forall>c \<in> set qs'. unat bp + 8 * unat n < unat c"
      "unat bp + 8 * unat n \<le> unat (brk h)" and gap: "past h p \<le> unat bp"
    and h2: "h2 = (join_left bp p h1)\<lparr>freep := p\<rparr>"
  shows "\<exists>fs'. ring base lo h2 fs' \<and> (\<exists>y \<in> set fs'. n \<le> size_of h2 y) \<and>
    cells h2 fs' = cells h (ps @ [p]) \<union> {unat bp ..< unat bp + 8 * unat n} \<union> cells h qs'"
proof -
  have dist: "distinct (ps @ p # qs)"
    using r apart_distinct unfolding ring_def by blast
  have sub: "set qs' \<subseteq> set qs" "sorted_wrt (apart h) qs'" "distinct qs'"
    using n(2) r dist by (cases qs; auto simp: ring_def sorted_wrt_append)+
  have nin: "bp \<notin> set ps" "bp \<noteq> p" "bp \<notin> set qs'" "p \<notin> set ps" "p \<notin> set qs'"
    using bp(1) dist sub(1) by auto
  define x where "x = (case qs' of [] \<Rightarrow> base | c # _ \<Rightarrow> c)"
  have c: "chain h base ps p" "chain h x qs' base"
  proof -
    show "chain h base ps p" using r by (auto simp: ring_def)
    have "chain h (next_of h p) qs base" using r by (auto simp: ring_def)
    with n(2) show "chain h x qs' base"
      by (cases qs; cases "tl qs") (auto simp: x_def)
  qed
  have pb: "past h1 p = past h p" using H nin by (simp add: past_def)
  have H1: "hdrs h1 = (hdrs h)(bp := \<lparr>h_ptr = x, h_size = n\<rparr>)" by (simp add: H(1) x_def)
  have pbound: "unat p + 8 * unat (size_of h p) < 2 ^ 32"
    using r by (auto simp: ring_def past_def)
  then have adv: "unat (advance p (size_of h p)) = past h p"
    by (simp add: unat_advance past_def)
  note o = ring_order [OF r] and bs = ring_base [OF r] and br = ring_brk [OF r] and inn = ring_inner [OF r]
  have b2: "brk h2 = brk h" "freep h2 = p" using H(2) by (simp_all add: h2 join_left_def Let_def)
  have o': "\<forall>q \<in> set qs'. apart h p q" "\<forall>a \<in> set ps. \<forall>q \<in> set qs'. apart h a q"
    "\<forall>a \<in> set (tl ps) \<union> set qs'. 0 < size_of h a \<and> lo \<le> unat a"
    "\<forall>a \<in> set ps \<union> {p} \<union> set qs'. past h a \<le> unat (brk h)"
    using o(3,4) inn(1) br(1) sub(1) by auto
  show ?thesis
  proof (cases "advance p (size_of h p) = bp")
    case True
    with adv have pbp: "past h p = unat bp" by simp
    have H2: "hdrs h2 = (hdrs h)(bp := \<lparr>h_ptr = x, h_size = n\<rparr>, p := \<lparr>h_ptr = x, h_size = size_of h p + n\<rparr>)"
      using True nin by (auto simp: h2 join_left_def H1 fun_eq_iff)
    have sum: "unat (size_of h p + n) = unat (size_of h p) + unat n"
      using pbp n(4) br by (intro unat_add_lem [THEN iffD1]) (simp add: past_def)
    then have "n \<le> size_of h2 p" by (simp add: H2 word_le_nat_alt)
    then have big: "\<exists>y \<in> set (ps @ p # qs'). n \<le> size_of h2 y" by auto
    from sum have pp: "past h2 p = unat bp + 8 * unat n" and pos: "0 < size_of h2 p"
      using pbp n(1) by (auto simp: H2 past_def word_less_nat_alt)
    have fr: "hdrs h2 a = hdrs h a" if "a \<in> set ps \<or> a \<in> set qs'" for a using that nin by (auto simp: H2)
    then have past: "past h2 a = past h a" if "a \<in> set ps \<or> a \<in> set qs'" for a using that by (simp add: past_def)
    have "p \<noteq> base" using pbp bs(3,4) bp(2) by (auto simp: past_def)
    with bs(1) have ps: "ps \<noteq> []" by auto
    with bs(2) have inb: "base \<in> set ps" using hd_in_set by metis
    have "chain h2 base ps p" "chain h2 x qs' base" using c chain_frame fr by metis+
    moreover have "next_of h2 p = x" by (simp add: H2)
    moreover have "sorted_wrt (apart h2) ps" "sorted_wrt (apart h2) qs'"
      using apart_frame past o(1) sub(2) by blast+
    moreover have "\<forall>a \<in> set ps. apart h2 a p" "\<forall>q \<in> set qs'. apart h2 p q" "\<forall>a \<in> set ps. \<forall>q \<in> set qs'. apart h2 a q"
      using past o(2) o'(2) n(3) pp by auto
    moreover have "size_of h2 base = 0" using fr inb bs(3) by simp
    moreover have "\<forall>a \<in> set ps \<union> {p} \<union> set qs'. past h2 a \<le> unat (brk h2)"
      using past pp n(4) o'(4) by (auto simp: b2)
    moreover have "\<forall>a \<in> set (tl ps) \<union> set qs'. 0 < size_of h2 a \<and> lo \<le> unat a"
      using fr o'(3) ps by (auto dest: list.set_sel(2))
    ultimately have "ring base lo h2 (ps @ p # qs')"
      using bs br(2) inn(2) b2 pos ps by (intro ringI) auto
    moreover have "cells h2 (ps @ p # qs') = cells h (ps @ [p]) \<union> {unat bp ..< unat bp + 8 * unat n} \<union> cells h qs'"
    proof -
      have "cells h2 ps = cells h ps" "cells h2 qs' = cells h qs'" using fr by (auto intro!: cells_frame)
      moreover have "cell h2 p = cell h p \<union> {unat bp ..< unat bp + 8 * unat n}"
        using pp pbp by (auto simp: past_def)
      ultimately show ?thesis by auto
    qed
    ultimately show ?thesis using big by blast
  next
    case False
    with adv have pbp: "past h p < unat bp" using gap
      by (metis le_neq_implies_less word_unat_eq_iff)
    have H2: "hdrs h2 = (hdrs h)(bp := \<lparr>h_ptr = x, h_size = n\<rparr>, p := \<lparr>h_ptr = bp, h_size = size_of h p\<rparr>)"
      using False nin by (auto simp: h2 join_left_def H1 fun_eq_iff)
    have fr: "hdrs h2 a = hdrs h a" if "a \<in> set ps \<or> a \<in> set qs'" for a using that nin by (auto simp: H2)
    then have past: "past h2 a = past h a" if "a \<in> set ps \<or> a \<in> set qs'" for a using that by (simp add: past_def)
    have pp: "past h2 p = past h p" "past h2 bp = unat bp + 8 * unat n" using nin by (simp_all add: H2 past_def)
    have "chain h2 base ps p" "chain h2 x qs' base" using c chain_frame fr by metis+
    moreover have "next_of h2 p = bp" "next_of h2 bp = x" using nin by (simp_all add: H2)
    moreover have "sorted_wrt (apart h2) ps" "sorted_wrt (apart h2) qs'"
      using apart_frame past o(1) sub(2) by blast+
    moreover have "\<forall>a \<in> set ps. apart h2 a p" "\<forall>q \<in> set (bp # qs'). apart h2 p q" "\<forall>q \<in> set qs'. apart h2 bp q"
      using past o(2) o'(1) n(3) pp pbp by auto
    moreover have "\<forall>a \<in> set ps. \<forall>q \<in> set (bp # qs'). apart h2 a q"
    proof (intro ballI)
      fix a q assume a: "a \<in> set ps" and q: "q \<in> set (bp # qs')"
      from a o(2) have "past h a < unat p" by blast
      also have "unat p \<le> unat bp" using gap by (simp add: past_def)
      finally have "past h a < unat bp" .
      with a q past o'(2) show "apart h2 a q" by auto
    qed
    moreover have "size_of h2 base = 0"
    proof (cases "ps = []")
      case True
      with bs nin show ?thesis by (simp add: H2)
    next
      case False
      with bs(2) have "base \<in> set ps" using hd_in_set by metis
      with fr bs(3) show ?thesis by simp
    qed
    moreover have "\<forall>a \<in> set ps \<union> {p} \<union> set (bp # qs'). past h2 a \<le> unat (brk h2)"
      using past pp n(4) o'(4) by (auto simp: b2)
    moreover have "\<forall>a \<in> set (tl ps) \<union> set (bp # qs'). 0 < size_of h2 a \<and> lo \<le> unat a"
    proof -
      have "size_of h2 bp = n" using nin by (simp add: H2)
      moreover have "hdrs h2 a = hdrs h a" if "a \<in> set (tl ps) \<union> set qs'" for a
        using that fr list.set_sel(2) by (cases ps) auto
      ultimately show ?thesis using o'(3) n(1) bp(2) by auto
    qed
    moreover have "size_of h2 p = size_of h p" by (simp add: H2)
    ultimately have "ring base lo h2 (ps @ p # bp # qs')"
      using bs br(2) inn(2) b2 by (intro ringI) simp_all
    moreover have "cells h2 (ps @ p # bp # qs') = cells h (ps @ [p]) \<union> {unat bp ..< unat bp + 8 * unat n} \<union> cells h qs'"
    proof -
      have "cells h2 ps = cells h ps" "cells h2 qs' = cells h qs'" using fr by (auto intro!: cells_frame)
      with pp show ?thesis by auto
    qed
    moreover have "\<exists>y \<in> set (ps @ p # bp # qs'). n \<le> size_of h2 y" using nin by (simp add: H2)
    ultimately show ?thesis by blast
  qed
qed


lemma in_own_cell: "0 < size_of h a \<Longrightarrow> unat a \<in> cell h a"
  by (simp add: past_def word_less_nat_alt)

lemma ring_tl_cell:
  assumes "ring base lo h fs" "a \<in> set fs" "lo \<le> unat a"
  shows "unat a \<in> cells h fs" "0 < size_of h a"
proof -
  from assms have "a \<noteq> base" by (auto simp: ring_def)
  moreover have "hd fs = base" using assms(1) by (simp add: ring_def)
  ultimately have "a \<in> set (tl fs)" using assms(2) by (cases fs) auto
  with assms(1) show "0 < size_of h a" by (auto simp: ring_def)
  with in_own_cell assms(2) show "unat a \<in> cells h fs" by (force simp: cells_def)
qed

lemma free_spec:
  assumes r: "ring base lo h fs" and bp: "lo \<le> unat bp" "0 < size_of h bp" "past h bp \<le> unat (brk h)"
    and dis: "cell h bp \<inter> cells h fs = {}"
  shows "\<exists>h' fs'. free (advance bp 1) h = Some h' \<and> ring base lo h' fs' \<and> cells h' fs' = cells h fs \<union> cell h bp
    \<and> brk h' = brk h \<and> (\<exists>y \<in> set fs'. size_of h bp \<le> size_of h' y)
    \<and> (\<forall>a. a \<notin> insert bp (set fs) \<longrightarrow> hdrs h' a = hdrs h a)"
proof -
  have nin: "bp \<notin> set fs"
    using ring_tl_cell [OF r _ bp(1)] in_own_cell [of h bp, OF bp(2)] dis by blast
  obtain ps p qs where fs: "fs = ps @ p # qs" and less: "\<forall>a \<in> set (ps @ [p]). a < bp" and more: "\<forall>q \<in> set qs. bp < q"
    using ring_split [OF r bp(1) nin] .
  have rr: "ring base lo h (ps @ p # qs)" using r fs by simp
  have find: "find_place h bp (freep h) = Some p" using ring_place [OF rr bp(1) refl less more] .
  have gq: "\<forall>q \<in> set qs. past h bp \<le> unat q"
  proof
    fix q assume q: "q \<in> set qs"
    show "past h bp \<le> unat q"
    proof (rule ccontr)
      assume "\<not> past h bp \<le> unat q"
      with q more have "unat q \<in> cell h bp" by (auto simp: word_less_nat_alt)
      moreover have "lo \<le> unat q" using q ring_inner(1) [OF rr] by blast
      then have "unat q \<in> cells h fs" using ring_tl_cell [OF r] q fs by simp
      ultimately show False using dis by blast
    qed
  qed
  have gp: "past h p \<le> unat bp"
  proof (rule ccontr)
    assume "\<not> past h p \<le> unat bp"
    with less have "unat bp \<in> cell h p" by (auto simp: word_less_nat_alt)
    then have "unat bp \<in> cells h fs" using fs by simp
    with dis in_own_cell [of h bp, OF bp(2)] show False by blast
  qed
  have nq: "bp \<notin> set qs" using nin fs by simp
  from join_right_spec [OF rr bp(3,1,2) gq nq] obtain n qs' where
    H: "hdrs (join_right bp p h) = (hdrs h)(bp := \<lparr>h_ptr = (case qs' of [] \<Rightarrow> base | c # _ \<Rightarrow> c), h_size = n\<rparr>)"
    and n: "0 < n" "{unat bp ..< unat bp + 8 * unat n} \<union> cells h qs' = cell h bp \<union> cells h qs"
      "qs' = qs \<or> qs \<noteq> [] \<and> qs' = tl qs" "\<forall>c \<in> set qs'. unat bp + 8 * unat n < unat c"
      "unat bp + 8 * unat n \<le> unat (brk h)" "size_of h bp \<le> n" by blast
  have B: "brk (join_right bp p h) = brk h" by (simp add: join_right_def Let_def)
  define h2 where "h2 = (join_left bp p (join_right bp p h))\<lparr>freep := p\<rparr>"
  have "free (advance bp 1) h = Some h2"
    using find by (simp add: free_def advance_def h2_def)
  moreover obtain fs' where "ring base lo h2 fs'" and "\<exists>y \<in> set fs'. n \<le> size_of h2 y"
    and "cells h2 fs' = cells h (ps @ [p]) \<union> {unat bp ..< unat bp + 8 * unat n} \<union> cells h qs'"
    using joined_ring [OF rr _ bp(1) H B n(1,3,4,5) gp h2_def] nin fs by auto
  moreover from this(2) n(6) have "\<exists>y \<in> set fs'. size_of h bp \<le> size_of h2 y" using order_trans by blast
  moreover from calculation(4) n(2) fs have "cells h2 fs' = cells h fs \<union> cell h bp" by (simp add: Un_assoc Un_commute) blast
  moreover have "brk h2 = brk h" using B by (simp add: h2_def join_left_def Let_def)
  moreover have "hdrs h2 a = hdrs h a" if "a \<notin> insert bp (set fs)" for a
    using that fs H by (auto simp: h2_def join_left_def Let_def)
  ultimately show ?thesis by blast
qed

section \<open>Handing out a block\<close>

lemma apart_cells:
  assumes "\<forall>a \<in> set as. apart h a x" "\<forall>b \<in> set bs. apart h x b"
  shows "cell h x \<inter> cells h as = {}" "cell h x \<inter> cells h bs = {}"
proof -
  have "y < unat x" if "y \<in> cells h as" for y
  proof -
    from that obtain a where "a \<in> set as" "y < past h a" by (auto simp: cells_def)
    with assms(1) less_trans show ?thesis by blast
  qed
  then show "cell h x \<inter> cells h as = {}" by (meson atLeastLessThan_iff disjoint_iff not_le)
  have "past h x < y" if "y \<in> cells h bs" for y
  proof -
    from that obtain b where "b \<in> set bs" "unat b \<le> y" by (auto simp: cells_def)
    with assms(2) less_le_trans show ?thesis by blast
  qed
  then show "cell h x \<inter> cells h bs = {}" by (meson atLeastLessThan_iff disjoint_iff less_asym)
qed

lemma take_spec:
  assumes r: "ring base lo h fs" and x: "prev \<in> set fs" "next_of h prev = x" "n \<le> size_of h x" "0 < n"
  shows "\<exists>a h' fs'. take_block n prev x h = (advance a 1, h') \<and> ring base lo h' fs' \<and> lo \<le> unat a \<and> size_of h' a = n
    \<and> cell h' a \<inter> cells h' fs' = {} \<and> cells h fs = cells h' fs' \<union> cell h' a \<and> brk h' = brk h
    \<and> (\<forall>c. unat c \<notin> cells h fs \<and> c \<notin> set fs \<longrightarrow> hdrs h' c = hdrs h c)"
proof -
  have xb: "x \<noteq> base" using x r by (auto simp: ring_def word_less_nat_alt word_le_nat_alt)
  have "chain h base fs base" using r by (simp add: ring_def)
  from chain_next_split [OF this x(1,2) xb] obtain ps qs where fs: "fs = ps @ prev # x # qs" by blast
  have rp: "ring base lo h (ps @ prev # x # qs)" using r fs by simp
  have rx: "ring base lo h ((ps @ [prev]) @ x # qs)" using r fs by simp
  have dist: "distinct fs" using r apart_distinct unfolding ring_def by blast
  then have nin: "x \<notin> set ps" "x \<noteq> prev" "x \<notin> set qs" "prev \<notin> set ps" "prev \<notin> set qs" using fs by auto
  have lox: "lo \<le> unat x" using ring_inner(2) [OF rx] by simp
  show ?thesis
  proof (cases "size_of h x = n")
    case True
    define h' where "h' = (set_hdr prev (\<lambda>y. y\<lparr>h_ptr := next_of h x\<rparr>) h)\<lparr>freep := prev\<rparr>"
    have sz: "size_of h' c = size_of h c" for c by (simp add: h'_def)
    then have past: "past h' = past h" by (simp add: past_def fun_eq_iff)
    have fr: "hdrs h' c = hdrs h c" if "c \<noteq> prev" for c using that by (simp add: h'_def)
    have c: "chain h base ps prev" "chain h (next_of h x) qs base" using ring_chain(1) [OF rp] ring_chain(2) [OF rx] .
    have "next_of h' c = next_of h c" if "c \<in> set ps \<union> set qs" for c
      using that nin by (subst fr) auto
    then have "chain h' base ps prev = chain h base ps prev" "chain h' (next_of h x) qs base = chain h (next_of h x) qs base"
      by (auto intro!: chain_frame)
    moreover have "next_of h' prev = next_of h x" by (simp add: h'_def)
    ultimately have "chain h' base ps prev" "chain h' (next_of h' prev) qs base" using c by simp_all
    then have "ring base lo h' (ps @ prev # qs)"
      using ring_order [OF rp] ring_base [OF rp] ring_brk [OF rp] ring_inner [OF rp]
      by (intro ringI; simp add: past sz) (simp_all add: h'_def)
    moreover have "cells h' fs = cells h fs" for fs by (rule cells_frame) (simp add: sz)
    moreover have "cell h x \<inter> cells h (ps @ prev # qs) = {}"
      using apart_cells [of "ps @ [prev]" h x qs] ring_order(2,3) [OF rx] by auto
    moreover have "take_block n prev x h = (advance x 1, h')" using True by (simp add: take_block_def h'_def)
    moreover have "cells h fs = cells h (ps @ prev # qs) \<union> cell h x" using fs by auto
    ultimately show ?thesis using True lox fr fs sz past
      by (intro exI [of _ x] exI [of _ h'] exI [of _ "ps @ prev # qs"]) (auto simp: h'_def)
  next
    case False
    define m where "m = size_of h x - n"
    define a where "a = advance x m"
    define h' where "h' = (set_hdr a (\<lambda>y. y\<lparr>h_size := n\<rparr>) (set_hdr x (\<lambda>y. y\<lparr>h_size := m\<rparr>) h))\<lparr>freep := prev\<rparr>"
    have "unat n < unat (size_of h x)" using x(3) False by (metis le_neq_implies_less word_le_nat_alt word_unat_eq_iff)
    then have m: "unat m = unat (size_of h x) - unat n" "0 < m"
      using x(3) by (auto simp: m_def unat_sub word_less_nat_alt)
    have nx: "unat n \<le> unat (size_of h x)" "0 < unat n" using x(3,4) by (auto simp: word_le_nat_alt word_less_nat_alt)
    have "past h x < 2 ^ 32" using ring_brk [OF rx] by auto
    then have ua: "unat a = unat x + 8 * unat m" "unat a + 8 * unat n = past h x"
      using m(1) nx unat_advance [of x m] by (auto simp: a_def past_def)
    then have ain: "unat x < unat a" "unat a < past h x" using m(2) nx(2) by (auto simp: word_less_nat_alt)
    have "c \<noteq> a" if "c \<in> set fs" for c
      using that fs ain ring_order(2,3) [OF rx] by (auto simp: past_def)
    then have anin: "a \<notin> set fs" by blast
    have nxt: "next_of h' c = next_of h c" for c by (simp add: h'_def)
    have fr: "hdrs h' c = hdrs h c" if "c \<noteq> x" "c \<noteq> a" for c using that by (simp add: h'_def)
    then have past: "past h' c = past h c" if "c \<noteq> x" "c \<noteq> a" for c using that by (simp add: past_def)
    have px: "past h' x = unat a" "past h' a = past h x" "size_of h' x = m" "size_of h' a = n"
      using ua ain by (auto simp: past_def h'_def)
    have lx: "past h' x < past h x" using px ain by simp
    have fr': "hdrs h' c = hdrs h c" "past h' c = past h c" if "c \<in> set (ps @ [prev]) \<union> set qs" for c
      using that fr past nin anin fs by (metis (no_types, lifting) Un_iff append.assoc append_Cons append_Nil in_set_conv_decomp set_append set_ConsD)+
    have "ring base lo h' ((ps @ [prev]) @ x # qs)"
    proof (rule ringI)
      note o = ring_order [OF rx]
      show "sorted_wrt (apart h') (ps @ [prev])" "sorted_wrt (apart h') qs"
        using o(1,5) apart_frame [of "ps @ [prev]" h' h] apart_frame [of qs h' h] fr'(2) by blast+
      show "\<forall>a \<in> set (ps @ [prev]). apart h' a x" "\<forall>a \<in> set (ps @ [prev]). \<forall>q \<in> set qs. apart h' a q"
        using o(2,4) fr'(2) by auto
      show "\<forall>q \<in> set qs. apart h' x q" using o(3) lx by auto
      show "chain h' base (ps @ [prev]) x" "chain h' (next_of h' x) qs base"
        using ring_chain [OF rx] chain_frame [of _ h' h, OF nxt] nxt by auto
      show "size_of h' base = 0" using ring_base(2,3) [OF rx] fr' by (metis UnI1 append_is_Nil_conv hd_in_set not_Cons_self2)
      show "\<forall>a \<in> set (ps @ [prev]) \<union> {x} \<union> set qs. past h' a \<le> unat (brk h')"
        using ring_brk(1) [OF rx] fr'(2) lx by (auto simp: h'_def)
      show "\<forall>a \<in> set (tl (ps @ [prev])) \<union> set qs. 0 < size_of h' a \<and> lo \<le> unat a"
        using ring_inner(1) [OF rx] fr'(1) by (metis UnCI UnE list.set_sel(2) snoc_eq_iff_butlast)
    qed (use ring_base [OF rx] ring_brk [OF rx] ring_inner [OF rx] m px in \<open>auto simp: h'_def\<close>)
    then have "ring base lo h' fs" using fs by simp
    moreover have "take_block n prev x h = (advance a 1, h')"
      using False by (simp add: take_block_def Let_def h'_def a_def m_def)
    moreover have "cells h fs = cells h' fs \<union> cell h' a" "cell h' a \<inter> cells h' fs = {}"
    proof -
      have eq: "cells h' (ps @ [prev]) = cells h (ps @ [prev])" "cells h' qs = cells h qs"
        by (rule cells_frame; subst fr'(1); auto)+
      have split: "cell h x = cell h' x \<union> cell h' a" "cell h' x \<inter> cell h' a = {}"
        using px ain by (auto simp: ivl_disj_un)
      have sp: "cells g fs = cells g (ps @ [prev]) \<union> (cell g x \<union> cells g qs)" for g by (simp add: fs Un_assoc)
      from sp [of h] sp [of h'] split(1) eq show "cells h fs = cells h' fs \<union> cell h' a" by blast
      have "cell h x \<inter> (cells h (ps @ [prev]) \<union> cells h qs) = {}"
        using apart_cells [of "ps @ [prev]" h x qs] ring_order(2,3) [OF rx] by auto
      with sp [of h'] eq split show "cell h' a \<inter> cells h' fs = {}" by blast
    qed
    moreover have "unat a \<in> cells h fs" using ain fs by auto
    moreover have "lo \<le> unat a" using lox ain by simp
    ultimately show ?thesis using px(4) fr x fs
      by (intro exI [of _ a] exI [of _ h'] exI [of _ fs]) (auto simp: h'_def)
  qed
qed


lemma loop_finds:
  assumes "chain h p (us @ x # vs) z" "freep h \<notin> set us" "\<forall>u \<in> set us. size_of h u < n" "n \<le> size_of h x"
    "prev \<in> A" "next_of h prev = p" "set us \<subseteq> A"
  shows "\<exists>prev' \<in> A. next_of h prev' = x \<and> malloc_loop grows n prev p h = Some (take_block n prev' x h)"
  using assms
proof (induction us arbitrary: p prev)
  case Nil
  then show ?case by (intro bexI [of _ prev]) (auto simp: malloc_loop.simps [of grows n prev])
next
  case (Cons u us)
  then have "p = u" "chain h (next_of h u) (us @ x # vs) z" "u \<in> A" by simp_all
  with Cons.IH [of "next_of h u" u] Cons.prems obtain prev' where
    "prev' \<in> A" "next_of h prev' = x" "malloc_loop grows n u (next_of h u) h = Some (take_block n prev' x h)"
    by auto
  moreover have "malloc_loop grows n prev p h = malloc_loop grows n u (next_of h u) h"
    using Cons.prems \<open>p = u\<close> by (subst malloc_loop.simps) auto
  ultimately show ?case by auto
qed

lemma loop_exhausts:
  assumes "chain h p (us @ [freep h]) z" "freep h \<notin> set us" "\<forall>u \<in> set (us @ [freep h]). size_of h u < n"
  shows "malloc_loop grows n prev p h =
    (case morecore grows n h of None \<Rightarrow> None | Some None \<Rightarrow> Some (0, h)
     | Some (Some (p, h)) \<Rightarrow> malloc_loop grows n p (next_of h p) h)"
  using assms
proof (induction us arbitrary: p prev)
  case Nil
  then show ?case by (subst malloc_loop.simps) (auto simp: not_le)
next
  case (Cons u us)
  then have "p = u" "chain h (next_of h u) (us @ [freep h]) z" by simp_all
  with Cons.IH [of "next_of h u" u] Cons.prems show ?case
    by (subst malloc_loop.simps) (auto simp: not_le)
qed

text \<open>The ring seen from behind \<open>freep\<close>, as the search of \<open>malloc\<close> walks it.\<close>

lemma ring_from_freep:
  assumes "ring base lo h fs"
  obtains us where "chain h (next_of h (freep h)) (us @ [freep h]) (next_of h (freep h))"
    "freep h \<notin> set us" "set (us @ [freep h]) = set fs" "distinct us"
proof -
  from assms have "freep h \<in> set fs" by (simp add: ring_def)
  then obtain ps qs where fs: "fs = ps @ freep h # qs" by (meson split_list)
  have "distinct fs" using assms apart_distinct unfolding ring_def by blast
  moreover have "chain h base ps (freep h)" "chain h (next_of h (freep h)) qs base"
    using ring_chain assms fs by metis+
  ultimately show ?thesis using that [of "qs @ ps"] fs by auto
qed

lemma search_spec:
  assumes r: "ring base lo h fs" and x: "x \<in> set fs" "n \<le> size_of h x"
  shows "\<exists>prev y. malloc_loop grows n (freep h) (next_of h (freep h)) h = Some (take_block n prev y h)
     \<and> prev \<in> set fs \<and> next_of h prev = y \<and> n \<le> size_of h y"
proof -
  obtain us where us: "chain h (next_of h (freep h)) (us @ [freep h]) (next_of h (freep h))"
    "freep h \<notin> set us" "set (us @ [freep h]) = set fs" "distinct us"
    using ring_from_freep [OF r] .
  with x have "\<exists>y \<in> set (us @ [freep h]). n \<le> size_of h y" by metis
  then obtain vs y ws where sp: "us @ [freep h] = vs @ y # ws" and y: "n \<le> size_of h y"
    and small: "\<forall>v \<in> set vs. \<not> n \<le> size_of h v"
    using split_list_first_prop [of "us @ [freep h]" "\<lambda>y. n \<le> size_of h y"] by blast
  from sp have vs: "set vs \<subseteq> set us" by (cases ws rule: rev_cases) auto
  have f: "freep h \<in> set fs" using r by (simp add: ring_def)
  have "\<exists>prev' \<in> set fs. next_of h prev' = y \<and>
    malloc_loop grows n (freep h) (next_of h (freep h)) h = Some (take_block n prev' y h)"
  proof (rule loop_finds)
    show "chain h (next_of h (freep h)) (vs @ y # ws) (next_of h (freep h))" using us(1) sp by metis
    show "freep h \<notin> set vs" "set vs \<subseteq> set fs" using vs us(2,3) by auto
    show "\<forall>u \<in> set vs. size_of h u < n" using small by (simp add: not_le)
  qed (use y f in auto)
  with y show ?thesis by blast
qed

lemma search_fails:
  assumes r: "ring base lo h fs" and small: "\<forall>a \<in> set fs. size_of h a < n"
  shows "malloc_loop grows n (freep h) (next_of h (freep h)) h =
    (case morecore grows n h of None \<Rightarrow> None | Some None \<Rightarrow> Some (0, h)
     | Some (Some (p, h)) \<Rightarrow> malloc_loop grows n p (next_of h p) h)"
proof -
  obtain us where us: "chain h (next_of h (freep h)) (us @ [freep h]) (next_of h (freep h))"
    "freep h \<notin> set us" "set (us @ [freep h]) = set fs" "distinct us"
    using ring_from_freep [OF r] .
  have "\<forall>u \<in> set (us @ [freep h]). size_of h u < n" unfolding us(3) by (rule small)
  then show ?thesis by (rule loop_exhausts [OF us(1,2)])
qed


section \<open>What a program may rely on\<close>

text \<open>
  The blocks a program holds are pairs of the address of the header and the number of
  units, header included. The heap lies between \<open>lo\<close>, the end of the program when it was
  loaded, and \<open>brk\<close>: it consists of the blocks held and of the blocks of the ring.
\<close>

abbreviation extent :: "uint \<times> uint \<Rightarrow> nat set" where
  "extent b \<equiv> {unat (fst b) ..< unat (fst b) + 8 * unat (snd b)}"

definition extents :: "(uint \<times> uint) list \<Rightarrow> nat set" where
  "extents used = (\<Union>b \<in> set used. extent b)"

definition held :: "nat \<Rightarrow> (uint \<times> uint) list \<Rightarrow> arena \<Rightarrow> bool" where
  "held lo used h \<longleftrightarrow>
     (\<forall>b \<in> set used. size_of h (fst b) = snd b \<and> 0 < snd b \<and> lo \<le> unat (fst b)) \<and>
     sorted_wrt (\<lambda>b c. extent b \<inter> extent c = {}) used"

definition heap_ok :: "uint \<Rightarrow> nat \<Rightarrow> (uint \<times> uint) list \<Rightarrow> arena \<Rightarrow> bool" where
  "heap_ok base lo used h \<longleftrightarrow>
     base \<noteq> 0 \<and>
     (if freep h = 0 then used = [] \<and> unat (brk h) = lo \<and> unat base < lo \<and> lo < 2 ^ 31
      else \<exists>fs. ring base lo h fs \<and> lo \<le> unat (brk h) \<and> held lo used h \<and>
             extents used \<inter> cells h fs = {} \<and> extents used \<union> cells h fs = {lo ..< unat (brk h)})"

lemma extents_simps [simp]:
  "extents [] = {}"
  "extents (b # bs) = extent b \<union> extents bs"
  by (auto simp: extents_def)

lemma extents_perm: "set bs = set cs \<Longrightarrow> extents bs = extents cs"
  by (simp add: extents_def)

lemma held_disjoint:
  "held lo used h \<Longrightarrow> b \<in> set used \<Longrightarrow> c \<in> set (remove1 b used) \<Longrightarrow> extent b \<inter> extent c = {}"
proof (induction used)
  case (Cons d used)
  then have rec: "held lo used h" and d: "\<forall>c \<in> set used. extent d \<inter> extent c = {}"
    by (auto simp: held_def)
  show ?case
  proof (cases "d = b")
    case True
    with d Cons.prems show ?thesis by simp
  next
    case False
    with Cons.prems have "b \<in> set used" "c = d \<or> c \<in> set (remove1 b used)" by auto
    with Cons.IH [OF rec] d show ?thesis by blast
  qed
qed simp

lemma sorted_wrt_remove1: "sorted_wrt P xs \<Longrightarrow> sorted_wrt P (remove1 x xs)"
proof (induction xs)
  case (Cons y ys)
  then have "sorted_wrt P (remove1 x ys)" "\<forall>z \<in> set ys. P y z" by simp_all
  with Cons.prems set_remove1_subset [of x ys] show ?case by (simp add: subset_iff)
qed simp

lemma held_remove1: "held lo used h \<Longrightarrow> held lo (remove1 b used) h"
  unfolding held_def by (intro conjI ballI) (meson notin_set_remove1 sorted_wrt_remove1)+

lemma insert_remove1: "b \<in> set bs \<Longrightarrow> set bs = insert b (set (remove1 b bs))"
  by (induction bs) auto

lemma held_frame:
  assumes "held lo used h" "\<And>c. unat c \<in> extents used \<Longrightarrow> hdrs h' c = hdrs h c"
  shows "held lo used h'"
proof -
  have "size_of h' (fst b) = size_of h (fst b)" if "b \<in> set used" for b
  proof -
    have "unat (fst b) \<in> extent b" using assms(1) that by (auto simp: held_def word_less_nat_alt)
    with that have "unat (fst b) \<in> extents used" by (auto simp: extents_def)
    with assms(2) show ?thesis by simp
  qed
  with assms(1) show ?thesis by (auto simp: held_def)
qed

lemma ring_outside:
  assumes "ring base lo h fs" "extents used \<inter> cells h fs = {}" "held lo used h" "unat c \<in> extents used"
  shows "c \<notin> set fs" "lo \<le> unat c"
proof -
  show lo: "lo \<le> unat c" using assms(3,4) by (force simp: held_def extents_def)
  show "c \<notin> set fs" using ring_tl_cell(1) [OF assms(1) _ lo] assms(2,4) by blast
qed

lemma free_keeps:
  assumes ok: "heap_ok base lo used h" and b: "(bp, n) \<in> set used"
  shows "\<exists>h'. free (advance bp 1) h = Some h' \<and> heap_ok base lo (remove1 (bp, n) used) h' \<and> brk h' = brk h \<and>
    (\<forall>c. unat c \<in> extents (remove1 (bp, n) used) \<longrightarrow> hdrs h' c = hdrs h c)"
proof -
  let ?rest = "remove1 (bp, n) used"
  from ok b have "freep h \<noteq> 0" by (auto simp: heap_ok_def split: if_splits)
  with ok obtain fs where r: "ring base lo h fs" and base: "base \<noteq> 0" "lo \<le> unat (brk h)" and h: "held lo used h"
    and dis: "extents used \<inter> cells h fs = {}" and all: "extents used \<union> cells h fs = {lo ..< unat (brk h)}"
    unfolding heap_ok_def by (simp add: if_splits) blast
  from h b have sz: "size_of h bp = n" "0 < n" "lo \<le> unat bp" by (auto simp: held_def)
  then have cell: "cell h bp = extent (bp, n)" by (simp add: past_def)
  have used: "extents used = extent (bp, n) \<union> extents ?rest"
    using insert_remove1 [OF b] by (simp add: extents_def)
  have sep: "extent (bp, n) \<inter> extents ?rest = {}"
    using held_disjoint [OF h b] unfolding extents_def by blast
  have "past h bp - 1 \<in> extents used"
    using sz used by (auto simp: past_def word_less_nat_alt)
  with all have "past h bp - 1 \<in> {lo ..< unat (brk h)}" by blast
  then have top: "past h bp \<le> unat (brk h)" by auto
  have "0 < size_of h bp" "cell h bp \<inter> cells h fs = {}" using sz cell used dis by auto
  from free_spec [OF r sz(3) this(1) top this(2)] obtain h' fs' where
    f: "free (advance bp 1) h = Some h'" "ring base lo h' fs'" "cells h' fs' = cells h fs \<union> cell h bp" "brk h' = brk h"
    and fr: "\<And>a. a \<notin> insert bp (set fs) \<Longrightarrow> hdrs h' a = hdrs h a" by blast
  have frame: "hdrs h' c = hdrs h c" if c: "unat c \<in> extents ?rest" for c
  proof (rule fr)
    have "unat bp \<in> extent (bp, n)" using sz by (auto simp: word_less_nat_alt)
    then have "c \<noteq> bp" using sep c by blast
    moreover have "c \<notin> set fs" using ring_outside(1) [OF r dis h] c used by blast
    ultimately show "c \<notin> insert bp (set fs)" by simp
  qed
  have "held lo ?rest h'" using held_frame [OF held_remove1 [OF h]] frame by blast
  moreover have "freep h' \<noteq> 0"
    using f(2) base by (auto simp: ring_def) (metis hd_Cons_tl list.sel(3) not_less_zero set_ConsD unat_0 le_zero_eq)
  ultimately have "heap_ok base lo ?rest h'"
    using f base all used cell sep dis unfolding heap_ok_def by (auto intro!: exI [of _ fs'])
  with f frame show ?thesis by blast
qed


lemma ring_nonzero:
  assumes r: "ring base lo h fs" and b: "base \<noteq> 0"
  shows "freep h \<noteq> 0"
proof -
  have "fs = base # tl fs" using r by (metis list.collapse ring_def)
  then have "set fs = insert base (set (tl fs))" by (metis list.simps(15))
  moreover have "freep h \<in> set fs" "unat base < lo" and lo: "\<forall>a \<in> set (tl fs). lo \<le> unat a"
    using r unfolding ring_def by blast+
  ultimately consider "freep h = base" | "lo \<le> unat (freep h)" by blast
  then show ?thesis using b \<open>unat base < lo\<close> by cases auto
qed

lemma ring_frame:
  assumes r: "ring base lo h fs" and fr: "\<And>a. a \<in> set fs \<Longrightarrow> hdrs h' a = hdrs h a"
    and f: "freep h' = freep h" "unat (brk h) \<le> unat (brk h')" "unat (brk h') < 2 ^ 31"
  shows "ring base lo h' fs"
proof -
  have past: "past h' a = past h a" if "a \<in> set fs" for a using fr [OF that] by (simp add: past_def)
  have "base \<in> set fs" using r hd_in_set unfolding ring_def by metis
  moreover have "set (tl fs) \<subseteq> set fs" using r by (cases fs) auto
  moreover have "chain h' base fs base" using r chain_frame [of fs h' h] fr by (simp add: ring_def)
  moreover have "sorted_wrt (apart h') fs" using r apart_frame [of fs h' h] past by (simp add: ring_def)
  moreover have "\<forall>a \<in> set fs. past h' a \<le> unat (brk h')" using r past f(2) unfolding ring_def by fastforce
  ultimately show ?thesis using r fr f(1,3) unfolding ring_def by (simp add: subset_iff)
qed

lemma morecore_spec:
  assumes r: "ring base lo h fs" and u: "held lo used h" "extents used \<inter> cells h fs = {}"
      "extents used \<union> cells h fs = {lo ..< unat (brk h)}" and base: "base \<noteq> 0" "lo \<le> unat (brk h)"
    and g: "grows (brk h) (grow_units n * HDR)" "unat (brk h) + unat (grow_units n * HDR) < 2 ^ 31"
      "unat n < 2 ^ 28"
  shows "\<exists>h' fs'. morecore grows n h = Some (Some (freep h', h')) \<and> ring base lo h' fs' \<and> held lo used h'
    \<and> extents used \<inter> cells h' fs' = {} \<and> extents used \<union> cells h' fs' = {lo ..< unat (brk h')} \<and> lo \<le> unat (brk h')
    \<and> (\<exists>y \<in> set fs'. n \<le> size_of h' y) \<and> (\<forall>c. unat c \<in> extents used \<longrightarrow> hdrs h' c = hdrs h c)"
proof -
  define nu where "nu = grow_units n"
  define hp where "hp = brk h"
  have nu: "n \<le> nu" "0 < nu" "unat nu < 2 ^ 28"
    using g(3) by (auto simp: nu_def grow_units_def word_less_nat_alt word_le_nat_alt)
  then have bytes: "unat (nu * HDR) = 8 * unat nu"
    by (simp add: HDR_def unat_word_ariths)
  define h1 where "h1 = set_hdr hp (\<lambda>x. x\<lparr>h_size := nu\<rparr>) (h\<lparr>brk := brk h + nu * HDR\<rparr>)"
  have brk1: "unat (brk h1) = unat hp + 8 * unat nu" "unat (brk h1) < 2 ^ 31"
    using g(2) bytes by (simp_all add: h1_def hp_def nu_def [symmetric] unat_word_ariths)
  have top: "past h a \<le> unat hp" if "a \<in> set fs" for a
    using r that by (auto simp: ring_def hp_def)
  have hpn: "hp \<notin> set fs"
  proof
    assume hp: "hp \<in> set fs"
    with base(2) have "lo \<le> unat hp" by (simp add: hp_def)
    from ring_tl_cell(2) [OF r hp this] top [OF hp] show False
      by (simp add: past_def word_less_nat_alt)
  qed
  have fr1: "hdrs h1 a = hdrs h a" if "a \<noteq> hp" for a using that by (simp add: h1_def)
  have "hdrs h1 a = hdrs h a" if "a \<in> set fs" for a
    using that hpn by (intro fr1) auto
  then have c1: "cells h1 fs = cells h fs" by (intro cells_frame) simp
  have r1: "ring base lo h1 fs"
  proof (rule ring_frame [OF r])
    show "hdrs h1 a = hdrs h a" if "a \<in> set fs" for a using that hpn by (intro fr1) auto
    show "freep h1 = freep h" by (simp add: h1_def)
    show "unat (brk h) \<le> unat (brk h1)" "unat (brk h1) < 2 ^ 31" using brk1 by (simp_all add: hp_def)
  qed
  have u1: "unat c < unat hp" if "unat c \<in> extents used \<union> cells h fs" for c
    using that u(3) by (auto simp: hp_def)
  have szhp: "size_of h1 hp = nu" "past h1 hp = unat (brk h1)" using brk1 by (simp_all add: h1_def past_def)
  have dis: "cell h1 hp \<inter> cells h1 fs = {}" "extents used \<inter> cell h1 hp = {}"
  proof -
    have "(extents used \<union> cells h1 fs) \<inter> cell h1 hp = {}" unfolding c1 u(3) hp_def by auto
    then show "cell h1 hp \<inter> cells h1 fs = {}" "extents used \<inter> cell h1 hp = {}" by blast+
  qed
  have "morecore grows n h = (case free (advance hp 1) h1 of None \<Rightarrow> None | Some h \<Rightarrow> Some (Some (freep h, h)))"
    using g(1) by (simp add: morecore_def sbrk_def Let_def nu_def [symmetric] hp_def [symmetric] h1_def)
  have lohp: "lo \<le> unat hp" using base(2) by (simp add: hp_def)
  have "0 < size_of h1 hp" "past h1 hp \<le> unat (brk h1)" using szhp nu by simp_all
  from free_spec [OF r1 lohp this dis(1)] obtain h' fs' where
    f: "free (advance hp 1) h1 = Some h'" "ring base lo h' fs'" "cells h' fs' = cells h fs \<union> cell h1 hp" "brk h' = brk h1"
      "\<exists>y \<in> set fs'. size_of h1 hp \<le> size_of h' y"
    and fr: "\<And>a. a \<notin> insert hp (set fs) \<Longrightarrow> hdrs h' a = hdrs h1 a" using c1 by auto
  have frame: "hdrs h' c = hdrs h c" if c: "unat c \<in> extents used" for c
  proof -
    from u1 c have "c \<noteq> hp" by blast
    moreover have "c \<notin> set fs" using ring_outside(1) [OF r u(2,1) c] .
    ultimately show ?thesis using fr fr1 by simp
  qed
  have held: "held lo used h'" using held_frame [OF u(1)] frame by blast
  have "morecore grows n h = Some (Some (freep h', h'))"
    using \<open>morecore grows n h = _\<close> f(1) by simp
  moreover have "extents used \<inter> cells h' fs' = {}" using u(2) dis(2) f(3) by blast
  moreover have "extents used \<union> cells h' fs' = {lo ..< unat (brk h')}"
  proof -
    have "extents used \<union> cells h' fs' = {lo ..< unat hp} \<union> {unat hp ..< unat (brk h1)}"
      using u(3) f(3) szhp(2) by (auto simp: hp_def)
    also have "\<dots> = {lo ..< unat (brk h1)}" using lohp brk1(1) by (intro ivl_disj_un_two(3)) auto
    finally show ?thesis using f(4) by simp
  qed
  moreover have "lo \<le> unat (brk h')" using f(4) brk1 lohp by simp
  moreover have "\<exists>y \<in> set fs'. n \<le> size_of h' y" using f(5) szhp(1) nu(1) order_trans by metis
  ultimately show ?thesis using f(2) held frame by blast
qed

lemma take_keeps:
  assumes r: "ring base lo h fs" and u: "held lo used h" "extents used \<inter> cells h fs = {}"
      "extents used \<union> cells h fs = {lo ..< unat (brk h)}" and base: "base \<noteq> 0" "lo \<le> unat (brk h)"
    and x: "prev \<in> set fs" "next_of h prev = x" "n \<le> size_of h x" "0 < n"
  shows "\<exists>a h'. take_block n prev x h = (advance a 1, h') \<and> heap_ok base lo ((a, n) # used) h' \<and> lo \<le> unat a
    \<and> unat (advance a 1) = unat a + 8 \<and> (\<forall>c. unat c \<in> extents used \<longrightarrow> hdrs h' c = hdrs h c)"
proof -
  from take_spec [OF r x] obtain a h' fs' where
    t: "take_block n prev x h = (advance a 1, h')" "ring base lo h' fs'" "lo \<le> unat a" "size_of h' a = n"
      "cell h' a \<inter> cells h' fs' = {}" "cells h fs = cells h' fs' \<union> cell h' a" "brk h' = brk h"
    and fr: "\<And>c. unat c \<notin> cells h fs \<Longrightarrow> c \<notin> set fs \<Longrightarrow> hdrs h' c = hdrs h c" by blast
  have frame: "hdrs h' c = hdrs h c" if c: "unat c \<in> extents used" for c
    using fr ring_outside(1) [OF r u(2,1) c] u(2) c by blast
  have cell: "cell h' a = extent (a, n)" using t(4) by (simp add: past_def)
  have "unat a \<in> cells h fs" using t(4,6) in_own_cell [of h' a] x(4) by simp
  with u(3) have "unat a < unat (brk h)" by auto
  then have adv: "unat (advance a 1) = unat a + 8" using r unat_advance [of a 1] by (simp add: ring_def)
  have "held lo used h'" using held_frame [OF u(1)] frame by blast
  moreover have "extent (a, n) \<inter> extent c = {}" if "c \<in> set used" for c
  proof -
    have "extent c \<subseteq> extents used" using that unfolding extents_def by blast
    with u(2) t(6) cell show ?thesis by blast
  qed
  ultimately have "held lo ((a, n) # used) h'" using t(3,4) x(4) by (simp add: held_def)
  moreover have "extents ((a, n) # used) \<inter> cells h' fs' = {}"
    using u(2) t(5,6) cell unfolding extents_simps by blast
  moreover have "extents ((a, n) # used) \<union> cells h' fs' = {lo ..< unat (brk h')}"
    using u(3) t(6,7) cell unfolding extents_simps by auto
  ultimately have "heap_ok base lo ((a, n) # used) h'"
    using t(2,7) base ring_nonzero [OF t(2) base(1)] unfolding heap_ok_def by auto
  with t(1,3) frame adv show ?thesis by blast
qed


text \<open>
  The contract of \<open>sbrk\<close>: the kernel never lets a process grow to 2 GB (\<open>allocuvm\<close> refuses
  sizes from \<open>KERNBASE\<close> on).
\<close>

definition kernel_limit :: "(uint \<Rightarrow> uint \<Rightarrow> bool) \<Rightarrow> bool" where
  "kernel_limit grows \<longleftrightarrow> (\<forall>b n. grows b n \<longrightarrow> unat b + unat n < 2 ^ 31)"

lemma malloc_keeps:
  assumes ok: "heap_ok base lo used h" and g: "kernel_limit grows" and n: "unat nbytes < 2 ^ 30"
  shows "\<exists>r h'. malloc grows base nbytes h = Some (r, h') \<and>
    (if r = 0 then heap_ok base lo used h' \<and> \<not> grows (brk h) (grow_units (units_for nbytes) * HDR)
     else heap_ok base lo ((r - HDR, units_for nbytes) # used) h' \<and> lo + 8 \<le> unat r) \<and>
    (\<forall>c. unat c \<in> extents used \<longrightarrow> hdrs h' c = hdrs h c)"
proof -
  define nu where "nu = units_for nbytes"
  have nu: "0 < nu" "unat nu < 2 ^ 28"
  proof -
    have "unat ((nbytes + HDR - 1) div HDR) = (unat nbytes + 7) div 8"
      using n by (simp add: HDR_def unat_word_ariths unat_div_distrib)
    then have "unat nu = (unat nbytes + 7) div 8 + 1"
      using n by (simp add: nu_def units_for_def unat_word_ariths)
    with n show "0 < nu" "unat nu < 2 ^ 28" by (auto simp: word_less_nat_alt)
  qed
  define h0 where "h0 = first_use base h"
  have "\<exists>fs. ring base lo h0 fs \<and> lo \<le> unat (brk h0) \<and> held lo used h0 \<and>
      extents used \<inter> cells h0 fs = {} \<and> extents used \<union> cells h0 fs = {lo ..< unat (brk h0)}"
  proof (cases "freep h = 0")
    case True
    with ok have *: "used = []" "unat (brk h) = lo" "unat base < lo" "lo < 2 ^ 31" by (auto simp: heap_ok_def)
    with True have "ring base lo h0 [base]"
      by (auto simp: ring_def h0_def first_use_def past_def)
    with * True show ?thesis
      by (intro exI [of _ "[base]"]) (auto simp: held_def h0_def first_use_def past_def)
  next
    case False
    with ok show ?thesis by (simp add: heap_ok_def h0_def first_use_def)
  qed
  then obtain fs where r: "ring base lo h0 fs" and base: "lo \<le> unat (brk h0)" and
    u: "held lo used h0" "extents used \<inter> cells h0 fs = {}" "extents used \<union> cells h0 fs = {lo ..< unat (brk h0)}"
    by blast
  have b: "base \<noteq> 0" using ok by (simp add: heap_ok_def)
  have h0: "brk h0 = brk h" "\<And>c. unat c \<in> extents used \<Longrightarrow> hdrs h0 c = hdrs h c"
  proof -
    show "brk h0 = brk h" by (simp add: h0_def first_use_def)
    fix c :: uint assume "unat c \<in> extents used"
    then have "used \<noteq> []" by auto
    with ok have "freep h \<noteq> 0" by (auto simp: heap_ok_def)
    then show "hdrs h0 c = hdrs h c" by (simp add: h0_def first_use_def)
  qed
  have m: "malloc grows base nbytes h = malloc_loop grows nu (freep h0) (next_of h0 (freep h0)) h0"
    by (simp add: malloc_def Let_def nu_def h0_def)
  have served: "\<exists>r h'. malloc_loop grows nu (freep h1) (next_of h1 (freep h1)) h1 = Some (r, h') \<and> r \<noteq> 0 \<and>
      heap_ok base lo ((r - HDR, nu) # used) h' \<and> lo + 8 \<le> unat r \<and> (\<forall>c. unat c \<in> extents used \<longrightarrow> hdrs h' c = hdrs h1 c)"
    if r1: "ring base lo h1 fs1" and b1: "lo \<le> unat (brk h1)" and
      u1: "held lo used h1" "extents used \<inter> cells h1 fs1 = {}" "extents used \<union> cells h1 fs1 = {lo ..< unat (brk h1)}"
      and y: "y \<in> set fs1" "nu \<le> size_of h1 y" for h1 fs1 y
  proof -
    from search_spec [OF r1 y] obtain prev z where
      l: "malloc_loop grows nu (freep h1) (next_of h1 (freep h1)) h1 = Some (take_block nu prev z h1)"
      and p: "prev \<in> set fs1" "next_of h1 prev = z" "nu \<le> size_of h1 z" by blast
    from take_keeps [OF r1 u1 b b1 p nu(1)] obtain a h' where
      t: "take_block nu prev z h1 = (advance a 1, h')" "heap_ok base lo ((a, nu) # used) h'" "lo \<le> unat a"
        "unat (advance a 1) = unat a + 8" "\<forall>c. unat c \<in> extents used \<longrightarrow> hdrs h' c = hdrs h1 c" by blast
    from t(4) have "advance a 1 \<noteq> 0" "advance a 1 - HDR = a" by (auto simp: advance_def)
    with l t show ?thesis by (intro exI [of _ "advance a 1"] exI [of _ h']) auto
  qed
  show ?thesis
  proof (cases "\<exists>y \<in> set fs. nu \<le> size_of h0 y")
    case True
    with served [OF r base u] m h0 show ?thesis unfolding nu_def [symmetric] by (metis (no_types, lifting))
  next
    case False
    then have "\<forall>a \<in> set fs. size_of h0 a < nu" by (simp add: not_le)
    note fails = search_fails [OF r this, of grows]
    show ?thesis
    proof (cases "grows (brk h) (grow_units nu * HDR)")
      case True
      with g have "unat (brk h) + unat (grow_units nu * HDR) < 2 ^ 31" by (simp add: kernel_limit_def)
      with True h0(1) have G: "grows (brk h0) (grow_units nu * HDR)" "unat (brk h0) + unat (grow_units nu * HDR) < 2 ^ 31"
        by simp_all
      from morecore_spec [where grows = grows, OF r u b base G nu(2)] obtain h1 fs1 where
        mc: "morecore grows nu h0 = Some (Some (freep h1, h1))" and
        s: "ring base lo h1 fs1" "held lo used h1" "extents used \<inter> cells h1 fs1 = {}"
          "extents used \<union> cells h1 fs1 = {lo ..< unat (brk h1)}" "lo \<le> unat (brk h1)"
          "\<exists>y \<in> set fs1. nu \<le> size_of h1 y" and fr: "\<forall>c. unat c \<in> extents used \<longrightarrow> hdrs h1 c = hdrs h0 c"
        by blast
      from s(6) obtain y where "y \<in> set fs1" "nu \<le> size_of h1 y" by blast
      from served [OF s(1,5,2,3,4) this] fails mc m fr h0(2) show ?thesis
        unfolding nu_def [symmetric] by auto
    next
      case False
      then have "morecore grows nu h0 = Some None" by (simp add: morecore_def sbrk_def Let_def h0(1))
      with fails m have "malloc grows base nbytes h = Some (0, h0)" by simp
      moreover have "heap_ok base lo used h0"
        using r u base b ring_nonzero [OF r b] unfolding heap_ok_def by auto
      ultimately show ?thesis using False h0(2) unfolding nu_def [symmetric] by auto
    qed
  qed
qed


section \<open>Properties\<close>

text \<open>
  C21. \<open>malloc\<close> and \<open>free\<close> always return. For requests below 1 GB \<open>malloc\<close> gives a block of
  enough units that overlaps no block the program holds, or the null pointer, and then only
  when the kernel refuses to grow the process; \<open>free\<close> takes back any block the program holds.
  Both leave the blocks held untouched and keep the heap in order: the ring covers exactly the
  memory that is not handed out, so nothing is lost and nothing is handed out twice.
\<close>

theorem malloc_and_free_are_safe:
  assumes "heap_ok base lo used h" "kernel_limit grows"
  shows "(\<forall>nbytes. unat nbytes < 2 ^ 30 \<longrightarrow>
      (\<exists>r h'. malloc grows base nbytes h = Some (r, h') \<and>
        (if r = 0 then heap_ok base lo used h' \<and> \<not> grows (brk h) (grow_units (units_for nbytes) * HDR)
         else heap_ok base lo ((r - HDR, units_for nbytes) # used) h' \<and> lo + 8 \<le> unat r) \<and>
        (\<forall>c. unat c \<in> extents used \<longrightarrow> hdrs h' c = hdrs h c))) \<and>
    (\<forall>bp n. (bp, n) \<in> set used \<longrightarrow>
      (\<exists>h'. free (advance bp 1) h = Some h' \<and> heap_ok base lo (remove1 (bp, n) used) h' \<and> brk h' = brk h \<and>
        (\<forall>c. unat c \<in> extents (remove1 (bp, n) used) \<longrightarrow> hdrs h' c = hdrs h c)))"
  using malloc_keeps [OF assms] free_keeps [OF assms(1)] by blast

definition fresh_arena :: arena where
  "fresh_arena = \<lparr>hdrs = \<lambda>_. \<lparr>h_ptr = 0, h_size = 0\<rparr>, freep = 0, brk = 0x3000\<rparr>"

definition under_limit :: "uint \<Rightarrow> uint \<Rightarrow> bool" where
  "under_limit b n \<longleftrightarrow> unat b + unat n < 2 ^ 31"

theorem malloc_and_free_are_safe_witness:
  "\<exists>r h h'. malloc under_limit 0x2000 100 fresh_arena = Some (r, h) \<and> r \<noteq> 0 \<and>
     free r h = Some h' \<and> heap_ok 0x2000 0x3000 [] h'"
proof -
  have lim: "kernel_limit under_limit" by (simp add: kernel_limit_def under_limit_def)
  have "heap_ok 0x2000 0x3000 [] fresh_arena" by (simp add: heap_ok_def fresh_arena_def)
  from malloc_and_free_are_safe [OF this lim, THEN conjunct1, rule_format, of 100]
  obtain r h where m: "malloc under_limit 0x2000 100 fresh_arena = Some (r, h)"
    and "if r = 0 then \<not> under_limit (brk fresh_arena) (grow_units (units_for 100) * HDR)
         else heap_ok 0x2000 0x3000 [(r - HDR, units_for 100)] h" by (auto split: if_splits)
  moreover have "under_limit (brk fresh_arena) (grow_units (units_for 100) * HDR)"
    by (simp add: under_limit_def fresh_arena_def grow_units_def units_for_def HDR_def)
  ultimately have r: "r \<noteq> 0" "heap_ok 0x2000 0x3000 [(r - HDR, units_for 100)] h"
    by (auto split: if_splits)
  from malloc_and_free_are_safe [OF r(2) lim, THEN conjunct2, rule_format, of "r - HDR" "units_for 100"]
  obtain h' where "free (advance (r - HDR) 1) h = Some h'" "heap_ok 0x2000 0x3000 [] h'" by auto
  with m r(1) show ?thesis by (auto simp: advance_def)
qed

text \<open>
  The arithmetic of \<open>malloc\<close> is not guarded. For the largest request the rounding wraps and
  the block has one unit, the header; for a request of 4 GB less 16 bytes the number of
  bytes asked from the kernel wraps to minus 8, so \<open>sbrk\<close> shrinks the process.
\<close>

lemma malloc_units_wrap: "units_for 0xFFFFFFFF = 1"
  by (simp add: units_for_def HDR_def)

lemma malloc_bytes_wrap: "sint (grow_units (units_for 0xFFFFFFF0) * HDR) = - 8"
  by (simp add: units_for_def grow_units_def HDR_def)

end
