(* ===== verification/Printf.thy ===== *)
theory Printf
  imports Cstring
begin

text \<open>
  Formatted output: \<open>printf\<close> of the user library (\<open>printf.c\<close>) and \<open>cprintf\<close> of the
  kernel (\<open>console.c\<close>). Both are seen as functions from the format, a C string, and the
  words of the argument list to the bytes they put out; strings in memory are looked up by
  the parameter \<open>str\<close>, which gives the bytes before the terminating zero. Reading an argument
  that was not passed has no defined result. What becomes of the bytes, and the lock of the
  console, are modelled elsewhere.
\<close>

section \<open>Numbers\<close>

definition user_digits :: "byte list" where
  "user_digits = msg ''0123456789ABCDEF''"

definition kernel_digits :: "byte list" where
  "kernel_digits = msg ''0123456789abcdef''"

function put_digits :: "byte list \<Rightarrow> uint \<Rightarrow> uint \<Rightarrow> byte list \<Rightarrow> byte list res" where
  "put_digits digits base x buf =
     (if length buf \<ge> 16 then Inl BadAccess
      else
        let buf = buf @ [digits ! unat (x mod base)]
        in if x div base \<noteq> 0 then put_digits digits base (x div base) buf else Inr buf)"
  by pat_completeness auto
termination by (relation "measure (\<lambda>(digits, base, x, buf). 16 - length buf)") auto

declare put_digits.simps [simp del]

definition printint :: "byte list \<Rightarrow> uint \<Rightarrow> uint \<Rightarrow> bool \<Rightarrow> byte list res" where
  "printint digits xx base sign =
     (let neg = sign \<and> sint xx < 0; x = (if neg then - xx else xx)
      in bindE (put_digits digits base x []) (\<lambda>buf.
           if neg then if length buf \<ge> 16 then Inl BadAccess else Inr (rev (buf @ [45]))
           else Inr (rev buf)))"

section \<open>Formats\<close>

definition null_string :: "byte list" where
  "null_string = msg ''(null)''"

fun next_arg :: "uint list \<Rightarrow> (uint \<Rightarrow> byte list res) \<Rightarrow> (uint list \<Rightarrow> byte list res) \<Rightarrow> byte list res" where
  "next_arg [] out rest = Inl BadAccess"
| "next_arg (a # ap) out rest = bindE (out a) (\<lambda>o1. mapE (append o1) (rest ap))"

definition put_string :: "(uint \<Rightarrow> byte list) \<Rightarrow> uint \<Rightarrow> byte list res" where
  "put_string str a = Inr (if a = 0 then null_string else str a)"

lemma next_arg_cong [fundef_cong]:
  "ap = ap' \<Longrightarrow> out = out' \<Longrightarrow> (\<And>as. rest as = rest' as) \<Longrightarrow> next_arg ap out rest = next_arg ap' out' rest'"
  by (cases ap') (auto simp: fun_eq_iff)

fun printf_loop :: "(uint \<Rightarrow> byte list) \<Rightarrow> byte list \<Rightarrow> bool \<Rightarrow> uint list \<Rightarrow> byte list res" where
  "printf_loop str [] state ap = Inl BadAccess"
| "printf_loop str (c # fmt) state ap =
     (if c = 0 then Inr []
      else if \<not> state then
        if c = 37 then printf_loop str fmt True ap
        else mapE (Cons c) (printf_loop str fmt False ap)
      else if c = 100 then next_arg ap (\<lambda>a. printint user_digits a 10 True) (printf_loop str fmt False)
      else if c = 120 \<or> c = 112 then next_arg ap (\<lambda>a. printint user_digits a 16 False) (printf_loop str fmt False)
      else if c = 115 then next_arg ap (put_string str) (printf_loop str fmt False)
      else if c = 99 then next_arg ap (\<lambda>a. Inr [ucast a]) (printf_loop str fmt False)
      else if c = 37 then mapE (Cons c) (printf_loop str fmt False ap)
      else mapE (append [37, c]) (printf_loop str fmt False ap))"

definition printf :: "(uint \<Rightarrow> byte list) \<Rightarrow> byte list \<Rightarrow> uint list \<Rightarrow> byte list res" where
  "printf str fmt ap = printf_loop str fmt False ap"

fun cprintf_loop :: "(uint \<Rightarrow> byte list) \<Rightarrow> byte list \<Rightarrow> uint list \<Rightarrow> byte list res" where
  "cprintf_loop str [] ap = Inl BadAccess"
| "cprintf_loop str [c] ap =
     (if c = 0 then Inr [] else if c \<noteq> 37 then mapE (Cons c) (Inl BadAccess) else Inl BadAccess)"
| "cprintf_loop str (c # d # fmt) ap =
     (if c = 0 then Inr []
      else if c \<noteq> 37 then mapE (Cons c) (cprintf_loop str (d # fmt) ap)
      else if d = 0 then Inr []
      else if d = 100 then next_arg ap (\<lambda>a. printint kernel_digits a 10 True) (cprintf_loop str fmt)
      else if d = 120 \<or> d = 112 then next_arg ap (\<lambda>a. printint kernel_digits a 16 False) (cprintf_loop str fmt)
      else if d = 115 then next_arg ap (put_string str) (cprintf_loop str fmt)
      else if d = 37 then mapE (Cons 37) (cprintf_loop str fmt ap)
      else mapE (append [37, d]) (cprintf_loop str fmt ap))"

definition cprintf :: "(uint \<Rightarrow> byte list) \<Rightarrow> byte list option \<Rightarrow> uint list \<Rightarrow> byte list res" where
  "cprintf str fmt ap =
     (case fmt of None \<Rightarrow> Inl (Panic ''null fmt'') | Some f \<Rightarrow> cprintf_loop str f ap)"

section \<open>The digits of a number\<close>

fun digits_of :: "nat \<Rightarrow> nat \<Rightarrow> nat list" where
  "digits_of b n = (if b < 2 \<or> n < b then [n] else n mod b # digits_of b (n div b))"

declare digits_of.simps [simp del]

lemma digits_of_less: "2 \<le> b \<Longrightarrow> d \<in> set (digits_of b n) \<Longrightarrow> d < b"
proof (induction b n rule: digits_of.induct)
  case (1 b n)
  then show ?case by (subst (asm) (2) digits_of.simps) (auto split: if_splits)
qed

lemma digits_of_length: "2 \<le> b \<Longrightarrow> n < b ^ Suc k \<Longrightarrow> length (digits_of b n) \<le> Suc k"
proof (induction k arbitrary: n)
  case 0
  then show ?case by (simp add: digits_of.simps)
next
  case (Suc k)
  then have "n div b < b ^ Suc k" by (simp add: div_less_iff_less_mult mult.commute)
  with Suc show ?case by (subst digits_of.simps) auto
qed

lemma digits_of_last: "2 \<le> b \<Longrightarrow> 0 < n \<Longrightarrow> 0 < last (digits_of b n)"
proof (induction b n rule: digits_of.induct)
  case (1 b n)
  then have "digits_of b (n div b) \<noteq> []" by (subst digits_of.simps) simp
  with 1 show ?case by (subst digits_of.simps) (auto simp: div_greater_zero_iff)
qed

lemma put_digits_spec:
  assumes "2 \<le> unat base" "length buf + length (digits_of (unat base) (unat x)) \<le> 16"
  shows "put_digits digits base x buf = Inr (buf @ map (nth digits) (digits_of (unat base) (unat x)))"
  using assms
proof (induction digits base x buf rule: put_digits.induct)
  case (1 digits base x buf)
  have z: "x div base = 0 \<longleftrightarrow> unat x < unat base"
    using 1(2) by (simp add: unat_eq_0 [symmetric] unat_div_distrib div_eq_0_iff)
  have len: "0 < length (digits_of (unat base) (unat x))" by (subst digits_of.simps) simp
  show ?case
  proof (cases "unat x < unat base")
    case True
    moreover have "length buf < 16" using 1(3) len by linarith
    ultimately show ?thesis using z
      by (subst put_digits.simps, subst digits_of.simps) (auto simp: unat_mod_distrib)
  next
    case False
    then have d: "digits_of (unat base) (unat x) = unat x mod unat base # digits_of (unat base) (unat (x div base))"
      using 1(2) by (subst digits_of.simps) (simp add: unat_div_distrib)
    moreover have "length buf < 16" using 1(3) len by linarith
    ultimately show ?thesis using 1 z False
      by (subst put_digits.simps) (simp add: unat_mod_distrib Let_def)
  qed
qed


lemma nth_user_digits: "d < 10 \<Longrightarrow> user_digits ! d = of_nat (48 + d)"
proof -
  assume "d < 10"
  then have "d \<in> set [0..<10]" by simp
  then show ?thesis by (auto simp: user_digits_def msg_def upt_rec)
qed

lemma dec_value_snoc: "dec_value n (cs @ [c]) = 10 * dec_value n cs + (unat c - 48)"
  by (induction cs arbitrary: n) auto

lemma unat_digit: "d < 10 \<Longrightarrow> unat (of_nat (48 + d) :: byte) = 48 + d"
  by (simp add: unat_of_nat del: of_nat_add)

lemma unat_abs_sint: "unat (if sint x < 0 then - x else x) = nat \<bar>sint (x :: uint)\<bar>"
proof -
  have "(if sint x < 0 then - x else x) = word_of_int \<bar>sint x\<bar>" by simp
  moreover have "\<bar>sint x\<bar> < 2 ^ 32" using sint_ge [of x] sint_lt [of x] by simp
  ultimately show ?thesis by (simp add: unat_eq_nat_uint uint_word_of_int)
qed

lemma dec_value_digits: "dec_value 0 (rev (map (\<lambda>d. of_nat (48 + d)) (digits_of 10 n))) = n"
proof (induction "10::nat" n rule: digits_of.induct)
  case (1 n)
  note u = unat_digit
  show ?case
  proof (cases "n < 10")
    case True
    with u [OF True] show ?thesis by (subst digits_of.simps) simp
  next
    case False
    with 1 u [of "n mod 10"] show ?thesis
      by (subst digits_of.simps) (simp add: dec_value_snoc)
  qed
qed

lemma printint_decimal:
  fixes xx :: uint
  defines "ds \<equiv> rev (map (\<lambda>d. of_nat (48 + d)) (digits_of 10 (nat \<bar>sint xx\<bar>)))"
  shows "printint user_digits xx 10 True = Inr ((if sint xx < 0 then [45] else []) @ ds)"
    and "dec_value 0 ds = nat \<bar>sint xx\<bar>" "list_all is_digit ds" "ds = [48] \<or> 48 < hd ds"
proof -
  define x where "x = (if sint xx < 0 then - xx else xx)"
  have ux: "unat x = nat \<bar>sint xx\<bar>" unfolding x_def by (rule unat_abs_sint)
  have b: "nat \<bar>sint xx\<bar> < 10 ^ Suc 9" using ux unsigned_less [of x, where ?'a = nat] by simp
  note len = digits_of_length [of 10, OF _ b, simplified]
  have dig: "map (nth user_digits) (digits_of 10 m) = map (\<lambda>d. of_nat (48 + d)) (digits_of 10 m)" for m
    using digits_of_less [of 10 _ m] nth_user_digits by auto
  from len have "put_digits user_digits 10 x [] = Inr (rev ds)"
    using put_digits_spec [of 10 "[]" x user_digits] by (simp add: ux dig ds_def)
  with len show "printint user_digits xx 10 True = Inr ((if sint xx < 0 then [45] else []) @ ds)"
    by (auto simp: printint_def x_def Let_def ds_def)
  show "dec_value 0 ds = nat \<bar>sint xx\<bar>" unfolding ds_def by (rule dec_value_digits)
  show "list_all is_digit ds"
  proof -
    have "is_digit (of_nat (48 + d))" if "d < 10" for d
      using that unat_digit [OF that] by (simp add: is_digit_def word_le_nat_alt del: of_nat_add)
    with digits_of_less [of 10] show ?thesis by (auto simp: ds_def list_all_iff simp del: of_nat_add)
  qed
  have "digits_of 10 m \<noteq> []" for m by (subst digits_of.simps) simp
  then have hd: "hd ds = of_nat (48 + last (digits_of 10 (nat \<bar>sint xx\<bar>)))"
    by (simp add: ds_def hd_rev last_map)
  show "ds = [48] \<or> 48 < hd ds"
  proof (cases "nat \<bar>sint xx\<bar> = 0")
    case True
    then show ?thesis by (simp add: ds_def digits_of.simps)
  next
    case False
    let ?l = "last (digits_of 10 (nat \<bar>sint xx\<bar>))"
    have "0 < ?l" using False by (intro digits_of_last) auto
    moreover have "?l \<in> set (digits_of 10 (nat \<bar>sint xx\<bar>))"
      using \<open>\<And>m. digits_of 10 m \<noteq> []\<close> by (intro last_in_set)
    then have "?l < 10" by (intro digits_of_less [of 10]) simp_all
    ultimately show ?thesis using unat_digit [of ?l] by (simp add: hd word_less_nat_alt del: of_nat_add)
  qed
qed

lemma atoi_reads_digits:
  assumes "list_all is_digit ds"
  shows "atoi (ds @ 0 # rest) = Inr (word_of_nat (dec_value 0 ds))"
  using assms atoi_spec [of ds 0 rest] by (simp add: list_all_iff is_digit_def)

section \<open>Properties\<close>

text \<open>
  C38. Numbers survive printing and reading: \<open>%d\<close> puts out a minus sign for a negative
  number and then the digits of its absolute value without leading zeros, also for the
  smallest \<open>int\<close>, within the buffer of 16 bytes; \<open>atoi\<close> turns the digits back into the number.
\<close>

theorem printed_numbers_read_back:
  "\<exists>ds. printint user_digits xx 10 True = Inr ((if sint xx < 0 then [45] else []) @ ds) \<and>
     list_all is_digit ds \<and> (ds = [48] \<or> 48 < hd ds) \<and>
     atoi (ds @ 0 # rest) = Inr (if sint xx < 0 then - xx else xx)"
proof -
  define ds where "ds = rev (map (\<lambda>d. of_nat (48 + d) :: byte) (digits_of 10 (nat \<bar>sint xx\<bar>)))"
  note p = printint_decimal [of xx, folded ds_def]
  have "atoi (ds @ 0 # rest) = Inr (word_of_nat (nat \<bar>sint xx\<bar>))"
    using atoi_reads_digits [OF p(3)] p(2) by simp
  also have "word_of_nat (nat \<bar>sint xx\<bar>) = (if sint xx < 0 then - xx else xx)"
    unfolding unat_abs_sint [symmetric] by simp
  finally show ?thesis using p(1,3,4) by blast
qed

section \<open>The two formatters agree\<close>

text \<open>
  The kernel and the user library have separate code. They put out the same bytes unless the
  format holds a directive that one of them does not know, \<open>%c\<close>, or the hexadecimal
  directives, where the letters differ.
\<close>

fun common_format :: "byte list \<Rightarrow> bool" where
  "common_format [] = True"
| "common_format [c] = (c \<noteq> 37)"
| "common_format (c # d # fmt) =
     (if c = 37 then d \<notin> {120, 112, 99} \<and> common_format fmt else common_format (d # fmt))"

lemma printint_same_decimal: "printint kernel_digits a 10 True = printint user_digits a 10 True"
proof -
  have "nth kernel_digits d = nth user_digits d" if "d < 10" for d
  proof -
    from that have "d \<in> set [0..<10]" by simp
    then show ?thesis by (auto simp: user_digits_def kernel_digits_def msg_def upt_rec)
  qed
  then have "put_digits kernel_digits 10 x buf = put_digits user_digits 10 x buf" for x buf
  proof (induction kernel_digits "10::uint" x buf rule: put_digits.induct)
    case (1 x buf)
    have "unat (x mod 10) < 10" by (simp add: unat_mod_distrib)
    with 1 show ?case by (subst (1 2) put_digits.simps) (simp add: Let_def)
  qed
  then show ?thesis by (simp add: printint_def)
qed

lemma next_arg_same:
  "(\<And>a. out a = out' a) \<Longrightarrow> (\<And>as. rest as = rest' as) \<Longrightarrow> next_arg ap out rest = next_arg ap out' rest'"
  by (cases ap) auto

lemma printf_loop_same: "common_format fmt \<Longrightarrow> printf_loop str fmt False ap = cprintf_loop str fmt ap"
proof (induction fmt arbitrary: ap rule: common_format.induct)
  case (3 c d fmt)
  show ?case
  proof (cases "c = 37")
    case True
    with 3 have "d \<notin> {120, 112, 99}" "\<And>ap. printf_loop str fmt False ap = cprintf_loop str fmt ap" by auto
    with True printint_same_decimal show ?thesis by (auto intro!: next_arg_same)
  qed (use 3 in auto)
qed auto


lemma printf_as_cprintf:
  "common_format fmt \<Longrightarrow> printf str fmt ap = cprintf str (Some fmt) ap"
  by (simp add: printf_def cprintf_def printf_loop_same)

text \<open>They differ on \<open>%c\<close>: the library prints the character, the kernel the directive.\<close>

lemma cprintf_has_no_char:
  "printf str (msg ''%c'' @ [0]) [65] = Inr (msg ''A'')"
  "cprintf str (Some (msg ''%c'' @ [0])) [65] = Inr (msg ''%c'')"
  by (simp_all add: printf_def cprintf_def msg_def)

end
