(* ===== verification/Console.thy ===== *)
theory Console
  imports Pipe
begin

text \<open>
  The console (\<open>console.c\<close>) and the keyboard (\<open>kbd.c\<close>): the screen memory, the input
  ring in which a line is edited until it is committed, the interrupt handler that edits and
  the read routine that waits for a committed line. The contract is a line discipline on two
  lists, the bytes committed and the line being edited; the ring with its three wrapping
  indices refines it.
\<close>

section \<open>The screen\<close>

definition BACKSPACE :: uint where "BACKSPACE = 0x100"

text \<open>
  The text screen is a memory of 16-bit cells; the cursor position lives in two registers
  of the video controller, here one number.
\<close>

record screen =
  crt :: "16 word list"
  cursor :: nat

definition CRTSIZE :: nat where "CRTSIZE = 16384"

definition put_cell :: "nat \<Rightarrow> 16 word \<Rightarrow> screen \<Rightarrow> screen res" where
  "put_cell i w s = (if i < length (crt s) then Inr (s\<lparr>crt := (crt s)[i := w]\<rparr>) else Inl BadAccess)"

definition scroll :: "nat \<Rightarrow> 16 word list \<Rightarrow> 16 word list" where
  "scroll pos cells =
     (let cells = take (23 * 80) (drop 80 cells) @ drop (23 * 80) cells
      in take pos cells @ replicate (24 * 80 - pos) 0 @ drop (24 * 80) cells)"

definition place_cursor :: "nat \<Rightarrow> screen \<Rightarrow> screen res" where
  "place_cursor pos s =
     (if pos > 25 * 80 then Inl (Panic ''pos under/overflow'')
      else
        let (pos, s) =
          (if pos div 80 \<ge> 24 then (pos - 80, s\<lparr>crt := scroll (pos - 80) (crt s)\<rparr>) else (pos, s))
        in put_cell pos 0x0720 (s\<lparr>cursor := pos\<rparr>))"

definition cgaputc :: "uint \<Rightarrow> screen \<Rightarrow> screen res" where
  "cgaputc c s =
     (let pos = cursor s in
      if c = 10 then place_cursor (pos + (80 - pos mod 80)) s
      else if c = BACKSPACE then place_cursor (if pos > 0 then pos - 1 else pos) s
      else bindE (put_cell pos (ucast (c AND 0xff) OR 0x0700) s) (place_cursor (pos + 1)))"

section \<open>The console\<close>

definition INPUT_BUF :: nat where "INPUT_BUF = 128"

record input =
  i_buf :: "byte list"
  i_r :: uint
  i_w :: uint
  i_e :: uint

record console =
  inp :: input
  scr :: screen
  uart :: "byte list"   \<comment> \<open>the bytes given to \<open>uartputc\<close>\<close>
  panicked :: bool

text \<open>After a panic on another processor \<open>consputc\<close> loops for ever.\<close>

definition consputc :: "uint \<Rightarrow> console \<Rightarrow> console res" where
  "consputc c k =
     (if panicked k then Inl Stuck
      else
        let k = k\<lparr>uart := uart k @ (if c = BACKSPACE then [8, 32, 8] else [ucast c])\<rparr>
        in mapE (\<lambda>s. k\<lparr>scr := s\<rparr>) (cgaputc c (scr k)))"

lemma consputc_frame: "consputc c k = Inr k' \<Longrightarrow> inp k' = inp k \<and> panicked k' = panicked k"
  by (auto simp: consputc_def Let_def split: if_splits)

definition ctrl :: "char \<Rightarrow> uint" where
  "ctrl ch = of_nat (of_char ch) - 64"

definition set_inp :: "(input \<Rightarrow> input) \<Rightarrow> console \<Rightarrow> console" where
  "set_inp f k = k\<lparr>inp := f (inp k)\<rparr>"

definition at :: "input \<Rightarrow> uint \<Rightarrow> byte" where
  "at i x = i_buf i ! (unat x mod INPUT_BUF)"

lemma edit_shrinks: "e \<noteq> w \<Longrightarrow> unat (e - 1 - w) < unat (e - w :: uint)"
proof -
  assume "e \<noteq> w"
  then have ne: "e - w \<noteq> 0" by simp
  then have "unat (e - w - 1) = unat (e - w) - 1" by (rule unat_minus_one)
  moreover have "0 < unat (e - w)" using ne by (simp add: unat_gt_0)
  moreover have "e - 1 - w = e - w - 1" by simp
  ultimately show ?thesis by (metis diff_less zero_less_one)
qed

function kill_line :: "console \<Rightarrow> console res" where
  "kill_line k =
     (if i_e (inp k) \<noteq> i_w (inp k) \<and> at (inp k) (i_e (inp k) - 1) \<noteq> 10
      then bindE (consputc BACKSPACE (set_inp (\<lambda>i. i\<lparr>i_e := i_e i - 1\<rparr>) k)) kill_line
      else Inr k)"
  by pat_completeness auto
termination
proof (relation "measure (\<lambda>k. unat (i_e (inp k) - i_w (inp k)))", goal_cases)
  case (2 k k')
  then have "inp k' = (inp k)\<lparr>i_e := i_e (inp k) - 1\<rparr>"
    by (auto simp: set_inp_def dest!: consputc_frame)
  then show ?case using 2 edit_shrinks by simp
qed simp

declare kill_line.simps [simp del]

text \<open>One character of \<open>consoleintr\<close>; the last component is \<open>doprocdump\<close>.\<close>

definition intr_char :: "uint \<Rightarrow> console \<times> ptable \<times> bool \<Rightarrow> (console \<times> ptable \<times> bool) res" where
  "intr_char c = (\<lambda>(k, pt, dump).
     if c = ctrl (CHR ''P'') then Inr (k, pt, True)
     else if c = ctrl (CHR ''U'') then mapE (\<lambda>k. (k, pt, dump)) (kill_line k)
     else if c = ctrl (CHR ''H'') \<or> c = 0x7f then
       if i_e (inp k) \<noteq> i_w (inp k) then
         mapE (\<lambda>k. (k, pt, dump)) (consputc BACKSPACE (set_inp (\<lambda>i. i\<lparr>i_e := i_e i - 1\<rparr>) k))
       else Inr (k, pt, dump)
     else if c \<noteq> 0 \<and> unat (i_e (inp k) - i_r (inp k)) < INPUT_BUF then
       let c = (if c = 13 then 10 else c);
           k = set_inp (\<lambda>i. i\<lparr>i_buf := (i_buf i)[unat (i_e i) mod INPUT_BUF := ucast c], i_e := i_e i + 1\<rparr>) k
       in mapE (\<lambda>k.
            if c = 10 \<or> c = ctrl (CHR ''D'') \<or> i_e (inp k) = i_r (inp k) + of_nat INPUT_BUF
            then (set_inp (\<lambda>i. i\<lparr>i_w := i_e i\<rparr>) k, wakeup ConsoleChan pt, dump)
            else (k, pt, dump)) (consputc c k)
     else Inr (k, pt, dump))"

text \<open>\<open>getc\<close> delivers the codes of the list and then a negative number.\<close>

fun consoleintr_loop :: "uint list \<Rightarrow> console \<times> ptable \<times> bool \<Rightarrow> (console \<times> ptable \<times> bool) res" where
  "consoleintr_loop [] s = Inr s"
| "consoleintr_loop (c # cs) s = bindE (intr_char c s) (consoleintr_loop cs)"

definition consoleintr :: "uint list \<Rightarrow> console \<times> ptable \<Rightarrow> (console \<times> ptable \<times> bool) res" where
  "consoleintr cs = (\<lambda>(k, pt). consoleintr_loop cs (k, pt, False))"

text \<open>
  A round of \<open>consoleread\<close> runs from where the lock is taken to the next \<open>sleep\<close> or the
  return: \<open>n\<close> bytes are still to be read, \<open>got\<close> are read already.
\<close>

datatype cons_end = ConsRead "byte list" | ConsKilled | ConsSleep nat "byte list"

fun consoleread_round ::
  "nat \<Rightarrow> nat \<Rightarrow> nat \<Rightarrow> byte list \<Rightarrow> input \<times> ptable \<Rightarrow> cons_end \<times> input \<times> ptable" where
  "consoleread_round me target 0 got (i, pt) = (ConsRead got, i, pt)"
| "consoleread_round me target (Suc n) got (i, pt) =
     (if i_r i = i_w i then
        if p_killed (proc_at pt me) then (ConsKilled, i, pt)
        else (ConsSleep (Suc n) got, i, sleep_begin me ConsoleChan pt)
      else
        let c = at i (i_r i); i = i\<lparr>i_r := i_r i + 1\<rparr>
        in if ucast c = ctrl (CHR ''D'') then
             (ConsRead got, if Suc n < target then i\<lparr>i_r := i_r i - 1\<rparr> else i, pt)
           else if c = 10 then (ConsRead (got @ [c]), i, pt)
           else consoleread_round me target n (got @ [c]) (i, pt))"

fun consolewrite :: "byte list \<Rightarrow> console \<Rightarrow> console res" where
  "consolewrite [] k = Inr k"
| "consolewrite (c # cs) k = bindE (consputc (ucast c) k) (consolewrite cs)"


section \<open>The screen never panics\<close>

definition screen_ok :: "screen \<Rightarrow> bool" where
  "screen_ok s \<longleftrightarrow> length (crt s) = CRTSIZE \<and> cursor s < 24 * 80"

lemma length_scroll: "pos \<le> 24 * 80 \<Longrightarrow> length cells = CRTSIZE \<Longrightarrow> length (scroll pos cells) = CRTSIZE"
  by (simp add: scroll_def Let_def CRTSIZE_def)

lemma cgaputc_ok: "screen_ok s \<Longrightarrow> \<exists>s'. cgaputc c s = Inr s' \<and> screen_ok s'"
proof -
  assume ok: "screen_ok s"
  then have len: "length (crt s) = CRTSIZE" and cur: "cursor s < 1920" by (simp_all add: screen_ok_def)
  have fin: "\<exists>s'. place_cursor pos t = Inr s' \<and> screen_ok s'"
    if "pos \<le> 1920" "length (crt t) = CRTSIZE" for pos and t :: screen
  proof (cases "pos div 80 \<ge> 24")
    case True
    then have "pos = 1920" using that(1) by simp
    then show ?thesis using that length_scroll [of 1840 "crt t"]
      by (simp add: place_cursor_def put_cell_def screen_ok_def CRTSIZE_def)
  next
    case False
    then have "pos < 1920" by simp
    with False that show ?thesis by (simp add: place_cursor_def put_cell_def screen_ok_def CRTSIZE_def)
  qed
  have nl: "cursor s + (80 - cursor s mod 80) \<le> 1920"
  proof -
    have "cursor s = 80 * (cursor s div 80) + cursor s mod 80" by simp
    moreover have "cursor s div 80 \<le> 23" using cur by simp
    moreover have "cursor s mod 80 < 80" by simp
    ultimately show ?thesis by linarith
  qed
  consider "c = 10" | "c \<noteq> 10" "c = BACKSPACE" | "c \<noteq> 10" "c \<noteq> BACKSPACE" by blast
  then show ?thesis
  proof cases
    case 1
    with fin [OF nl len] show ?thesis unfolding cgaputc_def Let_def by simp
  next
    case 2
    with fin [of "cursor s - 1" s] fin [of 0 s] cur len
    show ?thesis unfolding cgaputc_def Let_def by (cases "cursor s = 0") (simp_all add: BACKSPACE_def)
  next
    case 3
    with fin [of "cursor s + 1" "s\<lparr>crt := (crt s)[cursor s := ucast (c AND 0xff) OR 0x0700]\<rparr>"] cur len
    show ?thesis unfolding cgaputc_def Let_def by (simp add: put_cell_def CRTSIZE_def)
  qed
qed

definition console_ok :: "console \<Rightarrow> bool" where
  "console_ok k \<longleftrightarrow> screen_ok (scr k) \<and> \<not> panicked k"

lemma consputc_ok:
  assumes "console_ok k"
  obtains k' where "consputc c k = Inr k'" "console_ok k'" "inp k' = inp k"
proof -
  from assms cgaputc_ok [of "scr k" c] obtain s' where s: "cgaputc c (scr k) = Inr s'" "screen_ok s'"
    by (auto simp: console_ok_def)
  from s assms that [of "k\<lparr>uart := uart k @ (if c = BACKSPACE then [8, 32, 8] else [ucast c]), scr := s'\<rparr>"]
  show ?thesis by (simp add: consputc_def console_ok_def Let_def)
qed

section \<open>The line discipline\<close>

text \<open>What has been typed and not read yet, and how much of it is committed.\<close>

definition pending :: "input \<Rightarrow> byte list" where
  "pending i = map (\<lambda>j. i_buf i ! ((unat (i_r i) + j) mod INPUT_BUF)) [0..<unat (i_e i - i_r i)]"

definition committed :: "input \<Rightarrow> byte list" where
  "committed i = take (unat (i_w i - i_r i)) (pending i)"

definition editing :: "input \<Rightarrow> byte list" where
  "editing i = drop (unat (i_w i - i_r i)) (pending i)"

definition input_ok :: "input \<Rightarrow> bool" where
  "input_ok i \<longleftrightarrow> length (i_buf i) = INPUT_BUF \<and> unat (i_w i - i_r i) \<le> unat (i_e i - i_r i) \<and>
     unat (i_e i - i_r i) \<le> INPUT_BUF \<and> 10 \<notin> set (editing i)"

text \<open>The contract: typing a code, on the lists of committed and edited bytes.\<close>

definition type_code :: "uint \<Rightarrow> byte list \<times> byte list \<Rightarrow> byte list \<times> byte list" where
  "type_code c = (\<lambda>(com, ed).
     if c = ctrl (CHR ''P'') then (com, ed)
     else if c = ctrl (CHR ''U'') then (com, [])
     else if c = ctrl (CHR ''H'') \<or> c = 0x7f then (com, butlast ed)
     else if c = 0 \<or> length com + length ed \<ge> INPUT_BUF then (com, ed)
     else
       let c = (if c = 13 then 10 else c); ed = ed @ [ucast c]
       in if c = 10 \<or> c = ctrl (CHR ''D'') \<or> length com + length ed = INPUT_BUF then (com @ ed, [])
          else (com, ed))"

definition lines_of :: "input \<Rightarrow> byte list \<times> byte list" where
  "lines_of i = (committed i, editing i)"

lemma length_pending [simp]: "length (pending i) = unat (i_e i - i_r i)"
  by (simp add: pending_def)

lemma pending_split: "committed i @ editing i = pending i"
  by (simp add: committed_def editing_def)

lemma unat_offset: "unat (a + b :: uint) mod INPUT_BUF = (unat a + unat b) mod INPUT_BUF"
proof -
  have "unat (a + b) = (unat a + unat b) mod (128 * 33554432)" by (simp add: unat_word_ariths)
  then show ?thesis unfolding INPUT_BUF_def by (simp only: mod_mult2_eq) simp
qed

lemma unat_step: "unat (e - r :: uint) < 2 ^ 31 \<Longrightarrow> unat (e + 1 - r) = Suc (unat (e - r))"
proof -
  assume "unat (e - r) < 2 ^ 31"
  moreover have "e + 1 - r = (e - r) + 1" by simp
  ultimately show ?thesis by (simp only: unat_word_ariths) simp
qed

lemma ring_position: "unat (e :: uint) mod INPUT_BUF = (unat r + unat (e - r)) mod INPUT_BUF"
  using unat_offset [of r "e - r"] by simp

lemma other_position:
  assumes "j < n" "n < INPUT_BUF"
  shows "(a + j) mod INPUT_BUF \<noteq> (a + n) mod INPUT_BUF"
proof
  assume "(a + j) mod INPUT_BUF = (a + n) mod INPUT_BUF"
  then have "INPUT_BUF dvd (a + n) - (a + j)" using assms(1) by (metis mod_eq_dvd_iff_nat nat_add_left_cancel_le less_imp_le)
  then have "INPUT_BUF dvd n - j" by simp
  then show False using assms by (meson dvd_imp_le le_less_trans less_imp_diff_less not_le zero_less_diff)
qed

lemma pending_put:
  assumes "length (i_buf i) = INPUT_BUF" "unat (i_e i - i_r i) < INPUT_BUF"
  shows "pending (i\<lparr>i_buf := (i_buf i)[unat (i_e i) mod INPUT_BUF := c], i_e := i_e i + 1\<rparr>) = pending i @ [c]"
proof -
  have "unat (i_e i + 1 - i_r i) = Suc (unat (i_e i - i_r i))"
    using assms(2) by (intro unat_step) (simp add: INPUT_BUF_def)
  moreover have "0 < INPUT_BUF" by (simp add: INPUT_BUF_def)
  ultimately show ?thesis
    using assms ring_position [of "i_e i" "i_r i"] other_position [THEN not_sym, of _ "unat (i_e i - i_r i)" "unat (i_r i)"]
    by (simp add: pending_def nth_list_update)
qed

lemma pending_rubout:
  assumes "i_e i \<noteq> i_w i" "unat (i_w i - i_r i) \<le> unat (i_e i - i_r i)"
  shows "unat (i_e i - 1 - i_r i) = unat (i_e i - i_r i) - 1" "unat (i_w i - i_r i) < unat (i_e i - i_r i)"
    "pending (i\<lparr>i_e := i_e i - 1\<rparr>) = butlast (pending i)"
proof -
  have "unat (i_w i - i_r i) \<noteq> unat (i_e i - i_r i)"
    using assms(1) by (simp add: word_unat_eq_iff [symmetric])
  with assms(2) show less: "unat (i_w i - i_r i) < unat (i_e i - i_r i)" by simp
  then have "i_e i - i_r i \<noteq> 0" by (metis not_less_zero unat_0)
  then have "unat (i_e i - i_r i - 1) = unat (i_e i - i_r i) - 1" by (rule unat_minus_one)
  moreover have "i_e i - 1 - i_r i = i_e i - i_r i - 1" by simp
  ultimately show n: "unat (i_e i - 1 - i_r i) = unat (i_e i - i_r i) - 1" by (simp only:)
  show "pending (i\<lparr>i_e := i_e i - 1\<rparr>) = butlast (pending i)"
  proof -
    obtain m where "unat (i_e i - i_r i) = Suc m" using less by (metis less_imp_Suc_add)
    with n show ?thesis by (simp add: pending_def)
  qed
qed

lemma pending_get:
  assumes "i_r i \<noteq> i_e i"
  shows "pending i = at i (i_r i) # pending (i\<lparr>i_r := i_r i + 1\<rparr>)"
    "unat (i_e i - (i_r i + 1)) = unat (i_e i - i_r i) - 1"
proof -
  have ne: "i_e i - i_r i \<noteq> 0" using assms by simp
  have "i_e i - (i_r i + 1) = i_e i - i_r i - 1" by simp
  then show n: "unat (i_e i - (i_r i + 1)) = unat (i_e i - i_r i) - 1"
    using unat_minus_one [OF ne] by (simp only:)
  obtain k where k: "unat (i_e i - i_r i) = Suc k" using ne by (metis not0_implies_Suc unat_eq_0)
  have m: "(unat (i_r i + 1) + j) mod INPUT_BUF = (unat (i_r i) + Suc j) mod INPUT_BUF" for j
    using unat_offset [of "i_r i" 1] by (metis add_Suc add_Suc_right mod_add_left_eq unat_1 Suc_eq_plus1)
  show "pending i = at i (i_r i) # pending (i\<lparr>i_r := i_r i + 1\<rparr>)"
    unfolding pending_def at_def using n k
    by (simp only: k map_upt_Suc) (simp add: m)
qed


lemma editing_empty: "i_e i = i_w i \<Longrightarrow> editing i = []"
  by (simp add: editing_def)

lemma length_editing: "input_ok i \<Longrightarrow> length (editing i) = unat (i_e i - i_r i) - unat (i_w i - i_r i)"
  by (simp add: editing_def)

lemma length_committed: "input_ok i \<Longrightarrow> length (committed i) = unat (i_w i - i_r i)"
  by (simp add: committed_def input_ok_def)

lemma last_pending: "i_e i \<noteq> i_r i \<Longrightarrow> at i (i_e i - 1) = last (pending i)"
proof -
  assume "i_e i \<noteq> i_r i"
  then have ne: "i_e i - i_r i \<noteq> 0" by simp
  then obtain m where m: "unat (i_e i - i_r i) = Suc m" by (metis not0_implies_Suc unat_eq_0)
  then have "unat (i_e i - i_r i - 1) = m" using unat_minus_one [OF ne] by simp
  moreover have "i_e i - 1 - i_r i = i_e i - i_r i - 1" by simp
  ultimately have "unat (i_e i - 1 - i_r i) = m" by (simp only:)
  then show ?thesis using m ring_position [of "i_e i - 1" "i_r i"] by (simp add: at_def pending_def)
qed

text \<open>Rubbing out one byte of the line being edited.\<close>

lemma rubout_spec:
  assumes ok: "input_ok i" and ne: "i_e i \<noteq> i_w i"
  defines "j \<equiv> i\<lparr>i_e := i_e i - 1\<rparr>"
  shows "input_ok j" "committed j = committed i" "editing j = butlast (editing i)" "editing i \<noteq> []"
    "at i (i_e i - 1) = last (editing i)"
proof -
  have le: "unat (i_w i - i_r i) \<le> unat (i_e i - i_r i)" using ok by (simp add: input_ok_def)
  note r = pending_rubout [OF ne le]
  have len: "length (pending i) = unat (i_e i - i_r i)" by simp
  show c: "committed j = committed i"
    using r by (simp add: j_def committed_def take_butlast)
  show e: "editing j = butlast (editing i)"
    using r by (simp add: j_def editing_def drop_butlast)
  show nonempty: "editing i \<noteq> []" using length_editing [OF ok] r(2) by auto
  have "unat (i_e j - i_r j) = unat (i_e i - i_r i) - 1" "unat (i_w j - i_r j) = unat (i_w i - i_r i)"
    using r(1) by (simp_all add: j_def)
  with ok r(2) e show "input_ok j"
    by (auto simp: input_ok_def j_def dest: in_set_butlastD)
  have "i_e i \<noteq> i_r i" using r(2) by auto
  then show "at i (i_e i - 1) = last (editing i)"
    using last_pending [of i] nonempty pending_split [of i] by (metis last_appendR)
qed

lemma kill_line_spec:
  assumes "console_ok k" "input_ok (inp k)"
  shows "\<exists>k'. kill_line k = Inr k' \<and> console_ok k' \<and> input_ok (inp k') \<and>
    committed (inp k') = committed (inp k) \<and> editing (inp k') = []"
  using assms
proof (induction k rule: kill_line.induct)
  case (1 k)
  show ?case
  proof (cases "i_e (inp k) = i_w (inp k)")
    case True
    with 1 editing_empty show ?thesis by (subst kill_line.simps) auto
  next
    case False
    note r = rubout_spec [OF 1(3) False]
    have "at (inp k) (i_e (inp k) - 1) \<in> set (editing (inp k))" using r(4,5) by simp
    then have c: "i_e (inp k) \<noteq> i_w (inp k) \<and> at (inp k) (i_e (inp k) - 1) \<noteq> 10"
      using False 1(3) unfolding input_ok_def by auto
    let ?k = "set_inp (\<lambda>i. i\<lparr>i_e := i_e i - 1\<rparr>) k"
    have "console_ok ?k" using 1(2) by (simp add: set_inp_def console_ok_def)
    then obtain k' where k': "consputc BACKSPACE ?k = Inr k'" "console_ok k'" "inp k' = inp ?k" by (rule consputc_ok)
    have i: "inp k' = (inp k)\<lparr>i_e := i_e (inp k) - 1\<rparr>" using k'(3) by (simp add: set_inp_def)
    from 1(1) [OF c k'(1,2)] r(1,2) c k'(1) show ?thesis
      by (subst kill_line.simps) (simp add: i)
  qed
qed

text \<open>Adding one byte, and committing the line.\<close>

lemma typed_spec:
  fixes b :: byte
  assumes ok: "input_ok i" and room: "unat (i_e i - i_r i) < INPUT_BUF"
  defines "j \<equiv> i\<lparr>i_buf := (i_buf i)[unat (i_e i) mod INPUT_BUF := b], i_e := i_e i + 1\<rparr>"
  shows "committed j = committed i" "editing j = editing i @ [b]"
    "b \<noteq> 10 \<Longrightarrow> input_ok j" "input_ok (j\<lparr>i_w := i_e j\<rparr>)"
    "committed (j\<lparr>i_w := i_e j\<rparr>) = committed i @ editing i @ [b]" "editing (j\<lparr>i_w := i_e j\<rparr>) = []"
    "i_e j = i_r j + of_nat INPUT_BUF \<longleftrightarrow> length (committed i) + length (editing i @ [b]) = INPUT_BUF"
proof -
  have p: "pending j = pending i @ [b]"
    unfolding j_def using ok room by (intro pending_put) (simp_all add: input_ok_def)
  have n: "unat (i_e j - i_r j) = Suc (unat (i_e i - i_r i))"
    unfolding j_def using unat_step [of "i_e i" "i_r i"] room by (simp add: INPUT_BUF_def)
  have le: "unat (i_w i - i_r i) \<le> unat (i_e i - i_r i)" using ok by (simp add: input_ok_def)
  have wr: "i_w j = i_w i" "i_r j = i_r i" by (simp_all add: j_def)
  show c: "committed j = committed i" and e: "editing j = editing i @ [b]"
    unfolding committed_def editing_def p wr using le by simp_all
  show "input_ok j" if "b \<noteq> 10"
    using ok that e n le room by (auto simp: input_ok_def wr) (auto simp: j_def)
  have pj: "pending (j\<lparr>i_w := i_e j\<rparr>) = pending j" by (simp add: pending_def)
  have len: "length (pending j) = unat (i_e j - i_r j)" by simp
  show ce: "committed (j\<lparr>i_w := i_e j\<rparr>) = committed i @ editing i @ [b]"
    using p pending_split [of i] len unfolding committed_def pj by simp
  show ed: "editing (j\<lparr>i_w := i_e j\<rparr>) = []"
    using len unfolding editing_def pj by simp
  have "length (i_buf j) = INPUT_BUF" using ok by (simp add: j_def input_ok_def)
  then show "input_ok (j\<lparr>i_w := i_e j\<rparr>)"
    using ed n room by (simp add: input_ok_def)
  have "i_e j = i_r j + of_nat INPUT_BUF \<longleftrightarrow> i_e j - i_r j = of_nat INPUT_BUF" by (auto simp: algebra_simps)
  also have "\<dots> \<longleftrightarrow> unat (i_e j - i_r j) = INPUT_BUF" by (simp add: INPUT_BUF_def word_unat_eq_iff)
  also have "\<dots> \<longleftrightarrow> length (committed i) + length (editing i @ [b]) = INPUT_BUF"
    using n pending_split [of i] by (metis length_append length_append_singleton length_pending add_Suc_right)
  finally show "i_e j = i_r j + of_nat INPUT_BUF \<longleftrightarrow> length (committed i) + length (editing i @ [b]) = INPUT_BUF" .
qed


definition commits :: "uint \<Rightarrow> byte list \<times> byte list \<Rightarrow> bool" where
  "commits c l \<longleftrightarrow> fst (type_code c l) \<noteq> fst l"

lemma ctrl_codes [simp]:
  "ctrl (CHR ''P'') = 16" "ctrl (CHR ''U'') = 21" "ctrl (CHR ''H'') = 8" "ctrl (CHR ''D'') = 4"
  by (simp_all add: ctrl_def)

lemma ucast_code_eq:
  "unat (c :: uint) < 256 \<Longrightarrow> unat (d :: byte) = unat (e :: uint) \<Longrightarrow> (ucast c = d) = (c = e)"
proof -
  assume c: "unat c < 256" and d: "unat d = unat e"
  then have "unat (ucast c :: byte) = unat c" by (simp add: unsigned_ucast_eq take_bit_eq_mod)
  with d show ?thesis by (metis word_unat_eq_iff)
qed

lemma intr_char_spec:
  assumes k: "console_ok k" "input_ok (inp k)" and c: "unat c < 256"
  shows "\<exists>k' d'. intr_char c (k, pt, d) =
      Inr (k', if commits c (lines_of (inp k)) then wakeup ConsoleChan pt else pt, d') \<and>
    console_ok k' \<and> input_ok (inp k') \<and> lines_of (inp k') = type_code c (lines_of (inp k))"
proof -
  note ci = commits_def lines_of_def type_code_def
  consider "c = 16" | "c = 21" | "c = 8 \<or> c = 127" | "c \<notin> {16, 21, 8, 127}" by auto
  then show ?thesis
  proof cases
    case 1
    with k show ?thesis by (auto simp: intr_char_def ci)
  next
    case 2
    with kill_line_spec [OF k] show ?thesis by (auto simp: intr_char_def ci)
  next
    case 3
    show ?thesis
    proof (cases "i_e (inp k) = i_w (inp k)")
      case True
      with 3 k editing_empty [OF True] show ?thesis by (auto simp: intr_char_def ci)
    next
      case False
      let ?k = "set_inp (\<lambda>i. i\<lparr>i_e := i_e i - 1\<rparr>) k"
      have "console_ok ?k" using k(1) by (simp add: set_inp_def console_ok_def)
      then obtain k' where k': "consputc BACKSPACE ?k = Inr k'" "console_ok k'" "inp k' = inp ?k" by (rule consputc_ok)
      with 3 False rubout_spec [OF k(2) False] show ?thesis
        by (auto simp: intr_char_def ci set_inp_def)
    qed
  next
    case 4
    have room: "length (committed (inp k)) + length (editing (inp k)) = unat (i_e (inp k) - i_r (inp k))"
      using pending_split [of "inp k"] by (metis length_append length_pending)
    show ?thesis
    proof (cases "c = 0 \<or> unat (i_e (inp k) - i_r (inp k)) \<ge> INPUT_BUF")
      case True
      with 4 k room show ?thesis by (auto simp: intr_char_def ci)
    next
      case False
      define c' where "c' = (if c = 13 then 10 else c)"
      define j where "j = (inp k)\<lparr>i_buf := (i_buf (inp k))[unat (i_e (inp k)) mod INPUT_BUF := ucast c'], i_e := i_e (inp k) + 1\<rparr>"
      have lt: "unat (i_e (inp k) - i_r (inp k)) < INPUT_BUF" using False by simp
      note t = typed_spec [OF k(2) lt, of "ucast c'", folded j_def]
      have "console_ok (k\<lparr>inp := j\<rparr>)" using k(1) by (simp add: console_ok_def)
      then obtain k' where k': "consputc c' (k\<lparr>inp := j\<rparr>) = Inr k'" "console_ok k'" "inp k' = j"
        by (rule consputc_ok) auto
      define commit where "commit \<longleftrightarrow> c' = 10 \<or> c' = 4 \<or> i_e j = i_r j + of_nat INPUT_BUF"
      have intr: "intr_char c (k, pt, d) =
          Inr (if commit then set_inp (\<lambda>i. i\<lparr>i_w := i_e i\<rparr>) k' else k', if commit then wakeup ConsoleChan pt else pt, d)"
        using 4 False lt k'(1,3) unfolding intr_char_def
        by (simp add: Let_def c'_def [symmetric] set_inp_def j_def [symmetric] commit_def)
      have type: "type_code c (lines_of (inp k)) =
          (if commit then (committed (inp k) @ editing (inp k) @ [ucast c'], [])
           else (committed (inp k), editing (inp k) @ [ucast c']))"
        using 4 False room lt t(7) unfolding type_code_def lines_of_def
        by (simp add: Let_def c'_def [symmetric] commit_def)
      then have comm: "commits c (lines_of (inp k)) = commit" by (simp add: commits_def lines_of_def)
      have "c' \<noteq> 10 \<Longrightarrow> ucast c' \<noteq> (10 :: byte)"
        using c ucast_code_eq [of c' 10 10] by (auto simp: c'_def split: if_splits)
      then have "input_ok (if commit then j\<lparr>i_w := i_e j\<rparr> else j)"
        using t(3,4) by (auto simp: commit_def)
      with intr type comm k'(2,3) t show ?thesis
        by (intro exI [of _ "if commit then set_inp (\<lambda>i. i\<lparr>i_w := i_e i\<rparr>) k' else k'"] exI [of _ d])
          (auto simp: set_inp_def console_ok_def lines_of_def)
    qed
  qed
qed


lemma type_code_grows: "\<exists>more. fst (type_code c l) = fst l @ more"
  by (cases l) (auto simp: type_code_def Let_def)

lemma consoleintr_loop_spec:
  assumes "console_ok k" "input_ok (inp k)" "list_all (\<lambda>c. unat c < 256) cs"
  shows "\<exists>k' pt' d'. consoleintr_loop cs (k, pt, d) = Inr (k', pt', d') \<and> console_ok k' \<and> input_ok (inp k') \<and>
    lines_of (inp k') = fold type_code cs (lines_of (inp k)) \<and> length (procs pt') = length (procs pt) \<and>
    (\<forall>p. asleep pt' p ConsoleChan \<longrightarrow> asleep pt p ConsoleChan \<and> committed (inp k') = committed (inp k))"
  using assms
proof (induction cs arbitrary: k pt d)
  case Nil
  then show ?case by simp
next
  case (Cons c cs)
  then have c: "unat c < 256" and cs: "list_all (\<lambda>c. unat c < 256) cs" by simp_all
  define pt1 where "pt1 = (if commits c (lines_of (inp k)) then wakeup ConsoleChan pt else pt)"
  from intr_char_spec [OF Cons.prems(1,2) c, of pt d] obtain k1 d1 where
    s: "intr_char c (k, pt, d) = Inr (k1, pt1, d1)" "console_ok k1" "input_ok (inp k1)"
      "lines_of (inp k1) = type_code c (lines_of (inp k))" unfolding pt1_def by blast
  from Cons.IH [OF s(2,3) cs, of pt1 d1] obtain k' pt' d' where
    r: "consoleintr_loop cs (k1, pt1, d1) = Inr (k', pt', d')" "console_ok k'" "input_ok (inp k')"
      "lines_of (inp k') = fold type_code cs (lines_of (inp k1))" "length (procs pt') = length (procs pt1)"
      "\<forall>p. asleep pt' p ConsoleChan \<longrightarrow> asleep pt1 p ConsoleChan \<and> committed (inp k') = committed (inp k1)" by blast
  have "asleep pt p ConsoleChan \<and> committed (inp k') = committed (inp k)" if "asleep pt' p ConsoleChan" for p
  proof -
    from that r(6) have a: "asleep pt1 p ConsoleChan" and e: "committed (inp k') = committed (inp k1)" by blast+
    from a have "\<not> commits c (lines_of (inp k))" by (auto simp: pt1_def asleep_wakeup)
    moreover have "committed (inp k1) = fst (type_code c (lines_of (inp k)))"
      using s(4) by (metis fst_conv lines_of_def)
    ultimately show ?thesis using a e by (simp add: pt1_def commits_def lines_of_def)
  qed
  moreover have "length (procs pt1) = length (procs pt)" by (simp add: pt1_def)
  ultimately show ?case using s r by auto
qed

section \<open>Reading\<close>

fun read_lines :: "nat \<Rightarrow> nat \<Rightarrow> byte list \<Rightarrow> byte list \<Rightarrow> cons_end \<times> byte list" where
  "read_lines target 0 got com = (ConsRead got, com)"
| "read_lines target (Suc n) got [] = (ConsSleep (Suc n) got, [])"
| "read_lines target (Suc n) got (c # com) =
     (if c = 4 then (ConsRead got, if Suc n < target then c # com else com)
      else if c = 10 then (ConsRead (got @ [c]), com)
      else read_lines target n (got @ [c]) com)"

lemma read_lines_newline:
  "4 \<notin> set line \<Longrightarrow> 10 \<notin> set line \<Longrightarrow> length line < n \<Longrightarrow>
     read_lines target n got (line @ 10 # rest) = (ConsRead (got @ line @ [10]), rest)"
proof (induction line arbitrary: n got)
  case Nil
  then show ?case by (cases n) auto
next
  case (Cons c line)
  then show ?case by (cases n) auto
qed

lemma read_lines_eof:
  "4 \<notin> set line \<Longrightarrow> 10 \<notin> set line \<Longrightarrow> length line < n \<Longrightarrow>
     read_lines target n got (line @ 4 # rest) =
       (ConsRead (got @ line), if n - length line < target then 4 # rest else rest)"
proof (induction line arbitrary: n got)
  case Nil
  then show ?case by (cases n) auto
next
  case (Cons c line)
  then show ?case by (cases n) auto
qed

lemma read_lines_full:
  "4 \<notin> set line \<Longrightarrow> 10 \<notin> set line \<Longrightarrow>
     read_lines target (length line) got (line @ rest) = (ConsRead (got @ line), rest)"
  by (induction line arbitrary: got) auto

lemma committed_empty: "input_ok i \<Longrightarrow> i_r i = i_w i \<longleftrightarrow> committed i = []"
  using length_committed [of i] by (auto simp: unat_eq_0 [symmetric]) (metis eq_iff_diff_eq_0 length_0_conv unat_eq_0)

lemma get_spec:
  assumes ok: "input_ok i" and ne: "i_r i \<noteq> i_w i"
  defines "j \<equiv> i\<lparr>i_r := i_r i + 1\<rparr>"
  shows "input_ok j" "committed i = at i (i_r i) # committed j" "editing j = editing i"
proof -
  have le: "unat (i_w i - i_r i) \<le> unat (i_e i - i_r i)" using ok by (simp add: input_ok_def)
  have nz: "i_w i - i_r i \<noteq> 0" using ne by simp
  then obtain m where m: "unat (i_w i - i_r i) = Suc m" by (metis not0_implies_Suc unat_eq_0)
  with le have "i_r i \<noteq> i_e i" by auto
  note g = pending_get [OF this, folded j_def]
  have "i_w i - (i_r i + 1) = i_w i - i_r i - 1" by simp
  then have w: "unat (i_w i - (i_r i + 1)) = m" using unat_minus_one [OF nz] m by (simp only: diff_Suc_1)
  have j: "i_w j = i_w i" "i_e j = i_e i" "i_r j = i_r i + 1" "i_buf j = i_buf i" by (simp_all add: j_def)
  show "committed i = at i (i_r i) # committed j"
    unfolding committed_def j w m g(1) by simp
  show e: "editing j = editing i" unfolding editing_def j w m g(1) by simp
  show "input_ok j" using ok g(2) w m le e unfolding input_ok_def j by auto
qed

definition sleepy :: "cons_end \<Rightarrow> bool" where
  "sleepy r \<longleftrightarrow> (case r of ConsSleep _ _ \<Rightarrow> True | _ \<Rightarrow> False)"

lemma sleepy_simps [simp]:
  "sleepy (ConsSleep n got)" "\<not> sleepy (ConsRead got)" "\<not> sleepy ConsKilled"
  by (simp_all add: sleepy_def)

lemma ucast_byte_eq: "(ucast (b :: byte) :: uint) = 4 \<longleftrightarrow> b = 4"
proof -
  have "unat (ucast b :: uint) = unat b"
    using unsigned_less [of b, where ?'a = nat] by (simp add: unsigned_ucast_eq take_bit_eq_mod)
  then show ?thesis by (simp add: word_unat_eq_iff)
qed

lemma consoleread_round_spec:
  assumes "input_ok i"
  shows "\<exists>r i' pt'. consoleread_round me target n got (i, pt) = (r, i', pt') \<and> input_ok i' \<and> editing i' = editing i \<and>
    committed i' = snd (read_lines target n got (committed i)) \<and>
    (let r' = fst (read_lines target n got (committed i)) in
      if sleepy r' \<and> p_killed (proc_at pt me) then r = ConsKilled \<and> pt' = pt
      else r = r' \<and> pt' = (if sleepy r' then sleep_begin me ConsoleChan pt else pt))"
  using assms
proof (induction n arbitrary: got i)
  case 0
  then show ?case by simp
next
  case (Suc n)
  show ?case
  proof (cases "i_r i = i_w i")
    case True
    with Suc.prems committed_empty show ?thesis by auto
  next
    case False
    note g = get_spec [OF Suc.prems False]
    have undo: "i\<lparr>i_r := i_r i + 1 - 1\<rparr> = i" by simp
    have u: "(ucast (at i (i_r i)) :: uint) = 4 \<longleftrightarrow> at i (i_r i) = 4"
      by (rule ucast_byte_eq)
    consider "at i (i_r i) = 4" | "at i (i_r i) = 10" | "at i (i_r i) \<noteq> 4" "at i (i_r i) \<noteq> 10" by blast
    then show ?thesis
    proof cases
      case 1
      with g Suc.prems False u undo show ?thesis by (simp add: Let_def)
    next
      case 2
      with g Suc.prems False u show ?thesis by (simp add: Let_def)
    next
      case 3
      have c: "consoleread_round me target (Suc n) got (i, pt)
          = consoleread_round me target n (got @ [at i (i_r i)]) (i\<lparr>i_r := i_r i + 1\<rparr>, pt)"
        using 3 False u by (simp add: Let_def)
      have r: "read_lines target (Suc n) got (committed i)
          = read_lines target n (got @ [at i (i_r i)]) (committed (i\<lparr>i_r := i_r i + 1\<rparr>))"
        using 3 by (subst g(2)) simp
      from Suc.IH [OF g(1), of "got @ [at i (i_r i)]"] show ?thesis unfolding c r g(3) .
    qed
  qed
qed


section \<open>Typing and reading interleaved\<close>

text \<open>
  Interrupts type codes, running processes read, and processes are killed, scheduled and
  preempted, in any order. Reading goes on after a \<open>sleep\<close> with what is left to read.
\<close>

inductive cons_step :: "console \<times> ptable \<Rightarrow> console \<times> ptable \<Rightarrow> bool" where
  type: "list_all (\<lambda>c. unat c < 256) cs \<Longrightarrow> consoleintr cs (k, pt) = Inr (k', pt', d) \<Longrightarrow>
    cons_step (k, pt) (k', pt')"
| read: "me < length (procs pt) \<Longrightarrow> p_state (proc_at pt me) = RUNNING \<Longrightarrow>
    consoleread_round me target n got (inp k, sleep_end me pt) = (r, i, pt') \<Longrightarrow>
    cons_step (k, pt) (k\<lparr>inp := i\<rparr>, pt')"
| killed: "cons_step (k, pt) (k, snd (kill pid pt))"
| run: "cons_step (k, pt) (k, scheduler_run me pt)"
| preempt: "cons_step (k, pt) (k, yield_begin me pt)"

definition cons_inv :: "console \<times> ptable \<Rightarrow> bool" where
  "cons_inv s \<longleftrightarrow> console_ok (fst s) \<and> input_ok (inp (fst s))"

definition cons_start :: "console \<times> ptable \<Rightarrow> bool" where
  "cons_start s \<longleftrightarrow> cons_inv s \<and> (\<forall>p. \<not> asleep (snd s) p ConsoleChan)"

definition cons_sleeps :: "console \<times> ptable \<Rightarrow> nat \<Rightarrow> bool" where
  "cons_sleeps s p \<longleftrightarrow> asleep (snd s) p ConsoleChan"

definition cons_blocked :: "console \<times> ptable \<Rightarrow> bool" where
  "cons_blocked s \<longleftrightarrow> committed (inp (fst s)) = []"

definition cons_good_step :: "console \<times> ptable \<Rightarrow> console \<times> ptable \<Rightarrow> bool" where
  "cons_good_step s t \<longleftrightarrow> cons_inv s \<and> cons_step s t"

lemma consoleintr_spec:
  assumes "cons_inv (k, pt)" "list_all (\<lambda>c. unat c < 256) cs"
  obtains k' pt' d where "consoleintr cs (k, pt) = Inr (k', pt', d)" "cons_inv (k', pt')"
    "lines_of (inp k') = fold type_code cs (lines_of (inp k))"
    "\<And>p. asleep pt' p ConsoleChan \<Longrightarrow> asleep pt p ConsoleChan \<and> committed (inp k') = committed (inp k)"
  using consoleintr_loop_spec [of k cs pt False] assms by (auto simp: consoleintr_def cons_inv_def)

lemma read_lines_sleeps:
  "sleepy (fst (read_lines target n got com)) \<Longrightarrow> snd (read_lines target n got com) = []"
  by (induction target n got com rule: read_lines.induct) (auto split: if_splits)

lemma cons_step_inv: "cons_step s t \<Longrightarrow> cons_inv s \<Longrightarrow> cons_inv t"
proof (induction rule: cons_step.induct)
  case (type cs k pt k' pt' d)
  then show ?case using consoleintr_spec [OF type(3,1)] by (metis Inr_inject prod.inject)
next
  case (read me pt target n got k r i pt')
  then show ?case using consoleread_round_spec [of "inp k" me target n got "sleep_end me pt"]
    by (auto simp: cons_inv_def console_ok_def)
qed (simp_all add: cons_inv_def)

lemma cons_wake_or_block:
  assumes "cons_good_step s t" "cons_sleeps t p" "cons_sleeps s p \<longrightarrow> cons_blocked s"
  shows "cons_blocked t"
proof -
  have "cons_step s t" "cons_inv s" using assms(1) by (simp_all add: cons_good_step_def)
  then show ?thesis using assms(2,3)
  proof (induction rule: cons_step.induct)
    case (type cs k pt k' pt' d)
    from consoleintr_spec [OF type(3,1)] obtain k1 pt1 d1 where c: "consoleintr cs (k, pt) = Inr (k1, pt1, d1)"
      "\<And>p. asleep pt1 p ConsoleChan \<Longrightarrow> asleep pt p ConsoleChan \<and> committed (inp k1) = committed (inp k)"
      by metis
    with type show ?case by (auto simp: cons_sleeps_def cons_blocked_def)
  next
    case (read me pt target n got k r i pt')
    let ?l = "read_lines target n got (committed (inp k))"
    from consoleread_round_spec [of "inp k" me target n got "sleep_end me pt"] read
    have i: "committed i = snd ?l" and
      p: "pt' = sleep_end me pt \<or> sleepy (fst ?l) \<and> pt' = sleep_begin me ConsoleChan (sleep_end me pt)"
      by (auto simp: cons_inv_def Let_def split: if_splits)
    show ?case
    proof (cases "sleepy (fst ?l)")
      case True
      then show ?thesis using read_lines_sleeps i by (simp add: cons_blocked_def)
    next
      case False
      with p have "asleep pt p ConsoleChan" using read(2,5) asleep_sleep_end by (simp add: cons_sleeps_def)
      with read(6) have "committed (inp k) = []" by (simp add: cons_sleeps_def cons_blocked_def)
      then show ?thesis using i by (cases n) (simp_all add: cons_blocked_def)
    qed
  qed (auto simp: cons_sleeps_def cons_blocked_def dest: asleep_kill asleep_switch)
qed

interpretation typists: condition_variable cons_start cons_good_step cons_sleeps cons_blocked
  by unfold_locales (simp add: cons_start_def cons_sleeps_def, rule cons_wake_or_block)

lemma cons_run_inv:
  assumes "cons_step\<^sup>*\<^sup>* s t" "cons_inv s"
  shows "cons_inv t \<and> cons_good_step\<^sup>*\<^sup>* s t"
  using assms
proof (induction rule: rtranclp_induct)
  case (step t u)
  then have "cons_good_step t u" by (simp add: cons_good_step_def)
  with step cons_step_inv show ?case by (meson rtranclp.rtrancl_into_rtrancl)
qed simp

section \<open>Properties\<close>

text \<open>
  C23. The console is a line discipline. Whatever has happened before, typing codes changes
  the committed bytes and the line being edited as \<open>type_code\<close> says and never overruns the
  ring or the screen; reading takes from the committed bytes up to a newline or an
  end-of-file mark, as \<open>read_lines\<close> says, and leaves the line being edited alone; and a process
  that sleeps in a read sleeps only while nothing is committed.
\<close>

theorem console_line_discipline:
  assumes "cons_step\<^sup>*\<^sup>* s (k, pt)" "cons_start s"
  shows "(\<forall>cs. list_all (\<lambda>c. unat c < 256) cs \<longrightarrow>
      (\<exists>k' pt' d. consoleintr cs (k, pt) = Inr (k', pt', d) \<and>
        lines_of (inp k') = fold type_code cs (lines_of (inp k)))) \<and>
    (\<forall>me target n got. \<exists>r i pt'. consoleread_round me target n got (inp k, pt) = (r, i, pt') \<and>
        lines_of i = (snd (read_lines target n got (committed (inp k))), editing (inp k)) \<and>
        r = (if sleepy (fst (read_lines target n got (committed (inp k)))) \<and> p_killed (proc_at pt me)
             then ConsKilled else fst (read_lines target n got (committed (inp k))))) \<and>
    (\<forall>p. asleep pt p ConsoleChan \<longrightarrow> committed (inp k) = [])"
proof -
  have inv: "cons_inv (k, pt)" and run: "cons_good_step\<^sup>*\<^sup>* s (k, pt)"
    using cons_run_inv [OF assms(1)] assms(2) by (auto simp: cons_start_def)
  have "\<exists>k' pt' d. consoleintr cs (k, pt) = Inr (k', pt', d) \<and>
        lines_of (inp k') = fold type_code cs (lines_of (inp k))" if "list_all (\<lambda>c. unat c < 256) cs" for cs
    using consoleintr_spec [OF inv that] by metis
  moreover have "\<exists>r i pt'. consoleread_round me target n got (inp k, pt) = (r, i, pt') \<and>
        lines_of i = (snd (read_lines target n got (committed (inp k))), editing (inp k)) \<and>
        r = (if sleepy (fst (read_lines target n got (committed (inp k)))) \<and> p_killed (proc_at pt me)
             then ConsKilled else fst (read_lines target n got (committed (inp k))))" for me target n got
    using consoleread_round_spec [of "inp k" me target n got pt] inv
    by (auto simp: cons_inv_def lines_of_def Let_def split: if_splits)
  moreover have "committed (inp k) = []" if "asleep pt p ConsoleChan" for p
    using typists.sleepers_blocked [OF run assms(2), of p] that by (simp add: cons_sleeps_def cons_blocked_def)
  ultimately show ?thesis by blast
qed

definition blank_console :: console where
  "blank_console = \<lparr>inp = \<lparr>i_buf = replicate 128 0, i_r = 0, i_w = 0, i_e = 0\<rparr>,
     scr = \<lparr>crt = replicate CRTSIZE 0, cursor = 0\<rparr>, uart = [], panicked = False\<rparr>"


definition one_idle :: ptable where
  "one_idle = \<lparr>procs = [zero_proc], initproc = None, nextpid = 1\<rparr>"

lemma blank_start: "cons_start (blank_console, one_idle)"
  by (auto simp: cons_start_def cons_inv_def console_ok_def screen_ok_def input_ok_def blank_console_def
      editing_def pending_def INPUT_BUF_def asleep_def one_idle_def zero_proc_def)

lemma blank_lines: "lines_of (inp blank_console) = ([], [])"
  by (simp add: lines_of_def committed_def editing_def pending_def blank_console_def)

text \<open>The keys h, x, backspace, i and return are the line ``hi''.\<close>

theorem console_line_discipline_witness:
  "\<exists>k' pt' d. consoleintr [104, 120, 127, 105, 13] (blank_console, one_idle) = Inr (k', pt', d) \<and>
     lines_of (inp k') = ([104, 105, 10], [])"
proof -
  have "fold type_code [104, 120, 127, 105, 13] ([], []) = ([104, 105, 10], [])"
    by (simp add: type_code_def INPUT_BUF_def)
  then show ?thesis
    using console_line_discipline [OF rtranclp.rtrancl_refl blank_start, THEN conjunct1, rule_format, of "[104, 120, 127, 105, 13]"]
    by (simp add: blank_lines del: fold_simps)
qed

end
