(* ===== verification/Kbd.thy ===== *)
theory Kbd
  imports Console
begin

text \<open>
  The keyboard driver (\<open>kbd.c\<close>, \<open>kbd.h\<close>): scan codes become character codes by three
  tables and the state of the shift, control and lock keys. The bytes the controller
  delivers are a list; the driver reads until the controller has no more data.
\<close>

section \<open>Tables\<close>

definition SHIFT :: uint where "SHIFT = 1"
definition CTL :: uint where "CTL = 2"
definition ALT :: uint where "ALT = 4"
definition CAPSLOCK :: uint where "CAPSLOCK = 8"
definition NUMLOCK :: uint where "NUMLOCK = 16"
definition SCROLLLOCK :: uint where "SCROLLLOCK = 32"
definition E0ESC :: uint where "E0ESC = 64"

text \<open>A C table with designated initializers: the rest of its 256 entries is zero.\<close>

definition table :: "nat list \<Rightarrow> (nat \<times> nat) list \<Rightarrow> nat \<Rightarrow> uint" where
  "table xs ys i = (if i < length xs then of_nat (xs ! i) else
     case map_of ys i of Some v \<Rightarrow> of_nat v | None \<Rightarrow> 0)"

definition shiftcode :: "nat \<Rightarrow> uint" where
  "shiftcode = table [] [(0x1D, 2), (0x2A, 1), (0x36, 1), (0x38, 4), (0x9D, 2), (0xB8, 4)]"

definition togglecode :: "nat \<Rightarrow> uint" where
  "togglecode = table [] [(0x3A, 8), (0x45, 16), (0x46, 32)]"

definition keypad :: "(nat \<times> nat) list" where
  "keypad = [(0xC8, 0xE2), (0xD0, 0xE3), (0xC9, 0xE6), (0xD1, 0xE7), (0xCB, 0xE4), (0xCD, 0xE5),
     (0x97, 0xE0), (0xCF, 0xE1), (0xD2, 0xE8), (0xD3, 0xE9)]"

definition normalmap :: "nat \<Rightarrow> uint" where
  "normalmap = table
     [0, 27, 49, 50, 51, 52, 53, 54,
      55, 56, 57, 48, 45, 61, 8, 9,
      113, 119, 101, 114, 116, 121, 117, 105,
      111, 112, 91, 93, 10, 0, 97, 115,
      100, 102, 103, 104, 106, 107, 108, 59,
      39, 96, 0, 92, 122, 120, 99, 118,
      98, 110, 109, 44, 46, 47, 0, 42,
      0, 32, 0, 0, 0, 0, 0, 0,
      0, 0, 0, 0, 0, 0, 0, 55,
      56, 57, 45, 52, 53, 54, 43, 49,
      50, 51, 48, 46, 0, 0, 0, 0]
     ((0x9C, 10) # (0xB5, 47) # keypad)"

definition shiftmap :: "nat \<Rightarrow> uint" where
  "shiftmap = table
     [0, 27, 33, 64, 35, 36, 37, 94,
      38, 42, 40, 41, 95, 43, 8, 9,
      81, 87, 69, 82, 84, 89, 85, 73,
      79, 80, 123, 125, 10, 0, 65, 83,
      68, 70, 71, 72, 74, 75, 76, 58,
      34, 126, 0, 124, 90, 88, 67, 86,
      66, 78, 77, 60, 62, 63, 0, 42,
      0, 32, 0, 0, 0, 0, 0, 0,
      0, 0, 0, 0, 0, 0, 0, 55,
      56, 57, 45, 52, 53, 54, 43, 49,
      50, 51, 48, 46, 0, 0, 0, 0]
     ((0x9C, 10) # (0xB5, 47) # keypad)"

definition ctlmap :: "nat \<Rightarrow> uint" where
  "ctlmap = table
     [0, 0, 0, 0, 0, 0, 0, 0,
      0, 0, 0, 0, 0, 0, 0, 0,
      17, 23, 5, 18, 20, 25, 21, 9,
      15, 16, 0, 0, 13, 0, 1, 19,
      4, 6, 7, 8, 10, 11, 12, 0,
      0, 0, 0, 28, 26, 24, 3, 22,
      2, 14, 13, 0, 0, 239, 0, 0]
     ((0x9C, 13) # (0xB5, 239) # keypad)"

section \<open>The driver\<close>

definition charcode :: "uint \<Rightarrow> nat \<Rightarrow> uint" where
  "charcode shift = [normalmap, shiftmap, ctlmap, ctlmap] ! unat (shift AND (CTL OR SHIFT))"

text \<open>\<open>kbdgetc\<close> with the data byte, when the controller has one: the code and the new key state.\<close>

definition kbdgetc :: "uint \<Rightarrow> uint \<Rightarrow> uint \<times> uint" where
  "kbdgetc data shift =
     (if data = 0xE0 then (0, shift OR E0ESC)
      else if data AND 0x80 \<noteq> 0 then
        let data = (if shift AND E0ESC \<noteq> 0 then data else data AND 0x7F)
        in (0, shift AND NOT (shiftcode (unat data) OR E0ESC))
      else
        let (data, shift) = (if shift AND E0ESC \<noteq> 0 then (data OR 0x80, shift AND NOT E0ESC) else (data, shift));
            shift = shift OR shiftcode (unat data);
            shift = shift XOR togglecode (unat data);
            c = charcode shift (unat data)
        in (if shift AND CAPSLOCK \<noteq> 0 then
              if 97 \<le> c \<and> c \<le> 122 then c - 32
              else if 65 \<le> c \<and> c \<le> 90 then c + 32
              else c
            else c, shift))"

text \<open>The codes of all bytes the controller holds, one call of \<open>kbdgetc\<close> each.\<close>

fun kbd_codes :: "uint list \<Rightarrow> uint \<Rightarrow> uint list \<times> uint" where
  "kbd_codes [] shift = ([], shift)"
| "kbd_codes (data # ds) shift =
     (let (c, shift) = kbdgetc data shift; (cs, shift) = kbd_codes ds shift in (c # cs, shift))"

definition kbdintr :: "uint list \<Rightarrow> uint \<Rightarrow> console \<times> ptable \<Rightarrow> (uint \<times> console \<times> ptable \<times> bool) res" where
  "kbdintr ds shift s = (let (cs, shift) = kbd_codes ds shift in mapE (Pair shift) (consoleintr cs s))"

section \<open>Every code fits in a byte\<close>

lemma table_byte:
  "list_all (\<lambda>v. v < 256) xs \<Longrightarrow> list_all (\<lambda>y. snd y < 256) ys \<Longrightarrow> unat (table xs ys i) < 256"
proof -
  assume x: "list_all (\<lambda>v. v < 256) xs" and y: "list_all (\<lambda>y. snd y < 256) ys"
  have small: "unat (of_nat v :: uint) < 256" if "v < 256" for v using that by (simp add: unat_of_nat)
  have "v < 256" if "map_of ys i = Some v" for v
    using y map_of_SomeD [OF that] by (auto simp: list_all_iff)
  with x small show ?thesis by (auto simp: table_def list_all_length split: option.splits)
qed

lemma keypad_byte: "list_all (\<lambda>y. snd y < 256) keypad" by (simp add: keypad_def)

lemma charcode_byte: "unat (charcode shift d) < 256"
proof -
  let ?i = "unat (shift AND (CTL OR SHIFT))"
  have "unat (normalmap d) < 256" "unat (shiftmap d) < 256" "unat (ctlmap d) < 256"
    unfolding normalmap_def shiftmap_def ctlmap_def by (rule table_byte; simp add: keypad_byte)+
  moreover have "shift AND (CTL OR SHIFT) = take_bit 2 shift"
    by (simp add: CTL_def SHIFT_def take_bit_eq_mask mask_numeral)
  then have "?i = take_bit 2 (unat shift)" by (simp only: unsigned_take_bit_eq)
  then have "?i < 4" by (simp add: take_bit_eq_mod)
  then have "?i = 0 \<or> ?i = 1 \<or> ?i = 2 \<or> ?i = 3" by linarith
  ultimately show ?thesis by (auto simp: charcode_def)
qed

lemma kbdgetc_byte: "unat (fst (kbdgetc data shift)) < 256"
proof -
  have down: "unat (c - 32) < 256" if "unat c < 256" "97 \<le> c" for c :: uint
    using that by (simp add: unat_sub word_le_nat_alt)
  have up: "unat (c + 32) < 256" if "c \<le> 90" for c :: uint
    using that by (simp add: unat_word_ariths word_le_nat_alt)
  show ?thesis
    using charcode_byte down up by (auto simp: kbdgetc_def Let_def)
qed

lemma kbd_codes_bytes: "list_all (\<lambda>c. unat c < 256) (fst (kbd_codes ds shift))"
proof (induction ds arbitrary: shift)
  case (Cons data ds)
  with kbdgetc_byte [of data shift] show ?case by (auto simp: Let_def split: prod.splits) (metis fst_conv)+
qed simp

text \<open>So the keyboard never breaks the console.\<close>

lemma kbdintr_line_discipline:
  assumes "cons_inv (k, pt)"
  shows "\<exists>shift' k' pt' d. kbdintr ds shift (k, pt) = Inr (shift', k', pt', d) \<and> cons_inv (k', pt') \<and>
    lines_of (inp k') = fold type_code (fst (kbd_codes ds shift)) (lines_of (inp k))"
proof -
  obtain cs sh where c: "kbd_codes ds shift = (cs, sh)" by (rule prod.exhaust)
  with kbd_codes_bytes [of ds shift] have "list_all (\<lambda>c. unat c < 256) cs" by simp
  from consoleintr_spec [OF assms this] show ?thesis by (metis (no_types, lifting) c case_prod_conv fst_conv kbdintr_def mapE_simps(2))
qed

text \<open>Shift, H, release of both, i, return: the line ``Hi''.\<close>

lemma typed_on_keyboard:
  "filter (\<lambda>c. c \<noteq> 0) (fst (kbd_codes [0x2A, 0x23, 0xA3, 0xAA, 0x17, 0x97, 0x1C] 0)) = [72, 105, 10]"
  by (simp add: kbdgetc_def Let_def shiftcode_def togglecode_def table_def charcode_def normalmap_def shiftmap_def
      SHIFT_def CTL_def CAPSLOCK_def E0ESC_def)

end
