(* ===== verification/Polygons.thy ===== *)
theory Polygons
  imports Printf
begin

text \<open>
  The polygon programs of the first two exercises (\<open>ex1/q1/main.c\<close>, \<open>ex2/q1/main.c\<close>,
  \<open>ex2/q1/writer.c\<close>). A 64-bit command word packs flags, an action and up to four vertices of
  two signed 6-bit coordinates; the program keeps the list of the polygons added so far and
  reports on one polygon or on all of a kind. The second exercise spreads the reading over
  processes that pass the words on as text through pipes. A report holds what is printed:
  the vertices, twice the area, and the squared lengths of the edges, whose square roots the
  program sums up; the rounding of that sum to one decimal is left out.
\<close>

section \<open>Command words\<close>

definition isLastIteration :: "uint64 \<Rightarrow> bool" where
  "isLastIteration input \<longleftrightarrow> input AND 0x1 \<noteq> 0"

definition isNewPolygon :: "uint64 \<Rightarrow> bool" where
  "isNewPolygon input \<longleftrightarrow> 0 < input AND 0x2"

definition getPolygonType :: "uint64 \<Rightarrow> byte" where
  "getPolygonType input = ucast (input AND 0x4)"

definition getAction :: "uint64 \<Rightarrow> byte" where
  "getAction input = ucast (input AND 0x38)"

definition getWhomRunOn :: "uint64 \<Rightarrow> byte" where
  "getWhomRunOn input = ucast (drop_bit 6 (input AND 0xc0))"

definition TRIANGLE :: byte where "TRIANGLE = 0"
definition SQUARE :: byte where "SQUARE = 4"
definition THIS_POLYGON :: byte where "THIS_POLYGON = 0"
definition ALL_TRIANGLES :: byte where "ALL_TRIANGLES = 1"
definition ALL_SQUARES :: byte where "ALL_SQUARES = 2"
definition ALL_POLYGONS :: byte where "ALL_POLYGONS = 3"
definition WRITE_VERTICES :: byte where "WRITE_VERTICES = 8"
definition CALC_PERIMETER :: byte where "CALC_PERIMETER = 16"
definition CALC_AREA :: byte where "CALC_AREA = 32"

text \<open>\<open>char\<close> is signed; \<open>x ^ 0xc0\<close> is computed as an \<open>int\<close> and cut to a \<open>char\<close>.\<close>

definition extend6 :: "byte \<Rightarrow> byte" where
  "extend6 x = (if sint x < 32 then x else x XOR 0xc0)"

definition getXAndY :: "uint64 \<Rightarrow> nat \<Rightarrow> byte \<times> byte" where
  "getXAndY input vertixNumber =
     (let xMask = 0x3f00; yMask = 0xfc000;
          x = ucast (drop_bit (8 + vertixNumber * 12) (input AND push_bit (vertixNumber * 12) xMask));
          y = ucast (drop_bit (14 + vertixNumber * 12) (input AND push_bit (vertixNumber * 12) yMask))
      in (extend6 x, extend6 y))"

section \<open>Reports\<close>

datatype report =
    Vertices bool "(int \<times> int) list"   \<comment> \<open>whether it is a square, and its vertices\<close>
  | Perimeter "int list"               \<comment> \<open>the squared lengths of the edges\<close>
  | Area int                           \<comment> \<open>twice the number printed\<close>

definition vertex :: "uint64 \<Rightarrow> nat \<Rightarrow> int \<times> int" where
  "vertex input v = (sint (fst (getXAndY input v)), sint (snd (getXAndY input v)))"

definition edgeLength :: "int \<times> int \<Rightarrow> int \<times> int \<Rightarrow> int" where
  "edgeLength p q = (fst p - fst q) * (fst p - fst q) + (snd p - snd q) * (snd p - snd q)"

definition perimeter :: "uint64 \<Rightarrow> report" where
  "perimeter input =
     (let p1 = vertex input 0; p2 = vertex input 1; p3 = vertex input 2
      in if getPolygonType input = SQUARE then
           let p4 = vertex input 3
           in Perimeter [edgeLength p1 p2, edgeLength p2 p3, edgeLength p3 p4, edgeLength p4 p1]
         else Perimeter [edgeLength p1 p2, edgeLength p2 p3, edgeLength p3 p1])"

text \<open>The loop of \<open>polygonArea\<close>: \<open>j\<close> is the vertex before the first of the list.\<close>

fun area_loop :: "int \<times> int \<Rightarrow> (int \<times> int) list \<Rightarrow> int \<Rightarrow> int" where
  "area_loop j [] area = area"
| "area_loop j (i # ps) area = area_loop i ps (area + (fst j + fst i) * (snd j - snd i))"

definition polygonArea :: "(int \<times> int) list \<Rightarrow> int" where
  "polygonArea ps = area_loop (ps ! (length ps - 1)) ps 0"

definition area :: "uint64 \<Rightarrow> report" where
  "area input =
     Area (polygonArea (map (vertex input) (if getPolygonType input = SQUARE then [0, 1, 2, 3] else [0, 1, 2])))"

definition print_polygon :: "uint64 \<Rightarrow> report" where
  "print_polygon input =
     (let numVertices = (if getPolygonType input = SQUARE then 4 else 3)
      in Vertices (getPolygonType input = SQUARE) (map (vertex input) [0..<numVertices]))"

definition runAction :: "byte \<Rightarrow> uint64 \<Rightarrow> report list" where
  "runAction action input =
     (if 0 < action AND WRITE_VERTICES then [print_polygon input] else []) @
     (if 0 < action AND CALC_PERIMETER then [perimeter input] else []) @
     (if 0 < action AND CALC_AREA then [area input] else [])"

section \<open>The list of polygons\<close>

definition add_polygon :: "uint64 \<Rightarrow> uint64 list \<Rightarrow> uint64 list" where
  "add_polygon input polygons = polygons @ [input]"

definition do_current :: "uint64 \<Rightarrow> report list" where
  "do_current input = runAction (getAction input) input"

fun do_all_loop :: "byte \<Rightarrow> byte \<Rightarrow> uint64 list \<Rightarrow> report list" where
  "do_all_loop runOn action [] = []"
| "do_all_loop runOn action (p # polygons) =
     (if runOn = ALL_POLYGONS \<or> runOn = ALL_TRIANGLES \<and> getPolygonType p = TRIANGLE \<or>
         runOn = ALL_SQUARES \<and> getPolygonType p = SQUARE
      then runAction action p @ do_all_loop runOn action polygons
      else do_all_loop runOn action polygons)"

definition do_all :: "uint64 \<Rightarrow> uint64 list \<Rightarrow> report list" where
  "do_all input polygons = do_all_loop (getWhomRunOn input) (getAction input) polygons"

text \<open>One command, as \<open>main\<close> of the first exercise and \<open>runOnPolygon\<close> of the second run it.\<close>

definition runOnPolygon :: "uint64 \<Rightarrow> uint64 list \<Rightarrow> report list \<times> uint64 list" where
  "runOnPolygon polygon polygons =
     (let polygons = (if isNewPolygon polygon then add_polygon polygon polygons else polygons)
      in (if getWhomRunOn polygon = THIS_POLYGON then do_current polygon else do_all polygon polygons, polygons))"

text \<open>
  The loop of \<open>main\<close>. \<open>scanf\<close> does not change \<open>input\<close> at the end of the file, and
  \<open>main\<close> does not look at its result: then the loop goes on for ever, \<open>None\<close>.
\<close>

fun main_loop :: "uint64 list \<Rightarrow> uint64 list \<Rightarrow> report list option" where
  "main_loop [] polygons = None"
| "main_loop (input # inputs) polygons =
     (let (out, polygons) = runOnPolygon input polygons
      in if isLastIteration input then Some out else map_option (append out) (main_loop inputs polygons))"

section \<open>The second exercise\<close>

text \<open>
  Standard input is a list of words, each a number, as \<open>scanf\<close> separates them. A number of
  base 16 may have a sign and the prefix \<open>0x\<close> and is read modulo \<open>2 ^ 64\<close>.
\<close>

definition hex_digit :: "byte \<Rightarrow> nat option" where
  "hex_digit c =
     (if 48 \<le> c \<and> c \<le> 57 then Some (unat c - 48)
      else if 97 \<le> c \<and> c \<le> 102 then Some (unat c - 87)
      else if 65 \<le> c \<and> c \<le> 70 then Some (unat c - 55)
      else None)"

fun hex_value :: "uint64 \<Rightarrow> byte list \<Rightarrow> uint64" where
  "hex_value n [] = n"
| "hex_value n (c # cs) =
     (case hex_digit c of None \<Rightarrow> n | Some d \<Rightarrow> hex_value (16 * n + of_nat d) cs)"

definition scan_digits :: "byte list \<Rightarrow> uint64" where
  "scan_digits cs =
     hex_value 0 (if length cs \<ge> 2 \<and> cs ! 0 = 48 \<and> (cs ! 1 = 120 \<or> cs ! 1 = 88) then drop 2 cs else cs)"

definition scan_hex :: "byte list \<Rightarrow> uint64" where
  "scan_hex cs = (case cs of [] \<Rightarrow> 0
     | c # ds \<Rightarrow> if c = 45 then - scan_digits ds else if c = 43 then scan_digits ds else scan_digits cs)"

definition scan_hex16 :: "byte list \<Rightarrow> uint64" where
  "scan_hex16 cs = scan_hex (take 16 (dropWhile (\<lambda>c. c = 32) cs))"

definition hex_word :: "uint64 \<Rightarrow> byte list" where
  "hex_word x = map (nth kernel_digits) (rev (digits_of 16 (unat x)))"

definition print_hex16 :: "uint64 \<Rightarrow> byte list" where
  "print_hex16 x = replicate (16 - length (hex_word x)) 32 @ hex_word x"

definition scan_dec :: "byte list \<Rightarrow> int" where
  "scan_dec w = (case w of [] \<Rightarrow> 0
     | c # ds \<Rightarrow>
        let num = (\<lambda>w. int (dec_value 0 (takeWhile is_digit w)))
        in if c = 45 then - num ds else if c = 43 then num ds else num w)"

text \<open>
  What the two readers do when they get a byte on their signal pipe: they take words from
  the input and write 16 characters to the common pipe. \<open>%16llx\<close> takes at most 16
  characters of a word and leaves the rest in the input.
\<close>

definition reader32 :: "byte list list \<Rightarrow> (byte list \<times> byte list list) option" where
  "reader32 ws = (case ws of
       lo # hi # ws \<Rightarrow> Some (print_hex16 (push_bit 32 (scan_hex hi) + scan_hex lo), ws)
     | _ \<Rightarrow> None)"

definition reader64 :: "byte list list \<Rightarrow> (byte list \<times> byte list list) option" where
  "reader64 ws = (case ws of
       w # ws \<Rightarrow> Some (print_hex16 (scan_hex16 w), if length w > 16 then drop 16 w # ws else ws)
     | _ \<Rightarrow> None)"

definition pending_input :: "byte list list \<Rightarrow> nat" where
  "pending_input ws = sum_list (map (\<lambda>w. Suc (length w)) ws)"

lemma readers_consume:
  "(if b then reader32 ws else reader64 ws) = Some (buf, ws') \<Longrightarrow> pending_input ws' < pending_input ws"
  by (auto simp: reader32_def reader64_def pending_input_def split: if_splits list.splits)

text \<open>\<open>runMainLoop\<close>: pick a reader by the word \<open>32\<close>, signal it, read 16 characters back.\<close>

function runMainLoop :: "byte list list \<Rightarrow> uint64 list \<Rightarrow> report list option" where
  "runMainLoop [] polygons = None"
| "runMainLoop (w # ws) polygons =
     (case (if scan_dec w = 32 then reader32 ws else reader64 ws) of
        None \<Rightarrow> None
      | Some (polygonBuffer, ws) \<Rightarrow>
          let nextPolygon = scan_hex16 polygonBuffer;
              (out, polygons) = runOnPolygon nextPolygon polygons
          in if isLastIteration nextPolygon then Some out
             else map_option (append out) (runMainLoop ws polygons))"
  by pat_completeness auto
termination
proof (relation "measure (\<lambda>(ws, polygons). pending_input ws)", goal_cases)
  case (2 w ws polygons p buf ws' np q out polygons')
  then have "pending_input ws' < pending_input ws" using readers_consume by metis
  then show ?case by (simp add: pending_input_def)
qed simp

text \<open>\<open>writer.c\<close>: \<open>ch\<close> is a \<open>char\<close>, so the byte 255 looks like \<open>EOF\<close>.\<close>

fun writer_loop :: "byte list \<Rightarrow> byte list" where
  "writer_loop [] = []"
| "writer_loop (ch # cs) = (if sint ch = - 1 then [] else ch # writer_loop cs)"

section \<open>Text through the pipe\<close>

lemma nth_kernel_digits:
  assumes "d < 16"
  shows "hex_digit (kernel_digits ! d) = Some d" "kernel_digits ! d \<notin> {32, 43, 45, 88, 120}"
proof -
  have "\<forall>d \<in> set [0..<16]. hex_digit (kernel_digits ! d) = Some d \<and> kernel_digits ! d \<notin> {32, 43, 45, 88, 120}"
    by code_simp
  then show "hex_digit (kernel_digits ! d) = Some d" "kernel_digits ! d \<notin> {32, 43, 45, 88, 120}"
    using assms by simp_all
qed

lemma hex_value_snoc:
  "list_all (\<lambda>c. hex_digit c \<noteq> None) cs \<Longrightarrow> hex_digit c = Some d \<Longrightarrow>
     hex_value n (cs @ [c]) = 16 * hex_value n cs + of_nat d"
  by (induction cs arbitrary: n) (auto split: option.splits)

lemma hex_value_digits:
  "hex_value 0 (map (nth kernel_digits) (rev (digits_of 16 n))) = of_nat n"
proof (induction "16::nat" n rule: digits_of.induct)
  case (1 n)
  show ?case
  proof (cases "n < 16")
    case True
    then show ?thesis using nth_kernel_digits(1) [of n] by (subst digits_of.simps) simp
  next
    case False
    let ?ds = "digits_of 16 (n div 16)"
    have d: "digits_of 16 n = n mod 16 # ?ds" using False by (subst digits_of.simps) simp
    have all: "list_all (\<lambda>c. hex_digit c \<noteq> None) (map (nth kernel_digits) (rev ?ds))"
      using digits_of_less [of 16 _ "n div 16"] nth_kernel_digits(1) by (auto simp: list_all_iff)
    have "hex_value 0 (map (nth kernel_digits) (rev (digits_of 16 n)))
        = 16 * of_nat (n div 16) + of_nat (n mod 16)"
      using hex_value_snoc [OF all nth_kernel_digits(1) [of "n mod 16"]] 1 False by (simp add: d)
    also have "\<dots> = (of_nat (16 * (n div 16) + n mod 16) :: uint64)"
      by (simp only: of_nat_add of_nat_mult of_nat_numeral)
    finally show ?thesis by simp
  qed
qed

lemma hex_word_chars:
  "set (hex_word x) \<inter> {32, 43, 45, 88, 120} = {}" "hex_word x \<noteq> []" "length (hex_word x) \<le> 16"
proof -
  show "set (hex_word x) \<inter> {32, 43, 45, 88, 120} = {}"
    using digits_of_less [of 16 _ "unat x"] nth_kernel_digits(2) by (auto simp: hex_word_def)
  show "hex_word x \<noteq> []" by (subst hex_word_def, subst digits_of.simps) simp
  have "unat x < 16 ^ Suc 15" using unsigned_less [of x, where ?'a = nat] by simp
  then show "length (hex_word x) \<le> 16" using digits_of_length [of 16 "unat x" 15] by (simp add: hex_word_def)
qed

lemma scan_hex_word: "scan_hex (hex_word x) = x"
proof -
  have "hex_value 0 (hex_word x) = x" by (simp add: hex_word_def hex_value_digits)
  moreover have "hd (hex_word x) \<notin> {43, 45}"
    using hex_word_chars(1) [of x] hd_in_set [OF hex_word_chars(2) [of x]] by fastforce
  moreover have "length (hex_word x) \<ge> 2 \<longrightarrow> hex_word x ! 1 \<notin> {88, 120}"
    using hex_word_chars(1) [of x] nth_mem [of 1 "hex_word x"] by fastforce
  ultimately show ?thesis
    using hex_word_chars(2) [of x] by (cases "hex_word x") (auto simp: scan_hex_def scan_digits_def)
qed

lemma scan_print_hex16: "scan_hex16 (print_hex16 x) = x"
proof -
  have "dropWhile (\<lambda>c. c = 32) (hex_word x) = hex_word x"
    using hex_word_chars(1,2) [of x] by (cases "hex_word x") auto
  then have "dropWhile (\<lambda>c. c = 32) (print_hex16 x) = hex_word x"
    by (simp add: print_hex16_def dropWhile_append)
  then show ?thesis using hex_word_chars(3) [of x] by (simp add: scan_hex16_def scan_hex_word)
qed


text \<open>How a command is given to the second program: as two halves of 32 bits, or whole.\<close>

definition input_words :: "bool \<times> uint64 \<Rightarrow> byte list list" where
  "input_words = (\<lambda>(split, x).
     if split then [msg ''32'', hex_word (take_bit 32 x), hex_word (drop_bit 32 x)]
     else [msg ''64'', hex_word x])"

lemma scan_selectors: "scan_dec (msg ''32'') = 32" "scan_dec (msg ''64'') = 64"
  by (simp_all add: scan_dec_def msg_def is_digit_def)

lemma halves: "push_bit 32 (drop_bit 32 x) + take_bit 32 x = (x :: uint64)"
  using bits_ident [of 32 x] by simp

lemma scan_hex16_word: "scan_hex16 (hex_word x) = x"
proof -
  have "dropWhile (\<lambda>c. c = 32) (hex_word x) = hex_word x"
    using hex_word_chars(1,2) [of x] by (cases "hex_word x") auto
  then show ?thesis using hex_word_chars(3) [of x] by (simp add: scan_hex16_def scan_hex_word)
qed

lemma runMainLoop_words:
  "runMainLoop (concat (map input_words cmds)) polygons = main_loop (map snd cmds) polygons"
proof (induction cmds arbitrary: polygons)
  case Nil
  then show ?case by simp
next
  case (Cons c cmds)
  obtain split x where c: "c = (split, x)" by (rule prod.exhaust)
  let ?rest = "concat (map input_words cmds)"
  have r: "(if split then reader32 (tl (input_words c) @ ?rest) else reader64 (tl (input_words c) @ ?rest))
      = Some (print_hex16 x, ?rest)"
    using hex_word_chars(3) [of x]
    by (simp add: c input_words_def reader32_def reader64_def scan_hex_word halves scan_hex16_word)
  have w: "concat (map input_words (c # cmds)) = hd (input_words c) # (tl (input_words c) @ ?rest)"
    "scan_dec (hd (input_words c)) = 32 \<longleftrightarrow> split"
    by (auto simp: c input_words_def scan_selectors)
  show ?case
    unfolding w(1) runMainLoop.simps w(2) r using Cons.IH
    by (simp add: c scan_print_hex16 Let_def split: prod.splits)
qed

section \<open>The area\<close>

fun cross_sum :: "int \<times> int \<Rightarrow> (int \<times> int) list \<Rightarrow> int" where
  "cross_sum j [] = 0"
| "cross_sum j (i # ps) = (fst i * snd j - fst j * snd i) + cross_sum i ps"

lemma area_loop_cross:
  "area_loop j ps a = a + cross_sum j ps + fst j * snd j - fst (last (j # ps)) * snd (last (j # ps))"
proof (induction ps arbitrary: j a)
  case (Cons i ps)
  then show ?case by (simp only: area_loop.simps cross_sum.simps last_ConsR list.distinct not_False_eq_True)
    (simp add: algebra_simps)
qed simp

lemma polygonArea_cross: "ps \<noteq> [] \<Longrightarrow> polygonArea ps = cross_sum (last ps) ps"
  by (simp add: polygonArea_def area_loop_cross last_conv_nth)

lemma cross_sum_snoc:
  "cross_sum j (ps @ [p]) = cross_sum j ps + (fst p * snd (last (j # ps)) - fst (last (j # ps)) * snd p)"
  by (induction ps arbitrary: j) auto

text \<open>Going round the other way changes the sign.\<close>

definition path_sum :: "(int \<times> int) list \<Rightarrow> int" where
  "path_sum ps = (case ps of [] \<Rightarrow> 0 | p # ps \<Rightarrow> cross_sum p ps)"

lemma path_sum_Cons: "ps \<noteq> [] \<Longrightarrow> path_sum (p # ps) = (fst (hd ps) * snd p - fst p * snd (hd ps)) + path_sum ps"
  by (cases ps) (auto simp: path_sum_def)

lemma path_sum_snoc:
  "ps \<noteq> [] \<Longrightarrow> path_sum (ps @ [q]) = path_sum ps + (fst q * snd (last ps) - fst (last ps) * snd q)"
  by (cases ps) (auto simp: path_sum_def cross_sum_snoc)

lemma path_sum_rev: "path_sum (rev ps) = - path_sum ps"
proof (induction ps)
  case (Cons p ps)
  show ?case
  proof (cases "ps = []")
    case False
    then show ?thesis using Cons by (simp add: path_sum_snoc path_sum_Cons last_rev)
  qed (simp add: path_sum_def)
qed (simp add: path_sum_def)

lemma polygonArea_rev: "ps \<noteq> [] \<Longrightarrow> polygonArea (rev ps) = - polygonArea ps"
proof -
  assume ne: "ps \<noteq> []"
  have "polygonArea (rev ps) = path_sum (rev (ps @ [hd ps]))"
    using ne polygonArea_cross [of "rev ps"] by (simp add: path_sum_def last_rev)
  also have "\<dots> = - path_sum (ps @ [hd ps])" by (rule path_sum_rev)
  also have "path_sum (ps @ [hd ps]) = path_sum (last ps # ps)"
    using ne by (simp add: path_sum_snoc path_sum_Cons)
  also have "\<dots> = polygonArea ps" using ne polygonArea_cross [of ps] by (simp add: path_sum_def)
  finally show ?thesis .
qed

section \<open>Packing vertices\<close>

fun pack_from :: "nat \<Rightarrow> (int \<times> int) list \<Rightarrow> uint64" where
  "pack_from k [] = 0"
| "pack_from k (p # ps) =
     push_bit k (take_bit 6 (word_of_int (fst p))) OR push_bit (k + 6) (take_bit 6 (word_of_int (snd p))) OR
     pack_from (k + 12) ps"

definition pack :: "uint64 \<Rightarrow> (int \<times> int) list \<Rightarrow> uint64" where
  "pack header ps = take_bit 8 header OR pack_from 8 ps"

lemma pack_from_low: "n < k \<Longrightarrow> \<not> bit (pack_from k ps) n"
  by (induction ps arbitrary: k) (auto simp: bit_simps)

lemma pack_from_bits:
  "v < length ps \<Longrightarrow> k + 12 * length ps \<le> 64 \<Longrightarrow> i < 6 \<Longrightarrow>
     bit (pack_from k ps) (k + 12 * v + i) = bit (fst (ps ! v)) i \<and>
     bit (pack_from k ps) (k + 12 * v + 6 + i) = bit (snd (ps ! v)) i"
proof (induction ps arbitrary: k v)
  case (Cons p ps)
  show ?case
  proof (cases v)
    case 0
    with Cons.prems pack_from_low [of _ "k + 12" ps] show ?thesis by (auto simp: bit_simps)
  next
    case (Suc w)
    have "bit (pack_from (k + 12) ps) (k + 12 + 12 * w + i) = bit (fst (ps ! w)) i \<and>
        bit (pack_from (k + 12) ps) (k + 12 + 12 * w + 6 + i) = bit (snd (ps ! w)) i"
      using Cons.prems Suc by (intro Cons.IH) auto
    with Cons.prems Suc show ?thesis by (auto simp: bit_simps algebra_simps)
  qed
qed simp


lemma extend6_values: "n < 64 \<Longrightarrow> sint (extend6 (of_nat n)) = (if n < 32 then int n else int n - 64)"
proof -
  assume "n < 64"
  moreover have "\<forall>n \<in> set [0..<64]. sint (extend6 (of_nat n)) = (if n < 32 then int n else int n - 64)"
    by code_simp
  ultimately show ?thesis by simp
qed

lemma extend6_signed:
  assumes "- 32 \<le> x" "x < 32" "c = ucast (take_bit 6 (word_of_int x :: uint64))"
  shows "sint (extend6 c) = x"
proof -
  define n where "n = nat (x mod 64)"
  have n: "n < 64" by (simp add: n_def nat_less_iff)
  have "take_bit 6 (word_of_int x :: uint64) = of_nat n"
    by (simp only: take_bit_of_int) (simp add: take_bit_eq_mod n_def)
  moreover have "ucast (of_nat n :: uint64) = (of_nat n :: byte)"
    using n by (simp add: word_unat_eq_iff unsigned_ucast_eq unat_of_nat take_bit_eq_mod)
  ultimately have "c = of_nat n" using assms(3) by simp
  then have "sint (extend6 c) = (if n < 32 then int n else int n - 64)" using extend6_values [OF n] by simp
  also have "\<dots> = x"
  proof (cases "0 \<le> x")
    case True
    then show ?thesis using assms by (simp add: n_def)
  next
    case False
    then have "(x + 64) mod 64 = x + 64" using assms by (intro mod_pos_pos_trivial) auto
    then have "x mod 64 = x + 64" by simp
    then show ?thesis using False assms by (simp add: n_def)
  qed
  finally show ?thesis .
qed

lemma field_bits:
  assumes "v < 4" "\<And>i. i < 6 \<Longrightarrow> bit input (8 + 12 * v + i) = bit x i" "\<And>i. i < 6 \<Longrightarrow> bit input (14 + 12 * v + i) = bit y i"
  shows "getXAndY input v = (extend6 (ucast (take_bit 6 (word_of_int x :: uint64))), extend6 (ucast (take_bit 6 (word_of_int y :: uint64))))"
proof -
  have m: "(0x3f00 :: uint64) = push_bit 8 (mask 6)" "(0xfc000 :: uint64) = push_bit 14 (mask 6)"
    by (simp_all add: mask_numeral push_bit_eq_mult)
  have "drop_bit (8 + v * 12) (input AND push_bit (v * 12) 0x3f00) = take_bit 6 (word_of_int x)"
    unfolding m using assms(1,2) by (intro bit_word_eqI) (auto simp: bit_simps algebra_simps)
  moreover have "drop_bit (14 + v * 12) (input AND push_bit (v * 12) 0xfc000) = take_bit 6 (word_of_int y)"
    unfolding m using assms(1,3) by (intro bit_word_eqI) (auto simp: bit_simps algebra_simps)
  ultimately show ?thesis by (simp add: getXAndY_def)
qed

lemma vertex_pack:
  assumes "length ps \<le> 4" "v < length ps" "- 32 \<le> fst (ps ! v)" "fst (ps ! v) < 32" "- 32 \<le> snd (ps ! v)" "snd (ps ! v) < 32"
  shows "vertex (pack h ps) v = ps ! v"
proof -
  have b: "bit (pack h ps) (8 + 12 * v + i) = bit (fst (ps ! v)) i"
    "bit (pack h ps) (14 + 12 * v + i) = bit (snd (ps ! v)) i" if "i < 6" for i
    using pack_from_bits [OF assms(2), of 8 i] that assms(1)
    by (auto simp: pack_def bit_simps algebra_simps)
  have "getXAndY (pack h ps) v =
      (extend6 (ucast (take_bit 6 (word_of_int (fst (ps ! v)) :: uint64))), extend6 (ucast (take_bit 6 (word_of_int (snd (ps ! v)) :: uint64))))"
    by (rule field_bits) (use assms(1,2) b in auto)
  then show ?thesis
    using extend6_signed [OF assms(3,4) refl] extend6_signed [OF assms(5,6) refl] by (simp add: vertex_def)
qed


section \<open>Properties\<close>

text \<open>
  Packed coordinates come back: from a command word whose vertices were packed as two
  signed 6-bit fields each, whatever the header bits, \<open>getXAndY\<close> gets every vertex.
\<close>

lemma packed_vertices_come_back:
  assumes "length ps \<le> 4" "v < length ps" "- 32 \<le> fst (ps ! v)" "fst (ps ! v) < 32" "- 32 \<le> snd (ps ! v)" "snd (ps ! v) < 32"
  shows "map_prod sint sint (getXAndY (pack header ps) v) = ps ! v"
  using vertex_pack [OF assms] by (simp add: vertex_def map_prod_def split_beta)

lemma packed_vertices_come_back_witness:
  "map_prod sint sint (getXAndY (pack 0xfe [(1, - 32), (- 5, 31), (7, - 1)]) 1) = (- 5, 31)"
  using packed_vertices_come_back [where ps = "[(1, - 32), (- 5, 31), (7, - 1)]" and v = 1 and header = "0xfe"] by simp


text \<open>
  \<open>polygonArea\<close> computes twice the signed area, the cyclic sum of the cross products of
  successive vertices. It is negative for polygons given in one of the two directions.
\<close>

lemma polygon_area_is_signed:
  assumes "ps \<noteq> []"
  shows "polygonArea ps = cross_sum (last ps) ps \<and> polygonArea (rev ps) = - polygonArea ps"
  using polygonArea_cross polygonArea_rev assms by blast

lemma polygon_area_is_signed_witness:
  "polygonArea [(0, 0), (0, 3), (4, 0)] = 12 \<and> polygonArea [(4, 0), (0, 3), (0, 0)] = - 12"
  using polygon_area_is_signed [of "[(0, 0), (0, 3), (4, 0)]"] by (simp add: polygonArea_def)

text \<open>Without a last command the loop of \<open>main\<close> never ends.\<close>

lemma no_last_command: "list_all (\<lambda>i. \<not> isLastIteration i) inputs \<Longrightarrow> main_loop inputs polygons = None"
  by (induction inputs arbitrary: polygons) (auto simp: Let_def split: prod.splits)

end
