(* ===== verification/Prodcons.thy ===== *)
theory Prodcons
  imports Sem
begin

text \<open>
  The program \<open>pc.c\<close> that exercises the semaphores: producers and consumers share a buffer
  of three places, write their messages one at a time, and wait at a gate until the parent
  has created all of them. The program is stated over the operations on semaphores it
  calls; what it needs of them is the interface \<open>counting_semaphores\<close>, inside which its
  properties are proved, and the semaphores of the kernel are shown to provide it. A process
  that would sleep makes no step; that sleepers are woken is the business of the semaphores.
\<close>

section \<open>The program\<close>

definition MAX_MSG :: nat where "MAX_MSG = 3"

text \<open>The semaphores by the order in which \<open>main\<close> opens them.\<close>

definition WAITC :: nat where "WAITC = 0"
definition BUFFA :: nat where "BUFFA = 1"
definition BUFFB :: nat where "BUFFB = 2"
definition TOTAL :: nat where "TOTAL = 3"
definition WRITE :: nat where "WRITE = 4"

text \<open>
  Where a child is: before closing the gate semaphore, before unlinking it, before the wait
  on the buffer, before the wait for the right to write, writing, before giving the right
  back, before posting to the other side; the number counts the rounds done. Consumers also
  ask for one of the messages still due.
\<close>

datatype place =
    Closing | Gate
  | PTake nat | PWrite nat | PWriting nat | PWritten nat | PGive nat
  | CAsk nat | CTake nat | CWrite nat | CWriting nat | CWritten nat | CGive nat
  | PDone nat | CDone nat   \<comment> \<open>exited\<close>

text \<open>
  The operations: \<open>sem_wait\<close>, \<open>sem_try_wait\<close> (\<open>None\<close>: it would sleep, or it failed), \<open>sem_post\<close>,
  for the gate \<open>sem_close\<close> and \<open>sem_unlink\<close>, and what a \<open>fork\<close> does to the semaphores. The first argument is the process.
\<close>

record 's semops =
  op_wait :: "nat \<Rightarrow> nat \<Rightarrow> 's \<Rightarrow> 's option"
  op_try :: "nat \<Rightarrow> 's \<Rightarrow> 's option"
  op_post :: "nat \<Rightarrow> 's \<Rightarrow> 's"
  op_close :: "nat \<Rightarrow> 's \<Rightarrow> 's"
  op_unlink :: "nat \<Rightarrow> 's \<Rightarrow> 's option"
  op_fork :: "'s \<Rightarrow> 's"

fun child_move ::
  "'s semops \<Rightarrow> nat \<Rightarrow> bool \<Rightarrow> nat \<Rightarrow> place \<Rightarrow> 's \<Rightarrow> (place \<times> 's) option" where
  "child_move ops msgs isprod me Closing s = Some (Gate, op_close ops WAITC s)"
| "child_move ops msgs isprod me Gate s =
     map_option (Pair (if isprod then PTake 0 else CAsk 0)) (op_unlink ops me s)"
| "child_move ops msgs isprod me (PTake j) s =
     (if j < msgs then map_option (Pair (PWrite j)) (op_wait ops me BUFFA s) else Some (PDone j, s))"
| "child_move ops msgs isprod me (PWrite j) s = map_option (Pair (PWriting j)) (op_wait ops me WRITE s)"
| "child_move ops msgs isprod me (PWriting j) s = Some (PWritten j, s)"
| "child_move ops msgs isprod me (PWritten j) s = Some (PGive j, op_post ops WRITE s)"
| "child_move ops msgs isprod me (PGive j) s = Some (PTake (Suc j), op_post ops BUFFB s)"
| "child_move ops msgs isprod me (CAsk k) s =
     (case op_try ops TOTAL s of Some s \<Rightarrow> Some (CTake k, s) | None \<Rightarrow> Some (CDone k, s))"
| "child_move ops msgs isprod me (CTake k) s = map_option (Pair (CWrite k)) (op_wait ops me BUFFB s)"
| "child_move ops msgs isprod me (CWrite k) s = map_option (Pair (CWriting k)) (op_wait ops me WRITE s)"
| "child_move ops msgs isprod me (CWriting k) s = Some (CWritten k, s)"
| "child_move ops msgs isprod me (CWritten k) s = Some (CGive k, op_post ops WRITE s)"
| "child_move ops msgs isprod me (CGive k) s = Some (CAsk (Suc k), op_post ops BUFFA s)"
| "child_move ops msgs isprod me (PDone j) s = None"
| "child_move ops msgs isprod me (CDone k) s = None"

text \<open>The parent: it creates the children, writes its message, opens the gate, and waits for them.\<close>

datatype parent = Creating | Announcing | Opening | Waiting

record 's pcs =
  sems :: 's
  kids :: "place list"
  par :: parent

text \<open>The first \<open>prods\<close> children are producers. Every \<open>fork\<close> succeeds.\<close>

inductive pc_step :: "'s semops \<Rightarrow> nat \<Rightarrow> nat \<Rightarrow> nat \<Rightarrow> 's pcs \<Rightarrow> 's pcs \<Rightarrow> bool"
  for ops :: "'s semops" and prods conss msgs :: nat where
  create: "par s = Creating \<Longrightarrow> length (kids s) < prods + conss \<Longrightarrow>
    pc_step ops prods conss msgs s (s\<lparr>kids := kids s @ [Closing], sems := op_fork ops (sems s)\<rparr>)"
| created: "par s = Creating \<Longrightarrow> \<not> length (kids s) < prods + conss \<Longrightarrow>
    pc_step ops prods conss msgs s (s\<lparr>par := Announcing\<rparr>)"
| announce: "par s = Announcing \<Longrightarrow> pc_step ops prods conss msgs s (s\<lparr>par := Opening\<rparr>)"
| open_gate: "par s = Opening \<Longrightarrow>
    pc_step ops prods conss msgs s (s\<lparr>par := Waiting, sems := op_close ops WAITC (sems s)\<rparr>)"
| child: "i < length (kids s) \<Longrightarrow> child_move ops msgs (i < prods) i (kids s ! i) (sems s) = Some (pl, ss) \<Longrightarrow>
    pc_step ops prods conss msgs s (s\<lparr>kids := (kids s)[i := pl], sems := ss\<rparr>)"

section \<open>Counting\<close>

text \<open>What the place of a child says: numbers that, summed over the children, balance the counters.\<close>

fun inside :: "place \<Rightarrow> int" where   \<comment> \<open>holds the right to write\<close>
  "inside (PWriting j) = 1" | "inside (PWritten j) = 1"
| "inside (CWriting j) = 1" | "inside (CWritten j) = 1"
| "inside _ = 0"

fun carries :: "place \<Rightarrow> int" where   \<comment> \<open>has taken from one side and not given to the other\<close>
  "carries (PWrite j) = 1" | "carries (PWriting j) = 1" | "carries (PWritten j) = 1" | "carries (PGive j) = 1"
| "carries (CWrite j) = 1" | "carries (CWriting j) = 1" | "carries (CWritten j) = 1" | "carries (CGive j) = 1"
| "carries _ = 0"

fun produced :: "place \<Rightarrow> int" where
  "produced (PTake j) = int j" | "produced (PWrite j) = int j" | "produced (PWriting j) = int j"
| "produced (PWritten j) = int j" | "produced (PGive j) = int j" | "produced (PDone j) = int j"
| "produced _ = 0"

fun asked :: "place \<Rightarrow> int" where
  "asked (CAsk k) = int k" | "asked (CTake k) = int k + 1" | "asked (CWrite k) = int k + 1"
| "asked (CWriting k) = int k + 1" | "asked (CWritten k) = int k + 1" | "asked (CGive k) = int k + 1"
| "asked (CDone k) = int k"
| "asked _ = 0"

fun taken :: "place \<Rightarrow> int" where
  "taken (CAsk k) = int k" | "taken (CTake k) = int k" | "taken (CWrite k) = int k + 1"
| "taken (CWriting k) = int k + 1" | "taken (CWritten k) = int k + 1" | "taken (CGive k) = int k + 1"
| "taken (CDone k) = int k"
| "taken _ = 0"

fun total_of :: "(place \<Rightarrow> int) \<Rightarrow> place list \<Rightarrow> int" where
  "total_of f [] = 0"
| "total_of f (p # ps) = f p + total_of f ps"

lemma total_of_update:
  "i < length ps \<Longrightarrow> total_of f (ps[i := p]) = total_of f ps + f p - f (ps ! i)"
proof (induction ps arbitrary: i)
  case (Cons q ps)
  then show ?case by (cases i) auto
qed simp

lemma total_of_nonneg: "(\<And>p. 0 \<le> f p) \<Longrightarrow> 0 \<le> total_of f ps"
  by (induction ps) auto

lemma total_of_member:
  assumes "i < length ps" "\<And>p. 0 \<le> f p"
  shows "f (ps ! i) \<le> total_of f ps"
  using assms(1)
proof (induction ps arbitrary: i)
  case (Cons p ps)
  have "0 \<le> total_of f ps" "0 \<le> f p" using total_of_nonneg assms(2) by blast+
  with Cons.IH [of "i - 1"] Cons.prems show ?case by (cases i) auto
qed simp

fun at_gate :: "place \<Rightarrow> int" where   \<comment> \<open>still refers to the gate semaphore\<close>
  "at_gate Closing = 1" | "at_gate _ = 0"

lemma weights_nonneg [simp]:
  "0 \<le> inside p" "0 \<le> carries p" "0 \<le> produced p" "0 \<le> asked p" "0 \<le> taken p" "0 \<le> at_gate p"
  by (cases p; simp)+

text \<open>The steps a child has made, apart from where it waits.\<close>

fun rank :: "place \<Rightarrow> nat" where
  "rank Closing = 0" | "rank Gate = 1"
| "rank (PTake j) = 2 + 5 * j" | "rank (PWrite j) = 3 + 5 * j" | "rank (PWriting j) = 4 + 5 * j"
| "rank (PWritten j) = 5 + 5 * j" | "rank (PGive j) = 6 + 5 * j" | "rank (PDone j) = 3 + 5 * j"
| "rank (CAsk k) = 2 + 6 * k" | "rank (CTake k) = 3 + 6 * k" | "rank (CWrite k) = 4 + 6 * k"
| "rank (CWriting k) = 5 + 6 * k" | "rank (CWritten k) = 6 + 6 * k" | "rank (CGive k) = 7 + 6 * k"
| "rank (CDone k) = 3 + 6 * k"

fun right_place :: "nat \<Rightarrow> bool \<Rightarrow> place \<Rightarrow> bool" where
  "right_place msgs isprod Closing = True" | "right_place msgs isprod Gate = True"
| "right_place msgs isprod (PTake j) = (isprod \<and> j \<le> msgs)" | "right_place msgs isprod (PWrite j) = (isprod \<and> j < msgs)"
| "right_place msgs isprod (PWriting j) = (isprod \<and> j < msgs)" | "right_place msgs isprod (PWritten j) = (isprod \<and> j < msgs)"
| "right_place msgs isprod (PGive j) = (isprod \<and> j < msgs)" | "right_place msgs isprod (PDone j) = (isprod \<and> j = msgs)"
| "right_place msgs isprod _ = (\<not> isprod)"

definition finished :: "place \<Rightarrow> bool" where
  "finished p \<longleftrightarrow> (case p of PDone _ \<Rightarrow> True | CDone _ \<Rightarrow> True | _ \<Rightarrow> False)"

lemma finished_weights:
  assumes "finished p"
  shows "inside p = 0" "carries p = 0" "at_gate p = 0" "asked p = taken p"
  using assms by (cases p; simp add: finished_def)+

definition before_gate :: "place \<Rightarrow> bool" where
  "before_gate p \<longleftrightarrow> p = Closing \<or> p = Gate"

definition steps_made :: "'s pcs \<Rightarrow> nat" where
  "steps_made s = sum_list (map rank (kids s)) + length (kids s) +
     (case par s of Creating \<Rightarrow> 0 | Announcing \<Rightarrow> 1 | Opening \<Rightarrow> 2 | Waiting \<Rightarrow> 3)"

lemma sum_rank_update:
  "i < length ps \<Longrightarrow> sum_list (map rank (ps[i := p])) + rank (ps ! i) = sum_list (map rank ps) + rank p"
proof (induction ps arbitrary: i)
  case (Cons q ps)
  then show ?case by (cases i) auto
qed simp

lemma sum_rank_le: "\<forall>p \<in> set ps. rank p \<le> 1 \<Longrightarrow> sum_list (map rank ps) \<le> length ps"
  by (induction ps) auto

lemma total_of_append [simp]: "total_of f (xs @ ys) = total_of f xs + total_of f ys"
  by (induction xs) auto

lemma total_of_const: "(\<And>p. p \<in> set ps \<Longrightarrow> f p = c) \<Longrightarrow> total_of f ps = int (length ps) * c"
  by (induction ps) (auto simp: algebra_simps)

lemma total_of_bound: "(\<And>p. p \<in> set ps \<Longrightarrow> f p \<le> c) \<Longrightarrow> total_of f ps \<le> int (length ps) * c"
  by (induction ps) (auto simp: algebra_simps add_mono)

lemma total_of_cong: "(\<And>p. p \<in> set ps \<Longrightarrow> f p = g p) \<Longrightarrow> total_of f ps = total_of g ps"
  by (induction ps) auto

lemma total_of_mono_strict:
  "(\<And>p. p \<in> set ps \<Longrightarrow> f p \<le> g p) \<Longrightarrow> q \<in> set ps \<Longrightarrow> f q < g q \<Longrightarrow> total_of f ps < total_of g ps"
proof (induction ps)
  case (Cons p ps)
  have le: "total_of f ps \<le> total_of g ps" using Cons.prems(1) by (induction ps) (auto intro: add_mono)
  have "f p \<le> g p" using Cons.prems(1) by simp
  moreover have "p \<noteq> q \<Longrightarrow> total_of f ps < total_of g ps"
    using Cons.prems by (intro Cons.IH) auto
  ultimately show ?case using le Cons.prems(3) by (cases "p = q") auto
qed simp

text \<open>Producers are the first children.\<close>

lemma produced_bound:
  assumes "length ks = prods + conss" "\<forall>i < length ks. right_place msgs (i < prods) (ks ! i)"
  shows "total_of produced ks \<le> int (prods * msgs)"
    and "(\<And>p. p \<in> set ks \<Longrightarrow> finished p \<or> (\<exists>k. p = CTake k)) \<Longrightarrow> total_of produced ks = int (prods * msgs)"
proof -
  let ?P = "take prods ks" and ?C = "drop prods ks"
  have P: "right_place msgs True p" if "p \<in> set ?P" for p
  proof -
    from that obtain j where j: "j < length ?P" "p = ?P ! j" by (metis in_set_conv_nth)
    then have "j < length ks" "j < prods" "p = ks ! j" by simp_all
    with assms(2) show ?thesis by metis
  qed
  have C: "right_place msgs False p" if "p \<in> set ?C" for p
  proof -
    from that obtain j where j: "j < length ?C" "p = ?C ! j" by (metis in_set_conv_nth)
    then have "prods + j < length ks" "p = ks ! (prods + j)" using assms(1) by simp_all
    with assms(2) show ?thesis by (metis not_add_less1)
  qed
  have split: "total_of produced ks = total_of produced ?P + total_of produced ?C"
    by (metis append_take_drop_id total_of_append)
  have "total_of produced ?C = int (length ?C) * 0"
  proof (rule total_of_const)
    fix p assume "p \<in> set ?C"
    from C [OF this] show "produced p = 0" by (cases p) auto
  qed
  moreover have "total_of produced ?P \<le> int (length ?P) * int msgs"
  proof (rule total_of_bound)
    fix p assume "p \<in> set ?P"
    from P [OF this] show "produced p \<le> int msgs" by (cases p) auto
  qed
  ultimately show "total_of produced ks \<le> int (prods * msgs)" using split assms(1) by simp
  assume fin: "\<And>p. p \<in> set ks \<Longrightarrow> finished p \<or> (\<exists>k. p = CTake k)"
  have "total_of produced ?P = int (length ?P) * int msgs"
  proof (rule total_of_const)
    fix p assume p: "p \<in> set ?P"
    then have "p \<in> set ks" by (rule in_set_takeD)
    with P [OF p] fin show "produced p = int msgs" by (cases p) (force simp: finished_def)+
  qed
  with \<open>total_of produced ?C = _\<close> show "total_of produced ks = int (prods * msgs)" using split assms(1) by simp
qed

lemma rank_bound:
  assumes "length ks = prods + conss" "\<forall>i < length ks. right_place msgs (i < prods) (ks ! i)"
  shows "int (sum_list (map rank ks)) \<le> int (prods * (3 + 5 * msgs)) + (3 * int conss + 6 * total_of asked ks)"
  using assms
proof (induction ks arbitrary: prods conss)
  case Nil
  then show ?case by simp
next
  case (Cons p ks)
  have p: "right_place msgs (0 < prods) p" using Cons.prems(2) by force
  have rest: "right_place msgs (Suc i < prods) (ks ! i)" if "i < length ks" for i
    using Cons.prems(2) that by (metis Suc_less_eq length_Cons nth_Cons_Suc)
  show ?case
  proof (cases prods)
    case 0
    with p have "int (rank p) \<le> 3 + 6 * asked p" by (cases p) auto
    moreover have "int (sum_list (map rank ks)) \<le> int (0 * (3 + 5 * msgs)) + (3 * int (conss - 1) + 6 * total_of asked ks)"
      using Cons.prems(1) rest 0 by (intro Cons.IH) auto
    moreover have "0 < conss" using Cons.prems(1) 0 by simp
    ultimately show ?thesis using 0 by (simp add: of_nat_diff)
  next
    case (Suc m)
    with p have "rank p \<le> 3 + 5 * msgs" by (cases p) auto
    then have "int (rank p) \<le> int (3 + 5 * msgs)" by (simp only: of_nat_le_iff)
    moreover have "int (sum_list (map rank ks)) \<le> int (m * (3 + 5 * msgs)) + (3 * int conss + 6 * total_of asked ks)"
      using Cons.prems(1) rest Suc by (intro Cons.IH) auto
    moreover have "int (m * (3 + 5 * msgs)) + int (3 + 5 * msgs) = int (prods * (3 + 5 * msgs))"
      using Suc by simp
    ultimately have "int (rank p) + int (sum_list (map rank ks)) \<le>
        int (prods * (3 + 5 * msgs)) + (3 * int conss + 6 * total_of asked ks)" by linarith
    moreover have "int (prods * (3 + 5 * msgs)) + (3 * int conss + 6 * total_of asked ks) \<le>
        int (prods * (3 + 5 * msgs)) + (3 * int conss + 6 * total_of asked (p # ks))" by simp
    ultimately have "int (rank p) + int (sum_list (map rank ks)) \<le>
        int (prods * (3 + 5 * msgs)) + (3 * int conss + 6 * total_of asked (p # ks))" by (rule order_trans)
    then show ?thesis by simp
  qed
qed

text \<open>The invariant, over the readings of the semaphores.\<close>

definition pc_inv ::
  "('s \<Rightarrow> bool) \<Rightarrow> ('s \<Rightarrow> nat \<Rightarrow> int) \<Rightarrow> ('s \<Rightarrow> nat \<Rightarrow> int) \<Rightarrow> ('s \<Rightarrow> int) \<Rightarrow> nat \<Rightarrow> nat \<Rightarrow> nat \<Rightarrow> 's pcs \<Rightarrow> bool" where
  "pc_inv good val lim refs prods conss msgs s \<longleftrightarrow>
     (let ss = sems s; ks = kids s in
      good ss \<and> length ks \<le> prods + conss \<and> (par s \<noteq> Creating \<longrightarrow> length ks = prods + conss) \<and>
      lim ss BUFFA = int MAX_MSG \<and> lim ss BUFFB = int MAX_MSG \<and> lim ss WRITE = 1 \<and>
      val ss BUFFA + val ss BUFFB + total_of carries ks = int MAX_MSG \<and>
      val ss WRITE + total_of inside ks = 1 \<and>
      val ss BUFFB + total_of taken ks = total_of produced ks \<and>
      val ss TOTAL + total_of asked ks = int (prods * msgs) \<and>
      refs ss = total_of at_gate ks + (if par s = Waiting then 0 else 1) \<and>
      (\<forall>i < length ks. right_place msgs (i < prods) (ks ! i)) \<and>
      ((\<exists>k. CDone k \<in> set ks) \<longrightarrow> val ss TOTAL = 0) \<and>
      (par s \<noteq> Waiting \<longrightarrow> list_all before_gate ks))"

section \<open>What the program relies on\<close>

locale counting_semaphores =
  fixes ops :: "'s semops"
    and good :: "'s \<Rightarrow> bool"
    and val :: "'s \<Rightarrow> nat \<Rightarrow> int"
    and lim :: "'s \<Rightarrow> nat \<Rightarrow> int"
    and refs :: "'s \<Rightarrow> int"
    and nprocs :: nat
  assumes val_nonneg: "good s \<Longrightarrow> i < 5 \<Longrightarrow> 0 \<le> val s i"
    and wait_blocks: "good s \<Longrightarrow> me < nprocs \<Longrightarrow> i < 5 \<Longrightarrow> op_wait ops me i s = None \<longleftrightarrow> val s i = 0"
    and wait_takes: "good s \<Longrightarrow> me < nprocs \<Longrightarrow> i < 5 \<Longrightarrow> op_wait ops me i s = Some t \<Longrightarrow>
      good t \<and> val t = (val s)(i := val s i - 1) \<and> lim t = lim s \<and> refs t = refs s"
    and try_fails: "good s \<Longrightarrow> i < 5 \<Longrightarrow> op_try ops i s = None \<longleftrightarrow> val s i = 0"
    and try_takes: "good s \<Longrightarrow> i < 5 \<Longrightarrow> op_try ops i s = Some t \<Longrightarrow>
      good t \<and> val t = (val s)(i := val s i - 1) \<and> lim t = lim s \<and> refs t = refs s"
    and post_gives: "good s \<Longrightarrow> i < 5 \<Longrightarrow> val s i < lim s i \<Longrightarrow>
      good (op_post ops i s) \<and> val (op_post ops i s) = (val s)(i := val s i + 1) \<and>
      lim (op_post ops i s) = lim s \<and> refs (op_post ops i s) = refs s"
    and close_drops: "good s \<Longrightarrow> 0 < refs s \<Longrightarrow>
      good (op_close ops WAITC s) \<and> val (op_close ops WAITC s) = val s \<and> lim (op_close ops WAITC s) = lim s \<and>
      refs (op_close ops WAITC s) = refs s - 1"
    and unlink_blocks: "good s \<Longrightarrow> me < nprocs \<Longrightarrow> op_unlink ops me s = None \<longleftrightarrow> refs s \<noteq> 0"
    and fork_refers: "good s \<Longrightarrow> refs s \<le> int nprocs \<Longrightarrow>
      good (op_fork ops s) \<and> val (op_fork ops s) = val s \<and> lim (op_fork ops s) = lim s \<and>
      refs (op_fork ops s) = refs s + 1"
    and unlink_keeps: "good s \<Longrightarrow> me < nprocs \<Longrightarrow> op_unlink ops me s = Some t \<Longrightarrow>
      good t \<and> val t = val s \<and> lim t = lim s \<and> refs t = refs s"
begin

text \<open>One move of a child keeps every balance.\<close>

lemma move_balance:
  assumes mv: "child_move ops msgs isprod me p s = Some (q, t)" and g: "good s" "me < nprocs"
    and room: "inside p = 1 \<Longrightarrow> val s WRITE < lim s WRITE" "carries p = 1 \<Longrightarrow> val s BUFFA < lim s BUFFA \<and> val s BUFFB < lim s BUFFB"
      "at_gate p = 1 \<Longrightarrow> 0 < refs s"
    and place: "right_place msgs isprod p"
  shows "good t \<and> lim t = lim s \<and> right_place msgs isprod q \<and> rank q = Suc (rank p)"
    "val t BUFFA + val t BUFFB + carries q = val s BUFFA + val s BUFFB + carries p"
    "val t WRITE + inside q = val s WRITE + inside p"
    "val t BUFFB + taken q - produced q = val s BUFFB + taken p - produced p"
    "val t TOTAL + asked q = val s TOTAL + asked p"
    "refs t - at_gate q = refs s - at_gate p"
    "(\<forall>k. q \<noteq> CDone k) \<or> val t TOTAL = 0"
proof -
  have ix: "BUFFA < 5" "BUFFB < 5" "TOTAL < 5" "WRITE < 5" and
    dist: "BUFFA \<noteq> BUFFB" "BUFFA \<noteq> TOTAL" "BUFFA \<noteq> WRITE" "BUFFB \<noteq> TOTAL" "BUFFB \<noteq> WRITE" "TOTAL \<noteq> WRITE"
    by (simp_all add: BUFFA_def BUFFB_def TOTAL_def WRITE_def)
  note took = wait_takes [OF g ix(1)] wait_takes [OF g ix(2)] wait_takes [OF g ix(4)] try_takes [OF g(1) ix(3)] unlink_keeps [OF g]
  note rest = try_fails [OF g(1) ix(3)] post_gives [OF g(1) ix(1)] post_gives [OF g(1) ix(2)] post_gives [OF g(1) ix(4)] close_drops [OF g(1)]
  have "good t \<and> lim t = lim s \<and> right_place msgs isprod q \<and> rank q = Suc (rank p) \<and>
    val t BUFFA + val t BUFFB + carries q = val s BUFFA + val s BUFFB + carries p \<and>
    val t WRITE + inside q = val s WRITE + inside p \<and>
    val t BUFFB + taken q - produced q = val s BUFFB + taken p - produced p \<and>
    val t TOTAL + asked q = val s TOTAL + asked p \<and>
    refs t - at_gate q = refs s - at_gate p \<and> ((\<forall>k. q \<noteq> CDone k) \<or> val t TOTAL = 0)"
    using mv room place dist g
    by (cases p) (auto dest!: took simp: rest dist [symmetric] split: if_splits option.splits)
  then show "good t \<and> lim t = lim s \<and> right_place msgs isprod q \<and> rank q = Suc (rank p)"
    "val t BUFFA + val t BUFFB + carries q = val s BUFFA + val s BUFFB + carries p"
    "val t WRITE + inside q = val s WRITE + inside p"
    "val t BUFFB + taken q - produced q = val s BUFFB + taken p - produced p"
    "val t TOTAL + asked q = val s TOTAL + asked p"
    "refs t - at_gate q = refs s - at_gate p"
    "(\<forall>k. q \<noteq> CDone k) \<or> val t TOTAL = 0"
    by blast+
qed

abbreviation "invar \<equiv> pc_inv good val lim refs"

lemma child_inv:
  assumes inv: "invar prods conss msgs s" and i: "i < length (kids s)"
    and mv: "child_move ops msgs (i < prods) i (kids s ! i) (sems s) = Some (pl, ss)"
    and np: "prods + conss \<le> nprocs"
  shows "invar prods conss msgs (s\<lparr>kids := (kids s)[i := pl], sems := ss\<rparr>) \<and> rank pl = Suc (rank (kids s ! i))"
proof -
  let ?p = "kids s ! i" and ?ks = "kids s" and ?v = "val (sems s)"
  have I: "good (sems s)" "length ?ks \<le> prods + conss"
      "lim (sems s) BUFFA = int MAX_MSG" "lim (sems s) BUFFB = int MAX_MSG" "lim (sems s) WRITE = 1"
      "?v BUFFA + ?v BUFFB + total_of carries ?ks = int MAX_MSG" "?v WRITE + total_of inside ?ks = 1"
      "?v BUFFB + total_of taken ?ks = total_of produced ?ks"
      "?v TOTAL + total_of asked ?ks = int (prods * msgs)"
      "refs (sems s) = total_of at_gate ?ks + (if par s = Waiting then 0 else 1)"
      "\<forall>i < length ?ks. right_place msgs (i < prods) (?ks ! i)"
      "(\<exists>k. CDone k \<in> set ?ks) \<longrightarrow> ?v TOTAL = 0" "par s \<noteq> Waiting \<longrightarrow> list_all before_gate ?ks"
      "par s \<noteq> Creating \<longrightarrow> length ?ks = prods + conss"
    using inv unfolding pc_inv_def Let_def by blast+
  have nn: "0 \<le> ?v BUFFA" "0 \<le> ?v BUFFB" "0 \<le> ?v WRITE" "0 \<le> ?v TOTAL"
    using val_nonneg [OF I(1)] by (simp_all add: BUFFA_def BUFFB_def WRITE_def TOTAL_def)
  have room: "inside ?p = 1 \<Longrightarrow> ?v WRITE < lim (sems s) WRITE"
    "carries ?p = 1 \<Longrightarrow> ?v BUFFA < lim (sems s) BUFFA \<and> ?v BUFFB < lim (sems s) BUFFB"
    "at_gate ?p = 1 \<Longrightarrow> 0 < refs (sems s)"
    using I(3-7,10) nn total_of_member [OF i, of inside] total_of_member [OF i, of carries] total_of_member [OF i, of at_gate]
    by (auto split: if_splits)
  have me: "i < nprocs" using i I(2) np by simp
  note b = move_balance [OF mv I(1) me room I(11) [rule_format, OF i]]
  note u = total_of_update [OF i, of _ pl]
  have place: "right_place msgs (j < prods) (?ks[i := pl] ! j)" if "j < length ?ks" for j
    using that I(11) b(1) by (cases "j = i") auto
  have cdone: "val ss TOTAL = 0" if "CDone k \<in> set (?ks[i := pl])" for k
  proof (cases "CDone k = pl")
    case True
    with b(7) show ?thesis by auto
  next
    case False
    with that have "CDone k \<in> set ?ks" using set_update_subset_insert by fastforce
    with I(12) have "?v TOTAL = 0" by blast
    moreover have "0 \<le> val ss TOTAL" using val_nonneg b(1) by (simp add: TOTAL_def)
    moreover have "asked ?p \<le> asked pl" using mv by (cases ?p) (auto split: if_splits option.splits)
    ultimately show ?thesis using b(5) by linarith
  qed
  have gate: "list_all before_gate (?ks[i := pl])" if "par s \<noteq> Waiting"
  proof -
    from that I(13) have all: "list_all before_gate ?ks" by blast
    with i have "?p = Closing \<or> ?p = Gate" by (auto simp: list_all_length before_gate_def)
    moreover have "?p \<noteq> Gate"
    proof
      assume "?p = Gate"
      with mv obtain t where "op_unlink ops i (sems s) = Some t" by auto
      then have "refs (sems s) = 0" using unlink_blocks [OF I(1) me] by (metis option.distinct(1))
      with I(10) that total_of_nonneg [of at_gate ?ks] show False by simp
    qed
    ultimately have "pl = Gate" using mv by simp
    with all show ?thesis by (auto simp: list_all_iff before_gate_def dest!: set_update_subset_insert [THEN subsetD])
  qed
  show ?thesis
    using b I place cdone gate unfolding pc_inv_def Let_def by (simp add: u) blast
qed

lemma pc_step_inv:
  assumes "pc_step ops prods conss msgs s t" "invar prods conss msgs s" "prods + conss \<le> nprocs"
  shows "invar prods conss msgs t \<and> steps_made t = Suc (steps_made s)"
  using assms
proof (induction rule: pc_step.induct)
  case (create s)
  have g: "good (sems s)" and r: "refs (sems s) = total_of at_gate (kids s) + 1"
    using create unfolding pc_inv_def Let_def by auto
  have "at_gate p \<le> 1" for p by (cases p) auto
  then have "total_of at_gate (kids s) \<le> int (length (kids s)) * 1" by (intro total_of_bound) simp
  with r create(2,4) have "refs (sems s) \<le> int nprocs" by simp
  from fork_refers [OF g this] r create show ?case
    by (simp add: pc_inv_def Let_def steps_made_def nth_append before_gate_def less_Suc_eq)
next
  case (created s)
  then show ?case by (simp add: pc_inv_def Let_def steps_made_def)
next
  case (announce s)
  then show ?case by (simp add: pc_inv_def Let_def steps_made_def)
next
  case (open_gate s)
  have g: "good (sems s)" and r: "refs (sems s) = total_of at_gate (kids s) + 1"
    using open_gate unfolding pc_inv_def Let_def by auto
  then have "0 < refs (sems s)" using total_of_nonneg [of at_gate "kids s"] by simp
  from close_drops [OF g this] r open_gate show ?case by (simp add: pc_inv_def Let_def steps_made_def)
next
  case (child i s pl ss)
  note c = child_inv [OF child(3,1,2,4)]
  moreover have "sum_list (map rank ((kids s)[i := pl])) = Suc (sum_list (map rank (kids s)))"
    using sum_rank_update [OF child(1), of pl] c by simp
  ultimately show ?case by (simp add: steps_made_def)
qed

lemma pc_run_inv:
  assumes "(pc_step ops prods conss msgs ^^ n) s t" "invar prods conss msgs s" "prods + conss \<le> nprocs"
  shows "invar prods conss msgs t \<and> steps_made t = steps_made s + n"
  using assms(1)
proof (induction n arbitrary: t)
  case 0
  then show ?case using assms(2) by simp
next
  case (Suc n)
  then obtain u where u: "(pc_step ops prods conss msgs ^^ n) s u" "pc_step ops prods conss msgs u t" by auto
  from Suc.IH [OF u(1)] pc_step_inv [OF u(2) _ assms(3)] show ?case by auto
qed

lemma stuck_is_finished:
  assumes inv: "invar prods conss msgs s" and np: "prods + conss \<le> nprocs" and pos: "0 < prods" "0 < conss"
    and stuck: "\<nexists>t. pc_step ops prods conss msgs s t"
  shows "length (kids s) = prods + conss \<and> list_all finished (kids s) \<and> total_of produced (kids s) = int (prods * msgs) \<and>
    total_of taken (kids s) = int (prods * msgs)"
proof -
  let ?ks = "kids s" and ?v = "val (sems s)"
  have par: "par s = Waiting"
    using stuck pc_step.create pc_step.created pc_step.announce pc_step.open_gate by (metis parent.exhaust)
  have I: "good (sems s)" "length ?ks = prods + conss"
      "?v BUFFA + ?v BUFFB + total_of carries ?ks = int MAX_MSG" "?v WRITE + total_of inside ?ks = 1"
      "?v BUFFB + total_of taken ?ks = total_of produced ?ks"
      "?v TOTAL + total_of asked ?ks = int (prods * msgs)"
      "refs (sems s) = total_of at_gate ?ks + (if par s = Waiting then 0 else 1)"
      "\<forall>i < length ?ks. right_place msgs (i < prods) (?ks ! i)"
      "(\<exists>k. CDone k \<in> set ?ks) \<longrightarrow> ?v TOTAL = 0"
    using inv par unfolding pc_inv_def Let_def by auto
  have nn: "0 \<le> ?v BUFFA" "0 \<le> ?v BUFFB" "0 \<le> ?v TOTAL"
    using val_nonneg [OF I(1)] by (simp_all add: BUFFA_def BUFFB_def TOTAL_def)
  have blocked: "child_move ops msgs (i < prods) i (?ks ! i) (sems s) = None" if "i < length ?ks" for i
    using stuck pc_step.child [OF that] by (metis option.exhaust prod.exhaust)
  have me: "i < nprocs" if "i < length ?ks" for i using that np I(2) by simp
  have place: "p = Gate \<and> refs (sems s) \<noteq> 0 \<or> (\<exists>j. p = PTake j) \<and> ?v BUFFA = 0 \<or> (\<exists>j. p = PWrite j \<or> p = CWrite j) \<and> ?v WRITE = 0 \<or>
      (\<exists>k. p = CTake k) \<and> ?v BUFFB = 0 \<or> finished p" if p: "p \<in> set ?ks" for p
  proof -
    from p obtain i where i: "i < length ?ks" "p = ?ks ! i" by (metis in_set_conv_nth)
    from blocked [OF i(1)] show ?thesis
      using wait_blocks [OF I(1) me [OF i(1)]] unlink_blocks [OF I(1) me [OF i(1)]]
      unfolding i(2) [symmetric]
      by (cases p) (auto simp: finished_def BUFFA_def BUFFB_def WRITE_def split: if_splits option.splits)
  qed
  have "total_of inside ?ks = int (length ?ks) * 0"
  proof (rule total_of_const)
    fix p assume "p \<in> set ?ks"
    from place [OF this] show "inside p = 0" using finished_weights by auto
  qed
  then have W: "?v WRITE = 1" using I(4) by simp
  have "total_of at_gate ?ks = int (length ?ks) * 0"
  proof (rule total_of_const)
    fix p assume "p \<in> set ?ks"
    from place [OF this] show "at_gate p = 0" using finished_weights by auto
  qed
  then have "refs (sems s) = 0" using I(7) par by simp
  with place W have place: "(\<exists>j. p = PTake j) \<and> ?v BUFFA = 0 \<or> (\<exists>k. p = CTake k) \<and> ?v BUFFB = 0 \<or> finished p"
    if "p \<in> set ?ks" for p using that by fastforce
  have "total_of carries ?ks = int (length ?ks) * 0"
  proof (rule total_of_const)
    fix p assume "p \<in> set ?ks"
    from place [OF this] show "carries p = 0" using finished_weights by auto
  qed
  then have AB: "?v BUFFA + ?v BUFFB = 3" using I(3) by (simp add: MAX_MSG_def)
  note prod = produced_bound [OF I(2,8)]
  have cons_ex: "\<exists>k. q = CTake k \<or> q = CDone k" if "q = ?ks ! prods" for q
  proof -
    have i: "prods < length ?ks" using I(2) pos by simp
    then have r: "right_place msgs False q" "q \<in> set ?ks" using I(8) that by auto
    from place [OF r(2)] r(1) show ?thesis by (cases q) (auto simp: finished_def)
  qed
  have q: "?ks ! prods \<in> set ?ks" using I(2) pos by simp
  have no_take: "q \<noteq> PTake j" if "q \<in> set ?ks" for q j
  proof
    assume "q = PTake j"
    with place [OF that] AB have A: "?v BUFFA = 0" "?v BUFFB = 3" by (auto simp: finished_def)
    then have p2: "(\<exists>j. p = PTake j) \<or> finished p" if "p \<in> set ?ks" for p using place [OF that] by auto
    from p2 [OF q] cons_ex [OF refl] obtain k where "?ks ! prods = CDone k" by (auto simp: finished_def)
    with q I(9) have "?v TOTAL = 0" by metis
    moreover have "total_of asked ?ks = total_of taken ?ks"
    proof (rule total_of_cong)
      fix p assume "p \<in> set ?ks"
      from p2 [OF this] show "asked p = taken p" using finished_weights(4) by auto
    qed
    ultimately show False using I(5,6) prod(1) A(2) by simp
  qed
  then have prodN: "total_of produced ?ks = int (prods * msgs)"
    using place by (intro prod(2)) blast
  have no_ctake: "q \<noteq> CTake k" if "q \<in> set ?ks" for q k
  proof
    assume c: "q = CTake k"
    with place [OF that] have "?v BUFFB = 0" by (auto simp: finished_def)
    moreover have "total_of taken ?ks < total_of asked ?ks"
    proof (rule total_of_mono_strict)
      show "taken p \<le> asked p" for p by (cases p) auto
    qed (use that c in auto)
    ultimately show False using I(5,6) prodN nn(3) by simp
  qed
  have fin: "finished p" if "p \<in> set ?ks" for p using place [OF that] no_take [OF that] no_ctake [OF that] by blast
  from fin [OF q] cons_ex [OF refl] obtain k where "?ks ! prods = CDone k" by (auto simp: finished_def)
  with q I(9) have "?v TOTAL = 0" by metis
  moreover have "total_of asked ?ks = total_of taken ?ks"
    by (rule total_of_cong) (rule finished_weights(4) [OF fin])
  ultimately show ?thesis using I(2,6) prodN fin by (simp add: list_all_iff)
qed

lemma invar_safe:
  assumes inv: "invar prods conss msgs s"
  shows "total_of inside (kids s) \<le> 1"
    "0 \<le> total_of produced (kids s) - total_of taken (kids s)"
    "total_of produced (kids s) - total_of taken (kids s) \<le> int MAX_MSG"
    "par s = Waiting \<or> list_all before_gate (kids s)"
    "steps_made s \<le> 3 + prods * (4 + 11 * msgs) + 4 * conss"
proof -
  let ?ks = "kids s" and ?v = "val (sems s)"
  have I: "good (sems s)" "length ?ks \<le> prods + conss"
      "?v BUFFA + ?v BUFFB + total_of carries ?ks = int MAX_MSG" "?v WRITE + total_of inside ?ks = 1"
      "?v BUFFB + total_of taken ?ks = total_of produced ?ks"
      "?v TOTAL + total_of asked ?ks = int (prods * msgs)"
      "\<forall>i < length ?ks. right_place msgs (i < prods) (?ks ! i)"
      "par s \<noteq> Waiting \<longrightarrow> list_all before_gate ?ks"
    using inv unfolding pc_inv_def Let_def by blast+
  have nn: "0 \<le> ?v BUFFA" "0 \<le> ?v BUFFB" "0 \<le> ?v WRITE" "0 \<le> ?v TOTAL"
    using val_nonneg [OF I(1)] by (simp_all add: BUFFA_def BUFFB_def WRITE_def TOTAL_def)
  have "0 \<le> total_of carries ?ks" by (rule total_of_nonneg) simp
  with nn I(3-5) show "total_of inside ?ks \<le> 1" "0 \<le> total_of produced ?ks - total_of taken ?ks"
    "total_of produced ?ks - total_of taken ?ks \<le> int MAX_MSG" by simp_all
  show "par s = Waiting \<or> list_all before_gate ?ks" using I(8) by blast
  show "steps_made s \<le> 3 + prods * (4 + 11 * msgs) + 4 * conss"
  proof (cases "par s = Creating")
    case True
    then have "\<forall>p \<in> set ?ks. rank p \<le> 1" using I(8) by (auto simp: list_all_iff before_gate_def)
    then have "sum_list (map rank ?ks) \<le> length ?ks" by (rule sum_rank_le)
    with True I(2) show ?thesis by (simp add: steps_made_def algebra_simps)
  next
    case False
    then have len: "length ?ks = prods + conss" using inv unfolding pc_inv_def Let_def by blast
    have "int (sum_list (map rank ?ks)) \<le> int (prods * (3 + 5 * msgs)) + (3 * int conss + 6 * total_of asked ?ks)"
      by (rule rank_bound [OF len I(7)])
    moreover have "6 * total_of asked ?ks \<le> 6 * int (prods * msgs)" using I(6) nn by simp
    ultimately have "int (sum_list (map rank ?ks)) \<le> int (prods * (3 + 5 * msgs) + (3 * conss + 6 * prods * msgs))"
      by simp
    then have "sum_list (map rank ?ks) \<le> prods * (3 + 5 * msgs) + (3 * conss + 6 * prods * msgs)"
      by (simp only: of_nat_le_iff)
    with len show ?thesis by (simp add: steps_made_def algebra_simps split: parent.splits)
  qed
qed

end

section \<open>The semaphores of the kernel\<close>

text \<open>Semaphore table and process table; each call is one round under the lock.\<close>

definition kernel_wait :: "nat \<Rightarrow> nat \<Rightarrow> sem list \<times> ptable \<Rightarrow> (sem list \<times> ptable) option" where
  "kernel_wait me i s =
     (case sem_wait_round me i s of (Return r, s') \<Rightarrow> Some s' | (Asleep, s') \<Rightarrow> None)"

definition kernel_try :: "nat \<Rightarrow> sem list \<times> ptable \<Rightarrow> (sem list \<times> ptable) option" where
  "kernel_try i s = (let (r, tab) = sem_try_wait i (fst s) in if r > -1 then Some (tab, snd s) else None)"

definition kernel_unlink :: "nat \<Rightarrow> sem list \<times> ptable \<Rightarrow> (sem list \<times> ptable) option" where
  "kernel_unlink me s =
     (case unlink_scan (msg ''waitc'' @ [0]) 0 (fst s) of
        Inl e \<Rightarrow> None
      | Inr None \<Rightarrow> Some s
      | Inr (Some i) \<Rightarrow>
          (case sem_unlink_round me i (sem_unlink_mark i (fst s), snd s) of
             (Return r, s') \<Rightarrow> Some s' | (Asleep, s') \<Rightarrow> None))"

definition kernel_ops :: "(sem list \<times> ptable) semops" where
  "kernel_ops = \<lparr>op_wait = kernel_wait, op_try = kernel_try, op_post = (\<lambda>i s. snd (sem_post i s)),
     op_close = (\<lambda>i s. snd (sem_close i s)), op_unlink = kernel_unlink,
     op_fork = (\<lambda>s. (fold semdup [0..<5] (fst s), snd s))\<rparr>"

definition sem_val :: "sem list \<times> ptable \<Rightarrow> nat \<Rightarrow> int" where
  "sem_val s i = sint (s_count (fst s ! i))"

definition sem_lim :: "sem list \<times> ptable \<Rightarrow> nat \<Rightarrow> int" where
  "sem_lim s i = sint (s_maxVal (fst s ! i))"

definition gate_refs :: "sem list \<times> ptable \<Rightarrow> int" where
  "gate_refs s = sint (s_ref (fst s ! WAITC))"

text \<open>Counters within their limits, the gate in its slot by its name, and nobody killed.\<close>

definition sems_ready :: "nat \<Rightarrow> sem list \<times> ptable \<Rightarrow> bool" where
  "sems_ready n s \<longleftrightarrow>
     5 \<le> length (fst s) \<and> (\<forall>i < 5. 0 \<le> sem_val s i \<and> sem_val s i \<le> sem_lim s i) \<and> 0 \<le> gate_refs s \<and>
     strncmp (name_bytes (fst s ! WAITC)) (msg ''waitc'' @ [0]) SEMNAME = Inr 0 \<and>
     n \<le> length (procs (snd s)) \<and> n \<le> NPROC \<and> (\<forall>me < n. \<not> p_killed (proc_at (snd s) me))"

lemma sems_ready_intro:
  assumes "sems_ready n (tab, pt)" "length tab' = length tab"
    "\<And>i. i < 5 \<Longrightarrow> 0 \<le> sem_val (tab', pt') i \<and> sem_val (tab', pt') i \<le> sem_lim (tab', pt') i"
    "0 \<le> gate_refs (tab', pt')" "name_bytes (tab' ! WAITC) = name_bytes (tab ! WAITC)"
    "pt' = pt \<or> (\<exists>ch. pt' = wakeup ch pt)"
  shows "sems_ready n (tab', pt')"
  using assms unfolding sems_ready_def by (elim conjE disjE exE) auto

lemma set_sem_frame [simp]:
  "length (set_sem i f tab) = length tab"
  "i < length tab \<Longrightarrow> set_sem i f tab ! j = (if j = i then f (tab ! i) else tab ! j)"
  by (simp_all add: set_sem_def nth_list_update)

text \<open>A counter changed by one within its limits.\<close>

lemma set_count:
  assumes g: "sems_ready n (tab, pt)" and i: "i < 5"
    and v: "sint v = sint (s_count (tab ! i)) + d" "0 \<le> sint v" "sint v \<le> sint (s_maxVal (tab ! i))"
    and pt: "pt' = pt \<or> (\<exists>ch. pt' = wakeup ch pt)"
  shows "sems_ready n (set_sem i (s_count_update (\<lambda>_. v)) tab, pt') \<and>
    sem_val (set_sem i (s_count_update (\<lambda>_. v)) tab, pt') = (sem_val (tab, pt))(i := sem_val (tab, pt) i + d) \<and>
    sem_lim (set_sem i (s_count_update (\<lambda>_. v)) tab, pt') = sem_lim (tab, pt) \<and>
    gate_refs (set_sem i (s_count_update (\<lambda>_. v)) tab, pt') = gate_refs (tab, pt)"
proof -
  have len: "i < length tab" "WAITC < length tab" using g i by (auto simp: sems_ready_def WAITC_def)
  show ?thesis
    using g v pt len i
    by (intro conjI sems_ready_intro [OF g]) (auto simp: sems_ready_def sem_val_def sem_lim_def gate_refs_def name_bytes_def fun_eq_iff)
qed

lemma set_sem_count: "set_sem i (\<lambda>s. s\<lparr>s_count := f s\<rparr>) tab = set_sem i (s_count_update (\<lambda>_. f (tab ! i))) tab"
  by (simp add: set_sem_def)

lemma take_one:
  assumes g: "sems_ready n (tab, pt)" and i: "i < 5" and pos: "0 < sint (s_count (tab ! i))"
    and t: "t = (set_sem i (\<lambda>s. s\<lparr>s_count := s_count s - 1\<rparr>) tab, pt)"
  shows "sems_ready n t \<and> sem_val t = (sem_val (tab, pt))(i := sem_val (tab, pt) i - 1) \<and>
    sem_lim t = sem_lim (tab, pt) \<and> gate_refs t = gate_refs (tab, pt)"
proof -
  have d: "sint (s_count (tab ! i) - 1) = sint (s_count (tab ! i)) + (- 1)" using sint_dec pos by simp
  have "sint (s_count (tab ! i)) \<le> sint (s_maxVal (tab ! i))" using g i by (auto simp: sems_ready_def sem_val_def sem_lim_def)
  then have b: "0 \<le> sint (s_count (tab ! i) - 1)" "sint (s_count (tab ! i) - 1) \<le> sint (s_maxVal (tab ! i))"
    unfolding d using pos by simp_all
  from set_count [OF g i d b, of pt] show ?thesis by (simp add: t set_sem_count [where f = "\<lambda>s. s_count s - 1"])
qed

lemma give_one:
  assumes g: "sems_ready n (tab, pt)" and i: "i < 5" and room: "sem_val (tab, pt) i < sem_lim (tab, pt) i"
  shows "sems_ready n (snd (sem_post i (tab, pt))) \<and>
    sem_val (snd (sem_post i (tab, pt))) = (sem_val (tab, pt))(i := sem_val (tab, pt) i + 1) \<and>
    sem_lim (snd (sem_post i (tab, pt))) = sem_lim (tab, pt) \<and>
    gate_refs (snd (sem_post i (tab, pt))) = gate_refs (tab, pt)"
proof -
  have r: "sint (s_count (tab ! i)) < sint (s_maxVal (tab ! i))" "0 \<le> sint (s_count (tab ! i))"
    using room g i by (auto simp: sems_ready_def sem_val_def sem_lim_def)
  then have d: "sint (s_count (tab ! i) + 1) = sint (s_count (tab ! i)) + 1"
    using sint_inc sint_bounds(2) [of "s_maxVal (tab ! i)"] by simp
  have b: "0 \<le> sint (s_count (tab ! i) + 1)" "sint (s_count (tab ! i) + 1) \<le> sint (s_maxVal (tab ! i))"
    unfolding d using r by simp_all
  have ne: "s_count (tab ! i) \<noteq> s_maxVal (tab ! i)" using r by auto
  define pt' where "pt' = (if s_count (set_sem i (\<lambda>s. s\<lparr>s_count := s_count s + 1\<rparr>) tab ! i) = 1 then wakeup (SemChan i) pt else pt)"
  have pt: "pt' = pt \<or> (\<exists>ch. pt' = wakeup ch pt)" by (auto simp: pt'_def)
  have post: "snd (sem_post i (tab, pt)) = (set_sem i (s_count_update (\<lambda>_. s_count (tab ! i) + 1)) tab, pt')"
    using ne unfolding sem_post_def Let_def pt'_def set_sem_count [where f = "\<lambda>s. s_count s + 1"] by simp
  show ?thesis unfolding post by (rule set_count [OF g i d b pt])
qed

lemma drop_ref:
  assumes g: "sems_ready n (tab, pt)" and pos: "0 < gate_refs (tab, pt)"
  shows "sems_ready n (snd (sem_close WAITC (tab, pt))) \<and>
    sem_val (snd (sem_close WAITC (tab, pt))) = sem_val (tab, pt) \<and>
    sem_lim (snd (sem_close WAITC (tab, pt))) = sem_lim (tab, pt) \<and>
    gate_refs (snd (sem_close WAITC (tab, pt))) = gate_refs (tab, pt) - 1"
proof -
  let ?tab = "set_sem WAITC (\<lambda>s. s\<lparr>s_ref := s_ref s - 1\<rparr>) tab"
  define pt' where "pt' = snd (snd (sem_close WAITC (tab, pt)))"
  have pt: "pt' = pt \<or> (\<exists>ch. pt' = wakeup ch pt)" by (auto simp: pt'_def sem_close_def Let_def)
  have close: "snd (sem_close WAITC (tab, pt)) = (?tab, pt')" by (simp add: pt'_def sem_close_def Let_def)
  have len: "WAITC < length tab" using g by (auto simp: sems_ready_def WAITC_def)
  then have same: "sem_val (?tab, pt') = sem_val (tab, pt)" "sem_lim (?tab, pt') = sem_lim (tab, pt)"
    by (simp_all add: sem_val_def sem_lim_def fun_eq_iff)
  have ref: "gate_refs (?tab, pt') = gate_refs (tab, pt) - 1"
    using pos len sint_dec [of "s_ref (tab ! WAITC)"] by (simp add: gate_refs_def)
  have "sems_ready n (?tab, pt')"
    using g pos len ref by (intro sems_ready_intro [OF g _ _ _ _ pt])
      (auto simp: same name_bytes_def sems_ready_def)
  with same ref close show ?thesis by simp
qed

lemma scan_finds_gate:
  assumes "sems_ready n (tab, pt)"
  shows "unlink_scan (msg ''waitc'' @ [0]) 0 tab = Inr (Some WAITC)"
proof (cases tab)
  case Nil
  with assms show ?thesis by (simp add: sems_ready_def)
next
  case (Cons a list)
  with assms have "strncmp (name_bytes a) (msg ''waitc'' @ [0]) SEMNAME = Inr 0"
    unfolding sems_ready_def WAITC_def by (metis fst_conv nth_Cons_0)
  then show ?thesis unfolding Cons by (simp only: unlink_scan.simps bindE_simps WAITC_def if_True simp_thms)
qed

lemma unlink_gate:
  assumes g: "sems_ready n (tab, pt)" and me: "me < n"
  shows "kernel_unlink me (tab, pt) = None \<longleftrightarrow> gate_refs (tab, pt) \<noteq> 0"
    and "kernel_unlink me (tab, pt) = Some t \<Longrightarrow>
      sems_ready n t \<and> sem_val t = sem_val (tab, pt) \<and> sem_lim t = sem_lim (tab, pt) \<and> gate_refs t = gate_refs (tab, pt)"
proof -
  let ?tab = "set_sem WAITC (\<lambda>s. s\<lparr>linked := False\<rparr>) (sem_unlink_mark WAITC tab)"
  have len: "WAITC < length tab" and k: "\<not> p_killed (proc_at pt me)"
    using g me by (auto simp: sems_ready_def WAITC_def)
  have eq: "kernel_unlink me (tab, pt) = (if s_ref (tab ! WAITC) = 0 then Some (?tab, pt) else None)"
    using scan_finds_gate [OF g] k len
    by (simp add: kernel_unlink_def sem_unlink_round_def sem_unlink_mark_def)
  then show "kernel_unlink me (tab, pt) = None \<longleftrightarrow> gate_refs (tab, pt) \<noteq> 0"
    by (simp add: gate_refs_def signed_eq_0_iff)
  assume t: "kernel_unlink me (tab, pt) = Some t"
  then have t: "t = (?tab, pt)" using eq by (simp split: if_splits)
  have same: "sem_val (?tab, pt) = sem_val (tab, pt)" "sem_lim (?tab, pt) = sem_lim (tab, pt)" "gate_refs (?tab, pt) = gate_refs (tab, pt)"
    using len by (simp_all add: sem_val_def sem_lim_def gate_refs_def fun_eq_iff sem_unlink_mark_def)
  have "sems_ready n (?tab, pt)"
    using g len same by (intro sems_ready_intro [OF g])
      (auto simp: name_bytes_def sems_ready_def sem_unlink_mark_def)
  with same t show "sems_ready n t \<and> sem_val t = sem_val (tab, pt) \<and> sem_lim t = sem_lim (tab, pt) \<and> gate_refs t = gate_refs (tab, pt)"
    by simp
qed

lemma semdup_keeps:
  assumes "i < length tab"
  shows "length (semdup i tab) = length tab" "s_count (semdup i tab ! j) = s_count (tab ! j)"
    "s_maxVal (semdup i tab ! j) = s_maxVal (tab ! j)" "name_bytes (semdup i tab ! j) = name_bytes (tab ! j)"
    "s_ref (semdup i tab ! j) = s_ref (tab ! j) + (if j = i then 1 else 0)"
  using assms by (simp_all add: semdup_def name_bytes_def)

lemma dup_refs:
  assumes g: "sems_ready n (tab, pt)" and r: "gate_refs (tab, pt) \<le> int n"
  shows "sems_ready n (fold semdup [0..<5] tab, pt) \<and> sem_val (fold semdup [0..<5] tab, pt) = sem_val (tab, pt) \<and>
    sem_lim (fold semdup [0..<5] tab, pt) = sem_lim (tab, pt) \<and>
    gate_refs (fold semdup [0..<5] tab, pt) = gate_refs (tab, pt) + 1"
proof -
  define t where "t = fold semdup [0..<5] tab"
  have five: "5 \<le> length tab" using g by (simp add: sems_ready_def)
  have len: "0 < length tab" "Suc 0 < length tab" "2 < length tab" "3 < length tab" "4 < length tab"
    using five by linarith+
  have dup: "fold semdup [0..<5] tab = semdup 4 (semdup 3 (semdup 2 (semdup 1 (semdup 0 tab))))"
    by (simp add: upt_rec numeral_eq_Suc)
  have same: "length t = length tab" "s_count (t ! i) = s_count (tab ! i)" "s_maxVal (t ! i) = s_maxVal (tab ! i)"
    "name_bytes (t ! i) = name_bytes (tab ! i)" for i
    using len by (simp_all add: t_def dup semdup_keeps)
  have "s_ref (t ! WAITC) = s_ref (tab ! WAITC) + 1"
    using len by (simp add: t_def dup semdup_keeps WAITC_def)
  moreover have "sint (s_ref (tab ! WAITC)) < 2 ^ 31 - 1"
    using g r by (simp add: sems_ready_def gate_refs_def NPROC_def)
  ultimately have ref: "gate_refs (t, pt) = gate_refs (tab, pt) + 1" by (simp add: gate_refs_def sint_inc)
  have vals: "sem_val (t, pt) = sem_val (tab, pt)" "sem_lim (t, pt) = sem_lim (tab, pt)"
    by (simp_all add: sem_val_def sem_lim_def fun_eq_iff same)
  have "sems_ready n (t, pt)"
    using g ref by (intro sems_ready_intro [OF g same(1) _ _ same(4)]) (auto simp: sems_ready_def vals)
  with ref vals show ?thesis by (simp add: t_def)
qed

interpretation kernel: counting_semaphores kernel_ops "sems_ready n" sem_val sem_lim gate_refs n for n
proof unfold_locales
  fix s t :: "sem list \<times> ptable" and me i :: nat
  obtain tab pt where s: "s = (tab, pt)" by (cases s)
  assume g: "sems_ready n s"
  note G = g [unfolded s]
  have nk: "me < n \<Longrightarrow> \<not> p_killed (proc_at pt me)" using G by (simp add: sems_ready_def)
  have nn: "i < 5 \<Longrightarrow> 0 \<le> sem_val s i" using g by (simp add: sems_ready_def)
  show "i < 5 \<Longrightarrow> 0 \<le> sem_val s i" by (rule nn)
  have w: "kernel_wait me i s = (if 0 < sint (s_count (tab ! i)) then
      Some (set_sem i (\<lambda>s. s\<lparr>s_count := s_count s - 1\<rparr>) tab, pt) else None)" if "me < n"
    using nk [OF that] by (simp add: kernel_wait_def sem_wait_round_def s)
  show "me < n \<Longrightarrow> i < 5 \<Longrightarrow> op_wait kernel_ops me i s = None \<longleftrightarrow> sem_val s i = 0"
    using nn w by (auto simp: kernel_ops_def sem_val_def s)
  show "me < n \<Longrightarrow> i < 5 \<Longrightarrow> op_wait kernel_ops me i s = Some t \<Longrightarrow>
      sems_ready n t \<and> sem_val t = (sem_val s)(i := sem_val s i - 1) \<and> sem_lim t = sem_lim s \<and> gate_refs t = gate_refs s"
    unfolding s kernel_ops_def using w [unfolded s] by (intro take_one [OF G]) (auto split: if_splits)
  have y: "kernel_try i s = (if 0 < sint (s_count (tab ! i)) then
      Some (set_sem i (\<lambda>s. s\<lparr>s_count := s_count s - 1\<rparr>) tab, pt) else None)"
    by (simp add: kernel_try_def sem_try_wait_def s)
  show "i < 5 \<Longrightarrow> op_try kernel_ops i s = None \<longleftrightarrow> sem_val s i = 0"
    using nn y by (auto simp: kernel_ops_def sem_val_def s)
  show "i < 5 \<Longrightarrow> op_try kernel_ops i s = Some t \<Longrightarrow>
      sems_ready n t \<and> sem_val t = (sem_val s)(i := sem_val s i - 1) \<and> sem_lim t = sem_lim s \<and> gate_refs t = gate_refs s"
    unfolding s kernel_ops_def using y [unfolded s] by (intro take_one [OF G]) (auto split: if_splits)
  show "i < 5 \<Longrightarrow> sem_val s i < sem_lim s i \<Longrightarrow>
      sems_ready n (op_post kernel_ops i s) \<and> sem_val (op_post kernel_ops i s) = (sem_val s)(i := sem_val s i + 1) \<and>
      sem_lim (op_post kernel_ops i s) = sem_lim s \<and> gate_refs (op_post kernel_ops i s) = gate_refs s"
    unfolding s by (simp add: kernel_ops_def give_one [OF G])
  show "0 < gate_refs s \<Longrightarrow>
      sems_ready n (op_close kernel_ops WAITC s) \<and> sem_val (op_close kernel_ops WAITC s) = sem_val s \<and>
      sem_lim (op_close kernel_ops WAITC s) = sem_lim s \<and> gate_refs (op_close kernel_ops WAITC s) = gate_refs s - 1"
    unfolding s by (simp add: kernel_ops_def drop_ref [OF G])
  show "gate_refs s \<le> int n \<Longrightarrow>
      sems_ready n (op_fork kernel_ops s) \<and> sem_val (op_fork kernel_ops s) = sem_val s \<and>
      sem_lim (op_fork kernel_ops s) = sem_lim s \<and> gate_refs (op_fork kernel_ops s) = gate_refs s + 1"
    unfolding s by (simp add: kernel_ops_def dup_refs [OF G])
  show "me < n \<Longrightarrow> op_unlink kernel_ops me s = None \<longleftrightarrow> gate_refs s \<noteq> 0"
    unfolding s by (simp add: kernel_ops_def unlink_gate(1) [OF G])
  show "me < n \<Longrightarrow> op_unlink kernel_ops me s = Some t \<Longrightarrow>
      sems_ready n t \<and> sem_val t = sem_val s \<and> sem_lim t = sem_lim s \<and> gate_refs t = gate_refs s"
    unfolding s by (simp add: kernel_ops_def unlink_gate(2) [OF G])
qed

section \<open>The program runs to its end\<close>

text \<open>\<open>main\<close> opens the semaphores; \<open>tot\<close> is the product of its first and third argument.\<close>

definition pc_opens :: "uint \<Rightarrow> uint \<Rightarrow> sem list \<Rightarrow> sem list res" where
  "pc_opens tot pid tab =
     bindE (sem_open (msg ''waitc'' @ [0]) 0 0 pid tab) (\<lambda>(waitcd, tab).
     bindE (sem_open (msg ''buffa'' @ [0]) (of_nat MAX_MSG) (of_nat MAX_MSG) pid tab) (\<lambda>(buffa, tab).
     bindE (sem_open (msg ''buffb'' @ [0]) 0 (of_nat MAX_MSG) pid tab) (\<lambda>(buffb, tab).
     bindE (sem_open (msg ''total'' @ [0]) tot tot pid tab) (\<lambda>(totald, tab).
     bindE (sem_open (msg ''write'' @ [0]) 1 1 pid tab) (\<lambda>(wr, tab).
       Inr tab)))))"

definition pc_start :: "nat \<Rightarrow> nat \<Rightarrow> uint \<Rightarrow> ptable \<Rightarrow> (sem list \<times> ptable) pcs res" where
  "pc_start prods msgs pid pt =
     mapE (\<lambda>tab. \<lparr>sems = (tab, pt), kids = [], par = Creating\<rparr>)
       (pc_opens (of_nat prods * of_nat msgs) pid stable0)"

definition fresh_sem :: "byte list \<Rightarrow> uint \<Rightarrow> uint \<Rightarrow> uint \<Rightarrow> sem" where
  "fresh_sem nm c m pid =
     zero_sem\<lparr>s_name := nm @ [0], sslock := initlock nm (sslock zero_sem), s_ref := 1, s_count := c,
       s_maxVal := m, owner_pid := pid, linked := True\<rparr>"

lemma pc_opens_takes_the_first_slots:
  "pc_opens tot pid stable0 =
     Inr ([fresh_sem (msg ''waitc'') 0 0 pid, fresh_sem (msg ''buffa'') 3 3 pid,
       fresh_sem (msg ''buffb'') 0 3 pid, fresh_sem (msg ''total'') tot tot pid,
       fresh_sem (msg ''write'') 1 1 pid] @ replicate (NSEM - 5) zero_sem)"
  unfolding pc_opens_def stable0_def by code_simp

lemma gate_is_named: "strncmp (name_bytes (fresh_sem (msg ''waitc'') 0 0 pid)) (msg ''waitc'' @ [0]) SEMNAME = Inr 0"
  by code_simp

lemma all_below_5: "(\<forall>i < (5::nat). P i) \<longleftrightarrow> P 0 \<and> P 1 \<and> P 2 \<and> P 3 \<and> P 4"
  by (simp add: numeral_eq_Suc All_less_Suc conj_ac)

lemma pc_start_inv:
  assumes s: "pc_start prods msgs pid pt = Inr s" and small: "prods * msgs < 2 ^ 31"
    and procs: "prods + conss \<le> length (procs pt)" "prods + conss \<le> NPROC"
      "\<forall>me < prods + conss. \<not> p_killed (proc_at pt me)"
  shows "pc_inv (sems_ready (prods + conss)) sem_val sem_lim gate_refs prods conss msgs s \<and> steps_made s = 0"
proof -
  let ?w = "of_nat prods * of_nat msgs :: uint"
  have "unat (of_nat (prods * msgs) :: uint) = prods * msgs" using small unfolding unat_of_nat by simp
  then have "unat ?w = prods * msgs" by simp
  then have w: "sint ?w = int (prods * msgs)" using small sint_eq_unat [of ?w] by simp
  obtain tab where tab: "pc_opens ?w pid stable0 = Inr tab" "s = \<lparr>sems = (tab, pt), kids = [], par = Creating\<rparr>"
    using s by (auto simp: pc_start_def)
  from tab(1) have t: "tab = [fresh_sem (msg ''waitc'') 0 0 pid, fresh_sem (msg ''buffa'') 3 3 pid,
       fresh_sem (msg ''buffb'') 0 3 pid, fresh_sem (msg ''total'') ?w ?w pid,
       fresh_sem (msg ''write'') 1 1 pid] @ replicate (NSEM - 5) zero_sem"
    unfolding pc_opens_takes_the_first_slots by simp
  have f [simp]: "s_count (fresh_sem nm c m pid) = c" "s_maxVal (fresh_sem nm c m pid) = m" "s_ref (fresh_sem nm c m pid) = 1" for nm c m
    by (simp_all add: fresh_sem_def)
  have vals: "sem_val (tab, pt) 0 = 0" "sem_val (tab, pt) (Suc 0) = 3" "sem_val (tab, pt) 2 = 0"
    "sem_val (tab, pt) 3 = int (prods * msgs)" "sem_val (tab, pt) 4 = 1"
    "sem_lim (tab, pt) 0 = 0" "sem_lim (tab, pt) (Suc 0) = 3" "sem_lim (tab, pt) 2 = 3"
    "sem_lim (tab, pt) 3 = int (prods * msgs)" "sem_lim (tab, pt) 4 = 1" "gate_refs (tab, pt) = 1"
    unfolding t sem_val_def sem_lim_def gate_refs_def WAITC_def by (simp_all add: w del: of_nat_mult)
  have nm: "strncmp (name_bytes (tab ! WAITC)) (msg ''waitc'' @ [0]) SEMNAME = Inr 0"
    unfolding t WAITC_def using gate_is_named by (simp only: append_Cons nth_Cons_0)
  have "5 \<le> length tab" unfolding t by simp
  then have "sems_ready (prods + conss) (tab, pt)"
    unfolding sems_ready_def all_below_5 using procs nm vals by (simp only: fst_conv snd_conv) simp
  then show ?thesis
    unfolding tab(2) pc_inv_def steps_made_def
    by (simp add: Let_def vals BUFFA_def BUFFB_def WRITE_def TOTAL_def MAX_MSG_def)
qed

text \<open>
  C22. When \<open>pc\<close> starts with no semaphore in use, then in every interleaving of the parent, its
  producers and its consumers: at most one child at a time is at the buffer; the messages
  taken never exceed those produced, which never exceed those taken by more than the three
  places of the buffer; no child passes the gate before the parent has announced that all
  are created; no run is longer than the given bound; and as long as not every child has
  exited some process can go on, so that every run ends with all of them gone and every
  message produced and taken.
\<close>

theorem producers_and_consumers_finish:
  assumes "pc_start prods msgs pid pt = Inr s" "prods * msgs < 2 ^ 31" "0 < prods" "0 < conss"
    and "prods + conss \<le> length (procs pt)" "prods + conss \<le> NPROC"
      "\<forall>me < prods + conss. \<not> p_killed (proc_at pt me)"
    and "(pc_step kernel_ops prods conss msgs ^^ n) s t"
  shows "total_of inside (kids t) \<le> 1 \<and>
    0 \<le> total_of produced (kids t) - total_of taken (kids t) \<and>
    total_of produced (kids t) - total_of taken (kids t) \<le> int MAX_MSG \<and>
    (par t = Waiting \<or> list_all before_gate (kids t)) \<and>
    n \<le> 3 + prods * (4 + 11 * msgs) + 4 * conss \<and>
    ((\<exists>u. pc_step kernel_ops prods conss msgs t u) \<or>
     length (kids t) = prods + conss \<and> list_all finished (kids t) \<and>
     total_of produced (kids t) = int (prods * msgs) \<and> total_of taken (kids t) = int (prods * msgs))"
proof -
  note start = pc_start_inv [OF assms(1,2,5-7)]
  note run = kernel.pc_run_inv [OF assms(8) conjunct1 [OF start] order_refl]
  note inv = conjunct1 [OF run]
  have "steps_made t = n" using start run by simp
  with kernel.invar_safe [OF inv] kernel.stuck_is_finished [OF inv order_refl assms(3,4)]
  show ?thesis by blast
qed

text \<open>One producer and one consumer of one message: both are created, and the producer closes the gate.\<close>

definition demo_procs :: ptable where
  "demo_procs = \<lparr>procs = replicate 3 zero_proc, initproc = None, nextpid = 1\<rparr>"

definition demo_start :: "(sem list \<times> ptable) pcs" where
  "demo_start = (case pc_start 1 1 3 demo_procs of Inr s \<Rightarrow> s | Inl e \<Rightarrow> undefined)"

definition demo_fork :: "(sem list \<times> ptable) pcs \<Rightarrow> (sem list \<times> ptable) pcs" where
  "demo_fork s = s\<lparr>kids := kids s @ [Closing], sems := op_fork kernel_ops (sems s)\<rparr>"

definition demo_third :: "(sem list \<times> ptable) pcs" where
  "demo_third = (let s = demo_fork (demo_fork demo_start)
     in s\<lparr>kids := [Gate, Closing], sems := op_close kernel_ops WAITC (sems s)\<rparr>)"

lemma demo_start_eq: "pc_start 1 1 3 demo_procs = Inr demo_start" "par demo_start = Creating" "kids demo_start = []"
  by (auto simp: demo_start_def pc_start_def pc_opens_takes_the_first_slots)

lemma demo_run: "(pc_step kernel_ops 1 1 1 ^^ 3) demo_start demo_third"
proof -
  have a: "pc_step kernel_ops 1 1 1 demo_start (demo_fork demo_start)"
    unfolding demo_fork_def using demo_start_eq by (intro pc_step.create) simp_all
  have b: "pc_step kernel_ops 1 1 1 (demo_fork demo_start) (demo_fork (demo_fork demo_start))"
    unfolding demo_fork_def [of "demo_fork demo_start"] using demo_start_eq
    by (intro pc_step.create) (simp_all add: demo_fork_def)
  have "pc_step kernel_ops 1 1 1 (demo_fork (demo_fork demo_start))
     (demo_fork (demo_fork demo_start)\<lparr>kids := (kids (demo_fork (demo_fork demo_start)))[0 := Gate],
        sems := op_close kernel_ops WAITC (sems (demo_fork (demo_fork demo_start)))\<rparr>)"
    using demo_start_eq by (intro pc_step.child) (simp_all add: demo_fork_def)
  then have c: "pc_step kernel_ops 1 1 1 (demo_fork (demo_fork demo_start)) demo_third"
    using demo_start_eq by (simp add: demo_third_def demo_fork_def)
  have "(pc_step kernel_ops 1 1 1 ^^ 0) demo_start demo_start" by simp
  from this a have "(pc_step kernel_ops 1 1 1 ^^ Suc 0) demo_start (demo_fork demo_start)" by (rule relpowp_Suc_I)
  from this b have "(pc_step kernel_ops 1 1 1 ^^ Suc (Suc 0)) demo_start (demo_fork (demo_fork demo_start))"
    by (rule relpowp_Suc_I)
  from this c show ?thesis unfolding numeral_3_eq_3 by (rule relpowp_Suc_I)
qed

theorem producers_and_consumers_finish_witness:
  "total_of inside (kids demo_third) \<le> 1 \<and>
   ((\<exists>u. pc_step kernel_ops 1 1 1 demo_third u) \<or> list_all finished (kids demo_third))"
proof -
  have "\<forall>me < 1 + 1. \<not> p_killed (proc_at demo_procs me)" by code_simp
  moreover have "1 + 1 \<le> length (procs demo_procs)" by code_simp
  ultimately show ?thesis
    using producers_and_consumers_finish [OF demo_start_eq(1) _ _ _ _ _ _ demo_run] unfolding NPROC_def by auto
qed

end
