(* ===== verification/Programs.thy ===== *)
theory Programs
  imports Printf
begin

text \<open>
  Small programs of the user: \<open>wc\<close>, \<open>cat\<close>, \<open>echo\<close> and \<open>ls\<close>. A file that is read is the list of
  what its \<open>read\<close> calls return, none of them empty, and whether the last call failed.
  Strings end with 0, as in the code; output is the list of its bytes.
\<close>

section \<open>wc.c\<close>

record counts =
  c_l :: uint
  c_w :: uint
  c_c :: uint
  inword :: bool

definition wc_start :: counts where
  "wc_start = \<lparr>c_l = 0, c_w = 0, c_c = 0, inword = False\<rparr>"

definition wc_blanks :: "byte list" where
  "wc_blanks = [32, 13, 9, 10, 11, 0]"

definition wc_char :: "byte \<Rightarrow> counts \<Rightarrow> counts res" where
  "wc_char b s =
     (let s = s\<lparr>c_c := c_c s + 1\<rparr>;
          s = (if b = 10 then s\<lparr>c_l := c_l s + 1\<rparr> else s)
      in mapE (\<lambda>r. if r \<noteq> None then s\<lparr>inword := False\<rparr>
                   else if \<not> inword s then s\<lparr>c_w := c_w s + 1, inword := True\<rparr> else s)
           (strchr wc_blanks b))"

fun wc_buf :: "byte list \<Rightarrow> counts \<Rightarrow> counts res" where
  "wc_buf [] s = Inr s"
| "wc_buf (b # bs) s = bindE (wc_char b s) (wc_buf bs)"

fun wc_loop :: "byte list list \<Rightarrow> counts \<Rightarrow> counts res" where
  "wc_loop [] s = Inr s"
| "wc_loop (buf # reads) s = bindE (wc_buf buf s) (wc_loop reads)"

text \<open>The name is printed through the pointer \<open>np\<close>.\<close>

definition wc :: "byte list list \<Rightarrow> bool \<Rightarrow> uint \<Rightarrow> (uint \<Rightarrow> byte list) \<Rightarrow> byte list res" where
  "wc reads failed np str =
     bindE (wc_loop reads wc_start) (\<lambda>s.
       if failed then printf str (msg ''wc: read error'' @ [10, 0]) []
       else printf str (msg ''%d %d %d %s'' @ [10, 0]) [c_l s, c_w s, c_c s, np])"

text \<open>A word is a longest run of bytes that are not blank: it is counted where it begins.\<close>

definition blank :: "byte \<Rightarrow> bool" where
  "blank b \<longleftrightarrow> b \<in> {32, 13, 9, 10, 11}"

definition word_starts :: "byte list \<Rightarrow> nat set" where
  "word_starts bs = {i. i < length bs \<and> \<not> blank (bs ! i) \<and> (i = 0 \<or> blank (bs ! (i - 1)))}"

lemma word_starts_snoc:
  "word_starts (bs @ [b]) = word_starts bs \<union>
     (if \<not> blank b \<and> (bs = [] \<or> blank (last bs)) then {length bs} else {})"
proof (rule set_eqI)
  fix i
  consider "i < length bs" | "i = length bs" | "length bs < i" by linarith
  then show "i \<in> word_starts (bs @ [b]) \<longleftrightarrow> i \<in> word_starts bs \<union>
     (if \<not> blank b \<and> (bs = [] \<or> blank (last bs)) then {length bs} else {})"
  proof cases
    case 1
    then have "i - 1 < length bs" by simp
    with 1 show ?thesis by (auto simp: word_starts_def nth_append)
  next
    case 2
    then show ?thesis by (cases "bs = []") (auto simp: word_starts_def nth_append last_conv_nth)
  qed (auto simp: word_starts_def)
qed

lemma finite_word_starts [simp]: "finite (word_starts bs)"
  by (simp add: word_starts_def)

lemma strchr_blanks: "strchr wc_blanks b = Inr None \<longleftrightarrow> \<not> blank b" "\<exists>r. strchr wc_blanks b = Inr r"
  by (auto simp: strchr_def wc_blanks_def blank_def)

lemma wc_char_eq:
  "wc_char b s = Inr (s\<lparr>c_c := c_c s + 1, c_l := c_l s + (if b = 10 then 1 else 0),
     c_w := c_w s + (if \<not> blank b \<and> \<not> inword s then 1 else 0), inword := \<not> blank b\<rparr>)"
proof -
  obtain r where r: "strchr wc_blanks b = Inr r" using strchr_blanks(2) by blast
  with strchr_blanks(1) have "r = None \<longleftrightarrow> \<not> blank b" by (metis sum.inject(2))
  with r show ?thesis by (auto simp: wc_char_def Let_def)
qed

lemma wc_buf_append: "wc_buf (xs @ ys) s = bindE (wc_buf xs s) (wc_buf ys)"
  by (induction xs arbitrary: s) (simp_all add: bindE_assoc cong: bindE_cong)

lemma wc_loop_concat: "wc_loop reads s = wc_buf (concat reads) s"
  by (induction reads arbitrary: s) (simp_all add: wc_buf_append cong: bindE_cong)

theorem wc_counts:
  "wc_loop reads wc_start =
     (let bs = concat reads in
      Inr \<lparr>c_l = of_nat (count_list bs 10), c_w = of_nat (card (word_starts bs)), c_c = of_nat (length bs),
        inword = (bs \<noteq> [] \<and> \<not> blank (last bs))\<rparr>)"
proof -
  have "wc_buf bs wc_start = Inr \<lparr>c_l = of_nat (count_list bs 10), c_w = of_nat (card (word_starts bs)),
      c_c = of_nat (length bs), inword = (bs \<noteq> [] \<and> \<not> blank (last bs))\<rparr>" for bs
  proof (induction bs rule: rev_induct)
    case Nil
    then show ?case by (simp add: wc_start_def word_starts_def)
  next
    case (snoc b bs)
    have "length bs \<notin> word_starts bs" by (simp add: word_starts_def)
    with snoc show ?case by (auto simp: wc_buf_append wc_char_eq word_starts_snoc)
  qed
  then show ?thesis by (simp add: wc_loop_concat Let_def)
qed

section \<open>cat.c\<close>

text \<open>
  \<open>wr\<close> says how many of the bytes a \<open>write\<close> takes (negative: it fails). The result is the
  output and whether \<open>cat\<close> has left the program.
\<close>

fun cat :: "(byte list \<Rightarrow> int) \<Rightarrow> byte list list \<Rightarrow> bool \<Rightarrow> byte list \<times> bool" where
  "cat wr [] failed = (if failed then (msg ''cat: read error'' @ [10], True) else ([], False))"
| "cat wr (buf # reads) failed =
     (if wr buf \<noteq> int (length buf)
      then (take (nat (wr buf)) buf @ msg ''cat: write error'' @ [10], True)
      else let (out, gone) = cat wr reads failed in (buf @ out, gone))"

text \<open>The loop over the arguments: \<open>opn\<close> opens a file.\<close>

fun cat_files :: "(byte list \<Rightarrow> int) \<Rightarrow> (byte list \<Rightarrow> (byte list list \<times> bool) option) \<Rightarrow> byte list list \<Rightarrow> byte list" where
  "cat_files wr opn [] = []"
| "cat_files wr opn (a # args) =
     (case opn a of
        None \<Rightarrow> msg ''cat: cannot open '' @ a @ [10]
      | Some (reads, failed) \<Rightarrow>
          (case cat wr reads failed of (out, gone) \<Rightarrow> if gone then out else out @ cat_files wr opn args))"

lemma cat_copies:
  "\<forall>b \<in> set reads. wr b = int (length b) \<Longrightarrow>
     cat wr reads failed = (concat reads @ (if failed then msg ''cat: read error'' @ [10] else []), failed)"
  by (induction reads) auto

lemma cat_files_copies:
  assumes "\<And>b. wr b = int (length b)" "\<And>a. a \<in> set args \<Longrightarrow> opn a = Some (cont a, False)"
  shows "cat_files wr opn args = concat (map (concat \<circ> cont) args)"
  using assms by (induction args) (auto simp: cat_copies)

section \<open>echo.c\<close>

definition echo_format :: "byte list" where
  "echo_format = msg ''%s%s'' @ [0]"

text \<open>The pointers 1 and 2 stand for the two strings each call prints.\<close>

fun echo_args :: "byte list list \<Rightarrow> byte list res" where
  "echo_args [] = Inr []"
| "echo_args (a # as) =
     bindE (printf (\<lambda>p. if p = 1 then a else if as \<noteq> [] then [32] else [10]) echo_format [1, 2])
       (\<lambda>out. mapE (append out) (echo_args as))"

definition echo :: "byte list list \<Rightarrow> byte list res" where
  "echo argv = echo_args (tl argv)"

fun joined :: "byte list list \<Rightarrow> byte list" where
  "joined [] = []" | "joined [a] = a" | "joined (a # as) = a @ [32] @ joined as"

lemma echo_joins: "echo argv = Inr (if tl argv = [] then [] else joined (tl argv) @ [10])"
proof -
  have f: "echo_format = [37, 115, 37, 115, 0]" by (simp add: echo_format_def msg_def)
  have "echo_args as = Inr (if as = [] then [] else joined as @ [10])" for as
  proof (induction as rule: joined.induct)
    case (3 a b as)
    then show ?case by (simp add: f printf_def put_string_def)
  qed (simp_all add: f printf_def put_string_def)
  then show ?thesis by (simp add: echo_def)
qed

section \<open>ls.c\<close>

text \<open>
  The loop of \<open>fmtname\<close> that goes back from the end of the path to its last slash, and past
  the beginning if there is none; the result is the index behind it.
\<close>

fun back_to_slash :: "byte list \<Rightarrow> nat \<Rightarrow> nat" where
  "back_to_slash path 0 = (if path ! 0 \<noteq> 47 then 0 else 1)"
| "back_to_slash path (Suc p) = (if path ! Suc p \<noteq> 47 then back_to_slash path p else Suc (Suc p))"

definition DIRSIZ :: nat where "DIRSIZ = 14"

text \<open>\<open>buf\<close> is the static buffer of 15 bytes; the result is the string the returned pointer points at.\<close>

definition fmtname :: "byte list \<Rightarrow> byte list \<Rightarrow> (byte list \<times> byte list) res" where
  "fmtname path buf =
     bindE (strlen path) (\<lambda>len.
       let p = drop (back_to_slash path len) path in
       mapE (\<lambda>n. if n \<ge> DIRSIZ then (cstr p, buf)
                 else let buf = take n p @ replicate (DIRSIZ - n) 32 @ drop DIRSIZ buf in (cstr buf, buf))
         (strlen p))"

text \<open>
  Entries of the directory as \<open>read\<close> delivers them: an inode number and 14 bytes of name.
  \<open>st\<close> is \<open>stat\<close>: type, inode and size of a path.
\<close>

definition ls_line :: "byte list \<Rightarrow> uint \<times> uint \<times> uint \<Rightarrow> byte list res" where
  "ls_line nm = (\<lambda>(ty, ino, sz). printf (\<lambda>p. nm) (msg ''%s %d %d %d'' @ [10, 0]) [1, ty, ino, sz])"

fun ls_entries ::
  "(byte list \<Rightarrow> (uint \<times> uint \<times> uint) option) \<Rightarrow> nat \<Rightarrow> byte list \<Rightarrow> byte list \<Rightarrow> (16 word \<times> byte list) list \<Rightarrow>
    (byte list \<times> byte list) res" where
  "ls_entries st p buf fbuf [] = Inr ([], fbuf)"
| "ls_entries st p buf fbuf ((inum, name) # des) =
     (if inum = 0 then ls_entries st p buf fbuf des
      else if p + DIRSIZ \<ge> length buf then Inl BadAccess
      else
        let buf = take p buf @ name @ drop (p + DIRSIZ) buf;
            buf = buf[p + DIRSIZ := 0]
        in (case st (cstr buf) of
              None \<Rightarrow> mapE (apfst (append (msg ''ls: cannot stat '' @ cstr buf @ [10]))) (ls_entries st p buf fbuf des)
            | Some info \<Rightarrow>
                bindE (fmtname buf fbuf) (\<lambda>(nm, fbuf).
                bindE (ls_line nm info) (\<lambda>out. mapE (apfst (append out)) (ls_entries st p buf fbuf des)))))"

definition ls_dir ::
  "(byte list \<Rightarrow> (uint \<times> uint \<times> uint) option) \<Rightarrow> byte list \<Rightarrow> byte list \<Rightarrow> byte list \<Rightarrow> (16 word \<times> byte list) list \<Rightarrow>
    (byte list \<times> byte list) res" where
  "ls_dir st path buf fbuf des =
     bindE (strlen path) (\<lambda>n.
       if n + 1 + DIRSIZ + 1 > 512 then Inr (msg ''ls: path too long'' @ [10], fbuf)
       else bindE (strcpy buf path) (\<lambda>buf.
         bindE (strlen buf) (\<lambda>p. ls_entries st (Suc p) (buf[p := 47]) fbuf des)))"

text \<open>
  What a path gives when it is opened: nothing, a file that \<open>fstat\<close> fails on, or its type and
  numbers and, for a directory, its entries. \<open>T_DIR\<close> is 1 and \<open>T_FILE\<close> is 2.
\<close>

datatype opened = No_File | No_Stat | Opened "uint \<times> uint \<times> uint" "(16 word \<times> byte list) list"

definition ls ::
  "(byte list \<Rightarrow> (uint \<times> uint \<times> uint) option) \<Rightarrow> (byte list \<Rightarrow> opened) \<Rightarrow> byte list \<Rightarrow> byte list \<Rightarrow> byte list \<Rightarrow>
    (byte list \<times> byte list) res" where
  "ls st opn buf path fbuf =
     (case opn (cstr path) of
        No_File \<Rightarrow> Inr (msg ''ls: cannot open '' @ cstr path @ [10], fbuf)
      | No_Stat \<Rightarrow> Inr (msg ''ls: cannot stat '' @ cstr path @ [10], fbuf)
      | Opened info des \<Rightarrow>
          if fst info = 2 then bindE (fmtname path fbuf) (\<lambda>(nm, fbuf). mapE (\<lambda>out. (out, fbuf)) (ls_line nm info))
          else if fst info = 1 then ls_dir st path buf fbuf des
          else Inr ([], fbuf))"

fun ls_args ::
  "(byte list \<Rightarrow> (uint \<times> uint \<times> uint) option) \<Rightarrow> (byte list \<Rightarrow> opened) \<Rightarrow> byte list \<Rightarrow> byte list list \<Rightarrow> byte list \<Rightarrow>
    (byte list \<times> byte list) res" where
  "ls_args st opn buf [] fbuf = Inr ([], fbuf)"
| "ls_args st opn buf (a # as) fbuf =
     bindE (ls st opn buf a fbuf) (\<lambda>(out, fbuf). mapE (apfst (append out)) (ls_args st opn buf as fbuf))"

text \<open>\<open>main\<close>; the static buffer of \<open>fmtname\<close> is zero at the start, \<open>buf\<close> is whatever the stack holds.\<close>

definition ls_main ::
  "(byte list \<Rightarrow> (uint \<times> uint \<times> uint) option) \<Rightarrow> (byte list \<Rightarrow> opened) \<Rightarrow> byte list \<Rightarrow> byte list list \<Rightarrow> byte list res" where
  "ls_main st opn buf argv =
     mapE fst (ls_args st opn buf (if length argv < 2 then [[46, 0]] else tl argv) (replicate 15 0))"

text \<open>The last part of a path.\<close>

definition base_name :: "byte list \<Rightarrow> byte list" where
  "base_name s = rev (takeWhile (\<lambda>c. c \<noteq> 47) (rev s))"

definition padded :: "byte list \<Rightarrow> byte list" where
  "padded nm = nm @ replicate (DIRSIZ - length nm) 32"

lemma base_name_split: "\<exists>pre. s = pre @ base_name s \<and> (pre = [] \<or> last pre = 47) \<and> 47 \<notin> set (base_name s)"
proof -
  have "rev s = takeWhile (\<lambda>c. c \<noteq> 47) (rev s) @ dropWhile (\<lambda>c. c \<noteq> 47) (rev s)" by simp
  then have "s = rev (dropWhile (\<lambda>c. c \<noteq> 47) (rev s)) @ base_name s"
    unfolding base_name_def by (metis rev_append rev_rev_ident)
  moreover have "rev (dropWhile (\<lambda>c. c \<noteq> 47) (rev s)) = [] \<or> last (rev (dropWhile (\<lambda>c. c \<noteq> 47) (rev s))) = 47"
    using hd_dropWhile [of "\<lambda>c. c \<noteq> 47" "rev s"] by (auto simp: last_rev)
  moreover have "47 \<notin> set (base_name s)" unfolding base_name_def by (auto dest: set_takeWhileD)
  ultimately show ?thesis by blast
qed

lemma back_to_slash_stops:
  "47 \<notin> set nm \<Longrightarrow> pre = [] \<or> last pre = 47 \<Longrightarrow> k \<le> length nm \<Longrightarrow> 0 \<notin> set pre \<Longrightarrow>
     back_to_slash (pre @ nm @ 0 # rest) (length pre + k) = length pre"
proof (induction k)
  case 0
  show ?case
  proof (cases pre rule: rev_cases)
    case Nil
    with 0 show ?thesis by (cases nm) auto
  next
    case (snoc ys y)
    with 0 have y: "y = 47" by simp
    have "(pre @ nm @ 0 # rest) ! length pre \<noteq> 47" using 0(1) by (cases nm) (auto simp: nth_append)
    moreover have "(pre @ nm @ 0 # rest) ! length ys = 47" using snoc y by (simp add: nth_append)
    ultimately show ?thesis using snoc by (cases ys) auto
  qed
next
  case (Suc k)
  have "(pre @ nm @ 0 # rest) ! (length pre + Suc k) = (nm @ [0]) ! Suc k"
    using Suc.prems(3) by (simp add: nth_append)
  moreover have "(nm @ [0]) ! Suc k \<noteq> 47"
  proof (cases "Suc k < length nm")
    case True
    then have "nm ! Suc k \<in> set nm" by (rule nth_mem)
    with Suc.prems(1) have "nm ! Suc k \<noteq> 47" by metis
    with True show ?thesis by (simp add: nth_append)
  qed (use Suc.prems(3) in \<open>simp add: nth_append\<close>)
  ultimately show ?case using Suc by simp
qed

lemma fmtname_pads:
  assumes "0 \<notin> set s" "length fbuf = 15" "fbuf ! 14 = 0"
  shows "\<exists>fbuf'. fmtname (s @ 0 # rest) fbuf =
      Inr (if length (base_name s) \<ge> DIRSIZ then base_name s else padded (base_name s), fbuf') \<and>
    length fbuf' = 15 \<and> fbuf' ! 14 = 0"
proof -
  obtain pre where s: "s = pre @ base_name s" "pre = [] \<or> last pre = 47" "47 \<notin> set (base_name s)"
    using base_name_split by blast
  define nm where "nm = base_name s"
  have z: "0 \<notin> set pre" "0 \<notin> set nm" using assms(1) s(1) unfolding nm_def by (metis Un_iff set_append)+
  have len: "strlen (s @ 0 # rest) = Inr (length pre + length nm)"
    using assms(1) s(1) unfolding nm_def by (simp add: strlen_spec cstr_no_nul) (metis length_append)
  have bk: "back_to_slash (s @ 0 # rest) (length pre + length nm) = length pre"
    using back_to_slash_stops [of nm pre "length nm" rest] s z unfolding nm_def by (metis append_assoc order_refl)
  have p: "drop (length pre) (s @ 0 # rest) = nm @ 0 # rest"
    by (subst s(1)) (simp add: nm_def)
  have n: "strlen (nm @ 0 # rest) = Inr (length nm)" "cstr (nm @ 0 # rest) = nm"
    using z by (simp_all add: strlen_spec cstr_no_nul)
  have d: "drop 14 fbuf = [0]" using assms(2,3) by (cases fbuf rule: rev_cases) (auto simp: nth_append)
  moreover have "0 \<notin> set (padded nm)" using z by (simp add: padded_def)
  ultimately have c: "cstr (nm @ replicate (DIRSIZ - length nm) 32 @ drop DIRSIZ fbuf) = padded nm"
    using cstr_append_nul [of "padded nm" "[]"] cstr_no_nul [of "padded nm"] by (simp add: padded_def DIRSIZ_def)
  show ?thesis
  proof (cases "length nm \<ge> DIRSIZ")
    case True
    with len bk p n assms show ?thesis by (simp add: fmtname_def nm_def Let_def)
  next
    case False
    with len bk p n c d show ?thesis
      by (simp add: fmtname_def nm_def Let_def nth_append DIRSIZ_def)
  qed
qed

text \<open>
  The listing of a directory: a line for each entry in use, in the order of the directory,
  under the name padded to 14 characters. Names are asked for by \<open>path/name\<close>, and \<open>buf\<close> is not
  overrun.
\<close>

fun listing :: "(byte list \<Rightarrow> (uint \<times> uint \<times> uint) option) \<Rightarrow> byte list \<Rightarrow> (16 word \<times> byte list) list \<Rightarrow> byte list res" where
  "listing st path [] = Inr []"
| "listing st path ((inum, name) # des) =
     (let nm = cstr name; full = path @ 47 # nm in
      if inum = 0 then listing st path des
      else (case st full of
          None \<Rightarrow> mapE (append (msg ''ls: cannot stat '' @ full @ [10])) (listing st path des)
        | Some info \<Rightarrow>
            bindE (ls_line (if length nm \<ge> DIRSIZ then nm else padded nm) info) (\<lambda>out.
              mapE (append out) (listing st path des))))"

lemma base_name_slash: "47 \<notin> set nm \<Longrightarrow> base_name (path @ 47 # nm) = nm"
proof -
  assume "47 \<notin> set nm"
  then have "takeWhile (\<lambda>c. c \<noteq> 47) (rev nm @ 47 # rev path) = rev nm"
    by (subst takeWhile_append2) auto
  then show ?thesis by (simp add: base_name_def)
qed

text \<open>The same result, and a static buffer that ends with 0 as before.\<close>

definition buffered :: "(byte list \<times> byte list) res \<Rightarrow> byte list res \<Rightarrow> bool" where
  "buffered r r' \<longleftrightarrow> (\<exists>fbuf. length fbuf = 15 \<and> fbuf ! 14 = 0 \<and> r = mapE (\<lambda>out. (out, fbuf)) r')"

lemma buffered_append: "buffered r r' \<Longrightarrow> buffered (mapE (apfst (append x)) r) (mapE (append x) r')"
  by (cases r') (auto simp: buffered_def)

lemma buffered_bind:
  "buffered r r' \<Longrightarrow> buffered (bindE m (\<lambda>x. mapE (apfst (append x)) r)) (bindE m (\<lambda>x. mapE (append x) r'))"
  by (cases m) (auto simp: buffered_append, auto simp: buffered_def)

lemma ls_entries_list:
  assumes "0 \<notin> set path" "length path + 16 \<le> 512" "length fbuf = 15" "fbuf ! 14 = 0"
    and "length buf = 512" "take (Suc (length path)) buf = path @ [47]"
    and "\<forall>(inum, name) \<in> set des. length name = 14 \<and> 47 \<notin> set name"
  shows "buffered (ls_entries st (Suc (length path)) buf fbuf des) (listing st path des)"
  using assms(3-)
proof (induction des arbitrary: buf fbuf)
  case (Cons de des)
  obtain inum name where de: "de = (inum, name)" by (cases de)
  note len = Cons.prems(3) and tk = Cons.prems(4)
  have name: "length name = 14" "47 \<notin> set name" using Cons.prems(5) by (auto simp: de)
  define buf' where "buf' = (take (Suc (length path)) buf @ name @ drop (Suc (length path) + DIRSIZ) buf)[Suc (length path) + DIRSIZ := 0]"
  have b: "buf' = path @ 47 # name @ 0 # drop (length path + 16) buf"
    using assms(2) len name unfolding buf'_def tk
    by (simp add: list_update_append DIRSIZ_def Cons_nth_drop_Suc [symmetric] numeral_eq_Suc)
  then have b': "length buf' = 512" "take (Suc (length path)) buf' = path @ [47]"
    using assms(2) len name by simp_all
  define full where "full = path @ 47 # cstr name"
  have nm: "47 \<notin> set (cstr name)" using name(2) unfolding cstr_def by (auto dest: set_takeWhileD)
  have z: "0 \<notin> set full" using assms(1) nul_notin_cstr by (auto simp: full_def)
  have split: "\<exists>rest. name @ 0 # drop (length path + 16) buf = cstr name @ 0 # rest"
    unfolding cstr_def by (induction name) auto
  then obtain rest where rest: "buf' = full @ 0 # rest" unfolding b full_def by auto
  then have full: "cstr buf' = full" using z by (simp add: cstr_no_nul)
  have ok: "\<not> length buf \<le> Suc (length path) + DIRSIZ" using assms(2) len by (simp add: DIRSIZ_def)
  obtain fbuf' where f: "fmtname buf' fbuf = Inr (if length (cstr name) \<ge> DIRSIZ then cstr name else padded (cstr name), fbuf')"
      "length fbuf' = 15" "fbuf' ! 14 = 0"
    using fmtname_pads [OF z Cons.prems(1,2), of rest] rest nm unfolding full_def by (auto simp: base_name_slash)
  have IH: "buffered (ls_entries st (Suc (length path)) bf ff des) (listing st path des)"
    if "length ff = 15" "ff ! 14 = 0" "length bf = 512" "take (Suc (length path)) bf = path @ [47]" for bf ff
    using that Cons.prems(5) by (intro Cons.IH) auto
  show ?case
    unfolding de ls_entries.simps listing.simps buf'_def [symmetric] full_def [symmetric] Let_def full
    using ok f b' Cons.prems IH by (auto split: option.split intro!: buffered_append buffered_bind)
qed (auto simp: buffered_def)

lemma ls_lists:
  assumes "0 \<notin> set path" "length path + 16 \<le> 512" "length buf = 512" "length fbuf = 15" "fbuf ! 14 = 0"
    and "\<forall>(inum, name) \<in> set des. length name = 14 \<and> 47 \<notin> set name"
  shows "buffered (ls_dir st (path @ [0]) buf fbuf des) (listing st path des)"
proof -
  let ?b = "path @ 0 # drop (Suc (length path)) buf"
  have n: "strlen (path @ [0]) = Inr (length path)" "strlen ?b = Inr (length path)"
    using assms(1) by (simp_all add: strlen_spec cstr_no_nul)
  have "strcpy buf (path @ [0]) = Inr ?b"
    using assms(1-3) strcpy_spec [of "path @ [0]" buf] by (simp add: cstr_no_nul)
  moreover have "buffered (ls_entries st (Suc (length path)) (?b[length path := 47]) fbuf des) (listing st path des)"
    using assms by (intro ls_entries_list) (simp_all add: list_update_append)
  ultimately show ?thesis using n assms(2) by (simp add: ls_dir_def DIRSIZ_def)
qed

end
