(* ===== verification/Ps.thy ===== *)
theory Ps
  imports Process Printf
begin

text \<open>
  The program \<open>ps\<close> of exercise 2 (\<open>ps.c\<close>): it prints a process and, below it, everything that
  descends from it, asking the kernel for the data of one process at a time. What the local
  structure \<open>p\<close> holds before the call is the parameter \<open>d\<close>, for the result of the call is not
  looked at.
\<close>

section \<open>The program\<close>

fun print_pids :: "nat \<Rightarrow> proc_data \<Rightarrow> byte list res" where
  "print_pids 0 d = Inr []"
| "print_pids (Suc k) d =
     (let i = unat (pd_chld_num d) - Suc k in
      if i \<ge> length (pd_pids d) then Inl BadAccess
      else bindE (printf (\<lambda>p. []) (msg ''%d '' @ [0]) [pd_pids d ! i]) (\<lambda>out. mapE (append out) (print_pids k d)))"

definition print_proc_data :: "proc_data \<Rightarrow> byte list res" where
  "print_proc_data d =
     bindE (printf (\<lambda>p. cstr (pd_name d)) (msg ''%s %d #children: %d  children PIDs: '' @ [0]) [1, pd_pid d, pd_chld_num d])
       (\<lambda>out. mapE (\<lambda>pids. out @ pids @ [10]) (print_pids (unat (pd_chld_num d)) d))"

text \<open>The recursion may not end, so it gets fuel; the loop over the children reads \<open>p\<close> anew each time.\<close>

fun print_proc_and_children :: "nat \<Rightarrow> uint \<Rightarrow> proc_data \<Rightarrow> ptable \<Rightarrow> byte list res"
  and print_children :: "nat \<Rightarrow> nat \<Rightarrow> proc_data \<Rightarrow> proc_data \<Rightarrow> ptable \<Rightarrow> byte list res" where
  "print_proc_and_children 0 pid d pt = Inl Stuck"
| "print_proc_and_children (Suc fuel) pid d pt =
     bindE (sys_get_proc_data pid d pt) (\<lambda>(r, p).
     bindE (print_proc_data p) (\<lambda>out.
       mapE (append out) (print_children fuel (unat (pd_chld_num p)) p d pt)))"
| "print_children fuel 0 p d pt = Inr []"
| "print_children fuel (Suc k) p d pt =
     (let i = unat (pd_chld_num p) - Suc k in
      if i \<ge> length (pd_pids p) then Inl BadAccess
      else bindE (print_proc_and_children fuel (pd_pids p ! i) d pt) (\<lambda>out.
        mapE (append out) (print_children fuel k p d pt)))"

text \<open>\<open>main\<close> asks for its own data first; \<open>me\<close> is its process and \<open>argv\<close> its arguments.\<close>

definition ps :: "nat \<Rightarrow> nat \<Rightarrow> byte list list \<Rightarrow> proc_data \<Rightarrow> ptable \<Rightarrow> byte list res" where
  "ps fuel me argv d pt =
     (if length argv < 2 then Inr (msg ''no valid pid was supplied'' @ [10])
      else bindE (atoi (argv ! 1)) (\<lambda>pidarg.
        if sint pidarg < 1 then Inr (msg ''no valid pid was supplied'' @ [10])
        else bindE (sys_get_proc_data (p_pid (proc_at pt me)) d pt) (\<lambda>(r, p).
          bindE (printf (\<lambda>q. cstr (pd_name p)) (msg ''%s pid=%d argument=%d'' @ [10, 0]) [1, pd_pid p, pidarg]) (\<lambda>out.
            mapE (\<lambda>fam. out @ msg ''Name PID #Children Children PIDs'' @ [10] @ fam)
              (print_proc_and_children fuel pidarg d pt)))))"

section \<open>The tree of processes\<close>

definition kids :: "ptable \<Rightarrow> nat \<Rightarrow> nat list" where
  "kids pt i = filter (\<lambda>j. p_parent (proc_at pt j) = Some i) [0..<length (procs pt)]"

text \<open>
  What the table is like between calls: an entry in use has a pid of its own and a name that
  ends, a parent is in use and is older, and no process has more than ten children.
\<close>

definition family :: "ptable \<Rightarrow> bool" where
  "family pt \<longleftrightarrow>
     (\<forall>i < length (procs pt). p_state (proc_at pt i) \<noteq> UNUSED \<longrightarrow>
        length (p_name (proc_at pt i)) = 16 \<and> 0 \<in> set (p_name (proc_at pt i)) \<and> length (kids pt i) \<le> MAX_CHILDREN \<and>
        (\<forall>j < length (procs pt). p_pid (proc_at pt j) = p_pid (proc_at pt i) \<longrightarrow> j = i)) \<and>
     (\<forall>j < length (procs pt). \<forall>i. p_parent (proc_at pt j) = Some i \<longrightarrow>
        i < length (procs pt) \<and> p_state (proc_at pt j) \<noteq> UNUSED \<and> p_state (proc_at pt i) \<noteq> UNUSED \<and>
        p_pid (proc_at pt i) < p_pid (proc_at pt j))"

definition alive :: "ptable \<Rightarrow> nat \<Rightarrow> bool" where
  "alive pt i \<longleftrightarrow> i < length (procs pt) \<and> p_state (proc_at pt i) \<noteq> UNUSED"

definition child_of :: "ptable \<Rightarrow> (nat \<times> nat) set" where
  "child_of pt = {(i, j). j < length (procs pt) \<and> p_parent (proc_at pt j) = Some i}"

text \<open>The line \<open>ps\<close> prints for an entry.\<close>

definition dec :: "uint \<Rightarrow> byte list" where
  "dec x = (if sint x < 0 then [45] else []) @ rev (map (\<lambda>d. of_nat (48 + d)) (digits_of 10 (nat \<bar>sint x\<bar>)))"

definition line_of :: "ptable \<Rightarrow> nat \<Rightarrow> byte list" where
  "line_of pt i =
     cstr (p_name (proc_at pt i)) @ [32] @ dec (p_pid (proc_at pt i)) @ msg '' #children: '' @
     dec (of_nat (length (kids pt i))) @ msg ''  children PIDs: '' @
     concat (map (\<lambda>j. dec (p_pid (proc_at pt j)) @ [32]) (kids pt i)) @ [10]"

lemma kids_iff: "j \<in> set (kids pt i) \<longleftrightarrow> (i, j) \<in> child_of pt"
  by (auto simp: kids_def child_of_def)

lemma distinct_kids: "distinct (kids pt i)"
  by (simp add: kids_def)

lemma child_older:
  assumes "family pt" "(i, j) \<in> child_of pt"
  shows "alive pt i" "alive pt j" "p_pid (proc_at pt i) < p_pid (proc_at pt j)"
  using assms unfolding family_def child_of_def alive_def by blast+

lemma finds_alive:
  assumes "family pt" "alive pt i"
  shows "getprocbypid (p_pid (proc_at pt i)) pt = Some i"
proof -
  have "i < length (procs pt)" using assms(2) by (simp add: alive_def)
  then obtain j where j: "getprocbypid (p_pid (proc_at pt i)) pt = Some j"
    unfolding getprocbypid_def using scan_exists [of i "procs pt" "\<lambda>p. p_pid p = p_pid (proc_at pt i)"] by auto
  then have "j < length (procs pt)" "p_pid (proc_at pt j) = p_pid (proc_at pt i)"
    unfolding getprocbypid_def using scan_Some_less scan_Some_holds by blast+
  with assms have "j = i" unfolding family_def alive_def by blast
  with j show ?thesis by simp
qed

lemma children_are_kids:
  assumes "family pt" "alive pt i"
  shows "getchildrenpid (p_pid (proc_at pt i)) pt = map (\<lambda>j. p_pid (proc_at pt j)) (kids pt i)"
proof -
  have "filter P xs = map (nth xs) (filter (\<lambda>j. P (xs ! j)) [0..<length xs])" for P and xs :: "proc list"
  proof -
    have "filter P xs = filter P (map (nth xs) [0..<length xs])" by (simp add: map_nth)
    then show ?thesis by (simp add: filter_map o_def)
  qed
  then show ?thesis unfolding getchildrenpid_def kids_def finds_alive [OF assms] by (simp add: o_def)
qed

section \<open>One line\<close>

lemma print_dec: "printint user_digits x 10 True = Inr (dec x)"
  unfolding dec_def by (rule printint_decimal(1))

lemma print_pids_all:
  assumes "length (pd_pids d) \<ge> unat (pd_chld_num d)" "k \<le> unat (pd_chld_num d)"
  shows "print_pids k d =
    Inr (concat (map (\<lambda>x. dec x @ [32]) (drop (unat (pd_chld_num d) - k) (take (unat (pd_chld_num d)) (pd_pids d)))))"
  using assms(2)
proof (induction k)
  case (Suc k)
  let ?n = "unat (pd_chld_num d)" and ?i = "unat (pd_chld_num d) - Suc k"
  have i: "?i < ?n" "Suc ?i = ?n - k" using Suc.prems by simp_all
  have "drop ?i (take ?n (pd_pids d)) = take ?n (pd_pids d) ! ?i # drop (Suc ?i) (take ?n (pd_pids d))"
    using i(1) assms(1) by (intro Cons_nth_drop_Suc [symmetric]) simp
  moreover have "msg ''%d '' @ [0] = [37, 100, 32, 0]" by (simp add: msg_def)
  ultimately show ?case using Suc i assms(1) by (simp add: Let_def printf_def print_dec)
qed simp

definition blank_data :: "proc_data \<Rightarrow> bool" where
  "blank_data d \<longleftrightarrow> length (pd_name d) = 16 \<and> length (pd_pids d) = MAX_CHILDREN"

lemma data_of_alive:
  assumes f: "family pt" and a: "alive pt i" and d: "blank_data d"
  shows "\<exists>p. sys_get_proc_data (p_pid (proc_at pt i)) d pt = Inr (sint (p_pid (proc_at pt i)), p) \<and>
    pd_pid p = p_pid (proc_at pt i) \<and> cstr (pd_name p) = cstr (p_name (proc_at pt i)) \<and>
    unat (pd_chld_num p) = length (kids pt i) \<and> pd_chld_num p = of_nat (length (kids pt i)) \<and>
    take (length (kids pt i)) (pd_pids p) = map (\<lambda>j. p_pid (proc_at pt j)) (kids pt i) \<and> length (pd_pids p) = MAX_CHILDREN"
proof -
  let ?p = "proc_at pt i" and ?ks = "map (\<lambda>j. p_pid (proc_at pt j)) (kids pt i)"
  have st: "p_state ?p \<noteq> UNUSED" and nm: "length (p_name ?p) = 16" "0 \<in> set (p_name ?p)"
    and ten: "length (kids pt i) \<le> MAX_CHILDREN"
    using f a by (auto simp: family_def alive_def)
  have "strncpy (pd_name d) (p_name ?p) 16 =
      Inr (take 16 (cstr (p_name ?p)) @ replicate (16 - length (cstr (p_name ?p))) 0 @ drop 16 (pd_name d))"
    using d nm by (simp add: strncpy_def strncpy_loop_spec readable_def blank_data_def)
  moreover have len: "length (cstr (p_name ?p)) < 16" using length_cstr_less [OF nm(2)] nm(1) by simp
  moreover obtain k where "16 - length (cstr (p_name ?p)) = Suc k" using len by (metis Suc_diff_Suc)
  moreover have "cstr (cstr (p_name ?p) @ replicate (Suc k) 0) = cstr (p_name ?p)"
    by (simp add: nul_notin_cstr cstr_no_nul)
  ultimately obtain name where n: "strncpy (pd_name d) (p_name ?p) 16 = Inr name" "cstr name = cstr (p_name ?p)"
    using d by (simp add: blank_data_def)
  have small: "unat (of_nat (length (kids pt i)) :: uint) = length (kids pt i)"
    using ten by (simp add: MAX_CHILDREN_def unat_of_nat)
  have "sys_get_proc_data (p_pid ?p) d pt = Inr (sint (p_pid ?p),
      \<lparr>pd_pid = p_pid ?p, pd_name = name, pd_chld_num = of_nat (length (kids pt i)),
       pd_pids = ?ks @ drop (length (kids pt i)) (pd_pids d)\<rparr>)"
    using st ten n(1) by (simp add: sys_get_proc_data_def finds_alive [OF f a] children_are_kids [OF f a] Let_def)
  then show ?thesis using n(2) small ten d by (auto simp: blank_data_def)
qed

lemma print_line:
  assumes "unat (pd_chld_num p) = length (kids pt i)" "pd_chld_num p = of_nat (length (kids pt i))"
    "pd_pid p = p_pid (proc_at pt i)" "cstr (pd_name p) = cstr (p_name (proc_at pt i))"
    "take (length (kids pt i)) (pd_pids p) = map (\<lambda>j. p_pid (proc_at pt j)) (kids pt i)"
    "length (kids pt i) \<le> length (pd_pids p)"
  shows "print_proc_data p = Inr (line_of pt i)"
proof -
  have pids: "print_pids (unat (pd_chld_num p)) p =
      Inr (concat (map (\<lambda>j. dec (p_pid (proc_at pt j)) @ [32]) (kids pt i)))"
    using assms(1,5,6) by (subst print_pids_all) (simp_all add: o_def)
  have fmt: "msg ''%s %d #children: %d  children PIDs: '' @ [0] =
      [37, 115, 32, 37, 100] @ msg '' #children: '' @ [37, 100] @ msg ''  children PIDs: '' @ [0]"
    by (simp add: msg_def)
  have "printf (\<lambda>q. cstr (pd_name p)) (msg ''%s %d #children: %d  children PIDs: '' @ [0]) [1, pd_pid p, pd_chld_num p] =
      Inr (cstr (p_name (proc_at pt i)) @ [32] @ dec (p_pid (proc_at pt i)) @ msg '' #children: '' @
        dec (of_nat (length (kids pt i))) @ msg ''  children PIDs: '')"
    unfolding assms(2-4) by (simp add: msg_def printf_def put_string_def print_dec)
  with pids show ?thesis unfolding print_proc_data_def line_of_def by simp
qed

section \<open>The whole family\<close>

text \<open>How many entries are younger: it bounds the depth of the recursion.\<close>

definition younger :: "ptable \<Rightarrow> nat \<Rightarrow> nat" where
  "younger pt i = card {j. j < length (procs pt) \<and> p_pid (proc_at pt i) < p_pid (proc_at pt j)}"

lemma younger_less: "family pt \<Longrightarrow> (i, j) \<in> child_of pt \<Longrightarrow> younger pt j < younger pt i"
  unfolding younger_def
proof (rule psubset_card_mono)
  assume f: "family pt" and c: "(i, j) \<in> child_of pt"
  note o = child_older [OF f c]
  then have "j \<in> {j. j < length (procs pt) \<and> p_pid (proc_at pt i) < p_pid (proc_at pt j)}" by (simp add: alive_def)
  then show "{k. k < length (procs pt) \<and> p_pid (proc_at pt j) < p_pid (proc_at pt k)} \<subset>
      {k. k < length (procs pt) \<and> p_pid (proc_at pt i) < p_pid (proc_at pt k)}"
    using o(3) by (blast intro: less_trans)
qed simp

lemma younger_bound: "younger pt i \<le> length (procs pt)"
proof -
  have "younger pt i \<le> card {..<length (procs pt)}" unfolding younger_def by (intro card_mono) auto
  then show ?thesis by simp
qed

fun preorder :: "nat \<Rightarrow> ptable \<Rightarrow> nat \<Rightarrow> nat list" where
  "preorder 0 pt i = []"
| "preorder (Suc n) pt i = i # concat (map (preorder n pt) (kids pt i))"

lemma set_preorder:
  assumes "family pt" "younger pt i < n"
  shows "set (preorder n pt i) = {j. (i, j) \<in> (child_of pt)\<^sup>*}"
  using assms(2)
proof (induction n arbitrary: i)
  case (Suc n)
  have "set (preorder n pt k) = {j. (k, j) \<in> (child_of pt)\<^sup>*}" if "(i, k) \<in> child_of pt" for k
    using Suc.prems younger_less [OF assms(1) that] by (intro Suc.IH) simp
  moreover have "(i, j) \<in> (child_of pt)\<^sup>* \<longleftrightarrow> j = i \<or> (\<exists>k. (i, k) \<in> child_of pt \<and> (k, j) \<in> (child_of pt)\<^sup>*)" for j
    by (metis converse_rtranclE converse_rtrancl_into_rtrancl rtrancl.rtrancl_refl)
  ultimately show ?case by (auto simp: kids_iff)
qed simp

lemma older_descendants:
  assumes "family pt" "(i, j) \<in> (child_of pt)\<^sup>*"
  shows "p_pid (proc_at pt i) \<le> p_pid (proc_at pt j)" and "i = j \<or> p_pid (proc_at pt i) < p_pid (proc_at pt j)"
proof -
  show "i = j \<or> p_pid (proc_at pt i) < p_pid (proc_at pt j)"
    using assms(2)
  proof (induction rule: rtrancl_induct)
    case (step y z)
    then show ?case using child_older(3) [OF assms(1) step(2)] by (metis less_trans)
  qed simp
  then show "p_pid (proc_at pt i) \<le> p_pid (proc_at pt j)" by auto
qed

text \<open>An entry has one parent, so the families of two children of one process are disjoint.\<close>

lemma one_parent: "(a, j) \<in> child_of pt \<Longrightarrow> (b, j) \<in> child_of pt \<Longrightarrow> a = b"
  by (simp add: child_of_def)

lemma ancestors_linear:
  assumes "(a, x) \<in> (child_of pt)\<^sup>*" "(b, x) \<in> (child_of pt)\<^sup>*"
  shows "(a, b) \<in> (child_of pt)\<^sup>* \<or> (b, a) \<in> (child_of pt)\<^sup>*"
  using assms
proof (induction rule: rtrancl_induct)
  case (step y z)
  from step.prems show ?case
  proof (cases rule: rtranclE)
    case base
    then show ?thesis using step.hyps by (meson rtrancl.rtrancl_into_rtrancl)
  next
    case (step w)
    then show ?thesis using one_parent step.IH \<open>(y, z) \<in> child_of pt\<close> by metis
  qed
qed simp

lemma siblings_disjoint:
  assumes f: "family pt" and c: "(i, a) \<in> child_of pt" "(i, b) \<in> child_of pt"
    and x: "(a, x) \<in> (child_of pt)\<^sup>*" "(b, x) \<in> (child_of pt)\<^sup>*"
  shows "a = b"
proof (rule ccontr)
  assume ne: "a \<noteq> b"
  have no: False if "(u, v) \<in> (child_of pt)\<^sup>*" "u \<noteq> v" "(i, u) \<in> child_of pt" "(i, v) \<in> child_of pt" for u v
  proof -
    from that(1,2) obtain w where "(u, w) \<in> (child_of pt)\<^sup>*" "(w, v) \<in> child_of pt" by (metis rtranclE)
    then have "(u, i) \<in> (child_of pt)\<^sup>*" using one_parent that(4) by metis
    then show False using older_descendants(1) [OF f] child_older(3) [OF f that(3)] by (meson leD)
  qed
  from ancestors_linear [OF x] no ne c show False by metis
qed

lemma distinct_preorder:
  assumes "family pt" "younger pt i < n"
  shows "distinct (preorder n pt i)"
  using assms(2)
proof (induction n arbitrary: i)
  case (Suc n)
  have y: "younger pt k < n" if "(i, k) \<in> child_of pt" for k
    using Suc.prems younger_less [OF assms(1) that] by simp
  note sp = set_preorder [OF assms(1)]
  have "inj_on (preorder n pt) (set (kids pt i))"
  proof (rule inj_onI)
    fix a b assume ab: "a \<in> set (kids pt i)" "b \<in> set (kids pt i)" "preorder n pt a = preorder n pt b"
    then have "(a, a) \<in> (child_of pt)\<^sup>*" "(b, a) \<in> (child_of pt)\<^sup>*"
      using sp [of a n] sp [of b n] y by (auto simp: kids_iff)
    then show "a = b" using siblings_disjoint [OF assms(1)] ab kids_iff by metis
  qed
  then have d: "distinct (map (preorder n pt) (kids pt i))" by (simp add: distinct_map distinct_kids)
  have "i \<notin> set (preorder n pt k)" if "(i, k) \<in> child_of pt" for k
    using sp [OF y [OF that]] older_descendants(1) [OF assms(1)] child_older(3) [OF assms(1) that] by (auto simp: leD)
  then have i: "i \<notin> set (concat (map (preorder n pt) (kids pt i)))" by (auto simp: kids_iff)
  have "distinct (concat (map (preorder n pt) (kids pt i)))"
  proof (rule distinct_concat [OF d])
    show "distinct ys" if "ys \<in> set (map (preorder n pt) (kids pt i))" for ys
      using that Suc.IH y by (auto simp: kids_iff)
  next
    fix ys zs assume yz: "ys \<in> set (map (preorder n pt) (kids pt i))" "zs \<in> set (map (preorder n pt) (kids pt i))" "ys \<noteq> zs"
    then obtain a b where ab: "ys = preorder n pt a" "zs = preorder n pt b" "(i, a) \<in> child_of pt" "(i, b) \<in> child_of pt"
      by (auto simp: kids_iff)
    then have "a \<noteq> b" using yz(3) by blast
    then show "set ys \<inter> set zs = {}"
      using siblings_disjoint [OF assms(1) ab(3,4)] sp [OF y [OF ab(3)]] sp [OF y [OF ab(4)]] ab(1,2) by blast
  qed
  with i show ?case by simp
qed simp

lemma concat_parts: "concat (concat (map f xs)) = concat (map (\<lambda>x. concat (f x)) xs)"
  by (induction xs) auto

lemma print_family:
  assumes f: "family pt" and d: "blank_data d" and "alive pt i" "younger pt i < n"
  shows "print_proc_and_children n (p_pid (proc_at pt i)) d pt = Inr (concat (map (line_of pt) (preorder n pt i)))"
  using assms(3,4)
proof (induction n arbitrary: i)
  case (Suc n)
  obtain p where p: "sys_get_proc_data (p_pid (proc_at pt i)) d pt = Inr (sint (p_pid (proc_at pt i)), p)"
    "pd_pid p = p_pid (proc_at pt i)" "cstr (pd_name p) = cstr (p_name (proc_at pt i))"
    "unat (pd_chld_num p) = length (kids pt i)" "pd_chld_num p = of_nat (length (kids pt i))"
    "take (length (kids pt i)) (pd_pids p) = map (\<lambda>j. p_pid (proc_at pt j)) (kids pt i)" "length (pd_pids p) = MAX_CHILDREN"
    using data_of_alive [OF f Suc.prems(1) d] by blast
  have ten: "length (kids pt i) \<le> MAX_CHILDREN" using f Suc.prems(1) by (auto simp: family_def alive_def)
  have line: "print_proc_data p = Inr (line_of pt i)" using p ten by (intro print_line) simp_all
  have "print_children n k p d pt =
      Inr (concat (map (\<lambda>j. concat (map (line_of pt) (preorder n pt j))) (drop (length (kids pt i) - k) (kids pt i))))"
    if "k \<le> length (kids pt i)" for k
    using that
  proof (induction k)
    case (Suc k)
    define m where "m = length (kids pt i) - Suc k"
    have m: "m < length (kids pt i)" "Suc m = length (kids pt i) - k" using Suc.prems by (simp_all add: m_def)
    have "take (length (kids pt i)) (pd_pids p) ! m = p_pid (proc_at pt (kids pt i ! m))" using m(1) p(6) by simp
    then have pid: "pd_pids p ! m = p_pid (proc_at pt (kids pt i ! m))" using m(1) by simp
    have c: "(i, kids pt i ! m) \<in> child_of pt" using m(1) by (metis kids_iff nth_mem)
    have "print_proc_and_children n (pd_pids p ! m) d pt = Inr (concat (map (line_of pt) (preorder n pt (kids pt i ! m))))"
      unfolding pid using child_older(2) [OF f c] younger_less [OF f c] \<open>younger pt i < Suc n\<close>
      by (intro \<open>\<And>i. alive pt i \<Longrightarrow> younger pt i < n \<Longrightarrow> _ i\<close>) simp_all
    moreover have "drop m (kids pt i) = kids pt i ! m # drop (length (kids pt i) - k) (kids pt i)"
      using m by (metis Cons_nth_drop_Suc)
    ultimately show ?case
      using Suc m(1) p(4,7) ten unfolding m_def by (simp add: Let_def)
  qed simp
  then show ?case using p(1,4) line by (simp add: map_concat o_def concat_parts)
qed simp

text \<open>
  C40. When the process table is a family, \<open>ps\<close> returns for every process in it: it prints the
  line of that process and of each of its descendants exactly once, nothing else, and whatever
  its local variables held before.
\<close>

theorem ps_prints_family:
  assumes "family pt" "alive pt i" "blank_data d"
  shows "\<exists>is. distinct is \<and> set is = {j. (i, j) \<in> (child_of pt)\<^sup>*} \<and>
    print_proc_and_children (Suc (length (procs pt))) (p_pid (proc_at pt i)) d pt = Inr (concat (map (line_of pt) is))"
proof -
  have y: "younger pt i < Suc (length (procs pt))" using younger_bound by (simp add: less_Suc_eq_le)
  from set_preorder [OF assms(1) y] distinct_preorder [OF assms(1) y] print_family [OF assms(1,3,2) y]
  show ?thesis by blast
qed

text \<open>For a pid that no process has, \<open>ps\<close> prints what its local variable happened to hold.\<close>

lemma ps_prints_rubbish:
  assumes "getprocbypid pid pt = None" "pd_chld_num d = 0"
  shows "print_proc_and_children (Suc n) pid d pt = print_proc_data d"
  using assms by (cases "print_proc_data d") (simp_all add: sys_get_proc_data_def)

text \<open>Three processes: the first has the other two as its children.\<close>

definition demo_proc :: "uint \<Rightarrow> nat option \<Rightarrow> string \<Rightarrow> proc" where
  "demo_proc pid par nm = zero_proc\<lparr>p_state := RUNNABLE, p_pid := pid, p_parent := par,
     p_name := msg nm @ replicate (16 - length nm) 0\<rparr>"

definition demo_family :: ptable where
  "demo_family = \<lparr>procs = [demo_proc 1 None ''init'', demo_proc 2 (Some 0) ''sh'', demo_proc 3 (Some 0) ''ps'', zero_proc],
     initproc = Some 0, nextpid = 4\<rparr>"

lemma demo_family_ok: "family demo_family"
proof -
  have nm: "length (p_name (demo_proc a b ''init'')) = 16" "0 \<in> set (p_name (demo_proc a b ''init''))"
    "length (p_name (demo_proc a b ''sh'')) = 16" "0 \<in> set (p_name (demo_proc a b ''sh''))"
    "length (p_name (demo_proc a b ''ps'')) = 16" "0 \<in> set (p_name (demo_proc a b ''ps''))" for a b
    by (simp_all add: demo_proc_def msg_def)
  have f: "p_state (demo_proc a b c) = RUNNABLE" "p_pid (demo_proc a b c) = a" "p_parent (demo_proc a b c) = b"
    "p_pid zero_proc = 0" "p_parent zero_proc = None" "p_state zero_proc = UNUSED" for a b c
    by (simp_all add: demo_proc_def zero_proc_def)
  have four: "(\<forall>i < (4::nat). P i) \<longleftrightarrow> P 0 \<and> P 1 \<and> P 2 \<and> P 3" "[0..<(4::nat)] = [0, 1, 2, 3]" for P
    by (simp_all add: numeral_eq_Suc All_less_Suc conj_ac)
  have len: "length (procs demo_family) = 4" by (simp add: demo_family_def)
  show ?thesis
    unfolding family_def kids_def len four by (simp add: demo_family_def f nm MAX_CHILDREN_def)
qed

theorem ps_prints_family_witness:
  "\<exists>is. distinct is \<and> set is = {j. (0, j) \<in> (child_of demo_family)\<^sup>*} \<and>
    print_proc_and_children (Suc (length (procs demo_family))) (p_pid (proc_at demo_family 0))
      \<lparr>pd_pid = 0, pd_name = replicate 16 7, pd_chld_num = 9, pd_pids = replicate 10 7\<rparr> demo_family
    = Inr (concat (map (line_of demo_family) is))"
proof -
  have "alive demo_family 0" by code_simp
  moreover have "blank_data \<lparr>pd_pid = 0, pd_name = replicate 16 7, pd_chld_num = 9, pd_pids = replicate 10 7\<rparr>"
    by code_simp
  ultimately show ?thesis by (rule ps_prints_family [OF demo_family_ok])
qed

end
