(* ===== verification/Mkfs.thy ===== *)
theory Mkfs
  imports Fs_Properties
begin

text \<open>
  The program \<open>mkfs\<close> that makes the disk image (\<open>mkfs.c\<close>), and what the kernel finds in the
  image. The image is a function from block numbers to blocks; opening, reading and writing
  it on the host succeed. A structure on the disk is its bytes, written and read with the
  same functions as in the kernel, and the structure \<open>dinode\<close> is held in the disk fields of
  an inode. The counter \<open>freeblock\<close> is a natural number: an inode takes 141 blocks at most.
\<close>

section \<open>The program\<close>

definition NINODES :: uint where "NINODES = 200"
definition nbitmap :: uint where "nbitmap = FSSIZE div (512 * 8) + 1"
definition ninodeblocks :: uint where "ninodeblocks = NINODES div IPB + 1"
definition nlog :: uint where "nlog = of_nat LOGSIZE"
definition nmeta :: uint where "nmeta = 2 + nlog + ninodeblocks + nbitmap"
definition nblocks :: uint where "nblocks = FSSIZE - nmeta"

text \<open>The bytes of the result in memory, which the host reads lowest first.\<close>

definition xint :: "uint \<Rightarrow> uint" where
  "xint x = of_le32 [ucast x, ucast (drop_bit 8 x), ucast (drop_bit 16 x), ucast (drop_bit 24 x)]"

definition xshort :: "16 word \<Rightarrow> 16 word" where
  "xshort x = of_le16 [ucast x, ucast (drop_bit 8 x)]"

definition mk_sb :: superblock where
  "mk_sb = \<lparr>sb_size = xint FSSIZE, sb_nblocks = xint nblocks, sb_ninodes = xint NINODES, sb_nlog = xint nlog,
     sb_logstart = xint 2, sb_inodestart = xint (2 + nlog), sb_bmapstart = xint (2 + nlog + ninodeblocks)\<rparr>"

record mkstate =
  img :: "uint \<Rightarrow> block"
  freeinode :: uint
  freeblock :: nat

definition rsect :: "uint \<Rightarrow> mkstate \<Rightarrow> block" where
  "rsect sec m = img m sec"

definition wsect :: "uint \<Rightarrow> block \<Rightarrow> mkstate \<Rightarrow> mkstate" where
  "wsect sec buf m = m\<lparr>img := (img m)(sec := buf)\<rparr>"

definition zero_dinode :: inode where
  "zero_dinode = \<lparr>i_dev = 0, i_inum = 0, i_ref = 0, i_lock = \<lparr>sl_locked = False, sl_pid = 0\<rparr>, i_valid = False,
     i_type = 0, i_major = 0, i_minor = 0, i_nlink = 0, i_size = 0, i_addrs = replicate 13 0\<rparr>"

definition winode :: "uint \<Rightarrow> inode \<Rightarrow> mkstate \<Rightarrow> mkstate" where
  "winode inum ip m =
     (let bn = IBLOCK inum mk_sb
      in wsect bn (put_dinode (dip inum) ip (rsect bn m)) m)"

definition rinode :: "uint \<Rightarrow> mkstate \<Rightarrow> inode" where
  "rinode inum m = get_dinode (dip inum) (rsect (IBLOCK inum mk_sb) m) zero_dinode"

definition mk_ialloc :: "16 word \<Rightarrow> mkstate \<Rightarrow> uint \<times> mkstate" where
  "mk_ialloc ty m =
     (let inum = freeinode m;
          m = m\<lparr>freeinode := freeinode m + 1\<rparr>;
          din = zero_dinode\<lparr>i_type := xshort ty, i_nlink := xshort 1, i_size := xint 0\<rparr>
      in (inum, winode inum din m))"

definition mk_balloc :: "nat \<Rightarrow> mkstate \<Rightarrow> mkstate res" where
  "mk_balloc n m =
     (if \<not> n < BSIZE * 8 then Inl (Panic ''assert'')
      else Inr (wsect (sb_bmapstart mk_sb) (fold (\<lambda>i buf. mark_bit buf i) [0..<n] (replicate BSIZE 0)) m))"

text \<open>Entry \<open>k\<close> of the inode's addresses, with a new block if there is none.\<close>

definition new_addr :: "nat \<Rightarrow> inode \<times> mkstate \<Rightarrow> inode \<times> mkstate" where
  "new_addr k = (\<lambda>(din, m).
     if xint (i_addrs din ! k) = 0
     then (din\<lparr>i_addrs := (i_addrs din)[k := xint (of_nat (freeblock m))]\<rparr>, m\<lparr>freeblock := freeblock m + 1\<rparr>)
     else (din, m))"

text \<open>The block for \<open>fbn\<close>.\<close>

definition file_block :: "nat \<Rightarrow> inode \<times> mkstate \<Rightarrow> uint \<times> inode \<times> mkstate" where
  "file_block fbn s =
     (if fbn < NDIRECT then
        let (din, m) = new_addr fbn s in (xint (i_addrs din ! fbn), din, m)
      else
        let (din, m) = new_addr NDIRECT s;
            ind = xint (i_addrs din ! NDIRECT);
            indirect = rsect ind m;
            j = 4 * (fbn - NDIRECT)
        in if get32 j indirect = 0 then
             let indirect = put32 j (xint (of_nat (freeblock m))) indirect
             in (xint (get32 j indirect), din, wsect ind indirect (m\<lparr>freeblock := freeblock m + 1\<rparr>))
           else (xint (get32 j indirect), din, m))"

lemma off_before_next: "off < (off div BSIZE + 1) * BSIZE"
  by (simp add: BSIZE_def)

function iappend_loop :: "nat \<Rightarrow> byte list \<Rightarrow> inode \<times> mkstate \<Rightarrow> (nat \<times> inode \<times> mkstate) res" where
  "iappend_loop off p s =
     (if p = [] then Inr (off, s)
      else
        let fbn = off div BSIZE in
        if \<not> fbn < MAXFILE then Inl (Panic ''assert'')
        else
          let (x, din, m) = file_block fbn s;
              n1 = min (length p) ((fbn + 1) * BSIZE - off);
              buf = rsect x m;
              k = off - fbn * BSIZE;
              m = wsect x (take k buf @ take n1 p @ drop (k + n1) buf) m
          in iappend_loop (off + n1) (drop n1 p) (din, m))"
  by pat_completeness auto

termination
proof (relation "measure (\<lambda>(off, p, s). length p)")
  fix off :: nat and p :: "byte list" and s :: "inode \<times> mkstate" and fbn x y z xa ya n1 buf k m
  assume "p \<noteq> []" "fbn = off div BSIZE" "n1 = min (length p) ((fbn + 1) * BSIZE - off)"
  then show "((off + n1, drop n1 p, xa, m), off, p, s) \<in> measure (\<lambda>(off, p, s). length p)"
    using off_before_next [of off] by auto
qed simp

declare iappend_loop.simps [simp del]

definition iappend :: "uint \<Rightarrow> byte list \<Rightarrow> mkstate \<Rightarrow> mkstate res" where
  "iappend inum xp m =
     (let din = rinode inum m; off = unat (xint (i_size din)) in
      mapE (\<lambda>(off, din, m). winode inum (din\<lparr>i_size := xint (of_nat off)\<rparr>) m)
        (iappend_loop off xp (din, m)))"

text \<open>A directory entry: the number and 14 bytes of name, zero behind the end of the string.\<close>

definition dirent :: "uint \<Rightarrow> byte list \<Rightarrow> byte list res" where
  "dirent inum name = mapE (append (le16 (xshort (ucast inum)))) (strncpy (replicate DIRSIZ 0) name (int DIRSIZ))"

fun append_reads :: "uint \<Rightarrow> byte list list \<Rightarrow> mkstate \<Rightarrow> mkstate res" where
  "append_reads inum [] m = Inr m"
| "append_reads inum (buf # reads) m = bindE (iappend inum buf m) (append_reads inum reads)"

text \<open>One argument: its name, and the pieces in which it is read.\<close>

definition add_file :: "uint \<Rightarrow> byte list \<times> byte list list \<Rightarrow> mkstate \<Rightarrow> mkstate res" where
  "add_file rootino = (\<lambda>(name, reads) m.
     if 47 \<in> set (cstr name) then Inl (Panic ''assert'')
     else
       let name = (if name ! 0 = 95 then tl name else name);
           (inum, m) = mk_ialloc T_FILE m
       in bindE (dirent inum name) (\<lambda>de.
          bindE (iappend rootino de m) (append_reads inum reads)))"

fun add_files :: "uint \<Rightarrow> (byte list \<times> byte list list) list \<Rightarrow> mkstate \<Rightarrow> mkstate res" where
  "add_files rootino [] m = Inr m"
| "add_files rootino (f # fs) m = bindE (add_file rootino f m) (add_files rootino fs)"

definition sb_block :: block where
  "sb_block = put32 24 (sb_bmapstart mk_sb) (put32 20 (sb_inodestart mk_sb) (put32 16 (sb_logstart mk_sb)
     (put32 12 (sb_nlog mk_sb) (put32 8 (sb_ninodes mk_sb) (put32 4 (sb_nblocks mk_sb)
     (put32 0 (sb_size mk_sb) (replicate BSIZE 0)))))))"

definition mk_start :: mkstate where
  "mk_start = wsect 1 sb_block \<lparr>img = (\<lambda>_. replicate BSIZE 0), freeinode = 1, freeblock = unat nmeta\<rparr>"

definition fix_root_size :: "uint \<Rightarrow> mkstate \<Rightarrow> mkstate" where
  "fix_root_size rootino m =
     (let din = rinode rootino m;
          off = xint (i_size din);
          off = ((off div 512) + 1) * 512
      in winode rootino (din\<lparr>i_size := xint off\<rparr>) m)"

definition mkfs :: "(byte list \<times> byte list list) list \<Rightarrow> mkstate res" where
  "mkfs files =
     (let (rootino, m) = mk_ialloc T_DIR mk_start in
      if rootino \<noteq> ROOTINO then Inl (Panic ''assert'')
      else
        bindE (dirent rootino [46, 0]) (\<lambda>de.
        bindE (iappend rootino de m) (\<lambda>m.
        bindE (dirent rootino [46, 46, 0]) (\<lambda>de.
        bindE (iappend rootino de m) (\<lambda>m.
        bindE (add_files rootino files m) (\<lambda>m.
          let m = fix_root_size rootino m in mk_balloc (freeblock m) m))))))"

section \<open>Constants\<close>

lemma xint_id [simp]: "xint x = x"
  using of_le32_le32 [of x] by (simp add: xint_def le32_def)

lemma xshort_id [simp]: "xshort x = x"
  using of_le16_le16 [of x] by (simp add: xshort_def le16_def)

lemma layout_values:
  "unat nmeta = 59" "sb_inodestart mk_sb = 32" "sb_bmapstart mk_sb = 58" "unat (sb_size mk_sb) = 1000" "unat (sb_ninodes mk_sb) = 200"
  by (simp_all add: nmeta_def nlog_def ninodeblocks_def nbitmap_def mk_sb_def NINODES_def IPB_def FSSIZE_def LOGSIZE_def)

lemma mk_layout: "layout_ok 59 mk_sb"
  by (simp add: layout_ok_def layout_values)

section \<open>The blocks of a file in the image\<close>

text \<open>As \<open>addr_at\<close>, \<open>fblock\<close> and \<open>fbyte\<close> of theory \<open>Fs_Content\<close>, of an inode in an image.\<close>

definition adr :: "inode \<Rightarrow> (uint \<Rightarrow> block) \<Rightarrow> nat \<Rightarrow> uint" where
  "adr din im k =
     (let as = i_addrs din in
      if k < NDIRECT then as ! k
      else if k = MAXFILE then as ! NDIRECT
      else if as ! NDIRECT = 0 then 0 else get32 (4 * (k - NDIRECT)) (im (as ! NDIRECT)))"

definition dbyte :: "inode \<Rightarrow> (uint \<Rightarrow> block) \<Rightarrow> nat \<Rightarrow> byte" where
  "dbyte din im p = (if adr din im (p div 512) = 0 then 0 else im (adr din im (p div 512)) ! (p mod 512))"

text \<open>The blocks from \<open>freeblock\<close> on are as they were at the start.\<close>

definition blocks_ok :: "mkstate \<Rightarrow> bool" where
  "blocks_ok m \<longleftrightarrow> 59 \<le> freeblock m \<and> (\<forall>b. length (img m b) = BSIZE) \<and>
     (\<forall>b. freeblock m \<le> unat b \<longrightarrow> img m b = zero_block)"

definition own_blocks :: "uint set \<Rightarrow> inode \<Rightarrow> mkstate \<Rightarrow> bool" where
  "own_blocks others din m \<longleftrightarrow> length (i_addrs din) = 13 \<and> (\<forall>b \<in> others. unat b < freeblock m) \<and>
     (\<forall>k \<le> MAXFILE. adr din (img m) k \<noteq> 0 \<longrightarrow>
        59 \<le> unat (adr din (img m) k) \<and> unat (adr din (img m) k) < freeblock m \<and> adr din (img m) k \<notin> others) \<and>
     (\<forall>k \<le> MAXFILE. \<forall>l \<le> MAXFILE. adr din (img m) k \<noteq> 0 \<longrightarrow> adr din (img m) k = adr din (img m) l \<longrightarrow> k = l)"

definition kept :: "uint set \<Rightarrow> inode \<times> mkstate \<Rightarrow> inode \<times> mkstate \<Rightarrow> bool" where
  "kept others = (\<lambda>(din, m) (din', m'). freeblock m \<le> freeblock m' \<and> freeinode m' = freeinode m \<and>
     (\<forall>b. unat b < 59 \<or> b \<in> others \<longrightarrow> img m' b = img m b) \<and> din' = din\<lparr>i_addrs := i_addrs din'\<rparr>)"

lemma kept_refl [simp]: "kept others s s"
  by (cases s) (simp add: kept_def)

lemma kept_trans: "kept others s t \<Longrightarrow> kept others t u \<Longrightarrow> kept others s u"
  by (cases s; cases t; cases u) (auto simp: kept_def, metis inode.surjective inode.update_convs(11))

lemma own_blocksD:
  assumes "own_blocks others din m" "k \<le> MAXFILE" "adr din (img m) k \<noteq> 0"
  shows "59 \<le> unat (adr din (img m) k)" "unat (adr din (img m) k) < freeblock m" "adr din (img m) k \<notin> others"
    "l \<le> MAXFILE \<Longrightarrow> adr din (img m) k = adr din (img m) l \<Longrightarrow> k = l"
  using assms unfolding own_blocks_def by blast+

text \<open>A new address in entry \<open>e\<close> of the file.\<close>

lemma fresh_address:
  assumes own: "own_blocks others din m" and e: "e \<le> MAXFILE" and a: "unat a = freeblock m" "59 \<le> freeblock m"
    and len: "length (i_addrs din') = 13" and fb: "freeblock m' = Suc (freeblock m)"
    and new: "\<And>k. k \<le> MAXFILE \<Longrightarrow> adr din' (img m') k = (if k = e then a else adr din (img m) k)"
  shows "own_blocks others din' m'"
proof -
  have old: "adr din (img m) k \<noteq> a" if "k \<le> MAXFILE" for k
    using own_blocksD(2) [OF own that] a by (cases "adr din (img m) k = 0") auto
  have "a \<notin> others" using own a(1) by (auto simp: own_blocks_def)
  moreover have "adr din' (img m') k \<noteq> 0 \<longrightarrow> 59 \<le> unat (adr din' (img m') k) \<and>
      unat (adr din' (img m') k) < freeblock m' \<and> adr din' (img m') k \<notin> others" if "k \<le> MAXFILE" for k
    using own_blocksD(1-3) [OF own that] a fb new [OF that] \<open>a \<notin> others\<close> by auto
  moreover have "k = l" if "k \<le> MAXFILE" "l \<le> MAXFILE" "adr din' (img m') k \<noteq> 0" "adr din' (img m') k = adr din' (img m') l" for k l
    using own_blocksD(4) [OF own that(1) _ that(2)] that new [OF that(1)] new [OF that(2)] old [OF that(1)] old [OF that(2)]
    by (auto split: if_splits)
  moreover have "\<forall>b \<in> others. unat b < freeblock m'" using own fb by (auto simp: own_blocks_def)
  ultimately show ?thesis using len unfolding own_blocks_def by blast
qed

lemma new_block_number: "freeblock m \<le> 1000 \<Longrightarrow> unat (of_nat (freeblock m) :: uint) = freeblock m"
  by (simp add: unat_of_nat)

text \<open>What giving a file a block does: the bytes of the file are as before.\<close>

definition got_block :: "uint set \<Rightarrow> inode \<times> mkstate \<Rightarrow> nat \<Rightarrow> uint \<Rightarrow> inode \<times> mkstate \<Rightarrow> bool" where
  "got_block others s k x t \<longleftrightarrow> kept others s t \<and> blocks_ok (snd t) \<and> own_blocks others (fst t) (snd t) \<and>
     x = adr (fst t) (img (snd t)) k \<and> x \<noteq> 0 \<and>
     (\<forall>p < MAXFILE * 512. dbyte (fst t) (img (snd t)) p = dbyte (fst s) (img (snd s)) p)"

lemma new_addr_ok:
  assumes b: "blocks_ok m" and own: "own_blocks others din m" and fb: "freeblock m < 1000"
    and k: "k < NDIRECT \<and> e = k \<or> k = NDIRECT \<and> e = MAXFILE"
  shows "got_block others (din, m) e (i_addrs (fst (new_addr k (din, m))) ! k) (new_addr k (din, m)) \<and>
    freeblock (snd (new_addr k (din, m))) \<le> Suc (freeblock m)"
proof -
  have at: "i_addrs din ! k = adr din (img m) e" using k by (auto simp: adr_def max_values)
  have e: "e \<le> MAXFILE" using k by (auto simp: max_values)
  show ?thesis
  proof (cases "adr din (img m) e = 0")
    case False
    then show ?thesis using b own at by (simp add: new_addr_def got_block_def)
  next
    case True
    define a where "a = (of_nat (freeblock m) :: uint)"
    define din' where "din' = din\<lparr>i_addrs := (i_addrs din)[k := a]\<rparr>"
    define m' where "m' = m\<lparr>freeblock := freeblock m + 1\<rparr>"
    have n: "new_addr k (din, m) = (din', m')" using True by (simp add: new_addr_def at din'_def m'_def a_def)
    have a: "unat a = freeblock m" "59 \<le> freeblock m" using fb b new_block_number [of m] by (simp_all add: a_def blocks_ok_def)
    have len: "length (i_addrs din) = 13" using own by (simp add: own_blocks_def)
    have z: "img m a = zero_block" using b a by (simp add: blocks_ok_def)
    have new: "adr din' (img m') l = (if l = e then a else adr din (img m) l)" if "l \<le> MAXFILE" for l
    proof (cases "k = NDIRECT")
      case True': True
      have "i_addrs din ! 12 = 0" using at True True' by (simp add: max_values)
      moreover have "get32 (4 * (l - 12)) zero_block = 0" if "l < 140" using that by (intro get32_zero) (simp add: BSIZE_def)
      ultimately show ?thesis
        using True' k that len z by (auto simp: adr_def Let_def din'_def m'_def max_values nth_list_update)
    next
      case False
      then show ?thesis using k that len by (auto simp: adr_def Let_def din'_def m'_def max_values nth_list_update)
    qed
    have a0: "a \<noteq> 0" using a by auto
    have "own_blocks others din' m'"
      by (rule fresh_address [OF own e a]) (use len new in \<open>simp_all add: din'_def m'_def\<close>)
    moreover have "blocks_ok m'" using b by (simp add: blocks_ok_def m'_def)
    moreover have "kept others (din, m) (din', m')" by (simp add: kept_def din'_def m'_def)
    moreover have "dbyte din' (img m') p = dbyte din (img m) p" if "p < MAXFILE * 512" for p
    proof -
      have "p div 512 \<le> MAXFILE" using that by (simp add: max_values)
      then show ?thesis using new True a0 z by (auto simp: dbyte_def m'_def zero_block_def BSIZE_def)
    qed
    moreover have "i_addrs din' ! k = a" using k len by (auto simp: din'_def max_values)
    ultimately show ?thesis using n new [OF e] a0 by (simp add: got_block_def) (simp add: m'_def)
  qed
qed

lemma indirect_entry:
  assumes b: "blocks_ok m" and own: "own_blocks others din m" and fb: "freeblock m < 1000"
    and ind: "ind = i_addrs din ! NDIRECT" "ind \<noteq> 0" and k: "NDIRECT \<le> k" "k < MAXFILE"
    and none: "get32 (4 * (k - NDIRECT)) (img m ind) = 0"
    and m': "m' = wsect ind (put32 (4 * (k - NDIRECT)) (of_nat (freeblock m)) (img m ind)) (m\<lparr>freeblock := freeblock m + 1\<rparr>)"
  shows "got_block others (din, m) k (of_nat (freeblock m)) (din, m')"
proof -
  define a where "a = (of_nat (freeblock m) :: uint)"
  have a: "unat a = freeblock m" "59 \<le> freeblock m" using fb b new_block_number [of m] by (simp_all add: a_def blocks_ok_def)
  have a0: "a \<noteq> 0" using a by auto
  have len: "length (img m ind) = 512" using b by (simp add: blocks_ok_def BSIZE_def)
  have indirect: "adr din (img m) MAXFILE = ind" using ind by (simp add: adr_def max_values)
  note at = own_blocksD [OF own order_refl, unfolded indirect, OF ind(2)]
  have im: "img m' = (img m)(ind := put32 (4 * (k - NDIRECT)) a (img m ind))" "freeblock m' = Suc (freeblock m)"
    "freeinode m' = freeinode m"
    by (simp_all add: m' wsect_def a_def)
  have old: "adr din (img m) k = 0" using ind k none by (simp add: adr_def max_values)
  have new: "adr din (img m') l = (if l = k then a else adr din (img m) l)" if "l \<le> MAXFILE" for l
  proof (cases "NDIRECT \<le> l \<and> l < MAXFILE")
    case True
    moreover have "get32 (4 * (l - 12)) (put32 (4 * (k - 12)) a (img m ind)) = (if l = k then a else get32 (4 * (l - 12)) (img m ind))"
    proof (cases "l = k")
      case False
      then have "4 * (l - 12) + 4 \<le> 4 * (k - 12) \<or> 4 * (k - 12) + 4 \<le> 4 * (l - 12)"
        using True k by (simp add: max_values) linarith
      with False show ?thesis using k len by (simp add: max_values)
    qed (use k len in \<open>simp add: max_values\<close>)
    ultimately show ?thesis using ind by (simp add: adr_def im max_values)
  next
    case False
    then show ?thesis using that k by (auto simp: adr_def im max_values)
  qed
  have own': "own_blocks others din m'"
    by (rule fresh_address [OF own _ a _ im(2)]) (use own k new in \<open>simp_all add: own_blocks_def\<close>)
  have "blocks_ok m'"
    using b at(2) len k by (simp add: blocks_ok_def im BSIZE_def max_values)
  moreover have "kept others (din, m) (din, m')"
    using at by (auto simp: kept_def im)
  moreover have "dbyte din (img m') p = dbyte din (img m) p" if "p < MAXFILE * 512" for p
  proof (cases "p div 512 = k")
    case True
    have "a \<noteq> ind" using at(2) a by auto
    moreover have "img m a = zero_block" using b a by (simp add: blocks_ok_def)
    ultimately show ?thesis using True new [of k] old a0 k by (simp add: dbyte_def im zero_block_def BSIZE_def)
  next
    case False
    have l: "p div 512 < MAXFILE" using that by (simp add: max_values)
    then have same: "adr din (img m') (p div 512) = adr din (img m) (p div 512)" using new False by simp
    have "adr din (img m) (p div 512) \<noteq> ind" using at(4) [of "p div 512"] indirect l ind(2) by auto
    then show ?thesis using same by (simp add: dbyte_def im)
  qed
  ultimately show ?thesis using own' new [of k] a0 k by (simp add: got_block_def a_def [symmetric])
qed

lemma file_block_ok:
  assumes b: "blocks_ok m" and own: "own_blocks others din m" and k: "k < MAXFILE"
    and res: "file_block k (din, m) = (x, t)" and fb: "freeblock (snd t) \<le> 1000"
  shows "got_block others (din, m) k x t"
proof (cases "k < NDIRECT")
  case True
  have "freeblock m < 1000 \<or> new_addr k (din, m) = (din, m)"
    using res fb True by (auto simp: file_block_def new_addr_def Let_def split: if_splits)
  then show ?thesis
  proof
    assume "freeblock m < 1000"
    from new_addr_ok [OF b own this, of k k] True res show ?thesis
      by (auto simp: file_block_def Let_def split: prod.splits)
  next
    assume n: "new_addr k (din, m) = (din, m)"
    then have "i_addrs din ! k \<noteq> 0"
      by (auto simp: new_addr_def split: if_splits dest: arg_cong [where f = freeblock])
    with n res True b own show ?thesis
      by (auto simp: file_block_def got_block_def adr_def max_values)
  qed
next
  case False
  obtain din1 m1 where s1: "new_addr NDIRECT (din, m) = (din1, m1)" by (cases "new_addr NDIRECT (din, m)")
  define ind where "ind = i_addrs din1 ! NDIRECT"
  have le: "freeblock m1 \<le> freeblock (snd t)"
    using res False unfolding file_block_def by (auto simp: s1 wsect_def Let_def split: if_splits)
  have "freeblock m < 1000 \<or> (din1, m1) = (din, m)"
    using s1 le fb by (auto simp: new_addr_def split: if_splits)
  then have g: "got_block others (din, m) MAXFILE ind (din1, m1)"
  proof
    assume "freeblock m < 1000"
    from new_addr_ok [OF b own this, of NDIRECT MAXFILE] s1 show ?thesis by (simp add: ind_def)
  next
    assume eq: "(din1, m1) = (din, m)"
    with s1 have "i_addrs din ! NDIRECT \<noteq> 0"
      by (auto simp: new_addr_def split: if_splits dest: arg_cong [where f = freeblock])
    with eq b own show ?thesis by (auto simp: got_block_def adr_def ind_def max_values)
  qed
  then have b1: "blocks_ok m1" and own1: "own_blocks others din1 m1" and ind0: "ind \<noteq> 0"
    and k1: "kept others (din, m) (din1, m1)" and d1: "\<And>p. p < MAXFILE * 512 \<Longrightarrow> dbyte din1 (img m1) p = dbyte din (img m) p"
    by (auto simp: got_block_def)
  show ?thesis
  proof (cases "get32 (4 * (k - NDIRECT)) (img m1 ind) = 0")
    case True
    define m2 where "m2 = wsect ind (put32 (4 * (k - NDIRECT)) (of_nat (freeblock m1)) (img m1 ind)) (m1\<lparr>freeblock := freeblock m1 + 1\<rparr>)"
    have len: "4 * (k - NDIRECT) + 4 \<le> length (img m1 ind)" using b1 k False by (simp add: blocks_ok_def BSIZE_def max_values)
    have r: "x = of_nat (freeblock m1)" "t = (din1, m2)"
      using res s1 False True len by (auto simp: file_block_def Let_def rsect_def ind_def [symmetric] m2_def)
    have lt: "freeblock m1 < 1000" using fb by (simp add: r m2_def wsect_def)
    have "got_block others (din1, m1) k x t"
      unfolding r by (rule indirect_entry [OF b1 own1 lt ind_def ind0 _ k True m2_def]) (use False in simp)
    then show ?thesis using k1 d1 kept_trans unfolding got_block_def by (metis fst_conv snd_conv)
  next
    case F: False
    then have "x = get32 (4 * (k - NDIRECT)) (img m1 ind)" "t = (din1, m1)"
      using res s1 False by (auto simp: file_block_def Let_def rsect_def ind_def [symmetric])
    moreover from this have "x = adr din1 (img m1) k" using ind0 False k by (simp add: adr_def ind_def max_values)
    ultimately show ?thesis using F b1 own1 k1 d1 by (simp add: got_block_def)
  qed
qed

section \<open>Appending to a file\<close>

text \<open>The bytes of the file are those of \<open>bs\<close>, and zero behind them.\<close>

definition holds :: "byte list \<Rightarrow> inode \<Rightarrow> mkstate \<Rightarrow> bool" where
  "holds bs din m \<longleftrightarrow> (\<forall>p < MAXFILE * 512. dbyte din (img m) p = (if p < length bs then bs ! p else 0))"

definition good_file :: "uint set \<Rightarrow> byte list \<Rightarrow> inode \<times> mkstate \<Rightarrow> bool" where
  "good_file others bs = (\<lambda>(din, m). blocks_ok m \<and> own_blocks others din m \<and> holds bs din m)"

lemma chunk_written:
  assumes g: "good_file others bs (din, m)" and k: "length bs div 512 < MAXFILE"
    and x: "x = adr din (img m) (length bs div 512)" "x \<noteq> 0" and c: "length bs mod 512 + length c \<le> 512"
    and m': "m' = wsect x (take (length bs mod 512) (img m x) @ c @ drop (length bs mod 512 + length c) (img m x)) m"
  shows "good_file others (bs @ c) (din, m') \<and> kept others (din, m) (din, m')"
proof -
  let ?k = "length bs div 512" and ?o = "length bs mod 512"
  have b: "blocks_ok m" and own: "own_blocks others din m" and h: "holds bs din m"
    using g by (simp_all add: good_file_def)
  have len: "length (img m x) = 512" using b by (simp add: blocks_ok_def BSIZE_def)
  note at = own_blocksD [OF own less_imp_le [OF k], folded x(1), OF x(2)]
  define nb where "nb = take ?o (img m x) @ c @ drop (?o + length c) (img m x)"
  have im: "img m' = (img m)(x := nb)" "freeblock m' = freeblock m" "freeinode m' = freeinode m"
    by (simp_all add: m' nb_def wsect_def)
  have nblen: "length nb = 512" using len c by (simp add: nb_def)
  have ne: "i_addrs din ! NDIRECT \<noteq> x"
  proof
    assume eq: "i_addrs din ! NDIRECT = x"
    then have "adr din (img m) MAXFILE = x" by (simp add: adr_def max_values)
    with at(4) [of MAXFILE] k show False by simp
  qed
  then have adr: "adr din (img m') l = adr din (img m) l" for l by (simp add: adr_def Let_def im)
  have db: "dbyte din (img m') p = (if adr din (img m) (p div 512) = 0 then 0
      else (if adr din (img m) (p div 512) = x then nb else img m (adr din (img m) (p div 512))) ! (p mod 512))" for p
    unfolding dbyte_def adr by (simp add: im)
  have "blocks_ok m'" using b at(2) nblen by (simp add: blocks_ok_def im BSIZE_def)
  moreover have "own_blocks others din m'" using own unfolding own_blocks_def adr by (simp add: im(2))
  moreover have "kept others (din, m) (din, m')" using at(1,3) by (auto simp: kept_def im)
  moreover have "holds (bs @ c) din m'"
    unfolding holds_def
  proof (intro allI impI)
    fix p assume p: "p < MAXFILE * 512"
    show "dbyte din (img m') p = (if p < length (bs @ c) then (bs @ c) ! p else 0)"
    proof (cases "p div 512 = ?k")
      case True
      have pe: "p = ?k * 512 + p mod 512" using True div_mult_mod_eq [of p 512] by simp
      have le: "length bs = ?k * 512 + ?o" by simp
      have "dbyte din (img m') p = nb ! (p mod 512)" using True x by (simp add: db)
      moreover have "img m x ! (p mod 512) = (if p < length bs then bs ! p else 0)"
        using h p True x by (auto simp: holds_def dbyte_def)
      moreover have "p mod 512 < 512" by simp
      moreover have "p < length bs \<longleftrightarrow> p mod 512 < ?o" "p < length bs + length c \<longleftrightarrow> p mod 512 < ?o + length c"
        "p - length bs = p mod 512 - ?o"
        using pe le by linarith+
      ultimately show ?thesis using len c by (auto simp: nb_def nth_append)
    next
      case False
      have "p div 512 \<le> MAXFILE" using p by (simp add: max_values)
      with False have "adr din (img m) (p div 512) \<noteq> x" using at(4) [of "p div 512"] by metis
      then have "dbyte din (img m') p = dbyte din (img m) p" unfolding db by (simp add: dbyte_def)
      also have "\<dots> = (if p < length bs then bs ! p else 0)" using h p by (simp add: holds_def)
      also have "\<dots> = (if p < length (bs @ c) then (bs @ c) ! p else 0)"
      proof (cases "p < length bs")
        case False
        have "\<not> p < length bs + length c"
        proof
          assume "p < length bs + length c"
          moreover have "length bs = ?k * 512 + ?o" by simp
          ultimately have "p < ?k * 512 + 512" using c by linarith
          moreover have "?k * 512 \<le> p" using False by (simp add: div_times_less_eq_dividend order_trans [of _ "length bs"])
          ultimately have "p div 512 = ?k" by (simp add: div_nat_eqI)
          with \<open>p div 512 \<noteq> ?k\<close> show False by simp
        qed
        with False show ?thesis by simp
      qed (simp add: nth_append)
      finally show ?thesis .
    qed
  qed
  ultimately show ?thesis by (simp add: good_file_def)
qed

lemma file_block_grows: "freeblock m \<le> freeblock (snd (snd (file_block k (din, m))))"
  by (auto simp: file_block_def new_addr_def wsect_def Let_def split: prod.split)

lemma iappend_loop_grows: "iappend_loop off p s = Inr (off', t) \<Longrightarrow> freeblock (snd s) \<le> freeblock (snd t)"
proof (induction off p s rule: iappend_loop.induct)
  case (1 off p s)
  show ?case
  proof (cases "p = []")
    case True
    with 1(2) show ?thesis by (simp add: iappend_loop.simps [of off])
  next
    case False
    obtain x din m where fb: "file_block (off div BSIZE) s = (x, din, m)" by (cases "file_block (off div BSIZE) s")
    have "freeblock (snd s) \<le> freeblock m" using file_block_grows [of "snd s" "off div BSIZE" "fst s"] fb by simp
    moreover have "off div BSIZE < MAXFILE" using 1(2) False by (subst (asm) iappend_loop.simps) (auto simp: Let_def split: if_splits)
    ultimately show ?thesis
      using 1(1) [OF False refl _ fb [symmetric] refl refl refl refl refl] 1(2) False fb
      by (subst (asm) (2) iappend_loop.simps) (auto simp: Let_def wsect_def rsect_def)
  qed
qed

lemma iappend_loop_ok:
  assumes "iappend_loop (length bs) p s = Inr (off', t)" "good_file others bs s" "freeblock (snd t) \<le> 1000"
    "length bs \<le> MAXFILE * 512"
  shows "off' = length (bs @ p) \<and> good_file others (bs @ p) t \<and> kept others s t \<and> off' \<le> MAXFILE * 512"
  using assms
proof (induction "length p" arbitrary: bs p s rule: less_induct)
  case less
  show ?case
  proof (cases "p = []")
    case True
    with less.prems show ?thesis by (auto simp: iappend_loop.simps [of "length bs"])
  next
    case False
    let ?k = "length bs div 512" and ?o = "length bs mod 512"
    obtain din m where s: "s = (din, m)" by (cases s)
    obtain x din1 m1 where f: "file_block ?k (din, m) = (x, din1, m1)" by (cases "file_block ?k (din, m)")
    define n1 where "n1 = min (length p) ((?k + 1) * 512 - length bs)"
    have le: "length bs = ?k * 512 + ?o" "?o < 512" by simp_all
    have "(q + 1) * 512 - (q * 512 + r) = 512 - r" for q r :: nat by simp
    from this [of ?k ?o] have "(?k + 1) * 512 - length bs = 512 - ?o" by (simp only: le(1) [symmetric])
    then have n1: "0 < n1" "n1 \<le> length p" "?o + n1 \<le> 512" using False le(2) unfolding n1_def by auto
    define m2 where "m2 = wsect x (take ?o (img m1 x) @ take n1 p @ drop (?o + n1) (img m1 x)) m1"
    have k: "?k < MAXFILE" using less.prems(1) False
      by (subst (asm) iappend_loop.simps) (auto simp: Let_def BSIZE_def split: if_splits)
    have o: "length bs - ?k * 512 = ?o" using le(1) by linarith
    have "iappend_loop (length bs) p s = iappend_loop (length bs + n1) (drop n1 p) (din1, m2)"
      using False k f by (subst iappend_loop.simps) (simp add: Let_def BSIZE_def s n1_def o m2_def rsect_def)
    then have rec: "iappend_loop (length (bs @ take n1 p)) (drop n1 p) (din1, m2) = Inr (off', t)"
      using less.prems(1) n1(2) by simp
    have "freeblock m1 \<le> 1000"
      using iappend_loop_grows [OF rec] less.prems(3) by (simp add: m2_def wsect_def)
    then have g: "got_block others (din, m) ?k x (din1, m1)"
      using file_block_ok [OF _ _ k f] less.prems(2) by (simp add: s good_file_def)
    have g1: "good_file others bs (din1, m1)"
      using g less.prems(2) by (auto simp: got_block_def good_file_def holds_def s)
    have x: "x = adr din1 (img m1) ?k" "x \<noteq> 0" using g unfolding got_block_def by auto
    have c: "good_file others (bs @ take n1 p) (din1, m2) \<and> kept others (din1, m1) (din1, m2)"
      using n1 by (intro chunk_written [OF g1 k x]) (simp_all add: m2_def)
    have size: "length (bs @ take n1 p) \<le> MAXFILE * 512"
    proof -
      have "?k < 140" using k by (simp add: max_values)
      then have "length bs + n1 \<le> 140 * 512" using le(1) n1(3) by linarith
      then show ?thesis using n1(2) by (simp add: max_values)
    qed
    have smaller: "length (drop n1 p) < length p" using n1 by simp
    have kk: "kept others s (din1, m2)" using g c kept_trans s unfolding got_block_def by blast
    show ?thesis
      using less.hyps [OF smaller rec conjunct1 [OF c] less.prems(3) size] kk kept_trans by auto
  qed
qed

section \<open>Inodes in the image\<close>

lemma get32_put_words_high:
  "k + 4 * length ws \<le> j \<Longrightarrow> k + 4 * length ws \<le> length d \<Longrightarrow> get32 j (put_words k ws d) = get32 j d"
  by (induction k ws d rule: put_words.induct) simp_all

lemma get16_put_words_high:
  "k + 4 * length ws \<le> j \<Longrightarrow> k + 4 * length ws \<le> length d \<Longrightarrow> get16 j (put_words k ws d) = get16 j d"
  by (induction k ws d rule: put_words.induct) simp_all

lemma get_dinode_other:
  assumes "j + 64 \<le> k \<or> k + 64 \<le> j" "k + 64 \<le> length d" "length (i_addrs ip) = 13"
  shows "get_dinode j (put_dinode k ip d) z = get_dinode j d z"
proof -
  let ?d = "put32 (k + 8) (i_size ip) (put16 (k + 6) (i_nlink ip)
       (put16 (k + 4) (i_minor ip) (put16 (k + 2) (i_major ip) (put16 k (i_type ip) d))))"
  have len: "length ?d = length d" using assms by simp
  have eq: "put_dinode k ip d = put_words (k + 12) (i_addrs ip) ?d" by (simp add: put_dinode_def)
  have w: "get32 (j + o4) (put_words (k + 12) (i_addrs ip) ?d) = get32 (j + o4) ?d" if "o4 + 4 \<le> 64" for o4
    using assms len that get32_put_words_low get32_put_words_high by (cases "j + 64 \<le> k") simp_all
  have h: "get16 (j + o2) (put_words (k + 12) (i_addrs ip) ?d) = get16 (j + o2) ?d" if "o2 + 2 \<le> 64" for o2
    using assms len that get16_put_words_low get16_put_words_high by (cases "j + 64 \<le> k") simp_all
  have w': "get32 (j + o4) ?d = get32 (j + o4) d" if "o4 + 4 \<le> 64" for o4
    using assms that by (cases "j + 64 \<le> k") simp_all
  have h': "get16 (j + o2) ?d = get16 (j + o2) d" if "o2 + 2 \<le> 64" for o2
    using assms that by (cases "j + 64 \<le> k") simp_all
  have "map (\<lambda>n. get32 (j + 12 + 4 * n) (put_words (k + 12) (i_addrs ip) ?d)) [0..<Suc NDIRECT] =
      map (\<lambda>n. get32 (j + 12 + 4 * n) d) [0..<Suc NDIRECT]"
  proof (rule map_cong [OF refl])
    fix n assume "n \<in> set [0..<Suc NDIRECT]"
    then have "12 + 4 * n + 4 \<le> 64" by (simp add: max_values)
    from w [OF this] w' [OF this] show "get32 (j + 12 + 4 * n) (put_words (k + 12) (i_addrs ip) ?d) = get32 (j + 12 + 4 * n) d"
      by (simp only: add.assoc)
  qed
  then show ?thesis
    using h [of 0] h [of 2] h [of 4] h [of 6] w [of 8] h' [of 0] h' [of 2] h' [of 4] h' [of 6] w' [of 8]
    unfolding get_dinode_def eq by simp
qed

lemma inode_place:
  assumes "unat i < 200" "unat j < 200" "i \<noteq> j" "IBLOCK i mk_sb = IBLOCK j mk_sb"
  shows "dip i + 64 \<le> dip j \<or> dip j + 64 \<le> dip i"
proof -
  have "unat i div 8 = unat j div 8"
    using unat_IBLOCK(1) [OF mk_layout, of i] unat_IBLOCK(1) [OF mk_layout, of j] assms by (simp add: layout_values)
  moreover have "unat i \<noteq> unat j" using assms(3) word_unat_eq_iff by blast
  ultimately have "unat i mod 8 \<noteq> unat j mod 8" by (metis div_mult_mod_eq)
  then show ?thesis by (auto simp: dip_def IPB_def unat_mod)
qed

lemma rinode_winode:
  assumes "unat i < 200" "unat j < 200" "length (i_addrs ip) = 13" "\<forall>b. length (img m b) = BSIZE"
  shows "rinode j (winode i ip m) = (if j = i then zero_dinode\<lparr>i_type := i_type ip, i_major := i_major ip,
    i_minor := i_minor ip, i_nlink := i_nlink ip, i_size := i_size ip, i_addrs := i_addrs ip\<rparr> else rinode j m)"
proof -
  have len: "dip i + 64 \<le> length (img m (IBLOCK i mk_sb))" using assms(4) dip_bound by simp
  show ?thesis
  proof (cases "j = i")
    case True
    then show ?thesis using get_put_dinode [OF len assms(3)] by (simp add: rinode_def winode_def wsect_def rsect_def Let_def)
  next
    case False
    then show ?thesis
      using get_dinode_other [OF _ len assms(3), of "dip j"] inode_place [OF assms(2,1) False]
      by (auto simp: rinode_def winode_def wsect_def rsect_def Let_def)
  qed
qed

lemma img_winode:
  assumes "unat i < 200" "58 \<le> unat b \<or> unat b < 32"
  shows "img (winode i ip m) b = img m b"
proof -
  have "unat (IBLOCK i mk_sb) < 58" "32 \<le> unat (IBLOCK i mk_sb)"
    using unat_IBLOCK [OF mk_layout, of i] assms(1) by (simp_all add: layout_values)
  then show ?thesis using assms(2) by (auto simp: winode_def wsect_def Let_def)
qed

lemma winode_simps [simp]: "freeblock (winode i ip m) = freeblock m" "freeinode (winode i ip m) = freeinode m"
  by (simp_all add: winode_def wsect_def Let_def)

lemma length_winode:
  assumes "length (i_addrs ip) = 13" "\<forall>b. length (img m b) = BSIZE"
  shows "length (img (winode i ip m) b) = BSIZE"
  using assms dip_bound [of i] by (simp add: winode_def wsect_def rsect_def Let_def length_put_dinode)

lemma blocks_ok_winode:
  assumes "unat i < 200" "length (i_addrs ip) = 13" "blocks_ok m"
  shows "blocks_ok (winode i ip m)"
  using assms img_winode [OF assms(1)] length_winode [OF assms(2)] by (simp add: blocks_ok_def)

text \<open>A file's blocks and bytes depend on the blocks the file has.\<close>

lemma adr_cong:
  assumes "i_addrs ip = i_addrs ip'" "adr ip im MAXFILE \<noteq> 0 \<Longrightarrow> im' (adr ip im MAXFILE) = im (adr ip im MAXFILE)"
  shows "adr ip' im' k = adr ip im k"
  using assms by (simp add: adr_def Let_def max_values)

lemma dbyte_cong:
  assumes "i_addrs ip = i_addrs ip'" "\<And>k. k \<le> MAXFILE \<Longrightarrow> adr ip im k \<noteq> 0 \<Longrightarrow> im' (adr ip im k) = im (adr ip im k)"
    and "p < MAXFILE * 512"
  shows "dbyte ip' im' p = dbyte ip im p"
proof -
  have "adr ip' im' (p div 512) = adr ip im (p div 512)" using assms(1,2) by (intro adr_cong) auto
  moreover have "p div 512 \<le> MAXFILE" using assms(3) by (simp add: max_values)
  ultimately show ?thesis using assms(2) by (simp add: dbyte_def)
qed

section \<open>The image\<close>

abbreviation node :: "mkstate \<Rightarrow> nat \<Rightarrow> inode" where
  "node m i \<equiv> rinode (of_nat i) m"

definition the_adr :: "mkstate \<Rightarrow> nat \<Rightarrow> nat \<Rightarrow> uint" where
  "the_adr m i k = adr (node m i) (img m) k"

text \<open>\<open>C\<close> says which inodes there are, of what type, and what their bytes are.\<close>

definition image_ok :: "(nat \<Rightarrow> ((16 word) \<times> byte list) option) \<Rightarrow> mkstate \<Rightarrow> bool" where
  "image_ok C m \<longleftrightarrow> blocks_ok m \<and> unat (freeinode m) \<le> 200 \<and> dom C = {1..<unat (freeinode m)} \<and>
     (\<forall>i ty bs. C i = Some (ty, bs) \<longrightarrow> length bs \<le> MAXFILE * 512 \<and> unat (i_size (node m i)) = length bs \<and>
        i_type (node m i) = ty \<and> i_nlink (node m i) = 1 \<and> length (i_addrs (node m i)) = 13 \<and> holds bs (node m i) m) \<and>
     (\<forall>i \<in> dom C. \<forall>k \<le> MAXFILE. the_adr m i k \<noteq> 0 \<longrightarrow> 59 \<le> unat (the_adr m i k) \<and> unat (the_adr m i k) < freeblock m) \<and>
     (\<forall>i \<in> dom C. \<forall>j \<in> dom C. \<forall>k \<le> MAXFILE. \<forall>l \<le> MAXFILE.
        the_adr m i k \<noteq> 0 \<longrightarrow> the_adr m i k = the_adr m j l \<longrightarrow> i = j \<and> k = l)"

lemma image_okD:
  assumes "image_ok C m"
  shows "blocks_ok m" "unat (freeinode m) \<le> 200" "dom C = {1..<unat (freeinode m)}"
    "C i = Some (ty, bs) \<Longrightarrow> length bs \<le> MAXFILE * 512 \<and> unat (i_size (node m i)) = length bs \<and>
        i_type (node m i) = ty \<and> i_nlink (node m i) = 1 \<and> length (i_addrs (node m i)) = 13 \<and> holds bs (node m i) m"
    "i \<in> dom C \<Longrightarrow> k \<le> MAXFILE \<Longrightarrow> the_adr m i k \<noteq> 0 \<Longrightarrow> 59 \<le> unat (the_adr m i k) \<and> unat (the_adr m i k) < freeblock m"
    "i \<in> dom C \<Longrightarrow> j \<in> dom C \<Longrightarrow> k \<le> MAXFILE \<Longrightarrow> l \<le> MAXFILE \<Longrightarrow>
        the_adr m i k \<noteq> 0 \<Longrightarrow> the_adr m i k = the_adr m j l \<Longrightarrow> i = j \<and> k = l"
  using assms unfolding image_ok_def by blast+

lemma inum_small: "image_ok C m \<Longrightarrow> i \<in> dom C \<Longrightarrow> i < 200 \<and> unat (of_nat i :: uint) = i"
proof -
  assume "image_ok C m" "i \<in> dom C"
  then have "i < 200" using image_okD(2,3) [of C m] by simp
  then show ?thesis by (simp add: unat_of_nat)
qed

definition others :: "(nat \<Rightarrow> ((16 word) \<times> byte list) option) \<Rightarrow> mkstate \<Rightarrow> nat \<Rightarrow> uint set" where
  "others C m i = {a. a \<noteq> 0 \<and> (\<exists>j \<in> dom C. \<exists>l \<le> MAXFILE. j \<noteq> i \<and> a = the_adr m j l)}"

lemma image_file:
  assumes "image_ok C m" "C i = Some (ty, bs)"
  shows "good_file (others C m i) bs (node m i, m)"
proof -
  have i: "i \<in> dom C" using assms(2) by auto
  have "\<forall>b \<in> others C m i. unat b < freeblock m" using image_okD(5) [OF assms(1)] by (auto simp: others_def)
  moreover have "the_adr m i k \<notin> others C m i" if "k \<le> MAXFILE" "the_adr m i k \<noteq> 0" for k
    using image_okD(6) [OF assms(1) i _ that(1) _ that(2)] by (auto simp: others_def)
  moreover have "\<forall>k \<le> MAXFILE. \<forall>l \<le> MAXFILE. the_adr m i k \<noteq> 0 \<longrightarrow> the_adr m i k = the_adr m i l \<longrightarrow> k = l"
    using image_okD(6) [OF assms(1) i i] by blast
  ultimately have "own_blocks (others C m i) (node m i) m"
    using image_okD(4) [OF assms] image_okD(5) [OF assms(1) i]
    unfolding own_blocks_def the_adr_def [symmetric] by simp
  then show ?thesis using image_okD(1) [OF assms(1)] image_okD(4) [OF assms] by (simp add: good_file_def)
qed

lemma disk_fields:
  "i_type (zero_dinode\<lparr>i_type := a, i_major := b, i_minor := c, i_nlink := d, i_size := e, i_addrs := f\<rparr>) = a"
  "i_nlink (zero_dinode\<lparr>i_type := a, i_major := b, i_minor := c, i_nlink := d, i_size := e, i_addrs := f\<rparr>) = d"
  "i_size (zero_dinode\<lparr>i_type := a, i_major := b, i_minor := c, i_nlink := d, i_size := e, i_addrs := f\<rparr>) = e"
  "i_addrs (zero_dinode\<lparr>i_type := a, i_major := b, i_minor := c, i_nlink := d, i_size := e, i_addrs := f\<rparr>) = f"
  by simp_all

lemma adr_addrs: "i_addrs x = i_addrs y \<Longrightarrow> adr x = adr y"
  by (simp add: adr_def fun_eq_iff)

lemma dbyte_addrs: "i_addrs x = i_addrs y \<Longrightarrow> dbyte x = dbyte y"
  by (simp add: dbyte_def fun_eq_iff adr_addrs [of x y])

text \<open>One inode is replaced, and the blocks of the other inodes stay.\<close>

lemma image_update:
  assumes ok: "image_ok C m" and i: "C i = Some (ty, bs)"
    and g: "good_file (others C m i) bs' (din, m1)" and kept: "kept (others C m i) (node m i, m) (din', m1)"
    and din: "i_addrs din = i_addrs din'" "unat (i_size din) = length bs'" "i_type din = ty" "i_nlink din = 1"
    and len: "length bs' \<le> MAXFILE * 512"
  shows "image_ok (C(i \<mapsto> (ty, bs'))) (winode (of_nat i) din m1)"
proof -
  let ?m = "winode (of_nat i) din m1" and ?C = "C(i \<mapsto> (ty, bs'))"
  have iC: "i \<in> dom C" using i by auto
  note u = inum_small [OF ok]
  have dom: "dom ?C = dom C" using iC by auto
  have b1: "blocks_ok m1" and own: "own_blocks (others C m i) din m1" and h: "holds bs' din m1"
    using g by (simp_all add: good_file_def)
  have l13: "length (i_addrs din) = 13" using own by (simp add: own_blocks_def)
  have ui: "unat (of_nat i :: uint) < 200" using u [OF iC] by simp
  have low: "img m1 b = img m b" if "unat b < 59 \<or> b \<in> others C m i" for b using kept that by (auto simp: kept_def)
  have im: "img ?m b = img m1 b" if "59 \<le> unat b" for b using img_winode [OF ui] that by simp
  have r1: "rinode (of_nat j) m1 = node m j" if "j \<in> dom C" for j
  proof -
    have "unat (IBLOCK (of_nat j) mk_sb) < 58"
      using unat_IBLOCK(2) [OF mk_layout, of "of_nat j"] u [OF that] by (simp add: layout_values)
    then show ?thesis using low by (simp add: rinode_def rsect_def)
  qed
  have node: "node ?m j = (if j = i then zero_dinode\<lparr>i_type := i_type din, i_major := i_major din,
      i_minor := i_minor din, i_nlink := i_nlink din, i_size := i_size din, i_addrs := i_addrs din\<rparr> else node m j)"
    if "j \<in> dom C" for j
  proof -
    have "(of_nat j :: uint) = of_nat i \<longleftrightarrow> j = i" using u [OF that] u [OF iC] by metis
    then show ?thesis using rinode_winode [OF ui _ l13, of "of_nat j" m1] u [OF that] b1 r1 [OF that] by (simp add: blocks_ok_def)
  qed
  text \<open>The blocks of the file that is replaced.\<close>
  have big: "59 \<le> unat (adr din (img m1) k)" "unat (adr din (img m1) k) < freeblock m1"
    "adr din (img m1) k \<notin> others C m i" if "k \<le> MAXFILE" "adr din (img m1) k \<noteq> 0" for k
    using own_blocksD [OF own that] by simp_all
  have ia: "i_addrs (node ?m i) = i_addrs din" using node [OF iC] by simp
  have Ai: "the_adr ?m i k = adr din (img m1) k" for k
    unfolding the_adr_def adr_addrs [OF ia] using big(1) [of MAXFILE] im by (intro adr_cong) auto
  have Hi: "holds bs' (node ?m i) ?m"
  proof -
    have "dbyte (node ?m i) (img ?m) p = dbyte din (img m1) p" if "p < MAXFILE * 512" for p
      unfolding dbyte_addrs [OF ia] by (rule dbyte_cong [OF refl _ that]) (use big(1) im in simp)
    then show ?thesis using h by (simp add: holds_def)
  qed
  text \<open>The blocks of the others.\<close>
  have oth: "img ?m (the_adr m j k) = img m (the_adr m j k)" "the_adr m j k \<in> others C m i"
    if "j \<in> dom C" "j \<noteq> i" "k \<le> MAXFILE" "the_adr m j k \<noteq> 0" for j k
  proof -
    show o: "the_adr m j k \<in> others C m i" using that by (auto simp: others_def)
    show "img ?m (the_adr m j k) = img m (the_adr m j k)"
      using im low o image_okD(5) [OF ok that(1,3,4)] by simp
  qed
  have Aj: "the_adr ?m j k = the_adr m j k" if "j \<in> dom C" "j \<noteq> i" for j k
    unfolding the_adr_def using node [OF that(1)] that oth(1) [OF that, of MAXFILE]
    by (simp add: the_adr_def) (intro adr_cong, simp_all)
  have Hj: "holds bsj (node ?m j) ?m" if "C j = Some (tyj, bsj)" "j \<noteq> i" for j tyj bsj
  proof -
    have j: "j \<in> dom C" using that by auto
    have "dbyte (node ?m j) (img ?m) p = dbyte (node m j) (img m) p" if p: "p < MAXFILE * 512" for p
      using node [OF j] \<open>j \<noteq> i\<close> oth(1) [OF j \<open>j \<noteq> i\<close>] p by (simp add: the_adr_def) (intro dbyte_cong, simp_all)
    then show ?thesis using image_okD(4) [OF ok that(1)] by (simp add: holds_def)
  qed
  have fb: "freeblock m \<le> freeblock m1" "freeinode m1 = freeinode m" using kept by (auto simp: kept_def)
  have adrs: "the_adr ?m j k = (if j = i then adr din (img m1) k else the_adr m j k)" if "j \<in> dom C" for j k
    using Ai Aj that by simp
  have range: "59 \<le> unat (the_adr ?m j k) \<and> unat (the_adr ?m j k) < freeblock ?m"
    if "j \<in> dom C" "k \<le> MAXFILE" "the_adr ?m j k \<noteq> 0" for j k
    using that big image_okD(5) [OF ok that(1,2)] fb(1) adrs [OF that(1)] by (cases "j = i") auto
  have inj: "j = j' \<and> k = l" if "j \<in> dom C" "j' \<in> dom C" "k \<le> MAXFILE" "l \<le> MAXFILE"
    "the_adr ?m j k \<noteq> 0" "the_adr ?m j k = the_adr ?m j' l" for j j' k l
  proof (cases "j = i"; cases "j' = i")
    assume "j = i" "j' = i"
    then show ?thesis using that own_blocksD(4) [OF own that(3)] Ai by metis
  next
    assume c: "j = i" "j' \<noteq> i"
    then show ?thesis using that big(3) [OF that(3)] oth(2) [OF that(2) c(2) that(4)] Ai Aj by metis
  next
    assume c: "j \<noteq> i" "j' = i"
    then show ?thesis using that big(3) [OF that(4)] oth(2) [OF that(1) c(1) that(3)] Ai Aj by metis
  next
    assume c: "j \<noteq> i" "j' \<noteq> i"
    then show ?thesis using that image_okD(6) [OF ok that(1,2,3,4)] Aj by metis
  qed
  have each: "length bsj \<le> MAXFILE * 512 \<and> unat (i_size (node ?m j)) = length bsj \<and>
        i_type (node ?m j) = tyj \<and> i_nlink (node ?m j) = 1 \<and> length (i_addrs (node ?m j)) = 13 \<and> holds bsj (node ?m j) ?m"
    if "?C j = Some (tyj, bsj)" for j tyj bsj
  proof (cases "j = i")
    case True
    then show ?thesis using that node [OF iC] Hi din len l13 by simp
  next
    case False
    then have "C j = Some (tyj, bsj)" "j \<in> dom C" using that by auto
    then show ?thesis using image_okD(4) [OF ok] node [of j] Hj [OF _ False] False by metis
  qed
  show ?thesis
    using blocks_ok_winode [OF ui l13 b1] image_okD(2,3) [OF ok] fb(2) each range inj
    unfolding image_ok_def dom by simp
qed

lemma iappend_ok:
  assumes ok: "image_ok C m" and i: "C i = Some (ty, bs)" and res: "iappend (of_nat i) p m = Inr m'"
    and fb: "freeblock m' \<le> 1000"
  shows "image_ok (C(i \<mapsto> (ty, bs @ p))) m'" "freeinode m' = freeinode m" "freeblock m \<le> freeblock m'"
    "unat b < 32 \<Longrightarrow> img m' b = img m b"
proof -
  note f = image_okD(4) [OF ok i]
  obtain off din' m1 where l: "iappend_loop (length bs) p (node m i, m) = Inr (off, din', m1)"
    "m' = winode (of_nat i) (din'\<lparr>i_size := of_nat off\<rparr>) m1"
    using res f by (auto simp: iappend_def Let_def)
  have fb1: "freeblock m1 \<le> 1000" using fb l(2) by simp
  from iappend_loop_ok [OF l(1) image_file [OF ok i] _ conjunct1 [OF f]] fb1
  have g: "off = length (bs @ p)" "good_file (others C m i) (bs @ p) (din', m1)"
    "kept (others C m i) (node m i, m) (din', m1)" "off \<le> MAXFILE * 512" by simp_all
  define din where "din = din'\<lparr>i_size := of_nat off\<rparr>"
  have dk: "din' = (node m i)\<lparr>i_addrs := i_addrs din'\<rparr>" using g(3) by (simp add: kept_def)
  have ds: "i_addrs din = i_addrs din'" "i_type din = i_type din'" "i_nlink din = i_nlink din'" by (simp_all add: din_def)
  have "i_type din' = ty" "i_nlink din' = 1" using f by (subst dk, simp)+
  moreover have "unat (i_size din) = length (bs @ p)"
  proof -
    have "unat (of_nat off :: uint) = off" using g(4) by (simp add: max_values unat_of_nat)
    then show ?thesis by (simp only: din_def g(1) [symmetric]) simp
  qed
  moreover have "good_file (others C m i) (bs @ p) (din, m1)"
    using g(2) unfolding good_file_def holds_def own_blocks_def
    by (simp add: dbyte_addrs [OF ds(1)] adr_addrs [OF ds(1)] ds(1))
  ultimately show "image_ok (C(i \<mapsto> (ty, bs @ p))) m'"
    unfolding l(2) din_def [symmetric]
    using g(1,3,4) by (intro image_update [OF ok i]) (simp_all add: ds)
  show "freeinode m' = freeinode m" "freeblock m \<le> freeblock m'" using g(3) l(2) by (simp_all add: kept_def)
  have "unat (of_nat i :: uint) < 200" using inum_small [OF ok domI [of C i, OF i]] by simp
  then show "unat b < 32 \<Longrightarrow> img m' b = img m b"
    using g(3) unfolding l(2) by (simp add: img_winode kept_def)
qed

lemma zero_file:
  assumes "i_addrs ip = replicate 13 0"
  shows "adr ip im k = 0 \<or> MAXFILE < k" "p < MAXFILE * 512 \<Longrightarrow> dbyte ip im p = 0"
proof -
  have a: "adr ip im k = 0" if "k \<le> MAXFILE" for k using that assms by (simp add: adr_def Let_def max_values)
  then show "adr ip im k = 0 \<or> MAXFILE < k" by (meson not_le)
  show "p < MAXFILE * 512 \<Longrightarrow> dbyte ip im p = 0" using a [of "p div 512"] by (simp add: dbyte_def max_values)
qed

lemma ialloc_ok:
  assumes ok: "image_ok C m" and room: "unat (freeinode m) < 200" and res: "mk_ialloc ty m = (inum, m')"
    and pos: "1 \<le> unat (freeinode m)"
  shows "inum = freeinode m" "image_ok (C(unat inum \<mapsto> (ty, []))) m'" "freeblock m' = freeblock m"
    "unat (freeinode m') = Suc (unat (freeinode m))" "unat b < 32 \<Longrightarrow> img m' b = img m b"
proof -
  define n where "n = unat (freeinode m)"
  define din where "din = zero_dinode\<lparr>i_type := ty, i_nlink := 1\<rparr>"
  define m1 where "m1 = m\<lparr>freeinode := freeinode m + 1\<rparr>"
  have r: "inum = freeinode m" "m' = winode inum din m1"
    using res by (auto simp: mk_ialloc_def Let_def din_def m1_def zero_dinode_def)
  show "inum = freeinode m" by (rule r(1))
  have n: "of_nat n = freeinode m" "n < 200" using room by (simp_all add: n_def)
  have fi: "unat (freeinode m') = Suc n" using room by (simp add: r(2) m1_def n_def unat_word_ariths)
  then show "unat (freeinode m') = Suc (unat (freeinode m))" by (simp add: n_def)
  show "freeblock m' = freeblock m" by (simp add: r(2) m1_def)
  have l13: "length (i_addrs din) = 13" by (simp add: din_def zero_dinode_def)
  have b1: "blocks_ok m1" "\<forall>b. length (img m1 b) = BSIZE" using image_okD(1) [OF ok] by (simp_all add: blocks_ok_def m1_def)
  have ui: "unat inum < 200" using room r(1) by simp
  show "unat b < 32 \<Longrightarrow> img m' b = img m b" using img_winode [OF ui] by (simp add: r(2) m1_def)
  have im: "img m' b = img m b" if "59 \<le> unat b" for b using img_winode [OF ui] that by (simp add: r(2) m1_def)
  have new: "node m' n = din"
    unfolding n(1) r(2) using rinode_winode [OF ui, of "freeinode m" din m1] room l13 b1(2) r(1) by (simp add: din_def zero_dinode_def)
  have old: "node m' j = node m j" if "j \<in> dom C" for j
  proof -
    have j: "j < n" "unat (of_nat j :: uint) = j" using image_okD(3) [OF ok] that inum_small [OF ok that] by (auto simp: n_def)
    then have "(of_nat j :: uint) \<noteq> inum" using r(1) by (metis n_def nat_neq_iff)
    then have "node m' j = node m1 j" unfolding r(2) using rinode_winode [OF ui _ l13 b1(2), of "of_nat j"] j n(2) by simp
    then show ?thesis by (simp add: rinode_def rsect_def m1_def)
  qed
  have dom: "dom (C(n \<mapsto> (ty, []))) = {1..<Suc n}" using image_okD(3) [OF ok] pos by (auto simp: n_def)
  have nC: "n \<notin> dom C" using image_okD(3) [OF ok] by (simp add: n_def)
  have za: "i_addrs (node m' n) = replicate 13 0" by (simp add: new din_def zero_dinode_def)
  have An: "the_adr m' n k = 0" if "k \<le> MAXFILE" for k using zero_file(1) [OF za] that by (metis the_adr_def not_le)
  have Aj: "the_adr m' j k = the_adr m j k" if "j \<in> dom C" for j k
    unfolding the_adr_def old [OF that] using image_okD(5) [OF ok that, of MAXFILE] im
    by (intro adr_cong) (auto simp: the_adr_def)
  have Hj: "holds bs (node m' j) m'" if "C j = Some (tj, bs)" for j tj bs
  proof -
    have j: "j \<in> dom C" using that by auto
    have "dbyte (node m j) (img m') p = dbyte (node m j) (img m) p" if "p < MAXFILE * 512" for p
      using image_okD(5) [OF ok j] im by (intro dbyte_cong [OF refl _ that]) (auto simp: the_adr_def)
    then show ?thesis using image_okD(4) [OF ok that] by (simp add: holds_def old [OF j])
  qed
  have Hn: "holds [] (node m' n) m'" using zero_file(2) [OF za] by (simp add: holds_def)
  have "image_ok (C(n \<mapsto> (ty, []))) m'"
    unfolding image_ok_def
  proof (intro conjI)
    show "blocks_ok m'" unfolding r(2) by (rule blocks_ok_winode [OF ui l13 b1(1)])
    show "unat (freeinode m') \<le> 200" using fi n(2) by simp
    show "dom (C(n \<mapsto> (ty, []))) = {1..<unat (freeinode m')}" using dom fi by simp
    show "\<forall>i tyi bs. (C(n \<mapsto> (ty, []))) i = Some (tyi, bs) \<longrightarrow> length bs \<le> MAXFILE * 512 \<and>
        unat (i_size (node m' i)) = length bs \<and> i_type (node m' i) = tyi \<and> i_nlink (node m' i) = 1 \<and>
        length (i_addrs (node m' i)) = 13 \<and> holds bs (node m' i) m'"
    proof (intro allI impI)
      fix i tyi bs assume a: "(C(n \<mapsto> (ty, []))) i = Some (tyi, bs)"
      show "length bs \<le> MAXFILE * 512 \<and> unat (i_size (node m' i)) = length bs \<and> i_type (node m' i) = tyi \<and>
          i_nlink (node m' i) = 1 \<and> length (i_addrs (node m' i)) = 13 \<and> holds bs (node m' i) m'"
      proof (cases "i = n")
        case True
        then show ?thesis using a Hn l13 by (simp add: new) (simp add: din_def zero_dinode_def)
      next
        case False
        then have c: "C i = Some (tyi, bs)" using a by simp
        then show ?thesis using image_okD(4) [OF ok c] Hj [OF c] old [of i] by (simp add: domI)
      qed
    qed
    show "\<forall>i \<in> dom (C(n \<mapsto> (ty, []))). \<forall>k \<le> MAXFILE. the_adr m' i k \<noteq> 0 \<longrightarrow>
        59 \<le> unat (the_adr m' i k) \<and> unat (the_adr m' i k) < freeblock m'"
      using An Aj image_okD(5) [OF ok] by (auto simp: r(2) m1_def)
    show "\<forall>i \<in> dom (C(n \<mapsto> (ty, []))). \<forall>j \<in> dom (C(n \<mapsto> (ty, []))). \<forall>k \<le> MAXFILE. \<forall>l \<le> MAXFILE.
        the_adr m' i k \<noteq> 0 \<longrightarrow> the_adr m' i k = the_adr m' j l \<longrightarrow> i = j \<and> k = l"
    proof (intro ballI allI impI)
      fix i j k l assume a: "i \<in> dom (C(n \<mapsto> (ty, [])))" "j \<in> dom (C(n \<mapsto> (ty, [])))" "k \<le> MAXFILE" "l \<le> MAXFILE"
        "the_adr m' i k \<noteq> 0" "the_adr m' i k = the_adr m' j l"
      have "i \<in> dom C" "j \<in> dom C" using a An by auto
      then show "i = j \<and> k = l" using image_okD(6) [OF ok _ _ a(3,4)] a(5,6) by (simp add: Aj)
    qed
  qed
  then show "image_ok (C(unat inum \<mapsto> (ty, []))) m'" by (simp add: r(1) n_def)
qed

section \<open>The files\<close>

text \<open>The bytes of a directory entry, and what the image is to hold after some arguments.\<close>

definition entry_of :: "nat \<Rightarrow> byte list \<Rightarrow> byte list" where
  "entry_of inum name = le16 (of_nat inum) @ take DIRSIZ (cstr name) @ replicate (DIRSIZ - length (cstr name)) 0"

definition stored_name :: "byte list \<Rightarrow> byte list" where
  "stored_name name = (if name ! 0 = 95 then tl name else name)"

fun entries_of :: "nat \<Rightarrow> (byte list \<times> byte list list) list \<Rightarrow> byte list" where
  "entries_of n [] = []"
| "entries_of n ((name, reads) # fs) = entry_of n (stored_name name) @ entries_of (Suc n) fs"

lemma dirent_eq: "0 \<in> set name \<Longrightarrow> dirent inum name = Inr (entry_of (unat inum) name)"
  by (simp add: dirent_def strncpy_def strncpy_loop_spec readable_def entry_of_def DIRSIZ_def)

lemma stored_name_ends: "0 \<in> set name \<Longrightarrow> 0 \<in> set (stored_name name)"
  by (cases name) (auto simp: stored_name_def)

text \<open>The properties of an operation that the main program strings together.\<close>

definition grown :: "mkstate \<Rightarrow> mkstate \<Rightarrow> bool" where
  "grown m m' \<longleftrightarrow> freeblock m \<le> freeblock m' \<and> (\<forall>b. unat b < 32 \<longrightarrow> img m' b = img m b)"

lemma grown_refl [simp]: "grown m m"
  by (simp add: grown_def)

lemma grown_trans: "grown m m' \<Longrightarrow> grown m' m'' \<Longrightarrow> grown m m''"
  by (simp add: grown_def)

lemma iappend_grows: "iappend inum p m = Inr m' \<Longrightarrow> freeblock m \<le> freeblock m'"
  using iappend_loop_grows by (fastforce simp: iappend_def Let_def)

lemma append_reads_grows: "append_reads inum reads m = Inr m' \<Longrightarrow> freeblock m \<le> freeblock m'"
proof (induction reads arbitrary: m)
  case (Cons buf reads)
  then obtain m1 where "iappend inum buf m = Inr m1" "append_reads inum reads m1 = Inr m'" by auto
  with iappend_grows Cons.IH show ?case using order_trans by blast
qed simp

lemma append_reads_ok:
  assumes "image_ok C m" "C i = Some (ty, bs)" "append_reads (of_nat i) reads m = Inr m'" "freeblock m' \<le> 1000"
  shows "image_ok (C(i \<mapsto> (ty, bs @ concat reads))) m' \<and> freeinode m' = freeinode m \<and> grown m m'"
  using assms
proof (induction reads arbitrary: m C bs)
  case Nil
  then show ?case by (simp add: fun_upd_idem)
next
  case (Cons buf reads)
  then obtain m1 where m1: "iappend (of_nat i) buf m = Inr m1" "append_reads (of_nat i) reads m1 = Inr m'" by auto
  have fb: "freeblock m1 \<le> 1000" using append_reads_grows [OF m1(2)] Cons.prems(4) by simp
  note a = iappend_ok [OF Cons.prems(1,2) m1(1) fb]
  have "image_ok ((C(i \<mapsto> (ty, bs @ buf)))(i \<mapsto> (ty, (bs @ buf) @ concat reads))) m' \<and> freeinode m' = freeinode m1 \<and> grown m1 m'"
    by (rule Cons.IH [OF a(1) _ m1(2) Cons.prems(4)]) simp
  then have r: "image_ok (C(i \<mapsto> (ty, bs @ concat (buf # reads)))) m'" "freeinode m' = freeinode m1" "grown m1 m'"
    by simp_all
  have "grown m m1" using a(3,4) by (simp add: grown_def)
  then have "grown m m'" using r(3) by (rule grown_trans)
  with r(1,2) a(2) show ?case by (simp only:)
qed

lemma add_file_grows: "add_file r f m = Inr m' \<Longrightarrow> freeblock m \<le> freeblock m'"
proof -
  assume a: "add_file r f m = Inr m'"
  obtain name reads where f: "f = (name, reads)" by (cases f)
  obtain inum m1 where i: "mk_ialloc T_FILE m = (inum, m1)" by (cases "mk_ialloc T_FILE m")
  then have "freeblock m1 = freeblock m" by (auto simp: mk_ialloc_def Let_def)
  moreover obtain de m2 where "iappend r de m1 = Inr m2" "append_reads inum reads m2 = Inr m'"
    using a i by (auto simp: add_file_def f Let_def split: if_splits)
  ultimately show ?thesis using iappend_grows append_reads_grows by (metis order_trans)
qed

lemma add_file_ok:
  assumes ok: "image_ok C m" and root: "C 1 = Some (T_DIR, D)" and n: "unat (freeinode m) = n" "n < 200" "2 \<le> n"
    and nul: "0 \<in> set name" and res: "add_file 1 (name, reads) m = Inr m'" and fb: "freeblock m' \<le> 1000"
  shows "image_ok (C(n \<mapsto> (T_FILE, concat reads), 1 \<mapsto> (T_DIR, D @ entry_of n (stored_name name)))) m'"
    "unat (freeinode m') = Suc n" "grown m m'"
proof -
  obtain inum m1 where i: "mk_ialloc T_FILE m = (inum, m1)" by (cases "mk_ialloc T_FILE m")
  have r: "unat (freeinode m) < 200" "1 \<le> unat (freeinode m)" using n by simp_all
  note al = ialloc_ok [OF ok r(1) i r(2)]
  have inum: "unat inum = n" "inum = of_nat n" using al(1) n(1) [symmetric] by simp_all
  have de: "dirent inum (stored_name name) = Inr (entry_of n (stored_name name))"
    using dirent_eq [OF stored_name_ends [OF nul]] inum(1) by simp
  obtain m2 where m2: "iappend 1 (entry_of n (stored_name name)) m1 = Inr m2" "append_reads inum reads m2 = Inr m'"
    using res i de unfolding add_file_def stored_name_def [symmetric] by (auto simp: Let_def split: if_splits)
  have fb2: "freeblock m2 \<le> 1000" using append_reads_grows [OF m2(2)] fb by simp
  let ?C1 = "C(n \<mapsto> (T_FILE, []))" and ?C2 = "C(n \<mapsto> (T_FILE, []), 1 \<mapsto> (T_DIR, D @ entry_of n (stored_name name)))"
  have C1: "image_ok ?C1 m1" using al(2) inum by simp
  have root1: "?C1 1 = Some (T_DIR, D)" using root n(3) by simp
  have "iappend (of_nat 1) (entry_of n (stored_name name)) m1 = Inr m2" using m2(1) by simp
  note C2 = iappend_ok [where C = ?C1 and i = 1, OF C1 root1 this fb2]
  have "?C2 n = Some (T_FILE, [])" using n(3) by simp
  note C3 = append_reads_ok [where C = ?C2 and i = n, OF C2(1) this m2(2) [unfolded inum(2)] fb, simplified append_Nil]
  have eq: "?C2(n \<mapsto> (T_FILE, concat reads)) = C(n \<mapsto> (T_FILE, concat reads), 1 \<mapsto> (T_DIR, D @ entry_of n (stored_name name)))"
    using n(3) by (auto simp: fun_eq_iff)
  show "image_ok (C(n \<mapsto> (T_FILE, concat reads), 1 \<mapsto> (T_DIR, D @ entry_of n (stored_name name)))) m'"
    by (rule subst [OF eq, where P = "\<lambda>c. image_ok c m'"]) (rule conjunct1 [OF C3])
  show "unat (freeinode m') = Suc n" using C3 C2(2) al(4) n(1) by simp
  show "grown m m'" using C3 C2(3,4) al(3,5) by (simp add: grown_def)
qed

lemma add_files_grows: "add_files r fs m = Inr m' \<Longrightarrow> freeblock m \<le> freeblock m'"
proof (induction fs arbitrary: m)
  case (Cons f fs)
  then obtain m1 where "add_file r f m = Inr m1" "add_files r fs m1 = Inr m'" by auto
  with add_file_grows Cons.IH show ?case using order_trans by blast
qed simp

lemma add_files_ok:
  assumes "image_ok C m" "C 1 = Some (T_DIR, D)" "unat (freeinode m) = n" "n + length fs \<le> 200" "2 \<le> n"
    "\<forall>(name, reads) \<in> set fs. 0 \<in> set name" "add_files 1 fs m = Inr m'" "freeblock m' \<le> 1000"
  shows "\<exists>C'. image_ok C' m' \<and> C' 1 = Some (T_DIR, D @ entries_of n fs) \<and>
    (\<forall>k < length fs. C' (n + k) = Some (T_FILE, concat (snd (fs ! k)))) \<and> (\<forall>j. j < n \<and> j \<noteq> 1 \<longrightarrow> C' j = C j) \<and>
    unat (freeinode m') = n + length fs \<and> grown m m'"
  using assms
proof (induction fs arbitrary: C m D n)
  case (Nil C m D n)
  then show ?case by (intro exI [of _ C]) auto
next
  case (Cons f fs)
  obtain name reads where f: "f = (name, reads)" by (cases f)
  obtain m1 where m1: "add_file 1 f m = Inr m1" "add_files 1 fs m1 = Inr m'" using Cons.prems(7) by auto
  have fb: "freeblock m1 \<le> 1000" using add_files_grows [OF m1(2)] Cons.prems(8) by simp
  have nul: "0 \<in> set name" and lt: "n < 200" using Cons.prems(4,6) by (auto simp: f)
  note a = add_file_ok [OF Cons.prems(1-3) lt Cons.prems(5) nul m1(1) [unfolded f] fb]
  let ?C = "C(n \<mapsto> (T_FILE, concat reads), 1 \<mapsto> (T_DIR, D @ entry_of n (stored_name name)))"
  have "\<exists>C'. image_ok C' m' \<and> C' 1 = Some (T_DIR, (D @ entry_of n (stored_name name)) @ entries_of (Suc n) fs) \<and>
    (\<forall>k < length fs. C' (Suc n + k) = Some (T_FILE, concat (snd (fs ! k)))) \<and> (\<forall>j. j < Suc n \<and> j \<noteq> 1 \<longrightarrow> C' j = ?C j) \<and>
    unat (freeinode m') = Suc n + length fs \<and> grown m1 m'"
    using Cons.prems(4-6) by (intro Cons.IH [OF a(1) _ a(2) _ _ _ m1(2) Cons.prems(8)]) simp_all
  then obtain C' where C': "image_ok C' m'" "C' 1 = Some (T_DIR, (D @ entry_of n (stored_name name)) @ entries_of (Suc n) fs)"
    "\<forall>k < length fs. C' (Suc n + k) = Some (T_FILE, concat (snd (fs ! k)))" "\<forall>j. j < Suc n \<and> j \<noteq> 1 \<longrightarrow> C' j = ?C j"
    "unat (freeinode m') = Suc n + length fs" "grown m1 m'" by blast
  have "C' (n + k) = Some (T_FILE, concat (snd ((f # fs) ! k)))" if "k < length (f # fs)" for k
    using C'(3,4) that Cons.prems(5) by (cases k) (auto simp: f)
  then show ?case
    using C' grown_trans [OF a(3) C'(6)] by (intro exI [of _ C']) (auto simp: f)
qed

section \<open>What the kernel finds\<close>

lemma length_sb_block: "length sb_block = BSIZE"
  by (simp add: sb_block_def BSIZE_def)

lemma start_ok: "image_ok (\<lambda>_. None) mk_start" "unat (freeinode mk_start) = 1" "img mk_start 1 = sb_block"
proof -
  have "blocks_ok mk_start"
    by (auto simp: blocks_ok_def mk_start_def wsect_def layout_values length_sb_block zero_block_def)
  then show "image_ok (\<lambda>_. None) mk_start" by (simp add: image_ok_def) (simp add: mk_start_def wsect_def)
qed (simp_all add: mk_start_def wsect_def)

definition dots :: "byte list" where
  "dots = entry_of 1 [46, 0] @ entry_of 1 [46, 46, 0]"

lemma mkfs_steps:
  assumes res: "mkfs files = Inr m" and fb: "freeblock m \<le> 1000" and few: "length files \<le> 198"
    and nul: "\<forall>(name, reads) \<in> set files. 0 \<in> set name"
  shows "\<exists>C m3. image_ok C m3 \<and> C 1 = Some (T_DIR, dots @ entries_of 2 files) \<and>
    (\<forall>k < length files. C (2 + k) = Some (T_FILE, concat (snd (files ! k)))) \<and> img m3 1 = sb_block \<and>
    freeblock m3 = freeblock m \<and> mk_balloc (freeblock m3) (fix_root_size 1 m3) = Inr m"
proof -
  obtain inum m0 where i: "mk_ialloc T_DIR mk_start = (inum, m0)" by (cases "mk_ialloc T_DIR mk_start")
  have fi: "freeinode mk_start = 1" by (simp add: mk_start_def wsect_def)
  have inum: "inum = 1" using i fi by (auto simp: mk_ialloc_def Let_def)
  have room: "unat (freeinode mk_start) < 200" "1 \<le> unat (freeinode mk_start)" by (simp_all add: fi)
  note al = ialloc_ok [OF start_ok(1) room(1) i room(2)]
  let ?C0 = "[1 \<mapsto> (T_DIR, [])] :: nat \<Rightarrow> ((16 word) \<times> byte list) option"
  have C0: "image_ok ?C0 m0" using al(2) inum by simp
  have d1: "dirent 1 [46, 0] = Inr (entry_of 1 [46, 0])" and d2: "dirent 1 [46, 46, 0] = Inr (entry_of 1 [46, 46, 0])"
    by (simp_all add: dirent_eq)
  obtain m1 m2 m3 where st: "iappend (of_nat 1) (entry_of 1 [46, 0]) m0 = Inr m1" "iappend (of_nat 1) (entry_of 1 [46, 46, 0]) m1 = Inr m2"
    "add_files 1 files m2 = Inr m3" "mk_balloc (freeblock (fix_root_size 1 m3)) (fix_root_size 1 m3) = Inr m"
    using res i unfolding mkfs_def by (auto simp: inum d1 d2 Let_def split: if_splits)
  have f3: "freeblock (fix_root_size 1 m3) = freeblock m3" by (simp add: fix_root_size_def Let_def)
  have fm: "freeblock m = freeblock m3" using st(4) by (auto simp: mk_balloc_def wsect_def f3 split: if_splits)
  have fb3: "freeblock m3 \<le> 1000" using fb fm by simp
  have fb2: "freeblock m2 \<le> 1000" using add_files_grows [OF st(3)] fb3 by simp
  have fb1: "freeblock m1 \<le> 1000" using iappend_grows [OF st(2)] fb2 by simp
  have r0: "?C0 1 = Some (T_DIR, [])" by simp
  note a1 = iappend_ok [where C = ?C0 and i = 1, OF C0 r0 st(1) fb1]
  let ?C1 = "?C0(1 \<mapsto> (T_DIR, [] @ entry_of 1 [46, 0]))"
  have r1: "?C1 1 = Some (T_DIR, entry_of 1 [46, 0])" by simp
  note a2 = iappend_ok [where C = ?C1 and i = 1, OF a1(1) r1 st(2) fb2]
  let ?C2 = "?C1(1 \<mapsto> (T_DIR, entry_of 1 [46, 0] @ entry_of 1 [46, 46, 0]))"
  have r2: "?C2 1 = Some (T_DIR, dots)" by (simp add: dots_def)
  have n: "unat (freeinode m2) = 2" using a1(2) a2(2) al(4) fi by simp
  have "\<exists>C'. image_ok C' m3 \<and> C' 1 = Some (T_DIR, dots @ entries_of 2 files) \<and>
    (\<forall>k < length files. C' (2 + k) = Some (T_FILE, concat (snd (files ! k)))) \<and> (\<forall>j. j < 2 \<and> j \<noteq> 1 \<longrightarrow> C' j = ?C2 j) \<and>
    unat (freeinode m3) = 2 + length files \<and> grown m2 m3"
    using few nul by (intro add_files_ok [where C = ?C2, OF a2(1) r2 n _ _ _ st(3) fb3]) simp_all
  then obtain C where C: "image_ok C m3" "C 1 = Some (T_DIR, dots @ entries_of 2 files)"
    "\<forall>k < length files. C (2 + k) = Some (T_FILE, concat (snd (files ! k)))" "grown m2 m3" by blast
  have "img m3 1 = sb_block" using C(4) a1(4) a2(4) al(5) start_ok(3) by (simp add: grown_def)
  with C st(4) fm show ?thesis by (auto simp: f3)
qed

lemma marked_bits: "n \<le> 4096 \<Longrightarrow> b < 4096 \<Longrightarrow>
  length (fold (\<lambda>i buf. mark_bit buf i) [0..<n] (replicate BSIZE 0)) = BSIZE \<and>
  (bit_set (fold (\<lambda>i buf. mark_bit buf i) [0..<n] (replicate BSIZE 0)) b \<longleftrightarrow> b < n)"
proof (induction n)
  case 0
  have "b div 8 < BSIZE" using 0 by (simp add: BSIZE_def)
  then show ?case by (simp add: bit_set_def)
next
  case (Suc n)
  then show ?case using bit_set_mark [of n b] by (auto simp: less_Suc_eq)
qed

text \<open>A kernel that runs on the image, and an inode as \<open>ilock\<close> reads it from the disk.\<close>

definition on_image :: "mkstate \<Rightarrow> fs \<Rightarrow> bool" where
  "on_image m s \<longleftrightarrow> (\<forall>b. data_of b s = img m b) \<and> fs_sb s = readsb s \<and> 1 \<le> outstanding (fs_log s)"

definition loaded :: "nat \<Rightarrow> uint \<Rightarrow> fs \<Rightarrow> bool" where
  "loaded j inum s \<longleftrightarrow> j < length (icache s) \<and> i_inum (inode_at j s) = inum \<and>
     (\<exists>ip. inode_at j s = get_dinode (dip inum) (data_of (IBLOCK inum (fs_sb s)) s) ip)"

lemma read_sb_block: "data_of 1 s = sb_block \<Longrightarrow> readsb s = mk_sb"
  by (simp add: readsb_def sb_block_def Let_def BSIZE_def)

lemma get_dinode_fields:
  "i_type (get_dinode k d ip) = i_type (get_dinode k d ip')" "i_nlink (get_dinode k d ip) = i_nlink (get_dinode k d ip')"
  "i_size (get_dinode k d ip) = i_size (get_dinode k d ip')" "i_addrs (get_dinode k d ip) = i_addrs (get_dinode k d ip')"
  by (simp_all add: get_dinode_def)

text \<open>A file of the image is a file of the kernel.\<close>

lemma kernel_file:
  assumes ok: "image_ok C m" and C: "C i = Some (ty, bs)" and j: "j < length (icache s)"
    and data: "\<And>b. 59 \<le> unat b \<Longrightarrow> data_of b s = img m b" and sb: "fs_sb s = mk_sb"
    and u: "\<And>b. b < 1000 \<Longrightarrow> used b s \<longleftrightarrow> b < freeblock m" and fb: "freeblock m \<le> 1000"
    and addrs: "i_addrs (inode_at j s) = i_addrs (node m i)"
  shows "inode_ok 59 j s" "p < MAXFILE * 512 \<Longrightarrow> fbyte j p s = (if p < length bs then bs ! p else 0)"
proof -
  have i: "i \<in> dom C" using C by auto
  note f = image_okD(4) [OF ok C]
  have at: "addr_at j k s = the_adr m i k" if "k \<le> MAXFILE" for k
  proof -
    have "i_addrs (node m i) ! NDIRECT = the_adr m i MAXFILE" by (simp add: the_adr_def adr_def max_values)
    moreover have "the_adr m i MAXFILE \<noteq> 0 \<Longrightarrow> data_of (the_adr m i MAXFILE) s = img m (the_adr m i MAXFILE)"
      using data image_okD(5) [OF ok i order_refl] by simp
    ultimately show ?thesis unfolding the_adr_def by (simp add: addr_at_def adr_def addrs Let_def)
  qed
  show "inode_ok 59 j s"
    unfolding inode_ok_def
  proof (intro conjI ballI impI)
    show "length (i_addrs (inode_at j s)) = Suc NDIRECT" using f by (simp add: addrs max_values)
  next
    fix k assume k: "k \<in> {..MAXFILE}" and nz: "addr_at j k s \<noteq> 0"
    have r: "59 \<le> unat (addr_at j k s) \<and> unat (addr_at j k s) < freeblock m"
      using image_okD(5) [OF ok i, of k] k nz at [of k] by simp
    then show "59 \<le> unat (addr_at j k s)" by simp
    show "unat (addr_at j k s) < unat (sb_size (fs_sb s))" using r fb by (simp add: sb layout_values)
    show "used (unat (addr_at j k s)) s" using r fb u by simp
  next
    fix k l assume "k \<in> {..MAXFILE}" "l \<in> {..MAXFILE}" "addr_at j k s \<noteq> 0" "addr_at j k s = addr_at j l s"
    then show "k = l" using image_okD(6) [OF ok i i, of k l] at by simp
  qed (rule j)
  assume p: "p < MAXFILE * 512"
  then have k: "p div 512 \<le> MAXFILE" by (simp add: max_values)
  have "fbyte j p s = dbyte (node m i) (img m) p"
    using data image_okD(5) [OF ok i k] at [OF k] by (simp add: fbyte_def fblock_def dbyte_def the_adr_def zero_block_def BSIZE_def)
  with f p show "fbyte j p s = (if p < length bs then bs ! p else 0)" by (simp add: holds_def)
qed

definition root_bytes :: "(byte list \<times> byte list list) list \<Rightarrow> byte list" where
  "root_bytes files = dots @ entries_of 2 files"

text \<open>What file \<open>j\<close> of the kernel is: a regular file with these bytes, which \<open>readi\<close> delivers.\<close>

definition regular :: "byte list \<Rightarrow> nat \<Rightarrow> fs \<Rightarrow> bool" where
  "regular bs j s \<longleftrightarrow> file_ok 59 j s \<and> i_type (inode_at j s) = T_FILE \<and> i_nlink (inode_at j s) = 1 \<and>
     unat (i_size (inode_at j s)) = length bs \<and> (\<forall>p < length bs. fbyte j p s = bs ! p)"

definition root_dir :: "byte list \<Rightarrow> nat \<Rightarrow> fs \<Rightarrow> bool" where
  "root_dir bs j s \<longleftrightarrow> file_ok 59 j s \<and> i_type (inode_at j s) = T_DIR \<and> i_nlink (inode_at j s) = 1 \<and>
     unat (i_size (inode_at j s)) = (length bs div 512 + 1) * 512 \<and>
     (\<forall>p < MAXFILE * 512. fbyte j p s = (if p < length bs then bs ! p else 0))"

lemma regular_reads:
  assumes "fs_ok 59 s" "regular bs j s"
  shows "case readi dv j 0 (of_nat (length bs)) s of Inl e \<Rightarrow> no_space e | Inr (r, ds, t) \<Rightarrow> r = int (length bs) \<and> ds = bs"
proof -
  have le: "length bs \<le> MAXFILE * 512" using assms(2) by (auto simp: regular_def file_ok_def)
  have "case readi dv j (of_nat 0) (of_nat (length bs)) s of
      Inl e \<Rightarrow> no_space e
    | Inr (r, ds, t) \<Rightarrow> r = int (min (0 + length bs) (unat (i_size (inode_at j s))) - 0) \<and>
        ds = map (\<lambda>p. fbyte j p s) [0..<min (0 + length bs) (unat (i_size (inode_at j s)))] \<and> same_file 59 j s t"
    using assms le by (intro readi_ok) (simp_all add: regular_def max_values)
  moreover have "map (\<lambda>p. fbyte j p s) [0..<length bs] = bs"
    by (rule nth_equalityI) (use assms(2) in \<open>simp_all add: regular_def\<close>)
  ultimately show ?thesis using assms(2) by (auto simp: regular_def split: sum.splits)
qed

lemma length_entries: "length (entries_of n fs) = 16 * length fs"
  by (induction n fs rule: entries_of.induct) (auto simp: entry_of_def le16_def DIRSIZ_def)

lemma fix_root:
  assumes ok: "image_ok C m" and C: "C 1 = Some (ty, bs)" and small: "length bs \<le> 4000"
  shows "img (fix_root_size 1 m) b = (if b = IBLOCK 1 mk_sb then img (fix_root_size 1 m) b else img m b)"
    "i \<in> dom C \<Longrightarrow> i_type (node (fix_root_size 1 m) i) = i_type (node m i)"
    "i \<in> dom C \<Longrightarrow> i_nlink (node (fix_root_size 1 m) i) = i_nlink (node m i)"
    "i \<in> dom C \<Longrightarrow> i_addrs (node (fix_root_size 1 m) i) = i_addrs (node m i)"
    "i \<in> dom C \<Longrightarrow> unat (i_size (node (fix_root_size 1 m) i)) =
       (if i = 1 then (length bs div 512 + 1) * 512 else unat (i_size (node m i)))"
    "\<forall>b. length (img (fix_root_size 1 m) b) = BSIZE"
proof -
  define din where "din = (rinode 1 m)\<lparr>i_size := (i_size (rinode 1 m) div 512 + 1) * 512\<rparr>"
  have r: "fix_root_size 1 m = winode 1 din m" by (simp add: fix_root_size_def din_def Let_def)
  have n1: "node m 1 = rinode 1 m" by simp
  note f = image_okD(4) [OF ok C, unfolded n1]
  have l13: "length (i_addrs din) = 13" using f by (simp add: din_def)
  have lens: "\<forall>b. length (img m b) = BSIZE" using image_okD(1) [OF ok] by (simp add: blocks_ok_def)
  have node: "node (fix_root_size 1 m) i = (if i = 1 then zero_dinode\<lparr>i_type := i_type din, i_major := i_major din,
    i_minor := i_minor din, i_nlink := i_nlink din, i_size := i_size din, i_addrs := i_addrs din\<rparr> else node m i)"
    if "i \<in> dom C" for i
  proof -
    have u: "i < 200" "unat (of_nat i :: uint) = i" using inum_small [OF ok that] by simp_all
    then have "(of_nat i :: uint) = 1 \<longleftrightarrow> i = 1" by (metis of_nat_1 unsigned_1)
    then show ?thesis unfolding r using rinode_winode [of 1 "of_nat i" din m] l13 lens u by simp
  qed
  have sz: "unat (i_size din) = (length bs div 512 + 1) * 512"
  proof -
    have "unat (i_size (rinode 1 m)) = length bs" using f by simp
    moreover have "(length bs div 512 + 1) * 512 < 2 ^ 32" using small by simp
    ultimately show ?thesis by (simp add: din_def unat_word_ariths unat_div)
  qed
  have d1: "i_type din = i_type (rinode 1 m)" "i_nlink din = i_nlink (rinode 1 m)" "i_addrs din = i_addrs (rinode 1 m)"
    by (simp_all add: din_def)
  show "img (fix_root_size 1 m) b = (if b = IBLOCK 1 mk_sb then img (fix_root_size 1 m) b else img m b)"
    by (simp add: r winode_def wsect_def Let_def)
  show "i \<in> dom C \<Longrightarrow> i_type (node (fix_root_size 1 m) i) = i_type (node m i)"
    "i \<in> dom C \<Longrightarrow> i_nlink (node (fix_root_size 1 m) i) = i_nlink (node m i)"
    "i \<in> dom C \<Longrightarrow> i_addrs (node (fix_root_size 1 m) i) = i_addrs (node m i)"
    "i \<in> dom C \<Longrightarrow> unat (i_size (node (fix_root_size 1 m) i)) =
       (if i = 1 then (length bs div 512 + 1) * 512 else unat (i_size (node m i)))"
    using node [of i] d1 sz by simp_all
  show "\<forall>b. length (img (fix_root_size 1 m) b) = BSIZE" unfolding r using length_winode [OF l13 lens] by blast
qed

lemma inode_blocks: "unat i < 200 \<Longrightarrow> unat (IBLOCK i mk_sb) < 58 \<and> 32 \<le> unat (IBLOCK i mk_sb)"
  using unat_IBLOCK [OF mk_layout, of i] by (simp add: layout_values)

lemma length_root_bytes: "length files \<le> 198 \<Longrightarrow> length (root_bytes files) \<le> 4000"
  by (simp add: root_bytes_def length_entries dots_def entry_of_def le16_def DIRSIZ_def)

text \<open>The blocks the kernel finds: the image \<open>m3\<close> before its last two steps, apart from the inode of the root and the free map.\<close>

lemma image_on_disk:
  assumes "mkfs files = Inr m" "freeblock m \<le> 1000" "length files \<le> 198"
    and "\<forall>(name, reads) \<in> set files. 0 \<in> set name" "on_image m s"
  obtains C m3 where "image_ok C m3" "C 1 = Some (T_DIR, root_bytes files)"
    "\<forall>k < length files. C (2 + k) = Some (T_FILE, concat (snd (files ! k)))"
    "freeblock m3 = freeblock m" "fs_sb s = mk_sb" "fs_ok 59 s"
    "\<forall>b < 1000. used b s \<longleftrightarrow> b < freeblock m"
    "\<forall>b. 59 \<le> unat b \<longrightarrow> data_of b s = img m3 b"
    "\<forall>b. b \<noteq> 58 \<longrightarrow> data_of b s = img (fix_root_size 1 m3) b"
proof -
  obtain C m3 where ok: "image_ok C m3" and C1: "C 1 = Some (T_DIR, root_bytes files)"
    and Ck: "\<forall>k < length files. C (2 + k) = Some (T_FILE, concat (snd (files ! k)))"
    and sb: "img m3 1 = sb_block" "freeblock m3 = freeblock m" and bal: "mk_balloc (freeblock m3) (fix_root_size 1 m3) = Inr m"
    using mkfs_steps [OF assms(1-4)] unfolding root_bytes_def by blast
  note fx = fix_root [OF ok C1 length_root_bytes [OF assms(3)]]
  define bm where "bm = fold (\<lambda>i buf. mark_bit buf i) [0..<freeblock m] (replicate BSIZE 0)"
  have m: "img m = (img (fix_root_size 1 m3))(58 := bm)"
  proof -
    have "(fix_root_size 1 m3)\<lparr>img := (img (fix_root_size 1 m3))(58 := bm)\<rparr> = m"
      using bal by (auto simp: mk_balloc_def wsect_def sb layout_values bm_def split: if_splits)
    from arg_cong [OF this, of img] show ?thesis by simp
  qed
  have data: "data_of b s = img m3 b" if "59 \<le> unat b \<or> b = 1" for b
  proof -
    have "b \<noteq> 58" "b \<noteq> IBLOCK 1 mk_sb" using that inode_blocks [of 1] by auto
    then show ?thesis using assms(5) fx(1) [of b] by (simp add: on_image_def m)
  qed
  have ksb: "fs_sb s = mk_sb"
    using read_sb_block [of s] data [of 1] sb(1) assms(5) by (simp add: on_image_def)
  have used: "used b s \<longleftrightarrow> b < freeblock m" if "b < 1000" for b
  proof -
    have "unat (BBLOCK (of_nat b) mk_sb) = 58" using unat_BBLOCK(1) [OF mk_layout, of b] that by (simp add: layout_values)
    then have "BBLOCK (of_nat b) mk_sb = 58" by (simp add: word_unat_eq_iff)
    then have "data_of (BBLOCK (of_nat b) (fs_sb s)) s = bm" using assms(5) by (simp add: ksb on_image_def m)
    then show ?thesis using marked_bits [of "freeblock m" b] assms(2) that by (simp add: used_def bm_def)
  qed
  have lens: "length (data_of b s) = BSIZE" for b
    using assms(2,5) fx(6) marked_bits [of "freeblock m" 0] by (simp add: on_image_def m bm_def)
  have ge: "59 \<le> freeblock m" using image_okD(1) [OF ok] sb(2) by (simp add: blocks_ok_def)
  have fsok: "fs_ok 59 s"
    using mk_layout lens used ge assms(5) by (simp add: fs_ok_def ksb on_image_def)
  show thesis
    using that [OF ok C1 Ck sb(2) ksb fsok] used data assms(5) by (simp add: on_image_def m)
qed

text \<open>The inode of a file of the image, as the kernel loads it.\<close>

lemma inode_on_disk:
  assumes ok: "image_ok C m3" and C1: "C 1 = Some (T_DIR, bytes)" and lr: "length bytes \<le> 4000"
    and ksb: "fs_sb s = mk_sb" and u3: "\<forall>b < 1000. used b s \<longleftrightarrow> b < freeblock m3" and fb3: "freeblock m3 \<le> 1000"
    and d3: "\<forall>b. 59 \<le> unat b \<longrightarrow> data_of b s = img m3 b"
    and dn: "\<forall>b. b \<noteq> 58 \<longrightarrow> data_of b s = img (fix_root_size 1 m3) b"
    and C: "C i = Some (ty, bs)" and ld: "loaded j (of_nat i) s"
  shows "inode_ok 59 j s \<and> unat (i_inum (inode_at j s)) < 200 \<and> i_type (inode_at j s) = ty \<and>
    i_nlink (inode_at j s) = 1 \<and> (\<forall>p < MAXFILE * 512. fbyte j p s = (if p < length bs then bs ! p else 0)) \<and>
    unat (i_size (inode_at j s)) = (if i = 1 then (length bytes div 512 + 1) * 512 else length bs)"
proof -
  note fx = fix_root [OF ok C1 lr]
  have i: "i \<in> dom C" using C by auto
  have ui: "unat (of_nat i :: uint) < 200" using inum_small [OF ok i] by simp
  obtain ip where ip: "inode_at j s = get_dinode (dip (of_nat i)) (data_of (IBLOCK (of_nat i) mk_sb) s) ip"
    "j < length (icache s)" "i_inum (inode_at j s) = of_nat i"
    using ld by (auto simp: loaded_def ksb)
  have "IBLOCK (of_nat i) mk_sb \<noteq> 58" using inode_blocks [OF ui] by auto
  then have "data_of (IBLOCK (of_nat i) mk_sb) s = img (fix_root_size 1 m3) (IBLOCK (of_nat i) mk_sb)" using dn by blast
  then have n: "inode_at j s = get_dinode (dip (of_nat i)) (rsect (IBLOCK (of_nat i) mk_sb) (fix_root_size 1 m3)) ip"
    using ip(1) by (simp add: rsect_def)
  have same: "i_type (inode_at j s) = i_type (node (fix_root_size 1 m3) i)" "i_nlink (inode_at j s) = i_nlink (node (fix_root_size 1 m3) i)"
    "i_size (inode_at j s) = i_size (node (fix_root_size 1 m3) i)" "i_addrs (inode_at j s) = i_addrs (node (fix_root_size 1 m3) i)"
    unfolding n rinode_def by (rule get_dinode_fields)+
  have addrs: "i_addrs (inode_at j s) = i_addrs (node m3 i)" using same(4) fx(4) [OF i] by simp
  note kf = kernel_file [OF ok C ip(2) d3 [rule_format] ksb u3 [rule_format] fb3 addrs]
  show ?thesis
    using kf same fx(2,3,5) [OF i] image_okD(4) [OF ok C] ip(3) ui by simp
qed

text \<open>
  C18. When \<open>mkfs\<close> succeeds and its blocks fit on the disk, the kernel that starts on the image
  finds the file system that its operations are proved for: the layout of its super block is
  sound, exactly the blocks up to the last one given out are marked as used, every file argument
  is a regular file with one link and exactly the bytes that were read from it, and the root
  directory holds the entries of all the files and nothing else.
\<close>

theorem mkfs_image:
  assumes "mkfs files = Inr m" "freeblock m \<le> 1000" "length files \<le> 198"
    and "\<forall>(name, reads) \<in> set files. 0 \<in> set name" "on_image m s"
  shows "fs_ok 59 s \<and> (\<forall>b < 1000. used b s \<longleftrightarrow> b < freeblock m) \<and>
    (\<forall>k < length files. \<forall>j. loaded j (of_nat (2 + k)) s \<longrightarrow> regular (concat (snd (files ! k))) j s) \<and>
    (\<forall>j. loaded j 1 s \<longrightarrow> root_dir (root_bytes files) j s)"
proof -
  obtain C m3 where ok: "image_ok C m3" and C1: "C 1 = Some (T_DIR, root_bytes files)"
    and Ck: "\<forall>k < length files. C (2 + k) = Some (T_FILE, concat (snd (files ! k)))"
    and fb: "freeblock m3 = freeblock m" and ksb: "fs_sb s = mk_sb" and fsok: "fs_ok 59 s"
    and used: "\<forall>b < 1000. used b s \<longleftrightarrow> b < freeblock m"
    and data: "\<forall>b. 59 \<le> unat b \<longrightarrow> data_of b s = img m3 b" "\<forall>b. b \<noteq> 58 \<longrightarrow> data_of b s = img (fix_root_size 1 m3) b"
    using image_on_disk [OF assms] by blast
  note lr = length_root_bytes [OF assms(3)]
  have u3: "\<forall>b < 1000. used b s \<longleftrightarrow> b < freeblock m3" and fb3: "freeblock m3 \<le> 1000" using used fb assms(2) by simp_all
  note inode = inode_on_disk [OF ok C1 lr ksb u3 fb3 data]
  have "regular (concat (snd (files ! k))) j s" if "k < length files" "loaded j (of_nat (2 + k)) s" for k j
  proof -
    have "C (2 + k) = Some (T_FILE, concat (snd (files ! k)))" using Ck that(1) by blast
    from inode [OF this that(2)] image_okD(4) [OF ok this] show ?thesis
      by (simp add: regular_def file_ok_def ksb layout_values T_FILE_def T_DEV_def)
  qed
  moreover have "root_dir (root_bytes files) j s" if "loaded j 1 s" for j
  proof -
    have "loaded j (of_nat 1) s" using that by simp
    from inode [OF C1 this] show ?thesis
      using lr by (simp add: root_dir_def file_ok_def ksb layout_values T_DIR_def T_DEV_def max_values)
  qed
  ultimately show ?thesis using fsok used by blast
qed

section \<open>When \<open>mkfs\<close> succeeds\<close>

text \<open>Every piece of an append takes two blocks at most, and has a byte at least.\<close>

lemma file_block_takes: "freeblock (snd (snd (file_block k s))) \<le> freeblock (snd s) + 2"
  by (cases s) (auto simp: file_block_def new_addr_def wsect_def Let_def split: prod.split)

lemma iappend_loop_returns:
  "off + length p \<le> MAXFILE * 512 \<Longrightarrow>
     \<exists>t. iappend_loop off p s = Inr (off + length p, t) \<and> freeblock (snd t) \<le> freeblock (snd s) + 2 * length p"
proof (induction "length p" arbitrary: off p s rule: less_induct)
  case less
  show ?case
  proof (cases "p = []")
    case True
    then show ?thesis by (simp add: iappend_loop.simps [of off])
  next
    case False
    define n1 where "n1 = min (length p) ((off div BSIZE + 1) * BSIZE - off)"
    have n1: "0 < n1" "n1 \<le> length p" using False off_before_next [of off] by (auto simp: n1_def)
    have "0 < length p" using False by simp
    then have "off < MAXFILE * 512" using less.prems by linarith
    then have k: "off div BSIZE < MAXFILE" by (simp add: BSIZE_def less_mult_imp_div_less)
    obtain x din m where f: "file_block (off div BSIZE) s = (x, din, m)" by (cases "file_block (off div BSIZE) s")
    define m2 where "m2 = wsect x (take (off - off div BSIZE * BSIZE) (rsect x m) @ take n1 p @
        drop (off - off div BSIZE * BSIZE + n1) (rsect x m)) m"
    have eq: "iappend_loop off p s = iappend_loop (off + n1) (drop n1 p) (din, m2)"
      using False k f by (subst iappend_loop.simps) (simp add: Let_def n1_def m2_def)
    have "\<exists>t. iappend_loop (off + n1) (drop n1 p) (din, m2) = Inr (off + n1 + length (drop n1 p), t) \<and>
        freeblock (snd t) \<le> freeblock (snd (din, m2)) + 2 * length (drop n1 p)"
      using n1 less.prems by (intro less.hyps) auto
    moreover have "freeblock m2 \<le> freeblock (snd s) + 2" using file_block_takes [of "off div BSIZE" s] f by (simp add: m2_def wsect_def)
    ultimately show ?thesis using n1 eq by auto
  qed
qed

lemma iappend_returns:
  assumes "image_ok C m" "C i = Some (ty, bs)" "length bs + length p \<le> MAXFILE * 512"
  shows "\<exists>m'. iappend (of_nat i) p m = Inr m' \<and> freeblock m' \<le> freeblock m + 2 * length p"
proof -
  have "unat (xint (i_size (node m i))) = length bs" using image_okD(4) [OF assms(1,2)] by simp
  then show ?thesis using iappend_loop_returns [OF assms(3), of "(node m i, m)"] by (auto simp: iappend_def Let_def)
qed

lemma append_reads_returns:
  assumes "image_ok C m" "C i = Some (ty, bs)" "length bs + length (concat reads) \<le> MAXFILE * 512"
    "freeblock m + 2 * length (concat reads) \<le> 1000"
  shows "\<exists>m'. append_reads (of_nat i) reads m = Inr m' \<and> freeblock m' \<le> freeblock m + 2 * length (concat reads)"
  using assms
proof (induction reads arbitrary: m C bs)
  case (Cons buf reads)
  obtain m1 where m1: "iappend (of_nat i) buf m = Inr m1" "freeblock m1 \<le> freeblock m + 2 * length buf"
    using iappend_returns [OF Cons.prems(1,2), of buf] Cons.prems(3) by auto
  have fb: "freeblock m1 \<le> 1000" using m1(2) Cons.prems(4) by simp
  note a = iappend_ok [OF Cons.prems(1,2) m1(1) fb]
  have "\<exists>m'. append_reads (of_nat i) reads m1 = Inr m' \<and> freeblock m' \<le> freeblock m1 + 2 * length (concat reads)"
    by (rule Cons.IH [where C = "C(i \<mapsto> (ty, bs @ buf))" and bs = "bs @ buf", OF a(1)])
      (use m1(2) Cons.prems(3,4) in simp_all)
  with m1 show ?case by auto
qed simp

text \<open>A small file in an image with a small root directory.\<close>

lemma add_file_returns:
  assumes ok: "image_ok C m" and root: "C 1 = Some (T_DIR, D)" and n: "unat (freeinode m) = n" "n < 200" "2 \<le> n"
    and name: "0 \<in> set name" "47 \<notin> set (cstr name)"
    and size: "freeblock m + 2 * (16 + length (concat reads)) \<le> 1000" "length D \<le> 4000"
  shows "\<exists>m'. add_file 1 (name, reads) m = Inr m' \<and> freeblock m' \<le> freeblock m + 2 * (16 + length (concat reads))"
proof -
  obtain inum m1 where i: "mk_ialloc T_FILE m = (inum, m1)" by (cases "mk_ialloc T_FILE m")
  have r: "unat (freeinode m) < 200" "1 \<le> unat (freeinode m)" using n by simp_all
  note al = ialloc_ok [OF ok r(1) i r(2)]
  have inum: "unat inum = n" "inum = of_nat n" using al(1) n(1) [symmetric] by simp_all
  let ?e = "entry_of n (stored_name name)"
  have e: "length ?e = 16" by (auto simp: entry_of_def le16_def DIRSIZ_def)
  let ?C1 = "C(n \<mapsto> (T_FILE, []))" and ?C2 = "C(n \<mapsto> (T_FILE, []), 1 \<mapsto> (T_DIR, D @ ?e))"
  have C1: "image_ok ?C1 m1" using al(2) inum by simp
  have root1: "?C1 1 = Some (T_DIR, D)" using root n(3) by simp
  obtain m2 where m2: "iappend (of_nat 1) ?e m1 = Inr m2" "freeblock m2 \<le> freeblock m1 + 2 * 16"
    using iappend_returns [where C = ?C1 and i = 1, OF C1 root1, of ?e] size(2) e by (auto simp: max_values)
  have fb2: "freeblock m2 \<le> 1000" using m2(2) al(3) size(1) by simp
  note C2 = iappend_ok [where C = ?C1 and i = 1, OF C1 root1 m2(1) fb2]
  have f: "?C2 n = Some (T_FILE, [])" using n(3) by simp
  have "\<exists>m'. append_reads (of_nat n) reads m2 = Inr m' \<and> freeblock m' \<le> freeblock m2 + 2 * length (concat reads)"
    by (rule append_reads_returns [where C = ?C2, OF C2(1) f]) (use m2(2) al(3) size(1) in \<open>simp_all add: max_values\<close>)
  then obtain m' where m': "append_reads (of_nat n) reads m2 = Inr m'" "freeblock m' \<le> freeblock m2 + 2 * length (concat reads)"
    by blast
  have "dirent inum (stored_name name) = Inr ?e" using dirent_eq [OF stored_name_ends [OF name(1)]] inum(1) by simp
  then have "add_file 1 (name, reads) m = Inr m'"
    using name(2) i m2(1) m'(1) inum(2) unfolding add_file_def stored_name_def [symmetric] by (simp add: Let_def)
  then show ?thesis using m'(2) m2(2) al(3) by auto
qed

lemma mkfs_one_file:
  assumes "0 \<in> set name" "47 \<notin> set (cstr name)" "length (concat reads) \<le> 400"
  shows "\<exists>m. mkfs [(name, reads)] = Inr m \<and> freeblock m \<le> 1000"
proof -
  obtain inum m0 where i: "mk_ialloc T_DIR mk_start = (inum, m0)" by (cases "mk_ialloc T_DIR mk_start")
  have fi: "freeinode mk_start = 1" "freeblock mk_start = 59" by (simp_all add: mk_start_def wsect_def layout_values)
  have inum: "inum = 1" using i fi by (auto simp: mk_ialloc_def Let_def)
  have room: "unat (freeinode mk_start) < 200" "1 \<le> unat (freeinode mk_start)" by (simp_all add: fi)
  note al = ialloc_ok [OF start_ok(1) room(1) i room(2)]
  let ?C0 = "[1 \<mapsto> (T_DIR, [])] :: nat \<Rightarrow> ((16 word) \<times> byte list) option"
  let ?e1 = "entry_of 1 [46, 0]" and ?e2 = "entry_of 1 [46, 46, 0]"
  have e: "length ?e1 = 16" "length ?e2 = 16" by (simp_all add: entry_of_def le16_def DIRSIZ_def)
  have C0: "image_ok ?C0 m0" using al(2) inum by simp
  have r0: "?C0 1 = Some (T_DIR, [])" by simp
  obtain m1 where m1: "iappend (of_nat 1) ?e1 m0 = Inr m1" "freeblock m1 \<le> freeblock m0 + 2 * 16"
    using iappend_returns [where C = ?C0 and i = 1, OF C0 r0, of ?e1] e by (auto simp: max_values)
  have fb1: "freeblock m1 \<le> 1000" using m1(2) al(3) fi by simp
  note a1 = iappend_ok [where C = ?C0 and i = 1, OF C0 r0 m1(1) fb1]
  let ?C1 = "?C0(1 \<mapsto> (T_DIR, [] @ ?e1))"
  have r1: "?C1 1 = Some (T_DIR, ?e1)" by simp
  obtain m2 where m2: "iappend (of_nat 1) ?e2 m1 = Inr m2" "freeblock m2 \<le> freeblock m1 + 2 * 16"
    using iappend_returns [where C = ?C1 and i = 1, OF a1(1) r1, of ?e2] e by (auto simp: max_values)
  have fb2: "freeblock m2 \<le> 1000" using m1(2) m2(2) al(3) fi by simp
  note a2 = iappend_ok [where C = ?C1 and i = 1, OF a1(1) r1 m2(1) fb2]
  let ?C2 = "?C1(1 \<mapsto> (T_DIR, ?e1 @ ?e2))"
  have r2: "?C2 1 = Some (T_DIR, ?e1 @ ?e2)" by simp
  have n: "unat (freeinode m2) = 2" using a1(2) a2(2) al(4) fi by simp
  obtain m3 where m3: "add_file 1 (name, reads) m2 = Inr m3" "freeblock m3 \<le> freeblock m2 + 2 * (16 + length (concat reads))"
    using add_file_returns [where C = ?C2, OF a2(1) r2 n _ _ assms(1,2), of reads] m1(2) m2(2) al(3) fi e assms(3) by auto
  have fb3: "freeblock m3 \<le> 1000" using m3(2) m1(2) m2(2) al(3) fi assms(3) by simp
  have fr: "freeblock (fix_root_size 1 m3) = freeblock m3" by (simp add: fix_root_size_def Let_def)
  then obtain m where m: "mk_balloc (freeblock (fix_root_size 1 m3)) (fix_root_size 1 m3) = Inr m" "freeblock m = freeblock m3"
    using fb3 by (auto simp: mk_balloc_def BSIZE_def wsect_def)
  have d: "dirent 1 [46, 0] = Inr ?e1" "dirent 1 [46, 46, 0] = Inr ?e2" by (simp_all add: dirent_eq)
  have "mkfs [(name, reads)] = Inr m"
    using i d m1(1) m2(1) m3(1) m(1) unfolding mkfs_def by (simp add: inum Let_def ROOTINO_def)
  with m(2) fb3 show ?thesis by auto
qed

text \<open>An image with one file of three bytes, and a kernel that has read its inode.\<close>

definition demo_kernel :: "mkstate \<Rightarrow> fs" where
  "demo_kernel m =
     (let d = img m; inode = get_dinode (dip 2) (d (IBLOCK 2 mk_sb)) (zero_dinode\<lparr>i_inum := 2\<rparr>)
      in \<lparr>fs_log = \<lparr>lstart = 2, lsize = 30, outstanding = 1, committing = False, lh = []\<rparr>,
          fs_store = \<lparr>disk = d, pinned = (\<lambda>_. None), writes = []\<rparr>, fs_sb = mk_sb, icache = [inode]\<rparr>)"

theorem mkfs_image_witness:
  "\<exists>m. mkfs [(msg ''_a'' @ [0], [[7], [8, 9]])] = Inr m \<and> regular [7, 8, 9] 0 (demo_kernel m)"
proof -
  let ?name = "msg ''_a'' @ [0]" and ?reads = "[[7], [8, 9]] :: byte list list"
  have nm: "0 \<in> set ?name" "47 \<notin> set (cstr ?name)" by (simp_all add: msg_def)
  obtain m where m: "mkfs [(?name, ?reads)] = Inr m" "freeblock m \<le> 1000"
    using mkfs_one_file [OF nm, of ?reads] by auto
  have nul: "\<forall>(name, reads) \<in> set [(?name, ?reads)]. 0 \<in> set name" using nm(1) by simp
  have few: "length [(?name, ?reads)] \<le> 198" by simp
  have data: "data_of b (demo_kernel m) = img m b" for b by (simp add: demo_kernel_def Let_def data_of_def blk_def)
  obtain C m3 where "img m3 1 = sb_block" "mk_balloc (freeblock m3) (fix_root_size 1 m3) = Inr m" and ok: "image_ok C m3"
    and C1: "C 1 = Some (T_DIR, dots @ entries_of 2 [(?name, ?reads)])"
    using mkfs_steps [OF m few nul] by blast
  moreover have "IBLOCK 1 mk_sb \<noteq> 1" by (simp add: IBLOCK_def layout_values IPB_def)
  ultimately have "img m 1 = sb_block"
    by (auto simp: mk_balloc_def wsect_def fix_root_size_def winode_def layout_values Let_def split: if_splits)
  then have "on_image m (demo_kernel m)"
    using read_sb_block [of "demo_kernel m"] data by (simp add: on_image_def) (simp add: demo_kernel_def Let_def)
  moreover have "loaded 0 (of_nat (2 + 0)) (demo_kernel m)"
    unfolding loaded_def data by (auto simp: demo_kernel_def Let_def inode_at_def get_dinode_def)
  ultimately have "regular (concat (snd ([(?name, ?reads)] ! 0))) 0 (demo_kernel m)"
    using mkfs_image [OF m few nul] by (metis length_Cons zero_less_Suc)
  then show ?thesis using m(1) by auto
qed

end
