(* ===== verification/Boot.thy ===== *)
theory Boot
  imports Exec
begin

text \<open>
  The boot loader (\<open>bootmain.c\<close>): it reads the kernel, an ELF file that starts at sector 1 of
  the disk, into physical memory. Addresses are natural numbers that do not wrap; \<open>file\<close>
  gives the bytes of the kernel's file, and behind its end whatever the disk holds.
\<close>

section \<open>Reading the disk\<close>

definition SECTSIZE :: nat where "SECTSIZE = 512"

text \<open>
  The bytes \<open>readsect\<close> writes to the ports 0x1F3 to 0x1F6, and the sector the drive takes
  from them: the low half of the last byte holds the highest bits of the number.
\<close>

definition sector_ports :: "uint \<Rightarrow> byte list" where
  "sector_ports offset = [ucast offset, ucast (drop_bit 8 offset), ucast (drop_bit 16 offset), ucast (drop_bit 24 offset) OR 0xE0]"

definition lba :: "byte list \<Rightarrow> nat" where
  "lba ps = unat (ps ! 0) + 256 * unat (ps ! 1) + 65536 * unat (ps ! 2) + 16777216 * (unat (ps ! 3) mod 16)"

text \<open>Sector \<open>k\<close> of the disk holds the bytes from \<open>512 * (k - 1)\<close> on of the file.\<close>

definition readsect :: "(nat \<Rightarrow> byte) \<Rightarrow> nat \<Rightarrow> nat \<Rightarrow> memory \<Rightarrow> memory" where
  "readsect file dst offset m =
     (\<lambda>a. if dst \<le> a \<and> a < dst + SECTSIZE
          then file ((lba (sector_ports (of_nat offset)) - 1) * SECTSIZE + (a - dst)) else m a)"

function readseg_loop :: "(nat \<Rightarrow> byte) \<Rightarrow> nat \<Rightarrow> nat \<Rightarrow> nat \<Rightarrow> memory \<Rightarrow> memory" where
  "readseg_loop file pa epa offset m =
     (if pa < epa then readseg_loop file (pa + SECTSIZE) epa (offset + 1) (readsect file pa offset m) else m)"
  by pat_completeness auto
termination by (relation "measure (\<lambda>(file, pa, epa, offset, m). epa - pa)") (auto simp: SECTSIZE_def)

declare readseg_loop.simps [simp del]

definition readseg :: "(nat \<Rightarrow> byte) \<Rightarrow> nat \<Rightarrow> nat \<Rightarrow> nat \<Rightarrow> memory \<Rightarrow> memory" where
  "readseg file pa count offset m =
     readseg_loop file (pa - offset mod SECTSIZE) (pa + count) (offset div SECTSIZE + 1) m"

section \<open>Loading the kernel\<close>

definition mem32 :: "memory \<Rightarrow> nat \<Rightarrow> nat" where
  "mem32 m a = unat (of_le32 [m a, m (a + 1), m (a + 2), m (a + 3)])"

definition mem16 :: "memory \<Rightarrow> nat \<Rightarrow> nat" where
  "mem16 m a = unat (of_le16 [m a, m (a + 1)])"

text \<open>The scratch space for the header.\<close>

definition ELF :: nat where "ELF = 0x10000"

text \<open>\<open>ph\<close> is the address of a program header of 32 bytes: its fields \<open>off\<close>, \<open>paddr\<close>, \<open>filesz\<close> and \<open>memsz\<close>.\<close>

definition boot_segment :: "(nat \<Rightarrow> byte) \<Rightarrow> nat \<Rightarrow> memory \<Rightarrow> memory" where
  "boot_segment file ph m =
     (let pa = mem32 m (ph + 12);
          m = readseg file pa (mem32 m (ph + 16)) (mem32 m (ph + 4)) m;
          filesz = mem32 m (ph + 16); memsz = mem32 m (ph + 20)
      in if memsz > filesz then stosb m (pa + filesz) 0 (memsz - filesz) else m)"

fun boot_segments :: "(nat \<Rightarrow> byte) \<Rightarrow> nat \<Rightarrow> nat \<Rightarrow> memory \<Rightarrow> memory" where
  "boot_segments file ph 0 m = m"
| "boot_segments file ph (Suc n) m = boot_segments file (ph + 32) n (boot_segment file ph m)"

text \<open>The entry point and the memory when the kernel is called, or nothing when \<open>bootmain\<close> returns.\<close>

definition bootmain :: "(nat \<Rightarrow> byte) \<Rightarrow> memory \<Rightarrow> (nat \<times> memory) option" where
  "bootmain file m =
     (let m = readseg file ELF 4096 0 m
      in if mem32 m ELF \<noteq> unat ELF_MAGIC then None
         else
           let m = boot_segments file (ELF + mem32 m (ELF + 28)) (mem16 m (ELF + 44)) m
           in Some (mem32 m (ELF + 24), m))"

section \<open>What is read\<close>

lemma lba_ports: "n < 2 ^ 28 \<Longrightarrow> lba (sector_ports (of_nat n)) = n"
proof -
  assume n: "n < 2 ^ 28"
  define w where "w = (of_nat n :: uint)"
  have w: "unat w = n" using n by (simp add: w_def unat_of_nat)
  have b: "unat (ucast (drop_bit k w) :: byte) = n div 2 ^ k mod 256" for k
  proof -
    have "unat (drop_bit k w) = drop_bit k n" by (simp only: unat_drop_bit_eq w)
    then have "unat (drop_bit k w) = n div 2 ^ k" by (simp only: drop_bit_eq_div)
    then show ?thesis by (simp only: unsigned_ucast_eq take_bit_eq_mod) simp
  qed
  have "unat ((ucast (drop_bit 24 w) :: byte) OR 0xE0) mod 16 = n div 2 ^ 24 mod 16"
  proof -
    have "unat ((x :: byte) OR 0xE0) mod 16 = unat x mod 16" for x
    proof -
      have "take_bit 4 (x OR 0xE0) = take_bit 4 x" by (simp add: take_bit_or)
      then have "unat (take_bit 4 (x OR 0xE0)) = unat (take_bit 4 x)" by (rule arg_cong)
      then have "take_bit 4 (unat (x OR 0xE0)) = take_bit 4 (unat x)" by (simp only: unsigned_take_bit_eq)
      then have "unat (x OR 0xE0) mod 2 ^ 4 = unat x mod 2 ^ 4" by (simp only: take_bit_eq_mod)
      then show ?thesis by simp
    qed
    then show ?thesis using b [of 24] by (simp add: mod_mod_cancel)
  qed
  moreover have "n mod 256 + 256 * (n div 256 mod 256) + 65536 * (n div 65536 mod 256) + 16777216 * (n div 16777216) = n"
  proof -
    have "n div 65536 = n div 256 div 256" "n div 16777216 = n div 65536 div 256" by (simp_all add: div_mult2_eq [symmetric])
    then show ?thesis
      using div_mult_mod_eq [of n 256] div_mult_mod_eq [of "n div 256" 256] div_mult_mod_eq [of "n div 65536" 256] by linarith
  qed
  ultimately show ?thesis
    using b [of 0] b [of 8] b [of 16] n unfolding lba_def sector_ports_def w_def [symmetric] by simp
qed

lemma readsect_apply:
  "k < 2 ^ 28 \<Longrightarrow> readsect file pa k m a = (if pa \<le> a \<and> a < pa + 512 then file ((k - 1) * 512 + (a - pa)) else m a)"
  by (simp add: readsect_def lba_ports SECTSIZE_def)

text \<open>From the sector \<open>k\<close> on at \<open>pa\<close>: whole sectors until \<open>epa\<close> is reached.\<close>

lemma readseg_loop_apply:
  assumes "1 \<le> k" "k + (epa - pa) < 2 ^ 28"
  shows "readseg_loop file pa epa k m a =
    (if pa \<le> a \<and> a < pa + 512 * ((epa - pa + 511) div 512) then file ((k - 1) * 512 + (a - pa)) else m a)"
  using assms
proof (induction "epa - pa" arbitrary: pa k m rule: less_induct)
  case less
  show ?case
  proof (cases "pa < epa")
    case False
    then show ?thesis by (subst readseg_loop.simps) auto
  next
    case True
    have k: "k < 2 ^ 28" using less.prems(2) by linarith
    have n: "(epa - pa + 511) div 512 = Suc ((epa - (pa + 512) + 511) div 512)"
      using True by (cases "epa - pa < 512") (auto simp: div_if le_div_geq)
    have "readseg_loop file pa epa k m a = readseg_loop file (pa + 512) epa (k + 1) (readsect file pa k m) a"
      using True by (subst readseg_loop.simps) (simp add: SECTSIZE_def)
    also have "\<dots> = (if pa + 512 \<le> a \<and> a < pa + 512 + 512 * ((epa - (pa + 512) + 511) div 512)
        then file ((k + 1 - 1) * 512 + (a - (pa + 512))) else readsect file pa k m a)"
      using True less.prems by (intro less.hyps) auto
    also have "\<dots> = (if pa \<le> a \<and> a < pa + 512 * ((epa - pa + 511) div 512) then file ((k - 1) * 512 + (a - pa)) else m a)"
    proof -
      obtain j where j: "k = Suc j" using less.prems(1) by (cases k) auto
      have "512 + j * 512 + (a - (pa + 512)) = j * 512 + (a - pa)" if "pa + 512 \<le> a" using that by simp
      then show ?thesis unfolding n using readsect_apply [OF k, of "file" pa m a] by (auto simp: j)
    qed
    finally show ?thesis .
  qed
qed

text \<open>
  A segment: its bytes are in place, nothing below its first sector is changed, nor anything
  more than a sector behind its end.
\<close>

lemma readseg_reads:
  assumes "off + count < 2 ^ 27" "off mod 512 \<le> pa"
  shows "i < count \<Longrightarrow> readseg file pa count off m (pa + i) = file (off + i)"
    and "a < pa - off mod 512 \<Longrightarrow> readseg file pa count off m a = m a"
    and "pa + count + 512 \<le> a \<Longrightarrow> readseg file pa count off m a = m a"
proof -
  let ?p = "pa - off mod 512" and ?k = "off div 512 + 1"
  have p: "?p + off mod 512 = pa" using assms(2) by simp
  have size: "pa + count - ?p = off mod 512 + count" using assms(2) by simp
  have small: "?k + (pa + count - ?p) < 2 ^ 28"
  proof -
    have "off div 512 \<le> off" "off mod 512 \<le> off" by simp_all
    moreover have "off + count < 134217728" using assms(1) by simp
    ultimately have "off div 512 + 1 + (off mod 512 + count) < 268435456" by linarith
    then show ?thesis unfolding size by simp
  qed
  have eq: "readseg file pa count off m a =
    (if ?p \<le> a \<and> a < ?p + 512 * ((off mod 512 + count + 511) div 512) then file (off div 512 * 512 + (a - ?p)) else m a)" for a
    using readseg_loop_apply [OF _ small, of "file" m a] by (simp add: readseg_def SECTSIZE_def size)
  have up: "n \<le> 512 * ((n + 511) div 512)" "512 * ((n + 511) div 512) < n + 512" for n :: nat by simp_all
  show "i < count \<Longrightarrow> readseg file pa count off m (pa + i) = file (off + i)"
  proof -
    assume i: "i < count"
    have "pa + i < ?p + 512 * ((off mod 512 + count + 511) div 512)"
      using up(1) [of "off mod 512 + count"] i p by linarith
    moreover have "off div 512 * 512 + (pa + i - ?p) = off + i"
      using p div_mult_mod_eq [of off 512] by linarith
    moreover have "?p \<le> pa + i" by simp
    ultimately show ?thesis unfolding eq by simp
  qed
  show "a < pa - off mod 512 \<Longrightarrow> readseg file pa count off m a = m a" unfolding eq by simp
  show "pa + count + 512 \<le> a \<Longrightarrow> readseg file pa count off m a = m a"
    unfolding eq using up(2) [of "off mod 512 + count"] p by auto
qed

section \<open>The kernel in memory\<close>

text \<open>The fields of program header \<open>k\<close> in the file.\<close>

definition file32 :: "(nat \<Rightarrow> byte) \<Rightarrow> nat \<Rightarrow> nat" where
  "file32 f a = mem32 f a"

record segment =
  sg_off :: nat
  sg_pa :: nat
  sg_filesz :: nat
  sg_memsz :: nat

definition segment_of :: "(nat \<Rightarrow> byte) \<Rightarrow> nat \<Rightarrow> segment" where
  "segment_of f k = (let ph = file32 f 28 + 32 * k in
     \<lparr>sg_off = file32 f (ph + 4), sg_pa = file32 f (ph + 12), sg_filesz = file32 f (ph + 16), sg_memsz = file32 f (ph + 20)\<rparr>)"

definition phnum :: "(nat \<Rightarrow> byte) \<Rightarrow> nat" where
  "phnum f = mem16 f 44"

text \<open>
  A kernel the loader can load: the program headers lie in the first 4096 bytes, every segment
  goes above the scratch space, and each starts, rounded down to a sector, behind the end of
  those before it.
\<close>

definition sg_start :: "segment \<Rightarrow> nat" where
  "sg_start sg = sg_pa sg - sg_off sg mod 512"

definition sg_end :: "segment \<Rightarrow> nat" where
  "sg_end sg = sg_pa sg + max (sg_filesz sg) (sg_memsz sg)"

definition loadable :: "(nat \<Rightarrow> byte) \<Rightarrow> bool" where
  "loadable f \<longleftrightarrow> file32 f 0 = unat ELF_MAGIC \<and> file32 f 28 + 32 * phnum f \<le> 4096 \<and>
     (\<forall>k < phnum f. let sg = segment_of f k in
        sg_off sg + sg_filesz sg < 2 ^ 27 \<and> ELF + 4096 + 512 \<le> sg_start sg \<and>
        (\<forall>j < k. sg_end (segment_of f j) \<le> sg_start sg))"

definition in_place :: "(nat \<Rightarrow> byte) \<Rightarrow> segment \<Rightarrow> memory \<Rightarrow> bool" where
  "in_place f sg m \<longleftrightarrow>
     (\<forall>i < sg_filesz sg. m (sg_pa sg + i) = f (sg_off sg + i)) \<and>
     (\<forall>i. sg_filesz sg \<le> i \<and> i < sg_memsz sg \<longrightarrow> m (sg_pa sg + i) = 0)"

definition header_in :: "(nat \<Rightarrow> byte) \<Rightarrow> memory \<Rightarrow> bool" where
  "header_in f m \<longleftrightarrow> (\<forall>i < 4096. m (ELF + i) = f i)"

lemma header_fields:
  assumes "header_in f m"
  shows "a + 4 \<le> 4096 \<Longrightarrow> mem32 m (ELF + a) = file32 f a" "a + 2 \<le> 4096 \<Longrightarrow> mem16 m (ELF + a) = mem16 f a"
proof -
  have h: "m (ELF + a + i) = f (a + i)" if "a + i < 4096" for i using assms that by (simp add: header_in_def add.assoc)
  show "a + 4 \<le> 4096 \<Longrightarrow> mem32 m (ELF + a) = file32 f a"
    unfolding mem32_def file32_def using h [of 0] h [of 1] h [of 2] h [of 3] by simp
  show "a + 2 \<le> 4096 \<Longrightarrow> mem16 m (ELF + a) = mem16 f a"
    unfolding mem16_def using h [of 0] h [of 1] by simp
qed

lemma boot_segment_ok:
  assumes h: "header_in f m" and ok: "loadable f" and k: "k < phnum f"
  defines "sg \<equiv> segment_of f k" and "m' \<equiv> boot_segment f (ELF + file32 f 28 + 32 * k) m"
  shows "in_place f sg m'" "a < sg_start sg \<Longrightarrow> m' a = m a" "header_in f m'"
proof -
  let ?ph = "file32 f 28 + 32 * k"
  have ph: "?ph + 32 \<le> 4096" using ok k by (simp add: loadable_def)
  have s: "sg_off sg + sg_filesz sg < 2 ^ 27" "ELF + 4096 + 512 \<le> sg_start sg"
    using ok k by (simp_all add: loadable_def sg_def Let_def)
  have le: "sg_off sg mod 512 \<le> sg_pa sg" using s(2) by (simp add: sg_start_def ELF_def)
  have f: "mem32 m (ELF + ?ph + 4) = sg_off sg" "mem32 m (ELF + ?ph + 12) = sg_pa sg" "mem32 m (ELF + ?ph + 16) = sg_filesz sg"
    using header_fields(1) [OF h, of "?ph + 4"] header_fields(1) [OF h, of "?ph + 12"] header_fields(1) [OF h, of "?ph + 16"] ph
    by (simp_all add: sg_def segment_of_def Let_def add.assoc)
  define m1 where "m1 = readseg f (sg_pa sg) (sg_filesz sg) (sg_off sg) m"
  note r = readseg_reads [OF s(1) le, of _ f m, folded m1_def]
  have low: "m1 a = m a" if "a < sg_start sg" for a using r(2) that by (simp add: sg_start_def)
  then have h1: "header_in f m1" using h s(2) by (simp add: header_in_def)
  have g: "mem32 m1 (ELF + ?ph + 16) = sg_filesz sg" "mem32 m1 (ELF + ?ph + 20) = sg_memsz sg"
    using header_fields(1) [OF h1, of "?ph + 16"] header_fields(1) [OF h1, of "?ph + 20"] ph
    by (simp_all add: sg_def segment_of_def Let_def add.assoc)
  have m': "m' = (if sg_memsz sg > sg_filesz sg then stosb m1 (sg_pa sg + sg_filesz sg) 0 (sg_memsz sg - sg_filesz sg) else m1)"
    using f g unfolding m'_def boot_segment_def by (simp add: Let_def add.assoc m1_def)
  show "in_place f sg m'" using r(1) by (auto simp: in_place_def m' stosb_apply)
  show lo: "m' a = m a" if "a < sg_start sg" for a
    using low [OF that] that by (auto simp: m' stosb_apply sg_start_def)
  show "header_in f m'" using h s(2) lo by (simp add: header_in_def)
qed

lemma in_place_kept: "in_place f sg m \<Longrightarrow> (\<And>a. a < sg_end sg \<Longrightarrow> m' a = m a) \<Longrightarrow> in_place f sg m'"
  by (auto simp: in_place_def sg_end_def)

lemma boot_segments_ok:
  assumes "loadable f" "k + n = phnum f" "header_in f m" "\<forall>j < k. in_place f (segment_of f j) m"
  shows "header_in f (boot_segments f (ELF + file32 f 28 + 32 * k) n m) \<and>
    (\<forall>j < phnum f. in_place f (segment_of f j) (boot_segments f (ELF + file32 f 28 + 32 * k) n m))"
  using assms(2-)
proof (induction n arbitrary: k m)
  case (Suc n)
  have k: "k < phnum f" using Suc.prems(1) by simp
  note l = boot_segment_ok [OF Suc.prems(2) assms(1) k]
  define m1 where "m1 = boot_segment f (ELF + file32 f 28 + 32 * k) m"
  have "in_place f (segment_of f j) m1" if "j < Suc k" for j
  proof (cases "j = k")
    case False
    then have j: "j < k" using that by simp
    then have "sg_end (segment_of f j) \<le> sg_start (segment_of f k)" using assms(1) k by (simp add: loadable_def Let_def)
    then show ?thesis
      using in_place_kept [of f "segment_of f j" m m1] Suc.prems(3) j l(2) by (auto simp: m1_def)
  qed (use l(1) in \<open>simp add: m1_def\<close>)
  then have "header_in f (boot_segments f (ELF + file32 f 28 + 32 * Suc k) n m1) \<and>
    (\<forall>j < phnum f. in_place f (segment_of f j) (boot_segments f (ELF + file32 f 28 + 32 * Suc k) n m1))"
    using Suc.prems(1) l(3) by (intro Suc.IH) (simp_all add: m1_def)
  moreover have "ELF + file32 f 28 + 32 * Suc k = ELF + file32 f 28 + 32 * k + 32" by simp
  ultimately show ?case unfolding boot_segments.simps m1_def by metis
qed simp


text \<open>A kernel of two segments, the second in the middle of a sector.\<close>

definition small_kernel :: "nat \<Rightarrow> byte" where
  "small_kernel a =
     (let bs = [0x7F, 0x45, 0x4C, 0x46] @ replicate 20 0 @ [0x0C, 0, 0x10, 0] @ [52, 0, 0, 0] @ replicate 12 0 @ [2, 0] @ replicate 6 0 @
            [1, 0, 0, 0] @ [0, 0x10, 0, 0] @ [0, 0, 0x10, 0x80] @ [0, 0, 0x10, 0] @ [0x58, 2, 0, 0] @ [0xD0, 7, 0, 0] @ replicate 8 0 @
            [1, 0, 0, 0] @ [0x5C, 0x12, 0, 0] @ [0, 0x10, 0x10, 0x80] @ [0, 0x10, 0x10, 0] @ [3, 0, 0, 0] @ [3, 0, 0, 0] @ replicate 8 0
      in if a < length bs then bs ! a else of_nat a)"

lemma file32_le32: "map f [a..<a + 4] = le32 w \<Longrightarrow> file32 f a = unat w"
proof -
  have "[a..<a + 4] = [a, a + 1, a + 2, a + 3]" by (simp add: upt_rec)
  then show "map f [a..<a + 4] = le32 w \<Longrightarrow> file32 f a = unat w" by (simp add: file32_def mem32_def of_le32_le32)
qed

lemma small_kernel_words:
  "map small_kernel [0..<4] = le32 ELF_MAGIC" "map small_kernel [24..<28] = le32 0x10000C"
  "map small_kernel [28..<32] = le32 52" "map small_kernel [44..<46] = [2, 0]"
  "map small_kernel [56..<60] = le32 4096" "map small_kernel [64..<68] = le32 0x100000"
  "map small_kernel [68..<72] = le32 600" "map small_kernel [72..<76] = le32 2000"
  "map small_kernel [88..<92] = le32 4700" "map small_kernel [96..<100] = le32 0x101000"
  "map small_kernel [100..<104] = le32 3" "map small_kernel [104..<108] = le32 3"
  by code_simp+

lemma small_kernel_fields:
  "file32 small_kernel 0 = unat ELF_MAGIC" "file32 small_kernel 24 = 0x10000C" "file32 small_kernel 28 = 52" "phnum small_kernel = 2"
  "segment_of small_kernel 0 = \<lparr>sg_off = 4096, sg_pa = 0x100000, sg_filesz = 600, sg_memsz = 2000\<rparr>"
  "segment_of small_kernel 1 = \<lparr>sg_off = 4700, sg_pa = 0x101000, sg_filesz = 3, sg_memsz = 3\<rparr>"
proof -
  note f = file32_le32 [of small_kernel]
  note w = small_kernel_words
  show p: "file32 small_kernel 0 = unat ELF_MAGIC" "file32 small_kernel 24 = 0x10000C" "file32 small_kernel 28 = 52"
    using f [of 0 "ELF_MAGIC"] f [of 24 "0x10000C"] f [of 28 "52"] w(1-3) by simp_all
  show "phnum small_kernel = 2"
    using w(4) by (simp add: phnum_def mem16_def upt_rec of_le16_def)
  show "segment_of small_kernel 0 = \<lparr>sg_off = 4096, sg_pa = 0x100000, sg_filesz = 600, sg_memsz = 2000\<rparr>"
    using f [of 56 "4096"] f [of 64 "0x100000"] f [of 68 "600"] f [of 72 "2000"] w(5-8) p(3) by (simp add: segment_of_def Let_def)
  show "segment_of small_kernel 1 = \<lparr>sg_off = 4700, sg_pa = 0x101000, sg_filesz = 3, sg_memsz = 3\<rparr>"
    using f [of 88 "4700"] f [of 96 "0x101000"] f [of 100 "3"] f [of 104 "3"] w(9-12) p(3) by (simp add: segment_of_def Let_def)
qed

lemma small_kernel_loadable: "loadable small_kernel"
proof -
  have two: "k < 2 \<longleftrightarrow> k = 0 \<or> k = Suc 0" for k :: nat by auto
  show ?thesis
    using small_kernel_fields
    by (auto simp: loadable_def two Let_def ELF_def sg_start_def sg_end_def)
qed


end
