(* ===== verification/Trap.thy ===== *)
theory Trap
  imports Process Printf
begin

text \<open>
  Traps (\<open>trap.c\<close>, \<open>traps.h\<close>, \<open>mmu.h\<close>) and the table of system calls (\<open>syscall.c\<close>,
  \<open>syscall.h\<close>). The devices and what the kernel does in a system call or while another process
  runs are services, which may change the state in any way; the addresses of the entry points,
  which a script generates, are the parameter \<open>vectors\<close>.
\<close>

section \<open>The interrupt descriptor table\<close>

definition T_SYSCALL :: nat where "T_SYSCALL = 64"
definition T_IRQ0 :: nat where "T_IRQ0 = 32"
definition IRQ_TIMER :: nat where "IRQ_TIMER = 0"
definition IRQ_KBD :: nat where "IRQ_KBD = 1"
definition IRQ_COM1 :: nat where "IRQ_COM1 = 4"
definition IRQ_IDE :: nat where "IRQ_IDE = 14"
definition IRQ_SPURIOUS :: nat where "IRQ_SPURIOUS = 31"
definition STS_IG32 :: uint where "STS_IG32 = 0xE"
definition STS_TG32 :: uint where "STS_TG32 = 0xF"
definition SEG_KCODE :: uint where "SEG_KCODE = 1"

record gatedesc =
  off_15_0 :: uint
  g_cs :: uint
  g_args :: uint
  g_rsv1 :: uint
  g_type :: uint
  g_s :: uint
  g_dpl :: uint
  g_p :: uint
  off_31_16 :: uint

definition SETGATE :: "bool \<Rightarrow> uint \<Rightarrow> uint \<Rightarrow> uint \<Rightarrow> gatedesc" where
  "SETGATE istrap sel off d =
     \<lparr>off_15_0 = off AND 0xffff, g_cs = sel, g_args = 0, g_rsv1 = 0,
      g_type = (if istrap then STS_TG32 else STS_IG32), g_s = 0, g_dpl = d, g_p = 1, off_31_16 = drop_bit 16 off\<rparr>"

definition tvinit :: "(nat \<Rightarrow> uint) \<Rightarrow> gatedesc list" where
  "tvinit vectors =
     (let idt = map (\<lambda>i. SETGATE False (push_bit 3 SEG_KCODE) (vectors i) 0) [0..<256]
      in idt[T_SYSCALL := SETGATE True (push_bit 3 SEG_KCODE) (vectors T_SYSCALL) (ucast DPL_USER)])"

section \<open>System calls\<close>

datatype call =
    Fork | Exit | Wait | Make_Pipe | Read | Kill | Exec | Fstat | Chdir | Dup | Getpid | Sbrk | Sleep | Uptime
  | Open | Write | Mknod | Unlink | Link | Mkdir | Close
  | Sem_Open | Sem_Close | Sem_Wait | Sem_Try_Wait | Sem_Post | Sem_Reset | Sem_Unlink

text \<open>The table, by the numbers of \<open>syscall.h\<close>; number 0 has no entry.\<close>

definition syscalls :: "call option list" where
  "syscalls = None # map Some
     [Fork, Exit, Wait, Make_Pipe, Read, Kill, Exec, Fstat, Chdir, Dup, Getpid, Sbrk, Sleep, Uptime,
      Open, Write, Mknod, Unlink, Link, Mkdir, Close,
      Sem_Open, Sem_Close, Sem_Wait, Sem_Try_Wait, Sem_Post, Sem_Reset, Sem_Unlink]"

text \<open>What the kernel works on: the process table, the clock, the console, and the rest.\<close>

record 'd tstate =
  t_pt :: ptable
  t_ticks :: uint
  t_out :: "byte list"
  t_rest :: 'd

text \<open>A call of the kernel that may not return has the result \<open>None\<close>.\<close>

record 'd services =
  sv_call :: "call \<Rightarrow> nat \<Rightarrow> 'd tstate \<Rightarrow> (uint \<times> 'd tstate) option"
  sv_ideintr :: "'d tstate \<Rightarrow> 'd tstate"
  sv_kbdintr :: "'d tstate \<Rightarrow> 'd tstate"
  sv_uartintr :: "'d tstate \<Rightarrow> 'd tstate"
  sv_lapiceoi :: "'d tstate \<Rightarrow> 'd tstate"
  sv_yield :: "nat \<Rightarrow> 'd tstate \<Rightarrow> 'd tstate"
  sv_rcr2 :: uint

definition set_eax :: "nat \<Rightarrow> uint \<Rightarrow> 'd tstate \<Rightarrow> 'd tstate" where
  "set_eax i v s = s\<lparr>t_pt := set_proc i (\<lambda>p. p\<lparr>p_tf := (p_tf p)\<lparr>tf_eax := v\<rparr>\<rparr>) (t_pt s)\<rparr>"

text \<open>The strings the formats refer to are the names of processes, by their pointer 1.\<close>

definition say :: "byte list \<Rightarrow> byte list \<Rightarrow> uint list \<Rightarrow> 'd tstate \<Rightarrow> 'd tstate" where
  "say name fmt args s =
     s\<lparr>t_out := t_out s @ (case cprintf (\<lambda>p. cstr name) (Some fmt) args of Inr bs \<Rightarrow> bs | Inl e \<Rightarrow> [])\<rparr>"

definition syscall :: "'d services \<Rightarrow> nat \<Rightarrow> 'd tstate \<Rightarrow> 'd tstate option" where
  "syscall sv i s =
     (let num = tf_eax (p_tf (proc_at (t_pt s) i)) in
      if 0 < sint num \<and> sint num < int (length syscalls) \<and> syscalls ! unat num \<noteq> None then
        map_option (\<lambda>(r, s). set_eax i r s) (sv_call sv (the (syscalls ! unat num)) i s)
      else
        let p = proc_at (t_pt s) i;
            s = say (p_name p) (msg ''%d %s: unknown sys call %d'' @ [10, 0]) [p_pid p, 1, num] s
        in Some (set_eax i (-1) s))"

section \<open>Traps\<close>

text \<open>How a trap ends: back to the interrupted code, in \<open>exit\<close> or another call that never returns, or in a panic.\<close>

datatype 'd after = Back "'d tstate" | Gone "'d tstate" | Halted fault "'d tstate"

definition from_user :: "trapframe \<Rightarrow> bool" where
  "from_user tf \<longleftrightarrow> tf_cs tf AND 3 = DPL_USER"

definition killed :: "nat option \<Rightarrow> 'd tstate \<Rightarrow> bool" where
  "killed me s \<longleftrightarrow> (case me of None \<Rightarrow> False | Some i \<Rightarrow> p_killed (proc_at (t_pt s) i))"

definition tick :: "'d tstate \<Rightarrow> 'd tstate" where
  "tick s = s\<lparr>t_ticks := t_ticks s + 1, t_pt := wakeup TicksChan (t_pt s)\<rparr>"

definition unexpected :: "'d services \<Rightarrow> uint \<Rightarrow> trapframe \<Rightarrow> 'd tstate \<Rightarrow> 'd after" where
  "unexpected sv cpu tf s =
     Halted (Panic ''trap'') (say [] (msg ''unexpected trap %d from cpu %d eip %x (cr2=0x%x)'' @ [10, 0])
       [tf_trapno tf, cpu, tf_eip tf, sv_rcr2 sv] s)"

text \<open>The switch over the trap number; \<open>me\<close> is the process on this processor, \<open>cpu\<close> its number.\<close>

definition trap_switch :: "'d services \<Rightarrow> uint \<Rightarrow> nat option \<Rightarrow> trapframe \<Rightarrow> 'd tstate \<Rightarrow> 'd after" where
  "trap_switch sv cpu me tf s =
     (let n = unat (tf_trapno tf) in
      if n = T_IRQ0 + IRQ_TIMER then Back (sv_lapiceoi sv (if cpu = 0 then tick s else s))
      else if n = T_IRQ0 + IRQ_IDE then Back (sv_lapiceoi sv (sv_ideintr sv s))
      else if n = T_IRQ0 + IRQ_IDE + 1 then Back s
      else if n = T_IRQ0 + IRQ_KBD then Back (sv_lapiceoi sv (sv_kbdintr sv s))
      else if n = T_IRQ0 + IRQ_COM1 then Back (sv_lapiceoi sv (sv_uartintr sv s))
      else if n = T_IRQ0 + 7 \<or> n = T_IRQ0 + IRQ_SPURIOUS then
        Back (sv_lapiceoi sv (say [] (msg ''cpu%d: spurious interrupt at %x:%x'' @ [10, 0]) [cpu, ucast (tf_cs tf), tf_eip tf] s))
      else
        (case me of
           None \<Rightarrow> unexpected sv cpu tf s
         | Some i \<Rightarrow>
             if tf_cs tf AND 3 = 0 then unexpected sv cpu tf s
             else
               let p = proc_at (t_pt s) i;
                   s = say (p_name p) (msg ''pid %d %s: trap %d err %d on cpu %d eip 0x%x addr 0x%x--kill proc'' @ [10, 0])
                     [p_pid p, 1, tf_trapno tf, tf_err tf, cpu, tf_eip tf, sv_rcr2 sv] s
               in Back (s\<lparr>t_pt := set_proc i (\<lambda>p. p\<lparr>p_killed := True\<rparr>) (t_pt s)\<rparr>)))"

definition trap :: "'d services \<Rightarrow> uint \<Rightarrow> nat option \<Rightarrow> trapframe \<Rightarrow> 'd tstate \<Rightarrow> 'd after" where
  "trap sv cpu me tf s =
     (if unat (tf_trapno tf) = T_SYSCALL then
        (case me of
           None \<Rightarrow> Halted BadAccess s
         | Some i \<Rightarrow>
             if killed me s then Gone s
             else
               let s = s\<lparr>t_pt := set_proc i (\<lambda>p. p\<lparr>p_tf := tf\<rparr>) (t_pt s)\<rparr>
               in (case syscall sv i s of
                     None \<Rightarrow> Gone s
                   | Some s \<Rightarrow> if killed me s then Gone s else Back s))
      else
        (case trap_switch sv cpu me tf s of
           Back s \<Rightarrow>
             if killed me s \<and> from_user tf then Gone s
             else
               let s = (case me of
                     None \<Rightarrow> s
                   | Some i \<Rightarrow>
                       if p_state (proc_at (t_pt s) i) = RUNNING \<and> unat (tf_trapno tf) = T_IRQ0 + IRQ_TIMER
                       then sv_yield sv i s else s)
               in if killed me s \<and> from_user tf then Gone s else Back s
         | other \<Rightarrow> other))"

section \<open>What holds\<close>

text \<open>Code of the user can raise the system call and nothing else; only that gate leaves interrupts on.\<close>

theorem user_gates:
  assumes "i < 256"
  shows "g_dpl (tvinit vectors ! i) = 3 \<longleftrightarrow> i = T_SYSCALL" "g_dpl (tvinit vectors ! i) = 0 \<longleftrightarrow> i \<noteq> T_SYSCALL"
    "g_type (tvinit vectors ! i) = STS_TG32 \<longleftrightarrow> i = T_SYSCALL"
    "off_15_0 (tvinit vectors ! i) OR push_bit 16 (off_31_16 (tvinit vectors ! i)) = vectors i"
proof -
  have split: "(w AND 0xffff) OR push_bit 16 (drop_bit 16 w) = w" for w :: uint
  proof -
    have m: "(0xffff :: uint) = mask 16" by (simp add: mask_eq_exp_minus_1)
    show ?thesis unfolding m
    proof (rule bit_word_eqI)
      fix n assume "n < LENGTH(32)"
      then show "bit ((w AND mask 16) OR push_bit 16 (drop_bit 16 w)) n = bit w n"
        by (cases "n < 16") (auto simp: bit_or_iff bit_and_iff bit_mask_iff bit_push_bit_iff bit_drop_bit_eq not_less)
    qed
  qed
  have nth: "tvinit vectors ! i = (if i = T_SYSCALL then SETGATE True (push_bit 3 SEG_KCODE) (vectors i) 3
      else SETGATE False (push_bit 3 SEG_KCODE) (vectors i) 0)"
    using assms by (simp add: tvinit_def Let_def T_SYSCALL_def DPL_USER_def nth_list_update)
  show "g_dpl (tvinit vectors ! i) = 3 \<longleftrightarrow> i = T_SYSCALL" "g_dpl (tvinit vectors ! i) = 0 \<longleftrightarrow> i \<noteq> T_SYSCALL"
    "g_type (tvinit vectors ! i) = STS_TG32 \<longleftrightarrow> i = T_SYSCALL"
    by (simp_all add: nth SETGATE_def STS_TG32_def STS_IG32_def)
  show "off_15_0 (tvinit vectors ! i) OR push_bit 16 (off_31_16 (tvinit vectors ! i)) = vectors i"
    by (simp add: nth SETGATE_def split)
qed

text \<open>A killed process does not get back to its own code.\<close>

theorem killed_never_returns:
  assumes "trap sv cpu (Some i) tf s = Back t" "from_user tf"
  shows "\<not> p_killed (proc_at (t_pt t) i)"
  using assms by (auto simp: trap_def killed_def Let_def split: if_splits option.splits after.splits)

text \<open>A fault of the kernel is a panic, and one of the user ends the process.\<close>

definition device_trap :: "nat \<Rightarrow> bool" where
  "device_trap n \<longleftrightarrow> n \<in> {32, 33, 36, 39, 46, 47, 63}"

lemma faults:
  assumes "unat (tf_trapno tf) \<noteq> T_SYSCALL" "\<not> device_trap (unat (tf_trapno tf))"
  shows "me = None \<or> tf_cs tf AND 3 = 0 \<Longrightarrow> trap sv cpu me tf s = unexpected sv cpu tf s"
    and "from_user tf \<Longrightarrow> i < length (procs (t_pt s)) \<Longrightarrow> \<exists>t. trap sv cpu (Some i) tf s = Gone t"
proof -
  have no: "trap_switch sv cpu me tf s = (case me of None \<Rightarrow> unexpected sv cpu tf s
      | Some i \<Rightarrow> if tf_cs tf AND 3 = 0 then unexpected sv cpu tf s
          else trap_switch sv cpu me tf s)" for me
    using assms(2) by (simp add: trap_switch_def device_trap_def T_IRQ0_def IRQ_TIMER_def IRQ_IDE_def IRQ_KBD_def
        IRQ_COM1_def IRQ_SPURIOUS_def Let_def split: option.split)
  show "me = None \<or> tf_cs tf AND 3 = 0 \<Longrightarrow> trap sv cpu me tf s = unexpected sv cpu tf s"
    using assms(1) by (subst trap_def, subst no) (auto simp: unexpected_def split: option.split)
  assume u: "from_user tf" and i: "i < length (procs (t_pt s))"
  then have cs: "tf_cs tf AND 3 \<noteq> 0" by (simp add: from_user_def DPL_USER_def)
  have "\<exists>t. trap_switch sv cpu (Some i) tf s = Back t \<and> killed (Some i) t"
    using assms(2) cs i by (auto simp: trap_switch_def device_trap_def T_IRQ0_def IRQ_TIMER_def IRQ_IDE_def IRQ_KBD_def
        IRQ_COM1_def IRQ_SPURIOUS_def Let_def killed_def say_def)
  then show "\<exists>t. trap sv cpu (Some i) tf s = Gone t" using assms(1) u by (auto simp: trap_def)
qed

text \<open>A number that is not in the table gives -1 and changes nothing but the console.\<close>

lemma unknown_call:
  assumes "sint (tf_eax (p_tf (proc_at (t_pt s) i))) \<le> 0 \<or> 28 < sint (tf_eax (p_tf (proc_at (t_pt s) i)))"
  shows "\<exists>out. syscall sv i s = Some (set_eax i (-1) (s\<lparr>t_out := t_out s @ out\<rparr>))"
  using assms by (auto simp: syscall_def syscalls_def Let_def say_def)

lemma known_call:
  assumes "0 < n" "n \<le> 28" "tf_eax (p_tf (proc_at (t_pt s) i)) = of_nat n"
  shows "syscall sv i s = map_option (\<lambda>(r, s). set_eax i r s) (sv_call sv (the (syscalls ! n)) i s)"
    and "syscalls ! n \<noteq> None"
proof -
  have some: "syscalls ! n \<noteq> None"
  proof -
    have "\<forall>n \<in> set [1..<29]. syscalls ! n \<noteq> None" by code_simp
    with assms(1,2) show ?thesis by simp
  qed
  have u: "unat (of_nat n :: uint) = n" using assms(2) by (simp add: unat_of_nat)
  then have "sint (of_nat n :: uint) = int n" using assms(2) sint_eq_unat [of "of_nat n"] by simp
  with assms u some show "syscall sv i s = map_option (\<lambda>(r, s). set_eax i r s) (sv_call sv (the (syscalls ! n)) i s)"
    by (simp add: syscall_def Let_def) (simp add: syscalls_def)
  show "syscalls ! n \<noteq> None" by (rule some)
qed

end
