(* ===== verification/Machine.thy ===== *)
theory Machine
  imports Trap Boot
begin

text \<open>
  The hardware the kernel finds when it starts: the tables of the multiprocessor specification
  (\<open>mp.c\<close>), the interrupt controller of the I/O bus (\<open>ioapic.c\<close>) and the clock (\<open>cmostime\<close> of
  \<open>lapic.c\<close>). Addresses of tables are physical ones and do not wrap.
\<close>

section \<open>Multiprocessor tables\<close>

definition NCPU :: nat where "NCPU = 8"
definition MPPROC :: byte where "MPPROC = 0"
definition MPBUS :: byte where "MPBUS = 1"
definition MPIOAPIC :: byte where "MPIOAPIC = 2"
definition MPIOINTR :: byte where "MPIOINTR = 3"
definition MPLINTR :: byte where "MPLINTR = 4"

definition mp_sum :: "memory \<Rightarrow> nat \<Rightarrow> nat \<Rightarrow> byte" where
  "mp_sum m addr len = of_nat (fold (\<lambda>i sum. sum + unat (m (addr + i))) [0..<len] 0)"

text \<open>The structure \<open>mp\<close> has 16 bytes: the signature, \<open>physaddr\<close> at 4 and \<open>imcrp\<close> at 12.\<close>

function mpsearch1_loop :: "memory \<Rightarrow> nat \<Rightarrow> nat \<Rightarrow> nat option" where
  "mpsearch1_loop m p e =
     (if p < e then
        if map m [p..<p + 4] = msg ''_MP_'' \<and> mp_sum m p 16 = 0 then Some p else mpsearch1_loop m (p + 16) e
      else None)"
  by pat_completeness auto
termination by (relation "measure (\<lambda>(m, p, e). e - p)") auto

declare mpsearch1_loop.simps [simp del]

definition mpsearch1 :: "memory \<Rightarrow> nat \<Rightarrow> nat \<Rightarrow> nat option" where
  "mpsearch1 m a len = mpsearch1_loop m a (a + len)"

definition mpsearch :: "memory \<Rightarrow> nat option" where
  "mpsearch m =
     (let bda = (\<lambda>i. unat (m (0x400 + i)));
          p = (bda 0x0F * 256 + bda 0x0E) * 16;
          r = (if p \<noteq> 0 then mpsearch1 m p 1024
               else mpsearch1 m ((bda 0x14 * 256 + bda 0x13) * 1024 - 1024) 1024)
      in case r of Some mp \<Rightarrow> Some mp | None \<Rightarrow> mpsearch1 m 0xF0000 0x10000)"

text \<open>The structure \<open>mpconf\<close> has 44 bytes: \<open>length\<close> at 4, \<open>version\<close> at 6, \<open>lapicaddr\<close> at 36.\<close>

definition mpconfig :: "memory \<Rightarrow> (nat \<times> nat) option" where
  "mpconfig m =
     (case mpsearch m of
        None \<Rightarrow> None
      | Some mp \<Rightarrow>
          let conf = mem32 m (mp + 4) in
          if conf = 0 then None
          else if map m [conf..<conf + 4] \<noteq> msg ''PCMP'' then None
          else if m (conf + 6) \<noteq> 1 \<and> m (conf + 6) \<noteq> 4 then None
          else if mp_sum m conf (mem16 m (conf + 4)) \<noteq> 0 then None
          else Some (mp, conf))"

record mpstate =
  mp_cpus :: "byte list"    \<comment> \<open>\<open>cpus[0..<ncpu]\<close>: their \<open>apicid\<close>\<close>
  mp_ioapicid :: byte
  mp_lapic :: nat
  mp_ismp :: bool

definition add_cpu :: "byte \<Rightarrow> mpstate \<Rightarrow> mpstate" where
  "add_cpu apicid s = (if length (mp_cpus s) < NCPU then s\<lparr>mp_cpus := mp_cpus s @ [apicid]\<rparr> else s)"

text \<open>
  The loop of \<open>mpinit\<close> over the entries. The \<open>break\<close> of the last case leaves the \<open>switch\<close> and
  not the loop: \<open>p\<close> stays where it is. The value \<open>None\<close> is a loop that does not end.
\<close>

partial_function (option) mp_entries :: "memory \<Rightarrow> nat \<Rightarrow> nat \<Rightarrow> mpstate \<Rightarrow> mpstate option" where
  "mp_entries m p e s =
     (if p < e then
        if m p = MPPROC then mp_entries m (p + 20) e (add_cpu (m (p + 1)) s)
        else if m p = MPIOAPIC then mp_entries m (p + 8) e (s\<lparr>mp_ioapicid := m (p + 1)\<rparr>)
        else if m p = MPBUS \<or> m p = MPIOINTR \<or> m p = MPLINTR then mp_entries m (p + 8) e s
        else mp_entries m p e (s\<lparr>mp_ismp := False\<rparr>)
      else Some s)"

text \<open>\<open>mpinit\<close>: the state and the bytes written to ports; \<open>imcr\<close> is what port 0x23 holds.\<close>

definition mpinit :: "byte \<Rightarrow> memory \<Rightarrow> mpstate \<Rightarrow> (mpstate \<times> (nat \<times> byte) list) res option" where
  "mpinit imcr m s =
     (case mpconfig m of
        None \<Rightarrow> Some (Inl (Panic ''Expect to run on an SMP''))
      | Some (mp, conf) \<Rightarrow>
          map_option (\<lambda>s.
            if \<not> mp_ismp s then Inl (Panic ''Didnt find a suitable machine'')
            else Inr (s, if m (mp + 12) \<noteq> 0 then [(0x22, 0x70), (0x23, imcr OR 1)] else []))
            (mp_entries m (conf + 44) (conf + mem16 m (conf + 4)) (s\<lparr>mp_ismp := True, mp_lapic := mem32 m (conf + 36)\<rparr>)))"

section \<open>What mpinit finds\<close>

text \<open>A table of entries in memory: entries of processors have 20 bytes, the others 8.\<close>

definition mp_entry :: "byte list \<Rightarrow> bool" where
  "mp_entry b \<longleftrightarrow> (if b ! 0 = MPPROC then length b = 20 else b ! 0 \<in> {MPBUS, MPIOAPIC, MPIOINTR, MPLINTR} \<and> length b = 8)"

definition bytes_at :: "memory \<Rightarrow> nat \<Rightarrow> byte list \<Rightarrow> bool" where
  "bytes_at m p bs \<longleftrightarrow> (\<forall>i < length bs. m (p + i) = bs ! i)"

text \<open>What one entry tells.\<close>

definition entry_effect :: "byte list \<Rightarrow> mpstate \<Rightarrow> mpstate" where
  "entry_effect b s =
     (if b ! 0 = MPPROC then add_cpu (b ! 1) s else if b ! 0 = MPIOAPIC then s\<lparr>mp_ioapicid := b ! 1\<rparr> else s)"

lemma bytes_at_append: "bytes_at m p (a @ b) \<longleftrightarrow> bytes_at m p a \<and> bytes_at m (p + length a) b"
proof
  assume l: "bytes_at m p (a @ b)"
  have "m (p + i) = a ! i" if "i < length a" for i using l [unfolded bytes_at_def, rule_format, of i] that by (simp add: nth_append)
  moreover have "m (p + length a + i) = b ! i" if "i < length b" for i
    using l [unfolded bytes_at_def, rule_format, of "length a + i"] that by (simp add: nth_append add.assoc)
  ultimately show "bytes_at m p a \<and> bytes_at m (p + length a) b" by (simp add: bytes_at_def)
next
  assume r: "bytes_at m p a \<and> bytes_at m (p + length a) b"
  have "m (p + i) = (a @ b) ! i" if "i < length (a @ b)" for i
  proof (cases "i < length a")
    case False
    then have "i - length a < length b" using that by simp
    then have "m (p + length a + (i - length a)) = b ! (i - length a)" using r unfolding bytes_at_def by blast
    with False show ?thesis by (simp add: nth_append)
  qed (use r in \<open>simp add: bytes_at_def nth_append\<close>)
  then show "bytes_at m p (a @ b)" by (simp add: bytes_at_def)
qed

lemma mp_entries_entry:
  assumes "mp_entry b" "bytes_at m p b" "p < e"
  shows "mp_entries m p e s = mp_entries m (p + length b) e (entry_effect b s)"
proof -
  have l: "8 \<le> length b" using assms(1) by (auto simp: mp_entry_def split: if_splits)
  have "0 < length b" "1 < length b" using l by auto
  then have "m (p + 0) = b ! 0" "m (p + 1) = b ! 1" using assms(2) unfolding bytes_at_def by blast+
  then show ?thesis
    using assms(1,3) by (subst mp_entries.simps) (auto simp: mp_entry_def entry_effect_def MPPROC_def MPIOAPIC_def MPBUS_def MPIOINTR_def MPLINTR_def)
qed

lemma mp_entries_table:
  assumes "\<forall>b \<in> set es. mp_entry b" "bytes_at m p (concat es)" "p + length (concat es) \<le> e"
  shows "mp_entries m p e s = mp_entries m (p + length (concat es)) e (fold entry_effect es s)"
  using assms
proof (induction es arbitrary: p s)
  case (Cons b es)
  have l: "0 < length b" using Cons.prems(1) by (auto simp: mp_entry_def split: if_splits)
  have "mp_entries m p e s = mp_entries m (p + length b) e (entry_effect b s)"
  proof (rule mp_entries_entry)
    show "p < e" using Cons.prems(3) l unfolding concat.simps length_append by linarith
  qed (use Cons.prems in \<open>simp_all add: bytes_at_append\<close>)
  also have "\<dots> = mp_entries m (p + length b + length (concat es)) e (fold entry_effect es (entry_effect b s))"
    using Cons.prems by (intro Cons.IH) (auto simp: bytes_at_append)
  finally show ?case by (simp add: add.assoc)
qed simp

text \<open>A kind of entry that \<open>mpinit\<close> does not know: the loop never ends.\<close>

definition known_kind :: "byte \<Rightarrow> bool" where
  "known_kind k \<longleftrightarrow> k = MPPROC \<or> k = MPBUS \<or> k = MPIOAPIC \<or> k = MPIOINTR \<or> k = MPLINTR"

lemma mp_entries_result:
  assumes "mp_entries m p e s = Some t"
  shows "(p < e \<longrightarrow> known_kind (m p)) \<and> mp_ismp t = mp_ismp s"
  using assms
proof (rule mp_entries.raw_induct [where P = "\<lambda>m p e s t. (p < e \<longrightarrow> known_kind (m p)) \<and> mp_ismp t = mp_ismp s", rotated])
  fix rec :: "memory \<Rightarrow> nat \<Rightarrow> nat \<Rightarrow> mpstate \<Rightarrow> mpstate option" and m p e s t
  assume IH: "\<And>m p e s t. rec m p e s = Some t \<Longrightarrow> (p < e \<longrightarrow> known_kind (m p)) \<and> mp_ismp t = mp_ismp s"
    and step: "(if p < e then
        if m p = MPPROC then rec m (p + 20) e (add_cpu (m (p + 1)) s)
        else if m p = MPIOAPIC then rec m (p + 8) e (s\<lparr>mp_ioapicid := m (p + 1)\<rparr>)
        else if m p = MPBUS \<or> m p = MPIOINTR \<or> m p = MPLINTR then rec m (p + 8) e s
        else rec m p e (s\<lparr>mp_ismp := False\<rparr>)
      else Some s) = Some t"
  show "(p < e \<longrightarrow> known_kind (m p)) \<and> mp_ismp t = mp_ismp s"
  proof (cases "p < e \<and> \<not> known_kind (m p)")
    case True
    then have "rec m p e (s\<lparr>mp_ismp := False\<rparr>) = Some t" using step by (auto simp: known_kind_def)
    from IH [OF this] True show ?thesis by simp
  next
    case False
    then show ?thesis using step by (auto dest!: IH simp: add_cpu_def known_kind_def split: if_splits)
  qed
qed

lemma mp_entries_unknown: "p < e \<Longrightarrow> \<not> known_kind (m p) \<Longrightarrow> mp_entries m p e s = None"
  using mp_entries_result by (cases "mp_entries m p e s") blast+

lemma fold_entries:
  "mp_cpus (fold entry_effect es s) =
     mp_cpus s @ take (NCPU - length (mp_cpus s)) (map (\<lambda>b. b ! 1) (filter (\<lambda>b. b ! 0 = MPPROC) es))"
  "mp_ioapicid (fold entry_effect es s) =
     last (mp_ioapicid s # map (\<lambda>b. b ! 1) (filter (\<lambda>b. b ! 0 = MPIOAPIC) es))"
  "mp_ismp (fold entry_effect es s) = mp_ismp s" "mp_lapic (fold entry_effect es s) = mp_lapic s"
proof (induction es arbitrary: s)
  case (Cons b es)
  { case 1 show ?case unfolding fold_simps Cons(1) comp_apply
      by (auto simp: entry_effect_def add_cpu_def MPPROC_def MPIOAPIC_def take_Cons' Suc_diff_le) }
  { case 2 show ?case unfolding fold_simps Cons(2) comp_apply
      by (auto simp: entry_effect_def add_cpu_def MPPROC_def MPIOAPIC_def) }
  { case 3 show ?case unfolding fold_simps Cons(3) comp_apply by (simp add: entry_effect_def add_cpu_def) }
  { case 4 show ?case unfolding fold_simps Cons(4) comp_apply by (simp add: entry_effect_def add_cpu_def) }
qed simp_all

text \<open>
  With a configuration table of known entries \<open>mpinit\<close> returns, with the processors of the table up to
  \<open>NCPU\<close> in their order and its last I/O interrupt controller. The table may end inside the last entry.
\<close>

theorem mpinit_finds:
  assumes "mpconfig m = Some (mp, conf)" "\<forall>b \<in> set es. mp_entry b" "bytes_at m (conf + 44) (concat es)"
    and "conf + mem16 m (conf + 4) = conf + 44 + length (concat es)"
    and "length (mp_cpus s) \<le> NCPU"
  shows "\<exists>t out. mpinit imcr m s = Some (Inr (t, out)) \<and>
    mp_cpus t = take NCPU (mp_cpus s @ map (\<lambda>b. b ! 1) (filter (\<lambda>b. b ! 0 = MPPROC) es)) \<and>
    mp_ioapicid t = last (mp_ioapicid s # map (\<lambda>b. b ! 1) (filter (\<lambda>b. b ! 0 = MPIOAPIC) es)) \<and>
    mp_lapic t = mem32 m (conf + 36)"
proof -
  let ?s = "s\<lparr>mp_ismp := True, mp_lapic := mem32 m (conf + 36)\<rparr>"
  have "mp_entries m (conf + 44) (conf + mem16 m (conf + 4)) ?s
      = mp_entries m (conf + 44 + length (concat es)) (conf + mem16 m (conf + 4)) (fold entry_effect es ?s)"
    by (rule mp_entries_table [OF assms(2,3)]) (simp add: assms(4))
  also have "\<dots> = Some (fold entry_effect es ?s)" unfolding assms(4) by (subst mp_entries.simps) simp
  finally have loop: "mp_entries m (conf + 44) (conf + mem16 m (conf + 4)) ?s = Some (fold entry_effect es ?s)" .
  have "take NCPU (mp_cpus s @ xs) = mp_cpus s @ take (NCPU - length (mp_cpus s)) xs" for xs
    using assms(5) by simp
  with loop assms(1) show ?thesis by (simp add: mpinit_def fold_entries)
qed

text \<open>An entry of another kind: \<open>mpinit\<close> does not return, and the panic meant for this case is not reached.\<close>

theorem mpinit_hangs:
  assumes "mpconfig m = Some (mp, conf)" "\<forall>b \<in> set es. mp_entry b" "bytes_at m (conf + 44) (concat es)"
    and "44 + length (concat es) < mem16 m (conf + 4)"
    and "\<not> known_kind (m (conf + 44 + length (concat es)))"
  shows "mpinit imcr m s = None"
  using assms(1,4) mp_entries_table [OF assms(2,3), of "conf + mem16 m (conf + 4)"] mp_entries_unknown [where m = m, OF _ assms(5)]
  by (simp add: mpinit_def)

lemma no_suitable_panic: "mpinit imcr m s \<noteq> Some (Inl (Panic ''Didnt find a suitable machine''))"
  by (auto simp: mpinit_def dest!: mp_entries_result split: option.split)

section \<open>The I/O interrupt controller\<close>

definition REG_ID :: uint where "REG_ID = 0"
definition REG_VER :: uint where "REG_VER = 1"
definition REG_TABLE :: uint where "REG_TABLE = 0x10"
definition INT_DISABLED :: uint where "INT_DISABLED = 0x10000"

text \<open>The registers, which are written and read through the window of \<open>reg\<close> and \<open>data\<close>.\<close>

type_synonym ioapic = "uint \<Rightarrow> uint"

definition ioapicread :: "uint \<Rightarrow> ioapic \<Rightarrow> uint" where
  "ioapicread reg c = c reg"

definition ioapicwrite :: "uint \<Rightarrow> uint \<Rightarrow> ioapic \<Rightarrow> ioapic" where
  "ioapicwrite reg d c = c(reg := d)"

definition mask_irq :: "nat \<Rightarrow> ioapic \<Rightarrow> ioapic" where
  "mask_irq i c = ioapicwrite (REG_TABLE + 2 * of_nat i + 1) 0
     (ioapicwrite (REG_TABLE + 2 * of_nat i) (INT_DISABLED OR (of_nat T_IRQ0 + of_nat i)) c)"

text \<open>Whether the warning about the id is printed is the first result.\<close>

definition ioapicinit :: "byte \<Rightarrow> ioapic \<Rightarrow> bool \<times> ioapic" where
  "ioapicinit ioapicid c =
     (let maxintr = unat (drop_bit 16 (ioapicread REG_VER c) AND 0xFF);
          id = drop_bit 24 (ioapicread REG_ID c)
      in (id \<noteq> ucast ioapicid, fold mask_irq [0..<maxintr + 1] c))"

definition ioapicenable :: "nat \<Rightarrow> uint \<Rightarrow> ioapic \<Rightarrow> ioapic" where
  "ioapicenable irq cpunum c =
     ioapicwrite (REG_TABLE + 2 * of_nat irq + 1) (push_bit 24 cpunum)
       (ioapicwrite (REG_TABLE + 2 * of_nat irq) (of_nat T_IRQ0 + of_nat irq) c)"

definition masked :: "ioapic \<Rightarrow> nat \<Rightarrow> bool" where
  "masked c i \<longleftrightarrow> c (REG_TABLE + 2 * of_nat i) AND INT_DISABLED \<noteq> 0"

definition irq_vector :: "ioapic \<Rightarrow> nat \<Rightarrow> uint" where
  "irq_vector c i = c (REG_TABLE + 2 * of_nat i) AND 0xFF"

definition table_reg :: "nat \<Rightarrow> uint" where
  "table_reg j = of_nat (16 + j)"

lemma table_reg_eq: "i < 1000 \<Longrightarrow> j < 1000 \<Longrightarrow> table_reg i = table_reg j \<longleftrightarrow> i = j"
proof -
  have u: "unat (table_reg k) = 16 + k" if "k < 1000" for k
    by (rule of_nat_inverse [OF table_reg_def [symmetric]]) (use that in simp)
  assume "i < 1000" "j < 1000"
  then show ?thesis using u [of i] u [of j] by (metis add_left_cancel)
qed

lemma table_regs: "REG_TABLE + 2 * of_nat i = table_reg (2 * i)" "table_reg j + 1 = table_reg (j + 1)"
  by (simp_all add: table_reg_def REG_TABLE_def)

lemma irq_regs:
  "mask_irq i c = c(table_reg (2 * i) := INT_DISABLED OR of_nat (32 + i), table_reg (2 * i + 1) := 0)"
  "ioapicenable i cpu c = c(table_reg (2 * i) := of_nat (32 + i), table_reg (2 * i + 1) := push_bit 24 cpu)"
  by (simp_all only: mask_irq_def ioapicenable_def ioapicwrite_def table_regs T_IRQ0_def of_nat_add)

lemma mask_irqs:
  assumes "j < n" "n \<le> 256"
  shows "fold mask_irq [0..<n] c (table_reg (2 * j)) = INT_DISABLED OR of_nat (32 + j)"
    "fold mask_irq [0..<n] c (table_reg (2 * j + 1)) = 0"
  using assms
proof (induction n)
  case (Suc n)
  { case 1
    then show ?case using Suc.IH(1) by (auto simp: irq_regs table_reg_eq less_Suc_eq simp del: of_nat_add) }
  { case 2
    then show ?case using Suc.IH(2) by (auto simp: irq_regs table_reg_eq less_Suc_eq simp del: of_nat_add) }
qed simp_all

text \<open>
  After \<open>ioapicinit\<close> every interrupt is masked and goes to no processor; after \<open>ioapicenable\<close> of one of them
  that one alone is open, with its own vector, and goes to the processor given.
\<close>

lemma ioapic_open:
  assumes "ioapicinit aid c = (warn, c1)" "n = unat (drop_bit 16 (c REG_VER) AND 0xFF)" "irq \<le> n" "i \<le> n"
  shows "masked c1 i" "c1 (REG_TABLE + 2 * of_nat i + 1) = 0"
    "masked (ioapicenable irq cpu c1) i \<longleftrightarrow> i \<noteq> irq"
    "irq_vector (ioapicenable irq cpu c1) irq = of_nat ((32 + irq) mod 256)"
    "ioapicenable irq cpu c1 (REG_TABLE + 2 * of_nat irq + 1) = push_bit 24 cpu"
proof -
  have n: "n \<le> 255"
  proof -
    have "drop_bit 16 (c REG_VER) AND 0xFF \<le> (0xFF :: uint)" by (rule word_and_le1)
    then show ?thesis unfolding assms(2) by (simp add: word_le_nat_alt)
  qed
  have c1: "c1 = fold mask_irq [0..<n + 1] c"
    using assms(1) by (simp only: ioapicinit_def ioapicread_def Let_def assms(2) [symmetric] prod.inject)
  have off: "(INT_DISABLED OR of_nat (32 + j)) AND INT_DISABLED \<noteq> 0" for j
  proof -
    have "bit ((INT_DISABLED OR of_nat (32 + j)) AND INT_DISABLED) 16" by (simp add: bit_simps INT_DISABLED_def)
    then show ?thesis by auto
  qed
  have on: "(of_nat (32 + irq) :: uint) AND INT_DISABLED = 0"
  proof (rule bit_word_eqI)
    fix k assume "k < LENGTH(32)"
    show "bit ((of_nat (32 + irq) :: uint) AND INT_DISABLED) k = bit 0 k"
    proof (cases "k = 16")
      case True
      have "(32 + irq) div 65536 = 0" using n assms(3) by simp
      then have "\<not> bit (32 + irq) 16" by (simp add: bit_iff_odd)
      with True show ?thesis by (simp add: bit_simps del: of_nat_add)
    next
      case False
      have d: "INT_DISABLED = push_bit 16 1" by (simp add: INT_DISABLED_def)
      show ?thesis using False by (simp only: d bit_and_iff bit_push_bit_iff bit_1_iff) auto
    qed
  qed
  note r = mask_irqs [of _ "n + 1" c, folded c1]
  show "masked c1 i" using r(1) [of i] off n assms(4) by (simp add: masked_def table_regs)
  show "c1 (REG_TABLE + 2 * of_nat i + 1) = 0" using r(2) [of i] n assms(4) unfolding table_regs by simp
  show "masked (ioapicenable irq cpu c1) i \<longleftrightarrow> i \<noteq> irq"
    using r(1) [of i] off on n assms(3,4) by (auto simp: masked_def table_regs irq_regs table_reg_eq simp del: of_nat_add)
  show "ioapicenable irq cpu c1 (REG_TABLE + 2 * of_nat irq + 1) = push_bit 24 cpu"
    unfolding table_regs irq_regs by simp
  have "(of_nat (32 + irq) :: uint) AND 0xFF = of_nat ((32 + irq) mod 256)"
  proof -
    have m: "(0xFF :: uint) = mask 8" by (simp add: mask_eq_exp_minus_1)
    have "(of_nat (32 + irq) :: uint) AND mask 8 = take_bit 8 (of_nat (32 + irq))" by (simp only: take_bit_eq_mask)
    also have "\<dots> = of_nat (take_bit 8 (32 + irq))" by (simp only: take_bit_of_nat)
    finally show ?thesis unfolding m by (simp add: take_bit_eq_mod)
  qed
  then show "irq_vector (ioapicenable irq cpu c1) irq = of_nat ((32 + irq) mod 256)"
    using n assms(3) by (simp add: irq_vector_def table_regs irq_regs table_reg_eq del: of_nat_add)
qed

section \<open>The clock\<close>

definition CMOS_STATA :: uint where "CMOS_STATA = 0x0a"
definition CMOS_STATB :: uint where "CMOS_STATB = 0x0b"
definition CMOS_UIP :: uint where "CMOS_UIP = 0x80"

record rtcdate =
  second :: uint
  minute :: uint
  hour :: uint
  day :: uint
  month :: uint
  year :: uint

text \<open>The clock runs on: \<open>clk t reg\<close> is what register \<open>reg\<close> holds at the \<open>t\<close>-th reading of the program.\<close>

type_synonym clock = "nat \<Rightarrow> uint \<Rightarrow> byte"

definition cmos_read :: "clock \<Rightarrow> uint \<Rightarrow> nat \<Rightarrow> uint \<times> nat" where
  "cmos_read clk reg t = (ucast (clk t reg), t + 1)"

definition fill_rtcdate :: "clock \<Rightarrow> nat \<Rightarrow> rtcdate \<times> nat" where
  "fill_rtcdate clk t =
     (let (s, t) = cmos_read clk 0 t; (mi, t) = cmos_read clk 2 t; (h, t) = cmos_read clk 4 t;
          (d, t) = cmos_read clk 7 t; (mo, t) = cmos_read clk 8 t; (y, t) = cmos_read clk 9 t
      in (\<lparr>second = s, minute = mi, hour = h, day = d, month = mo, year = y\<rparr>, t))"

partial_function (option) cmos_loop :: "clock \<Rightarrow> nat \<Rightarrow> rtcdate option" where
  "cmos_loop clk t =
     (let (t1, t) = fill_rtcdate clk t; (st, t) = cmos_read clk CMOS_STATA t in
      if st AND CMOS_UIP \<noteq> 0 then cmos_loop clk t
      else let (t2, t) = fill_rtcdate clk t in if t1 = t2 then Some t1 else cmos_loop clk t)"

definition conv :: "uint \<Rightarrow> uint" where
  "conv x = drop_bit 4 x * 10 + (x AND 0xf)"

definition cmostime :: "clock \<Rightarrow> rtcdate option" where
  "cmostime clk =
     (let (sb, t) = cmos_read clk CMOS_STATB 0; bcd = (sb AND 4 = 0) in
      map_option (\<lambda>t1.
        let t1 = (if bcd then \<lparr>second = conv (second t1), minute = conv (minute t1), hour = conv (hour t1),
                    day = conv (day t1), month = conv (month t1), year = conv (year t1)\<rparr> else t1)
        in t1\<lparr>year := year t1 + 2000\<rparr>) (cmos_loop clk t))"

text \<open>Two decimal digits in a byte, as the clock holds them.\<close>

definition bcd_byte :: "nat \<Rightarrow> byte" where
  "bcd_byte n = of_nat (16 * (n div 10) + n mod 10)"

lemma conv_bcd: "n < 100 \<Longrightarrow> conv (ucast (bcd_byte n)) = of_nat n"
proof -
  have "\<forall>n \<in> set [0..<100]. conv (ucast (bcd_byte n)) = of_nat n" by code_simp
  then show "n < 100 \<Longrightarrow> ?thesis" by simp
qed

text \<open>A clock that shows a date without being changed under the reader's hands: \<open>cmostime\<close> returns that date.\<close>

lemma cmostime_reads:
  assumes "\<And>t reg. clk t reg = c reg" "c CMOS_STATA AND 0x80 = 0" "c CMOS_STATB AND 4 = 0"
    and "c 0 = bcd_byte se" "c 2 = bcd_byte mi" "c 4 = bcd_byte ho" "c 7 = bcd_byte da" "c 8 = bcd_byte mo" "c 9 = bcd_byte ye"
    and "se < 60" "mi < 60" "ho < 24" "da < 32" "mo < 13" "ye < 100"
  shows "cmostime clk = Some \<lparr>second = of_nat se, minute = of_nat mi, hour = of_nat ho, day = of_nat da,
    month = of_nat mo, year = of_nat (ye + 2000)\<rparr>"
proof -
  have a: "(ucast (c CMOS_STATA) :: uint) AND CMOS_UIP = 0" "(ucast (c CMOS_STATB) :: uint) AND 4 = 0"
  proof -
    have "(ucast (c CMOS_STATA AND 0x80) :: uint) = 0" "(ucast (c CMOS_STATB AND 4) :: uint) = 0" using assms(2,3) by simp_all
    then show "(ucast (c CMOS_STATA) :: uint) AND CMOS_UIP = 0" "(ucast (c CMOS_STATB) :: uint) AND 4 = 0"
      by (simp_all add: CMOS_UIP_def unsigned_and_eq)
  qed
  have "cmos_loop clk t = Some (fst (fill_rtcdate clk t))" for t
    by (subst cmos_loop.simps) (simp add: fill_rtcdate_def cmos_read_def assms(1) a)
  then show ?thesis
    using a(2) assms(4-) by (simp add: cmostime_def cmos_read_def fill_rtcdate_def assms(1) conv_bcd)
qed

end
