(* ===== verification/Memide.thy ===== *)
theory Memide
  imports Bio
begin

text \<open>
  The disk driver that keeps the blocks in memory (\<open>memide.c\<close>), in place of \<open>ide.c\<close>: the
  image that the linker put into the kernel is a list of bytes.
\<close>

definition disksize :: "byte list \<Rightarrow> nat" where
  "disksize memdisk = length memdisk div 512"

definition memide_iderw :: "nat \<Rightarrow> byte list \<times> bcache \<Rightarrow> (byte list \<times> bcache) res" where
  "memide_iderw i = (\<lambda>(memdisk, bc).
     let b = bufs bc ! i in
     if \<not> holdingsleep (b_lock b) then Inl (Panic ''iderw: buf not locked'')
     else if b_valid b \<and> \<not> b_dirty b then Inl (Panic ''iderw: nothing to do'')
     else if b_dev b \<noteq> 1 then Inl (Panic ''iderw: request not for disk 1'')
     else if disksize memdisk \<le> unat (b_blockno b) then Inl (Panic ''iderw: block out of range'')
     else
       let p = unat (b_blockno b) * 512 in
       if b_dirty b then
         Inr (take p memdisk @ take 512 (b_data b) @ drop (p + 512) memdisk,
              set_buf i (\<lambda>b. b\<lparr>b_valid := True, b_dirty := False\<rparr>) bc)
       else Inr (memdisk, set_buf i (\<lambda>b. b\<lparr>b_data := take 512 (drop p memdisk), b_valid := True\<rparr>) bc))"

text \<open>The media the image stands for: drive 1, sector by sector.\<close>

definition media_of :: "byte list \<Rightarrow> media" where
  "media_of memdisk = (\<lambda>(d, s). if d = 1 \<and> unat s < disksize memdisk then take 512 (drop (unat s * 512) memdisk) else [])"

text \<open>
  The driver in memory does what \<open>iderw\<close> of \<open>ide.c\<close> does to a drive: on buffers of drive 1, for
  blocks the image has, both give the same buffers, and media that hold the same.
\<close>

theorem memide_is_a_drive:
  assumes "b_dev (bufs bc ! i) = 1" "unat (b_blockno (bufs bc ! i)) < disksize memdisk" "disksize memdisk \<le> unat FSSIZE"
    and "length (b_data (bufs bc ! i)) = 512"
  shows "mapE (\<lambda>(m, bc). (media_of m, bc)) (memide_iderw i (memdisk, bc)) = iderw i (media_of memdisk, bc)"
proof -
  let ?b = "bufs bc ! i" and ?n = "unat (b_blockno (bufs bc ! i))"
  have fs: "\<not> FSSIZE \<le> b_blockno ?b" using assms(2,3) by (simp add: word_le_nat_alt)
  have len: "?n * 512 + 512 \<le> length memdisk"
  proof -
    have "Suc ?n * 512 \<le> disksize memdisk * 512" using assms(2) by (intro mult_le_mono1) simp
    also have "\<dots> \<le> length memdisk" by (simp add: disksize_def)
    finally show ?thesis by simp
  qed
  let ?m = "take (?n * 512) memdisk @ b_data ?b @ drop (?n * 512 + 512) memdisk"
  have size: "length ?m = length memdisk" using len assms(4) by simp
  have put: "media_of ?m = (media_of memdisk)((1, b_blockno ?b) := b_data ?b)"
  proof (rule ext)
    fix x :: "uint \<times> uint"
    obtain d s where x: "x = (d, s)" by (cases x)
    show "media_of ?m x = ((media_of memdisk)((1, b_blockno ?b) := b_data ?b)) x"
    proof (cases "d = 1 \<and> unat s < disksize memdisk")
      case False
      then show ?thesis using assms(2) unfolding x media_of_def disksize_def size by auto
    next
      case True
      consider "unat s < ?n" | "unat s = ?n" | "?n < unat s" by linarith
      then have "take 512 (drop (unat s * 512) ?m) = (if s = b_blockno ?b then b_data ?b else take 512 (drop (unat s * 512) memdisk))"
      proof cases
        case 1
        then have "unat s * 512 + 512 \<le> ?n * 512" by simp
        then show ?thesis using 1 len by (auto simp: take_drop min_def)
      next
        case 2
        then show ?thesis using len assms(4) by (simp add: word_unat_eq_iff)
      next
        case 3
        then have "unat s * 512 = ?n * 512 + 512 + (unat s * 512 - (?n * 512 + 512))" by simp
        then obtain k where "unat s * 512 = ?n * 512 + 512 + k" ..
        then show ?thesis using 3 len assms(4) by (auto simp: add.commute)
      qed
      then show ?thesis using True unfolding x media_of_def disksize_def size by auto
    qed
  qed
  have same: "media_of memdisk (1, b_blockno ?b) = take 512 (drop (?n * 512) memdisk)" using assms(2) by (simp add: media_of_def)
  have clean: "set_buf i (\<lambda>b. b\<lparr>b_data := x, b_valid := True\<rparr>) bc = set_buf i (\<lambda>b. b\<lparr>b_data := x, b_valid := True, b_dirty := False\<rparr>) bc"
    if "\<not> b_dirty ?b" for x
  proof -
    have "b\<lparr>b_data := x, b_valid := True\<rparr> = b\<lparr>b_data := x, b_valid := True, b_dirty := False\<rparr>" if "\<not> b_dirty b" for b :: buf
      using that by (cases b) simp
    from this [OF that] show ?thesis unfolding set_buf_def by (rule arg_cong [where f = "\<lambda>v. bc\<lparr>bufs := (bufs bc)[i := v]\<rparr>"])
  qed
  show ?thesis
    using assms fs put same clean by (auto simp: memide_iderw_def iderw_def Let_def)
qed

end
