(* ===== verification/Descriptors.thy ===== *)
theory Descriptors
  imports Process
begin

text \<open>
  Descriptors and open files over all system calls: how often an open file is referred to, and
  that a descriptor never refers to anything but an open pipe or inode. The calls are those of
  \<open>Sysfile\<close>, \<open>Exec\<close> and \<open>Process\<close>; a call that has to wait is not a step, it has its effect
  when it goes on.
\<close>

section \<open>What the calls leave alone\<close>

text \<open>The descriptor tables, which entries of the process table hold none, and the open files.\<close>

definition tables :: "kern \<Rightarrow> nat option list list" where
  "tables s = map p_ofile (procs (k_pt s))"

definition idle :: "proc \<Rightarrow> bool" where
  "idle p \<longleftrightarrow> p_state p = UNUSED \<or> p_state p = ZOMBIE"

definition idles :: "kern \<Rightarrow> bool list" where
  "idles s = map idle (procs (k_pt s))"

definition same :: "kern \<Rightarrow> kern \<Rightarrow> bool" where
  "same s t \<longleftrightarrow> tables t = tables s \<and> idles t = idles s \<and>
     map f_ref (k_ft t) = map f_ref (k_ft s) \<and> map f_type (k_ft t) = map f_type (k_ft s)"

lemma same_refl [simp]: "same s s"
  by (simp add: same_def)

lemma same_trans: "same s t \<Longrightarrow> same t u \<Longrightarrow> same s u"
  by (simp add: same_def)

text \<open>Changes of a process that concern neither its descriptors nor its being in use.\<close>

lemma same_procs:
  assumes "length (procs pt') = length (procs (k_pt s))"
    and "\<And>i. i < length (procs pt') \<Longrightarrow> p_ofile (procs pt' ! i) = p_ofile (procs (k_pt s) ! i) \<and>
      idle (procs pt' ! i) = idle (procs (k_pt s) ! i)"
  shows "same s (s\<lparr>k_pt := pt'\<rparr>)"
  using assms by (auto simp: same_def tables_def idles_def intro!: nth_equalityI)

lemma same_set_my [simp]:
  "(\<And>p. p_ofile (f p) = p_ofile p \<and> idle (f p) = idle p) \<Longrightarrow> same u (set_my i f s) = same u s"
proof -
  assume "\<And>p. p_ofile (f p) = p_ofile p \<and> idle (f p) = idle p"
  then have "same s (set_my i f s)" unfolding set_my_def by (intro same_procs) (auto simp: nth_update)
  then show ?thesis by (auto simp: same_def)
qed

lemma same_set_file [simp]:
  "(\<And>f. f_ref (g f) = f_ref f \<and> f_type (g f) = f_type f) \<Longrightarrow> same u (set_file i g s) = same u s"
proof -
  assume "\<And>f. f_ref (g f) = f_ref f \<and> f_type (g f) = f_type f"
  then have "same s (set_file i g s)"
    by (auto simp: same_def set_file_def tables_def idles_def nth_update intro!: nth_equalityI)
  then show ?thesis by (auto simp: same_def)
qed

lemma same_wakeup [simp]: "pt = k_pt s \<Longrightarrow> same u (s\<lparr>k_pt := wakeup ch pt\<rparr>) = same u s"
proof -
  have "same s (s\<lparr>k_pt := wakeup ch (k_pt s)\<rparr>)" by (rule same_procs) (auto simp: wakeup_nth idle_def)
  then show "pt = k_pt s \<Longrightarrow> ?thesis" by (auto simp: same_def)
qed

lemma idle_more [simp]:
  "idle (p\<lparr>p_chan := c\<rparr>) = idle p" "idle (p\<lparr>p_sz := n\<rparr>) = idle p" "idle (p\<lparr>p_pgdir := n\<rparr>) = idle p"
  "idle (p\<lparr>p_kstack := n\<rparr>) = idle p" "idle (p\<lparr>p_tf := tf\<rparr>) = idle p" "idle (p\<lparr>p_cwd := d\<rparr>) = idle p"
  "idle (p\<lparr>p_name := m\<rparr>) = idle p" "idle (p\<lparr>p_osem := os\<rparr>) = idle p" "idle (p\<lparr>p_ofile := ofs\<rparr>) = idle p"
  "idle (p\<lparr>p_parent := q\<rparr>) = idle p" "idle (p\<lparr>p_killed := b\<rparr>) = idle p" "idle (p\<lparr>p_context := cx\<rparr>) = idle p"
  by (simp_all add: idle_def)

lemma same_simps [simp]:
  "same s (t\<lparr>k_fs := x\<rparr>) = same s t" "same s (t\<lparr>k_km := k\<rparr>) = same s t"
  "same s (t\<lparr>k_um := u\<rparr>) = same s t" "same s (t\<lparr>k_pipes := ps\<rparr>) = same s t"
  "same (s\<lparr>k_fs := x\<rparr>) t = same s t" "same (s\<lparr>k_km := k\<rparr>) t = same s t"
  "same (s\<lparr>k_um := u\<rparr>) t = same s t" "same (s\<lparr>k_pipes := ps\<rparr>) t = same s t"
  by (auto simp: same_def tables_def idles_def)

text \<open>What an operation gives, if it gives a result, has the same tables.\<close>

named_theorems keeps

definition keeps :: "kern \<Rightarrow> ('r \<Rightarrow> kern) \<Rightarrow> 'r res \<Rightarrow> bool" where
  "keeps s out m \<longleftrightarrow> (\<forall>r. m = Inr r \<longrightarrow> same s (out r))"


lemma keepsD: "keeps s out m \<Longrightarrow> m = Inr r \<Longrightarrow> same s (out r)"
  by (simp add: keeps_def)

lemma keeps_same: "same u s \<Longrightarrow> keeps s out m \<Longrightarrow> keeps u out m"
  by (auto simp: keeps_def intro: same_trans)

lemma keeps_Inl [keeps, simp]: "keeps s out (Inl e)"
  by (simp add: keeps_def)

lemma keeps_Inr [keeps]: "same s (out r) \<Longrightarrow> keeps s out (Inr r)"
  by (simp add: keeps_def)

lemma keeps_bind [keeps]:
  "keeps s id m \<Longrightarrow> (\<And>t. keeps t out (f t)) \<Longrightarrow> keeps s out (bindE m f)"
  by (cases m) (auto simp: keeps_def intro: same_trans)

lemma keeps_bind2 [keeps]:
  "keeps s snd m \<Longrightarrow> (\<And>x t. keeps t out (f (x, t))) \<Longrightarrow> keeps s out (bindE m f)"
  by (cases m) (auto simp: keeps_def intro: same_trans)

lemma keeps_bind_value [keeps]:
  fixes m :: "int res" and m' :: "byte list res" and m'' :: "unit res" and m\<^sub>3 :: "(int \<times> byte list \<times> fs) res"
  shows "(\<And>r. keeps s out (f r)) \<Longrightarrow> keeps s out (bindE m f)"
    and "(\<And>r. keeps s out (f' r)) \<Longrightarrow> keeps s out (bindE m' f')"
    and "(\<And>r. keeps s out (f'' r)) \<Longrightarrow> keeps s out (bindE m'' f'')"
    and "(\<And>r bs t. keeps s out (g (r, bs, t))) \<Longrightarrow> keeps s out (bindE m\<^sub>3 g)"
  by (auto simp: keeps_def)

lemma keeps_map [keeps]:
  "keeps s id m \<Longrightarrow> (\<And>t. same t (out (f t))) \<Longrightarrow> keeps s out (mapE f m)"
  by (cases m) (auto simp: keeps_def intro: same_trans)

lemma keeps_map2 [keeps]:
  "keeps s snd m \<Longrightarrow> (\<And>x t. same t (out (f (x, t)))) \<Longrightarrow> keeps s out (mapE f m)"
  by (cases m) (auto simp: keeps_def intro: same_trans)

lemma keeps_split [keeps]:
  "(b \<Longrightarrow> keeps s out m) \<Longrightarrow> (\<not> b \<Longrightarrow> keeps s out n) \<Longrightarrow> keeps s out (if b then m else n)"
  "(x = None \<Longrightarrow> keeps s out m) \<Longrightarrow> (\<And>y. x = Some y \<Longrightarrow> keeps s out (f y)) \<Longrightarrow> keeps s out (case x of None \<Rightarrow> m | Some y \<Rightarrow> f y)"
  "(\<And>a b. p = (a, b) \<Longrightarrow> keeps s out (g a b)) \<Longrightarrow> keeps s out (case p of (a, b) \<Rightarrow> g a b)"
  "(\<And>a b. p = (a, b) \<Longrightarrow> keeps s out (g' a b t)) \<Longrightarrow> keeps s out ((case p of (a, b) \<Rightarrow> g' a b) t)"
  "keeps s out (h y) \<Longrightarrow> keeps s out (Let y h)"
  by (auto simp: keeps_def split: option.splits prod.splits)

lemma keeps_on [keeps]:
  "same u s \<Longrightarrow> keeps u id (on_fs f s)" "same u s \<Longrightarrow> keeps u snd (on_fs2 g s)"
  "same u s \<Longrightarrow> keeps u id (on_km h s)" "same u s \<Longrightarrow> keeps u snd (on_km2 k s)"
  by (auto simp: keeps_def on_fs_def on_fs2_def on_km_def on_km2_def)

section \<open>Calls that open and close nothing\<close>

lemma begin_op_keeps [keeps]: "same u s \<Longrightarrow> keeps u id (begin_op me s)"
  by (auto simp: keeps_def begin_op_def begin_op_round_def Let_def split: if_splits)

lemma end_op_keeps [keeps]: "same u s \<Longrightarrow> keeps u id (end_op s)"
  by (auto simp: keeps_def end_op_def end_op_begin_def end_op_finish_def Let_def split: if_splits prod.splits)

lemma finish_op_keeps [keeps]: "same u s \<Longrightarrow> keeps u snd (finish_op r s)"
  unfolding finish_op_def by (intro keeps) simp_all

lemma path_keeps [keeps]:
  "same u s \<Longrightarrow> keeps u snd (lookup_path dv me path s)" "same u s \<Longrightarrow> keeps u snd (lookup_parent dv me path s)"
  "same u s \<Longrightarrow> keeps u id (lock_inode me i s)" "same u s \<Longrightarrow> keeps u id (change_inode i f s)"
  unfolding lookup_path_def lookup_parent_def lock_inode_def change_inode_def by (intro keeps; simp)+

lemma link_keeps [keeps]:
  "same u s \<Longrightarrow> keeps u snd (link_bad me ip s)" "same u s \<Longrightarrow> keeps u snd (sys_link dv me s)"
  unfolding link_bad_def sys_link_def by (intro keeps; simp)+

lemma unlink_keeps [keeps]:
  "same u s \<Longrightarrow> keeps u snd (unlink_bad dp s)" "same u s \<Longrightarrow> keeps u snd (unlink_entry dv dp ip off s)"
  "same u s \<Longrightarrow> keeps u snd (sys_unlink dv me s)"
  unfolding unlink_bad_def unlink_entry_def sys_unlink_def by (intro keeps; simp)+

lemma create_keeps [keeps]:
  "same u s \<Longrightarrow> keeps u snd (create_new dv me dp name ty major minor s)"
  "same u s \<Longrightarrow> keeps u snd (create dv me path ty major minor s)"
  unfolding create_new_def create_def by (intro keeps; simp)+

lemma mkdir_keeps [keeps]:
  "same u s \<Longrightarrow> keeps u snd (sys_mkdir dv me s)" "same u s \<Longrightarrow> keeps u snd (sys_mknod dv me s)"
  "same u s \<Longrightarrow> keeps u snd (sys_chdir dv me s)"
  unfolding sys_mkdir_def sys_mknod_def sys_chdir_def by (intro keeps; simp)+

lemma stat_keeps [keeps]:
  "same u s \<Longrightarrow> keeps u snd (filestat me i s)" "same u s \<Longrightarrow> keeps u snd (sys_fstat me s)"
proof -
  show st: "same u s \<Longrightarrow> keeps u snd (filestat me i s)" for s i
    unfolding filestat_def by (intro keeps; simp)
  show "same u s \<Longrightarrow> keeps u snd (sys_fstat me s)"
    unfolding sys_fstat_def put_stat_def store_bytes_def
    by (intro keeps st; (simp split: option.split)?)
qed

lemma pipe_io_keeps [keeps]:
  "same u s \<Longrightarrow> keeps u (\<lambda>(r, bs, t). t) (piperead me a n s)"
  "same u s \<Longrightarrow> keeps u snd (pipewrite me a cs s)"
proof -
  show "same u s \<Longrightarrow> keeps u (\<lambda>(r, bs, t). t) (piperead me a n s)"
    by (auto simp: keeps_def piperead_def piperead_round_def Let_def split: if_splits prod.splits read_end.splits)
  have "pipewrite_round me a cs (p, pt) = (r, p', pt') \<Longrightarrow> (\<forall>ds. r \<noteq> WriteSleep ds) \<Longrightarrow> pt' = pt \<or> pt' = wakeup (PipeReadChan a) pt"
    for r p p' pt pt'
    by (induction cs arbitrary: p) (auto split: if_splits)
  then show "same u s \<Longrightarrow> keeps u snd (pipewrite me a cs s)"
    by (fastforce simp: keeps_def pipewrite_def Let_def split: prod.splits write_end.splits)
qed

lemma write_keeps: "same u s \<Longrightarrow> keeps u snd (filewrite_loop dv me i src s)"
proof (induction src arbitrary: s u rule: length_induct)
  case (1 src)
  have IH: "same u s \<Longrightarrow> keeps u snd (filewrite_loop dv me i (drop (min (length src) write_max) src) s)" if "src \<noteq> []" for s u
    using 1(1) that by (auto simp: write_max_def LOGSIZE_def)
  show ?case by (subst filewrite_loop.simps) (intro keeps IH; simp add: 1(2))
qed

lemma read_write_keeps [keeps]:
  "same u s \<Longrightarrow> keeps u (\<lambda>(r, bs, t). t) (fileread dv me i n s)"
  "same u s \<Longrightarrow> keeps u snd (filewrite dv me i src s)"
proof -
  show "same u s \<Longrightarrow> keeps u (\<lambda>(r, bs, t). t) (fileread dv me i n s)"
    unfolding fileread_def
    by (cases "f_type (file_at s i)") (auto simp: Let_def intro!: keeps split: ftype.split)
  show "same u s \<Longrightarrow> keeps u snd (filewrite dv me i src s)"
    unfolding filewrite_def
    by (cases "f_type (file_at s i)") (auto simp: Let_def intro!: keeps write_keeps)
qed

lemma sys_read_write_keeps [keeps]:
  "same u s \<Longrightarrow> keeps u snd (sys_read dv me s)" "same u s \<Longrightarrow> keeps u snd (sys_write dv me s)"
proof -
  have store: "keeps u snd (mapE (\<lambda>(r, bs, s). (r, store_bytes p bs s)) m)" if "keeps u (\<lambda>(r, bs, t). t) m"
    for m :: "(int \<times> byte list \<times> kern) res" and u p
    using that by (cases m) (auto simp: keeps_def store_bytes_def)
  show "same u s \<Longrightarrow> keeps u snd (sys_read dv me s)" unfolding sys_read_def by (intro keeps store; simp)
  show "same u s \<Longrightarrow> keeps u snd (sys_write dv me s)" unfolding sys_write_def by (intro keeps; simp)
qed

section \<open>Memory\<close>

lemma read_inode_keeps [keeps]: "same u s \<Longrightarrow> keeps u snd (read_inode dv ip off n s)"
  unfolding read_inode_def by (intro keeps)

lemma loaduvm_keeps: "same u s \<Longrightarrow> keeps u snd (loaduvm_loop dv pgdir addr ip off i sz s)"
proof (induction "sz - i" arbitrary: i s u rule: less_induct)
  case less
  have IH: "same u s \<Longrightarrow> keeps u snd (loaduvm_loop dv pgdir addr ip off (i + 4096) sz s)" if "i < sz" for s u
    using less.hyps that by simp
  show ?case by (subst loaduvm_loop.simps) (intro keeps IH; simp add: less.prems)
qed

lemma exec_steps_keep [keeps]:
  "same u s \<Longrightarrow> keeps u snd (load_segments kend dv pgdir ip n off sz s)"
  "same u s \<Longrightarrow> keeps u snd (push_args pgdir argc as sp s)"
proof -
  show "same u s \<Longrightarrow> keeps u snd (load_segments kend dv pgdir ip n off sz s)"
  proof (induction n arbitrary: off sz s u)
    case (Suc n)
    then show ?case unfolding load_segments.simps loaduvm_def by (intro keeps Suc.IH loaduvm_keeps; simp)
  qed (simp add: keeps_def)
  show "same u s \<Longrightarrow> keeps u snd (push_args pgdir argc as sp s)"
  proof (induction as arbitrary: argc sp s u)
    case (Cons a as)
    then show ?case unfolding push_args.simps by (intro keeps Cons.IH; simp)
  qed (simp add: keeps_def)
qed

lemma exec_bad_keeps [keeps]: "same u s \<Longrightarrow> keeps u snd (exec_bad kend pgdir ip s)"
  unfolding exec_bad_def by (intro keeps; simp)

lemma exec_commit_keeps [keeps]: "same u s \<Longrightarrow> keeps u snd (exec_commit kend me path pgdir sz entry sp s)"
  unfolding exec_commit_def by (intro keeps; simp)

lemma push_stack_keeps [keeps]: "same u s \<Longrightarrow> keeps u snd (push_stack pgdir argv sz s)"
  unfolding push_stack_def by (intro keeps; simp)

lemma exec_stack_keeps [keeps]: "same u s \<Longrightarrow> keeps u snd (exec_stack kend me path argv pgdir entry sz s)"
  unfolding exec_stack_def by (intro keeps; simp)

lemma exec_keeps [keeps]: "same u s \<Longrightarrow> keeps u snd (sys_exec kend kdata dv me s)"
  unfolding sys_exec_def exec_def by (intro keeps; simp)

lemma sbrk_keeps [keeps]: "same u s \<Longrightarrow> keeps u snd (sys_sbrk kend me s)"
  unfolding sys_sbrk_def growproc_def by (intro keeps; simp)

end
