(* ===== verification/File_References.thy ===== *)
theory File_References
  imports Descriptors
begin

text \<open>
  The reference counts of open files. \<open>files_inv d U s\<close> says that each count is the number of
  descriptors plus \<open>d\<close>, the references a call in progress holds in its variables (negative
  where a descriptor is still there whose reference is given back already); files of \<open>U\<close> may
  not have got a type yet. Between calls \<open>d\<close> is 0 and \<open>U\<close> is empty.
\<close>

section \<open>The invariant\<close>

definition files_inv :: "(nat \<Rightarrow> int) \<Rightarrow> nat set \<Rightarrow> kern \<Rightarrow> bool" where
  "files_inv d U s \<longleftrightarrow>
     (\<forall>ds \<in> set (tables s). length ds = NOFILE) \<and>
     (\<forall>f < length (k_ft s). f_ref (file_at s f) = int (desc (tables s) f) + d f) \<and>
     (\<forall>ds \<in> set (tables s). \<forall>f. Some f \<in> set ds \<longrightarrow> f < length (k_ft s)) \<and>
     (\<forall>f < length (k_ft s). f_ref (file_at s f) = 0 \<or> f_type (file_at s f) \<noteq> FD_NONE \<or> f \<in> U) \<and>
     (\<forall>i < length (procs (k_pt s)). idle (my_proc i s) \<longrightarrow> set (p_ofile (my_proc i s)) \<subseteq> {None})"

abbreviation files_ok :: "kern \<Rightarrow> bool" where
  "files_ok s \<equiv> files_inv (\<lambda>_. 0) {} s"

definition active :: "nat \<Rightarrow> kern \<Rightarrow> bool" where
  "active me s \<longleftrightarrow> me < length (procs (k_pt s)) \<and> \<not> idle (my_proc me s)"

lemma tables_nth: "i < length (procs (k_pt s)) \<Longrightarrow> tables s ! i = p_ofile (my_proc i s)"
  by (simp add: tables_def)

lemma same_nth:
  assumes "same s t"
  shows "length (k_ft t) = length (k_ft s)" "length (procs (k_pt t)) = length (procs (k_pt s))"
    and "f < length (k_ft s) \<Longrightarrow> f_ref (file_at t f) = f_ref (file_at s f)"
    and "f < length (k_ft s) \<Longrightarrow> f_type (file_at t f) = f_type (file_at s f)"
    and "i < length (procs (k_pt s)) \<Longrightarrow> p_ofile (my_proc i t) = p_ofile (my_proc i s)"
    and "i < length (procs (k_pt s)) \<Longrightarrow> idle (my_proc i t) = idle (my_proc i s)"
proof -
  show l: "length (k_ft t) = length (k_ft s)" "length (procs (k_pt t)) = length (procs (k_pt s))"
    using assms by (auto simp: same_def tables_def dest: map_eq_imp_length_eq)
  have "map f_ref (k_ft t) ! f = map f_ref (k_ft s) ! f" "map f_type (k_ft t) ! f = map f_type (k_ft s) ! f"
    "tables t ! i = tables s ! i" "idles t ! i = idles s ! i"
    using assms by (simp_all add: same_def)
  then show "f < length (k_ft s) \<Longrightarrow> f_ref (file_at t f) = f_ref (file_at s f)"
    and "f < length (k_ft s) \<Longrightarrow> f_type (file_at t f) = f_type (file_at s f)"
    and "i < length (procs (k_pt s)) \<Longrightarrow> p_ofile (my_proc i t) = p_ofile (my_proc i s)"
    and "i < length (procs (k_pt s)) \<Longrightarrow> idle (my_proc i t) = idle (my_proc i s)"
    using l by (simp_all add: tables_def idles_def)
qed

lemma files_inv_same: "same s t \<Longrightarrow> files_inv d U s \<Longrightarrow> files_inv d U t"
  unfolding files_inv_def by (auto simp: same_nth) (auto simp: same_def)

lemma active_same: "same s t \<Longrightarrow> active me s \<Longrightarrow> active me t"
  by (simp add: active_def same_nth)

lemma files_inv_mono: "files_inv d U s \<Longrightarrow> (\<And>f. f < length (k_ft s) \<Longrightarrow> d f = e f) \<Longrightarrow> U \<subseteq> V \<Longrightarrow> files_inv e V s"
  by (auto simp: files_inv_def)

lemma files_inv_untyped:
  "files_inv d (insert f U) s \<Longrightarrow> f_ref (file_at s f) = 0 \<or> f_type (file_at s f) \<noteq> FD_NONE \<Longrightarrow> files_inv d U s"
  by (auto simp: files_inv_def)

lemma files_inv_view:
  assumes "files_inv d U s" "tables t = tables s" "k_ft t = k_ft s"
    and "\<And>i. i < length (procs (k_pt t)) \<Longrightarrow> idle (my_proc i t) \<Longrightarrow> set (p_ofile (my_proc i t)) \<subseteq> {None}"
  shows "files_inv d U t"
  using assms(1,4) unfolding files_inv_def assms(2,3) by blast

text \<open>A descriptor of a process refers to an open file.\<close>

lemma descriptor_open:
  assumes "files_ok s" "i < length (procs (k_pt s))" "p_ofile (my_proc i s) ! fd = Some f" "fd < NOFILE"
  shows "f < length (k_ft s)" "1 \<le> f_ref (file_at s f)" "f_type (file_at s f) \<noteq> FD_NONE"
proof -
  have mem: "tables s ! i \<in> set (tables s)" using assms(2) by (simp add: tables_def)
  then have "length (tables s ! i) = NOFILE" using assms(1) by (simp add: files_inv_def)
  then have so: "Some f \<in> set (tables s ! i)" using assms(2-4) by (metis nth_mem tables_nth)
  then show f: "f < length (k_ft s)" using assms(1) mem by (auto simp: files_inv_def)
  have "0 < desc (tables s) f" using desc_pos [of i "tables s" f] so assms(2) by (simp add: tables_def)
  then show "1 \<le> f_ref (file_at s f)" using assms(1) f by (simp add: files_inv_def)
  then show "f_type (file_at s f) \<noteq> FD_NONE" using assms(1) f by (auto simp: files_inv_def)
qed

section \<open>Operations on open files\<close>

text \<open>A change of the count of one file.\<close>

lemma set_ref_inv:
  assumes "files_inv d U s" "f < length (k_ft s)" "k_pt t = k_pt s" "k_ft t = (k_ft s)[f := g]"
    and "f_ref g = f_ref (file_at s f) + n" "f_ref g = 0 \<or> f_type g \<noteq> FD_NONE \<or> f \<in> V" "U \<subseteq> V"
  shows "files_inv (d(f := d f + n)) V t"
  using assms by (auto simp: files_inv_def nth_update tables_def)

lemma filealloc_inv:
  assumes "filealloc s = (Some f, t)" "files_inv d U s"
  shows "files_inv (d(f := d f + 1)) (insert f U) t" "f < length (k_ft s)" "f_ref (file_at s f) = 0"
    "k_pt t = k_pt s" "k_ft t = (k_ft s)[f := (file_at s f)\<lparr>f_ref := 1\<rparr>]"
proof -
  from assms(1) have sc: "scan (\<lambda>f. f_ref f = 0) (k_ft s) = Some f" and t: "t = set_file f (\<lambda>f. f\<lparr>f_ref := 1\<rparr>) s"
    by (auto simp: filealloc_def split: option.splits)
  show f: "f < length (k_ft s)" "f_ref (file_at s f) = 0"
    using scan_Some_less [OF sc] scan_Some_holds [OF sc] by auto
  show k: "k_pt t = k_pt s" "k_ft t = (k_ft s)[f := (file_at s f)\<lparr>f_ref := 1\<rparr>]" by (simp_all add: t set_file_def)
  show "files_inv (d(f := d f + 1)) (insert f U) t" by (rule set_ref_inv [OF assms(2) f(1) k]) (use f(2) in auto)
qed

lemma filealloc_None: "filealloc s = (None, t) \<Longrightarrow> t = s"
  by (auto simp: filealloc_def split: option.splits)

lemma filedup_inv:
  assumes "filedup f s = Inr (g, t)" "files_inv d {} s" "f < length (k_ft s)"
  shows "files_inv (d(f := d f + 1)) {} t" "g = f" "k_pt t = k_pt s"
proof -
  from assms(1) have ref: "f_ref (file_at s f) \<ge> 1" and g: "g = f" and t: "t = set_file f (\<lambda>f. f\<lparr>f_ref := f_ref f + 1\<rparr>) s"
    by (auto simp: filedup_def split: if_splits)
  show "g = f" by (rule g)
  show k: "k_pt t = k_pt s" by (simp add: t set_file_def)
  show "files_inv (d(f := d f + 1)) {} t"
    by (rule set_ref_inv [OF assms(2,3) k, of "(file_at s f)\<lparr>f_ref := f_ref (file_at s f) + 1\<rparr>"])
      (use assms(2,3) ref in \<open>auto simp: t set_file_def files_inv_def\<close>)
qed

text \<open>\<open>pipeclose\<close> changes the pipe and wakes up sleepers.\<close>

lemma close_pipe_keeps [keeps]: "same u s \<Longrightarrow> keeps u id (close_pipe kend a w s)"
  by (auto simp: keeps_def close_pipe_def pipeclose_def Let_def split: if_splits prod.splits)

lemma fileclose_inv:
  assumes "fileclose kend me f s = Inr t" "files_inv d U s" "f < length (k_ft s)"
  shows "files_inv (d(f := d f - 1)) U t" "tables t = tables s" "idles t = idles s"
    "length (k_ft t) = length (k_ft s)"
    "g < length (k_ft s) \<Longrightarrow> f_ref (file_at t g) = f_ref (file_at s g) - (if g = f then 1 else 0)"
    "active p s \<Longrightarrow> active p t"
proof -
  let ?ff = "file_at s f"
  have ref: "f_ref ?ff \<ge> 1" using assms(1) by (auto simp: fileclose_def Let_def split: if_splits)
  obtain s1 g1 where s1: "s1 = set_file f (\<lambda>_. g1) s" "f_ref g1 = f_ref ?ff - 1"
    "f_ref g1 = 0 \<or> f_type g1 = f_type ?ff" and st: "same s1 t"
  proof (cases "f_ref ?ff - 1 > 0")
    case True
    then show ?thesis
      using assms(1) ref that [of "set_file f (\<lambda>_. ?ff\<lparr>f_ref := f_ref ?ff - 1\<rparr>) s" "?ff\<lparr>f_ref := f_ref ?ff - 1\<rparr>"]
      by (auto simp: fileclose_def Let_def set_file_def)
  next
    case False
    define s0 where "s0 = set_file f (\<lambda>f. f\<lparr>f_ref := 0, f_type := FD_NONE\<rparr>) s"
    have "fileclose kend me f s = (case f_type ?ff of
          FD_PIPE \<Rightarrow> close_pipe kend (f_pipe ?ff) (f_writable ?ff) s0
        | FD_INODE \<Rightarrow> bindE (begin_op me s0) (\<lambda>s. bindE (on_fs (iput (f_ip ?ff)) s) end_op)
        | FD_NONE \<Rightarrow> Inr s0)"
      using False ref unfolding s0_def by (simp add: fileclose_def Let_def)
    moreover have "keeps s0 id (case f_type ?ff of
          FD_PIPE \<Rightarrow> close_pipe kend (f_pipe ?ff) (f_writable ?ff) s0
        | FD_INODE \<Rightarrow> bindE (begin_op me s0) (\<lambda>s. bindE (on_fs (iput (f_ip ?ff)) s) end_op)
        | FD_NONE \<Rightarrow> Inr s0)"
      by (cases "f_type ?ff") (auto intro!: keeps)
    ultimately have "same s0 t" using assms(1) by (auto simp: keeps_def)
    then show ?thesis
      using False ref that [of s0 "?ff\<lparr>f_ref := 0, f_type := FD_NONE\<rparr>"] by (auto simp: s0_def set_file_def)
  qed
  have k: "k_pt s1 = k_pt s" "k_ft s1 = (k_ft s)[f := g1]" by (simp_all add: s1(1) set_file_def)
  have "files_inv (d(f := d f + -1)) U s1"
    by (rule set_ref_inv [OF assms(2,3) k]) (use s1(2,3) ref assms(2,3) in \<open>auto simp: files_inv_def\<close>)
  then show "files_inv (d(f := d f - 1)) U t" using files_inv_same [OF st] by simp
  show "tables t = tables s" "idles t = idles s"
    using st k(1) by (simp_all add: same_def tables_def idles_def)
  show "length (k_ft t) = length (k_ft s)" using same_nth(1) [OF st] k(2) by simp
  show "g < length (k_ft s) \<Longrightarrow> f_ref (file_at t g) = f_ref (file_at s g) - (if g = f then 1 else 0)"
    using same_nth(3) [OF st, of g] k(2) s1(2) assms(3) by (auto simp: nth_update)
  have "active p s = active p s1" by (simp add: active_def k(1))
  then show "active p s \<Longrightarrow> active p t" using active_same [OF st] by simp
qed

section \<open>Descriptors\<close>

text \<open>An entry of a descriptor table changes.\<close>

lemma set_fd_inv:
  assumes "files_inv d U s" "i < length (procs (k_pt s))" "fd < NOFILE"
    and "\<And>f. x = Some f \<Longrightarrow> f < length (k_ft s) \<and> \<not> idle (my_proc i s)"
  defines "old \<equiv> p_ofile (my_proc i s) ! fd"
  shows "files_inv (\<lambda>g. d g + (if old = Some g then 1 else 0) - (if x = Some g then 1 else 0)) U
    (set_my i (\<lambda>p. p\<lparr>p_ofile := (p_ofile p)[fd := x]\<rparr>) s)"
proof -
  let ?t = "set_my i (\<lambda>p. p\<lparr>p_ofile := (p_ofile p)[fd := x]\<rparr>) s"
  have tab: "tables ?t = (tables s)[i := (tables s ! i)[fd := x]]"
    using assms(2) by (simp add: tables_def set_my_def map_update)
  have i: "i < length (tables s)" and len: "length (tables s ! i) = NOFILE"
    using assms(1,2) by (auto simp: files_inv_def tables_def)
  have count: "int (desc (tables ?t) g) + (if old = Some g then 1 else 0) = int (desc (tables s) g) + (if x = Some g then 1 else 0)" for g
  proof -
    have "desc (tables ?t) g + (if old = Some g then 1 else 0) = desc (tables s) g + (if x = Some g then 1 else 0)"
      using desc_update [OF i, of fd x g] assms(3) len unfolding tab old_def tables_nth [OF assms(2), symmetric] by simp
    then show ?thesis by (simp split: if_splits)
  qed
  have ft: "k_ft ?t = k_ft s" by (simp add: set_my_def)
  have sub: "set ((tables s ! i)[fd := x]) \<subseteq> insert x (set (tables s ! i))" by (rule set_update_subset_insert)
  have mem: "tables s ! i \<in> set (tables s)" using i by simp
  have ds: "ds \<in> set (tables ?t) \<Longrightarrow> ds \<in> set (tables s) \<or> ds = (tables s ! i)[fd := x]" for ds
    unfolding tab using set_update_subset_insert [of "tables s" i] by blast
  show ?thesis unfolding files_inv_def ft
  proof (intro conjI)
    show "\<forall>ds \<in> set (tables ?t). length ds = NOFILE"
    proof
      fix es assume "es \<in> set (tables ?t)"
      from ds [OF this] show "length es = NOFILE" using len assms(1) by (auto simp: files_inv_def)
    qed
    show "\<forall>f < length (k_ft s). f_ref (file_at s f) =
        int (desc (tables ?t) f) + (d f + (if old = Some f then 1 else 0) - (if x = Some f then 1 else 0))"
      using count assms(1) unfolding files_inv_def by (smt (verit))
    show "\<forall>ds \<in> set (tables ?t). \<forall>f. Some f \<in> set ds \<longrightarrow> f < length (k_ft s)"
    proof (intro ballI allI impI)
      fix es f assume "es \<in> set (tables ?t)" and f: "Some f \<in> set es"
      with ds [of es] consider "es \<in> set (tables s)" | "Some f \<in> insert x (set (tables s ! i))" using sub by blast
      then show "f < length (k_ft s)" using assms(1,4) mem f by cases (auto simp: files_inv_def)
    qed
    show "\<forall>f < length (k_ft s). f_ref (file_at s f) = 0 \<or> f_type (file_at s f) \<noteq> FD_NONE \<or> f \<in> U"
      using assms(1) unfolding files_inv_def by blast
    show "\<forall>j < length (procs (k_pt ?t)). idle (my_proc j ?t) \<longrightarrow> set (p_ofile (my_proc j ?t)) \<subseteq> {None}"
    proof (intro allI impI)
      fix j assume j: "j < length (procs (k_pt ?t))" and idl: "idle (my_proc j ?t)"
      show "set (p_ofile (my_proc j ?t)) \<subseteq> {None}"
      proof (cases "j = i")
        case True
        then have "idle (my_proc i s)" using idl assms(2) by (simp add: set_my_def)
        then have "x = None" "set (tables s ! i) \<subseteq> {None}"
          using assms(1,2,4) tables_nth [OF assms(2)] by (cases x; auto simp: files_inv_def)+
        with sub have "set ((tables s ! i)[fd := x]) \<subseteq> {None}" by blast
        then show ?thesis using True assms(2) by (simp add: set_my_def tables_nth)
      next
        case False
        then show ?thesis using j idl assms(1) by (auto simp: files_inv_def set_my_def)
      qed
    qed
  qed
qed

lemma fdalloc_inv:
  assumes "fdalloc me f s = (Some fd, t)" "files_inv d U s" "active me s" "f < length (k_ft s)"
  shows "files_inv (d(f := d f - 1)) U t" "fd < NOFILE" "k_ft t = k_ft s" "active p s \<Longrightarrow> active p t"
    "p_ofile (my_proc me s) ! fd = None" "p_ofile (my_proc me t) ! fd = Some f"
proof -
  have me: "me < length (procs (k_pt s))" "\<not> idle (my_proc me s)" using assms(3) by (simp_all add: active_def)
  have len: "length (p_ofile (my_proc me s)) = NOFILE" using assms(2) me(1) by (auto simp: files_inv_def tables_def)
  from assms(1) have sc: "scan (\<lambda>d. d = None) (p_ofile (my_proc me s)) = Some fd"
    and t: "t = set_my me (\<lambda>p. p\<lparr>p_ofile := (p_ofile p)[fd := Some f]\<rparr>) s"
    by (auto simp: fdalloc_def split: option.splits)
  show fd: "fd < NOFILE" and none: "p_ofile (my_proc me s) ! fd = None"
    using scan_Some_less [OF sc] scan_Some_holds [OF sc] len by auto
  show "files_inv (d(f := d f - 1)) U t"
    using set_fd_inv [OF assms(2) me(1) fd, of "Some f"] assms(4) me(2) unfolding t
    by (auto elim!: files_inv_mono simp: none)
  show "k_ft t = k_ft s" by (simp add: t set_my_def)
  show "active p s \<Longrightarrow> active p t" by (auto simp: active_def t set_my_def nth_update)
  show "p_ofile (my_proc me t) ! fd = Some f" using me(1) fd len by (simp add: t set_my_def)
qed

lemma fdalloc_None: "fdalloc me f s = (None, t) \<Longrightarrow> t = s"
  by (auto simp: fdalloc_def split: option.splits)

lemma clear_fd_inv:
  assumes "files_inv d U s" "active me s" "fd < NOFILE" "p_ofile (my_proc me s) ! fd = Some f"
  shows "files_inv (d(f := d f + 1)) U (clear_fd me fd s)" "k_ft (clear_fd me fd s) = k_ft s"
    "active p s \<Longrightarrow> active p (clear_fd me fd s)"
  using set_fd_inv [OF assms(1) _ assms(3), of me None] assms(2,4)
  by (auto elim!: files_inv_mono simp: clear_fd_def active_def set_my_def nth_update)

lemma argfd_open: "argfd me s n = Some (fd, f) \<Longrightarrow> fd < NOFILE \<and> p_ofile (my_proc me s) ! fd = Some f"
  (is "_ \<Longrightarrow> ?thesis")
proof -
  have "unat w < NOFILE" if "0 \<le> sint w" "sint w < int NOFILE" for w :: uint
    using unat_eq_sint [OF that(1)] that(2) by linarith
  then show "argfd me s n = Some (fd, f) \<Longrightarrow> ?thesis"
    by (auto simp: argfd_def not_less not_le split: option.splits if_splits)
qed

lemma set_type_inv:
  assumes "files_inv d (insert f U) s" "\<And>h. f_ref (g h) = f_ref h" "\<And>h. f_type (g h) \<noteq> FD_NONE"
  shows "files_inv d U (set_file f g s)"
proof (cases "f < length (k_ft s)")
  case True
  have "files_inv (d(f := d f + 0)) (insert f U) (set_file f g s)"
    by (rule set_ref_inv [OF assms(1) True, of _ "g (file_at s f)"]) (simp_all add: set_file_def assms(2,3))
  then have "files_inv d (insert f U) (set_file f g s)" by simp
  then show ?thesis by (rule files_inv_untyped) (simp add: True set_file_def assms(3))
next
  case False
  then have "set_file f g s = s" by (simp add: set_file_def list_update_beyond)
  then show ?thesis using assms(1) False by (auto simp: files_inv_def)
qed

section \<open>Calls\<close>

text \<open>A call of process \<open>me\<close> that keeps the invariant.\<close>

definition safe :: "nat \<Rightarrow> kern \<Rightarrow> ('r \<Rightarrow> kern) \<Rightarrow> 'r res \<Rightarrow> bool" where
  "safe me s out m \<longleftrightarrow> (files_ok s \<and> active me s \<longrightarrow> (\<forall>r. m = Inr r \<longrightarrow> files_ok (out r)))"

lemma safe_keeps: "keeps s out m \<Longrightarrow> safe me s out m"
  by (auto simp: safe_def keeps_def intro: files_inv_same)

lemma safe_bind:
  "keeps s id m \<Longrightarrow> (\<And>t. safe me t out (f t)) \<Longrightarrow> safe me s out (bindE m f)"
  "keeps s snd m' \<Longrightarrow> (\<And>x t. safe me t out (g x t)) \<Longrightarrow> safe me s out (bindE m' (case_prod g))"
  by (auto simp: safe_def keeps_def) (meson active_same files_inv_same)+

lemma safe_split:
  "(b \<Longrightarrow> safe me s out m) \<Longrightarrow> (\<not> b \<Longrightarrow> safe me s out n) \<Longrightarrow> safe me s out (if b then m else n)"
  "(x = None \<Longrightarrow> safe me s out m) \<Longrightarrow> (\<And>y. x = Some y \<Longrightarrow> safe me s out (f y)) \<Longrightarrow> safe me s out (case x of None \<Rightarrow> m | Some y \<Rightarrow> f y)"
  by (auto simp: safe_def split: option.splits prod.splits)

lemma dup_safe: "safe me s snd (sys_dup me s)"
  unfolding safe_def
proof (intro impI allI, elim conjE)
  fix r assume ok: "files_ok s" "active me s" and r: "sys_dup me s = Inr r"
  show "files_ok (snd r)"
  proof (cases "argfd me s 0")
    case (Some a)
    obtain fd f where a: "a = (fd, f)" by (cases a)
    note o = argfd_open [OF Some [unfolded a]]
    have f: "f < length (k_ft s)" using descriptor_open(1) [OF ok(1)] o ok(2) by (auto simp: active_def)
    show ?thesis
    proof (cases "fst (fdalloc me f s)")
      case None
      then show ?thesis using r ok(1) fdalloc_None [of me f s] Some a by (auto simp: sys_dup_def split: prod.splits)
    next
      case (Some fd')
      then obtain s1 where s1: "fdalloc me f s = (Some fd', s1)" by (cases "fdalloc me f s") auto
      note fa = fdalloc_inv [OF s1 ok f]
      obtain g t where t: "filedup f s1 = Inr (g, t)" "snd r = t"
        using r s1 \<open>argfd me s 0 = Some a\<close> a by (auto simp: sys_dup_def)
      from filedup_inv(1) [OF t(1) fa(1)] show ?thesis using f fa(3) t(2) by (auto elim!: files_inv_mono)
    qed
  qed (use r ok(1) in \<open>auto simp: sys_dup_def\<close>)
qed

lemma close_safe: "safe me s snd (sys_close kend me s)"
  unfolding safe_def
proof (intro impI allI, elim conjE)
  fix r assume ok: "files_ok s" "active me s" and r: "sys_close kend me s = Inr r"
  show "files_ok (snd r)"
  proof (cases "argfd me s 0")
    case (Some a)
    obtain fd f where a: "a = (fd, f)" by (cases a)
    note o = argfd_open [OF Some [unfolded a]]
    have f: "f < length (k_ft s)" using descriptor_open(1) [OF ok(1)] o ok(2) by (auto simp: active_def)
    note c = clear_fd_inv [OF ok o [THEN conjunct1] o [THEN conjunct2]]
    obtain t where t: "fileclose kend me f (clear_fd me fd s) = Inr t" "snd r = t"
      using r Some a by (auto simp: sys_close_def)
    from fileclose_inv(1) [OF t(1) c(1)] show ?thesis using f c(2) t(2) by (auto elim!: files_inv_mono)
  qed (use r ok(1) in \<open>auto simp: sys_close_def\<close>)
qed

text \<open>The opening of an inode: the file is counted before it has its type.\<close>

lemma open_inode_safe: "safe me s snd (open_inode kend me ip omode s)"
  unfolding safe_def
proof (intro impI allI, elim conjE)
  fix r assume ok: "files_ok s" "active me s" and r: "open_inode kend me ip omode s = Inr r"
  obtain fo s1 where al: "filealloc s = (fo, s1)" by (cases "filealloc s")
  have bad: "keeps u snd (bindE (on_fs (iunlockput ip) u) (finish_op (-1)))" for u by (intro keeps) simp_all
  show "files_ok (snd r)"
  proof (cases fo)
    case None
    then have "bindE (on_fs (iunlockput ip) s) (finish_op (-1)) = Inr r"
      using r al filealloc_None [of s s1] unfolding open_inode_def by simp
    from keepsD [OF bad this] show ?thesis using ok(1) by (rule files_inv_same)
  next
    case (Some f)
    note fa = filealloc_inv [OF al [unfolded Some] ok(1)]
    have act: "active me s1" using ok(2) by (simp add: active_def fa(4))
    have f: "f < length (k_ft s1)" using fa(2,5) by simp
    obtain fdo s2 where fd: "fdalloc me f s1 = (fdo, s2)" by (cases "fdalloc me f s1")
    show ?thesis
    proof (cases fdo)
      case None
      then have s2: "s2 = s1" using fd fdalloc_None by blast
      obtain s3 where c: "fileclose kend me f s1 = Inr s3" and r3: "bindE (on_fs (iunlockput ip) s3) (finish_op (-1)) = Inr r"
        using r al fd Some None s2 by (auto simp: open_inode_def)
      note fc = fileclose_inv [OF c fa(1) f]
      have "files_inv (\<lambda>_. 0) (insert f {}) s3" using fc(1) by (rule files_inv_mono) auto
      moreover have "f_ref (file_at s3 f) = 0" using fc(5) [OF f] fa(2,5) by simp
      ultimately have "files_ok s3" by (auto intro: files_inv_untyped)
      then show ?thesis using keepsD [OF bad r3] by (auto intro: files_inv_same)
    next
      case (Some fd')
      note fi = fdalloc_inv [OF fd [unfolded Some] fa(1) act f]
      define g where "g = (\<lambda>fl :: ofile. fl\<lparr>f_type := FD_INODE, f_ip := ip, f_off := 0,
                 f_readable := (omode AND O_WRONLY = 0),
                 f_writable := (omode AND O_WRONLY \<noteq> 0 \<or> omode AND O_RDWR \<noteq> 0)\<rparr>)"
      obtain t where t: "bindE (on_fs (iunlock ip) s2) end_op = Inr t" "snd r = set_file f g t"
        using r al fd Some \<open>fo = Some f\<close> by (auto simp: open_inode_def g_def)
      have "keeps s2 id (bindE (on_fs (iunlock ip) s2) end_op)" by (intro keeps) simp_all
      from keepsD [OF this t(1)] fi(1) have "files_inv ((\<lambda>_. 0)(f := 0)) {f} t"
        by (auto intro: files_inv_same elim!: files_inv_mono)
      then have "files_inv (\<lambda>_. 0) (insert f {}) t" by (rule files_inv_mono) auto
      then show ?thesis unfolding t(2) by (rule set_type_inv) (simp_all add: g_def)
    qed
  qed
qed

lemma open_safe: "safe me s snd (sys_open kend dv me s)"
  unfolding sys_open_def
  by (intro safe_split safe_bind; (rule open_inode_safe | (intro safe_keeps keeps; simp)))

text \<open>A pipe: two files are counted before they have their types.\<close>

lemma pipealloc_inv:
  assumes "pipealloc kend me s = Inr (r, t)" "files_ok s"
  shows "case r of
      None \<Rightarrow> files_ok t
    | Some (rfile, wfile) \<Rightarrow> rfile \<noteq> wfile \<and> files_inv ((\<lambda>_. 0)(rfile := 1, wfile := 1)) {} t \<and> rfile < length (k_ft t) \<and> wfile < length (k_ft t) \<and> k_pt t = k_pt s"
proof -
  obtain f0 s1 where a0: "filealloc s = (f0, s1)" by (cases "filealloc s")
  show ?thesis
  proof (cases f0)
    case None
    then show ?thesis using assms a0 filealloc_None by (auto simp: pipealloc_def)
  next
    case (Some rfile)
    note i0 = filealloc_inv [OF a0 [unfolded Some] assms(2)]
    have rfile: "rfile < length (k_ft s1)" using i0(2,5) by simp
    obtain f1 s2 where a1: "filealloc s1 = (f1, s2)" by (cases "filealloc s1")
    show ?thesis
    proof (cases f1)
      case None
      then have "s2 = s1" using a1 filealloc_None by blast
      then have c: "fileclose kend me rfile s1 = Inr t" and r: "r = None"
        using assms(1) a0 a1 Some None by (auto simp: pipealloc_def)
      note fc = fileclose_inv [OF c i0(1) rfile]
      have "files_inv (\<lambda>_. 0) (insert rfile {}) t" using fc(1) by (rule files_inv_mono) auto
      moreover have "f_ref (file_at t rfile) = 0" using fc(5) [OF rfile] i0(2,5) by simp
      ultimately show ?thesis using r by (auto intro: files_inv_untyped)
    next
      case (Some wfile)
      note i1 = filealloc_inv [OF a1 [unfolded Some] i0(1)]
      have ne: "rfile \<noteq> wfile" using i1(3) i0(2,5) by auto
      have wfile: "wfile < length (k_ft s2)" "rfile < length (k_ft s2)" using i1(2,5) rfile by simp_all
      obtain a km where k: "kalloc (k_km s2) = (a, km)" by (cases "kalloc (k_km s2)")
      define s3 where "s3 = s2\<lparr>k_km := km\<rparr>"
      have st: "same s2 s3" by (simp add: s3_def)
      note i3 = files_inv_same [OF st i1(1)]
      have ref: "f_ref (file_at s3 rfile) = 1" "f_ref (file_at s3 wfile) = 1" "length (k_ft s3) = length (k_ft s2)"
        using i0(2,5) i1(2,5) ne wfile by (simp_all add: s3_def)
      show ?thesis
      proof (cases "a = 0")
        case True
        then obtain s4 where c: "fileclose kend me rfile s3 = Inr s4" "fileclose kend me wfile s4 = Inr t" and r: "r = None"
          using assms(1) a0 a1 \<open>f0 = Some rfile\<close> Some k by (auto simp: pipealloc_def s3_def Let_def)
        have l: "rfile < length (k_ft s3)" "wfile < length (k_ft s3)" using wfile ref(3) by simp_all
        note c0 = fileclose_inv [OF c(1) i3 l(1)]
        have l': "rfile < length (k_ft s4)" "wfile < length (k_ft s4)" using l c0(4) by simp_all
        note c1 = fileclose_inv [OF c(2) c0(1) l'(2)]
        have "files_inv (\<lambda>_. 0) (insert wfile (insert rfile {})) t" using c1(1) by (rule files_inv_mono) (use ne in auto)
        moreover have "f_ref (file_at t wfile) = 0" "f_ref (file_at t rfile) = 0"
          using c0(5) [OF l(1)] c0(5) [OF l(2)] c1(5) [OF l'(1)] c1(5) [OF l'(2)] ref ne by auto
        ultimately have "files_ok t" using files_inv_untyped by blast
        then show ?thesis using r by simp
      next
        case False
        define s4 where "s4 = s3\<lparr>k_pipes := (k_pipes s3)(a := pipe_init (k_pipes s3 a))\<rparr>"
        define g0 where "g0 = (\<lambda>f :: ofile. f\<lparr>f_type := FD_PIPE, f_readable := True, f_writable := False, f_pipe := a\<rparr>)"
        define g1 where "g1 = (\<lambda>f :: ofile. f\<lparr>f_type := FD_PIPE, f_readable := False, f_writable := True, f_pipe := a\<rparr>)"
        have t: "t = set_file wfile g1 (set_file rfile g0 s4)" and r: "r = Some (rfile, wfile)"
          using assms(1) a0 a1 \<open>f0 = Some rfile\<close> Some k False by (auto simp: pipealloc_def s3_def s4_def g0_def g1_def Let_def)
        have "files_inv ((\<lambda>_. 0)(rfile := 1, wfile := 1)) (insert rfile (insert wfile {})) s4"
          using files_inv_same [of s3 s4, OF _ i3] ne by (auto simp: s4_def elim!: files_inv_mono)
        then have "files_inv ((\<lambda>_. 0)(rfile := 1, wfile := 1)) (insert wfile {}) (set_file rfile g0 s4)"
          by (rule set_type_inv) (simp_all add: g0_def)
        then have "files_inv ((\<lambda>_. 0)(rfile := 1, wfile := 1)) {} t"
          unfolding t by (rule set_type_inv) (simp_all add: g1_def)
        then show ?thesis using r ne ne [symmetric] wfile i0(4) i1(4) by (simp add: t set_file_def s4_def s3_def)
      qed
    qed
  qed
qed

lemma pipe_safe: "safe me s snd (sys_pipe kend me s)"
  unfolding safe_def
proof (intro impI allI, elim conjE)
  fix r assume ok: "files_ok s" "active me s" and r: "sys_pipe kend me s = Inr r"
  show "files_ok (snd r)"
  proof (cases "ptr_arg me s 0 8")
    case (Some a)
    from r Some obtain p s1 where p: "pipealloc kend me s = Inr (p, s1)" by (auto simp: sys_pipe_def)
    note inv = pipealloc_inv [OF p ok(1)]
    show ?thesis
    proof (cases p)
      case None
      then show ?thesis using r Some p inv by (auto simp: sys_pipe_def)
    next
      case (Some q)
      obtain rfile wfile where q: "q = (rfile, wfile)" by (cases q)
      have ne: "rfile \<noteq> wfile" and i1: "files_inv ((\<lambda>_. 0)(rfile := 1, wfile := 1)) {} s1"
        and l: "rfile < length (k_ft s1)" "wfile < length (k_ft s1)" and pt: "k_pt s1 = k_pt s"
        using inv Some q by auto
      have act: "active me s1" using ok(2) pt by (simp add: active_def)
      have both: "files_ok t"
        if "files_inv ((\<lambda>_. 0)(rfile := 1, wfile := 1)) {} u" "length (k_ft u) = length (k_ft s1)"
          "fileclose kend me rfile u = Inr v" "fileclose kend me wfile v = Inr t" for u v t
      proof -
        have lu: "rfile < length (k_ft u)" "wfile < length (k_ft u)" using l that(2) by simp_all
        note c0 = fileclose_inv [OF that(3,1) lu(1)]
        have "wfile < length (k_ft v)" using c0(4) lu(2) by simp
        note c1 = fileclose_inv [OF that(4) c0(1) this]
        show ?thesis using c1(1) by (rule files_inv_mono) (use ne in auto)
      qed
      obtain o0 s2 where o0: "fdalloc me rfile s1 = (o0, s2)" by (cases "fdalloc me rfile s1")
      show ?thesis
      proof (cases o0)
        case None
        then have "s2 = s1" using o0 fdalloc_None by blast
        then show ?thesis using r \<open>ptr_arg me s 0 8 = Some a\<close> p Some q o0 None both [OF i1] by (auto simp: sys_pipe_def)
      next
        case (Some fd0)
        note f0 = fdalloc_inv [OF o0 [unfolded Some] i1 act l(1)]
        have act2: "active me s2" using f0(4) act by simp
        have l2: "wfile < length (k_ft s2)" using l(2) f0(3) by simp
        obtain o1 s3 where o1: "fdalloc me wfile s2 = (o1, s3)" by (cases "fdalloc me wfile s2")
        show ?thesis
        proof (cases o1)
          case None
          then have s3: "s3 = s2" using o1 fdalloc_None by blast
          note c = clear_fd_inv [OF f0(1) act2 f0(2,6)]
          have "files_inv ((\<lambda>_. 0)(rfile := 1, wfile := 1)) {} (clear_fd me fd0 s2)"
            using c(1) by (rule files_inv_mono) (use ne in auto)
          then show ?thesis
            using r \<open>ptr_arg me s 0 8 = Some a\<close> p \<open>p = Some q\<close> q o0 Some o1 None s3 both f0(3) c(2)
            by (auto simp: sys_pipe_def)
        next
          case (Some fd1)
          note f1 = fdalloc_inv [OF o1 [unfolded Some] f0(1) act2 l2]
          have t: "snd r = store_bytes (a + 4) (le32 (of_nat fd1)) (store_bytes a (le32 (of_nat fd0)) s3)"
            using r \<open>ptr_arg me s 0 8 = Some a\<close> p \<open>p = Some q\<close> q o0 \<open>o0 = Some fd0\<close> o1 Some
            by (auto simp: sys_pipe_def)
          have "same s3 (snd r)" by (simp add: t store_bytes_def)
          moreover have "files_ok s3" using f1(1) by (rule files_inv_mono) (use ne in auto)
          ultimately show ?thesis by (rule files_inv_same)
        qed
      qed
    qed
  qed (use r ok(1) in \<open>auto simp: sys_pipe_def\<close>)
qed

section \<open>Processes\<close>

lemma set_state_same:
  "active i s \<Longrightarrow> st \<noteq> UNUSED \<Longrightarrow> st \<noteq> ZOMBIE \<Longrightarrow> same s (set_my i (\<lambda>p. p\<lparr>p_state := st\<rparr>) s)"
  unfolding set_my_def active_def by (rule same_procs) (auto simp: nth_update idle_def)

lemma alloc_proc_inv:
  assumes "alloc_proc forkret s = (r, t)" "files_ok s"
  shows "files_ok t" "active p s \<Longrightarrow> active p t" "k_ft t = k_ft s"
    "active p s \<Longrightarrow> p_ofile (my_proc p t) = p_ofile (my_proc p s)"
    "r = Some np \<Longrightarrow> active np t \<and> \<not> active np s \<and> set (p_ofile (my_proc np t)) \<subseteq> {None}"
proof -
  obtain pt km where a: "allocproc forkret (k_pt s, k_km s) = (r, pt, km)" and t: "t = s\<lparr>k_pt := pt, k_km := km\<rparr>"
    using assms(1) by (auto simp: alloc_proc_def split: prod.splits)
  have len: "length (procs pt) = length (procs (k_pt s))"
    and of: "\<And>j. j < length (procs pt) \<Longrightarrow> p_ofile (procs pt ! j) = p_ofile (my_proc j s)"
    and st: "\<And>j. j < length (procs pt) \<Longrightarrow> procs pt ! j = my_proc j s \<or>
      p_state (my_proc j s) = UNUSED \<and> (r = Some j \<and> p_state (procs pt ! j) = EMBRYO \<or> p_state (procs pt ! j) = UNUSED)"
    and np: "r = Some np \<Longrightarrow> np < length (procs pt) \<and> p_state (procs pt ! np) = EMBRYO \<and> p_state (my_proc np s) = UNUSED" for np
    using a by (auto simp: allocproc_def alloc_slot_def Let_def nth_update split: option.splits prod.splits if_splits
        dest: scan_Some_less scan_Some_holds scan_Some_holds [OF sym])
  show ft: "k_ft t = k_ft s" by (simp add: t)
  have tab: "tables t = tables s" using len of by (auto simp: tables_def t intro!: nth_equalityI)
  show "active p s \<Longrightarrow> active p t" "active p s \<Longrightarrow> p_ofile (my_proc p t) = p_ofile (my_proc p s)"
    using len st [of p] of [of p] by (auto simp: active_def t idle_def)
  have "idle (my_proc j s)" if "j < length (procs pt)" "idle (procs pt ! j)" for j
    using st [OF that(1)] that(2) by (auto simp: idle_def)
  then show "files_ok t"
    using files_inv_view [OF assms(2) tab ft] assms(2) len of by (auto simp: t files_inv_def)
  show "r = Some np \<Longrightarrow> active np t \<and> \<not> active np s \<and> set (p_ofile (my_proc np t)) \<subseteq> {None}"
    using np [of np] of [of np] len assms(2) by (auto simp: active_def t idle_def files_inv_def)
qed

text \<open>The loop of \<open>fork\<close> over the open files; the entries it fills were empty.\<close>

lemma dup_files_inv:
  assumes "dup_files me np is s = Inr t" "files_ok s" "active me s" "active np s" "me \<noteq> np"
    and "distinct is" "\<forall>i \<in> set is. i < NOFILE \<and> p_ofile (my_proc np s) ! i = None"
  shows "files_ok t \<and> active np t"
  using assms
proof (induction "is" arbitrary: s)
  case (Cons i "is")
  have i: "i < NOFILE" "p_ofile (my_proc np s) ! i = None" using Cons.prems(7) by auto
  show ?case
  proof (cases "p_ofile (my_proc me s) ! i")
    case None
    then show ?thesis using Cons by simp
  next
    case (Some f)
    have f: "f < length (k_ft s)"
      using descriptor_open(1) [OF Cons.prems(2) _ Some i(1)] Cons.prems(3) by (simp add: active_def)
    obtain g s1 where d: "filedup f s = Inr (g, s1)"
      and rest: "dup_files me np is (set_my np (\<lambda>p. p\<lparr>p_ofile := (p_ofile p)[i := Some g]\<rparr>) s1) = Inr t"
      using Cons.prems(1) Some by auto
    let ?u = "set_my np (\<lambda>p. p\<lparr>p_ofile := (p_ofile p)[i := Some g]\<rparr>) s1"
    note fd = filedup_inv [OF d Cons.prems(2) f]
    have np: "np < length (procs (k_pt s1))" "\<not> idle (my_proc np s1)" using Cons.prems(4) fd(3) by (simp_all add: active_def)
    have fl: "f < length (k_ft s1)" using d f by (auto simp: filedup_def set_file_def split: if_splits)
    have "files_ok ?u"
      using set_fd_inv [OF fd(1) np(1) i(1), of "Some g"] i(2) fl np(2) fd(2,3)
      by (auto elim!: files_inv_mono)
    moreover have "active me ?u" "active np ?u" using Cons.prems(3,4,5) fd(3) by (auto simp: active_def set_my_def nth_update)
    moreover have "\<forall>j \<in> set is. j < NOFILE \<and> p_ofile (my_proc np ?u) ! j = None"
      using Cons.prems(6,7) np(1) fd(3) by (auto simp: set_my_def nth_update)
    ultimately show ?thesis using Cons.IH [OF rest] Cons.prems(5,6) by auto
  qed
qed simp

lemma dup_sems_same: "same s (fst (dup_sems me np is (s, q)))"
proof (induction "is" arbitrary: s q)
  case (Cons i "is")
  show ?case
  proof (cases "p_osem (my_proc me s) ! i")
    case (Some sd)
    have "same s (set_my np (\<lambda>p. p\<lparr>p_osem := (p_osem p)[i := Some sd]\<rparr>) s)" by simp
    from same_trans [OF this Cons.IH] show ?thesis using Some by simp
  qed (use Cons.IH in auto)
qed simp

lemma none_nth: "set xs \<subseteq> {None} \<Longrightarrow> i < length xs \<Longrightarrow> xs ! i = None"
  using nth_mem [of i xs] by blast

text \<open>The three ways \<open>fork\<close> can go, with the states in between.\<close>

lemma fork_steps:
  assumes "fork kend kdata forkret me (s, q) = Inr (r, t, q')"
  obtains (refused) "r = -1" "alloc_proc forkret s = (None, t)"
  | (no_memory) np s1 s2 s4 where "r = -1" "alloc_proc forkret s = (Some np, s1)"
      "on_km2 (copyuvm kend kdata (p_pgdir (my_proc me s1)) (p_sz (my_proc me s1))) s1 = Inr (0, s2)"
      "on_km (kfree kend (p_kstack (my_proc np (set_my np (\<lambda>p. p\<lparr>p_pgdir := 0\<rparr>) s2)))) (set_my np (\<lambda>p. p\<lparr>p_pgdir := 0\<rparr>) s2) = Inr s4"
      "t = set_my np (\<lambda>p. p\<lparr>p_kstack := 0, p_state := UNUSED\<rparr>) s4"
  | (child) np s1 pgdir s2 s5 cwd s7 name where "alloc_proc forkret s = (Some np, s1)"
      "on_km2 (copyuvm kend kdata (p_pgdir (my_proc me s1)) (p_sz (my_proc me s1))) s1 = Inr (pgdir, s2)" "pgdir \<noteq> 0"
      "dup_files me np [0..<NOFILE] (set_my np (\<lambda>p. p\<lparr>p_sz := p_sz (my_proc me s1), p_parent := Some me,
         p_tf := (p_tf (my_proc me s1))\<lparr>tf_eax := 0\<rparr>\<rparr>) (set_my np (\<lambda>p. p\<lparr>p_pgdir := pgdir\<rparr>) s2)) = Inr s5"
      "p_cwd (my_proc me s1) = Some cwd"
      "dup_sems me np [0..<NOSEM] (set_my np (\<lambda>p. p\<lparr>p_cwd := Some cwd\<rparr>) (s5\<lparr>k_fs := snd (idup cwd (k_fs s5))\<rparr>), q) = (s7, q')"
      "safestrcpy (p_name (my_proc np s7)) (p_name (my_proc me s1)) 16 = Inr name"
      "t = set_my np (\<lambda>p. p\<lparr>p_state := RUNNABLE\<rparr>) (set_my np (\<lambda>p. p\<lparr>p_name := name\<rparr>) s7)"
      "r = sint (p_pid (my_proc np (set_my np (\<lambda>p. p\<lparr>p_name := name\<rparr>) s7)))"
proof -
  obtain o1 s1 where al: "alloc_proc forkret s = (o1, s1)" by (cases "alloc_proc forkret s")
  show thesis
  proof (cases o1)
    case None
    then show thesis using assms al by (intro refused) (simp_all add: fork_def)
  next
    case (Some np)
    obtain pgdir s2 where cp: "on_km2 (copyuvm kend kdata (p_pgdir (my_proc me s1)) (p_sz (my_proc me s1))) s1 = Inr (pgdir, s2)"
      using assms al Some by (auto simp: fork_def Let_def)
    show thesis
    proof (cases "pgdir = 0")
      case True
      then show thesis using assms al Some cp by (auto simp: fork_def Let_def intro: no_memory)
    next
      case False
      define s4 where "s4 = set_my np (\<lambda>p. p\<lparr>p_sz := p_sz (my_proc me s1), p_parent := Some me,
         p_tf := (p_tf (my_proc me s1))\<lparr>tf_eax := 0\<rparr>\<rparr>) (set_my np (\<lambda>p. p\<lparr>p_pgdir := pgdir\<rparr>) s2)"
      obtain s5 where df: "dup_files me np [0..<NOFILE] s4 = Inr s5"
        using assms al Some cp False by (auto simp: fork_def Let_def s4_def)
      obtain cwd where cwd: "p_cwd (my_proc me s1) = Some cwd"
        using assms al Some cp False df by (cases "p_cwd (my_proc me s1)") (auto simp: fork_def Let_def s4_def)
      define s6 where "s6 = set_my np (\<lambda>p. p\<lparr>p_cwd := Some cwd\<rparr>) (s5\<lparr>k_fs := snd (idup cwd (k_fs s5))\<rparr>)"
      obtain s7 q7 where ds: "dup_sems me np [0..<NOSEM] (s6, q) = (s7, q7)" by (cases "dup_sems me np [0..<NOSEM] (s6, q)")
      obtain name where "q7 = q'" "safestrcpy (p_name (my_proc np s7)) (p_name (my_proc me s1)) 16 = Inr name"
        "t = set_my np (\<lambda>p. p\<lparr>p_state := RUNNABLE\<rparr>) (set_my np (\<lambda>p. p\<lparr>p_name := name\<rparr>) s7)"
        "r = sint (p_pid (my_proc np (set_my np (\<lambda>p. p\<lparr>p_name := name\<rparr>) s7)))"
        using assms al Some cp False df cwd ds by (auto simp: fork_def Let_def s4_def s6_def idup_def)
      with al Some cp False df cwd ds show thesis unfolding s4_def s6_def by (intro child) simp_all
    qed
  qed
qed

lemma fork_inv:
  assumes "fork kend kdata forkret me (s, q) = Inr (r, t, q')" "files_ok s" "active me s"
  shows "files_ok t"
  using assms(1)
proof (cases rule: fork_steps)
  case refused
  show ?thesis using alloc_proc_inv(1) [OF refused(2) assms(2)] .
next
  case (no_memory np s1 s2 s4)
  note a = alloc_proc_inv [OF no_memory(2) assms(2)]
  note np = a(5) [OF refl]
  let ?s3 = "set_my np (\<lambda>p. p\<lparr>p_pgdir := 0\<rparr>) s2"
  have "keeps s1 snd (on_km2 (copyuvm kend kdata (p_pgdir (my_proc me s1)) (p_sz (my_proc me s1))) s1)" by (intro keeps) simp
  from keepsD [OF this no_memory(3)] have "same s1 ?s3" by simp
  moreover have "keeps ?s3 id (on_km (kfree kend (p_kstack (my_proc np ?s3))) ?s3)" by (intro keeps) simp
  from keepsD [OF this no_memory(4)] have "same ?s3 s4" by simp
  ultimately have st: "same s1 s4" by (rule same_trans)
  have "set (p_ofile (my_proc np s4)) \<subseteq> {None}" using np same_nth(5) [OF st, of np] by (simp add: active_def)
  moreover have "tables t = tables s4" "k_ft t = k_ft s4"
    by (auto simp: no_memory(5) tables_def set_my_def map_update nth_update intro!: nth_equalityI)
  ultimately show ?thesis
    using files_inv_view [OF files_inv_same [OF st a(1)], of t] files_inv_same [OF st a(1)]
    by (auto simp: no_memory(5) set_my_def nth_update files_inv_def)
next
  case (child np s1 pgdir s2 s5 cwd s7 name)
  note a = alloc_proc_inv [OF child(1) assms(2)]
  note np = a(5) [OF refl]
  let ?s3 = "set_my np (\<lambda>p. p\<lparr>p_pgdir := pgdir\<rparr>) s2"
  let ?s4 = "set_my np (\<lambda>p. p\<lparr>p_sz := p_sz (my_proc me s1), p_parent := Some me, p_tf := (p_tf (my_proc me s1))\<lparr>tf_eax := 0\<rparr>\<rparr>) ?s3"
  have "keeps s1 snd (on_km2 (copyuvm kend kdata (p_pgdir (my_proc me s1)) (p_sz (my_proc me s1))) s1)" by (intro keeps) simp
  from keepsD [OF this child(2)] have st: "same s1 ?s4" by simp
  have ok4: "files_ok ?s4" using files_inv_same [OF st a(1)] .
  have act4: "active np ?s4" "active me ?s4" using active_same [OF st] np a(2) [OF assms(3)] by auto
  have none: "p_ofile (my_proc np ?s4) ! i = None" if "i < NOFILE" for i
  proof -
    have "set (p_ofile (my_proc np ?s4)) \<subseteq> {None}" using np same_nth(5) [OF st, of np] by (simp add: active_def)
    moreover have "length (p_ofile (my_proc np ?s4)) = NOFILE" using ok4 act4(1) by (auto simp: files_inv_def tables_def active_def)
    ultimately show ?thesis using that by (intro none_nth) simp_all
  qed
  have "me \<noteq> np" using np assms(3) by auto
  then have ok5: "files_ok s5 \<and> active np s5"
    using dup_files_inv [OF child(4) ok4 act4(2,1)] none by simp
  let ?s6 = "set_my np (\<lambda>p. p\<lparr>p_cwd := Some cwd\<rparr>) (s5\<lparr>k_fs := snd (idup cwd (k_fs s5))\<rparr>)"
  have "same s5 ?s6" by simp
  moreover have "same ?s6 s7" using dup_sems_same [of ?s6 me np "[0..<NOSEM]" q] child(6) by simp
  ultimately have "same s5 s7" by (rule same_trans)
  then have s8: "same s5 (set_my np (\<lambda>p. p\<lparr>p_name := name\<rparr>) s7)" by simp
  have "same s5 t"
    unfolding child(8) by (rule same_trans [OF s8]) (rule set_state_same, use ok5 active_same [OF s8] in auto)
  then show ?thesis using ok5 files_inv_same by blast
qed

lemma close_files_inv:
  assumes "close_files kend me fds s = Inr t" "files_ok s" "active me s" "set fds \<subseteq> {..<NOFILE}"
  shows "files_ok t \<and> active me t \<and>
    (\<forall>fd < NOFILE. fd \<in> set fds \<or> p_ofile (my_proc me s) ! fd = None \<longrightarrow> p_ofile (my_proc me t) ! fd = None)"
  using assms
proof (induction fds arbitrary: s)
  case (Cons fd fds)
  have fd: "fd < NOFILE" using Cons.prems(4) by simp
  show ?case
  proof (cases "p_ofile (my_proc me s) ! fd")
    case None
    have "files_ok t \<and> active me t \<and>
      (\<forall>fd < NOFILE. fd \<in> set fds \<or> p_ofile (my_proc me s) ! fd = None \<longrightarrow> p_ofile (my_proc me t) ! fd = None)"
      using Cons None by auto
    then show ?thesis using None by auto
  next
    case (Some f)
    have me: "me < length (procs (k_pt s))" using Cons.prems(3) by (simp add: active_def)
    have f: "f < length (k_ft s)" using descriptor_open(1) [OF Cons.prems(2) me Some fd] .
    obtain s1 where c: "fileclose kend me f s = Inr s1" and rest: "close_files kend me fds (clear_fd me fd s1) = Inr t"
      using Cons.prems(1) Some by auto
    note fc = fileclose_inv [OF c Cons.prems(2) f]
    have of: "p_ofile (my_proc me s1) = p_ofile (my_proc me s)" and me1: "me < length (procs (k_pt s1))"
      using fc(2) me fc(6) [OF Cons.prems(3)] by (metis tables_nth active_def)+
    have act: "active me s1" using fc(6) Cons.prems(3) by simp
    note cl = clear_fd_inv [OF fc(1) act fd, unfolded of, OF Some]
    have "files_ok (clear_fd me fd s1)" using cl(1) by (rule files_inv_mono) auto
    moreover have "active me (clear_fd me fd s1)" using cl(3) act by simp
    ultimately have "files_ok t \<and> active me t \<and> (\<forall>g < NOFILE. g \<in> set fds \<or> p_ofile (my_proc me (clear_fd me fd s1)) ! g = None \<longrightarrow>
        p_ofile (my_proc me t) ! g = None)"
      using Cons.IH [OF rest] Cons.prems(4) by simp
    moreover have "length (p_ofile (my_proc me s)) = NOFILE" using Cons.prems(2) me by (auto simp: files_inv_def tables_def)
    ultimately show ?thesis using me1 fd by (auto simp: clear_fd_def set_my_def of nth_update)
  qed
qed simp

lemma close_sems_same: "same s (fst (close_sems me sds (s, q)))"
proof (induction sds arbitrary: s q)
  case (Cons sd sds)
  show ?case
  proof (cases "p_osem (my_proc me s) ! sd")
    case (Some i)
    obtain r q' pt where c: "sem_close i (q, k_pt s) = (r, q', pt)" by (cases "sem_close i (q, k_pt s)")
    have "pt = k_pt s \<or> pt = wakeup StableChan (k_pt s)" using c by (auto simp: sem_close_def Let_def split: if_splits)
    then have "same s (s\<lparr>k_pt := pt\<rparr>)" by auto
    then have "same s (set_my me (\<lambda>p. p\<lparr>p_osem := (p_osem p)[sd := None]\<rparr>) (s\<lparr>k_pt := pt\<rparr>))" by simp
    from same_trans [OF this Cons.IH] show ?thesis using Some c by simp
  qed (use Cons.IH in auto)
qed simp

lemma adopt_keeps:
  "length (procs (adopt me i pt)) = length (procs pt) \<and>
   (\<forall>j < length (procs pt). p_ofile (procs (adopt me i pt) ! j) = p_ofile (procs pt ! j) \<and> idle (procs (adopt me i pt) ! j) = idle (procs pt ! j))"
  by (auto simp: adopt_def Let_def wakeup1_def nth_update idle_def)

lemma exit_tail_keeps:
  "length (procs (exit_tail me pt)) = length (procs pt) \<and>
   (\<forall>j < length (procs pt). p_ofile (procs (exit_tail me pt) ! j) = p_ofile (procs pt ! j) \<and>
      (j \<noteq> me \<longrightarrow> idle (procs (exit_tail me pt) ! j) = idle (procs pt ! j)))"
proof -
  have f: "length (procs (fold (adopt me) is pt)) = length (procs pt) \<and>
    (\<forall>j < length (procs pt). p_ofile (procs (fold (adopt me) is pt) ! j) = p_ofile (procs pt ! j) \<and>
      idle (procs (fold (adopt me) is pt) ! j) = idle (procs pt ! j))" for "is" pt
  proof (induction "is" arbitrary: pt)
    case (Cons i "is")
    then show ?case using adopt_keeps [of me i pt] by simp
  qed simp
  show ?thesis
    using f [of "[0..<length (procs pt)]" "wakeup1 (proc_chan (p_parent (proc_at pt me))) pt"]
    by (auto simp: exit_tail_def Let_def wakeup1_def nth_update idle_def)
qed

lemma exit_inv:
  assumes "exit kend me (s, q) = Inr (t, q')" "files_ok s" "active me s"
  shows "files_ok t"
proof -
  obtain s1 where c: "close_files kend me [0..<NOFILE] s = Inr s1"
    using assms(1) by (auto simp: exit_def split: if_splits)
  have cf: "files_ok s1 \<and> active me s1 \<and> (\<forall>fd < NOFILE. p_ofile (my_proc me s1) ! fd = None)"
    using close_files_inv [OF c assms(2,3)] by (auto simp: atLeast0LessThan)
  then have ok1: "files_ok s1" "active me s1" by auto
  have none1: "set (p_ofile (my_proc me s1)) \<subseteq> {None}"
  proof -
    have "length (p_ofile (my_proc me s1)) = NOFILE" using ok1 by (auto simp: files_inv_def tables_def active_def)
    then show ?thesis using cf by (auto simp: in_set_conv_nth)
  qed
  obtain s2 q2 where cs: "close_sems me [0..<NOSEM] (s1, q) = (s2, q2)" by (cases "close_sems me [0..<NOSEM] (s1, q)")
  define rest where "rest = (\<lambda>s. bindE (begin_op me s) (\<lambda>s. case p_cwd (my_proc me s) of None \<Rightarrow> Inl BadAccess
       | Some cwd \<Rightarrow> bindE (on_fs (iput cwd) s) (\<lambda>s. bindE (end_op s) (\<lambda>s. Inr (set_my me (\<lambda>p. p\<lparr>p_cwd := None\<rparr>) s)))))"
  obtain s3 where r: "rest s2 = Inr s3" and t: "t = s3\<lparr>k_pt := exit_tail me (k_pt s3)\<rparr>"
    using assms(1) c cs by (auto simp: exit_def rest_def Let_def split: if_splits option.splits)
  have "keeps s2 id (rest s2)" unfolding rest_def by (intro keeps) simp_all
  from keepsD [OF this r] have "same s2 s3" by simp
  moreover have "same s1 s2" using close_sems_same [of s1 me "[0..<NOSEM]" q] cs by simp
  ultimately have st: "same s1 s3" by (auto intro: same_trans)
  have me: "me < length (procs (k_pt s1))" using ok1(2) by (simp add: active_def)
  note ex = exit_tail_keeps [of me "k_pt s3"]
  have tab: "tables t = tables s3" using ex by (auto simp: t tables_def intro!: nth_equalityI)
  show ?thesis
  proof (rule files_inv_view [OF files_inv_same [OF st ok1(1)] tab])
    show "k_ft t = k_ft s3" by (simp add: t)
    fix i assume i: "i < length (procs (k_pt t))" "idle (my_proc i t)"
    then have i3: "i < length (procs (k_pt s3))" using ex by (simp add: t)
    show "set (p_ofile (my_proc i t)) \<subseteq> {None}"
    proof (cases "i = me")
      case True
      then show ?thesis using none1 same_nth(5) [OF st me] ex i3 by (simp add: t)
    next
      case False
      then show ?thesis using i ex i3 files_inv_same [OF st ok1(1)] by (auto simp: t files_inv_def)
    qed
  qed
qed

lemma wait_keeps: "active me s \<Longrightarrow> keeps s snd (wait kend me s)"
proof -
  assume act: "active me s"
  have reap: "same s (t\<lparr>k_pt := reap i (k_pt t)\<rparr>)" if "wait_find me (k_pt s) = Reap i" "same s t" for i t
  proof -
    have z: "i < length (procs (k_pt s))" "idle (my_proc i s)"
      using that(1) by (auto simp: wait_find_def idle_def split: option.splits if_splits dest: scan_Some_less scan_Some_holds)
    have "same t (t\<lparr>k_pt := reap i (k_pt t)\<rparr>)"
      using z same_nth(2) [OF that(2)] same_nth(6) [OF that(2), of i] by (intro same_procs) (auto simp: reap_def nth_update idle_def)
    with that(2) show ?thesis by (rule same_trans)
  qed
  have sl: "same s (s\<lparr>k_pt := sleep_begin me (ProcChan me) (k_pt s)\<rparr>)"
    using act by (intro same_procs) (auto simp: sleep_begin_def nth_update idle_def active_def)
  show ?thesis
  proof (cases "wait_find me (k_pt s)")
    case (Reap i)
    have "same s (s\<lparr>k_km := k, k_pt := reap i (k_pt s)\<rparr>)" for k using reap [OF Reap, of "s\<lparr>k_km := k\<rparr>"] by simp
    then show ?thesis using Reap
      by (auto simp: keeps_def wait_def Let_def on_km_def)
  qed (use sl in \<open>auto simp: keeps_def wait_def\<close>)
qed

section \<open>The first process\<close>

lemma set_my_twice:
  "set_my i (\<lambda>q. q\<lparr>p_cwd := c, p_state := st\<rparr>) s = set_my i (\<lambda>q. q\<lparr>p_state := st\<rparr>) (set_my i (\<lambda>q. q\<lparr>p_cwd := c\<rparr>) s)"
  by (cases "i < length (procs (k_pt s))") (simp_all add: set_my_def set_proc_def list_update_beyond)

lemma userinit_inv:
  assumes "userinit kend kdata forkret ini isz dv s = Inr t" "files_ok s"
  shows "files_ok t"
proof -
  obtain o1 s1 where al: "alloc_proc forkret s = (o1, s1)" by (cases "alloc_proc forkret s")
  note a = alloc_proc_inv [OF al assms(2)]
  obtain p where p: "o1 = Some p" using assms(1) al by (cases o1) (auto simp: userinit_def)
  note np = a(5) [OF p]
  define s2 where "s2 = s1\<lparr>k_pt := (k_pt s1)\<lparr>initproc := Some p\<rparr>\<rparr>"
  have st2: "same s1 s2" by (simp add: s2_def same_def tables_def idles_def)
  define rest where "rest = bindE (on_km2 (setupkvm kend kdata) s2) (\<lambda>(pgdir, s).
        let s = set_my p (\<lambda>q. q\<lparr>p_pgdir := pgdir\<rparr>) s in
        if pgdir = 0 then Inl (Panic ''userinit: out of memory?'')
        else bindE (on_km (inituvm pgdir ini isz) s) (\<lambda>s.
          bindE (safestrcpy (p_name (my_proc p s)) initcode_name 16) (\<lambda>name.
          let s = set_my p (\<lambda>q. q\<lparr>p_sz := PGSIZE, p_tf := user_trapframe, p_name := name\<rparr>) s in
          bindE (on_fs2 (namei dv (my_pid p s) 0 [47, 0]) s) (\<lambda>(cwd, s).
            Inr (set_my p (\<lambda>q. q\<lparr>p_cwd := cwd\<rparr>) s)))))"
  obtain s3 where r: "rest = Inr s3" and t: "t = set_my p (\<lambda>q. q\<lparr>p_state := RUNNABLE\<rparr>) s3"
    using assms(1) al p
    by (auto simp: userinit_def rest_def s2_def Let_def set_my_twice split: if_splits)
  have "keeps s2 id rest" unfolding rest_def by (intro keeps) simp_all
  from keepsD [OF this r] have st: "same s1 s3" using st2 by (auto intro: same_trans)
  have "same s3 t" unfolding t by (rule set_state_same) (use np active_same [OF st] in auto)
  with st have "same s1 t" by (rule same_trans)
  from files_inv_same [OF this a(1)] show ?thesis .
qed

section \<open>All runs\<close>

text \<open>
  What the scheduler and the devices do between calls: they change states of processes that are
  in use, the clock and the memory of the process that runs.
\<close>

datatype shift = Run nat | Yield nat | Awake nat | Wake chan | Mark uint

fun shift_to :: "shift \<Rightarrow> ptable \<Rightarrow> ptable" where
  "shift_to (Run i) pt = scheduler_run i pt"
| "shift_to (Yield i) pt = yield_begin i pt"
| "shift_to (Awake i) pt = sleep_end i pt"
| "shift_to (Wake ch) pt = wakeup ch pt"
| "shift_to (Mark pid) pt = snd (kill pid pt)"

fun shift_of :: "shift \<Rightarrow> nat option" where
  "shift_of (Run i) = Some i"
| "shift_of (Yield i) = Some i"
| "shift_of (Awake i) = Some i"
| "shift_of _ = None"

lemma shift_same:
  assumes "\<And>i. shift_of h = Some i \<Longrightarrow> active i s"
  shows "same s (s\<lparr>k_pt := shift_to h (k_pt s), k_um := um\<rparr>)"
proof (cases h)
  case (Run i)
  with assms have "active i s" by simp
  then have "same s (s\<lparr>k_pt := shift_to h (k_pt s)\<rparr>)" unfolding Run
    by (intro same_procs) (auto simp: scheduler_run_def nth_update idle_def active_def)
  then show ?thesis by simp
next
  case (Yield i)
  with assms have "active i s" by simp
  then have "same s (s\<lparr>k_pt := shift_to h (k_pt s)\<rparr>)" unfolding Yield
    by (intro same_procs) (auto simp: yield_begin_def nth_update idle_def active_def)
  then show ?thesis by simp
next
  case (Awake i)
  have "same s (s\<lparr>k_pt := shift_to h (k_pt s)\<rparr>)" unfolding Awake
    by (intro same_procs) (auto simp: sleep_end_def nth_update idle_def)
  then show ?thesis by simp
next
  case (Mark pid)
  have "same s (s\<lparr>k_pt := shift_to h (k_pt s)\<rparr>)" unfolding Mark
    by (intro same_procs) (auto simp: kill_def nth_update idle_def split: option.split)
  then show ?thesis by simp
qed simp

end
