(* ===== verification/Fork_Child.thy ===== *)
theory Fork_Child
  imports File_References
begin

text \<open>What \<open>fork\<close> makes of the process that calls it: a child that is its copy.\<close>

section \<open>Filling the tables of the child\<close>

text \<open>Table \<open>new\<close> filled up from table \<open>old\<close> at the entries of \<open>is\<close>.\<close>

definition filled :: "nat list \<Rightarrow> nat option list \<Rightarrow> nat option list \<Rightarrow> nat option list" where
  "filled is old new = map (\<lambda>i. if i \<in> set is \<and> old ! i \<noteq> None then old ! i else new ! i) [0..<length new]"

lemma filled_Nil: "filled [] old new = new"
  by (simp add: filled_def map_nth)

lemma filled_Cons:
  "filled (i # is) old new = filled is old (if old ! i = None then new else new[i := old ! i])"
  by (auto simp: filled_def nth_update)

lemma set_my_set_my_ofile:
  "i < length (procs (k_pt s)) \<Longrightarrow> procs (k_pt (set_my i f s)) = (procs (k_pt s))[i := f (my_proc i s)]"
  by (simp add: set_my_def)

lemma dup_files_procs:
  assumes "dup_files me np is s = Inr t" "me \<noteq> np" "np < length (procs (k_pt s))"
  shows "procs (k_pt t) = (procs (k_pt s))[np := (my_proc np s)\<lparr>p_ofile := filled is (p_ofile (my_proc me s)) (p_ofile (my_proc np s))\<rparr>]
    \<and> k_km t = k_km s"
  using assms
proof (induction "is" arbitrary: s)
  case Nil
  then show ?case by (simp add: filled_Nil)
next
  case (Cons i "is")
  show ?case
  proof (cases "p_ofile (my_proc me s) ! i")
    case None
    then show ?thesis using Cons by (simp add: filled_Cons)
  next
    case (Some f)
    obtain s1 where d: "filedup f s = Inr (f, s1)"
      and rest: "dup_files me np is (set_my np (\<lambda>p. p\<lparr>p_ofile := (p_ofile p)[i := Some f]\<rparr>) s1) = Inr t"
      using Cons.prems(1) Some by (auto simp: filedup_def split: if_splits)
    have s1: "k_pt s1 = k_pt s" "k_km s1 = k_km s" using d by (auto simp: filedup_def set_file_def split: if_splits)
    show ?thesis
      using Cons.IH [OF rest] Cons.prems(2,3) Some by (simp add: set_my_def s1 filled_Cons)
  qed
qed

lemma dup_sems_procs:
  assumes "dup_sems me np is (s, q) = (t, q')" "me \<noteq> np" "np < length (procs (k_pt s))"
  shows "procs (k_pt t) = (procs (k_pt s))[np := (my_proc np s)\<lparr>p_osem := filled is (p_osem (my_proc me s)) (p_osem (my_proc np s))\<rparr>]
    \<and> k_km t = k_km s"
  using assms
proof (induction "is" arbitrary: s q)
  case Nil
  then show ?case by (simp add: filled_Nil)
next
  case (Cons i "is")
  show ?case
  proof (cases "p_osem (my_proc me s) ! i")
    case None
    then show ?thesis using Cons by (simp add: filled_Cons)
  next
    case (Some sd)
    have rest: "dup_sems me np is (set_my np (\<lambda>p. p\<lparr>p_osem := (p_osem p)[i := Some sd]\<rparr>) s, semdup sd q) = (t, q')"
      using Cons.prems(1) Some by simp
    show ?thesis
      using Cons.IH [OF rest] Cons.prems(2,3) Some by (simp add: set_my_def filled_Cons)
  qed
qed

lemma filled_all: "length old = n \<Longrightarrow> length new = n \<Longrightarrow> set new \<subseteq> {None} \<Longrightarrow> filled [0..<n] old new = old"
  by (auto simp: filled_def none_nth intro!: nth_equalityI)

section \<open>The child\<close>

text \<open>The process table with a new child of \<open>me\<close> in it, whose pid is \<open>r\<close>.\<close>

definition forked_child :: "uint \<Rightarrow> uint \<Rightarrow> uint \<Rightarrow> nat \<Rightarrow> kern \<Rightarrow> int \<Rightarrow> kern \<Rightarrow> bool" where
  "forked_child kend kdata forkret me s r t \<longleftrightarrow> (\<exists>np. np < length (procs (k_pt s)) \<and> p_state (my_proc np s) = UNUSED \<and>
    (\<forall>j. j \<noteq> np \<longrightarrow> my_proc j t = my_proc j s) \<and>
    (let p = my_proc me s; c = my_proc np t in
       r = sint (p_pid c) \<and> p_pid c = nextpid (k_pt s) \<and> p_state c = RUNNABLE \<and> p_parent c = Some me \<and>
       p_sz c = p_sz p \<and> p_tf c = (p_tf p)\<lparr>tf_eax := 0\<rparr> \<and> cx_eip (p_context c) = forkret \<and> p_kstack c = fst (kalloc (k_km s)) \<and>
       p_ofile c = p_ofile p \<and> p_cwd c = p_cwd p \<and> safestrcpy (p_name (my_proc np s)) (p_name p) 16 = Inr (p_name c) \<and>
       p_osem c = filled [0..<NOSEM] (p_osem p) (p_osem (my_proc np s)) \<and>
       copyuvm kend kdata (p_pgdir p) (p_sz p) (snd (kalloc (k_km s))) = Inr (p_pgdir c, k_km t)))"

lemma fork_child:
  assumes "fork kend kdata forkret me (s, q) = Inr (r, t, q')" "files_ok s" "active me s"
  shows "(r = -1 \<and> (\<forall>j. active j s \<longrightarrow> my_proc j t = my_proc j s)) \<or> forked_child kend kdata forkret me s r t"
  using assms(1)
proof (cases rule: fork_steps)
  case (child np s1 pgdir s2 s5 cwd s7 name)
  obtain pt km where al: "allocproc forkret (k_pt s, k_km s) = (Some np, pt, km)" and s1: "s1 = s\<lparr>k_pt := pt, k_km := km\<rparr>"
    using child(1) by (auto simp: alloc_proc_def split: prod.splits)
  note ap = allocproc_Some [OF al]
  have of1: "p_ofile (my_proc np s1) = p_ofile (my_proc np s) \<and> p_osem (my_proc np s1) = p_osem (my_proc np s) \<and> p_name (my_proc np s1) = p_name (my_proc np s)"
    using al by (auto simp: s1 allocproc_def alloc_slot_def Let_def nth_update split: option.splits prod.splits if_splits)
  have ne: "me \<noteq> np" using ap assms(3) by (auto simp: active_def idle_def)
  have np: "np < length (procs (k_pt s1))" using ap by (simp add: s1)
  have me1: "my_proc me s1 = my_proc me s" using ap ne by (simp add: s1)
  obtain km2 where s2: "s2 = s1\<lparr>k_km := km2\<rparr>" and cp: "copyuvm kend kdata (p_pgdir (my_proc me s)) (p_sz (my_proc me s)) km = Inr (pgdir, km2)"
    using child(2) me1 by (auto simp: on_km2_def s1)
  let ?s4 = "set_my np (\<lambda>p. p\<lparr>p_sz := p_sz (my_proc me s1), p_parent := Some me, p_tf := (p_tf (my_proc me s1))\<lparr>tf_eax := 0\<rparr>\<rparr>)
    (set_my np (\<lambda>p. p\<lparr>p_pgdir := pgdir\<rparr>) s2)"
  let ?s6 = "set_my np (\<lambda>p. p\<lparr>p_cwd := Some cwd\<rparr>) (s5\<lparr>k_fs := snd (idup cwd (k_fs s5))\<rparr>)"
  have np4: "np < length (procs (k_pt ?s4))" using np by (simp add: s2 set_my_def)
  note d = dup_files_procs [OF child(4) ne np4]
  have np6: "np < length (procs (k_pt ?s6))" using d np4 by (simp add: set_my_def)
  note e = dup_sems_procs [OF child(6) ne np6]
  have lens: "length (p_ofile (my_proc me s)) = NOFILE" "length (p_ofile (my_proc np s)) = NOFILE" "set (p_ofile (my_proc np s)) \<subseteq> {None}"
    using assms(2,3) ap by (auto simp: files_inv_def tables_def active_def idle_def)
  show ?thesis
    using ap child(5,7,8,9) d e ne np cp of1 filled_all [OF lens]
    by (intro disjI2) (simp add: forked_child_def me1 s2 s1 set_my_def Let_def exI [of _ np])
next
  case refused
  then obtain pt km where "allocproc forkret (k_pt s, k_km s) = (None, pt, km)" "t = s\<lparr>k_pt := pt, k_km := km\<rparr>"
    by (auto simp: alloc_proc_def split: prod.splits)
  then show ?thesis using refused(1) allocproc_None by (fastforce simp: active_def idle_def)
next
  case (no_memory np s1 s2 s4)
  obtain pt km where al: "allocproc forkret (k_pt s, k_km s) = (Some np, pt, km)" and s1: "s1 = s\<lparr>k_pt := pt, k_km := km\<rparr>"
    using no_memory(2) by (auto simp: alloc_proc_def split: prod.splits)
  have "j \<noteq> np" if "active j s" for j using allocproc_Some [OF al] that by (auto simp: active_def idle_def)
  then show ?thesis
    using no_memory(1,3-5) allocproc_Some [OF al] by (auto simp: on_km2_def on_km_def s1 set_my_def nth_update)
qed

text \<open>
  C6. When \<open>fork\<close> returns it has made a copy or nothing. Either it returns -1 and the entries of all processes are
  as they were, or a free entry has become a child whose pid is returned to the parent: it has
  the parent's registers with 0 as the result of the call, its size, open files, semaphores,
  current directory and name, a stack and a copy of the memory of its own, and it is runnable.
\<close>

theorem fork_copies_process:
  assumes "files_ok s" "active me s"
  shows "case fork kend kdata forkret me (s, q) of Inl e \<Rightarrow> True
    | Inr (r, t, q') \<Rightarrow> (r = -1 \<and> (\<forall>j. active j s \<longrightarrow> my_proc j t = my_proc j s)) \<or> forked_child kend kdata forkret me s r t"
  using fork_child [OF _ assms] by (auto split: sum.split)

text \<open>One process, and no memory left.\<close>

definition one_process :: kern where
  "one_process =
     \<lparr>k_pt = \<lparr>procs = zero_proc\<lparr>p_sz := 4096, p_state := RUNNING, p_pid := 1\<rparr> # replicate 63 zero_proc, initproc = Some 0, nextpid = 2\<rparr>,
      k_km = \<lparr>use_lock = True, freelist = 0, pages = \<lambda>_. 0\<rparr>, k_ft = [],
      k_pipes = \<lambda>_. \<lparr>pi_data = [], nread = 0, nwrite = 0, readopen = False, writeopen = False\<rparr>,
      k_fs = \<lparr>fs_log = \<lparr>lstart = 2, lsize = 30, outstanding = 0, committing = False, lh = []\<rparr>,
        fs_store = \<lparr>disk = \<lambda>_. [], pinned = \<lambda>_. None, writes = []\<rparr>,
        fs_sb = \<lparr>sb_size = 0, sb_nblocks = 0, sb_ninodes = 0, sb_nlog = 0, sb_logstart = 0, sb_inodestart = 0, sb_bmapstart = 0\<rparr>,
        icache = []\<rparr>,
      k_um = \<lambda>_. 0\<rparr>"

lemma k_ft_one_process: "k_ft one_process = []"
  by (simp add: one_process_def)

lemma fork_copies_process_witness:
  "\<exists>t. fork 0x80100000 0x80108000 0 0 (one_process, []) = Inr (-1, t, []) \<and> my_proc 0 t = my_proc 0 one_process"
proof -
  have p: "p_ofile p = replicate NOFILE None" if "p \<in> set (procs (k_pt one_process))" for p
    using that by (auto simp: one_process_def zero_proc_def)
  then have "tables one_process = replicate 64 (replicate NOFILE None)"
    using replicate_Suc [of 63 "replicate NOFILE None :: nat option list"] by (simp add: tables_def one_process_def zero_proc_def)
  moreover have "desc (replicate 64 (replicate NOFILE None)) f = 0" for f
    by (simp add: desc_def map_replicate)
  moreover have "p_ofile (my_proc i one_process) = replicate NOFILE None" if "i < length (procs (k_pt one_process))" for i
    using p [OF nth_mem [OF that]] .
  ultimately have ok: "files_ok one_process" by (auto simp: files_inv_def k_ft_one_process)
  have act: "active 0 one_process" by (simp add: active_def idle_def one_process_def)
  have "case fork 0x80100000 0x80108000 0 0 (one_process, []) of Inl e \<Rightarrow> False | Inr (r, t, q) \<Rightarrow> r = -1 \<and> q = []"
    by code_simp
  then have "\<exists>t. fork 0x80100000 0x80108000 0 0 (one_process, []) = Inr (-1, t, [])" by (auto split: sum.splits)
  then obtain t where t: "fork 0x80100000 0x80108000 0 0 (one_process, []) = Inr (-1, t, [])" by blast
  have "\<not> forked_child ke kd fr 0 one_process (-1) t" for ke kd fr
    by (auto simp: forked_child_def Let_def one_process_def)
  then show ?thesis using t fork_copies_process [OF ok act, of "0x80100000" "0x80108000" 0 "[]"] act by auto
qed

end
