(* ===== verification/Kernel_Calls.thy ===== *)
theory Kernel_Calls
  imports Fork_Child Trap
begin

text \<open>
  The kernel as a whole: what the entries of the table of system calls do, and the runs made of
  the calls of all processes and of the scheduler. \<open>Sleep\<close> and \<open>Uptime\<close> and the calls on
  semaphores are not here: they touch no file (\<open>Process\<close>, \<open>Sem_System\<close>). The main property
  is that open files are counted exactly and that descriptors refer to open pipes and inodes.
\<close>

section \<open>The calls of the table\<close>

text \<open>The addresses the linker gives, and the device switch.\<close>

record linkage =
  lk_end :: uint
  lk_data :: uint
  lk_forkret :: uint
  lk_init :: uint
  lk_initsize :: uint
  lk_devsw :: devsw

text \<open>The result is \<open>None\<close> while the process waits or when it is gone.\<close>

definition answer :: "sem list \<Rightarrow> (int \<times> kern) res \<Rightarrow> (int option \<times> kern \<times> sem list) res" where
  "answer q m = mapE (\<lambda>(r, s). (Some r, s, q)) m"

fun kernel_call :: "linkage \<Rightarrow> call \<Rightarrow> nat \<Rightarrow> kern \<times> sem list \<Rightarrow> (int option \<times> kern \<times> sem list) res" where
  "kernel_call K Fork me (s, q) = mapE (\<lambda>(r, x). (Some r, x)) (fork (lk_end K) (lk_data K) (lk_forkret K) me (s, q))"
| "kernel_call K Exit me (s, q) = mapE (\<lambda>x. (None, x)) (exit (lk_end K) me (s, q))"
| "kernel_call K Wait me (s, q) = mapE (\<lambda>(r, s). (r, s, q)) (wait (lk_end K) me s)"
| "kernel_call K Make_Pipe me (s, q) = answer q (sys_pipe (lk_end K) me s)"
| "kernel_call K Read me (s, q) = answer q (sys_read (lk_devsw K) me s)"
| "kernel_call K Kill me (s, q) = answer q (Inr (sys_kill me s))"
| "kernel_call K Exec me (s, q) = answer q (sys_exec (lk_end K) (lk_data K) (lk_devsw K) me s)"
| "kernel_call K Fstat me (s, q) = answer q (sys_fstat me s)"
| "kernel_call K Chdir me (s, q) = answer q (sys_chdir (lk_devsw K) me s)"
| "kernel_call K Dup me (s, q) = answer q (sys_dup me s)"
| "kernel_call K Getpid me (s, q) = answer q (Inr (sys_getpid me s, s))"
| "kernel_call K Sbrk me (s, q) = answer q (sys_sbrk (lk_end K) me s)"
| "kernel_call K Open me (s, q) = answer q (sys_open (lk_end K) (lk_devsw K) me s)"
| "kernel_call K Write me (s, q) = answer q (sys_write (lk_devsw K) me s)"
| "kernel_call K Mknod me (s, q) = answer q (sys_mknod (lk_devsw K) me s)"
| "kernel_call K Unlink me (s, q) = answer q (sys_unlink (lk_devsw K) me s)"
| "kernel_call K Link me (s, q) = answer q (sys_link (lk_devsw K) me s)"
| "kernel_call K Mkdir me (s, q) = answer q (sys_mkdir (lk_devsw K) me s)"
| "kernel_call K Close me (s, q) = answer q (sys_close (lk_end K) me s)"
| "kernel_call K _ me (s, q) = Inl Stuck"

section \<open>Runs\<close>

definition zero_ofile :: ofile where
  "zero_ofile = \<lparr>f_type = FD_NONE, f_ref = 0, f_readable = False, f_writable = False, f_pipe = 0, f_ip = 0, f_off = 0\<rparr>"

text \<open>The tables as the kernel starts with them: no process has an open file.\<close>

definition nothing_open :: "kern \<Rightarrow> bool" where
  "nothing_open s \<longleftrightarrow> k_ft s = replicate NFILE zero_ofile \<and> (\<forall>p \<in> set (procs (k_pt s)). p_ofile p = replicate NOFILE None)"

text \<open>What the calls on semaphores change of a process.\<close>

definition with_sems :: "(nat option list) list \<Rightarrow> ptable \<Rightarrow> ptable" where
  "with_sems os pt = pt\<lparr>procs := map2 (\<lambda>p o'. p\<lparr>p_osem := o'\<rparr>) (procs pt) os\<rparr>"

inductive kernel_run :: "linkage \<Rightarrow> kern \<times> sem list \<Rightarrow> bool" for K where
  boot: "nothing_open s \<Longrightarrow> kernel_run K (s, q)"
| init: "kernel_run K (s, q) \<Longrightarrow>
     userinit (lk_end K) (lk_data K) (lk_forkret K) (lk_init K) (lk_initsize K) (lk_devsw K) s = Inr t \<Longrightarrow> kernel_run K (t, q)"
| system_call: "kernel_run K (s, q) \<Longrightarrow> active me s \<Longrightarrow> kernel_call K c me (s, q) = Inr (r, t, q') \<Longrightarrow> kernel_run K (t, q')"
| schedule: "kernel_run K (s, q) \<Longrightarrow> (\<And>i. shift_of h = Some i \<Longrightarrow> active i s) \<Longrightarrow>
     kernel_run K (s\<lparr>k_pt := shift_to h (k_pt s), k_um := um\<rparr>, q)"
| semaphores: "kernel_run K (s, q) \<Longrightarrow> length os = length (procs (k_pt s)) \<Longrightarrow>
     kernel_run K (s\<lparr>k_pt := with_sems os (k_pt s)\<rparr>, q')"

section \<open>Open files are counted\<close>

lemma kernel_call_files:
  assumes "kernel_call K c me (s, q) = Inr (r, t, q')" "files_ok s" "active me s"
  shows "files_ok t"
proof -
  have via: "files_ok t" if "answer q m = Inr (r, t, q')" "safe me s snd m" for m
    using that assms(2,3) by (auto simp: answer_def safe_def)
  have kill: "keeps s snd (Inr (sys_kill me s))"
  proof -
    have "same s (s\<lparr>k_pt := snd (kill pid (k_pt s))\<rparr>)" for pid using shift_same [of "Mark pid" s "k_um s"] by simp
    then show ?thesis by (auto simp: keeps_def sys_kill_def case_prod_beta split: option.split)
  qed
  have reads: "safe me s snd (sys_read dv me s)" "safe me s snd (sys_write dv me s)" "safe me s snd (sys_fstat me s)"
    "safe me s snd (sys_exec ke kd dv me s)" "safe me s snd (sys_chdir dv me s)" "safe me s snd (sys_mkdir dv me s)"
    "safe me s snd (sys_mknod dv me s)" "safe me s snd (sys_link dv me s)" "safe me s snd (sys_unlink dv me s)"
    "safe me s snd (sys_sbrk ke me s)" "safe me s snd (Inr (x, s))" for dv ke kd and x :: int
    by (intro safe_keeps keeps; simp)+
  show ?thesis
  proof (cases c)
    case Fork
    then show ?thesis using assms fork_inv [of _ _ _ me s q _ t q'] by auto
  next
    case Exit
    then show ?thesis using assms exit_inv [of _ me s q t q'] by auto
  next
    case Wait
    then show ?thesis using assms keepsD [OF wait_keeps [OF assms(3)]] files_inv_same by fastforce
  qed (use assms(1) in \<open>auto dest!: via intro!: reads safe_keeps [OF kill] dup_safe close_safe open_safe pipe_safe\<close>)
qed

lemma kernel_run_files: "kernel_run K (s, q) \<Longrightarrow> files_ok s"
proof (induction s q rule: kernel_run.induct [split_format (complete)])
  case (boot s q)
  then have "tables s = replicate (length (procs (k_pt s))) (replicate NOFILE None)"
    by (auto simp: nothing_open_def tables_def intro!: nth_equalityI)
  moreover have "desc (replicate n (replicate m None)) f = 0" for n m f
    by (induction n) (auto simp: desc_def)
  ultimately show ?case using boot by (auto simp: files_inv_def nothing_open_def zero_ofile_def)
next
  case (init s q t)
  then show ?case using userinit_inv by blast
next
  case (system_call s q me c r t q')
  then show ?case using kernel_call_files by blast
next
  case (schedule s q h um)
  then show ?case using shift_same [of h s um] files_inv_same by blast
next
  case (semaphores s q os q')
  have "same s (s\<lparr>k_pt := with_sems os (k_pt s)\<rparr>)"
    using semaphores(2) by (intro same_procs) (auto simp: with_sems_def)
  then show ?case using semaphores.IH files_inv_same by blast
qed

text \<open>
  C4. Open files are counted exactly. In every run of the kernel, over all system calls of all
  processes in any order, the reference count of an open file is the number of descriptors of
  all processes that refer to it; a descriptor always refers to a file that is open and is a
  pipe or an inode, so that \<open>fileread\<close>, \<open>filewrite\<close>, \<open>filedup\<close> and \<open>fileclose\<close> cannot panic on
  it; and processes that have exited hold none.
\<close>

theorem open_files_counted:
  assumes "kernel_run K (s, q)"
  shows "(\<forall>f < length (k_ft s). f_ref (file_at s f) = int (desc (tables s) f) \<and>
      f_ref (file_at s f) \<le> int (length (procs (k_pt s)) * NOFILE)) \<and>
    (\<forall>me n fd f. me < length (procs (k_pt s)) \<longrightarrow> argfd me s n = Some (fd, f) \<longrightarrow>
      f < length (k_ft s) \<and> 1 \<le> f_ref (file_at s f) \<and> f_type (file_at s f) \<in> {FD_PIPE, FD_INODE}) \<and>
    (\<forall>i < length (procs (k_pt s)). p_state (my_proc i s) \<in> {UNUSED, ZOMBIE} \<longrightarrow> set (p_ofile (my_proc i s)) \<subseteq> {None})"
proof (intro conjI allI impI)
  have ok: "files_ok s" using assms by (rule kernel_run_files)
  show "f_ref (file_at s f) = int (desc (tables s) f)" if "f < length (k_ft s)" for f
    using ok that by (simp add: files_inv_def)
  moreover have "desc (tables s) f \<le> length (procs (k_pt s)) * NOFILE" for f
    using desc_le [of "tables s" NOFILE f] ok by (simp add: files_inv_def tables_def)
  ultimately show "f_ref (file_at s f) \<le> int (length (procs (k_pt s)) * NOFILE)" if "f < length (k_ft s)" for f
    using that by (metis of_nat_mono)
  fix me n fd f assume me: "me < length (procs (k_pt s))" and a: "argfd me s n = Some (fd, f)"
  note d = descriptor_open [OF ok me, of fd f]
  show "f < length (k_ft s)" "1 \<le> f_ref (file_at s f)" "f_type (file_at s f) \<in> {FD_PIPE, FD_INODE}"
    using argfd_open [OF a] d by (auto intro: ftype.exhaust [of "f_type (file_at s f)"])
next
  fix i assume "i < length (procs (k_pt s))" "p_state (my_proc i s) \<in> {UNUSED, ZOMBIE}"
  then show "set (p_ofile (my_proc i s)) \<subseteq> {None}"
    using kernel_run_files [OF assms] by (auto simp: files_inv_def idle_def)
qed

text \<open>A process that has made a pipe: two descriptors, two open files.\<close>

definition pipe_maker :: kern where
  "pipe_maker = one_process\<lparr>k_km := \<lparr>use_lock = True, freelist = 0x80400000, pages = \<lambda>_. 0\<rparr>, k_ft := replicate NFILE zero_ofile\<rparr>"

lemma pipe_made:
  "case sys_pipe 0x80100000 0 pipe_maker of
     Inl e \<Rightarrow> False
   | Inr (r, t) \<Rightarrow> r = 0 \<and> take 2 (tables t ! 0) = [Some 0, Some 1] \<and>
       map f_ref (take 3 (k_ft t)) = [1, 1, 0] \<and> length (k_ft t) = 100 \<and> length (procs (k_pt t)) = 64"
  by code_simp

lemma open_files_counted_witness:
  "\<exists>K t. kernel_run K (t, []) \<and> tables t ! 0 ! 1 = Some 1 \<and> f_ref (file_at t 1) = 1 \<and> desc (tables t) 1 = 1 \<and> desc (tables t) 2 = 0"
proof -
  define K where "K = \<lparr>lk_end = 0x80100000, lk_data = 0x80108000, lk_forkret = 0, lk_init = 0, lk_initsize = 0,
    lk_devsw = (\<lambda>_. None, \<lambda>_. None)\<rparr>"
  obtain t where t: "sys_pipe 0x80100000 0 pipe_maker = Inr (0, t)"
    and p: "take 2 (tables t ! 0) = [Some 0, Some 1]" "map f_ref (take 3 (k_ft t)) = [1, 1, 0]" "length (k_ft t) = 100"
    using pipe_made by (auto split: sum.splits)
  have "nothing_open pipe_maker" by (auto simp: nothing_open_def pipe_maker_def one_process_def zero_proc_def)
  moreover have "active 0 pipe_maker" by (simp add: active_def pipe_maker_def one_process_def idle_def)
  moreover have "kernel_call K Make_Pipe 0 (pipe_maker, []) = Inr (Some 0, t, [])"
    using t by (simp add: K_def answer_def)
  ultimately have run: "kernel_run K (t, [])" by (blast intro: kernel_run.intros)
  have "take 2 (tables t ! 0) ! 1 = Some 1" using p(1) by simp
  then have d: "tables t ! 0 ! 1 = Some 1" by simp
  have "map f_ref (take 3 (k_ft t)) ! 1 = 1" "map f_ref (take 3 (k_ft t)) ! 2 = 0" using p(2) by simp_all
  then have r: "f_ref (file_at t 1) = 1" "f_ref (file_at t 2) = 0" using p(3) by simp_all
  have "f_ref (file_at t 1) = int (desc (tables t) 1)" "f_ref (file_at t 2) = int (desc (tables t) 2)"
    using open_files_counted [OF run] p(3) by simp_all
  with run d r show ?thesis by auto
qed

end
