(* ===== verification/Exec_Stack.thy ===== *)
theory Exec_Stack
  imports Exec Vm_Properties
begin

text \<open>
  The stack \<open>exec\<close> gives a new program: the argument strings, the pointers to them and the
  arguments of \<open>main\<close> lie in the stack page as \<open>main\<close> expects them.
\<close>

section \<open>Reading user memory\<close>

definition reads_as :: "memory \<Rightarrow> uint \<Rightarrow> nat \<Rightarrow> byte list \<Rightarrow> bool" where
  "reads_as m d a bs \<longleftrightarrow> (\<forall>j < length bs. vbyte m d (a + j) = Some (bs ! j))"

text \<open>Only bytes of \<open>d\<close> from \<open>lo\<close> up to \<open>hi\<close> have changed.\<close>

definition changed_in :: "uint set \<Rightarrow> uint \<Rightarrow> nat \<Rightarrow> nat \<Rightarrow> memory \<Rightarrow> memory \<Rightarrow> bool" where
  "changed_in D d lo hi m m' \<longleftrightarrow> (\<forall>e \<in> D. \<forall>b < 0x80000000. vflags m' e b = vflags m e b \<and>
     (\<not> (e = d \<and> lo \<le> b \<and> b < hi) \<longrightarrow> vbyte m' e b = vbyte m e b))"

lemma changed_in_trans:
  "changed_in D d lo hi m m1 \<Longrightarrow> changed_in D d lo' hi' m1 m2 \<Longrightarrow> l \<le> lo \<Longrightarrow> l \<le> lo' \<Longrightarrow> hi \<le> h \<Longrightarrow> hi' \<le> h \<Longrightarrow>
     changed_in D d l h m m2"
  by (auto simp: changed_in_def)

lemma written_changed: "written D d a bs m m' \<Longrightarrow> changed_in D d a (a + length bs) m m'"
  by (auto simp: written_def changed_in_def)

lemma written_reads: "written D d a bs m m' \<Longrightarrow> d \<in> D \<Longrightarrow> a + length bs \<le> 0x80000000 \<Longrightarrow> reads_as m' d a bs"
  by (auto simp: written_def reads_as_def)

lemma reads_as_kept:
  "reads_as m d a bs \<Longrightarrow> changed_in D d lo hi m m' \<Longrightarrow> d \<in> D \<Longrightarrow> a + length bs \<le> 0x80000000 \<Longrightarrow> hi \<le> a \<Longrightarrow> reads_as m' d a bs"
  by (auto simp: reads_as_def changed_in_def)

lemma user_range_flags:
  "user_range m d a z \<longleftrightarrow> (\<forall>b. a \<le> b \<and> b < z \<longrightarrow> vflags m d b AND PTE_P \<noteq> 0 \<and> vflags m d b AND PTE_U \<noteq> 0)"
proof -
  have "PTE_FLAGS e AND PTE_P = e AND PTE_P" "PTE_FLAGS e AND PTE_U = e AND PTE_U" for e
    by (simp_all add: PTE_FLAGS_def PTE_P_def PTE_U_def and.assoc)
  then show ?thesis by (simp add: user_range_def vflags_def)
qed

lemma user_range_kept:
  "user_range m d a z \<Longrightarrow> changed_in D d lo hi m m' \<Longrightarrow> d \<in> D \<Longrightarrow> z \<le> 0x80000000 \<Longrightarrow> user_range m' d a z"
  by (auto simp: user_range_flags changed_in_def)

lemma user_range_sub: "user_range m d a z \<Longrightarrow> a \<le> a' \<Longrightarrow> z' \<le> z \<Longrightarrow> user_range m d a' z'"
  by (auto simp: user_range_def)

text \<open>\<open>copyout\<close> in these terms.\<close>

lemma copyout_reads:
  assumes "vm_inv kend k D H ps" "d \<in> D" "user_range (pages k) d lo hi" "lo \<le> unat va" "unat va + length buf \<le> hi" "hi \<le> 0x80000000"
  obtains k' where "copyout d va buf k = Inr (0, k')" "vm_inv kend k' D H ps"
    "changed_in D d (unat va) (unat va + length buf) (pages k) (pages k')" "reads_as (pages k') d (unat va) buf"
proof -
  have "user_range (pages k) d (unat va) (unat va + length buf)" by (rule user_range_sub [OF assms(3-5)])
  with copyout_ok [OF assms(1,2), of va buf] assms(5,6) obtain k' where
    "copyout d va buf k = Inr (0, k')" "vm_inv kend k' D H ps" "written D d (unat va) buf (pages k) (pages k')" by auto
  then show thesis using that written_changed written_reads [OF _ assms(2)] assms(5,6) by auto
qed

section \<open>The strings\<close>

text \<open>Where the strings go, counted down from \<open>sp\<close>, and where the last of them begins.\<close>

fun arg_places :: "nat \<Rightarrow> byte list list \<Rightarrow> nat list" where
  "arg_places sp [] = []"
| "arg_places sp (a # as) = (let p = (sp - length a) div 4 * 4 in p # arg_places p as)"

fun lowest :: "nat \<Rightarrow> byte list list \<Rightarrow> nat" where
  "lowest sp [] = sp"
| "lowest sp (a # as) = lowest ((sp - length a) div 4 * 4) as"

definition room :: "byte list list \<Rightarrow> nat" where
  "room as = sum_list (map (\<lambda>a. length a + 3) as)"

lemma length_arg_places [simp]: "length (arg_places sp as) = length as"
  by (induction as arbitrary: sp) (simp_all add: Let_def)

lemma align_down: "x - 3 \<le> (x :: nat) div 4 * 4"
  by presburger

lemma lowest_bounds: "lo + room as \<le> sp \<Longrightarrow> lo \<le> lowest sp as \<and> lowest sp as \<le> sp"
proof (induction as arbitrary: sp)
  case (Cons a as)
  have "(sp - length a) div 4 * 4 \<le> sp" using div_times_less_eq_dividend [of "sp - length a" 4] by linarith
  moreover have "lo + room as \<le> (sp - length a) div 4 * 4"
    using Cons.prems align_down [of "sp - length a"] by (simp add: room_def)
  ultimately show ?case using Cons.IH by fastforce
qed (simp add: room_def)

lemma places_bounds:
  "lo + room as \<le> sp \<Longrightarrow> i < length as \<Longrightarrow> lowest sp as \<le> arg_places sp as ! i \<and> arg_places sp as ! i + length (as ! i) \<le> sp"
proof (induction as arbitrary: sp i)
  case (Cons a as)
  define p where "p = (sp - length a) div 4 * 4"
  have fit: "length a \<le> sp" and lo: "lo + room as \<le> p"
    using Cons.prems(1) align_down [of "sp - length a"] unfolding p_def by (simp_all add: room_def)
  then have le: "p + length a \<le> sp" using div_times_less_eq_dividend [of "sp - length a" 4] unfolding p_def by linarith
  show ?case
  proof (cases i)
    case 0
    then show ?thesis using lowest_bounds [OF lo] le by (simp add: p_def Let_def)
  next
    case (Suc j)
    then show ?thesis using Cons.IH [OF lo, of j] Cons.prems(2) le by (simp add: p_def Let_def)
  qed
qed simp

lemma lowest_aligned: "sp mod 4 = 0 \<Longrightarrow> lowest sp as mod 4 = 0"
  by (induction as arbitrary: sp) auto

lemma unat_and_not3: "unat ((w :: uint) AND NOT 3) = unat w div 4 * 4"
proof -
  have m: "(3 :: uint) = mask 2" by (simp add: mask_eq_exp_minus_1)
  have "w AND NOT 3 = push_bit 2 (drop_bit 2 w)"
    unfolding m
  proof (rule bit_word_eqI)
    fix n
    assume "n < LENGTH(32)"
    then show "bit (w AND NOT (mask 2)) n = bit (push_bit 2 (drop_bit 2 w)) n"
      by (cases n; cases "n - 1") (auto simp: bit_simps)
  qed
  moreover have "unat (drop_bit 2 w) = unat w div 4" by (simp add: drop_bit_eq_div unat_div)
  moreover have "unat w div 4 * 4 < 2 ^ 32"
    by (rule le_less_trans [OF div_times_less_eq_dividend]) (use unsigned_less [of w, where 'a = nat] in simp)
  ultimately show ?thesis by (simp add: push_bit_eq_mult unat_word_ariths(2) mult.commute)
qed

lemma unat_minus: "n \<le> unat (w :: uint) \<Longrightarrow> unat (w - of_nat n) = unat w - n"
proof -
  assume n: "n \<le> unat w"
  then have "unat (of_nat n :: uint) = n" using unsigned_less [of w, where 'a = nat] by (simp add: unat_of_nat)
  then show ?thesis using n by (simp add: unat_sub word_le_nat_alt)
qed

lemma push_args_ok:
  assumes "vm_inv kend (k_km s) D H ps" "d \<in> D" "user_range (pages (k_km s)) d lo (unat sp)" "lo + room as \<le> unat sp"
    "unat sp \<le> 0x80000000" "argc + length as \<le> MAXARG"
  shows "\<exists>k'. push_args d argc as sp s = Inr (Some (of_nat (lowest (unat sp) as), map of_nat (arg_places (unat sp) as)), s\<lparr>k_km := k'\<rparr>) \<and>
    vm_inv kend k' D H ps \<and> list_all2 (reads_as (pages k') d) (arg_places (unat sp) as) as \<and>
    changed_in D d (lowest (unat sp) as) (unat sp) (pages (k_km s)) (pages k')"
  using assms(1,3-)
proof (induction as arbitrary: argc sp s)
  case Nil
  then show ?case by (auto simp: changed_in_def intro!: exI [of _ "k_km s"])
next
  case (Cons a as)
  define sp1 where "sp1 = (sp - of_nat (length a)) AND NOT 3"
  have fit: "length a \<le> unat sp" using Cons.prems(3) by (simp add: room_def)
  have p: "unat sp1 = (unat sp - length a) div 4 * 4" by (simp only: sp1_def unat_and_not3 unat_minus [OF fit])
  then have le: "unat sp1 + length a \<le> unat sp"
    using div_times_less_eq_dividend [of "unat sp - length a" 4] fit by linarith
  have lo: "lo + room as \<le> unat sp1"
    using Cons.prems(3) align_down [of "unat sp - length a"] fit unfolding p by (simp add: room_def)
  obtain k1 where k1: "copyout d sp1 a (k_km s) = Inr (0, k1)" "vm_inv kend k1 D H ps"
    "changed_in D d (unat sp1) (unat sp1 + length a) (pages (k_km s)) (pages k1)" "reads_as (pages k1) d (unat sp1) a"
    using copyout_reads [OF Cons.prems(1) assms(2) Cons.prems(2) _ le Cons.prems(4)] lo by auto
  let ?s1 = "s\<lparr>k_km := k1\<rparr>"
  have ur: "user_range (pages (k_km ?s1)) d lo (unat sp1)"
    using user_range_sub [OF user_range_kept [OF Cons.prems(2) k1(3) assms(2) Cons.prems(4)]] le by simp
  obtain k' where k': "push_args d (Suc argc) as sp1 ?s1 =
      Inr (Some (of_nat (lowest (unat sp1) as), map of_nat (arg_places (unat sp1) as)), ?s1\<lparr>k_km := k'\<rparr>)"
    "vm_inv kend k' D H ps" "list_all2 (reads_as (pages k') d) (arg_places (unat sp1) as) as"
    "changed_in D d (lowest (unat sp1) as) (unat sp1) (pages k1) (pages k')"
    using Cons.IH [of ?s1 sp1 "Suc argc"] k1(2) ur lo le Cons.prems(4,5) by auto
  have low: "lowest (unat sp1) as \<le> unat sp1" using lowest_bounds [OF lo] by simp
  have "push_args d argc (a # as) sp s = Inr (Some (of_nat (lowest (unat sp) (a # as)), map of_nat (arg_places (unat sp) (a # as))), s\<lparr>k_km := k'\<rparr>)"
    unfolding push_args.simps lowest.simps arg_places.simps Let_def sp1_def [symmetric] p [symmetric]
    using k1(1) k'(1) Cons.prems(5) by (simp add: on_km2_def)
  moreover have "reads_as (pages k') d (unat sp1) a"
    using reads_as_kept [OF k1(4) k'(4) assms(2)] le Cons.prems(4) by simp
  moreover have "changed_in D d (lowest (unat sp1) as) (unat sp) (pages (k_km s)) (pages k')"
    by (rule changed_in_trans [OF k1(3) k'(4)]) (use low le in simp_all)
  ultimately show ?case using k'(2,3) by (auto simp: p [symmetric] Let_def)
qed

section \<open>The pointers\<close>

lemma reads_words:
  "reads_as m d a (concat (map le32 ws)) \<Longrightarrow> i < length ws \<Longrightarrow> reads_as m d (a + 4 * i) (le32 (ws ! i))"
proof (induction ws arbitrary: a i)
  case (Cons w ws)
  have hd: "reads_as m d a (le32 w)" and tl: "reads_as m d (a + 4) (concat (map le32 ws))"
  proof -
    have "vbyte m d (a + j) = Some (le32 w ! j)" if "j < 4" for j
      using Cons.prems(1) that unfolding reads_as_def by (auto simp: nth_append dest!: spec [of _ j])
    then show "reads_as m d a (le32 w)" by (simp add: reads_as_def)
    have "vbyte m d (a + (4 + j)) = Some (concat (map le32 ws) ! j)" if "j < length (concat (map le32 ws))" for j
      using Cons.prems(1) that unfolding reads_as_def by (auto simp: nth_append dest!: spec [of _ "4 + j"])
    then show "reads_as m d (a + 4) (concat (map le32 ws))" by (simp add: reads_as_def add.assoc)
  qed
  show ?case
  proof (cases i)
    case (Suc j)
    then show ?thesis using Cons.IH [OF tl, of j] Cons.prems(2) by (simp add: add.assoc)
  qed (use hd in simp)
qed simp

lemma length_words [simp]: "length (concat (map le32 ws)) = 4 * length ws"
  by (induction ws) simp_all

text \<open>What \<open>main\<close> finds: a return address, \<open>argc\<close>, \<open>argv\<close>, and behind \<open>argv\<close> the strings and a null pointer.\<close>

definition main_frame :: "memory \<Rightarrow> uint \<Rightarrow> uint \<Rightarrow> byte list list \<Rightarrow> bool" where
  "main_frame m d sp argv \<longleftrightarrow>
     reads_as m d (unat sp) (le32 0xffffffff) \<and>
     reads_as m d (unat sp + 4) (le32 (of_nat (length argv))) \<and>
     reads_as m d (unat sp + 8) (le32 (sp + 12)) \<and>
     (\<forall>i < length argv. \<exists>p. reads_as m d (unat sp + 12 + 4 * i) (le32 p) \<and> reads_as m d (unat p) (argv ! i)) \<and>
     reads_as m d (unat sp + 12 + 4 * length argv) (le32 0)"

lemma main_frame_words:
  assumes "reads_as m d (unat sp) (concat (map le32 ([0xffffffff, of_nat (length argv), sp + 12] @ map of_nat ps @ [0])))"
    and "length ps = length argv" and "\<And>i. i < length argv \<Longrightarrow> reads_as m d (unat (of_nat (ps ! i) :: uint)) (argv ! i)"
  shows "main_frame m d sp argv"
proof -
  define us :: "uint list" where "us = [0xffffffff, of_nat (length argv), sp + 12] @ map of_nat ps @ [0]"
  have word: "reads_as m d (unat sp + 4 * i) (le32 (us ! i))" if "i < length argv + 4" for i
    using reads_words [OF assms(1) [folded us_def]] that assms(2) by (simp add: us_def)
  have "unat sp + 4 * (3 + i) = unat sp + 12 + 4 * i" for i by simp
  note word3 = word [of "3 + i" for i, unfolded this]
  have ptr: "us ! (3 + i) = of_nat (ps ! i)" if "i < length argv" for i
    using that assms(2) by (simp add: us_def nth_append)
  have ptrs: "\<exists>p. reads_as m d (unat sp + 12 + 4 * i) (le32 p) \<and> reads_as m d (unat p) (argv ! i)" if "i < length argv" for i
    using word3 [of i] assms(3) [OF that] ptr [OF that] that by auto
  have "us ! (3 + length argv) = 0" using assms(2) by (simp add: us_def nth_append)
  then have last: "reads_as m d (unat sp + 12 + 4 * length argv) (le32 0)" using word3 [of "length argv"] by simp
  have us3: "us ! 0 = 0xffffffff" "us ! 1 = of_nat (length argv)" "us ! 2 = sp + 12" by (simp_all add: us_def)
  have "reads_as m d (unat sp) (le32 (us ! 0))" "reads_as m d (unat sp + 4) (le32 (us ! 1))" "reads_as m d (unat sp + 8) (le32 (us ! 2))"
    using word [of 0] word [of 1] word [of 2] by simp_all
  note first = this [unfolded us3]
  show ?thesis unfolding main_frame_def by (intro conjI allI impI first last ptrs)
qed

lemma strings_kept:
  assumes "list_all2 (reads_as m d) (arg_places hi argv) argv" "changed_in D d a (lowest hi argv) m m'" "d \<in> D"
    and "lo + room argv \<le> hi" "hi \<le> 0x80000000" "i < length argv"
  shows "reads_as m' d (unat (of_nat (arg_places hi argv ! i) :: uint)) (argv ! i)"
proof -
  define p where "p = arg_places hi argv ! i"
  have b: "lowest hi argv \<le> p" "p + length (argv ! i) \<le> hi" using places_bounds [OF assms(4,6)] by (simp_all add: p_def)
  have "reads_as m d p (argv ! i)" using list_all2_nthD2 [OF assms(1,6)] by (simp add: p_def)
  from reads_as_kept [OF this assms(2,3)] have "reads_as m' d p (argv ! i)" using b assms(5) by simp
  moreover have "unat (of_nat p :: uint) = p" using b assms(5) by (simp add: unat_of_nat)
  ultimately show ?thesis by (simp add: p_def)
qed

text \<open>
  C12. With room for them in the stack page, \<open>exec\<close> puts the arguments on the stack the way
  \<open>main\<close> reads them: \<open>argc\<close>, a pointer to the array of string pointers with its null at the
  end, and the strings with their bytes. The stack pointer is aligned and inside the page,
  and nothing outside the stack page changes, in this address space or another.
\<close>

theorem push_stack_for_main:
  assumes "vm_inv kend (k_km s) D {} ps" "d \<in> D" "user_range (pages (k_km s)) d (unat sz - 4096) (unat sz)"
    and "4096 \<le> unat sz" "unat sz \<le> 0x80000000" "unat sz mod 4096 = 0"
    and "length argv \<le> MAXARG" "room argv + 4 * (length argv + 4) \<le> 4096"
  shows "\<exists>sp k'. push_stack d argv sz s = Inr (Some sp, s\<lparr>k_km := k'\<rparr>) \<and> vm_inv kend k' D {} ps \<and>
    main_frame (pages k') d sp argv \<and> unat sz - 4096 \<le> unat sp \<and> unat sp + 16 \<le> unat sz \<and> unat sp mod 4 = 0 \<and>
    changed_in D d (unat sz - 4096) (unat sz) (pages (k_km s)) (pages k')"
proof -
  define lo where "lo = unat sz - 4096"
  define n where "n = length argv"
  define L where "L = lowest (unat sz) argv"
  have L: "lo + 4 * (n + 4) \<le> L" "L \<le> unat sz" "L < 2 ^ 32" "L \<le> 0x80000000"
  proof -
    have "lo + 4 * (n + 4) + room argv \<le> unat sz" using assms(4,8) by (simp add: lo_def n_def)
    from lowest_bounds [OF this] show "lo + 4 * (n + 4) \<le> L" "L \<le> unat sz" by (simp_all add: L_def)
    then show "L < 2 ^ 32" "L \<le> 0x80000000" using assms(5) by simp_all
  qed
  have fit: "unat sz - 4096 + room argv \<le> unat sz" using assms(4,8) by linarith
  obtain k1 where k1: "push_args d 0 argv sz s = Inr (Some (of_nat L, map of_nat (arg_places (unat sz) argv)), s\<lparr>k_km := k1\<rparr>)"
    "vm_inv kend k1 D {} ps" "list_all2 (reads_as (pages k1) d) (arg_places (unat sz) argv) argv"
    "changed_in D d L (unat sz) (pages (k_km s)) (pages k1)"
    using push_args_ok [OF assms(1-3) fit assms(5), of 0] assms(7) by (auto simp: L_def)
  define args :: "uint list" where "args = map of_nat (arg_places (unat sz) argv)"
  have argc: "length args = n" by (simp add: args_def n_def)
  define sp where "sp = (of_nat L :: uint) - of_nat (4 * (n + 4))"
  have sp: "unat sp = L - 4 * (n + 4)" unfolding sp_def using L(1,3) by (subst unat_minus) (simp_all add: unat_of_nat)
  define us where "us = [0xffffffff, of_nat n, sp + 12] @ args @ [0]"
  have len: "length us = n + 4" by (simp add: us_def args_def n_def)
  have ur: "user_range (pages k1) d lo (unat sz)"
    using user_range_kept [OF assms(3) k1(4) assms(2,5)] by (simp add: lo_def)
  have e: "unat sp + length (concat (map le32 us)) = L" and a: "lo \<le> unat sp" using L(1) by (simp_all add: sp len)
  have b: "unat sp + length (concat (map le32 us)) \<le> unat sz" using e L(2) by simp
  obtain k' where k': "copyout d sp (concat (map le32 us)) k1 = Inr (0, k')" "vm_inv kend k' D {} ps"
    "changed_in D d (unat sp) L (pages k1) (pages k')" "reads_as (pages k') d (unat sp) (concat (map le32 us))"
    using copyout_reads [OF k1(2) assms(2) ur a b assms(5)] unfolding e by blast
  have us: "us = [0xffffffff, of_nat n, of_nat L - (of_nat n + 1) * 4] @ args @ [0]"
    by (simp add: us_def sp_def algebra_simps)
  have "push_stack d argv sz s = Inr (Some sp, s\<lparr>k_km := k'\<rparr>)"
    using k1(1) k'(1) unfolding us by (simp add: push_stack_def args_def [symmetric] sp_def on_km2_def Let_def argc algebra_simps)
  moreover have "changed_in D d lo (unat sz) (pages (k_km s)) (pages k')"
    by (rule changed_in_trans [OF k1(4) k'(3)]) (use L sp in auto)
  moreover have "main_frame (pages k') d sp argv"
  proof (rule main_frame_words)
    show "reads_as (pages k') d (unat sp) (concat (map le32 ([0xffffffff, of_nat (length argv), sp + 12] @ map of_nat (arg_places (unat sz) argv) @ [0])))"
      using k'(4) by (simp add: us_def args_def n_def)
  qed (use strings_kept [OF k1(3) k'(3) [unfolded L_def] assms(2) fit assms(5)] in simp_all)
  moreover have "unat sp mod 4 = 0"
  proof -
    have "unat sz mod 4 = 0" using assms(6) mod_mod_cancel [of 4 4096 "unat sz"] by simp
    from lowest_aligned [OF this] have "L mod 4 = 0" by (simp add: L_def)
    then have "4 dvd L - 4 * (n + 4)" by (intro dvd_diff_nat) (simp_all add: mod_eq_0_iff_dvd)
    then show ?thesis by (simp add: sp mod_eq_0_iff_dvd)
  qed
  ultimately show ?thesis using k'(2) L(1,2) sp by (auto simp: lo_def)
qed

theorem push_stack_for_main_witness:
  "\<exists>k d s sp k'. push_stack d [[104, 105, 0]] 4096 s = Inr (Some sp, s\<lparr>k_km := k'\<rparr>) \<and> k_km s = k \<and>
     main_frame (pages k') d sp [[104, 105, 0]] \<and> unat sp < 4096"
proof -
  obtain k d c ps where k: "vm_inv 0x80100000 k {d, c} {} ps"
    "\<forall>a < 4096. vbyte (pages k) d a = Some 0 \<and> vflags (pages k) d a = PTE_P OR PTE_W OR PTE_U"
    using two_spaces_exist by blast
  define s where "s = (undefined :: kern)\<lparr>k_km := k\<rparr>"
  have s: "k_km s = k" by (simp add: s_def)
  have ur: "user_range (pages (k_km s)) d (unat (4096 :: uint) - 4096) (unat (4096 :: uint))"
    using k(2) by (simp add: user_range_flags s PTE_P_def PTE_W_def PTE_U_def)
  have "vm_inv 0x80100000 (k_km s) {d, c} {} ps" using k(1) s by simp
  from push_stack_for_main [OF this _ ur, of "[[104, 105, 0]]"] obtain sp k' where
    "push_stack d [[104, 105, 0]] 4096 s = Inr (Some sp, s\<lparr>k_km := k'\<rparr>)" "main_frame (pages k') d sp [[104, 105, 0]]"
    "unat sp + 16 \<le> 4096"
    by (auto simp: MAXARG_def room_def)
  then show ?thesis using s by (intro exI [of _ k] exI [of _ d] exI [of _ s] exI [of _ sp] exI [of _ k']) simp
qed

end
