(* ===== verification/Vm_Free.thy ===== *)
theory Vm_Free
  imports Vm_Properties
begin

text \<open>
  \<open>freevm\<close> takes an address space apart: all its user pages, page tables and the directory come
  back to the free list, each once, and no other address space notices.
\<close>

section \<open>The tables\<close>

text \<open>An address space that is given up: its pages are held by the kernel.\<close>

lemma release:
  assumes "vm_inv kend k D H ps" "d \<in> D"
  shows "vm_inv kend k (D - {d}) (H \<union> {v. \<exists>x. own (pages k) d x = Some v}) ps"
proof -
  note I = vm_invD [OF assms(1)]
  show ?thesis unfolding vm_inv_def
  proof (intro conjI ballI allI impI)
    show "kmem_inv kend k ps" by (rule I(1))
  next
    fix v assume "v \<in> H \<union> {v. \<exists>x. own (pages k) d x = Some v}"
    then show "page_ok kend v" "v \<notin> set ps" using I(2,3) I(4,5) [OF assms(2)] by blast+
  next
    fix e x v assume e: "e \<in> D - {d}" and x: "own (pages k) e x = Some v"
    then show "page_ok kend v" "v \<notin> set ps" "v \<notin> H \<union> {v. \<exists>x. own (pages k) d x = Some v}"
      using I(4-6) [of e x v] I(7) [of e d x v] assms(2) by blast+
  next
    fix e e' x y v assume "e \<in> D - {d}" "e' \<in> D - {d}" "own (pages k) e x = Some v" "own (pages k) e' y = Some v"
    then show "e = e'" "x = y" using I(7) [of e e' x v y] by blast+
  qed
qed

definition tabs :: "memory \<Rightarrow> uint \<Rightarrow> nat list \<Rightarrow> uint set" where
  "tabs m d is = {t. \<exists>i \<in> set is. own m d (Table i) = Some t}"

lemma free_tables_ok:
  assumes "vm_inv kend k D (H \<union> tabs (pages k) d is) ps" "d \<in> H" "tabs (pages k) d is \<inter> H = {}" "distinct is"
    and "\<And>i j t. i \<in> set is \<Longrightarrow> j \<in> set is \<Longrightarrow> own (pages k) d (Table i) = Some t \<Longrightarrow> own (pages k) d (Table j) = Some t \<Longrightarrow> i = j"
    and "\<forall>i \<in> set is. i < 1024"
  shows "\<exists>k' ps'. free_tables kend d is k = Inr k' \<and> vm_inv kend k' D H ps' \<and> set ps' = set ps \<union> tabs (pages k) d is \<and>
    same_maps D (pages k) (pages k') \<and> keeps D H (pages k) (pages k')"
  using assms
proof (induction "is" arbitrary: k ps)
  case Nil
  then show ?case by (auto simp: tabs_def same_maps_def keeps_def)
next
  case (Cons i "is")
  have i: "i < 1024" using Cons.prems(6) by simp
  have e: "read32 (pages k) (d + 4 * of_nat i) = pde_of (pages k) d i" by (simp add: pde_of_def)
  show ?case
  proof (cases "own (pages k) d (Table i)")
    case None
    then have "pde_of (pages k) d i AND PTE_P = 0" using i by (auto split: if_splits)
    moreover have "tabs (pages k) d (i # is) = tabs (pages k) d is" using None by (auto simp: tabs_def simp del: own.simps)
    ultimately show ?thesis using Cons.IH [of k ps] Cons.prems by (simp add: e Let_def del: own.simps)
  next
    case (Some t)
    then have P: "pde_of (pages k) d i AND PTE_P \<noteq> 0" and t: "t = P2V (PTE_ADDR (pde_of (pages k) d i))"
      by (auto split: if_splits)
    have split: "tabs (pages k) d (i # is) = insert t (tabs (pages k) d is)" using Some by (auto simp: tabs_def simp del: own.simps)
    have fresh: "t \<notin> H" "t \<notin> tabs (pages k) d is"
    proof -
      show "t \<notin> H" using Cons.prems(3) split by blast
      show "t \<notin> tabs (pages k) d is"
      proof
        assume "t \<in> tabs (pages k) d is"
        then obtain j where j: "j \<in> set is" "own (pages k) d (Table j) = Some t" by (auto simp: tabs_def simp del: own.simps)
        have "i = j" by (rule Cons.prems(5) [OF _ _ Some j(2)]) (use j(1) in simp_all)
        then show False using j(1) Cons.prems(4) by simp
      qed
    qed
    have "vm_inv kend k D (insert t (H \<union> tabs (pages k) d is)) ps" using Cons.prems(1) split by simp
    from held_free [OF this] fresh obtain k1 where k1: "kfree kend t k = Inr k1" "vm_inv kend k1 D (H \<union> tabs (pages k) d is) (t # ps)"
      "same_maps D (pages k) (pages k1)" "keeps D (H \<union> tabs (pages k) d is) (pages k) (pages k1)" by blast
    have pd: "page_ok kend d" using vm_invD(2) [OF Cons.prems(1)] Cons.prems(2) by blast
    have sd: "same_page (pages k) (pages k1) d" using k1(4) Cons.prems(2) by (simp add: keeps_def)
    have pde: "pde_of (pages k1) d j = pde_of (pages k) d j" if "j < 1024" for j
      unfolding pde_of_def by (rule same_page_slot [OF pd that sd])
    have own1: "own (pages k1) d (Table j) = own (pages k) d (Table j)" for j using pde [of j] by auto
    have t1: "tabs (pages k1) d is = tabs (pages k) d is" unfolding tabs_def own1 ..
    obtain k' ps' where k': "free_tables kend d is k1 = Inr k'" "vm_inv kend k' D H ps'" "set ps' = set (t # ps) \<union> tabs (pages k) d is"
      "same_maps D (pages k1) (pages k')" "keeps D H (pages k1) (pages k')"
    proof -
      have "\<exists>k' ps'. free_tables kend d is k1 = Inr k' \<and> vm_inv kend k' D H ps' \<and> set ps' = set (t # ps) \<union> tabs (pages k1) d is \<and>
          same_maps D (pages k1) (pages k') \<and> keeps D H (pages k1) (pages k')"
      proof (rule Cons.IH)
        show "vm_inv kend k1 D (H \<union> tabs (pages k1) d is) (t # ps)" using k1(2) t1 by simp
        show "tabs (pages k1) d is \<inter> H = {}" using Cons.prems(3) split t1 by blast
        show "i' = j" if "i' \<in> set is" "j \<in> set is" "own (pages k1) d (Table i') = Some v" "own (pages k1) d (Table j) = Some v" for i' j v
          using Cons.prems(5) [of i' j v] that unfolding own1 by simp
      qed (use Cons.prems(2,4,6) in simp_all)
      then show thesis using that t1 by auto
    qed
    have "free_tables kend d (i # is) k = Inr k'" using P k1(1) k'(1) by (simp add: e t [symmetric] Let_def)
    moreover have "same_maps D (pages k) (pages k')" using k1(3) k'(4) by (simp add: same_maps_def)
    moreover have "keeps D H (pages k) (pages k1)" using k1(4) by (simp add: keeps_def)
    from keeps_trans [OF this k'(5) k1(3)] have "keeps D H (pages k) (pages k')" .
    ultimately show ?thesis using k'(2,3) split by auto
  qed
qed

section \<open>The whole address space\<close>

lemma owned_pages:
  "{v. \<exists>x. own m d x = Some v} = insert d (tabs m d [0..<1024] \<union> {f. \<exists>p. own m d (Frame p) = Some f})"
proof -
  have "v \<in> insert d (tabs m d [0..<1024] \<union> {f. \<exists>p. own m d (Frame p) = Some f})" if "own m d x = Some v" for x v
  proof (cases x)
    case (Table i)
    then have "i < 1024" using that by (auto split: if_splits)
    then show ?thesis using that Table by (auto simp: tabs_def simp del: own.simps)
  next
    case Dir
    then show ?thesis using that by simp
  next
    case (Frame p)
    then show ?thesis using that by blast
  qed
  moreover have "own m d Dir = Some d" by simp
  ultimately show ?thesis unfolding tabs_def by blast
qed

lemma empty_space_freed:
  assumes inv: "vm_inv kend k D {} ps" and d: "d \<in> D" and fr: "\<And>p. own (pages k) d (Frame p) = None"
  shows "\<exists>k2 k' ps'. free_tables kend d [0..<1024] k = Inr k2 \<and> kfree kend d k2 = Inr k' \<and> vm_inv kend k' (D - {d}) {} ps' \<and>
    set ps' = set ps \<union> {v. \<exists>x. own (pages k) d x = Some v} \<and>
    (\<forall>e \<in> D - {d}. \<forall>a < 0x80000000. vbyte (pages k') e a = vbyte (pages k) e a)"
proof -
  let ?T = "tabs (pages k) d [0..<1024]"
  have own: "{v. \<exists>x. own (pages k) d x = Some v} = insert d ?T" unfolding owned_pages fr by simp
  from release [OF inv d] have held: "vm_inv kend k (D - {d}) ({d} \<union> ?T) ps" by (simp add: own)
  have dT: "?T \<inter> {d} = {}" using vm_invD(7) [OF inv d d, where v = d and x = Dir] by (auto simp: tabs_def simp del: own.simps(2))
  have "\<exists>k2 ps2. free_tables kend d [0..<1024] k = Inr k2 \<and> vm_inv kend k2 (D - {d}) {d} ps2 \<and> set ps2 = set ps \<union> ?T \<and>
      same_maps (D - {d}) (pages k) (pages k2) \<and> keeps (D - {d}) {d} (pages k) (pages k2)"
  proof (rule free_tables_ok [OF held _ dT])
    fix i j t assume "own (pages k) d (Table i) = Some t" "own (pages k) d (Table j) = Some t"
    from vm_invD(7) [OF inv d d this] show "i = j" by simp
  qed simp_all
  then obtain k2 ps2 where k2: "free_tables kend d [0..<1024] k = Inr k2" "vm_inv kend k2 (D - {d}) {d} ps2" "set ps2 = set ps \<union> ?T"
    "same_maps (D - {d}) (pages k) (pages k2)" "keeps (D - {d}) {d} (pages k) (pages k2)" by blast
  from held_free [of kend k2 "D - {d}" d "{}" ps2] k2(2) obtain k' where k': "kfree kend d k2 = Inr k'"
    "vm_inv kend k' (D - {d}) {} (d # ps2)" "same_maps (D - {d}) (pages k2) (pages k')" "keeps (D - {d}) {} (pages k2) (pages k')" by auto
  have "change (D - {d}) {} d R (pages k) (pages k2)" "change (D - {d}) {} d R (pages k2) (pages k')" for R
    using change_keeps [OF k2(5,4)] change_keeps [OF k'(4,3)] change_held by blast+
  then have "vbyte (pages k') e a = vbyte (pages k) e a" if "e \<in> D - {d}" "a < 0x80000000" for e a
    using that by (simp add: change_def untouched_def)
  then show ?thesis using k2(1,3) k'(1,2) own by (intro exI [of _ k2] exI [of _ k'] exI [of _ "d # ps2"]) auto
qed

text \<open>
  C11. \<open>freevm\<close> returns, and every page of the address space -- each user page, each page table
  and the directory -- is on the free list again, with the pages that were there before and no
  other: nothing is lost and nothing is freed twice. What every other process reads, and
  which pages it has, is as before.
\<close>

theorem freevm_returns_all:
  assumes "vm_inv kend k D {} ps" "d \<in> D" "KERNBASE < kend"
  shows "\<exists>k' ps'. freevm kend d k = Inr k' \<and> vm_inv kend k' (D - {d}) {} ps' \<and>
    set ps' = set ps \<union> {v. \<exists>x. own (pages k) d x = Some v} \<and>
    (\<forall>e \<in> D - {d}. \<forall>a < 0x80000000. vbyte (pages k') e a = vbyte (pages k) e a)"
proof -
  have "page_ok kend d" using vm_invD(4) [OF assms(1,2), of Dir d] by simp
  then have d0: "d \<noteq> 0" by (rule page_ok_nonzero)
  let ?R = "page_range (page_up 0) (unat KERNBASE)"
  have R: "?R p \<longleftrightarrow> p < 0x80000" for p by (auto simp: page_range_def page_up_def PGROUNDUP_def PGSIZE_def KERNBASE_def)
  obtain k1 ps1 where k1: "deallocuvm kend d KERNBASE 0 k = Inr (0, k1)" "dealloc_post kend k D {} d ?R k1 ps1" "returned k d ?R ps k1 ps1"
    using deallocuvm_ok [OF assms(1-3), of 0 KERNBASE] by (auto simp: KERNBASE_def)
  have inv1: "vm_inv kend k1 D {} ps1" using k1(2) by (simp add: dealloc_post_def)
  have fr: "own (pages k1) d (Frame p) = None" for p using k1(2) R by (simp add: dealloc_post_def cleared_def)
  from empty_space_freed [OF inv1 assms(2) fr] obtain k2 k' ps' where k2: "free_tables kend d [0..<1024] k1 = Inr k2" "kfree kend d k2 = Inr k'"
    "vm_inv kend k' (D - {d}) {} ps'" "set ps' = set ps1 \<union> {v. \<exists>x. own (pages k1) d x = Some v}"
    "\<forall>e \<in> D - {d}. \<forall>a < 0x80000000. vbyte (pages k') e a = vbyte (pages k1) e a" by blast
  have "freevm kend d k = Inr k'" using d0 k1(1) k2(1,2) by (simp add: freevm_def)
  moreover have "set ps' = set ps \<union> {v. \<exists>x. own (pages k) d x = Some v}"
  proof -
    have T: "tabs (pages k1) d is = tabs (pages k) d is" for "is" using k1(3) by (simp add: tabs_def returned_def del: own.simps)
    have F: "set ps1 = set ps \<union> {f. \<exists>p. own (pages k) d (Frame p) = Some f}"
      using k1(3) R by (auto simp: returned_def split: if_splits)
    show ?thesis unfolding k2(4) owned_pages fr T F by blast
  qed
  moreover have "vbyte (pages k1) e a = vbyte (pages k) e a" if "e \<in> D - {d}" "a < 0x80000000" for e a
    using k1(2) that by (simp add: dealloc_post_def change_def untouched_def)
  ultimately show ?thesis using k2(3,5) by (intro exI [of _ k'] exI [of _ ps']) simp
qed

theorem freevm_returns_all_witness:
  "\<exists>k d c k' ps ps'. vm_inv 0x80100000 k {d, c} {} ps \<and> freevm 0x80100000 d k = Inr k' \<and> vm_inv 0x80100000 k' {c} {} ps' \<and>
     d \<notin> set ps \<and> d \<in> set ps' \<and> vbyte (pages k) d 5 = Some 0 \<and> vbyte (pages k') c 5 = None"
proof -
  obtain k d c ps where k: "vm_inv 0x80100000 k {d, c} {} ps" "d \<noteq> c" "\<forall>q < 0x100000. entry (pages k) c q = 0"
    "\<forall>a < 4096. vbyte (pages k) d a = Some 0"
    using two_spaces_exist by blast
  obtain k' ps' where r: "freevm 0x80100000 d k = Inr k'" "vm_inv 0x80100000 k' ({d, c} - {d}) {} ps'"
    "set ps' = set ps \<union> {v. \<exists>x. own (pages k) d x = Some v}"
    "\<forall>e \<in> {d, c} - {d}. \<forall>a < 0x80000000. vbyte (pages k') e a = vbyte (pages k) e a"
  proof -
    have "KERNBASE < (0x80100000 :: uint)" by (simp add: KERNBASE_def)
    from freevm_returns_all [OF k(1) insertI1 this] show thesis using that by blast
  qed
  have "own (pages k) d Dir = Some d" by simp
  then have "d \<in> set ps'" "d \<notin> set ps" using r(3) vm_invD(5) [OF k(1), of d Dir d] by blast+
  moreover have "{d, c} - {d} = {c}" using k(2) by auto
  moreover have "vbyte (pages k') c 5 = vbyte (pages k) c 5" using r(4) k(2) by simp
  moreover have "vbyte (pages k) c 5 = None" using k(3) by (simp add: vbyte_def)
  moreover have "vbyte (pages k) d 5 = Some 0" using k(4) by simp
  ultimately show ?thesis using k(1) r(1,2) by metis
qed

end
