(* ===== verification/Devices.thy ===== *)
theory Devices
  imports Kernel_Calls Machine Console
begin

text \<open>
  What the kernel tells the hardware, and its start: segment descriptors and the task state
  (\<open>seginit\<close>, \<open>switchkvm\<close>, \<open>switchuvm\<close> of \<open>vm.c\<close>), the local interrupt controller (\<open>lapic.c\<close>),
  the old interrupt controllers (\<open>picirq.c\<close>), the serial port (\<open>uart.c\<close>) and \<open>main\<close> with
  \<open>startothers\<close> (\<open>main.c\<close>). Writes to devices are recorded in their order.
\<close>

section \<open>Segments\<close>

definition STA_X :: uint where "STA_X = 0x8"
definition STA_W :: uint where "STA_W = 0x2"
definition STA_R :: uint where "STA_R = 0x2"
definition STS_T32A :: uint where "STS_T32A = 0x9"
definition SEG_KDATA :: nat where "SEG_KDATA = 2"
definition SEG_TSS :: nat where "SEG_TSS = 5"
definition NSEGS :: nat where "NSEGS = 6"

record segdesc =
  lim_15_0 :: uint
  base_15_0 :: uint
  base_23_16 :: uint
  sd_type :: uint
  sd_s :: uint
  sd_dpl :: uint
  sd_p :: uint
  lim_19_16 :: uint
  sd_avl :: uint
  sd_rsv1 :: uint
  sd_db :: uint
  sd_g :: uint
  base_31_24 :: uint

definition SEG :: "uint \<Rightarrow> uint \<Rightarrow> uint \<Rightarrow> uint \<Rightarrow> segdesc" where
  "SEG ty base lim d =
     \<lparr>lim_15_0 = drop_bit 12 lim AND 0xffff, base_15_0 = base AND 0xffff, base_23_16 = drop_bit 16 base AND 0xff,
      sd_type = ty, sd_s = 1, sd_dpl = d, sd_p = 1, lim_19_16 = drop_bit 28 lim, sd_avl = 0, sd_rsv1 = 0,
      sd_db = 1, sd_g = 1, base_31_24 = drop_bit 24 base\<rparr>"

definition SEG16 :: "uint \<Rightarrow> uint \<Rightarrow> uint \<Rightarrow> uint \<Rightarrow> segdesc" where
  "SEG16 ty base lim d =
     \<lparr>lim_15_0 = lim AND 0xffff, base_15_0 = base AND 0xffff, base_23_16 = drop_bit 16 base AND 0xff,
      sd_type = ty, sd_s = 1, sd_dpl = d, sd_p = 1, lim_19_16 = drop_bit 16 lim, sd_avl = 0, sd_rsv1 = 0,
      sd_db = 1, sd_g = 0, base_31_24 = drop_bit 24 base\<rparr>"

text \<open>The parts of \<open>struct cpu\<close> and the registers these functions set.\<close>

record cpuregs =
  gdt :: "segdesc list"
  ts_ss0 :: "16 word"
  ts_esp0 :: uint
  ts_iomb :: "16 word"
  task_reg :: uint
  page_dir :: uint

definition seginit :: "cpuregs \<Rightarrow> cpuregs" where
  "seginit c = c\<lparr>gdt := (gdt c)
     [1 := SEG (STA_X OR STA_R) 0 0xffffffff 0, SEG_KDATA := SEG STA_W 0 0xffffffff 0,
      3 := SEG (STA_X OR STA_R) 0 0xffffffff (ucast DPL_USER), 4 := SEG STA_W 0 0xffffffff (ucast DPL_USER)]\<rparr>"

definition switchkvm :: "uint \<Rightarrow> cpuregs \<Rightarrow> cpuregs" where
  "switchkvm kpgdir c = c\<lparr>page_dir := V2P kpgdir\<rparr>"

text \<open>\<open>ts\<close> is the address of the task state of 104 bytes.\<close>

definition switchuvm_regs :: "uint \<Rightarrow> proc \<Rightarrow> cpuregs \<Rightarrow> cpuregs res" where
  "switchuvm_regs ts p c =
     bindE (switchuvm p) (\<lambda>_.
       Inr (c\<lparr>gdt := (gdt c)[SEG_TSS := (SEG16 STS_T32A ts 103 0)\<lparr>sd_s := 0\<rparr>],
         ts_ss0 := of_nat (SEG_KDATA * 8), ts_esp0 := p_kstack p + KSTACKSIZE, ts_iomb := 0xFFFF,
         task_reg := of_nat (SEG_TSS * 8), page_dir := V2P (p_pgdir p)\<rparr>))"

text \<open>The base and the last offset of a segment, as the processor reads a descriptor.\<close>

definition seg_base :: "segdesc \<Rightarrow> uint" where
  "seg_base d = base_15_0 d OR push_bit 16 (base_23_16 d) OR push_bit 24 (base_31_24 d)"

definition seg_limit :: "segdesc \<Rightarrow> uint" where
  "seg_limit d =
     (let l = lim_15_0 d OR push_bit 16 (lim_19_16 d)
      in if sd_g d = 1 then push_bit 12 l OR 0xfff else l)"

lemma base_split: "(w AND 0xffff) OR push_bit 16 (drop_bit 16 w AND 0xff) OR push_bit 24 (drop_bit 24 w) = (w :: uint)"
proof -
  have m: "(0xffff :: uint) = mask 16" "(0xff :: uint) = mask 8" by (simp_all add: mask_eq_exp_minus_1)
  show ?thesis unfolding m
  proof (rule bit_word_eqI)
    fix n assume "n < LENGTH(32)"
    then show "bit ((w AND mask 16) OR push_bit 16 (drop_bit 16 w AND mask 8) OR push_bit 24 (drop_bit 24 w)) n = bit w n"
      by (cases "n < 16"; cases "n < 24") (auto simp: bit_simps)
  qed
qed

text \<open>
  The four segments of \<open>seginit\<close> span the whole address space from 0, the kernel's with
  privilege 0 and the user's with 3. \<open>switchuvm\<close> makes the processor use the page table
  of the process and its kernel stack, and the I/O map lies beyond the task state.
\<close>

lemma segments_flat:
  assumes "length (gdt c) = NSEGS" "i \<in> {1, 2, 3, 4}"
  shows "seg_base (gdt (seginit c) ! i) = 0 \<and> seg_limit (gdt (seginit c) ! i) = 0xffffffff \<and>
    sd_dpl (gdt (seginit c) ! i) = (if i \<le> 2 then 0 else 3) \<and> (sd_type (gdt (seginit c) ! i) AND STA_X \<noteq> 0 \<longleftrightarrow> i \<in> {1, 3})"
  using assms by (auto simp: seginit_def NSEGS_def SEG_KDATA_def SEG_def seg_base_def seg_limit_def STA_X_def STA_R_def STA_W_def DPL_USER_def)

lemma switchuvm_task:
  assumes "switchuvm_regs ts p c = Inr c'" "length (gdt c) = NSEGS"
  shows "p_kstack p \<noteq> 0 \<and> p_pgdir p \<noteq> 0 \<and> P2V (page_dir c') = p_pgdir p \<and> ts_esp0 c' = p_kstack p + 4096 \<and>
    seg_base (gdt c' ! SEG_TSS) = ts \<and> unat (seg_limit (gdt c' ! SEG_TSS)) < unat (ts_iomb c')"
  using assms base_split [of ts]
  by (auto simp: switchuvm_regs_def switchuvm_def seg_base_def seg_limit_def SEG16_def SEG_TSS_def NSEGS_def
      KSTACKSIZE_def V2P_def P2V_def split: if_splits)

section \<open>The local interrupt controller\<close>

text \<open>Bytes to ports, words to registers of the local controller, and words to the reset vector.\<close>

datatype device_write = Outb nat byte | Lapicw nat uint | Reset_Vector nat "16 word"

definition APIC_TPR :: nat where "APIC_TPR = 0x80 div 4"
definition APIC_EOI :: nat where "APIC_EOI = 0xB0 div 4"
definition APIC_SVR :: nat where "APIC_SVR = 0xF0 div 4"
definition APIC_ESR :: nat where "APIC_ESR = 0x280 div 4"
definition ICRLO :: nat where "ICRLO = 0x300 div 4"
definition ICRHI :: nat where "ICRHI = 0x310 div 4"
definition APIC_TIMER :: nat where "APIC_TIMER = 0x320 div 4"
definition PCINT :: nat where "PCINT = 0x340 div 4"
definition LINT0 :: nat where "LINT0 = 0x350 div 4"
definition LINT1 :: nat where "LINT1 = 0x360 div 4"
definition APIC_ERROR :: nat where "APIC_ERROR = 0x370 div 4"
definition TICR :: nat where "TICR = 0x380 div 4"
definition TDCR :: nat where "TDCR = 0x3E0 div 4"
definition APIC_ENABLE :: uint where "APIC_ENABLE = 0x100"
definition APIC_INIT :: uint where "APIC_INIT = 0x500"
definition STARTUP :: uint where "STARTUP = 0x600"
definition ASSERT :: uint where "ASSERT = 0x4000"
definition LEVEL :: uint where "LEVEL = 0x8000"
definition BCAST :: uint where "BCAST = 0x80000"
definition X1 :: uint where "X1 = 0xB"
definition PERIODIC :: uint where "PERIODIC = 0x20000"
definition MASKED :: uint where "MASKED = 0x10000"
definition IRQ_ERROR :: nat where "IRQ_ERROR = 19"

text \<open>\<open>lapic\<close> is the address of the registers, \<open>ver\<close> what the version register reads.\<close>

definition lapicinit :: "uint \<Rightarrow> uint \<Rightarrow> device_write list" where
  "lapicinit lapic ver =
     (if lapic = 0 then []
      else [Lapicw APIC_SVR (APIC_ENABLE OR of_nat (T_IRQ0 + IRQ_SPURIOUS)), Lapicw TDCR X1,
            Lapicw APIC_TIMER (PERIODIC OR of_nat (T_IRQ0 + IRQ_TIMER)), Lapicw TICR 10000000,
            Lapicw LINT0 MASKED, Lapicw LINT1 MASKED] @
           (if drop_bit 16 ver AND 0xFF \<ge> 4 then [Lapicw PCINT MASKED] else []) @
           [Lapicw APIC_ERROR (of_nat (T_IRQ0 + IRQ_ERROR)), Lapicw APIC_ESR 0, Lapicw APIC_ESR 0, Lapicw APIC_EOI 0,
            Lapicw ICRHI 0, Lapicw ICRLO (BCAST OR APIC_INIT OR LEVEL), Lapicw APIC_TPR 0])"

definition lapicid :: "uint \<Rightarrow> uint \<Rightarrow> uint" where
  "lapicid lapic i = (if lapic = 0 then 0 else drop_bit 24 i)"

definition lapiceoi :: "uint \<Rightarrow> device_write list" where
  "lapiceoi lapic = (if lapic \<noteq> 0 then [Lapicw APIC_EOI 0] else [])"

definition lapicstartap :: "byte \<Rightarrow> uint \<Rightarrow> device_write list" where
  "lapicstartap apicid addr =
     [Outb 0x70 0xF, Outb 0x71 0x0A, Reset_Vector 0 0, Reset_Vector 1 (ucast (drop_bit 4 addr)),
      Lapicw ICRHI (push_bit 24 (ucast apicid)), Lapicw ICRLO (APIC_INIT OR LEVEL OR ASSERT), Lapicw ICRLO (APIC_INIT OR LEVEL)] @
     concat (replicate 2 [Lapicw ICRHI (push_bit 24 (ucast apicid)), Lapicw ICRLO (STARTUP OR drop_bit 12 addr)])"

text \<open>The value a register has after the writes.\<close>

fun reg_after :: "nat \<Rightarrow> device_write list \<Rightarrow> uint \<Rightarrow> uint" where
  "reg_after r [] v = v"
| "reg_after r (Lapicw i w # es) v = reg_after r es (if i = r then w else v)"
| "reg_after r (_ # es) v = reg_after r es v"

lemmas apic_numbers = APIC_TPR_def APIC_EOI_def APIC_SVR_def APIC_ESR_def ICRLO_def ICRHI_def APIC_TIMER_def PCINT_def
  LINT0_def LINT1_def APIC_ERROR_def TICR_def TDCR_def APIC_ENABLE_def APIC_INIT_def STARTUP_def ASSERT_def LEVEL_def BCAST_def
  X1_def PERIODIC_def MASKED_def IRQ_ERROR_def T_IRQ0_def IRQ_SPURIOUS_def IRQ_TIMER_def

text \<open>
  After \<open>lapicinit\<close> the timer repeats with the vector \<open>trap\<close> counts ticks at, the lines of the old
  controllers are masked and no interrupt is held back by priority. The error interrupt goes to a
  vector \<open>trap\<close> has no case for.
\<close>

lemma lapicinit_sets:
  assumes "lapic \<noteq> 0"
  shows "reg_after APIC_TIMER (lapicinit lapic ver) v = PERIODIC OR 32" "reg_after LINT0 (lapicinit lapic ver) v = MASKED"
    "reg_after LINT1 (lapicinit lapic ver) v = MASKED" "reg_after APIC_TPR (lapicinit lapic ver) v = 0"
    "reg_after APIC_ERROR (lapicinit lapic ver) v = 51"
  using assms by (simp_all add: lapicinit_def apic_numbers)

text \<open>
  The startup message carries the number of the page the other processor begins in, and the
  reset vector the same address as a segment.
\<close>

lemma startup_address:
  assumes "unat addr < 0x100000" "unat addr mod 4096 = 0"
  shows "\<exists>es. lapicstartap apicid addr = es @ [Lapicw ICRLO (STARTUP OR of_nat (unat addr div 4096))] \<and>
    Reset_Vector 1 (of_nat (unat addr div 16)) \<in> set es"
proof -
  have "drop_bit 12 addr = of_nat (unat addr div 4096)" "drop_bit 4 addr = of_nat (unat addr div 16)"
    using assms(1) by (simp_all add: word_unat_eq_iff drop_bit_eq_div unat_div unat_of_nat)
  moreover have "(ucast (of_nat (unat addr div 16) :: uint) :: 16 word) = of_nat (unat addr div 16)"
    using assms(1) by (simp add: word_unat_eq_iff unsigned_ucast_eq take_bit_eq_mod unat_of_nat)
  ultimately show ?thesis by (auto simp: lapicstartap_def numeral_2_eq_2)
qed

section \<open>The old interrupt controllers and the serial port\<close>

definition picinit :: "device_write list" where
  "picinit = [Outb 0x21 0xFF, Outb 0xA1 0xFF]"

definition COM1 :: nat where "COM1 = 0x3f8"

text \<open>How often the status is read; \<open>status i\<close> is what the \<open>i\<close>-th read finds.\<close>

function uart_wait :: "(nat \<Rightarrow> byte) \<Rightarrow> nat \<Rightarrow> nat" where
  "uart_wait status i = (if i < 128 \<and> status i AND 0x20 = 0 then uart_wait status (i + 1) else i)"
  by pat_completeness auto
termination by (relation "measure (\<lambda>(status, i). 128 - i)") auto

declare uart_wait.simps [simp del]

definition uartputc :: "bool \<Rightarrow> (nat \<Rightarrow> byte) \<Rightarrow> uint \<Rightarrow> nat \<times> device_write list" where
  "uartputc present status c = (if \<not> present then (0, []) else (uart_wait status 0, [Outb (COM1 + 0) (ucast c)]))"

text \<open>Whether there is a port, and what is written; the last part is the announcement.\<close>

definition uartinit :: "byte \<Rightarrow> (nat \<Rightarrow> byte) \<Rightarrow> ioapic \<Rightarrow> bool \<times> device_write list \<times> ioapic" where
  "uartinit line status io =
     (let setup = [Outb (COM1 + 2) 0, Outb (COM1 + 3) 0x80, Outb (COM1 + 0) (of_nat (115200 div 9600)), Outb (COM1 + 1) 0,
        Outb (COM1 + 3) 0x03, Outb (COM1 + 4) 0, Outb (COM1 + 1) 0x01]
      in if line = 0xFF then (False, setup, io)
         else (True, setup @ concat (map (\<lambda>c. snd (uartputc True status (ucast c))) (msg ''xv6...'' @ [10])), ioapicenable IRQ_COM1 0 io))"

text \<open>What the port answers: its status and the byte it holds.\<close>

definition uartgetc :: "bool \<Rightarrow> byte \<times> byte \<Rightarrow> uint option" where
  "uartgetc present = (\<lambda>(status, b). if \<not> present then None else if status AND 0x01 = 0 then None else Some (ucast b))"

text \<open>\<open>consoleintr\<close> takes characters until there is none.\<close>

fun uart_chars :: "bool \<Rightarrow> (byte \<times> byte) list \<Rightarrow> uint list" where
  "uart_chars present [] = []"
| "uart_chars present (a # as) = (case uartgetc present a of None \<Rightarrow> [] | Some c \<Rightarrow> c # uart_chars present as)"

definition uartintr :: "bool \<Rightarrow> (byte \<times> byte) list \<Rightarrow> console \<times> ptable \<Rightarrow> (console \<times> ptable \<times> bool) res" where
  "uartintr present as = consoleintr (uart_chars present as)"

lemma uart_wait_ends: "i \<le> 128 \<Longrightarrow> uart_wait status i \<le> 128 \<and>
    (uart_wait status i = 128 \<or> status (uart_wait status i) AND 0x20 \<noteq> 0)"
proof (induction status i rule: uart_wait.induct)
  case (1 status i)
  then show ?case by (subst (1 2 3) uart_wait.simps) auto
qed

text \<open>What comes in over the serial port is typed at the console, as bytes, up to the first empty status.\<close>

lemma uart_types:
  assumes "cons_inv (k, pt)"
  shows "\<exists>k' pt' d. uartintr present as (k, pt) = Inr (k', pt', d) \<and> cons_inv (k', pt') \<and>
    lines_of (inp k') = fold type_code (if present then map (\<lambda>(s, b). ucast b) (takeWhile (\<lambda>(s, b). s AND 1 \<noteq> 0) as) else [])
      (lines_of (inp k))"
proof -
  have c: "uart_chars present as = (if present then map (\<lambda>(s, b). ucast b) (takeWhile (\<lambda>(s, b). s AND 1 \<noteq> 0) as) else [])"
    by (induction as) (auto simp: uartgetc_def)
  have "list_all (\<lambda>c. unat c < 256) (uart_chars present as)"
  proof -
    have "unat (ucast b :: uint) < 256" for b :: byte
      using unsigned_less [of b, where 'a = nat] by (simp add: unsigned_ucast_eq take_bit_eq_mod)
    then show ?thesis unfolding c by (auto simp: list_all_iff)
  qed
  from consoleintr_spec [OF assms this] show ?thesis unfolding uartintr_def c by metis
qed

section \<open>The start of the kernel\<close>

text \<open>The page table of the kernel is known by the register it is loaded into.\<close>

definition kvmalloc :: "linkage \<Rightarrow> cpuregs \<Rightarrow> kern \<Rightarrow> (cpuregs \<times> kern) res" where
  "kvmalloc K c s = mapE (\<lambda>(kpgdir, s). (switchkvm kpgdir c, s)) (on_km2 (setupkvm (lk_end K) (lk_data K)) s)"

text \<open>The other processors begin in the page at physical address \<open>0x7000\<close>.\<close>

definition start_code :: uint where "start_code = P2V 0x7000"

definition start_one :: "uint \<Rightarrow> uint \<Rightarrow> byte \<Rightarrow> kern \<times> device_write list \<Rightarrow> kern \<times> device_write list" where
  "start_one mpenter entrypgdir apicid = (\<lambda>(s, out).
     (let (stack, k) = kalloc (k_km s);
          m = write32 (pages k) (start_code - 4) (stack + KSTACKSIZE);
          m = write32 m (start_code - 8) mpenter;
          m = write32 m (start_code - 12) (V2P entrypgdir)
      in (s\<lparr>k_km := k\<lparr>pages := m\<rparr>\<rparr>, out @ lapicstartap apicid (V2P start_code))))"

text \<open>\<open>me\<close> is the processor \<open>main\<close> runs on.\<close>

definition startothers :: "byte list \<Rightarrow> uint \<Rightarrow> uint \<Rightarrow> byte \<Rightarrow> byte list \<Rightarrow> kern \<Rightarrow> kern \<times> device_write list" where
  "startothers code mpenter entrypgdir me ids s =
     fold (start_one mpenter entrypgdir) (filter (\<lambda>c. c \<noteq> me) ids)
       (s\<lparr>k_km := (k_km s)\<lparr>pages := put_bytes (pages (k_km s)) (unat start_code) code\<rparr>\<rparr>, [])"

text \<open>The steps of \<open>main\<close> that change the memory, the segments and the processes, in their order.\<close>

definition kernel_main :: "linkage \<Rightarrow> byte list \<Rightarrow> uint \<Rightarrow> uint \<Rightarrow> byte \<Rightarrow> byte list \<Rightarrow> cpuregs \<times> kern \<Rightarrow>
    (cpuregs \<times> device_write list \<times> kern) res" where
  "kernel_main K code mpenter entrypgdir me ids = (\<lambda>(c, s).
     bindE (on_km (kinit1 (lk_end K) (lk_end K) (P2V 0x400000)) s) (\<lambda>s.
     bindE (kvmalloc K c s) (\<lambda>(c, s).
     let c = seginit c; (s, out) = startothers code mpenter entrypgdir me ids s
     in bindE (on_km (kinit2 (lk_end K) (P2V 0x400000) (P2V PHYSTOP)) s) (\<lambda>s.
        bindE (userinit (lk_end K) (lk_data K) (lk_forkret K) (lk_init K) (lk_initsize K) (lk_devsw K) s) (\<lambda>s.
          Inr (c, out, s))))))"

text \<open>When \<open>main\<close> comes to its end the kernel is in a state all that is proved of its runs holds for.\<close>

lemma start_one_others: "k_ft (fst (start_one e d c x)) = k_ft (fst x) \<and> k_pt (fst (start_one e d c x)) = k_pt (fst x)"
  by (auto simp: start_one_def Let_def split: prod.splits)

lemma startothers_others: "k_ft (fst (startothers code e d me ids s)) = k_ft s \<and> k_pt (fst (startothers code e d me ids s)) = k_pt s"
proof -
  have "k_ft (fst (fold (start_one e d) cs x)) = k_ft (fst x) \<and> k_pt (fst (fold (start_one e d) cs x)) = k_pt (fst x)" for cs x
    by (induction cs arbitrary: x) (simp_all add: start_one_others)
  then show ?thesis by (simp add: startothers_def)
qed

lemma nothing_open_memory:
  "on_km f s = Inr t \<Longrightarrow> nothing_open t = nothing_open s"
  "on_km2 g s = Inr (x, t) \<Longrightarrow> nothing_open t = nothing_open s"
  "nothing_open (fst (startothers code e d me ids s)) = nothing_open s"
  using startothers_others [of code e d me ids s] by (auto simp: on_km_def on_km2_def nothing_open_def)

lemma kernel_main_runs:
  assumes "kernel_main K code e d me ids (c, s) = Inr (c', out, t)" "nothing_open s"
  shows "kernel_run K (t, q)"
proof -
  obtain s1 kpgdir s2 s3 s4 where s1: "on_km (kinit1 (lk_end K) (lk_end K) (P2V 0x400000)) s = Inr s1"
    and s2: "on_km2 (setupkvm (lk_end K) (lk_data K)) s1 = Inr (kpgdir, s2)" and s3: "s3 = fst (startothers code e d me ids s2)"
    and s4: "on_km (kinit2 (lk_end K) (P2V 0x400000) (P2V PHYSTOP)) s3 = Inr s4"
    and t: "userinit (lk_end K) (lk_data K) (lk_forkret K) (lk_init K) (lk_initsize K) (lk_devsw K) s4 = Inr t"
    using assms(1) unfolding kernel_main_def kvmalloc_def Let_def case_prod_beta by auto
  have "nothing_open s4"
    using assms(2) nothing_open_memory(1) [OF s1] nothing_open_memory(2) [OF s2]
      nothing_open_memory(3) [of code e d me ids s2] nothing_open_memory(1) [OF s4] by (simp add: s3)
  then show ?thesis using t kernel_run.boot kernel_run.init by blast
qed

end
