(* ===== verification/Utilities.thy ===== *)
theory Utilities
  imports Programs Grep
begin

text \<open>
  The programs that are a loop over their arguments: \<open>rm\<close>, \<open>mkdir\<close>, \<open>kill\<close>, \<open>ln\<close>, the \<open>main\<close> of \<open>wc\<close>
  and \<open>grep\<close>, and \<open>init\<close>, the first program. System calls are functions on a state of any type
  that answer a number; files are opened by a function that gives what their reads return.
  Arguments are strings without the final 0; the result has the output.
\<close>

type_synonym ('a, 's) sysc = "'a \<Rightarrow> 's \<Rightarrow> int \<times> 's"

section \<open>rm.c, mkdir.c, ln.c and kill.c\<close>

fun rm_args :: "(byte list, 's) sysc \<Rightarrow> byte list list \<Rightarrow> 's \<Rightarrow> byte list res \<times> 's" where
  "rm_args unlink [] s = (Inr [], s)"
| "rm_args unlink (a # as) s =
     (case unlink a s of (r, s) \<Rightarrow>
        if r < 0 then (printf (\<lambda>p. a) (msg ''rm: %s failed to delete'' @ [10, 0]) [1], s) else rm_args unlink as s)"

definition rm :: "(byte list, 's) sysc \<Rightarrow> byte list list \<Rightarrow> 's \<Rightarrow> byte list res \<times> 's" where
  "rm unlink argv s =
     (if length argv < 2 then (printf (\<lambda>p. []) (msg ''Usage: rm files...'' @ [10, 0]) [], s) else rm_args unlink (tl argv) s)"

fun mkdir_args :: "(byte list, 's) sysc \<Rightarrow> byte list list \<Rightarrow> 's \<Rightarrow> byte list res \<times> 's" where
  "mkdir_args mkdir [] s = (Inr [], s)"
| "mkdir_args mkdir (a # as) s =
     (case mkdir a s of (r, s) \<Rightarrow>
        if r < 0 then (printf (\<lambda>p. a) (msg ''mkdir: %s failed to create'' @ [10, 0]) [1], s) else mkdir_args mkdir as s)"

definition mkdir_main :: "(byte list, 's) sysc \<Rightarrow> byte list list \<Rightarrow> 's \<Rightarrow> byte list res \<times> 's" where
  "mkdir_main mkdir argv s =
     (if length argv < 2 then (printf (\<lambda>p. []) (msg ''Usage: mkdir files...'' @ [10, 0]) [], s) else mkdir_args mkdir (tl argv) s)"

definition ln_main :: "(byte list \<times> byte list, 's) sysc \<Rightarrow> byte list list \<Rightarrow> 's \<Rightarrow> byte list res \<times> 's" where
  "ln_main link argv s =
     (if length argv \<noteq> 3 then (printf (\<lambda>p. []) (msg ''Usage: ln old new'' @ [10, 0]) [], s)
      else case link (argv ! 1, argv ! 2) s of (r, s) \<Rightarrow>
        (if r < 0 then printf (\<lambda>p. argv ! unat p) (msg ''link %s %s: failed'' @ [10, 0]) [1, 2] else Inr [], s))"

fun kill_args :: "(uint, 's) sysc \<Rightarrow> byte list list \<Rightarrow> 's \<Rightarrow> 's res" where
  "kill_args kil [] s = Inr s"
| "kill_args kil (a # as) s = bindE (atoi (a @ [0])) (\<lambda>pid. kill_args kil as (snd (kil pid s)))"

definition kill_main :: "(uint, 's) sysc \<Rightarrow> byte list list \<Rightarrow> 's \<Rightarrow> byte list res \<times> 's res" where
  "kill_main kil argv s =
     (if length argv < 2 then (printf (\<lambda>p. []) (msg ''usage: kill pid...'' @ [10, 0]) [], Inr s)
      else (Inr [], kill_args kil (tl argv) s))"

text \<open>The arguments that are worked on: up to the first the call refuses.\<close>

fun calls_until :: "(byte list, 's) sysc \<Rightarrow> byte list list \<Rightarrow> 's \<Rightarrow> byte list option \<times> 's" where
  "calls_until f [] s = (None, s)"
| "calls_until f (a # as) s = (case f a s of (r, s) \<Rightarrow> if r < 0 then (Some a, s) else calls_until f as s)"

text \<open>\<open>rm\<close> and \<open>mkdir\<close> stop at the first failure, name it, and say nothing when there is none.\<close>

lemma rm_removes:
  "rm_args unlink as s = (case calls_until unlink as s of (r, t) \<Rightarrow>
     (case r of None \<Rightarrow> Inr [] | Some a \<Rightarrow> printf (\<lambda>p. a) (msg ''rm: %s failed to delete'' @ [10, 0]) [1], t))"
  by (induction as arbitrary: s) (auto split: prod.splits)

lemma mkdir_makes:
  "mkdir_args mkdir as s = (case calls_until mkdir as s of (r, t) \<Rightarrow>
     (case r of None \<Rightarrow> Inr [] | Some a \<Rightarrow> printf (\<lambda>p. a) (msg ''mkdir: %s failed to create'' @ [10, 0]) [1], t))"
  by (induction as arbitrary: s) (auto split: prod.splits)

text \<open>\<open>kill\<close> signals every process it is given, in order, whatever the calls answer.\<close>

lemma kill_signals:
  assumes "\<forall>a \<in> set as. \<forall>c \<in> set a. is_digit c"
  shows "kill_args kil as s = Inr (fold (\<lambda>a s. snd (kil (of_nat (dec_value 0 a)) s)) as s)"
  using assms
proof (induction as arbitrary: s)
  case (Cons a as)
  have "atoi (a @ [0]) = Inr (of_nat (dec_value 0 a))"
    using Cons.prems by (intro atoi_spec) (auto simp: is_digit_def)
  then show ?case using Cons by simp
qed simp

section \<open>wc.c and grep.c: the files\<close>

fun wc_args :: "(byte list \<Rightarrow> (byte list list \<times> bool) option) \<Rightarrow> byte list list \<Rightarrow> byte list res" where
  "wc_args opn [] = Inr []"
| "wc_args opn (a # as) =
     (case opn a of
        None \<Rightarrow> printf (\<lambda>p. a) (msg ''wc: cannot open %s'' @ [10, 0]) [1]
      | Some (reads, failed) \<Rightarrow>
          bindE (wc reads failed 1 (\<lambda>p. a)) (\<lambda>out. if failed then Inr out else mapE (append out) (wc_args opn as)))"

definition wc_main :: "(byte list \<Rightarrow> (byte list list \<times> bool) option) \<Rightarrow> byte list list \<times> bool \<Rightarrow> byte list list \<Rightarrow> byte list res" where
  "wc_main opn stdin argv =
     (if length argv \<le> 1 then wc (fst stdin) (snd stdin) 1 (\<lambda>p. []) else wc_args opn (tl argv))"

fun grep_args :: "byte list \<Rightarrow> (byte list \<Rightarrow> byte list list option) \<Rightarrow> byte list list \<Rightarrow> byte list res" where
  "grep_args pattern opn [] = Inr []"
| "grep_args pattern opn (a # as) =
     (case opn a of
        None \<Rightarrow> printf (\<lambda>p. a) (msg ''grep: cannot open %s'' @ [10, 0]) [1]
      | Some chunks \<Rightarrow> mapE (append (grep pattern [] chunks)) (grep_args pattern opn as))"

definition grep_main :: "(byte list \<Rightarrow> byte list list option) \<Rightarrow> byte list list \<Rightarrow> byte list list \<Rightarrow> byte list res" where
  "grep_main opn stdin argv =
     (if length argv \<le> 1 then printf (\<lambda>p. []) (msg ''usage: grep pattern [file ...]'' @ [10, 0]) []
      else if length argv \<le> 2 then Inr (grep (argv ! 1) [] stdin)
      else grep_args (argv ! 1) opn (drop 2 argv))"

text \<open>One line per file, with the numbers of lines, words and bytes of its contents.\<close>

definition wc_line :: "byte list \<Rightarrow> byte list \<Rightarrow> byte list res" where
  "wc_line name bs =
     printf (\<lambda>p. name) (msg ''%d %d %d %s'' @ [10, 0])
       [of_nat (count_list bs 10), of_nat (card (word_starts bs)), of_nat (length bs), 1]"

fun each_line :: "(byte list \<Rightarrow> byte list) \<Rightarrow> byte list list \<Rightarrow> byte list res" where
  "each_line cont [] = Inr []"
| "each_line cont (a # as) = bindE (wc_line a (cont a)) (\<lambda>out. mapE (append out) (each_line cont as))"

lemma wc_files:
  assumes "\<And>a. a \<in> set as \<Longrightarrow> \<exists>reads. opn a = Some (reads, False) \<and> concat reads = cont a"
  shows "wc_args opn as = each_line cont as"
  using assms
proof (induction as)
  case (Cons a as)
  obtain reads where r: "opn a = Some (reads, False)" "concat reads = cont a" using Cons.prems by auto
  have "wc reads False 1 (\<lambda>p. a) = wc_line a (cont a)"
    by (simp add: wc_def wc_counts wc_line_def Let_def r(2))
  then show ?case using Cons r by simp
qed simp

section \<open>init.c\<close>

text \<open>
  \<open>init_start\<close> opens the console, makes it if need be, and duplicates it. The loop takes what the
  \<open>fork\<close> calls and the \<open>wait\<close> calls of the parent answer, as far as they are known.
\<close>

definition init_start :: "(byte list, 's) sysc \<Rightarrow> (byte list, 's) sysc \<Rightarrow> (nat, 's) sysc \<Rightarrow> 's \<Rightarrow> 's" where
  "init_start opn mknod dup s =
     (let (fd, s) = opn (msg ''console'') s;
          s = (if fd < 0 then snd (opn (msg ''console'') (snd (mknod (msg ''console'') s))) else s)
      in snd (dup 0 (snd (dup 0 s))))"

text \<open>Waits until the shell is gone or there is no child left; the answers not taken yet come back.\<close>

fun init_waits :: "int \<Rightarrow> int list \<Rightarrow> byte list \<times> int list" where
  "init_waits pid [] = ([], [])"
| "init_waits pid (w # ws) =
     (if w \<ge> 0 \<and> w \<noteq> pid then let (out, ws) = init_waits pid ws in (msg ''zombie!'' @ [10] @ out, ws) else ([], ws))"

text \<open>The second part tells whether \<open>init\<close> has given up.\<close>

fun init_loop :: "int list \<Rightarrow> int list \<Rightarrow> byte list \<times> bool" where
  "init_loop [] ws = ([], False)"
| "init_loop (pid # forks) ws =
     (if pid < 0 then (msg ''init: starting sh'' @ [10] @ msg ''init: fork failed'' @ [10], True)
      else
        let (out, ws) = init_waits pid ws; (rest, gone) = init_loop forks ws
        in (msg ''init: starting sh'' @ [10] @ out @ rest, gone))"

text \<open>The child of \<open>init\<close>: \<open>exec\<close> returns only when it fails.\<close>

definition init_child :: "(byte list, 's) sysc \<Rightarrow> 's \<Rightarrow> byte list \<times> 's" where
  "init_child exec s = (msg ''init: exec sh failed'' @ [10], snd (exec (msg ''sh'') s))"

text \<open>
  Between two shells \<open>init\<close> reaps every orphan it is told of, one message each, up to the shell
  itself; it gives up exactly when a \<open>fork\<close> fails.
\<close>

lemma init_reaps:
  "\<forall>w \<in> set os. 0 \<le> w \<and> w \<noteq> pid \<Longrightarrow>
     init_waits pid (os @ pid # ws) = (concat (replicate (length os) (msg ''zombie!'' @ [10])), ws)"
  by (induction os) auto

lemma init_stays: "snd (init_loop forks ws) \<longleftrightarrow> (\<exists>pid \<in> set forks. pid < 0)"
proof (induction forks ws rule: init_loop.induct)
  case (2 pid forks ws)
  then show ?case by (auto split: prod.splits)
qed simp

end
