(* ===== verification/Spec2Isabelle.thy ===== *)
theory Spec2Isabelle
  imports Sem_Properties Pipe Bio Log Vm_Properties Fs_Properties Process Sh_Main Grep Umalloc Printf Kbd Polygons Prodcons Programs Ps Mkfs Boot Machine Memide Kernel_Calls Exec_Stack Vm_Free Devices Utilities
begin

text \<open>
  A verification development of the solutions to the exercises of an operating systems course.
  The exercises are programs for Unix (\<open>src/ex1\<close>, \<open>src/ex2/q1\<close>) and extensions of the teaching
  kernel xv6 for 32-bit x86: calls that read the process table (\<open>src/ex2/q2/xv6\<close>) and named
  semaphores (\<open>src/ex3/q1/xv6\<close>). The third copy of the kernel, \<open>src/xv6-rev10\<close>, is the one before
  the exercises. A file name below without a directory is one of \<open>src/ex3/q1/xv6\<close>.

  \<^bold>\<open>How the program is put together.\<close> The boot loader reads the kernel from the disk. \<open>main\<close> sets up
  memory, interrupt controllers, tables and the first process; then every processor runs the
  scheduler. Processes enter the kernel by traps. \<open>syscall\<close> calls an entry of a table, and the
  entries work on the process table, on page tables over the page allocator, on open files over
  pipes and inodes, and on semaphores. Inodes live in disk blocks, which go through the log and
  the buffer cache to the disk driver. Waiting is always \<open>sleep\<close> on an address and \<open>wakeup\<close> of it.
  The user programs use the kernel through its calls.

  \<^bold>\<open>How the code is modelled.\<close> A C \<open>int\<close> is a \<open>32 word\<close>, a \<open>char\<close> an \<open>8 word\<close>, and signed
  comparisons read it with \<open>sint\<close>. Structures are records with the fields of the code, tables are
  lists of fixed length, pointers into tables are indices, and pointers into memory are words.
  Functions take the state they change and return it. Panics, null and wild accesses are values
  of the result type \<open>res\<close> (\<open>Inl\<close>), return values of the code, -1 among them, are results (\<open>Inr\<close>).
  Code between two points where another process may run is one function; what runs interleaved
  is a step relation on states with the position of each process as part of the state.

  \<^bold>\<open>Theories and sources.\<close>
  \<^item> \<open>Prelude\<close>: result type, scan of a table, bytes of words, counting of descriptors, lists.
  \<^item> \<open>Cstring\<close>: \<open>string.c\<close> and the string functions of \<open>ulib.c\<close>, with what they compute.
  \<^item> \<open>Kalloc\<close>: \<open>kalloc.c\<close>; the free list is the chain of pointers in the free pages.
  \<^item> \<open>Spinlock\<close>: \<open>spinlock.c\<close> instruction by instruction on any number of processors.
  \<^item> \<open>Proc_Table\<close>: process table, \<open>allocproc\<close>, \<open>sleep\<close>, \<open>wakeup\<close>, \<open>kill\<close> and the scheduler of \<open>proc.c\<close>.
  \<^item> \<open>Sem\<close>: \<open>sem.c\<close>. \<open>Syscall\<close>: argument fetching of \<open>syscall.c\<close>. \<open>Sem_System\<close>: \<open>syssem.c\<close> and all
    interleavings of its sections, with \<open>fork\<close>, \<open>exit\<close>, \<open>wait\<close> and \<open>kill\<close>. \<open>Sem_Invariant\<close>,
    \<open>Sem_Correct\<close> and \<open>Sem_Runs\<close> hold the invariant and its proof, \<open>Sem_Properties\<close> what follows.
  \<^item> \<open>Pipe\<close>: \<open>pipe.c\<close>, its ring buffer and its interleavings.
  \<^item> \<open>Bio\<close>: \<open>sleeplock.c\<close>, \<open>bio.c\<close> and \<open>ide.c\<close>; \<open>Memide\<close>: \<open>memide.c\<close>; \<open>Log\<close>: \<open>log.c\<close> with crashes.
  \<^item> \<open>Fs\<close> and \<open>Files\<close>: \<open>fs.c\<close>, blocks and inodes, then contents, directories and paths.
    \<open>Fs_Content\<close> gives a file as a function from positions to bytes, \<open>Fs_Properties\<close> the theorems.
  \<^item> \<open>Open_Files\<close>: \<open>file.c\<close>; \<open>Sysfile\<close>: \<open>sysfile.c\<close>.
  \<^item> \<open>Vm\<close>: \<open>vm.c\<close>; \<open>Vm_Correct\<close> and \<open>Vm_Space\<close>: who owns which page and what an address reads as;
    \<open>Vm_Properties\<close> and \<open>Vm_Free\<close>: the theorems, for several address spaces in one memory.
  \<^item> \<open>Exec\<close>: \<open>exec.c\<close> and \<open>loaduvm\<close>; \<open>Exec_Stack\<close>: the stack a new program finds.
  \<^item> \<open>Process\<close>: \<open>userinit\<close>, \<open>growproc\<close>, \<open>fork\<close>, \<open>exit\<close> and \<open>wait\<close> of \<open>proc.c\<close> over all of the above,
    \<open>sysproc.c\<close>, and the calls of \<open>src/ex2/q2/xv6\<close> that read the process table.
  \<^item> \<open>Trap\<close>: \<open>trap.c\<close> and the table of \<open>syscall.c\<close>; \<open>Kernel_Calls\<close>: what the entries do and the runs of
    the kernel. \<open>Descriptors\<close>, \<open>File_References\<close> and \<open>Fork_Child\<close> are proofs about these runs.
  \<^item> \<open>Boot\<close>: \<open>bootmain.c\<close>; \<open>Machine\<close>: \<open>mp.c\<close>, \<open>ioapic.c\<close>, the clock of \<open>lapic.c\<close>; \<open>Devices\<close>: the segments of
    \<open>vm.c\<close>, the rest of \<open>lapic.c\<close>, \<open>picirq.c\<close>, \<open>uart.c\<close> and \<open>main.c\<close>.
  \<^item> \<open>Console\<close> and \<open>Kbd\<close>: \<open>console.c\<close> and \<open>kbd.c\<close>; \<open>Printf\<close>: \<open>printf.c\<close> and \<open>cprintf\<close>.
  \<^item> \<open>Mkfs\<close>: \<open>mkfs.c\<close>, which writes the first image of the file system.
  \<^item> User programs: \<open>Sh\<close>, \<open>Sh_Run\<close> and \<open>Sh_Main\<close> (\<open>sh.c\<close>: parser, \<open>runcmd\<close>, main loop), \<open>Umalloc\<close>
    (\<open>umalloc.c\<close>), \<open>Grep\<close>, \<open>Programs\<close> and \<open>Utilities\<close> (\<open>wc\<close>, \<open>cat\<close>, \<open>echo\<close>, \<open>ls\<close>, \<open>rm\<close>, \<open>mkdir\<close>, \<open>ln\<close>,
    \<open>kill\<close>, \<open>init\<close>), \<open>Prodcons\<close> (\<open>pc.c\<close>), \<open>Ps\<close> (\<open>ps.c\<close> of exercise 2), \<open>Polygons\<close> (the programs of
    \<open>src/ex1/q1\<close> and \<open>src/ex2/q1\<close>).

  \<^bold>\<open>What the theorems show.\<close>
  \<^item> Semaphores: units are neither made nor lost, no wakeup is lost, reference counts are exact and
    counters stay in their bounds, in every interleaving of \<open>clean\<close> steps; \<open>sem_open_race\<close> and
    \<open>sem_open_reopens\<close> show what goes wrong outside of these. \<open>Prodcons\<close> rests on an interface of
    counting semaphores only and ends with all messages produced and consumed.
  \<^item> Kernel: over all calls of all processes open files are counted exactly and descriptors are of
    open pipes and inodes (\<open>kernel_run\<close>, which \<open>kernel_main\<close> starts); \<open>fork\<close> makes a copy;
    \<open>exec\<close> gives \<open>main\<close> its arguments; arguments of calls lie inside the process.
  \<^item> Memory: pages are handed out once; growing, shrinking, copying and writing user memory do to the
    bytes of one process what they should and nothing to another, and giving an address space up returns
    all its pages.
  \<^item> Disk: reads return what was last written, a crash leaves the old or the new state, an admitted
    operation finds room in the log, writing and reading files agree with the contents as a
    function, and the image of \<open>mkfs\<close> meets the invariant these theorems assume.
  \<^item> Pipes, console and locks: the bytes come out as they went in, lines follow the line discipline,
    and one processor at a time is in a critical section.
  \<^item> Programs: the parser of the shell returns on every line, pipelines are wired as written,
    \<open>grep\<close> agrees with a relational meaning of patterns, \<open>malloc\<close> never hands out overlapping
    blocks, printed numbers read back, the readers of the polygon program change nothing, and \<open>ps\<close>
    prints a family once.

  \<^bold>\<open>Interfaces.\<close> Each locale is interpreted on the code's own operations: \<open>page_allocator\<close> (\<open>Kalloc\<close>),
  \<open>bounded_queue\<close> on the ring of a pipe and \<open>condition_variable\<close> on readers and writers of a pipe
  (\<open>Pipe\<close>) and on processes that wait for the console (\<open>Console\<close>), and \<open>counting_semaphores\<close> on the
  semaphores of the kernel (\<open>Prodcons\<close>).

  \<^bold>\<open>Bounds and fuel.\<close> The parser of the shell has a bound on the depth of its calls, four times the
  length of the line plus four, and \<open>parsecmd_returns\<close> shows that it is never reached. The
  recursion of \<open>ps\<close> has fuel; the number of entries of the process table plus one is enough when
  parents form a tree, as \<open>ps_prints_family\<close> shows. All other loops are total functions. Waiting for a
  device is a step that may not come, a result \<open>None\<close>, or left out where the text of a definition says so.

  \<^bold>\<open>Parameters.\<close> The addresses the linker gives, what devices answer, the bytes of files and disks, and
  the answers of system calls in the user programs are arguments of the definitions.

  \<^bold>\<open>Not modelled.\<close> Assembly (\<open>bootasm.S\<close>, \<open>swtch.S\<close>, \<open>trapasm.S\<close> and others) and generated files; the
  context switch appears as the points where another process may run. Of \<open>main.c\<close> the steps that
  only initialise locks, and the wait for other processors. Of the polygon programs the creation
  of processes and pipes and the rounding of perimeters; of \<open>pc.c\<close> the texts of messages. Tests
  (\<open>usertests.c\<close>, \<open>forktest.c\<close>, \<open>stressfs.c\<close>, \<open>test.c\<close>, \<open>pt.c\<close>, \<open>zombie.c\<close>), which only call what is
  modelled. The other copies of the kernel: their files are those of \<open>src/ex3/q1/xv6\<close>, line by
  line, or lack its semaphores.
\<close>

end
